(* ===== verification/Prelude.thy ===== *)
theory Prelude
  imports Main "HOL-Library.Word"
begin

text \<open>
  The vocabulary every other theory uses: names for the machine integers of the C code, the
  addresses of its objects, chains of \<open>next\<close> pointers in a heap, and the generic lemmas on
  lists and words that carry the component proofs.

  A C pointer is a \<^typ>\<open>nat\<close>; \<open>NULL\<close> is 0. A field of a structure is a function from
  addresses to the field's value, so that two pointers to one object alias as they do in C.
\<close>

unbundle bit_operations_syntax

type_synonym u8 = "8 word"
type_synonym u16 = "16 word"
type_synonym u32 = "32 word"
type_synonym ptr = nat

abbreviation NULL :: ptr where
  "NULL \<equiv> 0"

text \<open>Rules that hold of every pointer chain.\<close>

named_theorems chain_rules
named_theorems chain_intros

section \<open>Chains of next pointers\<close>

text \<open>
  \<open>chain n p xs\<close>: following \<open>n\<close> from \<open>p\<close> visits exactly the objects \<open>xs\<close> and then
  reaches \<open>NULL\<close>. \<open>seg n p xs q\<close> is the same for a segment that ends at \<open>q\<close>.
\<close>

fun seg :: "(ptr \<Rightarrow> ptr) \<Rightarrow> ptr \<Rightarrow> ptr list \<Rightarrow> ptr \<Rightarrow> bool" where
  "seg n p [] q \<longleftrightarrow> p = q"
| "seg n p (x # xs) q \<longleftrightarrow> p = x \<and> x \<noteq> NULL \<and> seg n (n x) xs q"

definition chain :: "(ptr \<Rightarrow> ptr) \<Rightarrow> ptr \<Rightarrow> ptr list \<Rightarrow> bool" where
  "chain n p xs \<longleftrightarrow> seg n p xs NULL"

lemma chain_Nil [simp, chain_rules]: "chain n p [] \<longleftrightarrow> p = NULL"
  by (simp add: chain_def)

lemma chain_Cons [simp, chain_rules]:
  "chain n p (x # xs) \<longleftrightarrow> p = x \<and> x \<noteq> NULL \<and> chain n (n x) xs"
  by (simp add: chain_def)

lemma chain_NULL [simp, chain_rules]: "chain n NULL xs \<longleftrightarrow> xs = []"
  by (cases xs) auto

lemma chain_nonNULL: "chain n p xs \<Longrightarrow> p \<noteq> NULL \<Longrightarrow> \<exists>ys. xs = p # ys \<and> chain n (n p) ys"
  by (cases xs) auto

lemma chain_nonempty: "chain n p xs \<Longrightarrow> xs \<noteq> [] \<Longrightarrow> p \<noteq> NULL"
  by (cases xs) auto

lemma seg_append [chain_rules]:
  "seg n p (xs @ ys) q \<longleftrightarrow> (\<exists>r. seg n p xs r \<and> seg n r ys q)"
  by (induction xs arbitrary: p) auto

lemma chain_append [chain_rules]:
  "chain n p (xs @ ys) \<longleftrightarrow> (\<exists>r. seg n p xs r \<and> chain n r ys)"
  by (simp add: chain_def seg_append)

lemma seg_upd [simp, chain_rules]: "x \<notin> set xs \<Longrightarrow> seg (n(x := v)) p xs q \<longleftrightarrow> seg n p xs q"
  by (induction xs arbitrary: p) auto

lemma chain_upd [simp, chain_rules]: "x \<notin> set xs \<Longrightarrow> chain (n(x := v)) p xs \<longleftrightarrow> chain n p xs"
  by (simp add: chain_def)

lemma seg_cong_on: "\<forall>x \<in> set xs. n x = m x \<Longrightarrow> seg n p xs q \<longleftrightarrow> seg m p xs q"
  by (induction xs arbitrary: p) simp_all

lemma chain_cong_on: "\<forall>x \<in> set xs. n x = m x \<Longrightarrow> chain n p xs \<longleftrightarrow> chain m p xs"
  unfolding chain_def by (rule seg_cong_on)

lemma chain_det: "chain n p xs \<Longrightarrow> chain n p ys \<Longrightarrow> xs = ys"
proof (induction xs arbitrary: p ys)
  case Nil
  then show ?case by simp
next
  case (Cons x xs)
  from Cons.prems obtain zs where ys: "ys = p # zs" and "chain n (n p) zs"
    using chain_nonNULL by force
  moreover from Cons.prems(1) have p: "p = x" and "chain n (n p) xs" by auto
  ultimately have "xs = zs" by (blast intro: Cons.IH)
  with ys p show ?case by simp
qed

lemma chain_suffix: "chain n p (xs @ ys) \<Longrightarrow> ys \<noteq> [] \<Longrightarrow> chain n (hd ys) ys"
  by (cases ys) (auto simp: chain_append)

text \<open>A chain that ends never visits an object twice: each suffix is determined by its start.\<close>

lemma chain_distinct [chain_intros]: "chain n p xs \<Longrightarrow> distinct xs"
proof (induction xs arbitrary: p)
  case Nil
  then show ?case by simp
next
  case (Cons x xs)
  have "x \<notin> set xs"
  proof
    assume "x \<in> set xs"
    then obtain us vs where xs: "xs = us @ x # vs"
      by (meson split_list)
    from Cons.prems have "chain n x (x # xs)" by simp
    moreover from Cons.prems have "chain n x (x # vs)"
      using chain_suffix [of n "n x" us "x # vs"] by (simp add: xs)
    ultimately have "x # xs = x # vs" by (rule chain_det)
    with xs show False by simp
  qed
  with Cons show ?case by auto
qed

lemma chain_set_nonNULL: "chain n p xs \<Longrightarrow> x \<in> set xs \<Longrightarrow> x \<noteq> NULL"
  by (induction xs arbitrary: p) auto

lemma chain_in_set_split:
  assumes "chain n p xs" and "x \<in> set xs"
  obtains us vs where "xs = us @ x # vs" and "seg n p us x" and "chain n (n x) vs"
    and "x \<notin> set us" and "x \<notin> set vs"
proof -
  from assms(2) obtain us vs where xs: "xs = us @ x # vs" by (meson split_list)
  with assms(1) have "seg n p us x" and "chain n (n x) vs"
    by (auto simp: chain_append)
  moreover from assms(1) have "distinct xs" by (rule chain_distinct)
  ultimately show ?thesis using that xs by auto
qed

lemma seg_snoc: "seg n p (xs @ [y]) q \<longleftrightarrow> seg n p xs y \<and> y \<noteq> NULL \<and> n y = q"
  by (auto simp: seg_append)

lemma chain_snoc: "chain n p (xs @ [y]) \<longleftrightarrow> seg n p xs y \<and> y \<noteq> NULL \<and> n y = NULL"
  by (auto simp: chain_append)

section \<open>Lists\<close>

lemma remove1_append_split: "x \<notin> set us \<Longrightarrow> remove1 x (us @ x # vs) = us @ vs"
  by (induction us) auto

lemma upd_nth_eq_self: "xs[i := xs ! i] = xs"
  by (rule list_update_id)

lemma map_nth_upt: "n \<le> length xs \<Longrightarrow> map ((!) xs) [0..<n] = take n xs"
  by (rule nth_equalityI) auto

section \<open>Words\<close>

lemma uint_neq_minus_1 [simp]: "uint w \<noteq> - 1"
proof -
  have "0 \<le> uint w" by simp
  then show ?thesis by linarith
qed

lemma xor_eq_zero_iff: "a XOR b = (0 :: 'a::len word) \<longleftrightarrow> a = b"
  by (auto simp: bit_eq_iff bit_xor_iff)

text \<open>The values of four bits, for proofs by cases over a nibble or the bits of a 16-bit word.\<close>

lemma less_16:
  "(n :: nat) < 16 \<Longrightarrow>
     n = 15 \<or> n = 14 \<or> n = 13 \<or> n = 12 \<or> n = 11 \<or> n = 10 \<or> n = 9 \<or> n = 8 \<or>
     n = 7 \<or> n = 6 \<or> n = 5 \<or> n = 4 \<or> n = 3 \<or> n = 2 \<or> n = 1 \<or> n = 0"
  by presburger

end
