(* ===== verification/Simulation.thy ===== *)
theory Simulation
  imports Prelude
begin

text \<open>
  The interface of a component that promises an abstract data type: its operations, as partial
  functions on its state (\<open>None\<close>: the C code does not return, or leaves the states the contract
  speaks of), simulate total operations on an abstract value. The client's lemmas, on whole
  sequences of operations, are proved once here.
\<close>

fun run_ops :: "('op \<Rightarrow> 's \<Rightarrow> 's option) \<Rightarrow> 'op list \<Rightarrow> 's \<Rightarrow> 's option" where
  "run_ops f [] s = Some s"
| "run_ops f (x # xs) s = (case f x s of None \<Rightarrow> None | Some t \<Rightarrow> run_ops f xs t)"

fun ops_allowed :: "('op \<Rightarrow> 'a \<Rightarrow> bool) \<Rightarrow> ('op \<Rightarrow> 'a \<Rightarrow> 'a) \<Rightarrow> 'op list \<Rightarrow> 'a \<Rightarrow> bool" where
  "ops_allowed ok g [] a \<longleftrightarrow> True"
| "ops_allowed ok g (x # xs) a \<longleftrightarrow> ok x a \<and> ops_allowed ok g xs (g x a)"

lemma run_ops_append:
  "run_ops f (xs @ ys) s = (case run_ops f xs s of None \<Rightarrow> None | Some t \<Rightarrow> run_ops f ys t)"
  by (induction xs arbitrary: s) (auto split: option.splits)

lemma ops_allowed_True: "(\<And>x a. ok x a) \<Longrightarrow> ops_allowed ok g xs a"
  by (induction xs arbitrary: a) auto

locale partial_simulation =
  fixes step :: "'op \<Rightarrow> 's \<Rightarrow> 's option"
    and astep :: "'op \<Rightarrow> 'a \<Rightarrow> 'a"
    and ok :: "'op \<Rightarrow> 'a \<Rightarrow> bool"
    and repr :: "'s \<Rightarrow> 'a \<Rightarrow> bool"
  assumes step_simulates: "repr s a \<Longrightarrow> ok x a \<Longrightarrow> \<exists>t. step x s = Some t \<and> repr t (astep x a)"
begin

lemma run_simulates:
  "repr s a \<Longrightarrow> ops_allowed ok astep xs a \<Longrightarrow> \<exists>t. run_ops step xs s = Some t \<and> repr t (fold astep xs a)"
proof (induction xs arbitrary: s a)
  case Nil
  then show ?case by simp
next
  case (Cons x xs)
  then obtain t where "step x s = Some t" and "repr t (astep x a)"
    using step_simulates [of s a x] by auto
  with Cons show ?case by simp
qed

lemma run_returns: "repr s a \<Longrightarrow> ops_allowed ok astep xs a \<Longrightarrow> run_ops step xs s \<noteq> None"
  using run_simulates by fastforce

lemma run_invariant:
  assumes "repr s a" and "ops_allowed ok astep xs a" and "run_ops step xs s = Some t"
    and "\<And>t b. repr t b \<Longrightarrow> P t"
  shows "P t"
  using run_simulates [OF assms(1,2)] assms(3,4) by auto

end

end
