(* ===== verification/Clist.thy ===== *)
theory Clist
  imports Simulation "HOL-Library.Monad_Syntax"
begin

text \<open>
  The linked list library, \<open>core/lib/list.c\<close>. A list (\<open>list_t\<close>) is the address of a cell that
  holds the first element; an element is any object whose first field is its \<open>next\<close> pointer.
  The store keeps both: \<open>heads\<close> for the cells, \<open>nxt\<close> for the elements, so that two lists may
  share elements as they do in C. A loop over \<open>next\<close> pointers returns only if the chain ends,
  so the loops are partial functions, \<open>None\<close> meaning that the C function does not return.
\<close>

section \<open>The code\<close>

record lstore =
  heads :: "ptr \<Rightarrow> ptr"
  nxt :: "ptr \<Rightarrow> ptr"

definition set_head :: "ptr \<Rightarrow> ptr \<Rightarrow> 'a lstore_scheme \<Rightarrow> 'a lstore_scheme" where
  "set_head l p s = s\<lparr>heads := (heads s)(l := p)\<rparr>"

definition set_next :: "ptr \<Rightarrow> ptr \<Rightarrow> 'a lstore_scheme \<Rightarrow> 'a lstore_scheme" where
  "set_next x p s = s\<lparr>nxt := (nxt s)(x := p)\<rparr>"

definition list_init :: "ptr \<Rightarrow> 'a lstore_scheme \<Rightarrow> 'a lstore_scheme" where
  "list_init list s = set_head list NULL s"

definition list_head :: "ptr \<Rightarrow> 'a lstore_scheme \<Rightarrow> ptr" where
  "list_head list s = heads s list"

definition list_copy :: "ptr \<Rightarrow> ptr \<Rightarrow> 'a lstore_scheme \<Rightarrow> 'a lstore_scheme" where
  "list_copy dest src s = set_head dest (heads s src) s"

partial_function (option) tail_loop :: "(ptr \<Rightarrow> ptr) \<Rightarrow> ptr \<Rightarrow> ptr option" where
  "tail_loop n l = (if n l \<noteq> NULL then tail_loop n (n l) else Some l)"

definition list_tail :: "ptr \<Rightarrow> 'a lstore_scheme \<Rightarrow> ptr option" where
  "list_tail list s =
     (if heads s list = NULL then Some NULL else tail_loop (nxt s) (heads s list))"

partial_function (option) remove_loop ::
    "ptr \<Rightarrow> ptr \<Rightarrow> ptr \<Rightarrow> ptr \<Rightarrow> 'a lstore_scheme \<Rightarrow> 'a lstore_scheme option" where
  "remove_loop list item l r s =
     (if l = NULL then Some s
      else if l = item then
        Some (set_next l NULL
          (if r = NULL then set_head list (nxt s l) s else set_next r (nxt s l) s))
      else remove_loop list item (nxt s l) l s)"

definition list_remove :: "ptr \<Rightarrow> ptr \<Rightarrow> 'a lstore_scheme \<Rightarrow> 'a lstore_scheme option" where
  "list_remove list item s =
     (if heads s list = NULL then Some s
      else remove_loop list item (heads s list) NULL s)"

definition list_add :: "ptr \<Rightarrow> ptr \<Rightarrow> 'a lstore_scheme \<Rightarrow> 'a lstore_scheme option" where
  "list_add list item s = do {
     s1 \<leftarrow> list_remove list item s;
     let s2 = set_next item NULL s1;
     l \<leftarrow> list_tail list s2;
     Some (if l = NULL then set_head list item s2 else set_next l item s2)
   }"

definition list_push :: "ptr \<Rightarrow> ptr \<Rightarrow> 'a lstore_scheme \<Rightarrow> 'a lstore_scheme option" where
  "list_push list item s = do {
     s1 \<leftarrow> list_remove list item s;
     Some (set_head list item (set_next item (heads s1 list) s1))
   }"

partial_function (option) chop_loop :: "(ptr \<Rightarrow> ptr) \<Rightarrow> ptr \<Rightarrow> ptr option" where
  "chop_loop n l = (if n (n l) \<noteq> NULL then chop_loop n (n l) else Some l)"

definition list_chop :: "ptr \<Rightarrow> 'a lstore_scheme \<Rightarrow> (ptr \<times> 'a lstore_scheme) option" where
  "list_chop list s =
     (if heads s list = NULL then Some (NULL, s)
      else if nxt s (heads s list) = NULL then
        Some (heads s list, set_head list NULL s)
      else do {
        l \<leftarrow> chop_loop (nxt s) (heads s list);
        Some (nxt s l, set_next l NULL s)
      })"

definition list_pop :: "ptr \<Rightarrow> 'a lstore_scheme \<Rightarrow> ptr \<times> 'a lstore_scheme" where
  "list_pop list s =
     (heads s list,
      if heads s list \<noteq> NULL then set_head list (nxt s (heads s list)) s else s)"

partial_function (option) length_loop :: "(ptr \<Rightarrow> ptr) \<Rightarrow> ptr \<Rightarrow> nat \<Rightarrow> nat option" where
  "length_loop n l k = (if l \<noteq> NULL then length_loop n (n l) (Suc k) else Some k)"

definition list_length :: "ptr \<Rightarrow> 'a lstore_scheme \<Rightarrow> nat option" where
  "list_length list s = length_loop (nxt s) (heads s list) 0"

definition list_insert :: "ptr \<Rightarrow> ptr \<Rightarrow> ptr \<Rightarrow> 'a lstore_scheme \<Rightarrow> 'a lstore_scheme option" where
  "list_insert list previtem newitem s =
     (if previtem = NULL then list_push list newitem s
      else let s1 = set_next newitem (nxt s previtem) s
           in Some (set_next previtem newitem s1))"

definition list_item_next :: "ptr \<Rightarrow> 'a lstore_scheme \<Rightarrow> ptr" where
  "list_item_next item s = (if item = NULL then NULL else nxt s item)"

lemma heads_set_head [simp]: "heads (set_head l p s) = (heads s)(l := p)"
  by (simp add: set_head_def)

lemma nxt_set_head [simp]: "nxt (set_head l p s) = nxt s"
  by (simp add: set_head_def)

lemma heads_set_next [simp]: "heads (set_next x p s) = heads s"
  by (simp add: set_next_def)

lemma nxt_set_next [simp]: "nxt (set_next x p s) = (nxt s)(x := p)"
  by (simp add: set_next_def)


section \<open>What a list cell denotes, and what an operation leaves alone\<close>

definition is_list :: "'a lstore_scheme \<Rightarrow> ptr \<Rightarrow> ptr list \<Rightarrow> bool" where
  "is_list s l xs \<longleftrightarrow> chain (nxt s) (heads s l) xs"

text \<open>\<open>list_frame l A s t\<close>: from \<open>s\<close> to \<open>t\<close> only the cell \<open>l\<close> and the elements in \<open>A\<close> changed.\<close>

definition list_frame :: "ptr \<Rightarrow> ptr set \<Rightarrow> 'a lstore_scheme \<Rightarrow> 'a lstore_scheme \<Rightarrow> bool" where
  "list_frame l A s t \<longleftrightarrow>
     (\<forall>k. k \<noteq> l \<longrightarrow> heads t k = heads s k) \<and> (\<forall>x. x \<notin> A \<longrightarrow> nxt t x = nxt s x) \<and>
     lstore.more t = lstore.more s"

lemma more_set_head [simp]: "lstore.more (set_head l p s) = lstore.more s"
  by (simp add: set_head_def)

lemma more_set_next [simp]: "lstore.more (set_next x p s) = lstore.more s"
  by (simp add: set_next_def)

lemma list_frame_refl [simp]: "list_frame l A s s"
  by (simp add: list_frame_def)

lemma list_frame_trans: "list_frame l A s t \<Longrightarrow> list_frame l B t u \<Longrightarrow> list_frame l (A \<union> B) s u"
  by (simp add: list_frame_def)

lemma list_frame_mono: "list_frame l A s t \<Longrightarrow> A \<subseteq> B \<Longrightarrow> list_frame l B s t"
  by (auto simp: list_frame_def)

lemma list_frame_set_next [simp]: "x \<in> A \<Longrightarrow> list_frame l A s (set_next x p s)"
  by (auto simp: list_frame_def)

lemma list_frame_set_head [simp]: "list_frame l A s (set_head l p s)"
  by (auto simp: list_frame_def)

text \<open>A list whose cell and elements are outside the frame is the same list afterwards.\<close>

lemma is_list_frame:
  assumes "is_list s k ys" and "list_frame l A s t" and "k \<noteq> l" and "set ys \<inter> A = {}"
  shows "is_list t k ys"
proof -
  have "chain (nxt t) (heads s k) ys \<longleftrightarrow> chain (nxt s) (heads s k) ys"
    using assms(2,4) by (intro chain_cong_on) (auto simp: list_frame_def)
  with assms show ?thesis by (simp add: is_list_def list_frame_def)
qed

lemma is_list_distinct: "is_list s l xs \<Longrightarrow> distinct xs"
  by (simp add: is_list_def chain_distinct)

lemma is_list_det: "is_list s l xs \<Longrightarrow> is_list s l ys \<Longrightarrow> xs = ys"
  unfolding is_list_def by (rule chain_det)

lemma is_list_nonNULL: "is_list s l xs \<Longrightarrow> x \<in> set xs \<Longrightarrow> x \<noteq> NULL"
  unfolding is_list_def by (rule chain_set_nonNULL)

lemma is_list_head: "is_list s l xs \<Longrightarrow> list_head l s = (if xs = [] then NULL else hd xs)"
  by (cases xs) (auto simp: is_list_def list_head_def)

lemma is_list_empty_iff: "is_list s l xs \<Longrightarrow> heads s l = NULL \<longleftrightarrow> xs = []"
  by (cases xs) (auto simp: is_list_def)

section \<open>The loops return, and what they return\<close>

lemma tail_loop_chain:
  "chain n p xs \<Longrightarrow> xs \<noteq> [] \<Longrightarrow> tail_loop n p = Some (last xs)"
proof (induction xs arbitrary: p)
  case Nil
  then show ?case by simp
next
  case (Cons x xs)
  show ?case
  proof (cases xs)
    case Nil
    with Cons.prems show ?thesis by (simp add: tail_loop.simps)
  next
    case (Cons y ys)
    with Cons.prems Cons.IH [of "n x"] show ?thesis
      by (simp add: tail_loop.simps [of n x])
  qed
qed

lemma length_loop_chain: "chain n p xs \<Longrightarrow> length_loop n p k = Some (k + length xs)"
proof (induction xs arbitrary: p k)
  case Nil
  then show ?case by (simp add: length_loop.simps)
next
  case (Cons x xs)
  then show ?case by (simp add: length_loop.simps [of n x])
qed

lemma chop_loop_chain:
  "chain n p (xs @ [y, z]) \<Longrightarrow> chop_loop n p = Some y"
proof (induction xs arbitrary: p)
  case Nil
  then show ?case by (auto simp: chop_loop.simps)
next
  case (Cons x xs)
  then have "chain n (n x) (xs @ [y, z])" and p: "p = x" by auto
  with Cons.IH have ih: "chop_loop n (n x) = Some y" by blast
  from \<open>chain n (n x) (xs @ [y, z])\<close> have "n (n x) \<noteq> NULL"
    by (cases xs) (auto dest: chain_nonempty)
  with ih p show ?case by (simp add: chop_loop.simps [of n x])
qed

lemma seg_relink:
  assumes "seg n p (us @ [r]) x" and "distinct (us @ [r])"
  shows "seg (n(r := q)) p (us @ [r]) q"
  using assms by (auto simp: seg_append)

lemma remove_loop_spec:
  assumes "seg (nxt s) (heads s list) us l" and "chain (nxt s) l vs"
    and "distinct (us @ vs)" and "item \<notin> set us"
    and "r = (if us = [] then NULL else last us)"
  shows "\<exists>t. remove_loop list item l r s = Some t \<and> is_list t list (us @ remove1 item vs) \<and>
           list_frame list (set us \<union> set vs) s t \<and> (item \<in> set vs \<longrightarrow> nxt t item = NULL)"
  using assms
proof (induction vs arbitrary: us l r)
  case Nil
  then show ?case by (simp add: remove_loop.simps is_list_def chain_def)
next
  case (Cons v vs)
  then have l: "l = v" "v \<noteq> NULL" and rest: "chain (nxt s) (nxt s v) vs" by auto
  show ?case
  proof (cases "v = item")
    case True
    let ?t1 = "if r = NULL then set_head list (nxt s v) s else set_next r (nxt s v) s"
    let ?t = "set_next v NULL ?t1"
    have run: "remove_loop list item l r s = Some ?t"
      using True l by (simp add: remove_loop.simps)
    have "is_list ?t list (us @ vs)"
    proof (cases us rule: rev_cases)
      case Nil
      with Cons.prems rest show ?thesis by (simp add: is_list_def)
    next
      case (snoc us' r')
      then have r: "r = r'" and "r' \<noteq> NULL"
        using Cons.prems by (auto simp: seg_append)
      with Cons.prems snoc rest show ?thesis
        by (auto simp: is_list_def chain_append seg_append)
    qed
    moreover have "list_frame list (set us \<union> set (v # vs)) s ?t"
      using Cons.prems(5) by (auto simp: list_frame_def)
    ultimately show ?thesis using run True by auto
  next
    case False
    have "seg (nxt s) (heads s list) (us @ [v]) (nxt s v)"
      using Cons.prems l by (simp add: seg_append)
    moreover have "distinct ((us @ [v]) @ vs)" and "item \<notin> set (us @ [v])"
      using Cons.prems False by auto
    ultimately obtain t where "remove_loop list item (nxt s v) v s = Some t"
      and "is_list t list ((us @ [v]) @ remove1 item vs)"
      and "list_frame list (set (us @ [v]) \<union> set vs) s t"
      and "item \<in> set vs \<longrightarrow> nxt t item = NULL"
      using Cons.IH [of "us @ [v]" "nxt s v" v] rest by auto
    moreover have "remove_loop list item l r s = remove_loop list item (nxt s v) v s"
      using False l by (subst remove_loop.simps) simp
    moreover have "set (us @ [v]) \<union> set vs = set us \<union> set (v # vs)" by auto
    ultimately show ?thesis using False by auto
  qed
qed

section \<open>Each operation against the list it denotes\<close>

lemma list_init_spec: "is_list (list_init l s) l []"
  by (simp add: list_init_def is_list_def)

lemma list_copy_spec: "is_list s k xs \<Longrightarrow> is_list (list_copy l k s) l xs"
  by (simp add: list_copy_def is_list_def)

lemma list_tail_spec: "is_list s l xs \<Longrightarrow> list_tail l s = Some (if xs = [] then NULL else last xs)"
  by (auto simp: list_tail_def is_list_def tail_loop_chain)

lemma list_length_spec: "is_list s l xs \<Longrightarrow> list_length l s = Some (length xs)"
  by (simp add: list_length_def is_list_def length_loop_chain)

lemma list_remove_spec:
  assumes "is_list s l xs"
  shows "\<exists>t. list_remove l item s = Some t \<and> is_list t l (remove1 item xs) \<and>
           list_frame l (set xs) s t \<and> (item \<in> set xs \<longrightarrow> nxt t item = NULL)"
proof (cases "xs = []")
  case True
  with assms show ?thesis by (simp add: list_remove_def is_list_def)
next
  case False
  with assms have "heads s l \<noteq> NULL" by (simp add: is_list_empty_iff)
  moreover from assms have "chain (nxt s) (heads s l) xs" and "distinct xs"
    by (simp_all add: is_list_def is_list_distinct chain_distinct)
  ultimately show ?thesis
    using remove_loop_spec [of s l "[]" "heads s l" xs item NULL] by (simp add: list_remove_def)
qed

lemma list_add_spec:
  assumes "is_list s l xs" and "item \<noteq> NULL"
  shows "\<exists>t. list_add l item s = Some t \<and> is_list t l (remove1 item xs @ [item]) \<and>
           list_frame l (insert item (set xs)) s t"
proof -
  obtain t1 where t1: "list_remove l item s = Some t1" and l1: "is_list t1 l (remove1 item xs)"
    and f1: "list_frame l (set xs) s t1"
    using list_remove_spec [OF assms(1)] by blast
  let ?ys = "remove1 item xs" and ?t2 = "set_next item NULL t1"
  have notin: "item \<notin> set ?ys" using is_list_distinct [OF assms(1)] by simp
  with l1 have l2: "is_list ?t2 l ?ys" by (simp add: is_list_def)
  let ?l = "if ?ys = [] then NULL else last ?ys"
  let ?t = "if ?l = NULL then set_head l item ?t2 else set_next ?l item ?t2"
  have run: "list_add l item s = Some ?t"
    using t1 list_tail_spec [OF l2] by (simp add: list_add_def)
  have "is_list ?t l (?ys @ [item])"
  proof (cases ?ys rule: rev_cases)
    case Nil
    with assms(2) show ?thesis by (simp add: is_list_def)
  next
    case (snoc zs z)
    with l2 have seg: "seg (nxt ?t2) (heads ?t2 l) zs z" and z: "z \<noteq> NULL"
      by (auto simp: is_list_def chain_snoc)
    from snoc notin is_list_distinct [OF l1] have "z \<noteq> item" "z \<notin> set zs" by auto
    then show ?thesis using seg z snoc assms(2)
      by (auto simp: is_list_def chain_append seg_append)
  qed
  moreover have "list_frame l (insert item (set xs)) s ?t"
  proof -
    have "?ys \<noteq> [] \<Longrightarrow> last ?ys \<in> set xs" using set_remove1_subset by (meson last_in_set subsetD)
    with f1 show ?thesis by (auto simp: list_frame_def)
  qed
  ultimately show ?thesis using run by blast
qed

lemma list_push_spec:
  assumes "is_list s l xs" and "item \<noteq> NULL"
  shows "\<exists>t. list_push l item s = Some t \<and> is_list t l (item # remove1 item xs) \<and>
           list_frame l (insert item (set xs)) s t"
proof -
  obtain t1 where "list_remove l item s = Some t1" and l1: "is_list t1 l (remove1 item xs)"
    and f1: "list_frame l (set xs) s t1"
    using list_remove_spec [OF assms(1)] by blast
  moreover have "item \<notin> set (remove1 item xs)" using is_list_distinct [OF assms(1)] by simp
  ultimately show ?thesis
    using assms(2) f1 by (auto simp: list_push_def is_list_def list_frame_def)
qed

lemma list_pop_spec:
  assumes "is_list s l xs"
  shows "fst (list_pop l s) = (if xs = [] then NULL else hd xs) \<and>
         is_list (snd (list_pop l s)) l (tl xs) \<and> list_frame l {} s (snd (list_pop l s))"
  using assms by (cases xs) (auto simp: list_pop_def is_list_def)

lemma list_chop_spec:
  assumes "is_list s l xs"
  shows "\<exists>t. list_chop l s = Some (if xs = [] then NULL else last xs, t) \<and>
           is_list t l (butlast xs) \<and> list_frame l (set xs) s t"
proof (cases xs rule: rev_cases)
  case Nil
  with assms show ?thesis by (simp add: list_chop_def is_list_def)
next
  case (snoc ys z)
  show ?thesis
  proof (cases ys rule: rev_cases)
    case Nil
    with snoc assms have "heads s l = z" "z \<noteq> NULL" "nxt s z = NULL" by (auto simp: is_list_def)
    with Nil snoc show ?thesis by (simp add: list_chop_def is_list_def)
  next
    case (snoc ws w)
    with \<open>xs = ys @ [z]\<close> have xs: "xs = ws @ [w, z]" by simp
    with assms have c: "chain (nxt s) (heads s l) (ws @ [w, z])" by (simp add: is_list_def)
    then have w: "seg (nxt s) (heads s l) ws w" "w \<noteq> NULL" "nxt s w = z" "z \<noteq> NULL"
      by (auto simp: chain_append)
    from c have d: "distinct (ws @ [w, z])" by (rule chain_distinct)
    have hne: "heads s l \<noteq> NULL" "nxt s (heads s l) \<noteq> NULL"
      using c by (cases ws; cases "tl ws"; auto dest: chain_set_nonNULL)+
    have "list_chop l s = Some (z, set_next w NULL s)"
      using hne chop_loop_chain [OF c] w by (simp add: list_chop_def)
    moreover have "is_list (set_next w NULL s) l (ws @ [w])"
      using w d by (auto simp: is_list_def chain_append)
    ultimately show ?thesis using xs by (simp add: butlast_append)
  qed
qed

fun insert_after :: "'a \<Rightarrow> 'a \<Rightarrow> 'a list \<Rightarrow> 'a list" where
  "insert_after p x [] = []"
| "insert_after p x (y # ys) = (if y = p then y # x # ys else y # insert_after p x ys)"

lemma insert_after_split: "p \<notin> set us \<Longrightarrow> insert_after p x (us @ p # vs) = us @ p # x # vs"
  by (induction us) auto

lemma list_insert_spec:
  assumes "is_list s l xs" and "prev \<in> set xs" and "new \<notin> set xs" and "new \<noteq> NULL"
  shows "\<exists>t. list_insert l prev new s = Some t \<and> is_list t l (insert_after prev new xs) \<and>
           list_frame l {prev, new} s t"
proof -
  obtain us vs where xs: "xs = us @ prev # vs" and seg: "seg (nxt s) (heads s l) us prev"
    and c: "chain (nxt s) (nxt s prev) vs" and nin: "prev \<notin> set us" "prev \<notin> set vs"
    using chain_in_set_split assms(1,2) unfolding is_list_def by metis
  have "prev \<noteq> NULL" using is_list_nonNULL [OF assms(1,2)] .
  moreover from this have
    "list_insert l prev new s = Some (set_next prev new (set_next new (nxt s prev) s))"
    by (simp add: list_insert_def)
  moreover have "is_list (set_next prev new (set_next new (nxt s prev) s)) l (us @ prev # new # vs)"
    using xs seg c nin assms(3,4) \<open>prev \<noteq> NULL\<close>
    by (auto simp: is_list_def chain_append)
  ultimately show ?thesis using xs nin
    by (auto simp: insert_after_split list_frame_def)
qed


section \<open>Sequences of operations refine sequences of list operations\<close>

datatype list_op = L_init | L_add ptr | L_push ptr | L_remove ptr | L_pop | L_chop

fun list_exec :: "ptr \<Rightarrow> list_op \<Rightarrow> 'a lstore_scheme \<Rightarrow> 'a lstore_scheme option" where
  "list_exec l L_init s = Some (list_init l s)"
| "list_exec l (L_add x) s = list_add l x s"
| "list_exec l (L_push x) s = list_push l x s"
| "list_exec l (L_remove x) s = list_remove l x s"
| "list_exec l L_pop s = Some (snd (list_pop l s))"
| "list_exec l L_chop s = map_option snd (list_chop l s)"

fun list_model :: "list_op \<Rightarrow> ptr list \<Rightarrow> ptr list" where
  "list_model L_init xs = []"
| "list_model (L_add x) xs = remove1 x xs @ [x]"
| "list_model (L_push x) xs = x # remove1 x xs"
| "list_model (L_remove x) xs = remove1 x xs"
| "list_model L_pop xs = tl xs"
| "list_model L_chop xs = butlast xs"

text \<open>The elements an operation may bring into the list: objects of the pool \<open>E\<close>, never \<open>NULL\<close>.\<close>

fun list_op_ok :: "ptr set \<Rightarrow> list_op \<Rightarrow> bool" where
  "list_op_ok E (L_add x) \<longleftrightarrow> x \<in> E \<and> x \<noteq> NULL"
| "list_op_ok E (L_push x) \<longleftrightarrow> x \<in> E \<and> x \<noteq> NULL"
| "list_op_ok E _ \<longleftrightarrow> True"

definition list_repr ::
    "ptr \<Rightarrow> ptr set \<Rightarrow> 'a lstore_scheme \<Rightarrow> 'a lstore_scheme \<Rightarrow> ptr list \<Rightarrow> bool" where
  "list_repr l E s0 s xs \<longleftrightarrow> is_list s l xs \<and> set xs \<subseteq> E \<and> list_frame l E s0 s"

lemma list_exec_spec:
  assumes "is_list s l xs" and "list_op_ok E x" and "set xs \<subseteq> E"
  shows "\<exists>t. list_exec l x s = Some t \<and> is_list t l (list_model x xs) \<and> list_frame l E s t"
proof (cases x)
  case L_init
  then show ?thesis by (simp add: list_init_spec) (simp add: list_init_def)
next
  case (L_add y)
  then have E: "insert y (set xs) \<subseteq> E" and y: "y \<noteq> NULL" using assms(2,3) by auto
  show ?thesis
    using list_add_spec [OF assms(1) y] L_add list_frame_mono [OF _ E] by auto
next
  case (L_push y)
  then have E: "insert y (set xs) \<subseteq> E" and y: "y \<noteq> NULL" using assms(2,3) by auto
  show ?thesis
    using list_push_spec [OF assms(1) y] L_push list_frame_mono [OF _ E] by auto
next
  case (L_remove y)
  then show ?thesis using list_remove_spec [OF assms(1), of y] assms(3)
    by (auto dest: list_frame_mono)
next
  case L_pop
  then show ?thesis using list_pop_spec [OF assms(1)] by (auto dest: list_frame_mono)
next
  case L_chop
  then show ?thesis using list_chop_spec [OF assms(1)] assms(3) by (auto dest: list_frame_mono)
qed

lemma set_list_model: "set xs \<subseteq> E \<Longrightarrow> list_op_ok E x \<Longrightarrow> set (list_model x xs) \<subseteq> E"
  by (cases x; cases xs) (auto dest: in_set_butlastD notin_set_remove1 split: if_splits)

interpretation clist: partial_simulation "list_exec l" list_model "\<lambda>x _. list_op_ok E x"
    "list_repr l E s0"
proof unfold_locales
  fix s xs x
  assume r: "list_repr l E s0 s xs" and ok: "list_op_ok E x"
  then obtain t where t: "list_exec l x s = Some t" "is_list t l (list_model x xs)" "list_frame l E s t"
    using list_exec_spec unfolding list_repr_def by blast
  moreover have "list_frame l E s0 t"
    using r t(3) list_frame_trans [of l E s0 s E t] by (simp only: list_repr_def Un_absorb)
  ultimately show "\<exists>t. list_exec l x s = Some t \<and> list_repr l E s0 t (list_model x xs)"
    using r ok set_list_model unfolding list_repr_def by blast
qed

lemma ops_allowed_static: "(\<forall>x \<in> set xs. P x) \<Longrightarrow> ops_allowed (\<lambda>x _. P x) g xs a"
  by (induction xs arbitrary: a) auto

text \<open>C1: every sequence of add, push, remove, pop, chop and init operations on a list returns,
  leaves a well-formed list without duplicates that holds exactly the elements the operations
  describe, in their order, and changes no other list whose elements are not in play.\<close>

theorem list_ops_refine:
  assumes "is_list s l xs" and "set xs \<subseteq> E" and "\<forall>x \<in> set ops. list_op_ok E x"
    and "k \<noteq> l" and "is_list s k ys" and "set ys \<inter> E = {}"
  shows "\<exists>t. run_ops (list_exec l) ops s = Some t \<and> is_list t l (fold list_model ops xs) \<and>
           distinct (fold list_model ops xs) \<and>
           list_length l t = Some (length (fold list_model ops xs)) \<and> is_list t k ys"
proof -
  have r0: "list_repr l E s s xs" using assms(1,2) by (simp add: list_repr_def)
  obtain t where run: "run_ops (list_exec l) ops s = Some t"
    and r: "list_repr l E s t (fold list_model ops xs)"
    using clist.run_simulates [OF r0 ops_allowed_static [OF assms(3)]] by blast
  from r have l: "is_list t l (fold list_model ops xs)" and f: "list_frame l E s t"
    by (simp_all add: list_repr_def)
  have "is_list t k ys" by (rule is_list_frame [OF assms(5) f assms(4,6)])
  with run l is_list_distinct [OF l] list_length_spec [OF l] show ?thesis by simp
qed

definition two_lists :: lstore where
  "two_lists = \<lparr>heads = (\<lambda>_. 0)(1 := 10, 2 := 20), nxt = (\<lambda>_. 0)(10 := 11)\<rparr>"

lemma list_ops_refine_witness:
  "\<exists>t. run_ops (list_exec 1) [L_add 10, L_push 12, L_remove 11] two_lists = Some t \<and>
     is_list t 1 [12, 10] \<and> is_list t 2 [20]"
proof -
  have "\<exists>t. run_ops (list_exec 1) [L_add 10, L_push 12, L_remove 11] two_lists = Some t \<and>
      is_list t 1 (fold list_model [L_add 10, L_push 12, L_remove 11] [10, 11]) \<and>
      distinct (fold list_model [L_add 10, L_push 12, L_remove 11] [10, 11]) \<and>
      list_length 1 t = Some (length (fold list_model [L_add 10, L_push 12, L_remove 11] [10, 11])) \<and>
      is_list t 2 [20]"
    by (rule list_ops_refine [where E = "{10, 11, 12}"]) (auto simp: is_list_def two_lists_def)
  then show ?thesis by auto
qed

end
