(* ===== verification/Fifo.thy ===== *)
theory Fifo
  imports Prelude
begin

text \<open>
  The contract of a bounded first-in first-out queue, and the arithmetic of a ring of array
  slots that the event queue of the kernel and the ring buffers of the library share.
\<close>

section \<open>The interface\<close>

datatype 'e fifo_op = Put 'e | Get

text \<open>
  \<open>fifo_run put get ops s\<close> gives the elements that were accepted, the elements that were
  returned, and the final state.
\<close>

fun fifo_run :: "('e \<Rightarrow> 's \<Rightarrow> bool \<times> 's) \<Rightarrow> ('s \<Rightarrow> 'e option \<times> 's) \<Rightarrow> 'e fifo_op list \<Rightarrow> 's \<Rightarrow>
    'e list \<times> 'e list \<times> 's" where
  "fifo_run put get [] s = ([], [], s)"
| "fifo_run put get (Put x # ops) s =
     (case put x s of (ok, t) \<Rightarrow> case fifo_run put get ops t of (ins, outs, u) \<Rightarrow>
        (if ok then x # ins else ins, outs, u))"
| "fifo_run put get (Get # ops) s =
     (case get s of (r, t) \<Rightarrow> case fifo_run put get ops t of (ins, outs, u) \<Rightarrow>
        (ins, (case r of None \<Rightarrow> outs | Some x \<Rightarrow> x # outs), u))"

lemma fifo_run_preserves:
  assumes "\<And>x s. f (snd (put x s)) = f s" and "\<And>s. f (snd (get s)) = f s"
  shows "f (snd (snd (fifo_run put get ops s))) = f s"
proof (induction ops arbitrary: s)
  case Nil
  then show ?case by simp
next
  case (Cons op ops)
  show ?case
  proof (cases op)
    case (Put x)
    with Cons.IH [of "snd (put x s)"] assms(1) [of x s] show ?thesis by (simp add: split_beta)
  next
    case Get
    with Cons.IH [of "snd (get s)"] assms(2) [of s] show ?thesis by (simp add: split_beta)
  qed
qed

locale bounded_fifo =
  fixes inv :: "'s \<Rightarrow> bool"
    and cap :: nat
    and elems :: "'s \<Rightarrow> 'e list"
    and put :: "'e \<Rightarrow> 's \<Rightarrow> bool \<times> 's"
    and get :: "'s \<Rightarrow> 'e option \<times> 's"
  assumes put_room: "inv s \<Longrightarrow> length (elems s) < cap \<Longrightarrow>
      fst (put x s) \<and> inv (snd (put x s)) \<and> elems (snd (put x s)) = elems s @ [x]"
    and put_full: "inv s \<Longrightarrow> length (elems s) = cap \<Longrightarrow> put x s = (False, s)"
    and get_first: "inv s \<Longrightarrow> elems s = x # xs \<Longrightarrow>
      fst (get s) = Some x \<and> inv (snd (get s)) \<and> elems (snd (get s)) = xs"
    and get_empty: "inv s \<Longrightarrow> elems s = [] \<Longrightarrow> get s = (None, s)"
    and bound: "inv s \<Longrightarrow> length (elems s) \<le> cap"
begin

lemma put_cases:
  assumes "inv s" and "put x s = (ok, t)"
  shows "inv t \<and> elems t = (if ok then elems s @ [x] else elems s) \<and>
         (ok \<longleftrightarrow> length (elems s) < cap)"
proof (cases "length (elems s) < cap")
  case True
  with assms put_room [of s x] show ?thesis by simp
next
  case False
  with assms(1) bound [of s] have "length (elems s) = cap" by simp
  with assms put_full [of s x] show ?thesis by simp
qed

lemma get_cases:
  assumes "inv s" and "get s = (r, t)"
  shows "inv t \<and> elems s = (case r of None \<Rightarrow> [] | Some x \<Rightarrow> [x]) @ elems t"
proof (cases "elems s")
  case Nil
  with assms get_empty [of s] show ?thesis by auto
next
  case (Cons x xs)
  with assms get_first [of s x xs] show ?thesis by auto
qed

lemma answers:
  assumes "inv s"
  shows "fst (put x s) \<longleftrightarrow> length (elems s) < cap"
    and "fst (get s) = (case elems s of [] \<Rightarrow> None | y # ys \<Rightarrow> Some y)"
proof -
  show "fst (put x s) \<longleftrightarrow> length (elems s) < cap"
    using put_cases [OF assms, of x "fst (put x s)" "snd (put x s)"] by simp
  show "fst (get s) = (case elems s of [] \<Rightarrow> None | y # ys \<Rightarrow> Some y)"
    using get_first [OF assms] get_empty [OF assms] by (cases "elems s") simp_all
qed

lemma fifo_order:
  "inv s \<Longrightarrow> fifo_run put get ops s = (ins, outs, t) \<Longrightarrow>
   inv t \<and> elems s @ ins = outs @ elems t \<and> length (elems t) \<le> cap"
proof (induction ops arbitrary: s ins outs t)
  case Nil
  then show ?case by (simp add: bound)
next
  case (Cons op ops)
  show ?case
  proof (cases op)
    case (Put x)
    obtain ok u where p: "put x s = (ok, u)" by fastforce
    obtain i o' v where r: "fifo_run put get ops u = (i, o', v)" using prod_cases3 by blast
    from put_cases [OF Cons.prems(1) p] have "inv u" by blast
    from Cons.IH [OF this r] put_cases [OF Cons.prems(1) p] Cons.prems(2) Put p r
    show ?thesis by (auto split: if_splits)
  next
    case Get
    obtain q u where g: "get s = (q, u)" by fastforce
    obtain i o' v where r: "fifo_run put get ops u = (i, o', v)" using prod_cases3 by blast
    from get_cases [OF Cons.prems(1) g] have "inv u" by blast
    from Cons.IH [OF this r] get_cases [OF Cons.prems(1) g] Cons.prems(2) Get g r
    show ?thesis by (auto split: option.splits)
  qed
qed

end

section \<open>Rings of array slots\<close>

text \<open>The \<open>c\<close> slots of the array \<open>d\<close> from slot \<open>g\<close> on, wrapping at the end of the array.\<close>

definition ring_elems :: "'e list \<Rightarrow> nat \<Rightarrow> nat \<Rightarrow> 'e list" where
  "ring_elems d g c = map (\<lambda>i. d ! ((g + i) mod length d)) [0..<c]"

lemma length_ring_elems [simp]: "length (ring_elems d g c) = c"
  by (simp add: ring_elems_def)

lemma ring_elems_0 [simp]: "ring_elems d g 0 = []"
  by (simp add: ring_elems_def)

lemma ring_slot_inj:
  assumes "i < n" and "j < n" and "(g + i) mod n = (g + j) mod (n::nat)"
  shows "i = j"
proof -
  from assms(3) have "int (g + i) mod int n = int (g + j) mod int n"
    by (metis of_nat_mod)
  then have "(int (g + i) - int g) mod int n = (int (g + j) - int g) mod int n"
    by (rule mod_diff_cong) simp
  with assms(1,2) show ?thesis by simp
qed

lemma ring_put:
  assumes "c < length d"
  shows "ring_elems (d[(g + c) mod length d := x]) g (Suc c) = ring_elems d g c @ [x]"
proof -
  have "(g + i) mod length d \<noteq> (g + c) mod length d" if "i < c" for i
    using ring_slot_inj [of i "length d" c g] that assms by auto
  then have "d[(g + c) mod length d := x] ! ((g + i) mod length d) = d ! ((g + i) mod length d)"
    if "i < c" for i
    using that by (metis nth_list_update_neq)
  moreover have "(g + c) mod length d < length d" using assms by (intro mod_less_divisor) auto
  ultimately show ?thesis by (simp add: ring_elems_def)
qed

lemma ring_get:
  assumes "d \<noteq> []"
  shows "ring_elems d g (Suc c) = d ! (g mod length d) # ring_elems d ((g + 1) mod length d) c"
proof -
  have "map (\<lambda>i. d ! ((g + i) mod length d)) [0..<Suc c] =
      d ! (g mod length d) # map (\<lambda>i. d ! ((g + Suc i) mod length d)) [0..<c]"
    by (simp add: upt_conv_Cons map_Suc_upt [symmetric] del: upt_Suc)
  moreover have "((g + 1) mod length d + i) mod length d = (g + Suc i) mod length d" for i
    by (simp add: mod_simps)
  ultimately show ?thesis by (simp add: ring_elems_def)
qed

section \<open>Indices kept within a power of two\<close>

lemma unat_and_mask: "unat (w AND mask k) = unat w mod 2 ^ k"
  by (metis take_bit_eq_mask take_bit_eq_mod unsigned_take_bit_eq)

lemma and_mask_eq_iff: "w AND mask k = w \<longleftrightarrow> unat w < 2 ^ k"
proof -
  have "unat w mod 2 ^ k < (2::nat) ^ k" by simp
  then show ?thesis by (metis mod_less unat_and_mask word_unat_eq_iff)
qed

lemma mod_sub_shift: "g < n \<Longrightarrow> (a mod n + n - g) mod n = (a + n - g) mod (n::nat)"
  using Nat.add_diff_assoc [of g n] by (metis less_imp_le_nat mod_add_left_eq)

lemma power_dvd_size: "k \<le> LENGTH('a::len) \<Longrightarrow> (2::nat) ^ k dvd 2 ^ LENGTH('a)"
  by (rule le_imp_power_dvd)

lemma unat_succ_mask:
  assumes "k \<le> LENGTH('a::len)"
  shows "unat (((w::'a word) + 1) AND mask k) = (unat w + 1) mod 2 ^ k"
proof -
  have "unat (w + 1) = (unat w + 1) mod 2 ^ LENGTH('a)"
    by (metis unat_of_nat word_arith_nat_Suc word_succ_p1 Suc_eq_plus1)
  then show ?thesis using power_dvd_size [OF assms] by (simp add: unat_and_mask mod_mod_cancel)
qed

lemma unat_diff_mask:
  assumes "k \<le> LENGTH('a::len)" and "unat (v::'a word) < 2 ^ k"
  shows "unat ((w - v) AND mask k) = (unat w + 2 ^ k - unat v) mod 2 ^ k"
proof -
  have "int (unat ((w - v) AND mask k)) = (uint w - uint v) mod 2 ^ LENGTH('a) mod 2 ^ k"
    by (simp add: unat_and_mask zmod_int uint_word_arith_bintrs(2) take_bit_eq_mod)
  also have "\<dots> = (uint w - uint v) mod 2 ^ k"
    using assms(1) by (simp add: mod_mod_cancel le_imp_power_dvd)
  also have "\<dots> = (uint w + 2 ^ k - uint v) mod 2 ^ k"
    by (metis add_diff_eq diff_add_eq mod_add_self2 add.commute)
  also have "\<dots> = int ((unat w + 2 ^ k - unat v) mod 2 ^ k)"
    using assms(2) by (simp add: zmod_int of_nat_diff)
  finally show ?thesis by (simp only: of_nat_eq_iff)
qed

end
