(* ===== verification/Ringbuf.thy ===== *)
theory Ringbuf
  imports Fifo
begin

text \<open>
  The ring buffers of the library: \<open>core/lib/ringbuf.c\<close>, a ring of bytes, and
  \<open>core/lib/ringbufindex.c\<close>, the same arithmetic over an array its client keeps. The size is a
  power of two; the fields are \<open>uint8_t\<close>. The C code computes \<open>put_ptr - get_ptr\<close> in \<open>int\<close> and
  masks it with a \<open>uint8_t\<close>, which leaves the low bits only, so the subtraction is taken
  modulo 256 here.
\<close>

section \<open>The code\<close>

record ringbuf =
  rb_data :: "u8 list"
  rb_mask :: u8
  rb_put_ptr :: u8
  rb_get_ptr :: u8

definition ringbuf_init :: "u8 list \<Rightarrow> u8 \<Rightarrow> ringbuf" where
  "ringbuf_init dataptr sz =
     \<lparr>rb_data = dataptr, rb_mask = sz - 1, rb_put_ptr = 0, rb_get_ptr = 0\<rparr>"

definition ringbuf_put :: "ringbuf \<Rightarrow> u8 \<Rightarrow> int \<times> ringbuf" where
  "ringbuf_put r c =
     (if (rb_put_ptr r - rb_get_ptr r) AND rb_mask r = rb_mask r then (0, r)
      else let r1 = r\<lparr>rb_data := (rb_data r)[unat (rb_put_ptr r) := c]\<rparr>
           in (1, r1\<lparr>rb_put_ptr := (rb_put_ptr r1 + 1) AND rb_mask r1\<rparr>))"

definition ringbuf_get :: "ringbuf \<Rightarrow> int \<times> ringbuf" where
  "ringbuf_get r =
     (if (rb_put_ptr r - rb_get_ptr r) AND rb_mask r > 0 then
        let c = rb_data r ! unat (rb_get_ptr r)
        in (uint c, r\<lparr>rb_get_ptr := (rb_get_ptr r + 1) AND rb_mask r\<rparr>)
      else (-1, r))"

definition ringbuf_size :: "ringbuf \<Rightarrow> nat" where
  "ringbuf_size r = unat (rb_mask r) + 1"

definition ringbuf_elements :: "ringbuf \<Rightarrow> nat" where
  "ringbuf_elements r = unat ((rb_put_ptr r - rb_get_ptr r) AND rb_mask r)"

record ringbufindex =
  ri_mask :: u8
  ri_put_ptr :: u8
  ri_get_ptr :: u8

definition ringbufindex_init :: "u8 \<Rightarrow> ringbufindex" where
  "ringbufindex_init sz = \<lparr>ri_mask = sz - 1, ri_put_ptr = 0, ri_get_ptr = 0\<rparr>"

definition ringbufindex_put :: "ringbufindex \<Rightarrow> int \<times> ringbufindex" where
  "ringbufindex_put r =
     (if (ri_put_ptr r - ri_get_ptr r) AND ri_mask r = ri_mask r then (0, r)
      else (1, r\<lparr>ri_put_ptr := (ri_put_ptr r + 1) AND ri_mask r\<rparr>))"

definition ringbufindex_peek_put :: "ringbufindex \<Rightarrow> int" where
  "ringbufindex_peek_put r =
     (if (ri_put_ptr r - ri_get_ptr r) AND ri_mask r = ri_mask r then -1
      else uint (ri_put_ptr r))"

definition ringbufindex_get :: "ringbufindex \<Rightarrow> int \<times> ringbufindex" where
  "ringbufindex_get r =
     (if (ri_put_ptr r - ri_get_ptr r) AND ri_mask r > 0 then
        (uint (ri_get_ptr r), r\<lparr>ri_get_ptr := (ri_get_ptr r + 1) AND ri_mask r\<rparr>)
      else (-1, r))"

definition ringbufindex_peek_get :: "ringbufindex \<Rightarrow> int" where
  "ringbufindex_peek_get r =
     (if (ri_put_ptr r - ri_get_ptr r) AND ri_mask r > 0 then uint (ri_get_ptr r) else -1)"

definition ringbufindex_size :: "ringbufindex \<Rightarrow> nat" where
  "ringbufindex_size r = unat (ri_mask r) + 1"

definition ringbufindex_elements :: "ringbufindex \<Rightarrow> nat" where
  "ringbufindex_elements r = unat ((ri_put_ptr r - ri_get_ptr r) AND ri_mask r)"

definition ringbufindex_full :: "ringbufindex \<Rightarrow> bool" where
  "ringbufindex_full r \<longleftrightarrow> (ri_put_ptr r - ri_get_ptr r) AND ri_mask r = ri_mask r"

definition ringbufindex_empty :: "ringbufindex \<Rightarrow> bool" where
  "ringbufindex_empty r \<longleftrightarrow> ringbufindex_elements r = 0"

section \<open>A ring of \<open>2 ^ k\<close> slots, at most one of them unused\<close>

definition index_inv :: "nat \<Rightarrow> ringbufindex \<Rightarrow> bool" where
  "index_inv k r \<longleftrightarrow> k \<le> 8 \<and> ri_mask r = mask k \<and>
     unat (ri_put_ptr r) < 2 ^ k \<and> unat (ri_get_ptr r) < 2 ^ k"

definition ring_count :: "nat \<Rightarrow> ringbufindex \<Rightarrow> nat" where
  "ring_count k r = (unat (ri_put_ptr r) + 2 ^ k - unat (ri_get_ptr r)) mod 2 ^ k"

lemma unat_mask_u8: "k \<le> 8 \<Longrightarrow> unat (mask k :: u8) = 2 ^ k - 1"
proof -
  assume "k \<le> 8"
  then have "k \<in> {0, 1, 2, 3, 4, 5, 6, 7, 8}" by auto
  then show ?thesis by (auto simp: mask_eq_exp_minus_1)
qed

lemma index_count:
  assumes "index_inv k r"
  shows "unat ((ri_put_ptr r - ri_get_ptr r) AND ri_mask r) = ring_count k r"
  using assms by (simp add: index_inv_def ring_count_def unat_diff_mask)

lemma index_full_iff:
  assumes "index_inv k r"
  shows "(ri_put_ptr r - ri_get_ptr r) AND ri_mask r = ri_mask r \<longleftrightarrow> ring_count k r = 2 ^ k - 1"
proof -
  have "unat (ri_mask r) = 2 ^ k - 1" using assms by (simp add: index_inv_def unat_mask_u8)
  then show ?thesis using index_count [OF assms] by (simp only: word_unat_eq_iff)
qed

lemma index_nonempty_iff:
  assumes "index_inv k r"
  shows "(ri_put_ptr r - ri_get_ptr r) AND ri_mask r > 0 \<longleftrightarrow> ring_count k r > 0"
  using index_count [OF assms] by (metis unat_gt_0 word_neq_0_conv gr_zeroI)

lemma ring_count_less: "ring_count k r < 2 ^ k"
  by (simp add: ring_count_def)

lemma ring_put_slot:
  assumes "index_inv k r"
  shows "unat (ri_put_ptr r) = (unat (ri_get_ptr r) + ring_count k r) mod 2 ^ k"
proof -
  have "(unat (ri_get_ptr r) + ring_count k r) mod 2 ^ k =
      (unat (ri_get_ptr r) + (unat (ri_put_ptr r) + 2 ^ k - unat (ri_get_ptr r))) mod 2 ^ k"
    by (simp add: ring_count_def mod_add_right_eq)
  also have "\<dots> = unat (ri_put_ptr r)"
    using assms by (simp add: index_inv_def)
  finally show ?thesis by simp
qed

lemma index_put_ptr:
  assumes "index_inv k r"
  shows "index_inv k (r\<lparr>ri_put_ptr := (ri_put_ptr r + 1) AND ri_mask r\<rparr>)"
    and "ring_count k r < 2 ^ k - 1 \<Longrightarrow>
      ring_count k (r\<lparr>ri_put_ptr := (ri_put_ptr r + 1) AND ri_mask r\<rparr>) = Suc (ring_count k r)"
proof -
  have p: "unat ((ri_put_ptr r + 1) AND ri_mask r) = (unat (ri_put_ptr r) + 1) mod 2 ^ k"
    using assms by (simp add: index_inv_def unat_succ_mask)
  then show "index_inv k (r\<lparr>ri_put_ptr := (ri_put_ptr r + 1) AND ri_mask r\<rparr>)"
    using assms by (simp add: index_inv_def)
  let ?g = "unat (ri_get_ptr r)" and ?p = "unat (ri_put_ptr r)"
  assume "ring_count k r < 2 ^ k - 1"
  moreover have "((?p + 1) mod 2 ^ k + 2 ^ k - ?g) mod 2 ^ k = (?p + 1 + 2 ^ k - ?g) mod 2 ^ k"
    using assms by (intro mod_sub_shift) (simp add: index_inv_def)
  moreover have "(?p + 1 + 2 ^ k - ?g) mod 2 ^ k = (ring_count k r + 1) mod 2 ^ k"
    using assms unfolding ring_count_def
    by (simp add: index_inv_def mod_Suc_eq Suc_diff_le)
  ultimately show "ring_count k (r\<lparr>ri_put_ptr := (ri_put_ptr r + 1) AND ri_mask r\<rparr>) = Suc (ring_count k r)"
    using p by (simp add: ring_count_def)
qed

lemma index_get_ptr:
  assumes "index_inv k r"
  shows "index_inv k (r\<lparr>ri_get_ptr := (ri_get_ptr r + 1) AND ri_mask r\<rparr>)"
    and "ring_count k r > 0 \<Longrightarrow>
      ring_count k (r\<lparr>ri_get_ptr := (ri_get_ptr r + 1) AND ri_mask r\<rparr>) = ring_count k r - 1"
    and "unat ((ri_get_ptr r + 1) AND ri_mask r) = (unat (ri_get_ptr r) + 1) mod 2 ^ k"
proof -
  show g: "unat ((ri_get_ptr r + 1) AND ri_mask r) = (unat (ri_get_ptr r) + 1) mod 2 ^ k"
    using assms by (simp add: index_inv_def unat_succ_mask)
  then show inv: "index_inv k (r\<lparr>ri_get_ptr := (ri_get_ptr r + 1) AND ri_mask r\<rparr>)"
    using assms by (simp add: index_inv_def)
  let ?r = "r\<lparr>ri_get_ptr := (ri_get_ptr r + 1) AND ri_mask r\<rparr>"
  assume pos: "ring_count k r > 0"
  have "((unat (ri_get_ptr r) + 1) mod 2 ^ k + ring_count k ?r) mod 2 ^ k =
      (unat (ri_get_ptr r) + ring_count k r) mod 2 ^ k"
    using ring_put_slot [OF inv] ring_put_slot [OF assms] g by simp
  then have "(unat (ri_get_ptr r) + 1 + ring_count k ?r) mod 2 ^ k =
      (unat (ri_get_ptr r) + 1 + (ring_count k r - 1)) mod 2 ^ k"
    using pos by (simp add: mod_add_left_eq)
  then show "ring_count k ?r = ring_count k r - 1"
    using ring_slot_inj ring_count_less [of k ?r] ring_count_less [of k r]
    by (metis less_imp_diff_less)
qed


section \<open>An array indexed by a \<open>ringbufindex\<close> is a bounded queue\<close>

text \<open>
  The client of \<open>ringbufindex\<close> keeps the array: it stores an element at the index
  \<open>ringbufindex_peek_put\<close> gives before it calls \<open>ringbufindex_put\<close>, and reads the slot whose index
  \<open>ringbufindex_get\<close> returns (as \<open>core/net/mac/tsch/tsch-log.c\<close> does).
\<close>

type_synonym 'e indexed = "ringbufindex \<times> 'e list"

definition indexed_put :: "'e \<Rightarrow> 'e indexed \<Rightarrow> bool \<times> 'e indexed" where
  "indexed_put x = (\<lambda>(r, d).
     let i = ringbufindex_peek_put r
     in if i = -1 then (False, (r, d))
        else (fst (ringbufindex_put r) \<noteq> 0, (snd (ringbufindex_put r), d[nat i := x])))"

definition indexed_get :: "'e indexed \<Rightarrow> 'e option \<times> 'e indexed" where
  "indexed_get = (\<lambda>(r, d). case ringbufindex_get r of (i, t) \<Rightarrow>
     (if i = -1 then None else Some (d ! nat i), (t, d)))"

definition indexed_inv :: "nat \<Rightarrow> 'e indexed \<Rightarrow> bool" where
  "indexed_inv k = (\<lambda>(r, d). index_inv k r \<and> length d = 2 ^ k)"

definition indexed_elems :: "'e indexed \<Rightarrow> 'e list" where
  "indexed_elems = (\<lambda>(r, d). ring_elems d (unat (ri_get_ptr r)) (ringbufindex_elements r))"

lemma elements_count: "index_inv k r \<Longrightarrow> ringbufindex_elements r = ring_count k r"
  by (simp add: ringbufindex_elements_def index_count)

lemma put_ring_elems:
  assumes "index_inv k r" and "length d = 2 ^ k" and "ring_count k r < 2 ^ k - 1"
  shows "ring_elems (d[unat (ri_put_ptr r) := x]) (unat (ri_get_ptr r)) (Suc (ring_count k r)) =
         ring_elems d (unat (ri_get_ptr r)) (ring_count k r) @ [x]"
  using ring_put [of "ring_count k r" d "unat (ri_get_ptr r)" x] ring_put_slot [OF assms(1)] assms(2,3)
  by simp

lemma get_ring_elems:
  assumes "index_inv k r" and "length d = 2 ^ k" and "ring_count k r > 0"
  shows "ring_elems d (unat (ri_get_ptr r)) (ring_count k r) =
         d ! unat (ri_get_ptr r) #
         ring_elems d (unat ((ri_get_ptr r + 1) AND ri_mask r)) (ring_count k r - 1)"
proof -
  obtain c where c: "ring_count k r = Suc c" using assms(3) gr0_implies_Suc by blast
  have "d \<noteq> []" using assms(2) by auto
  from ring_get [OF this, of "unat (ri_get_ptr r)" c] assms(1,2) index_get_ptr(3) [OF assms(1)]
  show ?thesis by (simp add: c index_inv_def)
qed

interpretation indexed: bounded_fifo "indexed_inv k" "2 ^ k - 1" indexed_elems indexed_put indexed_get
proof unfold_locales
  fix s :: "'a indexed" and x
  obtain r d where s: "s = (r, d)" by force
  assume "indexed_inv k s" and "length (indexed_elems s) < 2 ^ k - 1"
  with s have inv: "index_inv k r" and len: "length d = 2 ^ k" and lt: "ring_count k r < 2 ^ k - 1"
    by (auto simp: indexed_inv_def indexed_elems_def elements_count)
  let ?t = "r\<lparr>ri_put_ptr := (ri_put_ptr r + 1) AND ri_mask r\<rparr>"
  have run: "indexed_put x s = (True, (?t, d[unat (ri_put_ptr r) := x]))"
    using s lt index_full_iff [OF inv]
    by (simp add: indexed_put_def ringbufindex_put_def ringbufindex_peek_put_def Let_def)
  moreover have "indexed_elems (?t, d[unat (ri_put_ptr r) := x]) = indexed_elems s @ [x]"
    using put_ring_elems [OF inv len lt] index_put_ptr [OF inv] lt s inv
    by (simp add: indexed_elems_def elements_count)
  ultimately show "fst (indexed_put x s) \<and> indexed_inv k (snd (indexed_put x s)) \<and>
      indexed_elems (snd (indexed_put x s)) = indexed_elems s @ [x]"
    using index_put_ptr(1) [OF inv] len by (simp add: indexed_inv_def)
next
  fix s :: "'a indexed" and x
  assume "indexed_inv k s" and "length (indexed_elems s) = 2 ^ k - 1"
  then show "indexed_put x s = (False, s)"
    by (cases s) (auto simp: indexed_inv_def indexed_elems_def elements_count indexed_put_def
        ringbufindex_peek_put_def index_full_iff)
next
  fix s :: "'a indexed" and x xs
  obtain r d where s: "s = (r, d)" by force
  assume "indexed_inv k s" and e: "indexed_elems s = x # xs"
  with s have inv: "index_inv k r" and len: "length d = 2 ^ k" and e': "ring_elems d (unat (ri_get_ptr r)) (ring_count k r) = x # xs"
    by (auto simp: indexed_inv_def indexed_elems_def elements_count)
  then have pos: "ring_count k r > 0" by (metis length_greater_0_conv length_ring_elems list.distinct(1))
  let ?t = "r\<lparr>ri_get_ptr := (ri_get_ptr r + 1) AND ri_mask r\<rparr>"
  have "indexed_get s = (Some (d ! unat (ri_get_ptr r)), (?t, d))"
    using s pos index_nonempty_iff [OF inv] by (simp add: indexed_get_def ringbufindex_get_def)
  moreover from get_ring_elems [OF inv len pos] e'
  have "x = d ! unat (ri_get_ptr r)" and "indexed_elems (?t, d) = xs"
    using index_get_ptr [OF inv] pos by (simp_all add: indexed_elems_def elements_count)
  ultimately show "fst (indexed_get s) = Some x \<and> indexed_inv k (snd (indexed_get s)) \<and>
      indexed_elems (snd (indexed_get s)) = xs"
    using index_get_ptr(1) [OF inv] len by (simp add: indexed_inv_def)
next
  fix s :: "'a indexed"
  assume "indexed_inv k s" and "indexed_elems s = []"
  then show "indexed_get s = (None, s)"
    by (cases s) (auto simp: indexed_inv_def indexed_elems_def elements_count indexed_get_def
        ringbufindex_get_def index_nonempty_iff ring_elems_def)
next
  fix s :: "'a indexed"
  assume "indexed_inv k s"
  then show "length (indexed_elems s) \<le> 2 ^ k - 1"
    using ring_count_less [of k "fst s"]
    by (auto simp: indexed_inv_def indexed_elems_def elements_count less_eq_Suc_le split_beta)
qed


section \<open>The byte ring buffer is the same queue over its own array\<close>

definition rb_index :: "ringbuf \<Rightarrow> ringbufindex" where
  "rb_index r = \<lparr>ri_mask = rb_mask r, ri_put_ptr = rb_put_ptr r, ri_get_ptr = rb_get_ptr r\<rparr>"

definition rb_view :: "ringbuf \<Rightarrow> u8 indexed" where
  "rb_view r = (rb_index r, rb_data r)"

definition rb_put :: "u8 \<Rightarrow> ringbuf \<Rightarrow> bool \<times> ringbuf" where
  "rb_put c r = (case ringbuf_put r c of (ok, t) \<Rightarrow> (ok \<noteq> 0, t))"

definition rb_get :: "ringbuf \<Rightarrow> u8 option \<times> ringbuf" where
  "rb_get r = (case ringbuf_get r of (c, t) \<Rightarrow> (if c = -1 then None else Some (word_of_int c), t))"

definition ringbuf_inv :: "nat \<Rightarrow> ringbuf \<Rightarrow> bool" where
  "ringbuf_inv k r \<longleftrightarrow> indexed_inv k (rb_view r)"

definition ringbuf_contents :: "ringbuf \<Rightarrow> u8 list" where
  "ringbuf_contents r = ring_elems (rb_data r) (unat (rb_get_ptr r)) (ringbuf_elements r)"

lemma ringbuf_contents_view: "ringbuf_contents r = indexed_elems (rb_view r)"
  by (simp add: ringbuf_contents_def indexed_elems_def rb_view_def rb_index_def
      ringbuf_elements_def ringbufindex_elements_def)

lemma rb_view_inj: "rb_view r = rb_view t \<Longrightarrow> r = t"
  by (cases r; cases t) (simp add: rb_view_def rb_index_def)

lemma rb_put_view:
  "fst (indexed_put c (rb_view r)) = fst (rb_put c r) \<and> snd (indexed_put c (rb_view r)) = rb_view (snd (rb_put c r))"
  by (simp add: indexed_put_def rb_view_def rb_index_def rb_put_def ringbuf_put_def
      ringbufindex_put_def ringbufindex_peek_put_def Let_def)

lemma rb_get_view:
  "fst (indexed_get (rb_view r)) = fst (rb_get r) \<and> snd (indexed_get (rb_view r)) = rb_view (snd (rb_get r))"
  by (simp add: indexed_get_def rb_view_def rb_index_def rb_get_def ringbuf_get_def
      ringbufindex_get_def Let_def)

interpretation ringbuf_fifo: bounded_fifo "ringbuf_inv k" "2 ^ k - 1" ringbuf_contents rb_put rb_get
proof unfold_locales
  fix s x
  assume "ringbuf_inv k s" and "length (ringbuf_contents s) < 2 ^ k - 1"
  then show "fst (rb_put x s) \<and> ringbuf_inv k (snd (rb_put x s)) \<and>
      ringbuf_contents (snd (rb_put x s)) = ringbuf_contents s @ [x]"
    using indexed.put_room [of k "rb_view s" x] rb_put_view [of x s]
    by (simp add: ringbuf_inv_def ringbuf_contents_view)
next
  fix s x
  assume "ringbuf_inv k s" and "length (ringbuf_contents s) = 2 ^ k - 1"
  then show "rb_put x s = (False, s)"
    using indexed.put_full [of k "rb_view s" x] rb_put_view [of x s]
    by (auto simp: ringbuf_inv_def ringbuf_contents_view prod_eq_iff intro: rb_view_inj)
next
  fix s x xs
  assume "ringbuf_inv k s" and "ringbuf_contents s = x # xs"
  then show "fst (rb_get s) = Some x \<and> ringbuf_inv k (snd (rb_get s)) \<and>
      ringbuf_contents (snd (rb_get s)) = xs"
    using indexed.get_first [of k "rb_view s" x xs] rb_get_view [of s]
    by (simp add: ringbuf_inv_def ringbuf_contents_view)
next
  fix s
  assume "ringbuf_inv k s" and "ringbuf_contents s = []"
  then show "rb_get s = (None, s)"
    using indexed.get_empty [of k "rb_view s"] rb_get_view [of s]
    by (auto simp: ringbuf_inv_def ringbuf_contents_view prod_eq_iff intro: rb_view_inj)
next
  fix s
  assume "ringbuf_inv k s"
  then show "length (ringbuf_contents s) \<le> 2 ^ k - 1"
    using indexed.bound [of k "rb_view s"] by (simp add: ringbuf_inv_def ringbuf_contents_view)
qed

lemma init_mask: "k \<le> 8 \<Longrightarrow> (2 ^ k :: u8) - 1 = mask k"
  by (simp add: mask_eq_exp_minus_1)

lemma ringbuf_inv_init:
  assumes "length d = 2 ^ k" and "k \<le> 7"
  shows "ringbuf_inv k (ringbuf_init d (2 ^ k))" and "ringbuf_contents (ringbuf_init d (2 ^ k)) = []"
    and "ringbuf_size (ringbuf_init d (2 ^ k)) = 2 ^ k"
  using assms
  by (simp_all add: ringbuf_inv_def indexed_inv_def rb_view_def rb_index_def index_inv_def init_mask
      ringbuf_init_def ringbuf_contents_def ringbuf_elements_def ringbuf_size_def unat_mask_u8)

lemma rb_put_size: "ringbuf_size (snd (rb_put c r)) = ringbuf_size r"
  by (simp add: rb_put_def ringbuf_put_def ringbuf_size_def Let_def)

lemma rb_get_size: "ringbuf_size (snd (rb_get r)) = ringbuf_size r"
  by (simp add: rb_get_def ringbuf_get_def ringbuf_size_def Let_def)

lemma rb_run_size: "fifo_run rb_put rb_get ops r = (ins, outs, t) \<Longrightarrow> ringbuf_size t = ringbuf_size r"
  using fifo_run_preserves [of ringbuf_size rb_put rb_get ops r, OF rb_put_size rb_get_size] by simp

text \<open>C33: A byte ring buffer of \<open>2 ^ k\<close> slots is a first-in first-out queue of at most \<open>2 ^ k - 1\<close> bytes.
  After any interleaving of puts and gets from the initialised buffer, the bytes that were accepted are
  the bytes that were returned, in order, followed by the bytes still in the buffer; a put is refused
  exactly when \<open>2 ^ k - 1\<close> bytes are in it; and a get returns the oldest of them, and nothing exactly when
  there is none. The size fits the 8-bit mask: \<open>k \<le> 7\<close>.\<close>

theorem ringbuf_first_in_first_out:
  assumes "length d = 2 ^ k" and "k \<le> 7"
    and "fifo_run rb_put rb_get ops (ringbuf_init d (2 ^ k)) = (ins, outs, t)"
  shows "ins = outs @ ringbuf_contents t \<and> length (ringbuf_contents t) = ringbuf_elements t \<and>
         ringbuf_elements t \<le> 2 ^ k - 1 \<and> ringbuf_size t = 2 ^ k \<and>
         (\<forall>x. fst (rb_put x t) \<longleftrightarrow> ringbuf_elements t \<noteq> 2 ^ k - 1) \<and>
         fst (rb_get t) = (case ringbuf_contents t of [] \<Rightarrow> None | y # ys \<Rightarrow> Some y)"
proof -
  note init = ringbuf_inv_init [OF assms(1,2)]
  note run = ringbuf_fifo.fifo_order [OF init(1) assms(3)]
  then have inv: "ringbuf_inv k t" by blast
  show ?thesis
    using run init(2,3) rb_run_size [OF assms(3)] ringbuf_fifo.answers [OF inv]
    by (auto simp: ringbuf_contents_def)
qed

theorem ringbuf_first_in_first_out_witness:
  "case fifo_run rb_put rb_get [Put 7, Put 8, Get, Put 9, Put 10, Put 11] (ringbuf_init [0, 0, 0, 0] (2 ^ 2)) of
     (ins, outs, t) \<Rightarrow> outs = [7] \<and> ins = [7, 8, 9, 10] \<and> ins = outs @ ringbuf_contents t \<and> \<not> fst (rb_put 12 t) \<and> fst (rb_get t) = Some 8"
proof -
  obtain ins outs t where r: "fifo_run rb_put rb_get [Put 7, Put 8, Get, Put 9, Put 10, Put 11]
      (ringbuf_init [0, 0, 0, 0] (2 ^ 2)) = (ins, outs, t)"
    using prod_cases3 by blast
  then have io: "outs = [7]" "ins = [7, 8, 9, 10]"
    by (auto simp: ringbuf_init_def rb_put_def rb_get_def ringbuf_put_def ringbuf_get_def Let_def)
  have "length [0, 0, 0, 0 :: u8] = 2 ^ 2" by simp
  note f = ringbuf_first_in_first_out [OF this _ r]
  then have "ringbuf_contents t = [8, 9, 10]" using io by simp
  then show ?thesis using f io r by auto
qed

end
