(* ===== verification/Process.thy ===== *)
theory Process
  imports Fifo "HOL-Library.Monad_Syntax" "HOL-Library.Sublist"
begin

text \<open>
  The process kernel, \<open>core/sys/process.c\<close>. A process is the address of its control block; the
  fields of the blocks are functions of the address. A process thread is application code, a
  parameter of the model: \<open>thr p\<close> is \<open>None\<close> for a null thread, and otherwise what the protothread
  does when it is called with its local continuation, an event and data: a tree of calls of the
  kernel's interface, local computation on the application's memory between them, and a return.
  A thread that posts a synchronous event, starts or exits a process enters the kernel again, as
  it does in C. Nothing bounds that recursion, so the functions that call threads take fuel and
  give \<open>None\<close> when it runs out; \<open>process_run_delivers\<close> says how much is enough.
\<close>

section \<open>Constants and data\<close>

definition PROCESS_ERR_OK :: int where "PROCESS_ERR_OK = 0"
definition PROCESS_ERR_FULL :: int where "PROCESS_ERR_FULL = 1"
definition PROCESS_CONF_NUMEVENTS :: u8 where "PROCESS_CONF_NUMEVENTS = 32"
definition PROCESS_EVENT_INIT :: u8 where "PROCESS_EVENT_INIT = 0x81"
definition PROCESS_EVENT_POLL :: u8 where "PROCESS_EVENT_POLL = 0x82"
definition PROCESS_EVENT_EXIT :: u8 where "PROCESS_EVENT_EXIT = 0x83"
definition PROCESS_EVENT_EXITED :: u8 where "PROCESS_EVENT_EXITED = 0x87"
definition PROCESS_EVENT_TIMER :: u8 where "PROCESS_EVENT_TIMER = 0x88"
definition PROCESS_EVENT_MAX :: u8 where "PROCESS_EVENT_MAX = 0x8a"
definition PROCESS_STATE_NONE :: u8 where "PROCESS_STATE_NONE = 0"
definition PROCESS_STATE_RUNNING :: u8 where "PROCESS_STATE_RUNNING = 1"
definition PROCESS_STATE_CALLED :: u8 where "PROCESS_STATE_CALLED = 2"

text \<open>The values a protothread returns (\<open>core/sys/pt.h\<close>).\<close>

definition PT_WAITING :: int where "PT_WAITING = 0"
definition PT_YIELDED :: int where "PT_YIELDED = 1"
definition PT_EXITED :: int where "PT_EXITED = 2"
definition PT_ENDED :: int where "PT_ENDED = 3"

lemmas process_consts = PROCESS_ERR_OK_def PROCESS_ERR_FULL_def PROCESS_CONF_NUMEVENTS_def
  PROCESS_EVENT_INIT_def PROCESS_EVENT_POLL_def PROCESS_EVENT_EXIT_def PROCESS_EVENT_EXITED_def
  PROCESS_EVENT_TIMER_def PROCESS_EVENT_MAX_def PROCESS_STATE_NONE_def PROCESS_STATE_RUNNING_def
  PROCESS_STATE_CALLED_def PT_WAITING_def PT_YIELDED_def PT_EXITED_def PT_ENDED_def

text \<open>\<open>PROCESS_BROADCAST\<close> is the null pointer.\<close>

abbreviation PROCESS_BROADCAST :: ptr where
  "PROCESS_BROADCAST \<equiv> NULL"

record event_data =
  ed_ev :: u8
  ed_data :: nat
  ed_p :: ptr

datatype 'u act =
    Return int u16
  | Local "'u \<Rightarrow> 'u" "'u \<Rightarrow> 'u act"
  | Post ptr u8 nat "int \<Rightarrow> 'u act"
  | Poll ptr "'u act"
  | Start ptr nat "'u act"
  | PostSynch ptr u8 nat "'u act"
  | Exit ptr "'u act"

type_synonym 'u threads = "ptr \<Rightarrow> (u16 \<Rightarrow> u8 \<Rightarrow> nat \<Rightarrow> 'u \<Rightarrow> 'u act) option"

record 'u kernel =
  process_list :: ptr
  process_current :: ptr
  lastevent :: u8
  nevents :: u8
  fevent :: u8
  events :: "event_data list"
  poll_requested :: u8
  p_next :: "ptr \<Rightarrow> ptr"
  p_state :: "ptr \<Rightarrow> u8"
  p_needspoll :: "ptr \<Rightarrow> u8"
  p_lc :: "ptr \<Rightarrow> u16"
  app :: 'u

definition set_current :: "ptr \<Rightarrow> 'u kernel \<Rightarrow> 'u kernel" where
  "set_current p k = k\<lparr>process_current := p\<rparr>"

definition set_state :: "ptr \<Rightarrow> u8 \<Rightarrow> 'u kernel \<Rightarrow> 'u kernel" where
  "set_state p s k = k\<lparr>p_state := (p_state k)(p := s)\<rparr>"

definition set_lc :: "ptr \<Rightarrow> u16 \<Rightarrow> 'u kernel \<Rightarrow> 'u kernel" where
  "set_lc p c k = k\<lparr>p_lc := (p_lc k)(p := c)\<rparr>"

definition clear_needspoll :: "ptr \<Rightarrow> 'u kernel \<Rightarrow> 'u kernel" where
  "clear_needspoll p k = k\<lparr>p_needspoll := (p_needspoll k)(p := 0)\<rparr>"

section \<open>The event queue and the flags\<close>

definition process_alloc_event :: "'u kernel \<Rightarrow> u8 \<times> 'u kernel" where
  "process_alloc_event k = (lastevent k, k\<lparr>lastevent := lastevent k + 1\<rparr>)"

definition process_init :: "'u kernel \<Rightarrow> 'u kernel" where
  "process_init k = k\<lparr>lastevent := PROCESS_EVENT_MAX, nevents := 0, fevent := 0,
     process_current := NULL, process_list := NULL\<rparr>"

definition process_post :: "ptr \<Rightarrow> u8 \<Rightarrow> nat \<Rightarrow> 'u kernel \<Rightarrow> int \<times> 'u kernel" where
  "process_post p ev data k =
     (if nevents k = PROCESS_CONF_NUMEVENTS then (PROCESS_ERR_FULL, k)
      else
        let snum = (fevent k + nevents k) mod PROCESS_CONF_NUMEVENTS in
        (PROCESS_ERR_OK,
         k\<lparr>events := (events k)[unat snum := \<lparr>ed_ev = ev, ed_data = data, ed_p = p\<rparr>],
           nevents := nevents k + 1\<rparr>))"

definition process_is_running :: "ptr \<Rightarrow> 'u kernel \<Rightarrow> bool" where
  "process_is_running p k \<longleftrightarrow> p_state k p \<noteq> PROCESS_STATE_NONE"

definition process_poll :: "ptr \<Rightarrow> 'u kernel \<Rightarrow> 'u kernel" where
  "process_poll p k =
     (if p \<noteq> NULL \<and> (p_state k p = PROCESS_STATE_RUNNING \<or> p_state k p = PROCESS_STATE_CALLED)
      then k\<lparr>p_needspoll := (p_needspoll k)(p := 1), poll_requested := 1\<rparr>
      else k)"

definition process_nevents :: "'u kernel \<Rightarrow> nat" where
  "process_nevents k = unat (nevents k) + unat (poll_requested k)"

text \<open>The first event of the queue, taken out of it (the head of \<open>do_event\<close>).\<close>

definition next_event :: "'u kernel \<Rightarrow> event_data option \<times> 'u kernel" where
  "next_event k =
     (if nevents k > 0 then
        (Some (events k ! unat (fevent k)),
         k\<lparr>fevent := (fevent k + 1) mod PROCESS_CONF_NUMEVENTS, nevents := nevents k - 1\<rparr>)
      else (None, k))"

section \<open>The process list\<close>

text \<open>\<open>for(q = process_list; q != p && q != NULL; q = q->next);\<close>\<close>

partial_function (option) find_loop :: "(ptr \<Rightarrow> ptr) \<Rightarrow> ptr \<Rightarrow> ptr \<Rightarrow> ptr option" where
  "find_loop n p q = (if q \<noteq> p \<and> q \<noteq> NULL then find_loop n p (n q) else Some q)"

definition link_process :: "ptr \<Rightarrow> 'u kernel \<Rightarrow> 'u kernel" where
  "link_process p k =
     (let k1 = k\<lparr>p_next := (p_next k)(p := process_list k)\<rparr>;
          k2 = k1\<lparr>process_list := p\<rparr>;
          k3 = set_state p PROCESS_STATE_RUNNING k2
      in set_lc p 0 k3)"

partial_function (option) unlink_loop :: "ptr \<Rightarrow> ptr \<Rightarrow> 'u kernel \<Rightarrow> 'u kernel option" where
  "unlink_loop p q k =
     (if q = NULL then Some k
      else if p_next k q = p then Some (k\<lparr>p_next := (p_next k)(q := p_next k p)\<rparr>)
      else unlink_loop p (p_next k q) k)"

definition unlink_process :: "ptr \<Rightarrow> 'u kernel \<Rightarrow> 'u kernel option" where
  "unlink_process p k =
     (if p = process_list k then Some (k\<lparr>process_list := p_next k (process_list k)\<rparr>)
      else unlink_loop p (process_list k) k)"

section \<open>Calling, starting and exiting processes\<close>

function (sequential) call_process :: "'u threads \<Rightarrow> nat \<Rightarrow> ptr \<Rightarrow> u8 \<Rightarrow> nat \<Rightarrow> 'u kernel \<Rightarrow> 'u kernel option"
  and run_thread :: "'u threads \<Rightarrow> nat \<Rightarrow> ptr \<Rightarrow> u8 \<Rightarrow> nat \<Rightarrow> 'u kernel \<Rightarrow> (int \<times> 'u kernel) option"
  and run_act :: "'u threads \<Rightarrow> nat \<Rightarrow> 'u act \<Rightarrow> 'u kernel \<Rightarrow> (int \<times> u16 \<times> 'u kernel) option"
  and exit_process :: "'u threads \<Rightarrow> nat \<Rightarrow> ptr \<Rightarrow> ptr \<Rightarrow> 'u kernel \<Rightarrow> 'u kernel option"
  and exit_loop :: "'u threads \<Rightarrow> nat \<Rightarrow> ptr \<Rightarrow> ptr \<Rightarrow> 'u kernel \<Rightarrow> 'u kernel option"
  and process_post_synch :: "'u threads \<Rightarrow> nat \<Rightarrow> ptr \<Rightarrow> u8 \<Rightarrow> nat \<Rightarrow> 'u kernel \<Rightarrow> 'u kernel option"
  and process_start :: "'u threads \<Rightarrow> nat \<Rightarrow> ptr \<Rightarrow> nat \<Rightarrow> 'u kernel \<Rightarrow> 'u kernel option"
where
  "call_process thr 0 p ev data k = None"
| "call_process thr (Suc n) p ev data k =
     (if p_state k p AND PROCESS_STATE_RUNNING \<noteq> 0 \<and> thr p \<noteq> None then do {
        (ret, k1) \<leftarrow> run_thread thr n p ev data (set_state p PROCESS_STATE_CALLED (set_current p k));
        if ret = PT_EXITED \<or> ret = PT_ENDED \<or> ev = PROCESS_EVENT_EXIT
        then exit_process thr n p p k1
        else Some (set_state p PROCESS_STATE_RUNNING k1)
      } else Some k)"
| "run_thread thr 0 p ev data k = None"
| "run_thread thr (Suc n) p ev data k = do {
     t \<leftarrow> thr p;
     (ret, lc, k1) \<leftarrow> run_act thr n (t (p_lc k p) ev data (app k)) k;
     Some (ret, set_lc p lc k1)
   }"
| "run_act thr 0 a k = None"
| "run_act thr (Suc n) (Return r lc) k = Some (r, lc, k)"
| "run_act thr (Suc n) (Local f c) k =
     (let k1 = k\<lparr>app := f (app k)\<rparr> in run_act thr n (c (app k1)) k1)"
| "run_act thr (Suc n) (Post q ev d c) k =
     (case process_post q ev d k of (r, k1) \<Rightarrow> run_act thr n (c r) k1)"
| "run_act thr (Suc n) (Poll q c) k = run_act thr n c (process_poll q k)"
| "run_act thr (Suc n) (Start q d c) k = do {
     k1 \<leftarrow> process_start thr n q d k;
     run_act thr n c k1
   }"
| "run_act thr (Suc n) (PostSynch q ev d c) k = do {
     k1 \<leftarrow> process_post_synch thr n q ev d k;
     run_act thr n c k1
   }"
| "run_act thr (Suc n) (Exit q c) k = do {
     k1 \<leftarrow> exit_process thr n q (process_current k) k;
     run_act thr n c k1
   }"
| "exit_process thr 0 p fromprocess k = None"
| "exit_process thr (Suc n) p fromprocess k = do {
     let old_current = process_current k;
     q \<leftarrow> find_loop (p_next k) p (process_list k);
     if q = NULL then Some k
     else do {
       k1 \<leftarrow> (if process_is_running p k then do {
                 k1 \<leftarrow> exit_loop thr n p (process_list k) (set_state p PROCESS_STATE_NONE k);
                 if thr p \<noteq> None \<and> p \<noteq> fromprocess then do {
                   (ret, k2) \<leftarrow> run_thread thr n p PROCESS_EVENT_EXIT 0 (set_current p k1);
                   Some k2
                 } else Some k1
               } else Some k);
       k2 \<leftarrow> unlink_process p k1;
       Some (set_current old_current k2)
     }
   }"
| "exit_loop thr 0 p q k = None"
| "exit_loop thr (Suc n) p q k =
     (if q = NULL then Some k
      else do {
        k1 \<leftarrow> (if p \<noteq> q then call_process thr n q PROCESS_EVENT_EXITED p k else Some k);
        exit_loop thr n p (p_next k1 q) k1
      })"
| "process_post_synch thr 0 p ev data k = None"
| "process_post_synch thr (Suc n) p ev data k = do {
     let caller = process_current k;
     k1 \<leftarrow> call_process thr n p ev data k;
     Some (set_current caller k1)
   }"
| "process_start thr 0 p data k = None"
| "process_start thr (Suc n) p data k = do {
     q \<leftarrow> find_loop (p_next k) p (process_list k);
     if q = p then Some k
     else process_post_synch thr n p PROCESS_EVENT_INIT data (link_process p k)
   }"

  by pat_completeness auto
termination
  by (relation "measure (\<lambda>x. case x of
        Inl (Inl (thr, n, _)) \<Rightarrow> n
      | Inl (Inr (Inl (thr, n, _))) \<Rightarrow> n
      | Inl (Inr (Inr (thr, n, _))) \<Rightarrow> n
      | Inr (Inl (Inl (thr, n, _))) \<Rightarrow> n
      | Inr (Inl (Inr (thr, n, _))) \<Rightarrow> n
      | Inr (Inr (Inl (thr, n, _))) \<Rightarrow> n
      | Inr (Inr (Inr (thr, n, _))) \<Rightarrow> n)") auto

definition process_exit :: "'u threads \<Rightarrow> nat \<Rightarrow> ptr \<Rightarrow> 'u kernel \<Rightarrow> 'u kernel option" where
  "process_exit thr n p k = exit_process thr n p (process_current k) k"

section \<open>The scheduler\<close>

fun poll_loop :: "'u threads \<Rightarrow> nat \<Rightarrow> ptr \<Rightarrow> 'u kernel \<Rightarrow> 'u kernel option" where
  "poll_loop thr 0 p k = None"
| "poll_loop thr (Suc n) p k =
     (if p = NULL then Some k
      else do {
        k1 \<leftarrow> (if p_needspoll k p \<noteq> 0 then
                 call_process thr n p PROCESS_EVENT_POLL 0
                   (clear_needspoll p (set_state p PROCESS_STATE_RUNNING k))
               else Some k);
        poll_loop thr n (p_next k1 p) k1
      })"

definition do_poll :: "'u threads \<Rightarrow> nat \<Rightarrow> 'u kernel \<Rightarrow> 'u kernel option" where
  "do_poll thr n k =
     (let k0 = k\<lparr>poll_requested := 0\<rparr> in poll_loop thr n (process_list k0) k0)"

fun broadcast_loop :: "'u threads \<Rightarrow> nat \<Rightarrow> u8 \<Rightarrow> nat \<Rightarrow> ptr \<Rightarrow> 'u kernel \<Rightarrow> 'u kernel option" where
  "broadcast_loop thr 0 ev data p k = None"
| "broadcast_loop thr (Suc n) ev data p k =
     (if p = NULL then Some k
      else do {
        k1 \<leftarrow> (if poll_requested k \<noteq> 0 then do_poll thr n k else Some k);
        k2 \<leftarrow> call_process thr n p ev data k1;
        broadcast_loop thr n ev data (p_next k2 p) k2
      })"

definition do_event :: "'u threads \<Rightarrow> nat \<Rightarrow> 'u kernel \<Rightarrow> 'u kernel option" where
  "do_event thr n k =
     (case next_event k of
        (None, k1) \<Rightarrow> Some k1
      | (Some e, k1) \<Rightarrow>
          if ed_p e = PROCESS_BROADCAST then broadcast_loop thr n (ed_ev e) (ed_data e) (process_list k1) k1
          else
            let k2 = (if ed_ev e = PROCESS_EVENT_INIT
                      then set_state (ed_p e) PROCESS_STATE_RUNNING k1 else k1)
            in call_process thr n (ed_p e) (ed_ev e) (ed_data e) k2)"

definition process_run :: "'u threads \<Rightarrow> nat \<Rightarrow> 'u kernel \<Rightarrow> (nat \<times> 'u kernel) option" where
  "process_run thr n k = do {
     k1 \<leftarrow> (if poll_requested k \<noteq> 0 then do_poll thr n k else Some k);
     k2 \<leftarrow> do_event thr n k1;
     Some (process_nevents k2, k2)
   }"


section \<open>Invariants of everything a thread can do\<close>

text \<open>
  A property of the kernel's state that each primitive update keeps is kept by every call of a
  thread, start, exit, poll and event, whatever the threads do.
\<close>

lemma find_loop_result:
  assumes "find_loop n p q = Some r"
  shows "r = p \<or> r = NULL"
proof (rule find_loop.raw_induct [where P = "\<lambda>n p q r. r = p \<or> r = NULL", OF _ assms])
  fix f n p q r
  assume ih: "\<And>n p q r. f n p q = Some r \<Longrightarrow> r = p \<or> r = NULL"
    and eq: "(if q \<noteq> p \<and> q \<noteq> NULL then f n p (n q) else Some q) = Some r"
  show "r = p \<or> r = NULL"
  proof (cases "q \<noteq> p \<and> q \<noteq> NULL")
    case True
    with eq have "f n p (n q) = Some r" by simp
    then show ?thesis by (rule ih)
  next
    case False
    with eq show ?thesis by auto
  qed
qed

locale kernel_invariant =
  fixes I :: "'u kernel \<Rightarrow> bool"
  assumes I_current: "I k \<Longrightarrow> I (set_current p k)"
    and I_state: "I k \<Longrightarrow> I (set_state p s k)"
    and I_lc: "I k \<Longrightarrow> I (set_lc p c k)"
    and I_app: "I k \<Longrightarrow> I (k\<lparr>app := u\<rparr>)"
    and I_post: "I k \<Longrightarrow> I (snd (process_post p ev d k))"
    and I_poll: "I k \<Longrightarrow> I (process_poll p k)"
    and I_link: "I k \<Longrightarrow> p \<noteq> NULL \<Longrightarrow> find_loop (p_next k) p (process_list k) = Some NULL \<Longrightarrow>
      I (link_process p k)"
    and I_unlink: "I k \<Longrightarrow> p \<noteq> NULL \<Longrightarrow> unlink_process p k = Some k' \<Longrightarrow> I k'"
    and I_next: "I k \<Longrightarrow> I (snd (next_event k))"
    and I_requested: "I k \<Longrightarrow> I (k\<lparr>poll_requested := f\<rparr>)"
    and I_needspoll: "I k \<Longrightarrow> I (k\<lparr>p_needspoll := g\<rparr>)"
begin

lemma I_call_run:
  "(\<forall>p ev d k k'. I k \<longrightarrow> call_process thr n p ev d k = Some k' \<longrightarrow> I k') \<and>
   (\<forall>p ev d k r k'. I k \<longrightarrow> run_thread thr n p ev d k = Some (r, k') \<longrightarrow> I k') \<and>
   (\<forall>a k r c k'. I k \<longrightarrow> run_act thr n a k = Some (r, c, k') \<longrightarrow> I k') \<and>
   (\<forall>p q k k'. I k \<longrightarrow> exit_process thr n p q k = Some k' \<longrightarrow> I k') \<and>
   (\<forall>p q k k'. I k \<longrightarrow> exit_loop thr n p q k = Some k' \<longrightarrow> I k') \<and>
   (\<forall>p ev d k k'. I k \<longrightarrow> process_post_synch thr n p ev d k = Some k' \<longrightarrow> I k') \<and>
   (\<forall>p d k k'. I k \<longrightarrow> process_start thr n p d k = Some k' \<longrightarrow> I k')"
proof (induction n)
  case 0
  then show ?case by simp
next
  case (Suc n)
  note call = Suc.IH [THEN conjunct1, rule_format]
    and thread = Suc.IH [THEN conjunct2, THEN conjunct1, rule_format]
    and act = Suc.IH [THEN conjunct2, THEN conjunct2, THEN conjunct1, rule_format]
    and exit = Suc.IH [THEN conjunct2, THEN conjunct2, THEN conjunct2, THEN conjunct1, rule_format]
    and loop = Suc.IH [THEN conjunct2, THEN conjunct2, THEN conjunct2, THEN conjunct2,
      THEN conjunct1, rule_format]
    and synch = Suc.IH [THEN conjunct2, THEN conjunct2, THEN conjunct2, THEN conjunct2,
      THEN conjunct2, THEN conjunct1, rule_format]
    and start = Suc.IH [THEN conjunct2, THEN conjunct2, THEN conjunct2, THEN conjunct2,
      THEN conjunct2, THEN conjunct2, rule_format]
  have 1: "I k'" if "I k" and "call_process thr (Suc n) p ev d k = Some k'" for p ev d k k'
    using that by (auto simp: Option.bind_eq_Some_conv split: if_splits)
      (meson I_current I_state thread exit)+
  have 2: "I k'" if "I k" and "run_thread thr (Suc n) p ev d k = Some (r, k')" for p ev d k r k'
    using that by (auto simp: Option.bind_eq_Some_conv intro: I_lc act)
  have 3: "I k'" if "I k" and "run_act thr (Suc n) a k = Some (r, c, k')" for a k r c k'
  proof (cases a)
    case (Post q ev d b)
    then show ?thesis using that I_post [of k q ev d] by (auto split: prod.splits intro: act)
  qed (use that in \<open>auto simp: Option.bind_eq_Some_conv Let_def
      intro: act I_app I_poll start synch exit\<close>)
  have 4: "I k'" if k: "I k" and ex: "exit_process thr (Suc n) p q k = Some k'" for p q k k'
  proof -
    from ex obtain f where f: "find_loop (p_next k) p (process_list k) = Some f"
      by (auto simp: Option.bind_eq_Some_conv)
    show ?thesis
    proof (cases "f = NULL")
      case True
      with k ex f show ?thesis by simp
    next
      case False
      with find_loop_result [OF f] have p: "p \<noteq> NULL" by auto
      let ?k0 = "set_state p PROCESS_STATE_NONE k"
      from ex f False obtain k1 k2 where
        k1: "(if process_is_running p k then do {
                 k1 \<leftarrow> exit_loop thr n p (process_list k) ?k0;
                 if thr p \<noteq> None \<and> p \<noteq> q then do {
                   (ret, k2) \<leftarrow> run_thread thr n p PROCESS_EVENT_EXIT 0 (set_current p k1);
                   Some k2
                 } else Some k1
               } else Some k) = Some k1"
        and k2: "unlink_process p k1 = Some k2" and k': "k' = set_current (process_current k) k2"
        by (auto simp: Option.bind_eq_Some_conv Let_def)
      have "I ?k0" using k by (rule I_state)
      then have "I k3" if "exit_loop thr n p (process_list k) ?k0 = Some k3" for k3
        using that by (rule loop)
      with k1 k have "I k1"
        by (auto simp: Option.bind_eq_Some_conv split: if_splits intro: I_current thread)
      then show ?thesis using I_unlink [OF _ p k2] k' by (simp add: I_current)
    qed
  qed
  have 5: "I k'" if "I k" and "exit_loop thr (Suc n) p q k = Some k'" for p q k k'
    using that by (auto simp: Option.bind_eq_Some_conv split: if_splits intro: call loop)
  have 6: "I k'" if "I k" and "process_post_synch thr (Suc n) p ev d k = Some k'" for p ev d k k'
    using that by (auto simp: Option.bind_eq_Some_conv intro: I_current call)
  have 7: "I k'" if k: "I k" and st: "process_start thr (Suc n) p d k = Some k'" for p d k k'
  proof -
    from st obtain f where f: "find_loop (p_next k) p (process_list k) = Some f"
      by (auto simp: Option.bind_eq_Some_conv)
    with k st find_loop_result [OF f] show ?thesis
      by (auto split: if_splits intro: synch I_link)
  qed
  show ?case by (intro conjI allI impI) (erule (1) 1 2 3 4 5 6 7)+
qed

lemmas I_call = I_call_run [THEN conjunct1, rule_format]
lemmas I_start = I_call_run [THEN conjunct2, THEN conjunct2, THEN conjunct2, THEN conjunct2,
    THEN conjunct2, THEN conjunct2, rule_format]
lemmas I_exit = I_call_run [THEN conjunct2, THEN conjunct2, THEN conjunct2, THEN conjunct1,
    rule_format]

lemma I_poll_loop: "I k \<Longrightarrow> poll_loop thr n p k = Some k' \<Longrightarrow> I k'"
proof (induction n arbitrary: p k)
  case 0
  then show ?case by simp
next
  case (Suc n)
  show ?case
  proof (cases "p = NULL")
    case True
    with Suc.prems show ?thesis by simp
  next
    case False
    let ?k1 = "clear_needspoll p (set_state p PROCESS_STATE_RUNNING k)"
    from False Suc.prems(2) obtain k2 where
      k2: "(if p_needspoll k p \<noteq> 0 then call_process thr n p PROCESS_EVENT_POLL 0 ?k1 else Some k) = Some k2"
      and rest: "poll_loop thr n (p_next k2 p) k2 = Some k'"
      by (auto simp: Option.bind_eq_Some_conv Let_def)
    have "I ?k1" unfolding clear_needspoll_def using Suc.prems(1) by (intro I_needspoll I_state)
    with k2 Suc.prems(1) have "I k2" by (metis I_call option.inject)
    then show ?thesis using rest by (rule Suc.IH)
  qed
qed

lemma I_do_poll: "I k \<Longrightarrow> do_poll thr n k = Some k' \<Longrightarrow> I k'"
  by (auto simp: do_poll_def Let_def intro: I_poll_loop I_requested)

lemma I_broadcast: "I k \<Longrightarrow> broadcast_loop thr n ev d p k = Some k' \<Longrightarrow> I k'"
proof (induction n arbitrary: p k)
  case 0
  then show ?case by simp
next
  case (Suc n)
  show ?case
  proof (cases "p = NULL")
    case True
    with Suc.prems show ?thesis by simp
  next
    case False
    with Suc.prems(2) obtain k1 k2 where
      k1: "(if poll_requested k \<noteq> 0 then do_poll thr n k else Some k) = Some k1"
      and k2: "call_process thr n p ev d k1 = Some k2"
      and rest: "broadcast_loop thr n ev d (p_next k2 p) k2 = Some k'"
      by (auto simp: Option.bind_eq_Some_conv)
    have "I k1" using k1 Suc.prems(1) by (metis I_do_poll option.inject)
    then have "I k2" using k2 by (rule I_call)
    then show ?thesis using rest by (rule Suc.IH)
  qed
qed

lemma I_do_event: "I k \<Longrightarrow> do_event thr n k = Some k' \<Longrightarrow> I k'"
  using I_next [of k]
  by (auto simp: do_event_def Let_def split: prod.splits option.splits if_splits
      intro: I_broadcast I_call I_state)

lemma I_process_run: "I k \<Longrightarrow> process_run thr n k = Some (r, k') \<Longrightarrow> I k'"
  by (auto simp: process_run_def Option.bind_eq_Some_conv split: if_splits
      intro: I_do_poll I_do_event)

end

section \<open>The event queue is a bounded queue of 32 events\<close>

definition queue_ok :: "'u kernel \<Rightarrow> bool" where
  "queue_ok k \<longleftrightarrow> length (events k) = 32 \<and> unat (nevents k) \<le> 32 \<and> unat (fevent k) < 32"

definition pending :: "'u kernel \<Rightarrow> event_data list" where
  "pending k = ring_elems (events k) (unat (fevent k)) (unat (nevents k))"

definition post_event :: "event_data \<Rightarrow> 'u kernel \<Rightarrow> bool \<times> 'u kernel" where
  "post_event e k = (case process_post (ed_p e) (ed_ev e) (ed_data e) k of (r, k1) \<Rightarrow> (r = PROCESS_ERR_OK, k1))"

lemma unat_add_small: "unat a + unat b < 256 \<Longrightarrow> unat (a + b :: u8) = unat a + unat b"
  using unat_add_lem [of a b] by simp

lemma unat_pred: "(a :: u8) > 0 \<Longrightarrow> unat (a - 1) = unat a - 1"
  by (metis unat_minus_one word_gt_0)

lemma snum_slot:
  assumes "queue_ok k"
  shows "unat ((fevent k + nevents k) mod 32) = (unat (fevent k) + unat (nevents k)) mod 32"
  using assms by (simp add: queue_ok_def unat_mod unat_add_small)

lemma fevent_slot:
  assumes "queue_ok k"
  shows "unat ((fevent k + 1) mod 32) = (unat (fevent k) + 1) mod 32"
  using assms by (simp add: queue_ok_def unat_mod unat_add_small)

lemma event_eta [simp]: "\<lparr>ed_ev = ed_ev e, ed_data = ed_data e, ed_p = ed_p e\<rparr> = (e :: event_data)"
  by (cases e) simp

interpretation event_queue: bounded_fifo queue_ok 32 pending post_event next_event
proof unfold_locales
  fix k :: "'u kernel" and e
  assume ok: "queue_ok k" and "length (pending k) < 32"
  then have lt: "unat (nevents k) < 32" by (simp add: pending_def)
  then have ne: "nevents k \<noteq> 32" by auto
  let ?d = "(events k)[(unat (fevent k) + unat (nevents k)) mod 32 := e]"
  have run: "post_event e k = (True, k\<lparr>events := ?d, nevents := nevents k + 1\<rparr>)"
    using ne snum_slot [OF ok] by (simp add: post_event_def process_post_def process_consts)
  have n: "unat (nevents k + 1) = Suc (unat (nevents k))"
    using lt by (simp add: unat_add_small)
  show "fst (post_event e k) \<and> queue_ok (snd (post_event e k)) \<and>
      pending (snd (post_event e k)) = pending k @ [e]"
    using ok lt n ring_put [of "unat (nevents k)" "events k" "unat (fevent k)" e]
    by (simp add: run queue_ok_def pending_def)
next
  fix k :: "'u kernel" and e
  assume "queue_ok k" and "length (pending k) = 32"
  then have "nevents k = 32" by (simp add: pending_def word_unat_eq_iff)
  then show "post_event e k = (False, k)"
    by (simp add: post_event_def process_post_def process_consts)
next
  fix k :: "'u kernel" and e es
  assume ok: "queue_ok k" and p: "pending k = e # es"
  then have "length (pending k) > 0" by simp
  then have pos: "unat (nevents k) > 0" by (simp add: pending_def)
  then have gt: "nevents k > 0" by (simp add: unat_gt_0 word_gt_0)
  obtain c where c: "unat (nevents k) = Suc c" using pos gr0_implies_Suc by blast
  have "events k \<noteq> []" using ok by (auto simp: queue_ok_def)
  from ring_get [OF this, of "unat (fevent k)" c] p ok
  have "e = events k ! unat (fevent k)" and "es = ring_elems (events k) ((unat (fevent k) + 1) mod 32) c"
    by (simp_all add: pending_def c queue_ok_def)
  moreover have "unat (nevents k - 1) = c" using unat_pred [OF gt] c by simp
  ultimately show "fst (next_event k) = Some e \<and> queue_ok (snd (next_event k)) \<and> pending (snd (next_event k)) = es"
    using ok gt fevent_slot [OF ok] c
    by (simp add: next_event_def pending_def queue_ok_def process_consts)
next
  fix k :: "'u kernel"
  assume "queue_ok k" and "pending k = []"
  then have "length (pending k) = 0" by simp
  then have "nevents k = 0" by (simp add: pending_def unat_eq_0)
  then show "next_event k = (None, k)" by (simp add: next_event_def)
next
  fix k :: "'u kernel"
  assume "queue_ok k"
  then show "length (pending k) \<le> 32" by (simp add: queue_ok_def pending_def)
qed

section \<open>The process list as a list\<close>

definition processes :: "'u kernel \<Rightarrow> ptr list \<Rightarrow> bool" where
  "processes k ps \<longleftrightarrow> chain (p_next k) (process_list k) ps"

lemma find_loop_chain: "chain n q ps \<Longrightarrow> find_loop n p q = Some (if p \<in> set ps then p else NULL)"
proof (induction ps arbitrary: q)
  case Nil
  then show ?case by (simp add: find_loop.simps)
next
  case (Cons x ps)
  then show ?case by (subst find_loop.simps) auto
qed

lemma find_process: "processes k ps \<Longrightarrow>
    find_loop (p_next k) p (process_list k) = Some (if p \<in> set ps then p else NULL)"
  unfolding processes_def by (rule find_loop_chain)

lemma link_processes:
  assumes "processes k ps" and "p \<noteq> NULL" and "p \<notin> set ps"
  shows "processes (link_process p k) (p # ps)"
  using assms by (simp add: processes_def link_process_def set_state_def set_lc_def Let_def)

lemma unlink_loop_chain:
  assumes "seg (p_next k) (process_list k) us q" and "chain (p_next k) q vs"
    and "distinct (us @ vs)" and "p \<noteq> NULL" and "p \<notin> set us" and "q \<noteq> p"
  shows "\<exists>n'. unlink_loop p q k = Some (k\<lparr>p_next := n'\<rparr>) \<and>
      chain n' (process_list k) (us @ remove1 p vs) \<and> (\<forall>x. x \<notin> set (us @ vs) \<longrightarrow> n' x = p_next k x)"
  using assms
proof (induction vs arbitrary: us q)
  case Nil
  then show ?case by (auto simp: unlink_loop.simps chain_def intro!: exI [of _ "p_next k"])
next
  case (Cons v vs)
  then have q: "q = v" "v \<noteq> NULL" and rest: "chain (p_next k) (p_next k v) vs" by auto
  show ?case
  proof (cases "p_next k v = p")
    case True
    with rest Cons.prems(4) obtain ws where vs: "vs = p # ws" and ws: "chain (p_next k) (p_next k p) ws"
      by (cases vs) auto
    let ?n = "(p_next k)(v := p_next k p)"
    have "unlink_loop p q k = Some (k\<lparr>p_next := ?n\<rparr>)"
      using q True by (simp add: unlink_loop.simps)
    moreover have "chain ?n (process_list k) (us @ v # ws)"
      using Cons.prems q ws vs by (auto simp: chain_append)
    moreover have "remove1 p (v # vs) = v # ws" using vs Cons.prems q by auto
    ultimately show ?thesis by auto
  next
    case False
    have "seg (p_next k) (process_list k) (us @ [v]) (p_next k v)"
      using Cons.prems q by (simp add: seg_append)
    moreover have "distinct ((us @ [v]) @ vs)" and "p \<notin> set (us @ [v])"
      using Cons.prems q by auto
    ultimately obtain n' where "unlink_loop p (p_next k v) k = Some (k\<lparr>p_next := n'\<rparr>)"
      and "chain n' (process_list k) ((us @ [v]) @ remove1 p vs)"
      and "\<forall>x. x \<notin> set ((us @ [v]) @ vs) \<longrightarrow> n' x = p_next k x"
      using Cons.IH [of "us @ [v]" "p_next k v"] rest Cons.prems(4) False by blast
    moreover have "unlink_loop p q k = unlink_loop p (p_next k v) k"
      using q False by (subst unlink_loop.simps) simp
    ultimately show ?thesis using Cons.prems(6) q by (intro exI [of _ n']) auto
  qed
qed

lemma unlink_processes:
  assumes "processes k ps" and "p \<noteq> NULL"
  shows "\<exists>l n. unlink_process p k = Some (k\<lparr>process_list := l, p_next := n\<rparr>) \<and>
      chain n l (remove1 p ps) \<and> (\<forall>x. x \<notin> set ps \<longrightarrow> n x = p_next k x)"
proof (cases "process_list k = p")
  case True
  with assms obtain qs where "ps = p # qs" "chain (p_next k) (p_next k p) qs"
    by (cases ps) (auto simp: processes_def)
  with True show ?thesis
    by (intro exI [of _ "p_next k p"] exI [of _ "p_next k"]) (simp add: unlink_process_def)
next
  case False
  from assms have c: "chain (p_next k) (process_list k) ps" by (simp add: processes_def)
  with chain_distinct [OF c] assms(2) False
  obtain n where "unlink_loop p (process_list k) k = Some (k\<lparr>p_next := n\<rparr>)"
    and "chain n (process_list k) (remove1 p ps)" and "\<forall>x. x \<notin> set ps \<longrightarrow> n x = p_next k x"
    using unlink_loop_chain [of k "[]" "process_list k" ps p] by auto
  with False show ?thesis
    by (intro exI [of _ "process_list k"] exI [of _ n]) (auto simp: unlink_process_def)
qed

section \<open>No behaviour of the threads breaks the kernel's data structures\<close>

definition kernel_ok :: "'u kernel \<Rightarrow> bool" where
  "kernel_ok k \<longleftrightarrow> queue_ok k \<and> (\<exists>ps. processes k ps)"

lemma queue_ok_post: "queue_ok k \<Longrightarrow> queue_ok (snd (process_post p ev d k))"
  using event_queue.put_cases [of k "\<lparr>ed_ev = ev, ed_data = d, ed_p = p\<rparr>"]
  by (cases "process_post p ev d k") (auto simp: post_event_def)

lemma post_fields [simp]:
  "process_list (snd (process_post p ev d k)) = process_list k"
  "p_next (snd (process_post p ev d k)) = p_next k"
  "p_state (snd (process_post p ev d k)) = p_state k"
  "process_current (snd (process_post p ev d k)) = process_current k"
  by (simp_all add: process_post_def Let_def)

lemma next_event_fields [simp]:
  "process_list (snd (next_event k)) = process_list k"
  "p_next (snd (next_event k)) = p_next k"
  "p_state (snd (next_event k)) = p_state k"
  "p_needspoll (snd (next_event k)) = p_needspoll k"
  "poll_requested (snd (next_event k)) = poll_requested k"
  by (simp_all add: next_event_def)

lemma poll_fields [simp]:
  "process_list (process_poll p k) = process_list k"
  "p_next (process_poll p k) = p_next k"
  "events (process_poll p k) = events k"
  "nevents (process_poll p k) = nevents k"
  "fevent (process_poll p k) = fevent k"
  by (simp_all add: process_poll_def)

lemma queue_ok_next: "queue_ok k \<Longrightarrow> queue_ok (snd (next_event k))"
  using event_queue.get_cases [of k] by (metis prod.collapse)

interpretation kernel: kernel_invariant kernel_ok
proof unfold_locales
  fix k :: "'u kernel" and p
  assume ok: "kernel_ok k" and p: "p \<noteq> NULL"
  then obtain ps where ps: "processes k ps" and q: "queue_ok k" by (auto simp: kernel_ok_def)
  {
    assume "find_loop (p_next k) p (process_list k) = Some NULL"
    with find_process [OF ps, of p] p have "p \<notin> set ps" by (auto split: if_splits)
    with link_processes [OF ps p] q show "kernel_ok (link_process p k)"
      by (auto simp: kernel_ok_def queue_ok_def link_process_def set_state_def set_lc_def)
  }
  {
    fix k'
    assume "unlink_process p k = Some k'"
    with unlink_processes [OF ps p] q show "kernel_ok k'"
      by (auto simp: kernel_ok_def queue_ok_def processes_def)
  }
qed (auto simp: kernel_ok_def queue_ok_post queue_ok_next processes_def,
  auto simp: queue_ok_def set_current_def set_state_def set_lc_def)

text \<open>The states the kernel can be in: initialised, then any use of its interface, by threads or
  from outside, that returned.\<close>

inductive kernel_reachable :: "'u threads \<Rightarrow> 'u kernel \<Rightarrow> bool" for thr where
  kr_init: "length (events k) = 32 \<Longrightarrow> kernel_reachable thr (process_init k)"
| kr_start: "kernel_reachable thr k \<Longrightarrow> process_start thr n p d k = Some k' \<Longrightarrow> kernel_reachable thr k'"
| kr_exit: "kernel_reachable thr k \<Longrightarrow> process_exit thr n p k = Some k' \<Longrightarrow> kernel_reachable thr k'"
| kr_synch: "kernel_reachable thr k \<Longrightarrow> process_post_synch thr n p ev d k = Some k' \<Longrightarrow> kernel_reachable thr k'"
| kr_post: "kernel_reachable thr k \<Longrightarrow> kernel_reachable thr (snd (process_post p ev d k))"
| kr_poll: "kernel_reachable thr k \<Longrightarrow> kernel_reachable thr (process_poll p k)"
| kr_alloc: "kernel_reachable thr k \<Longrightarrow> kernel_reachable thr (snd (process_alloc_event k))"
| kr_run: "kernel_reachable thr k \<Longrightarrow> process_run thr n k = Some (r, k') \<Longrightarrow> kernel_reachable thr k'"

lemma process_init_ok: "length (events k) = 32 \<Longrightarrow> kernel_ok (process_init k)"
  by (auto simp: kernel_ok_def queue_ok_def processes_def process_init_def)

lemma alloc_event_ok: "kernel_ok k \<Longrightarrow> kernel_ok (snd (process_alloc_event k))"
  by (auto simp: kernel_ok_def queue_ok_def processes_def process_alloc_event_def)

lemmas kernel_synch = kernel.I_call_run [THEN conjunct2, THEN conjunct2, THEN conjunct2,
    THEN conjunct2, THEN conjunct2, THEN conjunct1, rule_format]

lemma reachable_kernel_ok: "kernel_reachable thr k \<Longrightarrow> kernel_ok k"
proof (induction rule: kernel_reachable.induct)
  case (kr_init k)
  then show ?case by (rule process_init_ok)
next
  case (kr_start k n p d k')
  then show ?case by (blast intro: kernel.I_start)
next
  case (kr_exit k n p k')
  then show ?case unfolding process_exit_def by (blast intro: kernel.I_exit)
next
  case (kr_synch k n p ev d k')
  then show ?case by (blast intro: kernel_synch)
next
  case (kr_post k p ev d)
  then show ?case by (intro kernel.I_post)
next
  case (kr_poll k p)
  then show ?case by (intro kernel.I_poll)
next
  case (kr_alloc k)
  then show ?case by (intro alloc_event_ok)
next
  case (kr_run k n r k')
  then show ?case by (blast intro: kernel.I_process_run)
qed

text \<open>C2: whatever the process threads do through the kernel's interface (posting, polling,
  starting and exiting processes and delivering synchronous events, re-entrantly), in every
  reachable state the process list is a finite chain without duplicates or null entries, and the
  event queue holds at most \<open>PROCESS_CONF_NUMEVENTS\<close> events inside its array.\<close>

theorem process_list_stays_well_formed:
  assumes "kernel_reachable thr k"
  shows "\<exists>ps. processes k ps \<and> distinct ps \<and> NULL \<notin> set ps \<and>
         (\<forall>p. find_loop (p_next k) p (process_list k) = Some (if p \<in> set ps then p else NULL)) \<and>
         length (pending k) = unat (nevents k) \<and> nevents k \<le> PROCESS_CONF_NUMEVENTS \<and>
         unat (fevent k) < length (events k)"
proof -
  from reachable_kernel_ok [OF assms] obtain ps where ps: "processes k ps" and q: "queue_ok k"
    by (auto simp: kernel_ok_def)
  from ps have c: "chain (p_next k) (process_list k) ps" by (simp add: processes_def)
  have "distinct ps" using c by (rule chain_distinct)
  moreover have "NULL \<notin> set ps" using chain_set_nonNULL [OF c] by blast
  ultimately show ?thesis using ps find_process [OF ps] q
    by (intro exI [of _ ps])
      (auto simp: queue_ok_def pending_def word_le_nat_alt process_consts)
qed

definition blank_kernel :: "'u \<Rightarrow> 'u kernel" where
  "blank_kernel u = \<lparr>process_list = 0, process_current = 0, lastevent = 0, nevents = 0, fevent = 0,
     events = replicate 32 \<lparr>ed_ev = 0, ed_data = 0, ed_p = 0\<rparr>, poll_requested = 0,
     p_next = (\<lambda>_. 0), p_state = (\<lambda>_. 0), p_needspoll = (\<lambda>_. 0), p_lc = (\<lambda>_. 0), app = u\<rparr>"

text \<open>A thread that starts process 9 when it is initialised, and yields.\<close>

definition starter :: "unit threads" where
  "starter p = (if p = 5 then Some (\<lambda>lc ev d u. Start 9 0 (Return PT_YIELDED lc)) else None)"

lemma process_list_stays_well_formed_witness:
  "\<exists>k ps. process_start starter 9 5 0 (process_init (blank_kernel ())) = Some k \<and>
     processes k ps \<and> distinct ps"
proof -
  have "kernel_reachable starter (process_init (blank_kernel ()))"
    by (rule kernel_reachable.intros) (simp add: blank_kernel_def)
  moreover obtain k where k: "process_start starter 9 5 0 (process_init (blank_kernel ())) = Some k"
    by (simp add: eval_nat_numeral find_loop.simps process_init_def blank_kernel_def link_process_def
        set_state_def set_lc_def set_current_def starter_def process_consts Let_def)
  ultimately have "kernel_reachable starter k" by (rule kernel_reachable.intros)
  from process_list_stays_well_formed [OF this] k show ?thesis by blast
qed

text \<open>C19: the event queue is first-in first-out: over any sequence of posts and dispatches from
  initialisation, the events accepted are the events dispatched, in order, followed by the events
  still pending; a post is refused, with \<open>PROCESS_ERR_FULL\<close> and no other effect, exactly when
  32 events are pending.\<close>

theorem event_queue_first_in_first_out:
  assumes "length (events k) = 32"
    and "fifo_run post_event next_event ops (process_init k) = (ins, outs, t)"
  shows "ins = outs @ pending t \<and>
         (\<forall>p ev d. process_post p ev d t =
            (if length (pending t) = 32 then (PROCESS_ERR_FULL, t)
             else (PROCESS_ERR_OK, snd (post_event \<lparr>ed_ev = ev, ed_data = d, ed_p = p\<rparr> t))))"
proof -
  have "queue_ok (process_init k)" and "pending (process_init k) = []"
    using process_init_ok [OF assms(1)] by (simp_all add: kernel_ok_def pending_def process_init_def)
  with event_queue.fifo_order [OF _ assms(2)] have t: "queue_ok t" "ins = outs @ pending t" by auto
  then have "nevents t = 32 \<longleftrightarrow> length (pending t) = 32"
    by (simp add: pending_def word_unat_eq_iff)
  with t(2) show ?thesis
    by (auto simp: process_post_def post_event_def process_consts Let_def)
qed

lemma event_queue_first_in_first_out_witness:
  "\<exists>ins outs t. fifo_run post_event next_event [Put \<lparr>ed_ev = 1, ed_data = 2, ed_p = 3\<rparr>, Get]
      (process_init (blank_kernel ())) = (ins, outs, t) \<and> ins = outs @ pending t \<and> length ins = 1"
proof -
  obtain ins outs t where r: "fifo_run post_event next_event
      [Put \<lparr>ed_ev = 1, ed_data = 2, ed_p = 3\<rparr>, Get] (process_init (blank_kernel ())) = (ins, outs, t)"
    using prod_cases3 by blast
  then have "length ins = 1"
    by (auto simp: post_event_def process_post_def process_init_def blank_kernel_def process_consts
        next_event_def Let_def)
  moreover have "ins = outs @ pending t"
    using event_queue_first_in_first_out [OF _ r] by (simp add: blank_kernel_def)
  ultimately show ?thesis using r by blast
qed

section \<open>Exiting and starting\<close>

lemmas kernel_thread = kernel.I_call_run [THEN conjunct2, THEN conjunct1, rule_format]
lemmas kernel_loop = kernel.I_call_run [THEN conjunct2, THEN conjunct2, THEN conjunct2,
    THEN conjunct2, THEN conjunct1, rule_format]

lemma exit_process_found:
  assumes ok: "kernel_ok k" and f: "find_loop (p_next k) p (process_list k) = Some p" and p: "p \<noteq> NULL"
    and ex: "exit_process thr n p q k = Some k'"
  obtains k1 k2 where "kernel_ok k1" and "unlink_process p k1 = Some k2"
    and "k' = set_current (process_current k) k2"
proof (cases n)
  case 0
  with ex show ?thesis by simp
next
  case (Suc m)
  let ?k0 = "set_state p PROCESS_STATE_NONE k"
  from ex f p Suc obtain k1 k2 where
    k1: "(if process_is_running p k then do {
             k1 \<leftarrow> exit_loop thr m p (process_list k) ?k0;
             if thr p \<noteq> None \<and> p \<noteq> q then do {
               (ret, k2) \<leftarrow> run_thread thr m p PROCESS_EVENT_EXIT 0 (set_current p k1);
               Some k2
             } else Some k1
           } else Some k) = Some k1"
    and k2: "unlink_process p k1 = Some k2" and k': "k' = set_current (process_current k) k2"
    by (auto simp: Option.bind_eq_Some_conv Let_def)
  have "kernel_ok ?k0" using ok by (rule kernel.I_state)
  then have "kernel_ok k3" if "exit_loop thr m p (process_list k) ?k0 = Some k3" for k3
    using that by (rule kernel_loop)
  with k1 ok have "kernel_ok k1"
    by (auto simp: Option.bind_eq_Some_conv split: if_splits intro: kernel.I_current kernel_thread)
  then show ?thesis using k2 k' by (rule that)
qed

text \<open>when \<open>exit_process\<close> of a process on the list returns, that process is no longer on the
  list, even if handlers of the exit broadcast started, exited or re-entered anything meanwhile,
  and the current process is the one it was before the call.\<close>

theorem exit_process_removes:
  assumes "kernel_ok k" and "processes k ps" and "p \<in> set ps"
    and "exit_process thr n p from k = Some k'"
  shows "\<exists>qs. processes k' qs \<and> p \<notin> set qs \<and> process_current k' = process_current k"
proof -
  have p: "p \<noteq> NULL" using assms(2,3) chain_set_nonNULL by (auto simp: processes_def)
  moreover have "find_loop (p_next k) p (process_list k) = Some p"
    using find_process [OF assms(2)] assms(3) by simp
  ultimately obtain k1 k2 where "kernel_ok k1" and k2: "unlink_process p k1 = Some k2"
    and k': "k' = set_current (process_current k) k2"
    using exit_process_found [OF assms(1) _ _ assms(4)] by blast
  then obtain qs where qs: "processes k1 qs" by (auto simp: kernel_ok_def)
  then have "distinct qs" unfolding processes_def by (rule chain_distinct)
  then have "p \<notin> set (remove1 p qs)" by simp
  moreover have "processes k' (remove1 p qs)"
    using unlink_processes [OF qs p] k2 k' by (auto simp: processes_def set_current_def)
  ultimately show ?thesis using k' by (auto simp: set_current_def)
qed

lemma kernel_ok_one:
  assumes "p \<noteq> NULL"
  shows "kernel_ok (link_process p (process_init (blank_kernel u)))"
    and "processes (link_process p (process_init (blank_kernel u))) [p]"
proof -
  have "processes (process_init (blank_kernel u)) []"
    by (simp add: processes_def process_init_def)
  from link_processes [OF this assms] show "processes (link_process p (process_init (blank_kernel u))) [p]"
    by simp
  then show "kernel_ok (link_process p (process_init (blank_kernel u)))"
    by (auto simp: kernel_ok_def queue_ok_def link_process_def process_init_def blank_kernel_def
        set_state_def set_lc_def)
qed

lemma exit_process_removes_witness:
  "\<exists>k' qs. exit_process starter 5 7 0 (link_process 7 (process_init (blank_kernel ()))) = Some k' \<and>
     processes k' qs \<and> 7 \<notin> set qs"
proof -
  let ?k = "link_process 7 (process_init (blank_kernel ()))"
  obtain k' where k': "exit_process starter 5 7 0 ?k = Some k'"
    by (simp add: eval_nat_numeral find_loop.simps process_init_def blank_kernel_def link_process_def
        set_state_def set_lc_def set_current_def starter_def process_consts Let_def
        process_is_running_def unlink_process_def)
  from exit_process_removes [OF kernel_ok_one(1) kernel_ok_one(2) _ this] show ?thesis
    using k' by auto
qed

text \<open>starting a process that is on the list changes nothing; starting any other process puts it
  at the head of the list in the running state with its local continuation cleared, delivers the
  initialisation event to it and, if that returns, leaves the current process unchanged.\<close>

theorem process_start_behaviour:
  assumes "processes k ps" and "p \<noteq> NULL"
  shows "process_start thr (Suc n) p d k =
           (if p \<in> set ps then Some k
            else process_post_synch thr n p PROCESS_EVENT_INIT d (link_process p k)) \<and>
         (p \<notin> set ps \<longrightarrow> processes (link_process p k) (p # ps) \<and>
            process_is_running p (link_process p k) \<and> p_lc (link_process p k) p = 0) \<and>
         (\<forall>k'. process_start thr (Suc n) p d k = Some k' \<longrightarrow> process_current k' = process_current k)"
proof -
  have synch: "process_current k' = process_current k"
    if "process_post_synch thr m p ev d (link_process p k) = Some k'" for m ev k'
    using that by (cases m) (auto simp: Option.bind_eq_Some_conv set_current_def link_process_def
        set_state_def set_lc_def Let_def)
  have "processes (link_process p k) (p # ps)" if "p \<notin> set ps"
    using link_processes [OF assms that] .
  moreover have "process_is_running p (link_process p k)" "p_lc (link_process p k) p = 0"
    by (simp_all add: process_is_running_def link_process_def set_state_def set_lc_def
        process_consts Let_def)
  moreover have "process_start thr (Suc n) p d k =
      (if p \<in> set ps then Some k
       else process_post_synch thr n p PROCESS_EVENT_INIT d (link_process p k))"
    using find_process [OF assms(1), of p] assms(2) by simp
  ultimately show ?thesis using synch by auto
qed

lemma process_start_behaviour_witness:
  "process_start starter (Suc 2) 7 0 (link_process 7 (process_init (blank_kernel ()))) =
     Some (link_process 7 (process_init (blank_kernel ())))"
proof -
  have "(7::ptr) \<noteq> NULL" by simp
  from process_start_behaviour [OF kernel_ok_one(2) [OF this, of "()"] this, of starter 2 0]
  show ?thesis by (simp del: process_start.simps)
qed

section \<open>Delivery: every event reaches exactly the processes it addresses\<close>

text \<open>
  A thread that handles its events without ending, starting, exiting or calling processes: it
  computes, posts, asks processes in \<open>T\<close> to be polled, and yields after at most \<open>m\<close> actions. The
  application memory records each call of a thread, so that what was delivered can be stated.
\<close>

type_synonym delivery = "ptr \<times> u8 \<times> nat"

fun quiet :: "ptr set \<Rightarrow> nat \<Rightarrow> (delivery list \<times> 'v) act \<Rightarrow> bool" where
  "quiet T 0 a \<longleftrightarrow> False"
| "quiet T (Suc m) (Return r c) \<longleftrightarrow> r \<noteq> PT_EXITED \<and> r \<noteq> PT_ENDED"
| "quiet T (Suc m) (Local f b) \<longleftrightarrow> (\<forall>u. fst (f u) = fst u) \<and> (\<forall>u. quiet T m (b u))"
| "quiet T (Suc m) (Post q ev d b) \<longleftrightarrow> (\<forall>r. quiet T m (b r))"
| "quiet T (Suc m) (Poll q b) \<longleftrightarrow> q \<in> T \<and> quiet T m b"
| "quiet T (Suc m) a \<longleftrightarrow> False"

definition record_call :: "delivery \<Rightarrow> delivery list \<times> 'v \<Rightarrow> delivery list \<times> 'v" where
  "record_call x u = (fst u @ [x], snd u)"

definition recording :: "ptr set \<Rightarrow> (delivery list \<times> 'v) threads \<Rightarrow> nat \<Rightarrow> ptr list \<Rightarrow> bool" where
  "recording T thr m ps \<longleftrightarrow> (\<forall>p \<in> set ps. \<exists>t. thr p = Some t \<and>
     (\<forall>lc ev d u. \<exists>b. t lc ev d u = Local (record_call (p, ev, d)) b \<and> (\<forall>u. quiet T m (b u))))"

text \<open>What serving events may change: the calls \<open>L\<close> were made, and events were posted.\<close>

definition served :: "delivery list \<Rightarrow> (delivery list \<times> 'v) kernel \<Rightarrow> (delivery list \<times> 'v) kernel \<Rightarrow> bool" where
  "served L k t \<longleftrightarrow> process_list t = process_list k \<and> p_next t = p_next k \<and> p_state t = p_state k \<and>
     fst (app t) = fst (app k) @ L \<and> queue_ok t \<and> (\<exists>new. pending t = pending k @ new)"

lemma set_subseq: "subseq xs ys \<Longrightarrow> set xs \<subseteq> set ys"
  by (auto simp: subseq_conv_nths dest: in_set_nthsD)

lemma subseq_distinct: "subseq xs ys \<Longrightarrow> distinct ys \<Longrightarrow> distinct xs"
  by (auto simp: subseq_conv_nths)

text \<open>Which requests to be polled may be added: those of \<open>T\<close>, and the scheduler is told.\<close>

definition asked :: "ptr set \<Rightarrow> 'u kernel \<Rightarrow> 'u kernel \<Rightarrow> bool" where
  "asked T k t \<longleftrightarrow> (\<forall>p. p_needspoll k p \<noteq> 0 \<longrightarrow> p_needspoll t p \<noteq> 0) \<and>
     (\<forall>p. p_needspoll t p \<noteq> 0 \<longrightarrow> p_needspoll k p \<noteq> 0 \<or> p \<in> T \<and> poll_requested t \<noteq> 0) \<and>
     (poll_requested k \<noteq> 0 \<longrightarrow> poll_requested t \<noteq> 0)"

lemma asked_same: "p_needspoll t = p_needspoll k \<Longrightarrow> poll_requested t = poll_requested k \<Longrightarrow> asked T k t"
  by (simp add: asked_def)

lemma asked_trans: "asked T k t \<Longrightarrow> asked T t u \<Longrightarrow> asked T k u"
  unfolding asked_def by blast

lemma asked_poll: "q \<in> T \<Longrightarrow> asked T k (process_poll q k)"
  by (simp add: process_poll_def asked_def)

lemma asked_post: "asked T k (snd (process_post q ev d k))"
  by (rule asked_same) (simp_all add: process_post_def Let_def)

lemma served_refl: "queue_ok k \<Longrightarrow> served [] k k"
  by (simp add: served_def)

lemma served_trans: "served L k t \<Longrightarrow> served M t u \<Longrightarrow> served (L @ M) k u"
  by (auto simp: served_def)

lemma served_poll: "queue_ok k \<Longrightarrow> served [] k (process_poll q k)"
  by (auto simp: process_poll_def served_def queue_ok_def pending_def)

lemma served_post:
  assumes "queue_ok k"
  shows "served [] k (snd (process_post q ev d k))"
proof -
  let ?e = "\<lparr>ed_ev = ev, ed_data = d, ed_p = q\<rparr>"
  obtain ok t where t: "post_event ?e k = (ok, t)" by fastforce
  then have "snd (process_post q ev d k) = t"
    by (auto simp: post_event_def split: prod.splits)
  moreover have "queue_ok t" and "\<exists>new. pending t = pending k @ new"
    using event_queue.put_cases [OF assms t] by auto
  moreover have "app (snd (process_post q ev d k)) = app k"
    by (simp add: process_post_def Let_def)
  ultimately show ?thesis using post_fields [of q ev d k] by (simp add: served_def)
qed

lemma quiet_act:
  "quiet T m a \<Longrightarrow> m \<le> n \<Longrightarrow> queue_ok k \<Longrightarrow>
   \<exists>r c t. run_act thr n a k = Some (r, c, t) \<and> r \<noteq> PT_EXITED \<and> r \<noteq> PT_ENDED \<and> served [] k t \<and> asked T k t"
proof (induction m arbitrary: n a k)
  case 0
  then show ?case by simp
next
  case (Suc m)
  then obtain n' where n: "n = Suc n'" "m \<le> n'" by (cases n) auto
  show ?case
  proof (cases a)
    case (Return r c)
    with Suc.prems n show ?thesis by (auto intro: served_refl asked_same)
  next
    case (Local f b)
    let ?k = "k\<lparr>app := f (app k)\<rparr>"
    have "fst (f (app k)) = fst (app k)" using Suc.prems(1) Local by (simp del: split_paired_All)
    then have q: "queue_ok ?k" and s: "served [] k ?k"
      using Suc.prems(3) by (simp_all add: queue_ok_def served_def pending_def)
    have "quiet T m (b (app ?k))" using Suc.prems(1) Local by (simp del: split_paired_All)
    from Suc.IH [OF this n(2) q] obtain r c t where
      t: "run_act thr n' (b (app ?k)) ?k = Some (r, c, t)" "r \<noteq> PT_EXITED" "r \<noteq> PT_ENDED" "served [] ?k t" "asked T ?k t"
      by blast
    have "asked T k ?k" by (rule asked_same) simp_all
    with served_trans [OF s, of "[]" t] asked_trans [of T k ?k t] t Local n show ?thesis by (simp add: Let_def)
  next
    case (Post q ev d b)
    obtain r1 k1 where k1: "process_post q ev d k = (r1, k1)" by fastforce
    with served_post [OF Suc.prems(3), of q ev d] asked_post [of T k q ev d] have s: "served [] k k1" "asked T k k1" by simp_all
    then have q: "queue_ok k1" by (simp add: served_def)
    have "quiet T m (b r1)" using Suc.prems(1) Post by simp
    from Suc.IH [OF this n(2) q] obtain r c t where
      "run_act thr n' (b r1) k1 = Some (r, c, t)" "r \<noteq> PT_EXITED" "r \<noteq> PT_ENDED" "served [] k1 t" "asked T k1 t"
      by blast
    with served_trans [OF s(1), of "[]" t] asked_trans [OF s(2)] Post n k1 show ?thesis by simp
  next
    case (Poll q b)
    have s: "served [] k (process_poll q k)" using Suc.prems(3) by (rule served_poll)
    then have q: "queue_ok (process_poll q k)" by (simp add: served_def)
    have b: "quiet T m b" and T: "q \<in> T" using Suc.prems(1) Poll by simp_all
    from Suc.IH [OF b n(2) q] obtain r c t where
      "run_act thr n' b (process_poll q k) = Some (r, c, t)" "r \<noteq> PT_EXITED" "r \<noteq> PT_ENDED"
      "served [] (process_poll q k) t" "asked T (process_poll q k) t"
      by blast
    with served_trans [OF s, of "[]" t] asked_trans [OF asked_poll [OF T, of k]] Poll n show ?thesis by simp
  qed (use Suc.prems in auto)
qed

lemma quiet_call:
  assumes r: "recording T thr m ps" and p: "p \<in> set ps" and st: "p_state k p = PROCESS_STATE_RUNNING"
    and ev: "ev \<noteq> PROCESS_EVENT_EXIT" and n: "m + 3 \<le> n" and q: "queue_ok k"
  shows "\<exists>t. call_process thr n p ev d k = Some t \<and> served [(p, ev, d)] k t \<and> asked T k t"
proof -
  define n' where "n' = n - 3"
  then have n': "n = Suc (Suc (Suc n'))" "m \<le> n'" using n by simp_all
  let ?k0 = "set_state p PROCESS_STATE_CALLED (set_current p k)"
  from r p obtain t0 where t0: "thr p = Some t0"
    and body: "\<exists>b. t0 (p_lc ?k0 p) ev d (app ?k0) = Local (record_call (p, ev, d)) b \<and> (\<forall>u. quiet T m (b u))"
    unfolding recording_def by blast
  then obtain b where b: "t0 (p_lc ?k0 p) ev d (app ?k0) = Local (record_call (p, ev, d)) b"
    and quiet: "\<And>u. quiet T m (b u)" by blast
  let ?k1 = "?k0\<lparr>app := record_call (p, ev, d) (app ?k0)\<rparr>"
  have "queue_ok ?k1" using q by (simp add: queue_ok_def set_state_def set_current_def)
  from quiet_act [OF quiet n'(2) this] obtain ret c k2 where
    k2: "run_act thr n' (b (app ?k1)) ?k1 = Some (ret, c, k2)" "ret \<noteq> PT_EXITED" "ret \<noteq> PT_ENDED"
    and s2: "served [] ?k1 k2" and a2: "asked T ?k1 k2" by blast
  let ?t = "set_state p PROCESS_STATE_RUNNING (set_lc p c k2)"
  have run: "call_process thr n p ev d k = Some ?t"
    using n' st t0 b k2 ev by (simp add: process_consts Let_def)
  have "p_state ?t = p_state k"
    using s2 st by (auto simp: served_def set_state_def set_lc_def set_current_def)
  moreover have "fst (app ?t) = fst (app k) @ [(p, ev, d)]" and "queue_ok ?t"
    and "process_list ?t = process_list k" and "p_next ?t = p_next k"
    using s2 by (simp_all add: served_def set_state_def set_lc_def set_current_def record_call_def queue_ok_def)
  moreover have "pending ?t = pending k2" and "pending ?k1 = pending k"
    by (simp_all add: pending_def set_state_def set_lc_def set_current_def)
  ultimately have "served [(p, ev, d)] k ?t" using s2 by (auto simp: served_def)
  moreover have "asked T k ?t" using a2 by (simp add: asked_def set_state_def set_lc_def set_current_def)
  ultimately show ?thesis using run by blast
qed

definition all_running :: "'u kernel \<Rightarrow> ptr list \<Rightarrow> bool" where
  "all_running k ps \<longleftrightarrow> (\<forall>p \<in> set ps. p_state k p = PROCESS_STATE_RUNNING)"

definition is_poll :: "delivery \<Rightarrow> bool" where
  "is_poll x \<longleftrightarrow> fst (snd x) = PROCESS_EVENT_POLL"

definition poll_of :: "ptr \<Rightarrow> delivery" where
  "poll_of p = (p, PROCESS_EVENT_POLL, 0)"

lemma is_poll_of [simp]: "is_poll (poll_of p)" "fst (poll_of p) = p"
  by (simp_all add: is_poll_def poll_of_def)

lemma served_running: "served L k t \<Longrightarrow> all_running k ps \<Longrightarrow> all_running t ps"
  by (simp add: served_def all_running_def)

lemma poll_not_exit: "PROCESS_EVENT_POLL \<noteq> PROCESS_EVENT_EXIT"
  by (simp add: process_consts)

text \<open>The processes that ask to be polled; no request may be overlooked.\<close>

definition flagged :: "'u kernel \<Rightarrow> ptr set" where
  "flagged k = {p. p_needspoll k p \<noteq> 0}"

definition noticed :: "'u kernel \<Rightarrow> ptr set \<Rightarrow> bool" where
  "noticed k S \<longleftrightarrow> flagged k \<inter> S \<noteq> {} \<longrightarrow> poll_requested k \<noteq> 0"

lemma asked_flagged: "asked T k t \<Longrightarrow> flagged k \<subseteq> flagged t \<and> flagged t \<subseteq> flagged k \<union> T"
  by (auto simp: asked_def flagged_def)

lemma asked_noticed: "asked T k t \<Longrightarrow> noticed k S \<Longrightarrow> noticed t S"
  by (fastforce simp: asked_def noticed_def flagged_def)

text \<open>What the loop over the processes \<open>qs\<close> does: it polls \<open>rs\<close>.\<close>

definition polled_to :: "ptr set \<Rightarrow> ptr list \<Rightarrow> ptr list \<Rightarrow> 'u kernel \<Rightarrow> 'u kernel \<Rightarrow> bool" where
  "polled_to T qs rs k t \<longleftrightarrow> subseq rs qs \<and> flagged k \<inter> set qs \<subseteq> set rs \<and> set rs \<subseteq> flagged k \<union> T \<and>
     (\<forall>p \<in> flagged t. p \<in> T \<and> poll_requested t \<noteq> 0 \<or> p \<in> flagged k - set qs) \<and>
     (poll_requested k \<noteq> 0 \<longrightarrow> poll_requested t \<noteq> 0)"

lemma quiet_poll_loop:
  assumes "recording T thr m ps"
  shows "chain (p_next k) p qs \<Longrightarrow> set qs \<subseteq> set ps \<Longrightarrow> all_running k ps \<Longrightarrow>
    length qs + m + 4 \<le> n \<Longrightarrow> queue_ok k \<Longrightarrow>
    \<exists>rs t. poll_loop thr n p k = Some t \<and> served (map poll_of rs) k t \<and> polled_to T qs rs k t"
proof (induction qs arbitrary: p n k)
  case Nil
  then obtain n' where "n = Suc n'" by (cases n) auto
  with Nil show ?case by (intro exI [of _ "[]"] exI [of _ k]) (simp add: served_refl polled_to_def)
next
  case (Cons x qs)
  then obtain n' where n: "n = Suc n'" "length qs + m + 4 \<le> n'" by (cases n) auto
  from Cons.prems have px: "p = x" "p \<noteq> NULL" and c: "chain (p_next k) (p_next k x) qs"
    and xp: "x \<in> set ps" and st: "p_state k x = PROCESS_STATE_RUNNING"
    by (auto simp: all_running_def)
  have nx: "x \<notin> set qs" using chain_distinct [OF Cons.prems(1)] by simp
  let ?k0 = "clear_needspoll x (set_state x PROCESS_STATE_RUNNING k)"
  have s0: "served [] k ?k0"
    using st Cons.prems(5) by (auto simp: served_def clear_needspoll_def set_state_def queue_ok_def pending_def)
  have f0: "flagged ?k0 = flagged k - {x}" and r0: "poll_requested ?k0 = poll_requested k"
    by (auto simp: flagged_def clear_needspoll_def set_state_def)
  have "\<exists>rs k1. (if p_needspoll k x \<noteq> 0 then call_process thr n' x PROCESS_EVENT_POLL 0 ?k0 else Some k) = Some k1 \<and>
      served (map poll_of rs) k k1 \<and> rs = (if x \<in> flagged k then [x] else []) \<and>
      flagged k - {x} \<subseteq> flagged k1 \<and> (\<forall>p \<in> flagged k1. p \<in> T \<and> poll_requested k1 \<noteq> 0 \<or> p \<in> flagged k - {x}) \<and>
      (poll_requested k \<noteq> 0 \<longrightarrow> poll_requested k1 \<noteq> 0)"
  proof (cases "p_needspoll k x \<noteq> 0")
    case True
    have q0: "queue_ok ?k0" and st0: "p_state ?k0 x = PROCESS_STATE_RUNNING"
      using s0 st by (simp_all add: served_def)
    have "m + 3 \<le> n'" using n by simp
    from quiet_call [OF assms xp st0 poll_not_exit this q0] obtain k1 where
      k1: "call_process thr n' x PROCESS_EVENT_POLL 0 ?k0 = Some k1"
      and s1: "served [(x, PROCESS_EVENT_POLL, 0)] ?k0 k1" and a1: "asked T ?k0 k1" by blast
    have "flagged k - {x} \<subseteq> flagged k1" "\<forall>p \<in> flagged k1. p \<in> T \<and> poll_requested k1 \<noteq> 0 \<or> p \<in> flagged k - {x}"
      "poll_requested k \<noteq> 0 \<longrightarrow> poll_requested k1 \<noteq> 0"
      using a1 unfolding f0 [symmetric] r0 [symmetric] by (auto simp: asked_def flagged_def)
    with k1 served_trans [OF s0 s1] True show ?thesis by (intro exI [of _ "[x]"] exI [of _ k1]) (simp add: poll_of_def flagged_def)
  next
    case False
    with Cons.prems(5) show ?thesis by (intro exI [of _ "[]"] exI [of _ k]) (auto simp: flagged_def intro: served_refl)
  qed
  then obtain r1 k1 where k1: "(if p_needspoll k x \<noteq> 0 then call_process thr n' x PROCESS_EVENT_POLL 0 ?k0 else Some k) = Some k1"
    and s1: "served (map poll_of r1) k k1" and r1: "r1 = (if x \<in> flagged k then [x] else [])"
    and f1: "flagged k - {x} \<subseteq> flagged k1" "\<forall>p \<in> flagged k1. p \<in> T \<and> poll_requested k1 \<noteq> 0 \<or> p \<in> flagged k - {x}"
      "poll_requested k \<noteq> 0 \<longrightarrow> poll_requested k1 \<noteq> 0" by (elim exE conjE) (rule that)
  have "chain (p_next k1) (p_next k1 x) qs" and "queue_ok k1" and "all_running k1 ps"
    using s1 c Cons.prems(3) by (simp_all add: served_def all_running_def)
  with Cons.IH [of k1 "p_next k1 x" n'] Cons.prems(2) n obtain r2 t where
    t: "poll_loop thr n' (p_next k1 x) k1 = Some t" and s2: "served (map poll_of r2) k1 t" and p2: "polled_to T qs r2 k1 t"
    by auto
  have "poll_loop thr n p k = Some t" using n px k1 t by simp
  moreover have "polled_to T (x # qs) (r1 @ r2) k t"
  proof -
    have "subseq (r1 @ r2) (x # qs)" using p2 by (auto simp: polled_to_def r1)
    moreover have "flagged k \<inter> set (x # qs) \<subseteq> set (r1 @ r2)" using p2 f1(1) nx by (auto simp: polled_to_def r1)
    moreover have "set (r1 @ r2) \<subseteq> flagged k \<union> T" using p2 f1(2) by (auto simp: polled_to_def r1)
    moreover have "\<forall>p \<in> flagged t. p \<in> T \<and> poll_requested t \<noteq> 0 \<or> p \<in> flagged k - set (x # qs)"
      using p2 f1(2) unfolding polled_to_def by fastforce
    moreover have "poll_requested k \<noteq> 0 \<longrightarrow> poll_requested t \<noteq> 0" using p2 f1(3) by (simp add: polled_to_def)
    ultimately show ?thesis by (simp add: polled_to_def)
  qed
  ultimately show ?case using served_trans [OF s1 s2] by (intro exI [of _ "r1 @ r2"] exI [of _ t]) simp
qed

lemma quiet_do_poll:
  assumes "recording T thr m ps" and "processes k ps" and "all_running k ps"
    and "length ps + m + 4 \<le> n" and "queue_ok k"
  shows "\<exists>rs t. do_poll thr n k = Some t \<and> served (map poll_of rs) k t \<and> subseq rs ps \<and> flagged k \<inter> set ps \<subseteq> set rs \<and>
    set rs \<subseteq> flagged k \<union> T \<and> flagged t \<inter> set ps \<subseteq> T \<and> noticed t (set ps)"
proof -
  let ?k = "k\<lparr>poll_requested := 0\<rparr>"
  have s: "served [] k ?k" using assms(5) by (simp add: served_def queue_ok_def pending_def)
  have f: "flagged ?k = flagged k" by (simp add: flagged_def)
  from s obtain rs t where t: "poll_loop thr n (process_list ?k) ?k = Some t" "served (map poll_of rs) ?k t" "polled_to T ps rs ?k t"
    using quiet_poll_loop [OF assms(1), of ?k "process_list ?k" ps n] assms
    by (auto simp: processes_def all_running_def queue_ok_def)
  then have "flagged t \<inter> set ps \<subseteq> T" "noticed t (set ps)" by (auto simp: polled_to_def noticed_def)
  with served_trans [OF s t(2)] t show ?thesis by (auto simp: do_poll_def Let_def polled_to_def f)
qed

text \<open>Before an event is delivered the requests are served, if there are any.\<close>

lemma quiet_maybe_poll:
  assumes "recording T thr m ps" and "processes k ps" and "all_running k ps"
    and "length ps + m + 4 \<le> n" and "queue_ok k" and "noticed k (set ps)"
  shows "\<exists>rs t. (if poll_requested k \<noteq> 0 then do_poll thr n k else Some k) = Some t \<and> served (map poll_of rs) k t \<and>
    subseq rs ps \<and> flagged k \<inter> set ps \<subseteq> set rs \<and> set rs \<subseteq> flagged k \<union> T \<and> flagged t \<inter> set ps \<subseteq> T \<and> noticed t (set ps)"
proof (cases "poll_requested k \<noteq> 0")
  case True
  then show ?thesis using quiet_do_poll [OF assms(1-5)] by simp
next
  case False
  then have "flagged k \<inter> set ps = {}" using assms(6) by (simp add: noticed_def)
  then show ?thesis using False assms(5,6) by (intro exI [of _ "[]"] exI [of _ k]) (simp add: served_refl)
qed

lemma asked_keeps:
  assumes "asked T k t" and "flagged k \<inter> S \<subseteq> T" and "noticed k S"
  shows "flagged t \<inter> S \<subseteq> T \<and> noticed t S"
  using assms asked_flagged [OF assms(1)] asked_noticed [OF assms(1)] by blast

definition polls_only :: "ptr set \<Rightarrow> delivery list \<Rightarrow> bool" where
  "polls_only T L \<longleftrightarrow> (\<forall>x \<in> set L. is_poll x \<longrightarrow> fst x \<in> T)"

lemma quiet_broadcast:
  assumes "recording T thr m ps" and "ev \<noteq> PROCESS_EVENT_EXIT" and "ev \<noteq> PROCESS_EVENT_POLL"
  shows "processes k ps \<Longrightarrow> chain (p_next k) p qs \<Longrightarrow> set qs \<subseteq> set ps \<Longrightarrow> all_running k ps \<Longrightarrow>
    length qs + length ps + m + 5 \<le> n \<Longrightarrow> queue_ok k \<Longrightarrow> flagged k \<inter> set ps \<subseteq> T \<Longrightarrow> noticed k (set ps) \<Longrightarrow>
    \<exists>L t. broadcast_loop thr n ev d p k = Some t \<and> served L k t \<and>
      filter (\<lambda>x. \<not> is_poll x) L = map (\<lambda>q. (q, ev, d)) qs \<and> polls_only T L \<and> noticed t (set ps)"
proof (induction qs arbitrary: p n k)
  case Nil
  then obtain n' where "n = Suc n'" by (cases n) auto
  with Nil show ?case by (auto intro!: exI [of _ "[]"] served_refl simp: polls_only_def)
next
  case (Cons x qs)
  then obtain n' where n: "n = Suc n'" "length qs + length ps + m + 5 \<le> n'" by (cases n) auto
  from Cons.prems have px: "p = x" "p \<noteq> NULL" and c: "chain (p_next k) (p_next k x) qs"
    and xp: "x \<in> set ps" by auto
  have nd: "length ps + m + 4 \<le> n'" and nc: "m + 3 \<le> n'" using n by simp_all
  obtain rs k1 where k1: "(if poll_requested k \<noteq> 0 then do_poll thr n' k else Some k) = Some k1"
    and s1: "served (map poll_of rs) k k1" and rs: "set rs \<subseteq> flagged k \<union> T" "subseq rs ps" and f1: "flagged k1 \<inter> set ps \<subseteq> T" "noticed k1 (set ps)"
    using quiet_maybe_poll [OF assms(1) Cons.prems(1,4) nd Cons.prems(6,8)] by blast
  have st1: "p_state k1 x = PROCESS_STATE_RUNNING" and q1: "queue_ok k1"
    using s1 xp Cons.prems(4) by (simp_all add: served_def all_running_def)
  from quiet_call [OF assms(1) xp st1 assms(2) nc q1] obtain k2 where
    k2: "call_process thr n' x ev d k1 = Some k2" and s2: "served [(x, ev, d)] k1 k2" and a2: "asked T k1 k2" by blast
  note s12 = served_trans [OF s1 s2] and f2 = asked_keeps [OF a2 f1]
  have "processes k2 ps" "chain (p_next k2) (p_next k2 x) qs" "all_running k2 ps" "queue_ok k2"
    using s12 Cons.prems c by (simp_all add: served_def all_running_def processes_def)
  with Cons.IH [of k2 "p_next k2 x" n'] Cons.prems(3) n f2 obtain M t where
    t: "broadcast_loop thr n' ev d (p_next k2 x) k2 = Some t" and s3: "served M k2 t"
    and M: "filter (\<lambda>x. \<not> is_poll x) M = map (\<lambda>q. (q, ev, d)) qs" "polls_only T M" "noticed t (set ps)"
    by auto
  have "broadcast_loop thr n ev d p k = Some t" using n px k1 k2 t by simp
  moreover have "filter (\<lambda>x. \<not> is_poll x) (map poll_of rs) = []" by (simp add: filter_empty_conv)
  moreover have "set rs \<subseteq> T" using rs Cons.prems(7) set_subseq [OF rs(2)] by blast
  ultimately show ?case using served_trans [OF s12 s3] M assms(3)
    by (intro exI [of _ "(map poll_of rs @ [(x, ev, d)]) @ M"] exI [of _ t]) (auto simp: polls_only_def is_poll_def poll_of_def)
qed

text \<open>The processes an event addresses, in the order they are called.\<close>

definition receivers :: "event_data \<Rightarrow> ptr list \<Rightarrow> ptr list" where
  "receivers e ps = (if ed_p e = PROCESS_BROADCAST then ps else [ed_p e])"

lemma quiet_do_event:
  assumes rec: "recording T thr m ps" and ps: "processes k ps" and run: "all_running k ps"
    and q: "queue_ok k" and e: "pending k = e # es"
    and dest: "ed_p e = PROCESS_BROADCAST \<or> ed_p e \<in> set ps"
    and ev: "ed_ev e \<noteq> PROCESS_EVENT_EXIT" "ed_ev e \<noteq> PROCESS_EVENT_POLL"
    and n: "2 * length ps + m + 5 \<le> n" and f: "flagged k \<inter> set ps \<subseteq> T" "noticed k (set ps)"
  shows "\<exists>L t. do_event thr n k = Some t \<and> fst (app t) = fst (app k) @ L \<and>
           filter (\<lambda>x. \<not> is_poll x) L = map (\<lambda>p. (p, ed_ev e, ed_data e)) (receivers e ps) \<and> polls_only T L \<and>
           (\<exists>new. pending t = es @ new) \<and> processes t ps \<and> all_running t ps \<and> noticed t (set ps)"
proof -
  from event_queue.get_first [OF q e] obtain k2 where ne: "next_event k = (Some e, k2)"
    and q2: "queue_ok k2" and p2: "pending k2 = es"
    by (metis prod.collapse)
  have "app k2 = app k" "p_needspoll k2 = p_needspoll k" "poll_requested k2 = poll_requested k" using ne by (auto simp: next_event_def split: if_splits)
  then have fields: "processes k2 ps" "all_running k2 ps" "app k2 = app k" "flagged k2 \<inter> set ps \<subseteq> T" "noticed k2 (set ps)"
    using ps run f next_event_fields [of k] by (simp_all add: ne processes_def all_running_def flagged_def noticed_def)
  have "\<exists>L t. do_event thr n k = Some t \<and> served L k2 t \<and>
      filter (\<lambda>x. \<not> is_poll x) L = map (\<lambda>p. (p, ed_ev e, ed_data e)) (receivers e ps) \<and> polls_only T L \<and> noticed t (set ps)"
  proof (cases "ed_p e = PROCESS_BROADCAST")
    case True
    have "chain (p_next k2) (process_list k2) ps" using fields(1) by (simp only: processes_def)
    from quiet_broadcast [OF rec ev fields(1) this subset_refl fields(2) _ q2 fields(4,5), of n "ed_data e"] n True ne
    show ?thesis by (simp add: do_event_def receivers_def)
  next
    case False
    let ?k3 = "if ed_ev e = PROCESS_EVENT_INIT then set_state (ed_p e) PROCESS_STATE_RUNNING k2 else k2"
    have in_ps: "ed_p e \<in> set ps" using dest False by simp
    then have "p_state k2 (ed_p e) = PROCESS_STATE_RUNNING" using fields(2) by (simp only: all_running_def)
    then have k3: "?k3 = k2" by (simp add: set_state_def fun_upd_idem)
    from quiet_call [OF rec in_ps \<open>p_state k2 (ed_p e) = PROCESS_STATE_RUNNING\<close> ev(1) _ q2, of n "ed_data e"] n
    obtain t where "call_process thr n (ed_p e) (ed_ev e) (ed_data e) k2 = Some t"
      and s: "served [(ed_p e, ed_ev e, ed_data e)] k2 t" and a: "asked T k2 t" by auto
    with k3 ne False have "do_event thr n k = Some t" by (simp add: do_event_def Let_def)
    with s asked_keeps [OF a fields(4,5)] False ev(2) show ?thesis
      by (intro exI [of _ "[(ed_p e, ed_ev e, ed_data e)]"] exI [of _ t])
        (simp add: is_poll_def receivers_def polls_only_def)
  qed
  then obtain L t where t: "do_event thr n k = Some t" and s: "served L k2 t"
    and L: "filter (\<lambda>x. \<not> is_poll x) L = map (\<lambda>p. (p, ed_ev e, ed_data e)) (receivers e ps)" "polls_only T L" "noticed t (set ps)" by blast
  moreover have "\<exists>new. pending t = es @ new" "processes t ps" "all_running t ps" "fst (app t) = fst (app k) @ L"
    using s p2 fields by (auto simp: served_def processes_def all_running_def)
  ultimately show ?thesis by blast
qed

text \<open>C3: One turn of the scheduler, between calls of processes, when every process on the list \<open>ps\<close> is in the
  running state and no request to be polled has been overlooked, and the first pending event is for all
  processes or for one on the list. The handlers compute, post events and ask processes in \<open>T\<close> to be
  polled, and yield within \<open>m\<close> actions; they do not end, start or exit processes or post synchronously.
  Then \<open>process_run\<close> returns. It first polls, once each and in the order of the list, every process that
  has asked for it, and none that has not (or is asked for by a handler, in \<open>T\<close>); then it delivers the
  event exactly once to each process it addresses, in the order of the list, and meanwhile polls only
  processes in \<open>T\<close>. The later events stay pending in order before any that the handlers posted, and again no
  request is overlooked. With \<open>T\<close> empty, exactly the processes that had asked are polled. Fuel
  \<open>2 * length ps + m + 5\<close> is enough.\<close>

theorem process_run_delivers:
  assumes rec: "recording T thr m ps" and ps: "processes k ps" and run: "all_running k ps"
    and q: "queue_ok k" and e: "pending k = e # es"
    and dest: "ed_p e = PROCESS_BROADCAST \<or> ed_p e \<in> set ps"
    and ev: "ed_ev e \<noteq> PROCESS_EVENT_EXIT" "ed_ev e \<noteq> PROCESS_EVENT_POLL"
    and n: "2 * length ps + m + 5 \<le> n" and f: "noticed k (set ps)"
  shows "\<exists>rs L t new. process_run thr n k = Some (process_nevents t, t) \<and> fst (app t) = fst (app k) @ map poll_of rs @ L \<and>
           subseq rs ps \<and> flagged k \<inter> set ps \<subseteq> set rs \<and> set rs \<subseteq> flagged k \<union> T \<and>
           filter (\<lambda>x. \<not> is_poll x) L = map (\<lambda>p. (p, ed_ev e, ed_data e)) (receivers e ps) \<and> polls_only T L \<and>
           pending t = es @ new \<and> processes t ps \<and> all_running t ps \<and> noticed t (set ps)"
proof -
  have "length ps + m + 4 \<le> n" using n by simp
  from quiet_maybe_poll [OF rec ps run this q f] obtain rs k1 where
    k1: "(if poll_requested k \<noteq> 0 then do_poll thr n k else Some k) = Some k1" and s1: "served (map poll_of rs) k k1"
    and rs: "subseq rs ps" "flagged k \<inter> set ps \<subseteq> set rs" "set rs \<subseteq> flagged k \<union> T" and f1: "flagged k1 \<inter> set ps \<subseteq> T" "noticed k1 (set ps)"
    by blast
  from s1 obtain new1 where p1: "pending k1 = e # es @ new1" and q1: "queue_ok k1"
    and c1: "processes k1 ps" "all_running k1 ps"
    using e ps run by (auto simp: served_def processes_def all_running_def)
  from quiet_do_event [OF rec c1 q1 p1 dest ev n f1] obtain L t where t: "do_event thr n k1 = Some t"
    "fst (app t) = fst (app k1) @ L" "\<exists>new. pending t = (es @ new1) @ new" "processes t ps" "all_running t ps"
    and L: "filter (\<lambda>x. \<not> is_poll x) L = map (\<lambda>p. (p, ed_ev e, ed_data e)) (receivers e ps)" "polls_only T L" "noticed t (set ps)" by blast
  have "process_run thr n k = Some (process_nevents t, t)"
    using k1 t(1) by (simp add: process_run_def)
  moreover have "fst (app t) = fst (app k) @ map poll_of rs @ L"
    using s1 t(2) by (simp add: served_def)
  moreover obtain new where "pending t = es @ new1 @ new" using t(3) by auto
  ultimately show ?thesis using t(4,5) rs L by blast
qed

definition two_recorders :: "(delivery list \<times> unit) threads" where
  "two_recorders p = (if p = 5 \<or> p = 7
     then Some (\<lambda>lc ev d u. Local (record_call (p, ev, d)) (\<lambda>_. Return PT_YIELDED lc)) else None)"

definition two_processes :: "(delivery list \<times> unit) kernel" where
  "two_processes = process_poll 7 (snd (process_post PROCESS_BROADCAST 0x86 3
     (link_process 5 (link_process 7 (process_init (blank_kernel ([], ())))))))"

lemma process_run_delivers_witness:
  "\<exists>t r. process_run two_recorders 10 two_processes = Some (r, t) \<and>
     fst (app t) = [(7, PROCESS_EVENT_POLL, 0), (5, 0x86, 3), (7, 0x86, 3)]"
proof -
  let ?e = "\<lparr>ed_ev = 0x86, ed_data = 3, ed_p = PROCESS_BROADCAST\<rparr>"
  have 1: "recording {} two_recorders (Suc 0) [5, 7]"
    by (auto simp: recording_def two_recorders_def process_consts)
  note defs = two_processes_def process_poll_def link_process_def process_init_def process_post_def
    set_state_def set_lc_def Let_def blank_kernel_def process_consts
  have 2: "processes two_processes [5, 7]" by (simp add: processes_def) (simp add: defs)
  have 3: "all_running two_processes [5, 7]" by (simp add: all_running_def) (simp add: defs)
  have 4: "queue_ok two_processes" and 5: "pending two_processes = [?e]" and 6: "app two_processes = ([], ())"
    by (simp_all add: queue_ok_def pending_def ring_elems_def defs)
  have 7: "ed_p ?e = PROCESS_BROADCAST \<or> ed_p ?e \<in> set [5, 7]" by simp
  have 8: "ed_ev ?e \<noteq> PROCESS_EVENT_EXIT" "ed_ev ?e \<noteq> PROCESS_EVENT_POLL" by (simp_all add: process_consts)
  have 9: "2 * length [5::nat, 7] + Suc 0 + 5 \<le> 10" by simp
  have fl: "flagged two_processes = {7}" and 10: "noticed two_processes (set [5, 7])"
    by (auto simp: flagged_def noticed_def defs)
  obtain rs L t new where t: "process_run two_recorders 10 two_processes = Some (process_nevents t, t)"
    "fst (app t) = fst (app two_processes) @ map poll_of rs @ L" "subseq rs [5, 7]"
    "flagged two_processes \<inter> set [5, 7] \<subseteq> set rs" "set rs \<subseteq> flagged two_processes \<union> {}"
    "filter (\<lambda>x. \<not> is_poll x) L = map (\<lambda>p. (p, ed_ev ?e, ed_data ?e)) (receivers ?e [5, 7])" "polls_only {} L"
    using process_run_delivers [OF 1 2 3 4 5 7 8 9 10] by blast
  have "set rs = {7}" using t(4,5) by (auto simp: fl)
  moreover have "distinct rs" using subseq_distinct [OF t(3)] by simp
  ultimately have "rs = [7]" by (cases rs rule: list.exhaust; cases "tl rs") auto
  moreover have "filter (\<lambda>x. \<not> is_poll x) L = L" using t(7) by (auto simp: polls_only_def intro: filter_True)
  ultimately show ?thesis using t(1,2,6) 6 by (auto simp: receivers_def poll_of_def)
qed

section \<open>A process that exits while it is being called\<close>

text \<open>
  \<open>exit_process\<close> takes the process off the list and sets its state to \<open>PROCESS_STATE_NONE\<close>, but
  \<open>call_process\<close> sets the state back to \<open>PROCESS_STATE_RUNNING\<close> when the thread then yields.
\<close>

definition exits_itself :: "nat threads \<Rightarrow> ptr \<Rightarrow> bool" where
  "exits_itself thr p \<longleftrightarrow> (\<exists>f. thr p = Some f \<and>
     (\<forall>lc ev d u. f lc ev d u = Local Suc (\<lambda>_. Exit p (Return PT_YIELDED lc))))"

lemma running_bit: "PROCESS_STATE_RUNNING AND PROCESS_STATE_RUNNING \<noteq> 0"
  by (simp add: process_consts)

lemma self_exit_call:
  assumes thr: "exits_itself thr p" and ps: "processes k ps" and p: "ps = [p] \<or> ps = []" "p \<noteq> NULL"
    and st: "p_state k p = PROCESS_STATE_RUNNING" and ev: "ev \<noteq> PROCESS_EVENT_EXIT"
  shows "\<exists>t. call_process thr (7 + n) p ev d k = Some t \<and> processes t [] \<and>
           p_state t p = PROCESS_STATE_RUNNING \<and> app t = Suc (app k)"
proof -
  from thr obtain f where f: "thr p = Some f"
    and body: "\<And>lc ev d u. f lc ev d u = Local Suc (\<lambda>_. Exit p (Return PT_YIELDED lc))"
    unfolding exits_itself_def by blast
  let ?k0 = "set_state p PROCESS_STATE_CALLED (set_current p k)"
  let ?k1 = "?k0\<lparr>app := Suc (app ?k0)\<rparr>"
  have fields: "processes ?k1 ps" "process_current ?k1 = p" "p_state ?k1 p = PROCESS_STATE_CALLED"
    "app ?k1 = Suc (app k)"
    using ps by (simp_all add: processes_def set_state_def set_current_def)
  have "\<exists>k2. exit_process thr (Suc (Suc (Suc n))) p p ?k1 = Some k2 \<and> processes k2 [] \<and> app k2 = Suc (app k)"
  proof (cases "ps = []")
    case True
    then have "find_loop (p_next ?k1) p (process_list ?k1) = Some NULL"
      using find_process [OF fields(1), of p] by simp
    then show ?thesis using True fields by (simp add: exit_process.simps)
  next
    case False
    with p have one: "ps = [p]" by simp
    with fields(1) have l: "process_list ?k1 = p" "p_next ?k1 p = NULL" by (simp_all add: processes_def)
    have "find_loop (p_next ?k1) p (process_list ?k1) = Some p"
      using find_process [OF fields(1), of p] one by simp
    moreover have "process_is_running p ?k1" using fields by (simp add: process_is_running_def process_consts)
    ultimately have ex: "exit_process thr (Suc (Suc (Suc n))) p p ?k1 =
        Some (set_current p ((set_state p PROCESS_STATE_NONE ?k1)\<lparr>process_list := NULL\<rparr>))"
      using p(2) l
      by (simp add: unlink_process_def) (simp add: set_state_def set_current_def)
    show ?thesis unfolding ex by (simp add: processes_def set_current_def set_state_def)
  qed
  then obtain k2 where k2: "exit_process thr (Suc (Suc (Suc n))) p p ?k1 = Some k2" "processes k2 []" "app k2 = Suc (app k)"
    by blast
  have six: "7 + n = Suc (Suc (Suc (Suc (Suc (Suc (Suc n))))))" by simp
  let ?t = "set_state p PROCESS_STATE_RUNNING (set_lc p (p_lc (set_state p PROCESS_STATE_CALLED (set_current p k)) p) k2)"
  have "call_process thr (7 + n) p ev d k = Some ?t"
    unfolding six using f body st ev k2(1) fields(2) running_bit
    by (simp add: PT_YIELDED_def PT_EXITED_def PT_ENDED_def Let_def del: exit_process.simps)
  then show ?thesis using k2 by (auto simp: processes_def set_state_def set_lc_def)
qed


text \<open>a process that calls \<open>process_exit\<close> on itself and then yields is taken off the process
  list, yet \<open>process_is_running\<close> still holds of it, and its thread is called again for any later
  event addressed to it: the process that exited stays alive.\<close>

theorem self_exit_leaves_process_running:
  assumes "exits_itself thr p" and "processes k [p]" and "p \<noteq> NULL"
    and "p_state k p = PROCESS_STATE_RUNNING" and "ev \<noteq> PROCESS_EVENT_EXIT" and "ev' \<noteq> PROCESS_EVENT_EXIT"
  shows "\<exists>t t'. call_process thr (7 + n) p ev d k = Some t \<and> processes t [] \<and> process_is_running p t \<and>
           app t = Suc (app k) \<and>
           call_process thr (7 + n) p ev' d' t = Some t' \<and> app t' = Suc (app t)"
proof -
  obtain t where t: "call_process thr (7 + n) p ev d k = Some t" "processes t []"
    "p_state t p = PROCESS_STATE_RUNNING" "app t = Suc (app k)"
    using self_exit_call [OF assms(1,2) _ assms(3,4,5), of n d] by blast
  obtain t' where "call_process thr (7 + n) p ev' d' t = Some t'" "app t' = Suc (app t)"
    using self_exit_call [OF assms(1) t(2) _ assms(3) t(3) assms(6), of n d'] by blast
  with t show ?thesis by (simp add: process_is_running_def process_consts)
qed

definition self_exiting :: "nat threads" where
  "self_exiting p = (if p = 5 then Some (\<lambda>lc ev d u. Local Suc (\<lambda>_. Exit p (Return PT_YIELDED lc))) else None)"

lemma self_exit_leaves_process_running_witness:
  "\<exists>t. call_process self_exiting (7 + 0) 5 0x86 0 (link_process 5 (process_init (blank_kernel 0))) = Some t \<and>
     processes t [] \<and> process_is_running 5 t \<and> app t = 1"
proof -
  let ?k = "link_process 5 (process_init (blank_kernel (0::nat)))"
  have 1: "exits_itself self_exiting 5" by (simp add: exits_itself_def self_exiting_def)
  have 2: "processes ?k [5]" by (rule kernel_ok_one) simp
  have 3: "p_state ?k 5 = PROCESS_STATE_RUNNING" and a: "app ?k = 0"
    by (simp_all add: link_process_def set_state_def set_lc_def Let_def process_init_def blank_kernel_def)
  have 4: "(0x86 :: u8) \<noteq> PROCESS_EVENT_EXIT" by (simp add: process_consts)
  from self_exit_leaves_process_running [OF 1 2 _ 3 4 4, of 0 0 0] a show ?thesis by auto
qed

end
