(* ===== verification/Timers.thy ===== *)
theory Timers
  imports Prelude
begin

text \<open>
  The timers of \<open>core/sys/timer.c\<close> (clock ticks, \<open>clock_time_t\<close>, which is \<open>unsigned short\<close> on the
  6502 targets, so 16 bits) and \<open>core/sys/stimer.c\<close> (seconds, \<open>unsigned long\<close>, 32 bits). The
  clock is the platform's: a function that reads it takes the value read as an argument.
\<close>

section \<open>The code\<close>

record timer =
  start :: u16
  interval :: u16

definition timer_set :: "u16 \<Rightarrow> u16 \<Rightarrow> timer \<Rightarrow> timer" where
  "timer_set now i t = (let t1 = t\<lparr>interval := i\<rparr> in t1\<lparr>start := now\<rparr>)"

definition timer_reset :: "timer \<Rightarrow> timer" where
  "timer_reset t = t\<lparr>start := start t + interval t\<rparr>"

definition timer_restart :: "u16 \<Rightarrow> timer \<Rightarrow> timer" where
  "timer_restart now t = t\<lparr>start := now\<rparr>"

definition timer_expired :: "u16 \<Rightarrow> timer \<Rightarrow> bool" where
  "timer_expired now t = (let diff = (now - start t) + 1 in interval t < diff)"

definition timer_remaining :: "u16 \<Rightarrow> timer \<Rightarrow> u16" where
  "timer_remaining now t = start t + interval t - now"

record stimer =
  st_start :: u32
  st_interval :: u32

text \<open>\<open>(unsigned long)((a) - (b)) < ((unsigned long)(~((unsigned long)0)) >> 1)\<close>\<close>

definition SCLOCK_GEQ :: "u32 \<Rightarrow> u32 \<Rightarrow> bool" where
  "SCLOCK_GEQ a b \<longleftrightarrow> a - b < drop_bit 1 (NOT 0)"

definition stimer_set :: "u32 \<Rightarrow> u32 \<Rightarrow> stimer \<Rightarrow> stimer" where
  "stimer_set now i t = (let t1 = t\<lparr>st_interval := i\<rparr> in t1\<lparr>st_start := now\<rparr>)"

definition stimer_reset :: "stimer \<Rightarrow> stimer" where
  "stimer_reset t = t\<lparr>st_start := st_start t + st_interval t\<rparr>"

definition stimer_restart :: "u32 \<Rightarrow> stimer \<Rightarrow> stimer" where
  "stimer_restart now t = t\<lparr>st_start := now\<rparr>"

definition stimer_expired :: "u32 \<Rightarrow> stimer \<Rightarrow> bool" where
  "stimer_expired now t = SCLOCK_GEQ now (st_start t + st_interval t)"

definition stimer_remaining :: "u32 \<Rightarrow> stimer \<Rightarrow> u32" where
  "stimer_remaining now t = st_start t + st_interval t - now"

definition stimer_elapsed :: "u32 \<Rightarrow> stimer \<Rightarrow> u32" where
  "stimer_elapsed now t = now - st_start t"

section \<open>Expiry in terms of the time that has passed\<close>

lemma unat_of_nat_u16: "k < 65536 \<Longrightarrow> unat (of_nat k :: u16) = k"
  by (simp add: unat_of_nat)

lemma unat_of_nat_u32: "k < 4294967296 \<Longrightarrow> unat (of_nat k :: u32) = k"
  by (simp add: unat_of_nat)

lemma timer_expired_elapsed:
  assumes "k < 65536"
  shows "timer_expired (start t + of_nat k) t \<longleftrightarrow> unat (interval t) \<le> k \<and> k \<noteq> 65535"
proof (cases "k = 65535")
  case True
  then have wrap: "start t + of_nat k - start t + 1 = 0" by simp
  show ?thesis using True unfolding timer_expired_def Let_def wrap by simp
next
  case False
  then have "k + 1 < 65536" using assms by simp
  then have "unat (of_nat k + 1 :: u16) = k + 1"
    using unat_of_nat_u16 [of "k + 1"] by (simp add: add.commute)
  then show ?thesis using False by (simp add: timer_expired_def word_less_nat_alt) auto
qed

text \<open>a timer that was set \<open>k\<close> ticks ago, for any \<open>k\<close> within one turn of the 16-bit clock, is
  reported expired exactly when \<open>k\<close> has reached its interval, whatever the clock showed when it was
  set and however the clock wrapped since; but at the last tick of the turn, \<open>k = 65535\<close>, the
  increment in the test wraps to zero and no timer is reported expired, not even one whose interval
  has long passed. Resetting an expired timer starts the next period exactly where the last ended.\<close>

theorem timer_expiry_exact:
  assumes "k < 65536"
  shows "timer_expired (now + of_nat k) (timer_set now i t) = (unat i \<le> k \<and> k \<noteq> 65535) \<and>
    timer_remaining (now + of_nat k) (timer_set now i t) = i - of_nat k \<and>
    timer_expired (now + i + of_nat k) (timer_reset (timer_set now i t)) = (unat i \<le> k \<and> k \<noteq> 65535)"
  using timer_expired_elapsed [OF assms, of "timer_set now i t"]
    timer_expired_elapsed [OF assms, of "timer_reset (timer_set now i t)"]
  by (simp add: timer_set_def timer_reset_def timer_remaining_def Let_def)

lemma timer_expiry_exact_witness:
  "timer_expired (65530 + of_nat 20) (timer_set 65530 20 \<lparr>start = 0, interval = 0\<rparr>) \<and>
   \<not> timer_expired (65530 + of_nat 65535) (timer_set 65530 20 \<lparr>start = 0, interval = 0\<rparr>)"
  using timer_expiry_exact [of 20 65530 20 "\<lparr>start = 0, interval = 0\<rparr>"]
    timer_expiry_exact [of 65535 65530 20 "\<lparr>start = 0, interval = 0\<rparr>"]
  by simp

lemma stimer_expiry:
  assumes "k < 2 ^ 31" and "unat i \<le> 2 ^ 31"
  shows "stimer_expired (now + of_nat k) (stimer_set now i t) \<longleftrightarrow> unat i \<le> k \<and> k - unat i < 2 ^ 31 - 1"
    and "unat (stimer_elapsed (now + of_nat k) (stimer_set now i t)) = k"
    and "k \<le> unat i \<Longrightarrow> unat (stimer_remaining (now + of_nat k) (stimer_set now i t)) = unat i - k"
proof -
  have k: "unat (of_nat k :: u32) = k" using assms(1) by (intro unat_of_nat_u32) simp
  have half: "unat (drop_bit 1 (NOT 0) :: u32) = 2 ^ 31 - 1"
    by (simp add: mask_eq_exp_minus_1)
  have e: "stimer_expired (now + of_nat k) (stimer_set now i t) \<longleftrightarrow> unat (of_nat k - i) < 2 ^ 31 - 1"
    by (simp only: stimer_expired_def stimer_set_def SCLOCK_GEQ_def Let_def stimer.simps
        word_less_nat_alt half) (simp add: algebra_simps)
  show "stimer_expired (now + of_nat k) (stimer_set now i t) \<longleftrightarrow> unat i \<le> k \<and> k - unat i < 2 ^ 31 - 1"
  proof (cases "unat i \<le> k")
    case True
    then have "unat (of_nat k - i) = k - unat i" using k by (simp add: unat_sub_if')
    then show ?thesis using True e by simp
  next
    case False
    then have "unat (of_nat k - i) = k + 2 ^ 32 - unat i" using k by (simp add: unat_sub_if')
    then show ?thesis using False e assms(2) by simp
  qed
  show "unat (stimer_elapsed (now + of_nat k) (stimer_set now i t)) = k"
    using k by (simp add: stimer_elapsed_def stimer_set_def Let_def)
  assume "k \<le> unat i"
  then show "unat (stimer_remaining (now + of_nat k) (stimer_set now i t)) = unat i - k"
    using k by (simp add: stimer_remaining_def stimer_set_def Let_def unat_sub_if')
qed

text \<open>a second timer set \<open>k\<close> seconds ago is reported expired exactly when its interval has
  passed by fewer than \<open>2 ^ 31 - 1\<close> seconds, for intervals and ages up to \<open>2 ^ 31\<close>; while it runs,
  the remaining and elapsed times add up to the interval.\<close>

theorem stimer_expiry_exact:
  assumes "k < 2 ^ 31" and "unat i \<le> 2 ^ 31"
  shows "stimer_expired (now + of_nat k) (stimer_set now i t) = (unat i \<le> k \<and> k - unat i < 2 ^ 31 - 1) \<and>
    unat (stimer_elapsed (now + of_nat k) (stimer_set now i t)) = k \<and>
    (k \<le> unat i \<longrightarrow> unat (stimer_remaining (now + of_nat k) (stimer_set now i t)) = unat i - k)"
  using stimer_expiry [OF assms] by blast

lemma stimer_expiry_exact_witness:
  "stimer_expired (4294967290 + of_nat 30) (stimer_set 4294967290 30 \<lparr>st_start = 0, st_interval = 0\<rparr>)"
  using stimer_expiry_exact [of 30 30 4294967290 "\<lparr>st_start = 0, st_interval = 0\<rparr>"] by simp

end
