(* ===== verification/Etimer.thy ===== *)
theory Etimer
  imports Process Timers
begin

text \<open>
  Event timers, \<open>core/sys/etimer.c\<close>: a list of timers and the process that watches it. Every call of
  \<open>clock_time\<close> takes the next reading of the clock \<open>clk\<close>, so that the clock may advance between
  two reads of one operation. The state holds the kernel's, because the operations read the current
  process, post events and request polls. \<open>etp\<close> is the address of \<open>etimer_process\<close>. The loops
  over the list return only if the chain of timers ends.
\<close>

section \<open>The code\<close>

record 'u etimers =
  timerlist :: ptr
  next_expiration :: u16
  et_timer :: "ptr \<Rightarrow> timer"
  et_next :: "ptr \<Rightarrow> ptr"
  et_p :: "ptr \<Rightarrow> ptr"
  reads :: nat
  kern :: "'u kernel"

definition clock_time :: "(nat \<Rightarrow> u16) \<Rightarrow> 'u etimers \<Rightarrow> u16 \<times> 'u etimers" where
  "clock_time clk s = (clk (reads s), s\<lparr>reads := Suc (reads s)\<rparr>)"

definition set_et_next :: "ptr \<Rightarrow> ptr \<Rightarrow> 'u etimers \<Rightarrow> 'u etimers" where
  "set_et_next t q s = s\<lparr>et_next := (et_next s)(t := q)\<rparr>"

definition set_et_p :: "ptr \<Rightarrow> ptr \<Rightarrow> 'u etimers \<Rightarrow> 'u etimers" where
  "set_et_p t p s = s\<lparr>et_p := (et_p s)(t := p)\<rparr>"

definition set_et_timer :: "ptr \<Rightarrow> timer \<Rightarrow> 'u etimers \<Rightarrow> 'u etimers" where
  "set_et_timer t v s = s\<lparr>et_timer := (et_timer s)(t := v)\<rparr>"

text \<open>The distance from \<open>now\<close> to the expiration of a timer, at the clock's width.\<close>

definition distance :: "u16 \<Rightarrow> timer \<Rightarrow> u16" where
  "distance now t = start t + interval t - now"

partial_function (option) tdist_loop ::
    "(ptr \<Rightarrow> ptr) \<Rightarrow> (ptr \<Rightarrow> timer) \<Rightarrow> u16 \<Rightarrow> ptr \<Rightarrow> u16 \<Rightarrow> u16 option" where
  "tdist_loop n tm now t tdist =
     (if t = NULL then Some tdist
      else tdist_loop n tm now (n t)
             (if distance now (tm t) < tdist then distance now (tm t) else tdist))"

definition update_time :: "(nat \<Rightarrow> u16) \<Rightarrow> 'u etimers \<Rightarrow> 'u etimers option" where
  "update_time clk s =
     (if timerlist s = NULL then Some (s\<lparr>next_expiration := 0\<rparr>)
      else case clock_time clk s of (now, s1) \<Rightarrow>
        do {
          tdist \<leftarrow> tdist_loop (et_next s1) (et_timer s1) now (et_next s1 (timerlist s1))
                     (distance now (et_timer s1 (timerlist s1)));
          Some (s1\<lparr>next_expiration := now + tdist\<rparr>)
        })"

definition etimer_request_poll :: "ptr \<Rightarrow> 'u etimers \<Rightarrow> 'u etimers" where
  "etimer_request_poll etp s = s\<lparr>kern := process_poll etp (kern s)\<rparr>"

text \<open>The thread of \<open>etimer_process\<close>: its start, the handler of \<open>PROCESS_EVENT_EXITED\<close>, which first
  skips the dead process's timers at the head and then unlinks those behind it, and the handler of
  a poll, which starts again from the head after each event it posts.\<close>

definition etimer_process_init :: "'u etimers \<Rightarrow> 'u etimers" where
  "etimer_process_init s = s\<lparr>timerlist := NULL\<rparr>"

partial_function (option) skip_head :: "(ptr \<Rightarrow> ptr) \<Rightarrow> (ptr \<Rightarrow> ptr) \<Rightarrow> ptr \<Rightarrow> ptr \<Rightarrow> ptr option" where
  "skip_head n owner p t = (if t \<noteq> NULL \<and> owner t = p then skip_head n owner p (n t) else Some t)"

partial_function (option) unlink_owned :: "ptr \<Rightarrow> ptr \<Rightarrow> 'u etimers \<Rightarrow> 'u etimers option" where
  "unlink_owned p t s =
     (if et_next s t \<noteq> NULL then
        if et_p s (et_next s t) = p then unlink_owned p t (set_et_next t (et_next s (et_next s t)) s)
        else unlink_owned p (et_next s t) s
      else Some s)"

definition handle_exited :: "ptr \<Rightarrow> 'u etimers \<Rightarrow> 'u etimers option" where
  "handle_exited p s = do {
     h \<leftarrow> skip_head (et_next s) (et_p s) p (timerlist s);
     let s1 = s\<lparr>timerlist := h\<rparr>;
     if h \<noteq> NULL then unlink_owned p h s1 else Some s1
   }"

definition drop_timer :: "ptr \<Rightarrow> ptr \<Rightarrow> 'u etimers \<Rightarrow> 'u etimers" where
  "drop_timer u t s =
     (let s1 = set_et_p t NULL s;
          s2 = (if u \<noteq> NULL then set_et_next u (et_next s1 t) s1 else s1\<lparr>timerlist := et_next s1 t\<rparr>)
      in set_et_next t NULL s2)"

partial_function (option) poll_scan ::
    "(nat \<Rightarrow> u16) \<Rightarrow> ptr \<Rightarrow> ptr \<Rightarrow> ptr \<Rightarrow> 'u etimers \<Rightarrow> 'u etimers option" where
  "poll_scan clk etp u t s =
     (if t = NULL then Some s
      else if timer_expired (fst (clock_time clk s)) (et_timer s t) then
        case process_post (et_p s t) PROCESS_EVENT_TIMER t (kern s) of (r, k) \<Rightarrow>
          if r = PROCESS_ERR_OK then do {
            s2 \<leftarrow> update_time clk (drop_timer u t ((snd (clock_time clk s))\<lparr>kern := k\<rparr>));
            poll_scan clk etp NULL (timerlist s2) s2
          } else
            poll_scan clk etp t (et_next s t)
              (etimer_request_poll etp ((snd (clock_time clk s))\<lparr>kern := k\<rparr>))
      else poll_scan clk etp t (et_next s t) (snd (clock_time clk s)))"

definition etimer_event ::
    "(nat \<Rightarrow> u16) \<Rightarrow> ptr \<Rightarrow> u8 \<Rightarrow> nat \<Rightarrow> 'u etimers \<Rightarrow> 'u etimers option" where
  "etimer_event clk etp ev data s =
     (if ev = PROCESS_EVENT_EXITED then handle_exited data s
      else if ev \<noteq> PROCESS_EVENT_POLL then Some s
      else poll_scan clk etp NULL (timerlist s) s)"

text \<open>The interface that applications call.\<close>

partial_function (option) on_list_loop :: "(ptr \<Rightarrow> ptr) \<Rightarrow> ptr \<Rightarrow> ptr \<Rightarrow> bool option" where
  "on_list_loop n x t =
     (if t = NULL then Some False else if t = x then Some True else on_list_loop n x (n t))"

definition add_timer :: "(nat \<Rightarrow> u16) \<Rightarrow> ptr \<Rightarrow> ptr \<Rightarrow> 'u etimers \<Rightarrow> 'u etimers option" where
  "add_timer clk etp x s = do {
     let s1 = etimer_request_poll etp s;
     found \<leftarrow> (if et_p s1 x \<noteq> NULL then on_list_loop (et_next s1) x (timerlist s1) else Some False);
     if found then update_time clk (set_et_p x (process_current (kern s1)) s1)
     else
       update_time clk
         ((set_et_next x (timerlist s1) (set_et_p x (process_current (kern s1)) s1))\<lparr>timerlist := x\<rparr>)
   }"

definition etimer_set :: "(nat \<Rightarrow> u16) \<Rightarrow> ptr \<Rightarrow> ptr \<Rightarrow> u16 \<Rightarrow> 'u etimers \<Rightarrow> 'u etimers option" where
  "etimer_set clk etp et i s =
     (case clock_time clk s of (now, s1) \<Rightarrow>
        add_timer clk etp et (set_et_timer et (timer_set now i (et_timer s1 et)) s1))"

definition etimer_reset_with_new_interval ::
    "(nat \<Rightarrow> u16) \<Rightarrow> ptr \<Rightarrow> ptr \<Rightarrow> u16 \<Rightarrow> 'u etimers \<Rightarrow> 'u etimers option" where
  "etimer_reset_with_new_interval clk etp et i s =
     add_timer clk etp et (set_et_timer et ((timer_reset (et_timer s et))\<lparr>interval := i\<rparr>) s)"

definition etimer_reset :: "(nat \<Rightarrow> u16) \<Rightarrow> ptr \<Rightarrow> ptr \<Rightarrow> 'u etimers \<Rightarrow> 'u etimers option" where
  "etimer_reset clk etp et s =
     add_timer clk etp et (set_et_timer et (timer_reset (et_timer s et)) s)"

definition etimer_restart :: "(nat \<Rightarrow> u16) \<Rightarrow> ptr \<Rightarrow> ptr \<Rightarrow> 'u etimers \<Rightarrow> 'u etimers option" where
  "etimer_restart clk etp et s =
     (case clock_time clk s of (now, s1) \<Rightarrow>
        add_timer clk etp et (set_et_timer et (timer_restart now (et_timer s1 et)) s1))"

definition etimer_adjust :: "(nat \<Rightarrow> u16) \<Rightarrow> ptr \<Rightarrow> 16 word \<Rightarrow> 'u etimers \<Rightarrow> 'u etimers option" where
  "etimer_adjust clk et timediff s =
     update_time clk
       (set_et_timer et ((et_timer s et)\<lparr>start := start (et_timer s et) + timediff\<rparr>) s)"

definition etimer_expired :: "ptr \<Rightarrow> 'u etimers \<Rightarrow> bool" where
  "etimer_expired et s \<longleftrightarrow> et_p s et = NULL"

definition etimer_expiration_time :: "ptr \<Rightarrow> 'u etimers \<Rightarrow> u16" where
  "etimer_expiration_time et s = start (et_timer s et) + interval (et_timer s et)"

definition etimer_start_time :: "ptr \<Rightarrow> 'u etimers \<Rightarrow> u16" where
  "etimer_start_time et s = start (et_timer s et)"

definition etimer_pending :: "'u etimers \<Rightarrow> bool" where
  "etimer_pending s \<longleftrightarrow> timerlist s \<noteq> NULL"

definition etimer_next_expiration_time :: "'u etimers \<Rightarrow> u16" where
  "etimer_next_expiration_time s = (if etimer_pending s then next_expiration s else 0)"

partial_function (option) before_loop :: "(ptr \<Rightarrow> ptr) \<Rightarrow> ptr \<Rightarrow> ptr \<Rightarrow> ptr option" where
  "before_loop n x t = (if t \<noteq> NULL \<and> n t \<noteq> x then before_loop n x (n t) else Some t)"

definition etimer_stop :: "(nat \<Rightarrow> u16) \<Rightarrow> ptr \<Rightarrow> 'u etimers \<Rightarrow> 'u etimers option" where
  "etimer_stop clk et s = do {
     s1 \<leftarrow> (if et = timerlist s then update_time clk (s\<lparr>timerlist := et_next s (timerlist s)\<rparr>)
             else do {
               t \<leftarrow> before_loop (et_next s) et (timerlist s);
               if t \<noteq> NULL then update_time clk (set_et_next t (et_next s et) s) else Some s
             });
     Some (set_et_p et NULL (set_et_next et NULL s1))
   }"

section \<open>The list of timers, and what the clock's reads leave alone\<close>

definition timers :: "'u etimers \<Rightarrow> ptr list \<Rightarrow> bool" where
  "timers s xs \<longleftrightarrow> chain (et_next s) (timerlist s) xs"

text \<open>\<open>t\<close> is \<open>s\<close> but for the time of the next expiration and the number of clock reads.\<close>

definition retimed :: "'u etimers \<Rightarrow> 'u etimers \<Rightarrow> bool" where
  "retimed s t \<longleftrightarrow> (\<exists>e r. t = s\<lparr>next_expiration := e, reads := r\<rparr>)"

lemma retimed_fields:
  "retimed s t \<Longrightarrow> timerlist t = timerlist s \<and> et_timer t = et_timer s \<and> et_next t = et_next s \<and>
     et_p t = et_p s \<and> kern t = kern s"
  by (auto simp: retimed_def)

lemma set_et_fields [simp]:
  "timerlist (set_et_next t q s) = timerlist s" "et_timer (set_et_next t q s) = et_timer s"
  "et_next (set_et_next t q s) = (et_next s)(t := q)" "et_p (set_et_next t q s) = et_p s"
  "kern (set_et_next t q s) = kern s" "reads (set_et_next t q s) = reads s"
  "timerlist (set_et_p t q s) = timerlist s" "et_timer (set_et_p t q s) = et_timer s"
  "et_next (set_et_p t q s) = et_next s" "et_p (set_et_p t q s) = (et_p s)(t := q)"
  "kern (set_et_p t q s) = kern s" "reads (set_et_p t q s) = reads s"
  "timerlist (set_et_timer t v s) = timerlist s" "et_timer (set_et_timer t v s) = (et_timer s)(t := v)"
  "et_next (set_et_timer t v s) = et_next s" "et_p (set_et_timer t v s) = et_p s"
  "kern (set_et_timer t v s) = kern s" "reads (set_et_timer t v s) = reads s"
  by (simp_all add: set_et_next_def set_et_p_def set_et_timer_def)

lemma request_poll_fields [simp]:
  "timerlist (etimer_request_poll e s) = timerlist s" "et_timer (etimer_request_poll e s) = et_timer s"
  "et_next (etimer_request_poll e s) = et_next s" "et_p (etimer_request_poll e s) = et_p s"
  "kern (etimer_request_poll e s) = process_poll e (kern s)"
  by (simp_all add: etimer_request_poll_def)

section \<open>The next expiration\<close>

lemma tdist_loop_chain:
  "chain n t xs \<Longrightarrow>
   tdist_loop n tm now t d = Some (Min (insert d ((\<lambda>x. distance now (tm x)) ` set xs)))"
proof (induction xs arbitrary: t d)
  case Nil
  then show ?case by (simp add: tdist_loop.simps)
next
  case (Cons x xs)
  let ?d = "if distance now (tm x) < d then distance now (tm x) else d"
  let ?A = "(\<lambda>x. distance now (tm x)) ` set xs"
  from Cons have "tdist_loop n tm now t d = Some (Min (insert ?d ?A))"
    by (subst tdist_loop.simps) simp
  moreover have "?d = min (distance now (tm x)) d" by (simp add: min_def less_le_not_le)
  moreover have "Min (insert (min a b) ?A) = Min (insert b (insert a ?A))" for a b
    by (cases "?A = {}") (simp_all add: min.assoc min.commute min.left_commute)
  ultimately show ?case by simp
qed

text \<open>The time of the next expiration is that of a timer no other timer expires before.\<close>

definition earliest :: "u16 \<Rightarrow> 'u etimers \<Rightarrow> ptr list \<Rightarrow> bool" where
  "earliest now s xs \<longleftrightarrow>
     (\<exists>x \<in> set xs. next_expiration s = etimer_expiration_time x s \<and>
        (\<forall>y \<in> set xs. distance now (et_timer s x) \<le> distance now (et_timer s y)))"

lemma update_time_spec:
  assumes "timers s xs"
  shows "\<exists>t. update_time clk s = Some t \<and> retimed s t \<and> timers t xs \<and>
    (if xs = [] then next_expiration t = 0 else earliest (clk (reads s)) t xs)"
proof (cases xs)
  case Nil
  with assms show ?thesis
    by (auto simp: update_time_def timers_def retimed_def intro!: exI [of _ "reads s"])
next
  case (Cons x ys)
  let ?now = "clk (reads s)"
  let ?A = "(\<lambda>x. distance ?now (et_timer s x)) ` set xs"
  from assms Cons have x: "timerlist s = x" "x \<noteq> NULL" "chain (et_next s) (et_next s x) ys"
    by (auto simp: timers_def)
  let ?t = "s\<lparr>reads := Suc (reads s), next_expiration := ?now + Min ?A\<rparr>"
  have run: "update_time clk s = Some ?t"
    using x tdist_loop_chain [OF x(3), of "et_timer s" ?now] Cons
    by (simp add: update_time_def clock_time_def)
  have "Min ?A \<in> ?A" using Cons by (intro Min_in) auto
  then obtain z where z: "z \<in> set xs" and mz: "Min ?A = distance ?now (et_timer s z)" by blast
  have "earliest ?now ?t xs"
    unfolding earliest_def
  proof (intro bexI [OF _ z] conjI ballI)
    show "next_expiration ?t = etimer_expiration_time z ?t"
      by (simp only: mz) (simp add: distance_def etimer_expiration_time_def)
    fix y assume "y \<in> set xs"
    then have "Min ?A \<le> distance ?now (et_timer s y)" by (intro Min_le) auto
    then show "distance ?now (et_timer ?t z) \<le> distance ?now (et_timer ?t y)" by (simp add: mz)
  qed
  moreover have "retimed s ?t" 
    unfolding retimed_def by (intro exI [of _ "?now + Min ?A"] exI [of _ "Suc (reads s)"]) simp
  ultimately show ?thesis using run Cons assms by (auto simp: timers_def)
qed

section \<open>The operations on the list\<close>

lemma on_list_loop_chain: "chain n t xs \<Longrightarrow> on_list_loop n x t = Some (x \<in> set xs)"
  by (induction xs arbitrary: t) (subst on_list_loop.simps; auto)+

lemma before_loop_chain:
  "chain n t (us @ u # x # vs) \<Longrightarrow> x \<notin> set us \<Longrightarrow> u \<noteq> x \<Longrightarrow> before_loop n x t = Some u"
proof (induction us arbitrary: t)
  case Nil
  then show ?case by (subst before_loop.simps) auto
next
  case (Cons y us)
  then have "chain n (n y) (us @ u # x # vs)" and y: "t = y" "y \<noteq> NULL" by auto
  with Cons have "before_loop n x (n y) = Some u" and "n y \<noteq> x" by (cases us; auto)+
  with y show ?case by (subst before_loop.simps) simp
qed

lemma before_loop_none:
  "chain n t xs \<Longrightarrow> x \<notin> set xs \<Longrightarrow> x \<noteq> NULL \<Longrightarrow> before_loop n x t = Some NULL"
proof (induction xs arbitrary: t)
  case Nil
  then show ?case by (subst before_loop.simps) auto
next
  case (Cons y ys)
  then have "before_loop n x (n y) = Some NULL" and "n y \<noteq> x" and "t = y" "y \<noteq> NULL"
    by (cases ys; auto)+
  then show ?case by (subst before_loop.simps) simp
qed

text \<open>The invariant of the list: every timer on it belongs to a process.\<close>

definition timers_ok :: "'u etimers \<Rightarrow> ptr list \<Rightarrow> bool" where
  "timers_ok s xs \<longleftrightarrow> timers s xs \<and> (\<forall>x \<in> set xs. et_p s x \<noteq> NULL)"

lemma timers_distinct: "timers s xs \<Longrightarrow> distinct xs"
  unfolding timers_def by (rule chain_distinct)

lemma process_poll_current [simp]: "process_current (process_poll p k) = process_current k"
  by (simp add: process_poll_def)

lemma add_timer_spec:
  assumes "timers_ok s xs" and "x \<noteq> NULL" and "process_current (kern s) \<noteq> NULL"
  shows "\<exists>t. add_timer clk etp x s = Some t \<and>
    timers_ok t (if x \<in> set xs then xs else x # xs) \<and>
    et_p t = (et_p s)(x := process_current (kern s)) \<and> et_timer t = et_timer s \<and>
    kern t = process_poll etp (kern s) \<and>
    earliest (clk (reads s)) t (if x \<in> set xs then xs else x # xs)"
proof -
  let ?s1 = "set_et_p x (process_current (kern s)) (etimer_request_poll etp s)"
  let ?s2 = "(set_et_next x (timerlist s) ?s1)\<lparr>timerlist := x\<rparr>"
  have r: "reads (etimer_request_poll etp s) = reads s" by (simp add: etimer_request_poll_def)
  from assms(1) have c: "chain (et_next s) (timerlist s) xs"
    and own: "\<And>y. y \<in> set xs \<Longrightarrow> et_p s y \<noteq> NULL" by (auto simp: timers_ok_def timers_def)
  show ?thesis
  proof (cases "x \<in> set xs")
    case True
    have "timers ?s1 xs" using c by (simp add: timers_def)
    from update_time_spec [OF this, of clk] obtain t where t: "update_time clk ?s1 = Some t"
      and rt: "retimed ?s1 t" and "timers t xs" and "earliest (clk (reads s)) t xs"
      using True r by (auto split: if_splits)
    moreover have "add_timer clk etp x s = Some t"
      using t True own on_list_loop_chain [OF c, of x] by (simp add: add_timer_def)
    ultimately show ?thesis using True own assms(3) retimed_fields [OF rt]
      by (auto simp: timers_ok_def)
  next
    case False
    then have "timers ?s2 (x # xs)" using c assms(2) by (simp add: timers_def)
    from update_time_spec [OF this, of clk] obtain t where t: "update_time clk ?s2 = Some t"
      and rt: "retimed ?s2 t" and "timers t (x # xs)" and "earliest (clk (reads s)) t (x # xs)"
      using r by auto
    moreover have "add_timer clk etp x s = Some t"
      using t False on_list_loop_chain [OF c, of x] by (simp add: add_timer_def Let_def)
    ultimately show ?thesis using False own assms(3) retimed_fields [OF rt]
      by (auto simp: timers_ok_def)
  qed
qed

lemma etimer_stop_spec:
  assumes "timers_ok s xs" and "x \<noteq> NULL"
  shows "\<exists>t. etimer_stop clk x s = Some t \<and> timers_ok t (remove1 x xs) \<and>
    et_p t = (et_p s)(x := NULL) \<and> et_timer t = et_timer s \<and> kern t = kern s"
proof -
  from assms(1) have c: "chain (et_next s) (timerlist s) xs"
    and own: "\<And>y. y \<in> set xs \<Longrightarrow> et_p s y \<noteq> NULL" by (auto simp: timers_ok_def timers_def)
  note d = chain_distinct [OF c]
  have "\<exists>s1 t. et_p s1 = et_p s \<and> et_timer s1 = et_timer s \<and> kern s1 = kern s \<and> retimed s1 t \<and> timers t (remove1 x xs) \<and>
    etimer_stop clk x s = Some (set_et_p x NULL (set_et_next x NULL t))"
  proof (cases "x = timerlist s")
    case True
    with c assms(2) obtain ys where xs: "xs = x # ys" and "chain (et_next s) (et_next s x) ys"
      by (cases xs) auto
    let ?s1 = "s\<lparr>timerlist := et_next s x\<rparr>"
    have t1: "timers ?s1 ys" using \<open>chain (et_next s) (et_next s x) ys\<close> by (simp add: timers_def)
    from update_time_spec [OF t1, of clk] obtain t where "update_time clk ?s1 = Some t"
      and "retimed ?s1 t" and "timers t ys" by blast
    with True t1 xs show ?thesis
      by (intro exI [of _ ?s1] exI [of _ t]) (auto simp: etimer_stop_def)
  next
    case ne: False
    show ?thesis
    proof (cases "x \<in> set xs")
      case True
      then obtain us vs where xs: "xs = us @ x # vs" and "x \<notin> set us" by (meson split_list_first)
      with c ne obtain us' u where us: "us = us' @ [u]" by (cases us rule: rev_cases) auto
      let ?s1 = "set_et_next u (et_next s x) s"
      have u: "u \<noteq> x" "u \<noteq> NULL" "x \<notin> set us'"
        using \<open>x \<notin> set us\<close> us c xs by (auto simp: chain_append seg_append)
      have b: "before_loop (et_next s) x (timerlist s) = Some u"
        using c u xs us by (intro before_loop_chain [of _ _ us' u x vs]) auto
      have t1: "timers ?s1 (remove1 x xs)"
        using c d xs us u by (auto simp: timers_def chain_append seg_append remove1_append)
      from update_time_spec [OF t1, of clk] obtain t where "update_time clk ?s1 = Some t"
        and "retimed ?s1 t" and "timers t (remove1 x xs)" by blast
      then show ?thesis using ne b u t1
        by (intro exI [of _ ?s1] exI [of _ t]) (simp add: etimer_stop_def)
    next
      case False
      then have "before_loop (et_next s) x (timerlist s) = Some NULL"
        using c assms(2) by (simp add: before_loop_none)
      moreover have "retimed s s"
        unfolding retimed_def by (intro exI [of _ "next_expiration s"] exI [of _ "reads s"]) simp
      ultimately show ?thesis using ne False assms(1)
        by (intro exI [of _ s]) (simp add: etimer_stop_def timers_ok_def remove1_idem)
    qed
  qed
  then obtain s1 t where s1: "et_p s1 = et_p s" "et_timer s1 = et_timer s" "kern s1 = kern s"
    and rt: "retimed s1 t" and t: "timers t (remove1 x xs)"
    and run: "etimer_stop clk x s = Some (set_et_p x NULL (set_et_next x NULL t))" by blast
  let ?t = "set_et_p x NULL (set_et_next x NULL t)"
  have f: "et_p t = et_p s" "et_timer t = et_timer s" "kern t = kern s"
    using s1 retimed_fields [OF rt] by auto
  have "x \<notin> set (remove1 x xs)" using d by simp
  then have "timers_ok ?t (remove1 x xs)"
    using t own f set_remove1_subset [of x xs] by (auto simp: timers_ok_def timers_def)
  with run f show ?thesis by auto
qed

section \<open>When a process exits, its timers leave the list\<close>

lemma skip_head_chain:
  "chain n t xs \<Longrightarrow>
   \<exists>h. skip_head n owner p t = Some h \<and> chain n h (dropWhile (\<lambda>x. owner x = p) xs)"
proof (induction xs arbitrary: t)
  case Nil
  then show ?case by (subst skip_head.simps) simp
next
  case (Cons x xs)
  then show ?case by (subst skip_head.simps) auto
qed

lemma unlink_owned_chain:
  "t \<noteq> NULL \<Longrightarrow> chain (et_next s) (et_next s t) xs \<Longrightarrow> distinct (t # xs) \<Longrightarrow>
   \<exists>n. unlink_owned p t s = Some (s\<lparr>et_next := n\<rparr>) \<and>
     chain n (n t) (filter (\<lambda>x. et_p s x \<noteq> p) xs) \<and> (\<forall>y. y \<notin> set (t # xs) \<longrightarrow> n y = et_next s y)"
proof (induction "length xs" arbitrary: t s xs)
  case 0
  then show ?case by (subst unlink_owned.simps) (auto intro!: exI [of _ "et_next s"])
next
  case (Suc k)
  then obtain x ys where xs: "xs = x # ys" by (cases xs) auto
  with Suc.prems have x: "et_next s t = x" "x \<noteq> NULL" and c: "chain (et_next s) (et_next s x) ys"
    and d: "distinct (x # ys)" and tn: "t \<noteq> x" "t \<notin> set ys" by auto
  show ?case
  proof (cases "et_p s x = p")
    case True
    let ?s = "set_et_next t (et_next s x) s"
    have "chain (et_next ?s) (et_next ?s t) ys" using c tn by simp
    moreover have "k = length ys" and "distinct (t # ys)" using Suc.hyps(2) xs d tn by auto
    ultimately obtain n where n: "unlink_owned p t ?s = Some (?s\<lparr>et_next := n\<rparr>)"
      "chain n (n t) (filter (\<lambda>x. et_p ?s x \<noteq> p) ys)" "\<forall>y. y \<notin> set (t # ys) \<longrightarrow> n y = et_next ?s y"
      using Suc.hyps(1) [of ys t ?s] Suc.prems(1) by blast
    have "unlink_owned p t s = unlink_owned p t ?s"
      using x True by (subst unlink_owned.simps) simp
    moreover have "?s\<lparr>et_next := n\<rparr> = s\<lparr>et_next := n\<rparr>" by (simp add: set_et_next_def)
    ultimately show ?thesis using n xs True by (intro exI [of _ n]) auto
  next
    case False
    have "k = length ys" using Suc.hyps(2) xs by simp
    with Suc.hyps(1) [of ys x s] c d x(2) obtain n where
      n: "unlink_owned p x s = Some (s\<lparr>et_next := n\<rparr>)"
      "chain n (n x) (filter (\<lambda>x. et_p s x \<noteq> p) ys)" "\<forall>y. y \<notin> set (x # ys) \<longrightarrow> n y = et_next s y"
      by blast
    have "unlink_owned p t s = unlink_owned p x s"
      using x False by (subst unlink_owned.simps) simp
    moreover have "n t = x" using n(3) tn x by simp
    ultimately show ?thesis using n xs x False by (intro exI [of _ n]) auto
  qed
qed

lemma handle_exited_spec:
  assumes "timers s xs"
  shows "\<exists>h n. handle_exited p s = Some (s\<lparr>timerlist := h, et_next := n\<rparr>) \<and>
    chain n h (filter (\<lambda>x. et_p s x \<noteq> p) xs) \<and> (\<forall>y. y \<notin> set xs \<longrightarrow> n y = et_next s y)"
proof -
  from assms have c: "chain (et_next s) (timerlist s) xs" by (simp add: timers_def)
  let ?ys = "dropWhile (\<lambda>x. et_p s x = p) xs"
  from skip_head_chain [OF c, of "et_p s" p] obtain h
    where h: "skip_head (et_next s) (et_p s) p (timerlist s) = Some h" and ch: "chain (et_next s) h ?ys"
    by blast
  have f: "filter (\<lambda>x. et_p s x \<noteq> p) xs = filter (\<lambda>x. et_p s x \<noteq> p) ?ys"
    by (induction xs) auto
  have sub: "set ?ys \<subseteq> set xs" by (meson set_dropWhileD subsetI)
  show ?thesis
  proof (cases ?ys)
    case Nil
    with ch h f show ?thesis
      by (intro exI [of _ h] exI [of _ "et_next s"]) (simp add: handle_exited_def)
  next
    case (Cons y ys)
    let ?s = "s\<lparr>timerlist := h\<rparr>"
    from Cons ch have y: "h = y" "h \<noteq> NULL" "chain (et_next s) (et_next s y) ys" by auto
    have yp: "et_p s y \<noteq> p" using hd_dropWhile [of "\<lambda>x. et_p s x = p" xs] Cons by simp
    have "distinct (y # ys)" using chain_distinct [OF ch] Cons by simp
    with unlink_owned_chain [of y ?s ys p] y obtain n
      where n: "unlink_owned p h ?s = Some (?s\<lparr>et_next := n\<rparr>)"
        "chain n (n y) (filter (\<lambda>x. et_p s x \<noteq> p) ys)"
        "\<forall>z. z \<notin> set (y # ys) \<longrightarrow> n z = et_next s z" by auto
    have "handle_exited p s = Some (?s\<lparr>et_next := n\<rparr>)"
      using h n(1) y by (simp add: handle_exited_def Let_def)
    with n y yp f Cons sub show ?thesis by (intro exI [of _ h] exI [of _ n]) auto
  qed
qed

lemma handle_exited_ok:
  assumes "timers_ok s xs"
  shows "\<exists>t. handle_exited p s = Some t \<and> timers_ok t (filter (\<lambda>x. et_p s x \<noteq> p) xs) \<and>
    et_p t = et_p s \<and> et_timer t = et_timer s \<and> kern t = kern s"
  using handle_exited_spec [of s xs p] assms by (auto simp: timers_ok_def timers_def)

section \<open>The poll handler posts the expired timers\<close>

definition due :: "u16 \<Rightarrow> 'u etimers \<Rightarrow> ptr list \<Rightarrow> ptr list" where
  "due now s xs = filter (\<lambda>x. timer_expired now (et_timer s x)) xs"

definition timer_event :: "'u etimers \<Rightarrow> ptr \<Rightarrow> event_data" where
  "timer_event s x = \<lparr>ed_ev = PROCESS_EVENT_TIMER, ed_data = x, ed_p = et_p s x\<rparr>"

lemma process_poll_idem [simp]: "process_poll p (process_poll p k) = process_poll p k"
  by (simp add: process_poll_def)

lemma poll_nevents [simp]: "nevents (process_poll p k) = nevents k"
  by (simp add: process_poll_def)

text \<open>A scan that can post nothing leaves the list as it is.\<close>

lemma poll_scan_idle:
  assumes clk: "clk = (\<lambda>_. now)"
  shows "chain (et_next s) t vs \<Longrightarrow> due now s vs = [] \<or> nevents (kern s) = PROCESS_CONF_NUMEVENTS \<Longrightarrow>
    \<exists>r. poll_scan clk etp u t s = Some (s\<lparr>reads := r,
      kern := (if due now s vs = [] then kern s else process_poll etp (kern s))\<rparr>)"
proof (induction vs arbitrary: t u s)
  case Nil
  then show ?case by (subst poll_scan.simps) (auto simp: due_def intro!: exI [of _ "reads s"])
next
  case (Cons v vs)
  then have v: "t = v" "v \<noteq> NULL" and c: "chain (et_next s) (et_next s v) vs" by auto
  show ?case
  proof (cases "timer_expired now (et_timer s v)")
    case True
    then have full: "nevents (kern s) = PROCESS_CONF_NUMEVENTS" using Cons.prems(2) by (auto simp: due_def)
    let ?s = "etimer_request_poll etp ((s\<lparr>reads := Suc (reads s)\<rparr>)\<lparr>kern := kern s\<rparr>)"
    have step: "poll_scan clk etp u t s = poll_scan clk etp v (et_next s v) ?s"
      using v True full clk
      by (subst poll_scan.simps) (simp add: clock_time_def process_post_def process_consts)
    have "chain (et_next ?s) (et_next s v) vs" using c by simp
    moreover have "due now ?s vs = [] \<or> nevents (kern ?s) = PROCESS_CONF_NUMEVENTS" using full by simp
    ultimately obtain r where "poll_scan clk etp v (et_next s v) ?s = Some (?s\<lparr>reads := r,
      kern := (if due now ?s vs = [] then kern ?s else process_poll etp (kern ?s))\<rparr>)"
      using Cons.IH by blast
    moreover have "due now s (v # vs) \<noteq> []" using True by (simp add: due_def)
    ultimately show ?thesis unfolding step
      by (intro exI [of _ r]) (simp add: etimer_request_poll_def)
  next
    case False
    let ?s = "s\<lparr>reads := Suc (reads s)\<rparr>"
    have step: "poll_scan clk etp u t s = poll_scan clk etp v (et_next s v) ?s"
      using v False clk by (subst poll_scan.simps) (simp add: clock_time_def)
    have same: "due now s (v # vs) = due now ?s vs" using False by (simp add: due_def)
    have "chain (et_next ?s) (et_next s v) vs" using c by simp
    moreover have "due now ?s vs = [] \<or> nevents (kern ?s) = PROCESS_CONF_NUMEVENTS"
      using Cons.prems(2) same by simp
    ultimately obtain r where "poll_scan clk etp v (et_next s v) ?s = Some (?s\<lparr>reads := r,
      kern := (if due now ?s vs = [] then kern ?s else process_poll etp (kern ?s))\<rparr>)"
      using Cons.IH by blast
    then show ?thesis unfolding step same by (intro exI [of _ r]) simp
  qed
qed

text \<open>A scan with room in the queue posts the first expired timer, unlinks it and starts again.\<close>

lemma poll_scan_first:
  assumes clk: "clk = (\<lambda>_. now)"
  shows "chain (et_next s) t (vs @ d # ws) \<Longrightarrow> due now s vs = [] \<Longrightarrow>
    timer_expired now (et_timer s d) \<Longrightarrow> nevents (kern s) \<noteq> PROCESS_CONF_NUMEVENTS \<Longrightarrow>
    \<exists>r. poll_scan clk etp u t s = do {
          s2 \<leftarrow> update_time clk (drop_timer (last (u # vs)) d
                  (s\<lparr>reads := r, kern := snd (process_post (et_p s d) PROCESS_EVENT_TIMER d (kern s))\<rparr>));
          poll_scan clk etp NULL (timerlist s2) s2
        }"
proof (induction vs arbitrary: t u s)
  case Nil
  then have "t = d" "d \<noteq> NULL" by auto
  with Nil clk show ?case
    by (subst poll_scan.simps)
      (auto simp: clock_time_def process_post_def process_consts Let_def intro!: exI [of _ "Suc (reads s)"])
next
  case (Cons v vs)
  let ?s = "s\<lparr>reads := Suc (reads s)\<rparr>"
  from Cons.prems have v: "t = v" "v \<noteq> NULL" "chain (et_next ?s) (et_next s v) (vs @ d # ws)"
    and nv: "\<not> timer_expired now (et_timer s v)" "due now ?s vs = []"
    by (auto simp: due_def split: if_splits)
  have "poll_scan clk etp u t s = poll_scan clk etp v (et_next s v) ?s"
    using v nv clk by (subst poll_scan.simps) (simp add: clock_time_def)
  with Cons.IH [OF v(3) nv(2), of v] Cons.prems(3,4) show ?case by simp
qed

lemma drop_timer_chain:
  assumes "timers s (us @ d # ws)"
  shows "timers (drop_timer (if us = [] then NULL else last us) d s) (us @ ws)"
proof -
  from assms have c: "chain (et_next s) (timerlist s) (us @ d # ws)" by (simp add: timers_def)
  note dist = chain_distinct [OF c]
  show ?thesis
  proof (cases us rule: rev_cases)
    case Nil
    with c dist show ?thesis by (simp add: timers_def drop_timer_def Let_def)
  next
    case (snoc us' u)
    with c have "u \<noteq> NULL" by (auto simp: chain_append seg_append)
    with c dist snoc show ?thesis
      by (auto simp: timers_def drop_timer_def Let_def chain_append seg_append)
  qed
qed

lemma drop_timer_fields:
  "et_p (drop_timer u d s) = (et_p s)(d := NULL)" "et_timer (drop_timer u d s) = et_timer s"
  "kern (drop_timer u d s) = kern s"
  by (simp_all add: drop_timer_def Let_def)

definition next_known :: "u16 \<Rightarrow> 'u etimers \<Rightarrow> ptr list \<Rightarrow> bool" where
  "next_known now s xs \<longleftrightarrow> (if xs = [] then next_expiration s = 0 else earliest now s xs)"

definition room :: "'u etimers \<Rightarrow> nat" where
  "room s = 32 - unat (nevents (kern s))"

text \<open>What a poll makes of the state when the timers in \<open>posted\<close> are posted and \<open>left\<close> means
  that more expired timers are left on the list.\<close>

definition polled :: "u16 \<Rightarrow> ptr \<Rightarrow> ptr list \<Rightarrow> bool \<Rightarrow> ptr list \<Rightarrow> 'u etimers \<Rightarrow> 'u etimers \<Rightarrow> bool" where
  "polled now etp posted left xs s t \<longleftrightarrow>
     timers t (filter (\<lambda>x. x \<notin> set posted) xs) \<and> queue_ok (kern t) \<and>
     pending (kern t) = pending (kern s) @ map (timer_event s) posted \<and>
     et_p t = (\<lambda>x. if x \<in> set posted then NULL else et_p s x) \<and> et_timer t = et_timer s \<and>
     p_state (kern t) = p_state (kern s) \<and>
     (posted = [] \<longrightarrow> next_expiration t = next_expiration s) \<and>
     (posted \<noteq> [] \<longrightarrow> next_known now t (filter (\<lambda>x. x \<notin> set posted) xs)) \<and>
     (p_needspoll (kern t), poll_requested (kern t)) =
       (if left \<and> etp \<noteq> NULL \<and> p_state (kern s) etp \<in> {PROCESS_STATE_RUNNING, PROCESS_STATE_CALLED}
        then ((p_needspoll (kern s))(etp := 1), 1) else (p_needspoll (kern s), poll_requested (kern s)))"

lemma queue_ok_process_poll [simp]: "queue_ok (process_poll p k) \<longleftrightarrow> queue_ok k"
  by (simp add: queue_ok_def process_poll_def)

lemma pending_process_poll [simp]: "pending (process_poll p k) = pending k"
  by (simp add: pending_def process_poll_def)

lemma state_process_poll [simp]: "p_state (process_poll p k) = p_state k"
  by (simp add: process_poll_def)

lemma room_full: "queue_ok (kern s) \<Longrightarrow> room s = 0 \<longleftrightarrow> nevents (kern s) = PROCESS_CONF_NUMEVENTS"
  by (auto simp: room_def queue_ok_def process_consts word_unat_eq_iff)

lemma polled_idle:
  assumes clk: "clk = (\<lambda>_. now)" and l: "timers s xs" and q: "queue_ok (kern s)"
    and idle: "due now s xs = [] \<or> room s = 0"
  shows "\<exists>t. poll_scan clk etp NULL (timerlist s) s = Some t \<and> polled now etp [] (due now s xs \<noteq> []) xs s t"
proof -
  have c: "chain (et_next s) (timerlist s) xs" using l by (simp add: timers_def)
  have i: "due now s xs = [] \<or> nevents (kern s) = PROCESS_CONF_NUMEVENTS"
    using idle room_full [OF q] by blast
  from poll_scan_idle [OF clk c i, where etp = etp and u = NULL] obtain r where
    "poll_scan clk etp NULL (timerlist s) s = Some (s\<lparr>reads := r,
      kern := (if due now s xs = [] then kern s else process_poll etp (kern s))\<rparr>)" by blast
  moreover have "polled now etp [] (due now s xs \<noteq> []) xs s (s\<lparr>reads := r,
      kern := (if due now s xs = [] then kern s else process_poll etp (kern s))\<rparr>)"
    using l q by (simp add: polled_def timers_def) (simp add: process_poll_def process_consts)
  ultimately show ?thesis by blast
qed

lemma first_due:
  assumes "due now s xs \<noteq> []"
  obtains us d ws where "xs = us @ d # ws" and "due now s us = []" and "timer_expired now (et_timer s d)"
    and "due now s xs = d # due now s ws"
proof -
  from assms have "\<exists>x \<in> set xs. timer_expired now (et_timer s x)" by (auto simp: due_def filter_empty_conv)
  then obtain us d ws where "xs = us @ d # ws" and d: "timer_expired now (et_timer s d)"
    and n: "\<forall>y \<in> set us. \<not> timer_expired now (et_timer s y)"
    by (elim split_list_first_propE) blast
  moreover from n have "due now s us = []" by (simp add: due_def filter_empty_conv)
  ultimately show ?thesis using that [of us d ws] d by (simp add: due_def)
qed

lemma poll_scan_polled:
  assumes clk: "clk = (\<lambda>_. now)"
  shows "timers s xs \<Longrightarrow> queue_ok (kern s) \<Longrightarrow>
    \<exists>t. poll_scan clk etp NULL (timerlist s) s = Some t \<and>
      polled now etp (take (room s) (due now s xs)) (room s < length (due now s xs)) xs s t"
proof (induction "length xs" arbitrary: s xs rule: less_induct)
  case less
  note c = less.prems(1) [unfolded timers_def] and q = less.prems(2)
  show ?case
  proof (cases "due now s xs = [] \<or> room s = 0")
    case True
    then have none: "take (room s) (due now s xs) = []"
      and more: "(room s < length (due now s xs)) = (due now s xs \<noteq> [])" by auto
    show ?thesis unfolding none more by (rule polled_idle [OF clk less.prems True])
  next
    case False
    then obtain us d ws where xs: "xs = us @ d # ws" and us: "due now s us = []"
      and d: "timer_expired now (et_timer s d)" and due: "due now s xs = d # due now s ws"
      using first_due by blast
    have nf: "nevents (kern s) \<noteq> PROCESS_CONF_NUMEVENTS" using False room_full [OF q] by simp
    let ?k = "snd (process_post (et_p s d) PROCESS_EVENT_TIMER d (kern s))"
    from poll_scan_first [OF clk c [unfolded xs] us d nf, where etp = etp and u = NULL] obtain r where
      run: "poll_scan clk etp NULL (timerlist s) s = do {
          s2 \<leftarrow> update_time clk (drop_timer (last (NULL # us)) d (s\<lparr>reads := r, kern := ?k\<rparr>));
          poll_scan clk etp NULL (timerlist s2) s2 }" by blast
    let ?s1 = "drop_timer (last (NULL # us)) d (s\<lparr>reads := r, kern := ?k\<rparr>)"
    have "timers (s\<lparr>reads := r, kern := ?k\<rparr>) (us @ d # ws)" using less.prems(1) xs by (simp add: timers_def)
    from drop_timer_chain [OF this] have "timers ?s1 (us @ ws)" by (simp split: if_splits)
    from update_time_spec [OF this, of clk] clk obtain s2 where
      up: "update_time clk ?s1 = Some s2" and rt: "retimed ?s1 s2" and t2: "timers s2 (us @ ws)"
      and nx: "next_known now s2 (us @ ws)" unfolding next_known_def by auto
    have f: "et_p s2 = (et_p s)(d := NULL)" "et_timer s2 = et_timer s" "kern s2 = ?k"
      using retimed_fields [OF rt] by (simp_all add: drop_timer_fields)
    have put: "queue_ok ?k \<and> pending ?k = pending (kern s) @ [timer_event s d]"
      using event_queue.put_cases [OF q, of "timer_event s d"] nf
      by (auto simp: post_event_def timer_event_def process_post_def process_consts Let_def)
    have dist: "d \<notin> set us" "d \<notin> set ws" "distinct (us @ ws)" using chain_distinct [OF c] xs by auto
    have due2: "due now s2 (us @ ws) = due now s ws" using us f by (simp add: due_def)
    have room2: "room s2 = room s - 1"
      using nf q unat_add_small [of "nevents (kern s)" 1] f
      by (simp add: room_def process_post_def process_consts Let_def queue_ok_def)
    have take: "take (room s) (due now s xs) = d # take (room s2) (due now s ws)"
      and len: "(room s < length (due now s xs)) = (room s2 < length (due now s ws))"
      using False due room2 by (cases "room s"; simp)+
    have "length (us @ ws) < length xs" using xs by simp
    from less.hyps [OF this t2] f put due2 obtain t where
      run2: "poll_scan clk etp NULL (timerlist s2) s2 = Some t"
      and p: "polled now etp (take (room s2) (due now s ws)) (room s2 < length (due now s ws)) (us @ ws) s2 t"
      by auto
    let ?ps = "take (room s2) (due now s ws)"
    have dps: "d \<notin> set ?ps" using dist(2) by (auto simp: due_def dest: in_set_takeD)
    have ev: "map (timer_event s2) ?ps = map (timer_event s) ?ps"
      using dps f by (intro map_cong) (auto simp: timer_event_def)
    have fil: "filter (\<lambda>x. x \<notin> set (d # ?ps)) xs = filter (\<lambda>x. x \<notin> set ?ps) (us @ ws)"
    proof -
      have "filter (\<lambda>x. x \<notin> set (d # ?ps)) xs = filter (\<lambda>x. x \<notin> set (d # ?ps)) (us @ ws)" using xs by simp
      also have "\<dots> = filter (\<lambda>x. x \<notin> set ?ps) (us @ ws)" using dist by (intro filter_cong) auto
      finally show ?thesis .
    qed
    have st: "p_state ?k = p_state (kern s)" "p_needspoll ?k = p_needspoll (kern s)" "poll_requested ?k = poll_requested (kern s)"
      by (simp_all add: process_post_def Let_def)
    have nk: "next_known now t (us @ ws)" if "?ps = []"
      using nx that p f by (auto simp: polled_def next_known_def earliest_def etimer_expiration_time_def)
    have "polled now etp (d # ?ps) (room s2 < length (due now s ws)) xs s t"
      unfolding polled_def fil
      using p f put ev st nk dps
      by (cases "?ps = []") (auto simp: polled_def fun_eq_iff)
    with run up run2 take len show ?thesis by simp
  qed
qed

text \<open>C20: While the clock stands at \<open>now\<close>, a poll of the timer process returns and posts one timer
  event, to the owner of each, for the expired timers in list order, as many as the event queue has
  room for; exactly these leave the list and become expired, the others stay in order with their
  owners, and the next expiration is that of a timer no remaining one expires before. If the queue
  had no room for all of them, the timer process \<open>etp\<close>, which is in the state CALLED while it handles the
  poll, has asked to be polled again; otherwise no request to be polled is made.\<close>

theorem etimer_poll_posts_expired:
  assumes "\<forall>n. clk n = now" and "timers s xs" and "queue_ok (kern s)"
  shows "\<exists>t. etimer_event clk etp PROCESS_EVENT_POLL d s = Some t \<and>
    polled now etp (take (room s) (due now s xs)) (room s < length (due now s xs)) xs s t"
proof -
  have "clk = (\<lambda>_. now)" using assms(1) by auto
  from poll_scan_polled [OF this assms(2,3), where etp = etp] show ?thesis
    by (simp add: etimer_event_def process_consts)
qed

definition three_timers :: "unit etimers" where
  "three_timers = \<lparr>timerlist = 16, next_expiration = 0,
     et_timer = (\<lambda>x. if x = 24 then timer_set 0 500 \<lparr>start = 0, interval = 0\<rparr>
                     else timer_set 0 10 \<lparr>start = 0, interval = 0\<rparr>),
     et_next = (\<lambda>x. if x = 16 then 24 else if x = 24 then 32 else 0), et_p = (\<lambda>_. 7), reads = 0,
     kern = process_init (blank_kernel ())\<rparr>"

text \<open>Two of three timers have expired, and the queue has room for one event.\<close>

definition crowded_timers :: "unit etimers" where
  "crowded_timers = three_timers\<lparr>kern := (kern three_timers)\<lparr>nevents := 31, p_state := (\<lambda>p. if p = 5 then PROCESS_STATE_CALLED else 0)\<rparr>\<rparr>"

theorem etimer_poll_posts_expired_witness:
  "\<exists>t. etimer_event (\<lambda>_. 20) 5 PROCESS_EVENT_POLL 0 crowded_timers = Some t \<and>
     timers t [24, 32] \<and> length (pending (kern t)) = 32 \<and> ed_data (last (pending (kern t))) = 16 \<and>
     p_needspoll (kern t) 5 = 1 \<and> poll_requested (kern t) = 1"
proof -
  have l: "timers crowded_timers [16, 24, 32]" by (simp add: timers_def crowded_timers_def three_timers_def)
  have q: "queue_ok (kern crowded_timers)"
    by (simp add: crowded_timers_def three_timers_def queue_ok_def process_init_def blank_kernel_def)
  have r: "room crowded_timers = 1" by (simp add: crowded_timers_def room_def)
  have e: "length (pending (kern crowded_timers)) = 31"
    by (simp add: crowded_timers_def pending_def)
  have d: "due 20 crowded_timers [16, 24, 32] = [16, 32]"
    by (simp add: due_def crowded_timers_def three_timers_def timer_expired_def timer_set_def Let_def)
  have st: "p_state (kern crowded_timers) 5 = PROCESS_STATE_CALLED" by (simp add: crowded_timers_def)
  have l1: "take 1 [16, 32 :: ptr] = [16]" "1 < length [16, 32 :: ptr]" by simp_all
  from etimer_poll_posts_expired [of "\<lambda>_. 20" 20, OF _ l q, where etp = 5 and d = 0] obtain t where
    t: "etimer_event (\<lambda>_. 20) 5 PROCESS_EVENT_POLL 0 crowded_timers = Some t" "polled 20 5 [16] True [16, 24, 32] crowded_timers t"
    unfolding r d l1(1) using l1(2) by auto
  then show ?thesis
    by (intro exI [of _ t]) (auto simp: polled_def e st timer_event_def)
qed

section \<open>Every sequence of operations keeps the list well formed, and returns\<close>

lemma poll_scan_keeps:
  fixes s :: "'a etimers"
  shows "length (us @ vs) = n \<Longrightarrow> timers_ok s (us @ vs) \<Longrightarrow> seg (et_next s) (timerlist s) us t \<Longrightarrow>
   chain (et_next s) t vs \<Longrightarrow>
   \<exists>t' ys. poll_scan clk etp (last (NULL # us)) t s = Some t' \<and> timers_ok t' ys"
proof (induction n arbitrary: us vs s t rule: less_induct)
  case (less n)
  from less.prems show ?case
  proof (induction vs arbitrary: us s t)
    case Nil
    then show ?case by (subst poll_scan.simps) auto
  next
    case (Cons v vs)
    from Cons.prems have v: "t = v" "v \<noteq> NULL" and c: "chain (et_next s) (et_next s v) vs" by auto
    have skip: "\<exists>t' ys. poll_scan clk etp v (et_next s v) s1 = Some t' \<and> timers_ok t' ys"
      if "timerlist s1 = timerlist s" "et_next s1 = et_next s" "et_p s1 = et_p s" for s1 :: "'a etimers"
    proof -
      have "timers_ok s1 ((us @ [v]) @ vs)" using Cons.prems(2) that by (simp add: timers_ok_def timers_def)
      moreover have "seg (et_next s1) (timerlist s1) (us @ [v]) (et_next s v)"
        using Cons.prems(3) v that by (simp add: seg_append)
      ultimately show ?thesis using Cons.IH [of "us @ [v]" s1 "et_next s v"] Cons.prems(1) c that by simp
    qed
    obtain r k where post: "process_post (et_p s v) PROCESS_EVENT_TIMER v (kern s) = (r, k)" by fastforce
    let ?s1 = "drop_timer (last (NULL # us)) v ((snd (clock_time clk s))\<lparr>kern := k\<rparr>)"
    have "timers ((snd (clock_time clk s))\<lparr>kern := k\<rparr>) (us @ v # vs)"
      using Cons.prems(2) by (simp add: timers_ok_def timers_def clock_time_def)
    from drop_timer_chain [OF this] have t1: "timers ?s1 (us @ vs)" by (simp split: if_splits)
    from update_time_spec [OF t1, of clk] obtain s2 where
      up: "update_time clk ?s1 = Some s2" and rt: "retimed ?s1 s2" and t2: "timers s2 (us @ vs)" by blast
    have "et_p s2 = (et_p s)(v := NULL)"
      using retimed_fields [OF rt] by (simp add: drop_timer_fields clock_time_def)
    moreover have "v \<notin> set (us @ vs)"
      using timers_distinct [of s "us @ v # vs"] Cons.prems(2) by (simp add: timers_ok_def)
    ultimately have "timers_ok s2 (us @ vs)" using Cons.prems(2) t2 by (auto simp: timers_ok_def)
    with less.IH [of "length (us @ vs)" "[]" "us @ vs" s2 "timerlist s2"] t2 Cons.prems(1)
    have again: "\<exists>t' ys. poll_scan clk etp NULL (timerlist s2) s2 = Some t' \<and> timers_ok t' ys"
      by (simp add: timers_def)
    show ?case
    proof (cases "timer_expired (fst (clock_time clk s)) (et_timer s v)")
      case False
      then have "poll_scan clk etp (last (NULL # us)) t s = poll_scan clk etp v (et_next s v) (snd (clock_time clk s))"
        using v by (subst poll_scan.simps) simp
      then show ?thesis using skip [of "snd (clock_time clk s)"] by (simp add: clock_time_def)
    next
      case True
      show ?thesis
      proof (cases "r = PROCESS_ERR_OK")
        case ok: True
        have "poll_scan clk etp (last (NULL # us)) t s = poll_scan clk etp NULL (timerlist s2) s2"
          using True ok v post up by (subst poll_scan.simps) simp
        then show ?thesis using again by simp
      next
        case full: False
        let ?s3 = "etimer_request_poll etp ((snd (clock_time clk s))\<lparr>kern := k\<rparr>)"
        have "poll_scan clk etp (last (NULL # us)) t s = poll_scan clk etp v (et_next s v) ?s3"
          using True full v post by (subst poll_scan.simps) simp
        then show ?thesis using skip [of ?s3] by (simp add: clock_time_def)
      qed
    qed
  qed
qed

datatype etimer_op =
    E_set ptr u16
  | E_reset ptr
  | E_reset_with_new_interval ptr u16
  | E_restart ptr
  | E_adjust ptr u16
  | E_stop ptr
  | E_event u8 nat

fun etimer_exec :: "(nat \<Rightarrow> u16) \<Rightarrow> ptr \<Rightarrow> etimer_op \<Rightarrow> 'u etimers \<Rightarrow> 'u etimers option" where
  "etimer_exec clk etp (E_set x i) s = etimer_set clk etp x i s"
| "etimer_exec clk etp (E_reset x) s = etimer_reset clk etp x s"
| "etimer_exec clk etp (E_reset_with_new_interval x i) s = etimer_reset_with_new_interval clk etp x i s"
| "etimer_exec clk etp (E_restart x) s = etimer_restart clk etp x s"
| "etimer_exec clk etp (E_adjust x d) s = etimer_adjust clk x d s"
| "etimer_exec clk etp (E_stop x) s = etimer_stop clk x s"
| "etimer_exec clk etp (E_event ev d) s = etimer_event clk etp ev d s"

text \<open>A caller passes the address of a timer, and sets timers only from within a process.\<close>

fun etimer_op_ok :: "etimer_op \<Rightarrow> 'u etimers \<Rightarrow> bool" where
  "etimer_op_ok (E_event ev d) s \<longleftrightarrow> True"
| "etimer_op_ok (E_stop x) s \<longleftrightarrow> x \<noteq> NULL"
| "etimer_op_ok (E_adjust x d) s \<longleftrightarrow> x \<noteq> NULL"
| "etimer_op_ok (E_set x i) s \<longleftrightarrow> x \<noteq> NULL \<and> process_current (kern s) \<noteq> NULL"
| "etimer_op_ok (E_reset x) s \<longleftrightarrow> x \<noteq> NULL \<and> process_current (kern s) \<noteq> NULL"
| "etimer_op_ok (E_reset_with_new_interval x i) s \<longleftrightarrow> x \<noteq> NULL \<and> process_current (kern s) \<noteq> NULL"
| "etimer_op_ok (E_restart x) s \<longleftrightarrow> x \<noteq> NULL \<and> process_current (kern s) \<noteq> NULL"

text \<open>Between two operations the kernel may come into any state.\<close>

inductive etimer_reachable :: "(nat \<Rightarrow> u16) \<Rightarrow> ptr \<Rightarrow> 'u etimers \<Rightarrow> bool" for clk etp where
  init: "etimer_reachable clk etp (etimer_process_init s)"
| op: "etimer_reachable clk etp s \<Longrightarrow> etimer_op_ok x s \<Longrightarrow> etimer_exec clk etp x s = Some t \<Longrightarrow>
    etimer_reachable clk etp t"
| kernel: "etimer_reachable clk etp s \<Longrightarrow> etimer_reachable clk etp (s\<lparr>kern := k\<rparr>)"

inductive_cases etimer_reachable_E: "etimer_reachable clk etp s"

lemma timers_ok_set_timer: "timers_ok (set_et_timer x v s) xs \<longleftrightarrow> timers_ok s xs"
  by (simp add: timers_ok_def timers_def)

lemma timers_ok_clock: "timers_ok (snd (clock_time clk s)) xs \<longleftrightarrow> timers_ok s xs"
  by (simp add: timers_ok_def timers_def clock_time_def)

lemma kern_clock [simp]: "kern (snd (clock_time clk s)) = kern s"
  by (simp add: clock_time_def)

lemma add_timer_ok:
  assumes "timers_ok s xs" and "x \<noteq> NULL" and "process_current (kern s) \<noteq> NULL"
  shows "\<exists>t ys. add_timer clk etp x s = Some t \<and> timers_ok t ys"
  using add_timer_spec [OF assms] by blast

lemma etimer_exec_ok:
  assumes "timers_ok s xs" and "etimer_op_ok x s"
  shows "\<exists>t ys. etimer_exec clk etp x s = Some t \<and> timers_ok t ys"
proof (cases x)
  case (E_adjust e d)
  have "timers (set_et_timer e v s) xs" for v using assms(1) by (simp add: timers_ok_def timers_def)
  from update_time_spec [OF this, of clk] E_adjust assms(1) show ?thesis
    by (fastforce simp: etimer_adjust_def timers_ok_def dest: retimed_fields)
next
  case (E_event ev d)
  have "\<exists>t ys. poll_scan clk etp NULL (timerlist s) s = Some t \<and> timers_ok t ys"
    using poll_scan_keeps [of "[]" xs "length xs" s "timerlist s" clk etp] assms(1)
    by (simp add: timers_ok_def timers_def)
  with E_event assms(1) handle_exited_ok [OF assms(1), of d] show ?thesis
    by (auto simp: etimer_event_def)
next
  case (E_set e i)
  with assms add_timer_ok [of "set_et_timer e v (snd (clock_time clk s))" xs e clk etp for v] show ?thesis
    by (simp add: etimer_set_def split_beta timers_ok_set_timer timers_ok_clock)
next
  case (E_reset e)
  with assms add_timer_ok [of "set_et_timer e v s" xs e clk etp for v] show ?thesis
    by (simp add: etimer_reset_def timers_ok_set_timer)
next
  case (E_reset_with_new_interval e i)
  with assms add_timer_ok [of "set_et_timer e v s" xs e clk etp for v] show ?thesis
    by (simp add: etimer_reset_with_new_interval_def timers_ok_set_timer)
next
  case (E_restart e)
  with assms add_timer_ok [of "set_et_timer e v (snd (clock_time clk s))" xs e clk etp for v] show ?thesis
    by (simp add: etimer_restart_def split_beta timers_ok_set_timer timers_ok_clock)
next
  case (E_stop e)
  with assms etimer_stop_spec [OF assms(1), of e clk] show ?thesis by auto
qed

lemma etimer_reachable_ok: "etimer_reachable clk etp s \<Longrightarrow> \<exists>xs. timers_ok s xs"
proof (induction rule: etimer_reachable.induct)
  case (init s)
  have "timers_ok (etimer_process_init s) []" by (simp add: timers_ok_def timers_def etimer_process_init_def)
  then show ?case by blast
next
  case (op s x t)
  then obtain xs where "timers_ok s xs" by blast
  from etimer_exec_ok [OF this op.hyps(2), of clk etp] op.hyps(3) show ?case by auto
next
  case (kernel s k)
  then show ?case by (auto simp: timers_ok_def timers_def)
qed

text \<open>C30: However the clock runs and whatever the kernel does in between, after every sequence of
  operations on event timers and events for the timer process, each timer being set or restarted from within
  a process (\<open>process_current\<close> is not \<open>NULL\<close>) and timers being other than \<open>NULL\<close>, the timer list is a chain of distinct
  timers, each with an owner, that ends in \<open>NULL\<close>, and every further operation under the same condition
  returns. Outside every process it need not: \<open>etimer_set_twice_outside_process\<close> below.\<close>

theorem etimer_list_stays_well_formed:
  assumes "etimer_reachable clk etp s"
  shows "\<exists>xs. timers s xs \<and> distinct xs \<and> (\<forall>x \<in> set xs. et_p s x \<noteq> NULL) \<and>
    (\<forall>x. etimer_op_ok x s \<longrightarrow> etimer_exec clk etp x s \<noteq> None)"
proof -
  from etimer_reachable_ok [OF assms] obtain xs where xs: "timers_ok s xs" by blast
  then have "\<forall>x. etimer_op_ok x s \<longrightarrow> etimer_exec clk etp x s \<noteq> None"
    using etimer_exec_ok [OF xs] by fastforce
  with xs timers_distinct show ?thesis by (auto simp: timers_ok_def)
qed

lemma etimer_list_stays_well_formed_witness:
  "\<exists>t. etimer_exec (\<lambda>_. 3) 5 (E_set 16 10) ((etimer_process_init three_timers)\<lparr>kern := set_current 7 (kern three_timers)\<rparr>) = Some t \<and>
     (\<exists>xs. timers t xs \<and> distinct xs)"
proof -
  let ?s = "(etimer_process_init three_timers)\<lparr>kern := set_current 7 (kern three_timers)\<rparr>"
  have r: "etimer_reachable (\<lambda>_. 3) 5 ?s" by (intro etimer_reachable.kernel etimer_reachable.init)
  have ok: "etimer_op_ok (E_set 16 10) ?s" by (simp add: set_current_def)
  have "etimer_exec (\<lambda>_. 3) 5 (E_set 16 10) ?s \<noteq> None" using etimer_list_stays_well_formed [OF r] ok by blast
  then obtain t where t: "etimer_exec (\<lambda>_. 3) 5 (E_set 16 10) ?s = Some t" by blast
  from etimer_list_stays_well_formed [OF etimer_reachable.op [OF r ok t]] t show ?thesis by blast
qed

text \<open>when a process exits, the timer process takes exactly that process's timers off the list;
  the others stay in order, and nothing but the list's links changes.\<close>

theorem etimer_exit_frees_timers:
  assumes "timers s xs"
  shows "\<exists>h n. etimer_event clk etp PROCESS_EVENT_EXITED p s = Some (s\<lparr>timerlist := h, et_next := n\<rparr>) \<and>
    timers (s\<lparr>timerlist := h, et_next := n\<rparr>) (filter (\<lambda>x. et_p s x \<noteq> p) xs) \<and>
    (\<forall>y. y \<notin> set xs \<longrightarrow> n y = et_next s y)"
  using handle_exited_spec [OF assms, of p] by (simp add: etimer_event_def timers_def)

lemma etimer_exit_frees_timers_witness:
  "\<exists>t. etimer_event (\<lambda>_. 20) 5 PROCESS_EVENT_EXITED 7 three_timers = Some t \<and> timers t []"
proof -
  have l: "timers three_timers [16, 24, 32]" and p: "et_p three_timers = (\<lambda>_. 7)"
    by (simp_all add: timers_def three_timers_def)
  from etimer_exit_frees_timers [OF l, of "\<lambda>_. 20" 5 7] p show ?thesis by auto
qed

section \<open>Setting a timer outside every process\<close>

text \<open>The hypothesis that timers are set from within a process is needed: a timer set while there is
  no current process keeps \<open>PROCESS_NONE\<close> as its owner, is taken for a timer that is not on the list
  when it is set again, and becomes its own successor, so that the second call never returns.\<close>

lemma tdist_loop_cycle:
  assumes "n x = x" and "x \<noteq> NULL"
  shows "tdist_loop n tm now x d = None"
proof (rule ccontr)
  assume "tdist_loop n tm now x d \<noteq> None"
  then obtain y where "tdist_loop n tm now x d = Some y" by blast
  then have "\<not> (x \<noteq> NULL \<and> n x = x)"
  proof (rule tdist_loop.raw_induct [where P = "\<lambda>n tm now t d y. \<not> (t \<noteq> NULL \<and> n t = t)", rotated])
    fix f n tm now t d y
    assume ih: "\<And>n tm now t d y. f n tm now t d = Some y \<Longrightarrow> \<not> (t \<noteq> NULL \<and> n t = t)"
      and run: "(if t = NULL then Some d
        else f n tm now (n t) (if distance now (tm t) < d then distance now (tm t) else d)) = Some y"
    show "\<not> (t \<noteq> NULL \<and> n t = t)" using ih [of n tm now "n t"] run by (auto split: if_splits)
  qed
  with assms show False by simp
qed

text \<open>outside every process, setting a fresh timer succeeds but setting it a second time does
  not return.\<close>

theorem etimer_set_twice_outside_process:
  assumes "timers s xs" and "x \<noteq> NULL" and "x \<notin> set xs" and "process_current (kern s) = NULL"
  shows "\<exists>t. etimer_set clk etp x i s = Some t \<and> timers t (x # xs) \<and> etimer_expired x t \<and>
    etimer_set clk etp x j t = None"
proof -
  have c: "chain (et_next s) (timerlist s) xs" using assms(1) by (simp add: timers_def)
  let ?s = "etimer_request_poll etp (set_et_timer x (timer_set (clk (reads s)) i (et_timer s x))
    (s\<lparr>reads := Suc (reads s)\<rparr>))"
  let ?s1 = "(set_et_next x (timerlist s) (set_et_p x NULL ?s))\<lparr>timerlist := x\<rparr>"
  have "timers ?s1 (x # xs)" using c assms(2,3) by (simp add: timers_def)
  from update_time_spec [OF this, of clk] obtain t where up: "update_time clk ?s1 = Some t"
    and rt: "retimed ?s1 t" and l: "timers t (x # xs)" by blast
  have f: "et_p t x = NULL" "timerlist t = x" "process_current (kern t) = NULL"
    using retimed_fields [OF rt] assms(4) by auto
  have one: "etimer_set clk etp x i s = Some t"
    using up on_list_loop_chain [OF c, of x] assms(3,4)
    by (simp add: etimer_set_def clock_time_def add_timer_def Let_def)
  have two: "etimer_set clk etp x j t = None"
    using f assms(2)
    by (simp add: etimer_set_def clock_time_def add_timer_def Let_def update_time_def tdist_loop_cycle)
  from one two l f show ?thesis by (auto simp: etimer_expired_def)
qed

lemma etimer_set_twice_outside_process_witness:
  "\<exists>t. etimer_set (\<lambda>_. 3) 5 8 10 three_timers = Some t \<and> etimer_set (\<lambda>_. 3) 5 8 10 t = None"
proof -
  have l: "timers three_timers [16, 24, 32]" and c: "process_current (kern three_timers) = NULL"
    by (simp_all add: timers_def three_timers_def process_init_def)
  from etimer_set_twice_outside_process [OF l _ _ c, of 8 "\<lambda>_. 3" 5 10 10] show ?thesis by auto
qed

end
