(* ===== verification/Memb.thy ===== *)
theory Memb
  imports Simulation
begin

text \<open>
  Pools of memory blocks of one size, \<open>core/lib/memb.c\<close>. A pool has \<open>num\<close> blocks of \<open>bsize\<close> bytes
  from the address \<open>base\<close> on and a reference count for each. \<open>int\<close> loop counters run from 0 to
  \<open>num\<close>, an \<open>unsigned short\<close>; they stay in range for up to 32767 blocks, and are \<^typ>\<open>nat\<close> here. A \<open>char\<close> is unsigned on the 6502 targets, so the failure value \<open>-1\<close> of \<open>memb_free\<close> is 255.
\<close>

section \<open>The code\<close>

record memb =
  bsize :: nat
  num :: nat
  count :: "u8 list"
  base :: ptr
  mem :: "u8 list"

definition memb_init :: "memb \<Rightarrow> memb" where
  "memb_init m = m\<lparr>count := replicate (num m) 0, mem := replicate (bsize m * num m) 0\<rparr>"

function alloc_loop :: "memb \<Rightarrow> nat \<Rightarrow> ptr \<times> memb" where
  "alloc_loop m i =
     (if i < num m then
        if count m ! i = 0 then (base m + i * bsize m, m\<lparr>count := (count m)[i := count m ! i + 1]\<rparr>)
        else alloc_loop m (i + 1)
      else (NULL, m))"
  by pat_completeness auto
termination by (relation "measure (\<lambda>(m, i). num m - i)") auto

definition memb_alloc :: "memb \<Rightarrow> ptr \<times> memb" where
  "memb_alloc m = alloc_loop m 0"

function free_loop :: "memb \<Rightarrow> ptr \<Rightarrow> ptr \<Rightarrow> nat \<Rightarrow> u8 \<times> memb" where
  "free_loop m p ptr2 i =
     (if i < num m then
        if ptr2 = p then
          let m1 = (if count m ! i > 0 then m\<lparr>count := (count m)[i := count m ! i - 1]\<rparr> else m)
          in (count m1 ! i, m1)
        else free_loop m p (ptr2 + bsize m) (i + 1)
      else (- 1, m))"
  by pat_completeness auto
termination by (relation "measure (\<lambda>(m, p, q, i). num m - i)") auto

definition memb_free :: "memb \<Rightarrow> ptr \<Rightarrow> u8 \<times> memb" where
  "memb_free m p = free_loop m p (base m) 0"

definition memb_inmemb :: "memb \<Rightarrow> ptr \<Rightarrow> bool" where
  "memb_inmemb m p \<longleftrightarrow> base m \<le> p \<and> p < base m + num m * bsize m"

function numfree_loop :: "memb \<Rightarrow> nat \<Rightarrow> nat \<Rightarrow> nat" where
  "numfree_loop m i k =
     (if i < num m then numfree_loop m (i + 1) (if count m ! i = 0 then k + 1 else k) else k)"
  by pat_completeness auto
termination by (relation "measure (\<lambda>(m, i, k). num m - i)") auto

definition memb_numfree :: "memb \<Rightarrow> nat" where
  "memb_numfree m = numfree_loop m 0 0"

declare alloc_loop.simps [simp del] free_loop.simps [simp del] numfree_loop.simps [simp del]

section \<open>A pool as a set of used blocks\<close>

definition memb_ok :: "memb \<Rightarrow> bool" where
  "memb_ok m \<longleftrightarrow> bsize m > 0 \<and> base m > 0 \<and> length (count m) = num m \<and> (\<forall>c \<in> set (count m). c \<le> 1)"

definition used :: "memb \<Rightarrow> nat set" where
  "used m = {i. i < num m \<and> count m ! i \<noteq> 0}"

definition block :: "memb \<Rightarrow> nat \<Rightarrow> ptr" where
  "block m i = base m + i * bsize m"

definition bytes_of :: "memb \<Rightarrow> ptr \<Rightarrow> ptr set" where
  "bytes_of m p = {p ..< p + bsize m}"

definition same_pool :: "memb \<Rightarrow> memb \<Rightarrow> bool" where
  "same_pool m m' \<longleftrightarrow> bsize m' = bsize m \<and> num m' = num m \<and> base m' = base m"

lemma block_inj: "memb_ok m \<Longrightarrow> block m i = block m j \<longleftrightarrow> i = j"
  by (simp add: block_def memb_ok_def)

lemma used_bound: "used m \<subseteq> {..< num m}"
  by (auto simp: used_def)

lemma finite_used [simp]: "finite (used m)"
  by (rule finite_subset [OF used_bound]) simp

lemma alloc_loop_spec:
  "memb_ok m \<Longrightarrow> i \<le> num m \<Longrightarrow> {..< i} \<subseteq> used m \<Longrightarrow>
   (if used m = {..< num m} then alloc_loop m i = (NULL, m)
    else \<exists>j. j < num m \<and> j \<notin> used m \<and> (\<forall>k < j. k \<in> used m) \<and>
      alloc_loop m i = (block m j, m\<lparr>count := (count m)[j := 1]\<rparr>))"
proof (induction m i rule: alloc_loop.induct)
  case (1 m i)
  show ?case
  proof (cases "i < num m")
    case False
    then have "used m = {..< num m}" using 1 used_bound by (metis nat_less_le subset_antisym)
    then show ?thesis using False by (simp add: alloc_loop.simps)
  next
    case True
    show ?thesis
    proof (cases "count m ! i = 0")
      case free: True
      then have "i \<notin> used m" by (simp add: used_def)
      then have "used m \<noteq> {..< num m}" using True by blast
      moreover have "alloc_loop m i = (block m i, m\<lparr>count := (count m)[i := 1]\<rparr>)"
        using True free by (simp add: alloc_loop.simps block_def)
      moreover have "\<forall>k < i. k \<in> used m" using "1.prems"(3) by blast
      ultimately show ?thesis using True \<open>i \<notin> used m\<close> by auto
    next
      case busy: False
      then have "{..< i + 1} \<subseteq> used m" using 1 True by (auto simp: used_def less_Suc_eq)
      with 1 True busy have ih: "if used m = {..< num m} then alloc_loop m (i + 1) = (NULL, m)
        else \<exists>j. j < num m \<and> j \<notin> used m \<and> (\<forall>k < j. k \<in> used m) \<and>
          alloc_loop m (i + 1) = (block m j, m\<lparr>count := (count m)[j := 1]\<rparr>)" by simp
      have "alloc_loop m i = alloc_loop m (i + 1)"
        using True busy by (subst alloc_loop.simps) simp
      with ih show ?thesis by presburger
    qed
  qed
qed

lemma free_loop_spec:
  "memb_ok m \<Longrightarrow> j < num m \<Longrightarrow> i \<le> j \<Longrightarrow> ptr2 = block m i \<Longrightarrow>
   free_loop m (block m j) ptr2 i = (0, m\<lparr>count := (count m)[j := 0]\<rparr>)"
proof (induction m "block m j" ptr2 i rule: free_loop.induct)
  case (1 m ptr2 i)
  show ?case
  proof (cases "i = j")
    case True
    have "count m ! j \<in> set (count m)" using "1.prems" by (simp add: memb_ok_def)
    then have "count m ! j \<le> 1" using "1.prems"(1) by (simp add: memb_ok_def)
    then have "count m ! j = 0 \<or> count m ! j = 1"
      by (simp add: word_le_nat_alt word_unat_eq_iff) linarith
    moreover have "(count m)[j := 0] = count m" if "count m ! j = 0"
      using list_update_id [of "count m" j] that by simp
    moreover have "j < length (count m)" using "1.prems" by (simp add: memb_ok_def)
    ultimately show ?thesis using True "1.prems"
      by (subst free_loop.simps) (auto simp: Let_def)
  next
    case False
    with 1 block_inj [of m i j] have "ptr2 \<noteq> block m j" by auto
    moreover have "ptr2 + bsize m = block m (i + 1)" using "1.prems"(4) by (simp add: block_def)
    ultimately have "free_loop m (block m j) ptr2 i = free_loop m (block m j) (block m (i + 1)) (i + 1)"
      using "1.prems" False by (subst free_loop.simps) simp
    moreover have "free_loop m (block m j) (ptr2 + bsize m) (i + 1) = (0, m\<lparr>count := (count m)[j := 0]\<rparr>)"
      using 1 False \<open>ptr2 \<noteq> block m j\<close> \<open>ptr2 + bsize m = block m (i + 1)\<close> by simp
    ultimately show ?thesis using \<open>ptr2 + bsize m = block m (i + 1)\<close> by simp
  qed
qed

lemma free_loop_foreign:
  "(\<And>j. i \<le> j \<Longrightarrow> j < num m \<Longrightarrow> p \<noteq> block m j) \<Longrightarrow> ptr2 = block m i \<Longrightarrow>
   free_loop m p ptr2 i = (255, m)"
proof (induction m p ptr2 i rule: free_loop.induct)
  case (1 m p ptr2 i)
  show ?case
  proof (cases "i < num m")
    case True
    with "1.prems" have "ptr2 \<noteq> p" by auto
    moreover have "ptr2 + bsize m = block m (i + 1)" using "1.prems"(2) by (simp add: block_def)
    ultimately have "free_loop m p ptr2 i = free_loop m p (ptr2 + bsize m) (i + 1)"
      using True by (subst free_loop.simps) simp
    moreover have "free_loop m p (ptr2 + bsize m) (i + 1) = (255, m)"
      using 1 True \<open>ptr2 \<noteq> p\<close> \<open>ptr2 + bsize m = block m (i + 1)\<close> by simp
    ultimately show ?thesis by simp
  next
    case False
    then show ?thesis by (simp add: free_loop.simps)
  qed
qed

lemma numfree_loop_spec:
  "numfree_loop m i k = k + card {j. i \<le> j \<and> j < num m \<and> count m ! j = 0}"
proof (induction m i k rule: numfree_loop.induct)
  case (1 m i k)
  show ?case
  proof (cases "i < num m")
    case True
    let ?A = "\<lambda>i. {j. i \<le> j \<and> j < num m \<and> count m ! j = 0}"
    have "?A i = (if count m ! i = 0 then insert i (?A (i + 1)) else ?A (i + 1))"
      using True by (auto simp: le_Suc_eq) (metis Suc_leI le_neq_implies_less)+
    moreover have "finite (?A (i + 1))" by simp
    ultimately have "card (?A i) = card (?A (i + 1)) + (if count m ! i = 0 then 1 else 0)" by simp
    with 1 True show ?thesis by (subst numfree_loop.simps) simp
  next
    case False
    then show ?thesis by (simp add: numfree_loop.simps)
  qed
qed

lemma memb_numfree_spec: "memb_numfree m = num m - card (used m)"
proof -
  have "{j. 0 \<le> j \<and> j < num m \<and> count m ! j = 0} = {..< num m} - used m" by (auto simp: used_def)
  then show ?thesis
    using card_Diff_subset [OF finite_used used_bound, of m]
    by (simp add: memb_numfree_def numfree_loop_spec)
qed

lemma used_upd:
  "memb_ok m \<Longrightarrow> j < num m \<Longrightarrow>
   used (m\<lparr>count := (count m)[j := c]\<rparr>) = (if c = 0 then used m - {j} else insert j (used m))"
  by (auto simp: used_def memb_ok_def nth_list_update)

lemma memb_ok_upd: "memb_ok m \<Longrightarrow> c \<le> 1 \<Longrightarrow> memb_ok (m\<lparr>count := (count m)[j := c]\<rparr>)"
  by (auto simp: memb_ok_def dest!: set_update_subset_insert [THEN subsetD])

lemma memb_init_ok: "bsize m > 0 \<Longrightarrow> base m > 0 \<Longrightarrow> memb_ok (memb_init m) \<and> used (memb_init m) = {}"
  by (auto simp: memb_ok_def memb_init_def used_def)

lemma memb_alloc_spec:
  assumes "memb_ok m"
  shows "if used m = {..< num m} then memb_alloc m = (NULL, m)
    else \<exists>j. j < num m \<and> j \<notin> used m \<and> (\<forall>k < j. k \<in> used m) \<and>
      memb_alloc m = (block m j, m\<lparr>count := (count m)[j := 1]\<rparr>)"
  using alloc_loop_spec [OF assms, of 0] by (simp add: memb_alloc_def)

lemma memb_free_spec:
  "memb_ok m \<Longrightarrow> j < num m \<Longrightarrow> memb_free m (block m j) = (0, m\<lparr>count := (count m)[j := 0]\<rparr>)"
  using free_loop_spec [of m j 0 "base m"] by (simp add: memb_free_def block_def)

lemma block_bounds: "i < num m \<Longrightarrow> bytes_of m (block m i) \<subseteq> {base m ..< base m + num m * bsize m}"
proof
  fix a assume "i < num m" and a: "a \<in> bytes_of m (block m i)"
  then have "(i + 1) * bsize m \<le> num m * bsize m" by (intro mult_right_mono) auto
  with a show "a \<in> {base m ..< base m + num m * bsize m}" by (simp add: bytes_of_def block_def)
qed

lemma block_less_disjoint: "i < j \<Longrightarrow> bytes_of m (block m i) \<inter> bytes_of m (block m j) = {}"
proof -
  assume "i < j"
  then have "(i + 1) * bsize m \<le> j * bsize m" by (intro mult_right_mono) auto
  then show ?thesis by (auto simp: bytes_of_def block_def)
qed

lemma block_disjoint: "i \<noteq> j \<Longrightarrow> bytes_of m (block m i) \<inter> bytes_of m (block m j) = {}"
  using block_less_disjoint [of i j m] block_less_disjoint [of j i m] by (cases i j rule: linorder_cases) auto

section \<open>A client that allocates and frees\<close>

text \<open>The client keeps the pointers it was given and frees the \<open>k\<close>-th of them.\<close>

datatype pool_op = P_alloc | P_free nat

definition remove_nth :: "nat \<Rightarrow> 'e list \<Rightarrow> 'e list" where
  "remove_nth k xs = take k xs @ drop (Suc k) xs"

fun pool_step :: "pool_op \<Rightarrow> memb \<times> ptr list \<Rightarrow> (memb \<times> ptr list) option" where
  "pool_step P_alloc (m, live) =
     (case memb_alloc m of (p, m') \<Rightarrow> Some (m', if p = NULL then live else live @ [p]))"
| "pool_step (P_free k) (m, live) =
     (if k < length live then Some (snd (memb_free m (live ! k)), remove_nth k live)
      else Some (m, live))"

fun pool_count :: "nat \<Rightarrow> pool_op \<Rightarrow> nat \<Rightarrow> nat" where
  "pool_count n P_alloc a = min n (a + 1)"
| "pool_count n (P_free k) a = (if k < a then a - 1 else a)"

definition pool_repr :: "memb \<Rightarrow> memb \<times> ptr list \<Rightarrow> nat \<Rightarrow> bool" where
  "pool_repr m0 s a \<longleftrightarrow>
     memb_ok (fst s) \<and> same_pool m0 (fst s) \<and> length (snd s) = a \<and> distinct (snd s) \<and>
     set (snd s) = block (fst s) ` used (fst s)"

lemma block_image_card: "memb_ok m \<Longrightarrow> card (block m ` A) = card A"
  by (intro card_image inj_onI) (simp add: block_inj)

lemma pool_repr_card: "pool_repr m0 (m, live) a \<Longrightarrow> card (used m) = a"
  using distinct_card [of live] block_image_card [of m "used m"] by (simp add: pool_repr_def)

lemma same_pool_upd [simp]: "same_pool m0 (m\<lparr>count := c\<rparr>) \<longleftrightarrow> same_pool m0 m"
  by (simp add: same_pool_def)

lemma block_upd [simp]: "block (m\<lparr>count := c\<rparr>) = block m"
  by (simp add: block_def fun_eq_iff)

lemma remove_nth_set:
  assumes "distinct xs" and "k < length xs"
  shows "set (remove_nth k xs) = set xs - {xs ! k} \<and> distinct (remove_nth k xs) \<and>
    length (remove_nth k xs) = length xs - 1"
proof -
  from assms have xs: "xs = take k xs @ xs ! k # drop (Suc k) xs" by (simp add: id_take_nth_drop)
  with assms(1) have "distinct (take k xs @ xs ! k # drop (Suc k) xs)" by metis
  then have d: "distinct (take k xs)" "distinct (drop (Suc k) xs)"
    "set (take k xs) \<inter> set (drop (Suc k) xs) = {}" "xs ! k \<notin> set (take k xs)"
    "xs ! k \<notin> set (drop (Suc k) xs)" by auto
  have "set xs = insert (xs ! k) (set (take k xs) \<union> set (drop (Suc k) xs))"
    by (subst xs) auto
  with d assms show ?thesis by (auto simp: remove_nth_def)
qed

lemma pool_alloc_repr:
  assumes "pool_repr m0 (m, live) a"
  shows "\<exists>t. pool_step P_alloc (m, live) = Some t \<and> pool_repr m0 t (pool_count (num m0) P_alloc a)"
proof -
  have ok: "memb_ok m" and n: "num m = num m0" using assms by (auto simp: pool_repr_def same_pool_def)
  have c: "card (used m) = a" using assms by (rule pool_repr_card)
  show ?thesis
  proof (cases "used m = {..< num m}")
    case True
    then have "a = num m0" using c n by simp
    with True memb_alloc_spec [OF ok] assms show ?thesis by simp
  next
    case False
    with memb_alloc_spec [OF ok] obtain j where j: "j < num m" "j \<notin> used m"
      and run: "memb_alloc m = (block m j, m\<lparr>count := (count m)[j := 1]\<rparr>)" by auto
    have "used m \<subset> {..< num m}" using False used_bound by blast
    then have "a < num m0" using c n psubset_card_mono [of "{..< num m}" "used m"] by simp
    moreover have nz: "block m j \<noteq> NULL" using ok by (simp add: block_def memb_ok_def)
    moreover have "block m j \<notin> set live" using j(2) assms block_inj [OF ok] by (auto simp: pool_repr_def)
    ultimately show ?thesis using run assms j ok used_upd [OF ok j(1), of 1] memb_ok_upd [OF ok, of 1 j]
      by (simp add: pool_repr_def)
  qed
qed

lemma pool_free_repr:
  assumes "pool_repr m0 (m, live) a"
  shows "\<exists>t. pool_step (P_free k) (m, live) = Some t \<and> pool_repr m0 t (pool_count (num m0) (P_free k) a)"
proof (cases "k < length live")
  case True
  have ok: "memb_ok m" and d: "distinct live" and s: "set live = block m ` used m" and l: "length live = a"
    using assms by (auto simp: pool_repr_def)
  from True s nth_mem obtain j where j: "j \<in> used m" "live ! k = block m j" by blast
  then have jn: "j < num m" using used_bound by blast
  have "block m ` (used m - {j}) = set live - {live ! k}"
    using j s block_inj [OF ok] by auto
  with True j memb_free_spec [OF ok jn] remove_nth_set [OF d True] assms l
    used_upd [OF ok jn, of 0] memb_ok_upd [OF ok, of 0 j]
  show ?thesis by (simp add: pool_repr_def)
next
  case False
  with assms show ?thesis by (simp add: pool_repr_def)
qed

interpretation pool: partial_simulation pool_step "pool_count (num m0)" "\<lambda>_ _. True" "pool_repr m0" for m0
proof
  fix s :: "memb \<times> ptr list" and a x
  assume "pool_repr m0 s a"
  then show "\<exists>t. pool_step x s = Some t \<and> pool_repr m0 t (pool_count (num m0) x a)"
    using pool_alloc_repr [of m0 "fst s" "snd s" a] pool_free_repr [of m0 "fst s" "snd s" a]
    by (cases x) simp_all
qed

text \<open>C31: from an initialised pool, after any sequence of allocations and frees of blocks it was
  given, a client holds distinct blocks that lie inside the pool and share no byte, and the number
  of free blocks the pool reports is what is left; an allocation fails only when none is left.\<close>

theorem pool_blocks_disjoint:
  assumes "bsize m > 0" and "base m > 0"
  shows "\<exists>m' live. run_ops pool_step ops (memb_init m, []) = Some (m', live) \<and>
    length live = fold (pool_count (num m)) ops 0 \<and> distinct live \<and>
    memb_numfree m' + length live = num m \<and>
    (\<forall>p \<in> set live. memb_inmemb m' p \<and> bytes_of m' p \<subseteq> {base m ..< base m + num m * bsize m}) \<and>
    (\<forall>p \<in> set live. \<forall>q \<in> set live. p \<noteq> q \<longrightarrow> bytes_of m' p \<inter> bytes_of m' q = {}) \<and>
    (fst (memb_alloc m') = NULL \<longleftrightarrow> length live = num m)"
proof -
  have init: "pool_repr m (memb_init m, []) 0"
    using memb_init_ok [OF assms] by (simp add: pool_repr_def same_pool_def) (simp add: memb_init_def)
  have "ops_allowed (\<lambda>_ _. True) (pool_count (num m)) ops 0" by (rule ops_allowed_True) simp
  from pool.run_simulates [OF init this] obtain m' live where
    run: "run_ops pool_step ops (memb_init m, []) = Some (m', live)"
    and r: "pool_repr m (m', live) (fold (pool_count (num m)) ops 0)" by auto
  have ok: "memb_ok m'" and same: "num m' = num m" "base m' = base m" "bsize m' = bsize m"
    and live: "set live = block m' ` used m'" "distinct live" "length live = fold (pool_count (num m)) ops 0"
    using r by (auto simp: pool_repr_def same_pool_def)
  have c: "card (used m') = length live" using pool_repr_card [OF r] live by simp
  have le: "card (used m') \<le> num m" using card_mono [OF _ used_bound [of m']] same by simp
  have full: "used m' = {..< num m} \<longleftrightarrow> length live = num m"
  proof
    assume "length live = num m"
    then have "card (used m') = card {..< num m'}" using c same by simp
    from card_subset_eq [OF _ used_bound this] same show "used m' = {..< num m}" by simp
  qed (use c in simp)
  have "fst (memb_alloc m') = NULL \<longleftrightarrow> used m' = {..< num m'}"
  proof (cases "used m' = {..< num m'}")
    case False
    from memb_alloc_spec [OF ok, unfolded if_not_P [OF False]] obtain j
      where "fst (memb_alloc m') = block m' j" by fastforce
    then show ?thesis using False ok by (simp add: block_def memb_ok_def)
  qed (use memb_alloc_spec [OF ok] in simp)
  with full same have null: "fst (memb_alloc m') = NULL \<longleftrightarrow> length live = num m" by simp
  have bounds: "memb_inmemb m' p \<and> bytes_of m' p \<subseteq> {base m ..< base m + num m * bsize m}"
    if p: "p \<in> set live" for p
  proof -
    from p live obtain j where j: "p = block m' j" "j < num m'" using used_bound by blast
    from block_bounds [OF j(2)] have sub: "bytes_of m' p \<subseteq> {base m ..< base m + num m * bsize m}"
      using j same by simp
    moreover have "p \<in> bytes_of m' p" using ok by (simp add: bytes_of_def memb_ok_def)
    ultimately have "p \<in> {base m ..< base m + num m * bsize m}" by (rule subsetD)
    with sub show ?thesis using same by (simp add: memb_inmemb_def)
  qed
  have "bytes_of m' p \<inter> bytes_of m' q = {}" if pq: "p \<in> set live" "q \<in> set live" "p \<noteq> q" for p q
  proof -
    from pq live(1) obtain i j where "p = block m' i" "q = block m' j" by blast
    with pq(3) block_disjoint [of i j m'] show ?thesis by blast
  qed
  moreover have "memb_numfree m' + length live = num m"
    using le c memb_numfree_spec [of m'] same by simp
  ultimately show ?thesis using run live(2,3) bounds null
    by (intro exI [of _ m'] exI [of _ live] conjI ballI impI) auto
qed

lemma pool_blocks_disjoint_witness:
  "\<exists>m' live. run_ops pool_step [P_alloc, P_alloc, P_free 0, P_alloc]
     (memb_init \<lparr>bsize = 10, num = 2, count = [], base = 512, mem = []\<rparr>, []) = Some (m', live) \<and>
     length live = 2 \<and> fst (memb_alloc m') = NULL"
proof -
  let ?m = "\<lparr>bsize = 10, num = 2, count = [], base = 512, mem = []\<rparr>"
  have "bsize ?m > 0" and "base ?m > 0" by simp_all
  from pool_blocks_disjoint [OF this, of "[P_alloc, P_alloc, P_free 0, P_alloc]"] show ?thesis by auto
qed

text \<open>freeing a pointer that is no block of the pool reports failure and changes nothing, and
  freeing a block twice leaves it free once.\<close>

theorem memb_free_robust:
  assumes "memb_ok m"
  shows "((\<forall>j < num m. p \<noteq> block m j) \<longrightarrow> memb_free m p = (255, m)) \<and>
    (\<forall>j < num m. memb_free (snd (memb_free m (block m j))) (block m j) = memb_free m (block m j))"
proof (intro conjI impI allI)
  assume "\<forall>j < num m. p \<noteq> block m j"
  then show "memb_free m p = (255, m)"
    unfolding memb_free_def by (intro free_loop_foreign) (auto simp: block_def)
next
  fix j assume j: "j < num m"
  then show "memb_free (snd (memb_free m (block m j))) (block m j) = memb_free m (block m j)"
    using memb_free_spec [OF assms j] memb_free_spec [OF memb_ok_upd [OF assms, of 0 j], of j]
    by simp
qed

lemma memb_free_robust_witness:
  "memb_free (memb_init \<lparr>bsize = 10, num = 2, count = [], base = 512, mem = []\<rparr>) 515 =
     (255, memb_init \<lparr>bsize = 10, num = 2, count = [], base = 512, mem = []\<rparr>)"
proof -
  let ?m = "memb_init \<lparr>bsize = 10, num = 2, count = [], base = 512, mem = []\<rparr>"
  have "memb_ok ?m" by (rule memb_init_ok [THEN conjunct1]) simp_all
  from memb_free_robust [OF this, of 515] show ?thesis
    by (auto simp: block_def memb_init_def less_Suc_eq numeral_2_eq_2)
qed

section \<open>Blocks and their owners\<close>

text \<open>\<open>owned m f W\<close>: the blocks in use are those that the owners in \<open>W\<close> hold, each one its own, \<open>f\<close>.\<close>

definition owned :: "memb \<Rightarrow> ('o \<Rightarrow> ptr) \<Rightarrow> 'o set \<Rightarrow> bool" where
  "owned m f W \<longleftrightarrow> memb_ok m \<and> inj_on f W \<and> f ` W = block m ` used m"

lemma owned_cong: "(\<And>x. x \<in> W \<Longrightarrow> f x = g x) \<Longrightarrow> owned m f W \<longleftrightarrow> owned m g W"
  by (simp add: owned_def cong: inj_on_cong)

lemma owned_init: "bsize m > 0 \<Longrightarrow> base m > 0 \<Longrightarrow> owned (memb_init m) f {}"
  using memb_init_ok [of m] by (simp add: owned_def)

lemma owned_card:
  assumes "owned m f W"
  shows "card W = card (used m)" and "finite W" and "card W \<le> num m"
proof -
  have m: "memb_ok m" "inj_on f W" "f ` W = block m ` used m" using assms by (simp_all add: owned_def)
  show c: "card W = card (used m)" using card_image [OF m(2)] block_image_card [OF m(1)] m(3) by simp
  show "finite W" using m(2,3) by (metis finite_used finite_imageD finite_imageI)
  show "card W \<le> num m" using card_mono [OF _ used_bound [of m]] c by simp
qed

lemma owned_in:
  assumes "owned m f W" and "x \<in> W"
  obtains j where "j < num m" "j \<in> used m" "f x = block m j"
proof -
  have "f x \<in> block m ` used m" using assms by (auto simp: owned_def)
  then show thesis using that used_bound [of m] by auto
qed

lemma owned_nonNULL: "owned m f W \<Longrightarrow> x \<in> W \<Longrightarrow> f x \<noteq> NULL"
proof -
  assume "owned m f W" "x \<in> W"
  then obtain j where "f x = block m j" by (rule owned_in)
  then show ?thesis using \<open>owned m f W\<close> by (simp add: owned_def memb_ok_def block_def)
qed

lemma owned_inmemb: "owned m f W \<Longrightarrow> x \<in> W \<Longrightarrow> memb_inmemb m (f x)"
proof -
  assume o: "owned m f W" "x \<in> W"
  then obtain j where j: "j < num m" "f x = block m j" by (rule owned_in)
  then have "(j + 1) * bsize m \<le> num m * bsize m" by (intro mult_right_mono) auto
  then show ?thesis using j o(1) by (simp add: owned_def memb_ok_def memb_inmemb_def block_def)
qed

lemma owned_full:
  assumes "owned m f W" and "\<not> card W < num m"
  shows "memb_alloc m = (NULL, m)"
proof -
  have "used m = {..< num m}" using used_bound [of m] owned_card(1) [OF assms(1)] assms(2) by (intro card_seteq) simp_all
  moreover have "memb_ok m" using assms(1) by (simp add: owned_def)
  ultimately show ?thesis by (metis memb_alloc_spec)
qed

lemma owned_alloc:
  assumes "owned m f W" and "card W < num m" and "w \<notin> W"
  obtains p m' where "memb_alloc m = (p, m')" "p \<noteq> NULL" "p \<notin> f ` W" "same_pool m m'"
    "\<And>g. (\<And>x. x \<in> W \<Longrightarrow> g x = f x) \<Longrightarrow> g w = p \<Longrightarrow> owned m' g (insert w W)"
proof -
  have m: "memb_ok m" "inj_on f W" "f ` W = block m ` used m" using assms by (simp_all add: owned_def)
  have nf: "used m \<noteq> {..< num m}"
  proof
    assume "used m = {..< num m}"
    then show False using owned_card(1) [OF assms(1)] assms(2) by simp
  qed
  from memb_alloc_spec [OF m(1), unfolded if_not_P [OF nf]] obtain j where j: "j < num m" "j \<notin> used m"
    "memb_alloc m = (block m j, m\<lparr>count := (count m)[j := 1]\<rparr>)" by blast
  let ?m = "m\<lparr>count := (count m)[j := 1]\<rparr>"
  have u: "memb_ok ?m" "used ?m = insert j (used m)"
    using memb_ok_upd [OF m(1), of 1 j] used_upd [OF m(1) j(1), of 1] by simp_all
  have n: "block m j \<notin> f ` W" unfolding m(3) using j(2) block_inj [OF m(1)] by auto
  have "owned ?m g (insert w W)" if g: "\<And>x. x \<in> W \<Longrightarrow> g x = f x" "g w = block m j" for g
  proof -
    have gf: "g ` W = f ` W" using g(1) by (rule image_cong [OF refl])
    have "inj_on g W" using m(2) g(1) by (simp add: inj_on_def)
    then have "inj_on g (insert w W)" using assms(3) n g(2) gf by (simp add: inj_on_insert)
    then show ?thesis using u m(3) gf g(2) by (simp add: owned_def)
  qed
  then show thesis using j n m(1) by (intro that [of "block m j" ?m]) (simp_all add: block_def memb_ok_def same_pool_def)
qed

lemma owned_free:
  assumes "owned m f W" and "w \<in> W"
  obtains m' where "memb_free m (f w) = (0, m')" "owned m' f (W - {w})" "same_pool m m'"
proof -
  have m: "memb_ok m" "inj_on f W" "f ` W = block m ` used m" using assms by (simp_all add: owned_def)
  obtain j where j: "j < num m" "j \<in> used m" "f w = block m j" using assms by (rule owned_in)
  let ?m = "m\<lparr>count := (count m)[j := 0]\<rparr>"
  have "memb_ok ?m" "used ?m = used m - {j}"
    using memb_ok_upd [OF m(1), of 0 j] used_upd [OF m(1) j(1), of 0] by simp_all
  moreover have "f ` (W - {w}) = block m ` (used m - {j})"
  proof -
    have "f ` (W - {w}) = f ` W - {f w}" using m(2) assms(2) inj_on_image_set_diff [of f W W "{w}"] by auto
    also have "\<dots> = block m ` (used m - {j})" unfolding m(3) j(3) using block_inj [OF m(1)] by auto
    finally show ?thesis .
  qed
  ultimately have "owned ?m f (W - {w})" using m(2) by (simp add: owned_def inj_on_diff)
  then show thesis using memb_free_spec [OF m(1) j(1)] j(3) by (intro that [of ?m]) (simp_all add: same_pool_def)
qed

lemma same_pool_refl [simp]: "same_pool m m"
  by (simp add: same_pool_def)

lemma same_pool_inmemb: "same_pool m m' \<Longrightarrow> memb_inmemb m' p = memb_inmemb m p"
  by (simp add: same_pool_def memb_inmemb_def)

text \<open>Blocks that own themselves.\<close>

lemma owned_self: "owned m f W \<Longrightarrow> owned m id (f ` W)"
  by (simp add: owned_def)

lemma owned_alloc_self:
  assumes "owned m id W" and "card W < num m"
  obtains p m' where "memb_alloc m = (p, m')" "p \<noteq> NULL" "p \<notin> W" "same_pool m m'" "owned m' id (insert p W)"
proof -
  obtain w where w: "w \<notin> W" using ex_new_if_finite [OF _ owned_card(2) [OF assms(1)]] by auto
  obtain p m' where p: "memb_alloc m = (p, m')" "p \<noteq> NULL" "p \<notin> id ` W" "same_pool m m'"
    "\<And>g. (\<And>x. x \<in> W \<Longrightarrow> g x = id x) \<Longrightarrow> g w = p \<Longrightarrow> owned m' g (insert w W)"
    using owned_alloc [OF assms w] by metis
  have "owned m' (id(w := p)) (insert w W)" using w by (intro p(5)) auto
  moreover have "(id(w := p)) ` insert w W = insert p W" using w by auto
  ultimately have "owned m' id (insert p W)" using owned_self by metis
  then show thesis using p by (intro that) auto
qed

lemma owned_free_self:
  assumes "owned m id W" and "w \<in> W"
  obtains m' where "memb_free m w = (0, m')" "owned m' id (W - {w})" "same_pool m m'"
proof -
  obtain m' where "memb_free m (id w) = (0, m')" "owned m' id (W - {w})" "same_pool m m'"
    using assms by (rule owned_free)
  then show thesis by (intro that) auto
qed

lemma owned_block: "owned m f W \<Longrightarrow> x \<in> W \<Longrightarrow> f x \<in> block m ` {..< num m}"
  by (erule (1) owned_in) auto

end
