(* ===== verification/Mmem.thy ===== *)
theory Mmem
  imports Clist
begin

text \<open>
  The managed memory allocator, \<open>core/lib/mmem.c\<close>: blocks are packed at the start of one array and
  compacted when one is freed. A block's descriptor is an element of a list of the list library,
  extended with the block's size (16-bit \<open>unsigned int\<close>) and its pointer, an offset into the array.
  A pointer or a copy that would leave the array has no meaning in C; there the model gives
  \<open>None\<close>.
\<close>

section \<open>The code\<close>

record mmems = lstore +
  msize :: "ptr \<Rightarrow> u16"
  mptr :: "ptr \<Rightarrow> nat"
  avail_memory :: u16
  memory :: "u8 list"
  inited :: bool

definition MMEM_SIZE :: u16 where "MMEM_SIZE = 4096"

definition mmemlist :: ptr where "mmemlist = 1"

definition mmem_init :: "mmems \<Rightarrow> mmems" where
  "mmem_init s =
     (if inited s then s
      else (list_init mmemlist s)\<lparr>avail_memory := MMEM_SIZE, inited := True\<rparr>)"

definition mmem_alloc :: "ptr \<Rightarrow> u16 \<Rightarrow> mmems \<Rightarrow> (int \<times> mmems) option" where
  "mmem_alloc m size' s =
     (if avail_memory s < size' then Some (0, s)
      else do {
        s1 \<leftarrow> list_add mmemlist m s;
        let s2 = s1\<lparr>mptr := (mptr s1)(m := unat (MMEM_SIZE - avail_memory s1))\<rparr>;
        let s3 = s2\<lparr>msize := (msize s2)(m := size')\<rparr>;
        Some (1, s3\<lparr>avail_memory := avail_memory s3 - size'\<rparr>)
      })"

definition memmove :: "nat \<Rightarrow> nat \<Rightarrow> nat \<Rightarrow> u8 list \<Rightarrow> u8 list option" where
  "memmove d s n bs =
     (if d + n \<le> length bs \<and> s + n \<le> length bs
      then Some (take d bs @ take n (drop s bs) @ drop (d + n) bs) else None)"

partial_function (option) shift_loop :: "ptr \<Rightarrow> ptr \<Rightarrow> mmems \<Rightarrow> mmems option" where
  "shift_loop m n s =
     (if n = NULL then Some s
      else if mptr s n < unat (msize s m) then None
      else shift_loop m (nxt s n) (s\<lparr>mptr := (mptr s)(n := mptr s n - unat (msize s m))\<rparr>))"

definition mmem_free :: "ptr \<Rightarrow> mmems \<Rightarrow> mmems option" where
  "mmem_free m s = do {
     s1 \<leftarrow> (if nxt s m \<noteq> NULL then
               if unat (MMEM_SIZE - avail_memory s) < mptr s (nxt s m) then None
               else do {
                 bs \<leftarrow> memmove (mptr s m) (mptr s (nxt s m))
                        (unat (MMEM_SIZE - avail_memory s) - mptr s (nxt s m)) (memory s);
                 shift_loop m (nxt s m) (s\<lparr>memory := bs\<rparr>)
               }
             else Some s);
     list_remove mmemlist m (s1\<lparr>avail_memory := avail_memory s1 + msize s1 m\<rparr>)
   }"

text \<open>Access to a block through \<open>MMEM_PTR\<close>.\<close>

definition mmem_write :: "ptr \<Rightarrow> nat \<Rightarrow> u8 \<Rightarrow> mmems \<Rightarrow> mmems" where
  "mmem_write m i b s = s\<lparr>memory := (memory s)[mptr s m + i := b]\<rparr>"

definition mmem_read :: "ptr \<Rightarrow> nat \<Rightarrow> mmems \<Rightarrow> u8" where
  "mmem_read m i s = memory s ! (mptr s m + i)"

section \<open>The layout of the array\<close>

fun packed :: "(ptr \<Rightarrow> nat) \<Rightarrow> (ptr \<Rightarrow> nat) \<Rightarrow> nat \<Rightarrow> ptr list \<Rightarrow> bool" where
  "packed p z a [] \<longleftrightarrow> True"
| "packed p z a (x # xs) \<longleftrightarrow> p x = a \<and> packed p z (a + z x) xs"

abbreviation sizes :: "mmems \<Rightarrow> ptr \<Rightarrow> nat" where
  "sizes s x \<equiv> unat (msize s x)"

definition mmem_ok :: "mmems \<Rightarrow> ptr list \<Rightarrow> bool" where
  "mmem_ok s xs \<longleftrightarrow>
     is_list s mmemlist xs \<and> packed (mptr s) (sizes s) 0 xs \<and>
     sum_list (map (sizes s) xs) + unat (avail_memory s) = 4096 \<and> length (memory s) = 4096"

lemma packed_append:
  "packed p z a (xs @ ys) \<longleftrightarrow> packed p z a xs \<and> packed p z (a + sum_list (map z xs)) ys"
  by (induction xs arbitrary: a) (auto simp: add.assoc)

lemma packed_cong:
  "(\<And>x. x \<in> set xs \<Longrightarrow> p x = q x \<and> z x = w x) \<Longrightarrow> packed p z a xs \<longleftrightarrow> packed q w a xs"
  by (induction xs arbitrary: a) auto

lemma packed_shift:
  "packed p z (a + k) xs \<Longrightarrow> (\<And>x. x \<in> set xs \<Longrightarrow> q x = p x - k) \<Longrightarrow> packed q z a xs"
proof (induction xs arbitrary: a)
  case (Cons x xs)
  have "packed p z ((a + z x) + k) xs" using Cons.prems(1) by (simp add: add.commute add.left_commute)
  then have "packed q z (a + z x) xs" using Cons by simp
  then show ?case using Cons.prems by simp
qed simp

lemma packed_bounds:
  "packed p z a xs \<Longrightarrow> x \<in> set xs \<Longrightarrow> a \<le> p x \<and> p x + z x \<le> a + sum_list (map z xs)"
proof (induction xs arbitrary: a)
  case (Cons y ys)
  then show ?case by (cases "x = y") force+
qed simp

text \<open>Two packed blocks do not overlap.\<close>

lemma packed_disjoint:
  "packed p z a xs \<Longrightarrow> distinct xs \<Longrightarrow> x \<in> set xs \<Longrightarrow> y \<in> set xs \<Longrightarrow> x \<noteq> y \<Longrightarrow>
   p x + z x \<le> p y \<or> p y + z y \<le> p x"
proof (induction xs arbitrary: a)
  case (Cons w ws)
  then show ?case using packed_bounds [of p z "a + z w" ws] by (cases "x = w"; cases "y = w") force+
qed simp

lemma more_fields:
  "lstore.more t = lstore.more s \<Longrightarrow> msize t = msize s \<and> mptr t = mptr s \<and>
     avail_memory t = avail_memory s \<and> memory t = memory s \<and> inited t = inited (s :: mmems)"
  by (cases s; cases t) simp

lemma shift_loop_chain:
  "chain (nxt s) n xs \<Longrightarrow> distinct xs \<Longrightarrow> m \<notin> set xs \<Longrightarrow> (\<And>x. x \<in> set xs \<Longrightarrow> sizes s m \<le> mptr s x) \<Longrightarrow>
   shift_loop m n s = Some (s\<lparr>mptr := (\<lambda>x. if x \<in> set xs then mptr s x - sizes s m else mptr s x)\<rparr>)"
proof (induction xs arbitrary: n s)
  case Nil
  then show ?case by (subst shift_loop.simps) simp
next
  case (Cons x xs)
  let ?s = "s\<lparr>mptr := (mptr s)(x := mptr s x - sizes s m)\<rparr>"
  have n: "n = x" "x \<noteq> NULL" "chain (nxt ?s) (nxt s x) xs" using Cons.prems(1) by auto
  have "\<And>y. y \<in> set xs \<Longrightarrow> sizes ?s m \<le> mptr ?s y" using Cons.prems by auto
  with Cons.IH [OF n(3)] Cons.prems have
    "shift_loop m (nxt s x) ?s =
       Some (?s\<lparr>mptr := (\<lambda>y. if y \<in> set xs then mptr ?s y - sizes ?s m else mptr ?s y)\<rparr>)" by auto
  moreover have "shift_loop m n s = shift_loop m (nxt s x) ?s"
    using n Cons.prems(4) [of x] by (subst shift_loop.simps) simp
  moreover have "(\<lambda>y. if y \<in> set xs then mptr ?s y - sizes ?s m else mptr ?s y) =
    (\<lambda>y. if y \<in> set (x # xs) then mptr s y - sizes s m else mptr s y)"
    using Cons.prems(2) by (auto simp: fun_eq_iff)
  ultimately show ?case by simp
qed

lemma mmem_init_ok: "length (memory s) = 4096 \<Longrightarrow> \<not> inited s \<Longrightarrow> mmem_ok (mmem_init s) []"
  by (simp add: mmem_ok_def mmem_init_def list_init_def is_list_def set_head_def MMEM_SIZE_def)

lemma mmem_alloc_spec:
  assumes ok: "mmem_ok s xs" and "m \<noteq> NULL" and "m \<notin> set xs" and "n \<le> avail_memory s"
  shows "\<exists>t. mmem_alloc m n s = Some (1, t) \<and> mmem_ok t (xs @ [m]) \<and> memory t = memory s \<and>
    msize t = (msize s)(m := n) \<and> (\<forall>x \<in> set xs. mptr t x = mptr s x)"
proof -
  from ok have l: "is_list s mmemlist xs" and sum: "sum_list (map (sizes s) xs) + unat (avail_memory s) = 4096"
    by (auto simp: mmem_ok_def)
  from list_add_spec [OF l assms(2)] remove1_idem [OF assms(3)] obtain s1 where
    s1: "list_add mmemlist m s = Some s1" and l1: "is_list s1 mmemlist (xs @ [m])"
    and f1: "list_frame mmemlist (insert m (set xs)) s s1" by auto
  have f: "msize s1 = msize s" "mptr s1 = mptr s" "avail_memory s1 = avail_memory s" "memory s1 = memory s"
    using more_fields [of s1 s] f1 by (auto simp: list_frame_def)
  let ?t = "s1\<lparr>mptr := (mptr s)(m := unat (MMEM_SIZE - avail_memory s)), msize := (msize s)(m := n),
    avail_memory := avail_memory s - n\<rparr>"
  have run: "mmem_alloc m n s = Some (1, ?t)"
    using assms(4) s1 f by (simp add: mmem_alloc_def Let_def not_less)
  have av: "avail_memory s \<le> MMEM_SIZE" using sum by (simp add: MMEM_SIZE_def word_le_nat_alt)
  have off: "unat (MMEM_SIZE - avail_memory s) = sum_list (map (sizes s) xs)"
    using sum av by (simp add: unat_sub MMEM_SIZE_def)
  have "map (sizes ?t) xs = map (sizes s) xs" using assms(3) by auto
  then have same: "sum_list (map (sizes ?t) xs) = sum_list (map (sizes s) xs)" by (rule arg_cong)
  have "packed (mptr ?t) (sizes ?t) 0 xs \<longleftrightarrow> packed (mptr s) (sizes s) 0 xs"
    by (rule packed_cong) (use assms(3) in auto)
  then have "packed (mptr ?t) (sizes ?t) 0 xs" using ok by (simp add: mmem_ok_def)
  moreover have "unat (avail_memory s - n) = unat (avail_memory s) - unat n"
    using assms(4) by (simp add: unat_sub)
  ultimately have "mmem_ok ?t (xs @ [m])"
    using ok l1 sum off same assms(4) f
    by (simp add: mmem_ok_def packed_append is_list_def word_le_nat_alt)
  with run f assms(3) show ?thesis by auto
qed

text \<open>Moving a region down leaves what is below it in place and shifts what was in it.\<close>

lemma memmove_down:
  assumes "d \<le> s" and "s + n \<le> length bs"
  shows "\<exists>cs. memmove d s n bs = Some cs \<and> length cs = length bs \<and> (\<forall>i < d. cs ! i = bs ! i) \<and>
    (\<forall>i. s \<le> i \<and> i < s + n \<longrightarrow> cs ! (i - (s - d)) = bs ! i)"
proof -
  let ?cs = "take d bs @ take n (drop s bs) @ drop (d + n) bs"
  have "\<forall>i < d. ?cs ! i = bs ! i" using assms by (simp add: nth_append)
  moreover have "?cs ! (i - (s - d)) = bs ! i" if "s \<le> i \<and> i < s + n" for i
    using that assms by (auto simp: nth_append not_less min_def)
  moreover have "length ?cs = length bs" using assms by simp
  ultimately show ?thesis using assms by (simp add: memmove_def)
qed

lemma mmem_free_run:
  assumes ok: "mmem_ok s (us @ m # vs)"
  shows "\<exists>cs t. mmem_free m s = Some t \<and> is_list t mmemlist (us @ vs) \<and> memory t = cs \<and> length cs = 4096 \<and>
    msize t = msize s \<and> avail_memory t = avail_memory s + msize s m \<and>
    mptr t = (\<lambda>x. if x \<in> set vs then mptr s x - sizes s m else mptr s x) \<and>
    (\<forall>i < mptr s m. cs ! i = memory s ! i) \<and>
    (\<forall>i. mptr s m + sizes s m \<le> i \<and> i < sum_list (map (sizes s) (us @ m # vs)) \<longrightarrow>
       cs ! (i - sizes s m) = memory s ! i)"
proof -
  let ?xs = "us @ m # vs"
  from ok have l: "is_list s mmemlist ?xs" and pk: "packed (mptr s) (sizes s) 0 ?xs"
    and sum: "sum_list (map (sizes s) ?xs) + unat (avail_memory s) = 4096"
    and len: "length (memory s) = 4096" by (auto simp: mmem_ok_def)
  have d: "distinct ?xs" using is_list_distinct [OF l] .
  have ch: "chain (nxt s) (nxt s m) vs" using l by (auto simp: is_list_def chain_append)
  have av: "avail_memory s \<le> MMEM_SIZE" using sum by (simp add: MMEM_SIZE_def word_le_nat_alt)
  have off: "unat (MMEM_SIZE - avail_memory s) = sum_list (map (sizes s) ?xs)"
    using sum av by (simp add: unat_sub MMEM_SIZE_def)
  have pm: "mptr s m = sum_list (map (sizes s) us)" and pv: "packed (mptr s) (sizes s) (mptr s m + sizes s m) vs"
    using pk by (auto simp: packed_append)
  let ?p = "\<lambda>x. if x \<in> set vs then mptr s x - sizes s m else mptr s x"
  have "\<exists>cs. (if nxt s m \<noteq> NULL then
       if unat (MMEM_SIZE - avail_memory s) < mptr s (nxt s m) then None
       else do {
         bs \<leftarrow> memmove (mptr s m) (mptr s (nxt s m))
                (unat (MMEM_SIZE - avail_memory s) - mptr s (nxt s m)) (memory s);
         shift_loop m (nxt s m) (s\<lparr>memory := bs\<rparr>)
       }
     else Some s) = Some (s\<lparr>memory := cs, mptr := ?p\<rparr>) \<and> length cs = 4096 \<and>
    (\<forall>i < mptr s m. cs ! i = memory s ! i) \<and>
    (\<forall>i. mptr s m + sizes s m \<le> i \<and> i < sum_list (map (sizes s) ?xs) \<longrightarrow>
       cs ! (i - sizes s m) = memory s ! i)"
  proof (cases vs)
    case Nil
    then have "nxt s m = NULL" and "?p = mptr s" using ch by auto
    then show ?thesis using len pm Nil by (intro exI [of _ "memory s"]) auto
  next
    case (Cons v ws)
    then have v: "nxt s m = v" "v \<noteq> NULL" and mv: "mptr s v = mptr s m + sizes s m" using ch pv by auto
    let ?n = "unat (MMEM_SIZE - avail_memory s) - mptr s v"
    have le: "mptr s v \<le> unat (MMEM_SIZE - avail_memory s)" using off mv pm by simp
    have "mptr s v + ?n \<le> length (memory s)" using le off sum len by simp
    with memmove_down [of "mptr s m" "mptr s v" ?n "memory s"] mv obtain cs where
      cs: "memmove (mptr s m) (mptr s v) ?n (memory s) = Some cs" "length cs = length (memory s)"
        "\<forall>i < mptr s m. cs ! i = memory s ! i"
        "\<forall>i. mptr s v \<le> i \<and> i < mptr s v + ?n \<longrightarrow> cs ! (i - (mptr s v - mptr s m)) = memory s ! i"
      by auto
    let ?s = "s\<lparr>memory := cs\<rparr>"
    have "\<And>x. x \<in> set vs \<Longrightarrow> sizes s m \<le> mptr s x" using packed_bounds [OF pv] by fastforce
    with shift_loop_chain [of ?s "nxt s m" vs m] ch d
    have "shift_loop m (nxt s m) ?s =
      Some (?s\<lparr>mptr := (\<lambda>x. if x \<in> set vs then mptr ?s x - sizes ?s m else mptr ?s x)\<rparr>)" by simp
    moreover have "(\<lambda>x. if x \<in> set vs then mptr ?s x - sizes ?s m else mptr ?s x) = ?p"
      by (rule ext) simp
    ultimately have "shift_loop m (nxt s m) ?s = Some (?s\<lparr>mptr := ?p\<rparr>)" by (simp only:)
    then show ?thesis using cs v le mv len off by (intro exI [of _ cs]) simp
  qed
  then obtain cs where step: "(if nxt s m \<noteq> NULL then
       if unat (MMEM_SIZE - avail_memory s) < mptr s (nxt s m) then None
       else do {
         bs \<leftarrow> memmove (mptr s m) (mptr s (nxt s m))
                (unat (MMEM_SIZE - avail_memory s) - mptr s (nxt s m)) (memory s);
         shift_loop m (nxt s m) (s\<lparr>memory := bs\<rparr>)
       }
     else Some s) = Some (s\<lparr>memory := cs, mptr := ?p\<rparr>)" and cs: "length cs = 4096"
    "\<forall>i < mptr s m. cs ! i = memory s ! i"
    "\<forall>i. mptr s m + sizes s m \<le> i \<and> i < sum_list (map (sizes s) ?xs) \<longrightarrow>
       cs ! (i - sizes s m) = memory s ! i" by blast
  let ?s1 = "s\<lparr>memory := cs, mptr := ?p, avail_memory := avail_memory s + msize s m\<rparr>"
  have "is_list ?s1 mmemlist ?xs" using l by (simp add: is_list_def)
  from list_remove_spec [OF this, of m] obtain t where t: "list_remove mmemlist m ?s1 = Some t"
    and lt: "is_list t mmemlist (remove1 m ?xs)" and fr: "list_frame mmemlist (set ?xs) ?s1 t" by blast
  have f: "msize t = msize ?s1" "mptr t = mptr ?s1" "avail_memory t = avail_memory ?s1" "memory t = memory ?s1"
    using more_fields [of t ?s1] fr by (auto simp: list_frame_def)
  have "remove1 m ?xs = us @ vs" using d by (simp add: remove1_append)
  moreover have "mmem_free m s = Some t" using step t by (simp add: mmem_free_def)
  ultimately show ?thesis using lt f cs by (intro exI [of _ cs] exI [of _ t]) simp
qed

lemma mmem_free_spec:
  assumes ok: "mmem_ok s xs" and "m \<in> set xs"
  shows "\<exists>t. mmem_free m s = Some t \<and> mmem_ok t (remove1 m xs) \<and> msize t = msize s \<and>
    (\<forall>x \<in> set (remove1 m xs). \<forall>i < sizes s x. mmem_read x i t = mmem_read x i s)"
proof -
  from assms(2) obtain us vs where xs: "xs = us @ m # vs" and "m \<notin> set us" by (meson split_list_first)
  from ok xs have pk: "packed (mptr s) (sizes s) 0 (us @ m # vs)" and d: "distinct (us @ m # vs)"
    and sum: "sum_list (map (sizes s) (us @ m # vs)) + unat (avail_memory s) = 4096"
    using is_list_distinct [of s mmemlist xs] by (auto simp: mmem_ok_def)
  have rm: "remove1 m xs = us @ vs" using \<open>m \<notin> set us\<close> xs by (simp add: remove1_append)
  from mmem_free_run [OF ok [unfolded xs]] obtain cs t where run: "mmem_free m s = Some t"
    and l: "is_list t mmemlist (us @ vs)" and mem: "memory t = cs" "length cs = 4096"
    and f: "msize t = msize s" "avail_memory t = avail_memory s + msize s m"
      "mptr t = (\<lambda>x. if x \<in> set vs then mptr s x - sizes s m else mptr s x)"
    and low: "\<And>i. i < mptr s m \<Longrightarrow> cs ! i = memory s ! i"
    and high: "\<And>i. mptr s m + sizes s m \<le> i \<Longrightarrow> i < sum_list (map (sizes s) (us @ m # vs)) \<Longrightarrow>
       cs ! (i - sizes s m) = memory s ! i" by blast
  have pu: "packed (mptr s) (sizes s) 0 us" and pm: "mptr s m = sum_list (map (sizes s) us)"
    and pv: "packed (mptr s) (sizes s) (mptr s m + sizes s m) vs"
    using pk by (auto simp: packed_append)
  have "packed (mptr t) (sizes t) 0 us \<longleftrightarrow> packed (mptr s) (sizes s) 0 us"
    by (rule packed_cong) (use d f in auto)
  moreover have "packed (mptr t) (sizes t) (mptr s m) vs"
    using pv f packed_shift [of "mptr s" "sizes s" "mptr s m" "sizes s m" vs "mptr t"] by simp
  ultimately have "packed (mptr t) (sizes t) 0 (us @ vs)" using pu pm f by (simp add: packed_append)
  moreover have "unat (avail_memory t) = unat (avail_memory s) + sizes s m"
    using sum f by (simp add: unat_add_lem [THEN iffD1])
  ultimately have okt: "mmem_ok t (us @ vs)" using l mem sum f by (simp add: mmem_ok_def)
  have "mmem_read x i t = mmem_read x i s" if "x \<in> set (us @ vs)" and i: "i < sizes s x" for x i
  proof (cases "x \<in> set vs")
    case True
    then have "mptr s m + sizes s m \<le> mptr s x" "mptr s x + sizes s x \<le> sum_list (map (sizes s) (us @ m # vs))"
      using packed_bounds [OF pv True] pm by auto
    then show ?thesis using high [of "mptr s x + i"] i f mem True by (simp add: mmem_read_def)
  next
    case False
    then have "mptr s x + sizes s x \<le> mptr s m" using packed_bounds [OF pu, of x] that(1) pm by auto
    then show ?thesis using low [of "mptr s x + i"] i f mem False by (simp add: mmem_read_def)
  qed
  with run okt f rm show ?thesis by auto
qed

section \<open>Managed memory as a collection of buffers\<close>

text \<open>
  The abstract state: the handles in order of allocation, each with its bytes, \<open>None\<close> where the
  client has not written yet.
\<close>

type_synonym buffers = "(ptr \<times> u8 option list) list"

datatype mmem_op = M_alloc ptr u16 | M_free ptr | M_write ptr nat u8

fun mmem_exec :: "mmem_op \<Rightarrow> mmems \<Rightarrow> mmems option" where
  "mmem_exec (M_alloc m n) s = map_option snd (mmem_alloc m n s)"
| "mmem_exec (M_free m) s = mmem_free m s"
| "mmem_exec (M_write m i b) s = Some (mmem_write m i b s)"

definition total :: "buffers \<Rightarrow> nat" where
  "total bs = sum_list (map (length \<circ> snd) bs)"

definition write_buffer :: "ptr \<Rightarrow> nat \<Rightarrow> u8 \<Rightarrow> ptr \<times> u8 option list \<Rightarrow> ptr \<times> u8 option list" where
  "write_buffer m i b y = (if fst y = m then (m, (snd y)[i := Some b]) else y)"

fun mmem_model :: "mmem_op \<Rightarrow> buffers \<Rightarrow> buffers" where
  "mmem_model (M_alloc m n) bs =
     (if total bs + unat n \<le> 4096 then bs @ [(m, replicate (unat n) None)] else bs)"
| "mmem_model (M_free m) bs = filter (\<lambda>y. fst y \<noteq> m) bs"
| "mmem_model (M_write m i b) bs = map (write_buffer m i b) bs"

text \<open>A client allocates with a fresh handle, and frees and writes only what it holds.\<close>

fun mmem_op_ok :: "mmem_op \<Rightarrow> buffers \<Rightarrow> bool" where
  "mmem_op_ok (M_alloc m n) bs \<longleftrightarrow> m \<noteq> NULL \<and> m \<notin> fst ` set bs"
| "mmem_op_ok (M_free m) bs \<longleftrightarrow> m \<in> fst ` set bs"
| "mmem_op_ok (M_write m i b) bs \<longleftrightarrow> (\<exists>c. (m, c) \<in> set bs \<and> i < length c)"

definition holds :: "mmems \<Rightarrow> ptr \<times> u8 option list \<Rightarrow> bool" where
  "holds s y \<longleftrightarrow> length (snd y) = sizes s (fst y) \<and>
     (\<forall>i < length (snd y). \<forall>b. snd y ! i = Some b \<longrightarrow> mmem_read (fst y) i s = b)"

definition mmem_repr :: "mmems \<Rightarrow> buffers \<Rightarrow> bool" where
  "mmem_repr s bs \<longleftrightarrow> mmem_ok s (map fst bs) \<and> (\<forall>y \<in> set bs. holds s y)"

lemma total_sizes: "mmem_repr s bs \<Longrightarrow> total bs = sum_list (map (sizes s) (map fst bs))"
proof -
  assume "mmem_repr s bs"
  then have "map (length \<circ> snd) bs = map (sizes s) (map fst bs)"
    by (auto simp: mmem_repr_def holds_def)
  then show ?thesis unfolding total_def by (rule arg_cong)
qed

lemma repr_distinct: "mmem_repr s bs \<Longrightarrow> distinct (map fst bs)"
  by (auto simp: mmem_repr_def mmem_ok_def dest: is_list_distinct)

lemma repr_fits: "mmem_repr s bs \<Longrightarrow> n \<le> avail_memory s \<longleftrightarrow> total bs + unat n \<le> 4096"
  using total_sizes [of s bs] by (auto simp: mmem_repr_def mmem_ok_def word_le_nat_alt)

lemma alloc_repr:
  assumes r: "mmem_repr s bs" and "m \<noteq> NULL" and new: "m \<notin> fst ` set bs"
  shows "\<exists>t. mmem_exec (M_alloc m n) s = Some t \<and> mmem_repr t (mmem_model (M_alloc m n) bs)"
proof (cases "n \<le> avail_memory s")
  case False
  then have "mmem_alloc m n s = Some (0, s)" by (simp add: mmem_alloc_def not_le)
  then show ?thesis using r False repr_fits [OF r] by simp
next
  case True
  have ok: "mmem_ok s (map fst bs)" using r by (simp add: mmem_repr_def)
  have "m \<notin> set (map fst bs)" using new by simp
  from mmem_alloc_spec [OF ok assms(2) this True] obtain t where
    t: "mmem_alloc m n s = Some (1, t)" "mmem_ok t (map fst bs @ [m])" "memory t = memory s"
      "msize t = (msize s)(m := n)" and p: "\<forall>x \<in> set (map fst bs). mptr t x = mptr s x" by blast
  have "holds t y" if "y \<in> set bs" for y
  proof -
    have "fst y \<noteq> m" "mptr t (fst y) = mptr s (fst y)" using that new p by auto
    then show ?thesis using r that t by (auto simp: mmem_repr_def holds_def mmem_read_def)
  qed
  moreover have "holds t (m, replicate (unat n) None)" using t(4) by (simp add: holds_def)
  ultimately have "mmem_repr t (bs @ [(m, replicate (unat n) None)])"
    using t(2) by (auto simp: mmem_repr_def)
  with t True repr_fits [OF r] show ?thesis by simp
qed

lemma free_repr:
  assumes r: "mmem_repr s bs" and m: "m \<in> fst ` set bs"
  shows "\<exists>t. mmem_exec (M_free m) s = Some t \<and> mmem_repr t (mmem_model (M_free m) bs)"
proof -
  have ok: "mmem_ok s (map fst bs)" using r by (simp add: mmem_repr_def)
  have "m \<in> set (map fst bs)" using m by simp
  from mmem_free_spec [OF ok this] obtain t where t: "mmem_free m s = Some t"
    "mmem_ok t (remove1 m (map fst bs))" "msize t = msize s"
    "\<forall>x \<in> set (remove1 m (map fst bs)). \<forall>i < sizes s x. mmem_read x i t = mmem_read x i s" by blast
  have eq: "remove1 m (map fst bs) = map fst (filter (\<lambda>y. fst y \<noteq> m) bs)"
    using repr_distinct [OF r] by (simp add: distinct_remove1_removeAll removeAll_filter_not_eq filter_map o_def eq_commute)
  have "holds t y" if "y \<in> set bs" "fst y \<noteq> m" for y
  proof -
    have "fst y \<in> set (remove1 m (map fst bs))" using that unfolding eq by auto
    with t that r show ?thesis by (auto simp: mmem_repr_def holds_def)
  qed
  with t eq show ?thesis by (auto simp: mmem_repr_def)
qed

lemma write_repr:
  assumes r: "mmem_repr s bs" and m: "(m, c) \<in> set bs" "i < length c"
  shows "mmem_repr (mmem_write m i b s) (map (write_buffer m i b) bs)"
proof -
  let ?t = "mmem_write m i b s"
  have ok: "mmem_ok s (map fst bs)" using r by (simp add: mmem_repr_def)
  have fst: "map fst (map (write_buffer m i b) bs) = map fst bs"
    by (auto simp: write_buffer_def)
  have "mmem_ok ?t (map fst bs)" using ok by (simp add: mmem_ok_def mmem_write_def is_list_def)
  moreover have "holds ?t (write_buffer m i b y)" if y: "y \<in> set bs" for y
  proof -
    have h: "holds s y" "holds s (m, c)" using y m r by (auto simp: mmem_repr_def)
    have pk: "packed (mptr s) (sizes s) 0 (map fst bs)" "length (memory s) = 4096"
      and sum: "sum_list (map (sizes s) (map fst bs)) \<le> 4096" using ok by (auto simp: mmem_ok_def)
    have mm: "m \<in> set (map fst bs)" and yy: "fst y \<in> set (map fst bs)"
      using m y by (auto intro: image_eqI [of _ fst "(m, c)"])
    have in_m: "i < sizes s m" using h(2) m(2) by (simp add: holds_def)
    have "mptr s m + sizes s m \<le> 4096" using packed_bounds [OF pk(1) mm] sum by simp
    then have lt: "mptr s m + i < length (memory s)" using in_m pk by simp
    show ?thesis
    proof (cases "fst y = m")
      case True
      then show ?thesis using h lt
        by (auto simp: holds_def write_buffer_def mmem_read_def mmem_write_def nth_list_update)
    next
      case False
      have "mptr s m + sizes s m \<le> mptr s (fst y) \<or> mptr s (fst y) + sizes s (fst y) \<le> mptr s m"
        using packed_disjoint [OF pk(1) repr_distinct [OF r] mm yy] False by auto
      then have "mmem_read (fst y) j ?t = mmem_read (fst y) j s" if "j < sizes s (fst y)" for j
        using that in_m by (auto simp: mmem_read_def mmem_write_def)
      then show ?thesis using h(1) False by (auto simp: holds_def write_buffer_def mmem_write_def)
    qed
  qed
  ultimately show ?thesis unfolding mmem_repr_def fst by auto
qed

interpretation managed: partial_simulation mmem_exec mmem_model mmem_op_ok mmem_repr
proof
  fix s bs x
  assume r: "mmem_repr s bs" and ok: "mmem_op_ok x bs"
  show "\<exists>t. mmem_exec x s = Some t \<and> mmem_repr t (mmem_model x bs)"
  proof (cases x)
    case (M_alloc m n)
    with ok alloc_repr [OF r] show ?thesis by auto
  next
    case (M_free m)
    with ok free_repr [OF r] show ?thesis by auto
  next
    case (M_write m i b)
    with ok write_repr [OF r] show ?thesis by fastforce
  qed
qed

text \<open>C18: after any sequence of allocations, frees and writes, in spite of every compaction, each
  block reads back the bytes last written to it at each offset, the blocks lie inside the array
  without overlap, and exactly the rest of the array is available.\<close>

theorem mmem_blocks_keep_contents:
  assumes "length (memory s) = 4096" and "\<not> inited s" and "ops_allowed mmem_op_ok mmem_model ops []"
  shows "\<exists>t. run_ops mmem_exec ops (mmem_init s) = Some t \<and>
    (\<forall>m c i b. (m, c) \<in> set (fold mmem_model ops []) \<and> i < length c \<and> c ! i = Some b \<longrightarrow> mmem_read m i t = b) \<and>
    (\<forall>m c. (m, c) \<in> set (fold mmem_model ops []) \<longrightarrow> mptr t m + length c \<le> 4096) \<and>
    (\<forall>m c n d. (m, c) \<in> set (fold mmem_model ops []) \<and> (n, d) \<in> set (fold mmem_model ops []) \<and> m \<noteq> n \<longrightarrow>
       mptr t m + length c \<le> mptr t n \<or> mptr t n + length d \<le> mptr t m) \<and>
    unat (avail_memory t) + total (fold mmem_model ops []) = 4096"
proof -
  have "mmem_repr (mmem_init s) []" using mmem_init_ok [OF assms(1,2)] by (simp add: mmem_repr_def)
  from managed.run_simulates [OF this assms(3)] obtain t where
    run: "run_ops mmem_exec ops (mmem_init s) = Some t" and r: "mmem_repr t (fold mmem_model ops [])" by blast
  let ?bs = "fold mmem_model ops []"
  have ok: "mmem_ok t (map fst ?bs)" and h: "\<And>y. y \<in> set ?bs \<Longrightarrow> holds t y"
    using r by (auto simp: mmem_repr_def)
  have pk: "packed (mptr t) (sizes t) 0 (map fst ?bs)" using ok by (simp add: mmem_ok_def)
  have sz: "length c = sizes t m \<and> m \<in> set (map fst ?bs)" if "(m, c) \<in> set ?bs" for m c
    using h [OF that] that by (auto simp: holds_def intro: image_eqI [of _ fst "(m, c)"])
  have "mptr t m + length c \<le> 4096" if "(m, c) \<in> set ?bs" for m c
    using packed_bounds [OF pk, of m] sz [OF that] ok by (auto simp: mmem_ok_def)
  moreover have "mptr t m + length c \<le> mptr t n \<or> mptr t n + length d \<le> mptr t m"
    if "(m, c) \<in> set ?bs" "(n, d) \<in> set ?bs" "m \<noteq> n" for m c n d
    using packed_disjoint [OF pk repr_distinct [OF r]] sz [OF that(1)] sz [OF that(2)] that(3) by auto
  moreover have "mmem_read m i t = b" if "(m, c) \<in> set ?bs" "i < length c" "c ! i = Some b" for m c i b
    using h [OF that(1)] that by (auto simp: holds_def)
  moreover have "unat (avail_memory t) + total ?bs = 4096"
    using ok total_sizes [OF r] by (simp add: mmem_ok_def)
  ultimately show ?thesis using run by (intro exI [of _ t] conjI allI impI) auto
qed

lemma mmem_blocks_keep_contents_witness:
  "\<exists>t. run_ops mmem_exec
      [M_alloc 8 100, M_alloc 16 50, M_write 16 3 7, M_free 8]
      (mmem_init \<lparr>heads = (\<lambda>_. 0), nxt = (\<lambda>_. 0), msize = (\<lambda>_. 0), mptr = (\<lambda>_. 0),
         avail_memory = 0, memory = replicate 4096 0, inited = False\<rparr>) = Some t \<and> mmem_read 16 3 t = 7"
proof -
  let ?s = "\<lparr>heads = (\<lambda>_. 0), nxt = (\<lambda>_. 0), msize = (\<lambda>_. 0), mptr = (\<lambda>_. 0),
         avail_memory = 0, memory = replicate 4096 0, inited = False\<rparr>"
  let ?ops = "[M_alloc 8 100, M_alloc 16 50, M_write 16 3 7, M_free 8]"
  have s: "length (memory ?s) = 4096" "\<not> inited ?s" by simp_all
  have ok: "ops_allowed mmem_op_ok mmem_model ?ops []"
    by (simp add: total_def write_buffer_def)
  have m: "fold mmem_model ?ops [] = [(16, (replicate 50 None)[3 := Some 7])]"
    by (simp add: total_def write_buffer_def)
  from mmem_blocks_keep_contents [OF s ok] show ?thesis unfolding m by auto
qed

end
