(* ===== verification/Crc16.thy ===== *)
theory Crc16
  imports Prelude
begin

text \<open>
  The CRC-16 of \<open>core/lib/crc16.c\<close>, against the bitwise division by the reflected CCITT polynomial
  \<open>x\<^sup>1\<^sup>6 + x\<^sup>1\<^sup>2 + x\<^sup>5 + 1\<close> that its comment names. \<open>unsigned short\<close> is a 16-bit word.
\<close>

section \<open>The code\<close>

definition crc16_add :: "u8 \<Rightarrow> u16 \<Rightarrow> u16" where
  "crc16_add b acc =
     (let acc = acc XOR ucast b;
          acc = drop_bit 8 acc OR push_bit 8 acc;
          acc = acc XOR push_bit 4 (acc AND 0xff00);
          acc = acc XOR drop_bit 4 (drop_bit 8 acc)
      in acc XOR drop_bit 5 (acc AND 0xff00))"

text \<open>The loop of \<open>crc16_data\<close>, which advances \<open>data\<close> with its counter; reading past the end of
  the data has no meaning.\<close>

fun crc16_loop :: "u8 list \<Rightarrow> nat \<Rightarrow> u16 \<Rightarrow> u16" where
  "crc16_loop data 0 acc = acc"
| "crc16_loop data (Suc n) acc = crc16_loop (tl data) n (crc16_add (hd data) acc)"

definition crc16_data :: "u8 list \<Rightarrow> int \<Rightarrow> u16 \<Rightarrow> u16" where
  "crc16_data data len acc = crc16_loop data (nat len) acc"

section \<open>Division by the polynomial, one bit at a time\<close>

definition crc_bit :: "u16 \<Rightarrow> u16" where
  "crc_bit x = drop_bit 1 x XOR (if bit x 0 then 0x8408 else 0)"

definition crc_byte :: "u16 \<Rightarrow> u16" where
  "crc_byte x = (crc_bit ^^ 8) x"

fun crc_reference :: "u8 list \<Rightarrow> u16 \<Rightarrow> u16" where
  "crc_reference [] acc = acc"
| "crc_reference (b # bs) acc = crc_reference bs (crc_byte (acc XOR ucast b))"

lemma bit_crc_bit: "i < 16 \<Longrightarrow> bit (crc_bit x) i \<longleftrightarrow> (bit x (i + 1) \<noteq> (bit x 0 \<and> bit (0x8408 :: u16) i))"
  by (simp add: crc_bit_def bit_xor_iff bit_drop_bit_eq)

lemma bit_crc_bit_numerals:
  "bit (crc_bit x) 0 \<longleftrightarrow> bit x 1"
  "bit (crc_bit x) (Suc 0) \<longleftrightarrow> bit x 2"
  "(numeral k :: nat) < 16 \<Longrightarrow>
    bit (crc_bit x) (numeral k) \<longleftrightarrow> (bit x (numeral k + 1) \<noteq> (bit x 0 \<and> bit (0x8408 :: u16) (numeral k)))"
  by (simp_all add: bit_crc_bit eval_nat_numeral)

lemma crc_byte_bits: "crc_byte x = crc_bit (crc_bit (crc_bit (crc_bit (crc_bit (crc_bit (crc_bit (crc_bit x)))))))"
  by (simp add: crc_byte_def eval_nat_numeral)

text \<open>What the code does with the sum of accumulator and byte.\<close>

definition crc_mix :: "u16 \<Rightarrow> u16" where
  "crc_mix x =
     (let acc = drop_bit 8 x OR push_bit 8 x;
          acc = acc XOR push_bit 4 (acc AND 0xff00);
          acc = acc XOR drop_bit 4 (drop_bit 8 acc)
      in acc XOR drop_bit 5 (acc AND 0xff00))"

lemma crc16_add_mix: "crc16_add b acc = crc_mix (acc XOR ucast b)"
  by (simp add: crc16_add_def crc_mix_def Let_def)

lemma bit_over [simp]: "16 \<le> n \<Longrightarrow> \<not> bit (x :: u16) n"
  using bit_imp_le_length [of x n] by auto

lemma crc_mix_byte: "crc_mix x = crc_byte x"
proof (rule bit_word_eqI)
  fix i assume "i < LENGTH(16)"
  then have "i < 16" by simp
  from less_16 [OF this] show "bit (crc_mix x) i = bit (crc_byte x) i"
    by (elim disjE; hypsubst)
      (simp add: crc_mix_def crc_byte_bits bit_crc_bit_numerals Let_def bit_simps; argo?)+
qed

section \<open>What the code computes\<close>

lemma crc16_loop_reference: "n \<le> length data \<Longrightarrow> crc16_loop data n acc = crc_reference (take n data) acc"
proof (induction n arbitrary: data acc)
  case 0
  then show ?case by simp
next
  case (Suc n)
  then obtain b bs where "data = b # bs" by (cases data) auto
  with Suc show ?case by (simp add: crc16_add_mix crc_mix_byte)
qed

text \<open>C34: the checksum of a buffer is the remainder of its bits, lowest bit of each byte first, on
  division by the reflected polynomial, whatever accumulator it starts from.\<close>

theorem crc16_is_polynomial_division:
  assumes "len \<le> int (length data)"
  shows "crc16_data data len acc = crc_reference (take (nat len) data) acc"
  using assms crc16_loop_reference [of "nat len" data acc] by (simp add: crc16_data_def)

lemma crc16_is_polynomial_division_witness:
  "crc16_data [0x31, 0x32] 2 0 = crc_reference [0x31, 0x32] 0"
  using crc16_is_polynomial_division [of 2 "[0x31, 0x32]" 0] by simp

section \<open>Errors it detects\<close>

lemma crc_bit_xor: "crc_bit (x XOR y) = crc_bit x XOR crc_bit y"
  by (rule bit_word_eqI) (auto simp: bit_crc_bit bit_xor_iff)

lemma crc_byte_xor: "crc_byte (x XOR y) = crc_byte x XOR crc_byte y"
  by (simp add: crc_byte_bits crc_bit_xor)

lemma crc_bit_zero: "crc_bit x = 0 \<longleftrightarrow> x = 0"
proof
  assume z: "crc_bit x = 0"
  have step: "bit x (i + 1) = (bit x 0 \<and> bit (0x8408 :: u16) i)" if "i < 16" for i
    using bit_crc_bit [OF that, of x] z by auto
  from step [of 15] have "\<not> bit x 0" by simp
  show "x = 0"
  proof (rule bit_word_eqI)
    fix i assume "i < LENGTH(16)"
    then show "bit x i = bit (0 :: u16) i"
      using \<open>\<not> bit x 0\<close> step [of "i - 1"] by (cases "i = 0") auto
  qed
qed (simp add: crc_bit_def)

lemma crc_byte_zero: "crc_byte x = 0 \<longleftrightarrow> x = 0"
  by (simp add: crc_byte_bits crc_bit_zero)

lemma crc_reference_xor:
  "length xs = length ys \<Longrightarrow>
   crc_reference xs a XOR crc_reference ys b = crc_reference (map2 (XOR) xs ys) (a XOR b)"
proof (induction xs ys arbitrary: a b rule: list_induct2)
  case (Cons x xs y ys)
  have "(a XOR ucast x) XOR (b XOR ucast y) = (a XOR b) XOR ucast (x XOR y)"
    by (rule bit_word_eqI) (auto simp: bit_simps)
  with Cons show ?case by (simp add: crc_byte_xor [symmetric])
qed simp

lemma crc_reference_zeros: "crc_reference (replicate n 0) a = 0 \<longleftrightarrow> a = 0"
  by (induction n arbitrary: a) (simp_all add: crc_byte_zero)

lemma crc_reference_append: "crc_reference (xs @ ys) a = crc_reference ys (crc_reference xs a)"
  by (induction xs arbitrary: a) simp_all

lemma crc_byte_of_byte: "crc_byte (ucast d) = ucast (e :: u8) \<Longrightarrow> d = (0 :: u8)"
proof (rule bit_word_eqI)
  fix i assume e: "crc_byte (ucast d) = ucast e" and "i < LENGTH(8)"
  have h: "\<not> bit (crc_byte (ucast d)) j" if "8 \<le> j" for j
    using bit_imp_le_length [of e j] that by (auto simp: e bit_ucast_iff)
  note facts = h [of 8] h [of 9] h [of 10] h [of 11] h [of 12] h [of 13] h [of 14] h [of 15]
  have over: "\<not> bit d j" if "8 \<le> j" for j using bit_imp_le_length [of d j] that by auto
  from \<open>i < LENGTH(8)\<close> have "i < 16" and "i < 8" by simp_all
  from facts have "\<not> bit d 0 \<and> \<not> bit d 1 \<and> \<not> bit d 2 \<and> \<not> bit d 3 \<and> \<not> bit d 4 \<and> \<not> bit d 5 \<and> \<not> bit d 6 \<and> \<not> bit d 7"
    by (simp add: crc_byte_bits bit_crc_bit_numerals bit_simps over)
  with less_16 [OF \<open>i < 16\<close>] \<open>i < 8\<close> show "bit d i = bit (0 :: u8) i" by auto
qed

lemma crc_reference_burst:
  assumes "crc_reference [d1, d2] 0 = 0"
  shows "d1 = 0 \<and> d2 = 0"
proof -
  from assms have z: "crc_byte (ucast d1) XOR ucast d2 = (0 :: u16)" by (simp add: crc_byte_zero)
  then have "crc_byte (ucast d1) = ucast d2" by (simp add: xor_eq_zero_iff)
  then have "d1 = 0" by (rule crc_byte_of_byte)
  moreover have "d2 = 0"
  proof (rule bit_word_eqI)
    fix i assume "i < LENGTH(8)"
    have "ucast d2 = (0 :: u16)" using \<open>d1 = 0\<close> z by (simp add: crc_byte_zero [THEN iffD2])
    then have "bit (ucast d2 :: u16) i = bit (0 :: u16) i" by simp
    then show "bit d2 i = bit (0 :: u8) i" using \<open>i < LENGTH(8)\<close> by (simp add: bit_ucast_iff)
  qed
  ultimately show ?thesis by simp
qed

lemma map2_xor_self: "map2 (XOR) xs xs = replicate (length xs) (0 :: u8)"
  by (induction xs) simp_all

text \<open>two messages that differ only within two neighbouring bytes (a burst of up to 16 bits that
  lies in them) never have the same checksum, whatever surrounds the error.\<close>

theorem crc16_detects_bursts:
  assumes "(b1, b2) \<noteq> (c1, c2)" and "len = int (length xs + 2 + length ys)"
  shows "crc16_data (xs @ [b1, b2] @ ys) len acc \<noteq> crc16_data (xs @ [c1, c2] @ ys) len acc"
proof
  assume same: "crc16_data (xs @ [b1, b2] @ ys) len acc = crc16_data (xs @ [c1, c2] @ ys) len acc"
  have run: "crc16_data (xs @ [p, q] @ ys) len acc = crc_reference (xs @ [p, q] @ ys) acc" for p q
  proof -
    have "len \<le> int (length (xs @ [p, q] @ ys))" and "take (nat len) (xs @ [p, q] @ ys) = xs @ [p, q] @ ys"
      using assms(2) by (auto simp: nat_add_distrib)
    then show ?thesis using crc16_loop_reference [of "nat len"] by (simp add: crc16_data_def)
  qed
  have "crc_reference (xs @ [b1, b2] @ ys) acc XOR crc_reference (xs @ [c1, c2] @ ys) acc =
    crc_reference (replicate (length xs) 0 @ [b1 XOR c1, b2 XOR c2] @ replicate (length ys) 0) 0"
    using crc_reference_xor [of "xs @ [b1, b2] @ ys" "xs @ [c1, c2] @ ys" acc acc]
    by (simp add: zip_append map2_xor_self)
  moreover have "crc_reference (xs @ [b1, b2] @ ys) acc = crc_reference (xs @ [c1, c2] @ ys) acc"
    using same unfolding run .
  moreover have "crc_reference (replicate (length xs) 0) 0 = 0" by (simp add: crc_reference_zeros)
  ultimately have "crc_reference (replicate (length ys) 0) (crc_reference [b1 XOR c1, b2 XOR c2] 0) = 0"
    by (simp only: crc_reference_append xor_self_eq)
  then have "crc_reference [b1 XOR c1, b2 XOR c2] 0 = 0" by (simp only: crc_reference_zeros)
  from crc_reference_burst [OF this] have "b1 XOR c1 = 0" and "b2 XOR c2 = 0" by simp_all
  then have "b1 = c1" and "b2 = c2" by (simp_all add: xor_eq_zero_iff)
  with assms(1) show False by simp
qed

lemma crc16_detects_bursts_witness:
  "crc16_data [1, 2, 3, 4] 4 0 \<noteq> crc16_data [1, 0x82, 0x43, 4] 4 (0 :: u16)"
  using crc16_detects_bursts [of 2 3 "0x82" "0x43" 4 "[1]" "[4]" 0] by simp

end
