(* ===== verification/Gcr.thy ===== *)
theory Gcr
  imports Prelude
begin

text \<open>
  Group code recording, \<open>core/lib/gcr.c\<close>: each nibble is sent as five bits, so a byte becomes ten
  bits of a stream that is cut into bytes again. The encoder or decoder keeps the bits that wait in
  \<open>gcr_val\<close> (\<open>unsigned short\<close>) and their number in \<open>gcr_bits\<close>. Intermediate values fit the 16-bit
  \<open>int\<close> of the target, where shifts drop what leaves the word.
\<close>

section \<open>The code\<close>

definition GCR_encode :: "u8 list" where
  "GCR_encode =
     [0x0a, 0x0b, 0x12, 0x13,
      0x0e, 0x0f, 0x16, 0x17,
      0x09, 0x19, 0x1a, 0x1b,
      0x0d, 0x1d, 0x1e, 0x15]"

definition GCR_decode :: "u8 list" where
  "GCR_decode =
     [0xff, 0xff, 0xff, 0xff,
      0xff, 0xff, 0xff, 0xff,
      0xff, 0x08, 0x00, 0x01,
      0xff, 0x0c, 0x04, 0x05,
      0xff, 0xff, 0x02, 0x03,
      0xff, 0x0f, 0x06, 0x07,
      0xff, 0x09, 0x0a, 0x0b,
      0xff, 0x0d, 0x0e, 0xff]"

record gcr =
  gcr_bits :: u8
  gcr_val :: u16

definition gcr_init :: "gcr \<Rightarrow> gcr" where
  "gcr_init g = g\<lparr>gcr_val := 0, gcr_bits := 0\<rparr>"

definition gcr_finished :: "gcr \<Rightarrow> bool" where
  "gcr_finished g \<longleftrightarrow> gcr_bits g = 0"

definition enc5 :: "u8 \<Rightarrow> u16" where
  "enc5 n = ucast (GCR_encode ! unat n)"

definition dec5 :: "u16 \<Rightarrow> u16" where
  "dec5 v = ucast (GCR_decode ! unat v)"

definition gcr_encode :: "u8 \<Rightarrow> gcr \<Rightarrow> gcr" where
  "gcr_encode raw_data g =
     g\<lparr>gcr_val := gcr_val g OR
          push_bit (unat (gcr_bits g)) (push_bit 5 (enc5 (drop_bit 4 raw_data)) OR enc5 (raw_data AND 0xf)),
       gcr_bits := gcr_bits g + 10\<rparr>"

definition gcr_get_encoded :: "gcr \<Rightarrow> u8 option \<times> gcr" where
  "gcr_get_encoded g =
     (if gcr_bits g \<ge> 8 then
        (Some (ucast (gcr_val g AND 0xff)),
         g\<lparr>gcr_val := drop_bit 8 (gcr_val g), gcr_bits := gcr_bits g - 8\<rparr>)
      else (None, g))"

definition gcr_decode :: "u8 \<Rightarrow> gcr \<Rightarrow> gcr" where
  "gcr_decode gcr_data g =
     g\<lparr>gcr_val := gcr_val g OR push_bit (unat (gcr_bits g)) (ucast gcr_data),
       gcr_bits := gcr_bits g + 8\<rparr>"

definition gcr_valid :: "gcr \<Rightarrow> bool" where
  "gcr_valid g =
     (if gcr_bits g \<ge> 10 then
        let val = gcr_val g AND 0x3ff in
        \<not> (push_bit 4 (dec5 (drop_bit 5 val)) = 0xff \<or> dec5 (val AND 0x1f) = 0xff)
      else True)"

definition gcr_get_decoded :: "gcr \<Rightarrow> u8 option \<times> gcr" where
  "gcr_get_decoded g =
     (if gcr_bits g \<ge> 10 then
        let val = gcr_val g AND 0x3ff in
        (Some (ucast (push_bit 4 (dec5 (drop_bit 5 val)) OR dec5 (val AND 0x1f))),
         g\<lparr>gcr_val := drop_bit 10 (gcr_val g), gcr_bits := gcr_bits g - 10\<rparr>)
      else (None, g))"

section \<open>Streams\<close>

text \<open>A sender encodes each byte and then takes out what is ready; a receiver decodes each byte of
  the stream and takes out a byte if one is ready, noting whether the stream was valid.\<close>

lemma unat_sub_le: "b \<le> a \<Longrightarrow> unat (a - b :: u8) = unat a - unat b"
  by (simp add: unat_sub)

function drain :: "gcr \<Rightarrow> u8 list \<times> gcr" where
  "drain g =
     (case gcr_get_encoded g of
        (None, h) \<Rightarrow> ([], h)
      | (Some b, h) \<Rightarrow> (case drain h of (bs, k) \<Rightarrow> (b # bs, k)))"
  by pat_completeness auto

termination
  by (relation "measure (\<lambda>g. unat (gcr_bits g))")
    (auto simp: gcr_get_encoded_def unat_sub_le word_le_nat_alt split: if_splits)

declare drain.simps [simp del]

fun encode_all :: "u8 list \<Rightarrow> gcr \<Rightarrow> u8 list \<times> gcr" where
  "encode_all [] g = ([], g)"
| "encode_all (x # xs) g =
     (case drain (gcr_encode x g) of (out, h) \<Rightarrow>
        case encode_all xs h of (outs, k) \<Rightarrow> (out @ outs, k))"

fun decode_all :: "u8 list \<Rightarrow> gcr \<Rightarrow> bool \<times> u8 list \<times> gcr" where
  "decode_all [] g = (True, [], g)"
| "decode_all (b # bs) g =
     (let g1 = gcr_decode b g in
      case gcr_get_decoded g1 of (r, h) \<Rightarrow>
      case decode_all bs h of (ok, xs, k) \<Rightarrow>
        (gcr_valid g1 \<and> ok, (case r of None \<Rightarrow> xs | Some x \<Rightarrow> x # xs), k))"

section \<open>The state as a queue of bits\<close>

definition bits_of :: "nat \<Rightarrow> 'a::len word \<Rightarrow> bool list" where
  "bits_of n v = map (bit v) [0..<n]"

definition waiting :: "gcr \<Rightarrow> bool list" where
  "waiting g = bits_of (unat (gcr_bits g)) (gcr_val g)"

definition gcr_ok :: "gcr \<Rightarrow> bool" where
  "gcr_ok g \<longleftrightarrow> unat (gcr_bits g) \<le> 16 \<and> (\<forall>i \<ge> unat (gcr_bits g). \<not> bit (gcr_val g) i)"

definition code10 :: "u8 \<Rightarrow> u16" where
  "code10 x = push_bit 5 (enc5 (drop_bit 4 x)) OR enc5 (x AND 0xf)"

definition code :: "u8 \<Rightarrow> bool list" where
  "code x = bits_of 10 (code10 x)"

lemma length_bits_of [simp]: "length (bits_of n v) = n"
  by (simp add: bits_of_def)

lemma nth_bits_of [simp]: "i < n \<Longrightarrow> bits_of n v ! i = bit v i"
  by (simp add: bits_of_def)

lemma length_waiting [simp]: "length (waiting g) = unat (gcr_bits g)"
  by (simp add: waiting_def)

lemma length_code [simp]: "length (code x) = 10"
  by (simp add: code_def)

lemma bits_of_append:
  fixes v w :: u16
  assumes "\<And>i. n \<le> i \<Longrightarrow> \<not> bit v i" and "n + m \<le> 16"
  shows "bits_of (n + m) (v OR push_bit n w) = bits_of n v @ bits_of m w"
proof (rule nth_equalityI)
  fix i assume "i < length (bits_of (n + m) (v OR push_bit n w))"
  then show "bits_of (n + m) (v OR push_bit n w) ! i = (bits_of n v @ bits_of m w) ! i"
    using assms by (simp add: nth_append bit_or_iff bit_push_bit_iff)
qed simp

lemma bits_of_drop: "bits_of m (drop_bit k v) = drop k (bits_of (k + m) v)"
  by (rule nth_equalityI) (simp_all add: bit_drop_bit_eq)

lemma bits_of_inject:
  fixes v w :: u16
  assumes "bits_of n v = bits_of n w" and "i < n"
  shows "bit v i = bit w i"
  using arg_cong [OF assms(1), of "\<lambda>l. l ! i"] assms(2) by simp

section \<open>The code of one byte\<close>

lemma enc5_dec5:
  assumes "unat n < 16"
  shows "enc5 n < 32 \<and> dec5 (enc5 n) = ucast n"
proof -
  have n: "n = word_of_nat (unat n)" by simp
  from less_16 [OF assms] show ?thesis
    by (elim disjE; subst n, simp add: enc5_def dec5_def GCR_encode_def GCR_decode_def; subst n, simp)
qed

lemma hi_nibble: "unat (drop_bit 4 (x :: u8)) < 16"
proof -
  have lt: "unat x < 256" using unsigned_less [of x, where 'a = nat] by simp
  then have "take_bit 8 (unat x) = unat x" by (simp add: take_bit_nat_eq_self)
  then have "unat (drop_bit 4 x) = unat x div 16"
    by (simp only: unsigned_drop_bit_eq) (simp add: drop_bit_eq_div)
  with lt show ?thesis by simp
qed

lemma lo_nibble: "unat (x AND 0xf :: u8) < 16"
proof -
  have "x AND 0xf = take_bit 4 x" by (simp add: take_bit_eq_mask mask_eq_exp_minus_1)
  then show ?thesis using take_bit_nat_less_exp [of 4 "unat x"] by (simp add: unsigned_take_bit_eq)
qed

lemma bit_less_32: "(v :: u16) < 32 \<Longrightarrow> 5 \<le> i \<Longrightarrow> \<not> bit v i"
proof
  assume v: "v < 32" and i: "5 \<le> i" and b: "bit v i"
  have "unat v < 2 ^ 5" using v by (simp add: word_less_nat_alt)
  then have "take_bit 5 (unat v) = unat v" by (simp add: take_bit_nat_eq_self_iff)
  moreover have "bit (unat v) i" using b by (simp add: bit_unsigned_iff)
  ultimately have "bit (take_bit 5 (unat v)) i" by simp
  with i show False by (simp add: bit_take_bit_iff)
qed

lemma code10_bits: "10 \<le> i \<Longrightarrow> \<not> bit (code10 x) i"
  using bit_less_32 [of "enc5 (drop_bit 4 x)" "i - 5"] bit_less_32 [of "enc5 (x AND 0xf)" i]
    enc5_dec5 [OF hi_nibble] enc5_dec5 [OF lo_nibble]
  by (auto simp: code10_def bit_or_iff bit_push_bit_iff)

lemma code10_hi: "drop_bit 5 (code10 x) = enc5 (drop_bit 4 x)"
proof (rule bit_word_eqI)
  fix i assume "i < LENGTH(16)"
  then show "bit (drop_bit 5 (code10 x)) i = bit (enc5 (drop_bit 4 x)) i"
    using bit_less_32 [of "enc5 (x AND 0xf)" "5 + i"] bit_less_32 [of "enc5 (drop_bit 4 x)" i]
      enc5_dec5 [OF lo_nibble] enc5_dec5 [OF hi_nibble]
    by (cases "i < 5") (auto simp: code10_def bit_drop_bit_eq bit_or_iff bit_push_bit_iff)
qed

lemma code10_lo: "code10 x AND 0x1f = enc5 (x AND 0xf)"
proof -
  have "code10 x AND 0x1f = take_bit 5 (code10 x)" by (simp add: take_bit_eq_mask mask_eq_exp_minus_1)
  also have "\<dots> = enc5 (x AND 0xf)"
  proof (rule bit_word_eqI)
    fix i assume "i < LENGTH(16)"
    then show "bit (take_bit 5 (code10 x)) i = bit (enc5 (x AND 0xf)) i"
      using bit_less_32 [of "enc5 (x AND 0xf)" i] enc5_dec5 [OF lo_nibble]
      by (auto simp: code10_def bit_take_bit_iff bit_or_iff bit_push_bit_iff)
  qed
  finally show ?thesis .
qed

lemma byte_of_nibbles:
  "ucast (push_bit 4 (ucast (drop_bit 4 x)) OR (ucast (x AND 0xf) :: u16)) = (x :: u8)"
proof (rule bit_word_eqI)
  fix i assume i: "i < LENGTH(8)"
  have m: "(0xf :: u8) = mask 4" by (simp add: mask_eq_exp_minus_1)
  show "bit (ucast (push_bit 4 (ucast (drop_bit 4 x)) OR (ucast (x AND 0xf) :: u16)) :: u8) i = bit x i"
    using i by (auto simp: m bit_ucast_iff bit_or_iff bit_push_bit_iff bit_drop_bit_eq bit_and_iff bit_mask_iff)
qed

section \<open>Each operation on the queue of bits\<close>

lemma gcr_init_waiting: "gcr_ok (gcr_init g) \<and> waiting (gcr_init g) = []"
  by (simp add: gcr_ok_def waiting_def gcr_init_def bits_of_def)

lemma bits_add: "unat (b :: u8) + unat c < 256 \<Longrightarrow> unat (b + c) = unat b + unat c"
  using unat_add_lem [of b c] by simp

lemma gcr_encode_waiting:
  assumes "gcr_ok g" and "length (waiting g) \<le> 6"
  shows "gcr_ok (gcr_encode x g) \<and> waiting (gcr_encode x g) = waiting g @ code x"
proof -
  have n: "unat (gcr_bits g) \<le> 6" using assms(2) by simp
  then have u: "unat (gcr_bits g + 10) = unat (gcr_bits g) + 10" by (simp add: bits_add)
  have v: "gcr_val (gcr_encode x g) = gcr_val g OR push_bit (unat (gcr_bits g)) (code10 x)"
    by (simp add: gcr_encode_def code10_def)
  have "waiting (gcr_encode x g) = waiting g @ code x"
    using bits_of_append [of "unat (gcr_bits g)" "gcr_val g" 10 "code10 x"] assms(1) n u
    by (simp add: waiting_def code_def v gcr_ok_def) (simp add: gcr_encode_def u)
  moreover have "gcr_ok (gcr_encode x g)"
    using assms(1) n u code10_bits
    by (auto simp: gcr_ok_def v bit_or_iff bit_push_bit_iff) (auto simp: gcr_encode_def u)
  ultimately show ?thesis by simp
qed

lemma gcr_get_encoded_ready:
  assumes "gcr_ok g" and "8 \<le> length (waiting g)"
  shows "\<exists>b h. gcr_get_encoded g = (Some b, h) \<and> gcr_ok h \<and> waiting g = bits_of 8 b @ waiting h"
proof -
  let ?n = "unat (gcr_bits g)" and ?b = "ucast (gcr_val g AND 0xff) :: u8"
  have n: "8 \<le> gcr_bits g" using assms(2) by (simp add: word_le_nat_alt)
  then have u: "unat (gcr_bits g - 8) = ?n - 8" by (simp add: unat_sub_le)
  let ?h = "g\<lparr>gcr_val := drop_bit 8 (gcr_val g), gcr_bits := gcr_bits g - 8\<rparr>"
  have "bits_of 8 ?b = take 8 (waiting g)"
  proof (rule nth_equalityI)
    fix i assume i: "i < length (bits_of 8 ?b)"
    have m: "(0xff :: u16) = mask 8" by (simp add: mask_eq_exp_minus_1)
    show "bits_of 8 ?b ! i = take 8 (waiting g) ! i"
      using i assms(2) by (simp add: waiting_def m bit_ucast_iff bit_and_iff bit_mask_iff)
  qed (use assms(2) in simp)
  moreover have "waiting ?h = drop 8 (waiting g)"
    using assms(2) by (simp add: waiting_def u bits_of_drop)
  moreover have "gcr_ok ?h" using assms(1) u assms(2) by (auto simp: gcr_ok_def bit_drop_bit_eq)
  moreover have "gcr_get_encoded g = (Some ?b, ?h)" using n by (simp add: gcr_get_encoded_def)
  ultimately show ?thesis by (metis append_take_drop_id)
qed

lemma gcr_get_encoded_empty: "length (waiting g) < 8 \<Longrightarrow> gcr_get_encoded g = (None, g)"
  by (simp add: gcr_get_encoded_def word_le_nat_alt)

lemma drain_waiting:
  "gcr_ok g \<Longrightarrow> drain g = (out, h) \<Longrightarrow>
   gcr_ok h \<and> waiting g = concat (map (bits_of 8) out) @ waiting h \<and> length (waiting h) < 8"
proof (induction "length (waiting g)" arbitrary: g out rule: less_induct)
  case less
  show ?case
  proof (cases "8 \<le> length (waiting g)")
    case True
    with gcr_get_encoded_ready [OF less.prems(1)] obtain b k where
      get: "gcr_get_encoded g = (Some b, k)" and k: "gcr_ok k" and w: "waiting g = bits_of 8 b @ waiting k"
      by blast
    obtain bs where r: "drain k = (bs, h)" and out: "out = b # bs"
      using less.prems(2) get by (subst (asm) drain.simps) (auto split: prod.splits)
    have "length (waiting k) < length (waiting g)" using arg_cong [OF w, of length] by simp
    from less.hyps [OF this k r] w out show ?thesis by simp
  next
    case False
    with less.prems gcr_get_encoded_empty [of g] show ?thesis
      by (subst (asm) drain.simps) auto
  qed
qed

lemma length_stream [simp]: "length (concat (map (bits_of 8) out)) = 8 * length (out :: u8 list)"
  by (induction out) simp_all

lemma encode_all_waiting:
  "gcr_ok g \<Longrightarrow> length (waiting g) < 8 \<Longrightarrow> even (length (waiting g)) \<Longrightarrow> encode_all xs g = (out, k) \<Longrightarrow>
   gcr_ok k \<and> waiting g @ concat (map code xs) = concat (map (bits_of 8) out) @ waiting k \<and>
   length (waiting k) < 8"
proof (induction xs arbitrary: g out)
  case Nil
  then show ?case by simp
next
  case (Cons x xs)
  have "length (waiting g) \<noteq> 7" using Cons.prems(3) by presburger
  then have le: "length (waiting g) \<le> 6" using Cons.prems(2) by simp
  obtain o1 h where d: "drain (gcr_encode x g) = (o1, h)" by fastforce
  obtain o2 where e: "encode_all xs h = (o2, k)" and out: "out = o1 @ o2"
    using Cons.prems(4) d by (auto split: prod.splits)
  from gcr_encode_waiting [OF Cons.prems(1) le, of x] have ok: "gcr_ok (gcr_encode x g)"
    and w: "waiting (gcr_encode x g) = waiting g @ code x" by auto
  from drain_waiting [OF ok d] w have h: "gcr_ok h" "length (waiting h) < 8"
    and wh: "waiting g @ code x = concat (map (bits_of 8) o1) @ waiting h" by auto
  have "length (waiting g) + 10 = 8 * length o1 + length (waiting h)"
    using arg_cong [OF wh, of length] by (simp add: length_stream)
  with Cons.prems(3) have ev: "even (length (waiting h))" by presburger
  from Cons.IH [OF h ev e] wh out show ?case by (metis append.assoc concat_append list.simps(9) map_append concat.simps(2))
qed

lemma gcr_decode_waiting:
  assumes "gcr_ok g" and "length (waiting g) \<le> 8"
  shows "gcr_ok (gcr_decode b g) \<and> waiting (gcr_decode b g) = waiting g @ bits_of 8 b"
proof -
  have n: "unat (gcr_bits g) \<le> 8" using assms(2) by simp
  then have u: "unat (gcr_bits g + 8) = unat (gcr_bits g) + 8" by (simp add: bits_add)
  have v: "gcr_val (gcr_decode b g) = gcr_val g OR push_bit (unat (gcr_bits g)) (ucast b)"
    by (simp add: gcr_decode_def)
  have over: "\<not> bit (ucast b :: u16) i" if "8 \<le> i" for i
    using bit_imp_le_length [of b i] that by (auto simp: bit_ucast_iff)
  have "bits_of 8 (ucast b :: u16) = bits_of 8 b"
    by (rule nth_equalityI) (simp_all add: bit_ucast_iff)
  then have "waiting (gcr_decode b g) = waiting g @ bits_of 8 b"
    using bits_of_append [of "unat (gcr_bits g)" "gcr_val g" 8 "ucast b"] assms(1) n u
    by (simp add: waiting_def v gcr_ok_def) (simp add: gcr_decode_def u)
  moreover have "gcr_ok (gcr_decode b g)"
    using assms(1) n u over
    by (auto simp: gcr_ok_def v bit_or_iff bit_push_bit_iff) (auto simp: gcr_decode_def u)
  ultimately show ?thesis by simp
qed

lemma gcr_get_decoded_ready:
  assumes "gcr_ok g" and w: "waiting g = code x @ rest"
  shows "gcr_valid g \<and> (\<exists>h. gcr_get_decoded g = (Some x, h) \<and> gcr_ok h \<and> waiting h = rest)"
proof -
  let ?n = "unat (gcr_bits g)"
  have len: "10 \<le> ?n" using arg_cong [OF w, of length] by simp
  then have n: "10 \<le> gcr_bits g" by (simp add: word_le_nat_alt)
  have u: "unat (gcr_bits g - 10) = ?n - 10" using n by (simp add: unat_sub_le)
  have m: "(0x3ff :: u16) = mask 10" by (simp add: mask_eq_exp_minus_1)
  have val: "gcr_val g AND 0x3ff = code10 x"
  proof (rule bit_word_eqI)
    fix i assume "i < LENGTH(16)"
    have "bit (gcr_val g) i = bit (code10 x) i" if "i < 10"
    proof -
      have "waiting g ! i = code x ! i" using that w by (simp add: nth_append)
      then show ?thesis using that len by (simp add: waiting_def code_def)
    qed
    then show "bit (gcr_val g AND 0x3ff) i = bit (code10 x) i"
      using code10_bits [of i x] by (cases "i < 10") (auto simp: m bit_and_iff bit_mask_iff)
  qed
  have dec: "dec5 (drop_bit 5 (code10 x)) = ucast (drop_bit 4 x)" "dec5 (code10 x AND 0x1f) = ucast (x AND 0xf)"
    using enc5_dec5 [OF hi_nibble] enc5_dec5 [OF lo_nibble] by (simp_all add: code10_hi code10_lo)
  let ?h = "g\<lparr>gcr_val := drop_bit 10 (gcr_val g), gcr_bits := gcr_bits g - 10\<rparr>"
  have "gcr_get_decoded g = (Some x, ?h)"
    unfolding gcr_get_decoded_def Let_def val dec byte_of_nibbles using n by simp
  moreover have "waiting ?h = rest"
    using w len bits_of_drop [of "?n - 10" 10 "gcr_val g"] by (simp add: waiting_def u)
  moreover have "gcr_ok ?h" using assms(1) u len by (auto simp: gcr_ok_def bit_drop_bit_eq)
  moreover have "gcr_valid g"
  proof -
    have "unat (ucast (x AND 0xf) :: u16) < 16" using lo_nibble [of x] by (simp add: unsigned_ucast_eq take_bit_nat_eq_self)
    then have lo: "(ucast (x AND 0xf) :: u16) \<noteq> 0xff" by auto
    have "\<not> bit (push_bit 4 (ucast (drop_bit 4 x)) :: u16) 0" by (simp add: bit_push_bit_iff)
    moreover have "bit (0xff :: u16) 0" by simp
    ultimately have hi: "(push_bit 4 (ucast (drop_bit 4 x)) :: u16) \<noteq> 0xff" by metis
    show ?thesis unfolding gcr_valid_def Let_def val dec using lo hi by simp
  qed
  ultimately show ?thesis by blast
qed

lemma gcr_short:
  assumes "length (waiting g) < 10"
  shows "gcr_valid g \<and> gcr_get_decoded g = (None, g)"
  using assms by (simp add: gcr_valid_def gcr_get_decoded_def word_le_nat_alt)

lemma length_codes [simp]: "length (concat (map code xs)) = 10 * length xs"
  by (induction xs) simp_all

lemma decode_all_waiting:
  "gcr_ok g \<Longrightarrow> length (waiting g) < 10 \<Longrightarrow> even (length (waiting g)) \<Longrightarrow> length r < 10 \<Longrightarrow>
   waiting g @ concat (map (bits_of 8) bs) = concat (map code xs) @ r \<Longrightarrow>
   \<exists>k. decode_all bs g = (True, xs, k) \<and> waiting k = r"
proof (induction bs arbitrary: g xs)
  case Nil
  have "length (waiting g) = 10 * length xs + length r"
    using arg_cong [OF Nil.prems(5), of length] by (simp del: length_waiting)
  then have "xs = []" using Nil.prems(2) by (cases xs) (simp_all del: length_waiting)
  with Nil show ?case by simp
next
  case (Cons b bs)
  have "length (waiting g) \<noteq> 9" using Cons.prems(3) by presburger
  then have "length (waiting g) \<le> 8" using Cons.prems(2) by simp
  from gcr_decode_waiting [OF Cons.prems(1) this, of b] have ok: "gcr_ok (gcr_decode b g)"
    and w: "waiting (gcr_decode b g) = waiting g @ bits_of 8 b" by auto
  let ?g = "gcr_decode b g"
  have all: "waiting ?g @ concat (map (bits_of 8) bs) = concat (map code xs) @ r"
    using Cons.prems(5) w by simp
  have lw: "length (waiting ?g) = length (waiting g) + 8" unfolding w by simp
  have ev: "even (length (waiting ?g))" unfolding lw using Cons.prems(3) by simp
  show ?case
  proof (cases "length (waiting ?g) < 10")
    case True
    from Cons.IH [OF ok True ev Cons.prems(4) all] gcr_short [OF True] show ?thesis
      by (auto simp: Let_def)
  next
    case False
    then have "10 \<le> length (concat (map code xs) @ r)" using arg_cong [OF all, of length] by simp
    then obtain x ys where xs: "xs = x # ys" using Cons.prems(4) by (cases xs) auto
    define rest where "rest = drop 10 (waiting ?g)"
    have "take 10 (waiting ?g) = take 10 (waiting ?g @ concat (map (bits_of 8) bs))" using False by simp
    also have "\<dots> = code x" unfolding all xs by simp
    finally have w2: "waiting ?g = code x @ rest" by (metis append_take_drop_id rest_def)
    from gcr_get_decoded_ready [OF ok w2] obtain h where v: "gcr_valid ?g"
      and get: "gcr_get_decoded ?g = (Some x, h)" and h: "gcr_ok h" "waiting h = rest" by blast
    have lr: "length rest + 10 = length (waiting g) + 8" using arg_cong [OF w2, of length] lw by simp
    then have "length (waiting h) < 10" "even (length (waiting h))" using h Cons.prems(2,3) by presburger+
    moreover have "waiting h @ concat (map (bits_of 8) bs) = concat (map code ys) @ r"
      using all h(2) by (simp add: w2 xs)
    ultimately obtain k where "decode_all bs h = (True, ys, k)" "waiting k = r"
      using Cons.IH [OF h(1) _ _ Cons.prems(4), of ys] by blast
    with v get xs show ?thesis by (simp add: Let_def)
  qed
qed

section \<open>Properties\<close>

text \<open>whatever bytes are sent, a receiver that starts afresh finds the stream valid throughout
  and recovers them: all of them, with nothing left over on either side, when their number is a
  multiple of four, and all but the last otherwise, whose final bits are still in the encoder.\<close>

theorem gcr_round_trip:
  assumes "encode_all xs (gcr_init g) = (out, h)"
  shows "\<exists>k. decode_all out (gcr_init g') = (True, (if 4 dvd length xs then xs else butlast xs), k) \<and>
    (gcr_finished h \<longleftrightarrow> 4 dvd length xs) \<and> (gcr_finished h \<longrightarrow> gcr_finished k) \<and>
    8 * length out + unat (gcr_bits h) = 10 * length xs"
proof -
  from encode_all_waiting [OF _ _ _ assms] gcr_init_waiting [of g] have
    s: "concat (map code xs) = concat (map (bits_of 8) out) @ waiting h" and lt: "length (waiting h) < 8" by auto
  have len: "10 * length xs = 8 * length out + length (waiting h)" using arg_cong [OF s, of length] by simp
  then have fin: "gcr_finished h \<longleftrightarrow> 4 dvd length xs"
    using lt by (auto simp: gcr_finished_def unat_eq_0 [symmetric]) presburger+
  define ys where "ys = (if 4 dvd length xs then xs else butlast xs)"
  define r where "r = (if 4 dvd length xs then [] else take (10 - length (waiting h)) (code (last xs)))"
  have "concat (map (bits_of 8) out) = concat (map code ys) @ r \<and> length r < 10"
  proof (cases "4 dvd length xs")
    case True
    then have "waiting h = []" using fin by (simp add: gcr_finished_def waiting_def bits_of_def)
    with s True show ?thesis by (simp add: ys_def r_def)
  next
    case False
    then have "xs \<noteq> []" by auto
    have "concat (map code (butlast xs @ [last xs])) = concat (map code (butlast xs)) @ code (last xs)" by simp
    then have "concat (map code xs) = concat (map code (butlast xs)) @ code (last xs)"
      using \<open>xs \<noteq> []\<close> by simp
    with s have e: "concat (map (bits_of 8) out) @ waiting h = concat (map code (butlast xs)) @ code (last xs)" by simp
    have "length (waiting h) > 0" using False fin by (simp add: gcr_finished_def unat_gt_0)
    moreover have "concat (map (bits_of 8) out) =
      take (8 * length out) (concat (map code (butlast xs)) @ code (last xs))"
      using arg_cong [OF e, of "take (8 * length out)"] by simp
    moreover have "8 * length out = 10 * length (butlast xs) + (10 - length (waiting h))"
      using len lt \<open>xs \<noteq> []\<close> by (cases xs) auto
    ultimately show ?thesis using False by (simp add: ys_def r_def)
  qed
  then have "\<exists>k. decode_all out (gcr_init g') = (True, ys, k) \<and> waiting k = r"
    using decode_all_waiting [of "gcr_init g'" r out ys] gcr_init_waiting [of g'] by simp
  moreover have "gcr_finished k" if "waiting k = r" "gcr_finished h" for k
  proof -
    have "length (waiting k) = 0" using that fin by (simp add: r_def)
    then show ?thesis by (simp add: gcr_finished_def unat_eq_0)
  qed
  ultimately show ?thesis using fin len unfolding ys_def by auto
qed

lemma gcr_round_trip_witness:
  "\<exists>out h k. encode_all [1, 2, 3, 4] (gcr_init \<lparr>gcr_bits = 9, gcr_val = 9\<rparr>) = (out, h) \<and>
     decode_all out (gcr_init \<lparr>gcr_bits = 3, gcr_val = 1\<rparr>) = (True, [1, 2, 3, 4], k) \<and> length out = 5"
proof -
  obtain out h where e: "encode_all [1, 2, 3, 4] (gcr_init \<lparr>gcr_bits = 9, gcr_val = 9\<rparr>) = (out, h)" by fastforce
  have len: "length [1, 2, 3, 4 :: u8] = 4" by simp
  from gcr_round_trip [OF e, of "\<lparr>gcr_bits = 3, gcr_val = 1\<rparr>", unfolded len gcr_finished_def] e
  show ?thesis by (auto simp del: encode_all.simps)
qed

text \<open>the check of the stream sees only invalid codes of low nibbles. Its test of the high nibble
  compares a value whose four low bits are zero with \<open>0xff\<close>, which never holds, so a stream whose
  high nibble is no code at all passes, and decodes to some byte.\<close>

theorem gcr_valid_ignores_high_nibble:
  "gcr_valid g = (if gcr_bits g \<ge> 10 then dec5 (gcr_val g AND 0x1f) \<noteq> 0xff else True)"
proof -
  have "\<not> bit (push_bit 4 v :: u16) 0" for v by (simp add: bit_push_bit_iff)
  moreover have "bit (0xff :: u16) 0" by simp
  ultimately have never: "push_bit 4 v \<noteq> (0xff :: u16)" for v by metis
  have "(gcr_val g AND 0x3ff) AND 0x1f = gcr_val g AND (0x3ff AND 0x1f)" by (simp only: and.assoc)
  then have "(gcr_val g AND 0x3ff) AND 0x1f = gcr_val g AND 0x1f" by simp
  then show ?thesis unfolding gcr_valid_def Let_def using never by (auto simp: not_le not_less)
qed

end
