(* ===== verification/Aes128.thy ===== *)
theory Aes128
  imports Prelude
begin

text \<open>
  The block cipher of \<open>core/lib/aes-128.c\<close>, and the cipher FIPS-197 specifies. A block is a list of
  16 bytes in the order of memory, which is column by column; the static array \<open>round_keys\<close> is a
  list of 11 rows. A loop over the bytes of a block is a fold over the indices, in the loop's order.
\<close>

section \<open>The code\<close>

definition sbox :: "u8 list" where
  "sbox =
     [0x63, 0x7c, 0x77, 0x7b, 0xf2, 0x6b, 0x6f, 0xc5, 0x30, 0x01, 0x67, 0x2b, 0xfe, 0xd7, 0xab, 0x76,
      0xca, 0x82, 0xc9, 0x7d, 0xfa, 0x59, 0x47, 0xf0, 0xad, 0xd4, 0xa2, 0xaf, 0x9c, 0xa4, 0x72, 0xc0,
      0xb7, 0xfd, 0x93, 0x26, 0x36, 0x3f, 0xf7, 0xcc, 0x34, 0xa5, 0xe5, 0xf1, 0x71, 0xd8, 0x31, 0x15,
      0x04, 0xc7, 0x23, 0xc3, 0x18, 0x96, 0x05, 0x9a, 0x07, 0x12, 0x80, 0xe2, 0xeb, 0x27, 0xb2, 0x75,
      0x09, 0x83, 0x2c, 0x1a, 0x1b, 0x6e, 0x5a, 0xa0, 0x52, 0x3b, 0xd6, 0xb3, 0x29, 0xe3, 0x2f, 0x84,
      0x53, 0xd1, 0x00, 0xed, 0x20, 0xfc, 0xb1, 0x5b, 0x6a, 0xcb, 0xbe, 0x39, 0x4a, 0x4c, 0x58, 0xcf,
      0xd0, 0xef, 0xaa, 0xfb, 0x43, 0x4d, 0x33, 0x85, 0x45, 0xf9, 0x02, 0x7f, 0x50, 0x3c, 0x9f, 0xa8,
      0x51, 0xa3, 0x40, 0x8f, 0x92, 0x9d, 0x38, 0xf5, 0xbc, 0xb6, 0xda, 0x21, 0x10, 0xff, 0xf3, 0xd2,
      0xcd, 0x0c, 0x13, 0xec, 0x5f, 0x97, 0x44, 0x17, 0xc4, 0xa7, 0x7e, 0x3d, 0x64, 0x5d, 0x19, 0x73,
      0x60, 0x81, 0x4f, 0xdc, 0x22, 0x2a, 0x90, 0x88, 0x46, 0xee, 0xb8, 0x14, 0xde, 0x5e, 0x0b, 0xdb,
      0xe0, 0x32, 0x3a, 0x0a, 0x49, 0x06, 0x24, 0x5c, 0xc2, 0xd3, 0xac, 0x62, 0x91, 0x95, 0xe4, 0x79,
      0xe7, 0xc8, 0x37, 0x6d, 0x8d, 0xd5, 0x4e, 0xa9, 0x6c, 0x56, 0xf4, 0xea, 0x65, 0x7a, 0xae, 0x08,
      0xba, 0x78, 0x25, 0x2e, 0x1c, 0xa6, 0xb4, 0xc6, 0xe8, 0xdd, 0x74, 0x1f, 0x4b, 0xbd, 0x8b, 0x8a,
      0x70, 0x3e, 0xb5, 0x66, 0x48, 0x03, 0xf6, 0x0e, 0x61, 0x35, 0x57, 0xb9, 0x86, 0xc1, 0x1d, 0x9e,
      0xe1, 0xf8, 0x98, 0x11, 0x69, 0xd9, 0x8e, 0x94, 0x9b, 0x1e, 0x87, 0xe9, 0xce, 0x55, 0x28, 0xdf,
      0x8c, 0xa1, 0x89, 0x0d, 0xbf, 0xe6, 0x42, 0x68, 0x41, 0x99, 0x2d, 0x0f, 0xb0, 0x54, 0xbb, 0x16]"

definition galois_mul2 :: "u8 \<Rightarrow> u8" where
  "galois_mul2 v = (let xor_val = drop_bit 7 v * 0x1b in push_bit 1 v XOR xor_val)"

definition sub :: "u8 \<Rightarrow> u8" where
  "sub b = sbox ! unat b"

text \<open>One row of \<open>round_keys\<close>, computed in place (\<open>row\<close> is what it held) from the one before it.\<close>

definition expand_row :: "u8 \<Rightarrow> u8 list \<Rightarrow> u8 list \<Rightarrow> u8 list" where
  "expand_row rcon prev row =
     (let row = row[0 := sub (prev ! 13) XOR prev ! 0 XOR rcon];
          row = row[1 := sub (prev ! 14) XOR prev ! 1];
          row = row[2 := sub (prev ! 15) XOR prev ! 2];
          row = row[3 := sub (prev ! 12) XOR prev ! 3]
      in fold (\<lambda>j row. row[j := prev ! j XOR row ! (j - 4)]) [4..<16] row)"

definition set_key :: "u8 list \<Rightarrow> u8 list list \<Rightarrow> u8 list list" where
  "set_key key round_keys =
     fst (fold (\<lambda>i (rk, rcon). (rk[i := expand_row rcon (rk ! (i - 1)) (rk ! i)], galois_mul2 rcon))
            [1..<11] (round_keys[0 := take 16 key], 1))"

definition add_round_key :: "u8 list \<Rightarrow> u8 list \<Rightarrow> u8 list" where
  "add_round_key k state = fold (\<lambda>i s. s[i := s ! i XOR k ! i]) [0..<16] state"

definition byte_sub :: "u8 list \<Rightarrow> u8 list" where
  "byte_sub state = fold (\<lambda>i s. s[i := sub (s ! i)]) [0..<16] state"

definition shift_row :: "u8 list \<Rightarrow> u8 list" where
  "shift_row state =
     (let buf1 = state ! 1; s = state[1 := state ! 5]; s = s[5 := s ! 9]; s = s[9 := s ! 13];
          s = s[13 := buf1];
          buf1 = s ! 2; buf2 = s ! 6; s = s[2 := s ! 10]; s = s[6 := s ! 14]; s = s[10 := buf1];
          s = s[14 := buf2];
          buf1 = s ! 15; s = s[15 := s ! 11]; s = s[11 := s ! 7]; s = s[7 := s ! 3]
      in s[3 := buf1])"

definition mix_one :: "nat \<Rightarrow> u8 list \<Rightarrow> u8 list" where
  "mix_one i s =
     (let buf4 = 4 * i;
          buf1 = s ! buf4 XOR s ! (buf4 + 1) XOR s ! (buf4 + 2) XOR s ! (buf4 + 3);
          buf2 = s ! buf4;
          buf3 = galois_mul2 (s ! buf4 XOR s ! (buf4 + 1));
          s = s[buf4 := s ! buf4 XOR buf3 XOR buf1];
          buf3 = galois_mul2 (s ! (buf4 + 1) XOR s ! (buf4 + 2));
          s = s[buf4 + 1 := s ! (buf4 + 1) XOR buf3 XOR buf1];
          buf3 = galois_mul2 (s ! (buf4 + 2) XOR s ! (buf4 + 3));
          s = s[buf4 + 2 := s ! (buf4 + 2) XOR buf3 XOR buf1];
          buf3 = galois_mul2 (s ! (buf4 + 3) XOR buf2)
      in s[buf4 + 3 := s ! (buf4 + 3) XOR buf3 XOR buf1])"

definition mix_column :: "u8 list \<Rightarrow> u8 list" where
  "mix_column state = fold mix_one [0..<4] state"

definition encrypt :: "u8 list list \<Rightarrow> u8 list \<Rightarrow> u8 list" where
  "encrypt round_keys state =
     fold (\<lambda>round s.
         let s = shift_row (byte_sub s);
             s = (if round < 10 then mix_column s else s)
         in add_round_key (round_keys ! round) s)
       [1..<11] (add_round_key (round_keys ! 0) state)"

definition aes_128_set_padded_key :: "u8 list \<Rightarrow> nat \<Rightarrow> u8 list list \<Rightarrow> u8 list list" where
  "aes_128_set_padded_key key key_len round_keys =
     set_key (take key_len key @ drop key_len (replicate 16 0)) round_keys"

section \<open>The field, and the cipher of FIPS-197\<close>

text \<open>Multiplication in the field of 256 elements modulo \<open>x\<^sup>8 + x\<^sup>4 + x\<^sup>3 + x + 1\<close>, by shift and add.\<close>

fun gf_mul_bits :: "nat \<Rightarrow> u8 \<Rightarrow> u8 \<Rightarrow> u8" where
  "gf_mul_bits 0 a b = 0"
| "gf_mul_bits (Suc n) a b =
     (if bit b 0 then a else 0) XOR
     gf_mul_bits n (if bit a 7 then push_bit 1 a XOR 0x1b else push_bit 1 a) (drop_bit 1 b)"

definition gf_mul :: "u8 \<Rightarrow> u8 \<Rightarrow> u8" where
  "gf_mul a b = gf_mul_bits 8 a b"

text \<open>The inverse in the field, the byte whose product with \<open>b\<close> is 1, and 0 for 0.\<close>

definition field_inverse :: "u8 \<Rightarrow> u8" where
  "field_inverse b = (case find (\<lambda>v. gf_mul b v = 1) (map word_of_nat [0..<256]) of None \<Rightarrow> 0 | Some v \<Rightarrow> v)"

definition rotl8 :: "nat \<Rightarrow> u8 \<Rightarrow> u8" where
  "rotl8 n b = push_bit n b OR drop_bit (8 - n) b"

definition affine :: "u8 \<Rightarrow> u8" where
  "affine b = b XOR rotl8 1 b XOR rotl8 2 b XOR rotl8 3 b XOR rotl8 4 b XOR 0x63"

definition s_box_spec :: "u8 \<Rightarrow> u8" where
  "s_box_spec b = affine (field_inverse b)"

text \<open>Byte \<open>r + 4 c\<close> of a block is row \<open>r\<close> of column \<open>c\<close>.\<close>

definition shift_rows_spec :: "u8 list \<Rightarrow> u8 list" where
  "shift_rows_spec s = map (\<lambda>i. s ! ((i mod 4) + 4 * ((i div 4 + i mod 4) mod 4))) [0..<16]"

definition mix_columns_spec :: "u8 list \<Rightarrow> u8 list" where
  "mix_columns_spec s =
     map (\<lambda>i. let c = 4 * (i div 4); r = i mod 4 in
        gf_mul (s ! (c + r)) 2 XOR gf_mul (s ! (c + (r + 1) mod 4)) 3 XOR
        s ! (c + (r + 2) mod 4) XOR s ! (c + (r + 3) mod 4)) [0..<16]"

fun rcon_spec :: "nat \<Rightarrow> u8" where
  "rcon_spec 0 = 1"
| "rcon_spec (Suc i) = gf_mul (rcon_spec i) 2"

text \<open>The words of the key schedule, four bytes each.\<close>

fun key_word :: "u8 list \<Rightarrow> nat \<Rightarrow> u8 list" where
  "key_word key i =
     (if i < 4 then take 4 (drop (4 * i) key)
      else
        let t = key_word key (i - 1);
            t = (if i mod 4 = 0
                 then map2 (XOR) (map s_box_spec [t ! 1, t ! 2, t ! 3, t ! 0]) [rcon_spec (i div 4 - 1), 0, 0, 0]
                 else t)
        in map2 (XOR) (key_word key (i - 4)) t)"

declare key_word.simps [simp del]

definition round_key_spec :: "u8 list \<Rightarrow> nat \<Rightarrow> u8 list" where
  "round_key_spec key r = concat (map (\<lambda>c. key_word key (4 * r + c)) [0..<4])"

definition xor_block :: "u8 list \<Rightarrow> u8 list \<Rightarrow> u8 list" where
  "xor_block s k = map2 (XOR) s k"

definition round_spec :: "u8 list \<Rightarrow> u8 list \<Rightarrow> u8 list" where
  "round_spec k s = xor_block (mix_columns_spec (shift_rows_spec (map s_box_spec s))) k"

definition cipher_spec :: "u8 list \<Rightarrow> u8 list \<Rightarrow> u8 list" where
  "cipher_spec key block =
     xor_block
       (shift_rows_spec (map s_box_spec
          (fold (\<lambda>r. round_spec (round_key_spec key r)) [1..<10] (xor_block block (round_key_spec key 0)))))
       (round_key_spec key 10)"

section \<open>The S-box\<close>

text \<open>The inverses in the field, certified by multiplication below.\<close>

definition gf_inverses :: "u8 list" where
  "gf_inverses =
     [0x00, 0x01, 0x8d, 0xf6, 0xcb, 0x52, 0x7b, 0xd1, 0xe8, 0x4f, 0x29, 0xc0, 0xb0, 0xe1, 0xe5, 0xc7,
      0x74, 0xb4, 0xaa, 0x4b, 0x99, 0x2b, 0x60, 0x5f, 0x58, 0x3f, 0xfd, 0xcc, 0xff, 0x40, 0xee, 0xb2,
      0x3a, 0x6e, 0x5a, 0xf1, 0x55, 0x4d, 0xa8, 0xc9, 0xc1, 0x0a, 0x98, 0x15, 0x30, 0x44, 0xa2, 0xc2,
      0x2c, 0x45, 0x92, 0x6c, 0xf3, 0x39, 0x66, 0x42, 0xf2, 0x35, 0x20, 0x6f, 0x77, 0xbb, 0x59, 0x19,
      0x1d, 0xfe, 0x37, 0x67, 0x2d, 0x31, 0xf5, 0x69, 0xa7, 0x64, 0xab, 0x13, 0x54, 0x25, 0xe9, 0x09,
      0xed, 0x5c, 0x05, 0xca, 0x4c, 0x24, 0x87, 0xbf, 0x18, 0x3e, 0x22, 0xf0, 0x51, 0xec, 0x61, 0x17,
      0x16, 0x5e, 0xaf, 0xd3, 0x49, 0xa6, 0x36, 0x43, 0xf4, 0x47, 0x91, 0xdf, 0x33, 0x93, 0x21, 0x3b,
      0x79, 0xb7, 0x97, 0x85, 0x10, 0xb5, 0xba, 0x3c, 0xb6, 0x70, 0xd0, 0x06, 0xa1, 0xfa, 0x81, 0x82,
      0x83, 0x7e, 0x7f, 0x80, 0x96, 0x73, 0xbe, 0x56, 0x9b, 0x9e, 0x95, 0xd9, 0xf7, 0x02, 0xb9, 0xa4,
      0xde, 0x6a, 0x32, 0x6d, 0xd8, 0x8a, 0x84, 0x72, 0x2a, 0x14, 0x9f, 0x88, 0xf9, 0xdc, 0x89, 0x9a,
      0xfb, 0x7c, 0x2e, 0xc3, 0x8f, 0xb8, 0x65, 0x48, 0x26, 0xc8, 0x12, 0x4a, 0xce, 0xe7, 0xd2, 0x62,
      0x0c, 0xe0, 0x1f, 0xef, 0x11, 0x75, 0x78, 0x71, 0xa5, 0x8e, 0x76, 0x3d, 0xbd, 0xbc, 0x86, 0x57,
      0x0b, 0x28, 0x2f, 0xa3, 0xda, 0xd4, 0xe4, 0x0f, 0xa9, 0x27, 0x53, 0x04, 0x1b, 0xfc, 0xac, 0xe6,
      0x7a, 0x07, 0xae, 0x63, 0xc5, 0xdb, 0xe2, 0xea, 0x94, 0x8b, 0xc4, 0xd5, 0x9d, 0xf8, 0x90, 0x6b,
      0xb1, 0x0d, 0xd6, 0xeb, 0xc6, 0x0e, 0xcf, 0xad, 0x08, 0x4e, 0xd7, 0xe3, 0x5d, 0x50, 0x1e, 0xb3,
      0x5b, 0x23, 0x38, 0x34, 0x68, 0x46, 0x03, 0x8c, 0xdd, 0x9c, 0x7d, 0xa0, 0xcd, 0x1a, 0x41, 0x1c]"

definition gf_inv :: "u8 \<Rightarrow> u8" where
  "gf_inv b = gf_inverses ! unat b"

text \<open>Multiplication is linear in its first argument and commutes with multiplication by \<open>x\<close>; so inverses are
  unique.\<close>

definition xtime :: "u8 \<Rightarrow> u8" where
  "xtime a = (if bit a 7 then push_bit 1 a XOR 0x1b else push_bit 1 a)"

lemma gf_mul_bits_Suc: "gf_mul_bits (Suc n) a b = (if bit b 0 then a else 0) XOR gf_mul_bits n (xtime a) (drop_bit 1 b)"
  by (simp add: xtime_def)

lemma xtime_xor: "xtime (a XOR b) = xtime a XOR xtime b"
  by (auto simp: xtime_def bit_xor_iff push_bit_xor xor.assoc xor.left_commute xor.commute)

lemma xtime_0 [simp]: "xtime 0 = 0"
  by (simp add: xtime_def)

lemma gf_mul_bits_xor: "gf_mul_bits n (a XOR b) c = gf_mul_bits n a c XOR gf_mul_bits n b c"
  by (induction n arbitrary: a b c) (simp, auto simp: gf_mul_bits_Suc xtime_xor xor.assoc xor.left_commute simp del: gf_mul_bits.simps(2))

lemma gf_mul_bits_xtime: "gf_mul_bits n (xtime a) c = xtime (gf_mul_bits n a c)"
  by (induction n arbitrary: a c) (simp, auto simp: gf_mul_bits_Suc xtime_xor simp del: gf_mul_bits.simps(2))

lemma gf_mul_bits_zero: "gf_mul_bits n 0 c = 0"
  by (induction n arbitrary: c) (simp, auto simp: gf_mul_bits_Suc simp del: gf_mul_bits.simps(2))

lemma gf_mul_exchange: "gf_mul (gf_mul a c) b = gf_mul (gf_mul a b) c"
proof -
  have "gf_mul (gf_mul_bits n a c) b = gf_mul_bits n (gf_mul a b) c" for n
  proof (induction n arbitrary: a c)
    case (Suc n)
    have "gf_mul (xtime a) b = xtime (gf_mul a b)" by (simp add: gf_mul_def gf_mul_bits_xtime)
    with Suc [of "xtime a" "drop_bit 1 c"] show ?case
      unfolding gf_mul_bits_Suc by (auto simp: gf_mul_def gf_mul_bits_xor gf_mul_bits_zero)
  qed (simp add: gf_mul_def gf_mul_bits_zero)
  then show ?thesis by (simp add: gf_mul_def)
qed

lemma low_bit:
  fixes b :: u8
  shows "(if bit b k then push_bit k 1 else 0) XOR push_bit (Suc k) (drop_bit (Suc k) b) = push_bit k (drop_bit k b)"
proof (rule bit_word_eqI)
  fix n assume "n < LENGTH(8)"
  consider "n < k" | "n = k" | "k < n" by linarith
  then show "bit ((if bit b k then push_bit k 1 else 0) XOR push_bit (Suc k) (drop_bit (Suc k) b)) n = bit (push_bit k (drop_bit k b)) n"
    using \<open>n < LENGTH(8)\<close> by cases (auto simp: bit_simps simp del: push_bit_Suc drop_bit_Suc push_bit_of_1)
qed

lemma gf_mul_one: "gf_mul 1 b = b"
proof -
  have "gf_mul_bits n (push_bit k 1) (drop_bit k b) = push_bit k (drop_bit k b)" if "n + k = 8" for n k
    using that
  proof (induction n arbitrary: k)
    case 0
    then have "k = 8" by simp
    moreover have "drop_bit 8 b = 0" by (auto simp: bit_eq_iff bit_simps dest: bit_imp_le_length)
    ultimately show ?case by simp
  next
    case (Suc n)
    have "gf_mul_bits n (xtime (push_bit k 1)) (drop_bit (Suc k) b) = push_bit (Suc k) (drop_bit (Suc k) b)"
    proof (cases n)
      case 0
      then have "Suc k = 8" using Suc.prems by simp
      moreover have "drop_bit 8 b = 0" by (auto simp: bit_eq_iff bit_simps dest: bit_imp_le_length)
      ultimately show ?thesis using 0 by simp
    next
      case (Suc m)
      then have "k \<noteq> 7" using Suc.prems by simp
      then have "xtime (push_bit k 1) = push_bit (Suc k) 1" by (simp add: xtime_def bit_simps push_bit_Suc)
      then show ?thesis using Suc.IH [of "Suc k"] Suc.prems by simp
    qed
    then show ?case
      using low_bit [of b k] by (simp only: gf_mul_bits_Suc bit_drop_bit_eq comp_def add_0_right drop_bit_drop_bit)
        (simp add: bit_push_bit_iff_nat)
  qed
  from this [of 8 0] show ?thesis by (simp add: gf_mul_def)
qed

lemma field_inverse_unique: "gf_mul b v = 1 \<Longrightarrow> gf_mul b w = 1 \<Longrightarrow> v = w"
  using gf_mul_exchange [of b v w] by (simp add: gf_mul_one)

lemma gf_mul_unrolled: "gf_mul a b = gf_mul_bits (Suc (Suc (Suc (Suc (Suc (Suc (Suc (Suc 0)))))))) a b"
  by (simp add: gf_mul_def eval_nat_numeral)

lemma affine_inverses: "map affine gf_inverses = sbox"
  by (simp add: affine_def rotl8_def gf_inverses_def sbox_def)

lemma inverses_low:
  "list_all2 (\<lambda>i v. i = 0 \<or> gf_mul i v = 1)
     [0x00, 0x01, 0x02, 0x03, 0x04, 0x05, 0x06, 0x07, 0x08, 0x09, 0x0a, 0x0b, 0x0c, 0x0d, 0x0e, 0x0f, 0x10,
      0x11, 0x12, 0x13, 0x14, 0x15, 0x16, 0x17, 0x18, 0x19, 0x1a, 0x1b, 0x1c, 0x1d, 0x1e, 0x1f, 0x20,
      0x21, 0x22, 0x23, 0x24, 0x25, 0x26, 0x27, 0x28, 0x29, 0x2a, 0x2b, 0x2c, 0x2d, 0x2e, 0x2f, 0x30,
      0x31, 0x32, 0x33, 0x34, 0x35, 0x36, 0x37, 0x38, 0x39, 0x3a, 0x3b, 0x3c, 0x3d, 0x3e, 0x3f]
     (take 64 (drop 0 gf_inverses))"
  unfolding gf_inverses_def by (simp add: gf_mul_unrolled)

lemma inverses_mid:
  "list_all2 (\<lambda>i v. i = 0 \<or> gf_mul i v = 1)
     [0x40, 0x41, 0x42, 0x43, 0x44, 0x45, 0x46, 0x47, 0x48, 0x49, 0x4a, 0x4b, 0x4c, 0x4d, 0x4e, 0x4f,
      0x50, 0x51, 0x52, 0x53, 0x54, 0x55, 0x56, 0x57, 0x58, 0x59, 0x5a, 0x5b, 0x5c, 0x5d, 0x5e, 0x5f,
      0x60, 0x61, 0x62, 0x63, 0x64, 0x65, 0x66, 0x67, 0x68, 0x69, 0x6a, 0x6b, 0x6c, 0x6d, 0x6e, 0x6f,
      0x70, 0x71, 0x72, 0x73, 0x74, 0x75, 0x76, 0x77, 0x78, 0x79, 0x7a, 0x7b, 0x7c, 0x7d, 0x7e, 0x7f]
     (take 64 (drop 64 gf_inverses))"
  unfolding gf_inverses_def by (simp add: gf_mul_unrolled)

lemma inverses_high:
  "list_all2 (\<lambda>i v. i = 0 \<or> gf_mul i v = 1)
     [0x80, 0x81, 0x82, 0x83, 0x84, 0x85, 0x86, 0x87, 0x88, 0x89, 0x8a, 0x8b, 0x8c, 0x8d, 0x8e, 0x8f,
      0x90, 0x91, 0x92, 0x93, 0x94, 0x95, 0x96, 0x97, 0x98, 0x99, 0x9a, 0x9b, 0x9c, 0x9d, 0x9e, 0x9f,
      0xa0, 0xa1, 0xa2, 0xa3, 0xa4, 0xa5, 0xa6, 0xa7, 0xa8, 0xa9, 0xaa, 0xab, 0xac, 0xad, 0xae, 0xaf,
      0xb0, 0xb1, 0xb2, 0xb3, 0xb4, 0xb5, 0xb6, 0xb7, 0xb8, 0xb9, 0xba, 0xbb, 0xbc, 0xbd, 0xbe, 0xbf]
     (take 64 (drop 128 gf_inverses))"
  unfolding gf_inverses_def by (simp add: gf_mul_unrolled)

lemma inverses_top:
  "list_all2 (\<lambda>i v. i = 0 \<or> gf_mul i v = 1)
     [0xc0, 0xc1, 0xc2, 0xc3, 0xc4, 0xc5, 0xc6, 0xc7, 0xc8, 0xc9, 0xca, 0xcb, 0xcc, 0xcd, 0xce, 0xcf,
      0xd0, 0xd1, 0xd2, 0xd3, 0xd4, 0xd5, 0xd6, 0xd7, 0xd8, 0xd9, 0xda, 0xdb, 0xdc, 0xdd, 0xde, 0xdf,
      0xe0, 0xe1, 0xe2, 0xe3, 0xe4, 0xe5, 0xe6, 0xe7, 0xe8, 0xe9, 0xea, 0xeb, 0xec, 0xed, 0xee, 0xef,
      0xf0, 0xf1, 0xf2, 0xf3, 0xf4, 0xf5, 0xf6, 0xf7, 0xf8, 0xf9, 0xfa, 0xfb, 0xfc, 0xfd, 0xfe, 0xff]
     (take 64 (drop 192 gf_inverses))"
  unfolding gf_inverses_def by (simp add: gf_mul_unrolled)

lemma upt_split: "i \<le> j \<Longrightarrow> j \<le> k \<Longrightarrow> [i..<k] = [i..<j] @ [j..<k]"
  using upt_add_eq_append [of i j "k - j"] by simp

lemma bytes_split: "[0..<256] = [0..<64] @ [64..<128] @ [128..<192] @ [192..<256]"
  by (subst upt_split [of 0 64], simp, simp, subst upt_split [of 64 128], simp, simp,
      subst upt_split [of 128 192], simp, simp, rule refl)

lemma inverses_low': "list_all2 (\<lambda>i v. i = 0 \<or> gf_mul i v = 1) (map word_of_nat [0..<64]) (take 64 (drop 0 gf_inverses))"
proof -
  have "[0..<2] = [0, 1 :: nat]" by (simp add: numeral_2_eq_2)
  then have "[0..<64] = [0, 1] @ [2..<(64 :: nat)]" using upt_split [of 0 2 64] by simp
  then have "map (word_of_nat :: nat \<Rightarrow> u8) [0..<64] = 0 # 1 # map word_of_nat [2..<64]" by simp
  then show ?thesis using inverses_low by (simp only:) simp
qed

lemma inverses_all:
  "list_all2 (\<lambda>i v. i = 0 \<or> gf_mul i v = 1) (map word_of_nat [0..<256]) gf_inverses"
proof -
  have s: "map (word_of_nat :: nat \<Rightarrow> u8) [0..<256] =
    map word_of_nat [0..<64] @ map word_of_nat [64..<128] @ map word_of_nat [128..<192] @
    map word_of_nat [192..<256]" by (simp only: bytes_split map_append)
  have t: "gf_inverses = take 64 (drop 0 gf_inverses) @ take 64 (drop 64 gf_inverses) @
    take 64 (drop 128 gf_inverses) @ take 64 (drop 192 gf_inverses)"
    by (simp add: gf_inverses_def)
  have "list_all2 (\<lambda>i v. i = 0 \<or> gf_mul i v = 1) (map word_of_nat [64..<128]) (take 64 (drop 64 gf_inverses))"
    using inverses_mid by simp
  moreover have "list_all2 (\<lambda>i v. i = 0 \<or> gf_mul i v = 1) (map word_of_nat [128..<192]) (take 64 (drop 128 gf_inverses))"
    using inverses_high by simp
  moreover have "list_all2 (\<lambda>i v. i = 0 \<or> gf_mul i v = 1) (map word_of_nat [192..<256]) (take 64 (drop 192 gf_inverses))"
    using inverses_top by simp
  ultimately show ?thesis unfolding s by (subst t) (intro list_all2_appendI inverses_low')
qed

lemma length_inverses: "length gf_inverses = 256"
  by (simp add: gf_inverses_def)

text \<open>the substitution table is the S-box of the standard: the affine transform over the bits
  of the multiplicative inverse in the field, with zero for its own inverse.\<close>

theorem sbox_is_affine_inverse:
  "sub b = affine (gf_inv b) \<and> gf_inv 0 = 0 \<and> (b = 0 \<or> gf_mul b (gf_inv b) = 1)"
proof -
  have lt: "unat b < 256" using unsigned_less [of b, where 'a = nat] by simp
  then have "affine (gf_inverses ! unat b) = map affine gf_inverses ! unat b" by (simp add: length_inverses)
  then have "sub b = affine (gf_inv b)" by (simp add: affine_inverses sub_def gf_inv_def)
  moreover have "gf_inv 0 = 0" by (simp add: gf_inv_def gf_inverses_def)
  moreover have "b = 0 \<or> gf_mul b (gf_inv b) = 1"
  proof -
    have "unat b < length (map (word_of_nat :: nat \<Rightarrow> u8) [0..<256])" using lt by simp
    moreover have "map (word_of_nat :: nat \<Rightarrow> u8) [0..<256] ! unat b = word_of_nat (unat b)"
      using lt nth_map [of "unat b" "[0..<256]" "word_of_nat :: nat \<Rightarrow> u8"] by (simp only: length_upt nth_upt) simp
    ultimately have "word_of_nat (unat b) = (0 :: u8) \<or> gf_mul (word_of_nat (unat b)) (gf_inverses ! unat b) = 1"
      using list_all2_nthD [OF inverses_all, of "unat b"] by (simp only:)
    then show ?thesis by (simp add: gf_inv_def)
  qed
  ultimately show ?thesis by blast
qed

lemma field_inverse_table: "field_inverse b = gf_inv b"
proof -
  have all: "v \<in> set (map word_of_nat [0..<256])" for v :: u8
  proof -
    have "v = word_of_nat (unat v)" "unat v < 256" using unsigned_less [of v, where 'a = nat] by simp_all
    then show ?thesis by (metis atLeast0LessThan imageI lessThan_iff list.set_map set_upt)
  qed
  show ?thesis
  proof (cases "b = 0")
    case True
    have "gf_mul 0 v \<noteq> 1" for v by (simp add: gf_mul_def gf_mul_bits_zero)
    then have "find (\<lambda>v. gf_mul b v = 1) (map word_of_nat [0..<256]) = None"
      unfolding True find_None_iff by blast
    then show ?thesis using sbox_is_affine_inverse [of 0] True by (simp add: field_inverse_def)
  next
    case False
    then have "gf_mul b (gf_inv b) = 1" using sbox_is_affine_inverse by blast
    moreover from this have "find (\<lambda>v. gf_mul b v = 1) (map word_of_nat [0..<256]) \<noteq> None"
      unfolding find_None_iff using all by blast
    then obtain v where v: "find (\<lambda>v. gf_mul b v = 1) (map word_of_nat [0..<256]) = Some v" by blast
    then have "gf_mul b v = 1" by (auto simp: find_Some_iff)
    ultimately show ?thesis using field_inverse_unique v by (simp add: field_inverse_def)
  qed
qed

lemma s_box_table: "s_box_spec = sub"
  using sbox_is_affine_inverse by (simp add: fun_eq_iff s_box_spec_def field_inverse_table)

lemmas key_word_eq = key_word.simps [unfolded s_box_table]
lemmas round_spec_eq = round_spec_def [unfolded s_box_table]
lemmas cipher_spec_eq = cipher_spec_def [unfolded s_box_table]

section \<open>Each step of the code is the step of the standard\<close>

lemma fold_update:
  "n \<le> length s \<Longrightarrow> fold (\<lambda>i s. s[i := f i (s ! i)]) [0..<n] s = map (\<lambda>i. f i (s ! i)) [0..<n] @ drop n s"
proof (induction n)
  case (Suc n)
  then have n: "n < length s" by simp
  let ?m = "map (\<lambda>i. f i (s ! i)) [0..<n]"
  have "(?m @ drop n s)[n := f n ((?m @ drop n s) ! n)] = ?m @ (drop n s)[0 := f n (s ! n)]"
    using n by (simp add: list_update_append nth_append)
  also have "(drop n s)[0 := f n (s ! n)] = f n (s ! n) # drop (Suc n) s"
    using n by (simp add: Cons_nth_drop_Suc [symmetric])
  finally show ?case using Suc n by simp
qed simp

lemma map2_nth: "length s = n \<Longrightarrow> length k = n \<Longrightarrow> map2 f s k = map (\<lambda>i. f (s ! i) (k ! i)) [0..<n]"
  by (rule nth_equalityI) simp_all

lemma add_round_key_spec: "length s = 16 \<Longrightarrow> length k = 16 \<Longrightarrow> add_round_key k s = xor_block s k"
  using fold_update [of 16 s "\<lambda>i b. b XOR k ! i"] map2_nth [of s 16 k "(XOR)"]
  by (simp add: add_round_key_def xor_block_def)

lemma byte_sub_spec: "length s = 16 \<Longrightarrow> byte_sub s = map sub s"
proof -
  assume "length s = 16"
  then have "byte_sub s = map (\<lambda>i. sub (s ! i)) [0..<16]"
    using fold_update [of 16 s "\<lambda>_. sub"] by (simp only: byte_sub_def) simp
  also have "\<dots> = map sub (map ((!) s) [0..<length s])" using \<open>length s = 16\<close> by (simp only: map_map comp_def)
  finally show ?thesis by (simp only: map_nth)
qed


lemma length_update_fold: "length (fold (\<lambda>i s. s[i := f i s]) is s) = length s"
  by (induction "is" arbitrary: s) simp_all

lemma add_round_key_length [simp]: "length (add_round_key k s) = length s"
  by (simp add: add_round_key_def length_update_fold)

lemma list16:
  assumes "length s = 16"
  obtains a0 a1 a2 a3 a4 a5 a6 a7 a8 a9 a10 a11 a12 a13 a14 a15
  where "s = [a0, a1, a2, a3, a4, a5, a6, a7, a8, a9, a10, a11, a12, a13, a14, a15]"
  using assms by (auto simp: length_Suc_conv numeral_eq_Suc)

lemma upt_16: "[0..<16] = [0, 1, 2, 3, 4, 5, 6, 7, 8, 9, 10, 11, 12, 13, 14, 15 :: nat]"
  by (simp add: upt_rec)

lemma upt_4: "[0..<4] = [0, 1, 2, 3 :: nat]"
  by (simp add: upt_rec)

lemma shift_row_spec:
  assumes "length s = 16"
  shows "shift_row s = shift_rows_spec s"
  using assms by (elim list16) (simp add: shift_row_def shift_rows_spec_def upt_16 Let_def)

lemma bit_7_drop: "drop_bit 7 (a :: u8) * 27 = (if bit a 7 then 0x1b else 0)"
proof -
  have "drop_bit 7 a = (if bit a 7 then 1 else 0)"
  proof (rule bit_word_eqI)
    fix i assume "i < LENGTH(8)"
    then show "bit (drop_bit 7 a) i = bit (if bit a 7 then 1 else 0 :: u8) i"
      using bit_imp_le_length [of a "7 + i"] by (cases "i = 0") (auto simp: bit_drop_bit_eq bit_1_iff)
  qed
  then show ?thesis by simp
qed

lemma galois_mul2_if: "galois_mul2 a = (if bit a 7 then push_bit 1 a XOR 0x1b else push_bit 1 a)"
  unfolding galois_mul2_def Let_def by (simp only: bit_7_drop) simp

lemma gf_mul_two: "gf_mul a 2 = galois_mul2 a"
  by (simp add: gf_mul_unrolled galois_mul2_if)

lemma gf_mul_three: "gf_mul a 3 = galois_mul2 a XOR a"
  by (simp add: gf_mul_unrolled galois_mul2_if xor.commute [of a])

lemma galois_mul2_xor: "galois_mul2 (a XOR b) = galois_mul2 a XOR galois_mul2 b"
  unfolding galois_mul2_if bit_xor_iff push_bit_xor
  by (cases "bit a 7"; cases "bit b 7"; simp only: simp_thms if_True if_False not_True_eq_False not_False_eq_True)
    (rule bit_word_eqI; auto simp: bit_xor_iff)+

lemma mix_column_spec:
  assumes "length s = 16"
  shows "mix_column s = mix_columns_spec s"
proof -
  have x: "a XOR galois_mul2 (a XOR b) XOR a XOR b XOR c XOR d = galois_mul2 a XOR (galois_mul2 b XOR b) XOR c XOR d"
    "b XOR galois_mul2 (b XOR c) XOR a XOR b XOR c XOR d = galois_mul2 b XOR (galois_mul2 c XOR c) XOR d XOR a"
    "c XOR galois_mul2 (c XOR d) XOR a XOR b XOR c XOR d = galois_mul2 c XOR (galois_mul2 d XOR d) XOR a XOR b"
    "d XOR galois_mul2 (d XOR a) XOR a XOR b XOR c XOR d = galois_mul2 d XOR (galois_mul2 a XOR a) XOR b XOR c" for a b c d
    unfolding galois_mul2_xor by (rule bit_word_eqI, auto simp: bit_xor_iff)+
  show ?thesis
    using assms
    by (elim list16) (simp add: mix_column_def mix_columns_spec_def mix_one_def upt_4 upt_16 Let_def
        gf_mul_two gf_mul_three x)
qed

lemma spec_lengths [simp]:
  "length (shift_rows_spec s) = 16" "length (mix_columns_spec s) = 16"
  by (simp_all add: shift_rows_spec_def mix_columns_spec_def)

lemma xor_block_length [simp]: "length (xor_block s k) = min (length s) (length k)"
  by (simp add: xor_block_def)

section \<open>The key schedule\<close>

lemma upt_4_16: "[4..<16] = [4, 5, 6, 7, 8, 9, 10, 11, 12, 13, 14, 15 :: nat]"
  by (simp add: upt_rec)

lemma length_key_word: "length key = 16 \<Longrightarrow> length (key_word key i) = 4"
proof (induction i rule: less_induct)
  case (less i)
  then show ?case by (subst key_word_eq) (auto simp: Let_def)
qed

lemma list4:
  assumes "length s = 4"
  obtains a0 a1 a2 a3 where "s = [a0, a1, a2, a3]"
  using assms by (auto simp: length_Suc_conv numeral_eq_Suc)

lemma round_key_words:
  "round_key_spec key r = key_word key (4 * r) @ key_word key (4 * r + 1) @ key_word key (4 * r + 2) @ key_word key (4 * r + 3)"
  by (simp add: round_key_spec_def upt_4)

lemma expand_row_spec:
  assumes "length key = 16" and "length row = 16"
  shows "expand_row (rcon_spec r) (round_key_spec key r) row = round_key_spec key (Suc r)"
proof -
  have w: "length (key_word key i) = 4" for i using length_key_word [OF assms(1)] .
  obtain a0 a1 a2 a3 where a: "key_word key (4 * r) = [a0, a1, a2, a3]" using w by (rule list4)
  obtain b0 b1 b2 b3 where b: "key_word key (4 * r + 1) = [b0, b1, b2, b3]" using w by (rule list4)
  obtain c0 c1 c2 c3 where c: "key_word key (4 * r + 2) = [c0, c1, c2, c3]" using w by (rule list4)
  obtain d0 d1 d2 d3 where d: "key_word key (4 * r + 3) = [d0, d1, d2, d3]" using w by (rule list4)
  have n0: "key_word key (4 * Suc r) =
      [a0 XOR sub d1 XOR rcon_spec r, a1 XOR sub d2, a2 XOR sub d3, a3 XOR sub d0]"
  proof -
    have i: "4 * Suc r - 1 = 4 * r + 3" "4 * Suc r - 4 = 4 * r" "4 * Suc r mod 4 = 0" "4 * Suc r div 4 - 1 = r"
      "\<not> 4 * Suc r < 4" by simp_all
    show ?thesis by (subst key_word_eq) (simp only: i a d Let_def if_True if_False, simp)
  qed
  have n1: "key_word key (4 * Suc r + 1) = map2 (XOR) (key_word key (4 * r + 1)) (key_word key (4 * Suc r))"
    by (subst key_word_eq) (simp add: Let_def)
  have n2: "key_word key (4 * Suc r + 2) = map2 (XOR) (key_word key (4 * r + 2)) (key_word key (4 * Suc r + 1))"
    by (subst key_word_eq) (simp add: Let_def)
  have n3: "key_word key (4 * Suc r + 3) = map2 (XOR) (key_word key (4 * r + 3)) (key_word key (4 * Suc r + 2))"
    by (subst key_word_eq) (simp add: Let_def add.commute)
  have rk: "round_key_spec key r = [a0, a1, a2, a3, b0, b1, b2, b3, c0, c1, c2, c3, d0, d1, d2, d3]"
    by (simp only: round_key_words a b c d append_Cons append_Nil)
  show ?thesis
    unfolding rk round_key_words [of key "Suc r"] n3 n2 n1 n0 b c d
    using assms(2)
    by (elim list16) (simp add: expand_row_def Let_def upt_4_16 ac_simps)
qed

section \<open>The cipher\<close>

definition keyed :: "u8 list \<Rightarrow> u8 list list \<Rightarrow> bool" where
  "keyed key rks \<longleftrightarrow> length rks = 11 \<and> (\<forall>r \<le> 10. rks ! r = round_key_spec key r)"

lemma length_expand_row [simp]: "length (expand_row c p row) = length row"
  by (simp add: expand_row_def Let_def length_update_fold)

lemma length_round_key: "length key = 16 \<Longrightarrow> length (round_key_spec key r) = 16"
  by (simp add: round_key_words length_key_word)

lemma set_key_steps:
  assumes key: "length key = 16" and rks: "length rks = 11" "\<forall>r < 11. length (rks ! r) = 16"
    and n: "n \<le> 10"
  shows "\<exists>t. fold (\<lambda>i (rk, rcon). (rk[i := expand_row rcon (rk ! (i - 1)) (rk ! i)], galois_mul2 rcon))
            [1..<Suc n] (rks[0 := take 16 key], 1) = (t, rcon_spec n) \<and> length t = 11 \<and>
    (\<forall>r < 11. length (t ! r) = 16) \<and> (\<forall>r \<le> n. t ! r = round_key_spec key r)"
  using n
proof (induction n)
  case 0
  have "round_key_spec key 0 = take 16 key"
  proof -
    have "key_word key i = take 4 (drop (4 * i) key)" if "i < 4" for i using that by (subst key_word_eq) simp
    then have "round_key_spec key 0 = take 4 key @ take 4 (drop 4 key) @ take 4 (drop 8 key) @ take 4 (drop 12 key)"
      by (simp add: round_key_words)
    then show ?thesis using key by (elim list16) simp
  qed
  then show ?case using rks key by (auto simp: nth_list_update)
next
  case (Suc n)
  let ?f = "\<lambda>i (rk, rcon). (rk[i := expand_row rcon (rk ! (i - 1)) (rk ! i)], galois_mul2 rcon)"
  from Suc obtain t where t: "fold ?f [1..<Suc n] (rks[0 := take 16 key], 1) = (t, rcon_spec n)" "length t = 11"
    "\<forall>r < 11. length (t ! r) = 16" "\<forall>r \<le> n. t ! r = round_key_spec key r" by auto
  have "[1..<Suc (Suc n)] = [1..<Suc n] @ [Suc n]" by simp
  then have "fold ?f [1..<Suc (Suc n)] (rks[0 := take 16 key], 1) = ?f (Suc n) (t, rcon_spec n)"
    using t(1) by (simp only: fold_append comp_def fold.simps id_def)
  moreover have "expand_row (rcon_spec n) (t ! n) (t ! Suc n) = round_key_spec key (Suc n)"
    using expand_row_spec [OF key, of "t ! Suc n" n] t Suc.prems by simp
  ultimately show ?case using t Suc.prems key
    by (auto simp: nth_list_update gf_mul_two length_round_key le_Suc_eq)
qed

lemma set_key_keyed:
  assumes "length key = 16" "length rks = 11" "\<forall>r < 11. length (rks ! r) = 16"
  shows "keyed key (set_key key rks)"
  using set_key_steps [OF assms, of 10] by (auto simp: keyed_def set_key_def)

text \<open>C28: With the round keys that \<open>set_key\<close> computes from a key of 16 bytes, whatever the array of 11 rows held
  before, \<open>encrypt\<close> is on blocks of 16 bytes the AES-128 cipher as FIPS-197 states it: \<open>cipher_spec\<close> is written
  with arithmetic in the field of 256 elements and has no table; its S-box is the affine transform of the inverse.\<close>

theorem aes_encrypts_as_fips197:
  assumes "length key = 16" and "length block = 16"
    and "length rks = 11" and "\<forall>r < 11. length (rks ! r) = 16"
  shows "encrypt (set_key key rks) block = cipher_spec key block"
proof -
  let ?rk = "set_key key rks"
  have rk: "\<And>r. r \<le> 10 \<Longrightarrow> ?rk ! r = round_key_spec key r"
    using set_key_keyed [OF assms(1,3,4)] by (simp add: keyed_def)
  note len = length_round_key [OF assms(1)]
  let ?f = "\<lambda>round s.
         let s = shift_row (byte_sub s);
             s = (if round < 10 then mix_column s else s)
         in add_round_key (?rk ! round) s"
  have mid: "n \<le> 10 \<Longrightarrow> fold ?f [1..<n] s = fold (\<lambda>r. round_spec (round_key_spec key r)) [1..<n] s \<and>
    length (fold ?f [1..<n] s) = 16" if "length s = 16" for n s
  proof (induction n)
    case (Suc n)
    show ?case
    proof (cases "1 \<le> n")
      case True
      let ?s = "fold ?f [1..<n] s"
      from Suc have l: "length ?s = 16" and e: "?s = fold (\<lambda>r. round_spec (round_key_spec key r)) [1..<n] s" by auto
      have "?f n ?s = round_spec (round_key_spec key n) ?s"
        using Suc.prems rk [of n] l len
        by (simp add: Let_def byte_sub_spec shift_row_spec mix_column_spec add_round_key_spec round_spec_eq)
      moreover have "length (round_spec (round_key_spec key n) ?s) = 16" using len by (simp add: round_spec_eq)
      ultimately show ?thesis using True e by (simp add: Let_def)
    next
      case False
      then show ?thesis using that by simp
    qed
  qed (use that in simp)
  let ?s0 = "add_round_key (?rk ! 0) block"
  have s0: "?s0 = xor_block block (round_key_spec key 0)" "length ?s0 = 16"
    using assms(2) rk [of 0] len by (simp_all add: add_round_key_spec)
  let ?s9 = "fold ?f [1..<10] ?s0"
  have "encrypt ?rk block = ?f 10 ?s9"
  proof -
    have "[1..<11] = [1..<10] @ [10 :: nat]" by (simp add: upt_rec)
    then show ?thesis unfolding encrypt_def by (simp only: fold_append comp_def fold.simps id_def)
  qed
  moreover have "?f 10 s = xor_block (shift_rows_spec (map sub s)) (round_key_spec key 10)" if "length s = 16" for s
    using that rk [of 10] len by (simp add: Let_def byte_sub_spec shift_row_spec add_round_key_spec)
  moreover have "length ?s9 = 16" and "?s9 = fold (\<lambda>r. round_spec (round_key_spec key r)) [1..<10] ?s0"
    using mid [OF s0(2), of 10] by blast+
  ultimately show ?thesis unfolding cipher_spec_eq s0(1) by (simp only:)
qed

theorem aes_encrypts_as_fips197_witness:
  "encrypt (set_key (replicate 16 7) (replicate 11 (replicate 16 0))) (replicate 16 1) =
     cipher_spec (replicate 16 7) (replicate 16 1)"
  using aes_encrypts_as_fips197 [of "replicate 16 7" "replicate 16 1" "replicate 11 (replicate 16 0)"]
  by simp

section \<open>Lengths\<close>

lemma length_fold_same: "(\<And>i s. length (f i s) = length s) \<Longrightarrow> length (fold f is s) = length s"
  by (induction "is" arbitrary: s) simp_all

lemma byte_sub_length [simp]: "length (byte_sub s) = length s"
  by (simp add: byte_sub_def length_update_fold)

lemma shift_row_length [simp]: "length (shift_row s) = length s"
  by (simp add: shift_row_def Let_def)

lemma mix_column_length [simp]: "length (mix_column s) = length s"
  unfolding mix_column_def by (rule length_fold_same) (simp add: mix_one_def Let_def)

lemma encrypt_length [simp]: "length (encrypt rks s) = length s"
  unfolding encrypt_def by (subst length_fold_same) (simp_all add: Let_def)

end
