(* ===== verification/CcmStar.thy ===== *)
theory CcmStar
  imports Aes128 "HOL-Library.Monad_Syntax"
begin

text \<open>
  Authenticated encryption, \<open>core/lib/ccm-star.c\<close>. The block cipher is the driver \<open>AES_128\<close>, a
  parameter \<open>E\<close> of the definitions: \<open>AES_128.encrypt\<close> replaces a block of 16 bytes by \<open>E\<close> of it.
  Buffers are byte lists; the lengths, positions and the counter are \<open>uint8_t\<close>, so a position wraps
  at 256. The two loops over positions are therefore partial functions.
\<close>

section \<open>The code\<close>

definition CCM_STAR_AUTH_FLAGS :: "u8 \<Rightarrow> u8 \<Rightarrow> u8" where
  "CCM_STAR_AUTH_FLAGS Adata M =
     ucast ((if Adata \<noteq> 0 then push_bit 6 1 else 0) OR push_bit 3 (drop_bit 1 (ucast M - 2 :: u16)) OR 1)"

definition CCM_STAR_ENCRYPTION_FLAGS :: u8 where
  "CCM_STAR_ENCRYPTION_FLAGS = 1"

definition set_iv :: "u8 \<Rightarrow> u8 list \<Rightarrow> u8 \<Rightarrow> u8 list" where
  "set_iv flags nonce counter = [flags] @ take 13 nonce @ [0, counter]"

text \<open>\<open>for(i = i0; (pos + i < len) && (i < 16); i++) dst[dpos + i] ^= src[spos + i]\<close>, the loop that
  every function of the file has, in the two forms it takes: into a buffer from a block, and into
  a block from a buffer.\<close>

function xor_out :: "u8 list \<Rightarrow> nat \<Rightarrow> nat \<Rightarrow> nat \<Rightarrow> u8 list \<Rightarrow> u8 list" where
  "xor_out a pos len i m =
     (if pos + i < len \<and> i < 16 then xor_out a pos len (i + 1) (m[pos + i := m ! (pos + i) XOR a ! i])
      else m)"
  by pat_completeness auto
termination by (relation "measure (\<lambda>(a, pos, len, i, m). 16 - i)") auto

function xor_in :: "u8 list \<Rightarrow> nat \<Rightarrow> nat \<Rightarrow> nat \<Rightarrow> u8 list \<Rightarrow> u8 list" where
  "xor_in m pos len i x =
     (if pos + i < len \<and> i < 16 then xor_in m pos len (i + 1) (x[i := x ! i XOR m ! (pos + i)])
      else x)"
  by pat_completeness auto
termination by (relation "measure (\<lambda>(m, pos, len, i, x). 16 - i)") auto

function xor_a :: "u8 list \<Rightarrow> nat \<Rightarrow> nat \<Rightarrow> u8 list \<Rightarrow> u8 list" where
  "xor_a a a_len i x =
     (if i - 2 < a_len \<and> i < 16 then xor_a a a_len (i + 1) (x[i := x ! i XOR a ! (i - 2)])
      else x)"
  by pat_completeness auto
termination by (relation "measure (\<lambda>(a, a_len, i, x). 16 - i)") auto

declare xor_out.simps [simp del] xor_in.simps [simp del] xor_a.simps [simp del]

definition ctr_step ::
    "(u8 list \<Rightarrow> u8 list) \<Rightarrow> u8 list \<Rightarrow> u8 \<Rightarrow> u8 list \<Rightarrow> u8 \<Rightarrow> u8 \<Rightarrow> u8 list" where
  "ctr_step E nonce pos m_and_result m_len counter =
     (let a = E (set_iv CCM_STAR_ENCRYPTION_FLAGS nonce counter)
      in xor_out a (unat pos) (unat m_len) 0 m_and_result)"

partial_function (option) cbc_loop ::
    "(u8 list \<Rightarrow> u8 list) \<Rightarrow> u8 list \<Rightarrow> u8 \<Rightarrow> u8 \<Rightarrow> u8 list \<Rightarrow> u8 list option" where
  "cbc_loop E m m_len pos blk =
     (if pos < m_len then cbc_loop E m m_len (pos + 16) (E (xor_in m (unat pos) (unat m_len) 0 blk))
      else Some blk)"

text \<open>The tag has at most the 16 bytes of the block. For a larger \<open>mic_len\<close> the C code copies what lies behind
  \<open>x\<close> as well (an over-read); the model stops at the end of the block.\<close>

definition mic ::
    "(u8 list \<Rightarrow> u8 list) \<Rightarrow> u8 list \<Rightarrow> u8 list \<Rightarrow> u8 \<Rightarrow> u8 list \<Rightarrow> u8 \<Rightarrow> u8 list \<Rightarrow> u8 \<Rightarrow> u8 list option" where
  "mic E nonce m m_len a a_len result mic_len = do {
     let x = E (set_iv (CCM_STAR_AUTH_FLAGS a_len mic_len) nonce m_len);
     x1 \<leftarrow> (if a_len \<noteq> 0 then
               cbc_loop E a a_len 14
                 (E (xor_a a (unat a_len) 2 (x[1 := x ! 1 XOR a_len])))
             else Some x);
     x2 \<leftarrow> (if m_len \<noteq> 0 then cbc_loop E m m_len 0 x1 else Some x1);
     let x3 = ctr_step E nonce 0 x2 16 0;
     Some (take (unat mic_len) x3 @ drop (unat mic_len) result)
   }"

partial_function (option) ctr_loop ::
    "(u8 list \<Rightarrow> u8 list) \<Rightarrow> u8 list \<Rightarrow> u8 \<Rightarrow> u8 \<Rightarrow> u8 \<Rightarrow> u8 list \<Rightarrow> u8 list option" where
  "ctr_loop E nonce m_len pos counter m =
     (if pos < m_len then
        ctr_loop E nonce m_len (pos + 16) (counter + 1) (ctr_step E nonce pos m m_len counter)
      else Some m)"

definition ctr :: "(u8 list \<Rightarrow> u8 list) \<Rightarrow> u8 list \<Rightarrow> u8 list \<Rightarrow> u8 \<Rightarrow> u8 list option" where
  "ctr E nonce m m_len = ctr_loop E nonce m_len 0 1 m"

definition aead ::
    "(u8 list \<Rightarrow> u8 list) \<Rightarrow> u8 list \<Rightarrow> u8 list \<Rightarrow> u8 \<Rightarrow> u8 list \<Rightarrow> u8 \<Rightarrow> u8 list \<Rightarrow> u8 \<Rightarrow> bool \<Rightarrow>
     (u8 list \<times> u8 list) option" where
  "aead E nonce m m_len a a_len result mic_len forward = do {
     m1 \<leftarrow> (if \<not> forward then ctr E nonce m m_len else Some m);
     r \<leftarrow> mic E nonce m1 m_len a a_len result mic_len;
     m2 \<leftarrow> (if forward then ctr E nonce m1 m_len else Some m1);
     Some (m2, r)
   }"

definition ccm_set_key :: "u8 list \<Rightarrow> u8 list list \<Rightarrow> u8 list list" where
  "ccm_set_key key round_keys = set_key key round_keys"

section \<open>What the loops compute\<close>

lemma xor_out_spec:
  "i \<le> 16 \<Longrightarrow> len \<le> length m \<Longrightarrow>
   length (xor_out a pos len i m) = length m \<and>
   (\<forall>k < length m. xor_out a pos len i m ! k =
      (if pos + i \<le> k \<and> k < len \<and> k < pos + 16 then m ! k XOR a ! (k - pos) else m ! k))"
proof (induction a pos len i m rule: xor_out.induct)
  case (1 a pos len i m)
  show ?case
  proof (cases "pos + i < len \<and> i < 16")
    case True
    let ?m = "m[pos + i := m ! (pos + i) XOR a ! i]"
    from True 1 have ih: "length (xor_out a pos len (i + 1) ?m) = length m"
      "\<And>k. k < length m \<Longrightarrow> xor_out a pos len (i + 1) ?m ! k =
        (if pos + (i + 1) \<le> k \<and> k < len \<and> k < pos + 16 then ?m ! k XOR a ! (k - pos) else ?m ! k)" by auto
    have "xor_out a pos len i m ! k =
      (if pos + i \<le> k \<and> k < len \<and> k < pos + 16 then m ! k XOR a ! (k - pos) else m ! k)" if "k < length m" for k
      using ih(2) [OF that] True that by (cases "k = pos + i") (auto simp: xor_out.simps [of a pos len i m] nth_list_update)
    with ih(1) True show ?thesis by (simp add: xor_out.simps [of a pos len i m])
  next
    case False
    then show ?thesis by (subst (1 2) xor_out.simps) auto
  qed
qed

lemma xor_in_spec:
  "i \<le> 16 \<Longrightarrow> length x = 16 \<Longrightarrow>
   length (xor_in m pos len i x) = 16 \<and>
   (\<forall>k < 16. xor_in m pos len i x ! k = (if i \<le> k \<and> pos + k < len then x ! k XOR m ! (pos + k) else x ! k))"
proof (induction m pos len i x rule: xor_in.induct)
  case (1 m pos len i x)
  show ?case
  proof (cases "pos + i < len \<and> i < 16")
    case True
    with 1 show ?thesis by (subst (1 2) xor_in.simps) (auto simp: nth_list_update le_Suc_eq)
  next
    case False
    then show ?thesis using 1 by (subst (1 2) xor_in.simps) auto
  qed
qed

lemma xor_a_spec:
  "2 \<le> i \<Longrightarrow> i \<le> 16 \<Longrightarrow> length x = 16 \<Longrightarrow>
   length (xor_a a n i x) = 16 \<and>
   (\<forall>k < 16. xor_a a n i x ! k = (if i \<le> k \<and> k - 2 < n then x ! k XOR a ! (k - 2) else x ! k))"
proof (induction a n i x rule: xor_a.induct)
  case (1 a n i x)
  show ?case
  proof (cases "i - 2 < n \<and> i < 16")
    case True
    with 1 show ?thesis by (subst (1 2) xor_a.simps) (auto simp: nth_list_update le_Suc_eq)
  next
    case False
    then show ?thesis using 1 by (subst (1 2) xor_a.simps) auto
  qed
qed

section \<open>The counter mode and the CBC-MAC that the loops implement\<close>

text \<open>The key stream block \<open>j\<close>, the message masked with the key stream from block 1 on, and the
  CBC-MAC over zero-padded blocks.\<close>

definition stream_block :: "(u8 list \<Rightarrow> u8 list) \<Rightarrow> u8 list \<Rightarrow> nat \<Rightarrow> u8 list" where
  "stream_block E nonce j = E (set_iv 1 nonce (word_of_nat j))"

definition masked :: "(u8 list \<Rightarrow> u8 list) \<Rightarrow> u8 list \<Rightarrow> nat \<Rightarrow> nat \<Rightarrow> u8 list \<Rightarrow> u8 list" where
  "masked E nonce p n m =
     map (\<lambda>k. if p \<le> k \<and> k < n then m ! k XOR stream_block E nonce (k div 16 + 1) ! (k mod 16) else m ! k)
       [0..<length m]"

function blocks16 :: "u8 list \<Rightarrow> u8 list list" where
  "blocks16 xs = (if xs = [] then [] else take 16 (xs @ replicate 15 0) # blocks16 (drop 16 xs))"
  by pat_completeness auto
termination by (relation "measure length") auto

declare blocks16.simps [simp del]

definition cbc :: "(u8 list \<Rightarrow> u8 list) \<Rightarrow> u8 list list \<Rightarrow> u8 list \<Rightarrow> u8 list" where
  "cbc E bs x = fold (\<lambda>b x. E (map2 (XOR) x b)) bs x"

definition mac_spec :: "(u8 list \<Rightarrow> u8 list) \<Rightarrow> u8 list \<Rightarrow> u8 list \<Rightarrow> u8 list \<Rightarrow> u8 \<Rightarrow> u8 list" where
  "mac_spec E nonce m a mic_len =
     (let b0 = set_iv (CCM_STAR_AUTH_FLAGS (word_of_nat (length a)) mic_len) nonce (word_of_nat (length m));
          auth = (if a = [] then [] else blocks16 ([0, word_of_nat (length a)] @ a));
          tag = cbc E ([b0] @ auth @ blocks16 m) (replicate 16 0)
      in take (unat mic_len) (map2 (XOR) tag (stream_block E nonce 0)))"

lemma masked_length [simp]: "length (masked E nonce p n m) = length m"
  by (simp add: masked_def)

lemma masked_nth:
  "k < length m \<Longrightarrow> masked E nonce p n m ! k =
     (if p \<le> k \<and> k < n then m ! k XOR stream_block E nonce (k div 16 + 1) ! (k mod 16) else m ! k)"
  by (simp add: masked_def)

lemma masked_twice: "masked E nonce p n (masked E nonce p n m) = m"
  by (rule nth_equalityI) (auto simp: masked_nth xor.assoc)

lemma ctr_step_masked:
  assumes "n \<le> length m" and "p < n"
  shows "masked E nonce (16 * Suc j) n (xor_out (stream_block E nonce (Suc j)) (16 * j) n 0 m) =
         masked E nonce (16 * j) n m"
proof (rule nth_equalityI)
  let ?s = "xor_out (stream_block E nonce (Suc j)) (16 * j) n 0 m"
  have l: "length ?s = length m" using xor_out_spec [of 0 n m] assms by simp
  then show "length (masked E nonce (16 * Suc j) n ?s) = length (masked E nonce (16 * j) n m)" by simp
  fix k assume "k < length (masked E nonce (16 * Suc j) n ?s)"
  then have k: "k < length m" using l by simp
  have x: "?s ! k = (if 16 * j \<le> k \<and> k < n \<and> k < 16 * j + 16
      then m ! k XOR stream_block E nonce (Suc j) ! (k - 16 * j) else m ! k)"
    using xor_out_spec [of 0 n m "stream_block E nonce (Suc j)" "16 * j"] assms k by simp
  show "masked E nonce (16 * Suc j) n ?s ! k = masked E nonce (16 * j) n m ! k"
  proof (cases "16 * j \<le> k \<and> k < 16 * j + 16")
    case True
    then have "k div 16 = j" and "k mod 16 = k - 16 * j"
      by (auto simp: modulo_nat_def div_nat_eqI)
    with True x k l show ?thesis by (simp add: masked_nth)
  next
    case False
    with x k l show ?thesis by (auto simp: masked_nth)
  qed
qed

lemma masked_none: "n \<le> p \<Longrightarrow> masked E nonce p n m = m"
  by (rule nth_equalityI) (auto simp: masked_nth)

lemma ctr_loop_masked:
  "unat m_len \<le> 240 \<Longrightarrow> unat m_len \<le> length m \<Longrightarrow> j \<le> 15 \<Longrightarrow>
   ctr_loop E nonce m_len (word_of_nat (16 * j)) (word_of_nat (Suc j)) m =
     Some (masked E nonce (16 * j) (unat m_len) m)"
proof (induction "15 - j" arbitrary: j m)
  case 0
  then have "\<not> (word_of_nat (16 * j) :: u8) < m_len" by (simp add: word_less_nat_alt)
  moreover have "masked E nonce (16 * j) (unat m_len) m = m" using 0 by (intro masked_none) simp
  ultimately show ?case by (subst ctr_loop.simps) simp
next
  case (Suc d)
  have u: "unat (word_of_nat (16 * j) :: u8) = 16 * j" using Suc.hyps(2) by (simp add: unat_of_nat del: of_nat_mult)
  show ?case
  proof (cases "16 * j < unat m_len")
    case True
    let ?s = "xor_out (stream_block E nonce (Suc j)) (16 * j) (unat m_len) 0 m"
    have l: "length ?s = length m" using xor_out_spec [of 0 "unat m_len" m] Suc.prems by simp
    have "ctr_step E nonce (word_of_nat (16 * j)) m m_len (word_of_nat (Suc j)) = ?s"
      by (simp add: ctr_step_def CCM_STAR_ENCRYPTION_FLAGS_def stream_block_def u Let_def del: of_nat_mult)
    moreover have "word_of_nat (16 * j) + 16 = (word_of_nat (16 * Suc j) :: u8)"
      and "word_of_nat (Suc j) + 1 = (word_of_nat (Suc (Suc j)) :: u8)" by (simp_all add: algebra_simps)
    moreover have "(word_of_nat (16 * j) :: u8) < m_len" using True u by (simp add: word_less_nat_alt del: of_nat_mult)
    ultimately have "ctr_loop E nonce m_len (word_of_nat (16 * j)) (word_of_nat (Suc j)) m =
      ctr_loop E nonce m_len (word_of_nat (16 * Suc j)) (word_of_nat (Suc (Suc j))) ?s"
      by (subst ctr_loop.simps) (simp only: if_True)
    also have "\<dots> = Some (masked E nonce (16 * Suc j) (unat m_len) ?s)"
      using Suc l by (intro Suc.hyps(1)) simp_all
    finally show ?thesis using ctr_step_masked [of "unat m_len" m "16 * j"] Suc.prems True by simp
  next
    case False
    then have "\<not> (word_of_nat (16 * j) :: u8) < m_len" using u by (simp add: word_less_nat_alt del: of_nat_mult)
    moreover have "masked E nonce (16 * j) (unat m_len) m = m" using False by (intro masked_none) simp
    ultimately show ?thesis by (subst ctr_loop.simps) simp
  qed
qed

lemma ctr_masked:
  "unat m_len \<le> 240 \<Longrightarrow> unat m_len \<le> length m \<Longrightarrow> ctr E nonce m m_len = Some (masked E nonce 0 (unat m_len) m)"
  using ctr_loop_masked [of m_len m 0 E nonce] by (simp add: ctr_def)

lemma blocks16_Nil [simp]: "blocks16 [] = []"
  by (simp add: blocks16.simps)

lemma xor_in_block:
  assumes "length x = 16" and "pos < len" and "len \<le> length m"
  shows "xor_in m pos len 0 x = map2 (XOR) x (take 16 (drop pos (take len m) @ replicate 15 0))"
proof (rule nth_equalityI)
  have l: "length (xor_in m pos len 0 x) = 16" using xor_in_spec [of 0 x] assms by simp
  with assms show "length (xor_in m pos len 0 x) =
    length (map2 (XOR) x (take 16 (drop pos (take len m) @ replicate 15 0)))" by simp
  fix k assume "k < length (xor_in m pos len 0 x)"
  then have k: "k < 16" using l by simp
  then have "xor_in m pos len 0 x ! k = (if pos + k < len then x ! k XOR m ! (pos + k) else x ! k)"
    using xor_in_spec [of 0 x m pos len] assms by simp
  with k assms show "xor_in m pos len 0 x ! k =
    map2 (XOR) x (take 16 (drop pos (take len m) @ replicate 15 0)) ! k"
    by (auto simp: nth_append)
qed

lemma blocks16_step:
  "xs \<noteq> [] \<Longrightarrow> blocks16 xs = take 16 (xs @ replicate 15 0) # blocks16 (drop 16 xs)"
  by (subst blocks16.simps) simp

lemma cbc_Cons: "cbc E (b # bs) x = cbc E bs (E (map2 (XOR) x b))"
  by (simp add: cbc_def)

text \<open>A position that starts at \<open>p < 16\<close> and advances by 16 stays below 256 as long as the length is
  at most \<open>p + 240\<close>.\<close>

lemma cbc_loop_spec:
  assumes E: "\<And>x. length x = 16 \<Longrightarrow> length (E x) = 16" and p: "p < 16" and n: "unat n \<le> p + 240"
    and len: "unat n \<le> length m"
  shows "j \<le> 15 \<Longrightarrow> length x = 16 \<Longrightarrow>
    cbc_loop E m n (word_of_nat (p + 16 * j)) x =
      Some (cbc E (blocks16 (drop (p + 16 * j) (take (unat n) m))) x)"
proof (induction "15 - j" arbitrary: j x)
  case 0
  then have "p + 16 * j = p + 240" by simp
  moreover have "unat (word_of_nat (p + 240) :: u8) = p + 240" using p by (simp add: unat_of_nat del: of_nat_add)
  ultimately have "\<not> (word_of_nat (p + 16 * j) :: u8) < n"
    using n by (simp add: word_less_nat_alt del: of_nat_add of_nat_mult)
  moreover have "drop (p + 16 * j) (take (unat n) m) = []" using 0 n by simp
  ultimately show ?case by (subst cbc_loop.simps) (simp add: cbc_def del: of_nat_add of_nat_mult)
next
  case (Suc d)
  let ?p = "p + 16 * j"
  have "?p < 256" using Suc.hyps(2) p by simp
  then have u: "unat (word_of_nat ?p :: u8) = ?p" by (simp add: unat_of_nat del: of_nat_add of_nat_mult)
  let ?data = "drop ?p (take (unat n) m)"
  show ?case
  proof (cases "?p < unat n")
    case True
    let ?x = "E (xor_in m ?p (unat n) 0 x)"
    have lx: "length ?x = 16" using xor_in_spec [of 0 x m ?p "unat n"] Suc.prems by (simp add: E)
    have w: "word_of_nat ?p + 16 = (word_of_nat (p + 16 * Suc j) :: u8)" by simp
    have "(word_of_nat ?p :: u8) < n" using True u by (simp add: word_less_nat_alt del: of_nat_add of_nat_mult)
    then have "cbc_loop E m n (word_of_nat ?p) x = cbc_loop E m n (word_of_nat (p + 16 * Suc j)) ?x"
      by (subst cbc_loop.simps) (simp only: w u if_True)
    also have "\<dots> = Some (cbc E (blocks16 (drop (p + 16 * Suc j) (take (unat n) m))) ?x)"
      using Suc lx by (intro Suc.hyps(1)) simp_all
    also have "drop (p + 16 * Suc j) (take (unat n) m) = drop 16 ?data" by (simp add: add.commute add.left_commute)
    also have "cbc E (blocks16 (drop 16 ?data)) ?x = cbc E (blocks16 ?data) x"
    proof -
      have "?data \<noteq> []" using True len by simp
      from blocks16_step [OF this] show ?thesis
        using xor_in_block [OF Suc.prems(2) True len] by (simp only: cbc_Cons)
    qed
    finally show ?thesis .
  next
    case False
    then have "\<not> (word_of_nat ?p :: u8) < n" using u by (simp add: word_less_nat_alt del: of_nat_add of_nat_mult)
    moreover have "?data = []" using False by simp
    ultimately show ?thesis by (subst cbc_loop.simps) (simp add: cbc_def del: of_nat_add of_nat_mult)
  qed
qed

lemma xor_a_block:
  assumes x: "length x = 16" and n: "0 < unat n" and len: "unat n \<le> length a"
  shows "xor_a a (unat n) 2 (x[1 := x ! 1 XOR n]) =
    map2 (XOR) x (take 16 (([0, n] @ take (unat n) a) @ replicate 15 0))"
proof (rule nth_equalityI)
  let ?y = "x[1 := x ! 1 XOR n]"
  have l: "length (xor_a a (unat n) 2 ?y) = 16" using xor_a_spec [of 2 ?y] x by simp
  then show "length (xor_a a (unat n) 2 ?y) =
      length (map2 (XOR) x (take 16 (([0, n] @ take (unat n) a) @ replicate 15 0)))" using x by simp
  fix k assume "k < length (xor_a a (unat n) 2 ?y)"
  then have k: "k < 16" using l by simp
  have "xor_a a (unat n) 2 ?y ! k = (if 2 \<le> k \<and> k - 2 < unat n then ?y ! k XOR a ! (k - 2) else ?y ! k)"
    using xor_a_spec [of 2 ?y a "unat n"] x k by simp
  moreover have "take 16 (([0, n] @ take (unat n) a) @ replicate 15 0) ! k =
      (if k = 0 then 0 else if k = 1 then n else if k - 2 < unat n then a ! (k - 2) else 0)"
    using k len by (auto simp: nth_append nth_Cons' diff_diff_left numeral_2_eq_2)
  ultimately show "xor_a a (unat n) 2 ?y ! k =
    map2 (XOR) x (take 16 (([0, n] @ take (unat n) a) @ replicate 15 0)) ! k"
    using k x by (auto simp: nth_list_update)
qed

lemma set_iv_length: "13 \<le> length nonce \<Longrightarrow> length (set_iv f nonce c) = 16"
  by (simp add: set_iv_def)

locale block_cipher =
  fixes E :: "u8 list \<Rightarrow> u8 list"
  assumes length_E: "length x = 16 \<Longrightarrow> length (E x) = 16"
begin

lemma stream_length: "13 \<le> length nonce \<Longrightarrow> length (stream_block E nonce j) = 16"
  by (simp add: stream_block_def length_E set_iv_length)

lemma cbc_length: "length x = 16 \<Longrightarrow> (\<And>b. b \<in> set bs \<Longrightarrow> length b = 16) \<Longrightarrow> length (cbc E bs x) = 16"
proof (induction bs arbitrary: x)
  case (Cons b bs)
  then show ?case by (simp add: cbc_Cons length_E)
qed (simp add: cbc_def)

lemma blocks16_lengths: "b \<in> set (blocks16 xs) \<Longrightarrow> length b = 16"
proof (induction xs rule: blocks16.induct)
  case (1 xs)
  show ?case
  proof (cases "xs = []")
    case False
    then have "1 \<le> length xs" by (cases xs) auto
    with 1 False show ?thesis by (auto simp: blocks16_step)
  qed (use 1 in simp)
qed

lemma xor_zero_block: "length b = n \<Longrightarrow> map2 (XOR) (replicate n 0) b = (b :: u8 list)"
  by (rule nth_equalityI) simp_all

lemma mac_length:
  assumes "13 \<le> length nonce" and "unat mic_len \<le> 16"
  shows "length (mac_spec E nonce m a mic_len) = unat mic_len"
proof -
  define b0 where "b0 = set_iv (CCM_STAR_AUTH_FLAGS (word_of_nat (length a)) mic_len) nonce (word_of_nat (length m))"
  define auth where "auth = (if a = [] then [] else blocks16 ([0, word_of_nat (length a)] @ a))"
  have "length b0 = 16" using assms(1) by (simp only: b0_def set_iv_length)
  moreover have "length b = 16" if "b \<in> set auth" for b
  proof (cases "a = []")
    case True
    then show ?thesis using that unfolding auth_def by (simp only: if_True list.set empty_iff simp_thms)
  next
    case False
    then have "b \<in> set (blocks16 ([0, word_of_nat (length a)] @ a))" using that unfolding auth_def by (simp only: if_False)
    then show ?thesis by (rule blocks16_lengths)
  qed
  ultimately have "length b = 16" if "b \<in> set ([b0] @ auth @ blocks16 m)" for b
    using that by (simp only: set_append list.set Un_iff insert_iff empty_iff) (elim disjE; simp only: blocks16_lengths)
  then have "length (cbc E ([b0] @ auth @ blocks16 m) (replicate 16 0)) = 16"
    by (intro cbc_length length_replicate)
  then show ?thesis
    unfolding mac_spec_def Let_def b0_def [symmetric] auth_def [symmetric]
    using assms(2) stream_length [OF assms(1), of 0] by simp
qed

lemma mic_computes_mac:
  assumes nonce: "13 \<le> length nonce" and m: "unat n \<le> 240" "unat n \<le> length m"
    and a: "unat k \<le> 254" "unat k \<le> length a"
  shows "mic E nonce m n a k result mic_len =
    Some (mac_spec E nonce (take (unat n) m) (take (unat k) a) mic_len @ drop (unat mic_len) result)"
proof -
  let ?b0 = "set_iv (CCM_STAR_AUTH_FLAGS k mic_len) nonce n"
  let ?auth = "if take (unat k) a = [] then [] else blocks16 ([0, k] @ take (unat k) a)"
  have lb: "length ?b0 = 16" using nonce by (rule set_iv_length)
  have x0: "E ?b0 = cbc E [?b0] (replicate 16 0)" using xor_zero_block [OF lb] by (simp add: cbc_def)
  have l0: "length (E ?b0) = 16" using lb by (rule length_E)
  have auth: "(if k \<noteq> 0 then cbc_loop E a k 14
        (E (xor_a a (unat k) 2 ((E ?b0)[1 := E ?b0 ! 1 XOR k]))) else Some (E ?b0)) = Some (cbc E ?auth (E ?b0))"
  proof (cases "k = 0")
    case True
    then show ?thesis by (simp add: cbc_def)
  next
    case False
    then have pos: "0 < unat k" by (simp add: unat_gt_0)
    then have ne: "take (unat k) a \<noteq> []" using a by auto
    let ?x = "E (xor_a a (unat k) 2 ((E ?b0)[1 := E ?b0 ! 1 XOR k]))"
    have lx: "length ?x = 16" using xor_a_spec [of 2 "(E ?b0)[1 := E ?b0 ! 1 XOR k]"] l0 by (simp add: length_E)
    have "cbc_loop E a k (word_of_nat (14 + 16 * 0)) ?x =
        Some (cbc E (blocks16 (drop (14 + 16 * 0) (take (unat k) a))) ?x)"
      using a lx length_E by (intro cbc_loop_spec) simp_all
    moreover have "cbc E (blocks16 (drop 14 (take (unat k) a))) ?x = cbc E (blocks16 ([0, k] @ take (unat k) a)) (E ?b0)"
      using xor_a_block [OF l0 pos a(2)] blocks16_step [of "[0, k] @ take (unat k) a"] by (simp add: cbc_Cons)
    ultimately show ?thesis using False ne by simp
  qed
  let ?x1 = "cbc E ?auth (E ?b0)"
  have l1: "length ?x1 = 16" using l0 blocks16_lengths by (intro cbc_length) (auto split: if_splits)
  have msg: "(if n \<noteq> 0 then cbc_loop E m n 0 ?x1 else Some ?x1) = Some (cbc E (blocks16 (take (unat n) m)) ?x1)"
    using cbc_loop_spec [of E 0 n m 0 ?x1] length_E m l1 by (cases "n = 0") (simp_all add: cbc_def)
  let ?x2 = "cbc E (blocks16 (take (unat n) m)) ?x1"
  have l2: "length ?x2 = 16" using cbc_length [OF l1, of "blocks16 (take (unat n) m)"] blocks16_lengths by blast
  have "ctr_step E nonce 0 ?x2 16 0 = map2 (XOR) ?x2 (stream_block E nonce 0)"
  proof (rule nth_equalityI)
    have s: "ctr_step E nonce 0 ?x2 16 0 = xor_out (stream_block E nonce 0) 0 16 0 ?x2"
      by (simp add: ctr_step_def stream_block_def CCM_STAR_ENCRYPTION_FLAGS_def)
    show "length (ctr_step E nonce 0 ?x2 16 0) = length (map2 (XOR) ?x2 (stream_block E nonce 0))"
      unfolding s using xor_out_spec [of 0 16 ?x2] l2 stream_length [OF nonce] by simp
    fix i assume "i < length (ctr_step E nonce 0 ?x2 16 0)"
    then have "i < 16" unfolding s using xor_out_spec [of 0 16 ?x2] l2 by simp
    then show "ctr_step E nonce 0 ?x2 16 0 ! i = map2 (XOR) ?x2 (stream_block E nonce 0) ! i"
      unfolding s using xor_out_spec [of 0 16 ?x2 "stream_block E nonce 0" 0] l2 stream_length [OF nonce] by simp
  qed
  moreover have "?x2 = cbc E ([?b0] @ ?auth @ blocks16 (take (unat n) m)) (replicate 16 0)"
    by (simp add: x0 cbc_def)
  moreover have "word_of_nat (length (take (unat k) a)) = k" "word_of_nat (length (take (unat n) m)) = n"
    using a m by simp_all
  ultimately show ?thesis unfolding mic_def mac_spec_def Let_def auth msg bind.bind_lunit
    by (simp only: Option.bind.bind_lunit auth msg)
qed

end

interpretation aes: block_cipher "encrypt rks" for rks
  by unfold_locales simp

section \<open>Properties\<close>

text \<open>C35: over the AES driver with any round keys, for messages of up to 240 and additional data of
  up to 254 bytes, the authentication tag is the CBC-MAC of the first block, the additional data
  behind its length, and the message, each padded with zeros to whole blocks, masked with block 0 of
  the key stream; the rest of the caller's buffer is left alone.\<close>

theorem ccm_tag_is_cbc_mac:
  assumes "13 \<le> length nonce" and "unat m_len \<le> 240" and "unat m_len \<le> length m"
    and "unat a_len \<le> 254" and "unat a_len \<le> length a"
  shows "mic (encrypt rks) nonce m m_len a a_len result mic_len =
    Some (mac_spec (encrypt rks) nonce (take (unat m_len) m) (take (unat a_len) a) mic_len @
      drop (unat mic_len) result)"
  using assms by (rule aes.mic_computes_mac)

lemma ccm_tag_is_cbc_mac_witness:
  "mic (encrypt [replicate 16 0]) (replicate 13 1) [1, 2, 3] 3 [4, 5] 2 (replicate 8 0) 8 =
    Some (mac_spec (encrypt [replicate 16 0]) (replicate 13 1) [1, 2, 3] [4, 5] 8)"
  using ccm_tag_is_cbc_mac [of "replicate 13 1" 3 "[1, 2, 3]" 2 "[4, 5]" "[replicate 16 0]" "replicate 8 0" 8] by simp

lemma aead_inverts:
  assumes "13 \<le> length nonce" and "unat m_len \<le> 240" and "unat m_len \<le> length m"
    and "unat a_len \<le> 254" and "unat a_len \<le> length a"
  shows "\<exists>c tag. aead (encrypt rks) nonce m m_len a a_len result mic_len True = Some (c, tag) \<and>
    length c = length m \<and> drop (unat m_len) c = drop (unat m_len) m \<and>
    (\<forall>result'. aead (encrypt rks) nonce c m_len a a_len result' mic_len False =
       Some (m, mac_spec (encrypt rks) nonce (take (unat m_len) m) (take (unat a_len) a) mic_len @
         drop (unat mic_len) result')) \<and>
    tag = mac_spec (encrypt rks) nonce (take (unat m_len) m) (take (unat a_len) a) mic_len @
      drop (unat mic_len) result"
proof -
  let ?E = "encrypt rks"
  let ?c = "masked ?E nonce 0 (unat m_len) m"
  note mac = aes.mic_computes_mac [OF assms]
  have enc: "ctr ?E nonce m m_len = Some ?c" using assms by (intro ctr_masked)
  have dec: "ctr ?E nonce ?c m_len = Some m"
    using ctr_masked [of m_len ?c ?E nonce] assms by (simp add: masked_twice)
  have "drop (unat m_len) ?c = drop (unat m_len) m"
    by (rule nth_equalityI) (simp_all add: masked_nth)
  then show ?thesis
    by (intro exI [of _ ?c] exI [of _ "mac_spec ?E nonce (take (unat m_len) m) (take (unat a_len) a) mic_len @
      drop (unat mic_len) result"]) (simp add: aead_def mac enc dec)
qed

text \<open>C29: what \<open>aead\<close> encrypts, \<open>aead\<close> with the same nonce and additional data decrypts to the
  original message, and the tag it computes while decrypting is the tag it computed while
  encrypting; bytes of the buffer beyond the message never change.\<close>

theorem ccm_round_trip:
  assumes "13 \<le> length nonce" and "unat m_len \<le> 240" and "unat m_len \<le> length m"
    and "unat a_len \<le> 254" and "unat a_len \<le> length a"
  shows "\<exists>c tag. aead (encrypt rks) nonce m m_len a a_len result mic_len True = Some (c, tag) \<and>
    length c = length m \<and> drop (unat m_len) c = drop (unat m_len) m \<and>
    (\<forall>result'. aead (encrypt rks) nonce c m_len a a_len result' mic_len False =
       Some (m, mac_spec (encrypt rks) nonce (take (unat m_len) m) (take (unat a_len) a) mic_len @
         drop (unat mic_len) result')) \<and>
    tag = mac_spec (encrypt rks) nonce (take (unat m_len) m) (take (unat a_len) a) mic_len @
      drop (unat mic_len) result"
  using assms by (rule aead_inverts)

lemma ccm_round_trip_witness:
  "\<exists>c tag. aead (encrypt [replicate 16 0]) (replicate 13 1) [1, 2, 3] 3 [4, 5] 2 (replicate 8 0) 8 True = Some (c, tag) \<and>
     map_option fst (aead (encrypt [replicate 16 0]) (replicate 13 1) c 3 [4, 5] 2 (replicate 8 0) 8 False) = Some [1, 2, 3]"
  using ccm_round_trip [of "replicate 13 1" 3 "[1, 2, 3]" 2 "[4, 5]" "[replicate 16 0]" "replicate 8 0" 8] by fastforce

section \<open>Where the positions wrap\<close>

lemma ctr_loop_diverges:
  assumes "ctr_loop E nonce m_len pos counter m = Some y"
  shows "\<not> (unat pos mod 16 = 0 \<and> 240 < unat m_len)"
proof (rule ctr_loop.raw_induct [where P = "\<lambda>E nonce m_len pos counter m y.
    \<not> (unat pos mod 16 = 0 \<and> 240 < unat m_len)", OF _ assms])
  fix f E nonce m_len and pos :: u8 and counter m y
  assume ih: "\<And>E nonce m_len pos counter m y. f E nonce m_len pos counter m = Some y \<Longrightarrow>
      \<not> (unat pos mod 16 = 0 \<and> 240 < unat m_len)"
    and run: "(if pos < m_len then f E nonce m_len (pos + 16) (counter + 1) (ctr_step E nonce pos m m_len counter)
      else Some m) = Some y"
  show "\<not> (unat pos mod 16 = 0 \<and> 240 < unat m_len)"
  proof
    assume a: "unat pos mod 16 = 0 \<and> 240 < unat m_len"
    have "unat pos < 256" using unsigned_less [of pos, where 'a = nat] by simp
    with a have "unat pos \<le> 240" by presburger
    then have "pos < m_len" using a by (simp add: word_less_nat_alt)
    with run have "f E nonce m_len (pos + 16) (counter + 1) (ctr_step E nonce pos m m_len counter) = Some y" by simp
    from ih [OF this] a have "unat (pos + 16) mod 16 \<noteq> 0" by simp
    moreover have "unat (pos + 16) = (unat pos + 16) mod 256" by (simp add: unat_word_ariths)
    ultimately have "((unat pos + 16) mod 256) mod 16 \<noteq> 0" by argo
    then have "(unat pos + 16) mod 16 \<noteq> 0" by (simp add: mod_mod_cancel)
    with a show False by simp
  qed
qed

lemma cbc_loop_diverges:
  assumes "cbc_loop E m n pos x = Some y"
  shows "\<not> (unat pos mod 16 = 14 \<and> unat n = 255)"
proof (rule cbc_loop.raw_induct [where P = "\<lambda>E m n pos x y. \<not> (unat pos mod 16 = 14 \<and> unat n = 255)", OF _ assms])
  fix f E m and n pos :: u8 and x y
  assume ih: "\<And>E m n pos x y. f E m n pos x = Some y \<Longrightarrow> \<not> (unat pos mod 16 = 14 \<and> unat n = 255)"
    and run: "(if pos < n then f E m n (pos + 16) (E (xor_in m (unat pos) (unat n) 0 x)) else Some x) = Some y"
  show "\<not> (unat pos mod 16 = 14 \<and> unat n = 255)"
  proof
    assume a: "unat pos mod 16 = 14 \<and> unat n = 255"
    have "unat pos < 256" using unsigned_less [of pos, where 'a = nat] by simp
    with a have "unat pos \<le> 254" by presburger
    then have "pos < n" using a by (simp add: word_less_nat_alt)
    with run have "f E m n (pos + 16) (E (xor_in m (unat pos) (unat n) 0 x)) = Some y" by simp
    from ih [OF this] a have "unat (pos + 16) mod 16 \<noteq> 14" by simp
    moreover have "unat (pos + 16) = (unat pos + 16) mod 256" by (simp add: unat_word_ariths)
    ultimately have "((unat pos + 16) mod 256) mod 16 \<noteq> 14" by argo
    then have "(unat pos + 16) mod 16 \<noteq> 14" by (simp add: mod_mod_cancel)
    with a show False by simp
  qed
qed

lemma long_input_diverges:
  assumes "240 < unat m_len"
  shows "ctr E nonce m m_len = None" and "aead E nonce m m_len a a_len result mic_len forward = None"
proof -
  have c: "ctr E nonce m' m_len = None" for m'
    using ctr_loop_diverges [of E nonce m_len 0 1 m'] assms by (cases "ctr E nonce m' m_len") (auto simp: ctr_def)
  show "ctr E nonce m m_len = None" by (rule c)
  show "aead E nonce m m_len a a_len result mic_len forward = None"
    by (cases forward; cases "mic E nonce m m_len a a_len result mic_len") (simp_all add: aead_def c)
qed

text \<open>the 8-bit positions bound what the code can process: for a message of more than 240 bytes
  encryption and decryption never return, and neither does the authentication of 255 bytes of
  additional data, because the position wraps to its start before it reaches the length.\<close>

theorem ccm_long_input_diverges:
  "(240 < unat m_len \<longrightarrow> ctr E nonce m m_len = None \<and>
     aead E nonce m m_len a a_len result mic_len forward = None) \<and>
   (a_len = 255 \<longrightarrow> mic E nonce m m_len a a_len result mic_len = None)"
proof (intro conjI impI)
  assume n: "240 < unat m_len"
  show "ctr E nonce m m_len = None" "aead E nonce m m_len a a_len result mic_len forward = None"
    using long_input_diverges [OF n] by simp_all
next
  assume a: "a_len = 255"
  have "cbc_loop E a a_len 14 x = None" for x
    using cbc_loop_diverges [of E a a_len 14 x] a by (cases "cbc_loop E a a_len 14 x") auto
  then show "mic E nonce m m_len a a_len result mic_len = None"
    using a by (simp add: mic_def Let_def)
qed

lemma ccm_long_input_diverges_witness:
  "aead (encrypt [replicate 16 0]) (replicate 13 1) (replicate 241 0) 241 [] 0 [] 0 True = None"
  using ccm_long_input_diverges [of 241 "encrypt [replicate 16 0]" "replicate 13 1" "replicate 241 0" "[]" 0 "[]" 0 True] by simp

end
