(* ===== verification/Linkaddr.thy ===== *)
theory Linkaddr
  imports Prelude
begin

text \<open>
  Link-layer addresses, \<open>core/net/linkaddr.c\<close>, and the byte buffers that the network code writes and
  reads. An address is a list of bytes; \<open>LINKADDR_SIZE\<close> is fixed when Contiki is compiled (2, 6 or
  8) and is the argument \<open>la\<close> of the definitions. A buffer is the memory at and after a pointer, a
  function from offsets to bytes, so that a read past the end of a packet is a read of whatever the
  memory holds there.
\<close>

section \<open>Addresses\<close>

type_synonym linkaddr_t = "u8 list"

definition linkaddr_null :: "nat \<Rightarrow> linkaddr_t" where
  "linkaddr_null la = replicate la 0"

text \<open>The destination may be longer than an address: a frame keeps 8 bytes for each.\<close>

definition linkaddr_copy :: "nat \<Rightarrow> u8 list \<Rightarrow> u8 list \<Rightarrow> u8 list" where
  "linkaddr_copy la dest src = take la src @ drop la dest"

definition linkaddr_cmp :: "nat \<Rightarrow> u8 list \<Rightarrow> u8 list \<Rightarrow> bool" where
  "linkaddr_cmp la addr1 addr2 \<longleftrightarrow> take la addr1 = take la addr2"

definition linkaddr_set_node_addr :: "nat \<Rightarrow> linkaddr_t \<Rightarrow> linkaddr_t \<Rightarrow> linkaddr_t" where
  "linkaddr_set_node_addr la linkaddr_node_addr t = linkaddr_copy la linkaddr_node_addr t"

lemma length_linkaddr_null [simp]: "length (linkaddr_null la) = la"
  by (simp add: linkaddr_null_def)

lemma length_linkaddr_copy [simp]:
  "la \<le> length src \<Longrightarrow> la \<le> length dest \<Longrightarrow> length (linkaddr_copy la dest src) = length dest"
  by (simp add: linkaddr_copy_def)

lemma linkaddr_copy_exact [simp]:
  "length dest = la \<Longrightarrow> length src = la \<Longrightarrow> linkaddr_copy la dest src = src"
  by (simp add: linkaddr_copy_def)

lemma linkaddr_cmp_copy: "la \<le> length src \<Longrightarrow> linkaddr_cmp la (linkaddr_copy la dest src) src"
  by (simp add: linkaddr_cmp_def linkaddr_copy_def)

lemma linkaddr_cmp_exact [simp]:
  "length a = la \<Longrightarrow> length b = la \<Longrightarrow> linkaddr_cmp la a b \<longleftrightarrow> a = b"
  by (simp add: linkaddr_cmp_def)

section \<open>Buffers\<close>

type_synonym mem = "nat \<Rightarrow> u8"

text \<open>\<open>buf[pos++] = b\<close>, and what a buffer holds from an offset on.\<close>

fun put :: "u8 \<Rightarrow> mem \<times> nat \<Rightarrow> mem \<times> nat" where
  "put b (buf, pos) = (buf(pos := b), pos + 1)"

definition holds :: "mem \<Rightarrow> nat \<Rightarrow> u8 list \<Rightarrow> bool" where
  "holds m p bs \<longleftrightarrow> (\<forall>i < length bs. m (p + i) = bs ! i)"

definition blit :: "mem \<Rightarrow> nat \<Rightarrow> u8 list \<Rightarrow> mem" where
  "blit m p bs = (\<lambda>a. if p \<le> a \<and> a < p + length bs then bs ! (a - p) else m a)"

lemma holds_Nil [simp]: "holds m p []"
  by (simp add: holds_def)

lemma holds_Cons [simp]: "holds m p (b # bs) \<longleftrightarrow> m p = b \<and> holds m (p + 1) bs"
  by (auto simp: holds_def nth_Cons split: nat.splits dest: spec [of _ 0] spec [of _ "Suc _"])

lemma holds_append: "holds m p (bs @ cs) \<longleftrightarrow> holds m p bs \<and> holds m (p + length bs) cs"
  by (induction bs arbitrary: p) auto

lemma holds_blit_self [simp]: "holds (blit m p bs) p bs"
  by (simp add: holds_def blit_def)

lemma holds_blit_below: "q + length cs \<le> p \<Longrightarrow> holds (blit m p bs) q cs \<longleftrightarrow> holds m q cs"
  by (simp add: holds_def blit_def)

lemma blit_Nil [simp]: "blit m p [] = m"
  by (rule ext) (auto simp: blit_def)

lemma blit_append: "blit m p (bs @ cs) = blit (blit m p bs) (p + length bs) cs"
  by (auto simp: blit_def fun_eq_iff nth_append)

lemma blit_Cons: "blit m p (b # bs) = blit (m(p := b)) (p + 1) bs"
proof
  fix a
  show "blit m p (b # bs) a = blit (m(p := b)) (p + 1) bs a"
  proof (cases "a \<le> p")
    case True
    then show ?thesis by (auto simp: blit_def)
  next
    case False
    then have "a - p = Suc (a - Suc p)" by simp
    with False show ?thesis by (simp add: blit_def)
  qed
qed

lemma blit_below: "a < p \<Longrightarrow> blit m p bs a = m a"
  by (simp add: blit_def)

lemma fold_put: "fold put bs (m, p) = (blit m p bs, p + length bs)"
  by (induction bs arbitrary: m p) (simp_all add: blit_Cons)

text \<open>The 16-bit word at an offset, as the little-endian processor reads it.\<close>

definition rd16 :: "mem \<Rightarrow> nat \<Rightarrow> u16" where
  "rd16 m a = ucast (m a) OR push_bit 8 (ucast (m (a + 1)))"

lemma rd16_wr16:
  "(ucast (ucast c :: u8) :: u16) OR push_bit 8 (ucast (ucast (drop_bit 8 c) :: u8)) = c"
  by (rule bit_word_eqI) (auto simp: bit_simps)

lemma rd16_at: "rd16 m (i + k) = ucast (m (i + k)) OR push_bit 8 (ucast (m (i + (k + 1))))"
  unfolding rd16_def by (simp only: add.assoc)

end
