(* ===== verification/Frame802154.thy ===== *)
theory Frame802154
  imports Linkaddr
begin

text \<open>
  The header of an IEEE 802.15.4 frame, \<open>core/net/mac/frame802154.c\<close>: it is built from and parsed
  into a \<open>frame802154_t\<close>. What the file fixes at compile time is a record of the configuration: the
  auxiliary security header, explicit keys in it, and the size of a link-layer address. The buffer
  is a \<^typ>\<open>mem\<close>, and \<open>payload\<close> is the offset of the payload from the start of the frame.
\<close>

section \<open>The code\<close>

record frame_config =
  LLSEC802154_USES_AUX_HEADER :: bool
  LLSEC802154_USES_EXPLICIT_KEYS :: bool
  LINKADDR_SIZE :: nat

abbreviation "FRAME802154_ACKFRAME \<equiv> (2 :: u8)"
abbreviation "FRAME802154_NOADDR \<equiv> (0 :: u8)"
abbreviation "FRAME802154_SHORTADDRMODE \<equiv> (2 :: u8)"
abbreviation "FRAME802154_LONGADDRMODE \<equiv> (3 :: u8)"
abbreviation "FRAME802154_BROADCASTPANDID \<equiv> (0xFFFF :: u16)"
abbreviation "FRAME802154_IEEE802154E_2012 \<equiv> (2 :: u8)"

record frame802154_fcf_t =
  frame_type :: u8
  security_enabled :: u8
  frame_pending :: u8
  ack_required :: u8
  panid_compression :: u8
  sequence_number_suppression :: u8
  ie_list_present :: u8
  dest_addr_mode :: u8
  frame_version :: u8
  src_addr_mode :: u8

record frame802154_scf_t =
  security_level :: u8
  key_id_mode :: u8
  frame_counter_suppression :: u8
  frame_counter_size :: u8

record frame802154_aux_hdr_t =
  security_control :: frame802154_scf_t
  frame_counter :: "u8 list"
  key_source :: "u8 list"
  key_index :: u8

record frame802154_t =
  dest_addr :: "u8 list"
  src_addr :: "u8 list"
  fcf :: frame802154_fcf_t
  seq :: u8
  dest_pid :: u16
  src_pid :: u16
  aux_hdr :: frame802154_aux_hdr_t
  payload :: nat
  payload_len :: int

record field_length_t =
  seqno_len :: nat
  dest_pid_len :: nat
  dest_addr_len :: nat
  src_pid_len :: nat
  src_addr_len :: nat
  aux_sec_len :: nat

definition addr_len :: "u8 \<Rightarrow> nat" where
  "addr_len mode =
     (if mode = FRAME802154_SHORTADDRMODE then 2
      else if mode = FRAME802154_LONGADDRMODE then 8
      else 0)"

definition get_key_id_len :: "u8 \<Rightarrow> nat" where
  "get_key_id_len mode =
     (if mode = 1 then 1 else if mode = 2 then 5 else if mode = 3 then 9 else 0)"

text \<open>Whether a frame carries a source and a destination PAN ID.\<close>

definition frame802154_has_panid :: "frame802154_fcf_t \<Rightarrow> bool \<times> bool" where
  "frame802154_has_panid f =
     (if frame_version f = FRAME802154_IEEE802154E_2012 then
        let dest_pan_id =
              (dest_addr_mode f = FRAME802154_NOADDR \<and> src_addr_mode f = FRAME802154_NOADDR \<and>
                 panid_compression f = 1) \<or>
              (dest_addr_mode f \<noteq> FRAME802154_NOADDR \<and> src_addr_mode f = FRAME802154_NOADDR \<and>
                 panid_compression f = 0) \<or>
              (dest_addr_mode f = FRAME802154_LONGADDRMODE \<and>
                 src_addr_mode f = FRAME802154_LONGADDRMODE \<and> panid_compression f = 0) \<or>
              (dest_addr_mode f = FRAME802154_SHORTADDRMODE \<and> src_addr_mode f \<noteq> FRAME802154_NOADDR) \<or>
              (dest_addr_mode f \<noteq> FRAME802154_NOADDR \<and> src_addr_mode f = FRAME802154_SHORTADDRMODE);
            src_pan_id =
              panid_compression f = 0 \<and>
              ((dest_addr_mode f = FRAME802154_NOADDR \<and>
                  src_addr_mode f = FRAME802154_LONGADDRMODE) \<or>
               (dest_addr_mode f = FRAME802154_NOADDR \<and>
                  src_addr_mode f = FRAME802154_SHORTADDRMODE) \<or>
               (dest_addr_mode f = FRAME802154_SHORTADDRMODE \<and>
                  src_addr_mode f = FRAME802154_SHORTADDRMODE) \<or>
               (dest_addr_mode f = FRAME802154_SHORTADDRMODE \<and>
                  src_addr_mode f = FRAME802154_LONGADDRMODE) \<or>
               (dest_addr_mode f = FRAME802154_LONGADDRMODE \<and>
                  src_addr_mode f = FRAME802154_SHORTADDRMODE))
        in (src_pan_id, dest_pan_id)
      else if frame_type f \<noteq> FRAME802154_ACKFRAME then
        (panid_compression f = 0 \<and> src_addr_mode f AND 3 \<noteq> 0, dest_addr_mode f AND 3 \<noteq> 0)
      else (False, False))"

text \<open>The PAN identifier of this node, \<open>mac_pan_id\<close>, is the state of the file: the functions that
  set and get it are an assignment and a read.\<close>

definition frame802154_set_pan_id :: "u16 \<Rightarrow> u16 \<Rightarrow> u16" where
  "frame802154_set_pan_id pan_id mac_pan_id = pan_id"

definition frame802154_get_pan_id :: "u16 \<Rightarrow> u16" where
  "frame802154_get_pan_id mac_pan_id = mac_pan_id"

definition frame802154_check_dest_panid :: "u16 \<Rightarrow> frame802154_t \<Rightarrow> bool" where
  "frame802154_check_dest_panid mac_pan_id frame =
     (let (_, has_dest_panid) = frame802154_has_panid (fcf frame)
      in \<not> (has_dest_panid \<and> dest_pid frame \<noteq> frame802154_get_pan_id mac_pan_id \<and>
            dest_pid frame \<noteq> FRAME802154_BROADCASTPANDID))"

fun all_ff_loop :: "u8 list \<Rightarrow> nat \<Rightarrow> bool" where
  "all_ff_loop addr 0 = True"
| "all_ff_loop addr (Suc i) = (if addr ! i \<noteq> 0xff then False else all_ff_loop addr i)"

definition frame802154_is_broadcast_addr :: "u8 \<Rightarrow> u8 list \<Rightarrow> bool" where
  "frame802154_is_broadcast_addr mode addr =
     all_ff_loop addr (if mode = FRAME802154_SHORTADDRMODE then 2 else 8)"

text \<open>One address of a frame as a link-layer address, the two halves of
  \<open>frame802154_extract_linkaddr\<close>: \<open>None\<close> when its size is not that of a link-layer address. The
  destination may be a null pointer, in which case nothing is copied.\<close>

definition extract_one ::
    "nat \<Rightarrow> u8 \<Rightarrow> u8 list \<Rightarrow> linkaddr_t option \<Rightarrow> linkaddr_t option option" where
  "extract_one la mode addr dst =
     (let len = (if mode \<noteq> 0 then if mode = FRAME802154_SHORTADDRMODE then 2 else 8 else 0)
      in if len = 0 \<or> frame802154_is_broadcast_addr mode addr
         then Some (map_option (\<lambda>d. linkaddr_copy la d (linkaddr_null la)) dst)
         else if len \<noteq> la then None
         else Some (map_option (\<lambda>d. linkaddr_copy la d addr) dst))"

definition frame802154_extract_linkaddr ::
    "frame_config \<Rightarrow> frame802154_t \<Rightarrow> linkaddr_t option \<Rightarrow> linkaddr_t option
      \<Rightarrow> bool \<times> linkaddr_t option \<times> linkaddr_t option" where
  "frame802154_extract_linkaddr c frame source_address dest_address =
     (case extract_one (LINKADDR_SIZE c) (src_addr_mode (fcf frame)) (src_addr frame) source_address of
        None \<Rightarrow> (False, source_address, dest_address)
      | Some s \<Rightarrow>
          (case extract_one (LINKADDR_SIZE c) (dest_addr_mode (fcf frame)) (dest_addr frame) dest_address of
             None \<Rightarrow> (False, s, dest_address)
           | Some d \<Rightarrow> (True, s, d)))"

definition set_compression :: "frame802154_t \<Rightarrow> frame802154_t" where
  "set_compression p =
     (if frame_version (fcf p) < FRAME802154_IEEE802154E_2012
      then p\<lparr>fcf := (fcf p)\<lparr>panid_compression :=
               (if dest_addr_mode (fcf p) AND 3 \<noteq> 0 \<and> src_addr_mode (fcf p) AND 3 \<noteq> 0 \<and>
                   src_pid p = dest_pid p then 1 else 0)\<rparr>\<rparr>
      else p)"

definition aux_len :: "frame_config \<Rightarrow> frame802154_t \<Rightarrow> nat" where
  "aux_len c p =
     (if LLSEC802154_USES_AUX_HEADER c \<and> security_enabled (fcf p) AND 1 \<noteq> 0 then
        1 + (if frame_counter_suppression (security_control (aux_hdr p)) = 0
             then if frame_counter_size (security_control (aux_hdr p)) = 1 then 5 else 4
             else 0) +
        (if LLSEC802154_USES_EXPLICIT_KEYS c
         then get_key_id_len (key_id_mode (security_control (aux_hdr p))) else 0)
      else 0)"

definition field_len :: "frame_config \<Rightarrow> frame802154_t \<Rightarrow> frame802154_t \<times> field_length_t" where
  "field_len c p0 =
     (let p = set_compression p0;
          (has_src_panid, has_dest_panid) = frame802154_has_panid (fcf p)
      in (p, \<lparr>seqno_len = if sequence_number_suppression (fcf p) AND 1 = 0 then 1 else 0,
              dest_pid_len = if has_dest_panid then 2 else 0,
              dest_addr_len = addr_len (dest_addr_mode (fcf p) AND 3),
              src_pid_len = if has_src_panid then 2 else 0,
              src_addr_len = addr_len (src_addr_mode (fcf p) AND 3),
              aux_sec_len = aux_len c p\<rparr>))"

definition frame802154_hdrlen :: "frame_config \<Rightarrow> frame802154_t \<Rightarrow> frame802154_t \<times> nat" where
  "frame802154_hdrlen c p0 =
     (let (p, flen) = field_len c p0
      in (p, 2 + seqno_len flen + dest_pid_len flen + dest_addr_len flen + src_pid_len flen +
             src_addr_len flen + aux_sec_len flen))"

definition frame802154_create_fcf :: "frame802154_fcf_t \<Rightarrow> mem \<Rightarrow> mem" where
  "frame802154_create_fcf f buf =
     buf(0 := (frame_type f AND 7) OR
              push_bit 3 (security_enabled f AND 1) OR
              push_bit 4 (frame_pending f AND 1) OR
              push_bit 5 (ack_required f AND 1) OR
              push_bit 6 (panid_compression f AND 1),
         1 := (sequence_number_suppression f AND 1) OR
              push_bit 1 (ie_list_present f AND 1) OR
              push_bit 2 (dest_addr_mode f AND 3) OR
              push_bit 4 (frame_version f AND 3) OR
              push_bit 6 (src_addr_mode f AND 3))"

definition put16 :: "u16 \<Rightarrow> mem \<times> nat \<Rightarrow> mem \<times> nat" where
  "put16 w st = put (ucast (drop_bit 8 w AND 0xff)) (put (ucast (w AND 0xff)) st)"

text \<open>\<open>for(c = len; c > 0; c--) buf[pos++] = addr[c - 1]\<close>\<close>

fun put_addr :: "u8 list \<Rightarrow> nat \<Rightarrow> mem \<times> nat \<Rightarrow> mem \<times> nat" where
  "put_addr addr 0 st = st"
| "put_addr addr (Suc c) st = put_addr addr c (put (addr ! c) st)"

text \<open>The auxiliary header. The copy of the key source reads its 8 bytes at most: a larger
  \<open>key_id_mode\<close> reads past the structure, which the model does not define.\<close>

definition create_aux ::
    "frame_config \<Rightarrow> field_length_t \<Rightarrow> frame802154_aux_hdr_t \<Rightarrow> mem \<times> nat \<Rightarrow> (mem \<times> nat) option" where
  "create_aux c flen a st0 =
     (if LLSEC802154_USES_AUX_HEADER c \<and> aux_sec_len flen \<noteq> 0 then
        let s = security_control a;
            st1 = put (security_level s OR
                       (if LLSEC802154_USES_EXPLICIT_KEYS c then push_bit 3 (key_id_mode s) else 0) OR
                       push_bit 5 (frame_counter_suppression s) OR
                       push_bit 6 (frame_counter_size s)) st0;
            st2 = (if frame_counter_suppression s = 0 then
                     let (buf, pos) = fold put (take 4 (frame_counter a)) st1
                     in (buf, if frame_counter_size s = 1 then pos + 1 else pos)
                   else st1)
        in if LLSEC802154_USES_EXPLICIT_KEYS c \<and> key_id_mode s \<noteq> 0 then
             if key_id_mode s > 3 then None
             else Some (put (key_index a)
                    (fold put (take ((unat (key_id_mode s) - 1) * 4) (key_source a)) st2))
           else Some st2
      else Some st0)"

definition create_addresses :: "frame802154_t \<Rightarrow> field_length_t \<Rightarrow> mem \<times> nat \<Rightarrow> mem \<times> nat" where
  "create_addresses p flen st0 =
     (let st1 = (if seqno_len flen = 1 then put (seq p) st0 else st0);
          st2 = (if dest_pid_len flen = 2 then put16 (dest_pid p) st1 else st1);
          st3 = put_addr (dest_addr p) (dest_addr_len flen) st2;
          st4 = (if src_pid_len flen = 2 then put16 (src_pid p) st3 else st3)
      in put_addr (src_addr p) (src_addr_len flen) st4)"

definition frame802154_create ::
    "frame_config \<Rightarrow> frame802154_t \<Rightarrow> mem \<Rightarrow> (frame802154_t \<times> mem \<times> nat) option" where
  "frame802154_create c p0 buf0 =
     (let (p, flen) = field_len c p0;
          buf = frame802154_create_fcf (fcf p) buf0
      in map_option (\<lambda>(buf', pos). (p, buf', pos))
           (create_aux c flen (aux_hdr p) (create_addresses p flen (buf, 2))))"

definition frame802154_parse_fcf :: "mem \<Rightarrow> frame802154_fcf_t" where
  "frame802154_parse_fcf data =
     \<lparr>frame_type = data 0 AND 7,
      security_enabled = drop_bit 3 (data 0) AND 1,
      frame_pending = drop_bit 4 (data 0) AND 1,
      ack_required = drop_bit 5 (data 0) AND 1,
      panid_compression = drop_bit 6 (data 0) AND 1,
      sequence_number_suppression = data 1 AND 1,
      ie_list_present = drop_bit 1 (data 1) AND 1,
      dest_addr_mode = drop_bit 2 (data 1) AND 3,
      frame_version = drop_bit 4 (data 1) AND 3,
      src_addr_mode = drop_bit 6 (data 1) AND 3\<rparr>"

definition get16 :: "mem \<Rightarrow> nat \<Rightarrow> u16" where
  "get16 data p = ucast (data p) + push_bit 8 (ucast (data (p + 1)))"

text \<open>An address is read into the 8 bytes that hold it: the two branches on its mode.\<close>

definition get_addr :: "nat \<Rightarrow> u8 \<Rightarrow> mem \<Rightarrow> nat \<Rightarrow> u8 list \<Rightarrow> u8 list \<times> nat" where
  "get_addr la mode data p addr =
     (if mode = FRAME802154_SHORTADDRMODE
      then ((linkaddr_copy la addr (linkaddr_null la))[0 := data (p + 1), 1 := data p], p + 2)
      else if mode = FRAME802154_LONGADDRMODE
      then (foldl (\<lambda>a c. a[c := data (p + (7 - c))]) addr [0..<8], p + 8)
      else (addr, p))"

definition parse_dest ::
    "frame_config \<Rightarrow> frame802154_fcf_t \<Rightarrow> mem \<Rightarrow> nat \<times> frame802154_t \<Rightarrow> nat \<times> frame802154_t" where
  "parse_dest c f data = (\<lambda>(p0, pf).
     let (has_src_panid, has_dest_panid) = frame802154_has_panid f
     in if dest_addr_mode f \<noteq> 0 then
          let (pid, p1) = (if has_dest_panid then (get16 data p0, p0 + 2) else (0, p0));
              (addr, p2) = get_addr (LINKADDR_SIZE c) (dest_addr_mode f) data p1 (dest_addr pf)
          in (p2, pf\<lparr>dest_pid := pid, dest_addr := addr\<rparr>)
        else (p0, pf\<lparr>dest_addr := linkaddr_copy (LINKADDR_SIZE c) (dest_addr pf)
                                  (linkaddr_null (LINKADDR_SIZE c)), dest_pid := 0\<rparr>))"

definition parse_src ::
    "frame_config \<Rightarrow> frame802154_fcf_t \<Rightarrow> mem \<Rightarrow> nat \<times> frame802154_t \<Rightarrow> nat \<times> frame802154_t" where
  "parse_src c f data = (\<lambda>(p0, pf).
     let (has_src_panid, has_dest_panid) = frame802154_has_panid f
     in if src_addr_mode f \<noteq> 0 then
          let (p1, pf1) = (if has_src_panid
                           then (p0 + 2,
                                 let pf1 = pf\<lparr>src_pid := get16 data p0\<rparr>
                                 in if \<not> has_dest_panid then pf1\<lparr>dest_pid := src_pid pf1\<rparr> else pf1)
                           else (p0, pf\<lparr>src_pid := dest_pid pf\<rparr>));
              (addr, p2) = get_addr (LINKADDR_SIZE c) (src_addr_mode f) data p1 (src_addr pf1)
          in (p2, pf1\<lparr>src_addr := addr\<rparr>)
        else (p0, pf\<lparr>src_addr := linkaddr_copy (LINKADDR_SIZE c) (src_addr pf)
                                 (linkaddr_null (LINKADDR_SIZE c)), src_pid := 0\<rparr>))"

text \<open>\<open>memcpy(dst, p, n)\<close> into an array.\<close>

definition copy_in :: "u8 list \<Rightarrow> mem \<Rightarrow> nat \<Rightarrow> nat \<Rightarrow> u8 list" where
  "copy_in dst data p n = map (\<lambda>i. data (p + i)) [0..<n] @ drop n dst"

definition parse_aux ::
    "frame_config \<Rightarrow> frame802154_fcf_t \<Rightarrow> mem \<Rightarrow> nat \<times> frame802154_aux_hdr_t \<Rightarrow> nat \<times> frame802154_aux_hdr_t" where
  "parse_aux c f data = (\<lambda>(p0, a0).
     if LLSEC802154_USES_AUX_HEADER c \<and> security_enabled f \<noteq> 0 then
       let s = (security_control a0)\<lparr>
                 security_level := data p0 AND 7,
                 key_id_mode := if LLSEC802154_USES_EXPLICIT_KEYS c then drop_bit 3 (data p0) AND 3
                                else key_id_mode (security_control a0),
                 frame_counter_suppression := drop_bit 5 (data p0),
                 frame_counter_size := drop_bit 6 (data p0)\<rparr>;
           a1 = a0\<lparr>security_control := s\<rparr>;
           p1 = p0 + 1;
           (p2, a2) = (if frame_counter_suppression s = 0
                       then (if frame_counter_size s = 1 then p1 + 5 else p1 + 4,
                             a1\<lparr>frame_counter := copy_in (frame_counter a1) data p1 4\<rparr>)
                       else (p1, a1))
       in if LLSEC802154_USES_EXPLICIT_KEYS c \<and> key_id_mode s \<noteq> 0 then
            let n = (unat (key_id_mode s) - 1) * 4
            in (p2 + n + 1, a2\<lparr>key_source := copy_in (key_source a2) data p2 n,
                               key_index := data (p2 + n)\<rparr>)
          else (p2, a2)
     else (p0, a0))"

text \<open>The result is the header's length, or 0 when the header is longer than the frame, and the
  structure, which is filled in either way.\<close>

definition frame802154_parse ::
    "frame_config \<Rightarrow> mem \<Rightarrow> int \<Rightarrow> frame802154_t \<Rightarrow> nat \<times> frame802154_t" where
  "frame802154_parse c data len pf0 =
     (if len < 2 then (0, pf0)
      else
        let f = frame802154_parse_fcf data;
            pf1 = pf0\<lparr>fcf := f\<rparr>;
            (p, pf2) = (if sequence_number_suppression f = 0 then (3, pf1\<lparr>seq := data 2\<rparr>) else (2, pf1));
            (p3, pf3) = parse_src c f data (parse_dest c f data (p, pf2));
            (p4, a) = parse_aux c f data (p3, aux_hdr pf3)
        in (if int p4 > len then 0 else p4,
            pf3\<lparr>aux_hdr := a, payload_len := len - int p4, payload := p4\<rparr>))"

text \<open>What \<open>memset(&params, 0, sizeof(params))\<close> leaves.\<close>

definition zero_frame :: frame802154_t where
  "zero_frame = \<lparr>dest_addr = replicate 8 0, src_addr = replicate 8 0,
     fcf = \<lparr>frame_type = 0, security_enabled = 0, frame_pending = 0, ack_required = 0,
       panid_compression = 0, sequence_number_suppression = 0, ie_list_present = 0,
       dest_addr_mode = 0, frame_version = 0, src_addr_mode = 0\<rparr>,
     seq = 0, dest_pid = 0, src_pid = 0,
     aux_hdr = \<lparr>security_control = \<lparr>security_level = 0, key_id_mode = 0,
       frame_counter_suppression = 0, frame_counter_size = 0\<rparr>,
       frame_counter = replicate 4 0, key_source = replicate 8 0, key_index = 0\<rparr>,
     payload = 0, payload_len = 0\<rparr>"

section \<open>The fields of a byte\<close>

lemma byte_masks: "(7 :: u8) = mask 3" "(3 :: u8) = mask 2" "(1 :: u8) = mask 1" "(255 :: u16) = mask 8"
  by (simp_all add: mask_eq_exp_minus_1)

lemma word_less_and: 
  "x < (8 :: u8) \<Longrightarrow> x AND 7 = x" "x < (4 :: u8) \<Longrightarrow> x AND 3 = x" "x < (2 :: u8) \<Longrightarrow> x AND 1 = x"
  using less_mask_eq [of x 3] less_mask_eq [of x 2] less_mask_eq [of x 1]
  by (simp_all add: mask_eq_exp_minus_1)

lemma get16_put: 
  assumes "data p = ucast (w AND 0xff)" and "data (p + 1) = ucast (drop_bit 8 w AND 0xff)"
  shows "get16 data p = (w :: u16)"
proof -
  have "get16 data p = ucast (ucast (w AND 0xff) :: u8) OR push_bit 8 (ucast (ucast (drop_bit 8 w AND 0xff) :: u8))"
    unfolding get16_def assms
    by (rule disjunctive_add_eq_or) (auto intro!: bit_word_eqI simp: bit_simps)
  also have "\<dots> = w"
    unfolding byte_masks by (rule bit_word_eqI) (auto simp: bit_simps)
  finally show ?thesis .
qed

lemma fcf_fields:
  fixes a b c d e :: u8
  shows "((a AND 7) OR push_bit 3 (b AND 1) OR push_bit 4 (c AND 1) OR push_bit 5 (d AND 1) OR push_bit 6 (e AND 1)) AND 7 = a AND 7"
   "drop_bit 3 ((a AND 7) OR push_bit 3 (b AND 1) OR push_bit 4 (c AND 1) OR push_bit 5 (d AND 1) OR push_bit 6 (e AND 1)) AND 1 = b AND 1"
   "drop_bit 4 ((a AND 7) OR push_bit 3 (b AND 1) OR push_bit 4 (c AND 1) OR push_bit 5 (d AND 1) OR push_bit 6 (e AND 1)) AND 1 = c AND 1"
   "drop_bit 5 ((a AND 7) OR push_bit 3 (b AND 1) OR push_bit 4 (c AND 1) OR push_bit 5 (d AND 1) OR push_bit 6 (e AND 1)) AND 1 = d AND 1"
   "drop_bit 6 ((a AND 7) OR push_bit 3 (b AND 1) OR push_bit 4 (c AND 1) OR push_bit 5 (d AND 1) OR push_bit 6 (e AND 1)) AND 1 = e AND 1"
  unfolding byte_masks by (rule bit_word_eqI; auto simp: bit_simps)+

lemma bit_times2: "bit (b * 2 :: u8) n \<longleftrightarrow> n \<noteq> 0 \<and> n < 8 \<and> bit b (n - 1)"
  using bit_double_iff [of b n] by (auto simp: mult.commute)

lemma fcf_fields2:
  fixes a b c d e :: u8
  shows "((a AND 1) OR push_bit 1 (b AND 1) OR push_bit 2 (c AND 3) OR push_bit 4 (d AND 3) OR push_bit 6 (e AND 3)) AND 1 = a AND 1"
   "drop_bit 1 ((a AND 1) OR push_bit 1 (b AND 1) OR push_bit 2 (c AND 3) OR push_bit 4 (d AND 3) OR push_bit 6 (e AND 3)) AND 1 = b AND 1"
   "drop_bit 2 ((a AND 1) OR push_bit 1 (b AND 1) OR push_bit 2 (c AND 3) OR push_bit 4 (d AND 3) OR push_bit 6 (e AND 3)) AND 3 = c AND 3"
   "drop_bit 4 ((a AND 1) OR push_bit 1 (b AND 1) OR push_bit 2 (c AND 3) OR push_bit 4 (d AND 3) OR push_bit 6 (e AND 3)) AND 3 = d AND 3"
   "drop_bit 6 ((a AND 1) OR push_bit 1 (b AND 1) OR push_bit 2 (c AND 3) OR push_bit 4 (d AND 3) OR push_bit 6 (e AND 3)) AND 3 = e AND 3"
  unfolding byte_masks by (rule bit_word_eqI; auto simp: bit_simps bit_times2)+

definition fcf_ok :: "frame802154_fcf_t \<Rightarrow> bool" where
  "fcf_ok f \<longleftrightarrow> frame_type f < 8 \<and> security_enabled f < 2 \<and> frame_pending f < 2 \<and>
     ack_required f < 2 \<and> panid_compression f < 2 \<and> sequence_number_suppression f < 2 \<and>
     ie_list_present f < 2 \<and> dest_addr_mode f < 4 \<and> frame_version f < 4 \<and> src_addr_mode f < 4"

lemma fcf_round_trip:
  assumes "fcf_ok f" and "data 0 = frame802154_create_fcf f buf 0"
    and "data 1 = frame802154_create_fcf f buf 1"
  shows "frame802154_parse_fcf data = f"
proof -
  have d0: "data 0 = (frame_type f AND 7) OR push_bit 3 (security_enabled f AND 1) OR
      push_bit 4 (frame_pending f AND 1) OR push_bit 5 (ack_required f AND 1) OR
      push_bit 6 (panid_compression f AND 1)"
    using assms(2) by (simp add: frame802154_create_fcf_def)
  have d1: "data 1 = (sequence_number_suppression f AND 1) OR push_bit 1 (ie_list_present f AND 1) OR
      push_bit 2 (dest_addr_mode f AND 3) OR push_bit 4 (frame_version f AND 3) OR
      push_bit 6 (src_addr_mode f AND 3)"
    using assms(3) by (simp add: frame802154_create_fcf_def)
  show ?thesis
    unfolding frame802154_parse_fcf_def d0 d1 fcf_fields fcf_fields2
    using assms(1) by (simp add: fcf_ok_def word_less_and)
qed

definition wire16 :: "u16 \<Rightarrow> u8 list" where
  "wire16 w = [ucast (w AND 0xff), ucast (drop_bit 8 w AND 0xff)]"

lemma put16_wire: "put16 w st = fold put (wire16 w) st"
  by (simp add: put16_def wire16_def)

lemma put_addr_wire: "n \<le> length addr \<Longrightarrow> put_addr addr n st = fold put (rev (take n addr)) st"
  by (induction n arbitrary: st) (simp_all add: take_Suc_conv_app_nth)

lemma holds_wire16: "holds data p (wire16 w) \<Longrightarrow> get16 data p = w"
  by (auto simp: wire16_def intro: get16_put)

definition address_wire :: "frame802154_t \<Rightarrow> field_length_t \<Rightarrow> u8 list" where
  "address_wire p flen =
     (if seqno_len flen = 1 then [seq p] else []) @
     (if dest_pid_len flen = 2 then wire16 (dest_pid p) else []) @
     rev (take (dest_addr_len flen) (dest_addr p)) @
     (if src_pid_len flen = 2 then wire16 (src_pid p) else []) @
     rev (take (src_addr_len flen) (src_addr p))"

lemma create_addresses_wire:
  assumes "dest_addr_len flen \<le> length (dest_addr p)" and "src_addr_len flen \<le> length (src_addr p)"
  shows "create_addresses p flen st = fold put (address_wire p flen) st"
  using assms by (simp add: create_addresses_def address_wire_def put_addr_wire put16_wire)

lemma addr_len_cases: "addr_len m = 0 \<or> addr_len m = 2 \<or> addr_len m = 8"
  by (simp add: addr_len_def)

lemma get_addr_wire:
  assumes "length addr = 8" and "length a = 8" and "la \<le> 8"
    and "holds data p (rev (take (addr_len mode) a))"
  shows "\<exists>r. get_addr la mode data p addr = (r, p + addr_len mode) \<and> length r = 8 \<and>
           take (addr_len mode) r = take (addr_len mode) a"
proof -
  obtain a0 a1 a2 a3 a4 a5 a6 a7 where a: "a = [a0, a1, a2, a3, a4, a5, a6, a7]"
    using assms(2) by (auto simp: length_Suc_conv eval_nat_numeral)
  obtain b0 b1 b2 b3 b4 b5 b6 b7 where b: "addr = [b0, b1, b2, b3, b4, b5, b6, b7]"
    using assms(1) by (auto simp: length_Suc_conv eval_nat_numeral)
  obtain c0 c1 cs where c: "linkaddr_copy la addr (linkaddr_null la) = c0 # c1 # cs" and "length cs = 6"
  proof -
    have "length (linkaddr_copy la addr (linkaddr_null la)) = 8" using assms(1,3) by simp
    then show ?thesis using that by (auto simp: length_Suc_conv eval_nat_numeral)
  qed
  then show ?thesis
    using assms(4) by (auto simp: get_addr_def addr_len_def a b upt_rec add.commute eval_nat_numeral)
qed

lemma has_panid_modes:
  assumes "frame802154_has_panid f = (sp, dp)"
  shows "sp \<Longrightarrow> src_addr_mode f \<noteq> 0"
    and "dp \<Longrightarrow> dest_addr_mode f = 0 \<Longrightarrow>
           frame_version f = 2 \<and> src_addr_mode f = 0 \<and> panid_compression f = 1"
  using assms by (auto simp: frame802154_has_panid_def Let_def split: if_splits)

lemma parse_dest_wire:
  assumes "frame802154_has_panid f = (sp, dp)" and "dest_addr_mode f = 0 \<Longrightarrow> \<not> dp"
    and "length (dest_addr pf) = 8" and "length (dest_addr p) = 8" and "LINKADDR_SIZE c \<le> 8"
    and "holds data i ((if dp then wire16 (dest_pid p) else []) @
                       rev (take (addr_len (dest_addr_mode f)) (dest_addr p)))"
  shows "\<exists>r. parse_dest c f data (i, pf) =
           (i + (if dp then 2 else 0) + addr_len (dest_addr_mode f),
            pf\<lparr>dest_pid := if dp then dest_pid p else 0, dest_addr := r\<rparr>) \<and> length r = 8 \<and>
         take (addr_len (dest_addr_mode f)) r = take (addr_len (dest_addr_mode f)) (dest_addr p)"
proof (cases "dest_addr_mode f = 0")
  case True
  with assms show ?thesis
    by (auto simp: parse_dest_def addr_len_def
        intro!: exI [of _ "linkaddr_copy (LINKADDR_SIZE c) (dest_addr pf) (linkaddr_null (LINKADDR_SIZE c))"])
next
  case False
  have "holds data (i + (if dp then 2 else 0)) (rev (take (addr_len (dest_addr_mode f)) (dest_addr p)))"
    using assms(6) by (simp add: holds_append wire16_def split: if_splits)
  from get_addr_wire [OF assms(3,4,5) this]
  obtain r where "get_addr (LINKADDR_SIZE c) (dest_addr_mode f) data (i + (if dp then 2 else 0)) (dest_addr pf)
      = (r, i + (if dp then 2 else 0) + addr_len (dest_addr_mode f))"
    and "length r = 8"
    and "take (addr_len (dest_addr_mode f)) r = take (addr_len (dest_addr_mode f)) (dest_addr p)"
    by blast
  moreover have "dp \<Longrightarrow> get16 data i = dest_pid p"
    using assms(6) by (auto simp: holds_append intro: holds_wire16)
  ultimately show ?thesis
    using False assms(1) by (auto simp: parse_dest_def Let_def)
qed

lemma parse_src_wire:
  assumes "frame802154_has_panid f = (sp, dp)"
    and "length (src_addr pf) = 8" and "length (src_addr p) = 8" and "LINKADDR_SIZE c \<le> 8"
    and "holds data i ((if sp then wire16 (src_pid p) else []) @
                       rev (take (addr_len (src_addr_mode f)) (src_addr p)))"
  shows "\<exists>r. parse_src c f data (i, pf) =
           (i + (if sp then 2 else 0) + addr_len (src_addr_mode f),
            pf\<lparr>src_pid := if sp then src_pid p else if src_addr_mode f = 0 then 0 else dest_pid pf,
               dest_pid := if sp \<and> \<not> dp then src_pid p else dest_pid pf,
               src_addr := r\<rparr>) \<and> length r = 8 \<and>
         take (addr_len (src_addr_mode f)) r = take (addr_len (src_addr_mode f)) (src_addr p)"
proof (cases "src_addr_mode f = 0")
  case True
  with has_panid_modes(1) [OF assms(1)] have "\<not> sp" by blast
  with True assms show ?thesis
    by (auto simp: parse_src_def addr_len_def
        intro!: exI [of _ "linkaddr_copy (LINKADDR_SIZE c) (src_addr pf) (linkaddr_null (LINKADDR_SIZE c))"])
next
  case False
  have "holds data (i + (if sp then 2 else 0)) (rev (take (addr_len (src_addr_mode f)) (src_addr p)))"
    using assms(5) by (simp add: holds_append wire16_def split: if_splits)
  from get_addr_wire [OF assms(2,3,4) this]
  obtain r where "get_addr (LINKADDR_SIZE c) (src_addr_mode f) data (i + (if sp then 2 else 0)) (src_addr pf)
      = (r, i + (if sp then 2 else 0) + addr_len (src_addr_mode f))"
    and "length r = 8"
    and "take (addr_len (src_addr_mode f)) r = take (addr_len (src_addr_mode f)) (src_addr p)"
    by blast
  moreover have "sp \<Longrightarrow> get16 data i = src_pid p"
    using assms(5) by (auto simp: holds_append intro: holds_wire16)
  ultimately show ?thesis
    using False assms(1) by (auto simp: parse_src_def Let_def)
qed

definition aux_on :: "frame_config \<Rightarrow> frame802154_fcf_t \<Rightarrow> bool" where
  "aux_on c f \<longleftrightarrow> LLSEC802154_USES_AUX_HEADER c \<and> security_enabled f \<noteq> 0"

definition keys_on :: "frame_config \<Rightarrow> frame802154_aux_hdr_t \<Rightarrow> bool" where
  "keys_on c a \<longleftrightarrow> LLSEC802154_USES_EXPLICIT_KEYS c \<and> key_id_mode (security_control a) \<noteq> 0"

definition key_len :: "frame802154_aux_hdr_t \<Rightarrow> nat" where
  "key_len a = (unat (key_id_mode (security_control a)) - 1) * 4"

definition aux_ok :: "frame802154_aux_hdr_t \<Rightarrow> bool" where
  "aux_ok a \<longleftrightarrow> security_level (security_control a) < 8 \<and> key_id_mode (security_control a) < 4 \<and>
     frame_counter_suppression (security_control a) < 2 \<and> frame_counter_size (security_control a) = 0 \<and>
     length (frame_counter a) = 4 \<and> length (key_source a) = 8"

definition aux_wire :: "frame_config \<Rightarrow> frame802154_aux_hdr_t \<Rightarrow> u8 list" where
  "aux_wire c a =
     [security_level (security_control a) OR
        (if LLSEC802154_USES_EXPLICIT_KEYS c then push_bit 3 (key_id_mode (security_control a)) else 0) OR
        push_bit 5 (frame_counter_suppression (security_control a))] @
     (if frame_counter_suppression (security_control a) = 0 then frame_counter a else []) @
     (if keys_on c a then take (key_len a) (key_source a) @ [key_index a] else [])"

lemma create_aux_wire:
  assumes "aux_ok a" and "aux_sec_len flen = (if aux_on c f then n + 1 else 0)"
  shows "create_aux c flen a st = Some (if aux_on c f then fold put (aux_wire c a) st else st)"
proof -
  have "key_id_mode (security_control a) \<le> 3"
    using assms(1) by (auto simp: aux_ok_def word_le_nat_alt word_less_nat_alt)
  then have k: "\<not> 3 < key_id_mode (security_control a)" by simp
  have sz: "frame_counter_size (security_control a) = 0" and l: "length (frame_counter a) = 4"
    using assms(1) by (simp_all add: aux_ok_def)
  show ?thesis
  proof (cases "aux_on c f")
    case True
    then have "LLSEC802154_USES_AUX_HEADER c" by (simp add: aux_on_def)
    with True assms(2) show ?thesis
      by (cases "frame_counter_suppression (security_control a) = 0"; cases "LLSEC802154_USES_EXPLICIT_KEYS c";
          cases "key_id_mode (security_control a) = 0")
        (simp_all add: create_aux_def Let_def sz k l aux_wire_def keys_on_def key_len_def cong: if_cong)
  next
    case False
    with assms(2) show ?thesis by (simp add: create_aux_def)
  qed
qed

lemma scf_fields:
  fixes l k s :: u8
  assumes "l < 8" and "k < 4" and "s < 2"
  shows "(l OR push_bit 3 k OR push_bit 5 s) AND 7 = l"
    and "drop_bit 3 (l OR push_bit 3 k OR push_bit 5 s) AND 3 = k"
    and "drop_bit 5 (l OR push_bit 3 k OR push_bit 5 s) = s"
    and "drop_bit 6 (l OR push_bit 3 k OR push_bit 5 s) = 0"
proof -
  have e: "l = l AND 7" "k = k AND 3" "s = s AND 1"
    using assms by (simp_all add: word_less_and)
  have "((l AND 7) OR push_bit 3 (k AND 3) OR push_bit 5 (s AND 1)) AND 7 = l AND 7"
    "drop_bit 3 ((l AND 7) OR push_bit 3 (k AND 3) OR push_bit 5 (s AND 1)) AND 3 = k AND 3"
    "drop_bit 5 ((l AND 7) OR push_bit 3 (k AND 3) OR push_bit 5 (s AND 1)) = s AND 1"
    "drop_bit 6 ((l AND 7) OR push_bit 3 (k AND 3) OR push_bit 5 (s AND 1)) = 0"
    unfolding byte_masks by (rule bit_word_eqI; auto simp: bit_simps)+
  then show "(l OR push_bit 3 k OR push_bit 5 s) AND 7 = l"
    and "drop_bit 3 (l OR push_bit 3 k OR push_bit 5 s) AND 3 = k"
    and "drop_bit 5 (l OR push_bit 3 k OR push_bit 5 s) = s"
    and "drop_bit 6 (l OR push_bit 3 k OR push_bit 5 s) = 0"
    using e by metis+
qed

definition aux_agrees :: "frame_config \<Rightarrow> frame802154_aux_hdr_t \<Rightarrow> frame802154_aux_hdr_t \<Rightarrow> bool" where
  "aux_agrees c a b \<longleftrightarrow>
     security_level (security_control b) = security_level (security_control a) \<and>
     frame_counter_suppression (security_control b) = frame_counter_suppression (security_control a) \<and>
     frame_counter_size (security_control b) = frame_counter_size (security_control a) \<and>
     (frame_counter_suppression (security_control a) = 0 \<longrightarrow> frame_counter b = frame_counter a) \<and>
     (LLSEC802154_USES_EXPLICIT_KEYS c \<longrightarrow>
        key_id_mode (security_control b) = key_id_mode (security_control a) \<and>
        (key_id_mode (security_control a) \<noteq> 0 \<longrightarrow>
           take (key_len a) (key_source b) = take (key_len a) (key_source a) \<and> key_index b = key_index a))"

lemma copy_in_holds:
  "holds data p bs \<Longrightarrow> length bs = n \<Longrightarrow> copy_in dst data p n = bs @ drop n dst"
  by (auto simp: copy_in_def holds_def intro: nth_equalityI)

lemma parse_aux_wire:
  assumes "aux_ok a" and "length (frame_counter a0) = 4"
    and "aux_on c f \<Longrightarrow> holds data i (aux_wire c a)"
  shows "\<exists>b. parse_aux c f data (i, a0) = (if aux_on c f then (i + length (aux_wire c a), b) else (i, a0)) \<and>
           (aux_on c f \<longrightarrow> aux_agrees c a b)"
proof (cases "aux_on c f")
  case False
  then show ?thesis by (auto simp: parse_aux_def aux_on_def)
next
  case True
  define s where "s = security_control a"
  define k where "k = (if LLSEC802154_USES_EXPLICIT_KEYS c then key_id_mode s else 0)"
  define n where "n = (if frame_counter_suppression s = 0 then 4 else 0 :: nat)"
  have ok: "security_level s < 8" "k < 4" "frame_counter_suppression s < 2" "frame_counter_size s = 0"
      "length (frame_counter a) = 4"
    using assms(1) by (simp_all add: aux_ok_def s_def k_def)
  have b: "data i = security_level s OR push_bit 3 k OR push_bit 5 (frame_counter_suppression s)"
    using assms(3) [OF True] by (simp add: aux_wire_def s_def k_def)
  note fields = scf_fields [OF ok(1-3), folded b]
  have fc: "frame_counter_suppression s = 0 \<Longrightarrow> copy_in (frame_counter a0) data (i + 1) 4 = frame_counter a"
    using assms(3) [OF True] copy_in_holds [of data "i + 1" "frame_counter a" 4] ok(5) assms(2)
    by (auto simp: aux_wire_def s_def holds_append)
  have ks: "copy_in (key_source a0) data (i + 1 + n) (key_len a) =
      take (key_len a) (key_source a) @ drop (key_len a) (key_source a0)"
    "data (i + 1 + n + key_len a) = key_index a" "length (take (key_len a) (key_source a)) = key_len a"
    if "keys_on c a"
  proof -
    have "unat (key_id_mode s) \<le> 3"
      using assms(1) by (auto simp: aux_ok_def s_def word_less_nat_alt)
    then have "key_len a \<le> 8" by (auto simp: key_len_def s_def)
    then show l: "length (take (key_len a) (key_source a)) = key_len a"
      using assms(1) by (simp add: aux_ok_def)
    have "holds data (i + 1 + n) (take (key_len a) (key_source a) @ [key_index a])"
      using assms(3) [OF True] that ok(5)
      by (auto simp: aux_wire_def s_def holds_append n_def)
    then show "copy_in (key_source a0) data (i + 1 + n) (key_len a) =
        take (key_len a) (key_source a) @ drop (key_len a) (key_source a0)"
      and "data (i + 1 + n + key_len a) = key_index a"
      using l copy_in_holds [OF _ l] by (simp_all only: holds_append) (auto simp: l)
  qed
  have len: "length (aux_wire c a) = 1 + n + (if keys_on c a then key_len a + 1 else 0)"
    using ok(5) ks(3) by (auto simp: aux_wire_def s_def n_def simp del: length_take)
  define b where "b = snd (parse_aux c f data (i, a0))"
  have "parse_aux c f data (i, a0) = (i + length (aux_wire c a), b) \<and> aux_agrees c a b"
  proof (cases "LLSEC802154_USES_EXPLICIT_KEYS c")
    case True
    then have k: "k = key_id_mode s" by (simp add: k_def)
    show ?thesis
    proof (cases "key_id_mode s = 0")
      case True
      then have "\<not> keys_on c a" by (simp add: keys_on_def s_def)
      with True \<open>aux_on c f\<close> show ?thesis
        unfolding b_def parse_aux_def len aux_agrees_def Let_def
        using fields ok fc by (simp add: aux_on_def k n_def s_def [symmetric])
    next
      case False
      then have "keys_on c a" using \<open>LLSEC802154_USES_EXPLICIT_KEYS c\<close> by (simp add: keys_on_def s_def)
      with ks False \<open>aux_on c f\<close> show ?thesis
        unfolding b_def parse_aux_def len aux_agrees_def Let_def
        using fields ok fc
        by (cases "frame_counter_suppression s = 0")
          (simp_all add: aux_on_def k n_def s_def [symmetric] key_len_def keys_on_def)
    qed
  next
    case False
    then have "\<not> keys_on c a" by (simp add: keys_on_def)
    with False \<open>aux_on c f\<close> show ?thesis
      unfolding b_def parse_aux_def len aux_agrees_def Let_def
      using fields ok fc by (simp add: aux_on_def n_def s_def [symmetric])
  qed
  with True show ?thesis by auto
qed

definition frame_ok :: "frame_config \<Rightarrow> frame802154_t \<Rightarrow> bool" where
  "frame_ok c p \<longleftrightarrow> fcf_ok (fcf p) \<and> length (dest_addr p) = 8 \<and> length (src_addr p) = 8 \<and>
     LINKADDR_SIZE c \<le> 8 \<and>
     \<not> (frame_version (fcf p) = FRAME802154_IEEE802154E_2012 \<and> dest_addr_mode (fcf p) = 0 \<and>
        src_addr_mode (fcf p) = 0 \<and> panid_compression (fcf p) = 1) \<and>
     aux_ok (aux_hdr p)"

definition header_agrees :: "frame_config \<Rightarrow> frame802154_t \<Rightarrow> frame802154_t \<Rightarrow> bool" where
  "header_agrees c p q \<longleftrightarrow>
     fcf q = fcf p \<and>
     (sequence_number_suppression (fcf p) = 0 \<longrightarrow> seq q = seq p) \<and>
     (snd (frame802154_has_panid (fcf p)) \<longrightarrow> dest_pid q = dest_pid p) \<and>
     (fst (frame802154_has_panid (fcf p)) \<longrightarrow> src_pid q = src_pid p) \<and>
     (src_addr_mode (fcf p) \<noteq> 0 \<and> \<not> fst (frame802154_has_panid (fcf p)) \<longrightarrow> src_pid q = dest_pid q) \<and>
     take (addr_len (dest_addr_mode (fcf p))) (dest_addr q) =
       take (addr_len (dest_addr_mode (fcf p))) (dest_addr p) \<and>
     take (addr_len (src_addr_mode (fcf p))) (src_addr q) =
       take (addr_len (src_addr_mode (fcf p))) (src_addr p) \<and>
     (aux_on c (fcf p) \<longrightarrow> aux_agrees c (aux_hdr p) (aux_hdr q))"

lemma set_compression_same:
  "dest_addr (set_compression p) = dest_addr p" "src_addr (set_compression p) = src_addr p"
  "aux_hdr (set_compression p) = aux_hdr p" "dest_pid (set_compression p) = dest_pid p"
  "src_pid (set_compression p) = src_pid p" "seq (set_compression p) = seq p"
  "dest_addr_mode (fcf (set_compression p)) = dest_addr_mode (fcf p)"
  "src_addr_mode (fcf (set_compression p)) = src_addr_mode (fcf p)"
  "security_enabled (fcf (set_compression p)) = security_enabled (fcf p)"
  by (simp_all add: set_compression_def)

lemma set_compression_ok: "frame_ok c p \<Longrightarrow> frame_ok c (set_compression p)"
  by (auto simp: frame_ok_def fcf_ok_def set_compression_def)

definition header_wire :: "frame_config \<Rightarrow> frame802154_t \<Rightarrow> u8 list" where
  "header_wire c p =
     (let (sp, dp) = frame802154_has_panid (fcf p)
      in (if sequence_number_suppression (fcf p) = 0 then [seq p] else []) @
         (if dp then wire16 (dest_pid p) else []) @
         rev (take (addr_len (dest_addr_mode (fcf p))) (dest_addr p)) @
         (if sp then wire16 (src_pid p) else []) @
         rev (take (addr_len (src_addr_mode (fcf p))) (src_addr p)) @
         (if aux_on c (fcf p) then aux_wire c (aux_hdr p) else []))"

lemma mode_and:
  "fcf_ok f \<Longrightarrow> dest_addr_mode f AND 3 = dest_addr_mode f"
  "fcf_ok f \<Longrightarrow> src_addr_mode f AND 3 = src_addr_mode f"
  "fcf_ok f \<Longrightarrow> sequence_number_suppression f AND 1 = sequence_number_suppression f"
  "fcf_ok f \<Longrightarrow> security_enabled f AND 1 = security_enabled f"
  by (simp_all add: fcf_ok_def word_less_and)

lemma aux_len_on:
  "fcf_ok (fcf p) \<Longrightarrow> \<exists>n. aux_len c p = (if aux_on c (fcf p) then n + 1 else 0)"
  by (auto simp: aux_len_def aux_on_def mode_and)

lemma addr_len_le: "addr_len m \<le> 8"
  by (simp add: addr_len_def)

lemma create_wire:
  assumes "frame_ok c p0"
  defines "p \<equiv> set_compression p0"
  shows "frame802154_create c p0 buf =
    Some (p, blit (frame802154_create_fcf (fcf p) buf) 2 (header_wire c p), 2 + length (header_wire c p))"
proof -
  have ok: "frame_ok c p" unfolding p_def using assms(1) by (rule set_compression_ok)
  then have f: "fcf_ok (fcf p)" by (simp add: frame_ok_def)
  obtain sp dp where pan: "frame802154_has_panid (fcf p) = (sp, dp)" by force
  define flen where "flen = snd (field_len c p0)"
  have fl: "field_len c p0 = (p, flen)"
    by (simp add: flen_def field_len_def p_def Let_def split: prod.splits)
  have flen: "seqno_len flen = (if sequence_number_suppression (fcf p) = 0 then 1 else 0)"
      "dest_pid_len flen = (if dp then 2 else 0)" "src_pid_len flen = (if sp then 2 else 0)"
      "dest_addr_len flen = addr_len (dest_addr_mode (fcf p))"
      "src_addr_len flen = addr_len (src_addr_mode (fcf p))" "aux_sec_len flen = aux_len c p"
    using pan f by (simp_all add: flen_def field_len_def Let_def p_def [symmetric] mode_and)
  obtain n where n: "aux_sec_len flen = (if aux_on c (fcf p) then n + 1 else 0)"
    using aux_len_on [OF f] flen(6) by auto
  have a: "aux_ok (aux_hdr p)" and l: "length (dest_addr p) = 8" "length (src_addr p) = 8"
    using ok by (simp_all add: frame_ok_def)
  have ad: "create_addresses p flen st = fold put (address_wire p flen) st" for st
    by (rule create_addresses_wire) (simp_all add: flen l addr_len_le)
  have w: "header_wire c p = address_wire p flen @ (if aux_on c (fcf p) then aux_wire c (aux_hdr p) else [])"
    using pan by (simp add: header_wire_def address_wire_def flen)
  show ?thesis
    unfolding frame802154_create_def fl Let_def prod.case ad create_aux_wire [OF a n] w
    by (simp add: fold_put blit_append)
qed

lemma byte_less_4: "(x :: u8) < 4 \<Longrightarrow> x = 3 \<or> x = 2 \<or> x = 1 \<or> x = 0"
proof -
  assume "x < 4"
  then have "unat x < 4" by (simp add: word_less_nat_alt)
  then consider "unat x = 3" | "unat x = 2" | "unat x = 1" | "unat x = 0" by linarith
  then show ?thesis by cases (auto simp: word_unat_eq_iff)
qed

lemma wire_length:
  assumes "frame_ok c p0"
  defines "p \<equiv> set_compression p0"
  shows "frame802154_hdrlen c p0 = (p, 2 + length (header_wire c p))"
proof -
  have ok: "frame_ok c p" unfolding p_def using assms(1) by (rule set_compression_ok)
  then have f: "fcf_ok (fcf p)" and a: "aux_ok (aux_hdr p)"
    and l: "length (dest_addr p) = 8" "length (src_addr p) = 8"
    by (simp_all add: frame_ok_def)
  obtain sp dp where pan: "frame802154_has_panid (fcf p) = (sp, dp)" by force
  have k: "length (if keys_on c (aux_hdr p) then take (key_len (aux_hdr p)) (key_source (aux_hdr p)) @ [key_index (aux_hdr p)] else []) =
      (if LLSEC802154_USES_EXPLICIT_KEYS c then get_key_id_len (key_id_mode (security_control (aux_hdr p))) else 0)"
  proof -
    have "key_id_mode (security_control (aux_hdr p)) < 4"
      using a by (simp add: aux_ok_def)
    then consider "key_id_mode (security_control (aux_hdr p)) = 3" | "key_id_mode (security_control (aux_hdr p)) = 2"
      | "key_id_mode (security_control (aux_hdr p)) = 1" | "key_id_mode (security_control (aux_hdr p)) = 0"
      using byte_less_4 by blast
    then show ?thesis using a by cases (simp_all add: keys_on_def key_len_def get_key_id_len_def aux_ok_def)
  qed
  have "aux_len c p = length (if aux_on c (fcf p) then aux_wire c (aux_hdr p) else [])"
    using a f k by (auto simp: aux_len_def aux_on_def aux_wire_def mode_and aux_ok_def)
  then show ?thesis
    using pan f by (auto simp: frame802154_hdrlen_def field_len_def Let_def p_def [symmetric] mode_and
        header_wire_def wire16_def l addr_len_le min_absorb2)
qed

lemma create_parse:
  assumes "frame_ok c p0" and "length (dest_addr pf) = 8" and "length (src_addr pf) = 8"
    and "length (frame_counter (aux_hdr pf)) = 4"
    and "frame802154_create c p0 buf = Some (p, buf', n)" and "int n \<le> len"
  shows "\<exists>q. frame802154_parse c buf' len pf = (n, q) \<and> header_agrees c p q \<and>
             payload q = n \<and> payload_len q = len - int n \<and> frame802154_hdrlen c p0 = (p, n)"
proof -
  have p: "p = set_compression p0" and n: "n = 2 + length (header_wire c p)"
    and buf': "buf' = blit (frame802154_create_fcf (fcf p) buf) 2 (header_wire c p)"
    using assms(5) create_wire [OF assms(1)] by auto
  have ok: "frame_ok c p" unfolding p using assms(1) by (rule set_compression_ok)
  then have f: "fcf_ok (fcf p)" and a: "aux_ok (aux_hdr p)" and la: "LINKADDR_SIZE c \<le> 8"
    and l: "length (dest_addr p) = 8" "length (src_addr p) = 8"
    by (simp_all add: frame_ok_def)
  obtain sp dp where pan: "frame802154_has_panid (fcf p) = (sp, dp)" by force
  have nodest: "dest_addr_mode (fcf p) = 0 \<Longrightarrow> \<not> dp"
    using has_panid_modes(2) [OF pan] ok by (auto simp: frame_ok_def)
  have fcf: "frame802154_parse_fcf buf' = fcf p"
    by (rule fcf_round_trip [OF f]) (simp_all add: buf' blit_below)
  have h: "holds buf' 2 (header_wire c p)" unfolding buf' by simp
  define i where "i = 2 + length (if sequence_number_suppression (fcf p) = 0 then [seq p] else [])"
  define i1 where "i1 = i + (if dp then 2 else 0) + addr_len (dest_addr_mode (fcf p))"
  define i2 where "i2 = i1 + (if sp then 2 else 0) + addr_len (src_addr_mode (fcf p))"
  have hseq: "sequence_number_suppression (fcf p) = 0 \<Longrightarrow> buf' 2 = seq p"
    and hd: "holds buf' i ((if dp then wire16 (dest_pid p) else []) @
                       rev (take (addr_len (dest_addr_mode (fcf p))) (dest_addr p)))"
    and hs: "holds buf' i1 ((if sp then wire16 (src_pid p) else []) @
                       rev (take (addr_len (src_addr_mode (fcf p))) (src_addr p)))"
    and ha: "aux_on c (fcf p) \<Longrightarrow> holds buf' i2 (aux_wire c (aux_hdr p))"
    using h by (auto simp: header_wire_def pan holds_append i2_def i1_def i_def l addr_len_le
        min_absorb2 wire16_def add.commute add.left_commute split: if_splits)
  define pf2 where "pf2 = (if sequence_number_suppression (fcf p) = 0 then pf\<lparr>fcf := fcf p, seq := seq p\<rparr>
      else pf\<lparr>fcf := fcf p\<rparr>)"
  have pf2: "length (dest_addr pf2) = 8" "length (src_addr pf2) = 8" "aux_hdr pf2 = aux_hdr pf"
      "fcf pf2 = fcf p"
      "sequence_number_suppression (fcf p) = 0 \<Longrightarrow> seq pf2 = seq p"
    using assms(2,3) by (simp_all add: pf2_def)
  obtain r where d: "parse_dest c (fcf p) buf' (i, pf2) =
      (i1, pf2\<lparr>dest_pid := if dp then dest_pid p else 0, dest_addr := r\<rparr>)"
    and r: "take (addr_len (dest_addr_mode (fcf p))) r = take (addr_len (dest_addr_mode (fcf p))) (dest_addr p)"
    using parse_dest_wire [OF pan nodest pf2(1) l(1) la hd] by (auto simp: i1_def)
  define pf3 where "pf3 = pf2\<lparr>dest_pid := if dp then dest_pid p else 0, dest_addr := r\<rparr>"
  have pf3: "length (src_addr pf3) = 8" using pf2 by (simp add: pf3_def)
  obtain t where s: "parse_src c (fcf p) buf' (i1, pf3) =
      (i2, pf3\<lparr>src_pid := if sp then src_pid p else if src_addr_mode (fcf p) = 0 then 0 else dest_pid pf3,
               dest_pid := if sp \<and> \<not> dp then src_pid p else dest_pid pf3, src_addr := t\<rparr>)"
    and t: "take (addr_len (src_addr_mode (fcf p))) t = take (addr_len (src_addr_mode (fcf p))) (src_addr p)"
    using parse_src_wire [OF pan pf3 l(2) la hs] by (auto simp: i2_def)
  obtain b where x: "parse_aux c (fcf p) buf' (i2, aux_hdr pf) = (n, b)"
    and b: "aux_on c (fcf p) \<longrightarrow> aux_agrees c (aux_hdr p) b"
  proof -
    have "n = (if aux_on c (fcf p) then i2 + length (aux_wire c (aux_hdr p)) else i2)"
      by (simp add: n header_wire_def pan i2_def i1_def i_def l addr_len_le min_absorb2 wire16_def)
    then show ?thesis
      using that parse_aux_wire [OF a assms(4), of c "fcf p" buf' i2] ha
      by (cases "aux_on c (fcf p)") auto
  qed
  have seqp: "(if sequence_number_suppression (fcf p) = 0 then (3, pf\<lparr>fcf := fcf p, seq := buf' 2\<rparr>) else (2, pf\<lparr>fcf := fcf p\<rparr>)) = (i, pf2)"
    using hseq by (simp add: i_def pf2_def)
  define q where "q = pf3\<lparr>src_pid := if sp then src_pid p else if src_addr_mode (fcf p) = 0 then 0 else dest_pid pf3,
               dest_pid := if sp \<and> \<not> dp then src_pid p else dest_pid pf3, src_addr := t,
               aux_hdr := b, payload_len := len - int n, payload := n\<rparr>"
  have "2 \<le> len" using assms(6) n by simp
  then have "frame802154_parse c buf' len pf = (n, q)"
    using assms(6) pf2(3) seqp by (simp add: frame802154_parse_def Let_def fcf q_def d pf3_def [symmetric] s x)
      (simp add: pf3_def pf2(3) x)
  moreover have "header_agrees c p q"
    using r t b pf2 has_panid_modes [OF pan] nodest
    by (auto simp: header_agrees_def q_def pf3_def pan)
  ultimately show ?thesis
    using wire_length [OF assms(1)] by (auto simp: p n q_def)
qed

section \<open>What a parse depends on\<close>

text \<open>\<open>same_upto n data data'\<close>: the two buffers agree on the first \<open>n\<close> bytes.\<close>

definition same_upto :: "nat \<Rightarrow> mem \<Rightarrow> mem \<Rightarrow> bool" where
  "same_upto n data data' \<longleftrightarrow> (\<forall>i < n. data' i = data i)"

lemma same_upto_less: "same_upto n data data' \<Longrightarrow> i < n \<Longrightarrow> data' i = data i"
  by (simp add: same_upto_def)

lemma same_upto_le: "same_upto n data data' \<Longrightarrow> m \<le> n \<Longrightarrow> same_upto m data data'"
  by (simp add: same_upto_def)

lemma get_addr_end: "snd (get_addr la mode data p addr) = p + addr_len mode"
  by (simp add: get_addr_def addr_len_def)

lemma get_addr_same:
  "same_upto (p + addr_len mode) data data' \<Longrightarrow> get_addr la mode data' p addr = get_addr la mode data p addr"
  by (auto simp: get_addr_def addr_len_def same_upto_def upt_rec split: if_splits)

lemma get16_same: "same_upto (p + 2) data data' \<Longrightarrow> get16 data' p = get16 data p"
  by (simp add: get16_def same_upto_def)

lemma parse_dest_end:
  "fst (parse_dest c f data (i, pf)) = i +
     (if dest_addr_mode f = 0 then 0
      else (if snd (frame802154_has_panid f) then 2 else 0) + addr_len (dest_addr_mode f))"
  by (simp add: parse_dest_def Let_def split_def get_addr_end)

lemma parse_src_end:
  "fst (parse_src c f data (i, pf)) = i +
     (if src_addr_mode f = 0 then 0
      else (if fst (frame802154_has_panid f) then 2 else 0) + addr_len (src_addr_mode f))"
  by (simp add: parse_src_def Let_def split_def get_addr_end)

lemma parse_dest_same:
  assumes "same_upto (fst (parse_dest c f data (i, pf))) data data'"
  shows "parse_dest c f data' (i, pf) = parse_dest c f data (i, pf)"
proof (cases "dest_addr_mode f = 0")
  case True
  then show ?thesis by (simp add: parse_dest_def)
next
  case False
  obtain sp dp where pan: "frame802154_has_panid f = (sp, dp)" by force
  have u: "same_upto (i + (if dp then 2 else 0) + addr_len (dest_addr_mode f)) data data'"
    using assms False pan by (simp add: parse_dest_end add.assoc)
  have "dp \<Longrightarrow> get16 data' i = get16 data i"
    by (rule get16_same, rule same_upto_le [OF u]) simp
  with False pan get_addr_same [OF u, of "LINKADDR_SIZE c" "dest_addr pf"] show ?thesis
    by (cases dp) (simp_all add: parse_dest_def Let_def)
qed

lemma parse_src_same:
  assumes "same_upto (fst (parse_src c f data (i, pf))) data data'"
  shows "parse_src c f data' (i, pf) = parse_src c f data (i, pf)"
proof (cases "src_addr_mode f = 0")
  case True
  then show ?thesis by (simp add: parse_src_def)
next
  case False
  obtain sp dp where pan: "frame802154_has_panid f = (sp, dp)" by force
  have u: "same_upto (i + (if sp then 2 else 0) + addr_len (src_addr_mode f)) data data'"
    using assms False pan by (simp add: parse_src_end add.assoc)
  have "sp \<Longrightarrow> get16 data' i = get16 data i"
    by (rule get16_same, rule same_upto_le [OF u]) simp
  with False pan get_addr_same [OF u, of "LINKADDR_SIZE c" "src_addr pf"] show ?thesis
    by (cases sp) (simp_all add: parse_src_def Let_def)
qed

lemma copy_in_same:
  "same_upto (p + n) data data' \<Longrightarrow> copy_in dst data' p n = copy_in dst data p n"
  by (simp add: copy_in_def same_upto_def)

text \<open>The byte that opens the auxiliary header gives its length. A frame counter of 5 bytes is
  never read: the code shifts the suppression flag down without masking off the bit of the size
  above it, so a frame with that size counts as one without a counter.\<close>

definition aux_end :: "frame_config \<Rightarrow> frame802154_fcf_t \<Rightarrow> mem \<Rightarrow> nat \<Rightarrow> nat" where
  "aux_end c f data i =
     (if aux_on c f then
        i + 1 + (if drop_bit 5 (data i) = 0 then 4 else 0) +
        (if LLSEC802154_USES_EXPLICIT_KEYS c \<and> drop_bit 3 (data i) AND 3 \<noteq> 0
         then (unat (drop_bit 3 (data i) AND 3) - 1) * 4 + 1 else 0)
      else i)"

lemma counter_size_dead: "drop_bit 5 (b :: u8) = 0 \<Longrightarrow> drop_bit 6 b = 0"
proof -
  assume "drop_bit 5 b = 0"
  then have "drop_bit 1 (drop_bit 5 b) = 0" by simp
  then show ?thesis by (simp del: drop_bit_drop_bit add: drop_bit_drop_bit [symmetric, of 1 5, simplified])
qed

lemma parse_aux_end: "fst (parse_aux c f data (i, a)) = aux_end c f data i"
  using counter_size_dead [of "data i"]
  by (auto simp: parse_aux_def aux_end_def aux_on_def Let_def split: prod.splits if_splits)


lemma aux_end_ge: "i \<le> aux_end c f data i"
  by (simp add: aux_end_def)

lemma parse_aux_same:
  assumes "same_upto (fst (parse_aux c f data (i, a))) data data'"
  shows "parse_aux c f data' (i, a) = parse_aux c f data (i, a)"
proof (cases "aux_on c f")
  case False
  then show ?thesis by (auto simp: parse_aux_def aux_on_def)
next
  case True
  define n where "n = (if drop_bit 5 (data i) = 0 then 4 else 0 :: nat)"
  define k where "k = (unat (drop_bit 3 (data i) AND 3) - 1) * 4"
  define keys where "keys \<longleftrightarrow> LLSEC802154_USES_EXPLICIT_KEYS c \<and> drop_bit 3 (data i) AND 3 \<noteq> 0"
  have u: "same_upto (i + 1 + n + (if keys then k + 1 else 0)) data data'"
    using assms True unfolding parse_aux_end aux_end_def n_def k_def keys_def by simp
  have b: "data' i = data i"
    by (rule same_upto_less [OF u]) simp
  have fc: "copy_in dst data' (i + 1) 4 = copy_in dst data (i + 1) 4" if "drop_bit 5 (data i) = 0" for dst
    by (rule copy_in_same, rule same_upto_le [OF u]) (simp add: n_def that)
  have ks: "copy_in dst data' (i + 1 + n) k = copy_in dst data (i + 1 + n) k" if keys for dst
    by (rule copy_in_same, rule same_upto_le [OF u]) (simp add: that)
  have ki: "data' (i + 1 + n + k) = data (i + 1 + n + k)" if keys
    by (rule same_upto_less [OF u]) (simp add: that)
  show ?thesis
  proof (cases "drop_bit 5 (data i) = 0")
    case True
    with counter_size_dead [of "data i"] have "drop_bit 6 (data i) = 0" by blast
    with True b fc ks ki \<open>aux_on c f\<close> show ?thesis
      by (cases keys) (auto simp: parse_aux_def Let_def keys_def n_def k_def)
  next
    case False
    with b ks ki \<open>aux_on c f\<close> show ?thesis
      by (cases keys) (auto simp: parse_aux_def Let_def keys_def n_def k_def)
  qed
qed

lemma aux_end_bound: "aux_end c f data i \<le> i + 14"
proof -
  have "unat (drop_bit 3 (data i) AND 3) \<le> 3"
    using word_and_le1 [of "drop_bit 3 (data i)" 3] by (simp add: word_le_nat_alt)
  then show ?thesis by (auto simp: aux_end_def)
qed

lemma parse_unfold:
  assumes "2 \<le> len"
  shows "frame802154_parse c data len pf =
    (let f = frame802154_parse_fcf data;
         st = (if sequence_number_suppression f = 0 then (3, pf\<lparr>fcf := f, seq := data 2\<rparr>)
               else (2, pf\<lparr>fcf := f\<rparr>));
         d = parse_dest c f data st;
         s = parse_src c f data d;
         a = parse_aux c f data (fst s, aux_hdr (snd s))
     in (if int (fst a) > len then 0 else fst a,
         (snd s)\<lparr>aux_hdr := snd a, payload_len := len - int (fst a), payload := fst a\<rparr>))"
  using assms by (simp add: frame802154_parse_def Let_def split_def)

lemma parse_reads_header_only:
  assumes "frame802154_parse c data len pf = (n, q)" and "n \<noteq> 0" and "same_upto n data data'"
  shows "frame802154_parse c data' len pf = (n, q) \<and> 2 \<le> n \<and> int n \<le> len \<and> n \<le> 37 \<and>
           payload q = n \<and> payload_len q = len - int n"
proof -
  have len: "2 \<le> len" using assms(1,2) by (auto simp: frame802154_parse_def split: if_splits)
  define f where "f = frame802154_parse_fcf data"
  define st where "st = (if sequence_number_suppression f = 0 then (3, pf\<lparr>fcf := f, seq := data 2\<rparr>)
               else (2 :: nat, pf\<lparr>fcf := f\<rparr>))"
  define d where "d = parse_dest c f data st"
  define s where "s = parse_src c f data d"
  define a where "a = parse_aux c f data (fst s, aux_hdr (snd s))"
  have r: "(if int (fst a) > len then 0 else fst a,
         (snd s)\<lparr>aux_hdr := snd a, payload_len := len - int (fst a), payload := fst a\<rparr>) = (n, q)"
    using assms(1) unfolding parse_unfold [OF len] Let_def a_def s_def d_def st_def f_def .
  then have n: "n = fst a" and q: "int n \<le> len" "payload q = n" "payload_len q = len - int n"
    using assms(2) by (auto split: if_splits)
  have "fst d = fst st + (if dest_addr_mode f = 0 then 0
      else (if snd (frame802154_has_panid f) then 2 else 0) + addr_len (dest_addr_mode f))"
    using parse_dest_end [of c f data "fst st" "snd st"] unfolding d_def prod.collapse .
  then have dd: "fst st \<le> fst d" "fst d \<le> fst st + 10"
    using addr_len_le [of "dest_addr_mode f"] by auto
  have "fst s = fst d + (if src_addr_mode f = 0 then 0
      else (if fst (frame802154_has_panid f) then 2 else 0) + addr_len (src_addr_mode f))"
    using parse_src_end [of c f data "fst d" "snd d"] unfolding s_def prod.collapse .
  then have ss: "fst d \<le> fst s" "fst s \<le> fst d + 10"
    using addr_len_le [of "src_addr_mode f"] by auto
  have aa: "fst s \<le> n" "n \<le> fst s + 14"
    unfolding n a_def parse_aux_end using aux_end_ge aux_end_bound by auto
  have "2 \<le> fst st" "fst st \<le> 3" by (auto simp: st_def)
  note ends = this dd ss aa
  note u = assms(3)
  have b: "data' 0 = data 0" "data' 1 = data 1"
    using same_upto_less [OF u] ends by auto
  have f': "frame802154_parse_fcf data' = f"
    unfolding f_def frame802154_parse_fcf_def b by (rule refl)
  have st': "(if sequence_number_suppression f = 0 then (3, pf\<lparr>fcf := f, seq := data' 2\<rparr>)
               else (2, pf\<lparr>fcf := f\<rparr>)) = st"
    using same_upto_less [OF u, of 2] ends by (auto simp: st_def split: if_splits)
  have d': "parse_dest c f data' st = d"
    using parse_dest_same [of c f data "fst st" "snd st" data'] same_upto_le [OF u, of "fst d"] ends
    by (simp add: d_def [symmetric])
  have s': "parse_src c f data' d = s"
    using parse_src_same [of c f data "fst d" "snd d" data'] same_upto_le [OF u, of "fst s"] ends
    by (simp add: s_def [symmetric])
  have a': "parse_aux c f data' (fst s, aux_hdr (snd s)) = a"
    using parse_aux_same [of c f data "fst s" "aux_hdr (snd s)" data'] u
    by (simp add: a_def [symmetric] n)
  have "frame802154_parse c data' len pf = (n, q)"
    unfolding parse_unfold [OF len] Let_def f' st' d' s' a' by (rule r)
  with q ends show ?thesis by auto
qed

section \<open>Properties\<close>

text \<open>C22: A header that \<open>frame802154_create\<close> writes is read back by
  \<open>frame802154_parse\<close> as the same header, whatever the configuration, the addresses and
  the bytes after it: the frame control field, and every field that it announces, with the payload
  where \<open>create\<close> stopped, at the length that \<open>frame802154_hdrlen\<close> gives.
  The fields must fit their bits, and addresses have no more than 8 bytes. Excluded are headers that
  the code does not read back: those with frame counters of 5 bytes, and frames of version 2 with
  PAN compression and no address, of which \<open>create\<close> writes a PAN that
  \<open>parse\<close> does not read.\<close>

theorem frame_create_parse:
  assumes "frame_ok c p0" and "length (dest_addr pf) = 8" and "length (src_addr pf) = 8"
    and "length (frame_counter (aux_hdr pf)) = 4"
    and "frame802154_create c p0 buf = Some (p, buf', n)" and "int n \<le> len"
  shows "\<exists>q. frame802154_parse c buf' len pf = (n, q) \<and> header_agrees c p q \<and>
             payload q = n \<and> payload_len q = len - int n \<and> frame802154_hdrlen c p0 = (p, n)"
  using assms by (rule create_parse)

definition sample_config :: frame_config where
  "sample_config = \<lparr>LLSEC802154_USES_AUX_HEADER = True, LLSEC802154_USES_EXPLICIT_KEYS = True,
     LINKADDR_SIZE = 8\<rparr>"

definition sample_frame :: frame802154_t where
  "sample_frame = \<lparr>dest_addr = [1, 2, 3, 4, 5, 6, 7, 8], src_addr = [9, 10, 11, 12, 13, 14, 15, 16],
     fcf = \<lparr>frame_type = 1, security_enabled = 1, frame_pending = 0, ack_required = 1,
       panid_compression = 0, sequence_number_suppression = 0, ie_list_present = 0,
       dest_addr_mode = 3, frame_version = 1, src_addr_mode = 3\<rparr>,
     seq = 7, dest_pid = 0xABCD, src_pid = 0xABCD,
     aux_hdr = \<lparr>security_control = \<lparr>security_level = 6, key_id_mode = 2,
       frame_counter_suppression = 0, frame_counter_size = 0\<rparr>,
       frame_counter = [1, 0, 0, 0], key_source = [1, 2, 3, 4, 5, 6, 7, 8], key_index = 3\<rparr>,
     payload = 0, payload_len = 0\<rparr>"

lemma sample_ok: "frame_ok sample_config sample_frame"
  by (simp add: frame_ok_def fcf_ok_def aux_ok_def sample_config_def sample_frame_def)

lemma sample_length: "length (header_wire sample_config (set_compression sample_frame)) = 29"
  by (simp add: header_wire_def set_compression_def frame802154_has_panid_def sample_config_def
      sample_frame_def aux_on_def aux_wire_def keys_on_def key_len_def addr_len_def wire16_def)

theorem frame_create_parse_witness:
  "\<exists>p buf' q. frame802154_create sample_config sample_frame (\<lambda>_. 0) = Some (p, buf', 31) \<and>
     frame802154_parse sample_config buf' 100 sample_frame = (31, q) \<and> header_agrees sample_config p q"
proof -
  obtain p buf' where c: "frame802154_create sample_config sample_frame (\<lambda>_. 0) = Some (p, buf', 31)"
    using create_wire [OF sample_ok] sample_length by simp
  have "length (dest_addr sample_frame) = 8" "length (src_addr sample_frame) = 8"
    "length (frame_counter (aux_hdr sample_frame)) = 4"
    by (simp_all add: sample_frame_def)
  from frame_create_parse [OF sample_ok this c, of 100] c show ?thesis by auto
qed

text \<open>A frame that \<open>frame802154_parse\<close> accepts has its whole header inside the frame, at most 37
  bytes of it, and the result depends on these bytes alone, although the code reads the fields
  before it compares their length with that of the frame.\<close>

theorem frame_parse_reads_header_only:
  assumes "frame802154_parse c data len pf = (n, q)" and "n \<noteq> 0" and "same_upto n data data'"
  shows "frame802154_parse c data' len pf = (n, q) \<and> 2 \<le> n \<and> int n \<le> len \<and> n \<le> 37 \<and>
           payload q = n \<and> payload_len q = len - int n"
  using assms by (rule parse_reads_header_only)

definition sample_ack :: mem where
  "sample_ack = (\<lambda>_. 0)(0 := 2, 2 := 7)"

lemma sample_ack_parse: "fst (frame802154_parse sample_config sample_ack 3 sample_frame) = 3"
  by (simp add: frame802154_parse_def sample_ack_def frame802154_parse_fcf_def parse_dest_def
      parse_src_def parse_aux_def frame802154_has_panid_def Let_def)

theorem frame_parse_reads_header_only_witness:
  "frame802154_parse sample_config (sample_ack(3 := 9)) 3 sample_frame =
     frame802154_parse sample_config sample_ack 3 sample_frame"
proof -
  obtain q where q: "frame802154_parse sample_config sample_ack 3 sample_frame = (3, q)"
    using sample_ack_parse by (metis prod.collapse)
  have "same_upto 3 sample_ack (sample_ack(3 := 9))" by (simp add: same_upto_def)
  from frame_parse_reads_header_only [OF q _ this] q show ?thesis by simp
qed

text \<open>The 5-byte frame counter is not parsed: a received auxiliary header that announces one
  leaves \<open>frame_counter\<close> as it was, reports the counter as suppressed, and takes the byte after the
  security control field, where \<open>frame802154_create\<close> puts the counter, for what follows it.\<close>

theorem frame_counter5_not_parsed:
  assumes "LLSEC802154_USES_AUX_HEADER c" and "security_enabled f \<noteq> 0" and "data i AND 0x60 = 0x40"
    and "parse_aux c f data (i, a) = (j, b)"
  shows "frame_counter b = frame_counter a \<and> frame_counter_suppression (security_control b) \<noteq> 0 \<and>
         j = i + 1 + (if LLSEC802154_USES_EXPLICIT_KEYS c \<and> drop_bit 3 (data i) AND 3 \<noteq> 0
                      then (unat (drop_bit 3 (data i) AND 3) - 1) * 4 + 1 else 0)"
proof -
  have "drop_bit 5 (data i) \<noteq> 0"
  proof
    assume "drop_bit 5 (data i) = 0"
    then have "\<not> bit (drop_bit 5 (data i)) 1" by simp
    then have "\<not> bit (data i) 6" by (simp add: bit_simps del: \<open>drop_bit 5 (data i) = 0\<close>)
    moreover have "bit (data i AND 0x60) 6" unfolding assms(3) by (simp add: bit_numeral_rec)
    ultimately show False by (simp add: bit_simps)
  qed
  with assms(1,2,4) show ?thesis
    by (auto simp: parse_aux_def Let_def split: if_splits)
qed

theorem frame_counter5_not_parsed_witness:
  "frame_counter (snd (parse_aux sample_config (fcf sample_frame) ((\<lambda>_. 5)(21 := 0x45)) (21, aux_hdr sample_frame)))
     = [1, 0, 0, 0]"
proof -
  obtain j b where e: "parse_aux sample_config (fcf sample_frame) ((\<lambda>_. 5)(21 := 0x45)) (21, aux_hdr sample_frame) = (j, b)"
    by force
  have "LLSEC802154_USES_AUX_HEADER sample_config" "security_enabled (fcf sample_frame) \<noteq> 0"
    "((\<lambda>_. 5 :: u8)(21 := 0x45)) 21 AND 0x60 = (0x40 :: u8)"
    by (simp_all add: sample_config_def sample_frame_def)
  from frame_counter5_not_parsed [OF this e]
  have "frame_counter b = frame_counter (aux_hdr sample_frame)" by blast
  then show ?thesis unfolding e by (simp add: sample_frame_def)
qed

lemma all_ff_loop_iff: "all_ff_loop addr n \<longleftrightarrow> (\<forall>i < n. addr ! i = 0xff)"
  by (induction n) (auto simp: less_Suc_eq)

text \<open>The link-layer address that an address of a frame stands for.\<close>

definition link_address :: "nat \<Rightarrow> u8 \<Rightarrow> u8 list \<Rightarrow> linkaddr_t" where
  "link_address la mode addr =
     (if mode = 0 \<or> take (addr_len mode) addr = replicate (addr_len mode) 0xff
      then linkaddr_null la else take (addr_len mode) addr)"

lemma extract_one_link_address:
  assumes "mode = 0 \<or> mode \<in> {2, 3} \<and> addr_len mode = la" and "length d = la" and "length a = 8"
    and "take (addr_len mode) r = take (addr_len mode) a"
  shows "extract_one la mode r (Some d) = Some (Some (link_address la mode a))"
proof (cases "mode = 0")
  case True
  with assms show ?thesis by (simp add: extract_one_def link_address_def)
next
  case False
  define n where "n = (if mode = FRAME802154_SHORTADDRMODE then 2 else 8 :: nat)"
  from False assms(1) have n: "addr_len mode = n" "la = n" by (auto simp: addr_len_def n_def)
  have "n \<le> 8" by (simp add: n_def)
  with assms(3,4) n have l: "n \<le> length r" by (metis length_take min.absorb2 nat_le_linear min.absorb1)
  have "frame802154_is_broadcast_addr mode r \<longleftrightarrow> take n r = replicate n 0xff"
    using l by (auto simp: frame802154_is_broadcast_addr_def all_ff_loop_iff n_def [symmetric]
        list_eq_iff_nth_eq)
  with False assms n l show ?thesis
    by (auto simp: extract_one_def Let_def n_def [symmetric] link_address_def linkaddr_copy_def linkaddr_null_def)
qed

text \<open>What a node sends is what its neighbours see: the link-layer addresses that a receiver
  extracts from a parsed frame are those of the frame that was built, and an absent or a broadcast
  address, and only these, becomes the null address.\<close>

theorem frame_addresses_survive:
  assumes "frame_ok c p0" and "length (dest_addr pf) = 8" and "length (src_addr pf) = 8"
    and "length (frame_counter (aux_hdr pf)) = 4"
    and "frame802154_create c p0 buf = Some (p, buf', n)" and "int n \<le> len"
    and "frame802154_parse c buf' len pf = (m, q)"
    and "src_addr_mode (fcf p0) = 0 \<or> src_addr_mode (fcf p0) \<in> {2, 3} \<and>
           addr_len (src_addr_mode (fcf p0)) = LINKADDR_SIZE c"
    and "dest_addr_mode (fcf p0) = 0 \<or> dest_addr_mode (fcf p0) \<in> {2, 3} \<and>
           addr_len (dest_addr_mode (fcf p0)) = LINKADDR_SIZE c"
    and "length s = LINKADDR_SIZE c" and "length d = LINKADDR_SIZE c"
  shows "frame802154_extract_linkaddr c q (Some s) (Some d) =
           (True, Some (link_address (LINKADDR_SIZE c) (src_addr_mode (fcf p0)) (src_addr p0)),
                  Some (link_address (LINKADDR_SIZE c) (dest_addr_mode (fcf p0)) (dest_addr p0)))"
proof -
  have p: "p = set_compression p0" using assms(5) create_wire [OF assms(1)] by simp
  have h: "header_agrees c p q" using create_parse [OF assms(1-6)] assms(7) by auto
  have l: "length (src_addr p0) = 8" "length (dest_addr p0) = 8"
    using assms(1) by (simp_all add: frame_ok_def)
  have f: "fcf q = fcf p"
    and t: "take (addr_len (src_addr_mode (fcf p0))) (src_addr q) = take (addr_len (src_addr_mode (fcf p0))) (src_addr p0)"
      "take (addr_len (dest_addr_mode (fcf p0))) (dest_addr q) = take (addr_len (dest_addr_mode (fcf p0))) (dest_addr p0)"
    using h by (simp_all add: header_agrees_def p set_compression_same)
  show ?thesis
    using extract_one_link_address [OF assms(8,10) l(1) t(1)] extract_one_link_address [OF assms(9,11) l(2) t(2)]
    by (simp add: frame802154_extract_linkaddr_def f p set_compression_same)
qed

theorem frame_addresses_survive_witness:
  "\<exists>p buf' q. frame802154_create sample_config sample_frame (\<lambda>_. 0) = Some (p, buf', 31) \<and>
     frame802154_parse sample_config buf' 100 sample_frame = (31, q) \<and>
     frame802154_extract_linkaddr sample_config q (Some (replicate 8 0)) (Some (replicate 8 0)) =
       (True, Some [9, 10, 11, 12, 13, 14, 15, 16], Some [1, 2, 3, 4, 5, 6, 7, 8])"
proof -
  obtain p buf' where c: "frame802154_create sample_config sample_frame (\<lambda>_. 0) = Some (p, buf', 31)"
    using create_wire [OF sample_ok] sample_length by simp
  have l: "length (dest_addr sample_frame) = 8" "length (src_addr sample_frame) = 8"
    "length (frame_counter (aux_hdr sample_frame)) = 4"
    by (simp_all add: sample_frame_def)
  from create_parse [OF sample_ok l c, of 100]
  obtain q where q: "frame802154_parse sample_config buf' 100 sample_frame = (31, q)" by auto
  have m: "LINKADDR_SIZE sample_config = 8" "src_addr_mode (fcf sample_frame) = 3"
    "dest_addr_mode (fcf sample_frame) = 3" "addr_len 3 = 8"
    by (simp_all add: sample_config_def sample_frame_def addr_len_def)
  have r: "replicate 8 (0xff :: u8) = [0xff, 0xff, 0xff, 0xff, 0xff, 0xff, 0xff, 0xff]"
    by (simp add: eval_nat_numeral)
  have "link_address 8 3 (src_addr sample_frame) = [9, 10, 11, 12, 13, 14, 15, 16]"
    "link_address 8 3 (dest_addr sample_frame) = [1, 2, 3, 4, 5, 6, 7, 8]"
    by (simp_all add: link_address_def sample_frame_def addr_len_def r)
  with frame_addresses_survive [OF sample_ok l c _ q, of "replicate 8 0" "replicate 8 0"] c q m
  show ?thesis by simp
qed

end
