(* ===== verification/Packetbuf.thy ===== *)
theory Packetbuf
  imports Linkaddr Simulation
begin

text \<open>
  The packet buffer, \<open>core/net/packetbuf.c\<close>: one packet under construction or being parsed. The
  header grows to the left and the data shrinks from the left, so that protocol layers add and strip
  their headers without a copy of the data. \<open>PACKETBUF_SIZE\<close> is the argument \<open>psize\<close>. On the 6502
  an \<open>int\<close> has 16 bits, so an expression with an \<open>int\<close> and a \<open>uint16_t\<close> is computed without a sign.
\<close>

section \<open>The code\<close>

type_synonym packetbuf_attr_t = u16

record packetbuf_state =
  packetbuf :: mem
  buflen :: u16
  bufptr :: u16
  hdrlen :: u8
  packetbuf_attrs :: "packetbuf_attr_t list"
  packetbuf_addrs :: "linkaddr_t list"

definition packetbuf_attr_clear :: "nat \<Rightarrow> packetbuf_state \<Rightarrow> packetbuf_state" where
  "packetbuf_attr_clear la s =
     s\<lparr>packetbuf_attrs := replicate (length (packetbuf_attrs s)) 0,
       packetbuf_addrs := map (\<lambda>a. linkaddr_copy la a (linkaddr_null la)) (packetbuf_addrs s)\<rparr>"

definition packetbuf_clear :: "nat \<Rightarrow> packetbuf_state \<Rightarrow> packetbuf_state" where
  "packetbuf_clear la s = packetbuf_attr_clear la (s\<lparr>buflen := 0, bufptr := 0, hdrlen := 0\<rparr>)"

definition packetbuf_copyfrom ::
    "nat \<Rightarrow> nat \<Rightarrow> u8 list \<Rightarrow> u16 \<Rightarrow> packetbuf_state \<Rightarrow> u16 \<times> packetbuf_state" where
  "packetbuf_copyfrom psize la from_buf len s0 =
     (let s = packetbuf_clear la s0;
          l = min (of_nat psize) len
      in (l, s\<lparr>packetbuf := blit (packetbuf s) 0 (take (unat l) from_buf), buflen := l\<rparr>))"

definition packetbuf_hdrlen :: "packetbuf_state \<Rightarrow> u8" where
  "packetbuf_hdrlen s = ucast (bufptr s + ucast (hdrlen s))"

definition packetbuf_datalen :: "packetbuf_state \<Rightarrow> u16" where
  "packetbuf_datalen s = buflen s"

definition packetbuf_totlen :: "packetbuf_state \<Rightarrow> u16" where
  "packetbuf_totlen s = ucast (packetbuf_hdrlen s) + packetbuf_datalen s"

definition packetbuf_remaininglen :: "nat \<Rightarrow> packetbuf_state \<Rightarrow> u16" where
  "packetbuf_remaininglen psize s = of_nat psize - packetbuf_totlen s"

text \<open>Pointers into the buffer are offsets.\<close>

definition packetbuf_dataptr :: "packetbuf_state \<Rightarrow> nat" where
  "packetbuf_dataptr s = unat (packetbuf_hdrlen s)"

definition packetbuf_hdrptr :: "packetbuf_state \<Rightarrow> nat" where
  "packetbuf_hdrptr s = 0"

text \<open>\<open>for(i = 0; i < n; i++) packetbuf[dst + i] = packetbuf[src + i]\<close>\<close>

definition shift_left :: "nat \<Rightarrow> nat \<Rightarrow> nat \<Rightarrow> mem \<Rightarrow> mem" where
  "shift_left dst src n m = foldl (\<lambda>m i. m(dst + i := m (src + i))) m [0..<n]"

definition packetbuf_compact :: "packetbuf_state \<Rightarrow> packetbuf_state" where
  "packetbuf_compact s =
     (if bufptr s \<noteq> 0
      then s\<lparr>packetbuf := shift_left (unat (hdrlen s)) (unat (packetbuf_hdrlen s)) (unat (buflen s)) (packetbuf s),
             bufptr := 0\<rparr>
      else s)"

definition packetbuf_copyto :: "nat \<Rightarrow> packetbuf_state \<Rightarrow> u16 \<times> u8 list" where
  "packetbuf_copyto psize s =
     (if ucast (hdrlen s) + buflen s > of_nat psize then (0, [])
      else (ucast (hdrlen s) + buflen s,
            map (packetbuf s) [packetbuf_hdrptr s ..< packetbuf_hdrptr s + unat (hdrlen s)] @
            map (packetbuf s) [packetbuf_dataptr s ..< packetbuf_dataptr s + unat (buflen s)]))"

text \<open>\<open>for(i = n - 1; i >= 0; i--) packetbuf[i + size] = packetbuf[i]\<close>\<close>

fun shift_right :: "nat \<Rightarrow> nat \<Rightarrow> mem \<Rightarrow> mem" where
  "shift_right sz 0 m = m"
| "shift_right sz (Suc i) m = shift_right sz i (m(i + sz := m i))"

text \<open>A negative size passes the check when the buffer holds more than that: the loop then writes
  in front of the buffer, which the model does not define.\<close>

definition packetbuf_hdralloc :: "nat \<Rightarrow> u16 \<Rightarrow> packetbuf_state \<Rightarrow> (bool \<times> packetbuf_state) option" where
  "packetbuf_hdralloc psize sz s =
     (if sz + packetbuf_totlen s > of_nat psize then Some (False, s)
      else if 0x8000 \<le> sz then None
      else Some (True, s\<lparr>packetbuf := shift_right (unat sz) (unat (packetbuf_totlen s)) (packetbuf s),
                         hdrlen := hdrlen s + ucast sz\<rparr>))"

definition packetbuf_hdrreduce :: "u16 \<Rightarrow> packetbuf_state \<Rightarrow> bool \<times> packetbuf_state" where
  "packetbuf_hdrreduce sz s =
     (if buflen s < sz then (False, s)
      else (True, s\<lparr>bufptr := bufptr s + sz, buflen := buflen s - sz\<rparr>))"

definition packetbuf_set_datalen :: "u16 \<Rightarrow> packetbuf_state \<Rightarrow> packetbuf_state" where
  "packetbuf_set_datalen len s = s\<lparr>buflen := len\<rparr>"

definition packetbuf_attr_copyto :: "packetbuf_state \<Rightarrow> packetbuf_attr_t list \<times> linkaddr_t list" where
  "packetbuf_attr_copyto s = (packetbuf_attrs s, packetbuf_addrs s)"

definition packetbuf_attr_copyfrom ::
    "packetbuf_attr_t list \<Rightarrow> linkaddr_t list \<Rightarrow> packetbuf_state \<Rightarrow> packetbuf_state" where
  "packetbuf_attr_copyfrom attrs addrs s = s\<lparr>packetbuf_attrs := attrs, packetbuf_addrs := addrs\<rparr>"

text \<open>The attribute and address types are the elements of an enumeration, the addresses last;
  \<open>PACKETBUF_ADDR_FIRST\<close> is the argument \<open>first\<close>. The address of the receiver follows that of the
  sender.\<close>

definition packetbuf_set_attr :: "nat \<Rightarrow> packetbuf_attr_t \<Rightarrow> packetbuf_state \<Rightarrow> packetbuf_state" where
  "packetbuf_set_attr type val s = s\<lparr>packetbuf_attrs := (packetbuf_attrs s)[type := val]\<rparr>"

definition packetbuf_attr :: "nat \<Rightarrow> packetbuf_state \<Rightarrow> packetbuf_attr_t" where
  "packetbuf_attr type s = packetbuf_attrs s ! type"

definition packetbuf_set_addr ::
    "nat \<Rightarrow> nat \<Rightarrow> nat \<Rightarrow> linkaddr_t \<Rightarrow> packetbuf_state \<Rightarrow> packetbuf_state" where
  "packetbuf_set_addr la first type addr s =
     s\<lparr>packetbuf_addrs := (packetbuf_addrs s)
         [type - first := linkaddr_copy la (packetbuf_addrs s ! (type - first)) addr]\<rparr>"

definition packetbuf_addr :: "nat \<Rightarrow> nat \<Rightarrow> packetbuf_state \<Rightarrow> linkaddr_t" where
  "packetbuf_addr first type s = packetbuf_addrs s ! (type - first)"

definition packetbuf_holds_broadcast :: "nat \<Rightarrow> packetbuf_state \<Rightarrow> bool" where
  "packetbuf_holds_broadcast la s = linkaddr_cmp la (packetbuf_addrs s ! 1) (linkaddr_null la)"

section \<open>The contents\<close>

lemma shift_right_at:
  "shift_right sz n m a = (if sz \<le> a \<and> a < sz + n then m (a - sz) else m a)"
  by (induction n arbitrary: m) (auto simp: not_less le_Suc_eq)

lemma shift_left_at:
  "dst \<le> src \<Longrightarrow> shift_left dst src n m a = (if dst \<le> a \<and> a < dst + n then m (src + (a - dst)) else m a)"
proof (induction n arbitrary: a)
  case 0
  then show ?case by (auto simp: shift_left_def)
next
  case (Suc n)
  have "shift_left dst src (Suc n) m =
      (shift_left dst src n m)(dst + n := shift_left dst src n m (src + n))"
    by (simp add: shift_left_def)
  with Suc show ?case by auto
qed

text \<open>The packet in the buffer: a header, a gap that \<open>packetbuf_hdrreduce\<close> leaves, and the data.\<close>

definition packet_is :: "nat \<Rightarrow> packetbuf_state \<Rightarrow> u8 list \<times> nat \<times> u8 list \<Rightarrow> bool" where
  "packet_is psize s = (\<lambda>(h, g, d).
     unat (hdrlen s) = length h \<and> unat (bufptr s) = g \<and> unat (buflen s) = length d \<and>
     length h + g + length d \<le> psize \<and>
     holds (packetbuf s) 0 h \<and> holds (packetbuf s) (length h + g) d)"

text \<open>The operations of a protocol layer: to add a header is to allocate it and to write it at
  \<open>packetbuf_hdrptr()\<close>.\<close>

datatype packet_op =
  Copyfrom "u8 list"
| Add_header "u8 list"
| Strip nat
| Compact
| Truncate nat

definition packet_step :: "nat \<Rightarrow> nat \<Rightarrow> packet_op \<Rightarrow> packetbuf_state \<Rightarrow> packetbuf_state option" where
  "packet_step psize la x s = (case x of
     Copyfrom bs \<Rightarrow> Some (snd (packetbuf_copyfrom psize la bs (of_nat (length bs)) s))
   | Add_header bs \<Rightarrow>
       (case packetbuf_hdralloc psize (of_nat (length bs)) s of
          None \<Rightarrow> None
        | Some (ok, t) \<Rightarrow>
            Some (if ok then t\<lparr>packetbuf := blit (packetbuf t) (packetbuf_hdrptr t) bs\<rparr> else t))
   | Strip n \<Rightarrow> Some (snd (packetbuf_hdrreduce (of_nat n) s))
   | Compact \<Rightarrow> Some (packetbuf_compact s)
   | Truncate n \<Rightarrow> Some (packetbuf_set_datalen (of_nat n) s))"

fun packet_spec :: "nat \<Rightarrow> packet_op \<Rightarrow> u8 list \<times> nat \<times> u8 list \<Rightarrow> u8 list \<times> nat \<times> u8 list" where
  "packet_spec psize (Copyfrom bs) (h, g, d) = ([], 0, take psize bs)"
| "packet_spec psize (Add_header bs) (h, g, d) =
     (if psize < length bs + length h + g + length d then (h, g, d) else (bs @ h, g, d))"
| "packet_spec psize (Strip n) (h, g, d) =
     (if length d < n then (h, g, d) else (h, g + n, drop n d))"
| "packet_spec psize Compact (h, g, d) = (h, 0, d)"
| "packet_spec psize (Truncate n) (h, g, d) = (h, g, take n d)"

fun packet_op_ok :: "packet_op \<Rightarrow> u8 list \<times> nat \<times> u8 list \<Rightarrow> bool" where
  "packet_op_ok (Copyfrom bs) a \<longleftrightarrow> length bs < 2 ^ 15"
| "packet_op_ok (Add_header bs) a \<longleftrightarrow> length bs < 2 ^ 15"
| "packet_op_ok (Strip n) a \<longleftrightarrow> n < 2 ^ 15"
| "packet_op_ok Compact a \<longleftrightarrow> True"
| "packet_op_ok (Truncate n) (h, g, d) \<longleftrightarrow> n \<le> length d"

lemma unat_hdrlen:
  assumes "packet_is psize s (h, g, d)" and "psize \<le> 255"
  shows "unat (packetbuf_hdrlen s) = length h + g" "unat (packetbuf_totlen s) = length h + g + length d"
proof -
  have l: "unat (hdrlen s) = length h" "unat (bufptr s) = g" "unat (buflen s) = length d"
    "length h + g + length d \<le> psize"
    using assms(1) by (simp_all add: packet_is_def)
  have "unat (bufptr s + ucast (hdrlen s)) = length h + g"
    using l assms(2) by (simp add: unat_word_ariths unsigned_ucast_eq take_bit_eq_mod)
  then show h: "unat (packetbuf_hdrlen s) = length h + g"
    using l assms(2) by (simp add: packetbuf_hdrlen_def unsigned_ucast_eq take_bit_eq_mod)
  show "unat (packetbuf_totlen s) = length h + g + length d"
    using h l assms(2) by (simp add: packetbuf_totlen_def packetbuf_datalen_def unat_word_ariths unsigned_ucast_eq take_bit_eq_mod)
qed

lemma unat_of_nat16: "n < 2 ^ 16 \<Longrightarrow> unat (of_nat n :: u16) = n"
  by (simp add: unat_of_nat)

lemma packet_step_simulates:
  assumes "psize \<le> 255" and "packet_is psize s a" and "packet_op_ok x a"
  shows "\<exists>t. packet_step psize la x s = Some t \<and> packet_is psize t (packet_spec psize x a)"
proof -
  obtain h g d where a: "a = (h, g, d)" using prod_cases3 by blast
  note u = unat_hdrlen [OF assms(2) [unfolded a] assms(1)]
  have l: "unat (hdrlen s) = length h" "unat (bufptr s) = g" "unat (buflen s) = length d"
    "length h + g + length d \<le> psize" "holds (packetbuf s) 0 h" "holds (packetbuf s) (length h + g) d"
    using assms(2) by (simp_all add: packet_is_def a)
  show ?thesis
  proof (cases x)
    case (Copyfrom bs)
    have "unat (min (of_nat psize) (of_nat (length bs) :: u16)) = min psize (length bs)"
      using assms Copyfrom by (simp add: min_def word_le_nat_alt unat_of_nat)
    moreover have "take (min psize (length bs)) bs = take psize bs"
      by (cases "psize \<le> length bs") simp_all
    ultimately show ?thesis using Copyfrom
      by (simp add: min.commute packet_step_def packetbuf_copyfrom_def Let_def packet_is_def a packetbuf_clear_def
          packetbuf_attr_clear_def)
  next
    case (Add_header bs)
    have n: "unat (of_nat (length bs) :: u16) = length bs"
      using assms(3) Add_header by (simp add: unat_of_nat)
    have t: "unat (of_nat (length bs) + packetbuf_totlen s) = length bs + length h + g + length d"
      using n u(2) l(4) assms(1,3) Add_header by (simp add: unat_word_ariths)
    have p: "unat (of_nat psize :: u16) = psize" using assms(1) by (simp add: unat_of_nat)
    show ?thesis
    proof (cases "psize < length bs + length h + g + length d")
      case True
      then have "of_nat psize < of_nat (length bs) + packetbuf_totlen s"
        by (simp add: word_less_nat_alt t p del: of_nat_add)
      then show ?thesis using True l Add_header
        by (auto simp: packet_step_def packetbuf_hdralloc_def packet_is_def a)
    next
      case False
      then have nl: "\<not> of_nat psize < of_nat (length bs) + packetbuf_totlen s"
        by (simp add: word_less_nat_alt t p del: of_nat_add)
      have ns: "\<not> 0x8000 \<le> (of_nat (length bs) :: u16)"
        using False assms(1) by (simp add: word_le_nat_alt n)
      have hl: "unat (hdrlen s + ucast (of_nat (length bs) :: u16)) = length bs + length h"
        using False assms(1) l by (simp add: unat_word_ariths unsigned_ucast_eq take_bit_eq_mod n)
      define m where "m = shift_right (length bs) (length h + g + length d) (packetbuf s)"
      have "holds (blit m 0 bs) 0 (bs @ h)" "holds (blit m 0 bs) (length bs + length h + g) d"
        using l(5,6) by (auto simp: holds_def blit_def nth_append m_def shift_right_at add.commute add.left_commute)
      then show ?thesis using False l Add_header
        by (simp add: packet_step_def packetbuf_hdralloc_def nl ns n u(2) packet_is_def a hl
            packetbuf_hdrptr_def m_def add.assoc)
    qed
  next
    case (Strip n)
    have n: "unat (of_nat n :: u16) = n" using assms(3) Strip by (simp add: unat_of_nat)
    show ?thesis
    proof (cases "length d < n")
      case True
      then show ?thesis using l Strip
        by (auto simp: packet_step_def packetbuf_hdrreduce_def packet_is_def a word_less_nat_alt n)
    next
      case False
      have w: "unat (bufptr s + of_nat n) = g + n" "unat (buflen s - of_nat n) = length d - n"
        using False l assms(1) by (simp_all add: unat_word_ariths n unat_sub word_le_nat_alt)
      have "holds (packetbuf s) (length h + (g + n)) (drop n d)"
        using l(6) by (auto simp: holds_def add.assoc)
      with False l Strip w show ?thesis
        by (auto simp: packet_step_def packetbuf_hdrreduce_def packet_is_def a word_less_nat_alt n)
    qed
  next
    case Compact
    have "holds (shift_left (length h) (length h + g) (length d) (packetbuf s)) 0 h"
      "holds (shift_left (length h) (length h + g) (length d) (packetbuf s)) (length h) d"
      using l(5,6) by (auto simp: holds_def shift_left_at)
    with Compact l u show ?thesis
      by (auto simp: packet_step_def packetbuf_compact_def packet_is_def a)
  next
    case (Truncate n)
    then have n: "unat (of_nat n :: u16) = n" using assms(1,3) l(4) by (simp add: unat_of_nat a)
    have "holds (packetbuf s) (length h + g) (take n d)" using l(6) by (auto simp: holds_def)
    with Truncate l n assms(3) show ?thesis
      by (simp add: packet_step_def packetbuf_set_datalen_def packet_is_def a)
  qed
qed

interpretation packets: partial_simulation "packet_step psize la" "packet_spec psize" packet_op_ok
    "\<lambda>s a. psize \<le> 255 \<and> packet_is psize s a" for psize la
  by unfold_locales (use packet_step_simulates in blast)

lemma copyto_packet:
  assumes "psize \<le> 255" and "packet_is psize s (h, g, d)"
  shows "packetbuf_copyto psize s = (of_nat (length h + length d), h @ d)"
proof -
  have l: "unat (hdrlen s) = length h" "unat (buflen s) = length d"
    "length h + g + length d \<le> psize" "holds (packetbuf s) 0 h" "holds (packetbuf s) (length h + g) d"
    using assms(2) by (simp_all add: packet_is_def)
  have "unat (ucast (hdrlen s) + buflen s) = length h + length d"
    using l assms(1) by (simp add: unat_word_ariths unsigned_ucast_eq take_bit_eq_mod)
  moreover have "unat (of_nat (length h + length d) :: u16) = length h + length d"
    using l assms(1) by (intro unat_of_nat16) simp
  ultimately have w: "ucast (hdrlen s) + buflen s = of_nat (length h + length d)"
    by (simp only: word_unat_eq_iff)
  have p: "\<not> of_nat psize < (of_nat (length h + length d) :: u16)"
    using l assms(1) by (simp add: word_less_nat_alt unat_of_nat del: of_nat_add)
  have "map (packetbuf s) [0..<length h] = h"
    "map (packetbuf s) [length h + g..<length h + g + length d] = d"
    using l(4,5) by (auto simp: holds_def intro: nth_equalityI)
  then show ?thesis
    using p l(1,2) unat_hdrlen [OF assms(2,1)]
    by (simp add: packetbuf_copyto_def w packetbuf_hdrptr_def packetbuf_dataptr_def del: of_nat_add)
qed

text \<open>The packet buffer is a header and data: after any sequence of copying a packet in, adding
  headers in front, stripping headers from the data, compacting and truncating, the buffer holds the
  headers added, last one first, and what is left of the data. \<open>packetbuf_copyto\<close> gives exactly these
  bytes, and a header is refused only when the buffer has no room for it.\<close>

theorem packetbuf_holds_header_and_data:
  assumes "psize \<le> 255" and "packet_is psize s ([], 0, [])"
    and "ops_allowed packet_op_ok (packet_spec psize) ops ([], 0, [])"
    and "fold (packet_spec psize) ops ([], 0, []) = (h, g, d)"
  shows "\<exists>t. run_ops (packet_step psize la) ops s = Some t \<and>
             packetbuf_copyto psize t = (of_nat (length h + length d), h @ d) \<and>
             packetbuf_dataptr t = length h + g \<and> holds (packetbuf t) (packetbuf_dataptr t) d \<and>
             unat (packetbuf_datalen t) = length d \<and>
             unat (packetbuf_totlen t) = length h + g + length d \<and> length h + g + length d \<le> psize"
proof -
  obtain t where run: "run_ops (packet_step psize la) ops s = Some t" and t: "packet_is psize t (h, g, d)"
    using packets.run_simulates [of psize s "([], 0, [])" ops la] assms by auto
  show ?thesis
    using run t copyto_packet [OF assms(1) t] unat_hdrlen [OF t assms(1)]
    by (simp add: packet_is_def packetbuf_dataptr_def packetbuf_datalen_def)
qed

definition empty_packetbuf :: packetbuf_state where
  "empty_packetbuf = \<lparr>packetbuf = (\<lambda>_. 0), buflen = 0, bufptr = 0, hdrlen = 0,
     packetbuf_attrs = replicate 4 0, packetbuf_addrs = replicate 2 [0, 0]\<rparr>"

theorem packetbuf_holds_header_and_data_witness:
  "\<exists>t. run_ops (packet_step 128 2) [Copyfrom [1, 2, 3, 4], Strip 1, Add_header [9, 8], Compact, Truncate 2]
         empty_packetbuf = Some t \<and> packetbuf_copyto 128 t = (4, [9, 8, 2, 3])"
proof -
  have "packet_is 128 empty_packetbuf ([], 0, [])"
    by (simp add: packet_is_def empty_packetbuf_def)
  from packetbuf_holds_header_and_data [OF _ this, of "[Copyfrom [1, 2, 3, 4], Strip 1, Add_header [9, 8], Compact, Truncate 2]"
      "[9, 8]" 0 "[2, 3]" 2]
  show ?thesis by auto
qed

text \<open>Attributes: what \<open>packetbuf_set_attr\<close> and \<open>packetbuf_set_addr\<close> store is read back, and a
  cleared buffer is addressed to everyone.\<close>

lemma attr_set_get:
  "t < length (packetbuf_attrs s) \<Longrightarrow>
     packetbuf_attr u (packetbuf_set_attr t v s) = (if u = t then v else packetbuf_attr u s)"
  by (simp add: packetbuf_attr_def packetbuf_set_attr_def)

lemma addr_set_get:
  assumes "first \<le> t" and "first \<le> u" and "t - first < length (packetbuf_addrs s)"
    and "length (packetbuf_addrs s ! (t - first)) = la" and "length a = la"
  shows "packetbuf_addr first u (packetbuf_set_addr la first t a s) =
           (if u = t then a else packetbuf_addr first u s)"
  using assms by (auto simp: packetbuf_addr_def packetbuf_set_addr_def)

lemma clear_holds_broadcast:
  "1 < length (packetbuf_addrs s) \<Longrightarrow> packetbuf_holds_broadcast la (packetbuf_clear la s)"
  by (simp add: packetbuf_holds_broadcast_def packetbuf_clear_def packetbuf_attr_clear_def linkaddr_cmp_copy)

end
