(* ===== verification/Slip.thy ===== *)
theory Slip
  imports Linkaddr "HOL-Library.Monad_Syntax"
begin

text \<open>
  The serial line protocol, \<open>core/dev/slip.c\<close>: the framing of a packet, the receiver that the
  interrupt handler feeds byte by byte into a ring, and the handler that takes packets out of the
  ring when the driver's process is polled. \<open>N\<close> stands for \<open>RX_BUFSIZE\<close>. The positions are 16-bit
  integers that stay below it. The options \<open>SLIP_CONF_MICROSOFT_CHAT\<close> and
  \<open>SLIP_CONF_ANSWER_MAC_REQUEST\<close> are off, as in the default configuration.
\<close>

section \<open>The code\<close>

abbreviation "SLIP_END \<equiv> (0xC0 :: u8)"
abbreviation "SLIP_ESC \<equiv> (0xDB :: u8)"
abbreviation "SLIP_ESC_END \<equiv> (0xDC :: u8)"
abbreviation "SLIP_ESC_ESC \<equiv> (0xDD :: u8)"

text \<open>The bytes that \<open>slip_arch_writeb\<close> is given: the loop that \<open>slip_send\<close> and \<open>slip_write\<close> have.\<close>

fun write_loop :: "u8 list \<Rightarrow> u8 list" where
  "write_loop [] = []"
| "write_loop (c # cs) =
     (if c = SLIP_END then [SLIP_ESC, SLIP_ESC_END]
      else if c = SLIP_ESC then [SLIP_ESC, SLIP_ESC_ESC]
      else [c]) @ write_loop cs"

definition slip_write :: "u8 list \<Rightarrow> u8 list" where
  "slip_write ptr = [SLIP_END] @ write_loop ptr @ [SLIP_END]"

definition slip_send :: "nat \<Rightarrow> mem \<Rightarrow> nat \<Rightarrow> u8 list" where
  "slip_send llh uip_buf uip_len =
     [SLIP_END] @ write_loop (map uip_buf [llh ..< llh + uip_len]) @ [SLIP_END]"

datatype rx_status = STATE_TWOPACKETS | STATE_OK | STATE_ESC | STATE_RUBBISH

text \<open>\<open>polled\<close> is the request to be polled that \<open>process_poll(&slip_process)\<close> makes.\<close>

record slip_state =
  state :: rx_status
  rx_begin :: nat
  next_free :: nat
  pkt_end :: nat
  rxbuf :: "u8 list"
  polled :: bool

definition rxbuf_init :: "slip_state \<Rightarrow> slip_state" where
  "rxbuf_init s = s\<lparr>rx_begin := 0, next_free := 0, pkt_end := 0, state := STATE_OK\<rparr>"

text \<open>Advance a position in the ring.\<close>

definition bump :: "nat \<Rightarrow> nat \<Rightarrow> nat" where
  "bump N i = (if i + 1 = N then 0 else i + 1)"

definition add_char :: "nat \<Rightarrow> u8 \<Rightarrow> slip_state \<Rightarrow> bool \<times> slip_state" where
  "add_char N c s0 =
     (let s1 = (if c = SLIP_ESC then s0\<lparr>state := STATE_ESC\<rparr> else s0);
          cur_end = next_free s1;
          s2 = s1\<lparr>next_free := bump N (next_free s1)\<rparr>
      in if next_free s2 = rx_begin s2
         then (False, s2\<lparr>state := STATE_RUBBISH, next_free := pkt_end s2\<rparr>)
         else
           let s3 = s2\<lparr>rxbuf := (rxbuf s2)[cur_end := c]\<rparr>
           in if c = SLIP_END then
                if cur_end \<noteq> pkt_end s3
                then (True, (if rx_begin s3 = pkt_end s3 then s3\<lparr>pkt_end := cur_end\<rparr> else s3)\<lparr>polled := True\<rparr>)
                else (False, s3\<lparr>next_free := cur_end\<rparr>)
              else (False, s3))"

definition slip_input_byte :: "nat \<Rightarrow> u8 \<Rightarrow> slip_state \<Rightarrow> bool \<times> slip_state" where
  "slip_input_byte N c s =
     (case state s of
        STATE_RUBBISH \<Rightarrow> (False, if c = SLIP_END then s\<lparr>state := STATE_OK\<rparr> else s)
      | STATE_ESC \<Rightarrow>
          if c \<noteq> SLIP_ESC_END \<and> c \<noteq> SLIP_ESC_ESC
          then (False, s\<lparr>state := STATE_RUBBISH, next_free := pkt_end s\<rparr>)
          else add_char N c (s\<lparr>state := STATE_OK\<rparr>)
      | _ \<Rightarrow> add_char N c s)"

text \<open>One byte of a packet on its way from the ring to \<open>outbuf\<close>, which starts at \<open>ob\<close>: the body of
  the three loops of the handler.\<close>

fun rx_copy :: "nat \<Rightarrow> u8 \<Rightarrow> mem \<times> nat \<times> bool \<Rightarrow> mem \<times> nat \<times> bool" where
  "rx_copy ob c (out, len, esc) =
     (if esc then
        if c = SLIP_ESC_ESC then (out(ob + len := SLIP_ESC), len + 1, False)
        else if c = SLIP_ESC_END then (out(ob + len := SLIP_END), len + 1, False)
        else (out, len, False)
      else if c = SLIP_ESC then (out, len, True)
      else (out(ob + len := c), len + 1, False))"

function rx_loop ::
    "u8 list \<Rightarrow> nat \<Rightarrow> nat \<Rightarrow> nat \<Rightarrow> nat \<Rightarrow> mem \<times> nat \<times> bool \<Rightarrow> mem \<times> nat \<times> bool" where
  "rx_loop buf ob blen i stop (out, len, esc) =
     (if i < stop then
        if len > blen then (out, 0, esc)
        else rx_loop buf ob blen (i + 1) stop (rx_copy ob (buf ! i) (out, len, esc))
      else (out, len, esc))"
  by pat_completeness auto
termination by (relation "measure (\<lambda>(buf, ob, blen, i, stop, st). stop - i)") auto

declare rx_loop.simps [simp del]

text \<open>The search for the end of a second packet; it returns where it stops.\<close>

partial_function (option) find_end :: "nat \<Rightarrow> u8 list \<Rightarrow> nat \<Rightarrow> nat \<Rightarrow> nat option" where
  "find_end N buf cur_next_free cur_ptr =
     (if cur_ptr \<noteq> cur_next_free then
        if buf ! cur_ptr = SLIP_END then Some cur_ptr
        else find_end N buf cur_next_free (bump N cur_ptr)
      else Some cur_ptr)"

definition slip_poll_handler ::
    "nat \<Rightarrow> nat \<Rightarrow> nat \<Rightarrow> mem \<Rightarrow> slip_state \<Rightarrow> (nat \<times> mem \<times> slip_state) option" where
  "slip_poll_handler N ob blen outbuf s =
     (if rx_begin s \<noteq> pkt_end s then
        let (out, len, esc) =
              (if rx_begin s < pkt_end s
               then rx_loop (rxbuf s) ob blen (rx_begin s) (pkt_end s) (outbuf, 0, False)
               else rx_loop (rxbuf s) ob blen 0 (pkt_end s)
                      (rx_loop (rxbuf s) ob blen (rx_begin s) N (outbuf, 0, False)));
            pe = bump N (pkt_end s)
        in if pe \<noteq> next_free s then do {
             cur_ptr \<leftarrow> find_end N (rxbuf s) (next_free s) pe;
             Some (len, out,
               if cur_ptr = next_free s then s\<lparr>pkt_end := pe, rx_begin := pe\<rparr>
               else s\<lparr>pkt_end := cur_ptr, rx_begin := pe, polled := True\<rparr>)
           } else Some (len, out, s\<lparr>pkt_end := pe, rx_begin := pe\<rparr>)
      else Some (0, outbuf, s))"

text \<open>What the process does each time it is polled, on a node with IPv4. The calls it makes are
  recorded: the callback, the bytes written to the line, and the packet given to \<open>tcpip_input\<close>.
  \<open>ipchksum\<close> stands for \<open>uip_ipchksum\<close> of \<open>core/net/ip/uip.c\<close>.\<close>

datatype slip_action =
  Input_callback
| Write_bytes "u8 list"
| Tcpip_input mem nat

record slip_node =
  slip :: slip_state
  uip_buf :: mem
  uip_len :: nat
  ip_id :: u16
  slip_active :: bool
  input_callback :: bool
  actions :: "slip_action list"

definition slip_set_input_callback :: "bool \<Rightarrow> slip_node \<Rightarrow> slip_node" where
  "slip_set_input_callback c t = t\<lparr>input_callback := c\<rparr>"

definition swap16 :: "u16 \<Rightarrow> u16" where
  "swap16 w = push_bit 8 w OR drop_bit 8 w"

definition stamp_id :: "nat \<Rightarrow> slip_node \<Rightarrow> slip_node" where
  "stamp_id llh t =
     (if uip_buf t (llh + 4) = 0 \<and> uip_buf t (llh + 5) = 0 \<and> uip_buf t (llh + 6) AND 0x40 \<noteq> 0 then
        let nid = ip_id t;
            buf = (uip_buf t)(llh + 4 := ucast (drop_bit 8 nid), llh + 5 := ucast nid);
            neg = NOT (swap16 nid);
            sum = (ucast (buf (llh + 10)) OR push_bit 8 (ucast (buf (llh + 11)))) + neg;
            chk = (if sum < neg then sum + 1 else sum)
        in t\<lparr>ip_id := nid + 1,
             uip_buf := buf(llh + 10 := ucast chk, llh + 11 := ucast (drop_bit 8 chk))\<rparr>
      else t)"

definition slip_poll :: "nat \<Rightarrow> nat \<Rightarrow> nat \<Rightarrow> (mem \<Rightarrow> u16) \<Rightarrow> u8 list \<Rightarrow> slip_node \<Rightarrow> slip_node option" where
  "slip_poll N llh bufsize ipchksum uip_hostaddr t0 = do {
     (len, buf, s) \<leftarrow> slip_poll_handler N llh (bufsize - llh) (uip_buf t0) (slip t0);
     let t = t0\<lparr>slip_active := True, slip := s, uip_buf := buf, uip_len := len\<rparr>;
     Some
       (if len = 4 \<and> map buf [llh ..< llh + 4] = [0x3F, 0x49, 0x50, 0x41] then
          t\<lparr>actions := actions t @ (if input_callback t then [Input_callback] else []) @
              [Write_bytes (slip_write ([0x3D, 0x49, 0x50, 0x41] @ uip_hostaddr))]\<rparr>
        else if 0 < len \<and>
             (of_nat len :: u16) = push_bit 8 (ucast (buf (llh + 2))) + ucast (buf (llh + 3)) \<and>
             ipchksum buf = 0xffff then
          (let u = stamp_id llh t in u\<lparr>actions := actions u @ [Tcpip_input (uip_buf u) (uip_len u)]\<rparr>)
        else t\<lparr>uip_len := 0\<rparr>)
   }"

text \<open>A line that delivers bytes, and a driver that is polled.\<close>

definition feed :: "nat \<Rightarrow> u8 list \<Rightarrow> slip_state \<Rightarrow> slip_state" where
  "feed N bs s = fold (\<lambda>c s. snd (slip_input_byte N c s)) bs s"

section \<open>The ring\<close>

lemma ring_eq_iff:
  "i < N \<Longrightarrow> j < N \<Longrightarrow> (b + i) mod N = (b + j) mod N \<longleftrightarrow> i = (j :: nat)"
proof (induction i j rule: linorder_wlog)
  case (le i j)
  then have "(b + j) mod N = (b + i) mod N \<longleftrightarrow> N dvd j - i"
    by (subst mod_eq_dvd_iff_nat) auto
  moreover have "N dvd j - i \<longleftrightarrow> j = i"
    using le by (auto dest: dvd_imp_le)
  ultimately show ?case by auto
next
  case (sym i j)
  then show ?case by auto
qed

lemma bump_mod: "q < N \<Longrightarrow> bump N q = (q + 1) mod N"
  by (auto simp: bump_def)

lemma bump_ring: "0 < N \<Longrightarrow> bump N ((b + m) mod N) = (b + (m + 1)) mod N"
  by (simp add: bump_mod mod_Suc_eq)

text \<open>The bytes from a position on.\<close>

definition ring_has :: "nat \<Rightarrow> u8 list \<Rightarrow> nat \<Rightarrow> u8 list \<Rightarrow> bool" where
  "ring_has N buf b r \<longleftrightarrow> (\<forall>j < length r. buf ! ((b + j) mod N) = r ! j)"

lemma ring_has_append:
  "ring_has N buf b (r @ t) \<longleftrightarrow> ring_has N buf b r \<and> ring_has N buf (b + length r) t"
proof (intro iffI conjI)
  assume "ring_has N buf b (r @ t)"
  then show "ring_has N buf b r" "ring_has N buf (b + length r) t"
    by (auto simp: ring_has_def nth_append add.assoc dest: spec [of _ "length r + _"])
next
  assume a: "ring_has N buf b r \<and> ring_has N buf (b + length r) t"
  show "ring_has N buf b (r @ t)"
    unfolding ring_has_def
  proof (intro allI impI)
    fix j assume "j < length (r @ t)"
    then show "buf ! ((b + j) mod N) = (r @ t) ! j"
      using a by (cases "j < length r") (auto simp: ring_has_def nth_append dest: spec [of _ "j - length r"])
  qed
qed

lemma ring_has_mod: "ring_has N buf (b mod N) r \<longleftrightarrow> ring_has N buf b r"
  by (simp add: ring_has_def mod_add_left_eq)

lemma ring_has_snoc:
  assumes "ring_has N buf b r" and "length buf = N" and "length r < N"
  shows "ring_has N (buf[(b + length r) mod N := c]) b (r @ [c])"
  unfolding ring_has_def
proof (intro allI impI)
  fix j assume j: "j < length (r @ [c])"
  have p: "0 < N" using assms(3) by simp
  show "buf[(b + length r) mod N := c] ! ((b + j) mod N) = (r @ [c]) ! j"
  proof (cases "j = length r")
    case True
    then show ?thesis using assms(2) p by simp
  next
    case False
    with j have "j < length r" by simp
    moreover then have "(b + j) mod N \<noteq> (b + length r) mod N"
      using ring_eq_iff [of j N "length r" b] assms(3) by auto
    ultimately show ?thesis using assms(1) by (simp add: ring_has_def nth_append)
  qed
qed

text \<open>A segment of the ring, read as the handler reads it.\<close>

lemma ring_segment:
  assumes "ring_has N buf b p" and "b < N" and "p \<noteq> []" and "length p < N"
  defines "e \<equiv> (b + length p) mod N"
  shows "b < e \<Longrightarrow> map ((!) buf) [b..<e] = p"
    and "\<not> b < e \<Longrightarrow> map ((!) buf) [b..<N] @ map ((!) buf) [0..<e] = p"
proof -
  assume "b < e"
  have "b + length p < N"
  proof (rule ccontr)
    assume "\<not> b + length p < N"
    then have "e = b + length p - N"
      using assms(2,4) unfolding e_def by (simp add: mod_if)
    with \<open>b < e\<close> assms(4) show False by simp
  qed
  then show "map ((!) buf) [b..<e] = p"
    using assms(1) by (auto simp: e_def ring_has_def intro!: nth_equalityI)
next
  assume "\<not> b < e"
  have n: "N \<le> b + length p"
  proof (rule ccontr)
    assume "\<not> N \<le> b + length p"
    then have "e = b + length p" by (simp add: e_def)
    with \<open>\<not> b < e\<close> assms(3) show False by simp
  qed
  then have e: "e = b + length p - N"
    using assms(2,4) unfolding e_def by (simp add: mod_if)
  show "map ((!) buf) [b..<N] @ map ((!) buf) [0..<e] = p"
  proof (rule nth_equalityI)
    show "length (map ((!) buf) [b..<N] @ map ((!) buf) [0..<e]) = length p"
      using n e assms(2) by simp
    fix j assume "j < length (map ((!) buf) [b..<N] @ map ((!) buf) [0..<e])"
    then have j: "j < length p" using n e assms(2) by simp
    show "(map ((!) buf) [b..<N] @ map ((!) buf) [0..<e]) ! j = p ! j"
    proof (cases "j < N - b")
      case True
      then have "(b + j) mod N = b + j" by simp
      with True j assms(1) show ?thesis by (auto simp: nth_append ring_has_def dest: spec [of _ j])
    next
      case False
      then have "N \<le> b + j" and "b + j - N < N" using j assms(2,4) by auto
      then have "(b + j) mod N = j - (N - b)"
        using assms(2) by (simp add: le_mod_geq)
      with False j assms(1) n e show ?thesis by (auto simp: nth_append ring_has_def)
    qed
  qed
qed

lemma find_end_at:
  assumes "ring_has N buf q r" and "length r < N" and "q < N"
  shows "find_end N buf ((q + length r) mod N) q =
           Some ((q + length (takeWhile (\<lambda>c. c \<noteq> SLIP_END) r)) mod N)"
  using assms
proof (induction r arbitrary: q)
  case Nil
  then show ?case by (subst find_end.simps) simp
next
  case (Cons c r)
  have ne: "q \<noteq> (q + length (c # r)) mod N"
    using ring_eq_iff [of 0 N "length (c # r)" q] Cons.prems by auto
  have c: "buf ! q = c" using Cons.prems by (auto simp: ring_has_def)
  show ?case
  proof (cases "c = SLIP_END")
    case True
    with ne c Cons.prems show ?thesis by (subst find_end.simps) simp
  next
    case False
    have "ring_has N buf (q + 1) r"
      using ring_has_append [of N buf q "[c]" r] Cons.prems(1) by simp
    then have "ring_has N buf (bump N q) r"
      using Cons.prems(3) ring_has_mod [of N buf "q + 1" r] by (simp add: bump_mod)
    moreover have "bump N q < N" using Cons.prems(2) by (simp add: bump_mod Cons.prems(3))
    ultimately have "find_end N buf ((bump N q + length r) mod N) (bump N q) =
        Some ((bump N q + length (takeWhile (\<lambda>c. c \<noteq> SLIP_END) r)) mod N)"
      using Cons.IH Cons.prems(2) by simp
    then have "find_end N buf ((q + length (c # r)) mod N) (bump N q) =
        Some ((q + length (takeWhile (\<lambda>c. c \<noteq> SLIP_END) (c # r))) mod N)"
      using Cons.prems(3) False by (simp add: bump_mod mod_Suc_eq mod_add_left_eq add.commute)
        (simp add: mod_simps add.commute)
    with ne c False show ?thesis by (subst find_end.simps) simp
  qed
qed

section \<open>What the ring holds\<close>

text \<open>Complete packets, each with its end byte, and the bytes of the packet that is arriving.\<close>

definition raw_bytes :: "u8 list list \<Rightarrow> u8 list \<Rightarrow> u8 list" where
  "raw_bytes pkts cur = concat (map (\<lambda>p. p @ [SLIP_END]) pkts) @ cur"

definition rx_holds :: "nat \<Rightarrow> slip_state \<Rightarrow> u8 list list \<Rightarrow> u8 list \<Rightarrow> bool" where
  "rx_holds N s pkts cur \<longleftrightarrow>
     length (rxbuf s) = N \<and> rx_begin s < N \<and> length (raw_bytes pkts cur) < N \<and>
     ring_has N (rxbuf s) (rx_begin s) (raw_bytes pkts cur) \<and>
     next_free s = (rx_begin s + length (raw_bytes pkts cur)) mod N \<and>
     pkt_end s = (rx_begin s + (case pkts of [] \<Rightarrow> 0 | p # ps \<Rightarrow> length p)) mod N \<and>
     (\<forall>p \<in> set pkts. SLIP_END \<notin> set p) \<and> SLIP_END \<notin> set cur"

lemma raw_bytes_simps [simp]:
  "raw_bytes [] cur = cur"
  "raw_bytes (p # ps) cur = p @ SLIP_END # raw_bytes ps cur"
  by (simp_all add: raw_bytes_def)

lemma raw_bytes_snoc: "raw_bytes pkts (cur @ [c]) = raw_bytes pkts cur @ [c]"
  by (simp add: raw_bytes_def)

lemma raw_bytes_close: "raw_bytes (pkts @ [cur]) [] = raw_bytes pkts cur @ [SLIP_END]"
  by (simp add: raw_bytes_def)

lemma rx_holds_state [simp]:
  "rx_holds N (s\<lparr>state := x\<rparr>) pkts cur = rx_holds N s pkts cur"
  "rx_holds N (s\<lparr>polled := b\<rparr>) pkts cur = rx_holds N s pkts cur"
  by (simp_all add: rx_holds_def)

lemma room:
  assumes "rx_holds N s pkts cur" and "length (raw_bytes pkts cur) + 1 < N"
  shows "bump N (next_free s) = (rx_begin s + (length (raw_bytes pkts cur) + 1)) mod N"
    and "bump N (next_free s) \<noteq> rx_begin s"
proof -
  show e: "bump N (next_free s) = (rx_begin s + (length (raw_bytes pkts cur) + 1)) mod N"
    using assms bump_ring [of N "rx_begin s" "length (raw_bytes pkts cur)"] by (simp add: rx_holds_def)
  show "bump N (next_free s) \<noteq> rx_begin s"
    unfolding e using ring_eq_iff [of "length (raw_bytes pkts cur) + 1" N 0 "rx_begin s"] assms
    by (simp add: rx_holds_def)
qed

lemma feed_char:
  assumes "rx_holds N s pkts cur" and "length (raw_bytes pkts cur) + 1 < N" and "c \<noteq> SLIP_END"
  shows "rx_holds N (snd (add_char N c s)) pkts (cur @ [c])"
    and "state (snd (add_char N c s)) = (if c = SLIP_ESC then STATE_ESC else state s)"
    and "polled (snd (add_char N c s)) = polled s"
proof -
  note r = room [OF assms(1,2)]
  have "ring_has N ((rxbuf s)[next_free s := c]) (rx_begin s) (raw_bytes pkts cur @ [c])"
    using assms(1) ring_has_snoc [of N "rxbuf s" "rx_begin s" "raw_bytes pkts cur" c]
    by (simp add: rx_holds_def)
  with assms r show "rx_holds N (snd (add_char N c s)) pkts (cur @ [c])"
    by (auto simp: rx_holds_def add_char_def Let_def raw_bytes_snoc)
  show "state (snd (add_char N c s)) = (if c = SLIP_ESC then STATE_ESC else state s)"
    and "polled (snd (add_char N c s)) = polled s"
    using assms(3) r(2) by (simp_all add: add_char_def Let_def)
qed

lemma feed_end:
  assumes "rx_holds N s pkts cur" and "length (raw_bytes pkts cur) + 1 < N"
    and "pkts = [] \<Longrightarrow> cur \<noteq> []" and "pkts \<noteq> [] \<Longrightarrow> pkts ! 0 \<noteq> []"
  shows "rx_holds N (snd (add_char N SLIP_END s)) (pkts @ [cur]) []"
    and "state (snd (add_char N SLIP_END s)) = state s"
    and "polled (snd (add_char N SLIP_END s))"
proof -
  note r = room [OF assms(1,2)]
  have has: "ring_has N ((rxbuf s)[next_free s := SLIP_END]) (rx_begin s) (raw_bytes pkts cur @ [SLIP_END])"
    using assms(1) ring_has_snoc [of N "rxbuf s" "rx_begin s" "raw_bytes pkts cur" SLIP_END]
    by (simp add: rx_holds_def)
  define o' where "o' = (case pkts of [] \<Rightarrow> 0 | p # ps \<Rightarrow> length p)"
  have o: "o' < length (raw_bytes pkts cur)" "o' < N"
    using assms by (auto simp: o'_def rx_holds_def split: list.splits)
  have e: "next_free s \<noteq> pkt_end s"
    using ring_eq_iff [of "length (raw_bytes pkts cur)" N o' "rx_begin s"] o assms(1,2)
    by (simp add: rx_holds_def o'_def [symmetric])
  have b: "rx_begin s = pkt_end s \<longleftrightarrow> pkts = []"
  proof -
    have "rx_begin s = pkt_end s \<longleftrightarrow> o' = 0"
      using ring_eq_iff [of 0 N o' "rx_begin s"] o assms(1)
      by (auto simp: rx_holds_def o'_def [symmetric])
    moreover have "o' = 0 \<longleftrightarrow> pkts = []"
      using assms(4) by (auto simp: o'_def split: list.splits)
    ultimately show ?thesis by simp
  qed
  have pe: "(if pkts = [] then next_free s else pkt_end s) =
      (rx_begin s + (case pkts @ [cur] of [] \<Rightarrow> 0 | p # ps \<Rightarrow> length p)) mod N"
    using assms(1) by (auto simp: rx_holds_def split: list.splits)
  show "rx_holds N (snd (add_char N SLIP_END s)) (pkts @ [cur]) []"
    using assms has r e b pe
    by (auto simp: rx_holds_def add_char_def Let_def raw_bytes_close)
  show "state (snd (add_char N SLIP_END s)) = state s" and "polled (snd (add_char N SLIP_END s))"
    using e r(2) by (simp_all add: add_char_def Let_def)
qed

lemma feed_end_idle:
  assumes "rx_holds N s [] []" and "1 < N"
  shows "rx_holds N (snd (add_char N SLIP_END s)) [] []"
    and "state (snd (add_char N SLIP_END s)) = state s"
    and "polled (snd (add_char N SLIP_END s)) = polled s"
proof -
  have r: "bump N (next_free s) \<noteq> rx_begin s"
    using room(2) [OF assms(1)] assms(2) by simp
  have "next_free s = pkt_end s" "pkt_end s = rx_begin s" using assms(1) by (simp_all add: rx_holds_def)
  with assms r show "rx_holds N (snd (add_char N SLIP_END s)) [] []"
    "state (snd (add_char N SLIP_END s)) = state s" "polled (snd (add_char N SLIP_END s)) = polled s"
    by (simp_all add: rx_holds_def add_char_def Let_def ring_has_def)
qed

lemma feed_append: "feed N (xs @ ys) s = feed N ys (feed N xs s)"
  by (simp add: feed_def)

lemma feed_Cons: "feed N (c # cs) s = feed N cs (snd (slip_input_byte N c s))"
  by (simp add: feed_def)

lemma input_byte_ok: "state s = STATE_OK \<Longrightarrow> slip_input_byte N c s = add_char N c s"
  by (simp add: slip_input_byte_def)

lemma input_byte_esc:
  "state s = STATE_ESC \<Longrightarrow> c = SLIP_ESC_END \<or> c = SLIP_ESC_ESC \<Longrightarrow>
     slip_input_byte N c s = add_char N c (s\<lparr>state := STATE_OK\<rparr>)"
  by (auto simp: slip_input_byte_def)

lemma write_loop_no_end: "SLIP_END \<notin> set (write_loop bs)"
  by (induction bs) auto

lemma write_loop_Nil: "write_loop bs = [] \<longleftrightarrow> bs = []"
  by (cases bs) auto

lemma feed_write_loop:
  assumes "rx_holds N s pkts cur" and "state s = STATE_OK"
    and "length (raw_bytes pkts cur) + length (write_loop bs) < N"
  shows "rx_holds N (feed N (write_loop bs) s) pkts (cur @ write_loop bs)"
    and "state (feed N (write_loop bs) s) = STATE_OK"
proof -
  have "rx_holds N (feed N (write_loop bs) s) pkts (cur @ write_loop bs) \<and>
      state (feed N (write_loop bs) s) = STATE_OK"
    using assms
  proof (induction bs arbitrary: s cur)
    case Nil
    then show ?case by (simp add: feed_def)
  next
    case (Cons c cs)
    show ?case
    proof (cases "c = SLIP_END \<or> c = SLIP_ESC")
      case True
      define d where "d = (if c = SLIP_END then SLIP_ESC_END else SLIP_ESC_ESC)"
      have w: "write_loop (c # cs) = [SLIP_ESC, d] @ write_loop cs" and d: "d \<noteq> SLIP_END" "d \<noteq> SLIP_ESC"
        "d = SLIP_ESC_END \<or> d = SLIP_ESC_ESC"
        using True by (auto simp: d_def)
      define s1 where "s1 = snd (add_char N SLIP_ESC s)"
      have l: "length (raw_bytes pkts cur) + 2 + length (write_loop cs) < N"
        using Cons.prems(3) w by simp
      have 1: "rx_holds N s1 pkts (cur @ [SLIP_ESC])" "state s1 = STATE_ESC"
        using feed_char [OF Cons.prems(1), of SLIP_ESC] l by (simp_all add: s1_def)
      define s2 where "s2 = snd (add_char N d (s1\<lparr>state := STATE_OK\<rparr>))"
      have 2: "rx_holds N s2 pkts ((cur @ [SLIP_ESC]) @ [d])" "state s2 = STATE_OK"
        using feed_char [of N "s1\<lparr>state := STATE_OK\<rparr>" pkts "cur @ [SLIP_ESC]" d] 1 l d
        by (simp_all add: s2_def raw_bytes_snoc)
      have "feed N ([SLIP_ESC, d] @ write_loop cs) s = feed N (write_loop cs) s2"
        using Cons.prems(2) 1(2) d(3)
        by (simp add: feed_Cons input_byte_ok input_byte_esc s1_def [symmetric] s2_def)
      moreover have "length (raw_bytes pkts ((cur @ [SLIP_ESC]) @ [d])) + length (write_loop cs) < N"
        using l by (simp only: raw_bytes_snoc) simp
      ultimately show ?thesis using Cons.IH [OF 2] unfolding w by simp
    next
      case False
      define s1 where "s1 = snd (add_char N c s)"
      have l: "length (raw_bytes pkts cur) + 1 + length (write_loop cs) < N"
        using Cons.prems(3) False by simp
      have 1: "rx_holds N s1 pkts (cur @ [c])" "state s1 = STATE_OK"
        using feed_char [OF Cons.prems(1), of c] l False Cons.prems(2) by (simp_all add: s1_def)
      have "feed N (write_loop (c # cs)) s = feed N (write_loop cs) s1"
        using Cons.prems(2) False by (simp add: feed_Cons input_byte_ok s1_def)
      moreover have "length (raw_bytes pkts (cur @ [c])) + length (write_loop cs) < N"
        using l by (simp only: raw_bytes_snoc) simp
      ultimately show ?thesis using Cons.IH [OF 1] False by simp
    qed
  qed
  then show "rx_holds N (feed N (write_loop bs) s) pkts (cur @ write_loop bs)"
    and "state (feed N (write_loop bs) s) = STATE_OK" by simp_all
qed

lemma feed_packet:
  assumes "rx_holds N s pkts []" and "state s = STATE_OK" and "bs \<noteq> []"
    and "length (raw_bytes pkts []) + length (write_loop bs) + 1 < N"
    and "pkts \<noteq> [] \<Longrightarrow> pkts ! 0 \<noteq> []"
  defines "t \<equiv> feed N (write_loop bs @ [SLIP_END]) s"
  shows "rx_holds N t (pkts @ [write_loop bs]) []" and "state t = STATE_OK" and "polled t"
proof -
  define u where "u = feed N (write_loop bs) s"
  have u: "rx_holds N u pkts (write_loop bs)" "state u = STATE_OK"
    using feed_write_loop [OF assms(1,2), of bs] assms(4) by (simp_all add: u_def)
  have "t = snd (add_char N SLIP_END u)"
    unfolding t_def feed_append u_def [symmetric] using u(2) by (simp add: feed_def input_byte_ok)
  moreover have "length (raw_bytes pkts (write_loop bs)) + 1 < N"
    using assms(4) by (simp add: raw_bytes_def)
  ultimately show "rx_holds N t (pkts @ [write_loop bs]) []" "state t = STATE_OK" "polled t"
    using feed_end [OF u(1)] u(2) assms(3,5) by (simp_all add: write_loop_Nil)
qed

section \<open>Taking a packet out\<close>

text \<open>\<open>fits\<close>: the length check passes before each byte of a run.\<close>

fun fits :: "nat \<Rightarrow> nat \<Rightarrow> u8 list \<Rightarrow> mem \<times> nat \<times> bool \<Rightarrow> bool" where
  "fits ob blen [] st \<longleftrightarrow> True"
| "fits ob blen (c # cs) st \<longleftrightarrow> fst (snd st) \<le> blen \<and> fits ob blen cs (rx_copy ob c st)"

lemma fits_append:
  "fits ob blen (xs @ ys) st \<longleftrightarrow> fits ob blen xs st \<and> fits ob blen ys (fold (rx_copy ob) xs st)"
  by (induction xs arbitrary: st) auto

lemma rx_loop_fold:
  assumes "fits ob blen (map ((!) buf) [i..<stop]) st"
  shows "rx_loop buf ob blen i stop st = fold (rx_copy ob) (map ((!) buf) [i..<stop]) st"
  using assms
proof (induction "stop - i" arbitrary: i st)
  case 0
  obtain out len esc where "st = (out, len, esc)" using prod_cases3 by blast
  with 0 show ?case by (simp add: rx_loop.simps)
next
  case (Suc n)
  obtain out len esc where st: "st = (out, len, esc)" using prod_cases3 by blast
  from Suc.hyps(2) have i: "i < stop" by simp
  with Suc.prems st have "\<not> len > blen" "fits ob blen (map ((!) buf) [i+1..<stop]) (rx_copy ob (buf ! i) st)"
    by (simp_all add: upt_conv_Cons)
  moreover have "n = stop - (i + 1)" using Suc.hyps(2) by simp
  ultimately have "rx_loop buf ob blen i stop st =
      fold (rx_copy ob) (map ((!) buf) [i+1..<stop]) (rx_copy ob (buf ! i) st)"
    using Suc.hyps(1) [of "i + 1" "rx_copy ob (buf ! i) st"] i by (subst st, subst rx_loop.simps) (simp add: st)
  with i show ?case by (simp add: upt_conv_Cons)
qed

lemma decode_fits:
  "len + length bs \<le> blen + 1 \<Longrightarrow> fits ob blen (write_loop bs) (out, len, False)"
  by (induction bs arbitrary: out len) auto

lemma decode:
  "fold (rx_copy ob) (write_loop bs) (out, len, False) = (blit out (ob + len) bs, len + length bs, False)"
  by (induction bs arbitrary: out len) (auto simp: blit_Cons)

lemma takeWhile_raw: "SLIP_END \<notin> set cur \<Longrightarrow> ps = [] \<Longrightarrow> takeWhile (\<lambda>c. c \<noteq> SLIP_END) (raw_bytes ps cur) = cur"
  by (auto simp: takeWhile_eq_all_conv)

lemma poll_packet:
  assumes "rx_holds N s (write_loop bs # ps) cur" and "length bs \<le> blen + 1" and "bs \<noteq> []"
  shows "\<exists>t. slip_poll_handler N ob blen out s = Some (length bs, blit out ob bs, t) \<and>
           rx_holds N t ps cur \<and> state t = state s \<and> (ps \<noteq> [] \<longrightarrow> polled t)"
proof -
  define p where "p = write_loop bs"
  define b where "b = rx_begin s"
  define e where "e = (b + length p) mod N"
  define r where "r = raw_bytes ps cur"
  define q where "q = (b + (length p + 1)) mod N"
  have h: "length (rxbuf s) = N" "b < N" "length p + 1 + length r < N" "p \<noteq> []"
    "pkt_end s = e" "next_free s = (b + (length p + 1 + length r)) mod N"
    "\<forall>p \<in> set ps. SLIP_END \<notin> set p" "SLIP_END \<notin> set cur"
    and ring: "ring_has N (rxbuf s) b (p @ SLIP_END # r)"
    using assms(1,3) by (simp_all add: rx_holds_def b_def p_def [symmetric] e_def r_def add.assoc)
      (simp add: p_def write_loop_Nil)
  have rp: "ring_has N (rxbuf s) b p" and "ring_has N (rxbuf s) (b + (length p + 1)) r"
    using ring ring_has_append [of N "rxbuf s" b p "SLIP_END # r"]
      ring_has_append [of N "rxbuf s" "b + length p" "[SLIP_END]" r] by (simp_all add: add.assoc)
  then have rr: "ring_has N (rxbuf s) q r" unfolding q_def by (simp only: ring_has_mod)
  have be: "b \<noteq> e"
    using ring_eq_iff [of 0 N "length p" b] h(2,3,4) by (auto simp: e_def)
  note seg = ring_segment [OF rp h(2,4), folded e_def]
  have lp: "length p < N" using h(3) by simp
  have f: "fits ob blen p (out, 0, False)"
    and d: "fold (rx_copy ob) p (out, 0, False) = (blit out ob bs, length bs, False)"
    unfolding p_def using decode_fits [of 0 bs] decode [of ob bs out 0] assms(2) by simp_all
  have copied: "(if b < e then rx_loop (rxbuf s) ob blen b e (out, 0, False)
      else rx_loop (rxbuf s) ob blen 0 e (rx_loop (rxbuf s) ob blen b N (out, 0, False))) =
      (blit out ob bs, length bs, False)"
  proof (cases "b < e")
    case True
    with seg(1) [OF lp] f d show ?thesis by (simp add: rx_loop_fold)
  next
    case False
    note sg = seg(2) [OF lp False]
    have "fits ob blen (map ((!) (rxbuf s)) [b..<N]) (out, 0, False)"
      "fits ob blen (map ((!) (rxbuf s)) [0..<e]) (fold (rx_copy ob) (map ((!) (rxbuf s)) [b..<N]) (out, 0, False))"
      using f unfolding sg [symmetric] fits_append by simp_all
    moreover have "fold (rx_copy ob) (map ((!) (rxbuf s)) [0..<e])
        (fold (rx_copy ob) (map ((!) (rxbuf s)) [b..<N]) (out, 0, False)) = (blit out ob bs, length bs, False)"
      using d unfolding sg [symmetric] by simp
    ultimately show ?thesis using False by (simp add: rx_loop_fold)
  qed
  have pe: "bump N e = q" using bump_ring [of N b "length p"] h(2) by (simp add: e_def q_def)
  have qN: "q < N" using h(2) by (simp add: q_def)
  have nf: "next_free s = (q + length r) mod N"
    unfolding h(6) q_def by (simp add: mod_simps add.assoc)
  have rN: "length r < N" using h(3) by simp
  have rest: "rx_holds N (s\<lparr>pkt_end := (q + (case ps of [] \<Rightarrow> 0 | p # ps \<Rightarrow> length p)) mod N, rx_begin := q\<rparr>) ps cur"
    using h rr nf qN rN by (simp add: rx_holds_def r_def)
  show ?thesis
  proof (cases ps)
    case Nil
    then have r: "r = cur" by (simp add: r_def)
    have tw: "takeWhile (\<lambda>c. c \<noteq> SLIP_END) r = r"
      unfolding r takeWhile_eq_all_conv using h(8) by blast
    have fe: "find_end N (rxbuf s) (next_free s) q = Some (next_free s)"
      using find_end_at [OF rr rN qN] by (simp add: nf tw)
    have "slip_poll_handler N ob blen out s =
        Some (length bs, blit out ob bs, s\<lparr>pkt_end := q, rx_begin := q\<rparr>)"
      unfolding slip_poll_handler_def h(5) b_def [symmetric] Let_def copied pe
      using be fe by simp
    with Nil rest qN show ?thesis by simp
  next
    case (Cons p2 ps2)
    have tw: "takeWhile (\<lambda>c. c \<noteq> SLIP_END) r = p2"
      using h(7) unfolding r_def Cons by (auto simp: takeWhile_append)
    have l2: "length p2 < length r" by (simp add: r_def Cons)
    have fe: "find_end N (rxbuf s) (next_free s) q = Some ((q + length p2) mod N)"
      using find_end_at [OF rr rN qN] by (simp add: nf tw)
    have "(q + length p2) mod N \<noteq> next_free s"
      unfolding nf using ring_eq_iff [of "length p2" N "length r" q] l2 rN by simp
    moreover have "q \<noteq> next_free s"
      unfolding nf using ring_eq_iff [of 0 N "length r" q] l2 rN qN by auto
    ultimately have "slip_poll_handler N ob blen out s =
        Some (length bs, blit out ob bs, s\<lparr>pkt_end := (q + length p2) mod N, rx_begin := q, polled := True\<rparr>)"
      unfolding slip_poll_handler_def h(5) b_def [symmetric] Let_def copied pe
      using be fe by simp
    with Cons rest show ?thesis by (simp add: rx_holds_def)
  qed
qed

text \<open>\<open>drain\<close> polls the handler; it keeps what the handler leaves in the buffer.\<close>

fun drain :: "nat \<Rightarrow> nat \<Rightarrow> nat \<Rightarrow> mem \<Rightarrow> nat \<Rightarrow> slip_state \<Rightarrow> (u8 list list \<times> slip_state) option" where
  "drain N ob blen out 0 s = Some ([], s)"
| "drain N ob blen out (Suc k) s = do {
     (len, m, t) \<leftarrow> slip_poll_handler N ob blen out s;
     (ps, u) \<leftarrow> drain N ob blen m k t;
     Some (map m [ob ..< ob + len] # ps, u)
   }"

lemma map_blit: "map (blit out ob bs) [ob..<ob + length bs] = bs"
  by (rule nth_equalityI) (simp_all add: blit_def)

lemma drain_packets:
  assumes "rx_holds N s (map write_loop ps) cur" and "\<forall>p \<in> set ps. p \<noteq> [] \<and> length p \<le> blen + 1"
  shows "\<exists>t. drain N ob blen out (length ps) s = Some (ps, t) \<and> rx_holds N t [] cur \<and> state t = state s"
  using assms
proof (induction ps arbitrary: s out)
  case Nil
  then show ?case by simp
next
  case (Cons p ps)
  obtain t where t: "slip_poll_handler N ob blen out s = Some (length p, blit out ob p, t)"
    "rx_holds N t (map write_loop ps) cur" "state t = state s"
    using poll_packet [of N s p "map write_loop ps" cur blen ob out] Cons.prems by auto
  obtain u where u: "drain N ob blen (blit out ob p) (length ps) t = Some (ps, u)" "rx_holds N u [] cur"
    "state u = state t"
    using Cons.IH [OF t(2)] Cons.prems(2) by auto
  with t show ?case by (simp add: map_blit)
qed

lemma feed_packets:
  assumes "rx_holds N s pkts []" and "state s = STATE_OK" and "\<forall>p \<in> set ps. p \<noteq> []"
    and "length (raw_bytes pkts []) + length (concat (map (\<lambda>p. write_loop p @ [SLIP_END]) ps)) < N"
    and "pkts \<noteq> [] \<Longrightarrow> pkts ! 0 \<noteq> []"
  defines "t \<equiv> feed N (concat (map (\<lambda>p. write_loop p @ [SLIP_END]) ps)) s"
  shows "rx_holds N t (pkts @ map write_loop ps) [] \<and> state t = STATE_OK \<and> (ps \<noteq> [] \<longrightarrow> polled t)"
  unfolding t_def using assms(1-5)
proof (induction ps arbitrary: s pkts)
  case Nil
  then show ?case by (simp add: feed_def)
next
  case (Cons p ps)
  define u where "u = feed N (write_loop p @ [SLIP_END]) s"
  have u: "rx_holds N u (pkts @ [write_loop p]) []" "state u = STATE_OK" "polled u"
    using feed_packet [OF Cons.prems(1,2), of p] Cons.prems(3,4,5) by (simp_all add: u_def)
  have h: "(pkts @ [write_loop p]) ! 0 \<noteq> []"
    using Cons.prems(3,5) by (cases pkts) (simp_all add: write_loop_Nil)
  have l: "length (raw_bytes (pkts @ [write_loop p]) []) + length (concat (map (\<lambda>p. write_loop p @ [SLIP_END]) ps)) < N"
    using Cons.prems(4) by (simp add: raw_bytes_def)
  have f: "feed N (concat (map (\<lambda>p. write_loop p @ [SLIP_END]) (p # ps))) s =
      feed N (concat (map (\<lambda>p. write_loop p @ [SLIP_END]) ps)) u"
    by (simp only: list.map concat.simps feed_append u_def)
  show ?case
    unfolding f using Cons.IH [OF u(1,2) _ l h] Cons.prems(3) u(3)
    by (cases ps) (simp_all add: feed_def [of N "[]"])
qed

section \<open>Properties\<close>

lemma init_holds: "length (rxbuf s) = N \<Longrightarrow> 0 < N \<Longrightarrow> rx_holds N (rxbuf_init s) [] []"
  by (simp add: rx_holds_def rxbuf_init_def ring_has_def)

lemma feed_idle_ends:
  assumes "rx_holds N s [] []" and "state s = STATE_OK" and "set pre \<subseteq> {SLIP_END}" and "1 < N"
  shows "rx_holds N (feed N pre s) [] [] \<and> state (feed N pre s) = STATE_OK"
  using assms
proof (induction pre arbitrary: s)
  case Nil
  then show ?case by (simp add: feed_def)
next
  case (Cons c pre)
  then show ?case
    using feed_end_idle [OF Cons.prems(1,4)] by (simp add: feed_Cons input_byte_ok)
qed

lemma feed_write: "feed N (slip_write p) s = feed N (write_loop p @ [SLIP_END]) (feed N [SLIP_END] s)"
  by (simp only: slip_write_def feed_append)

text \<open>Packets that follow each other with single end bytes, as senders other than this one may write them,
  are delivered even when they are all fed before the first poll.\<close>

lemma run_together_delivered:
  assumes "rx_holds N s [] []" and "state s = STATE_OK" and "1 < N" and "set pre \<subseteq> {SLIP_END}"
    and "\<forall>p \<in> set ps. p \<noteq> [] \<and> length p \<le> blen"
    and "length (concat (map (\<lambda>p. write_loop p @ [SLIP_END]) ps)) < N"
  defines "u \<equiv> feed N (pre @ concat (map (\<lambda>p. write_loop p @ [SLIP_END]) ps)) s"
  shows "(ps \<noteq> [] \<longrightarrow> polled u) \<and> rx_holds N u (map write_loop ps) [] \<and> state u = STATE_OK \<and>
         (\<exists>t. drain N ob blen out (length ps) u = Some (ps, t) \<and> rx_holds N t [] [] \<and> state t = STATE_OK)"
proof -
  define v where "v = feed N pre s"
  have v: "rx_holds N v [] []" "state v = STATE_OK"
    using feed_idle_ends [OF assms(1,2,4,3)] by (simp_all add: v_def)
  have u: "u = feed N (concat (map (\<lambda>p. write_loop p @ [SLIP_END]) ps)) v"
    unfolding u_def v_def feed_append ..
  have "rx_holds N u (map write_loop ps) []" "state u = STATE_OK" "ps \<noteq> [] \<longrightarrow> polled u"
    using feed_packets [OF v, of ps] assms(5,6) by (simp_all add: u)
  with drain_packets [of N u ps "[]" blen ob out] assms(5) show ?thesis by fastforce
qed

text \<open>Two nodes: one writes its packets with \<open>slip_write\<close>, each when the one before has been taken out; the
  other is polled when its receiver has asked for it, which clears the request.\<close>

fun exchange :: "nat \<Rightarrow> nat \<Rightarrow> nat \<Rightarrow> mem \<Rightarrow> u8 list list \<Rightarrow> slip_state \<Rightarrow> (u8 list list \<times> slip_state) option" where
  "exchange N ob blen out [] s = Some ([], s)"
| "exchange N ob blen out (p # ps) s =
     (let u = feed N (slip_write p) s
      in if polled u then do {
           (len, m, t) \<leftarrow> slip_poll_handler N ob blen out (u\<lparr>polled := False\<rparr>);
           (qs, v) \<leftarrow> exchange N ob blen m ps t;
           Some (map m [ob ..< ob + len] # qs, v)
         } else exchange N ob blen out ps u)"

text \<open>C39: What is written to one end of the line arrives at the other. An idle receiver, wherever in its ring
  it stands, is fed frames as \<open>slip_write\<close> sends them. Each frame makes it ask to be polled; if it is polled
  before the next frame arrives, the polls give exactly the packets, all their bytes and in order, and leave the
  receiver idle. The packets are not empty, fit the buffer, and fit the ring with their escapes and the end
  byte. That the poll comes before the next frame is needed: \<open>slip_second_write_stuck\<close> shows that a second frame
  that arrives earlier is not delivered.\<close>

theorem slip_delivers_packets:
  assumes "rx_holds N s [] []" and "state s = STATE_OK"
    and "\<forall>p \<in> set ps. p \<noteq> [] \<and> length p \<le> blen \<and> length (write_loop p) + 1 < N"
  shows "\<exists>t. exchange N ob blen out ps s = Some (ps, t) \<and> rx_holds N t [] [] \<and> state t = STATE_OK"
  using assms
proof (induction ps arbitrary: s out)
  case (Cons p ps)
  define u where "u = feed N (slip_write p) s"
  have f: "slip_write p = [SLIP_END] @ concat (map (\<lambda>p. write_loop p @ [SLIP_END]) [p])" by (simp add: slip_write_def)
  have p: "p \<noteq> []" "length p \<le> blen" "length (write_loop p) + 1 < N" using Cons.prems(3) by simp_all
  have u: "polled u" "rx_holds N (u\<lparr>polled := False\<rparr>) [write_loop p] []" "state (u\<lparr>polled := False\<rparr>) = STATE_OK"
    using run_together_delivered [OF Cons.prems(1,2), of "[SLIP_END]" "[p]" blen] p unfolding u_def f by simp_all
  obtain t where t: "slip_poll_handler N ob blen out (u\<lparr>polled := False\<rparr>) = Some (length p, blit out ob p, t)"
    "rx_holds N t [] []" "state t = STATE_OK"
    using poll_packet [OF u(2) _ p(1), of blen ob out] p(2) u(3) by auto
  obtain v where "exchange N ob blen (blit out ob p) ps t = Some (ps, v)" "rx_holds N v [] []" "state v = STATE_OK"
    using Cons.IH [OF t(2,3)] Cons.prems(3) by auto
  with t(1) u(1) show ?case by (simp add: u_def [symmetric] map_blit)
qed simp

definition sample_receiver :: slip_state where
  "sample_receiver = \<lparr>state = STATE_OK, rx_begin = 13, next_free = 13, pkt_end = 13,
     rxbuf = replicate 16 0, polled = False\<rparr>"

lemma sample_receiver_holds: "rx_holds 16 sample_receiver [] []" "state sample_receiver = STATE_OK"
  by (simp_all add: rx_holds_def sample_receiver_def ring_has_def)

theorem slip_delivers_packets_witness:
  "\<exists>t. exchange 16 0 8 (\<lambda>_. 0) [[1, SLIP_END, SLIP_ESC, 2], [3], [4, 5, 6, 7, 8, 9]] sample_receiver =
         Some ([[1, SLIP_END, SLIP_ESC, 2], [3], [4, 5, 6, 7, 8, 9]], t) \<and> rx_holds 16 t [] []"
  using slip_delivers_packets [OF sample_receiver_holds, of "[[1, SLIP_END, SLIP_ESC, 2], [3], [4, 5, 6, 7, 8, 9]]" 8 0 "\<lambda>_. 0"]
  by auto

text \<open>The handler checks the length before it stores a byte and not after, so a packet one byte
  longer than the buffer is not dropped: its last byte is stored behind the buffer and a length
  beyond it is returned.\<close>

theorem slip_poll_overruns_buffer:
  assumes "rx_holds N s (write_loop bs # ps) cur" and "length bs = blen + 1"
  shows "\<exists>out' t. slip_poll_handler N ob blen out s = Some (blen + 1, out', t) \<and>
           out' (ob + blen) = last bs \<and> rx_holds N t ps cur"
proof -
  have ne: "bs \<noteq> []" using assms(2) by auto
  obtain t where t: "slip_poll_handler N ob blen out s = Some (length bs, blit out ob bs, t)"
    "rx_holds N t ps cur"
    using poll_packet [OF assms(1) _ ne, of blen ob out] assms(2) by auto
  have "blit out ob bs (ob + blen) = last bs"
    using assms(2) ne by (simp add: blit_def last_conv_nth)
  with t assms(2) show ?thesis by auto
qed

theorem slip_poll_overruns_buffer_witness:
  "\<exists>out' t. slip_poll_handler 16 0 4 (\<lambda>_. 0) (feed 16 (slip_write [1, 2, 3, 4, 5]) sample_receiver) =
         Some (5, out', t) \<and> out' 4 = 5"
proof -
  have "rx_holds 16 (feed 16 [SLIP_END] sample_receiver) [] [] \<and>
      state (feed 16 [SLIP_END] sample_receiver) = STATE_OK"
    by (rule feed_idle_ends [OF sample_receiver_holds]) simp_all
  then have "rx_holds 16 (feed 16 (slip_write [1, 2, 3, 4, 5]) sample_receiver) [write_loop [1, 2, 3, 4, 5]] []"
    using feed_packet(1) [of 16 "feed 16 [SLIP_END] sample_receiver" "[]" "[1, 2, 3, 4, 5]"]
    unfolding feed_write by simp
  from slip_poll_overruns_buffer [OF this, of 4 0 "\<lambda>_. 0"] show ?thesis by auto
qed

text \<open>Two packets that \<open>slip_write\<close> sends back to back, where the first is not taken out before
  the second arrives: the end byte in front of the second counts as a packet of no bytes. The
  handler delivers the first packet and then stops in front of the empty one, with \<open>begin\<close> equal to
  \<open>pkt_end\<close>, so that every further poll returns 0 and the second packet stays in the ring.\<close>

theorem slip_second_write_stuck:
  assumes "rx_holds N s [] []" and "state s = STATE_OK"
    and "p \<noteq> []" and "q \<noteq> []" and "length p \<le> blen"
    and "length (slip_write p @ slip_write q) < N"
  shows "\<exists>t. drain N ob blen out 1 (feed N (slip_write p @ slip_write q) s) = Some ([p], t) \<and>
             slip_poll_handler N ob blen out' t = Some (0, out', t) \<and>
             rx_holds N t [[], write_loop q] []"
proof -
  define v where "v = feed N (slip_write p) s"
  have n: "1 < N" using assms(6) by (simp add: slip_write_def)
  have e: "rx_holds N (feed N [SLIP_END] s) [] [] \<and> state (feed N [SLIP_END] s) = STATE_OK"
    by (rule feed_idle_ends [OF assms(1,2) _ n]) simp
  then have v: "rx_holds N v [write_loop p] []" "state v = STATE_OK"
    using feed_packet [of N "feed N [SLIP_END] s" "[]" p] assms(3,6)
    unfolding v_def slip_write_def feed_append by simp_all
  define w where "w = feed N [SLIP_END] v"
  have w: "rx_holds N w [write_loop p, []] []" "state w = STATE_OK"
    using feed_end [OF v(1)] v(2) assms(3,6)
    by (simp_all add: w_def feed_def input_byte_ok write_loop_Nil slip_write_def)
  define u where "u = feed N (write_loop q @ [SLIP_END]) w"
  have u: "rx_holds N u [write_loop p, [], write_loop q] []" "state u = STATE_OK"
    using feed_packet [OF w, of q] assms(3,4,6)
    by (simp_all add: u_def write_loop_Nil slip_write_def)
  have f: "feed N (slip_write p @ slip_write q) s = u"
    unfolding u_def w_def v_def feed_append [symmetric] by (simp add: slip_write_def)
  obtain t where t: "slip_poll_handler N ob blen out u = Some (length p, blit out ob p, t)"
    "rx_holds N t [[], write_loop q] []"
    using poll_packet [OF u(1) _ assms(3), of blen ob out] assms(5) by auto
  then have "rx_begin t = pkt_end t" by (simp add: rx_holds_def)
  with t show ?thesis
    unfolding f by (simp add: map_blit slip_poll_handler_def [of N ob blen out' t])
qed

theorem slip_second_write_stuck_witness:
  "\<exists>t. drain 16 0 8 (\<lambda>_. 0) 1 (feed 16 (slip_write [1, 2] @ slip_write [5]) sample_receiver) = Some ([[1, 2]], t) \<and>
     slip_poll_handler 16 0 8 (\<lambda>_. 0) t = Some (0, \<lambda>_. 0, t)"
  using slip_second_write_stuck [OF sample_receiver_holds, of "[1, 2]" "[5]" 8 0 "\<lambda>_. 0" "\<lambda>_. 0"]
  by (auto simp: slip_write_def)

text \<open>The process: a packet of four bytes \<open>?IPA\<close> is answered with the address of the node.\<close>

lemma slip_poll_ipa:
  assumes "slip_poll_handler N llh (bufsize - llh) (uip_buf t) (slip t) = Some (4, buf, s)"
    and "map buf [llh ..< llh + 4] = [0x3F, 0x49, 0x50, 0x41]"
  shows "\<exists>u. slip_poll N llh bufsize ipchksum host t = Some u \<and>
           actions u = actions t @ (if input_callback t then [Input_callback] else []) @
             [Write_bytes (slip_write ([0x3D, 0x49, 0x50, 0x41] @ host))]"
  using assms by (simp add: slip_poll_def)

section \<open>The identification field\<close>

lemma rd16_swap:
  "(ucast (ucast (drop_bit 8 c) :: u8) :: u16) OR push_bit 8 (ucast (ucast c :: u8)) = swap16 c"
  unfolding swap16_def by (rule bit_word_eqI) (auto simp: bit_simps dest: bit_imp_le_length)

lemma unat_not16: "unat (NOT (x :: u16)) = 65535 - unat x"
proof -
  have "NOT x = - 1 - x" by (simp add: not_eq_complement)
  moreover have "unat (- 1 - x) = unat (- 1 :: u16) - unat x"
    by (rule unat_sub) simp
  moreover have "unat (- 1 :: u16) = 65535" by (simp add: unsigned_minus_1_eq_mask mask_eq_exp_minus_1)
  ultimately show ?thesis by simp
qed

lemma end_around_carry:
  fixes c x :: u16
  defines "s \<equiv> c + NOT x"
  defines "d \<equiv> (if s < NOT x then s + 1 else s)"
  shows "(unat d + unat x) mod 65535 = unat c mod 65535"
proof -
  have b: "unat c < 65536" "unat x < 65536" "unat (NOT x) = 65535 - unat x"
    using unsigned_less [of c, where 'a = nat] unsigned_less [of x, where 'a = nat]
    by (simp_all add: unat_not16)
  have s: "unat s = (unat c + (65535 - unat x)) mod 65536"
    unfolding s_def by (simp add: unat_word_ariths b(3))
  show ?thesis
  proof (cases "unat c + (65535 - unat x) < 65536")
    case True
    with s have e: "unat s = unat c + (65535 - unat x)" by simp
    then have "\<not> s < NOT x" by (simp add: word_less_nat_alt b(3))
    with e b(2) show ?thesis by (simp add: d_def)
  next
    case False
    with s b have e: "unat s = unat c + (65535 - unat x) - 65536" by (simp add: mod_if)
    with b False have l: "s < NOT x" by (simp add: word_less_nat_alt)
    have "unat (s + 1) = unat s + 1"
      using e b False by (simp add: unat_word_ariths)
    with l e b False have "unat d + unat x = unat c" by (simp add: d_def)
    then show ?thesis by simp
  qed
qed

text \<open>A packet without an identification gets one, and its header checksum stays right without
  a new pass over the header: identification and checksum together are the same number modulo
  \<open>0xffff\<close> as before, so the one's complement sum of the header does not change, and no other byte of
  the packet does.\<close>

theorem stamp_keeps_checksum:
  "(unat (rd16 (uip_buf (stamp_id llh t)) (llh + 4)) + unat (rd16 (uip_buf (stamp_id llh t)) (llh + 10))) mod 65535
     = (unat (rd16 (uip_buf t) (llh + 4)) + unat (rd16 (uip_buf t) (llh + 10))) mod 65535 \<and>
   {a. uip_buf (stamp_id llh t) a \<noteq> uip_buf t a} \<subseteq> {llh + 4, llh + 5, llh + 10, llh + 11}"
proof (cases "uip_buf t (llh + 4) = 0 \<and> uip_buf t (llh + 5) = 0 \<and> uip_buf t (llh + 6) AND 0x40 \<noteq> 0")
  case False
  then show ?thesis by (auto simp: stamp_id_def)
next
  case True
  define nid where "nid = ip_id t"
  define c where "c = rd16 (uip_buf t) (llh + 10)"
  define s where "s = c + NOT (swap16 nid)"
  define d where "d = (if s < NOT (swap16 nid) then s + 1 else s)"
  have st: "uip_buf (stamp_id llh t) = (uip_buf t)(llh + 4 := ucast (drop_bit 8 nid), llh + 5 := ucast nid,
      llh + 10 := ucast d, llh + 11 := ucast (drop_bit 8 d))"
    using True by (simp add: stamp_id_def Let_def nid_def [symmetric] d_def s_def c_def rd16_at)
  have "rd16 (uip_buf (stamp_id llh t)) (llh + 4) = swap16 nid"
    "rd16 (uip_buf (stamp_id llh t)) (llh + 10) = d"
    unfolding st rd16_at by (simp_all add: rd16_swap rd16_wr16)
  moreover have "rd16 (uip_buf t) (llh + 4) = 0"
    using True by (simp add: rd16_at)
  ultimately show ?thesis
    using end_around_carry [of c "swap16 nid", folded s_def, folded d_def]
    unfolding c_def [symmetric] st by (auto simp: add.commute)
qed

end
