(* ===== verification/FrameIE.thy ===== *)
theory FrameIE
  imports Frame802154
begin

text \<open>
  Information elements of IEEE 802.15.4e frames, \<open>core/net/mac/frame802154e-ie.c\<close>: functions that
  write one element each, and the parser of all the elements of a frame. \<open>None\<close> is the result -1 of
  a writer, which then leaves the buffer alone. A signed 16-bit number is a word read with \<open>sint\<close>.
\<close>

section \<open>The code\<close>

abbreviation "HEADER_IE_ACK_NACK_TIME_CORRECTION \<equiv> (0x1e :: u8)"
abbreviation "HEADER_IE_LIST_TERMINATION_1 \<equiv> (0x7e :: u8)"
abbreviation "HEADER_IE_LIST_TERMINATION_2 \<equiv> (0x7f :: u8)"
abbreviation "PAYLOAD_IE_MLME \<equiv> (1 :: u8)"
abbreviation "PAYLOAD_IE_LIST_TERMINATION \<equiv> (0xf :: u8)"
abbreviation "MLME_SHORT_IE_TSCH_SYNCHRONIZATION \<equiv> (0x1a :: u8)"
abbreviation "MLME_SHORT_IE_TSCH_SLOFTRAME_AND_LINK \<equiv> (0x1b :: u8)"
abbreviation "MLME_SHORT_IE_TSCH_TIMESLOT \<equiv> (0x1c :: u8)"
abbreviation "MLME_LONG_IE_TSCH_CHANNEL_HOPPING_SEQUENCE \<equiv> (9 :: u8)"

abbreviation "FRAME802154E_IE_MAX_LINKS \<equiv> (4 :: nat)"
abbreviation "TSCH_HOPPING_SEQUENCE_MAX_LEN \<equiv> (16 :: nat)"
abbreviation "tsch_ts_elements_count \<equiv> (12 :: nat)"

record tsch_asn_t =
  ls4b :: u32
  ms1b :: u8

record tsch_slotframe_and_links_link =
  timeslot :: u16
  channel_offset :: u16
  link_options :: u8

record tsch_slotframe_and_links =
  num_slotframes :: u8
  slotframe_handle :: u8
  slotframe_size :: u16
  num_links :: u8
  links :: "tsch_slotframe_and_links_link list"

record ieee802154_ies =
  ie_time_correction :: u16
  ie_is_nack :: u8
  ie_payload_ie_offset :: u8
  ie_mlme_len :: u16
  ie_asn :: tsch_asn_t
  ie_join_priority :: u8
  ie_tsch_timeslot_id :: u8
  ie_tsch_timeslot :: "u16 list"
  ie_tsch_slotframe_and_link :: tsch_slotframe_and_links
  ie_channel_hopping_sequence_id :: u8
  ie_hopping_sequence_len :: u16
  ie_hopping_sequence_list :: "u8 list"

definition WRITE16 :: "nat \<Rightarrow> u16 \<Rightarrow> mem \<Rightarrow> mem" where
  "WRITE16 a val m = m(a := ucast (val AND 0xff), a + 1 := ucast (drop_bit 8 val AND 0xff))"

definition READ16 :: "mem \<Rightarrow> nat \<Rightarrow> u16" where
  "READ16 m a = ucast (m a) OR push_bit 8 (ucast (m (a + 1)))"

definition create_header_ie_descriptor :: "nat \<Rightarrow> u8 \<Rightarrow> u16 \<Rightarrow> mem \<Rightarrow> mem" where
  "create_header_ie_descriptor b element_id ie_len =
     WRITE16 b ((ie_len AND 0x7f) + push_bit 7 (ucast element_id AND 0xff))"

definition create_payload_ie_descriptor :: "nat \<Rightarrow> u8 \<Rightarrow> u16 \<Rightarrow> mem \<Rightarrow> mem" where
  "create_payload_ie_descriptor b group_id ie_len =
     WRITE16 b ((ie_len AND 0x07ff) + push_bit 11 (ucast group_id AND 0x0f) + push_bit 15 1)"

definition create_mlme_short_ie_descriptor :: "nat \<Rightarrow> u8 \<Rightarrow> u16 \<Rightarrow> mem \<Rightarrow> mem" where
  "create_mlme_short_ie_descriptor b sub_id ie_len =
     WRITE16 b ((ie_len AND 0xff) + push_bit 8 (ucast sub_id AND 0x7f))"

definition create_mlme_long_ie_descriptor :: "nat \<Rightarrow> u8 \<Rightarrow> u16 \<Rightarrow> mem \<Rightarrow> mem" where
  "create_mlme_long_ie_descriptor b sub_id ie_len =
     WRITE16 b ((ie_len AND 0x07ff) + push_bit 11 (ucast sub_id AND 0x0f) + push_bit 15 1)"

definition frame80215e_create_ie_header_ack_nack_time_correction ::
    "mem \<Rightarrow> nat \<Rightarrow> int \<Rightarrow> ieee802154_ies option \<Rightarrow> (mem \<times> nat) option" where
  "frame80215e_create_ie_header_ack_nack_time_correction m b len ies =
     (case ies of
        Some i \<Rightarrow>
          if 4 \<le> len then
            let f0 = ie_time_correction i AND 0x0fff;
                f = (if ie_is_nack i \<noteq> 0 then f0 OR 0x8000 else f0)
            in Some (create_header_ie_descriptor b HEADER_IE_ACK_NACK_TIME_CORRECTION 2
                       (WRITE16 (b + 2) f m), 4)
          else None
      | None \<Rightarrow> None)"

definition frame80215e_create_ie_header_list_termination_1 ::
    "mem \<Rightarrow> nat \<Rightarrow> int \<Rightarrow> ieee802154_ies option \<Rightarrow> (mem \<times> nat) option" where
  "frame80215e_create_ie_header_list_termination_1 m b len ies =
     (if 2 \<le> len \<and> ies \<noteq> None
      then Some (create_header_ie_descriptor b HEADER_IE_LIST_TERMINATION_1 0 m, 2) else None)"

definition frame80215e_create_ie_header_list_termination_2 ::
    "mem \<Rightarrow> nat \<Rightarrow> int \<Rightarrow> ieee802154_ies option \<Rightarrow> (mem \<times> nat) option" where
  "frame80215e_create_ie_header_list_termination_2 m b len ies =
     (if 2 \<le> len \<and> ies \<noteq> None
      then Some (create_header_ie_descriptor b HEADER_IE_LIST_TERMINATION_2 0 m, 2) else None)"

definition frame80215e_create_ie_payload_list_termination ::
    "mem \<Rightarrow> nat \<Rightarrow> int \<Rightarrow> ieee802154_ies option \<Rightarrow> (mem \<times> nat) option" where
  "frame80215e_create_ie_payload_list_termination m b len ies =
     (if 2 \<le> len \<and> ies \<noteq> None
      then Some (create_payload_ie_descriptor b PAYLOAD_IE_LIST_TERMINATION 0 m, 2) else None)"

definition frame80215e_create_ie_mlme ::
    "mem \<Rightarrow> nat \<Rightarrow> int \<Rightarrow> ieee802154_ies option \<Rightarrow> (mem \<times> nat) option" where
  "frame80215e_create_ie_mlme m b len ies =
     (case ies of
        Some i \<Rightarrow>
          if 2 \<le> len then Some (create_payload_ie_descriptor b PAYLOAD_IE_MLME (ie_mlme_len i) m, 2)
          else None
      | None \<Rightarrow> None)"

definition frame80215e_create_ie_tsch_synchronization ::
    "mem \<Rightarrow> nat \<Rightarrow> int \<Rightarrow> ieee802154_ies option \<Rightarrow> (mem \<times> nat) option" where
  "frame80215e_create_ie_tsch_synchronization m b len ies =
     (case ies of
        Some i \<Rightarrow>
          if 8 \<le> len then
            Some (create_mlme_short_ie_descriptor b MLME_SHORT_IE_TSCH_SYNCHRONIZATION 6
                    (m(b + 2 := ucast (ls4b (ie_asn i)),
                       b + 3 := ucast (drop_bit 8 (ls4b (ie_asn i))),
                       b + 4 := ucast (drop_bit 16 (ls4b (ie_asn i))),
                       b + 5 := ucast (drop_bit 24 (ls4b (ie_asn i))),
                       b + 6 := ms1b (ie_asn i),
                       b + 7 := ie_join_priority i)), 8)
          else None
      | None \<Rightarrow> None)"

text \<open>\<open>for(i = 0; i < n; i++)\<close> over the links, and over the timing elements.\<close>

definition write_link :: "nat \<Rightarrow> tsch_slotframe_and_links_link list \<Rightarrow> nat \<Rightarrow> mem \<Rightarrow> mem" where
  "write_link b ls i m =
     (WRITE16 (b + 2 + 5 + i * 5 + 2) (channel_offset (ls ! i))
       (WRITE16 (b + 2 + 5 + i * 5) (timeslot (ls ! i)) m))
       (b + 2 + 5 + i * 5 + 4 := link_options (ls ! i))"

definition frame80215e_create_ie_tsch_slotframe_and_link ::
    "mem \<Rightarrow> nat \<Rightarrow> int \<Rightarrow> ieee802154_ies option \<Rightarrow> (mem \<times> nat) option" where
  "frame80215e_create_ie_tsch_slotframe_and_link m b len ies =
     (case ies of
        Some i \<Rightarrow>
          let sl = ie_tsch_slotframe_and_link i;
              ns = unat (num_slotframes sl);
              nl = unat (num_links sl);
              ie_len = 1 + ns * (4 + 5 * nl)
          in if 1 < ns \<or> FRAME802154E_IE_MAX_LINKS < nl \<or> len < int (2 + ie_len) then None
             else
               let m1 = m(b + 2 := of_nat ns);
                   m2 = (if ns = 1 then
                           fold (write_link b (links sl)) [0..<nl]
                             ((WRITE16 (b + 4) (slotframe_size sl) (m1(b + 3 := slotframe_handle sl)))
                               (b + 6 := of_nat nl))
                         else m1)
               in Some (create_mlme_short_ie_descriptor b MLME_SHORT_IE_TSCH_SLOFTRAME_AND_LINK
                          (of_nat ie_len) m2, 2 + ie_len)
      | None \<Rightarrow> None)"

definition frame80215e_create_ie_tsch_timeslot ::
    "mem \<Rightarrow> nat \<Rightarrow> int \<Rightarrow> ieee802154_ies option \<Rightarrow> (mem \<times> nat) option" where
  "frame80215e_create_ie_tsch_timeslot m b len ies =
     (case ies of
        Some i \<Rightarrow>
          let ie_len = (if ie_tsch_timeslot_id i = 0 then 1 else 25)
          in if int (2 + ie_len) \<le> len then
               let m1 = m(b + 2 := ie_tsch_timeslot_id i);
                   m2 = (if ie_tsch_timeslot_id i \<noteq> 0
                         then fold (\<lambda>k. WRITE16 (b + 3 + 2 * k) (ie_tsch_timeslot i ! k))
                                [0..<tsch_ts_elements_count] m1
                         else m1)
               in Some (create_mlme_short_ie_descriptor b MLME_SHORT_IE_TSCH_TIMESLOT (of_nat ie_len) m2,
                        2 + ie_len)
             else None
      | None \<Rightarrow> None)"

text \<open>All the fields are written whatever the length of the element.\<close>

definition frame80215e_create_ie_tsch_channel_hopping_sequence ::
    "mem \<Rightarrow> nat \<Rightarrow> int \<Rightarrow> ieee802154_ies option \<Rightarrow> (mem \<times> nat) option" where
  "frame80215e_create_ie_tsch_channel_hopping_sequence m b len ies =
     (case ies of
        Some i \<Rightarrow>
          let n = unat (ie_hopping_sequence_len i);
              ie_len = (if ie_channel_hopping_sequence_id i = 0 then 1 else 12 + n)
          in if TSCH_HOPPING_SEQUENCE_MAX_LEN < n then None
             else if int (2 + ie_len) \<le> len then
               let m1 = WRITE16 (b + 10) (ie_hopping_sequence_len i)
                          (WRITE16 (b + 8) 0 (WRITE16 (b + 6) 0 (WRITE16 (b + 4) 0
                            (m(b + 2 := ie_channel_hopping_sequence_id i, b + 3 := 0)))));
                   m2 = WRITE16 (b + 12 + n) 0 (blit m1 (b + 12) (take n (ie_hopping_sequence_list i)))
               in Some (create_mlme_long_ie_descriptor b MLME_LONG_IE_TSCH_CHANNEL_HOPPING_SEQUENCE
                          (of_nat ie_len) m2, 2 + ie_len)
             else None
      | None \<Rightarrow> None)"

text \<open>The parsers of one element: whether the element is accepted, and the structure.\<close>

definition frame802154e_parse_header_ie ::
    "mem \<Rightarrow> nat \<Rightarrow> nat \<Rightarrow> u8 \<Rightarrow> ieee802154_ies \<Rightarrow> bool \<times> ieee802154_ies" where
  "frame802154e_parse_header_ie m p len element_id ies =
     (if element_id = HEADER_IE_ACK_NACK_TIME_CORRECTION \<and> len = 2 then
        let f = READ16 m p
        in (True, ies\<lparr>ie_is_nack := if f AND 0x8000 \<noteq> 0 then 1 else 0,
                      ie_time_correction := if f AND 0x0800 \<noteq> 0 then f OR 0xf000 else f AND 0x0fff\<rparr>)
      else (False, ies))"

definition read_link :: "mem \<Rightarrow> nat \<Rightarrow> nat \<Rightarrow> tsch_slotframe_and_links_link list \<Rightarrow>
    tsch_slotframe_and_links_link list" where
  "read_link m p i ls =
     ls[i := \<lparr>timeslot = READ16 m (p + 5 + i * 5), channel_offset = READ16 m (p + 5 + i * 5 + 2),
              link_options = m (p + 5 + i * 5 + 4)\<rparr>]"

definition frame802154e_parse_mlme_short_ie ::
    "mem \<Rightarrow> nat \<Rightarrow> nat \<Rightarrow> u8 \<Rightarrow> ieee802154_ies \<Rightarrow> bool \<times> ieee802154_ies" where
  "frame802154e_parse_mlme_short_ie m p len sub_id ies =
     (if sub_id = MLME_SHORT_IE_TSCH_SLOFTRAME_AND_LINK \<and> 1 \<le> len then
        let ns = unat (m p); nl = unat (m (p + 4))
        in if ns = 0 then (True, ies)
           else if ns \<le> 1 \<and> nl \<le> FRAME802154E_IE_MAX_LINKS \<and> len = 1 + ns * (4 + 5 * nl) then
             (True, ies\<lparr>ie_tsch_slotframe_and_link :=
                \<lparr>num_slotframes = m p, slotframe_handle = m (p + 1),
                 slotframe_size = READ16 m (p + 2), num_links = m (p + 4),
                 links = fold (read_link m p) [0..<nl] (links (ie_tsch_slotframe_and_link ies))\<rparr>\<rparr>)
           else (False, ies)
      else if sub_id = MLME_SHORT_IE_TSCH_SYNCHRONIZATION \<and> len = 6 then
        (True, ies\<lparr>ie_asn := \<lparr>ls4b = ucast (m p) OR push_bit 8 (ucast (m (p + 1))) OR
                                     push_bit 16 (ucast (m (p + 2))) OR push_bit 24 (ucast (m (p + 3))),
                              ms1b = m (p + 4)\<rparr>,
                   ie_join_priority := m (p + 5)\<rparr>)
      else if sub_id = MLME_SHORT_IE_TSCH_TIMESLOT \<and> (len = 1 \<or> len = 25) then
        (True,
         let ies1 = ies\<lparr>ie_tsch_timeslot_id := m p\<rparr>
         in if len = 25
            then ies1\<lparr>ie_tsch_timeslot :=
                   fold (\<lambda>k ts. ts[k := READ16 m (p + 1 + 2 * k)]) [0..<tsch_ts_elements_count]
                     (ie_tsch_timeslot ies1)\<rparr>
            else ies1)
      else (False, ies))"

definition frame802154e_parse_mlme_long_ie ::
    "mem \<Rightarrow> nat \<Rightarrow> nat \<Rightarrow> u8 \<Rightarrow> ieee802154_ies \<Rightarrow> bool \<times> ieee802154_ies" where
  "frame802154e_parse_mlme_long_ie m p len sub_id ies =
     (if sub_id = MLME_LONG_IE_TSCH_CHANNEL_HOPPING_SEQUENCE \<and> 0 < len then
        (True,
         let ies1 = ies\<lparr>ie_channel_hopping_sequence_id := m p\<rparr>
         in if 1 < len then
              let ies2 = ies1\<lparr>ie_hopping_sequence_len := READ16 m (p + 8)\<rparr>;
                  n = unat (ie_hopping_sequence_len ies2)
              in if n \<le> TSCH_HOPPING_SEQUENCE_MAX_LEN \<and> len = 12 + n
                 then ies2\<lparr>ie_hopping_sequence_list := copy_in (ie_hopping_sequence_list ies2) m (p + 10) n\<rparr>
                 else ies2
            else ies1)
      else (False, ies))"

text \<open>The loop over the elements: \<open>pos\<close> is \<open>buf\<close>, \<open>room\<close> is \<open>buf_size\<close>. A step ends the loop
  with a result (\<open>Inl\<close>, -1 for an error) or goes on.\<close>

datatype ie_mode = PARSING_HEADER_IE | PARSING_PAYLOAD_IE | PARSING_MLME_SUBIE

record ie_loop =
  mode :: ie_mode
  pos :: nat
  room :: nat
  nested_mlme_len :: int
  ies :: ieee802154_ies

definition header_ie_step :: "mem \<Rightarrow> nat \<Rightarrow> u16 \<Rightarrow> ie_loop \<Rightarrow> (int \<times> ieee802154_ies) + ie_loop" where
  "header_ie_step m start desc s =
     (if desc AND 0x8000 \<noteq> 0 then Inl (- 1, ies s)
      else
        let len = unat (desc AND 0x007f);
            id = ucast (drop_bit 7 (desc AND 0x7f80)) :: u8
        in if id = HEADER_IE_LIST_TERMINATION_1 then
             if len = 0
             then Inr (s\<lparr>mode := PARSING_PAYLOAD_IE,
                         ies := (ies s)\<lparr>ie_payload_ie_offset := of_nat (pos s - start)\<rparr>\<rparr>)
             else Inl (- 1, ies s)
           else if id = HEADER_IE_LIST_TERMINATION_2 then
             if len = 0
             then Inl (int (pos s - start), (ies s)\<lparr>ie_payload_ie_offset := of_nat (pos s - start)\<rparr>)
             else Inl (- 1, ies s)
           else if room s < len then Inl (- 1, ies s)
           else
             let (ok, i) = frame802154e_parse_header_ie m (pos s) len id (ies s)
             in if \<not> ok then Inl (- 1, i)
                else Inr (s\<lparr>ies := i, pos := pos s + len, room := room s - len\<rparr>))"

definition payload_ie_step :: "mem \<Rightarrow> nat \<Rightarrow> u16 \<Rightarrow> ie_loop \<Rightarrow> (int \<times> ieee802154_ies) + ie_loop" where
  "payload_ie_step m start desc s =
     (if desc AND 0x8000 = 0 then Inl (- 1, ies s)
      else
        let len = unat (desc AND 0x7ff);
            id = ucast (drop_bit 11 (desc AND 0x7800)) :: u8
        in if id = PAYLOAD_IE_MLME
           then Inr (s\<lparr>mode := PARSING_MLME_SUBIE, nested_mlme_len := int len\<rparr>)
           else if id = PAYLOAD_IE_LIST_TERMINATION
           then Inl (if len = 0 then int (pos s - start) else - 1, ies s)
           else Inl (- 1, ies s))"

definition mlme_subie_step :: "mem \<Rightarrow> u16 \<Rightarrow> ie_loop \<Rightarrow> (int \<times> ieee802154_ies) + ie_loop" where
  "mlme_subie_step m desc s =
     (let (len, ok, i) =
        (if desc AND 0x8000 = 0 then
           let len = unat (desc AND 0x00ff); id = ucast (drop_bit 8 (desc AND 0x7f00)) :: u8
           in if room s < len then (len, False, ies s)
              else (len, frame802154e_parse_mlme_short_ie m (pos s) len id (ies s))
         else
           let len = unat (desc AND 0x7ff); id = ucast (drop_bit 11 (desc AND 0x7800)) :: u8
           in if room s < len then (len, False, ies s)
              else (len, frame802154e_parse_mlme_long_ie m (pos s) len id (ies s)));
          nested = nested_mlme_len s - (2 + int len)
      in if \<not> ok \<or> nested < 0 then Inl (- 1, i)
         else Inr (s\<lparr>ies := i, nested_mlme_len := nested,
                     mode := if nested = 0 then PARSING_PAYLOAD_IE else mode s,
                     pos := pos s + len, room := room s - len\<rparr>))"

definition ie_step :: "mem \<Rightarrow> nat \<Rightarrow> ie_loop \<Rightarrow> (int \<times> ieee802154_ies) + ie_loop" where
  "ie_step m start s0 =
     (if room s0 < 2 then Inl (- 1, ies s0)
      else
        let desc = READ16 m (pos s0);
            s = s0\<lparr>room := room s0 - 2, pos := pos s0 + 2\<rparr>
        in case mode s of
             PARSING_HEADER_IE \<Rightarrow> header_ie_step m start desc s
           | PARSING_PAYLOAD_IE \<Rightarrow> payload_ie_step m start desc s
           | PARSING_MLME_SUBIE \<Rightarrow> mlme_subie_step m desc s)"

lemma header_step_room: "header_ie_step m start d s = Inr t \<Longrightarrow> room t \<le> room s \<and> pos t + room t = pos s + room s"
  by (auto simp: header_ie_step_def Let_def split: if_splits prod.splits)

lemma payload_step_room: "payload_ie_step m start d s = Inr t \<Longrightarrow> room t \<le> room s \<and> pos t + room t = pos s + room s"
  by (auto simp: payload_ie_step_def Let_def split: if_splits)

lemma subie_step_room: "mlme_subie_step m d s = Inr t \<Longrightarrow> room t \<le> room s \<and> pos t + room t = pos s + room s"
  by (auto simp: mlme_subie_step_def Let_def split: if_splits prod.splits)

lemma ie_step_room:
  assumes "ie_step m start s = Inr t"
  shows "room t < room s \<and> pos t + room t = pos s + room s"
  using assms
    header_step_room [of m start "READ16 m (pos s)" "s\<lparr>room := room s - 2, pos := pos s + 2\<rparr>" t]
    payload_step_room [of m start "READ16 m (pos s)" "s\<lparr>room := room s - 2, pos := pos s + 2\<rparr>" t]
    subie_step_room [of m "READ16 m (pos s)" "s\<lparr>room := room s - 2, pos := pos s + 2\<rparr>" t]
  by (auto simp: ie_step_def Let_def split: if_splits ie_mode.splits)

function ie_loop_run :: "mem \<Rightarrow> nat \<Rightarrow> ie_loop \<Rightarrow> int \<times> ieee802154_ies" where
  "ie_loop_run m start s =
     (if 0 < room s then
        (case ie_step m start s of Inl r \<Rightarrow> r | Inr t \<Rightarrow> ie_loop_run m start t)
      else if mode s = PARSING_HEADER_IE
      then (int (pos s - start), (ies s)\<lparr>ie_payload_ie_offset := of_nat (pos s - start)\<rparr>)
      else (int (pos s - start), ies s))"
  by pat_completeness auto
termination by (relation "measure (\<lambda>(m, start, s). room s)") (auto dest: ie_step_room)

declare ie_loop_run.simps [simp del]

definition frame802154e_parse_information_elements ::
    "mem \<Rightarrow> nat \<Rightarrow> u8 \<Rightarrow> ieee802154_ies \<Rightarrow> int \<times> ieee802154_ies" where
  "frame802154e_parse_information_elements m buf buf_size i =
     ie_loop_run m buf \<lparr>mode = PARSING_HEADER_IE, pos = buf, room = unat buf_size,
       nested_mlme_len = 0, ies = i\<lparr>ie_payload_ie_offset := 0\<rparr>\<rparr>"

section \<open>Descriptors\<close>

lemma READ16_rd16: "READ16 = rd16"
  by (intro ext) (simp add: READ16_def rd16_def)

lemma word_masks:
  "(0xff :: u16) = mask 8" "(0x7f :: u16) = mask 7" "(0x7ff :: u16) = mask 11" "(0x0f :: u16) = mask 4"
  "(0x7f80 :: u16) = push_bit 7 (mask 8)" "(0x7f00 :: u16) = push_bit 8 (mask 7)"
  "(0x7800 :: u16) = push_bit 11 (mask 4)" "(0x8000 :: u16) = push_bit 15 (mask 1)"
  "push_bit 15 (1 :: u16) = push_bit 15 (mask 1)"
  by (simp_all add: mask_eq_exp_minus_1 push_bit_eq_mult)

lemma bit_top16:
  "bit (32768 :: int) n \<longleftrightarrow> n = 15" "bit (32768 :: nat) n \<longleftrightarrow> n = 15"
  "bit (16 :: int) n \<longleftrightarrow> n = 4" "bit (16 :: nat) n \<longleftrightarrow> n = 4"
proof -
  have "(32768 :: int) = 2 ^ 15" "(32768 :: nat) = 2 ^ 15" "(16 :: int) = 2 ^ 4" "(16 :: nat) = 2 ^ 4"
    by simp_all
  then show "bit (32768 :: int) n \<longleftrightarrow> n = 15" "bit (32768 :: nat) n \<longleftrightarrow> n = 15"
    "bit (16 :: int) n \<longleftrightarrow> n = 4" "bit (16 :: nat) n \<longleftrightarrow> n = 4"
    by (simp_all only: bit_exp_iff) auto
qed

definition wire16le :: "u16 \<Rightarrow> u8 list" where
  "wire16le v = [ucast v, ucast (drop_bit 8 v)]"

lemma length_wire16le [simp]: "length (wire16le v) = 2"
  by (simp add: wire16le_def)

lemma WRITE16_blit: "WRITE16 a v m = blit m a (wire16le v)"
proof -
  have "(ucast (v AND 0xff) :: u8) = ucast v" "(ucast (drop_bit 8 v AND 0xff) :: u8) = ucast (drop_bit 8 v)"
    unfolding word_masks by (rule bit_word_eqI; auto simp: bit_simps)+
  then show ?thesis by (simp add: WRITE16_def wire16le_def blit_Cons)
qed

lemma READ16_holds: "holds m a (wire16le v) \<Longrightarrow> READ16 m a = v"
  by (simp add: READ16_def wire16le_def rd16_wr16)

definition short_desc :: "u16 \<Rightarrow> u16 \<Rightarrow> u16" where
  "short_desc i len = (len AND 0xff) + push_bit 8 (i AND 0x7f)"

definition long_desc :: "u16 \<Rightarrow> u16 \<Rightarrow> u16" where
  "long_desc i len = (len AND 0x07ff) + push_bit 11 (i AND 0x0f) + push_bit 15 1"

definition header_desc :: "u16 \<Rightarrow> u16 \<Rightarrow> u16" where
  "header_desc i len = (len AND 0x7f) + push_bit 7 (i AND 0xff)"

lemma short_desc_or: "short_desc i len = (len AND mask 8) OR push_bit 8 (i AND mask 7)"
  unfolding short_desc_def word_masks
  by (rule disjunctive_add_eq_or) (auto intro!: bit_word_eqI simp: bit_simps bit_top16)

lemma header_desc_or: "header_desc i len = (len AND mask 7) OR push_bit 7 (i AND mask 8)"
  unfolding header_desc_def word_masks
  by (rule disjunctive_add_eq_or) (auto intro!: bit_word_eqI simp: bit_simps bit_top16)

lemma long_desc_or:
  "long_desc i len = (len AND mask 11) OR push_bit 11 (i AND mask 4) OR push_bit 15 (mask 1)"
proof -
  have "(len AND mask 11) + push_bit 11 (i AND mask 4) = (len AND mask 11) OR push_bit 11 (i AND mask 4)"
    by (rule disjunctive_add_eq_or) (auto intro!: bit_word_eqI simp: bit_simps bit_top16)
  moreover have "((len AND mask 11) OR push_bit 11 (i AND mask 4)) + push_bit 15 (mask 1) =
      (len AND mask 11) OR push_bit 11 (i AND mask 4) OR push_bit 15 (mask 1 :: u16)"
    unfolding or.assoc [symmetric]
    by (rule disjunctive_add_eq_or) (auto intro!: bit_word_eqI simp: bit_simps bit_top16)
  ultimately show ?thesis unfolding long_desc_def word_masks by simp
qed

lemma short_desc_fields:
  "short_desc i len AND 0x8000 = 0" "short_desc i len AND 0xff = len AND 0xff"
  "drop_bit 8 (short_desc i len AND 0x7f00) = i AND 0x7f"
  unfolding short_desc_or word_masks by (rule bit_word_eqI; auto simp: bit_simps bit_top16)+

lemma header_desc_fields:
  "header_desc i len AND 0x8000 = 0" "header_desc i len AND 0x7f = len AND 0x7f"
  "drop_bit 7 (header_desc i len AND 0x7f80) = i AND 0xff"
  unfolding header_desc_or word_masks by (rule bit_word_eqI; auto simp: bit_simps bit_top16)+

lemma long_desc_fields:
  "long_desc i len AND 0x7ff = len AND 0x7ff"
  "drop_bit 11 (long_desc i len AND 0x7800) = i AND 0x0f"
  unfolding long_desc_or word_masks by (rule bit_word_eqI; auto simp: bit_simps bit_top16)+

lemma long_desc_type: "long_desc i len AND 0x8000 \<noteq> 0"
proof
  assume "long_desc i len AND 0x8000 = 0"
  then have "\<not> bit (long_desc i len AND 0x8000) 15" by simp
  then show False unfolding long_desc_or word_masks by (simp add: bit_simps bit_top16)
qed

section \<open>The elements on the wire\<close>

text \<open>What a writer promises: the bytes of the element from its place on, nothing in front of it, and
  a refusal when the element does not fit.\<close>

locale ie_writer =
  fixes create :: "mem \<Rightarrow> nat \<Rightarrow> int \<Rightarrow> ieee802154_ies option \<Rightarrow> (mem \<times> nat) option"
    and wire :: "ieee802154_ies \<Rightarrow> u8 list"
    and ok :: "ieee802154_ies \<Rightarrow> bool"
  assumes writes: "ok i \<Longrightarrow> int (length (wire i)) \<le> len \<Longrightarrow>
      \<exists>m'. create m b len (Some i) = Some (m', length (wire i)) \<and> holds m' b (wire i) \<and> (\<forall>a < b. m' a = m a)"
    and refuses: "ok i \<Longrightarrow> len < int (length (wire i)) \<Longrightarrow> create m b len (Some i) = None"
    and no_ies: "create m b len None = None"
begin

lemma writes_after:
  assumes "holds m p bs" and "ok i" and "int (length (wire i)) \<le> len"
  shows "\<exists>m'. create m (p + length bs) len (Some i) = Some (m', length (wire i)) \<and>
           holds m' p (bs @ wire i) \<and> (\<forall>a < p + length bs. m' a = m a)"
proof -
  obtain m' where m': "create m (p + length bs) len (Some i) = Some (m', length (wire i))"
    "holds m' (p + length bs) (wire i)" "\<forall>a < p + length bs. m' a = m a"
    using writes [OF assms(2,3)] by blast
  moreover have "holds m' p bs" using assms(1) m'(3) by (simp add: holds_def)
  ultimately show ?thesis by (auto simp: holds_append)
qed

lemma result_length: "ok i \<Longrightarrow> create m b len (Some i) = Some (m', n) \<Longrightarrow> n = length (wire i)"
  using writes [of i len m b] refuses [of i len m b] by (cases "int (length (wire i)) \<le> len") auto

end

lemma holds_blit_above: "p + length bs \<le> q \<Longrightarrow> holds (blit m p bs) q cs \<longleftrightarrow> holds m q cs"
  by (simp add: holds_def blit_def)

lemma descriptor_holds:
  "holds m (b + 2) body \<Longrightarrow> holds (blit m b (wire16le v)) b (wire16le v @ body)"
  by (simp add: holds_append holds_blit_above)

definition wire_ack :: "ieee802154_ies \<Rightarrow> u8 list" where
  "wire_ack i = wire16le (header_desc 0x1e 2) @
     wire16le ((ie_time_correction i AND 0x0fff) OR (if ie_is_nack i \<noteq> 0 then 0x8000 else 0))"

definition wire_sync :: "ieee802154_ies \<Rightarrow> u8 list" where
  "wire_sync i = wire16le (short_desc 0x1a 6) @
     [ucast (ls4b (ie_asn i)), ucast (drop_bit 8 (ls4b (ie_asn i))), ucast (drop_bit 16 (ls4b (ie_asn i))),
      ucast (drop_bit 24 (ls4b (ie_asn i))), ms1b (ie_asn i), ie_join_priority i]"

definition wire_timeslot :: "ieee802154_ies \<Rightarrow> u8 list" where
  "wire_timeslot i =
     wire16le (short_desc 0x1c (if ie_tsch_timeslot_id i = 0 then 1 else 25)) @ [ie_tsch_timeslot_id i] @
     (if ie_tsch_timeslot_id i = 0 then []
      else concat (map wire16le (take tsch_ts_elements_count (ie_tsch_timeslot i))))"

definition wire_hopping :: "ieee802154_ies \<Rightarrow> u8 list" where
  "wire_hopping i =
     (if ie_channel_hopping_sequence_id i = 0 then wire16le (long_desc 9 1) @ [0]
      else wire16le (long_desc 9 (12 + ie_hopping_sequence_len i)) @
           [ie_channel_hopping_sequence_id i, 0, 0, 0, 0, 0, 0, 0] @ wire16le (ie_hopping_sequence_len i) @
           take (unat (ie_hopping_sequence_len i)) (ie_hopping_sequence_list i) @ [0, 0])"

definition wire_link :: "tsch_slotframe_and_links_link \<Rightarrow> u8 list" where
  "wire_link l = wire16le (timeslot l) @ wire16le (channel_offset l) @ [link_options l]"

definition slotframe_len :: "tsch_slotframe_and_links \<Rightarrow> nat" where
  "slotframe_len sl = (if num_slotframes sl = 0 then 1 else 5 + 5 * unat (num_links sl))"

definition wire_slotframe :: "ieee802154_ies \<Rightarrow> u8 list" where
  "wire_slotframe i =
     (let sl = ie_tsch_slotframe_and_link i
      in wire16le (short_desc 0x1b (of_nat (slotframe_len sl))) @ [num_slotframes sl] @
         (if num_slotframes sl = 0 then []
          else [slotframe_handle sl] @ wire16le (slotframe_size sl) @ [num_links sl] @
               concat (map wire_link (take (unat (num_links sl)) (links sl)))))"

definition timeslot_ok :: "ieee802154_ies \<Rightarrow> bool" where
  "timeslot_ok i \<longleftrightarrow> length (ie_tsch_timeslot i) = tsch_ts_elements_count"

definition hopping_ok :: "ieee802154_ies \<Rightarrow> bool" where
  "hopping_ok i \<longleftrightarrow> length (ie_hopping_sequence_list i) = TSCH_HOPPING_SEQUENCE_MAX_LEN \<and>
     ie_hopping_sequence_len i \<le> 16"

definition slotframe_ok :: "ieee802154_ies \<Rightarrow> bool" where
  "slotframe_ok i \<longleftrightarrow> num_slotframes (ie_tsch_slotframe_and_link i) \<le> 1 \<and>
     num_links (ie_tsch_slotframe_and_link i) \<le> 4 \<and>
     length (links (ie_tsch_slotframe_and_link i)) = FRAME802154E_IE_MAX_LINKS"

lemma offsets: "Suc (Suc (Suc b)) = b + 3" "Suc (b + numeral k) = b + numeral (k + num.One)"
  by (simp, metis add_Suc_right Suc_eq_plus1 numeral_plus_one)

lemma length_concat_const: "(\<And>x. length (f x) = k) \<Longrightarrow> length (concat (map f xs)) = k * length xs"
  by (induction xs) simp_all

lemma length_wire_link [simp]: "length (wire_link l) = 5"
  by (simp add: wire_link_def)

lemma fold_write16:
  "n \<le> length ts \<Longrightarrow> fold (\<lambda>k. WRITE16 (c + 2 * k) (ts ! k)) [0..<n] m = blit m c (concat (map wire16le (take n ts)))"
proof (induction n)
  case 0
  then show ?case by simp
next
  case (Suc n)
  then show ?case
    by (simp add: WRITE16_blit take_Suc_conv_app_nth blit_append length_concat_const [where k = 2])
qed

lemma write_link_blit: "write_link b ls i m = blit m (b + 7 + 5 * i) (wire_link (ls ! i))"
  by (simp add: write_link_def WRITE16_blit wire_link_def blit_append blit_Cons [of _ _ _ "[]"]
      add.commute add.left_commute mult.commute)

lemma fold_write_link:
  "n \<le> length ls \<Longrightarrow> fold (write_link b ls) [0..<n] m = blit m (b + 7) (concat (map wire_link (take n ls)))"
proof (induction n)
  case 0
  then show ?case by simp
next
  case (Suc n)
  then show ?case
    by (simp add: write_link_blit take_Suc_conv_app_nth blit_append length_concat_const [where k = 5]
        add.assoc)
qed

interpretation ack: ie_writer frame80215e_create_ie_header_ack_nack_time_correction wire_ack "\<lambda>_. True"
proof
  fix i len m b
  assume "int (length (wire_ack i)) \<le> len"
  then show "\<exists>m'. frame80215e_create_ie_header_ack_nack_time_correction m b len (Some i) =
      Some (m', length (wire_ack i)) \<and> holds m' b (wire_ack i) \<and> (\<forall>a<b. m' a = m a)"
    unfolding wire_ack_def
    by (simp add: frame80215e_create_ie_header_ack_nack_time_correction_def create_header_ie_descriptor_def
        header_desc_def WRITE16_blit descriptor_holds blit_below)
next
  fix i len m b
  assume "len < int (length (wire_ack i))"
  then show "frame80215e_create_ie_header_ack_nack_time_correction m b len (Some i) = None"
    by (simp add: frame80215e_create_ie_header_ack_nack_time_correction_def wire_ack_def)
qed (simp add: frame80215e_create_ie_header_ack_nack_time_correction_def)

interpretation sync: ie_writer frame80215e_create_ie_tsch_synchronization wire_sync "\<lambda>_. True"
proof
  fix i len m b
  assume "int (length (wire_sync i)) \<le> len"
  moreover have "holds (m(b + 2 := ucast (ls4b (ie_asn i)),
                       b + 3 := ucast (drop_bit 8 (ls4b (ie_asn i))),
                       b + 4 := ucast (drop_bit 16 (ls4b (ie_asn i))),
                       b + 5 := ucast (drop_bit 24 (ls4b (ie_asn i))),
                       b + 6 := ms1b (ie_asn i), b + 7 := ie_join_priority i)) (b + 2)
      [ucast (ls4b (ie_asn i)), ucast (drop_bit 8 (ls4b (ie_asn i))), ucast (drop_bit 16 (ls4b (ie_asn i))),
      ucast (drop_bit 24 (ls4b (ie_asn i))), ms1b (ie_asn i), ie_join_priority i]"
    by simp
  ultimately show "\<exists>m'. frame80215e_create_ie_tsch_synchronization m b len (Some i) =
      Some (m', length (wire_sync i)) \<and> holds m' b (wire_sync i) \<and> (\<forall>a<b. m' a = m a)"
    unfolding wire_sync_def
    by (simp add: frame80215e_create_ie_tsch_synchronization_def create_mlme_short_ie_descriptor_def
        short_desc_def WRITE16_blit descriptor_holds blit_below del: holds_Cons)
next
  fix i len m b
  assume "len < int (length (wire_sync i))"
  then show "frame80215e_create_ie_tsch_synchronization m b len (Some i) = None"
    by (simp add: frame80215e_create_ie_tsch_synchronization_def wire_sync_def)
qed (simp add: frame80215e_create_ie_tsch_synchronization_def)

interpretation timeslot: ie_writer frame80215e_create_ie_tsch_timeslot wire_timeslot timeslot_ok
proof
  fix i len m b
  assume ok: "timeslot_ok i" and l: "int (length (wire_timeslot i)) \<le> len"
  have b: "Suc (Suc (Suc b)) = b + 3" by simp
  have n: "length (concat (map wire16le (ie_tsch_timeslot i))) = 24"
    using ok by (simp add: length_concat_const [where k = 2] timeslot_ok_def)
  define body where "body = [ie_tsch_timeslot_id i] @ (if ie_tsch_timeslot_id i = 0 then []
      else concat (map wire16le (ie_tsch_timeslot i)))"
  have w: "wire_timeslot i = wire16le (short_desc 0x1c (if ie_tsch_timeslot_id i = 0 then 1 else 25)) @ body"
    and lb: "length body = (if ie_tsch_timeslot_id i = 0 then 1 else 25)"
    using ok n by (simp_all add: wire_timeslot_def body_def timeslot_ok_def)
  define m2 where "m2 = (if ie_tsch_timeslot_id i \<noteq> 0
      then fold (\<lambda>k. WRITE16 (b + 3 + 2 * k) (ie_tsch_timeslot i ! k)) [0..<tsch_ts_elements_count]
             (m(b + 2 := ie_tsch_timeslot_id i))
      else m(b + 2 := ie_tsch_timeslot_id i))"
  have m2: "m2 = blit m (b + 2) body"
    using ok fold_write16 [of 12 "ie_tsch_timeslot i" "b + 3"]
    by (simp add: m2_def body_def timeslot_ok_def blit_Cons b)
  have h: "holds m2 (b + 2) body" "\<forall>a < b. m2 a = m a" by (simp_all add: m2 blit_below)
  have c: "frame80215e_create_ie_tsch_timeslot m b len (Some i) =
      Some (blit m2 b (wire16le (short_desc 0x1c (if ie_tsch_timeslot_id i = 0 then 1 else 25))), length (wire_timeslot i))"
    using l unfolding w frame80215e_create_ie_tsch_timeslot_def Let_def option.case m2_def [symmetric]
    by (simp add: lb create_mlme_short_ie_descriptor_def short_desc_def WRITE16_blit split: if_splits)
  then show "\<exists>m'. frame80215e_create_ie_tsch_timeslot m b len (Some i) =
      Some (m', length (wire_timeslot i)) \<and> holds m' b (wire_timeslot i) \<and> (\<forall>a<b. m' a = m a)"
    using h unfolding w by (auto simp: descriptor_holds blit_below)
next
  fix i len m b
  assume "timeslot_ok i" "len < int (length (wire_timeslot i))"
  then show "frame80215e_create_ie_tsch_timeslot m b len (Some i) = None"
    by (auto simp: frame80215e_create_ie_tsch_timeslot_def wire_timeslot_def timeslot_ok_def
        length_concat_const [where k = 2] split: if_splits)
qed (simp add: frame80215e_create_ie_tsch_timeslot_def)

lemma unat_le: "x \<le> of_nat n \<Longrightarrow> n < 2 ^ LENGTH('a) \<Longrightarrow> unat (x :: 'a::len word) \<le> n"
  by (simp add: word_le_nat_alt unat_of_nat)

interpretation hopping: ie_writer frame80215e_create_ie_tsch_channel_hopping_sequence wire_hopping hopping_ok
proof
  fix i len m b
  assume ok: "hopping_ok i" and l: "int (length (wire_hopping i)) \<le> len"
  define n where "n = unat (ie_hopping_sequence_len i)"
  have n: "n \<le> 16" "length (ie_hopping_sequence_list i) = 16"
    using ok unat_le [of "ie_hopping_sequence_len i" 16] by (simp_all add: hopping_ok_def n_def)
  have wn: "of_nat n = ie_hopping_sequence_len i" by (simp add: n_def)
  define lst where "lst = take n (ie_hopping_sequence_list i)"
  have ll: "length lst = n" using n by (simp add: lst_def)
  define m2 where "m2 = WRITE16 (b + 12 + n) 0 (blit (WRITE16 (b + 10) (ie_hopping_sequence_len i)
                          (WRITE16 (b + 8) 0 (WRITE16 (b + 6) 0 (WRITE16 (b + 4) 0
                            (m(b + 2 := ie_channel_hopping_sequence_id i, b + 3 := 0)))))) (b + 12) lst)"
  define full where "full = [ie_channel_hopping_sequence_id i, 0, 0, 0, 0, 0, 0, 0] @
      wire16le (ie_hopping_sequence_len i) @ lst @ [0, 0]"
  have w0: "wire16le 0 = [0, 0]" by (simp add: wire16le_def)
  have m2: "m2 = blit m (b + 2) full"
    unfolding m2_def full_def WRITE16_blit w0
    by (simp add: blit_append blit_Cons ll offsets add.assoc add.commute [of n])
  define body where "body = (if ie_channel_hopping_sequence_id i = 0 then [0] else full)"
  have lb: "length body = (if ie_channel_hopping_sequence_id i = 0 then 1 else 12 + n)"
    by (simp add: body_def full_def ll)
  have h: "holds m2 (b + 2) body" "\<forall>a < b. m2 a = m a"
    by (auto simp: m2 blit_below body_def) (simp add: blit_def full_def)
  have w: "wire_hopping i = wire16le (long_desc 9 (of_nat (length body))) @ body"
    by (simp add: wire_hopping_def body_def full_def lst_def [symmetric] n_def [symmetric] ll wn)
  have c: "frame80215e_create_ie_tsch_channel_hopping_sequence m b len (Some i) =
      Some (blit m2 b (wire16le (long_desc 9 (of_nat (length body)))), length (wire_hopping i))"
    using l n(1)
    unfolding w length_append length_wire16le lb frame80215e_create_ie_tsch_channel_hopping_sequence_def
      Let_def option.case n_def [symmetric] lst_def [symmetric] m2_def [symmetric]
    by (simp add: create_mlme_long_ie_descriptor_def long_desc_def WRITE16_blit split: if_splits)
  then show "\<exists>m'. frame80215e_create_ie_tsch_channel_hopping_sequence m b len (Some i) =
      Some (m', length (wire_hopping i)) \<and> holds m' b (wire_hopping i) \<and> (\<forall>a<b. m' a = m a)"
    using h unfolding w by (auto simp: descriptor_holds blit_below)
next
  fix i len m b
  assume "hopping_ok i" and "len < int (length (wire_hopping i))"
  moreover have "unat (ie_hopping_sequence_len i) \<le> 16"
    using calculation(1) unat_le [of "ie_hopping_sequence_len i" 16] by (simp add: hopping_ok_def)
  ultimately show "frame80215e_create_ie_tsch_channel_hopping_sequence m b len (Some i) = None"
    by (auto simp: frame80215e_create_ie_tsch_channel_hopping_sequence_def wire_hopping_def hopping_ok_def
        Let_def split: if_splits)
qed (simp add: frame80215e_create_ie_tsch_channel_hopping_sequence_def)

lemma byte_le_1: "(x :: u8) \<le> 1 \<Longrightarrow> x = 0 \<or> x = 1"
  using unat_le [of x 1] by (auto simp: le_Suc_eq word_unat_eq_iff)

interpretation slotframe: ie_writer frame80215e_create_ie_tsch_slotframe_and_link wire_slotframe slotframe_ok
proof
  fix i len m b
  assume ok: "slotframe_ok i" and l: "int (length (wire_slotframe i)) \<le> len"
  define sl where "sl = ie_tsch_slotframe_and_link i"
  define nl where "nl = unat (num_links sl)"
  have nl: "nl \<le> 4" "length (links sl) = 4"
    using ok unat_le [of "num_links sl" 4] by (simp_all add: slotframe_ok_def sl_def nl_def)
  have ns: "num_slotframes sl = 0 \<or> num_slotframes sl = 1"
    using ok byte_le_1 [of "num_slotframes sl"] by (simp add: slotframe_ok_def sl_def)
  have wl: "of_nat nl = num_links sl" by (simp add: nl_def)
  define body where "body = [num_slotframes sl] @ (if num_slotframes sl = 0 then []
          else [slotframe_handle sl] @ wire16le (slotframe_size sl) @ [num_links sl] @
               concat (map wire_link (take nl (links sl))))"
  define m2 where "m2 = (if unat (num_slotframes sl) = 1 then
                           fold (write_link b (links sl)) [0..<nl]
                             ((WRITE16 (b + 4) (slotframe_size sl) (m(b + 2 := of_nat (unat (num_slotframes sl)), b + 3 := slotframe_handle sl)))
                               (b + 6 := of_nat nl))
                         else m(b + 2 := of_nat (unat (num_slotframes sl))))"
  have m2: "m2 = blit m (b + 2) body"
    using ns nl
    by (auto simp: m2_def body_def fold_write_link WRITE16_blit blit_Cons blit_append offsets wl)
  have lb: "length body = slotframe_len sl"
    using nl by (simp add: body_def slotframe_len_def length_concat_const [where k = 5] nl_def [symmetric])
  have h: "holds m2 (b + 2) body" "\<forall>a < b. m2 a = m a"
    by (auto simp: m2 blit_below)
  have w: "wire_slotframe i = wire16le (short_desc 0x1b (of_nat (length body))) @ body"
    unfolding lb by (simp add: wire_slotframe_def body_def sl_def [symmetric] nl_def Let_def)
  have k: "1 + unat (num_slotframes sl) * (4 + 5 * nl) = slotframe_len sl"
    using ns by (auto simp: slotframe_len_def nl_def)
  have c: "frame80215e_create_ie_tsch_slotframe_and_link m b len (Some i) =
      Some (blit m2 b (wire16le (short_desc 0x1b (of_nat (length body)))), length (wire_slotframe i))"
  proof -
    have "\<not> (1 < unat (num_slotframes sl) \<or> 4 < nl \<or> len < int (2 + slotframe_len sl))"
      using ns nl l unfolding w length_append length_wire16le lb by auto
    then show ?thesis
      unfolding w length_append length_wire16le lb frame80215e_create_ie_tsch_slotframe_and_link_def
        Let_def option.case sl_def [symmetric] nl_def [symmetric] k m2_def [symmetric]
      by (simp add: create_mlme_short_ie_descriptor_def short_desc_def WRITE16_blit)
  qed
  then show "\<exists>m'. frame80215e_create_ie_tsch_slotframe_and_link m b len (Some i) =
      Some (m', length (wire_slotframe i)) \<and> holds m' b (wire_slotframe i) \<and> (\<forall>a<b. m' a = m a)"
    using h unfolding w by (auto simp: descriptor_holds blit_below)
next
  fix i len m b
  assume ok: "slotframe_ok i" and l: "len < int (length (wire_slotframe i))"
  have "num_slotframes (ie_tsch_slotframe_and_link i) = 0 \<or> num_slotframes (ie_tsch_slotframe_and_link i) = 1"
    using ok byte_le_1 [of "num_slotframes (ie_tsch_slotframe_and_link i)"] by (simp add: slotframe_ok_def)
  moreover have "unat (num_links (ie_tsch_slotframe_and_link i)) \<le> 4"
    using ok unat_le [of "num_links (ie_tsch_slotframe_and_link i)" 4] by (simp add: slotframe_ok_def)
  ultimately show "frame80215e_create_ie_tsch_slotframe_and_link m b len (Some i) = None"
    using ok l by (auto simp: frame80215e_create_ie_tsch_slotframe_and_link_def wire_slotframe_def slotframe_ok_def
        Let_def length_concat_const [where k = 5])
qed (simp add: frame80215e_create_ie_tsch_slotframe_and_link_def)

section \<open>Reading the elements back\<close>

definition got_sync :: "ieee802154_ies \<Rightarrow> ieee802154_ies \<Rightarrow> ieee802154_ies" where
  "got_sync i j = j\<lparr>ie_asn := ie_asn i, ie_join_priority := ie_join_priority i\<rparr>"

definition got_timeslot :: "ieee802154_ies \<Rightarrow> ieee802154_ies \<Rightarrow> ieee802154_ies" where
  "got_timeslot i j =
     (let k = j\<lparr>ie_tsch_timeslot_id := ie_tsch_timeslot_id i\<rparr>
      in if ie_tsch_timeslot_id i = 0 then k else k\<lparr>ie_tsch_timeslot := ie_tsch_timeslot i\<rparr>)"

definition got_hopping :: "ieee802154_ies \<Rightarrow> ieee802154_ies \<Rightarrow> ieee802154_ies" where
  "got_hopping i j =
     (let k = j\<lparr>ie_channel_hopping_sequence_id := ie_channel_hopping_sequence_id i\<rparr>;
          n = unat (ie_hopping_sequence_len i)
      in if ie_channel_hopping_sequence_id i = 0 then k
         else k\<lparr>ie_hopping_sequence_len := ie_hopping_sequence_len i,
                ie_hopping_sequence_list := take n (ie_hopping_sequence_list i) @ drop n (ie_hopping_sequence_list j)\<rparr>)"

definition got_slotframe :: "ieee802154_ies \<Rightarrow> ieee802154_ies \<Rightarrow> ieee802154_ies" where
  "got_slotframe i j =
     (let sl = ie_tsch_slotframe_and_link i; n = unat (num_links sl)
      in if num_slotframes sl = 0 then j
         else j\<lparr>ie_tsch_slotframe_and_link :=
                  sl\<lparr>links := take n (links sl) @ drop n (links (ie_tsch_slotframe_and_link j))\<rparr>\<rparr>)"

lemma holds_concat:
  assumes "\<And>x. length (f x) = w" and "holds m c (concat (map f xs))" and "k < length xs"
  shows "holds m (c + w * k) (f (xs ! k))"
  using assms(2,3)
proof (induction xs arbitrary: c k)
  case Nil
  then show ?case by simp
next
  case (Cons x xs)
  have h: "holds m c (f x)" "holds m (c + w) (concat (map f xs))"
    using Cons.prems(1) by (simp_all add: holds_append assms(1))
  show ?case
  proof (cases k)
    case 0
    with h show ?thesis by simp
  next
    case (Suc k')
    with Cons.IH [OF h(2), of k'] Cons.prems(2) show ?thesis by (simp add: add.assoc)
  qed
qed

lemma fold_list_update:
  assumes "n \<le> length vs" and "n \<le> length ts" and "\<And>k. k < n \<Longrightarrow> g k = vs ! k"
  shows "fold (\<lambda>k ts. ts[k := g k]) [0..<n] ts = take n vs @ drop n ts"
  using assms
proof (induction n)
  case 0
  then show ?case by simp
next
  case (Suc n)
  have "drop n ts = ts ! n # drop (Suc n) ts" using Suc.prems by (simp add: Cons_nth_drop_Suc)
  with Suc show ?case by (simp add: take_Suc_conv_app_nth list_update_append)
qed

lemma bytes_of_u32:
  "ucast (ucast x :: u8) OR push_bit 8 (ucast (ucast (drop_bit 8 x) :: u8)) OR
   push_bit 16 (ucast (ucast (drop_bit 16 x) :: u8)) OR push_bit 24 (ucast (ucast (drop_bit 24 x) :: u8)) = (x :: u32)"
proof (rule bit_word_eqI)
  fix n
  assume "n < LENGTH(32)"
  then show "bit (ucast (ucast x :: u8) OR push_bit 8 (ucast (ucast (drop_bit 8 x) :: u8)) OR
   push_bit 16 (ucast (ucast (drop_bit 16 x) :: u8)) OR push_bit 24 (ucast (ucast (drop_bit 24 x) :: u8)) :: u32) n = bit x n"
    by (cases "n < 8"; cases "n < 16"; cases "n < 24") (auto simp: bit_simps)
qed

lemma parse_sync:
  assumes "holds m p (drop 2 (wire_sync i))"
  shows "frame802154e_parse_mlme_short_ie m p 6 0x1a j = (True, got_sync i j)"
  using assms bytes_of_u32 [of "ls4b (ie_asn i)"]
  by (simp add: wire_sync_def wire16le_def frame802154e_parse_mlme_short_ie_def got_sync_def
      offsets)

lemma parse_timeslot:
  assumes "timeslot_ok i" and "timeslot_ok j" and "holds m p (drop 2 (wire_timeslot i))"
  shows "frame802154e_parse_mlme_short_ie m p (if ie_tsch_timeslot_id i = 0 then 1 else 25) 0x1c j =
           (True, got_timeslot i j)"
proof (cases "ie_tsch_timeslot_id i = 0")
  case True
  with assms(3) show ?thesis
    by (simp add: wire_timeslot_def wire16le_def frame802154e_parse_mlme_short_ie_def got_timeslot_def)
next
  case False
  have "holds m p (ie_tsch_timeslot_id i # concat (map wire16le (ie_tsch_timeslot i)))"
    using assms(1,3) False by (simp add: wire_timeslot_def wire16le_def timeslot_ok_def)
  then have h: "m p = ie_tsch_timeslot_id i" "holds m (p + 1) (concat (map wire16le (ie_tsch_timeslot i)))"
    by simp_all
  have "fold (\<lambda>k ts. ts[k := READ16 m (p + 1 + 2 * k)]) [0..<12] (ie_tsch_timeslot j) = ie_tsch_timeslot i"
    using fold_list_update [of 12 "ie_tsch_timeslot i" "ie_tsch_timeslot j" "\<lambda>k. READ16 m (p + 1 + 2 * k)"]
      holds_concat [of wire16le 2, OF length_wire16le h(2)] READ16_holds assms(1,2)
    by (simp add: timeslot_ok_def)
  with False h(1) show ?thesis
    by (simp add: frame802154e_parse_mlme_short_ie_def got_timeslot_def Let_def del: upt_Suc)
qed

lemma parse_hopping:
  assumes "hopping_ok i" and "hopping_ok j" and "holds m p (drop 2 (wire_hopping i))"
  shows "frame802154e_parse_mlme_long_ie m p
           (if ie_channel_hopping_sequence_id i = 0 then 1 else 12 + unat (ie_hopping_sequence_len i)) 9 j =
           (True, got_hopping i j)"
proof (cases "ie_channel_hopping_sequence_id i = 0")
  case True
  with assms(3) show ?thesis
    by (simp add: wire_hopping_def wire16le_def frame802154e_parse_mlme_long_ie_def got_hopping_def)
next
  case False
  define n where "n = unat (ie_hopping_sequence_len i)"
  have n: "n \<le> 16" "length (ie_hopping_sequence_list i) = 16"
    using assms(1) unat_le [of "ie_hopping_sequence_len i" 16] by (simp_all add: hopping_ok_def n_def)
  have "holds m p ([ie_channel_hopping_sequence_id i, 0, 0, 0, 0, 0, 0, 0] @ wire16le (ie_hopping_sequence_len i) @
      take n (ie_hopping_sequence_list i) @ [0, 0])"
    using assms(3) False by (simp add: wire_hopping_def wire16le_def n_def)
  then have h: "m p = ie_channel_hopping_sequence_id i" "READ16 m (p + 8) = ie_hopping_sequence_len i"
    "holds m (p + 10) (take n (ie_hopping_sequence_list i))"
    by (auto simp: holds_append offsets intro: READ16_holds)
  have "copy_in (ie_hopping_sequence_list j) m (p + 10) n =
      take n (ie_hopping_sequence_list i) @ drop n (ie_hopping_sequence_list j)"
    by (rule copy_in_holds [OF h(3)]) (simp add: n)
  with False h n(1) show ?thesis
    by (simp add: frame802154e_parse_mlme_long_ie_def got_hopping_def Let_def n_def)
qed

lemma parse_slotframe:
  assumes "slotframe_ok i" and "slotframe_ok j" and "holds m p (drop 2 (wire_slotframe i))"
  shows "frame802154e_parse_mlme_short_ie m p (slotframe_len (ie_tsch_slotframe_and_link i)) 0x1b j =
           (True, got_slotframe i j)"
proof -
  define sl where "sl = ie_tsch_slotframe_and_link i"
  define n where "n = unat (num_links sl)"
  have n: "n \<le> 4" "length (links sl) = 4" "length (links (ie_tsch_slotframe_and_link j)) = 4"
    using assms(1,2) unat_le [of "num_links sl" 4] by (simp_all add: slotframe_ok_def sl_def n_def)
  show ?thesis
  proof (cases "num_slotframes sl = 0")
    case True
    with assms(3) show ?thesis
      by (simp add: wire_slotframe_def wire16le_def frame802154e_parse_mlme_short_ie_def got_slotframe_def
          sl_def slotframe_len_def Let_def)
  next
    case False
    then have ns: "num_slotframes sl = 1"
      using byte_le_1 [of "num_slotframes sl"] assms(1) by (simp add: slotframe_ok_def sl_def)
    have "holds m p ([1, slotframe_handle sl] @ wire16le (slotframe_size sl) @ [num_links sl] @
               concat (map wire_link (take n (links sl))))"
      using assms(3) ns by (simp add: wire_slotframe_def wire16le_def sl_def n_def Let_def)
    then have h: "m p = 1" "m (p + 1) = slotframe_handle sl" "READ16 m (p + 2) = slotframe_size sl"
      "m (p + 4) = num_links sl" "holds m (p + 5) (concat (map wire_link (take n (links sl))))"
      by (auto simp: holds_append offsets intro: READ16_holds)
    have l: "read_link m p k = (\<lambda>ls. ls[k := \<lparr>timeslot = READ16 m (p + 5 + k * 5),
        channel_offset = READ16 m (p + 5 + k * 5 + 2), link_options = m (p + 5 + k * 5 + 4)\<rparr>])" for k
      by (simp add: read_link_def fun_eq_iff)
    have g: "\<lparr>timeslot = READ16 m (p + 5 + k * 5),
        channel_offset = READ16 m (p + 5 + k * 5 + 2), link_options = m (p + 5 + k * 5 + 4)\<rparr> = links sl ! k"
      if "k < n" for k
    proof -
      have "holds m (p + 5 + 5 * k) (wire_link (links sl ! k))"
        using holds_concat [of wire_link 5, OF length_wire_link h(5), of k] that n by simp
      then have a: "holds m (p + 5 + k * 5) (wire16le (timeslot (links sl ! k)))"
        and b: "holds m (p + 5 + k * 5 + 2) (wire16le (channel_offset (links sl ! k)))"
        and c: "m (p + 5 + k * 5 + 4) = link_options (links sl ! k)"
        by (simp_all add: wire_link_def holds_append mult.commute)
      show ?thesis unfolding READ16_holds [OF a] READ16_holds [OF b] c by simp
    qed
    have f: "fold (read_link m p) [0..<n] (links (ie_tsch_slotframe_and_link j)) =
        take n (links sl) @ drop n (links (ie_tsch_slotframe_and_link j))"
      unfolding l by (rule fold_list_update) (use n g in auto)
    have sl': "\<lparr>num_slotframes = 1, slotframe_handle = slotframe_handle sl, slotframe_size = slotframe_size sl,
        num_links = num_links sl, links = x\<rparr> = sl\<lparr>links := x\<rparr>" for x
      using ns by (cases sl) simp
    have len: "slotframe_len sl = 1 + 1 * (4 + 5 * n)" using False by (simp add: slotframe_len_def n_def)
    show ?thesis
      unfolding sl_def [symmetric] len frame802154e_parse_mlme_short_ie_def
      using h(1-4) n(1) f sl' False
      by (simp add: Let_def got_slotframe_def sl_def [symmetric] n_def [symmetric])
  qed
qed

lemma parse_ack:
  assumes "holds m p (drop 2 (wire_ack i))"
  shows "frame802154e_parse_header_ie m p 2 0x1e j =
    (True, j\<lparr>ie_is_nack := if ie_is_nack i \<noteq> 0 then 1 else 0,
              ie_time_correction := signed_take_bit 11 (ie_time_correction i)\<rparr>)"
proof -
  define f where "f = (ie_time_correction i AND 0x0fff) OR (if ie_is_nack i \<noteq> 0 then 0x8000 else 0)"
  have r: "READ16 m p = f"
    using assms by (intro READ16_holds) (simp add: wire_ack_def wire16le_def f_def)
  have mm: "(0x0fff :: u16) = mask 12" "(0x0800 :: u16) = push_bit 11 (mask 1)"
    "(0xf000 :: u16) = push_bit 12 (mask 4)" "(0x8000 :: u16) = push_bit 15 (mask 1)"
    by (simp_all add: mask_eq_exp_minus_1 push_bit_eq_mult)
  have b: "bit f n \<longleftrightarrow> (if n < 12 then bit (ie_time_correction i) n else n = 15 \<and> ie_is_nack i \<noteq> 0)" for n
    unfolding f_def mm by (auto simp: bit_simps bit_top16)
  have nack: "f AND 0x8000 \<noteq> 0 \<longleftrightarrow> ie_is_nack i \<noteq> 0"
    using and_exp_eq_0_iff_not_bit [of f 15] b [of 15] by simp
  have neg: "f AND 0x0800 \<noteq> 0 \<longleftrightarrow> bit (ie_time_correction i) 11"
    using and_exp_eq_0_iff_not_bit [of f 11] b [of 11] by simp
  have "(if f AND 0x0800 \<noteq> 0 then f OR 0xf000 else f AND 0x0fff) = signed_take_bit 11 (ie_time_correction i)"
    unfolding neg unfolding mm
    by (rule bit_word_eqI) (auto simp: bit_simps b min_def not_less le_eq_less_or_eq)
  with r nack show ?thesis
    by (simp add: frame802154e_parse_header_ie_def Let_def)
qed

text \<open>The step of the loop over one sub-element of either form.\<close>

definition past :: "nat \<Rightarrow> ieee802154_ies \<Rightarrow> ie_loop \<Rightarrow> ie_loop" where
  "past n i s = s\<lparr>pos := pos s + n, room := room s - n, nested_mlme_len := nested_mlme_len s - int n,
     mode := if nested_mlme_len s = int n then PARSING_PAYLOAD_IE else PARSING_MLME_SUBIE, ies := i\<rparr>"

lemma u16_and_small: "n < 2 ^ k \<Longrightarrow> k < 16 \<Longrightarrow> unat ((of_nat n :: u16) AND mask k) = n"
proof -
  assume a: "n < 2 ^ k" "k < 16"
  then have "(2 :: nat) ^ k \<le> 2 ^ 16" by (intro power_increasing) simp_all
  with a have "unat (of_nat n :: u16) = n" by (simp add: unat_of_nat)
  moreover have "(of_nat n :: u16) AND mask k = take_bit k (of_nat n)" by (simp add: take_bit_eq_mask)
  ultimately show ?thesis using a by (simp add: unsigned_take_bit_eq take_bit_nat_eq_self)
qed

lemma short_step:
  assumes "mode s = PARSING_MLME_SUBIE" and "holds m (pos s) (wire16le (short_desc i (of_nat n)))"
    and "n < 256" and "2 + n \<le> room s" and "int (2 + n) \<le> nested_mlme_len s"
    and "frame802154e_parse_mlme_short_ie m (pos s + 2) n (ucast (i AND 0x7f)) (ies s) = (True, j)"
  shows "ie_step m start s = Inr (past (2 + n) j s)"
proof -
  have d: "READ16 m (pos s) = short_desc i (of_nat n)" using assms(2) by (rule READ16_holds)
  have l: "unat (short_desc i (of_nat n) AND 0xff) = n"
    unfolding short_desc_fields(2) unfolding word_masks(1) using u16_and_small [of n 8] assms(3) by simp
  have e: "drop_bit 8 (short_desc i (of_nat n)) AND 0x7f = i AND 0x7f"
    using short_desc_fields(3) [of i "of_nat n"] by simp
  show ?thesis
    using assms(1,4,5,6) unfolding ie_step_def Let_def d
    by (simp add: mlme_subie_step_def Let_def short_desc_fields(1) l e past_def)
qed

lemma long_step:
  assumes "mode s = PARSING_MLME_SUBIE" and "holds m (pos s) (wire16le (long_desc i (of_nat n)))"
    and "n < 2048" and "2 + n \<le> room s" and "int (2 + n) \<le> nested_mlme_len s"
    and "frame802154e_parse_mlme_long_ie m (pos s + 2) n (ucast (i AND 0x0f)) (ies s) = (True, j)"
  shows "ie_step m start s = Inr (past (2 + n) j s)"
proof -
  have d: "READ16 m (pos s) = long_desc i (of_nat n)" using assms(2) by (rule READ16_holds)
  have l: "unat (long_desc i (of_nat n) AND 0x7ff) = n"
    unfolding long_desc_fields(1) unfolding word_masks(3) using u16_and_small [of n 11] assms(3) by simp
  have e: "drop_bit 11 (long_desc i (of_nat n)) AND 0x0f = i AND 0x0f"
    using long_desc_fields(2) [of i "of_nat n"] by simp
  show ?thesis
    using assms(1,4,5,6) long_desc_type [of i "of_nat n"] unfolding ie_step_def Let_def d
    by (simp add: mlme_subie_step_def Let_def l e past_def)
qed

lemma loop_go: "ie_step m start s = Inr t \<Longrightarrow> 0 < room s \<Longrightarrow> ie_loop_run m start s = ie_loop_run m start t"
  by (subst ie_loop_run.simps) simp

lemma loop_end: "room s = 0 \<Longrightarrow> mode s \<noteq> PARSING_HEADER_IE \<Longrightarrow> ie_loop_run m start s = (int (pos s - start), ies s)"
  by (subst ie_loop_run.simps) simp

definition ies_ok :: "ieee802154_ies \<Rightarrow> bool" where
  "ies_ok i \<longleftrightarrow> timeslot_ok i \<and> hopping_ok i \<and> slotframe_ok i"

definition sub_elements :: "ieee802154_ies \<Rightarrow> u8 list" where
  "sub_elements i = wire_sync i @ wire_timeslot i @ wire_hopping i @ wire_slotframe i"

definition beacon_elements :: "ieee802154_ies \<Rightarrow> u8 list" where
  "beacon_elements i = wire16le (header_desc 0x7e 0) @
     wire16le (long_desc 1 (of_nat (length (sub_elements i)))) @ sub_elements i"

definition got_all :: "ieee802154_ies \<Rightarrow> ieee802154_ies \<Rightarrow> ieee802154_ies" where
  "got_all i j = got_slotframe i (got_hopping i (got_timeslot i (got_sync i j)))"

lemma past_simps [simp]:
  "pos (past n i s) = pos s + n" "room (past n i s) = room s - n" "ies (past n i s) = i"
  "nested_mlme_len (past n i s) = nested_mlme_len s - int n"
  "mode (past n i s) = (if nested_mlme_len s = int n then PARSING_PAYLOAD_IE else PARSING_MLME_SUBIE)"
  by (simp_all add: past_def)

lemma slotframe_len_le: "slotframe_ok i \<Longrightarrow> slotframe_len (ie_tsch_slotframe_and_link i) \<le> 25"
  using unat_le [of "num_links (ie_tsch_slotframe_and_link i)" 4]
  by (auto simp: slotframe_ok_def slotframe_len_def)

lemma wire_lengths:
  "length (wire_sync i) = 2 + 6"
  "timeslot_ok i \<Longrightarrow> length (wire_timeslot i) = 2 + (if ie_tsch_timeslot_id i = 0 then 1 else 25)"
  "hopping_ok i \<Longrightarrow> length (wire_hopping i) =
     2 + (if ie_channel_hopping_sequence_id i = 0 then 1 else 12 + unat (ie_hopping_sequence_len i))"
  "slotframe_ok i \<Longrightarrow> length (wire_slotframe i) = 2 + slotframe_len (ie_tsch_slotframe_and_link i)"
proof -
  show "length (wire_sync i) = 2 + 6" by (simp add: wire_sync_def)
  show "timeslot_ok i \<Longrightarrow> length (wire_timeslot i) = 2 + (if ie_tsch_timeslot_id i = 0 then 1 else 25)"
    by (simp add: wire_timeslot_def timeslot_ok_def length_concat_const [where k = 2])
  show "hopping_ok i \<Longrightarrow> length (wire_hopping i) =
     2 + (if ie_channel_hopping_sequence_id i = 0 then 1 else 12 + unat (ie_hopping_sequence_len i))"
    using unat_le [of "ie_hopping_sequence_len i" 16] by (simp add: wire_hopping_def hopping_ok_def)
  show "slotframe_ok i \<Longrightarrow> length (wire_slotframe i) = 2 + slotframe_len (ie_tsch_slotframe_and_link i)"
    using unat_le [of "num_links (ie_tsch_slotframe_and_link i)" 4]
    by (simp add: wire_slotframe_def slotframe_ok_def slotframe_len_def Let_def length_concat_const [where k = 5])
qed

lemma hopping_len_le: "hopping_ok i \<Longrightarrow> unat (ie_hopping_sequence_len i) \<le> 16"
  using unat_le [of "ie_hopping_sequence_len i" 16] by (simp add: hopping_ok_def)

lemma sub_elements_length:
  assumes "ies_ok i"
  shows "length (sub_elements i) \<le> 92" and "14 \<le> length (sub_elements i)"
  using assms hopping_len_le [of i] slotframe_len_le [of i]
  by (auto simp: sub_elements_def wire_lengths ies_ok_def)

lemma got_ok:
  "timeslot_ok (got_sync i j) = timeslot_ok j" "hopping_ok (got_sync i j) = hopping_ok j"
  "slotframe_ok (got_sync i j) = slotframe_ok j"
  "hopping_ok (got_timeslot i j) = hopping_ok j" "slotframe_ok (got_timeslot i j) = slotframe_ok j"
  "slotframe_ok (got_hopping i j) = slotframe_ok j"
  by (simp_all add: got_sync_def got_timeslot_def got_hopping_def timeslot_ok_def hopping_ok_def
      slotframe_ok_def Let_def)

text \<open>The loop runs past each element that lies at its position.\<close>

definition in_mlme :: "mem \<Rightarrow> ie_loop \<Rightarrow> u8 list \<Rightarrow> bool" where
  "in_mlme m s w \<longleftrightarrow> mode s = PARSING_MLME_SUBIE \<and> holds m (pos s) w \<and> length w \<le> room s \<and>
     int (length w) \<le> nested_mlme_len s"

lemma in_mlme_split:
  assumes "in_mlme m s w" and "length w = 2 + n"
  shows "holds m (pos s) (take 2 w)" "holds m (pos s + 2) (drop 2 w)" "2 + n \<le> room s"
    "int (2 + n) \<le> nested_mlme_len s" "mode s = PARSING_MLME_SUBIE" "0 < room s"
  using assms holds_append [of m "pos s" "take 2 w" "drop 2 w"] by (simp_all add: in_mlme_def)

lemma in_mlme_append:
  "in_mlme m s (v @ w) \<Longrightarrow> w \<noteq> [] \<Longrightarrow> in_mlme m s v \<and> in_mlme m (past (length v) i s) w"
  by (auto simp: in_mlme_def holds_append)

lemma run_short:
  assumes "in_mlme m s w" and "length w = 2 + n" and "take 2 w = wire16le (short_desc i (of_nat n))" and "n < 256"
    and "frame802154e_parse_mlme_short_ie m (pos s + 2) n (ucast (i AND 0x7f)) (ies s) = (True, j)"
  shows "ie_loop_run m start s = ie_loop_run m start (past (length w) j s)"
  using in_mlme_split [OF assms(1,2)] short_step [of s m i n j start] assms(2-5)
  by (intro loop_go) simp_all

lemma run_long:
  assumes "in_mlme m s w" and "length w = 2 + n" and "take 2 w = wire16le (long_desc i (of_nat n))" and "n < 2048"
    and "frame802154e_parse_mlme_long_ie m (pos s + 2) n (ucast (i AND 0x0f)) (ies s) = (True, j)"
  shows "ie_loop_run m start s = ie_loop_run m start (past (length w) j s)"
  using in_mlme_split [OF assms(1,2)] long_step [of s m i n j start] assms(2-5)
  by (intro loop_go) simp_all

lemma run_sync:
  assumes "in_mlme m s (wire_sync i)"
  shows "ie_loop_run m start s = ie_loop_run m start (past (length (wire_sync i)) (got_sync i (ies s)) s)"
  using parse_sync [OF in_mlme_split(2) [OF assms wire_lengths(1)], of "ies s"]
  by (intro run_short [OF assms wire_lengths(1), where i = "0x1a"]) (simp_all add: wire_sync_def)

lemma run_timeslot:
  assumes "in_mlme m s (wire_timeslot i)" and "timeslot_ok i" and "timeslot_ok (ies s)"
  shows "ie_loop_run m start s = ie_loop_run m start (past (length (wire_timeslot i)) (got_timeslot i (ies s)) s)"
  using parse_timeslot [OF assms(2,3) in_mlme_split(2) [OF assms(1) wire_lengths(2) [OF assms(2)]]]
  by (intro run_short [OF assms(1) wire_lengths(2) [OF assms(2)], where i = "0x1c"])
    (simp_all add: wire_timeslot_def split: if_splits)

lemma run_hopping:
  assumes "in_mlme m s (wire_hopping i)" and "hopping_ok i" and "hopping_ok (ies s)"
  shows "ie_loop_run m start s = ie_loop_run m start (past (length (wire_hopping i)) (got_hopping i (ies s)) s)"
  using parse_hopping [OF assms(2,3) in_mlme_split(2) [OF assms(1) wire_lengths(3) [OF assms(2)]]]
    hopping_len_le [OF assms(2)]
  by (intro run_long [OF assms(1) wire_lengths(3) [OF assms(2)], where i = 9])
    (simp_all add: wire_hopping_def split: if_splits)

lemma run_slotframe:
  assumes "in_mlme m s (wire_slotframe i)" and "slotframe_ok i" and "slotframe_ok (ies s)"
  shows "ie_loop_run m start s = ie_loop_run m start (past (length (wire_slotframe i)) (got_slotframe i (ies s)) s)"
  using parse_slotframe [OF assms(2,3) in_mlme_split(2) [OF assms(1) wire_lengths(4) [OF assms(2)]]]
    slotframe_len_le [OF assms(2)]
  by (intro run_short [OF assms(1) wire_lengths(4) [OF assms(2)], where i = "0x1b"])
    (simp_all add: wire_slotframe_def Let_def)

lemma run_sub_elements:
  assumes "ies_ok i" and "ies_ok (ies s)" and "in_mlme m s (sub_elements i)"
    and "room s = length (sub_elements i)" and "nested_mlme_len s = int (length (sub_elements i))"
  shows "ie_loop_run m start s = (int (pos s + length (sub_elements i) - start), got_all i (ies s))"
proof -
  have ok: "timeslot_ok i" "hopping_ok i" "slotframe_ok i"
    "timeslot_ok (ies s)" "hopping_ok (ies s)" "slotframe_ok (ies s)"
    using assms(1,2) by (simp_all add: ies_ok_def)
  define s1 where "s1 = past (length (wire_sync i)) (got_sync i (ies s)) s"
  define s2 where "s2 = past (length (wire_timeslot i)) (got_timeslot i (ies s1)) s1"
  define s3 where "s3 = past (length (wire_hopping i)) (got_hopping i (ies s2)) s2"
  define s4 where "s4 = past (length (wire_slotframe i)) (got_slotframe i (ies s3)) s3"
  have ne: "wire_timeslot i \<noteq> []" "wire_hopping i \<noteq> []" "wire_slotframe i \<noteq> []"
    using wire_lengths(2) [OF ok(1)] wire_lengths(3) [OF ok(2)] wire_lengths(4) [OF ok(3)] by auto
  have 1: "in_mlme m s (wire_sync i)" "in_mlme m s1 (wire_timeslot i @ wire_hopping i @ wire_slotframe i)"
    using in_mlme_append [OF assms(3) [unfolded sub_elements_def]] ne by (auto simp: s1_def)
  have 2: "in_mlme m s1 (wire_timeslot i)" "in_mlme m s2 (wire_hopping i @ wire_slotframe i)"
    using in_mlme_append [OF 1(2)] ne by (auto simp: s2_def)
  have 3: "in_mlme m s2 (wire_hopping i)" "in_mlme m s3 (wire_slotframe i)"
    using in_mlme_append [OF 2(2)] ne by (auto simp: s3_def)
  have i: "ies s1 = got_sync i (ies s)" "ies s2 = got_timeslot i (ies s1)" "ies s3 = got_hopping i (ies s2)"
    by (simp_all add: s1_def s2_def s3_def)
  have "ie_loop_run m start s = ie_loop_run m start s4"
    using run_sync [OF 1(1)] run_timeslot [OF 2(1) ok(1)] run_hopping [OF 3(1) ok(2)] run_slotframe [OF 3(2) ok(3)] ok
    by (simp add: i got_ok s1_def [symmetric] s2_def [symmetric] s3_def [symmetric] s4_def [symmetric])
      (simp add: s1_def s2_def s3_def s4_def got_ok)
  moreover have "ie_loop_run m start s4 = (int (pos s4 - start), ies s4)"
    using assms(4,5) 3(2) by (intro loop_end) (auto simp: s4_def s3_def s2_def s1_def sub_elements_def in_mlme_def)
  ultimately show ?thesis
    by (simp add: s4_def s3_def s2_def s1_def got_all_def sub_elements_def add.assoc)
qed

text \<open>The elements of a beacon: the end of the header elements, then one nested element.\<close>

lemma loop_stop: "ie_step m start s = Inl r \<Longrightarrow> 0 < room s \<Longrightarrow> ie_loop_run m start s = r"
  by (subst ie_loop_run.simps) simp

lemma term_step:
  assumes "mode s = PARSING_HEADER_IE" and "holds m (pos s) (wire16le (header_desc 0x7e 0))" and "2 \<le> room s"
  shows "ie_step m start s = Inr (s\<lparr>mode := PARSING_PAYLOAD_IE, pos := pos s + 2, room := room s - 2,
           ies := (ies s)\<lparr>ie_payload_ie_offset := of_nat (pos s + 2 - start)\<rparr>\<rparr>)"
proof -
  have d: "READ16 m (pos s) = header_desc 0x7e 0" using assms(2) by (rule READ16_holds)
  have e: "header_desc 0x7e 0 = 0x3f00" by (simp add: header_desc_def)
  show ?thesis
    using assms(1,3) unfolding ie_step_def Let_def d e
    by (simp add: header_ie_step_def Let_def)
qed

lemma mlme_step:
  assumes "mode s = PARSING_PAYLOAD_IE" and "holds m (pos s) (wire16le (long_desc 1 (of_nat n)))"
    and "2 \<le> room s" and "n < 2048"
  shows "ie_step m start s = Inr (s\<lparr>mode := PARSING_MLME_SUBIE, pos := pos s + 2, room := room s - 2,
           nested_mlme_len := int n\<rparr>)"
proof -
  have d: "READ16 m (pos s) = long_desc 1 (of_nat n)" using assms(2) by (rule READ16_holds)
  have l: "unat (long_desc 1 (of_nat n) AND 0x7ff) = n"
    unfolding long_desc_fields(1) unfolding word_masks(3) using u16_and_small [of n 11] assms(4) by simp
  have e: "drop_bit 11 (long_desc 1 (of_nat n)) AND 0x0f = 1"
    using long_desc_fields(2) [of 1 "of_nat n"] by simp
  show ?thesis
    using assms(1,3) long_desc_type [of 1 "of_nat n"] unfolding ie_step_def Let_def d
    by (simp add: payload_ie_step_def Let_def l e)
qed

lemma parse_beacon_elements:
  assumes "ies_ok i" and "ies_ok j" and "holds m b (beacon_elements i)"
  shows "frame802154e_parse_information_elements m b (of_nat (length (beacon_elements i))) j =
    (int (length (beacon_elements i)), got_all i (j\<lparr>ie_payload_ie_offset := 2\<rparr>))"
proof -
  define n where "n = length (sub_elements i)"
  have n: "n \<le> 92" "14 \<le> n" using sub_elements_length [OF assms(1)] by (simp_all add: n_def)
  have l: "length (beacon_elements i) = n + 4" by (simp add: beacon_elements_def n_def)
  have r: "unat (of_nat (n + 4) :: u8) = n + 4" using n by (simp add: unat_of_nat del: of_nat_add)
  have h: "holds m b (wire16le (header_desc 0x7e 0))" "holds m (b + 2) (wire16le (long_desc 1 (of_nat n)))"
    "holds m (b + 4) (sub_elements i)"
    using assms(3) by (simp_all add: beacon_elements_def holds_append n_def offsets)
  define s0 where "s0 = \<lparr>mode = PARSING_HEADER_IE, pos = b, room = n + 4, nested_mlme_len = 0,
      ies = j\<lparr>ie_payload_ie_offset := 0\<rparr>\<rparr>"
  define s1 where "s1 = \<lparr>mode = PARSING_PAYLOAD_IE, pos = b + 2, room = n + 2, nested_mlme_len = 0,
      ies = j\<lparr>ie_payload_ie_offset := 2\<rparr>\<rparr>"
  define s2 where "s2 = \<lparr>mode = PARSING_MLME_SUBIE, pos = b + 4, room = n, nested_mlme_len = int n,
      ies = j\<lparr>ie_payload_ie_offset := 2\<rparr>\<rparr>"
  have "ie_step m b s0 = Inr s1"
    using term_step [of s0 m b] h(1) by (simp add: s0_def s1_def)
  then have 1: "ie_loop_run m b s0 = ie_loop_run m b s1" by (intro loop_go) (simp_all add: s0_def)
  have "ie_step m b s1 = Inr s2"
    using mlme_step [of s1 m n b] h(2) n by (simp add: s1_def s2_def offsets)
  then have 2: "ie_loop_run m b s1 = ie_loop_run m b s2" by (intro loop_go) (simp_all add: s1_def)
  have "ies_ok (ies s2)" using assms(2) by (simp add: s2_def ies_ok_def timeslot_ok_def hopping_ok_def slotframe_ok_def)
  then have "ie_loop_run m b s2 = (int (n + 4), got_all i (j\<lparr>ie_payload_ie_offset := 2\<rparr>))"
    using run_sub_elements [OF assms(1), of s2 m b] h(3) by (simp add: s2_def in_mlme_def n_def)
  then show ?thesis
    unfolding frame802154e_parse_information_elements_def l r s0_def [symmetric] 1 2 .
qed

section \<open>Properties\<close>

lemma step_result:
  assumes "ie_step m start s = Inl (r, i)"
  shows "r = - 1 \<or> 2 \<le> room s \<and> r = int (pos s + 2 - start)"
  using assms
  by (auto simp: ie_step_def header_ie_step_def payload_ie_step_def mlme_subie_step_def Let_def
      split: if_splits ie_mode.splits prod.splits)

lemma loop_result:
  assumes "start \<le> pos s"
  shows "fst (ie_loop_run m start s) = - 1 \<or>
    0 \<le> fst (ie_loop_run m start s) \<and> fst (ie_loop_run m start s) \<le> int (pos s + room s - start)"
  using assms
proof (induction m start s rule: ie_loop_run.induct)
  case (1 m start s)
  show ?case
  proof (cases "0 < room s")
    case False
    then show ?thesis by (subst ie_loop_run.simps) (simp, subst ie_loop_run.simps, simp)
  next
    case True
    show ?thesis
    proof (cases "ie_step m start s")
      case (Inl r)
      then show ?thesis
        using step_result [of m start s "fst r" "snd r"] loop_stop [OF Inl True] 1(2) by auto
    next
      case (Inr t)
      then show ?thesis
        using 1(1) [OF True Inr] ie_step_room [OF Inr] loop_go [OF Inr True] 1(2) by auto
    qed
  qed
qed

text \<open>C40: Whatever the bytes are, the parser of the information elements ends, and it reports an
  error or a number of bytes that lies inside the buffer it was given.\<close>

theorem ie_parse_stays_inside:
  "fst (frame802154e_parse_information_elements m b bsize j) = - 1 \<or>
   0 \<le> fst (frame802154e_parse_information_elements m b bsize j) \<and>
   fst (frame802154e_parse_information_elements m b bsize j) \<le> int (unat bsize)"
  using loop_result [of b "\<lparr>mode = PARSING_HEADER_IE, pos = b, room = unat bsize, nested_mlme_len = 0,
      ies = j\<lparr>ie_payload_ie_offset := 0\<rparr>\<rparr>" m]
  by (simp add: frame802154e_parse_information_elements_def)

text \<open>The writer of the hopping sequence element checks the length of the short form when the
  sequence identifier is 0, and then writes all the fields of the long form: with three bytes of
  room it stores the sequence from the thirteenth byte on.\<close>

theorem hopping_writes_past_end:
  assumes "ie_channel_hopping_sequence_id i = 0" and "n \<le> 16" and "n = unat (ie_hopping_sequence_len i)"
    and "n \<le> length (ie_hopping_sequence_list i)" and "3 \<le> len"
  shows "\<exists>m'. frame80215e_create_ie_tsch_channel_hopping_sequence m b len (Some i) = Some (m', 3) \<and>
           m' (b + 3) = 0 \<and> (\<forall>k < n. m' (b + 12 + k) = ie_hopping_sequence_list i ! k) \<and> m' (b + 13 + n) = 0"
  using assms
  by (simp add: frame80215e_create_ie_tsch_channel_hopping_sequence_def Let_def WRITE16_blit wire16le_def
      create_mlme_long_ie_descriptor_def blit_def nth_Cons')

definition zero_ies :: ieee802154_ies where
  "zero_ies = \<lparr>ie_time_correction = 0, ie_is_nack = 0, ie_payload_ie_offset = 0, ie_mlme_len = 0,
     ie_asn = \<lparr>ls4b = 0, ms1b = 0\<rparr>, ie_join_priority = 0, ie_tsch_timeslot_id = 0,
     ie_tsch_timeslot = replicate 12 0,
     ie_tsch_slotframe_and_link = \<lparr>num_slotframes = 0, slotframe_handle = 0, slotframe_size = 0,
       num_links = 0, links = replicate 4 \<lparr>timeslot = 0, channel_offset = 0, link_options = 0\<rparr>\<rparr>,
     ie_channel_hopping_sequence_id = 0, ie_hopping_sequence_len = 0,
     ie_hopping_sequence_list = replicate 16 0\<rparr>"

theorem hopping_writes_past_end_witness:
  "\<exists>m'. frame80215e_create_ie_tsch_channel_hopping_sequence (\<lambda>_. 7) 0 3 (Some zero_ies) = Some (m', 3) \<and>
     m' 3 = 0 \<and> m' 13 = 0"
proof -
  have z: "ie_channel_hopping_sequence_id zero_ies = 0" "(0 :: nat) = unat (ie_hopping_sequence_len zero_ies)"
    "0 \<le> length (ie_hopping_sequence_list zero_ies)"
    by (simp_all add: zero_ies_def)
  from hopping_writes_past_end [OF z(1) _ z(2,3), of 3 "\<lambda>_. 7" 0] show ?thesis by auto
qed

text \<open>The parser takes the length of the hopping sequence from the element before it checks it,
  and keeps it when the check fails: an element of two bytes is accepted, its length field is read
  from behind it, and a length beyond the 16 bytes of the list stays in the structure.\<close>

theorem hopping_length_unchecked:
  assumes "1 < len" and "16 < unat (READ16 m (p + 8))"
  shows "frame802154e_parse_mlme_long_ie m p len 9 j =
           (True, j\<lparr>ie_channel_hopping_sequence_id := m p, ie_hopping_sequence_len := READ16 m (p + 8)\<rparr>)"
  using assms by (simp add: frame802154e_parse_mlme_long_ie_def Let_def)

theorem hopping_length_unchecked_witness:
  "ie_hopping_sequence_len (snd (frame802154e_parse_mlme_long_ie (\<lambda>_. 0xff) 0 2 9 zero_ies)) = 0xffff"
proof -
  have r: "READ16 (\<lambda>_. 0xff) (0 + 8) = 0xffff" by (simp add: READ16_def)
  then have "16 < unat (READ16 (\<lambda>_. 0xff) (0 + 8))" by simp
  from hopping_length_unchecked [OF _ this, of 2 zero_ies] r show ?thesis by simp
qed

end
