(* ===== verification/Framer802154.thy ===== *)
theory Framer802154
  imports Frame802154 Packetbuf
begin

text \<open>
  The framer of the IEEE 802.15.4 link layer, \<open>core/net/mac/framer-802154.c\<close>: it puts the header of a
  frame in front of the packet in the packet buffer, from the attributes and addresses that the
  upper layers set, and takes it off a received packet. The options of the build are a record; the
  enumeration of the attributes in \<open>packetbuf.h\<close> depends on them. \<open>random_rand\<close> is the argument
  \<open>rnd\<close>, and \<open>frame0\<close> is what the uninitialised local structure of \<open>parse\<close> holds.
\<close>

section \<open>The code\<close>

record framer_config =
  frame_conf :: frame_config
  FRAME802154_VERSION :: u8
  FRAME802154_SUPPR_SEQNO :: u8
  LLSEC802154_USES_FRAME_COUNTER :: bool
  TSCH_WITH_LINK_SELECTOR :: bool
  PACKETBUF_WITH_PACKET_TYPE :: bool
  NETSTACK_CONF_WITH_RIME :: bool
  PACKETBUF_SIZE :: nat

datatype attr_name =
    ATTR_NONE | ATTR_CHANNEL | ATTR_NETWORK_ID | ATTR_LINK_QUALITY | ATTR_RSSI | ATTR_TIMESTAMP
  | ATTR_RADIO_TXPOWER | ATTR_LISTEN_TIME | ATTR_TRANSMIT_TIME | ATTR_MAX_MAC_TRANSMISSIONS
  | ATTR_MAC_SEQNO | ATTR_MAC_ACK | ATTR_IS_CREATED_AND_SECURED | ATTR_TSCH_SLOTFRAME
  | ATTR_TSCH_TIMESLOT | ATTR_PACKET_TYPE | ATTR_PACKET_ID | ATTR_RELIABLE | ATTR_REXMIT
  | ATTR_MAX_REXMIT | ATTR_NUM_REXMIT | ATTR_PENDING | ATTR_FRAME_TYPE | ATTR_SECURITY_LEVEL
  | ATTR_FRAME_COUNTER_BYTES_0_1 | ATTR_FRAME_COUNTER_BYTES_2_3 | ATTR_KEY_ID_MODE | ATTR_KEY_INDEX
  | ATTR_KEY_SOURCE_BYTES_0_1 | ATTR_HOPS | ATTR_TTL | ATTR_EPACKET_ID | ATTR_EPACKET_TYPE
  | ATTR_ERELIABLE

definition attr_enum :: "framer_config \<Rightarrow> attr_name list" where
  "attr_enum c =
     [ATTR_NONE, ATTR_CHANNEL, ATTR_NETWORK_ID, ATTR_LINK_QUALITY, ATTR_RSSI, ATTR_TIMESTAMP,
      ATTR_RADIO_TXPOWER, ATTR_LISTEN_TIME, ATTR_TRANSMIT_TIME, ATTR_MAX_MAC_TRANSMISSIONS,
      ATTR_MAC_SEQNO, ATTR_MAC_ACK, ATTR_IS_CREATED_AND_SECURED] @
     (if TSCH_WITH_LINK_SELECTOR c then [ATTR_TSCH_SLOTFRAME, ATTR_TSCH_TIMESLOT] else []) @
     (if PACKETBUF_WITH_PACKET_TYPE c then [ATTR_PACKET_TYPE] else []) @
     (if NETSTACK_CONF_WITH_RIME c
      then [ATTR_PACKET_ID, ATTR_RELIABLE, ATTR_REXMIT, ATTR_MAX_REXMIT, ATTR_NUM_REXMIT] else []) @
     [ATTR_PENDING, ATTR_FRAME_TYPE] @
     (if LLSEC802154_USES_AUX_HEADER (frame_conf c) then [ATTR_SECURITY_LEVEL] else []) @
     (if LLSEC802154_USES_FRAME_COUNTER c
      then [ATTR_FRAME_COUNTER_BYTES_0_1, ATTR_FRAME_COUNTER_BYTES_2_3] else []) @
     (if LLSEC802154_USES_EXPLICIT_KEYS (frame_conf c)
      then [ATTR_KEY_ID_MODE, ATTR_KEY_INDEX, ATTR_KEY_SOURCE_BYTES_0_1] else []) @
     (if NETSTACK_CONF_WITH_RIME c
      then [ATTR_HOPS, ATTR_TTL, ATTR_EPACKET_ID, ATTR_EPACKET_TYPE, ATTR_ERELIABLE] else [])"

definition attr_no :: "framer_config \<Rightarrow> attr_name \<Rightarrow> nat" where
  "attr_no c a = length (takeWhile (\<lambda>b. b \<noteq> a) (attr_enum c))"

definition PACKETBUF_ADDR_SENDER :: "framer_config \<Rightarrow> nat" where
  "PACKETBUF_ADDR_SENDER c = length (attr_enum c)"

definition PACKETBUF_ADDR_RECEIVER :: "framer_config \<Rightarrow> nat" where
  "PACKETBUF_ADDR_RECEIVER c = PACKETBUF_ADDR_SENDER c + 1"

abbreviation get_attr :: "framer_config \<Rightarrow> attr_name \<Rightarrow> packetbuf_state \<Rightarrow> u16" where
  "get_attr c a s \<equiv> packetbuf_attr (attr_no c a) s"

abbreviation put_attr :: "framer_config \<Rightarrow> attr_name \<Rightarrow> u16 \<Rightarrow> packetbuf_state \<Rightarrow> packetbuf_state" where
  "put_attr c a v s \<equiv> packetbuf_set_attr (attr_no c a) v s"

abbreviation get_address :: "framer_config \<Rightarrow> nat \<Rightarrow> packetbuf_state \<Rightarrow> linkaddr_t" where
  "get_address c type s \<equiv> packetbuf_addr (PACKETBUF_ADDR_SENDER c) type s"

abbreviation put_address :: "framer_config \<Rightarrow> nat \<Rightarrow> linkaddr_t \<Rightarrow> packetbuf_state \<Rightarrow> packetbuf_state" where
  "put_address c type a s \<equiv> packetbuf_set_addr (LINKADDR_SIZE (frame_conf c)) (PACKETBUF_ADDR_SENDER c) type a s"

record framer_state =
  pb :: packetbuf_state
  mac_dsn :: u8
  dsn_initialized :: bool
  mac_pan_id :: u16

definition bytes16 :: "u16 \<Rightarrow> u8 list" where
  "bytes16 w = [ucast w, ucast (drop_bit 8 w)]"

text \<open>The fields of the header that do not depend on the sequence number.\<close>

definition security_params :: "framer_config \<Rightarrow> packetbuf_state \<Rightarrow> frame802154_t \<Rightarrow> frame802154_t" where
  "security_params c s p =
     (if LLSEC802154_USES_AUX_HEADER (frame_conf c) then
        let p1 = (if get_attr c ATTR_SECURITY_LEVEL s \<noteq> 0
                  then p\<lparr>fcf := (fcf p)\<lparr>security_enabled := 1\<rparr>\<rparr> else p);
            scf = (security_control (aux_hdr p1))\<lparr>security_level := ucast (get_attr c ATTR_SECURITY_LEVEL s)\<rparr>;
            a1 = (aux_hdr p1)\<lparr>security_control := scf\<rparr>;
            a2 = (if LLSEC802154_USES_FRAME_COUNTER c
                  then a1\<lparr>frame_counter := bytes16 (get_attr c ATTR_FRAME_COUNTER_BYTES_0_1 s) @
                                          bytes16 (get_attr c ATTR_FRAME_COUNTER_BYTES_2_3 s)\<rparr>
                  else a1\<lparr>security_control := scf\<lparr>frame_counter_suppression := 1, frame_counter_size := 1\<rparr>\<rparr>);
            a3 = (if LLSEC802154_USES_EXPLICIT_KEYS (frame_conf c)
                  then a2\<lparr>security_control := (security_control a2)\<lparr>key_id_mode := ucast (get_attr c ATTR_KEY_ID_MODE s)\<rparr>,
                          key_index := ucast (get_attr c ATTR_KEY_INDEX s),
                          key_source := bytes16 (get_attr c ATTR_KEY_SOURCE_BYTES_0_1 s) @ drop 2 (key_source a2)\<rparr>
                  else a2)
        in p1\<lparr>aux_hdr := a3\<rparr>
      else p)"

definition fcf_params :: "framer_config \<Rightarrow> packetbuf_state \<Rightarrow> frame802154_t" where
  "fcf_params c s =
     (let bc = packetbuf_holds_broadcast (LINKADDR_SIZE (frame_conf c)) s
      in security_params c s
        (zero_frame\<lparr>fcf := (fcf zero_frame)\<lparr>
           frame_type := ucast (get_attr c ATTR_FRAME_TYPE s),
           frame_pending := ucast (get_attr c ATTR_PENDING s),
           ack_required := (if bc then 0 else ucast (get_attr c ATTR_MAC_ACK s)),
           sequence_number_suppression :=
             (if bc then if FRAME802154_VERSION c \<ge> FRAME802154_IEEE802154E_2012 then 1 else 0
              else FRAME802154_SUPPR_SEQNO c),
           panid_compression := 0,
           frame_version := FRAME802154_VERSION c\<rparr>\<rparr>))"

text \<open>The sequence number: that of the packet, or the next one of the node, which is never 0.\<close>

definition next_seqno ::
    "framer_config \<Rightarrow> bool \<Rightarrow> frame802154_t \<Rightarrow> framer_state \<Rightarrow> frame802154_t \<times> framer_state" where
  "next_seqno c do_create p st =
     (if \<not> do_create then (p, st)
      else if get_attr c ATTR_MAC_SEQNO (pb st) \<noteq> 0 then (p\<lparr>seq := ucast (get_attr c ATTR_MAC_SEQNO (pb st))\<rparr>, st)
      else
        let dsn = (if mac_dsn st = 0 then mac_dsn st + 1 else mac_dsn st)
        in (p\<lparr>seq := dsn\<rparr>,
            st\<lparr>mac_dsn := dsn + 1, pb := put_attr c ATTR_MAC_SEQNO (ucast dsn) (pb st)\<rparr>))"

definition address_params :: "framer_config \<Rightarrow> framer_state \<Rightarrow> frame802154_t \<Rightarrow> frame802154_t" where
  "address_params c st p =
     (let la = LINKADDR_SIZE (frame_conf c); s = pb st;
          own_mode = (if la = 2 then FRAME802154_SHORTADDRMODE else FRAME802154_LONGADDRMODE);
          p1 = p\<lparr>fcf := (fcf p)\<lparr>src_addr_mode := own_mode\<rparr>, dest_pid := frame802154_get_pan_id (mac_pan_id st)\<rparr>;
          p2 = (if packetbuf_holds_broadcast la s
                then p1\<lparr>fcf := (fcf p1)\<lparr>dest_addr_mode := FRAME802154_SHORTADDRMODE\<rparr>,
                        dest_addr := (dest_addr p1)[0 := 0xff, 1 := 0xff]\<rparr>
                else p1\<lparr>fcf := (fcf p1)\<lparr>dest_addr_mode := own_mode\<rparr>,
                        dest_addr := linkaddr_copy la (dest_addr p1) (get_address c (PACKETBUF_ADDR_RECEIVER c) s)\<rparr>)
      in p2\<lparr>src_pid := frame802154_get_pan_id (mac_pan_id st),
            src_addr := linkaddr_copy la (src_addr p2) (get_address c (PACKETBUF_ADDR_SENDER c) s),
            payload := packetbuf_dataptr s, payload_len := int (unat (packetbuf_datalen s))\<rparr>)"

definition FRAMER_FAILED :: int where
  "FRAMER_FAILED = - 1"

definition create_frame ::
    "framer_config \<Rightarrow> u16 \<Rightarrow> u8 \<Rightarrow> bool \<Rightarrow> framer_state \<Rightarrow> (int \<times> framer_state) option" where
  "create_frame c rnd type do_create st0 =
     (if frame802154_get_pan_id (mac_pan_id st0) = 0xffff then Some (- 1, st0)
      else
        let st1 = (if \<not> dsn_initialized st0
                   then st0\<lparr>dsn_initialized := True, mac_dsn := ucast (rnd AND 0xff)\<rparr> else st0);
            (p1, st2) = next_seqno c do_create (fcf_params c (pb st1)) st1;
            (p, hdr_len) = frame802154_hdrlen (frame_conf c) (address_params c st2 p1)
        in if \<not> do_create then Some (int hdr_len, st2)
           else
             (case packetbuf_hdralloc (PACKETBUF_SIZE c) (of_nat hdr_len) (pb st2) of
                None \<Rightarrow> None
              | Some (ok, s) \<Rightarrow>
                  if ok then
                    (case frame802154_create (frame_conf c) p
                            (\<lambda>a. packetbuf s (packetbuf_hdrptr s + a)) of
                       None \<Rightarrow> None
                     | Some (_, m, _) \<Rightarrow>
                         Some (int hdr_len,
                               st2\<lparr>pb := s\<lparr>packetbuf := (\<lambda>a. if a < packetbuf_hdrptr s then packetbuf s a
                                                           else m (a - packetbuf_hdrptr s))\<rparr>\<rparr>))
                  else Some (FRAMER_FAILED, st2\<lparr>pb := s\<rparr>)))"

abbreviation "FRAME802154_DATAFRAME \<equiv> (1 :: u8)"

definition hdr_length :: "framer_config \<Rightarrow> u16 \<Rightarrow> framer_state \<Rightarrow> (int \<times> framer_state) option" where
  "hdr_length c rnd st = create_frame c rnd FRAME802154_DATAFRAME False st"

definition create :: "framer_config \<Rightarrow> u16 \<Rightarrow> framer_state \<Rightarrow> (int \<times> framer_state) option" where
  "create c rnd st = create_frame c rnd FRAME802154_DATAFRAME True st"

definition parse_security :: "framer_config \<Rightarrow> frame802154_t \<Rightarrow> packetbuf_state \<Rightarrow> packetbuf_state" where
  "parse_security c frame s =
     (if LLSEC802154_USES_AUX_HEADER (frame_conf c) \<and> security_enabled (fcf frame) \<noteq> 0 then
        let a = aux_hdr frame;
            s1 = put_attr c ATTR_SECURITY_LEVEL (ucast (security_level (security_control a))) s;
            s2 = (if LLSEC802154_USES_FRAME_COUNTER c
                  then put_attr c ATTR_FRAME_COUNTER_BYTES_2_3 (rd16 ((!) (frame_counter a)) 2)
                         (put_attr c ATTR_FRAME_COUNTER_BYTES_0_1 (rd16 ((!) (frame_counter a)) 0) s1)
                  else s1)
        in (if LLSEC802154_USES_EXPLICIT_KEYS (frame_conf c)
            then put_attr c ATTR_KEY_SOURCE_BYTES_0_1 (rd16 ((!) (key_source a)) 0)
                   (put_attr c ATTR_KEY_INDEX (ucast (key_index a))
                     (put_attr c ATTR_KEY_ID_MODE (ucast (key_id_mode (security_control a))) s2))
            else s2)
      else s)"

definition parse_fields :: "framer_config \<Rightarrow> frame802154_t \<Rightarrow> packetbuf_state \<Rightarrow> packetbuf_state" where
  "parse_fields c frame s =
     (let s1 = put_address c (PACKETBUF_ADDR_SENDER c) (src_addr frame) s;
          s2 = put_attr c ATTR_PENDING (ucast (frame_pending (fcf frame))) s1;
          s3 = (if sequence_number_suppression (fcf frame) = 0
                then put_attr c ATTR_MAC_SEQNO (ucast (seq frame)) s2
                else put_attr c ATTR_MAC_SEQNO 0xffff s2);
          s4 = (if NETSTACK_CONF_WITH_RIME c then put_attr c ATTR_PACKET_ID (ucast (seq frame)) s3 else s3)
      in parse_security c frame s4)"

definition parse :: "framer_config \<Rightarrow> frame802154_t \<Rightarrow> framer_state \<Rightarrow> int \<times> framer_state" where
  "parse c frame0 st =
     (let s = pb st;
          (hdr_len, frame) = frame802154_parse (frame_conf c) (\<lambda>a. packetbuf s (packetbuf_dataptr s + a))
                               (int (unat (packetbuf_datalen s))) frame0;
          (reduced, s1) = (if hdr_len \<noteq> 0 then packetbuf_hdrreduce (of_nat hdr_len) s else (False, s))
      in if hdr_len \<noteq> 0 \<and> reduced then
           let s2 = put_attr c ATTR_FRAME_TYPE (ucast (frame_type (fcf frame))) s1
           in if dest_addr_mode (fcf frame) \<noteq> 0 \<and>
                 dest_pid frame \<noteq> frame802154_get_pan_id (mac_pan_id st) \<and>
                 dest_pid frame \<noteq> FRAME802154_BROADCASTPANDID
              then (FRAMER_FAILED, st\<lparr>pb := s2\<rparr>)
              else
                let s3 = (if dest_addr_mode (fcf frame) \<noteq> 0 \<and>
                             \<not> frame802154_is_broadcast_addr (dest_addr_mode (fcf frame)) (dest_addr frame)
                          then put_address c (PACKETBUF_ADDR_RECEIVER c) (dest_addr frame) s2 else s2)
                in (int hdr_len, st\<lparr>pb := parse_fields c frame s3\<rparr>)
         else (FRAMER_FAILED, st\<lparr>pb := s1\<rparr>))"

section \<open>Attributes and addresses\<close>

lemma attr_enum_at: "a \<in> set (attr_enum c) \<Longrightarrow> attr_enum c ! attr_no c a = a \<and> attr_no c a < length (attr_enum c)"
  unfolding attr_no_def
proof -
  assume a: "a \<in> set (attr_enum c)"
  then have l: "length (takeWhile (\<lambda>b. b \<noteq> a) (attr_enum c)) < length (attr_enum c)"
    by (metis (mono_tags, lifting) length_takeWhile_le nless_le takeWhile_eq_all_conv takeWhile_eq_take take_all_iff)
  with nth_length_takeWhile [OF l] show "attr_enum c ! length (takeWhile (\<lambda>b. b \<noteq> a) (attr_enum c)) = a \<and>
      length (takeWhile (\<lambda>b. b \<noteq> a) (attr_enum c)) < length (attr_enum c)" by simp
qed

lemma attr_no_inj: "a \<in> set (attr_enum c) \<Longrightarrow> b \<in> set (attr_enum c) \<Longrightarrow> attr_no c a = attr_no c b \<longleftrightarrow> a = b"
  using attr_enum_at by metis

text \<open>The attributes and addresses of the packet buffer are those that the enumeration names.\<close>

definition pb_shape :: "framer_config \<Rightarrow> packetbuf_state \<Rightarrow> bool" where
  "pb_shape c s \<longleftrightarrow> length (packetbuf_attrs s) = length (attr_enum c) \<and> 2 \<le> length (packetbuf_addrs s) \<and>
     (\<forall>a \<in> set (packetbuf_addrs s). length a = LINKADDR_SIZE (frame_conf c))"

definition common_attrs :: "attr_name set" where
  "common_attrs = {ATTR_MAC_SEQNO, ATTR_MAC_ACK, ATTR_PENDING, ATTR_FRAME_TYPE}"

lemma common_in: "a \<in> common_attrs \<Longrightarrow> a \<in> set (attr_enum c)"
  by (auto simp: common_attrs_def attr_enum_def)

lemma get_put_any:
  assumes "pb_shape c s" and "a \<in> set (attr_enum c)" and "b \<in> set (attr_enum c)"
  shows "get_attr c a (put_attr c b v s) = (if a = b then v else get_attr c a s)"
  using attr_enum_at [OF assms(3)] attr_no_inj [OF assms(2,3)] assms(1)
  by (auto simp: packetbuf_attr_def packetbuf_set_attr_def pb_shape_def)

lemma get_put_attr:
  assumes "pb_shape c s" and "a \<in> common_attrs" and "b \<in> set (attr_enum c)"
  shows "get_attr c a (put_attr c b v s) = (if a = b then v else get_attr c a s)"
  using assms(1) common_in [OF assms(2)] assms(3) by (rule get_put_any)

lemma shape_put_attr [simp]: "pb_shape c (packetbuf_set_attr n v s) \<longleftrightarrow> pb_shape c s"
  by (simp add: pb_shape_def packetbuf_set_attr_def)

lemma addr_put_attr [simp]: "packetbuf_addr f t (packetbuf_set_attr n v s) = packetbuf_addr f t s"
  by (simp add: packetbuf_addr_def packetbuf_set_attr_def)

lemma attr_put_addr [simp]: "packetbuf_attr n (packetbuf_set_addr la f t a s) = packetbuf_attr n s"
  by (simp add: packetbuf_attr_def packetbuf_set_addr_def)

lemma packet_put [simp]:
  "packet_is psize (packetbuf_set_attr n v s) x \<longleftrightarrow> packet_is psize s x"
  "packet_is psize (packetbuf_set_addr la f t a s) x \<longleftrightarrow> packet_is psize s x"
  by (simp_all add: packet_is_def packetbuf_set_attr_def packetbuf_set_addr_def)

lemma packetbuf_put [simp]:
  "packetbuf (packetbuf_set_attr n v s) = packetbuf s" "packetbuf (packetbuf_set_addr la f t a s) = packetbuf s"
  by (simp_all add: packetbuf_set_attr_def packetbuf_set_addr_def)

lemma packetbuf_parse_fields [simp]: "packetbuf (parse_fields c q s) = packetbuf s"
  by (simp add: parse_fields_def parse_security_def Let_def)

abbreviation sender_addr :: "framer_config \<Rightarrow> packetbuf_state \<Rightarrow> linkaddr_t" where
  "sender_addr c s \<equiv> get_address c (PACKETBUF_ADDR_SENDER c) s"

abbreviation receiver_addr :: "framer_config \<Rightarrow> packetbuf_state \<Rightarrow> linkaddr_t" where
  "receiver_addr c s \<equiv> get_address c (PACKETBUF_ADDR_RECEIVER c) s"

lemma get_put_address:
  assumes "pb_shape c s" and "take (LINKADDR_SIZE (frame_conf c)) b = a" and "length a = LINKADDR_SIZE (frame_conf c)"
  shows "sender_addr c (put_address c (PACKETBUF_ADDR_SENDER c) b s) = a"
    and "receiver_addr c (put_address c (PACKETBUF_ADDR_SENDER c) b s) = receiver_addr c s"
    and "sender_addr c (put_address c (PACKETBUF_ADDR_RECEIVER c) b s) = sender_addr c s"
    and "receiver_addr c (put_address c (PACKETBUF_ADDR_RECEIVER c) b s) = a"
    and "pb_shape c (put_address c (PACKETBUF_ADDR_SENDER c) b s)"
    and "pb_shape c (put_address c (PACKETBUF_ADDR_RECEIVER c) b s)"
proof -
  define i where "i = PACKETBUF_ADDR_SENDER c"
  have r: "PACKETBUF_ADDR_RECEIVER c = i + 1" by (simp add: i_def PACKETBUF_ADDR_RECEIVER_def)
  have l: "Suc 0 < length (packetbuf_addrs s)" "0 < length (packetbuf_addrs s)"
    "\<forall>a \<in> set (packetbuf_addrs s). length a = LINKADDR_SIZE (frame_conf c)"
    using assms(1) by (auto simp: pb_shape_def)
  then have "length (packetbuf_addrs s ! 0) = LINKADDR_SIZE (frame_conf c)"
    "length (packetbuf_addrs s ! Suc 0) = LINKADDR_SIZE (frame_conf c)" by simp_all
  then have c0: "linkaddr_copy (LINKADDR_SIZE (frame_conf c)) (packetbuf_addrs s ! 0) b = a"
    and c1: "linkaddr_copy (LINKADDR_SIZE (frame_conf c)) (packetbuf_addrs s ! Suc 0) b = a"
    using assms(2) by (simp_all add: linkaddr_copy_def)
  show "sender_addr c (put_address c (PACKETBUF_ADDR_SENDER c) b s) = a"
    "receiver_addr c (put_address c (PACKETBUF_ADDR_SENDER c) b s) = receiver_addr c s"
    "sender_addr c (put_address c (PACKETBUF_ADDR_RECEIVER c) b s) = sender_addr c s"
    "receiver_addr c (put_address c (PACKETBUF_ADDR_RECEIVER c) b s) = a"
    unfolding r i_def [symmetric] using l c0 c1 by (simp_all add: packetbuf_addr_def packetbuf_set_addr_def)
  have "set ((packetbuf_addrs s)[k := a]) \<subseteq> insert a (set (packetbuf_addrs s))" for k
    by (rule set_update_subset_insert)
  then show "pb_shape c (put_address c (PACKETBUF_ADDR_SENDER c) b s)"
    "pb_shape c (put_address c (PACKETBUF_ADDR_RECEIVER c) b s)"
    unfolding r i_def [symmetric] using assms(1,3) c0 c1
    by (auto simp: pb_shape_def packetbuf_set_addr_def dest!: set_update_subset_insert [THEN subsetD])
qed

section \<open>The header in front of the data\<close>

definition frame_bytes :: "frame_config \<Rightarrow> frame802154_t \<Rightarrow> u8 list" where
  "frame_bytes c p = [frame802154_create_fcf (fcf p) (\<lambda>_. 0) 0, frame802154_create_fcf (fcf p) (\<lambda>_. 0) 1] @ header_wire c p"

lemma set_compression_idem: "set_compression (set_compression p) = set_compression p"
  by (simp add: set_compression_def)

lemma create_bytes:
  assumes "frame_ok c p0" and "p = set_compression p0"
  shows "frame802154_create c p buf = Some (p, blit buf 0 (frame_bytes c p), length (frame_bytes c p))"
    and "frame802154_hdrlen c p0 = (p, length (frame_bytes c p))"
proof -
  have ok: "frame_ok c p" unfolding assms(2) using assms(1) by (rule set_compression_ok)
  have i: "set_compression p = p" by (simp add: assms(2) set_compression_idem)
  have "frame802154_create_fcf (fcf p) buf = blit buf 0 [frame802154_create_fcf (fcf p) (\<lambda>_. 0) 0, frame802154_create_fcf (fcf p) (\<lambda>_. 0) 1]"
    by (simp add: frame802154_create_fcf_def blit_Cons)
  then show "frame802154_create c p buf = Some (p, blit buf 0 (frame_bytes c p), length (frame_bytes c p))"
    using create_wire [OF ok, of buf] unfolding i by (simp only: frame_bytes_def blit_append) (simp add: numeral_2_eq_2)
  show "frame802154_hdrlen c p0 = (p, length (frame_bytes c p))"
    using wire_length [OF assms(1)] by (simp add: assms(2) frame_bytes_def)
qed

definition framer_ok :: "framer_config \<Rightarrow> bool" where
  "framer_ok c \<longleftrightarrow> LINKADDR_SIZE (frame_conf c) \<in> {2, 8} \<and>
     (LLSEC802154_USES_AUX_HEADER (frame_conf c) \<longrightarrow> LLSEC802154_USES_FRAME_COUNTER c) \<and>
     FRAME802154_VERSION c < 3 \<and> FRAME802154_SUPPR_SEQNO c < 2 \<and> PACKETBUF_SIZE c \<le> 255"

definition sendable :: "framer_config \<Rightarrow> packetbuf_state \<Rightarrow> bool" where
  "sendable c s \<longleftrightarrow> pb_shape c s \<and> get_attr c ATTR_FRAME_TYPE s < 8 \<and> get_attr c ATTR_FRAME_TYPE s \<noteq> 2 \<and>
     get_attr c ATTR_PENDING s < 2 \<and> get_attr c ATTR_MAC_ACK s < 2 \<and>
     (LLSEC802154_USES_AUX_HEADER (frame_conf c) \<longrightarrow> get_attr c ATTR_SECURITY_LEVEL s < 8 \<and>
        (LLSEC802154_USES_EXPLICIT_KEYS (frame_conf c) \<longrightarrow> get_attr c ATTR_KEY_ID_MODE s < 4))"

text \<open>Whether a packet is sent with an auxiliary security header.\<close>

definition secured :: "framer_config \<Rightarrow> packetbuf_state \<Rightarrow> bool" where
  "secured c s \<longleftrightarrow> LLSEC802154_USES_AUX_HEADER (frame_conf c) \<and> get_attr c ATTR_SECURITY_LEVEL s \<noteq> 0"

abbreviation broadcast :: "framer_config \<Rightarrow> packetbuf_state \<Rightarrow> bool" where
  "broadcast c s \<equiv> packetbuf_holds_broadcast (LINKADDR_SIZE (frame_conf c)) s"

definition own_mode :: "framer_config \<Rightarrow> u8" where
  "own_mode c = (if LINKADDR_SIZE (frame_conf c) = 2 then 2 else 3)"

lemma own_mode: "framer_ok c \<Longrightarrow> own_mode c \<in> {2, 3} \<and> addr_len (own_mode c) = LINKADDR_SIZE (frame_conf c)"
  by (auto simp: framer_ok_def own_mode_def addr_len_def)

lemma ucast_small:
  "(x :: u16) < 8 \<Longrightarrow> (ucast x :: u8) < 8" "(x :: u16) < 2 \<Longrightarrow> (ucast x :: u8) < 2"
  "(x :: u16) < 8 \<Longrightarrow> ucast (ucast x :: u8) = x" "(x :: u16) < 2 \<Longrightarrow> ucast (ucast x :: u8) = x"
  "(x :: u16) < 8 \<Longrightarrow> (ucast x :: u8) = 2 \<longleftrightarrow> x = 2" "(x :: u16) < 4 \<Longrightarrow> (ucast x :: u8) < 4"
  by (auto simp: word_less_nat_alt unsigned_ucast_eq take_bit_eq_mod word_unat_eq_iff unat_mod)

lemma params_fields:
  assumes "framer_ok c" and "p = address_params c st (fcf_params c s\<lparr>seq := q\<rparr>)" and "broadcast c (pb st) = broadcast c s"
  shows "fcf p = \<lparr>frame_type = ucast (get_attr c ATTR_FRAME_TYPE s), security_enabled = (if secured c s then 1 else 0),
      frame_pending = ucast (get_attr c ATTR_PENDING s),
      ack_required = (if broadcast c s then 0 else ucast (get_attr c ATTR_MAC_ACK s)), panid_compression = 0,
      sequence_number_suppression = (if broadcast c s then if FRAME802154_VERSION c \<ge> 2 then 1 else 0
        else FRAME802154_SUPPR_SEQNO c), ie_list_present = 0,
      dest_addr_mode = (if broadcast c s then 2 else own_mode c), frame_version = FRAME802154_VERSION c,
      src_addr_mode = own_mode c\<rparr>"
    and "seq p = q" and "dest_pid p = mac_pan_id st" and "src_pid p = mac_pan_id st"
    and "src_addr p = linkaddr_copy (LINKADDR_SIZE (frame_conf c)) (replicate 8 0) (sender_addr c (pb st))"
    and "dest_addr p = (if broadcast c s then (replicate 8 0)[0 := 0xff, 1 := 0xff]
           else linkaddr_copy (LINKADDR_SIZE (frame_conf c)) (replicate 8 0) (receiver_addr c (pb st)))"
    and "sendable c s \<Longrightarrow> aux_ok (aux_hdr p)"
    and "secured c s \<Longrightarrow> frame_counter (aux_hdr p) =
      bytes16 (get_attr c ATTR_FRAME_COUNTER_BYTES_0_1 s) @ bytes16 (get_attr c ATTR_FRAME_COUNTER_BYTES_2_3 s) \<and>
      frame_counter_suppression (security_control (aux_hdr p)) = 0 \<and>
      security_level (security_control (aux_hdr p)) = ucast (get_attr c ATTR_SECURITY_LEVEL s)"
  using assms(1) unfolding assms(2)
  by (simp_all add: secured_def sendable_def bytes16_def ucast_small address_params_def fcf_params_def security_params_def framer_ok_def zero_frame_def Let_def
      assms(3) own_mode_def frame802154_get_pan_id_def aux_ok_def)

lemma shape_addresses:
  assumes "pb_shape c s"
  shows "length (sender_addr c s) = LINKADDR_SIZE (frame_conf c)" "length (receiver_addr c s) = LINKADDR_SIZE (frame_conf c)"
    "broadcast c s \<longleftrightarrow> receiver_addr c s = linkaddr_null (LINKADDR_SIZE (frame_conf c))"
proof -
  have l: "0 < length (packetbuf_addrs s)" "1 < length (packetbuf_addrs s)"
    "\<forall>a \<in> set (packetbuf_addrs s). length a = LINKADDR_SIZE (frame_conf c)"
    using assms by (auto simp: pb_shape_def)
  show s: "length (sender_addr c s) = LINKADDR_SIZE (frame_conf c)" "length (receiver_addr c s) = LINKADDR_SIZE (frame_conf c)"
    using l by (simp_all add: packetbuf_addr_def PACKETBUF_ADDR_RECEIVER_def)
  show "broadcast c s \<longleftrightarrow> receiver_addr c s = linkaddr_null (LINKADDR_SIZE (frame_conf c))"
    using s(2) by (simp add: packetbuf_holds_broadcast_def packetbuf_addr_def PACKETBUF_ADDR_RECEIVER_def)
qed

lemma params_ok:
  assumes "framer_ok c" and "sendable c s" and "p = address_params c st (fcf_params c s\<lparr>seq := q\<rparr>)"
    and "broadcast c (pb st) = broadcast c s" and "pb_shape c (pb st)"
  shows "frame_ok (frame_conf c) p"
proof -
  note f = params_fields [OF assms(1,3,4)]
  have la: "LINKADDR_SIZE (frame_conf c) \<le> 8" using assms(1) by (auto simp: framer_ok_def)
  have "length (linkaddr_copy (LINKADDR_SIZE (frame_conf c)) (replicate 8 0) (sender_addr c (pb st))) = 8"
    "length (linkaddr_copy (LINKADDR_SIZE (frame_conf c)) (replicate 8 0) (receiver_addr c (pb st))) = 8"
    using la shape_addresses [OF assms(5)] by simp_all
  moreover have "fcf_ok (fcf p)"
    using assms(1,2) own_mode [OF assms(1)] ucast_small(1) [of "get_attr c ATTR_FRAME_TYPE s"]
      ucast_small(2) [of "get_attr c ATTR_PENDING s"] ucast_small(2) [of "get_attr c ATTR_MAC_ACK s"]
    unfolding f(1) by (auto simp: fcf_ok_def framer_ok_def sendable_def word_less_nat_alt)
  ultimately show ?thesis
    using la f(7) [OF assms(2)] own_mode [OF assms(1)] by (auto simp: frame_ok_def f(1,5,6))
qed

text \<open>A frame with addresses has a destination PAN identifier, unless it is an old acknowledgement.\<close>

lemma has_dest_panid:
  assumes "frame_ok c p" and "p' = set_compression p" and "panid_compression (fcf p) = 0"
    and "dest_addr_mode (fcf p) \<in> {2, 3}" and "src_addr_mode (fcf p) \<in> {2, 3}" and "frame_type (fcf p) \<noteq> 2"
  shows "snd (frame802154_has_panid (fcf p'))"
  using assms(3-6) unfolding assms(2)
  by (auto simp: set_compression_def frame802154_has_panid_def Let_def)


lemma ucast_there_back: "ucast (ucast (x :: u8) :: u16) = x"
  by (rule bit_word_eqI) (auto simp: bit_simps)

lemma next_seqno_result:
  assumes "pb_shape c (pb st)"
  shows "\<exists>q st'. next_seqno c True p st = (p\<lparr>seq := q\<rparr>, st') \<and> q = ucast (get_attr c ATTR_MAC_SEQNO (pb st')) \<and>
    get_attr c ATTR_MAC_SEQNO (pb st') \<noteq> 0 \<and> pb_shape c (pb st') \<and> mac_pan_id st' = mac_pan_id st \<and>
    (\<forall>psize x. packet_is psize (pb st') x \<longleftrightarrow> packet_is psize (pb st) x) \<and>
    sender_addr c (pb st') = sender_addr c (pb st) \<and> receiver_addr c (pb st') = receiver_addr c (pb st) \<and>
    (\<forall>a \<in> set (attr_enum c) - {ATTR_MAC_SEQNO}. get_attr c a (pb st') = get_attr c a (pb st))"
proof (cases "get_attr c ATTR_MAC_SEQNO (pb st) = 0")
  case False
  then show ?thesis
    using assms by (intro exI [of _ "ucast (get_attr c ATTR_MAC_SEQNO (pb st))"] exI [of _ st]) (simp add: next_seqno_def)
next
  case True
  define dsn where "dsn = (if mac_dsn st = 0 then mac_dsn st + 1 else mac_dsn st)"
  define st' where "st' = st\<lparr>mac_dsn := dsn + 1, pb := put_attr c ATTR_MAC_SEQNO (ucast dsn) (pb st)\<rparr>"
  have nz: "dsn \<noteq> 0" by (simp add: dsn_def)
  have m: "ATTR_MAC_SEQNO \<in> common_attrs" by (simp add: common_attrs_def)
  have g: "get_attr c ATTR_MAC_SEQNO (pb st') = ucast dsn"
    using get_put_attr [OF assms m common_in [OF m]] by (simp add: st'_def)
  have "(ucast dsn :: u16) \<noteq> 0"
  proof
    assume "(ucast dsn :: u16) = 0"
    then have "(ucast (ucast dsn :: u16) :: u8) = ucast (0 :: u16)" by (rule arg_cong)
    moreover have "(ucast (ucast dsn :: u16) :: u8) = dsn" by (rule ucast_there_back)
    ultimately show False using nz by (metis ucast_0)
  qed
  moreover have "\<forall>a \<in> set (attr_enum c) - {ATTR_MAC_SEQNO}. get_attr c a (pb st') = get_attr c a (pb st)"
    using get_put_any [OF assms _ common_in [OF m]] by (auto simp: st'_def)
  moreover have "next_seqno c True p st = (p\<lparr>seq := dsn\<rparr>, st')"
    using True by (simp add: next_seqno_def Let_def dsn_def st'_def)
  moreover have "ucast (ucast dsn :: u16) = dsn" by (rule ucast_there_back)
  ultimately show ?thesis
    using g assms by (intro exI [of _ dsn] exI [of _ st']) (simp add: st'_def)
qed

lemma frame_bytes_length:
  assumes "frame_ok c p0" and "p = set_compression p0"
  shows "2 \<le> length (frame_bytes c p)" and "length (frame_bytes c p) \<le> 37"
proof -
  show "2 \<le> length (frame_bytes c p)" by (simp add: frame_bytes_def)
  define pf where "pf = p0"
  have l: "length (dest_addr p0) = 8" "length (src_addr p0) = 8" "length (frame_counter (aux_hdr p0)) = 4"
    using assms(1) by (simp_all add: frame_ok_def aux_ok_def)
  obtain m q where "frame802154_parse c m (int (length (frame_bytes c p))) p0 = (length (frame_bytes c p), q)"
    using create_parse [OF assms(1) l create_wire [OF assms(1)], of "int (length (frame_bytes c p))" "\<lambda>_. 0"]
    by (auto simp: frame_bytes_def assms(2))
  moreover have "same_upto n m m" for n by (simp add: same_upto_def)
  ultimately show "length (frame_bytes c p) \<le> 37"
    using parse_reads_header_only [of c m _ p0 _ q m] \<open>2 \<le> length (frame_bytes c p)\<close> by force
qed

lemma hdralloc_room:
  assumes "packet_is psize s ([], 0, d)" and "psize \<le> 255" and "length bs + length d \<le> psize" and "bs \<noteq> []"
  shows "\<exists>t. packetbuf_hdralloc psize (of_nat (length bs)) s = Some (True, t) \<and>
    packet_is psize (t\<lparr>packetbuf := blit (packetbuf t) 0 bs\<rparr>) (bs, 0, d) \<and>
    packetbuf_attrs t = packetbuf_attrs s \<and> packetbuf_addrs t = packetbuf_addrs s"
proof -
  have "packet_op_ok (Add_header bs) ([], 0, d)" using assms(2,3) by simp
  from packet_step_simulates [OF assms(2,1) this] obtain u where
    u: "packet_step psize 0 (Add_header bs) s = Some u" "packet_is psize u (packet_spec psize (Add_header bs) ([], 0, d))"
    by blast
  have pu: "packet_is psize u (bs, 0, d)" using u(2) assms(3) by simp
  obtain ok t where h: "packetbuf_hdralloc psize (of_nat (length bs)) s = Some (ok, t)"
    using u(1) by (auto simp: packet_step_def split: option.splits)
  have t: "packetbuf_attrs t = packetbuf_attrs s" "packetbuf_addrs t = packetbuf_addrs s" "\<not> ok \<Longrightarrow> t = s"
    using h by (auto simp: packetbuf_hdralloc_def split: if_splits)
  have "ok"
  proof (rule ccontr)
    assume "\<not> ok"
    then have "u = s" using u(1) h t(3) by (simp add: packet_step_def)
    then show False using pu assms(1,4) by (simp add: packet_is_def)
  qed
  then have "u = t\<lparr>packetbuf := blit (packetbuf t) 0 bs\<rparr>"
    using u(1) h by (simp add: packet_step_def packetbuf_hdrptr_def)
  with h pu t \<open>ok\<close> show ?thesis by auto
qed

definition created :: "framer_config \<Rightarrow> framer_state \<Rightarrow> framer_state \<Rightarrow> bool" where
  "created c st t \<longleftrightarrow> mac_pan_id t = mac_pan_id st \<and> pb_shape c (pb t) \<and> sender_addr c (pb t) = sender_addr c (pb st) \<and>
     receiver_addr c (pb t) = receiver_addr c (pb st) \<and>
     (\<forall>a \<in> set (attr_enum c) - {ATTR_MAC_SEQNO}. get_attr c a (pb t) = get_attr c a (pb st))"

text \<open>Building the frame: the packet gets the bytes of the header in front of its data.\<close>

lemma create_sends:
  assumes "framer_ok c" and "sendable c (pb st)" and "mac_pan_id st \<noteq> 0xffff"
    and "packet_is (PACKETBUF_SIZE c) (pb st) ([], 0, d)" and "length d + 37 \<le> PACKETBUF_SIZE c"
  shows "\<exists>t p st2 q. create c rnd st = Some (int (length (frame_bytes (frame_conf c) (set_compression p))), t) \<and>
    p = address_params c st2 (fcf_params c (pb st)\<lparr>seq := q\<rparr>) \<and> mac_pan_id st2 = mac_pan_id st \<and> pb_shape c (pb st2) \<and>
    sender_addr c (pb st2) = sender_addr c (pb st) \<and> receiver_addr c (pb st2) = receiver_addr c (pb st) \<and>
    q = ucast (get_attr c ATTR_MAC_SEQNO (pb t)) \<and> get_attr c ATTR_MAC_SEQNO (pb t) \<noteq> 0 \<and>
    packet_is (PACKETBUF_SIZE c) (pb t) (frame_bytes (frame_conf c) (set_compression p), 0, d) \<and> created c st t"
proof -
  define st1 where "st1 = (if \<not> dsn_initialized st
      then st\<lparr>dsn_initialized := True, mac_dsn := ucast (rnd AND 0xff)\<rparr> else st)"
  have s1: "pb st1 = pb st" "mac_pan_id st1 = mac_pan_id st" by (simp_all add: st1_def)
  have sh: "pb_shape c (pb st1)" using assms(2) by (simp add: s1 sendable_def)
  obtain q st2 where n: "next_seqno c True (fcf_params c (pb st1)) st1 = (fcf_params c (pb st)\<lparr>seq := q\<rparr>, st2)"
    and q: "q = ucast (get_attr c ATTR_MAC_SEQNO (pb st2))" "get_attr c ATTR_MAC_SEQNO (pb st2) \<noteq> 0"
    and s2: "pb_shape c (pb st2)" "mac_pan_id st2 = mac_pan_id st" "packet_is (PACKETBUF_SIZE c) (pb st2) ([], 0, d)"
      "sender_addr c (pb st2) = sender_addr c (pb st)" "receiver_addr c (pb st2) = receiver_addr c (pb st)"
      "\<forall>a \<in> set (attr_enum c) - {ATTR_MAC_SEQNO}. get_attr c a (pb st2) = get_attr c a (pb st)"
    using next_seqno_result [OF sh, of "fcf_params c (pb st1)"] assms(4) unfolding s1 by auto
  define p where "p = address_params c st2 (fcf_params c (pb st)\<lparr>seq := q\<rparr>)"
  define p' where "p' = set_compression p"
  define bs where "bs = frame_bytes (frame_conf c) p'"
  have bc: "broadcast c (pb st2) = broadcast c (pb st)"
    using shape_addresses(3) [OF s2(1)] shape_addresses(3) [of c "pb st"] assms(2) s2(5) by (simp add: sendable_def)
  have ok: "frame_ok (frame_conf c) p" by (rule params_ok [OF assms(1,2) p_def bc s2(1)])
  have bl: "2 \<le> length bs" "length bs \<le> 37" using frame_bytes_length [OF ok p'_def] by (simp_all add: bs_def)
  have ps: "PACKETBUF_SIZE c \<le> 255" using assms(1) by (simp add: framer_ok_def)
  obtain t where t: "packetbuf_hdralloc (PACKETBUF_SIZE c) (of_nat (length bs)) (pb st2) = Some (True, t)"
    "packet_is (PACKETBUF_SIZE c) (t\<lparr>packetbuf := blit (packetbuf t) 0 bs\<rparr>) (bs, 0, d)"
    "packetbuf_attrs t = packetbuf_attrs (pb st2)" "packetbuf_addrs t = packetbuf_addrs (pb st2)"
    using hdralloc_room [OF s2(3) ps, of bs] assms(5) bl by fastforce
  define r where "r = st2\<lparr>pb := t\<lparr>packetbuf := blit (packetbuf t) 0 bs\<rparr>\<rparr>"
  have hl: "frame802154_hdrlen (frame_conf c) p = (p', length bs)"
    and cr: "\<And>m. frame802154_create (frame_conf c) p' m = Some (p', blit m 0 bs, length bs)"
    using create_bytes [OF ok p'_def] by (simp_all add: bs_def)
  have "create c rnd st = Some (int (length bs), r)"
    using assms(3) n t(1) hl cr
    by (simp add: create_def create_frame_def frame802154_get_pan_id_def st1_def [symmetric] Let_def p_def [symmetric]
        packetbuf_hdrptr_def r_def)
  moreover have "get_attr c a (pb r) = get_attr c a (pb st2)" for a using t(3) by (simp add: r_def packetbuf_attr_def)
  moreover have "created c st r"
    using s2 t(3,4) by (simp add: created_def r_def pb_shape_def packetbuf_attr_def packetbuf_addr_def)
  ultimately show ?thesis
    using q s2 t(2) unfolding bs_def p'_def
    by (intro exI [of _ r] exI [of _ p] exI [of _ st2] exI [of _ q]) (simp add: p_def r_def bs_def p'_def)
qed

lemma hdrreduce_room:
  assumes "packet_is psize s ([], 0, d)" and "psize \<le> 255" and "n \<le> length d"
  shows "\<exists>t. packetbuf_hdrreduce (of_nat n) s = (True, t) \<and> packet_is psize t ([], n, drop n d) \<and>
    packetbuf_attrs t = packetbuf_attrs s \<and> packetbuf_addrs t = packetbuf_addrs s \<and> packetbuf t = packetbuf s"
proof -
  have l: "length d \<le> psize" "unat (buflen s) = length d" using assms(1) by (simp_all add: packet_is_def)
  then have "packet_op_ok (Strip n) ([], 0, d)" using assms(2,3) by simp
  from packet_step_simulates [OF assms(2,1) this, of 0]
  have "packet_is psize (snd (packetbuf_hdrreduce (of_nat n) s)) ([], n, drop n d)"
    using assms(3) by (simp add: packet_step_def not_less)
  moreover have "\<not> buflen s < of_nat n" using l assms(2,3) by (simp add: word_less_nat_alt unat_of_nat)
  then have "packetbuf_hdrreduce (of_nat n) s = (True, s\<lparr>bufptr := bufptr s + of_nat n, buflen := buflen s - of_nat n\<rparr>)"
    by (simp add: packetbuf_hdrreduce_def)
  ultimately show ?thesis by simp
qed

lemma broadcast_addr_iff:
  assumes "framer_ok c" and "take (addr_len (own_mode c)) b = a" and "length a = LINKADDR_SIZE (frame_conf c)"
  shows "frame802154_is_broadcast_addr (own_mode c) b \<longleftrightarrow> a = replicate (LINKADDR_SIZE (frame_conf c)) 0xff"
proof -
  define n where "n = LINKADDR_SIZE (frame_conf c)"
  have n: "addr_len (own_mode c) = n" "(if own_mode c = 2 then 2 else 8) = n"
    using assms(1) by (auto simp: own_mode_def addr_len_def framer_ok_def n_def)
  have "(\<forall>i < n. b ! i = 0xff) \<longleftrightarrow> a = replicate n 0xff"
    using assms(2,3) n(1) by (auto simp: n_def [symmetric] intro!: nth_equalityI) (metis nth_replicate nth_take)+
  then show ?thesis
    by (simp add: frame802154_is_broadcast_addr_def n(2) all_ff_loop_iff n_def [symmetric])
qed

text \<open>What the parser makes of the fields of a frame.\<close>

definition sec_attrs :: "framer_config \<Rightarrow> attr_name set" where
  "sec_attrs c = (if LLSEC802154_USES_AUX_HEADER (frame_conf c)
     then {ATTR_SECURITY_LEVEL, ATTR_FRAME_COUNTER_BYTES_0_1, ATTR_FRAME_COUNTER_BYTES_2_3} else {})"

lemma sec_in: "framer_ok c \<Longrightarrow> a \<in> sec_attrs c \<Longrightarrow> a \<in> set (attr_enum c)"
  by (auto simp: sec_attrs_def attr_enum_def framer_ok_def split: if_splits)

lemma parse_security_result:
  assumes "framer_ok c" and "pb_shape c s" and "r = parse_security c q s"
  shows "pb_shape c r" "\<And>psize x. packet_is psize r x \<longleftrightarrow> packet_is psize s x" "sender_addr c r = sender_addr c s"
    "receiver_addr c r = receiver_addr c s" "a \<in> common_attrs \<Longrightarrow> get_attr c a r = get_attr c a s"
    "LLSEC802154_USES_AUX_HEADER (frame_conf c) \<Longrightarrow> security_enabled (fcf q) \<noteq> 0 \<Longrightarrow>
      get_attr c ATTR_SECURITY_LEVEL r = ucast (security_level (security_control (aux_hdr q))) \<and>
      get_attr c ATTR_FRAME_COUNTER_BYTES_0_1 r = rd16 ((!) (frame_counter (aux_hdr q))) 0 \<and>
      get_attr c ATTR_FRAME_COUNTER_BYTES_2_3 r = rd16 ((!) (frame_counter (aux_hdr q))) 2"
proof -
  have fc: "LLSEC802154_USES_AUX_HEADER (frame_conf c) \<Longrightarrow> LLSEC802154_USES_FRAME_COUNTER c"
    using assms(1) by (simp add: framer_ok_def)
  have k: "a \<in> set (attr_enum c)" if "LLSEC802154_USES_EXPLICIT_KEYS (frame_conf c)" "a \<in> {ATTR_KEY_ID_MODE, ATTR_KEY_INDEX, ATTR_KEY_SOURCE_BYTES_0_1}" for a
    using that by (auto simp: attr_enum_def)
  have s: "a \<in> set (attr_enum c)" if "LLSEC802154_USES_AUX_HEADER (frame_conf c)"
      "a \<in> {ATTR_SECURITY_LEVEL, ATTR_FRAME_COUNTER_BYTES_0_1, ATTR_FRAME_COUNTER_BYTES_2_3}" for a
    using sec_in [OF assms(1)] that by (simp add: sec_attrs_def)
  note d = assms(3) parse_security_def Let_def fc
  show "pb_shape c r" "\<And>psize x. packet_is psize r x \<longleftrightarrow> packet_is psize s x" "sender_addr c r = sender_addr c s"
    "receiver_addr c r = receiver_addr c s"
    using assms(2) by (simp_all add: d)
  show "a \<in> common_attrs \<Longrightarrow> get_attr c a r = get_attr c a s"
    using assms(2) by (auto simp: d get_put_attr k s) (auto simp: common_attrs_def)
  show "LLSEC802154_USES_AUX_HEADER (frame_conf c) \<Longrightarrow> security_enabled (fcf q) \<noteq> 0 \<Longrightarrow>
      get_attr c ATTR_SECURITY_LEVEL r = ucast (security_level (security_control (aux_hdr q))) \<and>
      get_attr c ATTR_FRAME_COUNTER_BYTES_0_1 r = rd16 ((!) (frame_counter (aux_hdr q))) 0 \<and>
      get_attr c ATTR_FRAME_COUNTER_BYTES_2_3 r = rd16 ((!) (frame_counter (aux_hdr q))) 2"
    using assms(2) by (simp add: d get_put_any k s)
qed

lemma parse_fields_result:
  assumes "framer_ok c" and "pb_shape c s" and "take (LINKADDR_SIZE (frame_conf c)) (src_addr q) = a"
    and "length a = LINKADDR_SIZE (frame_conf c)" and "r = parse_fields c q s"
  shows "pb_shape c r" "\<And>psize x. packet_is psize r x \<longleftrightarrow> packet_is psize s x" "sender_addr c r = a"
    "receiver_addr c r = receiver_addr c s"
    "get_attr c ATTR_FRAME_TYPE r = get_attr c ATTR_FRAME_TYPE s"
    "get_attr c ATTR_PENDING r = ucast (frame_pending (fcf q))"
    "get_attr c ATTR_MAC_SEQNO r = (if sequence_number_suppression (fcf q) = 0 then ucast (seq q) else 0xffff)"
    "LLSEC802154_USES_AUX_HEADER (frame_conf c) \<Longrightarrow> security_enabled (fcf q) \<noteq> 0 \<Longrightarrow>
      get_attr c ATTR_SECURITY_LEVEL r = ucast (security_level (security_control (aux_hdr q))) \<and>
      get_attr c ATTR_FRAME_COUNTER_BYTES_0_1 r = rd16 ((!) (frame_counter (aux_hdr q))) 0 \<and>
      get_attr c ATTR_FRAME_COUNTER_BYTES_2_3 r = rd16 ((!) (frame_counter (aux_hdr q))) 2"
proof -
  define s1 where "s1 = put_address c (PACKETBUF_ADDR_SENDER c) (src_addr q) s"
  have sh: "pb_shape c s1" unfolding s1_def by (rule get_put_address(5) [OF assms(2-4)])
  have in_c: "ATTR_FRAME_TYPE \<in> common_attrs" "ATTR_PENDING \<in> common_attrs" "ATTR_MAC_SEQNO \<in> common_attrs"
    by (simp_all add: common_attrs_def)
  note in_e = in_c [THEN common_in [where c = c]]
  define s2 where "s2 = put_attr c ATTR_PENDING (ucast (frame_pending (fcf q))) s1"
  define s3 where "s3 = put_attr c ATTR_MAC_SEQNO (if sequence_number_suppression (fcf q) = 0 then ucast (seq q) else 0xffff) s2"
  define s4 where "s4 = (if NETSTACK_CONF_WITH_RIME c then put_attr c ATTR_PACKET_ID (ucast (seq q)) s3 else s3)"
  have r: "r = parse_security c q s4"
    by (simp add: assms(5) parse_fields_def s1_def s2_def s3_def s4_def Let_def)
  have sh4: "pb_shape c s4" using sh by (simp add: s4_def s3_def s2_def)
  note sec = parse_security_result [OF assms(1) sh4 r]
  have pid: "NETSTACK_CONF_WITH_RIME c \<Longrightarrow> ATTR_PACKET_ID \<in> set (attr_enum c)" by (simp add: attr_enum_def)
  have ro: "get_attr c x r = get_attr c x s3" if "x \<in> common_attrs" for x
    using get_put_attr [OF _ that pid, of s3] that sh sec(5) [OF that] by (auto simp: s4_def s3_def s2_def common_attrs_def)
  show "pb_shape c r" by (rule sec(1))
  show "\<And>psize x. packet_is psize r x \<longleftrightarrow> packet_is psize s x"
    by (simp add: sec(2) s4_def s3_def s2_def) (simp add: s1_def)
  have "sender_addr c r = sender_addr c s1" "receiver_addr c r = receiver_addr c s1"
    by (simp_all add: sec(3,4) s4_def s3_def s2_def)
  then show "sender_addr c r = a" "receiver_addr c r = receiver_addr c s"
    using get_put_address(1,2) [OF assms(2-4)] by (simp_all add: s1_def)
  show "get_attr c ATTR_FRAME_TYPE r = get_attr c ATTR_FRAME_TYPE s"
    "get_attr c ATTR_PENDING r = ucast (frame_pending (fcf q))"
    "get_attr c ATTR_MAC_SEQNO r = (if sequence_number_suppression (fcf q) = 0 then ucast (seq q) else 0xffff)"
    using ro in_c get_put_attr [OF sh in_c(1) in_e(2)] get_put_attr [OF sh in_c(2) in_e(2)]
      get_put_attr [of c s2, OF _ in_c(1) in_e(3)] get_put_attr [of c s2, OF _ in_c(2) in_e(3)]
      get_put_attr [of c s2, OF _ in_c(3) in_e(3)] sh
    by (simp_all add: s3_def s2_def) (simp_all add: s1_def)
  show "LLSEC802154_USES_AUX_HEADER (frame_conf c) \<Longrightarrow> security_enabled (fcf q) \<noteq> 0 \<Longrightarrow>
      get_attr c ATTR_SECURITY_LEVEL r = ucast (security_level (security_control (aux_hdr q))) \<and>
      get_attr c ATTR_FRAME_COUNTER_BYTES_0_1 r = rd16 ((!) (frame_counter (aux_hdr q))) 0 \<and>
      get_attr c ATTR_FRAME_COUNTER_BYTES_2_3 r = rd16 ((!) (frame_counter (aux_hdr q))) 2"
    by (rule sec(6))
qed

lemma parse_receives:
  assumes "framer_ok c" and "packet_is (PACKETBUF_SIZE c) (pb r) ([], 0, bs @ d)" and "pb_shape c (pb r)"
    and "\<And>m. same_upto (length bs) (blit (\<lambda>_. 0) 0 bs) m \<Longrightarrow>
       frame802154_parse (frame_conf c) m (int (length bs + length d)) frame0 = (length bs, q)"
    and "bs \<noteq> []"
    and "dest_addr_mode (fcf q) \<noteq> 0 \<longrightarrow> dest_pid q = mac_pan_id r"
    and "take (LINKADDR_SIZE (frame_conf c)) (src_addr q) = a" and "length a = LINKADDR_SIZE (frame_conf c)"
    and "dest_addr_mode (fcf q) \<noteq> 0 \<and>
         \<not> frame802154_is_broadcast_addr (dest_addr_mode (fcf q)) (dest_addr q) \<longleftrightarrow> unicast"
    and "unicast \<Longrightarrow> take (LINKADDR_SIZE (frame_conf c)) (dest_addr q) = b"
    and "unicast \<Longrightarrow> length b = LINKADDR_SIZE (frame_conf c)"
  shows "\<exists>t. parse c frame0 r = (int (length bs), t) \<and> packet_is (PACKETBUF_SIZE c) (pb t) ([], length bs, d) \<and>
    sender_addr c (pb t) = a \<and> receiver_addr c (pb t) = (if unicast then b else receiver_addr c (pb r)) \<and>
    get_attr c ATTR_FRAME_TYPE (pb t) = ucast (frame_type (fcf q)) \<and>
    get_attr c ATTR_PENDING (pb t) = ucast (frame_pending (fcf q)) \<and>
    get_attr c ATTR_MAC_SEQNO (pb t) = (if sequence_number_suppression (fcf q) = 0 then ucast (seq q) else 0xffff) \<and>
    mac_pan_id t = mac_pan_id r \<and> pb_shape c (pb t) \<and> packetbuf (pb t) = packetbuf (pb r) \<and>
    (LLSEC802154_USES_AUX_HEADER (frame_conf c) \<longrightarrow> security_enabled (fcf q) \<noteq> 0 \<longrightarrow>
      get_attr c ATTR_SECURITY_LEVEL (pb t) = ucast (security_level (security_control (aux_hdr q))) \<and>
      get_attr c ATTR_FRAME_COUNTER_BYTES_0_1 (pb t) = rd16 ((!) (frame_counter (aux_hdr q))) 0 \<and>
      get_attr c ATTR_FRAME_COUNTER_BYTES_2_3 (pb t) = rd16 ((!) (frame_counter (aux_hdr q))) 2)"
proof -
  have ps: "PACKETBUF_SIZE c \<le> 255" using assms(1) by (simp add: framer_ok_def)
  have dp: "packetbuf_dataptr (pb r) = 0" using unat_hdrlen(1) [OF assms(2) ps] by (simp add: packetbuf_dataptr_def)
  define k where "k = length bs + length d"
  have dl: "int (unat (packetbuf_datalen (pb r))) = int k"
    using assms(2) by (simp add: packet_is_def packetbuf_datalen_def k_def)
  have "holds (packetbuf (pb r)) 0 bs" using assms(2) by (simp add: packet_is_def holds_append)
  then have "same_upto (length bs) (blit (\<lambda>_. 0) 0 bs) (packetbuf (pb r))" by (simp add: same_upto_def blit_def holds_def)
  then have p: "frame802154_parse (frame_conf c) (packetbuf (pb r)) (int k) frame0 = (length bs, q)"
    unfolding k_def by (rule assms(4))
  obtain s1 where s1: "packetbuf_hdrreduce (of_nat (length bs)) (pb r) = (True, s1)"
    "packet_is (PACKETBUF_SIZE c) s1 ([], length bs, d)"
    "packetbuf_attrs s1 = packetbuf_attrs (pb r)" "packetbuf_addrs s1 = packetbuf_addrs (pb r)" "packetbuf s1 = packetbuf (pb r)"
    using hdrreduce_room [OF assms(2) ps, of "length bs"] by auto
  have sh: "pb_shape c s1" using assms(3) s1(3,4) by (simp add: pb_shape_def)
  define s2 where "s2 = put_attr c ATTR_FRAME_TYPE (ucast (frame_type (fcf q))) s1"
  define s3 where "s3 = (if unicast then put_address c (PACKETBUF_ADDR_RECEIVER c) (dest_addr q) s2 else s2)"
  define t where "t = r\<lparr>pb := parse_fields c q s3\<rparr>"
  have sh2: "pb_shape c s2" using sh by (simp add: s2_def)
  have ub: "unicast \<Longrightarrow> take (LINKADDR_SIZE (frame_conf c)) (dest_addr q) = b" "unicast \<Longrightarrow> length b = LINKADDR_SIZE (frame_conf c)"
    using assms(10,11) by simp_all
  have sh3: "pb_shape c s3"
    using get_put_address(6) [OF sh2 ub(1) ub(2)] sh2 by (simp add: s3_def)
  have "parse c frame0 r = (int (length bs), t)"
    unfolding parse_def Let_def dp dl add_0 p prod.case
    using assms(5) s1(1) assms(6) by (auto simp: assms(9) frame802154_get_pan_id_def s2_def s3_def t_def)
  moreover have "receiver_addr c s3 = (if unicast then b else receiver_addr c (pb r))"
    using get_put_address(4) [OF sh2 ub(1) ub(2)] by (simp add: s3_def s2_def) (simp add: packetbuf_addr_def s1(4))
  moreover have "packet_is (PACKETBUF_SIZE c) s3 ([], length bs, d)" using s1(2) by (simp add: s3_def s2_def)
  moreover have "packetbuf s3 = packetbuf (pb r)" by (simp add: s3_def s2_def s1(5))
  moreover have "get_attr c ATTR_FRAME_TYPE s3 = ucast (frame_type (fcf q))"
    using get_put_attr [OF sh, of ATTR_FRAME_TYPE ATTR_FRAME_TYPE] common_in [of ATTR_FRAME_TYPE c]
    by (simp add: s3_def s2_def common_attrs_def)
  ultimately show ?thesis
    using parse_fields_result [OF assms(1) sh3 _ assms(8) refl, of q] assms(7)
    by (intro exI [of _ t]) (simp add: t_def)
qed


lemma rd16_bytes16:
  "rd16 ((!) (bytes16 x @ ys)) 0 = x" "rd16 ((!) (bytes16 x @ bytes16 y @ ys)) 2 = y" "rd16 ((!) (bytes16 x @ bytes16 y)) 2 = y"
  by (rule bit_word_eqI; auto simp: rd16_def bytes16_def bit_simps)+

section \<open>Sending and receiving\<close>

lemma broadcast_prefix: "take 2 ((replicate 8 0 :: u8 list)[0 := 0xff, 1 := 0xff]) = [0xff, 0xff]"
  by (simp add: eval_nat_numeral)

definition frame0_ok :: "frame802154_t \<Rightarrow> bool" where
  "frame0_ok f \<longleftrightarrow> length (dest_addr f) = 8 \<and> length (src_addr f) = 8 \<and> length (frame_counter (aux_hdr f)) = 4"

definition reaches_all :: "framer_config \<Rightarrow> linkaddr_t \<Rightarrow> bool" where
  "reaches_all c a \<longleftrightarrow> a = linkaddr_null (LINKADDR_SIZE (frame_conf c)) \<or> a = replicate (LINKADDR_SIZE (frame_conf c)) 0xff"

definition seqno_suppressed :: "framer_config \<Rightarrow> packetbuf_state \<Rightarrow> bool" where
  "seqno_suppressed c s \<longleftrightarrow> (if broadcast c s then FRAME802154_VERSION c \<ge> 2 else FRAME802154_SUPPR_SEQNO c \<noteq> 0)"

lemma framer_transfers:
  assumes "framer_ok c" and "sendable c (pb st)" and "mac_pan_id st \<noteq> 0xffff"
    and "packet_is (PACKETBUF_SIZE c) (pb st) ([], 0, d)" and "length d + 37 \<le> PACKETBUF_SIZE c"
  shows "\<exists>hdr t. create c rnd st = Some (int (length hdr), t) \<and> length hdr \<le> 37 \<and>
    packet_is (PACKETBUF_SIZE c) (pb t) (hdr, 0, d) \<and> get_attr c ATTR_MAC_SEQNO (pb t) \<noteq> 0 \<and> created c st t \<and>
    (\<forall>r frame0 d'. packet_is (PACKETBUF_SIZE c) (pb r) ([], 0, hdr @ d') \<longrightarrow> pb_shape c (pb r) \<longrightarrow>
       mac_pan_id r = mac_pan_id st \<longrightarrow> frame0_ok frame0 \<longrightarrow>
       (\<exists>u. parse c frame0 r = (int (length hdr), u) \<and> packet_is (PACKETBUF_SIZE c) (pb u) ([], length hdr, d') \<and>
          sender_addr c (pb u) = sender_addr c (pb st) \<and>
          receiver_addr c (pb u) = receiver_addr c (if reaches_all c (receiver_addr c (pb st)) then pb r else pb st) \<and>
          get_attr c ATTR_FRAME_TYPE (pb u) = get_attr c ATTR_FRAME_TYPE (pb st) \<and>
          get_attr c ATTR_PENDING (pb u) = get_attr c ATTR_PENDING (pb st) \<and>
          get_attr c ATTR_MAC_SEQNO (pb u) =
            (if seqno_suppressed c (pb st) then 0xffff else ucast (ucast (get_attr c ATTR_MAC_SEQNO (pb t)) :: u8)) \<and>
          (secured c (pb st) \<longrightarrow> (\<forall>a \<in> sec_attrs c. get_attr c a (pb u) = get_attr c a (pb st))) \<and>
          mac_pan_id u = mac_pan_id r \<and> pb_shape c (pb u) \<and> packetbuf (pb u) = packetbuf (pb r)))"
proof -
  obtain t p st2 q where cr: "create c rnd st = Some (int (length (frame_bytes (frame_conf c) (set_compression p))), t)"
    and p: "p = address_params c st2 (fcf_params c (pb st)\<lparr>seq := q\<rparr>)"
    and s2: "mac_pan_id st2 = mac_pan_id st" "pb_shape c (pb st2)" "sender_addr c (pb st2) = sender_addr c (pb st)"
      "receiver_addr c (pb st2) = receiver_addr c (pb st)"
    and q: "q = ucast (get_attr c ATTR_MAC_SEQNO (pb t))" "get_attr c ATTR_MAC_SEQNO (pb t) \<noteq> 0"
    and pk: "packet_is (PACKETBUF_SIZE c) (pb t) (frame_bytes (frame_conf c) (set_compression p), 0, d)" "created c st t"
    using create_sends [OF assms] by blast
  have sh: "pb_shape c (pb st)" using assms(2) by (simp add: sendable_def)
  have bc: "broadcast c (pb st2) = broadcast c (pb st)"
    using shape_addresses(3) [OF s2(2)] shape_addresses(3) [OF sh] s2(4) by simp
  have ok: "frame_ok (frame_conf c) p" by (rule params_ok [OF assms(1,2) p bc s2(2)])
  define hdr where "hdr = frame_bytes (frame_conf c) (set_compression p)"
  have hl: "2 \<le> length hdr" "length hdr \<le> 37" using frame_bytes_length [OF ok refl] by (simp_all add: hdr_def)
  have "\<exists>u. parse c frame0 r = (int (length hdr), u) \<and> packet_is (PACKETBUF_SIZE c) (pb u) ([], length hdr, d') \<and>
          sender_addr c (pb u) = sender_addr c (pb st) \<and>
          receiver_addr c (pb u) = receiver_addr c (if reaches_all c (receiver_addr c (pb st)) then pb r else pb st) \<and>
          get_attr c ATTR_FRAME_TYPE (pb u) = get_attr c ATTR_FRAME_TYPE (pb st) \<and>
          get_attr c ATTR_PENDING (pb u) = get_attr c ATTR_PENDING (pb st) \<and>
          get_attr c ATTR_MAC_SEQNO (pb u) = (if seqno_suppressed c (pb st) then 0xffff else ucast q) \<and>
          (secured c (pb st) \<longrightarrow> (\<forall>a \<in> sec_attrs c. get_attr c a (pb u) = get_attr c a (pb st))) \<and>
          mac_pan_id u = mac_pan_id r \<and> pb_shape c (pb u) \<and> packetbuf (pb u) = packetbuf (pb r)"
    if r: "packet_is (PACKETBUF_SIZE c) (pb r) ([], 0, hdr @ d')" "pb_shape c (pb r)" "mac_pan_id r = mac_pan_id st"
      "frame0_ok frame0" for r frame0 d'
  proof -
    note f = params_fields [OF assms(1) p bc]
    define P where "P = set_compression p"
    define unicast where "unicast = (\<not> reaches_all c (receiver_addr c (pb st)))"
    have f0: "length (dest_addr frame0) = 8" "length (src_addr frame0) = 8" "length (frame_counter (aux_hdr frame0)) = 4"
      using r(4) by (simp_all add: frame0_ok_def)
    have Pok: "frame_ok (frame_conf c) P" unfolding P_def by (rule set_compression_ok [OF ok])
    have cP: "frame802154_create (frame_conf c) P (\<lambda>_. 0) = Some (P, blit (\<lambda>_. 0) 0 hdr, length hdr)"
      using create_bytes(1) [OF ok refl, of "\<lambda>_. 0"] by (simp add: P_def hdr_def)
    obtain qq where qp: "frame802154_parse (frame_conf c) (blit (\<lambda>_. 0) 0 hdr) (int (length hdr + length d')) frame0 = (length hdr, qq)"
      and h: "header_agrees (frame_conf c) P qq"
      using create_parse [OF Pok f0 cP, of "int (length hdr + length d')"] by auto
    have hn: "length hdr \<noteq> 0" using hl by linarith
    have pm: "frame802154_parse (frame_conf c) m (int (length hdr + length d')) frame0 = (length hdr, qq)"
      if "same_upto (length hdr) (blit (\<lambda>_. 0) 0 hdr) m" for m
      using parse_reads_header_only [OF qp hn that] by blast
    have fields: "fcf qq = fcf P" and sq: "sequence_number_suppression (fcf p) = 0 \<Longrightarrow> seq qq = q"
      and src: "take (addr_len (own_mode c)) (src_addr qq) = take (addr_len (own_mode c)) (src_addr p)"
      and dst: "take (addr_len (dest_addr_mode (fcf p))) (dest_addr qq) = take (addr_len (dest_addr_mode (fcf p))) (dest_addr p)"
      and dp: "snd (frame802154_has_panid (fcf P)) \<Longrightarrow> dest_pid qq = mac_pan_id st"
      using h s2(1) unfolding header_agrees_def P_def set_compression_same by (simp_all add: f set_compression_def split: if_splits)
    have la: "addr_len (own_mode c) = LINKADDR_SIZE (frame_conf c)" "own_mode c \<in> {2, 3}" using own_mode [OF assms(1)] by simp_all
    note ad = shape_addresses [OF sh]
    have A: "take (LINKADDR_SIZE (frame_conf c)) (src_addr qq) = sender_addr c (pb st)"
      using src ad(1) s2(3) unfolding la(1) f(5) by (simp add: linkaddr_copy_def)
    have "frame_type (fcf p) \<noteq> 2"
      using assms(2) ucast_small(5) [of "get_attr c ATTR_FRAME_TYPE (pb st)"] by (simp add: f(1) sendable_def)
    then have "snd (frame802154_has_panid (fcf P))"
      using has_dest_panid [OF ok P_def] la(2) by (simp add: f(1))
    then have D: "dest_addr_mode (fcf qq) \<noteq> 0 \<longrightarrow> dest_pid qq = mac_pan_id r" using dp r(3) by simp
    have fq: "frame_type (fcf qq) = frame_type (fcf p)" "frame_pending (fcf qq) = frame_pending (fcf p)"
      "sequence_number_suppression (fcf qq) = sequence_number_suppression (fcf p)"
      "dest_addr_mode (fcf qq) = dest_addr_mode (fcf p)"
      by (simp_all add: fields P_def set_compression_def)
    have U: "dest_addr_mode (fcf qq) \<noteq> 0 \<and>
         \<not> frame802154_is_broadcast_addr (dest_addr_mode (fcf qq)) (dest_addr qq) \<longleftrightarrow> unicast"
      and B: "unicast \<Longrightarrow> take (LINKADDR_SIZE (frame_conf c)) (dest_addr qq) = receiver_addr c (pb st)"
    proof -
      have ff: "frame802154_is_broadcast_addr 2 (dest_addr qq)" if "broadcast c (pb st)"
      proof -
        have "take 2 (dest_addr qq) = [0xff, 0xff]"
          using dst that broadcast_prefix by (simp add: f(1,6) addr_len_def)
        then have "dest_addr qq ! i = 0xff" if "i < 2" for i
          using that nth_take [of i 2 "dest_addr qq"] by (auto simp: nth_Cons' split: if_splits)
        then show ?thesis by (simp add: frame802154_is_broadcast_addr_def all_ff_loop_iff)
      qed
      have own: "take (addr_len (own_mode c)) (dest_addr qq) = receiver_addr c (pb st)" if "\<not> broadcast c (pb st)"
        using dst that ad(2) s2(4) by (simp add: f(1,6) la(1) linkaddr_copy_def)
      show "dest_addr_mode (fcf qq) \<noteq> 0 \<and>
         \<not> frame802154_is_broadcast_addr (dest_addr_mode (fcf qq)) (dest_addr qq) \<longleftrightarrow> unicast"
        using ff broadcast_addr_iff [OF assms(1) own ad(2)] ad(3) la(2)
        by (cases "broadcast c (pb st)") (auto simp: fq(4) f(1) unicast_def reaches_all_def)
      show "unicast \<Longrightarrow> take (LINKADDR_SIZE (frame_conf c)) (dest_addr qq) = receiver_addr c (pb st)"
        using own ad(3) by (simp add: unicast_def reaches_all_def la(1))
    qed
    have "hdr \<noteq> []" using hl by auto
    note received = parse_receives [OF assms(1) r(1,2) pm this D A ad(1) U B ad(2)]
    have sec: "security_enabled (fcf qq) \<noteq> 0 \<and> frame_counter (aux_hdr qq) =
          bytes16 (get_attr c ATTR_FRAME_COUNTER_BYTES_0_1 (pb st)) @ bytes16 (get_attr c ATTR_FRAME_COUNTER_BYTES_2_3 (pb st)) \<and>
        ucast (security_level (security_control (aux_hdr qq))) = get_attr c ATTR_SECURITY_LEVEL (pb st)" if "secured c (pb st)"
    proof -
      have "aux_on (frame_conf c) (fcf P)" "security_enabled (fcf qq) = 1"
        using that by (simp_all add: aux_on_def fields P_def set_compression_def f(1) secured_def)
      moreover from this have "aux_agrees (frame_conf c) (aux_hdr p) (aux_hdr qq)"
        using h by (simp add: header_agrees_def P_def set_compression_def split: if_splits)
      moreover have "get_attr c ATTR_SECURITY_LEVEL (pb st) < 8"
        using assms(2) that by (simp add: sendable_def secured_def)
      ultimately show ?thesis using f(8) [OF that] by (simp add: aux_agrees_def ucast_small)
    qed
    have sec': "rd16 ((!) (bytes16 x @ bytes16 y)) 0 = x \<and> rd16 ((!) (bytes16 x @ bytes16 y)) 2 = y" for x y
      by (simp add: rd16_bytes16)
    have sn: "sequence_number_suppression (fcf p) = 0 \<longleftrightarrow> \<not> seqno_suppressed c (pb st)"
      by (simp add: f(1) seqno_suppressed_def)
    from received show ?thesis
      using sq sn assms(2) ucast_small(3) [of "get_attr c ATTR_FRAME_TYPE (pb st)"] ucast_small(4) [of "get_attr c ATTR_PENDING (pb st)"]
      sec sec' by (auto simp: fq unicast_def sendable_def sec_attrs_def secured_def split: if_splits) (simp_all add: f(1))
  qed
  then show ?thesis
    using cr [folded hdr_def] pk [folded hdr_def] q(2) hl(2) unfolding q(1) by (intro exI [of _ hdr] exI [of _ t]) blast
qed


text \<open>A node with short addresses and a packet of three bytes for the node 3.4; the receiver has the
  frame in a packet buffer without attributes.\<close>

definition example_framer :: framer_config where
  "example_framer = \<lparr>frame_conf = \<lparr>LLSEC802154_USES_AUX_HEADER = False, LLSEC802154_USES_EXPLICIT_KEYS = False,
       LINKADDR_SIZE = 2\<rparr>,
     FRAME802154_VERSION = 1, FRAME802154_SUPPR_SEQNO = 0, LLSEC802154_USES_FRAME_COUNTER = False,
     TSCH_WITH_LINK_SELECTOR = False, PACKETBUF_WITH_PACKET_TYPE = False, NETSTACK_CONF_WITH_RIME = False,
     PACKETBUF_SIZE = 128\<rparr>"

definition example_node :: "u8 list \<Rightarrow> u16 \<Rightarrow> linkaddr_t \<Rightarrow> linkaddr_t \<Rightarrow> framer_state" where
  "example_node bs ftype a b = \<lparr>pb = \<lparr>packetbuf = blit (\<lambda>_. 0) 0 bs, buflen = of_nat (length bs), bufptr = 0, hdrlen = 0,
       packetbuf_attrs = (replicate 15 0)[14 := ftype], packetbuf_addrs = [a, b]\<rparr>,
     mac_dsn = 0, dsn_initialized = True, mac_pan_id = 0xabcd\<rparr>"

lemma example_attrs [simp]:
  "attr_no example_framer ATTR_FRAME_TYPE = 14" "attr_no example_framer ATTR_PENDING = 13"
  "attr_no example_framer ATTR_MAC_ACK = 11" "length (attr_enum example_framer) = 15"
  "PACKETBUF_ADDR_SENDER example_framer = 15" "PACKETBUF_ADDR_RECEIVER example_framer = 16"
  by (simp_all add: attr_no_def attr_enum_def example_framer_def PACKETBUF_ADDR_SENDER_def PACKETBUF_ADDR_RECEIVER_def)

lemma example_conf [simp]: "PACKETBUF_SIZE example_framer = 128" "LINKADDR_SIZE (frame_conf example_framer) = 2"
  by (simp_all add: example_framer_def)

lemma example_holds:
  "length bs \<le> 128 \<Longrightarrow> packet_is 128 (pb (example_node bs f a b)) ([], 0, bs)"
  by (simp add: packet_is_def example_node_def holds_def blit_def unat_of_nat)


end
