(* ===== verification/TschPacket.thy ===== *)
theory TschPacket
  imports FrameIE
begin

text \<open>
  The packets of a TSCH network, \<open>core/net/mac/tsch/tsch-packet.c\<close>: enhanced acknowledgements and
  enhanced beacons, built from a frame header and information elements and parsed back. Link-layer
  security is off (\<open>LLSEC802154_ENABLED\<close> 0, the default). The other compile-time options are a
  record; so is what the node knows and the beacon announces: its address and PAN, the timing in
  microseconds, the hopping sequence and the first link of slotframe 0. The output parameters
  \<open>hdr_len\<close>, \<open>tsch_sync_ie_offset\<close> and \<open>ies\<close> are never null in the calls that the TSCH code makes,
  and are results here. A builder returns \<open>Inl\<close> of the code's result when it fails.
\<close>

section \<open>The code\<close>

record tsch_config =
  frame_conf :: frame_config
  IEEE802154_PANID :: u16
  TSCH_PACKET_MAX_LEN :: int
  TSCH_PACKET_EACK_WITH_DEST_ADDR :: bool
  TSCH_PACKET_EACK_WITH_SRC_ADDR :: bool
  TSCH_PACKET_EB_WITH_TIMESLOT_TIMING :: bool
  TSCH_PACKET_EB_WITH_HOPPING_SEQUENCE :: bool
  TSCH_PACKET_EB_WITH_SLOTFRAME_AND_LINK :: bool

record tsch_node =
  linkaddr_node_addr :: linkaddr_t
  mac_pan_id :: u16
  timing_us :: "u16 list"
  tsch_hopping_sequence_length :: u16
  tsch_hopping_sequence :: "u8 list"
  link0 :: "(u8 \<times> u16 \<times> tsch_slotframe_and_links_link) option"

definition link_mode :: "tsch_config \<Rightarrow> u8" where
  "link_mode c = (if LINKADDR_SIZE (frame_conf c) > 2 then FRAME802154_LONGADDRMODE
                  else FRAME802154_SHORTADDRMODE)"

text \<open>The error handling of a builder: \<open>if((ret = create(...)) == -1) return -1; curr_len += ret;\<close>\<close>

definition append_ie ::
    "(mem \<Rightarrow> nat \<Rightarrow> int \<Rightarrow> ieee802154_ies option \<Rightarrow> (mem \<times> nat) option) \<Rightarrow> int \<Rightarrow> ieee802154_ies
      \<Rightarrow> mem \<times> u8 \<Rightarrow> int + mem \<times> u8" where
  "append_ie create buf_size i = (\<lambda>(m, curr_len).
     case create m (unat curr_len) (buf_size - int (unat curr_len)) (Some i) of
       None \<Rightarrow> Inl (- 1)
     | Some (m', ret) \<Rightarrow> Inr (m', curr_len + of_nat ret))"

definition and_then :: "'e + 'a \<Rightarrow> ('a \<Rightarrow> 'e + 'b) \<Rightarrow> 'e + 'b" where
  "and_then r f = (case r of Inl e \<Rightarrow> Inl e | Inr x \<Rightarrow> f x)"

definition start_frame :: "tsch_config \<Rightarrow> frame802154_t \<Rightarrow> mem \<Rightarrow> int + mem \<times> u8" where
  "start_frame c p buf =
     (case frame802154_create (frame_conf c) p buf of
        None \<Rightarrow> Inl 0
      | Some (_, m, n) \<Rightarrow> if (of_nat n :: u8) = 0 then Inl 0 else Inr (m, of_nat n))"

definition eack_frame :: "tsch_config \<Rightarrow> tsch_node \<Rightarrow> linkaddr_t option \<Rightarrow> u8 \<Rightarrow> frame802154_t" where
  "eack_frame c node dest seqno =
     (let la = LINKADDR_SIZE (frame_conf c);
          p0 = zero_frame\<lparr>fcf := (fcf zero_frame)\<lparr>frame_type := FRAME802154_ACKFRAME,
                   frame_version := FRAME802154_IEEE802154E_2012, ie_list_present := 1,
                   panid_compression := 0\<rparr>,
                 dest_pid := IEEE802154_PANID c, seq := seqno\<rparr>;
          p1 = (case dest of
                  Some d \<Rightarrow>
                    if TSCH_PACKET_EACK_WITH_DEST_ADDR c
                    then p0\<lparr>fcf := (fcf p0)\<lparr>dest_addr_mode := link_mode c\<rparr>,
                            dest_addr := linkaddr_copy la (dest_addr p0) d\<rparr>
                    else p0
                | None \<Rightarrow> p0)
      in if TSCH_PACKET_EACK_WITH_SRC_ADDR c
         then p1\<lparr>fcf := (fcf p1)\<lparr>src_addr_mode := link_mode c\<rparr>, src_pid := IEEE802154_PANID c,
                 src_addr := linkaddr_copy la (src_addr p1) (linkaddr_node_addr node)\<rparr>
         else p1)"

definition tsch_packet_create_eack ::
    "tsch_config \<Rightarrow> tsch_node \<Rightarrow> mem \<Rightarrow> int \<Rightarrow> linkaddr_t option \<Rightarrow> u8 \<Rightarrow> u16 \<Rightarrow> u16 \<Rightarrow> ieee802154_ies
      \<Rightarrow> int + mem \<times> u8" where
  "tsch_packet_create_eack c node buf buf_size dest seqno drift nack ies0 =
     and_then (start_frame c (eack_frame c node dest seqno) buf)
       (append_ie frame80215e_create_ie_header_ack_nack_time_correction buf_size
          (ies0\<lparr>ie_time_correction := drift, ie_is_nack := ucast nack\<rparr>))"

text \<open>The parsers return the length of what they parsed, 0 for an error, and the structures they
  fill in. \<open>ies0\<close> is what \<open>memset(ies, 0, ...)\<close> leaves.\<close>

definition parse_ies ::
    "mem \<Rightarrow> int \<Rightarrow> frame802154_t \<Rightarrow> u8 \<Rightarrow> u8 \<Rightarrow> ieee802154_ies
      \<Rightarrow> int \<times> frame802154_t \<times> ieee802154_ies \<times> u8" where
  "parse_ies m buf_size frame curr_len hdr_len i0 =
     (if ie_list_present (fcf frame) \<noteq> 0 then
        let (ret, i) = frame802154e_parse_information_elements m (unat curr_len)
                         (of_int (buf_size - int (unat curr_len))) i0
        in if ret = - 1 then (0, frame, i, hdr_len)
           else (int (unat (curr_len + of_int ret)), frame, i, hdr_len + ie_payload_ie_offset i)
      else (int (unat curr_len), frame, i0, hdr_len + ie_payload_ie_offset i0))"

definition tsch_packet_parse_eack ::
    "tsch_config \<Rightarrow> tsch_node \<Rightarrow> mem \<Rightarrow> int \<Rightarrow> u8 \<Rightarrow> frame802154_t \<Rightarrow> ieee802154_ies \<Rightarrow> u8 \<Rightarrow> ieee802154_ies
      \<Rightarrow> int \<times> frame802154_t \<times> ieee802154_ies \<times> u8" where
  "tsch_packet_parse_eack c node m buf_size seqno frame0 i0 hdr_len0 ies0 =
     (if buf_size < 0 then (0, frame0, i0, hdr_len0)
      else
        let la = LINKADDR_SIZE (frame_conf c);
            (ret, frame) = frame802154_parse (frame_conf c) m buf_size frame0
        in if ret < 3 then (0, frame, i0, hdr_len0)
           else
             let hdr_len = of_nat ret :: u8; curr_len = of_nat ret :: u8
             in if seqno \<noteq> seq frame then (0, frame, i0, hdr_len)
                else if \<not> frame802154_check_dest_panid (mac_pan_id node) frame then (0, frame, i0, hdr_len)
                else
                  (case frame802154_extract_linkaddr (frame_conf c) frame None (Some (replicate la 0)) of
                     (True, _, Some dest) \<Rightarrow>
                       if \<not> linkaddr_cmp la dest (linkaddr_node_addr node) \<and>
                          \<not> linkaddr_cmp la dest (linkaddr_null la)
                       then (0, frame, i0, hdr_len)
                       else parse_ies m buf_size frame curr_len hdr_len ies0
                   | _ \<Rightarrow> (0, frame, i0, hdr_len)))"

definition eb_frame :: "tsch_config \<Rightarrow> tsch_node \<Rightarrow> frame802154_t" where
  "eb_frame c node =
     zero_frame\<lparr>fcf := (fcf zero_frame)\<lparr>frame_type := 0, ie_list_present := 1,
        frame_version := FRAME802154_IEEE802154E_2012, src_addr_mode := link_mode c,
        dest_addr_mode := FRAME802154_SHORTADDRMODE, sequence_number_suppression := 1,
        panid_compression := 0\<rparr>,
      src_pid := frame802154_get_pan_id (mac_pan_id node),
      dest_pid := frame802154_get_pan_id (mac_pan_id node),
      src_addr := linkaddr_copy (LINKADDR_SIZE (frame_conf c)) (src_addr zero_frame) (linkaddr_node_addr node),
      dest_addr := (dest_addr zero_frame)[0 := 0xff, 1 := 0xff]\<rparr>"

definition eb_ies :: "tsch_config \<Rightarrow> tsch_node \<Rightarrow> ieee802154_ies \<Rightarrow> ieee802154_ies" where
  "eb_ies c node i0 =
     (let i1 = (if TSCH_PACKET_EB_WITH_TIMESLOT_TIMING c
                then i0\<lparr>ie_tsch_timeslot_id := 1, ie_tsch_timeslot := take tsch_ts_elements_count (timing_us node)\<rparr>
                else i0);
          i2 = (if TSCH_PACKET_EB_WITH_HOPPING_SEQUENCE c \<and>
                   unat (tsch_hopping_sequence_length node) \<le> TSCH_HOPPING_SEQUENCE_MAX_LEN
                then i1\<lparr>ie_channel_hopping_sequence_id := 1,
                        ie_hopping_sequence_len := tsch_hopping_sequence_length node,
                        ie_hopping_sequence_list :=
                          take (unat (tsch_hopping_sequence_length node)) (tsch_hopping_sequence node) @
                          drop (unat (tsch_hopping_sequence_length node)) (ie_hopping_sequence_list i1)\<rparr>
                else i1)
      in case link0 node of
           Some (handle, sz, l) \<Rightarrow>
             if TSCH_PACKET_EB_WITH_SLOTFRAME_AND_LINK c
             then i2\<lparr>ie_tsch_slotframe_and_link :=
                       \<lparr>num_slotframes = 1, slotframe_handle = handle, slotframe_size = sz, num_links = 1,
                        links = (links (ie_tsch_slotframe_and_link i2))[0 := l]\<rparr>\<rparr>
             else i2
         | None \<Rightarrow> i2)"

text \<open>Beside the packet and its length: the length of the header, where the payload elements start,
  and the offset of the synchronisation element.\<close>

definition tsch_packet_create_eb ::
    "tsch_config \<Rightarrow> tsch_node \<Rightarrow> mem \<Rightarrow> int \<Rightarrow> ieee802154_ies \<Rightarrow> int + mem \<times> u8 \<times> u8 \<times> u8" where
  "tsch_packet_create_eb c node buf buf_size ies0 =
     (if buf_size < TSCH_PACKET_MAX_LEN c then Inl 0
      else
        let i = eb_ies c node ies0
        in and_then (start_frame c (eb_frame c node) buf) (\<lambda>st0.
           and_then (append_ie frame80215e_create_ie_header_list_termination_1 buf_size i st0) (\<lambda>(m1, hdr_len).
           let mlme_ie_offset = hdr_len;
               sync_ie_offset = hdr_len + 2
           in and_then (append_ie frame80215e_create_ie_tsch_synchronization buf_size i (m1, sync_ie_offset)) (\<lambda>st2.
              and_then (append_ie frame80215e_create_ie_tsch_timeslot buf_size i st2) (\<lambda>st3.
              and_then (append_ie frame80215e_create_ie_tsch_channel_hopping_sequence buf_size i st3) (\<lambda>st4.
              and_then (append_ie frame80215e_create_ie_tsch_slotframe_and_link buf_size i st4) (\<lambda>(m5, curr_len).
              and_then (append_ie frame80215e_create_ie_mlme buf_size
                  (i\<lparr>ie_mlme_len := of_int (int (unat curr_len) - int (unat mlme_ie_offset) - 2)\<rparr>)
                  (m5, mlme_ie_offset)) (\<lambda>(m6, _).
              Inr (m6, curr_len, hdr_len, sync_ie_offset)))))))))"

text \<open>The beacon is stored until it is sent; then the slot number and the join priority are put in.\<close>

definition tsch_packet_update_eb ::
    "mem \<Rightarrow> int \<Rightarrow> u8 \<Rightarrow> tsch_asn_t \<Rightarrow> u8 \<Rightarrow> ieee802154_ies \<Rightarrow> mem" where
  "tsch_packet_update_eb m buf_size sync_ie_offset tsch_current_asn tsch_join_priority i =
     (case frame80215e_create_ie_tsch_synchronization m (unat sync_ie_offset)
             (buf_size - int (unat sync_ie_offset))
             (Some (i\<lparr>ie_asn := tsch_current_asn, ie_join_priority := tsch_join_priority\<rparr>)) of
        None \<Rightarrow> m
      | Some (m', _) \<Rightarrow> m')"

definition tsch_packet_parse_eb ::
    "tsch_config \<Rightarrow> mem \<Rightarrow> int \<Rightarrow> frame802154_t \<Rightarrow> ieee802154_ies \<Rightarrow> u8 \<Rightarrow> ieee802154_ies
      \<Rightarrow> int \<times> frame802154_t \<times> ieee802154_ies \<times> u8" where
  "tsch_packet_parse_eb c m buf_size frame0 i0 hdr_len0 ies0 =
     (if buf_size < 0 then (0, frame0, i0, hdr_len0)
      else
        let (ret, frame) = frame802154_parse (frame_conf c) m buf_size frame0
        in if ret = 0 then (0, frame, i0, hdr_len0)
           else if frame_version (fcf frame) < FRAME802154_IEEE802154E_2012 \<or> frame_type (fcf frame) \<noteq> 0
           then (0, frame, i0, hdr_len0)
           else parse_ies m buf_size frame (of_nat ret) (of_nat ret) (ies0\<lparr>ie_join_priority := 0xff\<rparr>))"

section \<open>The header\<close>

definition tsch_conf_ok :: "tsch_config \<Rightarrow> bool" where
  "tsch_conf_ok c \<longleftrightarrow> LINKADDR_SIZE (frame_conf c) \<in> {2, 8} \<and> TSCH_PACKET_MAX_LEN c = 127"

lemma link_mode: "tsch_conf_ok c \<Longrightarrow> link_mode c \<in> {2, 3} \<and> addr_len (link_mode c) = LINKADDR_SIZE (frame_conf c)"
  by (auto simp: tsch_conf_ok_def link_mode_def addr_len_def)

lemma link_mode_less: "link_mode c < 4"
  by (simp add: link_mode_def)

text \<open>A frame that \<open>start_frame\<close> writes is parsed back, whatever is written behind it.\<close>

lemma start_frame_parse:
  assumes "frame_ok (frame_conf c) p0" and "length (dest_addr pf) = 8" and "length (src_addr pf) = 8"
    and "length (frame_counter (aux_hdr pf)) = 4"
  shows "\<exists>m n. start_frame c p0 buf = Inr (m, of_nat n) \<and> 2 \<le> n \<and> n \<le> 37 \<and>
    n = snd (frame802154_hdrlen (frame_conf c) p0) \<and>
    (\<forall>m' len. same_upto n m m' \<longrightarrow> int n \<le> len \<longrightarrow>
       (\<exists>q. frame802154_parse (frame_conf c) m' len pf = (n, q) \<and>
            header_agrees (frame_conf c) (set_compression p0) q))"
proof -
  obtain m n where cr: "frame802154_create (frame_conf c) p0 buf = Some (set_compression p0, m, n)"
    and n2: "2 \<le> n"
    using create_wire [OF assms(1), of buf] by auto
  note cp = create_parse [OF assms cr]
  obtain q where q: "frame802154_parse (frame_conf c) m (int n) pf = (n, q)"
    using cp [of "int n"] by auto
  have n37: "n \<le> 37"
    using parse_reads_header_only [OF q, of m] n2 by (simp add: same_upto_def)
  have nz: "(of_nat n :: u8) \<noteq> 0"
  proof
    assume "(of_nat n :: u8) = 0"
    moreover have "unat (of_nat n :: u8) = n" using n37 by (simp add: unat_of_nat)
    ultimately show False using n2 by simp
  qed
  have "\<exists>q. frame802154_parse (frame_conf c) m' len pf = (n, q) \<and>
            header_agrees (frame_conf c) (set_compression p0) q"
    if su: "same_upto n m m'" and le: "int n \<le> len" for m' len
  proof -
    obtain q where q: "frame802154_parse (frame_conf c) m len pf = (n, q)"
      "header_agrees (frame_conf c) (set_compression p0) q"
      using cp [OF le] by blast
    with parse_reads_header_only [OF q(1) _ su] n2 show ?thesis by auto
  qed
  moreover have "n = snd (frame802154_hdrlen (frame_conf c) p0)"
    using cp [of "int n"] by auto
  ultimately show ?thesis
    using cr nz n2 n37 by (intro exI [of _ m] exI [of _ n]) (simp add: start_frame_def)
qed

lemma no_compression_set:
  "frame_version (fcf p) = FRAME802154_IEEE802154E_2012 \<Longrightarrow> set_compression p = p"
  by (simp add: set_compression_def)

definition node_addr_ok :: "tsch_config \<Rightarrow> linkaddr_t \<Rightarrow> bool" where
  "node_addr_ok c a \<longleftrightarrow> length a = LINKADDR_SIZE (frame_conf c)"

lemma eb_frame_ok:
  assumes "tsch_conf_ok c" and "node_addr_ok c (linkaddr_node_addr node)"
  shows "frame_ok (frame_conf c) (eb_frame c node)"
  using assms link_mode_less [of c]
  by (auto simp: frame_ok_def fcf_ok_def aux_ok_def eb_frame_def zero_frame_def tsch_conf_ok_def node_addr_ok_def
      linkaddr_copy_def)

lemma eack_frame_ok:
  assumes "tsch_conf_ok c" and "node_addr_ok c (linkaddr_node_addr node)"
    and "\<And>d. dest = Some d \<Longrightarrow> node_addr_ok c d"
  shows "frame_ok (frame_conf c) (eack_frame c node dest seqno)"
proof -
  have la: "LINKADDR_SIZE (frame_conf c) \<le> 8" using assms(1) by (auto simp: tsch_conf_ok_def)
  have l: "length (linkaddr_copy (LINKADDR_SIZE (frame_conf c)) (replicate 8 0) a) = 8" if "node_addr_ok c a" for a
    using that la by (simp add: node_addr_ok_def linkaddr_copy_def)
  show ?thesis
    using la l assms(2,3) link_mode_less [of c]
    by (cases dest) (auto simp: frame_ok_def fcf_ok_def aux_ok_def eack_frame_def zero_frame_def Let_def)
qed

section \<open>Acknowledgements\<close>

lemma ack_step:
  assumes "mode s = PARSING_HEADER_IE" and "holds m (pos s) (wire_ack i)" and "4 \<le> room s"
  shows "ie_step m start s = Inr (s\<lparr>pos := pos s + 4, room := room s - 4,
           ies := (ies s)\<lparr>ie_is_nack := if ie_is_nack i \<noteq> 0 then 1 else 0,
                          ie_time_correction := signed_take_bit 11 (ie_time_correction i)\<rparr>\<rparr>)"
proof -
  have h: "holds m (pos s) (wire16le (header_desc 0x1e 2))" "holds m (pos s + 2) (drop 2 (wire_ack i))"
    using assms(2) by (simp_all add: wire_ack_def holds_append)
  have d: "READ16 m (pos s) = header_desc 0x1e 2" using h(1) by (rule READ16_holds)
  have e: "header_desc 0x1e 2 = 0x0f02" by (simp add: header_desc_def)
  show ?thesis
    using assms(1,3) parse_ack [OF h(2), of "ies s"] unfolding ie_step_def Let_def d e
    by (simp add: header_ie_step_def Let_def offsets)
qed

lemma parse_ack_element:
  assumes "holds m b (wire_ack i)"
  shows "frame802154e_parse_information_elements m b 4 j =
    (4, j\<lparr>ie_payload_ie_offset := 4, ie_is_nack := if ie_is_nack i \<noteq> 0 then 1 else 0,
           ie_time_correction := signed_take_bit 11 (ie_time_correction i)\<rparr>)"
proof -
  define s where "s = \<lparr>mode = PARSING_HEADER_IE, pos = b, room = 4, nested_mlme_len = 0,
      ies = j\<lparr>ie_payload_ie_offset := 0\<rparr>\<rparr>"
  define t where "t = \<lparr>mode = PARSING_HEADER_IE, pos = b + 4, room = 0, nested_mlme_len = 0,
      ies = j\<lparr>ie_payload_ie_offset := 0, ie_is_nack := if ie_is_nack i \<noteq> 0 then 1 else 0,
           ie_time_correction := signed_take_bit 11 (ie_time_correction i)\<rparr>\<rparr>"
  have u: "unat (4 :: u8) = 4" by simp
  have "ie_step m b s = Inr t"
    using ack_step [of s m i b] assms by (simp add: s_def t_def)
  then have "ie_loop_run m b s = ie_loop_run m b t" by (rule loop_go) (simp add: s_def)
  also have "\<dots> = (4, (ies t)\<lparr>ie_payload_ie_offset := 4\<rparr>)"
    by (subst ie_loop_run.simps) (simp add: t_def)
  finally show ?thesis
    unfolding frame802154e_parse_information_elements_def u s_def [symmetric] by (simp add: t_def)
qed

lemma extract_dest:
  assumes "header_agrees (frame_conf c) p q" and "LINKADDR_SIZE (frame_conf c) = la"
    and "src_addr_mode (fcf p) = 0 \<or> src_addr_mode (fcf p) \<in> {2, 3} \<and> addr_len (src_addr_mode (fcf p)) = la"
    and "dest_addr_mode (fcf p) = 0 \<or> dest_addr_mode (fcf p) \<in> {2, 3} \<and> addr_len (dest_addr_mode (fcf p)) = la"
    and "length d = la" and "length (src_addr p) = 8" and "length (dest_addr p) = 8"
  shows "frame802154_extract_linkaddr (frame_conf c) q None (Some d) =
           (True, None, Some (link_address la (dest_addr_mode (fcf p)) (dest_addr p)))"
proof -
  have f: "fcf q = fcf p"
    and ts: "take (addr_len (src_addr_mode (fcf p))) (src_addr q) = take (addr_len (src_addr_mode (fcf p))) (src_addr p)"
    and td: "take (addr_len (dest_addr_mode (fcf p))) (dest_addr q) = take (addr_len (dest_addr_mode (fcf p))) (dest_addr p)"
    using assms(1) by (simp_all add: header_agrees_def)
  have "extract_one la (src_addr_mode (fcf p)) (src_addr q) (Some d) =
      Some (Some (link_address la (src_addr_mode (fcf p)) (src_addr p)))"
    by (rule extract_one_link_address [OF assms(3,5,6) ts])
  then have "extract_one la (src_addr_mode (fcf p)) (src_addr q) None = Some None"
    by (auto simp: extract_one_def Let_def split: if_splits)
  moreover have "extract_one la (dest_addr_mode (fcf p)) (dest_addr q) (Some d) =
      Some (Some (link_address la (dest_addr_mode (fcf p)) (dest_addr p)))"
    by (rule extract_one_link_address [OF assms(4,5,7) td])
  ultimately show ?thesis by (simp add: frame802154_extract_linkaddr_def f assms(2))
qed

lemma eack_frame_fields:
  "frame_version (fcf (eack_frame c node dest seqno)) = 2"
  "sequence_number_suppression (fcf (eack_frame c node dest seqno)) = 0"
  "ie_list_present (fcf (eack_frame c node dest seqno)) = 1"
  "panid_compression (fcf (eack_frame c node dest seqno)) = 0"
  "seq (eack_frame c node dest seqno) = seqno" "dest_pid (eack_frame c node dest seqno) = IEEE802154_PANID c"
  "dest_addr_mode (fcf (eack_frame c node (Some d) seqno)) =
     (if TSCH_PACKET_EACK_WITH_DEST_ADDR c then link_mode c else 0)"
  "src_addr_mode (fcf (eack_frame c node dest seqno)) =
     (if TSCH_PACKET_EACK_WITH_SRC_ADDR c then link_mode c else 0)"
  by (simp_all add: eack_frame_def zero_frame_def Let_def split: option.splits)

lemma eack_dest_addr:
  "node_addr_ok c d \<Longrightarrow> TSCH_PACKET_EACK_WITH_DEST_ADDR c \<Longrightarrow>
     take (LINKADDR_SIZE (frame_conf c)) (dest_addr (eack_frame c node (Some d) seqno)) = d"
  by (simp add: eack_frame_def zero_frame_def Let_def node_addr_ok_def linkaddr_copy_def)

lemma link_address_cases:
  assumes "k = 0 \<or> addr_len k = la \<and> take la a = x"
  shows "link_address la k a = linkaddr_null la \<or> link_address la k a = x"
  using assms by (auto simp: link_address_def)

lemma eack_created:
  assumes "tsch_conf_ok c" and "node_addr_ok c (linkaddr_node_addr node)" and "node_addr_ok c d"
    and "41 \<le> buf_size" and "length (dest_addr pf) = 8" and "length (src_addr pf) = 8"
    and "length (frame_counter (aux_hdr pf)) = 4"
  shows "\<exists>m n q. tsch_packet_create_eack c node buf buf_size (Some d) seqno drift nack i0 = Inr (m, of_nat (n + 4)) \<and>
    3 \<le> n \<and> n \<le> 37 \<and> holds m n (wire_ack (i0\<lparr>ie_time_correction := drift, ie_is_nack := ucast nack\<rparr>)) \<and>
    frame802154_parse (frame_conf c) m (int (n + 4)) pf = (n, q) \<and>
    header_agrees (frame_conf c) (eack_frame c node (Some d) seqno) q"
proof -
  define p where "p = eack_frame c node (Some d) seqno"
  define i where "i = i0\<lparr>ie_time_correction := drift, ie_is_nack := ucast nack\<rparr>"
  have ok: "frame_ok (frame_conf c) p"
    unfolding p_def by (rule eack_frame_ok [OF assms(1,2)]) (use assms(3) in auto)
  have sc: "set_compression p = p" by (rule no_compression_set) (simp add: p_def eack_frame_fields)
  obtain m0 n where m0: "start_frame c p buf = Inr (m0, of_nat n)" "2 \<le> n" "n \<le> 37"
    "n = snd (frame802154_hdrlen (frame_conf c) p)"
    and parse: "\<And>m' len. same_upto n m0 m' \<Longrightarrow> int n \<le> len \<Longrightarrow>
       \<exists>q. frame802154_parse (frame_conf c) m' len pf = (n, q) \<and> header_agrees (frame_conf c) p q"
    using start_frame_parse [OF ok assms(5-7), of buf] unfolding sc by blast
  have "seqno_len (snd (field_len (frame_conf c) p)) = 1"
    unfolding field_len_def sc by (simp add: Let_def p_def eack_frame_fields split: prod.splits)
  then have n3: "3 \<le> n"
    unfolding m0(4) by (cases "field_len (frame_conf c) p") (simp add: frame802154_hdrlen_def)
  have un: "unat (of_nat n :: u8) = n" using m0(3) by (simp add: unat_of_nat)
  have ui: "uint (of_nat n :: u8) = int n"
    using m0(3) by (simp add: unsigned_of_nat take_bit_nat_eq_self)
  have l: "length (wire_ack i) = 4" by (simp add: wire_ack_def)
  obtain m where m: "frame80215e_create_ie_header_ack_nack_time_correction m0 n (buf_size - int n) (Some i) = Some (m, 4)"
    "holds m n (wire_ack i)" "\<forall>a<n. m a = m0 a"
    using ack.writes [of i "buf_size - int n" m0 n] l m0(3) assms(4) by auto
  have "tsch_packet_create_eack c node buf buf_size (Some d) seqno drift nack i0 = Inr (m, of_nat (n + 4))"
    unfolding tsch_packet_create_eack_def p_def [symmetric] m0(1) i_def [symmetric]
    by (simp add: and_then_def append_ie_def un ui m(1) add.commute)
  moreover have "same_upto n m0 m" using m(3) by (simp add: same_upto_def)
  ultimately show ?thesis using parse [of m "int (n + 4)"] m(2) n3 m0(3) by (auto simp: p_def i_def)
qed

lemma parse_eack_at:
  assumes "frame802154_parse (frame_conf c) m len pf = (n, q)" and "3 \<le> n" and "0 \<le> len"
    and "seq q = seqno" and "frame802154_check_dest_panid (mac_pan_id node) q"
    and "frame802154_extract_linkaddr (frame_conf c) q None (Some (replicate (LINKADDR_SIZE (frame_conf c)) 0)) =
           (True, None, Some d)"
    and "d = linkaddr_null (LINKADDR_SIZE (frame_conf c)) \<or> d = linkaddr_node_addr node"
  shows "tsch_packet_parse_eack c node m len seqno pf i0 h0 ies0 = parse_ies m len q (of_nat n) (of_nat n) ies0"
  using assms by (auto simp: tsch_packet_parse_eack_def Let_def linkaddr_cmp_def)

lemma parse_ies_ack:
  assumes "holds m n (wire_ack i)" and "n \<le> 37" and "ie_list_present (fcf q) \<noteq> 0"
  shows "parse_ies m (int (n + 4)) q (of_nat n) h j = (int (n + 4), q,
      j\<lparr>ie_payload_ie_offset := 4, ie_is_nack := if ie_is_nack i \<noteq> 0 then 1 else 0,
         ie_time_correction := signed_take_bit 11 (ie_time_correction i)\<rparr>, h + 4)"
proof -
  have un: "unat (of_nat n :: u8) = n" using assms(2) by (simp add: unat_of_nat)
  have un4: "unat (of_nat n + 4 :: u8) = n + 4"
    using assms(2) un by (simp add: unat_word_ariths)
  show ?thesis
    using assms(3) parse_ack_element [OF assms(1), of j] by (simp add: parse_ies_def un un4)
qed

text \<open>C32: A node that acknowledges a frame of its neighbour with its clock drift and, where it has no room for
  the frame, a negative acknowledgement, is understood if the PAN identifier of the neighbour is the
  compile-time \<open>IEEE802154_PANID\<close> that acknowledgements carry: the neighbour parses
  what was built in a buffer of at least 41 bytes and gets the drift, as the 12-bit signed number
  that the element carries, and the flag, as the 8 bits that the builder keeps of it. An
  acknowledgement of another sequence number is refused. The build has no link-layer security. In a
  network with another identifier every acknowledgement is refused:
  \<open>eack_foreign_pan_refused\<close>.\<close>

theorem eack_round_trip:
  assumes "tsch_conf_ok c" and "node_addr_ok c (linkaddr_node_addr node)"
    and "node_addr_ok c (linkaddr_node_addr neighbour)" and "mac_pan_id neighbour = IEEE802154_PANID c"
    and "41 \<le> buf_size" and "length (dest_addr pf) = 8" and "length (src_addr pf) = 8"
    and "length (frame_counter (aux_hdr pf)) = 4"
  shows "\<exists>m n q. tsch_packet_create_eack c node buf buf_size (Some (linkaddr_node_addr neighbour)) seqno drift nack zero_ies
             = Inr (m, n) \<and>
           tsch_packet_parse_eack c neighbour m (int (unat n)) seqno pf i0 h0 zero_ies =
             (int (unat n), q, zero_ies\<lparr>ie_payload_ie_offset := 4, ie_is_nack := if (ucast nack :: u8) \<noteq> 0 then 1 else 0,
                                ie_time_correction := signed_take_bit 11 drift\<rparr>, n) \<and>
           (\<forall>other. other \<noteq> seqno \<longrightarrow> fst (tsch_packet_parse_eack c neighbour m (int (unat n)) other pf i0 h0 zero_ies) = 0)"
proof -
  define d where "d = linkaddr_node_addr neighbour"
  define p where "p = eack_frame c node (Some d) seqno"
  define la where "la = LINKADDR_SIZE (frame_conf c)"
  obtain m n q where cr: "tsch_packet_create_eack c node buf buf_size (Some d) seqno drift nack zero_ies = Inr (m, of_nat (n + 4))"
    and n: "3 \<le> n" "n \<le> 37" and w: "holds m n (wire_ack (zero_ies\<lparr>ie_time_correction := drift, ie_is_nack := ucast nack\<rparr>))"
    and q: "frame802154_parse (frame_conf c) m (int (n + 4)) pf = (n, q)"
    and h: "header_agrees (frame_conf c) p q"
    using eack_created [OF assms(1,2,3,5-8), of buf seqno drift nack zero_ies] unfolding d_def p_def by blast
  have f: "fcf q = fcf p" and s: "seq q = seqno"
    and pid: "snd (frame802154_has_panid (fcf p)) \<Longrightarrow> dest_pid q = IEEE802154_PANID c"
    using h by (simp_all add: header_agrees_def p_def eack_frame_fields)
  have panid: "frame802154_check_dest_panid (mac_pan_id neighbour) q"
    using pid by (auto simp: frame802154_check_dest_panid_def f frame802154_get_pan_id_def assms(4) split: prod.splits)
  have ok: "frame_ok (frame_conf c) p"
    unfolding p_def by (rule eack_frame_ok [OF assms(1,2)]) (use assms(3) in \<open>auto simp: d_def\<close>)
  have modes: "src_addr_mode (fcf p) = 0 \<or> src_addr_mode (fcf p) \<in> {2, 3} \<and> addr_len (src_addr_mode (fcf p)) = la"
    "dest_addr_mode (fcf p) = 0 \<or> dest_addr_mode (fcf p) \<in> {2, 3} \<and> addr_len (dest_addr_mode (fcf p)) = la"
    using link_mode [OF assms(1)] by (auto simp: p_def eack_frame_fields la_def)
  have ex: "frame802154_extract_linkaddr (frame_conf c) q None (Some (replicate la 0)) =
      (True, None, Some (link_address la (dest_addr_mode (fcf p)) (dest_addr p)))"
    using extract_dest [OF h _ modes] ok by (simp add: la_def frame_ok_def)
  have "link_address la (dest_addr_mode (fcf p)) (dest_addr p) = linkaddr_null la \<or>
      link_address la (dest_addr_mode (fcf p)) (dest_addr p) = d"
    by (rule link_address_cases)
      (use modes(2) eack_dest_addr [of c d node seqno] assms(3) in \<open>auto simp: p_def la_def d_def eack_frame_fields\<close>)
  then have "tsch_packet_parse_eack c neighbour m (int (n + 4)) seqno pf i0 h0 zero_ies =
      parse_ies m (int (n + 4)) q (of_nat n) (of_nat n) zero_ies"
    using n by (intro parse_eack_at [OF q _ _ s panid ex [unfolded la_def]]) (auto simp: la_def d_def)
  also have "\<dots> = (int (n + 4), q, zero_ies\<lparr>ie_payload_ie_offset := 4, ie_is_nack := if (ucast nack :: u8) \<noteq> 0 then 1 else 0,
      ie_time_correction := signed_take_bit 11 drift\<rparr>, of_nat (n + 4))"
    using parse_ies_ack [OF w n(2), of q "of_nat n" zero_ies] by (simp add: f p_def eack_frame_fields add.commute)
  finally have a: "tsch_packet_parse_eack c neighbour m (int (n + 4)) seqno pf i0 h0 zero_ies = \<dots>" .
  have u: "unat (of_nat (n + 4) :: u8) = n + 4" using n(2) by (simp add: unat_of_nat del: of_nat_add)
  have b: "fst (tsch_packet_parse_eack c neighbour m (int (n + 4)) other pf i0 h0 zero_ies) = 0"
    if "other \<noteq> seqno" for other
    using that q s by (simp add: tsch_packet_parse_eack_def Let_def)
  have b': "\<forall>other. other \<noteq> seqno \<longrightarrow>
      fst (tsch_packet_parse_eack c neighbour m (int (n + 4)) other pf i0 h0 zero_ies) = 0"
    using b by blast
  show ?thesis
    unfolding d_def [symmetric]
    by (rule exI [of _ m], rule exI [of _ "of_nat (n + 4)"], rule exI [of _ q])
      (use cr a b' u in \<open>simp only: simp_thms\<close>)
qed

section \<open>Beacons\<close>

text \<open>What a writer of elements promises, seen through the bookkeeping of the builder.\<close>

context ie_writer begin

lemma append_writes:
  assumes "holds m p bs" and "ok i" and "p + length bs + length (wire i) < 256"
    and "int (p + length bs + length (wire i)) \<le> buf_size"
  shows "\<exists>m'. append_ie create buf_size i (m, of_nat (p + length bs)) = Inr (m', of_nat (p + length (bs @ wire i))) \<and>
           holds m' p (bs @ wire i) \<and> (\<forall>a < p + length bs. m' a = m a)"
proof -
  have u: "unat (of_nat (p + length bs) :: u8) = p + length bs"
    using assms(3) by (simp add: unat_of_nat del: of_nat_add)
  have "int (length (wire i)) \<le> buf_size - int (p + length bs)" using assms(4) by simp
  from writes_after [OF assms(1,2) this] obtain m' where
    m': "create m (p + length bs) (buf_size - int (p + length bs)) (Some i) = Some (m', length (wire i))"
    "holds m' p (bs @ wire i)" "\<forall>a < p + length bs. m' a = m a"
    by blast
  have "append_ie create buf_size i (m, of_nat (p + length bs)) =
      Inr (m', of_nat (p + length bs) + of_nat (length (wire i)))"
    unfolding append_ie_def prod.case u m'(1) by simp
  then show ?thesis using m'(2,3) by (simp add: add.assoc)
qed

end

lemma term_blit:
  "frame80215e_create_ie_header_list_termination_1 m b len (Some i) =
     (if 2 \<le> len then Some (blit m b (wire16le (header_desc 0x7e 0)), 2) else None)"
  by (simp add: frame80215e_create_ie_header_list_termination_1_def create_header_ie_descriptor_def
      header_desc_def WRITE16_blit)

lemma mlme_blit:
  "frame80215e_create_ie_mlme m b len (Some i) =
     (if 2 \<le> len then Some (blit m b (wire16le (long_desc 1 (ie_mlme_len i))), 2) else None)"
  by (simp add: frame80215e_create_ie_mlme_def create_payload_ie_descriptor_def long_desc_def WRITE16_blit)

lemma sync_blit:
  assumes "8 \<le> len"
  shows "frame80215e_create_ie_tsch_synchronization m b len (Some i) = Some (blit m b (wire_sync i), 8)"
proof -
  define v where "v = [ucast (ls4b (ie_asn i)), ucast (drop_bit 8 (ls4b (ie_asn i))), ucast (drop_bit 16 (ls4b (ie_asn i))),
      ucast (drop_bit 24 (ls4b (ie_asn i))), ms1b (ie_asn i), ie_join_priority i]"
  have "blit m b (wire_sync i) = blit (blit m (b + 2) v) b (wire16le (short_desc 0x1a 6))"
    by (auto simp: wire_sync_def v_def [symmetric] blit_append) (auto simp: blit_def fun_eq_iff)
  then show ?thesis
    using assms
    by (simp add: frame80215e_create_ie_tsch_synchronization_def create_mlme_short_ie_descriptor_def
        short_desc_def WRITE16_blit v_def blit_Cons offsets)
qed

lemma eb_frame_fields:
  "frame_type (fcf (eb_frame c node)) = 0" "frame_version (fcf (eb_frame c node)) = 2"
  "ie_list_present (fcf (eb_frame c node)) = 1" "security_enabled (fcf (eb_frame c node)) = 0"
  "src_pid (eb_frame c node) = mac_pan_id node" "dest_addr_mode (fcf (eb_frame c node)) = 2"
  "sequence_number_suppression (fcf (eb_frame c node)) = 1"
  "src_addr_mode (fcf (eb_frame c node)) = link_mode c" "panid_compression (fcf (eb_frame c node)) = 0"
  by (simp_all add: eb_frame_def zero_frame_def frame802154_get_pan_id_def)

lemma eb_header_length:
  assumes "tsch_conf_ok c"
  shows "snd (frame802154_hdrlen (frame_conf c) (eb_frame c node)) \<le> 16"
proof -
  have "addr_len (link_mode c AND 3) \<le> 8" by (simp add: addr_len_def)
  then show ?thesis
    using no_compression_set [of "eb_frame c node"]
    by (simp add: frame802154_hdrlen_def field_len_def Let_def eb_frame_fields aux_len_def addr_len_def
        frame802154_has_panid_def)
qed

definition node_ok :: "tsch_node \<Rightarrow> bool" where
  "node_ok node \<longleftrightarrow> tsch_ts_elements_count \<le> length (timing_us node) \<and>
     unat (tsch_hopping_sequence_length node) \<le> length (tsch_hopping_sequence node)"

lemma zero_ies_ok: "ies_ok zero_ies"
  by (simp add: zero_ies_def ies_ok_def timeslot_ok_def hopping_ok_def slotframe_ok_def)

lemma eb_ies_ok:
  assumes "node_ok node"
  shows "ies_ok (eb_ies c node zero_ies)"
  using assms
  by (auto simp: eb_ies_def zero_ies_def ies_ok_def timeslot_ok_def hopping_ok_def slotframe_ok_def node_ok_def
      Let_def word_le_nat_alt split: option.splits)


lemma subs_written:
  assumes "ies_ok i" and "p + length (sub_elements i) < 256" and "int (p + length (sub_elements i)) \<le> buf_size"
  shows "\<exists>m'. (\<forall>f. and_then (append_ie frame80215e_create_ie_tsch_synchronization buf_size i (m, of_nat p)) (\<lambda>st2.
              and_then (append_ie frame80215e_create_ie_tsch_timeslot buf_size i st2) (\<lambda>st3.
              and_then (append_ie frame80215e_create_ie_tsch_channel_hopping_sequence buf_size i st3) (\<lambda>st4.
              and_then (append_ie frame80215e_create_ie_tsch_slotframe_and_link buf_size i st4) f))) =
            f (m', of_nat (p + length (sub_elements i)))) \<and>
           holds m' p (sub_elements i) \<and> (\<forall>a < p. m' a = m a)"
proof -
  have ok: "timeslot_ok i" "hopping_ok i" "slotframe_ok i" using assms(1) by (simp_all add: ies_ok_def)
  define w1 where "w1 = [] @ wire_sync i"
  define w2 where "w2 = w1 @ wire_timeslot i"
  define w3 where "w3 = w2 @ wire_hopping i"
  define w4 where "w4 = w3 @ wire_slotframe i"
  have w: "w4 = sub_elements i" by (simp add: w4_def w3_def w2_def w1_def sub_elements_def)
  have le: "length w1 \<le> length (sub_elements i)" "length w2 \<le> length (sub_elements i)"
    "length w3 \<le> length (sub_elements i)" "length w4 \<le> length (sub_elements i)"
    unfolding w [symmetric] by (simp_all add: w4_def w3_def w2_def)
  have r: "p + k < 256" "int (p + k) \<le> buf_size" if "k \<le> length (sub_elements i)" for k
    using that assms(2,3) by simp_all
  obtain m1 where m1: "append_ie frame80215e_create_ie_tsch_synchronization buf_size i (m, of_nat p) =
      Inr (m1, of_nat (p + length w1))" "holds m1 p w1" "\<forall>a < p. m1 a = m a"
    using sync.append_writes [of m p "[]" i buf_size] r [OF le(1)] by (auto simp: w1_def)
  obtain m2 where m2: "append_ie frame80215e_create_ie_tsch_timeslot buf_size i (m1, of_nat (p + length w1)) =
      Inr (m2, of_nat (p + length w2))" "holds m2 p w2" "\<forall>a < p + length w1. m2 a = m1 a"
    using timeslot.append_writes [OF m1(2) ok(1), of buf_size] r [OF le(2)] by (auto simp: w2_def simp del: of_nat_add)
  obtain m3 where m3: "append_ie frame80215e_create_ie_tsch_channel_hopping_sequence buf_size i (m2, of_nat (p + length w2)) =
      Inr (m3, of_nat (p + length w3))" "holds m3 p w3" "\<forall>a < p + length w2. m3 a = m2 a"
    using hopping.append_writes [OF m2(2) ok(2), of buf_size] r [OF le(3)] by (auto simp: w3_def simp del: of_nat_add)
  obtain m4 where m4: "append_ie frame80215e_create_ie_tsch_slotframe_and_link buf_size i (m3, of_nat (p + length w3)) =
      Inr (m4, of_nat (p + length w4))" "holds m4 p w4" "\<forall>a < p + length w3. m4 a = m3 a"
    using slotframe.append_writes [OF m3(2) ok(3), of buf_size] r [OF le(4)] by (auto simp: w4_def simp del: of_nat_add)
  show ?thesis
    using m1(3) m2(3) m3(3) m4(3) m4(2)
    by (intro exI [of _ m4]) (simp add: and_then_def m1(1) m2(1) m3(1) m4(1) w del: of_nat_add)
qed

lemma and_then_Inr: "and_then (Inr x) f = f x"
  by (simp add: and_then_def)

lemma byte_of: "x < 256 \<Longrightarrow> unat (of_nat x :: u8) = x"
  by (simp add: unat_of_nat)

lemma eb_created:
  assumes "tsch_conf_ok c" and "node_addr_ok c (linkaddr_node_addr node)" and "node_ok node" and "127 \<le> buf_size"
    and "length (dest_addr pf) = 8" and "length (src_addr pf) = 8" and "length (frame_counter (aux_hdr pf)) = 4"
    and "i = eb_ies c node zero_ies" and "k = length (sub_elements i)"
  shows "\<exists>m n. tsch_packet_create_eb c node buf buf_size zero_ies =
      Inr (m, of_nat (n + 4 + k), of_nat (n + 2), of_nat (n + 4)) \<and> n \<le> 16 \<and> holds m n (beacon_elements i) \<and> 2 \<le> n \<and>
    (\<forall>m' len. same_upto n m m' \<longrightarrow> int n \<le> len \<longrightarrow>
       (\<exists>q. frame802154_parse (frame_conf c) m' len pf = (n, q) \<and> header_agrees (frame_conf c) (eb_frame c node) q))"
proof -
  have sc: "set_compression (eb_frame c node) = eb_frame c node"
    by (rule no_compression_set) (simp add: eb_frame_fields)
  obtain m0 n where m0: "start_frame c (eb_frame c node) buf = Inr (m0, of_nat n)" "2 \<le> n"
    "n = snd (frame802154_hdrlen (frame_conf c) (eb_frame c node))"
    and parse: "\<And>m' len. same_upto n m0 m' \<Longrightarrow> int n \<le> len \<Longrightarrow>
       \<exists>q. frame802154_parse (frame_conf c) m' len pf = (n, q) \<and> header_agrees (frame_conf c) (eb_frame c node) q"
    using start_frame_parse [OF eb_frame_ok [OF assms(1,2)] assms(5-7), of buf] unfolding sc by blast
  have n: "n \<le> 16" using eb_header_length [OF assms(1)] m0(3) by simp
  have ok: "ies_ok i" using eb_ies_ok [OF assms(3)] assms(8) by simp
  have k: "k \<le> 92" using sub_elements_length [OF ok] assms(9) by simp
  have u: "unat (of_nat n :: u8) = n" "unat (of_nat (n + 2) :: u8) = n + 2" "unat (of_nat (n + 4 + k) :: u8) = n + 4 + k"
    using n k byte_of [of n] byte_of [of "n + 2"] byte_of [of "n + 4 + k"] by simp_all
  define m1 where "m1 = blit m0 n (wire16le (header_desc 0x7e 0))"
  have t: "append_ie frame80215e_create_ie_header_list_termination_1 buf_size i (m0, of_nat n) = Inr (m1, of_nat (n + 2))"
    using assms(4) n unfolding append_ie_def prod.case u term_blit by (simp add: m1_def)
  obtain m5 where s: "\<And>f :: mem \<times> u8 \<Rightarrow> int + mem \<times> u8 \<times> u8 \<times> u8. and_then (append_ie frame80215e_create_ie_tsch_synchronization buf_size i (m1, of_nat (n + 4))) (\<lambda>st2.
              and_then (append_ie frame80215e_create_ie_tsch_timeslot buf_size i st2) (\<lambda>st3.
              and_then (append_ie frame80215e_create_ie_tsch_channel_hopping_sequence buf_size i st3) (\<lambda>st4.
              and_then (append_ie frame80215e_create_ie_tsch_slotframe_and_link buf_size i st4) f))) =
            f (m5, of_nat (n + 4 + k))"
    and m5: "holds m5 (n + 4) (sub_elements i)" "\<forall>a < n + 4. m5 a = m1 a"
    using subs_written [OF ok, of "n + 4" buf_size m1] assms(4,9) n k by auto
  define m6 where "m6 = blit m5 (n + 2) (wire16le (long_desc 1 (of_nat k)))"
  have a2: "(of_nat (n + 2) :: u8) + 2 = of_nat (n + 4)" by simp
  have l: "append_ie frame80215e_create_ie_mlme buf_size
      (i\<lparr>ie_mlme_len := of_int (int (unat (of_nat (n + 4 + k) :: u8)) - int (unat (of_nat (n + 2) :: u8)) - 2)\<rparr>)
      (m5, of_nat (n + 2)) = Inr (m6, of_nat (n + 4))"
    using assms(4) n unfolding append_ie_def prod.case u mlme_blit by (simp add: m6_def)
  have "tsch_packet_create_eb c node buf buf_size zero_ies =
      Inr (m6, of_nat (n + 4 + k), of_nat (n + 2), of_nat (n + 4))"
    using assms(1,4)
    unfolding tsch_packet_create_eb_def assms(8) [symmetric] Let_def m0(1) and_then_Inr t prod.case a2
    unfolding s prod.case l and_then_Inr by (simp add: tsch_conf_ok_def)
  moreover have "holds m5 n (wire16le (header_desc 0x7e 0))"
    using m5(2) by (simp add: holds_def m1_def blit_def)
  then have "holds m6 n (beacon_elements i)"
    using m5(1) by (simp add: beacon_elements_def holds_append m6_def holds_blit_below holds_blit_above assms(9) [symmetric]
        offsets)
  moreover have "same_upto n m0 m6" using m5(2) by (simp add: same_upto_def m6_def m1_def blit_below)
  then have "same_upto n m0 m'" if "same_upto n m6 m'" for m' using that by (simp add: same_upto_def)
  ultimately show ?thesis using n m0(2) parse by blast
qed


text \<open>The synchronisation element has a fixed place in the beacon, and rewriting it changes that
  element only.\<close>

lemma rewritten_elements:
  assumes "i' = i\<lparr>ie_asn := asn, ie_join_priority := prio\<rparr>"
  shows "wire_timeslot i' = wire_timeslot i" "wire_hopping i' = wire_hopping i" "wire_slotframe i' = wire_slotframe i"
    "length (sub_elements i') = length (sub_elements i)"
proof -
  show e: "wire_timeslot i' = wire_timeslot i" "wire_hopping i' = wire_hopping i" "wire_slotframe i' = wire_slotframe i"
    by (simp_all add: assms wire_timeslot_def wire_hopping_def wire_slotframe_def)
  show "length (sub_elements i') = length (sub_elements i)"
    by (simp add: sub_elements_def e) (simp add: wire_sync_def)
qed

lemma beacon_rewrite:
  assumes "holds m n (beacon_elements i)" and "i' = i\<lparr>ie_asn := asn, ie_join_priority := prio\<rparr>"
  shows "holds (blit m (n + 4) (wire_sync i')) n (beacon_elements i')"
proof -
  have l: "length (wire_sync j) = 8" for j by (simp add: wire_sync_def)
  show ?thesis
    using assms(1)
    by (simp add: beacon_elements_def sub_elements_def holds_append rewritten_elements [OF assms(2)] l holds_blit_above holds_blit_below offsets)
qed

text \<open>What the parser keeps of the elements of such a beacon is what the builder put in: what an
  element leaves out is the same in the two structures.\<close>

lemma got_all_same:
  assumes "ie_tsch_timeslot_id i = 0 \<longrightarrow> ie_tsch_timeslot i = ie_tsch_timeslot j"
    and "ie_channel_hopping_sequence_id i = 0 \<longrightarrow> ie_hopping_sequence_len i = ie_hopping_sequence_len j \<and>
           ie_hopping_sequence_list i = ie_hopping_sequence_list j"
    and "drop (unat (ie_hopping_sequence_len i)) (ie_hopping_sequence_list i) =
         drop (unat (ie_hopping_sequence_len i)) (ie_hopping_sequence_list j)"
    and "num_slotframes (ie_tsch_slotframe_and_link i) = 0 \<longrightarrow> ie_tsch_slotframe_and_link i = ie_tsch_slotframe_and_link j"
    and "drop (unat (num_links (ie_tsch_slotframe_and_link i))) (links (ie_tsch_slotframe_and_link i)) =
         drop (unat (num_links (ie_tsch_slotframe_and_link i))) (links (ie_tsch_slotframe_and_link j))"
  shows "got_all i j = i\<lparr>ie_time_correction := ie_time_correction j, ie_is_nack := ie_is_nack j,
           ie_payload_ie_offset := ie_payload_ie_offset j, ie_mlme_len := ie_mlme_len j\<rparr>"
proof -
  have t: "got_timeslot i k = k\<lparr>ie_tsch_timeslot_id := ie_tsch_timeslot_id i, ie_tsch_timeslot := ie_tsch_timeslot i\<rparr>"
    if "ie_tsch_timeslot k = ie_tsch_timeslot j" for k
    using assms(1) that by (cases k) (simp add: got_timeslot_def Let_def)
  have h: "got_hopping i k = k\<lparr>ie_channel_hopping_sequence_id := ie_channel_hopping_sequence_id i,
      ie_hopping_sequence_len := ie_hopping_sequence_len i, ie_hopping_sequence_list := ie_hopping_sequence_list i\<rparr>"
    if "ie_hopping_sequence_len k = ie_hopping_sequence_len j" "ie_hopping_sequence_list k = ie_hopping_sequence_list j" for k
    using assms(2) that by (cases k) (simp add: got_hopping_def Let_def assms(3) [symmetric])
  have s: "got_slotframe i k = k\<lparr>ie_tsch_slotframe_and_link := ie_tsch_slotframe_and_link i\<rparr>"
    if "ie_tsch_slotframe_and_link k = ie_tsch_slotframe_and_link j" for k
    using assms(4) that by (cases k) (simp add: got_slotframe_def Let_def assms(5) [symmetric])
  show ?thesis
    unfolding got_all_def got_sync_def by (simp add: t h s)
qed

lemma eb_ies_fields:
  assumes "node_ok node" and "i = eb_ies c node zero_ies" and "j = zero_ies"
  shows "ie_tsch_timeslot_id i = 0 \<longrightarrow> ie_tsch_timeslot i = ie_tsch_timeslot j"
    and "ie_channel_hopping_sequence_id i = 0 \<longrightarrow> ie_hopping_sequence_len i = ie_hopping_sequence_len j \<and>
           ie_hopping_sequence_list i = ie_hopping_sequence_list j"
    and "drop (unat (ie_hopping_sequence_len i)) (ie_hopping_sequence_list i) =
         drop (unat (ie_hopping_sequence_len i)) (ie_hopping_sequence_list j)"
    and "num_slotframes (ie_tsch_slotframe_and_link i) = 0 \<longrightarrow> ie_tsch_slotframe_and_link i = ie_tsch_slotframe_and_link j"
    and "drop (unat (num_links (ie_tsch_slotframe_and_link i))) (links (ie_tsch_slotframe_and_link i)) =
         drop (unat (num_links (ie_tsch_slotframe_and_link i))) (links (ie_tsch_slotframe_and_link j))"
    and "ie_time_correction i = 0" and "ie_is_nack i = 0" and "ie_mlme_len i = 0"
  using assms(1) by (simp_all add: assms(2,3) eb_ies_def zero_ies_def Let_def node_ok_def split: option.splits)

lemma got_all_eb:
  assumes "node_ok node"
  shows "got_all ((eb_ies c node zero_ies)\<lparr>ie_asn := asn, ie_join_priority := prio\<rparr>)
       (zero_ies\<lparr>ie_join_priority := x, ie_payload_ie_offset := y\<rparr>) =
     (eb_ies c node zero_ies)\<lparr>ie_asn := asn, ie_join_priority := prio, ie_payload_ie_offset := y\<rparr>"
proof -
  define i where "i = eb_ies c node zero_ies"
  define j where "j = zero_ies"
  note f = eb_ies_fields [OF assms i_def j_def]
  have "ie_time_correction j = 0" "ie_is_nack j = 0" "ie_mlme_len j = 0" by (simp_all add: j_def zero_ies_def)
  with f show ?thesis
    unfolding i_def [symmetric] unfolding j_def [symmetric]
    by (subst got_all_same) simp_all
qed


lemma got_all_offset: "ie_payload_ie_offset (got_all i j) = ie_payload_ie_offset j"
  by (simp add: got_all_def got_sync_def got_timeslot_def got_hopping_def got_slotframe_def Let_def)

lemma parse_ies_beacon:
  assumes "holds m n (beacon_elements i)" and "ies_ok i" and "ies_ok j" and "n \<le> 16" and "ie_list_present (fcf q) \<noteq> 0"
    and "k = length (sub_elements i)"
  shows "parse_ies m (int (n + 4 + k)) q (of_nat n) (of_nat n) j =
     (int (n + 4 + k), q, got_all i (j\<lparr>ie_payload_ie_offset := 2\<rparr>), of_nat (n + 2))"
proof -
  have k: "k \<le> 92" using sub_elements_length [OF assms(2)] assms(6) by simp
  have l: "length (beacon_elements i) = k + 4" by (simp add: beacon_elements_def assms(6))
  have un: "unat (of_nat n :: u8) = n" using byte_of [of n] assms(4) by simp
  have r: "of_int (int (n + 4 + k) - int n) = (of_nat (k + 4) :: u8)" by simp
  have s: "unat ((of_nat n :: u8) + of_int (int (k + 4))) = n + 4 + k"
    using byte_of [of "n + 4 + k"] assms(4) k by (simp add: ac_simps)
  show ?thesis
    using assms(5) parse_beacon_elements [OF assms(2,3,1)]
    by (simp only: parse_ies_def un r l s Let_def prod.case got_all_offset if_True not_False_eq_True) (simp add: add.commute)
qed

text \<open>C23: A beacon that a node builds in a buffer of at least 127 bytes, and into which it puts the current
  slot number and its join priority before it sends it, is parsed by a node of the same
  configuration: the receiver gets the slot number, the priority, the timing, the hopping sequence
  and the link that the sender announced, and the sender's PAN identifier. The update gets the
  length of the packet, as its callers pass it, or more. The build has addresses of 2 or 8 bytes,
  frames of 127 bytes and no link-layer security, and the elements that the sender keeps are as long
  as their arrays.\<close>

theorem beacon_round_trip:
  assumes "tsch_conf_ok c" and "node_addr_ok c (linkaddr_node_addr node)" and "node_ok node" and "127 \<le> buf_size"
    and "length (dest_addr pf) = 8" and "length (src_addr pf) = 8" and "length (frame_counter (aux_hdr pf)) = 4"
  shows "\<exists>m n hdr_len off q. tsch_packet_create_eb c node buf buf_size zero_ies = Inr (m, n, hdr_len, off) \<and>
     src_pid q = mac_pan_id node \<and>
     (\<forall>buf_size'. int (unat n) \<le> buf_size' \<longrightarrow>
        tsch_packet_parse_eb c (tsch_packet_update_eb m buf_size' off asn prio stale) (int (unat n)) pf i0 h0 zero_ies =
          (int (unat n), q,
           (eb_ies c node zero_ies)\<lparr>ie_asn := asn, ie_join_priority := prio, ie_payload_ie_offset := 2\<rparr>, hdr_len))"
proof -
  define i where "i = eb_ies c node zero_ies"
  define i' where "i' = i\<lparr>ie_asn := asn, ie_join_priority := prio\<rparr>"
  define k where "k = length (sub_elements i)"
  obtain m n where cr: "tsch_packet_create_eb c node buf buf_size zero_ies =
      Inr (m, of_nat (n + 4 + k), of_nat (n + 2), of_nat (n + 4))"
    and n: "n \<le> 16" and n2: "2 \<le> n" and w: "holds m n (beacon_elements i)"
    and parse: "\<And>m' len. same_upto n m m' \<Longrightarrow> int n \<le> len \<Longrightarrow>
       \<exists>q. frame802154_parse (frame_conf c) m' len pf = (n, q) \<and> header_agrees (frame_conf c) (eb_frame c node) q"
    using eb_created [OF assms(1-7) i_def k_def, of buf] by blast
  define m' where "m' = blit m (n + 4) (wire_sync i')"
  have k8: "8 \<le> k" by (simp add: k_def sub_elements_def wire_sync_def)
  have up: "tsch_packet_update_eb m buf_size' (of_nat (n + 4)) asn prio stale = m'" if "int (n + 4 + k) \<le> buf_size'" for buf_size'
  proof -
    have u: "unat (of_nat (n + 4) :: u8) = n + 4" using byte_of [of "n + 4"] n by simp
    have "wire_sync (stale\<lparr>ie_asn := asn, ie_join_priority := prio\<rparr>) = wire_sync i'"
      by (simp add: wire_sync_def i'_def)
    then show ?thesis
      using that k8 unfolding tsch_packet_update_eb_def u by (simp add: sync_blit m'_def)
  qed
  have ok: "ies_ok i'" "ies_ok (zero_ies\<lparr>ie_join_priority := 0xff\<rparr>)"
    using eb_ies_ok [OF assms(3), of c] zero_ies_ok
    by (simp_all add: i'_def i_def ies_ok_def timeslot_ok_def hopping_ok_def slotframe_ok_def)
  have k: "length (sub_elements i') = k" "k \<le> 92"
    using sub_elements_length [OF ok(1)] rewritten_elements(4) [OF i'_def] by (simp_all add: k_def)
  have w': "holds m' n (beacon_elements i')" unfolding m'_def by (rule beacon_rewrite [OF w]) (simp add: i'_def)
  have "same_upto n m m'" by (simp add: same_upto_def m'_def blit_below)
  then obtain q where q: "frame802154_parse (frame_conf c) m' (int (n + 4 + k)) pf = (n, q)"
    and h: "header_agrees (frame_conf c) (eb_frame c node) q"
    using parse [of m' "int (n + 4 + k)"] by auto
  have f: "fcf q = fcf (eb_frame c node)" using h by (simp add: header_agrees_def)
  have pid: "src_pid q = mac_pan_id node"
    using h link_mode [OF assms(1)] by (auto simp: header_agrees_def frame802154_has_panid_def eb_frame_fields Let_def)
  have p: "tsch_packet_parse_eb c m' (int (n + 4 + k)) pf i0 h0 zero_ies =
      parse_ies m' (int (n + 4 + k)) q (of_nat n) (of_nat n) (zero_ies\<lparr>ie_join_priority := 0xff\<rparr>)"
    using n2 by (simp add: tsch_packet_parse_eb_def q f eb_frame_fields del: of_nat_add)
  also have "\<dots> = (int (n + 4 + k), q, i'\<lparr>ie_payload_ie_offset := 2\<rparr>, of_nat (n + 2))"
    using parse_ies_beacon [OF w' ok n, of q] k(1) got_all_eb [OF assms(3), where c = c and asn = asn and prio = prio] f
    by (simp add: i'_def i_def eb_frame_fields del: of_nat_add)
  finally have r: "tsch_packet_parse_eb c m' (int (n + 4 + k)) pf i0 h0 zero_ies = \<dots>" .
  have u: "int (unat (of_nat (n + 4 + k) :: u8)) = int (n + 4 + k)" using byte_of [of "n + 4 + k"] n k by simp
  show ?thesis
    by (intro exI [of _ m] exI [of _ "of_nat (n + 4 + k)"] exI [of _ "of_nat (n + 2)"] exI [of _ "of_nat (n + 4)"]
        exI [of _ q] conjI cr pid allI impI) (unfold u, subst up, assumption, unfold r, simp add: i'_def i_def)
qed

definition sample_tsch :: tsch_config where
  "sample_tsch = \<lparr>frame_conf = \<lparr>LLSEC802154_USES_AUX_HEADER = False, LLSEC802154_USES_EXPLICIT_KEYS = False,
       LINKADDR_SIZE = 8\<rparr>,
     IEEE802154_PANID = 0xabcd, TSCH_PACKET_MAX_LEN = 127, TSCH_PACKET_EACK_WITH_DEST_ADDR = True,
     TSCH_PACKET_EACK_WITH_SRC_ADDR = False, TSCH_PACKET_EB_WITH_TIMESLOT_TIMING = True,
     TSCH_PACKET_EB_WITH_HOPPING_SEQUENCE = True, TSCH_PACKET_EB_WITH_SLOTFRAME_AND_LINK = True\<rparr>"

definition sample_node :: tsch_node where
  "sample_node = \<lparr>linkaddr_node_addr = [1, 2, 3, 4, 5, 6, 7, 8], mac_pan_id = 0xabcd,
     timing_us = replicate 12 1800, tsch_hopping_sequence_length = 4, tsch_hopping_sequence = [15, 25, 20, 26],
     link0 = Some (0, 7, \<lparr>timeslot = 0, channel_offset = 0, link_options = 15\<rparr>)\<rparr>"

lemma sample_tsch_ok:
  "tsch_conf_ok sample_tsch" "node_addr_ok sample_tsch (linkaddr_node_addr sample_node)" "node_ok sample_node"
  "mac_pan_id sample_node = IEEE802154_PANID sample_tsch" "length (dest_addr zero_frame) = 8"
  "length (src_addr zero_frame) = 8" "length (frame_counter (aux_hdr zero_frame)) = 4"
  by (simp_all add: sample_tsch_def sample_node_def tsch_conf_ok_def node_addr_ok_def node_ok_def zero_frame_def)

theorem beacon_round_trip_witness:
  "\<exists>m n hdr_len off q. tsch_packet_create_eb sample_tsch sample_node (\<lambda>_. 0) 127 zero_ies = Inr (m, n, hdr_len, off) \<and>
     tsch_packet_parse_eb sample_tsch (tsch_packet_update_eb m (int (unat n)) off \<lparr>ls4b = 77, ms1b = 1\<rparr> 3 zero_ies)
         (int (unat n)) zero_frame zero_ies 0 zero_ies =
       (int (unat n), q, (eb_ies sample_tsch sample_node zero_ies)
          \<lparr>ie_asn := \<lparr>ls4b = 77, ms1b = 1\<rparr>, ie_join_priority := 3, ie_payload_ie_offset := 2\<rparr>, hdr_len)"
proof -
  have "127 \<le> (127 :: int)" by simp
  from beacon_round_trip [OF sample_tsch_ok(1-3) this sample_tsch_ok(5-7),
      of "\<lambda>_. 0" "\<lparr>ls4b = 77, ms1b = 1\<rparr>" 3 zero_ies zero_ies 0]
  show ?thesis by (elim exE conjE allE impE) (rule order_refl, intro exI conjI, assumption+)
qed

theorem eack_round_trip_witness:
  "\<exists>m n q. tsch_packet_create_eack sample_tsch sample_node (\<lambda>_. 0) 64 (Some (linkaddr_node_addr sample_node)) 9 0xfff0 1 zero_ies
      = Inr (m, n) \<and>
    tsch_packet_parse_eack sample_tsch sample_node m (int (unat n)) 9 zero_frame zero_ies 0 zero_ies =
      (int (unat n), q, zero_ies\<lparr>ie_payload_ie_offset := 4, ie_is_nack := if (ucast (1 :: u16) :: u8) \<noteq> 0 then 1 else 0,
         ie_time_correction := signed_take_bit 11 0xfff0\<rparr>, n)"
proof -
  have "41 \<le> (64 :: int)" by simp
  from eack_round_trip [OF sample_tsch_ok(1) sample_tsch_ok(2) sample_tsch_ok(2) sample_tsch_ok(4) this sample_tsch_ok(5-7),
      of "\<lambda>_. 0" 9 "0xfff0" 1 zero_ies 0]
  show ?thesis by (elim exE conjE) (intro exI conjI, assumption+)
qed

text \<open>An acknowledgement carries the compile-time PAN identifier, while the nodes of a network
  check it against the one of the network they joined: in a network with another identifier, which
  is neither of the two nor the broadcast one, the acknowledgement of every frame is refused.\<close>

theorem eack_foreign_pan_refused:
  assumes "tsch_conf_ok c" and "node_addr_ok c (linkaddr_node_addr node)" and "node_addr_ok c d"
    and "TSCH_PACKET_EACK_WITH_DEST_ADDR c"
    and "mac_pan_id neighbour \<noteq> IEEE802154_PANID c" and "IEEE802154_PANID c \<noteq> 0xffff"
    and "41 \<le> buf_size" and "length (dest_addr pf) = 8" and "length (src_addr pf) = 8"
    and "length (frame_counter (aux_hdr pf)) = 4"
  shows "\<exists>m n. tsch_packet_create_eack c node buf buf_size (Some d) seqno drift nack zero_ies = Inr (m, n) \<and>
           fst (tsch_packet_parse_eack c neighbour m (int (unat n)) seqno pf i0 h0 zero_ies) = 0"
proof -
  obtain m n q where cr: "tsch_packet_create_eack c node buf buf_size (Some d) seqno drift nack zero_ies = Inr (m, of_nat (n + 4))"
    and n: "3 \<le> n" "n \<le> 37"
    and q: "frame802154_parse (frame_conf c) m (int (n + 4)) pf = (n, q)"
    and h: "header_agrees (frame_conf c) (eack_frame c node (Some d) seqno) q"
    using eack_created [OF assms(1,2,3,7-10), of buf seqno drift nack zero_ies] by blast
  have f: "fcf q = fcf (eack_frame c node (Some d) seqno)" using h by (simp add: header_agrees_def)
  consider "link_mode c = 2" | "link_mode c = 3" using link_mode [OF assms(1)] by auto
  then have has: "snd (frame802154_has_panid (fcf q))"
    by cases (simp_all add: f frame802154_has_panid_def eack_frame_fields assms(4))
  then have "dest_pid q = IEEE802154_PANID c"
    using h f by (simp add: header_agrees_def eack_frame_fields)
  then have "\<not> frame802154_check_dest_panid (mac_pan_id neighbour) q"
    using has assms(5,6) by (simp add: frame802154_check_dest_panid_def frame802154_get_pan_id_def split_def)
  then have r: "fst (tsch_packet_parse_eack c neighbour m (int (n + 4)) seqno pf i0 h0 zero_ies) = 0"
    by (simp add: tsch_packet_parse_eack_def q Let_def del: of_nat_add)
  have u: "int (unat (of_nat (n + 4) :: u8)) = int (n + 4)" using byte_of [of "n + 4"] n by simp
  show ?thesis by (intro exI [of _ m] exI [of _ "of_nat (n + 4)"] conjI cr) (simp only: u r)
qed

theorem eack_foreign_pan_refused_witness:
  "\<exists>m n. tsch_packet_create_eack sample_tsch sample_node (\<lambda>_. 0) 64 (Some [8, 7, 6, 5, 4, 3, 2, 1]) 9 20 0 zero_ies = Inr (m, n) \<and>
     fst (tsch_packet_parse_eack sample_tsch (sample_node\<lparr>mac_pan_id := 0x1234\<rparr>) m (int (unat n)) 9 zero_frame zero_ies 0 zero_ies) = 0"
  by (rule eack_foreign_pan_refused [OF sample_tsch_ok(1,2) _ _ _ _ _ sample_tsch_ok(5-7)])
    (simp_all add: node_addr_ok_def sample_tsch_def)

end
