(* ===== verification/NbrTable.thy ===== *)
theory NbrTable
  imports Clist Memb Linkaddr
begin

text \<open>
  The neighbour tables, \<open>core/net/nbr-table.c\<close>: up to eight tables of other modules share one list of
  neighbours. A neighbour is a block of the pool \<open>neighbor_addr_mem\<close> (Memb) that is linked into the
  list \<open>nbr_table_keys\<close> (Clist) and holds a link-layer address; its index in the pool is its index
  in every table. Two bitmaps say which tables use and which lock a neighbour.

  What the file relies on from its users is an argument: \<open>cb\<close>, the code of the callbacks, by their
  address, and \<open>fr\<close>, the policy \<open>NBR_TABLE_FIND_REMOVABLE\<close>, \<open>None\<close> when it is not compiled in. The
  loops over the list are partial functions, as those of Clist.
\<close>

section \<open>The code\<close>

record nbr_table_t =
  tb_index :: nat
  item_size :: nat
  callback :: ptr
  tb_data :: ptr

record 'u nbr_store = lstore +
  lladdr :: "ptr \<Rightarrow> linkaddr_t"
  used_map :: "u8 list"
  locked_map :: "u8 list"
  all_tables :: "ptr list"
  num_tables :: nat
  neighbor_addr_mem :: memb
  tables :: "ptr \<Rightarrow> nbr_table_t"
  item_mem :: Linkaddr.mem
  user :: 'u

type_synonym 'u callbacks = "ptr \<Rightarrow> ptr \<Rightarrow> 'u nbr_store \<Rightarrow> 'u nbr_store"
type_synonym 'u policy = "(int \<Rightarrow> ptr \<Rightarrow> 'u nbr_store \<Rightarrow> linkaddr_t option) option"

abbreviation "MAX_NUM_TABLES \<equiv> (8 :: nat)"

definition nbr_table_keys :: ptr where
  "nbr_table_keys = 1"

definition key_from_index :: "int \<Rightarrow> 'u nbr_store \<Rightarrow> ptr" where
  "key_from_index index s =
     (if index \<noteq> - 1 then base (neighbor_addr_mem s) + nat index * bsize (neighbor_addr_mem s) else NULL)"

definition item_from_index :: "ptr \<Rightarrow> int \<Rightarrow> 'u nbr_store \<Rightarrow> ptr" where
  "item_from_index table index s =
     (if table \<noteq> NULL \<and> index \<noteq> - 1
      then tb_data (tables s table) + nat index * item_size (tables s table) else NULL)"

definition index_from_key :: "ptr \<Rightarrow> 'u nbr_store \<Rightarrow> int" where
  "index_from_key key s =
     (if key \<noteq> NULL
      then (int key - int (base (neighbor_addr_mem s))) div int (bsize (neighbor_addr_mem s)) else - 1)"

definition index_from_item :: "ptr \<Rightarrow> ptr \<Rightarrow> 'u nbr_store \<Rightarrow> int" where
  "index_from_item table item s =
     (if table \<noteq> NULL \<and> item \<noteq> NULL
      then (int item - int (tb_data (tables s table))) div int (item_size (tables s table)) else - 1)"

definition item_from_key :: "ptr \<Rightarrow> ptr \<Rightarrow> 'u nbr_store \<Rightarrow> ptr" where
  "item_from_key table key s = item_from_index table (index_from_key key s) s"

definition key_from_item :: "ptr \<Rightarrow> ptr \<Rightarrow> 'u nbr_store \<Rightarrow> ptr" where
  "key_from_item table item s = key_from_index (index_from_item table item s) s"

partial_function (option) lladdr_loop :: "nat \<Rightarrow> linkaddr_t \<Rightarrow> ptr \<Rightarrow> 'u nbr_store \<Rightarrow> int option" where
  "lladdr_loop la a key s =
     (if key \<noteq> NULL then
        if linkaddr_cmp la a (lladdr s key) then Some (index_from_key key s)
        else lladdr_loop la a (list_item_next key s) s
      else Some (- 1))"

definition index_from_lladdr :: "nat \<Rightarrow> linkaddr_t option \<Rightarrow> 'u nbr_store \<Rightarrow> int option" where
  "index_from_lladdr la a s =
     lladdr_loop la (case a of Some b \<Rightarrow> b | None \<Rightarrow> linkaddr_null la) (list_head nbr_table_keys s) s"

definition nbr_get_bit :: "u8 list \<Rightarrow> ptr \<Rightarrow> ptr \<Rightarrow> 'u nbr_store \<Rightarrow> bool" where
  "nbr_get_bit bitmap table item s =
     (let item_index = index_from_item table item s
      in table \<noteq> NULL \<and> item_index \<noteq> - 1 \<and>
         bitmap ! nat item_index AND push_bit (tb_index (tables s table)) 1 \<noteq> 0)"

definition nbr_set_bit :: "u8 list \<Rightarrow> ptr \<Rightarrow> ptr \<Rightarrow> bool \<Rightarrow> 'u nbr_store \<Rightarrow> int \<times> u8 list" where
  "nbr_set_bit bitmap table item val s =
     (let item_index = index_from_item table item s; i = nat item_index;
          b = push_bit (tb_index (tables s table)) 1
      in if table \<noteq> NULL \<and> item_index \<noteq> - 1 then
           (1, bitmap[i := if val then bitmap ! i OR b else bitmap ! i AND NOT b])
         else (0, bitmap))"

text \<open>The body of the loop over the tables in \<open>remove_key\<close>.\<close>

definition call_removed :: "'u callbacks \<Rightarrow> ptr \<Rightarrow> nat \<Rightarrow> 'u nbr_store \<Rightarrow> 'u nbr_store" where
  "call_removed cb key i s =
     (let t = all_tables s ! i
      in if t \<noteq> NULL \<and> callback (tables s t) \<noteq> NULL then
           let removed_item = item_from_key t key s
           in if nbr_get_bit (used_map s) t removed_item s
              then cb (callback (tables s t)) removed_item s else s
         else s)"

definition remove_key :: "'u callbacks \<Rightarrow> ptr \<Rightarrow> 'u nbr_store \<Rightarrow> 'u nbr_store option" where
  "remove_key cb least_used_key s =
     (let s1 = fold (call_removed cb least_used_key) [0..<MAX_NUM_TABLES] s
      in list_remove nbr_table_keys least_used_key
           (s1\<lparr>used_map := (used_map s1)[nat (index_from_key least_used_key s1) := 0]\<rparr>))"

text \<open>\<open>while(used != 0) { if((used & 1) == 1) used_count++; used >>= 1; }\<close>\<close>

function count_loop :: "u8 \<Rightarrow> nat \<Rightarrow> nat" where
  "count_loop u used_count =
     (if u \<noteq> 0 then count_loop (drop_bit 1 u) (if u AND 1 = 1 then used_count + 1 else used_count)
      else used_count)"
  by pat_completeness auto
termination
proof (relation "measure (\<lambda>(u, k). unat u)")
  fix u :: u8
  assume "u \<noteq> 0"
  then have "unat u \<noteq> 0" by (simp add: unat_eq_0)
  moreover have "unat (drop_bit 1 u) = unat u div 2" by (simp add: unat_div drop_bit_eq_div)
  ultimately show "((drop_bit 1 u, k'), u, k) \<in> measure (\<lambda>(u, k). unat u)" for k k' :: nat by simp
qed simp

declare count_loop.simps [simp del]

text \<open>The search for a neighbour to remove: \<open>best\<close> is \<open>least_used_key\<close>.\<close>

partial_function (option) least_loop :: "ptr \<Rightarrow> ptr \<Rightarrow> nat \<Rightarrow> 'u nbr_store \<Rightarrow> ptr option" where
  "least_loop key best least_used_count s =
     (if key \<noteq> NULL then
        let item_index = nat (index_from_key key s)
        in if locked_map s ! item_index = 0 then
             let used_count = count_loop (used_map s ! item_index) 0
             in if best = NULL \<or> used_count < least_used_count then
                  if used_count = 0 then Some key else least_loop (list_item_next key s) key used_count s
                else least_loop (list_item_next key s) best least_used_count s
           else least_loop (list_item_next key s) best least_used_count s
      else Some best)"

definition reuse_least :: "'u callbacks \<Rightarrow> ptr \<Rightarrow> 'u nbr_store \<Rightarrow> (ptr \<times> 'u nbr_store) option" where
  "reuse_least cb least_used_key0 s = do {
     least_used_key \<leftarrow> (if least_used_key0 = NULL then least_loop (list_head nbr_table_keys s) NULL 0 s
                        else Some least_used_key0);
     if least_used_key = NULL then Some (NULL, s)
     else do {
       s1 \<leftarrow> remove_key cb least_used_key s;
       Some (least_used_key, s1)
     }
   }"

definition nbr_table_allocate ::
    "nat \<Rightarrow> 'u policy \<Rightarrow> 'u callbacks \<Rightarrow> int \<Rightarrow> ptr \<Rightarrow> 'u nbr_store \<Rightarrow> (ptr \<times> 'u nbr_store) option" where
  "nbr_table_allocate la fr cb reason dat s =
     (case memb_alloc (neighbor_addr_mem s) of (key, m) \<Rightarrow>
        let s0 = s\<lparr>neighbor_addr_mem := m\<rparr>
        in if key \<noteq> NULL then Some (key, s0)
           else
             (case fr of
                None \<Rightarrow> reuse_least cb NULL s0
              | Some find_removable \<Rightarrow>
                  (case find_removable reason dat s0 of
                     None \<Rightarrow> Some (NULL, s0)
                   | Some a \<Rightarrow> do {
                       index \<leftarrow> index_from_lladdr la (Some a) s0;
                       if index \<noteq> - 1 then
                         let least_used_key = key_from_index index s0
                         in reuse_least cb least_used_key
                              (if locked_map s0 ! nat index \<noteq> 0
                               then s0\<lparr>locked_map := (locked_map s0)[nat index := 0]\<rparr> else s0)
                       else reuse_least cb NULL s0
                     })))"

definition nbr_table_register :: "ptr \<Rightarrow> ptr \<Rightarrow> 'u nbr_store \<Rightarrow> int \<times> 'u nbr_store" where
  "nbr_table_register table cbk s =
     (if num_tables s < MAX_NUM_TABLES then
        (1, s\<lparr>tables := (tables s)(table := (tables s table)\<lparr>tb_index := num_tables s, callback := cbk\<rparr>),
              all_tables := (all_tables s)[num_tables s := table], num_tables := num_tables s + 1\<rparr>)
      else (0, s))"

partial_function (option) nbr_table_next :: "ptr \<Rightarrow> ptr \<Rightarrow> 'u nbr_store \<Rightarrow> ptr option" where
  "nbr_table_next table item s =
     (let key = list_item_next (key_from_item table item s) s;
          item1 = item_from_key table key s
      in if item1 \<noteq> NULL \<and> \<not> nbr_get_bit (used_map s) table item1 s then nbr_table_next table item1 s
         else Some item1)"

definition nbr_table_head :: "ptr \<Rightarrow> 'u nbr_store \<Rightarrow> ptr option" where
  "nbr_table_head table s =
     (let item = item_from_key table (list_head nbr_table_keys s) s
      in if nbr_get_bit (used_map s) table item s then Some item else nbr_table_next table item s)"

definition nbr_table_add_lladdr ::
    "nat \<Rightarrow> 'u policy \<Rightarrow> 'u callbacks \<Rightarrow> ptr \<Rightarrow> linkaddr_t option \<Rightarrow> int \<Rightarrow> ptr \<Rightarrow> 'u nbr_store
      \<Rightarrow> (ptr \<times> 'u nbr_store) option" where
  "nbr_table_add_lladdr la fr cb table a0 reason dat s = do {
     let a = (case a0 of Some b \<Rightarrow> b | None \<Rightarrow> linkaddr_null la);
     index \<leftarrow> index_from_lladdr la (Some a) s;
     (index1, s1) \<leftarrow>
       (if index = - 1 then do {
          (key, s0) \<leftarrow> nbr_table_allocate la fr cb reason dat s;
          if key = NULL then Some (None, s0)
          else do {
            s1 \<leftarrow> list_add nbr_table_keys key s0;
            Some (Some (index_from_key key s1),
                  s1\<lparr>lladdr := (lladdr s1)(key := linkaddr_copy la (lladdr s1 key) a)\<rparr>)
          }
        } else Some (Some index, s));
     case index1 of
       None \<Rightarrow> Some (NULL, s1)
     | Some i \<Rightarrow>
         let item = item_from_index table i s1;
             s2 = s1\<lparr>item_mem := blit (item_mem s1) item (replicate (item_size (tables s1 table)) 0)\<rparr>
         in Some (item, s2\<lparr>used_map := snd (nbr_set_bit (used_map s2) table item True s2)\<rparr>)
   }"

definition nbr_table_get_from_lladdr :: "nat \<Rightarrow> ptr \<Rightarrow> linkaddr_t option \<Rightarrow> 'u nbr_store \<Rightarrow> ptr option" where
  "nbr_table_get_from_lladdr la table a s = do {
     index \<leftarrow> index_from_lladdr la a s;
     let item = item_from_index table index s;
     Some (if nbr_get_bit (used_map s) table item s then item else NULL)
   }"

definition nbr_table_remove :: "ptr \<Rightarrow> ptr \<Rightarrow> 'u nbr_store \<Rightarrow> int \<times> 'u nbr_store" where
  "nbr_table_remove table item s =
     (case nbr_set_bit (used_map s) table item False s of (ret, um) \<Rightarrow>
        let s1 = s\<lparr>used_map := um\<rparr>
        in (ret, s1\<lparr>locked_map := snd (nbr_set_bit (locked_map s1) table item False s1)\<rparr>))"

definition nbr_table_lock :: "ptr \<Rightarrow> ptr \<Rightarrow> 'u nbr_store \<Rightarrow> int \<times> 'u nbr_store" where
  "nbr_table_lock table item s =
     (case nbr_set_bit (locked_map s) table item True s of (ret, lm) \<Rightarrow> (ret, s\<lparr>locked_map := lm\<rparr>))"

definition nbr_table_unlock :: "ptr \<Rightarrow> ptr \<Rightarrow> 'u nbr_store \<Rightarrow> int \<times> 'u nbr_store" where
  "nbr_table_unlock table item s =
     (case nbr_set_bit (locked_map s) table item False s of (ret, lm) \<Rightarrow> (ret, s\<lparr>locked_map := lm\<rparr>))"

text \<open>The address of the key's field is returned; here its contents.\<close>

definition nbr_table_get_lladdr :: "ptr \<Rightarrow> ptr \<Rightarrow> 'u nbr_store \<Rightarrow> linkaddr_t option" where
  "nbr_table_get_lladdr table item s =
     (let key = key_from_item table item s in if key \<noteq> NULL then Some (lladdr s key) else None)"

definition nbr_table_update_lladdr ::
    "nat \<Rightarrow> 'u callbacks \<Rightarrow> linkaddr_t option \<Rightarrow> linkaddr_t \<Rightarrow> bool \<Rightarrow> 'u nbr_store
      \<Rightarrow> (int \<times> 'u nbr_store) option" where
  "nbr_table_update_lladdr la cb old_addr new_addr remove_if_duplicate s = do {
     index \<leftarrow> index_from_lladdr la old_addr s;
     if index = - 1 then Some (0, s)
     else do {
       new_index \<leftarrow> index_from_lladdr la (Some new_addr) s;
       if new_index \<noteq> - 1 then
         if new_index = index then Some (1, s)
         else do {
           s1 \<leftarrow> (if remove_if_duplicate then remove_key cb (key_from_index index s) s else Some s);
           Some (0, s1)
         }
       else
         let key = key_from_index index s
         in Some (1, s\<lparr>lladdr := (lladdr s)(key := linkaddr_copy la (lladdr s key) new_addr)\<rparr>)
     }
   }"

section \<open>Neighbours, items and bits\<close>

abbreviation pool :: "'u nbr_store \<Rightarrow> memb" where
  "pool s \<equiv> neighbor_addr_mem s"

definition kidx :: "'u nbr_store \<Rightarrow> ptr \<Rightarrow> nat" where
  "kidx s k = nat (index_from_key k s)"

definition table_ok :: "nbr_table_t \<Rightarrow> bool" where
  "table_ok t \<longleftrightarrow> tb_data t > 0 \<and> item_size t > 0 \<and> tb_index t < 8"

lemma more_fields_nbr:
  "lstore.more t = lstore.more s \<Longrightarrow> lladdr t = lladdr s \<and> used_map t = used_map s \<and> locked_map t = locked_map s \<and>
     all_tables t = all_tables s \<and> num_tables t = num_tables s \<and> pool t = pool s \<and> tables t = tables s \<and>
     item_mem t = item_mem s \<and> user t = user (s :: 'u nbr_store)"
  by (cases s; cases t) simp

lemma index_from_key_block:
  assumes "memb_ok (pool s)"
  shows "index_from_key (block (pool s) i) s = int i" and "kidx s (block (pool s) i) = i"
  using assms by (simp_all add: kidx_def index_from_key_def block_def memb_ok_def)

lemma key_from_index_block: "key_from_index (int i) s = block (pool s) i"
  by (simp add: key_from_index_def block_def)

lemma item_nonNULL: "table_ok (tables s t) \<Longrightarrow> t \<noteq> NULL \<Longrightarrow> item_from_index t (int i) s \<noteq> NULL"
  by (simp add: item_from_index_def table_ok_def)

lemma index_from_item_item:
  "table_ok (tables s t) \<Longrightarrow> t \<noteq> NULL \<Longrightarrow> index_from_item t (item_from_index t (int i) s) s = int i"
  by (simp add: item_from_index_def index_from_item_def table_ok_def)

lemma index_from_item_same: "tables s' = tables s \<Longrightarrow> index_from_item t item s' = index_from_item t item s"
  by (simp add: index_from_item_def)

abbreviation tbit :: "nbr_table_t \<Rightarrow> u8" where
  "tbit t \<equiv> push_bit (tb_index t) 1"

lemma get_bit_item:
  assumes "table_ok (tables s t)" and "t \<noteq> NULL"
  shows "nbr_get_bit bm t (item_from_index t (int i) s) s \<longleftrightarrow> bm ! i AND tbit (tables s t) \<noteq> 0"
  unfolding nbr_get_bit_def Let_def index_from_item_item [OF assms] using assms(2) by simp

lemma set_bit_item:
  assumes "table_ok (tables s t)" and "t \<noteq> NULL" and "tables s' = tables s"
  shows "nbr_set_bit bm t (item_from_index t (int i) s) val s' =
       (1, bm[i := if val then bm ! i OR tbit (tables s t) else bm ! i AND NOT (tbit (tables s t))])"
  unfolding nbr_set_bit_def Let_def index_from_item_same [OF assms(3)] index_from_item_item [OF assms(1,2)] assms(3)
  using assms(2) by simp

lemma get_bit_NULL: "\<not> nbr_get_bit bm t NULL s"
  by (simp add: nbr_get_bit_def index_from_item_def)

section \<open>The well-formed store\<close>

text \<open>The neighbours \<open>ks\<close> are on the list; \<open>X\<close> are blocks of the pool that are allocated but not on it.\<close>

definition nbr_inv :: "nat \<Rightarrow> 'u nbr_store \<Rightarrow> ptr list \<Rightarrow> ptr set \<Rightarrow> bool" where
  "nbr_inv la s ks X \<longleftrightarrow>
     is_list s nbr_table_keys ks \<and> memb_ok (pool s) \<and>
     length (used_map s) = num (pool s) \<and> length (locked_map s) = num (pool s) \<and>
     set ks \<union> X = block (pool s) ` used (pool s) \<and> set ks \<inter> X = {} \<and>
     distinct (map (lladdr s) ks) \<and> (\<forall>k. length (lladdr s k) = la) \<and>
     (\<forall>i < num (pool s). i \<notin> used (pool s) \<longrightarrow> used_map s ! i = 0 \<and> locked_map s ! i = 0)"

type_synonym entry = "linkaddr_t \<times> u8 \<times> u8"

definition entry :: "'u nbr_store \<Rightarrow> ptr \<Rightarrow> entry" where
  "entry s k = (lladdr s k, used_map s ! kidx s k, locked_map s ! kidx s k)"

lemma nbr_inv_key:
  assumes "nbr_inv la s ks X" and "k \<in> set ks"
  shows "kidx s k < num (pool s)" "block (pool s) (kidx s k) = k" "index_from_key k s = int (kidx s k)"
    "kidx s k \<in> used (pool s)" "k \<noteq> NULL"
proof -
  obtain i where i: "i \<in> used (pool s)" "k = block (pool s) i" using assms unfolding nbr_inv_def by blast
  have m: "memb_ok (pool s)" using assms(1) by (simp add: nbr_inv_def)
  show "kidx s k < num (pool s)" using i used_bound [of "pool s"] index_from_key_block [OF m] by auto
  show "block (pool s) (kidx s k) = k" "index_from_key k s = int (kidx s k)" "kidx s k \<in> used (pool s)"
    using i index_from_key_block [OF m] by auto
  show "k \<noteq> NULL" using i m by (simp add: block_def memb_ok_def)
qed

lemma kidx_inj:
  assumes "nbr_inv la s ks X" and "k \<in> set ks" and "k' \<in> set ks"
  shows "kidx s k = kidx s k' \<longleftrightarrow> k = k'"
  using nbr_inv_key(2) [OF assms(1,2)] nbr_inv_key(2) [OF assms(1,3)] by metis

lemma lladdr_loop_find:
  assumes "chain (nxt s) p ks" and "length a = la" and "\<And>k. length (lladdr s k) = la"
  shows "lladdr_loop la a p s = Some (case find (\<lambda>k. lladdr s k = a) ks of None \<Rightarrow> - 1 | Some k \<Rightarrow> index_from_key k s)"
  using assms(1)
proof (induction ks arbitrary: p)
  case Nil
  then show ?case by (subst lladdr_loop.simps) simp
next
  case (Cons k ks)
  then have p: "p = k" "k \<noteq> NULL" "chain (nxt s) (nxt s k) ks" by simp_all
  have c: "linkaddr_cmp la a (lladdr s k) \<longleftrightarrow> lladdr s k = a" using assms(2,3) by auto
  show ?case
    using Cons.IH [OF p(3)] p(1,2) by (subst lladdr_loop.simps) (auto simp: c list_item_next_def)
qed

lemma find_unique: "distinct (map f ks) \<Longrightarrow> k \<in> set ks \<Longrightarrow> f k = a \<Longrightarrow> find (\<lambda>k. f k = a) ks = Some k"
  by (induction ks) auto

lemma index_from_lladdr_spec:
  assumes "nbr_inv la s ks X" and "length a = la"
  shows "index_from_lladdr la (Some a) s =
     Some (case find (\<lambda>k. lladdr s k = a) ks of None \<Rightarrow> - 1 | Some k \<Rightarrow> int (kidx s k))"
proof -
  have "index_from_lladdr la (Some a) s =
     Some (case find (\<lambda>k. lladdr s k = a) ks of None \<Rightarrow> - 1 | Some k \<Rightarrow> index_from_key k s)"
    using assms lladdr_loop_find [of s "list_head nbr_table_keys s" ks a la]
    by (simp add: index_from_lladdr_def nbr_inv_def is_list_def list_head_def)
  moreover have "k \<in> set ks" if "find (\<lambda>k. lladdr s k = a) ks = Some k" for k
    using that by (auto simp: find_Some_iff)
  ultimately show ?thesis
    using nbr_inv_key(3) [OF assms(1)] by (cases "find (\<lambda>k. lladdr s k = a) ks") simp_all
qed

lemma index_absent:
  "nbr_inv la s ks X \<Longrightarrow> length a = la \<Longrightarrow> a \<notin> lladdr s ` set ks \<Longrightarrow> index_from_lladdr la (Some a) s = Some (- 1)"
  using index_from_lladdr_spec [of la s ks X a] by (cases "find (\<lambda>k. lladdr s k = a) ks") (auto simp: find_Some_iff)

lemma index_present:
  "nbr_inv la s ks X \<Longrightarrow> length a = la \<Longrightarrow> k \<in> set ks \<Longrightarrow> lladdr s k = a \<Longrightarrow>
     index_from_lladdr la (Some a) s = Some (int (kidx s k))"
  using index_from_lladdr_spec [of la s ks X a] find_unique [of "lladdr s" ks k a] by (simp add: nbr_inv_def)

section \<open>Which neighbour is removed\<close>

definition tables_using :: "u8 \<Rightarrow> nat" where
  "tables_using u = card {i. bit u i}"

lemma count_loop_card: "count_loop u k = k + tables_using u"
proof (induction u k rule: count_loop.induct)
  case (1 u k)
  show ?case
  proof (cases "u = 0")
    case True
    then show ?thesis by (subst count_loop.simps) (simp add: tables_using_def)
  next
    case False
    have fin: "finite {i. bit u i}" by (rule finite_subset [of _ "{..< 8}"]) (auto dest: bit_imp_le_length)
    have s: "{i. bit u i} = (if bit u 0 then {0} else {}) \<union> Suc ` {i. bit (drop_bit 1 u) i}"
      by (auto simp: bit_simps image_iff) (metis Suc_pred gr0I)+
    have "finite {i. bit (drop_bit 1 u) i}" by (rule finite_subset [of _ "{..< 8}"]) (auto dest: bit_imp_le_length)
    then have "tables_using u = (if bit u 0 then 1 else 0) + tables_using (drop_bit 1 u)"
      unfolding tables_using_def by (subst s) (auto simp: card_image)
    moreover have "u AND 1 = 1 \<longleftrightarrow> bit u 0" by (simp add: and_one_eq bit_0 odd_iff_mod_2_eq_one)
    ultimately show ?thesis using False 1 [OF False] by (subst count_loop.simps) simp
  qed
qed

text \<open>The first of the entries without a lock that are used by the fewest tables.\<close>

fun least_entry :: "entry list \<Rightarrow> entry option" where
  "least_entry [] = None"
| "least_entry ((a, u, l) # es) =
     (if l \<noteq> 0 then least_entry es
      else case least_entry es of
        None \<Rightarrow> Some (a, u, l)
      | Some (b, v, w) \<Rightarrow> if tables_using u \<le> tables_using v then Some (a, u, l) else Some (b, v, w))"


lemma least_entry_in: "least_entry es = Some e \<Longrightarrow> e \<in> set es \<and> snd (snd e) = 0"
  by (induction es rule: least_entry.induct) (auto split: if_splits option.splits prod.splits)

lemma least_loop_least:
  assumes "chain (nxt s) p ks" and "best = NULL \<or> 0 < n"
  shows "\<exists>r. least_loop p best n s = Some r \<and>
     (case least_entry (map (entry s) ks) of
        None \<Rightarrow> r = best
      | Some e \<Rightarrow> if best = NULL \<or> tables_using (fst (snd e)) < n
                   then r \<in> set ks \<and> entry s r = e else r = best)"
  using assms
proof (induction ks arbitrary: p best n)
  case Nil
  then show ?case by (subst least_loop.simps) simp
next
  case (Cons k ks)
  then have p: "p = k" "k \<noteq> NULL" "list_item_next k s = nxt s k" and c: "chain (nxt s) (nxt s k) ks"
    by (simp_all add: list_item_next_def)
  define u where "u = tables_using (used_map s ! kidx s k)"
  have cl: "count_loop (used_map s ! nat (index_from_key k s)) 0 = u"
    by (simp add: count_loop_card u_def kidx_def)
  show ?case
  proof (cases "locked_map s ! kidx s k = 0")
    case False
    then have "least_loop p best n s = least_loop (nxt s k) best n s"
      using p by (subst least_loop.simps) (simp add: kidx_def)
    with False Cons.IH [OF c Cons.prems(2)] show ?thesis by (auto simp: entry_def split: option.splits)
  next
    case free: True
    show ?thesis
    proof (cases "best = NULL \<or> u < n")
      case True
      show ?thesis
      proof (cases "u = 0")
        case zero: True
        have "least_loop p best n s = Some k"
          using p free True zero by (subst least_loop.simps) (simp add: kidx_def cl)
        moreover have "least_entry (map (entry s) (k # ks)) = Some (entry s k)"
          using free zero by (auto simp: entry_def u_def split: option.splits)
        moreover have "tables_using (fst (snd (entry s k))) = 0" using zero by (simp add: entry_def u_def)
        ultimately show ?thesis using True zero by auto
      next
        case False
        then have l: "least_loop p best n s = least_loop (nxt s k) k u s"
          using p free True by (subst least_loop.simps) (simp add: kidx_def cl)
        show ?thesis
          using Cons.IH [OF c, of k u] False p(2) free True unfolding l
          by (auto simp: entry_def u_def split: option.splits if_splits)
      qed
    next
      case False
      then have l: "least_loop p best n s = least_loop (nxt s k) best n s"
        using p free by (subst least_loop.simps) (simp add: kidx_def cl)
      show ?thesis
        using Cons.IH [OF c Cons.prems(2)] False free unfolding l
        by (auto simp: entry_def u_def split: option.splits if_splits)
    qed
  qed
qed

lemma least_loop_spec:
  assumes "nbr_inv la s ks X"
  shows "\<exists>r. least_loop (list_head nbr_table_keys s) NULL 0 s = Some r \<and>
     (case least_entry (map (entry s) ks) of None \<Rightarrow> r = NULL | Some e \<Rightarrow> r \<in> set ks \<and> entry s r = e)"
proof -
  have "chain (nxt s) (list_head nbr_table_keys s) ks"
    using assms by (simp add: nbr_inv_def is_list_def list_head_def)
  from least_loop_least [OF this, of NULL 0] show ?thesis by (cases "least_entry (map (entry s) ks)") auto
qed

text \<open>What a callback may do: it has its own state and its own items, it may say that its table no
  longer uses the neighbour, and it may release locks on it. It does not lock it.\<close>

definition callback_ok :: "'u callbacks \<Rightarrow> bool" where
  "callback_ok cb \<longleftrightarrow> (\<forall>s t i. \<exists>x y u mm. cb (callback (tables s t)) (item_from_index t (int i) s) s =
     s\<lparr>used_map := (used_map s)[i := x], locked_map := (locked_map s)[i := locked_map s ! i AND y],
       item_mem := mm, user := u\<rparr>)"

lemma calls_removed:
  assumes "callback_ok cb" and "index_from_key key s = int i"
  shows "\<exists>x y u mm. fold (call_removed cb key) js s =
     s\<lparr>used_map := (used_map s)[i := x], locked_map := (locked_map s)[i := locked_map s ! i AND y],
       item_mem := mm, user := u\<rparr>"
  using assms(2)
proof (induction js arbitrary: s)
  case Nil
  have "s = s\<lparr>used_map := (used_map s)[i := used_map s ! i],
      locked_map := (locked_map s)[i := locked_map s ! i AND - 1], item_mem := item_mem s, user := user s\<rparr>"
    by simp
  then show ?case by (simp only: fold_simps id_apply) blast
next
  case (Cons j js)
  have "\<exists>x y u mm. call_removed cb key j s =
     s\<lparr>used_map := (used_map s)[i := x], locked_map := (locked_map s)[i := locked_map s ! i AND y],
       item_mem := mm, user := u\<rparr>"
  proof (cases "call_removed cb key j s = s")
    case True
    have "s = s\<lparr>used_map := (used_map s)[i := used_map s ! i],
        locked_map := (locked_map s)[i := locked_map s ! i AND - 1], item_mem := item_mem s, user := user s\<rparr>"
      by simp
    with True show ?thesis by metis
  next
    case False
    then have "call_removed cb key j s = cb (callback (tables s (all_tables s ! j)))
        (item_from_index (all_tables s ! j) (int i) s) s"
      using Cons.prems by (auto simp: call_removed_def item_from_key_def Let_def split: if_splits)
    then show ?thesis using assms(1) unfolding callback_ok_def by metis
  qed
  then obtain x y u mm where c: "call_removed cb key j s =
     s\<lparr>used_map := (used_map s)[i := x], locked_map := (locked_map s)[i := locked_map s ! i AND y],
       item_mem := mm, user := u\<rparr>" by blast
  have "index_from_key key (call_removed cb key j s) = int i"
    using Cons.prems by (auto simp: c index_from_key_def split: if_splits)
  from Cons.IH [OF this] obtain x' y' u' mm' where c': "fold (call_removed cb key) (j # js) s =
     s\<lparr>used_map := (used_map s)[i := x, i := x'], locked_map := (locked_map s)[i := locked_map s ! i AND y,
        i := (locked_map s)[i := locked_map s ! i AND y] ! i AND y'], item_mem := mm', user := u'\<rparr>"
    by (auto simp: c)
  show ?case
    by (rule exI [of _ x'], rule exI [of _ "y AND y'"], rule exI [of _ u'], rule exI [of _ mm'], subst c')
      (cases "i < length (locked_map s)"; simp add: and.assoc list_update_beyond not_less)
qed

lemma kidx_same: "base (pool s') = base (pool s) \<Longrightarrow> bsize (pool s') = bsize (pool s) \<Longrightarrow> kidx s' k = kidx s k"
  by (simp add: kidx_def index_from_key_def)

lemma entry_same:
  "base (pool s') = base (pool s) \<Longrightarrow> bsize (pool s') = bsize (pool s) \<Longrightarrow> lladdr s' k = lladdr s k \<Longrightarrow>
   used_map s' ! kidx s k = used_map s ! kidx s k \<Longrightarrow> locked_map s' ! kidx s k = locked_map s ! kidx s k \<Longrightarrow>
   entry s' k = entry s k"
  by (simp add: entry_def kidx_same [of s' s])

lemma map_remove1_inj: "inj_on f (insert x (set xs)) \<Longrightarrow> map f (remove1 x xs) = remove1 (f x) (map f xs)"
  by (induction xs) (auto simp: inj_on_def)

lemma entries_inj: "nbr_inv la s ks X \<Longrightarrow> inj_on (entry s) (set ks)"
  by (auto simp: nbr_inv_def distinct_map inj_on_def entry_def)

lemma entries_remove:
  assumes "nbr_inv la s ks X" and "key \<in> set ks" and "entry s key = e"
  shows "map (entry s) (remove1 key ks) = remove1 e (map (entry s) ks)"
  using map_remove1_inj [of "entry s" key ks] entries_inj [OF assms(1)] assms(2,3) by (simp add: insert_absorb)

lemma remove_key_spec:
  assumes "nbr_inv la s ks X" and "callback_ok cb" and "key \<in> set ks"
  shows "\<exists>t y. remove_key cb key s = Some t \<and> nbr_inv la t (remove1 key ks) (insert key X) \<and>
    used_map t ! kidx s key = 0 \<and> locked_map t ! kidx s key = locked_map s ! kidx s key AND y \<and>
    map (entry t) (remove1 key ks) = map (entry s) (remove1 key ks) \<and>
    tables t = tables s \<and> pool t = pool s"
proof -
  define i where "i = kidx s key"
  note k = nbr_inv_key [OF assms(1,3)]
  obtain x y u mm where f: "fold (call_removed cb key) [0..<MAX_NUM_TABLES] s =
     s\<lparr>used_map := (used_map s)[i := x], locked_map := (locked_map s)[i := locked_map s ! i AND y],
       item_mem := mm, user := u\<rparr>"
    using calls_removed [OF assms(2), of key s i] k(3) i_def by blast
  define s2 where "s2 = s\<lparr>used_map := (used_map s)[i := 0], locked_map := (locked_map s)[i := locked_map s ! i AND y],
       item_mem := mm, user := u\<rparr>"
  have inv: "is_list s2 nbr_table_keys ks" using assms(1) by (simp add: s2_def nbr_inv_def is_list_def)
  have idx: "nat (index_from_key key s) = i" by (simp add: i_def kidx_def)
  define s1 where "s1 = s\<lparr>used_map := (used_map s)[i := x], locked_map := (locked_map s)[i := locked_map s ! i AND y],
       item_mem := mm, user := u\<rparr>"
  have "index_from_key key s1 = index_from_key key s" by (simp add: s1_def index_from_key_def)
  then have "nat (index_from_key key s1) = i" using idx by simp
  moreover have "s1\<lparr>used_map := (used_map s1)[i := 0]\<rparr> = s2" by (cases s) (simp add: s1_def s2_def)
  ultimately have "remove_key cb key s = list_remove nbr_table_keys key s2"
    unfolding remove_key_def f [folded s1_def] Let_def by simp
  moreover obtain t where t: "list_remove nbr_table_keys key s2 = Some t" "is_list t nbr_table_keys (remove1 key ks)"
    "list_frame nbr_table_keys (set ks) s2 t"
    using list_remove_spec [OF inv] by blast
  ultimately have r: "remove_key cb key s = Some t" by simp
  have m: "lladdr t = lladdr s" "used_map t = (used_map s)[i := 0]"
    "locked_map t = (locked_map s)[i := locked_map s ! i AND y]" "pool t = pool s" "tables t = tables s"
    using more_fields_nbr [of t s2] t(3) by (auto simp: list_frame_def s2_def)
  have d: "distinct ks" using assms(1) is_list_distinct by (auto simp: nbr_inv_def)
  have il: "i < num (pool s)" "i \<in> used (pool s)" using k(1,4) by (simp_all add: i_def)
  have "nbr_inv la t (remove1 key ks) (insert key X)"
    using assms(1,3) d il t(2) unfolding nbr_inv_def m
    by (auto simp: distinct_map nth_list_update intro: inj_on_subset)
  moreover have "entry t k' = entry s k'" if "k' \<in> set (remove1 key ks)" for k'
  proof -
    have "k' \<in> set ks" "k' \<noteq> key" using that d by auto
    then have "kidx s k' \<noteq> i" using kidx_inj [OF assms(1), of k' key] assms(3) by (simp add: i_def)
    then show ?thesis by (intro entry_same) (simp_all add: m)
  qed
  moreover have "length (used_map s) = num (pool s)" "length (locked_map s) = num (pool s)"
    using assms(1) by (simp_all add: nbr_inv_def)
  ultimately show ?thesis
    using r m il(1) i_def by (intro exI [of _ t] exI [of _ y]) simp
qed

definition capacity :: "'u nbr_store \<Rightarrow> ptr set \<Rightarrow> nat" where
  "capacity s X = num (pool s) - card X"

lemma room_left:
  assumes "nbr_inv la s ks X"
  shows "length ks < capacity s X \<longleftrightarrow> used (pool s) \<noteq> {..< num (pool s)}"
proof -
  have mo: "memb_ok (pool s)" using assms by (simp add: nbr_inv_def)
  have u: "set ks \<union> X = block (pool s) ` used (pool s)" "set ks \<inter> X = {}" using assms by (simp_all add: nbr_inv_def)
  have fin: "finite (set ks \<union> X)" unfolding u(1) by simp
  have "distinct ks" using assms is_list_distinct by (auto simp: nbr_inv_def)
  moreover have "card (set ks \<union> X) = card (set ks) + card X" using u(2) fin by (intro card_Un_disjoint) simp_all
  ultimately have "card (set ks \<union> X) = length ks + card X" by (simp only: distinct_card)
  then have c: "card (used (pool s)) = length ks + card X"
    using block_image_card [OF mo, of "used (pool s)"] u(1) by simp
  have "used (pool s) = {..< num (pool s)} \<longleftrightarrow> card (used (pool s)) = num (pool s)"
  proof
    show "used (pool s) = {..< num (pool s)} \<Longrightarrow> card (used (pool s)) = num (pool s)" by (metis card_lessThan)
    show "card (used (pool s)) = num (pool s) \<Longrightarrow> used (pool s) = {..< num (pool s)}"
      by (rule card_subset_eq) (simp_all add: used_bound)
  qed
  moreover have "card (used (pool s)) \<le> num (pool s)"
    using card_mono [OF _ used_bound [of "pool s"]] by simp
  ultimately have "used (pool s) \<noteq> {..< num (pool s)} \<longleftrightarrow> length ks + card X < num (pool s)"
    unfolding c by linarith
  then show ?thesis unfolding capacity_def by (simp add: less_diff_conv)
qed

definition make_room :: "nat \<Rightarrow> entry list \<Rightarrow> entry list option" where
  "make_room n es =
     (if length es < n then Some es else map_option (\<lambda>e. remove1 e es) (least_entry es))"

lemma alloc_fresh:
  assumes "nbr_inv la s ks X" and "used (pool s) \<noteq> {..< num (pool s)}"
  shows "\<exists>key m t. memb_alloc (pool s) = (key, m) \<and> t = s\<lparr>neighbor_addr_mem := m\<rparr> \<and> key \<noteq> NULL \<and>
     key \<notin> X \<and> nbr_inv la t ks (insert key X) \<and> num m = num (pool s) \<and> map (entry t) ks = map (entry s) ks \<and>
     used_map t ! kidx t key = 0 \<and> locked_map t ! kidx t key = 0"
proof -
  have mo: "memb_ok (pool s)" using assms(1) by (simp add: nbr_inv_def)
  obtain j where j: "j < num (pool s)" "j \<notin> used (pool s)"
    and a: "memb_alloc (pool s) = (block (pool s) j, (pool s)\<lparr>count := (count (pool s))[j := 1]\<rparr>)"
    using memb_alloc_spec [OF mo] assms(2) by auto
  define m where "m = (pool s)\<lparr>count := (count (pool s))[j := 1]\<rparr>"
  define t where "t = s\<lparr>neighbor_addr_mem := m\<rparr>"
  have mok: "memb_ok m" and um: "used m = insert j (used (pool s))"
    using memb_ok_upd [OF mo, of 1 j] used_upd [OF mo j(1), of 1] by (simp_all add: m_def)
  have bl: "block m = block (pool s)" by (simp add: m_def)
  have nm: "num m = num (pool s)" by (simp add: m_def)
  have new: "block (pool s) j \<notin> set ks \<union> X"
    using assms(1) j(2) block_inj [OF mo] by (auto simp: nbr_inv_def)
  have key: "kidx t (block (pool s) j) = j" "block (pool s) j \<noteq> NULL"
    using index_from_key_block(2) [of t j] mok mo bl
    by (auto simp: t_def block_def memb_ok_def)
  have "nbr_inv la t ks (insert (block (pool s) j) X)"
    using assms(1) new by (auto simp: nbr_inv_def t_def um bl nm mok is_list_def)
  moreover have "map (entry t) ks = map (entry s) ks"
    by (rule map_cong [OF refl], rule entry_same) (simp_all add: t_def m_def)
  moreover have "used_map t ! j = 0" "locked_map t ! j = 0" using assms(1) j by (simp_all add: nbr_inv_def t_def)
  ultimately show ?thesis
    using a new key nm by (intro exI [of _ "block (pool s) j"] exI [of _ m] exI [of _ t]) (simp add: t_def m_def)
qed

lemma alloc_spec:
  assumes "nbr_inv la s ks X" and "callback_ok cb" and "finite X" and "es = map (entry s) ks"
  shows "\<exists>key t. nbr_table_allocate la None cb reason dat s = Some (key, t) \<and> tables t = tables s \<and>
    (case make_room (capacity s X) es of
       None \<Rightarrow> key = NULL \<and> t = s
     | Some es' \<Rightarrow> \<exists>ks'. nbr_inv la t ks' (insert key X) \<and> key \<noteq> NULL \<and> key \<notin> X \<and> map (entry t) ks' = es' \<and>
         num (pool t) = num (pool s) \<and> used_map t ! kidx t key = 0 \<and> locked_map t ! kidx t key = 0)"
proof (cases "used (pool s) = {..< num (pool s)}")
  case False
  then have "length ks < capacity s X" using room_left [OF assms(1)] by simp
  then have r: "make_room (capacity s X) es = Some es" by (simp add: make_room_def assms(4))
  obtain key m t where f: "memb_alloc (pool s) = (key, m)" "t = s\<lparr>neighbor_addr_mem := m\<rparr>" "key \<noteq> NULL"
    "key \<notin> X" "nbr_inv la t ks (insert key X)" "num m = num (pool s)" "map (entry t) ks = map (entry s) ks"
    "used_map t ! kidx t key = 0" "locked_map t ! kidx t key = 0"
    using alloc_fresh [OF assms(1) False] by blast
  then have "nbr_table_allocate la None cb reason dat s = Some (key, t)"
    by (simp add: nbr_table_allocate_def)
  moreover have tn: "tables t = tables s" "num (pool t) = num (pool s)" using f(2,6) by simp_all
  moreover have "\<exists>ks'. nbr_inv la t ks' (insert key X) \<and> key \<noteq> NULL \<and> key \<notin> X \<and> map (entry t) ks' = es \<and>
      num (pool t) = num (pool s) \<and> used_map t ! kidx t key = 0 \<and> locked_map t ! kidx t key = 0"
    using f tn by (intro exI [of _ ks]) (simp add: assms(4))
  ultimately show ?thesis unfolding r option.case by blast
next
  case True
  then have n: "\<not> length ks < capacity s X" using room_left [OF assms(1)] by simp
  have mo: "memb_ok (pool s)" using assms(1) by (simp add: nbr_inv_def)
  have a: "memb_alloc (pool s) = (NULL, pool s)" using memb_alloc_spec [OF mo] True by simp
  have s0: "s\<lparr>neighbor_addr_mem := pool s\<rparr> = s" by simp
  have al: "nbr_table_allocate la None cb reason dat s = reuse_least cb NULL s"
    by (simp add: nbr_table_allocate_def a s0)
  obtain r where r: "least_loop (list_head nbr_table_keys s) NULL 0 s = Some r"
    and rc: "case least_entry es of None \<Rightarrow> r = NULL | Some e \<Rightarrow> r \<in> set ks \<and> entry s r = e"
    using least_loop_spec [OF assms(1)] assms(4) by auto
  show ?thesis
  proof (cases "least_entry es")
    case None
    then show ?thesis using r rc n by (simp add: al reuse_least_def make_room_def assms(4))
  next
    case (Some e)
    with rc have k: "r \<in> set ks" "entry s r = e" by simp_all
    have l0: "locked_map s ! kidx s r = 0" using least_entry_in [OF Some] k by (auto simp: entry_def)
    obtain t y where t: "remove_key cb r s = Some t" "nbr_inv la t (remove1 r ks) (insert r X)"
      "used_map t ! kidx s r = 0" "locked_map t ! kidx s r = locked_map s ! kidx s r AND y"
      "map (entry t) (remove1 r ks) = map (entry s) (remove1 r ks)" "tables t = tables s" "pool t = pool s"
      using remove_key_spec [OF assms(1,2) k(1)] by blast
    have nz: "r \<noteq> NULL" "r \<notin> X" using nbr_inv_key(5) [OF assms(1) k(1)] assms(1) k(1) by (auto simp: nbr_inv_def)
    have "reuse_least cb NULL s = Some (r, t)" by (simp add: reuse_least_def r t(1) nz)
    moreover have "make_room (capacity s X) es = Some (map (entry t) (remove1 r ks))"
      using n entries_remove [OF assms(1) k] by (simp add: make_room_def assms(4) Some [unfolded assms(4)] t(5))
    moreover have "kidx t r = kidx s r" by (rule kidx_same) (simp_all add: t(7))
    ultimately show ?thesis using t nz l0 al by auto
  qed
qed


text \<open>With a policy, what matters of it is its answer at the call: \<open>None\<close> here means that no policy is
  compiled in. The policy's neighbour goes even if it is locked; an address that it names and that is not on
  the list has no effect.\<close>

type_synonym answer = "linkaddr_t option option"

definition answering :: "answer \<Rightarrow> 'u policy" where
  "answering p = map_option (\<lambda>ans _ _ _. ans) p"

definition addresses :: "entry list \<Rightarrow> linkaddr_t set" where
  "addresses es = fst ` set es"

lemma addresses_entries: "addresses (map (entry s) ks) = lladdr s ` set ks"
  by (auto simp: addresses_def entry_def image_iff)

definition make_room_by :: "answer \<Rightarrow> nat \<Rightarrow> entry list \<Rightarrow> entry list option" where
  "make_room_by p n es =
     (case p of
        Some ans \<Rightarrow>
          if length es < n then Some es
          else (case ans of
                  None \<Rightarrow> None
                | Some a \<Rightarrow> if a \<in> addresses es then Some (filter (\<lambda>e. fst e \<noteq> a) es) else make_room n es)
      | None \<Rightarrow> make_room n es)"

lemma remove1_other_address:
  assumes "distinct (map (lladdr s) ks)" and "key \<in> set ks"
  shows "map (entry s) (remove1 key ks) = filter (\<lambda>e. fst e \<noteq> lladdr s key) (map (entry s) ks)"
proof -
  have "distinct ks" using assms(1) by (simp add: distinct_map)
  then have "remove1 key ks = filter (\<lambda>k. k \<noteq> key) ks"
    by (simp add: distinct_remove1_removeAll removeAll_filter_not_eq eq_commute)
  also have "\<dots> = filter (\<lambda>k. lladdr s k \<noteq> lladdr s key) ks"
    using assms by (intro filter_cong) (auto simp: distinct_map inj_on_def)
  finally show ?thesis by (simp add: filter_map o_def entry_def)
qed

text \<open>The lock of the policy's neighbour is cleared, and the neighbour is taken off the list.\<close>

lemma reuse_chosen:
  assumes "nbr_inv la s ks X" and "callback_ok cb" and k: "k \<in> set ks"
    and s0: "s0 = (if locked_map s ! kidx s k \<noteq> 0 then s\<lparr>locked_map := (locked_map s)[kidx s k := 0]\<rparr> else s)"
  shows "\<exists>t. reuse_least cb k s0 = Some (k, t) \<and> tables t = tables s \<and> nbr_inv la t (remove1 k ks) (insert k X) \<and> k \<noteq> NULL \<and> k \<notin> X \<and>
     map (entry t) (remove1 k ks) = filter (\<lambda>e. fst e \<noteq> lladdr s k) (map (entry s) ks) \<and>
     num (pool t) = num (pool s) \<and> used_map t ! kidx t k = 0 \<and> locked_map t ! kidx t k = 0"
proof -
  have f: "pool s0 = pool s" "tables s0 = tables s" "lladdr s0 = lladdr s" "used_map s0 = used_map s" "kidx s0 = kidx s"
    by (auto simp: s0 kidx_def index_from_key_def fun_eq_iff)
  have i: "kidx s k < num (pool s)" "length (locked_map s) = num (pool s)" "kidx s k \<in> used (pool s)"
    using nbr_inv_key [OF assms(1) k] assms(1) by (simp_all add: nbr_inv_def)
  have inv: "nbr_inv la s0 ks X" using assms(1) i(3) by (auto simp: nbr_inv_def s0 is_list_def) (metis nth_list_update_neq)
  have l: "locked_map s0 ! kidx s k = 0" using i(1,2) by (simp add: s0)
  obtain t y where t: "remove_key cb k s0 = Some t" "nbr_inv la t (remove1 k ks) (insert k X)" "used_map t ! kidx s0 k = 0"
    "locked_map t ! kidx s0 k = locked_map s0 ! kidx s0 k AND y" "map (entry t) (remove1 k ks) = map (entry s0) (remove1 k ks)"
    "tables t = tables s0" "pool t = pool s0"
    using remove_key_spec [OF inv assms(2) k] by blast
  have "k \<noteq> NULL" "k \<notin> X" using nbr_inv_key(5) [OF assms(1) k] assms(1) k by (auto simp: nbr_inv_def)
  moreover have "kidx t k = kidx s k" by (rule kidx_same) (simp_all add: t(7) f)
  moreover have "entry s0 j = entry s j" if "j \<in> set (remove1 k ks)" for j
  proof -
    have "distinct ks" using assms(1) is_list_distinct by (auto simp: nbr_inv_def)
    then have "j \<in> set ks" "j \<noteq> k" using that by auto
    then have "kidx s j \<noteq> kidx s k" using kidx_inj [OF assms(1), of j k] k by simp
    then show ?thesis by (auto simp: entry_def f) (auto simp: s0)
  qed
  then have "map (entry t) (remove1 k ks) = map (entry s) (remove1 k ks)" unfolding t(5) by simp
  moreover have "distinct (map (lladdr s) ks)" using assms(1) by (simp add: nbr_inv_def)
  ultimately show ?thesis
    using t f l remove1_other_address [of s ks k] k by (intro exI [of _ t]) (simp add: reuse_least_def)
qed

lemma alloc_by:
  assumes "nbr_inv la s ks X" and "callback_ok cb" and "finite X" and "es = map (entry s) ks"
    and "\<And>a. p = Some (Some a) \<Longrightarrow> length a = la"
  shows "\<exists>key t. nbr_table_allocate la (answering p) cb reason dat s = Some (key, t) \<and> tables t = tables s \<and>
    (case make_room_by p (capacity s X) es of
       None \<Rightarrow> key = NULL \<and> t = s
     | Some es' \<Rightarrow> \<exists>ks'. nbr_inv la t ks' (insert key X) \<and> key \<noteq> NULL \<and> key \<notin> X \<and> map (entry t) ks' = es' \<and>
         num (pool t) = num (pool s) \<and> used_map t ! kidx t key = 0 \<and> locked_map t ! kidx t key = 0)"
proof -
  note plain = alloc_spec [OF assms(1-4), of reason dat]
  have mo: "memb_ok (pool s)" using assms(1) by (simp add: nbr_inv_def)
  show ?thesis
  proof (cases p)
    case None
    then show ?thesis using plain by (simp add: make_room_by_def answering_def)
  next
    case (Some ans)
    show ?thesis
    proof (cases "used (pool s) = {..< num (pool s)}")
      case False
      then have "nbr_table_allocate la (answering p) cb reason dat s = nbr_table_allocate la None cb reason dat s"
        using alloc_fresh [OF assms(1) False] by (auto simp: nbr_table_allocate_def)
      moreover have "length es < capacity s X" using room_left [OF assms(1)] False assms(4) by simp
      ultimately show ?thesis using plain Some by (simp add: make_room_by_def make_room_def)
    next
      case True
      then have n: "\<not> length es < capacity s X" using room_left [OF assms(1)] assms(4) by simp
      have a: "memb_alloc (pool s) = (NULL, pool s)" using memb_alloc_spec [OF mo] True by simp
      have s0: "s\<lparr>neighbor_addr_mem := pool s\<rparr> = s" by simp
      have dflt: "nbr_table_allocate la None cb reason dat s = reuse_least cb NULL s"
        by (simp add: nbr_table_allocate_def a s0)
      show ?thesis
      proof (cases ans)
        case None
        then show ?thesis using Some n by (simp add: nbr_table_allocate_def a s0 answering_def make_room_by_def)
      next
        case ans: (Some b)
        have lb: "length b = la" using assms(5) Some ans by simp
        show ?thesis
        proof (cases "b \<in> addresses es")
          case False
          then have "index_from_lladdr la (Some b) s = Some (- 1)"
            using index_absent [OF assms(1) lb] by (simp add: assms(4) addresses_entries)
          then have "nbr_table_allocate la (answering p) cb reason dat s = nbr_table_allocate la None cb reason dat s"
            unfolding dflt by (simp add: nbr_table_allocate_def a s0 answering_def Some ans)
          then show ?thesis using plain n False by (simp add: make_room_by_def Some ans)
        next
          case True
          then obtain k where k: "k \<in> set ks" "lladdr s k = b" by (auto simp: assms(4) addresses_entries)
          define s1 where "s1 = (if locked_map s ! kidx s k \<noteq> 0 then s\<lparr>locked_map := (locked_map s)[kidx s k := 0]\<rparr> else s)"
          have "key_from_index (int (kidx s k)) s = k"
            using nbr_inv_key(2) [OF assms(1) k(1)] by (simp add: key_from_index_block)
          then have "nbr_table_allocate la (answering p) cb reason dat s = reuse_least cb k s1"
            by (simp add: nbr_table_allocate_def a s0 answering_def Some ans index_present [OF assms(1) lb k] s1_def)
          moreover have "make_room_by p (capacity s X) es = Some (filter (\<lambda>e. fst e \<noteq> lladdr s k) (map (entry s) ks))"
            using Some ans n True k(2) assms(4) by (simp add: make_room_by_def)
          ultimately show ?thesis using reuse_chosen [OF assms(1,2) k(1) s1_def] by auto
        qed
      qed
    qed
  qed
qed

section \<open>The tables as a list of neighbours\<close>

text \<open>
  An entry is an address with the bits of the tables that use and that lock it; \<open>n\<close> is the number of
  neighbours there is room for.
\<close>

definition nbr_repr :: "nat \<Rightarrow> (ptr \<Rightarrow> nbr_table_t) \<Rightarrow> 'u nbr_store \<Rightarrow> nat \<times> entry list \<Rightarrow> bool" where
  "nbr_repr la T s a \<longleftrightarrow> (\<exists>ks X. nbr_inv la s ks X \<and> finite X \<and> tables s = T \<and>
     a = (capacity s X, map (entry s) ks))"

fun update_entry :: "linkaddr_t \<Rightarrow> (u8 \<Rightarrow> u8 \<Rightarrow> u8 \<times> u8) \<Rightarrow> entry list \<Rightarrow> entry list" where
  "update_entry a f [] = []"
| "update_entry a f ((b, u, l) # es) = (if b = a then (b, f u l) # es else (b, u, l) # update_entry a f es)"

definition set_add :: "answer \<Rightarrow> nat \<Rightarrow> u8 \<Rightarrow> linkaddr_t \<Rightarrow> entry list \<Rightarrow> entry list" where
  "set_add p n b a es =
     (if a \<in> addresses es then update_entry a (\<lambda>u l. (u OR b, l)) es
      else case make_room_by p n es of None \<Rightarrow> es | Some es' \<Rightarrow> es' @ [(a, b, 0)])"

text \<open>Writing the bitmaps at one neighbour.\<close>

lemma update_entry_map:
  assumes "distinct (map g ks)" and "k \<in> set ks" and "g k = a"
  shows "update_entry a f (map (\<lambda>k. (g k, u k, l k)) ks) =
     map (\<lambda>j. if j = k then (g j, f (u j) (l j)) else (g j, u j, l j)) ks"
  using assms
proof (induction ks)
  case Nil
  then show ?case by simp
next
  case (Cons j ks)
  show ?case
  proof (cases "j = k")
    case True
    with Cons.prems show ?thesis by (auto simp: image_iff)
  next
    case False
    with Cons.prems have "g j \<noteq> a" by (auto simp: image_iff)
    with False Cons show ?thesis by simp
  qed
qed

lemma bits_written:
  assumes "nbr_inv la s ks X" and "k \<in> set ks" and "lladdr s k = a" and "i = kidx s k"
    and "t = s\<lparr>used_map := (used_map s)[i := fst (f (used_map s ! i) (locked_map s ! i))],
       locked_map := (locked_map s)[i := snd (f (used_map s ! i) (locked_map s ! i))], item_mem := mm\<rparr>"
  shows "nbr_inv la t ks X \<and> map (entry t) ks = update_entry a f (map (entry s) ks) \<and> tables t = tables s \<and>
     capacity t X = capacity s X"
proof -
  note k = nbr_inv_key [OF assms(1,2)]
  have "nbr_inv la t ks X"
    using assms(1) k(1,4) unfolding nbr_inv_def assms(4,5) by (auto simp: is_list_def nth_list_update)
  moreover have et: "entry t j = (if j = k then (lladdr s j, f (used_map s ! kidx s j) (locked_map s ! kidx s j))
      else (lladdr s j, used_map s ! kidx s j, locked_map s ! kidx s j))" if "j \<in> set ks" for j
  proof -
    have "length (used_map s) = num (pool s)" "length (locked_map s) = num (pool s)"
      using assms(1) by (simp_all add: nbr_inv_def)
    moreover have "kidx t j = kidx s j" by (rule kidx_same) (simp_all add: assms(5))
    ultimately show ?thesis
      using kidx_inj [OF assms(1) that assms(2)] k(1) by (auto simp: entry_def assms(4,5))
  qed
  moreover have "map (entry t) ks = update_entry a f (map (entry s) ks)"
  proof -
    have es: "map (entry s) ks = map (\<lambda>k. (lladdr s k, used_map s ! kidx s k, locked_map s ! kidx s k)) ks"
      by (simp add: entry_def)
    have "distinct (map (lladdr s) ks)" using assms(1) by (simp add: nbr_inv_def)
    then show ?thesis
      unfolding es by (subst update_entry_map [where g = "lladdr s" and k = k]) (use assms(2,3) in \<open>auto simp: et\<close>)
  qed
  moreover have "tables t = tables s" "capacity t X = capacity s X" by (simp_all add: assms(5) capacity_def)
  ultimately show ?thesis by blast
qed

lemma listed:
  assumes "nbr_inv la t ks (insert key X)" and "key \<notin> X" and "key \<noteq> NULL" and "length a = la"
    and "a \<notin> lladdr t ` set ks" and "used_map t ! kidx t key = 0" and "locked_map t ! kidx t key = 0"
  shows "\<exists>u s1. list_add nbr_table_keys key t = Some u \<and>
    s1 = u\<lparr>lladdr := (lladdr u)(key := linkaddr_copy la (lladdr u key) a)\<rparr> \<and>
    nbr_inv la s1 (ks @ [key]) X \<and> map (entry s1) (ks @ [key]) = map (entry t) ks @ [(a, 0, 0)] \<and>
    tables s1 = tables t \<and> capacity s1 X = capacity t X \<and> lladdr s1 key = a \<and> index_from_key key u = int (kidx s1 key)"
proof -
  have l: "is_list t nbr_table_keys ks" and nk: "key \<notin> set ks" using assms(1) by (auto simp: nbr_inv_def)
  obtain u where u: "list_add nbr_table_keys key t = Some u" "is_list u nbr_table_keys (ks @ [key])"
    "list_frame nbr_table_keys (insert key (set ks)) t u"
    using list_add_spec [OF l assms(3)] nk by (auto simp: remove1_idem)
  have m: "lladdr u = lladdr t" "used_map u = used_map t" "locked_map u = locked_map t" "pool u = pool t"
    "tables u = tables t"
    using more_fields_nbr [of u t] u(3) by (simp_all add: list_frame_def)
  define s1 where "s1 = u\<lparr>lladdr := (lladdr u)(key := linkaddr_copy la (lladdr u key) a)\<rparr>"
  have ll: "lladdr s1 = (lladdr t)(key := a)"
    using assms(1,4) by (simp add: s1_def m nbr_inv_def)
  have s1: "used_map s1 = used_map t" "locked_map s1 = locked_map t" "pool s1 = pool t" "tables s1 = tables t"
    by (simp_all add: s1_def m)
  have inv: "nbr_inv la s1 (ks @ [key]) X"
    using assms(1,2,4,5) u(2) nk unfolding nbr_inv_def ll s1
    by (auto simp: s1_def is_list_def distinct_map inj_on_def)
  have "entry s1 j = entry t j" if "j \<in> set ks" for j
    using that nk by (intro entry_same) (auto simp: ll s1)
  moreover have kk: "kidx s1 key = kidx t key" by (rule kidx_same) (simp_all add: s1)
  then have "entry s1 key = (a, 0, 0)" using assms(6,7) by (simp add: entry_def ll s1)
  moreover have "index_from_key key u = index_from_key key s1" by (simp add: index_from_key_def s1_def)
  then have "index_from_key key u = int (kidx s1 key)" using nbr_inv_key(3) [OF inv, of key] by simp
  ultimately show ?thesis
    using u(1) inv s1 ll by (intro exI [of _ u] exI [of _ s1]) (simp add: capacity_def s1_def)
qed

lemma make_room_subset: "make_room n es = Some es' \<Longrightarrow> set es' \<subseteq> set es"
  using set_remove1_subset by (fastforce simp: make_room_def split: if_splits)

lemma make_room_by_subset: "make_room_by p n es = Some es' \<Longrightarrow> set es' \<subseteq> set es"
  using make_room_subset by (fastforce simp: make_room_by_def split: if_splits option.splits)

lemma update_entry_append: "a \<notin> addresses es \<Longrightarrow> update_entry a f (es @ es') = es @ update_entry a f es'"
  by (induction es) (auto simp: addresses_def)

lemma used_bit_written:
  assumes "nbr_inv la s ks X" and "k \<in> set ks" and "lladdr s k = a" and "table_ok (tables s t)" and "t \<noteq> NULL"
    and "item = item_from_index t (int (kidx s k)) s"
    and "s2 = s\<lparr>item_mem := mm\<rparr>"
    and "r = s2\<lparr>used_map := snd (nbr_set_bit (used_map s2) t item True s2)\<rparr>"
  shows "nbr_inv la r ks X \<and> tables r = tables s \<and> capacity r X = capacity s X \<and>
     map (entry r) ks = update_entry a (\<lambda>u l. (u OR tbit (tables s t), l)) (map (entry s) ks)"
proof -
  have e: "r = s\<lparr>used_map := (used_map s)[kidx s k := used_map s ! kidx s k OR tbit (tables s t)],
      locked_map := (locked_map s)[kidx s k := locked_map s ! kidx s k], item_mem := mm\<rparr>"
    using set_bit_item [OF assms(4,5), of s2] by (cases s) (simp add: assms(6-8))
  have "nbr_inv la r ks X \<and> map (entry r) ks = update_entry a (\<lambda>u l. (u OR tbit (tables s t), l)) (map (entry s) ks) \<and>
      tables r = tables s \<and> capacity r X = capacity s X"
    by (rule bits_written [OF assms(1-3) refl, where mm = mm]) (simp only: fst_conv snd_conv e)
  then show ?thesis by blast
qed

lemma add_spec:
  assumes "nbr_inv la s ks X" and "callback_ok cb" and "finite X" and "es = map (entry s) ks"
    and "table_ok (tables s t)" and "t \<noteq> NULL" and "length a = la"
    and "\<And>b. p = Some (Some b) \<Longrightarrow> length b = la"
  shows "\<exists>item r ks'. nbr_table_add_lladdr la (answering p) cb t (Some a) reason dat s = Some (item, r) \<and>
    nbr_inv la r ks' X \<and> tables r = tables s \<and> capacity r X = capacity s X \<and>
    map (entry r) ks' = set_add p (capacity s X) (tbit (tables s t)) a es \<and>
    (item = NULL \<longleftrightarrow> a \<notin> addresses es \<and> make_room_by p (capacity s X) es = None)"
proof (cases "a \<in> addresses es")
  case True
  then obtain k where k: "k \<in> set ks" "lladdr s k = a" by (auto simp: assms(4) addresses_entries)
  define item where "item = item_from_index t (int (kidx s k)) s"
  have "nbr_table_add_lladdr la (answering p) cb t (Some a) reason dat s =
     (let s2 = s\<lparr>item_mem := blit (item_mem s) item (replicate (item_size (tables s t)) 0)\<rparr>
      in Some (item, s2\<lparr>used_map := snd (nbr_set_bit (used_map s2) t item True s2)\<rparr>))"
    using index_present [OF assms(1,7) k] by (simp add: nbr_table_add_lladdr_def item_def Let_def)
  moreover have "item \<noteq> NULL" using item_nonNULL [OF assms(5,6)] by (simp add: item_def)
  ultimately show ?thesis
    using used_bit_written [OF assms(1) k assms(5,6) item_def refl refl] True
    by (auto simp: Let_def set_add_def assms(4))
next
  case False
  then have ab: "index_from_lladdr la (Some a) s = Some (- 1)"
    using index_absent [OF assms(1,7)] by (simp add: assms(4) addresses_entries)
  obtain key t0 where al: "nbr_table_allocate la (answering p) cb reason dat s = Some (key, t0)" and tt: "tables t0 = tables s"
    and c: "case make_room_by p (capacity s X) es of
       None \<Rightarrow> key = NULL \<and> t0 = s
     | Some es' \<Rightarrow> \<exists>ks'. nbr_inv la t0 ks' (insert key X) \<and> key \<noteq> NULL \<and> key \<notin> X \<and> map (entry t0) ks' = es' \<and>
         num (pool t0) = num (pool s) \<and> used_map t0 ! kidx t0 key = 0 \<and> locked_map t0 ! kidx t0 key = 0"
    using alloc_by [OF assms(1-4,8)] by blast
  show ?thesis
  proof (cases "make_room_by p (capacity s X) es")
    case None
    with c False ab al assms(1,4) show ?thesis by (simp add: nbr_table_add_lladdr_def set_add_def) blast
  next
    case (Some es')
    with c obtain ks' where i0: "nbr_inv la t0 ks' (insert key X)" "key \<notin> X" "key \<noteq> NULL" and es': "map (entry t0) ks' = es'"
      and n: "num (pool t0) = num (pool s)" and z: "used_map t0 ! kidx t0 key = 0" "locked_map t0 ! kidx t0 key = 0"
      by auto
    have na: "a \<notin> addresses es'" using False make_room_by_subset [OF Some] by (auto simp: addresses_def)
    then have "a \<notin> lladdr t0 ` set ks'" unfolding es' [symmetric] addresses_entries .
    from listed [OF i0 assms(7) this z] obtain u s1 where u: "list_add nbr_table_keys key t0 = Some u"
      "s1 = u\<lparr>lladdr := (lladdr u)(key := linkaddr_copy la (lladdr u key) a)\<rparr>"
      and i1: "nbr_inv la s1 (ks' @ [key]) X" and e1: "map (entry s1) (ks' @ [key]) = es' @ [(a, 0, 0)]"
      and t1: "tables s1 = tables s" and c1: "capacity s1 X = capacity s X" and k1: "lladdr s1 key = a"
      and ix: "index_from_key key u = int (kidx s1 key)"
      using es' tt n by (auto simp: capacity_def)
    define item where "item = item_from_index t (int (kidx s1 key)) s1"
    define s2 where "s2 = s1\<lparr>item_mem := blit (item_mem s1) item (replicate (item_size (tables s1 t)) 0)\<rparr>"
    define r where "r = s2\<lparr>used_map := snd (nbr_set_bit (used_map s2) t item True s2)\<rparr>"
    have "nbr_table_add_lladdr la (answering p) cb t (Some a) reason dat s = Some (item, r)"
      using al ab i0(3) u ix by (simp add: nbr_table_add_lladdr_def item_def r_def s2_def Let_def)
    moreover have "item \<noteq> NULL" using item_nonNULL [of s1 t] assms(5,6) by (simp add: item_def t1)
    moreover have "nbr_inv la r (ks' @ [key]) X \<and> tables r = tables s1 \<and> capacity r X = capacity s1 X \<and>
        map (entry r) (ks' @ [key]) =
          update_entry a (\<lambda>u l. (u OR tbit (tables s1 t), l)) (map (entry s1) (ks' @ [key]))"
      by (rule used_bit_written [OF i1 _ k1 _ assms(6) item_def s2_def r_def]) (simp_all add: t1 assms(5))
    then have "nbr_inv la r (ks' @ [key]) X" "tables r = tables s" "capacity r X = capacity s X"
      "map (entry r) (ks' @ [key]) = es' @ [(a, tbit (tables s t), 0)]"
      using update_entry_append [OF na] unfolding e1 by (simp_all add: t1 c1)
    moreover have "set_add p (capacity s X) (tbit (tables s t)) a es = es' @ [(a, tbit (tables s t), 0)]"
      using False Some by (simp add: set_add_def)
    ultimately show ?thesis using Some
      by (intro exI [of _ item] exI [of _ r] exI [of _ "ks' @ [key]"]) simp
  qed
qed

lemma update_entry_same: "(\<And>u l. (a, u, l) \<in> set es \<Longrightarrow> f u l = (u, l)) \<Longrightarrow> update_entry a f es = es"
  by (induction es) auto

lemma get_spec:
  assumes "nbr_inv la s ks X" and "table_ok (tables s t)" and "t \<noteq> NULL" and "length a = la"
  shows "\<exists>item. nbr_table_get_from_lladdr la t (Some a) s = Some item \<and>
    (if \<exists>k \<in> set ks. lladdr s k = a \<and> used_map s ! kidx s k AND tbit (tables s t) \<noteq> 0
     then \<exists>k \<in> set ks. lladdr s k = a \<and> used_map s ! kidx s k AND tbit (tables s t) \<noteq> 0 \<and>
            item = item_from_index t (int (kidx s k)) s
     else item = NULL)"
proof (cases "a \<in> lladdr s ` set ks")
  case False
  then show ?thesis
    using index_absent [OF assms(1,4)] by (auto simp: nbr_table_get_from_lladdr_def item_from_index_def get_bit_NULL)
next
  case True
  then obtain k where k: "k \<in> set ks" "lladdr s k = a" by auto
  have u: "j = k" if "j \<in> set ks" "lladdr s j = a" for j
    using that k assms(1) by (auto simp: nbr_inv_def distinct_map inj_on_def)
  have g: "nbr_table_get_from_lladdr la t (Some a) s =
     Some (if used_map s ! kidx s k AND tbit (tables s t) \<noteq> 0 then item_from_index t (int (kidx s k)) s else NULL)"
    by (simp add: nbr_table_get_from_lladdr_def index_present [OF assms(1,4) k] get_bit_item [OF assms(2,3)])
  show ?thesis
  proof (cases "used_map s ! kidx s k AND tbit (tables s t) \<noteq> 0")
    case True
    with g k show ?thesis by auto
  next
    case False
    then have "\<not> (\<exists>j \<in> set ks. lladdr s j = a \<and> used_map s ! kidx s j AND tbit (tables s t) \<noteq> 0)" using u by blast
    with g False show ?thesis by auto
  qed
qed

text \<open>An operation that looks an item up and writes its bits.\<close>

lemma changed_bits:
  assumes "nbr_inv la s ks X" and "table_ok (tables s t)" and "t \<noteq> NULL" and "length a = la"
    and "h NULL = s"
    and "\<And>i. h (item_from_index t (int i) s) =
       s\<lparr>used_map := (used_map s)[i := fst (f (used_map s ! i) (locked_map s ! i))],
         locked_map := (locked_map s)[i := snd (f (used_map s ! i) (locked_map s ! i))], item_mem := item_mem s\<rparr>"
  shows "\<exists>item. nbr_table_get_from_lladdr la t (Some a) s = Some item \<and> nbr_inv la (h item) ks X \<and>
    tables (h item) = tables s \<and> capacity (h item) X = capacity s X \<and>
    map (entry (h item)) ks =
      update_entry a (\<lambda>u l. if u AND tbit (tables s t) \<noteq> 0 then f u l else (u, l)) (map (entry s) ks)"
proof -
  let ?f = "\<lambda>u l. if u AND tbit (tables s t) \<noteq> 0 then f u l else (u, l)"
  obtain item where g: "nbr_table_get_from_lladdr la t (Some a) s = Some item"
    and c: "if \<exists>k \<in> set ks. lladdr s k = a \<and> used_map s ! kidx s k AND tbit (tables s t) \<noteq> 0
     then \<exists>k \<in> set ks. lladdr s k = a \<and> used_map s ! kidx s k AND tbit (tables s t) \<noteq> 0 \<and>
            item = item_from_index t (int (kidx s k)) s
     else item = NULL"
    using get_spec [OF assms(1-4)] by blast
  show ?thesis
  proof (cases "\<exists>k \<in> set ks. lladdr s k = a \<and> used_map s ! kidx s k AND tbit (tables s t) \<noteq> 0")
    case True
    with c obtain k where k: "k \<in> set ks" "lladdr s k = a" "used_map s ! kidx s k AND tbit (tables s t) \<noteq> 0"
      "item = item_from_index t (int (kidx s k)) s" by auto
    define i where "i = kidx s k"
    have e: "h item = s\<lparr>used_map := (used_map s)[i := fst (?f (used_map s ! i) (locked_map s ! i))],
        locked_map := (locked_map s)[i := snd (?f (used_map s ! i) (locked_map s ! i))], item_mem := item_mem s\<rparr>"
      using k(3) unfolding k(4) i_def [symmetric] assms(6) by simp
    from bits_written [where f = ?f, OF assms(1) k(1,2) i_def e] g show ?thesis by blast
  next
    case False
    with c have n: "h item = s" using assms(5) by simp
    have "update_entry a ?f (map (entry s) ks) = map (entry s) ks"
      using False by (intro update_entry_same) (auto simp: entry_def)
    with n g assms(1) show ?thesis by auto
  qed
qed


section \<open>Sequences of operations\<close>

text \<open>What the users of the tables do: they look a neighbour up by its address and change the item
  they get. An addition gives the reason and the data that the policy \<open>fr\<close> is called with.\<close>

datatype nbr_op =
    N_add ptr linkaddr_t int ptr
  | N_remove ptr linkaddr_t
  | N_lock ptr linkaddr_t
  | N_unlock ptr linkaddr_t
  | N_update linkaddr_t linkaddr_t bool

fun nbr_step :: "nat \<Rightarrow> 'u policy \<Rightarrow> 'u callbacks \<Rightarrow> nbr_op \<Rightarrow> 'u nbr_store \<Rightarrow> 'u nbr_store option" where
  "nbr_step la fr cb (N_add t a reason dat) s = map_option snd (nbr_table_add_lladdr la fr cb t (Some a) reason dat s)"
| "nbr_step la fr cb (N_remove t a) s =
     map_option (\<lambda>item. snd (nbr_table_remove t item s)) (nbr_table_get_from_lladdr la t (Some a) s)"
| "nbr_step la fr cb (N_lock t a) s =
     map_option (\<lambda>item. snd (nbr_table_lock t item s)) (nbr_table_get_from_lladdr la t (Some a) s)"
| "nbr_step la fr cb (N_unlock t a) s =
     map_option (\<lambda>item. snd (nbr_table_unlock t item s)) (nbr_table_get_from_lladdr la t (Some a) s)"
| "nbr_step la fr cb (N_update a b dup) s = map_option snd (nbr_table_update_lladdr la cb (Some a) b dup s)"

text \<open>What the policy answers when it is called in the store \<open>s\<close>.\<close>

definition answer_in :: "'u policy \<Rightarrow> nbr_op \<Rightarrow> 'u nbr_store \<Rightarrow> answer" where
  "answer_in fr x s = (case x of N_add t a reason dat \<Rightarrow> map_option (\<lambda>f. f reason dat s) fr | _ \<Rightarrow> None)"

text \<open>The specification: a table changes its own bit of the entries that it uses; the address of an
  entry may change, unless the new address has an entry, and then the entry is dropped when that is
  asked for. Its place is then lost.\<close>

definition if_used :: "u8 \<Rightarrow> (u8 \<Rightarrow> u8 \<Rightarrow> u8 \<times> u8) \<Rightarrow> u8 \<Rightarrow> u8 \<Rightarrow> u8 \<times> u8" where
  "if_used b f = (\<lambda>u l. if u AND b \<noteq> 0 then f u l else (u, l))"

fun nbr_spec :: "(ptr \<Rightarrow> nbr_table_t) \<Rightarrow> answer \<times> nbr_op \<Rightarrow> nat \<times> entry list \<Rightarrow> nat \<times> entry list" where
  "nbr_spec T (p, N_add t a reason dat) (n, es) = (n, set_add p n (tbit (T t)) a es)"
| "nbr_spec T (p, N_remove t a) (n, es) =
     (n, update_entry a (if_used (tbit (T t)) (\<lambda>u l. (u AND NOT (tbit (T t)), l AND NOT (tbit (T t))))) es)"
| "nbr_spec T (p, N_lock t a) (n, es) =
     (n, update_entry a (if_used (tbit (T t)) (\<lambda>u l. (u, l OR tbit (T t)))) es)"
| "nbr_spec T (p, N_unlock t a) (n, es) =
     (n, update_entry a (if_used (tbit (T t)) (\<lambda>u l. (u, l AND NOT (tbit (T t))))) es)"
| "nbr_spec T (p, N_update a b dup) (n, es) =
     (if a \<notin> addresses es \<or> a = b then (n, es)
      else if b \<notin> addresses es then (n, map (\<lambda>(c, u, l). (if c = a then b else c, u, l)) es)
      else if dup then (n - 1, filter (\<lambda>e. fst e \<noteq> a) es)
      else (n, es))"

fun nbr_op_ok :: "nat \<Rightarrow> (ptr \<Rightarrow> nbr_table_t) \<Rightarrow> nbr_op \<Rightarrow> bool" where
  "nbr_op_ok la T (N_update a b dup) \<longleftrightarrow> length a = la \<and> length b = la"
| "nbr_op_ok la T (N_add t a reason dat) \<longleftrightarrow> t \<noteq> NULL \<and> table_ok (T t) \<and> length a = la"
| "nbr_op_ok la T (N_remove t a) \<longleftrightarrow> t \<noteq> NULL \<and> table_ok (T t) \<and> length a = la"
| "nbr_op_ok la T (N_lock t a) \<longleftrightarrow> t \<noteq> NULL \<and> table_ok (T t) \<and> length a = la"
| "nbr_op_ok la T (N_unlock t a) \<longleftrightarrow> t \<noteq> NULL \<and> table_ok (T t) \<and> length a = la"

lemma set_bit_NULL: "nbr_set_bit bm t NULL v s = (0, bm)"
  by (simp add: nbr_set_bit_def index_from_item_def)

definition answer_ok :: "nat \<Rightarrow> answer \<Rightarrow> bool" where
  "answer_ok la p \<longleftrightarrow> (\<forall>a. p = Some (Some a) \<longrightarrow> length a = la)"

lemma step_add:
  assumes "nbr_repr la T s (n, es)" and "callback_ok cb" and "nbr_op_ok la T (N_add t a reason dat)" and "answer_ok la p"
  shows "\<exists>r. nbr_step la (answering p) cb (N_add t a reason dat) s = Some r \<and>
    nbr_repr la T r (nbr_spec T (p, N_add t a reason dat) (n, es))"
proof -
  obtain ks X where i: "nbr_inv la s ks X" "finite X" "tables s = T" "n = capacity s X" "es = map (entry s) ks"
    using assms(1) unfolding nbr_repr_def by blast
  have ok: "table_ok (tables s t)" "t \<noteq> NULL" "length a = la" using assms(3) i(3) by simp_all
  have p: "p = Some (Some b) \<Longrightarrow> length b = la" for b using assms(4) by (simp add: answer_ok_def)
  obtain item r ks' where r: "nbr_table_add_lladdr la (answering p) cb t (Some a) reason dat s = Some (item, r)"
    "nbr_inv la r ks' X" "tables r = tables s" "capacity r X = capacity s X"
    "map (entry r) ks' = set_add p (capacity s X) (tbit (tables s t)) a es"
    using add_spec [OF i(1) assms(2) i(2,5) ok p] by blast
  have "nbr_repr la T r (n, set_add p n (tbit (T t)) a es)"
    unfolding nbr_repr_def using r i by (intro exI [of _ ks'] exI [of _ X]) simp
  with r(1) show ?thesis by simp
qed

lemma step_bits:
  assumes "nbr_repr la T s (n, es)" and "t \<noteq> NULL" and "table_ok (T t)" and "length a = la"
    and "h NULL = s"
    and "\<And>i. h (item_from_index t (int i) s) =
       s\<lparr>used_map := (used_map s)[i := fst (f (used_map s ! i) (locked_map s ! i))],
         locked_map := (locked_map s)[i := snd (f (used_map s ! i) (locked_map s ! i))], item_mem := item_mem s\<rparr>"
  shows "\<exists>r. map_option h (nbr_table_get_from_lladdr la t (Some a) s) = Some r \<and>
     nbr_repr la T r (n, update_entry a (if_used (tbit (T t)) f) es)"
proof -
  obtain ks X where i: "nbr_inv la s ks X" "finite X" "tables s = T" "n = capacity s X" "es = map (entry s) ks"
    using assms(1) unfolding nbr_repr_def by blast
  obtain item where r: "nbr_table_get_from_lladdr la t (Some a) s = Some item" "nbr_inv la (h item) ks X"
    "tables (h item) = tables s" "capacity (h item) X = capacity s X"
    "map (entry (h item)) ks = update_entry a (if_used (tbit (tables s t)) f) (map (entry s) ks)"
    using changed_bits [where h = h and f = f, OF i(1) _ assms(2,4,5,6)] assms(3) i(3)
    unfolding if_used_def by blast
  have "nbr_repr la T (h item) (n, update_entry a (if_used (tbit (T t)) f) es)"
    unfolding nbr_repr_def using r i by (intro exI [of _ ks] exI [of _ X]) simp
  with r(1) show ?thesis by simp
qed

lemma update_index:
  assumes "nbr_inv la s ks X" and "k \<in> set ks" and "lladdr s k = a" and "length a = la" and "length b = la"
  shows "nbr_table_update_lladdr la cb (Some a) b dup s =
    (if a = b then Some (1, s)
     else if b \<in> lladdr s ` set ks
     then map_option (\<lambda>r. (0, r)) (if dup then remove_key cb k s else Some s)
     else Some (1, s\<lparr>lladdr := (lladdr s)(k := b)\<rparr>))"
proof -
  note ia = index_present [OF assms(1,4,2,3)]
  have kk: "key_from_index (int (kidx s k)) s = k"
    using nbr_inv_key(2) [OF assms(1,2)] by (simp add: key_from_index_block)
  show ?thesis
  proof (cases "b \<in> lladdr s ` set ks")
    case True
    then obtain j where j: "j \<in> set ks" "lladdr s j = b" by auto
    have "a = b \<longleftrightarrow> j = k" using j assms(1-3) by (auto simp: nbr_inv_def distinct_map inj_on_def)
    then have "kidx s j = kidx s k \<longleftrightarrow> a = b" using kidx_inj [OF assms(1) j(1) assms(2)] by simp
    then show ?thesis
      using True by (cases "a = b") (simp_all add: nbr_table_update_lladdr_def ia index_present [OF assms(1,5) j] kk
          map_conv_bind_option o_def)
  next
    case False
    then have "a \<noteq> b" using assms(2,3) by auto
    moreover have "linkaddr_copy la (lladdr s k) b = b" using assms(1,5) by (simp add: nbr_inv_def)
    ultimately show ?thesis
      using False by (simp add: nbr_table_update_lladdr_def ia index_absent [OF assms(1,5) False] kk)
  qed
qed

lemma step_update:
  assumes "nbr_repr la T s (n, es)" and "callback_ok cb" and "length a = la" and "length b = la"
  shows "\<exists>r. nbr_step la fr cb (N_update a b dup) s = Some r \<and> nbr_repr la T r (nbr_spec T (p, N_update a b dup) (n, es))"
proof -
  obtain ks X where i: "nbr_inv la s ks X" "finite X" "tables s = T" "n = capacity s X" "es = map (entry s) ks"
    using assms(1) unfolding nbr_repr_def by blast
  have same: "nbr_repr la T s (n, es)" by (fact assms(1))
  have ad: "addresses es = lladdr s ` set ks" unfolding i(5) by (rule addresses_entries)
  show ?thesis
  proof (cases "a \<in> addresses es")
    case False
    then have "index_from_lladdr la (Some a) s = Some (- 1)" using index_absent [OF i(1) assms(3)] ad by simp
    then show ?thesis using False same by (simp add: nbr_table_update_lladdr_def)
  next
    case True
    then obtain k where k: "k \<in> set ks" "lladdr s k = a" using ad by auto
    note u = update_index [OF i(1) k assms(3,4), of cb dup]
    consider (eq) "a = b" | (new) "a \<noteq> b" "b \<notin> addresses es" | (dup) "a \<noteq> b" "b \<in> addresses es" "dup"
      | (keep) "a \<noteq> b" "b \<in> addresses es" "\<not> dup" by blast
    then show ?thesis
    proof cases
      case eq
      then show ?thesis using u same by simp
    next
      case keep
      then show ?thesis using u same True ad by simp
    next
      case new
      define r where "r = s\<lparr>lladdr := (lladdr s)(k := b)\<rparr>"
      have d: "distinct (map (lladdr s) ks)" using i(1) by (simp add: nbr_inv_def)
      have bn: "b \<notin> lladdr s ` set ks" using new(2) ad by simp
      have "nbr_inv la r ks X"
        using i(1) assms(4) k(1) bn d unfolding nbr_inv_def r_def
        by (auto simp: is_list_def distinct_map inj_on_def)
      moreover have "entry r j = (\<lambda>(c, u, l). (if c = a then b else c, u, l)) (entry s j)" if "j \<in> set ks" for j
      proof -
        have "lladdr s j = a \<longleftrightarrow> j = k" using that k d by (auto simp: distinct_map inj_on_def)
        moreover have "kidx r j = kidx s j" by (rule kidx_same) (simp_all add: r_def)
        ultimately show ?thesis by (simp add: entry_def) (simp add: r_def)
      qed
      moreover have "tables r = T" "capacity r X = n" using i by (simp_all add: r_def capacity_def)
      ultimately have "nbr_repr la T r (n, map (\<lambda>(c, u, l). (if c = a then b else c, u, l)) es)"
        unfolding nbr_repr_def using i(2,5) by (intro exI [of _ ks] exI [of _ X]) simp
      then show ?thesis using u new True ad by (simp add: r_def)
    next
      case dup
      obtain r where r: "remove_key cb k s = Some r" "nbr_inv la r (remove1 k ks) (insert k X)"
        "map (entry r) (remove1 k ks) = map (entry s) (remove1 k ks)" "tables r = tables s" "pool r = pool s"
        using remove_key_spec [OF i(1) assms(2) k(1)] by blast
      have "k \<notin> X" using i(1) k(1) by (auto simp: nbr_inv_def)
      then have "capacity r (insert k X) = n - 1" using i(2,4) r(5) by (simp add: capacity_def)
      moreover have "map (entry r) (remove1 k ks) = filter (\<lambda>e. fst e \<noteq> a) es"
        using remove1_other_address [of s ks k] i(1,5) k r(3) by (simp add: nbr_inv_def)
      ultimately have "nbr_repr la T r (n - 1, filter (\<lambda>e. fst e \<noteq> a) es)"
        unfolding nbr_repr_def using r i(2,3) by (intro exI [of _ "remove1 k ks"] exI [of _ "insert k X"]) simp
      then show ?thesis using u dup True ad r(1) by simp
    qed
  qed
qed

lemma nbr_step_simulates:
  assumes "nbr_repr la T s (n, es)" and "callback_ok cb" and "nbr_op_ok la T x" and "answer_ok la p"
  shows "\<exists>r. nbr_step la (answering p) cb x s = Some r \<and> nbr_repr la T r (nbr_spec T (p, x) (n, es))"
proof (cases x)
  case (N_add t a reason dat)
  with step_add [OF assms(1,2) _ assms(4)] assms(3) show ?thesis by blast
next
  case (N_update a b dup)
  with step_update [OF assms(1,2)] assms(3) show ?thesis by simp
next
  case (N_remove t a)
  have T: "tables s = T" "t \<noteq> NULL" "table_ok (T t)" "length a = la"
    using assms(1,3) N_remove by (auto simp: nbr_repr_def)
  have "snd (nbr_table_remove t NULL s) = s" by (simp add: nbr_table_remove_def set_bit_NULL)
  then show ?thesis
    using step_bits [OF assms(1) T(2-4), of "\<lambda>item. snd (nbr_table_remove t item s)"
        "\<lambda>u l. (u AND NOT (tbit (T t)), l AND NOT (tbit (T t)))"]
    by (simp add: N_remove nbr_table_remove_def Let_def set_bit_item [of s t] T)
next
  case (N_lock t a)
  have T: "tables s = T" "t \<noteq> NULL" "table_ok (T t)" "length a = la"
    using assms(1,3) N_lock by (auto simp: nbr_repr_def)
  have "snd (nbr_table_lock t NULL s) = s" by (simp add: nbr_table_lock_def set_bit_NULL)
  then show ?thesis
    using step_bits [OF assms(1) T(2-4), of "\<lambda>item. snd (nbr_table_lock t item s)" "\<lambda>u l. (u, l OR tbit (T t))"]
    by (simp add: N_lock nbr_table_lock_def set_bit_item [of s t] T)
next
  case (N_unlock t a)
  have T: "tables s = T" "t \<noteq> NULL" "table_ok (T t)" "length a = la"
    using assms(1,3) N_unlock by (auto simp: nbr_repr_def)
  have "snd (nbr_table_unlock t NULL s) = s" by (simp add: nbr_table_unlock_def set_bit_NULL)
  then show ?thesis
    using step_bits [OF assms(1) T(2-4), of "\<lambda>item. snd (nbr_table_unlock t item s)"
        "\<lambda>u l. (u, l AND NOT (tbit (T t)))"]
    by (simp add: N_unlock nbr_table_unlock_def set_bit_item [of s t] T)
qed


text \<open>An addition calls the policy at most once, so that its answer can stand for it.\<close>

lemma memb_alloc_full: "memb_alloc m = (NULL, m') \<Longrightarrow> memb_ok m \<Longrightarrow> m' = m"
  using memb_alloc_spec [of m] by (auto simp: block_def memb_ok_def split: if_splits)

lemma allocate_answer:
  "nbr_inv la s ks X \<Longrightarrow>
     nbr_table_allocate la fr cb reason dat s = nbr_table_allocate la (answering (map_option (\<lambda>f. f reason dat s) fr)) cb reason dat s"
  using memb_alloc_full [of "pool s"]
  by (cases fr) (auto simp: nbr_table_allocate_def answering_def nbr_inv_def Let_def split: prod.splits)

lemma step_answer:
  assumes "nbr_repr la T s a"
  shows "nbr_step la fr cb x s = nbr_step la (answering (answer_in fr x s)) cb x s"
proof (cases x)
  case (N_add t a reason dat)
  obtain ks X where "nbr_inv la s ks X" using assms unfolding nbr_repr_def by blast
  note eq = allocate_answer [OF this, of fr cb reason dat]
  show ?thesis
    unfolding N_add nbr_step.simps nbr_table_add_lladdr_def answer_in_def nbr_op.case by (subst eq) (rule refl)
qed simp_all

text \<open>The operations of a run, each with the answer of the policy in it.\<close>

fun noted :: "nat \<Rightarrow> 'u policy \<Rightarrow> 'u callbacks \<Rightarrow> nbr_op list \<Rightarrow> 'u nbr_store \<Rightarrow> (answer \<times> nbr_op) list" where
  "noted la fr cb [] s = []"
| "noted la fr cb (x # xs) s =
     (answer_in fr x s, x) # (case nbr_step la fr cb x s of None \<Rightarrow> [] | Some t \<Rightarrow> noted la fr cb xs t)"

definition policy_ok :: "nat \<Rightarrow> 'u policy \<Rightarrow> bool" where
  "policy_ok la fr \<longleftrightarrow> (\<forall>f reason dat s a. fr = Some f \<longrightarrow> f reason dat s = Some a \<longrightarrow> length a = la)"

lemma policy_answer_ok: "policy_ok la fr \<Longrightarrow> answer_ok la (answer_in fr x s)"
  by (cases fr) (auto simp: policy_ok_def answer_ok_def answer_in_def split: nbr_op.splits)

interpretation neighbours: partial_simulation "\<lambda>(p, x). nbr_step la (answering p) cb x" "nbr_spec T"
    "\<lambda>(p, x) a. nbr_op_ok la T x \<and> answer_ok la p" "\<lambda>s a. callback_ok cb \<and> nbr_repr la T s a" for la T cb
proof
  fix s :: "'a nbr_store" and a :: "nat \<times> entry list" and x
  assume "callback_ok cb \<and> nbr_repr la T s a" and "(case x of (p, x) \<Rightarrow> \<lambda>a. nbr_op_ok la T x \<and> answer_ok la p) a"
  then show "\<exists>t. (case x of (p, x) \<Rightarrow> nbr_step la (answering p) cb x) s = Some t \<and> callback_ok cb \<and> nbr_repr la T t (nbr_spec T x a)"
    using nbr_step_simulates [of la T s "fst a" "snd a" cb "snd x" "fst x"] by (cases x) simp
qed

lemma run_noted:
  assumes "callback_ok cb" and "policy_ok la fr" and "nbr_repr la T s a" and "list_all (nbr_op_ok la T) ops"
  shows "run_ops (nbr_step la fr cb) ops s = run_ops (\<lambda>(p, x). nbr_step la (answering p) cb x) (noted la fr cb ops s) s \<and>
    ops_allowed (\<lambda>(p, x) a. nbr_op_ok la T x \<and> answer_ok la p) (nbr_spec T) (noted la fr cb ops s) a"
  using assms(3,4)
proof (induction ops arbitrary: s a)
  case (Cons x xs)
  define p where "p = answer_in fr x s"
  have p: "answer_ok la p" unfolding p_def by (rule policy_answer_ok [OF assms(2)])
  have st: "nbr_step la fr cb x s = nbr_step la (answering p) cb x s" unfolding p_def by (rule step_answer [OF Cons.prems(1)])
  obtain t where t: "nbr_step la (answering p) cb x s = Some t" "nbr_repr la T t (nbr_spec T (p, x) a)"
    using nbr_step_simulates [of la T s "fst a" "snd a" cb x p] Cons.prems assms(1) p by auto
  show ?case
    using Cons.IH [OF t(2)] Cons.prems(2) p t(1) by (simp add: st p_def [symmetric])
qed simp

lemma get_repr:
  assumes "nbr_repr la T s (n, es)" and "table_ok (T t)" and "t \<noteq> NULL" and "length a = la"
  shows "\<exists>item. nbr_table_get_from_lladdr la t (Some a) s = Some item \<and>
    (item \<noteq> NULL \<longleftrightarrow> (\<exists>u l. (a, u, l) \<in> set es \<and> u AND tbit (T t) \<noteq> 0)) \<and>
    (item \<noteq> NULL \<longrightarrow> nbr_table_get_lladdr t item s = Some a)"
proof -
  obtain ks X where i: "nbr_inv la s ks X" "tables s = T" "es = map (entry s) ks"
    using assms(1) unfolding nbr_repr_def by blast
  have tk: "table_ok (tables s t)" using assms(2) i(2) by simp
  obtain item where g: "nbr_table_get_from_lladdr la t (Some a) s = Some item"
    and c: "if \<exists>k \<in> set ks. lladdr s k = a \<and> used_map s ! kidx s k AND tbit (tables s t) \<noteq> 0
     then \<exists>k \<in> set ks. lladdr s k = a \<and> used_map s ! kidx s k AND tbit (tables s t) \<noteq> 0 \<and>
            item = item_from_index t (int (kidx s k)) s
     else item = NULL"
    using get_spec [OF i(1) tk assms(3,4)] by blast
  have e: "(\<exists>u l. (a, u, l) \<in> set es \<and> u AND tbit (T t) \<noteq> 0) \<longleftrightarrow>
      (\<exists>k \<in> set ks. lladdr s k = a \<and> used_map s ! kidx s k AND tbit (tables s t) \<noteq> 0)"
    by (auto simp: i(2,3) entry_def)
  show ?thesis
  proof (cases "\<exists>k \<in> set ks. lladdr s k = a \<and> used_map s ! kidx s k AND tbit (tables s t) \<noteq> 0")
    case True
    with c obtain k where k: "k \<in> set ks" "lladdr s k = a" "item = item_from_index t (int (kidx s k)) s"
      by auto
    have "nbr_table_get_lladdr t item s = Some a"
      using k nbr_inv_key [OF i(1) k(1)] index_from_item_item [OF tk assms(3)]
      by (simp add: nbr_table_get_lladdr_def key_from_item_def key_from_index_block)
    moreover have "item \<noteq> NULL" using item_nonNULL [OF tk assms(3)] k(3) by simp
    ultimately show ?thesis using g True e by blast
  next
    case False
    with c g e show ?thesis by auto
  qed
qed

text \<open>C15: Over any sequence of additions, removals, locks, releases and changes of address, by any of
  the tables, the store of the neighbour tables behaves as one list of addresses with the bits of
  the tables that use and that lock each. When it is full, an addition without a policy takes the place of
  the first of the neighbours without a lock that the fewest tables use, and fails when all are locked. With
  a policy \<open>NBR_TABLE_FIND_REMOVABLE\<close>, the neighbour that it names at that moment goes, locked or not; if it
  names none, the addition fails; and an address that is not on the list counts as if there were no policy.
  A table finds an address exactly when its bit is set, and the item leads back to the address. The
  callbacks of the tables may change their own items and state, take the removed neighbour out of tables and
  release its locks; the policy may be any function of the store that answers with addresses of the right
  length; each table that is used is registered with a positive item size, and the addresses have the
  length of the build.\<close>

theorem nbr_tables_refine:
  assumes "callback_ok cb" and "policy_ok la fr" and "nbr_repr la T s (n, es)" and "list_all (nbr_op_ok la T) ops"
    and "table_ok (T t)" and "t \<noteq> NULL" and "length a = la"
  shows "\<exists>r item. run_ops (nbr_step la fr cb) ops s = Some r \<and> nbr_repr la T r (fold (nbr_spec T) (noted la fr cb ops s) (n, es)) \<and>
    map snd (noted la fr cb ops s) = ops \<and> nbr_table_get_from_lladdr la t (Some a) r = Some item \<and>
    (item \<noteq> NULL \<longleftrightarrow> (\<exists>u l. (a, u, l) \<in> set (snd (fold (nbr_spec T) (noted la fr cb ops s) (n, es))) \<and> u AND tbit (T t) \<noteq> 0)) \<and>
    (item \<noteq> NULL \<longrightarrow> nbr_table_get_lladdr t item r = Some a)"
proof -
  let ?l = "noted la fr cb ops s"
  note n = run_noted [OF assms(1-4)]
  obtain r where r: "run_ops (nbr_step la fr cb) ops s = Some r" "nbr_repr la T r (fold (nbr_spec T) ?l (n, es))"
    using neighbours.run_simulates [of cb la T s "(n, es)" ?l] assms(1,3) n by auto
  have "map snd (noted la fr cb xs x) = xs" if "run_ops (nbr_step la fr cb) xs x \<noteq> None" for xs x
    using that by (induction xs arbitrary: x) (auto split: option.splits)
  then have "map snd ?l = ops" using r(1) by simp
  then show ?thesis
    using get_repr [of la T r "fst (fold (nbr_spec T) ?l (n, es))" "snd (fold (nbr_spec T) ?l (n, es))" t a] assms(5-7) r by auto
qed

text \<open>A store after its first table was registered.\<close>

definition sample_store :: "unit nbr_store" where
  "sample_store = snd (nbr_table_register 500 NULL \<lparr>heads = (\<lambda>_. NULL), nxt = (\<lambda>_. NULL), lladdr = (\<lambda>_. [0, 0]), used_map = [0, 0],
     locked_map = [0, 0], all_tables = replicate 8 NULL, num_tables = 0,
     neighbor_addr_mem = \<lparr>bsize = 4, num = 2, count = [0, 0], base = 100, mem = replicate 8 0\<rparr>,
     tables = (\<lambda>_. \<lparr>tb_index = 0, item_size = 2, callback = NULL, tb_data = 1000\<rparr>),
     item_mem = (\<lambda>_. 0), user = ()\<rparr>)"

lemma idle_callback: "callback_ok (\<lambda>f item s. s)"
  unfolding callback_ok_def
proof (intro allI)
  fix s :: "'u nbr_store" and i
  show "\<exists>x y u mm. s = s\<lparr>used_map := (used_map s)[i := x], locked_map := (locked_map s)[i := locked_map s ! i AND y],
       item_mem := mm, user := u\<rparr>"
    by (rule exI [of _ "used_map s ! i"], rule exI [of _ "- 1"], rule exI [of _ "user s"], rule exI [of _ "item_mem s"]) simp
qed

lemma sample_repr: "nbr_repr 2 (tables sample_store) sample_store (2, [])"
proof -
  have "used (pool sample_store) = {}"
    by (auto simp: used_def sample_store_def nbr_table_register_def nth_Cons' split: if_splits)
  moreover have "\<forall>i < 2. [0, 0 :: u8] ! i = 0" by (simp add: nth_Cons')
  ultimately have "nbr_inv 2 sample_store [] {}"
    by (simp add: nbr_inv_def sample_store_def nbr_table_register_def is_list_def memb_ok_def)
  then show ?thesis
    unfolding nbr_repr_def by (intro exI [of _ "[]"] exI [of _ "{}"]) (simp add: capacity_def, simp add: sample_store_def nbr_table_register_def)
qed

text \<open>A policy that gives up the neighbour \<open>[1, 2]\<close> for the reason 1, and none for another.\<close>

definition sample_policy :: "unit policy" where
  "sample_policy = Some (\<lambda>reason dat s. if reason = 1 then Some [1, 2] else None)"

lemma sample_policy_ok: "policy_ok 2 sample_policy"
  by (auto simp: policy_ok_def sample_policy_def split: if_splits)

theorem nbr_tables_refine_witness:
  "\<exists>r item. run_ops (nbr_step 2 sample_policy (\<lambda>f item s. s))
      [N_add 500 [1, 2] 0 NULL, N_lock 500 [1, 2], N_add 500 [3, 4] 0 NULL, N_add 500 [7, 8] 0 NULL, N_add 500 [5, 6] 1 NULL]
      sample_store = Some r \<and>
     nbr_repr 2 (tables sample_store) r (2, [([3, 4], 1, 0), ([5, 6], 1, 0)]) \<and>
     nbr_table_get_from_lladdr 2 500 (Some [1, 2]) r = Some NULL"
proof -
  let ?x1 = "N_add 500 [1, 2] 0 NULL" and ?x2 = "N_lock 500 [1, 2]" and ?x3 = "N_add 500 [3, 4] 0 NULL"
    and ?x4 = "N_add 500 [7, 8] 0 NULL" and ?x5 = "N_add 500 [5, 6] 1 NULL"
  let ?ops = "[?x1, ?x2, ?x3, ?x4, ?x5] :: nbr_op list"
  let ?n = "noted 2 sample_policy (\<lambda>f item s. s) ?ops sample_store"
  have t: "table_ok (tables sample_store 500)" by (simp add: sample_store_def nbr_table_register_def table_ok_def)
  have ok: "list_all (nbr_op_ok 2 (tables sample_store)) ?ops" using t by simp
  have "length [1, 2 :: u8] = 2" by simp
  note r = nbr_tables_refine [OF idle_callback sample_policy_ok sample_repr ok t _ this]
  have l: "noted 2 sample_policy cb xs s = zip (map (\<lambda>x. answer_in sample_policy x sample_store) xs) xs"
    if "run_ops (nbr_step 2 sample_policy cb) xs s \<noteq> None" for cb xs s
    using that
  proof (induction xs arbitrary: s)
    case (Cons x xs)
    have "answer_in sample_policy x s = answer_in sample_policy x sample_store" for s
      by (cases x) (simp_all add: answer_in_def sample_policy_def)
    with Cons show ?case by (simp split: option.splits)
  qed simp
  have "?n = [(Some None, ?x1), (None, ?x2), (Some None, ?x3), (Some None, ?x4), (Some (Some [1, 2]), ?x5)]"
    using r by (subst l) (auto simp: answer_in_def sample_policy_def)
  then have f: "fold (nbr_spec (tables sample_store)) ?n (2, []) = (2, [([3, 4], 1, 0), ([5, 6], 1, 0)])"
    by (simp add: set_add_def addresses_def make_room_by_def if_used_def sample_store_def nbr_table_register_def)
  from r show ?thesis unfolding f by auto
qed

text \<open>C38: An update of a neighbour's address to one that has an entry of its own, with the request to
  remove the duplicate, takes the entry off the list but does not return its block to the pool: no
  block becomes free, and there is room for one neighbour less from then on.\<close>

theorem nbr_update_loses_a_neighbour:
  assumes "callback_ok cb" and "nbr_repr la T s (n, es)" and "a \<in> addresses es" and "b \<in> addresses es" and "a \<noteq> b"
    and "length a = la" and "length b = la"
  shows "\<exists>r. nbr_table_update_lladdr la cb (Some a) b True s = Some (0, r) \<and>
    nbr_repr la T r (n - 1, filter (\<lambda>e. fst e \<noteq> a) es) \<and>
    memb_numfree (neighbor_addr_mem r) = memb_numfree (neighbor_addr_mem s)"
proof -
  obtain ks X where i: "nbr_inv la s ks X" "es = map (entry s) ks"
    using assms(2) unfolding nbr_repr_def by blast
  obtain k where k: "k \<in> set ks" "lladdr s k = a" using assms(3) unfolding i(2) addresses_entries by auto
  have "b \<in> lladdr s ` set ks" using assms(4) unfolding i(2) addresses_entries .
  then have u: "nbr_table_update_lladdr la cb (Some a) b True s = map_option (\<lambda>r. (0, r)) (remove_key cb k s)"
    using update_index [OF i(1) k assms(6,7), of cb True] assms(5) by simp
  moreover obtain r where r: "remove_key cb k s = Some r" "pool r = pool s"
    using remove_key_spec [OF i(1) assms(1) k(1)] by blast
  moreover have "nbr_repr la T r (n - 1, filter (\<lambda>e. fst e \<noteq> a) es)"
    using step_update [OF assms(2,1,6,7), where dup = True] assms(3-5) u r(1) by simp
  ultimately show ?thesis by simp
qed

lemma two_neighbours:
  "\<exists>r. run_ops (nbr_step 2 None (\<lambda>f item s. s)) [N_add 500 [1, 2] 0 NULL, N_add 500 [3, 4] 0 NULL] sample_store = Some r \<and>
     nbr_repr 2 (tables sample_store) r (2, [([1, 2], 1, 0), ([3, 4], 1, 0)])"
proof -
  let ?a = "(None, N_add 500 [1, 2] 0 NULL) :: answer \<times> nbr_op" and ?b = "(None, N_add 500 [3, 4] 0 NULL) :: answer \<times> nbr_op"
  let ?T = "tables sample_store"
  have t: "table_ok (tables sample_store 500)" by (simp add: sample_store_def nbr_table_register_def table_ok_def)
  then have "ops_allowed (\<lambda>(p, x) a. nbr_op_ok 2 ?T x \<and> answer_ok 2 p) (nbr_spec ?T) [?a, ?b] (2, [])"
    by (simp add: answer_ok_def)
  moreover have "fold (nbr_spec ?T) [?a, ?b] (2, []) = (2, [([1, 2], 1, 0), ([3, 4], 1, 0)])"
    by (simp add: set_add_def addresses_def make_room_by_def make_room_def sample_store_def nbr_table_register_def)
  moreover have "run_ops (\<lambda>(p, x). nbr_step 2 (answering p) cb x) [?a, ?b] = run_ops (nbr_step 2 None cb) [snd ?a, snd ?b]" for cb :: "unit callbacks"
    by (simp add: fun_eq_iff answering_def split: option.splits)
  ultimately show ?thesis
    using neighbours.run_simulates [of "\<lambda>f item s. s" 2 ?T sample_store "(2, [])" "[?a, ?b]"]
      idle_callback sample_repr by (simp del: run_ops.simps)
qed

theorem nbr_update_loses_a_neighbour_witness:
  "\<exists>s r. nbr_table_update_lladdr 2 (\<lambda>f item s. s) (Some [1, 2]) [3, 4] True (s :: unit nbr_store) = Some (0, r) \<and>
     nbr_repr 2 (tables sample_store) s (2, [([1, 2], 1, 0), ([3, 4], 1, 0)]) \<and>
     nbr_repr 2 (tables sample_store) r (1, [([3, 4], 1, 0)])"
proof -
  obtain s :: "unit nbr_store" where s: "nbr_repr 2 (tables sample_store) s (2, [([1, 2], 1, 0), ([3, 4], 1, 0)])"
    using two_neighbours by blast
  have "[1, 2] \<in> addresses [([1, 2], 1, 0), ([3, 4], 1, 0)]" "[3, 4] \<in> addresses [([1, 2], 1, 0), ([3, 4], 1, 0)]"
    "[1, 2] \<noteq> [3, 4 :: u8]" "length [1, 2 :: u8] = 2" "length [3, 4 :: u8] = 2"
    by (simp_all add: addresses_def)
  from nbr_update_loses_a_neighbour [OF idle_callback s this] s show ?thesis by auto
qed

section \<open>Walking through a table\<close>

text \<open>The loop \<open>for(item = nbr_table_head(t); item != NULL; item = nbr_table_next(t, item))\<close> of the users.\<close>

partial_function (option) visit_loop :: "ptr \<Rightarrow> ptr \<Rightarrow> 'u nbr_store \<Rightarrow> ptr list option" where
  "visit_loop t item s =
     (if item = NULL then Some []
      else do {
        item1 \<leftarrow> nbr_table_next t item s;
        items \<leftarrow> visit_loop t item1 s;
        Some (item # items)
      })"

definition visit :: "ptr \<Rightarrow> 'u nbr_store \<Rightarrow> ptr list option" where
  "visit t s = do { item \<leftarrow> nbr_table_head t s; visit_loop t item s }"

definition item_of :: "ptr \<Rightarrow> 'u nbr_store \<Rightarrow> ptr \<Rightarrow> ptr" where
  "item_of t s k = item_from_index t (int (kidx s k)) s"

definition in_table :: "ptr \<Rightarrow> 'u nbr_store \<Rightarrow> ptr \<Rightarrow> bool" where
  "in_table t s k \<longleftrightarrow> used_map s ! kidx s k AND tbit (tables s t) \<noteq> 0"

definition first_item :: "ptr \<Rightarrow> 'u nbr_store \<Rightarrow> ptr list \<Rightarrow> ptr" where
  "first_item t s ks = (case filter (in_table t s) ks of [] \<Rightarrow> NULL | k # _ \<Rightarrow> item_of t s k)"

lemma nbr_next_first:
  assumes "nbr_inv la s ks X" and "table_ok (tables s t)" and "t \<noteq> NULL"
    and "key_from_item t item s = k" and "chain (nxt s) (list_item_next k s) ys" and "set ys \<subseteq> set ks"
  shows "nbr_table_next t item s = Some (first_item t s ys)"
  using assms(4-6)
proof (induction ys arbitrary: item k)
  case Nil
  then show ?case
    by (subst nbr_table_next.simps) (simp add: item_from_key_def index_from_key_def item_from_index_def first_item_def)
next
  case (Cons j ys)
  note j = nbr_inv_key [OF assms(1), of j]
  have jn: "list_item_next k s = j" "j \<in> set ks" and c: "chain (nxt s) (list_item_next j s) ys"
    using Cons.prems by (auto simp: list_item_next_def)
  have ij: "item_from_key t j s = item_of t s j" using j(3) jn(2) by (simp add: item_from_key_def item_of_def)
  have nn: "item_of t s j \<noteq> NULL" using item_nonNULL [OF assms(2,3)] by (simp add: item_of_def)
  have b: "nbr_get_bit (used_map s) t (item_of t s j) s \<longleftrightarrow> in_table t s j"
    unfolding item_of_def in_table_def by (rule get_bit_item [OF assms(2,3)])
  have k: "key_from_item t (item_of t s j) s = j"
    using j(2) jn(2) index_from_item_item [OF assms(2,3)] by (simp add: key_from_item_def item_of_def key_from_index_block)
  show ?case
  proof (cases "in_table t s j")
    case True
    then show ?thesis
      using Cons.prems(1) jn(1) ij b by (subst nbr_table_next.simps) (simp add: first_item_def)
  next
    case False
    then have "nbr_table_next t item s = nbr_table_next t (item_of t s j) s"
      using Cons.prems(1) jn(1) ij b nn by (subst nbr_table_next.simps) simp
    with False Cons.IH [OF k c] Cons.prems(3) show ?thesis by (simp add: first_item_def)
  qed
qed


lemma visit_loop_items:
  assumes "nbr_inv la s ks X" and "table_ok (tables s t)" and "t \<noteq> NULL"
  shows "chain (nxt s) p ys \<Longrightarrow> set ys \<subseteq> set ks \<Longrightarrow>
     visit_loop t (first_item t s ys) s = Some (map (item_of t s) (filter (in_table t s) ys))"
proof (induction ys arbitrary: p)
  case Nil
  then show ?case by (subst visit_loop.simps) (simp add: first_item_def)
next
  case (Cons k ys)
  then have c: "chain (nxt s) (list_item_next k s) ys" "k \<in> set ks" "set ys \<subseteq> set ks"
    by (auto simp: list_item_next_def)
  have kk: "key_from_item t (item_of t s k) s = k"
    using nbr_inv_key(2) [OF assms(1) c(2)] index_from_item_item [OF assms(2,3)]
    by (simp add: key_from_item_def item_of_def key_from_index_block)
  have nn: "item_of t s k \<noteq> NULL" using item_nonNULL [OF assms(2,3)] by (simp add: item_of_def)
  show ?case
  proof (cases "in_table t s k")
    case True
    then show ?thesis
      using Cons.IH [OF c(1,3)] nbr_next_first [OF assms kk c(1,3)] nn
      by (subst visit_loop.simps) (simp add: first_item_def)
  next
    case False
    then show ?thesis using Cons.IH [OF c(1,3)] by (simp add: first_item_def)
  qed
qed

lemma nbr_head_first:
  assumes "nbr_inv la s ks X" and "table_ok (tables s t)" and "t \<noteq> NULL"
  shows "nbr_table_head t s = Some (first_item t s ks)"
proof (cases ks)
  case Nil
  then have "list_head nbr_table_keys s = NULL" using assms(1) by (simp add: nbr_inv_def is_list_def list_head_def)
  then have i: "item_from_key t (list_head nbr_table_keys s) s = NULL"
    by (simp add: item_from_key_def index_from_key_def item_from_index_def)
  have "key_from_item t NULL s = NULL"
    by (simp add: key_from_item_def index_from_item_def key_from_index_def)
  from nbr_next_first [OF assms this, of "[]"] show ?thesis
    using i by (simp add: nbr_table_head_def get_bit_NULL Nil list_item_next_def)
next
  case (Cons k ys)
  then have h: "list_head nbr_table_keys s = k" and c: "chain (nxt s) (list_item_next k s) ys"
    using assms(1) by (simp_all add: nbr_inv_def is_list_def list_head_def list_item_next_def)
  have kk: "key_from_item t (item_of t s k) s = k" and ik: "item_from_key t k s = item_of t s k"
    using nbr_inv_key [OF assms(1), of k] index_from_item_item [OF assms(2,3)] Cons
    by (simp_all add: key_from_item_def item_of_def key_from_index_block item_from_key_def)
  have b: "nbr_get_bit (used_map s) t (item_of t s k) s \<longleftrightarrow> in_table t s k"
    unfolding item_of_def in_table_def by (rule get_bit_item [OF assms(2,3)])
  have "nbr_table_next t (item_of t s k) s = Some (first_item t s ys)"
    using nbr_next_first [OF assms kk c] Cons by auto
  then show ?thesis using h ik b Cons by (simp add: nbr_table_head_def first_item_def)
qed

text \<open>The loop from the head of a table over the next items ends, and visits the neighbours that the
  table uses, each once, in the order in which they were added.\<close>

theorem nbr_table_walk:
  assumes "nbr_repr la T s (n, es)" and "table_ok (T t)" and "t \<noteq> NULL"
  shows "\<exists>items. visit t s = Some items \<and> distinct items \<and>
    map (\<lambda>item. nbr_table_get_lladdr t item s) items =
      map (\<lambda>e. Some (fst e)) (filter (\<lambda>e. fst (snd e) AND tbit (T t) \<noteq> 0) es)"
proof -
  obtain ks X where i: "nbr_inv la s ks X" "tables s = T" "es = map (entry s) ks"
    using assms(1) unfolding nbr_repr_def by blast
  have tk: "table_ok (tables s t)" using assms(2) i(2) by simp
  have "chain (nxt s) (heads s nbr_table_keys) ks" using i(1) by (simp add: nbr_inv_def is_list_def)
  from visit_loop_items [OF i(1) tk assms(3) this]
  have v: "visit t s = Some (map (item_of t s) (filter (in_table t s) ks))"
    by (simp add: visit_def nbr_head_first [OF i(1) tk assms(3)])
  have "nbr_table_get_lladdr t (item_of t s k) s = Some (lladdr s k)" if "k \<in> set ks" for k
    using nbr_inv_key [OF i(1) that] index_from_item_item [OF tk assms(3)]
    by (simp add: nbr_table_get_lladdr_def key_from_item_def item_of_def key_from_index_block)
  moreover have f: "filter (\<lambda>e. fst (snd e) AND tbit (T t) \<noteq> 0) es = map (entry s) (filter (in_table t s) ks)"
    unfolding i(3) i(2) [symmetric] by (simp add: filter_map o_def entry_def in_table_def [abs_def])
  ultimately have "map (\<lambda>item. nbr_table_get_lladdr t item s) (map (item_of t s) (filter (in_table t s) ks)) =
      map (\<lambda>e. Some (fst e)) (filter (\<lambda>e. fst (snd e) AND tbit (T t) \<noteq> 0) es)"
    unfolding f by (auto simp: entry_def)
  moreover have "inj_on (item_of t s) (set ks)"
    using kidx_inj [OF i(1)] tk by (auto simp: inj_on_def item_of_def item_from_index_def assms(3) table_ok_def)
  then have "distinct (map (item_of t s) (filter (in_table t s) ks))"
    using i(1) is_list_distinct [of s nbr_table_keys ks]
    by (auto simp: distinct_map nbr_inv_def intro: inj_on_subset)
  ultimately show ?thesis using v by blast
qed

theorem nbr_table_walk_witness:
  "\<exists>s items. nbr_repr 2 (tables sample_store) (s :: unit nbr_store) (2, [([1, 2], 1, 0), ([3, 4], 1, 0)]) \<and>
     visit 500 s = Some items \<and> map (\<lambda>item. nbr_table_get_lladdr 500 item s) items = [Some [1, 2], Some [3, 4]]"
proof -
  obtain s :: "unit nbr_store" where s: "nbr_repr 2 (tables sample_store) s (2, [([1, 2], 1, 0), ([3, 4], 1, 0)])"
    using two_neighbours by blast
  have t: "table_ok (tables sample_store 500)" by (simp add: sample_store_def nbr_table_register_def table_ok_def)
  have "tb_index (tables sample_store 500) = 0" by (simp add: sample_store_def nbr_table_register_def)
  with nbr_table_walk [OF s t] s show ?thesis by auto
qed

end
