(* ===== verification/Llsec.thy ===== *)
theory Llsec
  imports Framer802154 CcmStar NbrTable
begin

text \<open>
  Link-layer security: \<open>core/net/llsec/noncoresec/noncoresec.c\<close> with the replay protection of
  \<open>core/net/llsec/anti-replay.c\<close> and the nonces of \<open>core/net/llsec/ccm-star-packetbuf.c\<close>. Its framer wraps
  the framer of the link layer: it authenticates each frame, encrypts it when the security level asks
  for that, and refuses frames that were accepted before. The counters last seen of a sender are in
  an item of a neighbour table, at offsets 0 and 4. The byte order is that of the 6502, little endian.
\<close>

section \<open>The code\<close>

text \<open>The options of the build and what is fixed when the driver starts: the round keys of the
  network-wide key, the node's address, the table, and what NbrTable takes as parameters.\<close>

record 'u llsec =
  framer :: framer_config
  SEC_LVL :: u8
  round_keys :: "u8 list list"
  linkaddr_node_addr :: linkaddr_t
  anti_replay_table :: ptr
  find_removable :: "'u policy"
  removed :: "'u callbacks"

record 'u ns =
  fs :: framer_state
  nbrs :: "'u nbr_store"
  counter :: u32

abbreviation "la L \<equiv> LINKADDR_SIZE (frame_conf (framer L))"

abbreviation (input) "NBR_TABLE_REASON_LLSEC \<equiv> (7 :: int)"

definition LLSEC802154_MIC_LEN :: "u8 \<Rightarrow> u8" where
  "LLSEC802154_MIC_LEN sec_lvl = push_bit (unat (sec_lvl AND 3)) 2"

abbreviation "MIC_LEN L \<equiv> LLSEC802154_MIC_LEN (SEC_LVL L)"
abbreviation "WITH_ENCRYPTION L \<equiv> SEC_LVL L AND 4 \<noteq> 0"

subsection \<open>Counters\<close>

definition anti_replay_set_counter :: "framer_config \<Rightarrow> u32 \<times> packetbuf_state \<Rightarrow> u32 \<times> packetbuf_state" where
  "anti_replay_set_counter c = (\<lambda>(counter, s).
     let counter = counter + 1;
         s = put_attr c ATTR_FRAME_COUNTER_BYTES_0_1 (ucast counter) s;
         s = put_attr c ATTR_FRAME_COUNTER_BYTES_2_3 (ucast (drop_bit 16 counter)) s
     in (counter, s))"

definition anti_replay_get_counter :: "framer_config \<Rightarrow> packetbuf_state \<Rightarrow> u32" where
  "anti_replay_get_counter c s =
     ucast (get_attr c ATTR_FRAME_COUNTER_BYTES_0_1 s) OR push_bit 16 (ucast (get_attr c ATTR_FRAME_COUNTER_BYTES_2_3 s))"

definition rd32 :: "mem \<Rightarrow> nat \<Rightarrow> u32" where
  "rd32 m p = ucast (m p) OR push_bit 8 (ucast (m (p + 1))) OR push_bit 16 (ucast (m (p + 2))) OR push_bit 24 (ucast (m (p + 3)))"

definition wr32 :: "nat \<Rightarrow> u32 \<Rightarrow> mem \<Rightarrow> mem" where
  "wr32 p w m = m(p := ucast w, p + 1 := ucast (drop_bit 8 w), p + 2 := ucast (drop_bit 16 w), p + 3 := ucast (drop_bit 24 w))"

abbreviation (input) "off_last_broadcast_counter \<equiv> (0 :: nat)"
abbreviation (input) "off_last_unicast_counter \<equiv> (4 :: nat)"

definition anti_replay_init_info :: "framer_config \<Rightarrow> ptr \<Rightarrow> packetbuf_state \<Rightarrow> mem \<Rightarrow> mem" where
  "anti_replay_init_info c info s m =
     wr32 (info + off_last_broadcast_counter) (anti_replay_get_counter c s)
       (wr32 (info + off_last_unicast_counter) (anti_replay_get_counter c s) m)"

definition anti_replay_was_replayed :: "framer_config \<Rightarrow> ptr \<Rightarrow> packetbuf_state \<Rightarrow> mem \<Rightarrow> bool \<times> mem" where
  "anti_replay_was_replayed c info s m =
     (let received_counter = anti_replay_get_counter c s
      in if packetbuf_holds_broadcast (LINKADDR_SIZE (frame_conf c)) s then
           if received_counter \<le> rd32 m (info + off_last_broadcast_counter) then (True, m)
           else (False, wr32 (info + off_last_broadcast_counter) received_counter m)
         else
           if received_counter \<le> rd32 m (info + off_last_unicast_counter) then (True, m)
           else (False, wr32 (info + off_last_unicast_counter) received_counter m))"

subsection \<open>Nonces and authentication\<close>

definition get_extended_address :: "nat \<Rightarrow> linkaddr_t \<Rightarrow> u8 list" where
  "get_extended_address n addr = (if n = 2 then [0x00, 0x00, 0x00, 0xFF, 0xFE, 0x00] @ take 2 addr else addr)"

definition ccm_star_packetbuf_set_nonce :: "'u llsec \<Rightarrow> bool \<Rightarrow> packetbuf_state \<Rightarrow> u8 list" where
  "ccm_star_packetbuf_set_nonce L forward s =
     (let c = framer L;
          source_addr = (if forward then linkaddr_node_addr L else sender_addr c s);
          w01 = get_attr c ATTR_FRAME_COUNTER_BYTES_0_1 s;
          w23 = get_attr c ATTR_FRAME_COUNTER_BYTES_2_3 s
      in take 8 (get_extended_address (la L) source_addr) @
         [ucast (drop_bit 8 w23), ucast (w23 AND 0xff), ucast (drop_bit 8 w01), ucast (w01 AND 0xff),
          ucast (get_attr c ATTR_SECURITY_LEVEL s)])"

definition bytes_at :: "mem \<Rightarrow> nat \<Rightarrow> nat \<Rightarrow> u8 list" where
  "bytes_at m p n = map m [p..<p + n]"

text \<open>\<open>aead\<close> of \<open>noncoresec.c\<close>, which calls that of \<open>ccm-star.c\<close> on parts of the packet buffer.\<close>

definition noncoresec_aead :: "'u llsec \<Rightarrow> u8 \<Rightarrow> bool \<Rightarrow> packetbuf_state \<Rightarrow> (bool \<times> packetbuf_state) option" where
  "noncoresec_aead L hdr_len forward s =
     (let nonce = ccm_star_packetbuf_set_nonce L forward s;
          totlen = ucast (packetbuf_totlen s) :: u8;
          a = packetbuf_hdrptr s;
          (a_len, m, m_len) = (if WITH_ENCRYPTION L then (hdr_len, a + unat hdr_len, totlen - hdr_len) else (totlen, NULL, 0));
          mic = a + unat totlen; n = unat (MIC_LEN L);
          result = (if forward then bytes_at (packetbuf s) mic n else replicate n 0)
      in case aead (encrypt (round_keys L)) nonce (bytes_at (packetbuf s) m (unat m_len)) m_len
                (bytes_at (packetbuf s) a (unat a_len)) a_len result (MIC_LEN L) forward of
           None \<Rightarrow> None
         | Some (m', r) \<Rightarrow>
             let s = s\<lparr>packetbuf := blit (packetbuf s) m m'\<rparr>
             in if forward then
                  Some (True, packetbuf_set_datalen (packetbuf_datalen s + ucast (MIC_LEN L)) (s\<lparr>packetbuf := blit (packetbuf s) mic r\<rparr>))
                else Some (r = bytes_at (packetbuf s) mic n, s))"

subsection \<open>The driver and its framer\<close>

definition add_security_header :: "'u llsec \<Rightarrow> packetbuf_state \<Rightarrow> packetbuf_state" where
  "add_security_header L s =
     put_attr (framer L) ATTR_SECURITY_LEVEL (ucast (SEC_LVL L))
       (put_attr (framer L) ATTR_FRAME_TYPE (ucast FRAME802154_DATAFRAME) s)"

text \<open>\<open>send\<close> up to the call of \<open>NETSTACK_MAC.send\<close>.\<close>

definition noncoresec_send :: "'u llsec \<Rightarrow> 'u ns \<Rightarrow> 'u ns" where
  "noncoresec_send L st =
     (let (n, s) = anti_replay_set_counter (framer L) (counter st, add_security_header L (pb (fs st)))
      in st\<lparr>counter := n, fs := (fs st)\<lparr>pb := s\<rparr>\<rparr>)"

definition noncoresec_create :: "'u llsec \<Rightarrow> u16 \<Rightarrow> 'u ns \<Rightarrow> (int \<times> 'u ns) option" where
  "noncoresec_create L rnd st =
     (case create (framer L) rnd (fs st) of
        None \<Rightarrow> None
      | Some (result, f) \<Rightarrow>
          if result = FRAMER_FAILED then Some (result, st\<lparr>fs := f\<rparr>)
          else (case noncoresec_aead L (of_int result) True (pb f) of
                  None \<Rightarrow> None
                | Some (_, s) \<Rightarrow> Some (result, st\<lparr>fs := f\<lparr>pb := s\<rparr>\<rparr>)))"

text \<open>The second half of \<open>parse\<close>: whether an authentic frame is accepted from its sender.\<close>

definition check_replay :: "'u llsec \<Rightarrow> packetbuf_state \<Rightarrow> 'u nbr_store \<Rightarrow> (bool \<times> 'u nbr_store) option" where
  "check_replay L s n =
     (let c = framer L; sender = sender_addr c s; t = anti_replay_table L
      in case nbr_table_get_from_lladdr (la L) t (Some sender) n of
           None \<Rightarrow> None
         | Some info \<Rightarrow>
             if info = NULL then
               (case nbr_table_add_lladdr (la L) (find_removable L) (removed L) t (Some sender) NBR_TABLE_REASON_LLSEC NULL n of
                  None \<Rightarrow> None
                | Some (info, n) \<Rightarrow>
                    if info = NULL then Some (False, n)
                    else
                      let (ok, n) = nbr_table_lock t info n
                      in if ok = 0 then Some (False, snd (nbr_table_remove t info n))
                         else Some (True, n\<lparr>item_mem := anti_replay_init_info c info s (item_mem n)\<rparr>))
             else
               let (replayed, m) = anti_replay_was_replayed c info s (item_mem n)
               in Some (\<not> replayed, n\<lparr>item_mem := m\<rparr>))"

definition noncoresec_parse :: "'u llsec \<Rightarrow> frame802154_t \<Rightarrow> 'u ns \<Rightarrow> (int \<times> 'u ns) option" where
  "noncoresec_parse L frame0 st =
     (let c = framer L; (result, f) = parse c frame0 (fs st)
      in if result = FRAMER_FAILED then Some (result, st\<lparr>fs := f\<rparr>)
         else if get_attr c ATTR_SECURITY_LEVEL (pb f) \<noteq> ucast (SEC_LVL L) then Some (FRAMER_FAILED, st\<lparr>fs := f\<rparr>)
         else if linkaddr_cmp (la L) (sender_addr c (pb f)) (linkaddr_node_addr L) then Some (FRAMER_FAILED, st\<lparr>fs := f\<rparr>)
         else
           (case noncoresec_aead L (of_int result) False
                   (packetbuf_set_datalen (packetbuf_datalen (pb f) - ucast (MIC_LEN L)) (pb f)) of
              None \<Rightarrow> None
            | Some (ok, s) \<Rightarrow>
                if \<not> ok then Some (FRAMER_FAILED, st\<lparr>fs := f\<lparr>pb := s\<rparr>\<rparr>)
                else
                  (case check_replay L s (nbrs st) of
                     None \<Rightarrow> None
                   | Some (fresh, n) \<Rightarrow>
                       Some (if fresh then result else FRAMER_FAILED, st\<lparr>fs := f\<lparr>pb := s\<rparr>, nbrs := n\<rparr>))))"

definition noncoresec_length :: "'u llsec \<Rightarrow> u16 \<Rightarrow> 'u ns \<Rightarrow> (int \<times> 'u ns) option" where
  "noncoresec_length L rnd st =
     map_option (\<lambda>(n, f). (n + int (unat (MIC_LEN L)), st\<lparr>fs := f\<rparr>))
       (hdr_length (framer L) rnd ((fs st)\<lparr>pb := add_security_header L (pb (fs st))\<rparr>))"

definition noncoresec_init :: "u8 list \<Rightarrow> 'u llsec \<Rightarrow> 'u ns \<Rightarrow> 'u llsec \<times> 'u ns" where
  "noncoresec_init key L st =
     (L\<lparr>round_keys := ccm_set_key key (round_keys L)\<rparr>, st\<lparr>nbrs := snd (nbr_table_register (anti_replay_table L) NULL (nbrs st))\<rparr>)"

section \<open>The counters of the senders\<close>

lemma rd32_wr32 [simp]: "rd32 (wr32 p w m) p = w"
proof (rule bit_word_eqI)
  fix n assume "n < LENGTH(32)"
  then show "bit (rd32 (wr32 p w m) p) n \<longleftrightarrow> bit w n"
    by (cases "n < 8"; cases "n < 16"; cases "n < 24") (auto simp: rd32_def wr32_def bit_simps)
qed

lemma rd32_wr32_other [simp]: "q + 4 \<le> p \<or> p + 4 \<le> q \<Longrightarrow> rd32 (wr32 p w m) q = rd32 m q"
  by (auto simp: rd32_def wr32_def)

text \<open>What the driver keeps of its senders: the last counters of broadcast and of unicast frames.\<close>

type_synonym seen = "linkaddr_t \<Rightarrow> (u32 \<times> u32) option"

definition accept :: "nat \<Rightarrow> linkaddr_t \<Rightarrow> bool \<Rightarrow> u32 \<Rightarrow> seen \<Rightarrow> bool \<times> seen" where
  "accept n a bc cnt seen =
     (case seen a of
        None \<Rightarrow> if card (dom seen) < n then (True, seen(a \<mapsto> (cnt, cnt))) else (False, seen)
      | Some (b, u) \<Rightarrow>
          if cnt \<le> (if bc then b else u) then (False, seen)
          else (True, seen(a \<mapsto> (if bc then (cnt, u) else (b, cnt)))))"

abbreviation ritem :: "'u llsec \<Rightarrow> 'u nbr_store \<Rightarrow> ptr \<Rightarrow> ptr" where
  "ritem L s k \<equiv> item_from_index (anti_replay_table L) (int (kidx s k)) s"

abbreviation rbit :: "'u llsec \<Rightarrow> 'u nbr_store \<Rightarrow> u8" where
  "rbit L s \<equiv> tbit (tables s (anti_replay_table L))"

definition rtable_ok :: "'u llsec \<Rightarrow> 'u nbr_store \<Rightarrow> bool" where
  "rtable_ok L s \<longleftrightarrow> anti_replay_table L \<noteq> NULL \<and> table_ok (tables s (anti_replay_table L)) \<and>
     item_size (tables s (anti_replay_table L)) = 8 \<and> find_removable L = None"

definition keeps_seen :: "'u llsec \<Rightarrow> 'u nbr_store \<Rightarrow> ptr list \<Rightarrow> seen \<Rightarrow> bool" where
  "keeps_seen L s ks seen \<longleftrightarrow> rtable_ok L s \<and> nbr_inv (la L) s ks {} \<and> dom seen = lladdr s ` set ks \<and>
     (\<forall>k \<in> set ks. used_map s ! kidx s k AND rbit L s \<noteq> 0 \<and> locked_map s ! kidx s k \<noteq> 0 \<and>
        seen (lladdr s k) = Some (rd32 (item_mem s) (ritem L s k), rd32 (item_mem s) (ritem L s k + 4)))"

lemma keeps_seen_key:
  assumes "keeps_seen L s ks seen" and "seen a = Some x"
  obtains k where "k \<in> set ks" "lladdr s k = a"
proof -
  have "a \<in> lladdr s ` set ks" using assms(1) domI [of seen a x, OF assms(2)] by (simp add: keeps_seen_def)
  then show ?thesis using that by auto
qed

lemma item_offset: "rtable_ok L s \<Longrightarrow> item_from_index (anti_replay_table L) (int i) s = tb_data (tables s (anti_replay_table L)) + 8 * i"
  by (simp add: rtable_ok_def item_from_index_def)

lemma items_apart:
  assumes "rtable_ok L s" and "i \<noteq> j"
  shows "item_from_index (anti_replay_table L) (int i) s + 8 \<le> item_from_index (anti_replay_table L) (int j) s \<or>
    item_from_index (anti_replay_table L) (int j) s + 8 \<le> item_from_index (anti_replay_table L) (int i) s"
  using assms(2) unfolding item_offset [OF assms(1)] by linarith

text \<open>Writing an item leaves the other senders' counters alone.\<close>

lemma keeps_seen_write:
  assumes ks: "keeps_seen L s ks seen" and k: "k \<in> set ks" "lladdr s k = a"
    and m: "\<And>q. q + 4 \<le> ritem L s k \<or> ritem L s k + 8 \<le> q \<Longrightarrow> rd32 m q = rd32 (item_mem s) q"
    and v: "rd32 m (ritem L s k) = b" "rd32 m (ritem L s k + 4) = u"
  shows "keeps_seen L (s\<lparr>item_mem := m\<rparr>) ks (seen(a \<mapsto> (b, u)))"
proof -
  let ?t = "s\<lparr>item_mem := m\<rparr>"
  have inv: "nbr_inv (la L) s ks {}" and r: "rtable_ok L s" using ks by (simp_all add: keeps_seen_def)
  have f: "kidx ?t j = kidx s j" "item_from_index (anti_replay_table L) i ?t = item_from_index (anti_replay_table L) i s" for j i
    by (simp_all add: kidx_def index_from_key_def item_from_index_def)
  have "rd32 m (ritem L s j) = rd32 (item_mem s) (ritem L s j) \<and> rd32 m (ritem L s j + 4) = rd32 (item_mem s) (ritem L s j + 4)"
    if "j \<in> set ks" "j \<noteq> k" for j
  proof -
    have "kidx s j \<noteq> kidx s k" using kidx_inj [OF inv that(1) k(1)] that(2) by simp
    from items_apart [OF r this] show ?thesis by (intro conjI; intro m; linarith)
  qed
  moreover have "lladdr s j = a \<longleftrightarrow> j = k" if "j \<in> set ks" for j
    using that k inv by (auto simp: nbr_inv_def distinct_map inj_on_def)
  moreover have "insert a (lladdr s ` set ks) = lladdr s ` set ks" using k by auto
  ultimately show ?thesis
    using ks v by (auto simp: keeps_seen_def f rtable_ok_def nbr_inv_def is_list_def)
qed

text \<open>A new sender gets a free block, or none is left, since no locked neighbour is ever removed.\<close>

lemma no_room:
  assumes "keeps_seen L s ks seen" and "callback_ok (removed L)" and "used (pool s) = {..< num (pool s)}"
    and "a \<notin> lladdr s ` set ks" and "length a = la L"
  shows "nbr_table_add_lladdr (la L) None (removed L) (anti_replay_table L) (Some a) reason dat s = Some (NULL, s)"
proof -
  have inv: "nbr_inv (la L) s ks {}" using assms(1) by (simp add: keeps_seen_def)
  have "least_entry (map (entry s) ks) = None"
  proof (cases "least_entry (map (entry s) ks)")
    case (Some e)
    from least_entry_in [OF this] obtain k where "k \<in> set ks" "locked_map s ! kidx s k = 0" by (auto simp: entry_def)
    then show ?thesis using assms(1) by (auto simp: keeps_seen_def)
  qed
  then have "make_room (capacity s {}) (map (entry s) ks) = None"
    using room_left [OF inv] assms(3) by (simp add: make_room_def)
  then obtain key t where "nbr_table_allocate (la L) None (removed L) reason dat s = Some (key, t)" "key = NULL" "t = s"
    using alloc_spec [OF inv assms(2) finite.emptyI refl, of reason dat] by auto
  then show ?thesis
    using index_absent [OF inv assms(5,4)] by (simp add: nbr_table_add_lladdr_def)
qed

lemma bit_stays_set: "n < 8 \<Longrightarrow> (x OR push_bit n 1) AND push_bit n 1 \<noteq> (0 :: u8)"
proof -
  assume "n < 8"
  then have "bit (push_bit n (1 :: u8)) n" by (simp add: bit_exp_iff)
  then show ?thesis by (metis bit_0_eq bit_and_iff bit_or_iff bot_apply bot_bool_def)
qed

lemma alloc_same_base: "memb_alloc m = (key, m') \<Longrightarrow> base m' = base m \<and> bsize m' = bsize m"
proof -
  have "alloc_loop m i = (key, m') \<Longrightarrow> base m' = base m \<and> bsize m' = bsize m" for i
    by (induction m i rule: alloc_loop.induct) (auto simp: alloc_loop.simps split: if_split_asm)
  then show "memb_alloc m = (key, m') \<Longrightarrow> base m' = base m \<and> bsize m' = bsize m" by (simp add: memb_alloc_def)
qed

lemma room_for_one:
  assumes ks: "keeps_seen L s ks seen" and free: "used (pool s) \<noteq> {..< num (pool s)}"
    and a: "a \<notin> lladdr s ` set ks" "length a = la L"
  shows "\<exists>key r. nbr_table_add_lladdr (la L) None cb (anti_replay_table L) (Some a) reason dat s = Some (ritem L r key, r) \<and>
    rtable_ok L r \<and> nbr_inv (la L) r (ks @ [key]) {} \<and> lladdr r key = a \<and> tables r = tables s \<and> num (pool r) = num (pool s) \<and>
    used_map r ! kidx r key AND rbit L r \<noteq> 0 \<and>
    (\<forall>k \<in> set ks. lladdr r k = lladdr s k \<and> kidx r k = kidx s k \<and> used_map r ! kidx r k = used_map s ! kidx s k \<and>
       locked_map r ! kidx r k = locked_map s ! kidx s k) \<and>
    (\<forall>q. q + 4 \<le> ritem L r key \<or> ritem L r key + 8 \<le> q \<longrightarrow> rd32 (item_mem r) q = rd32 (item_mem s) q)"
proof -
  have inv: "nbr_inv (la L) s ks {}" and rt: "rtable_ok L s" using ks by (simp_all add: keeps_seen_def)
  obtain key m t where al: "memb_alloc (pool s) = (key, m)" "t = s\<lparr>neighbor_addr_mem := m\<rparr>" "key \<noteq> NULL"
    "nbr_inv (la L) t ks {key}" "num m = num (pool s)" "map (entry t) ks = map (entry s) ks"
    "used_map t ! kidx t key = 0" "locked_map t ! kidx t key = 0"
    using alloc_fresh [OF inv free] by auto
  have at: "a \<notin> lladdr t ` set ks" using a(1) by (simp add: al(2))
  from listed [OF al(4) _ al(3) a(2) at al(7,8)] obtain u s1 where u: "list_add nbr_table_keys key t = Some u"
    "s1 = u\<lparr>lladdr := (lladdr u)(key := linkaddr_copy (la L) (lladdr u key) a)\<rparr>"
    and i1: "nbr_inv (la L) s1 (ks @ [key]) {}" and e1: "map (entry s1) (ks @ [key]) = map (entry t) ks @ [(a, 0, 0)]"
    and t1: "tables s1 = tables t" and c1: "capacity s1 {} = capacity t {}" and k1: "lladdr s1 key = a"
    and ix: "index_from_key key u = int (kidx s1 key)" by auto
  have "is_list t nbr_table_keys ks" "key \<notin> set ks" using al(4) by (auto simp: nbr_inv_def)
  then have "lstore.more u = lstore.more t"
    using list_add_spec [of t nbr_table_keys ks key] al(3) u(1) by (auto simp: list_frame_def)
  note mu = more_fields_nbr [OF this]
  define item where "item = ritem L s1 key"
  define s2 where "s2 = s1\<lparr>item_mem := blit (item_mem s1) item (replicate (item_size (tables s1 (anti_replay_table L))) 0)\<rparr>"
  define r where "r = s2\<lparr>used_map := snd (nbr_set_bit (used_map s2) (anti_replay_table L) item True s2)\<rparr>"
  have add: "nbr_table_add_lladdr (la L) None cb (anti_replay_table L) (Some a) reason dat s = Some (item, r)"
    using al(1-3) index_absent [OF inv a(2,1)] u ix
    by (simp add: nbr_table_add_lladdr_def nbr_table_allocate_def item_def r_def s2_def Let_def)
  have tb: "tables s1 = tables s" by (simp add: t1 al(2))
  have r1: "rtable_ok L s1" using rt by (simp add: rtable_ok_def tb)
  have kx: "kidx s1 k = kidx s k" for k
    using alloc_same_base [OF al(1)] by (intro kidx_same) (simp_all add: u(2) mu al(2))
  have "r = s1\<lparr>used_map := (used_map s1)[kidx s1 key := used_map s1 ! kidx s1 key OR rbit L s1],
      item_mem := blit (item_mem s1) item (replicate 8 0)\<rparr>"
    using set_bit_item [of s1 "anti_replay_table L" s2] r1 by (simp add: r_def s2_def item_def rtable_ok_def)
  note rr = this
  have inv_r: "nbr_inv (la L) r (ks @ [key]) {}"
    using used_bit_written [OF i1 _ k1, of "anti_replay_table L" item s2 "item_mem s2" r] r1 by (simp add: rtable_ok_def item_def r_def s2_def)
  have fr: "kidx r k = kidx s k" "item_from_index (anti_replay_table L) i r = item_from_index (anti_replay_table L) i s1" for k i
  proof -
    have "kidx r k = kidx s1 k" by (simp add: rr kidx_def index_from_key_def)
    then show "kidx r k = kidx s k" by (simp add: kx)
  qed (simp add: rr item_from_index_def)
  have "kidx s1 key < num (pool s1)" by (rule nbr_inv_key(1) [OF i1]) simp
  moreover have "length (used_map s1) = num (pool s1)" using i1 unfolding nbr_inv_def by blast
  ultimately have ul: "kidx s1 key < length (used_map s1)" by simp
  have other: "kidx s k \<noteq> kidx s1 key" if "k \<in> set ks" for k
    using kidx_inj [OF i1, of k key] that \<open>key \<notin> set ks\<close> by (auto simp: kx)
  have ll: "lladdr s1 k = lladdr s k" if "k \<in> set ks" for k
    using that \<open>key \<notin> set ks\<close> by (auto simp: u(2) mu al(2))
  have nz: "(x OR rbit L s1) AND rbit L s1 \<noteq> 0" for x
    using bit_stays_set [of "tb_index (tables s1 (anti_replay_table L))" x] r1 unfolding rtable_ok_def table_ok_def by blast
  have it: "item = ritem L r key" by (simp add: item_def fr kx)
  have "rd32 (item_mem r) q = rd32 (item_mem s) q" if "q + 4 \<le> ritem L r key \<or> ritem L r key + 8 \<le> q" for q
    using that unfolding it [symmetric] by (auto simp: rr rd32_def blit_def u(2) mu al(2))
  moreover have "nbr_table_add_lladdr (la L) None cb (anti_replay_table L) (Some a) reason dat s = Some (ritem L r key, r)"
    using add by (simp only: it)
  moreover have "used_map r ! kidx r key AND rbit L r \<noteq> 0"
  proof -
    have "kidx r key = kidx s1 key" using fr(1) kx by simp
    moreover have "used_map r = (used_map s1)[kidx s1 key := used_map s1 ! kidx s1 key OR rbit L s1]" "tables r = tables s1"
      by (simp_all add: rr)
    ultimately show ?thesis using nz ul by simp
  qed
  moreover have "num (pool r) = num (pool s)" by (simp add: rr u(2) mu al(2,5))
  moreover have "lladdr r k = lladdr s k \<and> kidx r k = kidx s k \<and> used_map r ! kidx r k = used_map s ! kidx s k \<and>
       locked_map r ! kidx r k = locked_map s ! kidx s k" if "k \<in> set ks" for k
    using other [OF that] ll [OF that] fr(1) by (simp add: rr) (simp add: u(2) mu al(2) kx)
  moreover have "rtable_ok L r" "tables r = tables s" "lladdr r key = a"
    using r1 k1 tb by (simp_all add: rr rtable_ok_def)
  ultimately show ?thesis using inv_r by blast
qed

abbreviation bcast :: "'u llsec \<Rightarrow> packetbuf_state \<Rightarrow> bool" where
  "bcast L p \<equiv> packetbuf_holds_broadcast (la L) p"

abbreviation frame_accept :: "'u llsec \<Rightarrow> nat \<Rightarrow> packetbuf_state \<Rightarrow> seen \<Rightarrow> bool \<times> seen" where
  "frame_accept L n p \<equiv> accept n (sender_addr (framer L) p) (bcast L p) (anti_replay_get_counter (framer L) p)"

lemma senders_card: "keeps_seen L s ks seen \<Longrightarrow> card (dom seen) < num (pool s) \<longleftrightarrow> used (pool s) \<noteq> {..< num (pool s)}"
proof -
  assume ks: "keeps_seen L s ks seen"
  then have inv: "nbr_inv (la L) s ks {}" and d: "dom seen = set (map (lladdr s) ks)" by (simp_all add: keeps_seen_def)
  have "card (dom seen) = length (map (lladdr s) ks)" unfolding d using inv by (intro distinct_card) (simp add: nbr_inv_def)
  then show ?thesis using room_left [OF inv] by (simp add: capacity_def)
qed

lemma known_sender:
  assumes ks: "keeps_seen L s ks seen" and a: "sender_addr (framer L) p = a" "length a = la L" and k: "k \<in> set ks" "lladdr s k = a"
  shows "\<exists>t. check_replay L p s = Some (fst (frame_accept L n p seen), t) \<and> keeps_seen L t ks (snd (frame_accept L n p seen)) \<and> pool t = pool s"
proof -
  have inv: "nbr_inv (la L) s ks {}" and rt: "rtable_ok L s" and
    sk: "seen a = Some (rd32 (item_mem s) (ritem L s k), rd32 (item_mem s) (ritem L s k + 4))" and u: "used_map s ! kidx s k AND rbit L s \<noteq> 0"
    using ks k by (auto simp: keeps_seen_def)
  obtain info where g: "nbr_table_get_from_lladdr (la L) (anti_replay_table L) (Some a) s = Some info"
    and c: "if \<exists>k \<in> set ks. lladdr s k = a \<and> used_map s ! kidx s k AND rbit L s \<noteq> 0
     then \<exists>k \<in> set ks. lladdr s k = a \<and> used_map s ! kidx s k AND rbit L s \<noteq> 0 \<and> info = ritem L s k else info = NULL"
    using get_spec [OF inv _ _ a(2), of "anti_replay_table L"] rt by (auto simp: rtable_ok_def)
  have "info = ritem L s k"
    using c k u inv by (auto simp: nbr_inv_def distinct_map inj_on_def split: if_split_asm)
  moreover have "ritem L s k \<noteq> NULL" using item_nonNULL [of s "anti_replay_table L"] rt by (simp add: rtable_ok_def)
  ultimately have run: "check_replay L p s = (let (replayed, m) = anti_replay_was_replayed (framer L) (ritem L s k) p (item_mem s)
      in Some (\<not> replayed, s\<lparr>item_mem := m\<rparr>))"
    using g a(1) by (simp add: check_replay_def Let_def)
  define cnt where "cnt = anti_replay_get_counter (framer L) p"
  have same: "keeps_seen L (s\<lparr>item_mem := item_mem s\<rparr>) ks seen" using ks by simp
  have bc: "keeps_seen L (s\<lparr>item_mem := wr32 (ritem L s k) cnt (item_mem s)\<rparr>) ks (seen(a \<mapsto> (cnt, rd32 (item_mem s) (ritem L s k + 4))))"
    and uc: "keeps_seen L (s\<lparr>item_mem := wr32 (ritem L s k + 4) cnt (item_mem s)\<rparr>) ks (seen(a \<mapsto> (rd32 (item_mem s) (ritem L s k), cnt)))"
    by (rule keeps_seen_write [OF ks k]; auto)+
  show ?thesis
    using same bc uc sk unfolding run anti_replay_was_replayed_def accept_def a(1)
    by (auto simp: Let_def cnt_def [symmetric])
qed

lemma new_sender:
  assumes ks: "keeps_seen L s ks seen" and cb: "callback_ok (removed L)" and a: "sender_addr (framer L) p = a" "length a = la L"
    and new: "a \<notin> lladdr s ` set ks"
  shows "\<exists>t ks'. check_replay L p s = Some (fst (frame_accept L (num (pool s)) p seen), t) \<and>
    keeps_seen L t ks' (snd (frame_accept L (num (pool s)) p seen)) \<and> num (pool t) = num (pool s)"
proof -
  have inv: "nbr_inv (la L) s ks {}" and rt: "rtable_ok L s" using ks by (auto simp: keeps_seen_def)
  have sn: "seen a = None" using ks new by (auto simp: keeps_seen_def dom_def)
  have g: "nbr_table_get_from_lladdr (la L) (anti_replay_table L) (Some a) s = Some NULL"
    using index_absent [OF inv a(2) new] by (simp add: nbr_table_get_from_lladdr_def item_from_index_def get_bit_NULL)
  have fr: "find_removable L = None" and tb: "anti_replay_table L \<noteq> NULL" using rt by (simp_all add: rtable_ok_def)
  show ?thesis
  proof (cases "used (pool s) = {..< num (pool s)}")
    case True
    then have "check_replay L p s = Some (False, s)"
      using no_room [OF ks cb True new a(2)] g a(1) by (simp add: check_replay_def fr Let_def)
    moreover have "frame_accept L (num (pool s)) p seen = (False, seen)"
      using senders_card [OF ks] True sn a(1) by (simp add: accept_def)
    ultimately show ?thesis using ks by auto
  next
    case False
    define cnt where "cnt = anti_replay_get_counter (framer L) p"
    from room_for_one [OF ks False new a(2)] obtain key r where add:
      "nbr_table_add_lladdr (la L) None (removed L) (anti_replay_table L) (Some a) NBR_TABLE_REASON_LLSEC NULL s = Some (ritem L r key, r)"
      and r: "rtable_ok L r" "nbr_inv (la L) r (ks @ [key]) {}" "lladdr r key = a" "tables r = tables s" "num (pool r) = num (pool s)"
      "used_map r ! kidx r key AND rbit L r \<noteq> 0"
      and old: "\<forall>k \<in> set ks. lladdr r k = lladdr s k \<and> kidx r k = kidx s k \<and> used_map r ! kidx r k = used_map s ! kidx s k \<and>
       locked_map r ! kidx r k = locked_map s ! kidx s k"
      and mem: "\<forall>q. q + 4 \<le> ritem L r key \<or> ritem L r key + 8 \<le> q \<longrightarrow> rd32 (item_mem r) q = rd32 (item_mem s) q" by blast
    have tr: "table_ok (tables r (anti_replay_table L))" using r(1) by (simp add: rtable_ok_def)
    have nn: "ritem L r key \<noteq> NULL" using item_nonNULL [OF tr tb] .
    define lm where "lm = (locked_map r)[kidx r key := locked_map r ! kidx r key OR rbit L r]"
    define m where "m = anti_replay_init_info (framer L) (ritem L r key) p (item_mem r)"
    define t where "t = r\<lparr>locked_map := lm, item_mem := m\<rparr>"
    have "check_replay L p s = Some (True, t)"
      using g a(1) add nn set_bit_item [OF tr tb refl, of "locked_map r" "kidx r key" True]
      by (simp add: check_replay_def fr Let_def nbr_table_lock_def t_def m_def lm_def)
    moreover have "frame_accept L (num (pool s)) p seen = (True, seen(a \<mapsto> (cnt, cnt)))"
      using senders_card [OF ks] False sn a(1) by (simp add: accept_def cnt_def)
    moreover have "keeps_seen L t (ks @ [key]) (seen(a \<mapsto> (cnt, cnt)))"
    proof -
      have f: "kidx t j = kidx r j" "item_from_index (anti_replay_table L) i t = item_from_index (anti_replay_table L) i r" for j i
        by (simp_all add: t_def kidx_def index_from_key_def item_from_index_def)
      have rs: "item_from_index (anti_replay_table L) i r = item_from_index (anti_replay_table L) i s" for i
        by (simp add: item_from_index_def r(4))
      have "key \<notin> set ks" using new old r(3) by auto
      have kb: "kidx r key < num (pool r)" by (rule nbr_inv_key(1) [OF r(2)]) simp
      have lk: "length (locked_map r) = num (pool r)" using r(2) unfolding nbr_inv_def by blast
      have uk: "kidx r key \<in> used (pool r)" by (rule nbr_inv_key(4) [OF r(2)]) simp
      have inv_t: "nbr_inv (la L) t (ks @ [key]) {}"
        using r(2) uk unfolding nbr_inv_def by (auto simp: t_def lm_def is_list_def) (metis nth_list_update_neq)
      have apart: "kidx r k \<noteq> kidx r key" if "k \<in> set ks" for k
        using kidx_inj [OF r(2), of k key] that \<open>key \<notin> set ks\<close> by auto
      have v: "rd32 m (ritem L r key) = cnt" "rd32 m (ritem L r key + 4) = cnt"
        by (simp_all add: m_def anti_replay_init_info_def cnt_def)
      have keep: "rd32 m (ritem L s k) = rd32 (item_mem s) (ritem L s k) \<and> rd32 m (ritem L s k + 4) = rd32 (item_mem s) (ritem L s k + 4)"
        if "k \<in> set ks" for k
      proof -
        have same: "rd32 m q = rd32 (item_mem s) q" if "q + 4 \<le> ritem L r key \<or> ritem L r key + 8 \<le> q" for q
          using that mem by (auto simp: m_def anti_replay_init_info_def)
        have "ritem L r k = ritem L s k" using old that by (simp add: rs)
        with items_apart [OF r(1) apart [OF that]]
        have "ritem L s k + 8 \<le> ritem L r key \<or> ritem L r key + 8 \<le> ritem L s k" by simp
        then show ?thesis by (intro conjI; intro same; linarith)
      qed
      have kn: "locked_map t ! kidx t key \<noteq> 0"
      proof -
        have "locked_map t = lm" by (simp add: t_def)
        then have "locked_map t ! kidx t key = locked_map r ! kidx r key OR rbit L r" using kb lk by (simp add: f lm_def)
        moreover have "tb_index (tables r (anti_replay_table L)) < 8" using tr by (simp add: table_ok_def)
        ultimately show ?thesis using bit_stays_set [of "tb_index (tables r (anti_replay_table L))" "locked_map r ! kidx r key"] by (metis zero_and_eq)
      qed
      have entries: "used_map t ! kidx t k AND rbit L t \<noteq> 0 \<and> locked_map t ! kidx t k \<noteq> 0 \<and>
          (seen(a \<mapsto> (cnt, cnt))) (lladdr t k) = Some (rd32 (item_mem t) (ritem L t k), rd32 (item_mem t) (ritem L t k + 4))"
        if "k \<in> set (ks @ [key])" for k
      proof (cases "k = key")
        case True
        then show ?thesis using v r(3,6) kn by (simp add: f) (simp add: t_def)
      next
        case False
        then have k: "k \<in> set ks" using that by simp
        then have "lladdr s k \<noteq> a" using new by auto
        have e: "kidx r k = kidx s k" "used_map r ! kidx s k = used_map s ! kidx s k" "locked_map r ! kidx s k = locked_map s ! kidx s k" "lladdr r k = lladdr s k"
          using old k by metis+
        note \<open>lladdr s k \<noteq> a\<close>
        moreover have "locked_map t ! kidx t k = locked_map s ! kidx s k" "used_map t ! kidx t k = used_map s ! kidx s k" "lladdr t k = lladdr s k"
          "kidx t k = kidx s k" "tables t = tables s" "item_mem t = m"
          using e apart [OF k] r(4) unfolding f by (simp_all add: t_def lm_def)
        moreover have "item_from_index (anti_replay_table L) i t = item_from_index (anti_replay_table L) i s" for i by (simp add: f rs)
        ultimately show ?thesis using ks k keep [OF k] by (simp add: keeps_seen_def)
      qed
      moreover have "dom (seen(a \<mapsto> (cnt, cnt))) = lladdr t ` set (ks @ [key])"
        using ks old r(3) by (auto simp: keeps_seen_def t_def image_iff)
      moreover have "rtable_ok L t" using r(1) by (simp add: rtable_ok_def t_def)
      ultimately show ?thesis using inv_t unfolding keeps_seen_def by blast
    qed
    ultimately show ?thesis using r(5) by (intro exI [of _ t] exI [of _ "ks @ [key]"]) (simp add: t_def)
  qed
qed

lemma check_replay_spec:
  assumes ks: "keeps_seen L s ks seen" and cb: "callback_ok (removed L)" and a: "length (sender_addr (framer L) p) = la L"
  shows "\<exists>t ks'. check_replay L p s = Some (fst (frame_accept L (num (pool s)) p seen), t) \<and>
    keeps_seen L t ks' (snd (frame_accept L (num (pool s)) p seen)) \<and> num (pool t) = num (pool s)"
proof (cases "sender_addr (framer L) p \<in> lladdr s ` set ks")
  case True
  then obtain k where "k \<in> set ks" "lladdr s k = sender_addr (framer L) p" by auto
  from known_sender [OF ks refl a this, of "num (pool s)"] show ?thesis by metis
next
  case False
  then show ?thesis using new_sender [OF ks cb refl a] by simp
qed

text \<open>A run over the frames of a sequence of packets that were found authentic.\<close>

fun check_run :: "'u llsec \<Rightarrow> packetbuf_state list \<Rightarrow> 'u nbr_store \<Rightarrow> (bool list \<times> 'u nbr_store) option" where
  "check_run L [] s = Some ([], s)"
| "check_run L (p # ps) s =
     (case check_replay L p s of
        None \<Rightarrow> None
      | Some (b, s) \<Rightarrow> map_option (\<lambda>(bs, t). (b # bs, t)) (check_run L ps s))"

fun accept_run :: "'u llsec \<Rightarrow> nat \<Rightarrow> packetbuf_state list \<Rightarrow> seen \<Rightarrow> bool list" where
  "accept_run L n [] seen = []"
| "accept_run L n (p # ps) seen = (case frame_accept L n p seen of (b, seen) \<Rightarrow> b # accept_run L n ps seen)"

lemma check_run_accepts:
  assumes "keeps_seen L s ks seen" and "callback_ok (removed L)" and "\<forall>p \<in> set ps. length (sender_addr (framer L) p) = la L"
  shows "\<exists>t. check_run L ps s = Some (accept_run L (num (pool s)) ps seen, t)"
  using assms
proof (induction ps arbitrary: s ks seen)
  case (Cons p ps)
  let ?r = "frame_accept L (num (pool s)) p seen"
  obtain t ks' where t: "check_replay L p s = Some (fst ?r, t)" "keeps_seen L t ks' (snd ?r)" "num (pool t) = num (pool s)"
    using check_replay_spec [OF Cons.prems(1,2), of p] Cons.prems(3) by (metis list.set_intros(1))
  from Cons.IH [OF t(2) Cons.prems(2)] Cons.prems(3) t show ?case by (auto simp: split_beta)
qed simp

abbreviation frame_sender :: "'u llsec \<Rightarrow> packetbuf_state \<Rightarrow> linkaddr_t" where
  "frame_sender L p \<equiv> sender_addr (framer L) p"

abbreviation frame_counter_of :: "'u llsec \<Rightarrow> packetbuf_state \<Rightarrow> u32" where
  "frame_counter_of L p \<equiv> anti_replay_get_counter (framer L) p"

abbreviation last_of :: "bool \<Rightarrow> u32 \<times> u32 \<Rightarrow> u32" where
  "last_of bc x \<equiv> (if bc then fst x else snd x)"

lemma accept_cases:
  assumes "accept n a bc cnt seen = (b, seen')"
  obtains (replayed) x where "seen a = Some x" "cnt \<le> last_of bc x" "\<not> b" "seen' = seen"
    | (newer) x where "seen a = Some x" "last_of bc x < cnt" "b" "seen' = seen(a \<mapsto> if bc then (cnt, snd x) else (fst x, cnt))"
    | (full) "seen a = None" "n \<le> card (dom seen)" "\<not> b" "seen' = seen"
    | (first) "seen a = None" "card (dom seen) < n" "b" "seen' = seen(a \<mapsto> (cnt, cnt))"
  using assms by (auto simp: accept_def split: option.splits if_splits)

lemma length_accept_run [simp]: "length (accept_run L n ps seen) = length ps"
  by (induction ps arbitrary: seen) (auto split: prod.split)

text \<open>What is accepted is newer than all that was accepted before.\<close>

lemma accepted_newer:
  assumes "j < length ps" and "accept_run L n ps seen ! j"
  shows "(\<forall>x. seen (frame_sender L (ps ! j)) = Some x \<longrightarrow> last_of (bcast L (ps ! j)) x < frame_counter_of L (ps ! j)) \<and>
    (\<forall>i < j. accept_run L n ps seen ! i \<longrightarrow> frame_sender L (ps ! i) = frame_sender L (ps ! j) \<longrightarrow> bcast L (ps ! i) = bcast L (ps ! j) \<longrightarrow>
       frame_counter_of L (ps ! i) < frame_counter_of L (ps ! j))"
  using assms
proof (induction ps arbitrary: seen j)
  case (Cons p ps)
  obtain b seen' where a: "frame_accept L n p seen = (b, seen')" by force
  show ?case
  proof (cases j)
    case 0
    then show ?thesis using Cons.prems a by (cases rule: accept_cases [OF a]) auto
  next
    case (Suc k)
    from Cons.prems Suc a have k: "k < length ps" "accept_run L n ps seen' ! k" by auto
    note IH = Cons.IH [OF k]
    have grows: "\<exists>y. seen' c = Some y \<and> last_of bc x \<le> last_of bc y" if "seen c = Some x" for c x bc
      using that by (cases x; cases rule: accept_cases [OF a]) (auto split: if_splits)
    have 1: "last_of (bcast L (ps ! k)) x < frame_counter_of L (ps ! k)" if x: "seen (frame_sender L (ps ! k)) = Some x" for x
    proof -
      obtain y where "seen' (frame_sender L (ps ! k)) = Some y" "last_of (bcast L (ps ! k)) x \<le> last_of (bcast L (ps ! k)) y"
        using grows [OF x] by blast
      with IH show ?thesis by (meson order_le_less_trans)
    qed
    have 2: "\<exists>x. seen' (frame_sender L p) = Some x \<and> last_of (bcast L p) x = frame_counter_of L p" if b
      using that by (cases rule: accept_cases [OF a]) auto
    have 3: "frame_counter_of L ((p # ps) ! i) < frame_counter_of L (ps ! k)"
      if i: "i < Suc k" "accept_run L n (p # ps) seen ! i" "frame_sender L ((p # ps) ! i) = frame_sender L (ps ! k)" "bcast L ((p # ps) ! i) = bcast L (ps ! k)" for i
    proof (cases i)
      case 0
      then have "b" using i(2) a by simp
      from 2 [OF this] obtain x where "seen' (frame_sender L p) = Some x" "last_of (bcast L p) x = frame_counter_of L p" by blast
      moreover have e: "frame_sender L p = frame_sender L (ps ! k)" "bcast L p = bcast L (ps ! k)" using i(3,4) 0 by simp_all
      ultimately have "last_of (bcast L (ps ! k)) x < frame_counter_of L (ps ! k)" using IH [THEN conjunct1, rule_format, of x] by (simp only:)
      then show ?thesis using \<open>last_of (bcast L p) x = frame_counter_of L p\<close> unfolding e(2) 0 nth_Cons_0 by (simp only:)
    next
      case (Suc m)
      then show ?thesis using IH i a by simp
    qed
    show ?thesis using 1 3 unfolding Suc by simp
  qed
qed simp

text \<open>What is refused was either accepted before, or there was no room for its sender.\<close>

lemma refused_reason:
  assumes "j < length ps" and "\<not> accept_run L n ps seen ! j" and "finite (dom seen)"
  shows "(\<exists>i < j. accept_run L n ps seen ! i \<and> frame_sender L (ps ! i) = frame_sender L (ps ! j) \<and>
       frame_counter_of L (ps ! j) \<le> frame_counter_of L (ps ! i)) \<or>
    (\<exists>x. seen (frame_sender L (ps ! j)) = Some x \<and> frame_counter_of L (ps ! j) \<le> last_of (bcast L (ps ! j)) x) \<or>
    n \<le> card (dom seen \<union> frame_sender L ` set (take j ps))"
  using assms
proof (induction ps arbitrary: seen j)
  case (Cons p ps)
  obtain b seen' where a: "frame_accept L n p seen = (b, seen')" by force
  show ?case
  proof (cases j)
    case 0
    then show ?thesis using Cons.prems a by (cases rule: accept_cases [OF a]) auto
  next
    case (Suc k)
    have d: "dom seen' \<subseteq> insert (frame_sender L p) (dom seen)"
      by (cases rule: accept_cases [OF a]) auto
    from Cons.prems(1,2) Suc a have k: "k < length ps" "\<not> accept_run L n ps seen' ! k" by auto
    let ?c = "frame_sender L (ps ! k)"
    consider (earlier) i where "i < k" "accept_run L n ps seen' ! i" "frame_sender L (ps ! i) = ?c" "frame_counter_of L (ps ! k) \<le> frame_counter_of L (ps ! i)"
      | (known) x where "seen' ?c = Some x" "frame_counter_of L (ps ! k) \<le> last_of (bcast L (ps ! k)) x"
      | (full) "n \<le> card (dom seen' \<union> frame_sender L ` set (take k ps))"
      using Cons.IH [OF k] finite_subset [OF d] Cons.prems(3) by auto
    then show ?thesis
    proof cases
      case earlier
      then show ?thesis using a unfolding Suc by (intro disjI1 exI [of _ "Suc i"]) simp
    next
      case known
      have "seen ?c = Some x \<or> b \<and> frame_sender L p = ?c \<and> (last_of (bcast L (ps ! k)) x = frame_counter_of L p \<or>
          (\<exists>y. seen ?c = Some y \<and> last_of (bcast L (ps ! k)) x = last_of (bcast L (ps ! k)) y))"
        using known(1) by (cases rule: accept_cases [OF a]) (auto split: if_splits)
      then show ?thesis
      proof (elim disjE conjE exE)
        assume "seen ?c = Some x"
        then show ?thesis using known(2) unfolding Suc by auto
      next
        assume "b" "frame_sender L p = ?c" "last_of (bcast L (ps ! k)) x = frame_counter_of L p"
        then show ?thesis using known(2) a unfolding Suc by (intro disjI1 exI [of _ 0]) simp
      next
        fix y assume "seen ?c = Some y" "last_of (bcast L (ps ! k)) x = last_of (bcast L (ps ! k)) y"
        then show ?thesis using known(2) unfolding Suc by auto
      qed
    next
      case full
      have "card (dom seen' \<union> frame_sender L ` set (take k ps)) \<le> card (dom seen \<union> frame_sender L ` set (take (Suc k) (p # ps)))"
        using d Cons.prems(3) by (intro card_mono) auto
      then show ?thesis using full unfolding Suc by auto
    qed
  qed
qed simp

text \<open>C8: No frame is accepted twice. Whatever authentic frames arrive and in whatever order at a node with an
  empty table, of the frames that are accepted from one sender, each has a greater frame counter
  than the ones before it of its kind (broadcast or unicast). A frame is refused only if an accepted
  frame of its sender, of either kind, has a counter as great (the first frame of a sender counts
  for both kinds), or if as many senders as the table has room for were heard before. The neighbour
  tables are used for nothing but these counters, and no policy
  \<open>NBR_TABLE_FIND_REMOVABLE\<close> is compiled in: with one, a sender that was removed is new
  again and its old frames are accepted.\<close>

theorem no_frame_accepted_twice:
  assumes "keeps_seen L s [] (\<lambda>_. None)" and "callback_ok (removed L)" and "\<forall>p \<in> set ps. length (frame_sender L p) = la L"
  shows "\<exists>ok t. check_run L ps s = Some (ok, t) \<and> length ok = length ps \<and>
    (\<forall>i j. i < j \<longrightarrow> j < length ps \<longrightarrow> ok ! i \<longrightarrow> ok ! j \<longrightarrow> frame_sender L (ps ! i) = frame_sender L (ps ! j) \<longrightarrow>
       bcast L (ps ! i) = bcast L (ps ! j) \<longrightarrow> frame_counter_of L (ps ! i) < frame_counter_of L (ps ! j)) \<and>
    (\<forall>j < length ps. \<not> ok ! j \<longrightarrow>
       (\<exists>i < j. ok ! i \<and> frame_sender L (ps ! i) = frame_sender L (ps ! j) \<and> frame_counter_of L (ps ! j) \<le> frame_counter_of L (ps ! i)) \<or>
       num (pool s) \<le> card (frame_sender L ` set (take j ps)))"
proof -
  obtain t where t: "check_run L ps s = Some (accept_run L (num (pool s)) ps (\<lambda>_. None), t)"
    using check_run_accepts [OF assms] by blast
  show ?thesis
    using t accepted_newer [of _ ps L "num (pool s)" "\<lambda>_. None"] refused_reason [of _ ps L "num (pool s)" "\<lambda>_. None"]
    by (intro exI [of _ "accept_run L (num (pool s)) ps (\<lambda>_. None)"] exI [of _ t]) auto
qed

section \<open>A secured frame on its way\<close>

lemma bytes_at_holds: "holds m p xs \<Longrightarrow> length xs = n \<Longrightarrow> bytes_at m p n = xs"
  by (auto simp: bytes_at_def holds_def intro!: nth_equalityI)

lemma bytes_at_length [simp]: "length (bytes_at m p n) = n"
  by (simp add: bytes_at_def)

lemma LLSEC802154_MIC_LEN_bounds: "unat (LLSEC802154_MIC_LEN l) \<le> 16"
proof -
  have "unat (l AND 3) \<le> 3"
    using word_and_le1 [of l 3] by (simp add: word_le_nat_alt)
  then have "unat (l AND 3) \<in> {0, 1, 2, 3}" by auto
  then show ?thesis by (auto simp: LLSEC802154_MIC_LEN_def)
qed

lemma nonce_length:
  assumes "la L = 2 \<or> la L = 8" and "length (if forward then linkaddr_node_addr L else sender_addr (framer L) s) = la L"
  shows "length (ccm_star_packetbuf_set_nonce L forward s) = 13"
  using assms by (auto simp: ccm_star_packetbuf_set_nonce_def get_extended_address_def Let_def)

definition auth_part :: "'u llsec \<Rightarrow> u8 list \<Rightarrow> u8 list \<Rightarrow> u8 list" where
  "auth_part L h d = (if WITH_ENCRYPTION L then h else h @ d)"

definition mic_of :: "'u llsec \<Rightarrow> u8 list \<Rightarrow> u8 list \<Rightarrow> u8 list \<Rightarrow> u8 list" where
  "mic_of L nonce h d =
     mac_spec (encrypt (round_keys L)) nonce (if WITH_ENCRYPTION L then d else []) (auth_part L h d) (MIC_LEN L)"

lemma unat_of_nat_byte: "n \<le> 255 \<Longrightarrow> unat (of_nat n :: u8) = n"
  by (simp add: unat_of_nat)

lemma unat_to_byte: "unat (w :: u16) \<le> 255 \<Longrightarrow> unat (ucast w :: u8) = unat w"
  by (simp add: unsigned_ucast_eq take_bit_eq_mod unat_mod)

lemma noncoresec_aead_parts:
  fixes L :: "'u llsec"
  assumes tot: "unat (packetbuf_totlen s) = length h + length d" "length h + length d \<le> 255" and mem: "holds (packetbuf s) 0 (h @ d)"
  defines "m \<equiv> if WITH_ENCRYPTION L then d else []" and "p \<equiv> if WITH_ENCRYPTION L then length h else 0" and "n \<equiv> unat (MIC_LEN L)"
  shows "noncoresec_aead L (of_nat (length h)) forward s =
     (case aead (encrypt (round_keys L)) (ccm_star_packetbuf_set_nonce L forward s) m (of_nat (length m)) (auth_part L h d)
             (of_nat (length (auth_part L h d))) (if forward then bytes_at (packetbuf s) (length h + length d) n else replicate n 0) (MIC_LEN L) forward of
        None \<Rightarrow> None
      | Some (m', r) \<Rightarrow>
          let s = s\<lparr>packetbuf := blit (packetbuf s) p m'\<rparr>
          in if forward then
               Some (True, packetbuf_set_datalen (packetbuf_datalen s + ucast (MIC_LEN L)) (s\<lparr>packetbuf := blit (packetbuf s) (length h + length d) r\<rparr>))
             else Some (r = bytes_at (packetbuf s) (length h + length d) n, s))"
proof -
  have tl: "unat (ucast (packetbuf_totlen s) :: u8) = length h + length d" using tot by (subst unat_to_byte) simp_all
  then have tb: "ucast (packetbuf_totlen s) = (of_nat (length h + length d) :: u8)"
    using tot(2) by (simp add: word_unat_eq_iff unat_of_nat_byte del: of_nat_add)
  have u: "unat (of_nat (length h) :: u8) = length h" "unat (of_nat (length d) :: u8) = length d" "unat (of_nat (length h + length d) :: u8) = length h + length d"
    using tot(2) by (auto intro!: unat_of_nat_byte simp del: of_nat_add)
  have A: "bytes_at (packetbuf s) 0 (length h) = h" "bytes_at (packetbuf s) (length h) (length d) = d"
    "bytes_at (packetbuf s) 0 (length h + length d) = h @ d"
    using mem by (auto intro!: bytes_at_holds simp: holds_append)
  have md: "of_nat (length h + length d) - of_nat (length h) = (of_nat (length d) :: u8)" by simp
  show ?thesis
    unfolding noncoresec_aead_def Let_def tb packetbuf_hdrptr_def add_0 md
    by (simp add: u A auth_part_def m_def p_def n_def Let_def del: of_nat_add split: option.split prod.split) (simp add: bytes_at_def)
qed

lemma aead_sends:
  fixes L :: "'u llsec"
  assumes pk: "packet_is psize s (h, 0, d)" and sz: "length h + length d + 16 \<le> psize" "psize \<le> 255" "length d \<le> 238"
    and nonce: "ccm_star_packetbuf_set_nonce L True s = nonce" "length nonce = 13"
  shows "\<exists>body t. noncoresec_aead L (of_nat (length h)) True s = Some (True, t) \<and> length body = length d \<and>
    length (mic_of L nonce h d) = unat (MIC_LEN L) \<and> packet_is psize t (h, 0, body @ mic_of L nonce h d) \<and>
    packetbuf_attrs t = packetbuf_attrs s \<and> packetbuf_addrs t = packetbuf_addrs s \<and>
    (\<not> WITH_ENCRYPTION L \<longrightarrow> body = d) \<and>
    (\<forall>z. aead (encrypt (round_keys L)) nonce (if WITH_ENCRYPTION L then body else []) (of_nat (length (if WITH_ENCRYPTION L then body else [])))
        (auth_part L h body) (of_nat (length (auth_part L h body))) z (MIC_LEN L) False =
       Some (if WITH_ENCRYPTION L then d else [], mic_of L nonce h d @ drop (unat (MIC_LEN L)) z))"
proof -
  define n where "n = unat (MIC_LEN L)"
  have n: "n \<le> 16" using LLSEC802154_MIC_LEN_bounds by (simp add: n_def)
  have tot: "unat (packetbuf_totlen s) = length h + length d" using unat_hdrlen(2) [OF pk sz(2)] by simp
  have hd: "holds (packetbuf s) 0 h" "holds (packetbuf s) (length h) d" "unat (hdrlen s) = length h" "bufptr s = 0" "unat (buflen s) = length d"
    using pk by (simp_all add: packet_is_def unat_eq_0)
  let ?E = "encrypt (round_keys L)" and ?m = "if WITH_ENCRYPTION L then d else []" and ?a = "auth_part L h d"
  let ?r = "bytes_at (packetbuf s) (length h + length d) n" and ?mac = "mic_of L nonce h d"
  have am: "length ?m \<le> 240" "length ?a \<le> 254" using sz by (auto simp: auth_part_def)
  have um: "unat (of_nat (length ?m) :: u8) = length ?m" "unat (of_nat (length ?a) :: u8) = length ?a"
    using am by (intro unat_of_nat_byte; simp)+
  have ml: "length ?mac = n" using aes.mac_length [of nonce "MIC_LEN L"] n nonce(2) by (simp add: mic_of_def n_def)
  obtain c tag where c: "aead ?E nonce ?m (of_nat (length ?m)) ?a (of_nat (length ?a)) ?r (MIC_LEN L) True = Some (c, tag)"
    "length c = length ?m" "\<And>z. aead ?E nonce c (of_nat (length ?m)) ?a (of_nat (length ?a)) z (MIC_LEN L) False =
       Some (?m, ?mac @ drop n z)" "tag = ?mac @ drop n ?r"
    using aead_inverts [of nonce "of_nat (length ?m)" ?m "of_nat (length ?a)" ?a "round_keys L" ?r "MIC_LEN L"] am nonce(2)
    unfolding um mic_of_def by (auto simp: n_def)
  have tag: "tag = ?mac" using c(4) by simp
  define body where "body = (if WITH_ENCRYPTION L then c else d)"
  define p where "p = (if WITH_ENCRYPTION L then length h else 0)"
  define t where "t = s\<lparr>packetbuf := blit (blit (packetbuf s) p c) (length h + length d) ?mac, buflen := buflen s + ucast (MIC_LEN L)\<rparr>"
  have lb: "length body = length d" using c(2) by (simp add: body_def)
  have "noncoresec_aead L (of_nat (length h)) True s = Some (True, t)"
    using noncoresec_aead_parts [of s h d L True] tot sz(1,2) hd(1,2) c(1) nonce(1) tag
    by (simp add: holds_append n_def [symmetric] p_def [symmetric] Let_def t_def packetbuf_set_datalen_def packetbuf_datalen_def)
  moreover have "packet_is psize t (h, 0, body @ ?mac)"
  proof -
    have "unat (buflen s + ucast (MIC_LEN L)) = length d + n"
      using hd(5) sz n by (simp add: unat_word_ariths unsigned_ucast_eq take_bit_eq_mod n_def)
    moreover have "holds (packetbuf t) 0 h" "holds (packetbuf t) (length h) body" "holds (packetbuf t) (length h + length body) ?mac"
      using hd(1,2) c(2) lb by (auto simp: t_def p_def body_def holds_blit_below)
    ultimately show ?thesis
      using hd(3,4) lb ml sz(1) n by (simp add: packet_is_def holds_append) (simp add: t_def)
  qed
  moreover have "auth_part L h body = ?a" by (simp add: auth_part_def body_def)
  ultimately show ?thesis using lb ml c(3) c(2)
    by (intro exI [of _ body] exI [of _ t]) (auto simp: n_def t_def body_def)
qed

lemma aead_receives:
  fixes L :: "'u llsec"
  assumes pk: "packet_is psize s ([], length h, body)" "psize \<le> 255" and mem: "holds (packetbuf s) 0 h"
    "holds (packetbuf s) (length h + length body) tag'" "length tag' = unat (MIC_LEN L)" "length (mic_of L nonce h d) = unat (MIC_LEN L)"
    and nonce: "ccm_star_packetbuf_set_nonce L False s = nonce" and lb: "length body = length d" "\<not> WITH_ENCRYPTION L \<Longrightarrow> body = d"
    and dec: "\<And>z. aead (encrypt (round_keys L)) nonce (if WITH_ENCRYPTION L then body else []) (of_nat (length (if WITH_ENCRYPTION L then body else [])))
        (auth_part L h body) (of_nat (length (auth_part L h body))) z (MIC_LEN L) False =
       Some (if WITH_ENCRYPTION L then d else [], mic_of L nonce h d @ drop (unat (MIC_LEN L)) z)"
  shows "\<exists>t. noncoresec_aead L (of_nat (length h)) False s = Some (tag' = mic_of L nonce h d, t) \<and> packet_is psize t ([], length h, d) \<and>
    packetbuf_attrs t = packetbuf_attrs s \<and> packetbuf_addrs t = packetbuf_addrs s"
proof -
  define n where "n = unat (MIC_LEN L)"
  have hd: "holds (packetbuf s) (length h) body" "hdrlen s = 0" "unat (bufptr s) = length h" "unat (buflen s) = length body" "length h + length body \<le> psize"
    using pk(1) by (simp_all add: packet_is_def unat_eq_0)
  have tot: "unat (packetbuf_totlen s) = length h + length body" using unat_hdrlen(2) [OF pk] by simp
  define m where "m = (if WITH_ENCRYPTION L then d else [])"
  define p where "p = (if WITH_ENCRYPTION L then length h else 0)"
  define t where "t = s\<lparr>packetbuf := blit (packetbuf s) p m\<rparr>"
  have "bytes_at (packetbuf t) (length h + length body) n = tag'"
  proof (rule bytes_at_holds)
    have "p + length m \<le> length h + length body" using lb by (simp add: p_def m_def)
    then show "holds (packetbuf t) (length h + length body) tag'"
      using mem(2) by (auto simp: t_def holds_def blit_def)
  qed (simp add: mem(3) n_def)
  then have "noncoresec_aead L (of_nat (length h)) False s = Some (mic_of L nonce h d = tag', t)"
    using noncoresec_aead_parts [of s h body L False] tot hd(5) pk(2) mem(1) hd(1) dec nonce
    by (simp add: holds_append n_def [symmetric] Let_def t_def m_def p_def)
  moreover have "packet_is psize t ([], length h, d)"
  proof -
    have "holds (packetbuf t) (length h) d" using lb hd(1) by (auto simp: t_def p_def m_def)
    then show ?thesis using hd(2-5) lb(1) by (simp add: packet_is_def) (simp add: t_def)
  qed
  ultimately show ?thesis by (intro exI [of _ t]) (auto simp: t_def)
qed

lemma counter_halves: "ucast (ucast w :: u16) OR push_bit 16 (ucast (ucast (drop_bit 16 w) :: u16)) = (w :: u32)"
  by (rule bit_word_eqI) (auto simp: bit_simps)

text \<open>What \<open>send\<close> leaves in the packet buffer for the framers.\<close>

lemma send_prepares:
  assumes "framer_ok (framer L)" and "LLSEC802154_USES_AUX_HEADER (frame_conf (framer L))"
    and "pb_shape (framer L) (pb (fs st))" and "st1 = noncoresec_send L st"
  shows "pb_shape (framer L) (pb (fs st1))" "ns.counter st1 = ns.counter st + 1" "nbrs st1 = nbrs st"
    "mac_pan_id (fs st1) = mac_pan_id (fs st)" "\<And>psize x. packet_is psize (pb (fs st1)) x \<longleftrightarrow> packet_is psize (pb (fs st)) x"
    "sender_addr (framer L) (pb (fs st1)) = sender_addr (framer L) (pb (fs st))"
    "receiver_addr (framer L) (pb (fs st1)) = receiver_addr (framer L) (pb (fs st))"
    "get_attr (framer L) ATTR_SECURITY_LEVEL (pb (fs st1)) = ucast (SEC_LVL L)"
    "anti_replay_get_counter (framer L) (pb (fs st1)) = ns.counter st + 1"
    "a \<in> set (attr_enum (framer L)) - sec_attrs (framer L) \<Longrightarrow>
      get_attr (framer L) a (pb (fs st1)) = get_attr (framer L) a (add_security_header L (pb (fs st)))"
proof -
  have i: "ATTR_SECURITY_LEVEL \<in> set (attr_enum (framer L))" "ATTR_FRAME_COUNTER_BYTES_0_1 \<in> set (attr_enum (framer L))"
    "ATTR_FRAME_COUNTER_BYTES_2_3 \<in> set (attr_enum (framer L))" "ATTR_FRAME_TYPE \<in> set (attr_enum (framer L))"
    using sec_in [OF assms(1)] assms(2) common_in by (simp_all add: sec_attrs_def common_attrs_def)
  note d = assms(4) noncoresec_send_def anti_replay_set_counter_def add_security_header_def Let_def
  show "pb_shape (framer L) (pb (fs st1))" "ns.counter st1 = ns.counter st + 1" "nbrs st1 = nbrs st"
    "mac_pan_id (fs st1) = mac_pan_id (fs st)" "\<And>psize x. packet_is psize (pb (fs st1)) x \<longleftrightarrow> packet_is psize (pb (fs st)) x"
    "sender_addr (framer L) (pb (fs st1)) = sender_addr (framer L) (pb (fs st))"
    "receiver_addr (framer L) (pb (fs st1)) = receiver_addr (framer L) (pb (fs st))"
    using assms(3) by (simp_all add: d)
  show "get_attr (framer L) ATTR_SECURITY_LEVEL (pb (fs st1)) = ucast (SEC_LVL L)"
    using assms(3) i by (simp add: d get_put_any)
  show "anti_replay_get_counter (framer L) (pb (fs st1)) = ns.counter st + 1"
    using assms(3) i counter_halves [of "ns.counter st + 1"] by (simp add: d get_put_any anti_replay_get_counter_def)
  show "a \<in> set (attr_enum (framer L)) - sec_attrs (framer L) \<Longrightarrow>
      get_attr (framer L) a (pb (fs st1)) = get_attr (framer L) a (add_security_header L (pb (fs st)))"
    using assms(2,3) i by (auto simp: d get_put_any sec_attrs_def)
qed

lemma same_nonce:
  assumes "framer M = framer L"
    and "get_attr (framer L) ATTR_SECURITY_LEVEL u = get_attr (framer L) ATTR_SECURITY_LEVEL s"
    and "get_attr (framer L) ATTR_FRAME_COUNTER_BYTES_0_1 u = get_attr (framer L) ATTR_FRAME_COUNTER_BYTES_0_1 s"
    and "get_attr (framer L) ATTR_FRAME_COUNTER_BYTES_2_3 u = get_attr (framer L) ATTR_FRAME_COUNTER_BYTES_2_3 s"
    and "sender_addr (framer L) u = linkaddr_node_addr L"
  shows "ccm_star_packetbuf_set_nonce M False u = ccm_star_packetbuf_set_nonce L True s"
  using assms by (simp add: ccm_star_packetbuf_set_nonce_def)

text \<open>A node takes a frame of the network apart: the data is restored, and the frame is accepted when its
  authentication code is right and its counter new.\<close>

lemma parse_secured:
  fixes M :: "'u llsec" and r :: "'u ns"
  defines "c \<equiv> framer M" and "psize \<equiv> PACKETBUF_SIZE (framer M)"
  assumes p: "parse c frame0 (fs r) = (int (length hdr), f)" "length hdr \<le> 37"
    and pk: "packet_is psize (pb f) ([], length hdr, body @ tag')" "psize \<le> 255" "holds (packetbuf (pb f)) 0 hdr"
    and lvl: "get_attr c ATTR_SECURITY_LEVEL (pb f) = ucast (SEC_LVL M)" and sh: "pb_shape c (pb f)"
    and other: "\<not> linkaddr_cmp (la M) (sender_addr c (pb f)) (linkaddr_node_addr M)"
    and tag: "length tag' = unat (MIC_LEN M)" "length (mic_of M nonce hdr d) = unat (MIC_LEN M)"
    and nonce: "ccm_star_packetbuf_set_nonce M False (pb f) = nonce" and lb: "length body = length d" "\<not> WITH_ENCRYPTION M \<Longrightarrow> body = d"
    and dec: "\<And>z. aead (encrypt (round_keys M)) nonce (if WITH_ENCRYPTION M then body else []) (of_nat (length (if WITH_ENCRYPTION M then body else [])))
        (auth_part M hdr body) (of_nat (length (auth_part M hdr body))) z (MIC_LEN M) False =
       Some (if WITH_ENCRYPTION M then d else [], mic_of M nonce hdr d @ drop (unat (MIC_LEN M)) z)"
    and ks: "keeps_seen M (nbrs r) ks seen" and cb: "callback_ok (removed M)"
  shows "\<exists>u n ks'. noncoresec_parse M frame0 r =
      Some (if tag' = mic_of M nonce hdr d \<and> fst (frame_accept M (num (pool (nbrs r))) (pb u) seen) then int (length hdr) else FRAMER_FAILED,
        r\<lparr>fs := u, nbrs := n\<rparr>) \<and>
    packet_is psize (pb u) ([], length hdr, d) \<and> packetbuf_attrs (pb u) = packetbuf_attrs (pb f) \<and>
    packetbuf_addrs (pb u) = packetbuf_addrs (pb f) \<and> num (pool n) = num (pool (nbrs r)) \<and>
    keeps_seen M n ks' (if tag' = mic_of M nonce hdr d then snd (frame_accept M (num (pool (nbrs r))) (pb u) seen) else seen)"
proof -
  define s where "s = packetbuf_set_datalen (packetbuf_datalen (pb f) - ucast (MIC_LEN M)) (pb f)"
  have u: "unat (bufptr (pb f)) = length hdr" "unat (buflen (pb f)) = length body + length tag'" "hdrlen (pb f) = 0"
      "length hdr + length body + length tag' \<le> psize"
      "holds (packetbuf (pb f)) (length hdr) body" "holds (packetbuf (pb f)) (length hdr + length body) tag'"
    using pk(1) by (simp_all add: packet_is_def unat_eq_0 holds_append)
  have "unat (ucast (MIC_LEN M) :: u16) = length tag'" 
    using tag(1) LLSEC802154_MIC_LEN_bounds [of "SEC_LVL M"] by (simp add: unsigned_ucast_eq take_bit_eq_mod)
  then have "unat (buflen s) = length body"
    using u(2) by (simp add: s_def packetbuf_set_datalen_def packetbuf_datalen_def unat_sub_if')
  then have ps: "packet_is psize s ([], length hdr, body)"
    using u by (simp add: packet_is_def) (simp add: s_def packetbuf_set_datalen_def)
  have as: "packetbuf s = packetbuf (pb f)" "packetbuf_attrs s = packetbuf_attrs (pb f)" "packetbuf_addrs s = packetbuf_addrs (pb f)"
    by (simp_all add: s_def packetbuf_set_datalen_def)
  have ns: "ccm_star_packetbuf_set_nonce M False s = nonce"
    using nonce by (simp add: ccm_star_packetbuf_set_nonce_def packetbuf_attr_def packetbuf_addr_def as)
  obtain t where a: "noncoresec_aead M (of_nat (length hdr)) False s = Some (tag' = mic_of M nonce hdr d, t)"
    "packet_is psize t ([], length hdr, d)" "packetbuf_attrs t = packetbuf_attrs s" "packetbuf_addrs t = packetbuf_addrs s"
    using aead_receives [OF ps pk(2) _ _ tag(1,2) ns lb dec] pk(3) u(6) unfolding as by blast
  have sa: "sender_addr c t = sender_addr c (pb f)" by (simp add: packetbuf_addr_def a(4) as)
  have ls: "length (sender_addr (framer M) t) = la M" using shape_addresses(1) [OF sh] sa by (simp add: c_def)
  obtain n ks' where cr: "check_replay M t (nbrs r) = Some (fst (frame_accept M (num (pool (nbrs r))) t seen), n)"
    "keeps_seen M n ks' (snd (frame_accept M (num (pool (nbrs r))) t seen))" "num (pool n) = num (pool (nbrs r))"
    using check_replay_spec [OF ks cb ls] by blast
  have nf: "int (length hdr) \<noteq> FRAMER_FAILED" by (simp add: FRAMER_FAILED_def)
  have run: "noncoresec_parse M frame0 r =
      (if tag' \<noteq> mic_of M nonce hdr d then Some (FRAMER_FAILED, r\<lparr>fs := f\<lparr>pb := t\<rparr>\<rparr>)
       else Some (if fst (frame_accept M (num (pool (nbrs r))) t seen) then int (length hdr) else FRAMER_FAILED, r\<lparr>fs := f\<lparr>pb := t\<rparr>, nbrs := n\<rparr>))"
    unfolding noncoresec_parse_def Let_def
    using nf p(1) lvl other a(1) cr(1) unfolding c_def s_def by simp
  show ?thesis
  proof (cases "tag' = mic_of M nonce hdr d")
    case True
    then show ?thesis using run a cr as by (intro exI [of _ "f\<lparr>pb := t\<rparr>"] exI [of _ n] exI [of _ ks']) simp
  next
    case False
    then show ?thesis using run a as ks by (intro exI [of _ "f\<lparr>pb := t\<rparr>"] exI [of _ "nbrs r"] exI [of _ ks]) simp
  qed
qed


text \<open>Nodes with the same build options, the same security level and the same key.\<close>

definition same_network :: "'u llsec \<Rightarrow> 'u llsec \<Rightarrow> bool" where
  "same_network L M \<longleftrightarrow> framer M = framer L \<and> SEC_LVL M = SEC_LVL L \<and> round_keys M = round_keys L"

lemma level_fits: "l \<noteq> 0 \<Longrightarrow> l < 8 \<Longrightarrow> ucast (l :: u8) \<noteq> (0 :: u16) \<and> ucast l < (8 :: u16)"
  by (auto simp: word_less_nat_alt unsigned_ucast_eq take_bit_eq_mod word_unat_eq_iff)

lemma prepared_sendable:
  assumes "framer_ok (framer L)" and "LLSEC802154_USES_AUX_HEADER (frame_conf (framer L))" and "SEC_LVL L < 8"
    and "sendable (framer L) (add_security_header L (pb (fs st)))" and "st1 = noncoresec_send L st"
  shows "sendable (framer L) (pb (fs st1))"
proof -
  let ?c = "framer L"
  have sh: "pb_shape ?c (pb (fs st))" using assms(4) by (simp add: sendable_def add_security_header_def)
  note s = send_prepares [OF assms(1,2) sh assms(5)]
  have "get_attr ?c a (pb (fs st1)) = get_attr ?c a (add_security_header L (pb (fs st)))" if "a \<in> common_attrs" for a
    using s(10) [of a] common_in [OF that] that by (auto simp: common_attrs_def sec_attrs_def split: if_splits)
  moreover have "get_attr ?c ATTR_KEY_ID_MODE (pb (fs st1)) = get_attr ?c ATTR_KEY_ID_MODE (add_security_header L (pb (fs st)))"
    if "LLSEC802154_USES_EXPLICIT_KEYS (frame_conf ?c)"
    using that by (intro s(10)) (simp add: attr_enum_def sec_attrs_def)
  moreover have "get_attr ?c ATTR_SECURITY_LEVEL (pb (fs st1)) < 8"
    using assms(3) unfolding s(8) by (simp add: word_less_nat_alt unsigned_ucast_eq take_bit_eq_mod)
  ultimately show ?thesis using assms(4) s(1) by (simp add: sendable_def common_attrs_def)
qed

text \<open>C7: A secured packet arrives. The driver's framer puts a header in front of the data,
  encrypts the data if the security level asks for it, appends an authentication code and uses a new
  frame counter. When these bytes reach another node of the network, whose table holds the counters
  \<open>seen\<close>, with whatever code \<open>tag'\<close> of the same length at their end, the
  node's framer restores the data, the sender and the counter, and for a frame to all nodes leaves
  the receiver's own packet attribute in place of the receiver. It accepts the frame exactly if the
  code is the one appended and \<open>accept\<close> holds: the sender is known and the counter is
  greater than the last one recorded for frames of this kind (to all nodes or to one), or the sender
  is new and the table has room for it. It then records the counter; a frame with another code
  changes no counter. The conditions: the build writes the auxiliary header, the level is not 0, the
  packet is sent in the node's own name, addresses have the length of the build, the PAN is not the
  broadcast PAN, and the packet with header and code fits into the packet buffer; the receiver is
  built for the same network (framer, level, key and PAN), has another address, uses the neighbour
  tables for nothing but these counters, and its build has no policy
  \<open>NBR_TABLE_FIND_REMOVABLE\<close>, which could remove senders although they are
  locked.\<close>

theorem secured_frame_arrives:
  fixes L :: "'u llsec" and st :: "'u ns"
  assumes "framer_ok (framer L)" and "LLSEC802154_USES_AUX_HEADER (frame_conf (framer L))" and "SEC_LVL L \<noteq> 0" and "SEC_LVL L < 8"
    and "sendable (framer L) (add_security_header L (pb (fs st)))" and "mac_pan_id (fs st) \<noteq> 0xffff"
    and "sender_addr (framer L) (pb (fs st)) = linkaddr_node_addr L"
    and "packet_is (PACKETBUF_SIZE (framer L)) (pb (fs st)) ([], 0, d)" and "length d + 37 + 16 \<le> PACKETBUF_SIZE (framer L)"
  shows "\<exists>hdr body tag t. noncoresec_create L rnd (noncoresec_send L st) = Some (int (length hdr), t) \<and>
    packet_is (PACKETBUF_SIZE (framer L)) (pb (fs t)) (hdr, 0, body @ tag) \<and> length body = length d \<and>
    length tag = unat (MIC_LEN L) \<and> (\<not> WITH_ENCRYPTION L \<longrightarrow> body = d) \<and> ns.counter t = ns.counter st + 1 \<and>
    (\<forall>M (r :: 'u ns) ks seen tag' frame0. same_network L M \<longrightarrow> \<not> linkaddr_cmp (la L) (linkaddr_node_addr L) (linkaddr_node_addr M) \<longrightarrow>
       keeps_seen M (nbrs r) ks seen \<longrightarrow> callback_ok (removed M) \<longrightarrow> pb_shape (framer L) (pb (fs r)) \<longrightarrow>
       packet_is (PACKETBUF_SIZE (framer L)) (pb (fs r)) ([], 0, hdr @ body @ tag') \<longrightarrow> length tag' = length tag \<longrightarrow>
       mac_pan_id (fs r) = mac_pan_id (fs st) \<longrightarrow> frame0_ok frame0 \<longrightarrow>
       (\<exists>u n ks'. let acc = accept (num (pool (nbrs r))) (linkaddr_node_addr L) (bcast L (pb u)) (ns.counter st + 1) seen in
          noncoresec_parse M frame0 r =
            Some (if tag' = tag \<and> fst acc then int (length hdr) else FRAMER_FAILED, r\<lparr>fs := u, nbrs := n\<rparr>) \<and>
          packet_is (PACKETBUF_SIZE (framer L)) (pb u) ([], length hdr, d) \<and>
          sender_addr (framer L) (pb u) = linkaddr_node_addr L \<and>
          receiver_addr (framer L) (pb u) = receiver_addr (framer L)
            (if reaches_all (framer L) (receiver_addr (framer L) (pb (fs st))) then pb (fs r) else pb (fs st)) \<and>
          anti_replay_get_counter (framer L) (pb u) = ns.counter st + 1 \<and>
          keeps_seen M n ks' (if tag' = tag then snd acc else seen)))"
proof -
  define c where "c = framer L"
  define psize where "psize = PACKETBUF_SIZE c"
  define st1 where "st1 = noncoresec_send L st"
  have sh: "pb_shape c (pb (fs st))" using assms(5) by (simp add: c_def sendable_def add_security_header_def)
  note s1 = send_prepares [OF assms(1,2) sh [unfolded c_def] st1_def, folded c_def]
  have se: "sendable c (pb (fs st1))" using prepared_sendable [OF assms(1,2,4,5) st1_def] by (simp add: c_def)
  have fo: "framer_ok c" and aux: "LLSEC802154_USES_AUX_HEADER (frame_conf c)" and sz: "psize \<le> 255" "length d + 37 + 16 \<le> psize"
    using assms(1,2,9) by (simp_all add: c_def psize_def framer_ok_def)
  have "mac_pan_id (fs st1) \<noteq> 0xffff" "packet_is (PACKETBUF_SIZE c) (pb (fs st1)) ([], 0, d)" "length d + 37 \<le> PACKETBUF_SIZE c"
    using assms(6,8,9) s1(4,5) by (simp_all add: c_def)
  from framer_transfers [OF fo se this, of rnd] obtain hdr f where f: "create c rnd (fs st1) = Some (int (length hdr), f)" "length hdr \<le> 37"
    "packet_is psize (pb f) (hdr, 0, d)" "created c (fs st1) f" and arrives: "\<And>q frame0 d'. packet_is psize (pb q) ([], 0, hdr @ d') \<Longrightarrow>
       pb_shape c (pb q) \<Longrightarrow> mac_pan_id q = mac_pan_id (fs st1) \<Longrightarrow> frame0_ok frame0 \<Longrightarrow>
       \<exists>u. parse c frame0 q = (int (length hdr), u) \<and> packet_is psize (pb u) ([], length hdr, d') \<and>
          sender_addr c (pb u) = sender_addr c (pb (fs st1)) \<and>
          receiver_addr c (pb u) = receiver_addr c (if reaches_all c (receiver_addr c (pb (fs st1))) then pb q else pb (fs st1)) \<and>
          (secured c (pb (fs st1)) \<longrightarrow> (\<forall>a \<in> sec_attrs c. get_attr c a (pb u) = get_attr c a (pb (fs st1)))) \<and>
          pb_shape c (pb u) \<and> packetbuf (pb u) = packetbuf (pb q)"
    unfolding psize_def by blast
  have lv: "secured c (pb (fs st1))" using aux s1(8) level_fits [OF assms(3,4)] by (simp add: secured_def)
  have sec: "ATTR_SECURITY_LEVEL \<in> sec_attrs c" "ATTR_FRAME_COUNTER_BYTES_0_1 \<in> sec_attrs c" "ATTR_FRAME_COUNTER_BYTES_2_3 \<in> sec_attrs c"
    using aux by (simp_all add: sec_attrs_def)
  have fa: "get_attr c a (pb f) = get_attr c a (pb (fs st1))" if "a \<in> sec_attrs c" for a
    using f(4) sec_in [OF fo that] that by (auto simp: created_def sec_attrs_def split: if_splits)
  define nonce where "nonce = ccm_star_packetbuf_set_nonce L True (pb f)"
  have nl: "length nonce = 13"
    unfolding nonce_def using fo assms(7) shape_addresses(1) [OF sh] by (intro nonce_length) (auto simp: framer_ok_def c_def)
  define tag where "tag = mic_of L nonce hdr d"
  have "length hdr + length d + 16 \<le> psize" "length d \<le> 238" using f(2) sz by linarith+
  from aead_sends [OF f(3) this(1) sz(1) this(2) nonce_def [symmetric] nl] obtain body t where
    t: "noncoresec_aead L (of_nat (length hdr)) True (pb f) = Some (True, t)" "length body = length d" "length tag = unat (MIC_LEN L)"
      "packet_is psize t (hdr, 0, body @ tag)" "\<not> WITH_ENCRYPTION L \<longrightarrow> body = d"
    and dec: "\<And>z. aead (encrypt (round_keys L)) nonce (if WITH_ENCRYPTION L then body else []) (of_nat (length (if WITH_ENCRYPTION L then body else [])))
        (auth_part L hdr body) (of_nat (length (auth_part L hdr body))) z (MIC_LEN L) False =
       Some (if WITH_ENCRYPTION L then d else [], tag @ drop (unat (MIC_LEN L)) z)"
    unfolding tag_def by blast
  have "int (length hdr) \<noteq> FRAMER_FAILED" by (simp add: FRAMER_FAILED_def)
  then have cr: "noncoresec_create L rnd st1 = Some (int (length hdr), st1\<lparr>fs := f\<lparr>pb := t\<rparr>\<rparr>)"
    using f(1) t(1) by (simp add: noncoresec_create_def c_def)
  have "\<exists>u n ks'. let acc = accept (num (pool (nbrs r))) (linkaddr_node_addr L) (bcast L (pb u)) (ns.counter st + 1) seen in
          noncoresec_parse M frame0 r =
            Some (if tag' = tag \<and> fst acc then int (length hdr) else FRAMER_FAILED, r\<lparr>fs := u, nbrs := n\<rparr>) \<and>
          packet_is psize (pb u) ([], length hdr, d) \<and> sender_addr c (pb u) = linkaddr_node_addr L \<and>
          receiver_addr c (pb u) = receiver_addr c (if reaches_all c (receiver_addr c (pb (fs st))) then pb (fs r) else pb (fs st)) \<and>
          anti_replay_get_counter c (pb u) = ns.counter st + 1 \<and> keeps_seen M n ks' (if tag' = tag then snd acc else seen)"
    if M: "same_network L M" "\<not> linkaddr_cmp (la L) (linkaddr_node_addr L) (linkaddr_node_addr M)"
      and ks: "keeps_seen M (nbrs r) ks seen" "callback_ok (removed M)" and r: "pb_shape c (pb (fs r))"
      "packet_is psize (pb (fs r)) ([], 0, hdr @ body @ tag')" "length tag' = length tag" "mac_pan_id (fs r) = mac_pan_id (fs st)" "frame0_ok frame0"
    for M and r :: "'u ns" and ks seen tag' frame0
  proof -
    have m: "framer M = c" "SEC_LVL M = SEC_LVL L" "round_keys M = round_keys L" using M(1) by (simp_all add: same_network_def c_def)
    have cl: "framer L = c" by (simp add: c_def)
    have pan: "mac_pan_id (fs r) = mac_pan_id (fs st1)" using r(4) s1(4) by simp
    obtain v where v: "parse c frame0 (fs r) = (int (length hdr), v)" "packet_is psize (pb v) ([], length hdr, body @ tag')"
      "sender_addr c (pb v) = linkaddr_node_addr L"
      "receiver_addr c (pb v) = receiver_addr c (if reaches_all c (receiver_addr c (pb (fs st))) then pb (fs r) else pb (fs st1))"
      "\<forall>a \<in> sec_attrs c. get_attr c a (pb v) = get_attr c a (pb (fs st1))" "pb_shape c (pb v)" "packetbuf (pb v) = packetbuf (pb (fs r))"
      using arrives [OF r(2,1) pan r(5)] lv s1(6,7) assms(7) unfolding c_def by auto
    have h: "holds (packetbuf (pb v)) 0 hdr" using r(2) unfolding v(7) by (simp add: packet_is_def holds_append)
    have nm: "ccm_star_packetbuf_set_nonce M False (pb v) = nonce"
      unfolding nonce_def using v(3,5) fa sec by (intro same_nonce) (simp_all add: m c_def)
    have mic: "mic_of M nonce hdr d = tag" by (simp add: tag_def mic_of_def auth_part_def m cl)
    have dm: "aead (encrypt (round_keys M)) nonce (if WITH_ENCRYPTION M then body else []) (of_nat (length (if WITH_ENCRYPTION M then body else [])))
        (auth_part M hdr body) (of_nat (length (auth_part M hdr body))) z (MIC_LEN M) False =
       Some (if WITH_ENCRYPTION M then d else [], mic_of M nonce hdr d @ drop (unat (MIC_LEN M)) z)" for z
      using dec [of z] unfolding mic m auth_part_def by simp
    have par: "parse (framer M) frame0 (fs r) = (int (length hdr), v)" "packet_is (PACKETBUF_SIZE (framer M)) (pb v) ([], length hdr, body @ tag')"
      "PACKETBUF_SIZE (framer M) \<le> 255" "get_attr (framer M) ATTR_SECURITY_LEVEL (pb v) = ucast (SEC_LVL M)" "pb_shape (framer M) (pb v)"
      "\<not> linkaddr_cmp (la M) (sender_addr (framer M) (pb v)) (linkaddr_node_addr M)" "length tag' = unat (MIC_LEN M)"
      "length (mic_of M nonce hdr d) = unat (MIC_LEN M)" "\<not> WITH_ENCRYPTION M \<Longrightarrow> body = d"
      using v sz M(2) r(3) t(3,5) mic s1(8) sec by (simp_all add: m cl psize_def)
    from parse_secured [OF par(1) f(2) par(2,3) h par(4-8) nm t(2) par(9) dm ks]
    obtain u n ks' where u: "noncoresec_parse M frame0 r =
      Some (if tag' = tag \<and> fst (frame_accept M (num (pool (nbrs r))) (pb u) seen) then int (length hdr) else FRAMER_FAILED, r\<lparr>fs := u, nbrs := n\<rparr>)"
      "packet_is psize (pb u) ([], length hdr, d)" "packetbuf_attrs (pb u) = packetbuf_attrs (pb v)" "packetbuf_addrs (pb u) = packetbuf_addrs (pb v)"
      "keeps_seen M n ks' (if tag' = tag then snd (frame_accept M (num (pool (nbrs r))) (pb u) seen) else seen)"
      unfolding mic m psize_def by metis
    have ra: "receiver_addr c (pb u) = receiver_addr c (pb v)" "sender_addr c (pb u) = linkaddr_node_addr L"
      using v(3) by (simp_all add: packetbuf_addr_def u(4))
    have "anti_replay_get_counter c (pb u) = anti_replay_get_counter c (pb (fs st1))"
      using v(5) sec by (simp add: anti_replay_get_counter_def packetbuf_attr_def u(3))
    then have cn: "anti_replay_get_counter c (pb u) = ns.counter st + 1" using s1(9) by simp
    have "keeps_seen M n ks' (if tag' = tag then snd (accept (num (pool (nbrs r))) (linkaddr_node_addr L) (bcast L (pb u)) (ns.counter st + 1) seen) else seen)"
      using u(5) by (simp only: m cl ra(2) cn)
    then show ?thesis
      using u(1,2) v(4) s1(7) ra cn unfolding m cl Let_def by (intro exI [of _ u] exI [of _ n] exI [of _ ks']) simp
  qed
  then show ?thesis
    using cr t f(2) s1(2) unfolding c_def psize_def st1_def
    by (intro exI [of _ hdr] exI [of _ body] exI [of _ tag] exI [of _ "noncoresec_send L st\<lparr>fs := f\<lparr>pb := t\<rparr>\<rparr>"]) simp
qed

section \<open>Examples\<close>

definition sample_framer :: framer_config where
  "sample_framer = example_framer\<lparr>frame_conf := (frame_conf example_framer)\<lparr>LLSEC802154_USES_AUX_HEADER := True\<rparr>,
     LLSEC802154_USES_FRAME_COUNTER := True\<rparr>"

definition sample_llsec :: "linkaddr_t \<Rightarrow> unit llsec" where
  "sample_llsec a = \<lparr>framer = sample_framer, SEC_LVL = 6, round_keys = [replicate 16 0], linkaddr_node_addr = a,
     anti_replay_table = 500, find_removable = None, removed = (\<lambda>f item s. s)\<rparr>"

definition sample_counters :: "unit nbr_store" where
  "sample_counters = sample_store\<lparr>tables := (\<lambda>_. \<lparr>tb_index = 0, item_size = 8, callback = NULL, tb_data = 1000\<rparr>)\<rparr>"

definition sample_packet :: "u8 list \<Rightarrow> u16 \<Rightarrow> linkaddr_t \<Rightarrow> linkaddr_t \<Rightarrow> packetbuf_state" where
  "sample_packet bs cnt a b = \<lparr>packetbuf = blit (\<lambda>_. 0) 0 bs, buflen = of_nat (length bs), bufptr = 0, hdrlen = 0,
     packetbuf_attrs = (replicate 18 0)[16 := cnt], packetbuf_addrs = [a, b]\<rparr>"

definition sample_ns :: "packetbuf_state \<Rightarrow> unit ns" where
  "sample_ns p = \<lparr>fs = \<lparr>pb = p, mac_dsn = 0, dsn_initialized = True, mac_pan_id = 0xabcd\<rparr>, nbrs = sample_counters, counter = 41\<rparr>"

lemma sample_conf [simp]:
  "framer (sample_llsec a) = sample_framer" "PACKETBUF_SIZE sample_framer = 128" "LINKADDR_SIZE (frame_conf sample_framer) = 2"
  "LLSEC802154_USES_AUX_HEADER (frame_conf sample_framer)" "\<not> LLSEC802154_USES_EXPLICIT_KEYS (frame_conf sample_framer)"
  "SEC_LVL (sample_llsec a) = 6" "round_keys (sample_llsec a) = [replicate 16 0]" "linkaddr_node_addr (sample_llsec a) = a"
  "removed (sample_llsec a) = (\<lambda>f item s. s)"
  by (simp_all add: sample_llsec_def sample_framer_def example_framer_def)

lemma sample_framer_ok: "framer_ok sample_framer"
  by (simp add: framer_ok_def) (simp add: sample_framer_def example_framer_def)

lemma sample_enum [simp]:
  "length (attr_enum sample_framer) = 18" "PACKETBUF_ADDR_SENDER sample_framer = 18" "PACKETBUF_ADDR_RECEIVER sample_framer = 19"
  "attr_no sample_framer ATTR_FRAME_TYPE = 14" "attr_no sample_framer ATTR_PENDING = 13" "attr_no sample_framer ATTR_MAC_ACK = 11"
  "attr_no sample_framer ATTR_SECURITY_LEVEL = 15" "attr_no sample_framer ATTR_FRAME_COUNTER_BYTES_0_1 = 16"
  "attr_no sample_framer ATTR_FRAME_COUNTER_BYTES_2_3 = 17"
  by (simp_all add: attr_no_def attr_enum_def sample_framer_def example_framer_def PACKETBUF_ADDR_SENDER_def PACKETBUF_ADDR_RECEIVER_def)

lemma sample_shape: "pb_shape sample_framer (sample_packet bs cnt [x, y] [z, w])"
  by (simp add: pb_shape_def) (simp add: sample_packet_def)

lemma sample_holds: "length bs \<le> 128 \<Longrightarrow> packet_is 128 (sample_packet bs cnt a b) ([], 0, bs)"
  by (simp add: packet_is_def sample_packet_def holds_def blit_def unat_of_nat)

lemma sample_addr: "sender_addr sample_framer (sample_packet bs cnt a b) = a" "receiver_addr sample_framer (sample_packet bs cnt a b) = b"
  by (simp_all add: packetbuf_addr_def) (simp_all add: sample_packet_def)

lemma sample_addr_no: "packetbuf_addr 18 18 (sample_packet bs cnt a b) = a"
  using sample_addr(1) by simp

lemma sample_num: "num (pool sample_counters) = 2"
  by (simp add: sample_counters_def sample_store_def nbr_table_register_def)

lemma sample_seen: "keeps_seen (sample_llsec a) sample_counters [] (\<lambda>_. None)"
proof -
  have "used (pool sample_counters) = {}"
    by (auto simp: used_def sample_counters_def sample_store_def nbr_table_register_def nth_Cons' split: if_splits)
  moreover have "\<forall>i < 2. [0, 0 :: u8] ! i = 0" by (simp add: nth_Cons')
  ultimately have "nbr_inv 2 sample_counters [] {}"
    by (simp add: nbr_inv_def sample_counters_def sample_store_def nbr_table_register_def is_list_def memb_ok_def)
  moreover have "rtable_ok (sample_llsec a) sample_counters"
    by (simp add: rtable_ok_def sample_llsec_def sample_counters_def table_ok_def)
  ultimately show ?thesis by (simp add: keeps_seen_def)
qed

theorem no_frame_accepted_twice_witness:
  "\<exists>ok t. check_run (sample_llsec [3, 4]) [sample_packet [] 7 [1, 2] [3, 4], sample_packet [] 7 [1, 2] [3, 4]] sample_counters = Some (ok, t) \<and>
     length ok = 2 \<and> (\<not> ok ! 0 \<or> \<not> ok ! 1)"
proof -
  let ?p = "sample_packet [] 7 [1, 2] [3, 4]"
  have "\<forall>p \<in> set [?p, ?p]. length (sender_addr (framer (sample_llsec [3, 4])) p) = la (sample_llsec [3, 4])" by (simp add: sample_addr_no)
  moreover have "callback_ok (removed (sample_llsec [3, 4]))" using idle_callback by simp
  ultimately obtain ok t where t: "check_run (sample_llsec [3, 4]) [?p, ?p] sample_counters = Some (ok, t)" "length ok = length [?p, ?p]"
    and n: "\<And>i j. i < j \<Longrightarrow> j < length [?p, ?p] \<Longrightarrow> ok ! i \<Longrightarrow> ok ! j \<Longrightarrow> frame_sender (sample_llsec [3, 4]) ([?p, ?p] ! i) = frame_sender (sample_llsec [3, 4]) ([?p, ?p] ! j) \<Longrightarrow>
       bcast (sample_llsec [3, 4]) ([?p, ?p] ! i) = bcast (sample_llsec [3, 4]) ([?p, ?p] ! j) \<Longrightarrow>
       frame_counter_of (sample_llsec [3, 4]) ([?p, ?p] ! i) < frame_counter_of (sample_llsec [3, 4]) ([?p, ?p] ! j)"
    using no_frame_accepted_twice [OF sample_seen, of "[3, 4]" "[?p, ?p]"] by blast
  from n [of 0 1] t show ?thesis by auto
qed

theorem secured_frame_arrives_witness:
  "\<exists>hdr body tag t u n. noncoresec_create (sample_llsec [1, 2]) 0 (noncoresec_send (sample_llsec [1, 2])
       (sample_ns (sample_packet [10, 20, 30] 0 [1, 2] [3, 4]))) = Some (int (length hdr), t) \<and>
     packet_is 128 (pb (fs t)) (hdr, 0, body @ tag) \<and>
     noncoresec_parse (sample_llsec [3, 4]) zero_frame (sample_ns (sample_packet (hdr @ body @ tag) 0 [0, 0] [0, 0])) =
       Some (int (length hdr), sample_ns (sample_packet (hdr @ body @ tag) 0 [0, 0] [0, 0])\<lparr>fs := u, nbrs := n\<rparr>) \<and>
     packet_is 128 (pb u) ([], length hdr, [10, 20, 30]) \<and> sender_addr sample_framer (pb u) = [1, 2]"
proof -
  let ?L = "sample_llsec [1, 2]" and ?M = "sample_llsec [3, 4]" and ?s = "sample_ns (sample_packet [10, 20, 30] 0 [1, 2] [3, 4])"
  have pbs: "pb (fs (sample_ns p)) = p" "nbrs (sample_ns p) = sample_counters" "mac_pan_id (fs (sample_ns p)) = 0xabcd" for p
    by (simp_all add: sample_ns_def)
  have sd: "sendable (framer ?L) (add_security_header ?L (pb (fs ?s)))"
    unfolding pbs by (simp add: sendable_def add_security_header_def sample_shape)
      (simp add: packetbuf_attr_def packetbuf_set_attr_def sample_packet_def word_less_nat_alt)
  have hold: "packet_is (PACKETBUF_SIZE (framer ?L)) (pb (fs ?s)) ([], 0, [10, 20, 30])" unfolding pbs by (simp add: sample_holds)
  have pre: "framer_ok (framer ?L)" "LLSEC802154_USES_AUX_HEADER (frame_conf (framer ?L))" "SEC_LVL ?L \<noteq> 0" "SEC_LVL ?L < 8"
    "mac_pan_id (fs ?s) \<noteq> 0xffff" "sender_addr (framer ?L) (pb (fs ?s)) = linkaddr_node_addr ?L"
    "length [10, 20, 30 :: u8] + 37 + 16 \<le> PACKETBUF_SIZE (framer ?L)"
    by (simp_all add: sample_framer_ok pbs sample_addr_no)
  have z: "frame0_ok zero_frame" by (simp add: frame0_ok_def zero_frame_def)
  have sn: "same_network ?L ?M" by (simp add: same_network_def)
  have ne: "\<not> linkaddr_cmp (la ?L) (linkaddr_node_addr ?L) (linkaddr_node_addr ?M)" by (simp add: linkaddr_cmp_def)
  have cb: "callback_ok (removed ?M)" using idle_callback by simp
  obtain hdr body tag t where
    t: "noncoresec_create ?L 0 (noncoresec_send ?L ?s) = Some (int (length hdr), t)"
      "packet_is (PACKETBUF_SIZE (framer ?L)) (pb (fs t)) (hdr, 0, body @ tag)"
    and r: "\<forall>M (r :: unit ns) ks seen tag' frame0. same_network ?L M \<longrightarrow> \<not> linkaddr_cmp (la ?L) (linkaddr_node_addr ?L) (linkaddr_node_addr M) \<longrightarrow>
       keeps_seen M (nbrs r) ks seen \<longrightarrow> callback_ok (removed M) \<longrightarrow> pb_shape (framer ?L) (pb (fs r)) \<longrightarrow>
       packet_is (PACKETBUF_SIZE (framer ?L)) (pb (fs r)) ([], 0, hdr @ body @ tag') \<longrightarrow> length tag' = length tag \<longrightarrow>
       mac_pan_id (fs r) = mac_pan_id (fs ?s) \<longrightarrow> frame0_ok frame0 \<longrightarrow>
       (\<exists>u n ks'. let acc = accept (num (pool (nbrs r))) (linkaddr_node_addr ?L) (bcast ?L (pb u)) (ns.counter ?s + 1) seen in
          noncoresec_parse M frame0 r =
            Some (if tag' = tag \<and> fst acc then int (length hdr) else FRAMER_FAILED, r\<lparr>fs := u, nbrs := n\<rparr>) \<and>
          packet_is (PACKETBUF_SIZE (framer ?L)) (pb u) ([], length hdr, [10, 20, 30]) \<and>
          sender_addr (framer ?L) (pb u) = linkaddr_node_addr ?L \<and>
          receiver_addr (framer ?L) (pb u) = receiver_addr (framer ?L)
            (if reaches_all (framer ?L) (receiver_addr (framer ?L) (pb (fs ?s))) then pb (fs r) else pb (fs ?s)) \<and>
          anti_replay_get_counter (framer ?L) (pb u) = ns.counter ?s + 1 \<and>
          keeps_seen M n ks' (if tag' = tag then snd acc else seen))"
    using secured_frame_arrives [OF pre(1-4) sd pre(5,6) hold pre(7), of 0] by (elim exE conjE) (rule that)
  let ?r = "sample_ns (sample_packet (hdr @ body @ tag) 0 [0, 0] [0, 0])"
  have "length (hdr @ body @ tag) \<le> 128" using t(2) by (simp add: packet_is_def)
  then have pk: "packet_is (PACKETBUF_SIZE (framer ?L)) (pb (fs ?r)) ([], 0, hdr @ body @ tag)" unfolding pbs by (simp add: sample_holds)
  have at: "keeps_seen ?M (nbrs ?r) [] (\<lambda>_. None)" "pb_shape (framer ?L) (pb (fs ?r))" "mac_pan_id (fs ?r) = mac_pan_id (fs ?s)"
    unfolding pbs by (simp_all add: sample_seen sample_shape)
  have new: "fst (accept (num (pool (nbrs ?r))) a b w (\<lambda>_. None))" for a b w by (simp add: accept_def pbs sample_num)
  from r [rule_format, OF sn ne at(1) cb at(2) pk refl at(3) z] obtain u n where
    u: "noncoresec_parse ?M zero_frame ?r = Some (int (length hdr), ?r\<lparr>fs := u, nbrs := n\<rparr>)"
    "packet_is (PACKETBUF_SIZE (framer ?L)) (pb u) ([], length hdr, [10, 20, 30])" "sender_addr (framer ?L) (pb u) = linkaddr_node_addr ?L"
    unfolding Let_def using new by (elim exE conjE) simp
  have "packet_is 128 (pb (fs t)) (hdr, 0, body @ tag)" "packet_is 128 (pb u) ([], length hdr, [10, 20, 30])"
    "sender_addr sample_framer (pb u) = [1, 2]"
    using t(2) u(2,3) by simp_all
  then show ?thesis using t(1) u(1) by blast
qed

section \<open>Frames that are too short\<close>

lemma short_length_wraps:
  fixes tot dat :: u16 and h mic :: u8
  assumes "unat dat < unat mic" and "unat mic < 16 + unat dat"
  shows "240 < unat (ucast (ucast h + (dat - ucast mic)) - h)"
proof -
  have b: "unat h < 256" "unat mic < 256" using unsigned_less [of h, where 'a = nat] unsigned_less [of mic, where 'a = nat] by simp_all
  define x where "x = 256 + unat dat - unat mic"
  have x: "240 < x" "x < 256" "65536 + unat dat - unat mic = x + 255 * 256" using assms by (simp_all add: x_def)
  have s: "unat (dat - ucast mic) = x + 255 * 256"
    unfolding x(3) [symmetric] using assms(1) b by (simp add: unat_sub_if' unsigned_ucast_eq take_bit_eq_mod)
  have "unat (ucast h + (dat - ucast mic)) = (unat h + (x + 255 * 256)) mod 65536"
    unfolding unat_word_ariths s using b by (simp add: unsigned_ucast_eq take_bit_eq_mod)
  then have "unat (ucast (ucast h + (dat - ucast mic)) :: u8) = ((unat h + (x + 255 * 256)) mod 65536) mod 256"
    by (simp add: unsigned_ucast_eq take_bit_eq_mod)
  also have "\<dots> = ((unat h + x) + 255 * 256) mod 256" by (simp add: mod_mod_cancel add.assoc)
  also have "\<dots> = (unat h + x) mod 256" by (rule mod_mult_self1)
  finally have u: "unat (ucast (ucast h + (dat - ucast mic)) :: u8) = (if unat h + x < 256 then unat h + x else unat h + x - 256)"
    using x(2) b(1) by (simp add: mod_if)
  show ?thesis unfolding unat_sub_if' u using x b by (cases "unat h + x < 256") simp_all
qed

lemma short_frame_diverges:
  assumes "packet_is psize s ([], length hdr, rest)" and "psize \<le> 255" and "length hdr \<le> 37" and "WITH_ENCRYPTION L"
    and "length rest < unat (MIC_LEN L)" and "unat (MIC_LEN L) < 16 + length rest"
  shows "noncoresec_aead L (of_nat (length hdr)) False (packetbuf_set_datalen (packetbuf_datalen s - ucast (MIC_LEN L)) s) = None"
proof -
  have u: "unat (buflen s) = length rest" "hdrlen s = 0" "unat (bufptr s) = length hdr" using assms(1) by (simp_all add: packet_is_def unat_eq_0)
  have h: "packetbuf_hdrlen s = of_nat (length hdr)"
    using unat_hdrlen(1) [OF assms(1,2)] assms(3) by (simp add: word_unat_eq_iff unat_of_nat)
  let ?s = "packetbuf_set_datalen (packetbuf_datalen s - ucast (MIC_LEN L)) s"
  have "packetbuf_totlen ?s = ucast (of_nat (length hdr) :: u8) + (buflen s - ucast (MIC_LEN L))"
    using h by (simp add: packetbuf_totlen_def packetbuf_datalen_def packetbuf_hdrlen_def packetbuf_set_datalen_def)
  then have "240 < unat (ucast (packetbuf_totlen ?s) - of_nat (length hdr) :: u8)"
    using short_length_wraps [of "buflen s" "MIC_LEN L" "of_nat (length hdr)"] assms(5,6) u(1) by simp
  then show ?thesis
    using assms(4) by (simp add: noncoresec_aead_def Let_def long_input_diverges(2))
qed

text \<open>C37: A frame that ends before its authentication code is complete stops a node that decrypts. Nobody
  needs the key for it: when such a frame arrives with the right security level from the address of
  another node, \<open>parse\<close> takes the length of the code off that of the data without a
  test, the length of the message wraps around to more than 240 bytes, and the decryption never
  returns. The build is one whose security level encrypts, with a code that is less than 16 bytes
  longer than what follows the header of the frame; a code of 16 bytes and a frame that is only a
  header make the length 240, for which the decryption ends.\<close>

theorem short_frame_stops_receiver:
  fixes L :: "'u llsec" and st :: "'u ns"
  assumes "framer_ok (framer L)" and "LLSEC802154_USES_AUX_HEADER (frame_conf (framer L))" and "SEC_LVL L < 8" and "WITH_ENCRYPTION L"
    and "sendable (framer L) (add_security_header L (pb (fs st)))" and "mac_pan_id (fs st) \<noteq> 0xffff"
    and "packet_is (PACKETBUF_SIZE (framer L)) (pb (fs st)) ([], 0, d)" and "length d + 37 \<le> PACKETBUF_SIZE (framer L)"
  shows "\<exists>hdr t. create (framer L) rnd (fs (noncoresec_send L st)) = Some (int (length hdr), t) \<and> length hdr \<le> 37 \<and>
    (\<forall>M (r :: 'u ns) rest frame0. framer M = framer L \<longrightarrow> SEC_LVL M = SEC_LVL L \<longrightarrow>
       \<not> linkaddr_cmp (la L) (sender_addr (framer L) (pb (fs st))) (linkaddr_node_addr M) \<longrightarrow>
       pb_shape (framer L) (pb (fs r)) \<longrightarrow> packet_is (PACKETBUF_SIZE (framer L)) (pb (fs r)) ([], 0, hdr @ rest) \<longrightarrow>
       length rest < unat (MIC_LEN L) \<longrightarrow> unat (MIC_LEN L) < 16 + length rest \<longrightarrow>
       mac_pan_id (fs r) = mac_pan_id (fs st) \<longrightarrow> frame0_ok frame0 \<longrightarrow> noncoresec_parse M frame0 r = None)"
proof -
  define c where "c = framer L"
  define st1 where "st1 = noncoresec_send L st"
  have sh: "pb_shape c (pb (fs st))" using assms(5) by (simp add: c_def sendable_def add_security_header_def)
  note s1 = send_prepares [OF assms(1,2) sh [unfolded c_def] st1_def, folded c_def]
  have se: "sendable c (pb (fs st1))" using prepared_sendable [OF assms(1,2,3,5) st1_def] by (simp add: c_def)
  have nz: "SEC_LVL L \<noteq> 0" using assms(4) by auto
  have fo: "framer_ok c" and aux: "LLSEC802154_USES_AUX_HEADER (frame_conf c)" and sz: "PACKETBUF_SIZE c \<le> 255"
    using assms(1,2) by (simp_all add: c_def framer_ok_def)
  have lv: "secured c (pb (fs st1))" using aux s1(8) level_fits [OF nz assms(3)] by (simp add: secured_def)
  have "mac_pan_id (fs st1) \<noteq> 0xffff" "packet_is (PACKETBUF_SIZE c) (pb (fs st1)) ([], 0, d)" "length d + 37 \<le> PACKETBUF_SIZE c"
    using assms(6,7,8) s1(4,5) by (simp_all add: c_def)
  from framer_transfers [OF fo se this, of rnd] obtain hdr f where f: "create c rnd (fs st1) = Some (int (length hdr), f)" "length hdr \<le> 37"
    and arrives: "\<And>q frame0 d'. packet_is (PACKETBUF_SIZE c) (pb q) ([], 0, hdr @ d') \<Longrightarrow>
       pb_shape c (pb q) \<Longrightarrow> mac_pan_id q = mac_pan_id (fs st1) \<Longrightarrow> frame0_ok frame0 \<Longrightarrow>
       \<exists>u. parse c frame0 q = (int (length hdr), u) \<and> packet_is (PACKETBUF_SIZE c) (pb u) ([], length hdr, d') \<and>
          sender_addr c (pb u) = sender_addr c (pb (fs st1)) \<and>
          (secured c (pb (fs st1)) \<longrightarrow> (\<forall>a \<in> sec_attrs c. get_attr c a (pb u) = get_attr c a (pb (fs st1))))"
    by blast
  have "noncoresec_parse M frame0 r = None"
    if M: "framer M = framer L" "SEC_LVL M = SEC_LVL L" "\<not> linkaddr_cmp (la L) (sender_addr (framer L) (pb (fs st))) (linkaddr_node_addr M)"
      and r: "pb_shape (framer L) (pb (fs r))" "packet_is (PACKETBUF_SIZE (framer L)) (pb (fs r)) ([], 0, hdr @ rest)"
      "length rest < unat (MIC_LEN L)" "unat (MIC_LEN L) < 16 + length rest" "mac_pan_id (fs r) = mac_pan_id (fs st)" "frame0_ok frame0"
    for M and r :: "'u ns" and rest frame0
  proof -
    obtain v where v: "parse c frame0 (fs r) = (int (length hdr), v)" "packet_is (PACKETBUF_SIZE c) (pb v) ([], length hdr, rest)"
      "sender_addr c (pb v) = sender_addr c (pb (fs st))" "get_attr c ATTR_SECURITY_LEVEL (pb v) = ucast (SEC_LVL L)"
      using arrives [of "fs r" rest frame0] r lv s1(4,6,8) aux by (auto simp: c_def sec_attrs_def)
    have "int (length hdr) \<noteq> FRAMER_FAILED" by (simp add: FRAMER_FAILED_def)
    moreover have "noncoresec_aead M (of_nat (length hdr)) False (packetbuf_set_datalen (packetbuf_datalen (pb v) - ucast (MIC_LEN M)) (pb v)) = None"
      using r(3,4) assms(4) M(2) by (intro short_frame_diverges [OF v(2) sz f(2)]) simp_all
    ultimately show ?thesis
      using v(1,3,4) M unfolding noncoresec_parse_def Let_def c_def by simp
  qed
  then show ?thesis using f unfolding c_def st1_def by blast
qed

theorem short_frame_stops_receiver_witness:
  "\<exists>hdr t. create sample_framer 0 (fs (noncoresec_send (sample_llsec [1, 2]) (sample_ns (sample_packet [10] 0 [1, 2] [3, 4])))) = Some (int (length hdr), t) \<and>
     noncoresec_parse (sample_llsec [3, 4]) zero_frame (sample_ns (sample_packet (hdr @ [10]) 0 [0, 0] [0, 0])) = None"
proof -
  let ?L = "sample_llsec [1, 2]" and ?M = "sample_llsec [3, 4]" and ?s = "sample_ns (sample_packet [10] 0 [1, 2] [3, 4])"
  have pbs: "pb (fs (sample_ns p)) = p" "mac_pan_id (fs (sample_ns p)) = 0xabcd" for p
    by (simp_all add: sample_ns_def)
  have sd: "sendable (framer ?L) (add_security_header ?L (pb (fs ?s)))"
    unfolding pbs by (simp add: sendable_def add_security_header_def sample_shape)
      (simp add: packetbuf_attr_def packetbuf_set_attr_def sample_packet_def word_less_nat_alt)
  have hold: "packet_is (PACKETBUF_SIZE (framer ?L)) (pb (fs ?s)) ([], 0, [10])" unfolding pbs by (simp add: sample_holds)
  have pre: "framer_ok (framer ?L)" "LLSEC802154_USES_AUX_HEADER (frame_conf (framer ?L))" "SEC_LVL ?L < 8" "WITH_ENCRYPTION ?L"
    "mac_pan_id (fs ?s) \<noteq> 0xffff" "length [10 :: u8] + 37 \<le> PACKETBUF_SIZE (framer ?L)"
    by (simp_all add: sample_framer_ok pbs)
  from short_frame_stops_receiver [OF pre(1-4) sd pre(5) hold pre(6), of 0] obtain hdr t where
    t: "create (framer ?L) 0 (fs (noncoresec_send ?L ?s)) = Some (int (length hdr), t)" "length hdr \<le> 37"
    and r: "\<forall>M (r :: unit ns) rest frame0. framer M = framer ?L \<longrightarrow> SEC_LVL M = SEC_LVL ?L \<longrightarrow>
       \<not> linkaddr_cmp (la ?L) (sender_addr (framer ?L) (pb (fs ?s))) (linkaddr_node_addr M) \<longrightarrow>
       pb_shape (framer ?L) (pb (fs r)) \<longrightarrow> packet_is (PACKETBUF_SIZE (framer ?L)) (pb (fs r)) ([], 0, hdr @ rest) \<longrightarrow>
       length rest < unat (MIC_LEN ?L) \<longrightarrow> unat (MIC_LEN ?L) < 16 + length rest \<longrightarrow>
       mac_pan_id (fs r) = mac_pan_id (fs ?s) \<longrightarrow> frame0_ok frame0 \<longrightarrow> noncoresec_parse M frame0 r = None"
    by (elim exE conjE) (rule that)
  let ?r = "sample_ns (sample_packet (hdr @ [10]) 0 [0, 0] [0, 0])"
  have "length (hdr @ [10]) \<le> 128" using t(2) by simp
  then have pk: "packet_is (PACKETBUF_SIZE (framer ?L)) (pb (fs ?r)) ([], 0, hdr @ [10])" unfolding pbs by (simp add: sample_holds)
  have ne: "\<not> linkaddr_cmp (la ?L) (sender_addr (framer ?L) (pb (fs ?s))) (linkaddr_node_addr ?M)"
    unfolding pbs by (simp add: sample_addr_no linkaddr_cmp_def)
  have at: "framer ?M = framer ?L" "SEC_LVL ?M = SEC_LVL ?L" "pb_shape (framer ?L) (pb (fs ?r))" "mac_pan_id (fs ?r) = mac_pan_id (fs ?s)"
    unfolding pbs by (simp_all add: sample_shape)
  have ml: "length [10 :: u8] < unat (MIC_LEN ?L)" "unat (MIC_LEN ?L) < 16 + length [10 :: u8]"
    by (simp_all add: LLSEC802154_MIC_LEN_def)
  have z: "frame0_ok zero_frame" by (simp add: frame0_ok_def zero_frame_def)
  from r [rule_format, OF at(1,2) ne at(3) pk ml at(4) z] t(1) show ?thesis by auto
qed

end
