(* ===== verification/Queuebuf.thy ===== *)
theory Queuebuf
  imports Packetbuf Memb
begin

text \<open>
  Queue buffers, \<open>core/net/queuebuf.c\<close>: copies of the packet buffer that wait to be sent. A queue buffer
  is a block of one pool that points to the copy, a block of another (Memb). Swapping to a file system
  (\<open>WITH_SWAP\<close>), statistics and debugging are off, as they are by default. \<open>PACKETBUF_SIZE\<close> and
  \<open>LINKADDR_SIZE\<close> are the arguments \<open>psize\<close> and \<open>la\<close>.
\<close>

section \<open>The code\<close>

record queuebuf_data =
  qd_data :: Linkaddr.mem
  qd_len :: u16
  qd_attrs :: "packetbuf_attr_t list"
  qd_addrs :: "linkaddr_t list"

record queuebufs =
  bufmem :: memb
  buframmem :: memb
  ram_ptr :: "ptr \<Rightarrow> ptr"
  qb_data :: "ptr \<Rightarrow> queuebuf_data"

definition queuebuf_load_to_ram :: "ptr \<Rightarrow> queuebufs \<Rightarrow> ptr" where
  "queuebuf_load_to_ram b q = ram_ptr q b"

definition queuebuf_init :: "queuebufs \<Rightarrow> queuebufs" where
  "queuebuf_init q = q\<lparr>buframmem := memb_init (buframmem q), bufmem := memb_init (bufmem q)\<rparr>"

definition queuebuf_numfree :: "queuebufs \<Rightarrow> nat" where
  "queuebuf_numfree q = memb_numfree (bufmem q)"

definition copy_attrs :: "ptr \<Rightarrow> packetbuf_state \<Rightarrow> queuebufs \<Rightarrow> queuebufs" where
  "copy_attrs p pb q = (case packetbuf_attr_copyto pb of (attrs, addrs) \<Rightarrow>
     q\<lparr>qb_data := (qb_data q)(p := (qb_data q p)\<lparr>qd_attrs := attrs, qd_addrs := addrs\<rparr>)\<rparr>)"

definition copy_data :: "nat \<Rightarrow> ptr \<Rightarrow> packetbuf_state \<Rightarrow> queuebufs \<Rightarrow> queuebufs" where
  "copy_data psize p pb q = (case packetbuf_copyto psize pb of (len, bs) \<Rightarrow>
     q\<lparr>qb_data := (qb_data q)(p := (qb_data q p)\<lparr>qd_data := blit (qd_data (qb_data q p)) 0 bs, qd_len := len\<rparr>)\<rparr>)"

definition queuebuf_new_from_packetbuf :: "nat \<Rightarrow> packetbuf_state \<Rightarrow> queuebufs \<Rightarrow> ptr \<times> queuebufs" where
  "queuebuf_new_from_packetbuf psize pb q =
     (let (buf, m) = memb_alloc (bufmem q); q = q\<lparr>bufmem := m\<rparr>
      in if buf \<noteq> NULL then
           let (p, r) = memb_alloc (buframmem q);
               q = q\<lparr>buframmem := r, ram_ptr := (ram_ptr q)(buf := p)\<rparr>
           in if p = NULL then (NULL, q\<lparr>bufmem := snd (memb_free (bufmem q) buf)\<rparr>)
              else (buf, copy_attrs p pb (copy_data psize p pb q))
         else (buf, q))"

definition queuebuf_update_attr_from_packetbuf :: "ptr \<Rightarrow> packetbuf_state \<Rightarrow> queuebufs \<Rightarrow> queuebufs" where
  "queuebuf_update_attr_from_packetbuf buf pb q = copy_attrs (queuebuf_load_to_ram buf q) pb q"

definition queuebuf_update_from_packetbuf :: "nat \<Rightarrow> ptr \<Rightarrow> packetbuf_state \<Rightarrow> queuebufs \<Rightarrow> queuebufs" where
  "queuebuf_update_from_packetbuf psize buf pb q =
     (let p = queuebuf_load_to_ram buf q in copy_data psize p pb (copy_attrs p pb q))"

definition queuebuf_free :: "ptr \<Rightarrow> queuebufs \<Rightarrow> queuebufs" where
  "queuebuf_free buf q =
     (if memb_inmemb (bufmem q) buf then
        let q = q\<lparr>buframmem := snd (memb_free (buframmem q) (ram_ptr q buf))\<rparr>
        in q\<lparr>bufmem := snd (memb_free (bufmem q) buf)\<rparr>
      else q)"

definition queuebuf_to_packetbuf :: "nat \<Rightarrow> nat \<Rightarrow> ptr \<Rightarrow> queuebufs \<Rightarrow> packetbuf_state \<Rightarrow> packetbuf_state" where
  "queuebuf_to_packetbuf psize la b q pb =
     (if memb_inmemb (bufmem q) b then
        let d = qb_data q (queuebuf_load_to_ram b q);
            pb = snd (packetbuf_copyfrom psize la (map (qd_data d) [0..<psize]) (qd_len d) pb)
        in packetbuf_attr_copyfrom (qd_attrs d) (qd_addrs d) pb
      else pb)"

definition queuebuf_dataptr :: "ptr \<Rightarrow> queuebufs \<Rightarrow> ptr" where
  "queuebuf_dataptr b q = (if memb_inmemb (bufmem q) b then queuebuf_load_to_ram b q else NULL)"

definition queuebuf_datalen :: "ptr \<Rightarrow> queuebufs \<Rightarrow> u16" where
  "queuebuf_datalen b q = qd_len (qb_data q (queuebuf_load_to_ram b q))"

definition queuebuf_addr :: "nat \<Rightarrow> ptr \<Rightarrow> nat \<Rightarrow> queuebufs \<Rightarrow> linkaddr_t" where
  "queuebuf_addr first b type q = qd_addrs (qb_data q (queuebuf_load_to_ram b q)) ! (type - first)"

definition queuebuf_attr :: "ptr \<Rightarrow> nat \<Rightarrow> queuebufs \<Rightarrow> packetbuf_attr_t" where
  "queuebuf_attr b type q = qd_attrs (qb_data q (queuebuf_load_to_ram b q)) ! type"

section \<open>What a queue buffer holds\<close>

text \<open>The bytes, attributes and addresses of a packet.\<close>

type_synonym packet = "u8 list \<times> packetbuf_attr_t list \<times> linkaddr_t list"

definition packet_fits :: "nat \<Rightarrow> packetbuf_state \<Rightarrow> bool" where
  "packet_fits psize pb \<longleftrightarrow> unat (hdrlen pb) + unat (bufptr pb) + unat (buflen pb) \<le> psize"

definition saved :: "nat \<Rightarrow> packetbuf_state \<Rightarrow> packet" where
  "saved psize pb = (snd (packetbuf_copyto psize pb), packetbuf_attrs pb, packetbuf_addrs pb)"

lemma packet_fits_is:
  assumes "packet_fits psize pb" and "psize \<le> 255"
  obtains h g d where "packet_is psize pb (h, g, d)" "saved psize pb = (h @ d, packetbuf_attrs pb, packetbuf_addrs pb)"
proof -
  let ?h = "map (packetbuf pb) [0..<unat (hdrlen pb)]" and ?g = "unat (bufptr pb)"
  let ?d = "map (packetbuf pb) [unat (hdrlen pb) + ?g..<unat (hdrlen pb) + ?g + unat (buflen pb)]"
  have "packet_is psize pb (?h, ?g, ?d)" using assms(1) by (simp add: packet_is_def packet_fits_def holds_def)
  moreover from copyto_packet [OF assms(2) this] have "snd (packetbuf_copyto psize pb) = ?h @ ?d" by simp
  ultimately show ?thesis by (intro that [of ?h ?g ?d]) (simp_all add: saved_def)
qed

definition holds_packet :: "queuebuf_data \<Rightarrow> packet \<Rightarrow> bool" where
  "holds_packet d = (\<lambda>(bs, attrs, addrs). unat (qd_len d) = length bs \<and> holds (qd_data d) 0 bs \<and>
     qd_attrs d = attrs \<and> qd_addrs d = addrs)"

lemma copies_hold:
  assumes "packet_fits psize pb" and "psize \<le> 255"
  shows "holds_packet (qb_data (copy_attrs p pb (copy_data psize p pb q)) p) (saved psize pb)"
    and "holds_packet (qb_data (copy_data psize p pb (copy_attrs p pb q)) p) (saved psize pb)"
proof -
  obtain h g d where p: "packet_is psize pb (h, g, d)" "saved psize pb = (h @ d, packetbuf_attrs pb, packetbuf_addrs pb)"
    using assms by (rule packet_fits_is)
  have "length h + length d \<le> psize" using p(1) by (simp add: packet_is_def)
  then have "unat (of_nat (length h + length d) :: u16) = length h + length d"
    using assms(2) by (intro unat_of_nat16) simp
  then show "holds_packet (qb_data (copy_attrs p pb (copy_data psize p pb q)) p) (saved psize pb)"
    "holds_packet (qb_data (copy_data psize p pb (copy_attrs p pb q)) p) (saved psize pb)"
    using copyto_packet [OF assms(2) p(1)]
    by (simp_all add: copy_attrs_def copy_data_def p(2) holds_packet_def packetbuf_attr_copyto_def del: of_nat_add)
qed

text \<open>What was saved is what \<open>queuebuf_to_packetbuf\<close> puts back.\<close>

lemma restored:
  assumes "holds_packet (qb_data q (ram_ptr q b)) (bs, attrs, addrs)" and "memb_inmemb (bufmem q) b"
    and "length bs \<le> psize" and "psize \<le> 255" and "pb = queuebuf_to_packetbuf psize la b q pb0"
  shows "packet_is psize pb ([], 0, bs)" and "packetbuf_attrs pb = attrs" and "packetbuf_addrs pb = addrs"
proof -
  define d where "d = qb_data q (ram_ptr q b)"
  have d: "unat (qd_len d) = length bs" "holds (qd_data d) 0 bs" "qd_attrs d = attrs" "qd_addrs d = addrs"
    using assms(1) by (simp_all add: holds_packet_def d_def)
  have "qd_len d \<le> of_nat psize" using d(1) assms(3,4) by (simp add: word_le_nat_alt unat_of_nat)
  then have "min (of_nat psize) (qd_len d) = qd_len d" by (rule min_absorb2)
  moreover have "take (length bs) (map (qd_data d) [0..<psize]) = bs"
    using d(2) assms(3) by (intro nth_equalityI) (simp_all add: holds_def)
  ultimately show "packet_is psize pb ([], 0, bs)" "packetbuf_attrs pb = attrs" "packetbuf_addrs pb = addrs"
    using assms(2,3) d unfolding assms(5)
    by (simp_all add: queuebuf_to_packetbuf_def queuebuf_load_to_ram_def d_def [symmetric] Let_def packetbuf_copyfrom_def
        packetbuf_attr_copyfrom_def packet_is_def packetbuf_clear_def packetbuf_attr_clear_def)
qed

lemma saved_length: "packet_fits psize pb \<Longrightarrow> psize \<le> 255 \<Longrightarrow> length (fst (saved psize pb)) \<le> psize"
  by (erule (1) packet_fits_is) (auto simp: packet_is_def)

lemma copy_fields [simp]:
  "bufmem (copy_attrs p pb q) = bufmem q" "buframmem (copy_attrs p pb q) = buframmem q" "ram_ptr (copy_attrs p pb q) = ram_ptr q"
  "bufmem (copy_data psize p pb q) = bufmem q" "buframmem (copy_data psize p pb q) = buframmem q" "ram_ptr (copy_data psize p pb q) = ram_ptr q"
  "a \<noteq> p \<Longrightarrow> qb_data (copy_attrs p pb q) a = qb_data q a" "a \<noteq> p \<Longrightarrow> qb_data (copy_data psize p pb q) a = qb_data q a"
  by (simp_all add: copy_attrs_def copy_data_def split_beta)

text \<open>Allocation and release, for any owners \<open>W\<close> of queue buffers.\<close>

lemma queuebuf_new_spec:
  assumes ob: "owned (bufmem q) f W" and oa: "owned (buframmem q) (\<lambda>x. ram_ptr q (f x)) W"
    and n: "num (buframmem q) = num (bufmem q)" "psize \<le> 255" and p: "packet_fits psize pb" and room: "card W < num (bufmem q)" and w: "w \<notin> W"
  obtains b q' where "queuebuf_new_from_packetbuf psize pb q = (b, q')" "b \<noteq> NULL" "b \<notin> f ` W"
    "same_pool (bufmem q) (bufmem q')" "same_pool (buframmem q) (buframmem q')"
    "\<forall>g. (\<forall>x \<in> W. g x = f x) \<and> g w = b \<longrightarrow>
       owned (bufmem q') g (insert w W) \<and> owned (buframmem q') (\<lambda>x. ram_ptr q' (g x)) (insert w W)"
    "\<forall>x \<in> W. ram_ptr q' (f x) = ram_ptr q (f x) \<and> qb_data q' (ram_ptr q (f x)) = qb_data q (ram_ptr q (f x))"
    "holds_packet (qb_data q' (ram_ptr q' b)) (saved psize pb)"
proof -
  obtain b m where b: "memb_alloc (bufmem q) = (b, m)" "b \<noteq> NULL" "b \<notin> f ` W" "same_pool (bufmem q) m"
    "\<And>g. (\<And>x. x \<in> W \<Longrightarrow> g x = f x) \<Longrightarrow> g w = b \<Longrightarrow> owned m g (insert w W)"
    using owned_alloc [OF ob room w] by metis
  obtain a m' where a: "memb_alloc (buframmem q) = (a, m')" "a \<noteq> NULL" "a \<notin> (\<lambda>x. ram_ptr q (f x)) ` W" "same_pool (buframmem q) m'"
    "\<And>g. (\<And>x. x \<in> W \<Longrightarrow> g x = ram_ptr q (f x)) \<Longrightarrow> g w = a \<Longrightarrow> owned m' g (insert w W)"
    using owned_alloc [OF oa _ w] room n(1) by metis
  define q0 where "q0 = q\<lparr>bufmem := m, buframmem := m', ram_ptr := (ram_ptr q)(b := a)\<rparr>"
  define t where "t = copy_attrs a pb (copy_data psize a pb q0)"
  have run: "queuebuf_new_from_packetbuf psize pb q = (b, t)"
    using a(1,2) b(1,2) by (simp add: queuebuf_new_from_packetbuf_def Let_def t_def q0_def)
  have ft: "bufmem t = m" "buframmem t = m'" "ram_ptr t = (ram_ptr q)(b := a)" by (simp_all add: t_def) (simp_all add: q0_def)
  have nb: "f x \<noteq> b" "ram_ptr q (f x) \<noteq> a" if "x \<in> W" for x using that a(3) b(3) by auto
  show thesis
  proof (rule that [OF run b(2,3)])
    show "same_pool (bufmem q) (bufmem t)" "same_pool (buframmem q) (buframmem t)" using a(4) b(4) by (simp_all add: ft)
    have "owned (bufmem t) g (insert w W) \<and> owned (buframmem t) (\<lambda>x. ram_ptr t (g x)) (insert w W)"
      if "\<forall>x \<in> W. g x = f x" "g w = b" for g
      using that nb(1) by (intro conjI; unfold ft; intro a(5) b(5)) simp_all
    then show "\<forall>g. (\<forall>x \<in> W. g x = f x) \<and> g w = b \<longrightarrow>
       owned (bufmem t) g (insert w W) \<and> owned (buframmem t) (\<lambda>x. ram_ptr t (g x)) (insert w W)" by blast
    have "ram_ptr t (f x) = ram_ptr q (f x) \<and> qb_data t (ram_ptr q (f x)) = qb_data q (ram_ptr q (f x))" if "x \<in> W" for x
      using nb [OF that] by (simp add: ft) (simp add: t_def q0_def)
    then show "\<forall>x \<in> W. ram_ptr t (f x) = ram_ptr q (f x) \<and> qb_data t (ram_ptr q (f x)) = qb_data q (ram_ptr q (f x))" by blast
    show "holds_packet (qb_data t (ram_ptr t b)) (saved psize pb)" using copies_hold(1) [OF p n(2), of a q0] by (simp add: ft t_def [symmetric])
  qed
qed

lemma queuebuf_new_full:
  assumes "owned (bufmem q) f W" and "\<not> card W < num (bufmem q)"
  shows "queuebuf_new_from_packetbuf psize pb q = (NULL, q)"
  using owned_full [OF assms] by (simp add: queuebuf_new_from_packetbuf_def)

lemma queuebuf_free_spec:
  assumes ob: "owned (bufmem q) f W" and oa: "owned (buframmem q) (\<lambda>x. ram_ptr q (f x)) W" and w: "w \<in> W"
  obtains m m' where "queuebuf_free (f w) q = q\<lparr>buframmem := m', bufmem := m\<rparr>" "same_pool (bufmem q) m" "same_pool (buframmem q) m'"
    "owned m f (W - {w})" "owned m' (\<lambda>x. ram_ptr q (f x)) (W - {w})"
proof -
  obtain m where m: "memb_free (bufmem q) (f w) = (0, m)" "owned m f (W - {w})" "same_pool (bufmem q) m"
    using ob w by (rule owned_free)
  obtain m' where m': "memb_free (buframmem q) (ram_ptr q (f w)) = (0, m')" "owned m' (\<lambda>x. ram_ptr q (f x)) (W - {w})"
    "same_pool (buframmem q) m'" using oa w by (rule owned_free)
  have "queuebuf_free (f w) q = q\<lparr>buframmem := m', bufmem := m\<rparr>"
    using m(1) m'(1) owned_inmemb [OF ob w] by (simp add: queuebuf_free_def)
  then show thesis using m m' by (intro that)
qed

section \<open>A client that queues packets\<close>

text \<open>The client keeps the pointers it was given, \<open>NULL\<close> when there was no room, and names them by the
  number of the allocation.\<close>

datatype q_op = Q_new packetbuf_state | Q_update nat packetbuf_state | Q_update_attr nat packetbuf_state | Q_free nat

fun q_step :: "nat \<Rightarrow> q_op \<Rightarrow> queuebufs \<times> ptr list \<Rightarrow> (queuebufs \<times> ptr list) option" where
  "q_step psize (Q_new pb) (q, hs) = (let (b, q') = queuebuf_new_from_packetbuf psize pb q in Some (q', hs @ [b]))"
| "q_step psize (Q_update k pb) (q, hs) = Some (queuebuf_update_from_packetbuf psize (hs ! k) pb q, hs)"
| "q_step psize (Q_update_attr k pb) (q, hs) = Some (queuebuf_update_attr_from_packetbuf (hs ! k) pb q, hs)"
| "q_step psize (Q_free k) (q, hs) = Some (queuebuf_free (hs ! k) q, hs)"

definition waiting :: "packet option list \<Rightarrow> nat set" where
  "waiting ps = {i. i < length ps \<and> ps ! i \<noteq> None}"

fun q_spec :: "nat \<Rightarrow> nat \<Rightarrow> q_op \<Rightarrow> packet option list \<Rightarrow> packet option list" where
  "q_spec n psize (Q_new pb) ps = ps @ [if card (waiting ps) < n then Some (saved psize pb) else None]"
| "q_spec n psize (Q_update k pb) ps = ps[k := Some (saved psize pb)]"
| "q_spec n psize (Q_update_attr k pb) ps =
     ps[k := map_option (\<lambda>(bs, _, _). (bs, packetbuf_attrs pb, packetbuf_addrs pb)) (ps ! k)]"
| "q_spec n psize (Q_free k) ps = ps[k := None]"

fun q_ok :: "nat \<Rightarrow> q_op \<Rightarrow> packet option list \<Rightarrow> bool" where
  "q_ok psize (Q_new pb) ps \<longleftrightarrow> packet_fits psize pb"
| "q_ok psize (Q_update k pb) ps \<longleftrightarrow> k \<in> waiting ps \<and> packet_fits psize pb"
| "q_ok psize (Q_update_attr k pb) ps \<longleftrightarrow> k \<in> waiting ps"
| "q_ok psize (Q_free k) ps \<longleftrightarrow> k \<in> waiting ps"

definition q_repr :: "nat \<Rightarrow> nat \<Rightarrow> queuebufs \<times> ptr list \<Rightarrow> packet option list \<Rightarrow> bool" where
  "q_repr n psize = (\<lambda>(q, hs) ps. psize \<le> 255 \<and> num (bufmem q) = n \<and> num (buframmem q) = n \<and> length hs = length ps \<and>
     owned (bufmem q) ((!) hs) (waiting ps) \<and> owned (buframmem q) (\<lambda>i. ram_ptr q (hs ! i)) (waiting ps) \<and>
     (\<forall>i \<in> waiting ps. holds_packet (qb_data q (ram_ptr q (hs ! i))) (the (ps ! i)) \<and> length (fst (the (ps ! i))) \<le> psize))"

lemma waiting_append: "waiting (ps @ [x]) = (if x = None then waiting ps else insert (length ps) (waiting ps))"
  by (auto simp: waiting_def nth_append less_Suc_eq)

lemma waiting_update: "k \<in> waiting ps \<Longrightarrow> waiting (ps[k := x]) = (if x = None then waiting ps - {k} else waiting ps)"
  by (auto simp: waiting_def nth_list_update)

lemma new_repr:
  assumes r: "q_repr n psize (q, hs) ps" and p: "packet_fits psize pb"
  shows "\<exists>t. q_step psize (Q_new pb) (q, hs) = Some t \<and> q_repr n psize t (q_spec n psize (Q_new pb) ps)"
proof -
  have n: "num (bufmem q) = n" "num (buframmem q) = n" "psize \<le> 255" and l: "length hs = length ps"
    and ob: "owned (bufmem q) ((!) hs) (waiting ps)" and oa: "owned (buframmem q) (\<lambda>i. ram_ptr q (hs ! i)) (waiting ps)"
    and hp: "\<And>i. i \<in> waiting ps \<Longrightarrow> holds_packet (qb_data q (ram_ptr q (hs ! i))) (the (ps ! i)) \<and> length (fst (the (ps ! i))) \<le> psize"
    using r by (simp_all add: q_repr_def)
  have old: "(hs @ [b]) ! i = hs ! i" "(ps @ [x]) ! i = ps ! i" if "i \<in> waiting ps" for b x i
    using that l by (simp_all add: nth_append waiting_def)
  have w: "length ps \<notin> waiting ps" by (simp add: waiting_def)
  show ?thesis
  proof (cases "card (waiting ps) < n")
    case False
    then have "q_step psize (Q_new pb) (q, hs) = Some (q, hs @ [NULL])" using queuebuf_new_full [OF ob, of psize pb] n by simp
    moreover have "owned (bufmem q) ((!) (hs @ [NULL])) (waiting ps)" using ob old(1) owned_cong by (metis (no_types, lifting))
    moreover have "owned (buframmem q) (\<lambda>i. ram_ptr q ((hs @ [NULL]) ! i)) (waiting ps)"
      using oa owned_cong [of "waiting ps" "\<lambda>i. ram_ptr q ((hs @ [NULL]) ! i)" "\<lambda>i. ram_ptr q (hs ! i)"] old(1) by simp
    ultimately show ?thesis using n l hp old False by (simp add: q_repr_def waiting_append)
  next
    case True
    then have c: "num (buframmem q) = num (bufmem q)" "card (waiting ps) < num (bufmem q)" using n by simp_all
    obtain b t where t: "queuebuf_new_from_packetbuf psize pb q = (b, t)" "b \<noteq> NULL" "b \<notin> (!) hs ` waiting ps"
      "same_pool (bufmem q) (bufmem t)" "same_pool (buframmem q) (buframmem t)"
      "\<forall>g. (\<forall>x \<in> waiting ps. g x = hs ! x) \<and> g (length ps) = b \<longrightarrow>
       owned (bufmem t) g (insert (length ps) (waiting ps)) \<and> owned (buframmem t) (\<lambda>x. ram_ptr t (g x)) (insert (length ps) (waiting ps))"
      "\<forall>x \<in> waiting ps. ram_ptr t (hs ! x) = ram_ptr q (hs ! x) \<and> qb_data t (ram_ptr q (hs ! x)) = qb_data q (ram_ptr q (hs ! x))"
      "holds_packet (qb_data t (ram_ptr t b)) (saved psize pb)"
      by (rule queuebuf_new_spec [OF ob oa c(1) n(3) p c(2) w])
    have l': "(hs @ [b]) ! length ps = b" using l by (metis nth_append_length)
    have "owned (bufmem t) ((!) (hs @ [b])) (insert (length ps) (waiting ps)) \<and>
        owned (buframmem t) (\<lambda>i. ram_ptr t ((hs @ [b]) ! i)) (insert (length ps) (waiting ps))"
      using old(1) l' by (intro t(6) [rule_format]) simp_all
    moreover have "holds_packet (qb_data t (ram_ptr t ((hs @ [b]) ! i))) (the ((ps @ [Some (saved psize pb)]) ! i)) \<and>
        length (fst (the ((ps @ [Some (saved psize pb)]) ! i))) \<le> psize" if "i \<in> insert (length ps) (waiting ps)" for i
    proof (cases "i = length ps")
      case True
      then show ?thesis using t(8) saved_length [OF p n(3)] l' by (simp add: nth_append_length)
    next
      case False
      then have i: "i \<in> waiting ps" using that by simp
      then show ?thesis using hp [OF i] bspec [OF t(7) i] by (simp add: old)
    qed
    ultimately show ?thesis using t(1,4,5) n l True by (simp add: q_repr_def waiting_append same_pool_def)
  qed
qed

lemma update_repr:
  assumes r: "q_repr n psize (q, hs) ps" and k: "k \<in> waiting ps"
    and t: "t = copy q" "\<And>a. a \<noteq> ram_ptr q (hs ! k) \<Longrightarrow> qb_data t a = qb_data q a" "bufmem t = bufmem q" "buframmem t = buframmem q" "ram_ptr t = ram_ptr q"
    and x: "holds_packet (qb_data t (ram_ptr q (hs ! k))) x" "length (fst x) \<le> psize"
  shows "q_repr n psize (t, hs) (ps[k := Some x])"
proof -
  have inj: "inj_on (\<lambda>i. ram_ptr q (hs ! i)) (waiting ps)" and kl: "k < length ps"
    using r k by (simp_all add: q_repr_def owned_def waiting_def)
  have "holds_packet (qb_data t (ram_ptr q (hs ! i))) (the (ps[k := Some x] ! i)) \<and> length (fst (the (ps[k := Some x] ! i))) \<le> psize"
    if "i \<in> waiting ps" for i
  proof (cases "i = k")
    case False
    then have "ram_ptr q (hs ! i) \<noteq> ram_ptr q (hs ! k)" using inj that k by (auto dest: inj_onD)
    then show ?thesis using False that r t(2) by (simp add: q_repr_def)
  qed (use x kl in simp)
  then show ?thesis using r k t(3-5) by (simp add: q_repr_def waiting_update)
qed

lemma q_step_simulates:
  assumes "q_repr n psize s ps" and "q_ok psize x ps"
  shows "\<exists>t. q_step psize x s = Some t \<and> q_repr n psize t (q_spec n psize x ps)"
proof -
  obtain q hs where s: "s = (q, hs)" by force
  have r: "q_repr n psize (q, hs) ps" using assms(1) by (simp add: s)
  have ps: "psize \<le> 255" using r by (simp add: q_repr_def)
  show ?thesis
  proof (cases x)
    case (Q_new pb)
    then show ?thesis using new_repr [OF r] assms(2) by (simp add: s)
  next
    case (Q_update k pb)
    then have k: "k \<in> waiting ps" and p: "packet_fits psize pb" using assms(2) by simp_all
    have "q_repr n psize (queuebuf_update_from_packetbuf psize (hs ! k) pb q, hs) (ps[k := Some (saved psize pb)])"
      using copies_hold(2) [OF p ps] saved_length [OF p ps]
      by (intro update_repr [OF r k refl]) (simp_all add: queuebuf_update_from_packetbuf_def queuebuf_load_to_ram_def Let_def)
    then show ?thesis using Q_update by (simp add: s)
  next
    case (Q_update_attr k pb)
    then have k: "k \<in> waiting ps" using assms(2) by simp
    then obtain bs as ds where pk: "ps ! k = Some (bs, as, ds)" by (auto simp: waiting_def)
    have h: "holds_packet (qb_data q (ram_ptr q (hs ! k))) (bs, as, ds)" "length bs \<le> psize"
      using r k pk by (auto simp: q_repr_def)
    have "q_repr n psize (queuebuf_update_attr_from_packetbuf (hs ! k) pb q, hs) (ps[k := Some (bs, packetbuf_attrs pb, packetbuf_addrs pb)])"
    proof (rule update_repr [OF r k refl])
      show "holds_packet (qb_data (queuebuf_update_attr_from_packetbuf (hs ! k) pb q) (ram_ptr q (hs ! k))) (bs, packetbuf_attrs pb, packetbuf_addrs pb)"
        using h(1) by (simp add: queuebuf_update_attr_from_packetbuf_def queuebuf_load_to_ram_def copy_attrs_def packetbuf_attr_copyto_def holds_packet_def)
    qed (use h(2) in \<open>simp_all add: queuebuf_update_attr_from_packetbuf_def queuebuf_load_to_ram_def\<close>)
    then show ?thesis using Q_update_attr pk by (simp add: s)
  next
    case (Q_free k)
    then have k: "k \<in> waiting ps" using assms(2) by simp
    have ob: "owned (bufmem q) ((!) hs) (waiting ps)" and oa: "owned (buframmem q) (\<lambda>i. ram_ptr q (hs ! i)) (waiting ps)"
      using r by (simp_all add: q_repr_def)
    obtain m m' where m: "queuebuf_free (hs ! k) q = q\<lparr>buframmem := m', bufmem := m\<rparr>" "same_pool (bufmem q) m" "same_pool (buframmem q) m'"
      "owned m ((!) hs) (waiting ps - {k})" "owned m' (\<lambda>x. ram_ptr q (hs ! x)) (waiting ps - {k})"
      using ob oa k by (rule queuebuf_free_spec)
    have "q_repr n psize (q\<lparr>buframmem := m', bufmem := m\<rparr>, hs) (ps[k := None])"
      using r k m(2-5) by (simp add: q_repr_def waiting_update same_pool_def)
    then show ?thesis using Q_free m(1) by (simp add: s)
  qed
qed

lemma memb_init_same: "num (memb_init m) = num m"
  by (simp add: memb_init_def)

interpretation queue_buffers: partial_simulation "q_step psize" "q_spec n psize" "q_ok psize" "q_repr n psize" for n psize
  by unfold_locales (rule q_step_simulates)

text \<open>C17: Queued packets wait unchanged. After any sequence of allocations, updates and frees, each queue
  buffer that is in use puts the packet that was last saved in it back into the packet buffer, with its
  header and data, attributes and addresses, whatever the packet buffer held meanwhile; an allocation
  fails only when as many buffers are in use as there are, and each buffer that is freed can be
  allocated again.\<close>

theorem queued_packets_kept:
  assumes "bsize (bufmem q) > 0" and "base (bufmem q) > 0" and "bsize (buframmem q) > 0" and "base (buframmem q) > 0"
    and "num (buframmem q) = num (bufmem q)" and "psize \<le> 255"
    and "ops_allowed (q_ok psize) (q_spec (num (bufmem q)) psize) ops []"
    and "ps = fold (q_spec (num (bufmem q)) psize) ops []"
  shows "\<exists>t hs. run_ops (q_step psize) ops (queuebuf_init q, []) = Some (t, hs) \<and> length hs = length ps \<and>
    queuebuf_numfree t + card (waiting ps) = num (bufmem q) \<and>
    (\<forall>i bs attrs addrs pb. i < length ps \<longrightarrow> ps ! i = Some (bs, attrs, addrs) \<longrightarrow>
       packet_is psize (queuebuf_to_packetbuf psize la (hs ! i) t pb) ([], 0, bs) \<and>
       packetbuf_attrs (queuebuf_to_packetbuf psize la (hs ! i) t pb) = attrs \<and>
       packetbuf_addrs (queuebuf_to_packetbuf psize la (hs ! i) t pb) = addrs)"
proof -
  let ?n = "num (bufmem q)"
  have "q_repr ?n psize (queuebuf_init q, []) []"
    using assms(5,6)
    by (simp add: q_repr_def queuebuf_init_def waiting_def memb_init_same owned_init [OF assms(1,2)] owned_init [OF assms(3,4)])
  from queue_buffers.run_simulates [OF this assms(7)] obtain t hs where
    t: "run_ops (q_step psize) ops (queuebuf_init q, []) = Some (t, hs)" "q_repr ?n psize (t, hs) ps"
    unfolding assms(8) by auto
  have o: "owned (bufmem t) ((!) hs) (waiting ps)" and n: "num (bufmem t) = ?n" "length hs = length ps" using t(2) by (simp_all add: q_repr_def)
  have "queuebuf_numfree t + card (waiting ps) = ?n"
    using owned_card(1,3) [OF o] n by (simp add: queuebuf_numfree_def memb_numfree_spec)
  moreover have "packet_is psize (queuebuf_to_packetbuf psize la (hs ! i) t pb) ([], 0, bs) \<and>
       packetbuf_attrs (queuebuf_to_packetbuf psize la (hs ! i) t pb) = attrs \<and>
       packetbuf_addrs (queuebuf_to_packetbuf psize la (hs ! i) t pb) = addrs"
    if "i < length ps" "ps ! i = Some (bs, attrs, addrs)" for i bs attrs addrs pb
  proof -
    have i: "i \<in> waiting ps" using that by (simp add: waiting_def)
    then have "holds_packet (qb_data t (ram_ptr t (hs ! i))) (bs, attrs, addrs)" "length bs \<le> psize"
      using t(2) that(2) by (auto simp: q_repr_def)
    from restored [OF this(1) owned_inmemb [OF o i] this(2) assms(6) refl] show ?thesis by blast
  qed
  ultimately show ?thesis using t(1) n by blast
qed

definition sample_buffers :: queuebufs where
  "sample_buffers = \<lparr>bufmem = \<lparr>bsize = 2, num = 2, count = [], base = 512, mem = []\<rparr>,
     buframmem = \<lparr>bsize = 160, num = 2, count = [], base = 1024, mem = []\<rparr>, ram_ptr = (\<lambda>_. 0),
     qb_data = (\<lambda>_. \<lparr>qd_data = (\<lambda>_. 0), qd_len = 0, qd_attrs = [], qd_addrs = []\<rparr>)\<rparr>"

definition small_packet :: "u8 \<Rightarrow> packetbuf_state" where
  "small_packet b = \<lparr>packetbuf = (\<lambda>_. b), buflen = 2, bufptr = 0, hdrlen = 1, packetbuf_attrs = [7], packetbuf_addrs = [[1, 2]]\<rparr>"

theorem queued_packets_kept_witness:
  "\<exists>t hs. run_ops (q_step 128) [Q_new (small_packet 5), Q_new (small_packet 6), Q_free 0, Q_new (small_packet 7)] (queuebuf_init sample_buffers, []) = Some (t, hs) \<and>
     packet_is 128 (queuebuf_to_packetbuf 128 2 (hs ! 2) t (small_packet 9)) ([], 0, [7, 7, 7])"
proof -
  let ?ops = "[Q_new (small_packet 5), Q_new (small_packet 6), Q_free 0, Q_new (small_packet 7)]"
  have s: "saved 128 (small_packet b) = ([b, b, b], [7], [[1, 2]])" for b
    by (simp add: saved_def packetbuf_copyto_def small_packet_def packetbuf_hdrptr_def packetbuf_dataptr_def packetbuf_hdrlen_def word_less_nat_alt upt_conv_Cons)
  have f: "packet_fits 128 (small_packet b)" for b by (simp add: packet_fits_def small_packet_def)
  have w: "waiting [x] = (if x = None then {} else {0})" "waiting [x, y] = (if x = None then {} else {0}) \<union> (if y = None then {} else {1})" "waiting [] = {}" for x y
    by (auto simp: waiting_def less_Suc_eq nth_Cons')
  have ops: "ops_allowed (q_ok 128) (q_spec (num (bufmem sample_buffers)) 128) ?ops []"
    "fold (q_spec (num (bufmem sample_buffers)) 128) ?ops [] = [None, Some ([6, 6, 6], [7], [[1, 2]]), Some ([7, 7, 7], [7], [[1, 2]])]"
    by (simp_all add: sample_buffers_def s f w)
  have "bsize (bufmem sample_buffers) > 0" "base (bufmem sample_buffers) > 0" "bsize (buframmem sample_buffers) > 0"
    "base (buframmem sample_buffers) > 0" "num (buframmem sample_buffers) = num (bufmem sample_buffers)"
    by (simp_all add: sample_buffers_def)
  note pre = this
  have size: "128 \<le> (255 :: nat)" by simp
  define ps :: "packet option list" where "ps = [None, Some ([6, 6, 6], [7], [[1, 2]]), Some ([7, 7, 7], [7], [[1, 2]])]"
  obtain t hs where r: "run_ops (q_step 128) ?ops (queuebuf_init sample_buffers, []) = Some (t, hs)"
    and k: "\<forall>i bs attrs addrs pb. i < length ps \<longrightarrow> ps ! i = Some (bs, attrs, addrs) \<longrightarrow>
       packet_is 128 (queuebuf_to_packetbuf 128 2 (hs ! i) t pb) ([], 0, bs) \<and>
       packetbuf_attrs (queuebuf_to_packetbuf 128 2 (hs ! i) t pb) = attrs \<and>
       packetbuf_addrs (queuebuf_to_packetbuf 128 2 (hs ! i) t pb) = addrs"
    using queued_packets_kept [OF pre size ops(1) ops(2) [folded ps_def, symmetric], of 2] by (elim exE conjE) (rule that)
  have "2 < length ps" "ps ! 2 = Some ([7, 7, 7], [7], [[1, 2]])" by (simp_all add: ps_def)
  from k [rule_format, OF this] r show ?thesis by blast
qed

end
