(* ===== verification/TschQueue.thy ===== *)
theory TschQueue
  imports Clist Ringbuf Queuebuf Framer802154 "HOL-Library.Multiset"
begin

text \<open>
  The queues of TSCH, \<open>core/net/mac/tsch/tsch-queue.c\<close>, and its lock from \<open>tsch-slot-operation.c\<close>. Every
  neighbour is a block of a pool (Memb) that is linked into the list \<open>neighbor_list\<close> (Clist) and holds a
  ring of pointers to packets (Ringbuf); a packet is a block of another pool that points to a queue
  buffer (Queuebuf). Slot operation itself runs in an interrupt and is not modelled: while it runs,
  \<open>tsch_get_lock\<close> waits for it, and the model gives \<^const>\<open>None\<close>. The callback of a packet is the
  argument \<open>sent_cb\<close>, the timer of the keep-alive messages the argument \<open>schedule_keepalive\<close>.
\<close>

section \<open>The code\<close>

text \<open>The options of the build.\<close>

record tsch_config =
  fconf :: framer_config
  TSCH_QUEUE_NUM_PER_NEIGHBOR :: nat
  TSCH_MAC_MIN_BE :: u8
  TSCH_MAC_MAX_BE :: u8
  TSCH_KEEPALIVE_TIMEOUT :: u32

abbreviation "lsize C \<equiv> LINKADDR_SIZE (frame_conf (fconf C))"
abbreviation "bufsize C \<equiv> PACKETBUF_SIZE (fconf C)"

definition tsch_broadcast_address :: "tsch_config \<Rightarrow> linkaddr_t" where
  "tsch_broadcast_address C = replicate (lsize C) 0xff"

definition tsch_eb_address :: "tsch_config \<Rightarrow> linkaddr_t" where
  "tsch_eb_address C = replicate (lsize C) 0"

abbreviation "LINK_OPTION_TX \<equiv> (1 :: u8)"
abbreviation "LINK_OPTION_RX \<equiv> (2 :: u8)"
abbreviation "LINK_OPTION_SHARED \<equiv> (4 :: u8)"
abbreviation "LINK_OPTION_TIME_KEEPING \<equiv> (8 :: u8)"

datatype link_type = LINK_TYPE_NORMAL | LINK_TYPE_ADVERTISING | LINK_TYPE_ADVERTISING_ONLY

record tsch_link =
  l_handle :: u16
  l_addr :: linkaddr_t
  slotframe_handle :: u16
  timeslot :: u16
  channel_offset :: u16
  link_options :: u8
  link_kind :: link_type
  l_data :: ptr

record nbr_info =
  n_addr :: linkaddr_t
  is_broadcast :: bool
  is_time_source :: bool
  backoff_exponent :: u8
  backoff_window :: u8
  last_backoff_window :: u8
  tx_links_count :: u8
  dedicated_tx_links_count :: u8

record tsch_neighbor = nbr_info +
  tx_array :: "ptr list"
  tx_ringbuf :: ringbufindex

record tsch_packet =
  qb :: ptr
  sent :: ptr
  sent_ptr :: ptr
  transmissions :: u8
  ret :: u8
  header_len :: u8
  tsch_sync_ie_offset :: u8

record tsch = lstore +
  tsch_locked :: bool
  tsch_lock_requested :: bool
  tsch_in_slot_operation :: bool
  tsch_is_coordinator :: bool
  tsch_current_ka_timeout :: u16
  neighbor :: "ptr \<Rightarrow> tsch_neighbor"
  neighbor_memb :: memb
  packet_at :: "ptr \<Rightarrow> tsch_packet"
  packet_memb :: memb
  qbufs :: queuebufs
  n_eb :: ptr
  n_broadcast :: ptr

type_synonym 'a sent_callback = "ptr \<Rightarrow> ptr \<Rightarrow> u8 \<Rightarrow> u8 \<Rightarrow> 'a tsch_scheme \<Rightarrow> 'a tsch_scheme"

abbreviation (input) "MAC_TX_DEFERRED \<equiv> (3 :: u8)"
abbreviation (input) "MAC_TX_ERR \<equiv> (4 :: u8)"

definition neighbor_list :: ptr where
  "neighbor_list = 1"

definition set_nbr :: "ptr \<Rightarrow> tsch_neighbor \<Rightarrow> 'a tsch_scheme \<Rightarrow> 'a tsch_scheme" where
  "set_nbr n v s = s\<lparr>neighbor := (neighbor s)(n := v)\<rparr>"

subsection \<open>The lock\<close>

definition tsch_is_locked :: "'a tsch_scheme \<Rightarrow> bool" where
  "tsch_is_locked s = tsch_locked s"

definition tsch_get_lock :: "'a tsch_scheme \<Rightarrow> (bool \<times> 'a tsch_scheme) option" where
  "tsch_get_lock s =
     (if \<not> tsch_locked s then
        let s = s\<lparr>tsch_lock_requested := True\<rparr>
        in if tsch_in_slot_operation s then None
           else Some (True, s\<lparr>tsch_locked := True, tsch_lock_requested := False\<rparr>)
      else Some (False, s))"

definition tsch_release_lock :: "'a tsch_scheme \<Rightarrow> 'a tsch_scheme" where
  "tsch_release_lock s = s\<lparr>tsch_locked := False\<rparr>"

subsection \<open>Neighbours\<close>

text \<open>The loops that look for the first item of a list with a property.\<close>

partial_function (option) first_loop :: "(ptr \<Rightarrow> bool) \<Rightarrow> (ptr \<Rightarrow> ptr) \<Rightarrow> ptr \<Rightarrow> ptr option" where
  "first_loop P next n = (if n \<noteq> NULL then if P n then Some n else first_loop P next (next n) else Some NULL)"

definition tsch_queue_get_nbr :: "tsch_config \<Rightarrow> linkaddr_t \<Rightarrow> 'a tsch_scheme \<Rightarrow> ptr option" where
  "tsch_queue_get_nbr C addr s =
     (if \<not> tsch_is_locked s then
        first_loop (\<lambda>n. linkaddr_cmp (lsize C) (n_addr (neighbor s n)) addr) (nxt s) (list_head neighbor_list s)
      else Some NULL)"

definition tsch_queue_backoff_reset :: "tsch_config \<Rightarrow> ptr \<Rightarrow> 'a tsch_scheme \<Rightarrow> 'a tsch_scheme" where
  "tsch_queue_backoff_reset C n s =
     set_nbr n ((neighbor s n)\<lparr>backoff_window := 0, backoff_exponent := TSCH_MAC_MIN_BE C\<rparr>) s"

definition init_nbr :: "tsch_config \<Rightarrow> linkaddr_t \<Rightarrow> tsch_neighbor" where
  "init_nbr C addr =
     \<lparr>n_addr = linkaddr_copy (lsize C) (replicate (lsize C) 0) addr,
      is_broadcast = (linkaddr_cmp (lsize C) addr (tsch_eb_address C) \<or> linkaddr_cmp (lsize C) addr (tsch_broadcast_address C)),
      is_time_source = False, backoff_exponent = 0, backoff_window = 0, last_backoff_window = 0,
      tx_links_count = 0, dedicated_tx_links_count = 0,
      tx_array = replicate (TSCH_QUEUE_NUM_PER_NEIGHBOR C) NULL,
      tx_ringbuf = ringbufindex_init (of_nat (TSCH_QUEUE_NUM_PER_NEIGHBOR C))\<rparr>"

definition tsch_queue_add_nbr :: "tsch_config \<Rightarrow> linkaddr_t \<Rightarrow> 'a tsch_scheme \<Rightarrow> (ptr \<times> 'a tsch_scheme) option" where
  "tsch_queue_add_nbr C addr s = do {
     n \<leftarrow> tsch_queue_get_nbr C addr s;
     if n = NULL then do {
       (ok, s) \<leftarrow> tsch_get_lock s;
       if ok then
         let (n, m) = memb_alloc (neighbor_memb s); s = s\<lparr>neighbor_memb := m\<rparr>
         in if n \<noteq> NULL then do {
              let s = set_nbr n (init_nbr C addr) (set_next n NULL s);
              let s = tsch_queue_backoff_reset C n s;
              s \<leftarrow> list_add neighbor_list n s;
              Some (n, tsch_release_lock s)
            }
            else Some (n, tsch_release_lock s)
       else Some (n, s)
     }
     else Some (n, s)
   }"

definition tsch_queue_get_time_source :: "'a tsch_scheme \<Rightarrow> ptr option" where
  "tsch_queue_get_time_source s =
     (if \<not> tsch_is_locked s then first_loop (\<lambda>n. is_time_source (neighbor s n)) (nxt s) (list_head neighbor_list s)
      else Some NULL)"

definition tsch_set_ka_timeout :: "u32 \<Rightarrow> 'a tsch_scheme \<Rightarrow> 'a tsch_scheme" where
  "tsch_set_ka_timeout timeout s = s\<lparr>tsch_current_ka_timeout := ucast timeout\<rparr>"

definition tsch_queue_update_time_source ::
    "tsch_config \<Rightarrow> ('a tsch_scheme \<Rightarrow> 'a tsch_scheme) \<Rightarrow> linkaddr_t option \<Rightarrow> 'a tsch_scheme \<Rightarrow> (bool \<times> 'a tsch_scheme) option" where
  "tsch_queue_update_time_source C schedule_keepalive new_addr s =
     (if \<not> tsch_is_locked s \<and> \<not> tsch_is_coordinator s then do {
        old \<leftarrow> tsch_queue_get_time_source s;
        (new, s) \<leftarrow> (case new_addr of None \<Rightarrow> Some (NULL, s) | Some a \<Rightarrow> tsch_queue_add_nbr C a s);
        if new_addr \<noteq> None \<and> new = NULL then Some (False, s)
        else if new \<noteq> old then
          let s = (if new \<noteq> NULL then
                     schedule_keepalive (tsch_set_ka_timeout (TSCH_KEEPALIVE_TIMEOUT C)
                       (set_nbr new ((neighbor s new)\<lparr>is_time_source := True\<rparr>) s))
                   else tsch_set_ka_timeout 0 s);
              s = (if old \<noteq> NULL then set_nbr old ((neighbor s old)\<lparr>is_time_source := False\<rparr>) s else s)
          in Some (True, s)
        else Some (True, s)
      }
      else Some (False, s))"

subsection \<open>Packets\<close>

definition tsch_queue_is_empty :: "ptr \<Rightarrow> 'a tsch_scheme \<Rightarrow> bool" where
  "tsch_queue_is_empty n s \<longleftrightarrow> \<not> tsch_is_locked s \<and> n \<noteq> NULL \<and> ringbufindex_empty (tx_ringbuf (neighbor s n))"

definition tsch_queue_remove_packet_from_queue :: "ptr \<Rightarrow> 'a tsch_scheme \<Rightarrow> ptr \<times> 'a tsch_scheme" where
  "tsch_queue_remove_packet_from_queue n s =
     (if \<not> tsch_is_locked s \<and> n \<noteq> NULL then
        let (i, r) = ringbufindex_get (tx_ringbuf (neighbor s n));
            s = set_nbr n ((neighbor s n)\<lparr>tx_ringbuf := r\<rparr>) s
        in if i \<noteq> - 1 then (tx_array (neighbor s n) ! nat i, s) else (NULL, s)
      else (NULL, s))"

definition tsch_queue_free_packet :: "ptr \<Rightarrow> 'a tsch_scheme \<Rightarrow> 'a tsch_scheme" where
  "tsch_queue_free_packet p s =
     (if p \<noteq> NULL then
        s\<lparr>qbufs := queuebuf_free (qb (packet_at s p)) (qbufs s), packet_memb := snd (memb_free (packet_memb s) p)\<rparr>
      else s)"

text \<open>One turn of the loop in \<open>tsch_queue_flush_nbr_queue\<close>.\<close>

definition flush_one :: "'a sent_callback \<Rightarrow> ptr \<Rightarrow> 'a tsch_scheme \<Rightarrow> 'a tsch_scheme" where
  "flush_one sent_cb n s =
     (let (p, s) = tsch_queue_remove_packet_from_queue n s
      in if p \<noteq> NULL then
           let s = s\<lparr>packet_at := (packet_at s)(p := (packet_at s p)\<lparr>ret := MAC_TX_ERR\<rparr>)\<rparr>; k = packet_at s p;
               s = (if sent k \<noteq> NULL then sent_cb (sent k) (sent_ptr k) (ret k) (transmissions k) s else s)
           in tsch_queue_free_packet p s
         else s)"

partial_function (option) tsch_queue_flush_nbr_queue :: "'a sent_callback \<Rightarrow> ptr \<Rightarrow> 'a tsch_scheme \<Rightarrow> 'a tsch_scheme option" where
  "tsch_queue_flush_nbr_queue sent_cb n s =
     (if \<not> tsch_queue_is_empty n s then tsch_queue_flush_nbr_queue sent_cb n (flush_one sent_cb n s) else Some s)"

definition tsch_queue_remove_nbr :: "'a sent_callback \<Rightarrow> ptr \<Rightarrow> 'a tsch_scheme \<Rightarrow> 'a tsch_scheme option" where
  "tsch_queue_remove_nbr sent_cb n s =
     (if n \<noteq> NULL then do {
        (ok, s) \<leftarrow> tsch_get_lock s;
        if ok then do {
          s \<leftarrow> list_remove neighbor_list n s;
          s \<leftarrow> tsch_queue_flush_nbr_queue sent_cb n (tsch_release_lock s);
          Some (s\<lparr>neighbor_memb := snd (memb_free (neighbor_memb s) n)\<rparr>)
        }
        else Some s
      }
      else Some s)"

definition tsch_queue_add_packet ::
    "tsch_config \<Rightarrow> linkaddr_t \<Rightarrow> ptr \<Rightarrow> ptr \<Rightarrow> packetbuf_state \<Rightarrow> 'a tsch_scheme \<Rightarrow> (ptr \<times> 'a tsch_scheme) option" where
  "tsch_queue_add_packet C addr cb p_ptr pkt s =
     (if \<not> tsch_is_locked s then do {
        (n, s) \<leftarrow> tsch_queue_add_nbr C addr s;
        if n \<noteq> NULL then
          let put_index = ringbufindex_peek_put (tx_ringbuf (neighbor s n))
          in if put_index \<noteq> - 1 then
               let (p, m) = memb_alloc (packet_memb s); s = s\<lparr>packet_memb := m\<rparr>
               in if p \<noteq> NULL then
                    let (b, q) = queuebuf_new_from_packetbuf (bufsize C) pkt (qbufs s);
                        s = s\<lparr>qbufs := q, packet_at := (packet_at s)(p := (packet_at s p)\<lparr>qb := b\<rparr>)\<rparr>
                    in if b \<noteq> NULL then
                         let s = s\<lparr>packet_at := (packet_at s)(p := (packet_at s p)\<lparr>sent := cb, sent_ptr := p_ptr,
                                     ret := MAC_TX_DEFERRED, transmissions := 0\<rparr>)\<rparr>;
                             v = neighbor s n;
                             v = v\<lparr>tx_array := (tx_array v)[nat put_index := p]\<rparr>;
                             v = v\<lparr>tx_ringbuf := snd (ringbufindex_put (tx_ringbuf v))\<rparr>
                         in Some (p, set_nbr n v s)
                       else Some (NULL, s\<lparr>packet_memb := snd (memb_free (packet_memb s) p)\<rparr>)
                  else Some (NULL, s)
             else Some (NULL, s)
        else Some (NULL, s)
      }
      else Some (NULL, s))"

definition tsch_queue_packet_count :: "tsch_config \<Rightarrow> linkaddr_t \<Rightarrow> 'a tsch_scheme \<Rightarrow> (int \<times> 'a tsch_scheme) option" where
  "tsch_queue_packet_count C addr s =
     (if \<not> tsch_is_locked s then do {
        (n, s) \<leftarrow> tsch_queue_add_nbr C addr s;
        Some (if n \<noteq> NULL then int (ringbufindex_elements (tx_ringbuf (neighbor s n))) else - 1, s)
      }
      else Some (- 1, s))"

text \<open>The loops over all neighbours; the successor is read before the body runs.\<close>

partial_function (option) reset_loop :: "tsch_config \<Rightarrow> 'a sent_callback \<Rightarrow> ptr \<Rightarrow> 'a tsch_scheme \<Rightarrow> 'a tsch_scheme option" where
  "reset_loop C sent_cb n s =
     (if n \<noteq> NULL then
        (case tsch_queue_flush_nbr_queue sent_cb n s of
           None \<Rightarrow> None
         | Some t \<Rightarrow> reset_loop C sent_cb (list_item_next n s) (tsch_queue_backoff_reset C n t))
      else Some s)"

definition tsch_queue_reset :: "tsch_config \<Rightarrow> 'a sent_callback \<Rightarrow> 'a tsch_scheme \<Rightarrow> 'a tsch_scheme option" where
  "tsch_queue_reset C sent_cb s = (if \<not> tsch_is_locked s then reset_loop C sent_cb (list_head neighbor_list s) s else Some s)"

definition unused_nbr :: "ptr \<Rightarrow> 'a tsch_scheme \<Rightarrow> bool" where
  "unused_nbr n s \<longleftrightarrow> \<not> is_broadcast (neighbor s n) \<and> \<not> is_time_source (neighbor s n) \<and>
     tx_links_count (neighbor s n) = 0 \<and> tsch_queue_is_empty n s"

partial_function (option) free_unused_loop :: "'a sent_callback \<Rightarrow> ptr \<Rightarrow> 'a tsch_scheme \<Rightarrow> 'a tsch_scheme option" where
  "free_unused_loop sent_cb n s =
     (if n \<noteq> NULL then
        (case if unused_nbr n s then tsch_queue_remove_nbr sent_cb n s else Some s of
           None \<Rightarrow> None
         | Some t \<Rightarrow> free_unused_loop sent_cb (list_item_next n s) t)
      else Some s)"

definition tsch_queue_free_unused_neighbors :: "'a sent_callback \<Rightarrow> 'a tsch_scheme \<Rightarrow> 'a tsch_scheme option" where
  "tsch_queue_free_unused_neighbors sent_cb s =
     (if \<not> tsch_is_locked s then free_unused_loop sent_cb (list_head neighbor_list s) s else Some s)"

definition tsch_queue_backoff_expired :: "ptr \<Rightarrow> 'a tsch_scheme \<Rightarrow> bool" where
  "tsch_queue_backoff_expired n s \<longleftrightarrow> backoff_window (neighbor s n) = 0"

text \<open>With a link selector the link is read without a test for \<open>NULL\<close>.\<close>

definition tsch_queue_get_packet_for_nbr :: "tsch_config \<Rightarrow> ptr \<Rightarrow> tsch_link option \<Rightarrow> 'a tsch_scheme \<Rightarrow> ptr option" where
  "tsch_queue_get_packet_for_nbr C n link s =
     (if \<not> tsch_is_locked s then
        let is_shared_link = (case link of None \<Rightarrow> False | Some l \<Rightarrow> link_options l AND LINK_OPTION_SHARED \<noteq> 0)
        in if n \<noteq> NULL then
             let get_index = ringbufindex_peek_get (tx_ringbuf (neighbor s n))
             in if get_index \<noteq> - 1 \<and> \<not> (is_shared_link \<and> \<not> tsch_queue_backoff_expired n s) then
                  let p = tx_array (neighbor s n) ! nat get_index
                  in if TSCH_WITH_LINK_SELECTOR (fconf C) then
                       let sf = queuebuf_attr (qb (packet_at s p)) (attr_no (fconf C) ATTR_TSCH_SLOTFRAME) (qbufs s);
                           ts = queuebuf_attr (qb (packet_at s p)) (attr_no (fconf C) ATTR_TSCH_TIMESLOT) (qbufs s)
                       in (case link of
                             None \<Rightarrow> if sf \<noteq> 0xffff \<or> ts \<noteq> 0xffff then None else Some p
                           | Some l \<Rightarrow> if sf \<noteq> 0xffff \<and> sf \<noteq> slotframe_handle l then Some NULL
                                       else if ts \<noteq> 0xffff \<and> ts \<noteq> timeslot l then Some NULL
                                       else Some p)
                     else Some p
                else Some NULL
           else Some NULL
      else Some NULL)"

definition tsch_queue_get_packet_for_dest_addr :: "tsch_config \<Rightarrow> linkaddr_t \<Rightarrow> tsch_link option \<Rightarrow> 'a tsch_scheme \<Rightarrow> ptr option" where
  "tsch_queue_get_packet_for_dest_addr C addr link s =
     (if \<not> tsch_is_locked s then do {
        n \<leftarrow> tsch_queue_get_nbr C addr s;
        tsch_queue_get_packet_for_nbr C n link s
      }
      else Some NULL)"

partial_function (option) any_loop :: "tsch_config \<Rightarrow> tsch_link option \<Rightarrow> ptr \<Rightarrow> 'a tsch_scheme \<Rightarrow> (ptr \<times> ptr) option" where
  "any_loop C link n s =
     (if n \<noteq> NULL then
        if \<not> is_broadcast (neighbor s n) \<and> tx_links_count (neighbor s n) = 0 then
          (case tsch_queue_get_packet_for_nbr C n link s of
             None \<Rightarrow> None
           | Some p \<Rightarrow> if p \<noteq> NULL then Some (p, n) else any_loop C link (list_item_next n s) s)
        else any_loop C link (list_item_next n s) s
      else Some (NULL, NULL))"

definition tsch_queue_get_unicast_packet_for_any :: "tsch_config \<Rightarrow> tsch_link option \<Rightarrow> 'a tsch_scheme \<Rightarrow> (ptr \<times> ptr) option" where
  "tsch_queue_get_unicast_packet_for_any C link s =
     (if \<not> tsch_is_locked s then any_loop C link (list_head neighbor_list s) s else Some (NULL, NULL))"

subsection \<open>Back-off\<close>

text \<open>\<open>rnd\<close> is what \<open>random_rand\<close> returns.\<close>

definition next_backoff :: "tsch_config \<Rightarrow> u16 \<Rightarrow> 'b nbr_info_scheme \<Rightarrow> 'b nbr_info_scheme" where
  "next_backoff C rnd v =
     (let e = of_nat (min (unat (backoff_exponent v) + 1) (unat (TSCH_MAC_MAX_BE C))) :: u8;
          w = of_nat (unat (drop_bit 6 rnd) mod 2 ^ unat e) :: u8
      in v\<lparr>backoff_exponent := e, backoff_window := w + 1\<rparr>)"

definition tsch_queue_backoff_inc :: "tsch_config \<Rightarrow> u16 \<Rightarrow> ptr \<Rightarrow> 'a tsch_scheme \<Rightarrow> 'a tsch_scheme" where
  "tsch_queue_backoff_inc C rnd n s = set_nbr n (next_backoff C rnd (neighbor s n)) s"

definition count_down :: "tsch_config \<Rightarrow> linkaddr_t \<Rightarrow> 'b nbr_info_scheme \<Rightarrow> 'b nbr_info_scheme" where
  "count_down C daddr v =
     (if backoff_window v \<noteq> 0 \<and>
         (tx_links_count v = 0 \<and> linkaddr_cmp (lsize C) daddr (tsch_broadcast_address C) \<or>
          tx_links_count v > 0 \<and> linkaddr_cmp (lsize C) daddr (n_addr v))
      then v\<lparr>backoff_window := backoff_window v - 1\<rparr> else v)"

partial_function (option) backoff_loop :: "tsch_config \<Rightarrow> linkaddr_t \<Rightarrow> ptr \<Rightarrow> 'a tsch_scheme \<Rightarrow> 'a tsch_scheme option" where
  "backoff_loop C daddr n s =
     (if n \<noteq> NULL then
        let s = set_nbr n (count_down C daddr (neighbor s n)) s
        in backoff_loop C daddr (list_item_next n s) s
      else Some s)"

definition tsch_queue_update_all_backoff_windows :: "tsch_config \<Rightarrow> linkaddr_t \<Rightarrow> 'a tsch_scheme \<Rightarrow> 'a tsch_scheme option" where
  "tsch_queue_update_all_backoff_windows C daddr s =
     (if \<not> tsch_is_locked s then backoff_loop C daddr (list_head neighbor_list s) s else Some s)"

definition tsch_queue_init :: "tsch_config \<Rightarrow> 'a tsch_scheme \<Rightarrow> 'a tsch_scheme option" where
  "tsch_queue_init C s = do {
     let s = list_init neighbor_list s;
     let s = s\<lparr>neighbor_memb := memb_init (neighbor_memb s), packet_memb := memb_init (packet_memb s)\<rparr>;
     (n, s) \<leftarrow> tsch_queue_add_nbr C (tsch_eb_address C) s;
     let s = s\<lparr>n_eb := n\<rparr>;
     (n, s) \<leftarrow> tsch_queue_add_nbr C (tsch_broadcast_address C) s;
     Some (s\<lparr>n_broadcast := n\<rparr>)
   }"

section \<open>Neighbours and their queues\<close>

lemma first_loop_chain: "chain n p xs \<Longrightarrow> first_loop P n p = Some (case find P xs of None \<Rightarrow> NULL | Some x \<Rightarrow> x)"
  by (induction xs arbitrary: p) (auto simp: first_loop.simps)

lemma list_frame_fields:
  assumes "lstore.more (t :: 'a tsch_scheme) = lstore.more s"
  shows "t = s\<lparr>heads := heads t, nxt := nxt t\<rparr>"
  using assms by (cases s; cases t) simp

text \<open>The pointers in the ring of a neighbour, first one first.\<close>

definition ring :: "'a tsch_scheme \<Rightarrow> ptr \<Rightarrow> ptr list" where
  "ring s n = indexed_elems (tx_ringbuf (neighbor s n), tx_array (neighbor s n))"

definition queued :: "'a tsch_scheme \<Rightarrow> ptr list \<Rightarrow> ptr list" where
  "queued s ns = concat (map (ring s) ns)"

definition config_ok :: "tsch_config \<Rightarrow> nat \<Rightarrow> bool" where
  "config_ok C k \<longleftrightarrow> TSCH_QUEUE_NUM_PER_NEIGHBOR C = 2 ^ k \<and> k \<le> 8 \<and> bufsize C \<le> 255"

text \<open>The data of a queue buffer as a packet, and a packet in a queue with its callback.\<close>

definition qcontent :: "queuebuf_data \<Rightarrow> packet" where
  "qcontent d = (map (qd_data d) [0..<unat (qd_len d)], qd_attrs d, qd_addrs d)"

lemma qcontent_holds: "holds_packet d x \<longleftrightarrow> qcontent d = x"
  by (cases x) (auto simp: holds_packet_def qcontent_def holds_def intro!: nth_equalityI)

definition ram_of :: "'a tsch_scheme \<Rightarrow> ptr \<Rightarrow> ptr" where
  "ram_of s p = ram_ptr (qbufs s) (qb (packet_at s p))"

type_synonym qpacket = "packet \<times> ptr \<times> ptr \<times> u8"

definition pkt :: "'a tsch_scheme \<Rightarrow> ptr \<Rightarrow> qpacket" where
  "pkt s p = (qcontent (qb_data (qbufs s) (ram_of s p)), sent (packet_at s p), sent_ptr (packet_at s p), transmissions (packet_at s p))"

type_synonym nbr_entry = "nbr_info \<times> qpacket list"

definition nbr_entry :: "'a tsch_scheme \<Rightarrow> ptr \<Rightarrow> nbr_entry" where
  "nbr_entry s n = (nbr_info.truncate (neighbor s n), map (pkt s) (ring s n))"

text \<open>Pools that agree: each packet has a queue buffer and each queue buffer its data.\<close>

definition packets_ok :: "tsch_config \<Rightarrow> 'a tsch_scheme \<Rightarrow> ptr list \<Rightarrow> bool" where
  "packets_ok C s ps \<longleftrightarrow> distinct ps \<and> owned (packet_memb s) id (set ps) \<and>
     owned (bufmem (qbufs s)) (\<lambda>p. qb (packet_at s p)) (set ps) \<and> owned (buframmem (qbufs s)) (ram_of s) (set ps) \<and>
     num (bufmem (qbufs s)) = num (packet_memb s) \<and> num (buframmem (qbufs s)) = num (packet_memb s) \<and>
     (\<forall>p \<in> set ps. length (fst (fst (pkt s p))) \<le> bufsize C)"

definition tq_inv :: "tsch_config \<Rightarrow> nat \<Rightarrow> 'a tsch_scheme \<Rightarrow> ptr list \<Rightarrow> bool" where
  "tq_inv C k s ns \<longleftrightarrow> \<not> tsch_locked s \<and> \<not> tsch_in_slot_operation s \<and> is_list s neighbor_list ns \<and>
     owned (neighbor_memb s) id (set ns) \<and> distinct (map (\<lambda>n. n_addr (neighbor s n)) ns) \<and>
     (\<forall>n \<in> set ns. length (n_addr (neighbor s n)) = lsize C \<and> indexed_inv k (tx_ringbuf (neighbor s n), tx_array (neighbor s n))) \<and>
     packets_ok C s (queued s ns)"

abbreviation addresses_of :: "nbr_entry list \<Rightarrow> linkaddr_t list" where
  "addresses_of es \<equiv> map (\<lambda>e. n_addr (fst e)) es"

lemma truncate_fields [simp]:
  "n_addr (nbr_info.truncate v) = n_addr v" "is_broadcast (nbr_info.truncate v) = is_broadcast v"
  "is_time_source (nbr_info.truncate v) = is_time_source v" "backoff_exponent (nbr_info.truncate v) = backoff_exponent v"
  "backoff_window (nbr_info.truncate v) = backoff_window v" "tx_links_count (nbr_info.truncate v) = tx_links_count v"
  "dedicated_tx_links_count (nbr_info.truncate v) = dedicated_tx_links_count v"
  by (simp_all add: nbr_info.truncate_def)

lemma nbr_entries_addresses: "addresses_of (map (nbr_entry s) ns) = map (\<lambda>n. n_addr (neighbor s n)) ns"
  by (simp add: nbr_entry_def)

text \<open>What the invariant and the entries depend on.\<close>

lemma ring_cong: "neighbor t n = neighbor s n \<Longrightarrow> ring t n = ring s n"
  by (simp add: ring_def)

lemma queued_cong: "(\<And>n. n \<in> set ns \<Longrightarrow> ring t n = ring s n) \<Longrightarrow> queued t ns = queued s ns"
  by (simp add: queued_def cong: map_cong)

lemma pkt_cong: "packet_at t p = packet_at s p \<Longrightarrow> qbufs t = qbufs s \<Longrightarrow> pkt t p = pkt s p"
  by (simp add: pkt_def ram_of_def)

lemma packets_ok_cong:
  assumes "packet_at t = packet_at s" and "packet_memb t = packet_memb s" and "qbufs t = qbufs s"
  shows "packets_ok C t ps \<longleftrightarrow> packets_ok C s ps"
proof -
  have "ram_of t = ram_of s" "pkt t = pkt s" using assms by (simp_all add: fun_eq_iff ram_of_def pkt_def)
  then show ?thesis using assms by (simp add: packets_ok_def)
qed

lemma get_nbr_spec:
  assumes "tq_inv C k s ns" and "length a = lsize C"
  shows "\<exists>n. tsch_queue_get_nbr C a s = Some n \<and>
    (if a \<in> set (addresses_of (map (nbr_entry s) ns)) then n \<in> set ns \<and> n_addr (neighbor s n) = a \<and> n \<noteq> NULL else n = NULL)"
proof -
  let ?P = "\<lambda>n. linkaddr_cmp (lsize C) (n_addr (neighbor s n)) a"
  have c: "chain (nxt s) (list_head neighbor_list s) ns" and l: "\<And>n. n \<in> set ns \<Longrightarrow> ?P n \<longleftrightarrow> n_addr (neighbor s n) = a"
    and u: "\<not> tsch_locked s" using assms by (simp_all add: tq_inv_def is_list_def list_head_def)
  have g: "tsch_queue_get_nbr C a s = Some (case find ?P ns of None \<Rightarrow> NULL | Some x \<Rightarrow> x)"
    using u first_loop_chain [OF c] by (simp add: tsch_queue_get_nbr_def tsch_is_locked_def)
  show ?thesis
  proof (cases "find ?P ns")
    case None
    then have "\<forall>n \<in> set ns. n_addr (neighbor s n) \<noteq> a" using l by (auto simp: find_None_iff)
    then have "a \<notin> set (addresses_of (map (nbr_entry s) ns))" by (auto simp: nbr_entry_def)
    then show ?thesis using g None by simp
  next
    case (Some n)
    then have n: "n \<in> set ns" "?P n" by (auto simp: find_Some_iff)
    then have "n \<noteq> NULL" using chain_set_nonNULL [OF c] by blast
    moreover have "a \<in> set (addresses_of (map (nbr_entry s) ns))" using n l by (auto simp: nbr_entry_def)
    ultimately show ?thesis using g Some n l by simp
  qed
qed

text \<open>A new neighbour: its entry, and what the rest of the state keeps.\<close>

definition new_entry :: "tsch_config \<Rightarrow> linkaddr_t \<Rightarrow> nbr_entry" where
  "new_entry C a = (nbr_info.truncate (init_nbr C a)\<lparr>backoff_exponent := TSCH_MAC_MIN_BE C\<rparr>, [])"

definition ensure_nbr :: "tsch_config \<Rightarrow> nat \<Rightarrow> linkaddr_t \<Rightarrow> nbr_entry list \<Rightarrow> nbr_entry list" where
  "ensure_nbr C m a es =
     (if a \<in> set (addresses_of es) \<or> \<not> length es < m then es else es @ [new_entry C a])"

definition nbr_blocks :: "'a tsch_scheme \<Rightarrow> ptr set" where
  "nbr_blocks s = block (neighbor_memb s) ` {..< num (neighbor_memb s)}"

text \<open>From \<open>s\<close> to \<open>t\<close> only neighbours, packets and the lock changed.\<close>

definition tq_frame :: "'a tsch_scheme \<Rightarrow> 'a tsch_scheme \<Rightarrow> bool" where
  "tq_frame s t \<longleftrightarrow> (\<forall>l. l \<noteq> neighbor_list \<longrightarrow> heads t l = heads s l) \<and> (\<forall>x. x \<notin> nbr_blocks s \<longrightarrow> nxt t x = nxt s x) \<and>
     same_pool (neighbor_memb s) (neighbor_memb t) \<and> num (packet_memb t) = num (packet_memb s) \<and>
     tsch_is_coordinator t = tsch_is_coordinator s \<and> tsch.more t = tsch.more s"


lemma tq_frame_refl [simp]: "tq_frame s s"
  by (simp add: tq_frame_def)

lemma nbr_blocks_same: "same_pool (neighbor_memb s) (neighbor_memb t) \<Longrightarrow> nbr_blocks t = nbr_blocks s"
  by (simp add: nbr_blocks_def same_pool_def block_def)

lemma tq_frame_trans: "tq_frame s t \<Longrightarrow> tq_frame t u \<Longrightarrow> tq_frame s u"
  using nbr_blocks_same [of s t] by (auto simp: tq_frame_def same_pool_def)

lemma ring_inv_init:
  assumes "config_ok C k"
  shows "indexed_inv k (tx_ringbuf (init_nbr C a), tx_array (init_nbr C a))"
    and "indexed_elems (tx_ringbuf (init_nbr C a), tx_array (init_nbr C a)) = []"
proof -
  have k: "k \<le> 8" "TSCH_QUEUE_NUM_PER_NEIGHBOR C = 2 ^ k" using assms by (simp_all add: config_ok_def)
  have "index_inv k (ringbufindex_init (2 ^ k))" using init_mask [OF k(1)] k(1) by (simp add: index_inv_def ringbufindex_init_def)
  then show "indexed_inv k (tx_ringbuf (init_nbr C a), tx_array (init_nbr C a))"
    using k by (simp add: indexed_inv_def init_nbr_def)
  show "indexed_elems (tx_ringbuf (init_nbr C a), tx_array (init_nbr C a)) = []"
    by (simp add: indexed_elems_def init_nbr_def ringbufindex_init_def ringbufindex_elements_def)
qed

lemma add_nbr_spec:
  assumes inv: "tq_inv C k s ns" and C: "config_ok C k" and a: "length a = lsize C"
  shows "\<exists>n t ns'. tsch_queue_add_nbr C a s = Some (n, t) \<and> tq_inv C k t ns' \<and> tq_frame s t \<and>
    map (nbr_entry t) ns' = ensure_nbr C (num (neighbor_memb s)) a (map (nbr_entry s) ns) \<and>
    (if a \<in> set (addresses_of (map (nbr_entry t) ns')) then n \<in> set ns' \<and> n_addr (neighbor t n) = a \<and> n \<noteq> NULL else n = NULL) \<and>
    (\<forall>x \<in> set ns. x \<in> set ns' \<and> nbr_entry t x = nbr_entry s x)"
proof -
  obtain n where g: "tsch_queue_get_nbr C a s = Some n"
    "if a \<in> set (addresses_of (map (nbr_entry s) ns)) then n \<in> set ns \<and> n_addr (neighbor s n) = a \<and> n \<noteq> NULL else n = NULL"
    using get_nbr_spec [OF inv a] by blast
  show ?thesis
  proof (cases "a \<in> set (addresses_of (map (nbr_entry s) ns))")
    case True
    then have "tsch_queue_add_nbr C a s = Some (n, s)" using g by (simp add: tsch_queue_add_nbr_def)
    then show ?thesis using True g(2) inv by (intro exI [of _ n] exI [of _ s] exI [of _ ns]) (simp add: ensure_nbr_def)
  next
    case False
    then have n: "n = NULL" using g(2) by simp
    define s1 where "s1 = s\<lparr>tsch_lock_requested := False, tsch_locked := True\<rparr>"
    have lk: "tsch_get_lock s = Some (True, s1)" using inv by (simp add: tsch_get_lock_def tq_inv_def s1_def)
    have o: "owned (neighbor_memb s) id (set ns)" and l: "is_list s neighbor_list ns" and di: "distinct (map (\<lambda>n. n_addr (neighbor s n)) ns)"
      and nu: "\<And>n. n \<in> set ns \<Longrightarrow> length (n_addr (neighbor s n)) = lsize C \<and> indexed_inv k (tx_ringbuf (neighbor s n), tx_array (neighbor s n))"
      and pk: "packets_ok C s (queued s ns)" using inv by (simp_all add: tq_inv_def)
    have "length ns = card (set ns)" using distinct_card [OF is_list_distinct [OF l]] by simp
    show ?thesis
    proof (cases "length ns < num (neighbor_memb s)")
      case full: False
      define t where "t = s\<lparr>tsch_lock_requested := False\<rparr>"
      have "memb_alloc (neighbor_memb s) = (NULL, neighbor_memb s)" using owned_full [OF o] full \<open>length ns = card (set ns)\<close> by simp
      then have "tsch_queue_add_nbr C a s = Some (NULL, t)"
        using g(1) n lk inv by (simp add: tsch_queue_add_nbr_def s1_def tsch_release_lock_def t_def tq_inv_def)
      moreover have e: "nbr_entry t = nbr_entry s" "queued t ns = queued s ns"
        by (simp_all add: fun_eq_iff nbr_entry_def ring_def pkt_def ram_of_def t_def queued_def cong: map_cong)
      moreover have "tq_inv C k t ns"
        using inv packets_ok_cong [of t s C] e(2) by (simp add: tq_inv_def) (simp add: t_def is_list_def)
      moreover have "tq_frame s t" by (simp add: tq_frame_def t_def)
      ultimately show ?thesis using False full
        by (intro exI [of _ NULL] exI [of _ t] exI [of _ ns]) (simp add: ensure_nbr_def)
    next
      case room: True
      obtain p m where p: "memb_alloc (neighbor_memb s) = (p, m)" "p \<noteq> NULL" "p \<notin> set ns" "same_pool (neighbor_memb s) m"
        "owned m id (insert p (set ns))"
        using owned_alloc_self [OF o] room \<open>length ns = card (set ns)\<close> by metis
      have "\<not> tsch_locked s" using inv by (simp add: tq_inv_def)
      define v where "v = (init_nbr C a)\<lparr>backoff_window := 0, backoff_exponent := TSCH_MAC_MIN_BE C\<rparr>"
      define s2 where "s2 = tsch_queue_backoff_reset C p (set_nbr p (init_nbr C a) (set_next p NULL (s1\<lparr>neighbor_memb := m\<rparr>)))"
      have s2: "heads s2 = heads s" "nxt s2 = (nxt s)(p := NULL)" "neighbor s2 = (neighbor s)(p := v)"
        "lstore.more s2 = lstore.more (s1\<lparr>neighbor_memb := m, neighbor := (neighbor s)(p := v)\<rparr>)"
        by (cases s; simp add: s2_def tsch_queue_backoff_reset_def set_nbr_def set_next_def s1_def v_def)+
      have "is_list s2 neighbor_list ns" using l p(3) by (simp add: is_list_def s2)
      from list_add_spec [OF this p(2)] obtain u where u: "list_add neighbor_list p s2 = Some u" "is_list u neighbor_list (ns @ [p])"
        "list_frame neighbor_list (insert p (set ns)) s2 u" using p(3) by (auto simp: remove1_idem)
      have um: "lstore.more u = lstore.more s2" using u(3) by (simp add: list_frame_def)
      define t where "t = tsch_release_lock u"
      have run: "tsch_queue_add_nbr C a s = Some (p, t)"
        using g(1) n lk p(1,2) u(1) by (simp add: tsch_queue_add_nbr_def s1_def s2_def t_def Let_def)
      have t: "t = s\<lparr>heads := heads u, nxt := nxt u, tsch_lock_requested := False, neighbor_memb := m, neighbor := (neighbor s)(p := v)\<rparr>"
        using trans [OF um s2(4)] \<open>\<not> tsch_locked s\<close> by (cases s; cases u) (simp add: t_def tsch_release_lock_def s1_def)
      have v: "length (n_addr v) = lsize C" "n_addr v = a" "indexed_inv k (tx_ringbuf v, tx_array v)" "indexed_elems (tx_ringbuf v, tx_array v) = []"
        using ring_inv_init [OF C, of a] a by (simp_all add: v_def) (simp_all add: init_nbr_def)
      have rp: "ring t p = []" using v(4) by (simp add: ring_def t)
      have old: "neighbor t x = neighbor s x" "ring t x = ring s x" "nbr_entry t x = nbr_entry s x" if "x \<in> set ns" for x
      proof -
        show e: "neighbor t x = neighbor s x" using that p(3) by (auto simp: t)
        then show r: "ring t x = ring s x" by (rule ring_cong)
        have "pkt t = pkt s" by (simp add: fun_eq_iff pkt_def ram_of_def t)
        then show "nbr_entry t x = nbr_entry s x" by (simp only: nbr_entry_def e r)
      qed
      have q: "queued t (ns @ [p]) = queued s ns" using rp old(2) queued_cong [of ns t s] by (simp add: queued_def)
      have ent: "map (nbr_entry t) (ns @ [p]) = map (nbr_entry s) ns @ [new_entry C a]"
        using old(3) rp by (simp add: nbr_entry_def new_entry_def) (simp add: t v_def nbr_info.truncate_def init_nbr_def)
      have an: "a \<notin> n_addr ` neighbor s ` set ns" using False by (auto simp: nbr_entry_def)
      have am: "map (\<lambda>x. n_addr (neighbor t x)) (ns @ [p]) = map (\<lambda>x. n_addr (neighbor s x)) ns @ [a]"
        using old(1) v(2) by (simp add: t)
      have "distinct (map (\<lambda>x. n_addr (neighbor t x)) (ns @ [p]))" unfolding am using di an by (simp add: image_image)
      moreover have "is_list t neighbor_list (ns @ [p])" using u(2) by (simp add: is_list_def t)
      moreover have "\<forall>x \<in> set (ns @ [p]). length (n_addr (neighbor t x)) = lsize C \<and> indexed_inv k (tx_ringbuf (neighbor t x), tx_array (neighbor t x))"
        using old(1) nu v by (simp add: t)
      moreover have "packets_ok C t (queued t (ns @ [p]))" using pk q packets_ok_cong [of t s C] by (simp add: t)
      moreover have "owned (neighbor_memb t) id (set (ns @ [p]))" using p(5) by (simp add: t)
      moreover have "\<not> tsch_locked t" "\<not> tsch_in_slot_operation t" using inv by (simp_all add: tq_inv_def t)
      ultimately have inv_t: "tq_inv C k t (ns @ [p])" unfolding tq_inv_def by blast
      have fr: "tq_frame s t"
      proof -
        have "insert p (set ns) \<subseteq> nbr_blocks s"
          using owned_block [OF p(5)] p(4) by (auto simp: nbr_blocks_def same_pool_def block_def)
        then have "x \<notin> nbr_blocks s \<Longrightarrow> nxt u x = nxt s x" for x using u(3) by (auto simp: list_frame_def s2)
        moreover have "l \<noteq> neighbor_list \<Longrightarrow> heads u l = heads s l" for l using u(3) by (simp add: list_frame_def s2)
        ultimately show ?thesis using p(4) by (simp add: tq_frame_def t)
      qed
      have "ensure_nbr C (num (neighbor_memb s)) a (map (nbr_entry s) ns) = map (nbr_entry t) (ns @ [p])"
        using False room ent by (simp add: ensure_nbr_def)
      moreover have "a \<in> set (addresses_of (map (nbr_entry t) (ns @ [p])))" unfolding ent by (simp add: new_entry_def init_nbr_def a)
      moreover have "n_addr (neighbor t p) = a" using v(2) by (simp add: t)
      ultimately show ?thesis using run inv_t fr p(2) old(3)
        by (intro exI [of _ p] exI [of _ t] exI [of _ "ns @ [p]"]) simp
    qed
  qed
qed

section \<open>Packets\<close>

lemma queued_in: "n \<in> set ns \<Longrightarrow> set (ring s n) \<subseteq> set (queued s ns)"
  by (auto simp: queued_def)

lemma queued_split: "ns = us @ n # vs \<Longrightarrow> queued s ns = queued s us @ ring s n @ queued s vs"
  by (simp add: queued_def)

text \<open>Adding a packet to one ring, or taking one off, adds it to or takes it off all that is queued.\<close>

lemma queued_push:
  assumes "distinct ns" and "n \<in> set ns" and "ring t n = ring s n @ [p]" and "\<And>m. m \<in> set ns \<Longrightarrow> m \<noteq> n \<Longrightarrow> ring t m = ring s m"
  shows "mset (queued t ns) = add_mset p (mset (queued s ns))"
proof -
  obtain us vs where ns: "ns = us @ n # vs" using assms(2) by (meson split_list)
  then have "queued t us = queued s us" "queued t vs = queued s vs"
    using assms(1,4) by (intro queued_cong; auto)+
  then show ?thesis using assms(3) by (simp add: queued_split [OF ns])
qed

lemma queued_pop:
  assumes "distinct ns" and "n \<in> set ns" and "ring s n = p # ring t n" and "\<And>m. m \<in> set ns \<Longrightarrow> m \<noteq> n \<Longrightarrow> ring t m = ring s m"
  shows "mset (queued s ns) = add_mset p (mset (queued t ns))"
proof -
  obtain us vs where ns: "ns = us @ n # vs" using assms(2) by (meson split_list)
  then have "queued t us = queued s us" "queued t vs = queued s vs"
    using assms(1,4) by (intro queued_cong; auto)+
  then show ?thesis using assms(3) by (simp add: queued_split [OF ns])
qed

lemma nbr_ring: "tq_inv C k s ns \<Longrightarrow> n \<in> set ns \<Longrightarrow> indexed_inv k (tx_ringbuf (neighbor s n), tx_array (neighbor s n))"
  by (simp add: tq_inv_def)

text \<open>The two halves of a put, as \<open>tsch_queue_add_packet\<close> makes it.\<close>

lemma ring_push:
  assumes "indexed_inv k (r, d)"
  shows "if length (indexed_elems (r, d)) < 2 ^ k - 1
    then ringbufindex_peek_put r \<noteq> - 1 \<and> indexed_inv k (snd (ringbufindex_put r), d[nat (ringbufindex_peek_put r) := p]) \<and>
      indexed_elems (snd (ringbufindex_put r), d[nat (ringbufindex_peek_put r) := p]) = indexed_elems (r, d) @ [p]
    else ringbufindex_peek_put r = - 1"
proof (cases "length (indexed_elems (r, d)) < 2 ^ k - 1")
  case True
  then have "fst (indexed_put p (r, d))" using indexed.put_room [OF assms] by blast
  then have "ringbufindex_peek_put r \<noteq> - 1" by (auto simp: indexed_put_def Let_def)
  then have "indexed_put p (r, d) = (fst (ringbufindex_put r) \<noteq> 0, (snd (ringbufindex_put r), d[nat (ringbufindex_peek_put r) := p]))"
    by (simp add: indexed_put_def)
  then show ?thesis using True \<open>ringbufindex_peek_put r \<noteq> - 1\<close> indexed.put_room [OF assms True, of p] by simp
next
  case False
  then have "length (indexed_elems (r, d)) = 2 ^ k - 1" using indexed.bound [OF assms] by simp
  then have "ringbufindex_elements r = 2 ^ k - 1" by (simp add: indexed_elems_def)
  moreover have "index_inv k r" using assms by (simp add: indexed_inv_def)
  ultimately have "ringbufindex_peek_put r = - 1"
    using index_full_iff [of k r] elements_count [of k r] by (simp add: ringbufindex_peek_put_def)
  then show ?thesis using False by simp
qed

lemma ring_pop:
  assumes "indexed_inv k (r, d)"
  shows "case indexed_elems (r, d) of
      [] \<Rightarrow> ringbufindex_get r = (- 1, r) \<and> ringbufindex_empty r
    | p # ps \<Rightarrow> \<exists>i r'. ringbufindex_get r = (i, r') \<and> i \<noteq> - 1 \<and> d ! nat i = p \<and> indexed_inv k (r', d) \<and> indexed_elems (r', d) = ps \<and>
        \<not> ringbufindex_empty r \<and> ringbufindex_peek_get r = i"
proof (cases "indexed_elems (r, d)")
  case Nil
  then have "length (indexed_elems (r, d)) = 0" by simp
  then have "ringbufindex_elements r = 0" by (simp only: indexed_elems_def prod.case length_ring_elems)
  moreover from this have "\<not> (ri_put_ptr r - ri_get_ptr r) AND ri_mask r > 0" by (simp add: ringbufindex_elements_def unat_eq_0)
  ultimately show ?thesis using Nil by (simp add: ringbufindex_get_def ringbufindex_empty_def)
next
  case (Cons p ps)
  obtain i r' where g: "ringbufindex_get r = (i, r')" by force
  from indexed.get_first [OF assms Cons] g have i: "i \<noteq> - 1" "d ! nat i = p" "indexed_inv k (r', d)" "indexed_elems (r', d) = ps"
    by (auto simp: indexed_get_def split: if_splits)
  moreover have "ringbufindex_peek_get r = i" using g i(1) by (auto simp: ringbufindex_get_def ringbufindex_peek_get_def Let_def split: if_splits)
  moreover have "\<not> ringbufindex_empty r"
  proof -
    have "length (indexed_elems (r, d)) \<noteq> 0" using Cons by simp
    then show ?thesis by (simp only: indexed_elems_def prod.case length_ring_elems ringbufindex_empty_def not_False_eq_True)
  qed
  ultimately show ?thesis using Cons g by simp
qed

lemma packets_card:
  assumes "packets_ok C s ps"
  shows "card (set ps) = length ps" and "length ps \<le> num (packet_memb s)"
  using assms owned_card(3) [of "packet_memb s" id "set ps"] distinct_card [of ps] by (simp_all add: packets_ok_def)

text \<open>A packet is stored: its block, its queue buffer and the data.\<close>

lemma store_packet:
  fixes s :: "'a tsch_scheme"
  assumes ok: "packets_ok C s ps" and C: "config_ok C k" and fits: "packet_fits (bufsize C) x" and room: "length ps < num (packet_memb s)"
  obtains p m b q where "memb_alloc (packet_memb s) = (p, m)" "p \<noteq> NULL" "p \<notin> set ps"
    "queuebuf_new_from_packetbuf (bufsize C) x (qbufs s) = (b, q)" "b \<noteq> NULL" "num m = num (packet_memb s)"
    "\<forall>(t :: 'a tsch_scheme) ps' w. packet_memb t = m \<longrightarrow> qbufs t = q \<longrightarrow> packet_at t = (packet_at s)(p := w) \<longrightarrow> qb w = b \<longrightarrow>
       mset ps' = add_mset p (mset ps) \<longrightarrow>
       packets_ok C t ps' \<and> (\<forall>y \<in> set ps. pkt t y = pkt s y) \<and> pkt t p = (saved (bufsize C) x, sent w, sent_ptr w, transmissions w)"
proof -
  let ?f = "\<lambda>p. qb (packet_at s p)"
  have d: "distinct ps" and o: "owned (packet_memb s) id (set ps)" and ob: "owned (bufmem (qbufs s)) ?f (set ps)"
    and oa: "owned (buframmem (qbufs s)) (\<lambda>p. ram_ptr (qbufs s) (?f p)) (set ps)"
    and n: "num (bufmem (qbufs s)) = num (packet_memb s)" "num (buframmem (qbufs s)) = num (packet_memb s)"
    and len: "\<And>p. p \<in> set ps \<Longrightarrow> length (fst (fst (pkt s p))) \<le> bufsize C"
    using ok by (simp_all add: packets_ok_def ram_of_def cong: owned_cong)
  have c: "card (set ps) < num (packet_memb s)" using packets_card(1) [OF ok] room by simp
  obtain p m where p: "memb_alloc (packet_memb s) = (p, m)" "p \<noteq> NULL" "p \<notin> set ps" "same_pool (packet_memb s) m" "owned m id (insert p (set ps))"
    using o c by (rule owned_alloc_self)
  have ps: "bufsize C \<le> 255" using C by (simp add: config_ok_def)
  have n': "num (buframmem (qbufs s)) = num (bufmem (qbufs s))" and c': "card (set ps) < num (bufmem (qbufs s))" using n c by simp_all
  obtain b q where b: "queuebuf_new_from_packetbuf (bufsize C) x (qbufs s) = (b, q)" "b \<noteq> NULL" "b \<notin> ?f ` set ps"
    "same_pool (bufmem (qbufs s)) (bufmem q)" "same_pool (buframmem (qbufs s)) (buframmem q)"
    "\<forall>g. (\<forall>y \<in> set ps. g y = ?f y) \<and> g p = b \<longrightarrow> owned (bufmem q) g (insert p (set ps)) \<and> owned (buframmem q) (\<lambda>y. ram_ptr q (g y)) (insert p (set ps))"
    "\<forall>y \<in> set ps. ram_ptr q (?f y) = ram_ptr (qbufs s) (?f y) \<and> qb_data q (ram_ptr (qbufs s) (?f y)) = qb_data (qbufs s) (ram_ptr (qbufs s) (?f y))"
    "holds_packet (qb_data q (ram_ptr q b)) (saved (bufsize C) x)"
    by (rule queuebuf_new_spec [OF ob oa n' ps fits c' p(3)])
  have "packets_ok C t ps' \<and> (\<forall>y \<in> set ps. pkt t y = pkt s y) \<and> pkt t p = (saved (bufsize C) x, sent w, sent_ptr w, transmissions w)"
    if t: "packet_memb t = m" "qbufs t = q" "packet_at t = (packet_at s)(p := w)" "qb w = b" and ps': "mset ps' = add_mset p (mset ps)" for t :: "'a tsch_scheme" and ps' w
  proof -
    have s': "set ps' = insert p (set ps)" using ps' by (metis set_mset_add_mset_insert set_mset_mset)
    have "distinct (p # ps)" using d p(3) by simp
    then have d': "distinct ps'" using mset_eq_imp_distinct_iff [of ps' "p # ps"] ps' by simp
    have g: "\<forall>y \<in> set ps. qb (packet_at t y) = ?f y" "qb (packet_at t p) = b" using p(3) t by auto
    from b(6) [THEN spec, of "\<lambda>y. qb (packet_at t y)"] g have ow: "owned (bufmem q) (\<lambda>y. qb (packet_at t y)) (insert p (set ps))"
      "owned (buframmem q) (\<lambda>y. ram_ptr q (qb (packet_at t y))) (insert p (set ps))" by simp_all
    have old: "pkt t y = pkt s y" if "y \<in> set ps" for y
      using that p(3) b(7) t by (auto simp: pkt_def ram_of_def)
    have new: "pkt t p = (saved (bufsize C) x, sent w, sent_ptr w, transmissions w)"
      using b(8) t by (simp add: pkt_def ram_of_def qcontent_holds)
    have "\<forall>y \<in> set ps'. length (fst (fst (pkt t y))) \<le> bufsize C"
      using old new len saved_length [OF fits ps] by (auto simp: s')
    moreover have "ram_of t = (\<lambda>y. ram_ptr q (qb (packet_at t y)))" by (simp add: fun_eq_iff ram_of_def t)
    ultimately show ?thesis using d' s' ow p(4,5) b(4,5) n old new t by (simp add: packets_ok_def same_pool_def)
  qed
  moreover have "num m = num (packet_memb s)" using p(4) by (simp add: same_pool_def)
  ultimately show thesis by (intro that [OF p(1-3) b(1,2)]) blast+
qed

section \<open>The queues as a data type\<close>

text \<open>What a neighbour's address selects, and a change to its entry.\<close>

definition change :: "linkaddr_t \<Rightarrow> (nbr_entry \<Rightarrow> nbr_entry) \<Rightarrow> nbr_entry list \<Rightarrow> nbr_entry list" where
  "change a f es = map (\<lambda>e. if n_addr (fst e) = a then f e else e) es"

definition queue_of :: "linkaddr_t \<Rightarrow> nbr_entry list \<Rightarrow> qpacket list" where
  "queue_of a es = concat (map snd (filter (\<lambda>e. n_addr (fst e) = a) es))"

definition total :: "nbr_entry list \<Rightarrow> nat" where
  "total es = sum_list (map (\<lambda>e. length (snd e)) es)"

lemma total_entries: "total (map (nbr_entry s) ns) = length (queued s ns)"
  by (simp add: total_def queued_def nbr_entry_def length_concat comp_def)

lemma entry_unique:
  assumes "distinct (map (\<lambda>n. n_addr (neighbor s n)) ns)" and "n \<in> set ns" and "m \<in> set ns" and "n_addr (neighbor s m) = n_addr (neighbor s n)"
  shows "m = n"
  using assms by (auto simp: distinct_map inj_on_def)

lemma queue_of_entry:
  assumes "distinct (map (\<lambda>n. n_addr (neighbor s n)) ns)" and "n \<in> set ns"
  shows "queue_of (n_addr (neighbor s n)) (map (nbr_entry s) ns) = map (pkt s) (ring s n)"
proof -
  obtain us vs where ns: "ns = us @ n # vs" using assms(2) by (meson split_list)
  have "filter (\<lambda>m. n_addr (neighbor s m) = n_addr (neighbor s n)) us = []" "filter (\<lambda>m. n_addr (neighbor s m) = n_addr (neighbor s n)) vs = []"
    using assms(1) by (auto simp: ns filter_empty_conv image_iff)
  then show ?thesis by (simp add: queue_of_def ns nbr_entry_def filter_map comp_def)
qed

lemma change_entry:
  assumes "distinct (map (\<lambda>n. n_addr (neighbor s n)) ns)" and "n \<in> set ns" and "n_addr (neighbor s n) = a"
    and "\<And>m. m \<in> set ns \<Longrightarrow> m \<noteq> n \<Longrightarrow> nbr_entry t m = nbr_entry s m" and "nbr_entry t n = f (nbr_entry s n)"
  shows "map (nbr_entry t) ns = change a f (map (nbr_entry s) ns)"
  unfolding change_def map_map comp_def
proof (rule map_cong [OF refl])
  fix m
  assume m: "m \<in> set ns"
  show "nbr_entry t m = (if n_addr (fst (nbr_entry s m)) = a then f (nbr_entry s m) else nbr_entry s m)"
  proof (cases "m = n")
    case True
    then show ?thesis using assms(3,5) by (simp add: nbr_entry_def)
  next
    case False
    then have "n_addr (neighbor s m) \<noteq> a" using entry_unique [OF assms(1,2) m] assms(3) by auto
    then show ?thesis using assms(4) [OF m False] by (simp add: nbr_entry_def)
  qed
qed

text \<open>A state in which one neighbour differs from another state.\<close>

lemma tq_inv_set:
  assumes inv: "tq_inv C k s ns" and n: "n \<in> set ns" and N: "neighbor t = (neighbor s)(n := v)"
    and same: "heads t = heads s" "nxt t = nxt s" "tsch_locked t = tsch_locked s" "tsch_in_slot_operation t = tsch_in_slot_operation s"
      "neighbor_memb t = neighbor_memb s"
    and v: "n_addr v = n_addr (neighbor s n)" "indexed_inv k (tx_ringbuf v, tx_array v)"
    and p: "packets_ok C t (queued t ns)"
  shows "tq_inv C k t ns"
proof -
  have "\<And>m. n_addr (neighbor t m) = n_addr (neighbor s m)" using v(1) by (simp add: N)
  moreover have "is_list t neighbor_list ns" using inv same by (simp add: tq_inv_def is_list_def)
  moreover have "\<forall>m \<in> set ns. indexed_inv k (tx_ringbuf (neighbor t m), tx_array (neighbor t m))"
    using inv v(2) by (simp add: N tq_inv_def)
  ultimately show ?thesis using inv same p by (simp add: tq_inv_def)
qed

definition put_packet :: "tsch_config \<Rightarrow> nat \<Rightarrow> nat \<Rightarrow> nat \<Rightarrow> linkaddr_t \<Rightarrow> qpacket \<Rightarrow> nbr_entry list \<Rightarrow> bool \<times> nbr_entry list" where
  "put_packet C k m l a q es =
     (let es = ensure_nbr C m a es
      in if a \<in> set (addresses_of es) \<and> length (queue_of a es) < 2 ^ k - 1 \<and> total es < l
         then (True, change a (\<lambda>(i, qs). (i, qs @ [q])) es) else (False, es))"

lemma add_packet_spec:
  fixes s :: "'a tsch_scheme"
  assumes inv: "tq_inv C k s ns" and C: "config_ok C k" and a: "length a = lsize C" and fits: "packet_fits (bufsize C) x"
  shows "\<exists>p t ns'. tsch_queue_add_packet C a cb d x s = Some (p, t) \<and> tq_inv C k t ns' \<and> tq_frame s t \<and>
    put_packet C k (num (neighbor_memb s)) (num (packet_memb s)) a (saved (bufsize C) x, cb, d, 0) (map (nbr_entry s) ns) =
      (p \<noteq> NULL, map (nbr_entry t) ns')"
proof -
  obtain n u ns' where u: "tsch_queue_add_nbr C a s = Some (n, u)" and iu: "tq_inv C k u ns'" and fu: "tq_frame s u"
    and eu: "map (nbr_entry u) ns' = ensure_nbr C (num (neighbor_memb s)) a (map (nbr_entry s) ns)"
    and n: "if a \<in> set (addresses_of (map (nbr_entry u) ns')) then n \<in> set ns' \<and> n_addr (neighbor u n) = a \<and> n \<noteq> NULL else n = NULL"
    using add_nbr_spec [OF inv C a] by (elim exE conjE) (rule that)
  have lk: "\<not> tsch_is_locked s" using inv by (simp add: tq_inv_def tsch_is_locked_def)
  let ?q = "(saved (bufsize C) x, cb, d, 0)"
  have put: "put_packet C k (num (neighbor_memb s)) (num (packet_memb s)) a ?q (map (nbr_entry s) ns) =
     (if a \<in> set (addresses_of (map (nbr_entry u) ns')) \<and> length (queue_of a (map (nbr_entry u) ns')) < 2 ^ k - 1 \<and> length (queued u ns') < num (packet_memb s)
      then (True, change a (\<lambda>(i, qs). (i, qs @ [?q])) (map (nbr_entry u) ns')) else (False, map (nbr_entry u) ns'))"
    by (simp only: put_packet_def Let_def eu [symmetric] total_entries)
  show ?thesis
  proof (cases "a \<in> set (addresses_of (map (nbr_entry u) ns'))")
    case False
    then have "tsch_queue_add_packet C a cb d x s = Some (NULL, u)" using n lk u by (simp add: tsch_queue_add_packet_def)
    then show ?thesis using False iu fu unfolding put by (intro exI [of _ NULL] exI [of _ u] exI [of _ ns']) simp
  next
    case True
    then have nn: "n \<in> set ns'" "n_addr (neighbor u n) = a" "n \<noteq> NULL" using n by simp_all
    let ?r = "tx_ringbuf (neighbor u n)" and ?d = "tx_array (neighbor u n)"
    have ri: "indexed_inv k (?r, ?d)" using iu nn(1) by (rule nbr_ring)
    have di: "distinct (map (\<lambda>n. n_addr (neighbor u n)) ns')" and pk: "packets_ok C u (queued u ns')" and dn: "distinct ns'"
      using iu is_list_distinct [of u neighbor_list ns'] by (simp_all add: tq_inv_def)
    have qo: "queue_of a (map (nbr_entry u) ns') = map (pkt u) (ring u n)" using queue_of_entry [OF di nn(1)] nn(2) by simp
    have le: "length (ring u n) = length (indexed_elems (?r, ?d))" by (simp only: ring_def)
    have nm: "num (packet_memb u) = num (packet_memb s)" using fu by (simp add: tq_frame_def)
    show ?thesis
    proof (cases "length (ring u n) < 2 ^ k - 1")
      case False
      then have "ringbufindex_peek_put ?r = - 1" using ring_push [OF ri, of NULL] le by (metis if_not_P)
      then have "tsch_queue_add_packet C a cb d x s = Some (NULL, u)" using nn(3) lk u by (simp add: tsch_queue_add_packet_def)
      then show ?thesis using False iu fu unfolding put qo by (intro exI [of _ NULL] exI [of _ u] exI [of _ ns']) simp
    next
      case room: True
      note rp = ring_push [OF ri, unfolded if_P [OF room [unfolded le]]]
      show ?thesis
      proof (cases "length (queued u ns') < num (packet_memb u)")
        case False
        have "owned (packet_memb u) id (set (queued u ns'))" using pk by (simp add: packets_ok_def)
        then have "memb_alloc (packet_memb u) = (NULL, packet_memb u)" using owned_full packets_card(1) [OF pk] False by metis
        then have "tsch_queue_add_packet C a cb d x s = Some (NULL, u)" using nn(3) lk u rp
          by (simp add: tsch_queue_add_packet_def Let_def)
        then show ?thesis using False iu fu nm unfolding put qo by (intro exI [of _ NULL] exI [of _ u] exI [of _ ns']) simp
      next
        case fits_pool: True
        obtain p m b q where p: "memb_alloc (packet_memb u) = (p, m)" "p \<noteq> NULL" "p \<notin> set (queued u ns')"
          "queuebuf_new_from_packetbuf (bufsize C) x (qbufs u) = (b, q)" "b \<noteq> NULL" "num m = num (packet_memb u)"
          and st: "\<forall>(t :: 'a tsch_scheme) ps' w. packet_memb t = m \<longrightarrow> qbufs t = q \<longrightarrow> packet_at t = (packet_at u)(p := w) \<longrightarrow> qb w = b \<longrightarrow>
             mset ps' = add_mset p (mset (queued u ns')) \<longrightarrow>
             packets_ok C t ps' \<and> (\<forall>y \<in> set (queued u ns'). pkt t y = pkt u y) \<and> pkt t p = (saved (bufsize C) x, sent w, sent_ptr w, transmissions w)"
          by (rule store_packet [OF pk C fits fits_pool])
        define i where "i = ringbufindex_peek_put ?r"
        define v where "v = (neighbor u n)\<lparr>tx_array := ?d[nat i := p], tx_ringbuf := snd (ringbufindex_put ?r)\<rparr>"
        define w where "w = (packet_at u p)\<lparr>qb := b, sent := cb, sent_ptr := d, ret := MAC_TX_DEFERRED, transmissions := 0\<rparr>"
        define t where "t = u\<lparr>packet_memb := m, qbufs := q, packet_at := (packet_at u)(p := w), neighbor := (neighbor u)(n := v)\<rparr>"
        have "i \<noteq> - 1" using rp by (simp add: i_def)
        then have run: "tsch_queue_add_packet C a cb d x s = Some (p, t)"
          using nn(3) lk u p by (simp add: tsch_queue_add_packet_def Let_def t_def v_def w_def set_nbr_def i_def)
        have rt: "ring t n = ring u n @ [p]" "ring t y = ring u y" if "y \<noteq> n" for y
          using rp that by (simp_all add: ring_def t_def v_def i_def)
        have rn: "ring t n = ring u n @ [p]" using rp by (simp add: ring_def t_def v_def i_def)
        have "mset (queued t ns') = add_mset p (mset (queued u ns'))" by (rule queued_push [OF dn nn(1) rn rt(2)])
        then have ok: "packets_ok C t (queued t ns')" and old: "\<forall>y \<in> set (queued u ns'). pkt t y = pkt u y" and new: "pkt t p = ?q"
          using st [rule_format, of t w "queued t ns'"] by (simp_all add: t_def) (simp_all add: w_def)
        have "indexed_inv k (tx_ringbuf v, tx_array v)" using rp by (simp add: v_def i_def)
        then have it: "tq_inv C k t ns'"
          by (intro tq_inv_set [OF iu nn(1), of t v] ok) (simp_all add: t_def v_def)
        have en: "nbr_entry t y = nbr_entry u y" if "y \<in> set ns'" "y \<noteq> n" for y
        proof -
          have "map (pkt t) (ring u y) = map (pkt u) (ring u y)" using old queued_in [OF that(1), of u] by (intro map_cong) auto
          then show ?thesis using rt(2) [OF that(2)] that(2) by (simp add: nbr_entry_def) (simp add: t_def)
        qed
        have "map (pkt t) (ring u n) = map (pkt u) (ring u n)" using old queued_in [OF nn(1), of u] by (intro map_cong) auto
        then have e: "nbr_entry t n = (\<lambda>(i, qs). (i, qs @ [?q])) (nbr_entry u n)"
          using rn new by (simp add: nbr_entry_def) (simp add: t_def v_def nbr_info.truncate_def)
        have "map (nbr_entry t) ns' = change a (\<lambda>(i, qs). (i, qs @ [?q])) (map (nbr_entry u) ns')"
          by (intro change_entry [OF di nn(1,2)] en e)
        moreover have "tq_frame s t" using tq_frame_trans [OF fu, of t] p(6) by (simp add: tq_frame_def t_def)
        ultimately show ?thesis using run it p(2) True room fits_pool nm unfolding put qo
          by (intro exI [of _ p] exI [of _ t] exI [of _ ns']) simp
      qed
    qed
  qed
qed

subsection \<open>Taking packets off\<close>

text \<open>The invariant of the neighbours in \<open>ns\<close>, whether they are all in the list or not.\<close>

definition tq_core :: "tsch_config \<Rightarrow> nat \<Rightarrow> 'a tsch_scheme \<Rightarrow> ptr list \<Rightarrow> bool" where
  "tq_core C k s ns \<longleftrightarrow> \<not> tsch_locked s \<and> \<not> tsch_in_slot_operation s \<and>
     owned (neighbor_memb s) id (set ns) \<and> distinct (map (\<lambda>n. n_addr (neighbor s n)) ns) \<and>
     (\<forall>n \<in> set ns. length (n_addr (neighbor s n)) = lsize C \<and> indexed_inv k (tx_ringbuf (neighbor s n), tx_array (neighbor s n))) \<and>
     packets_ok C s (queued s ns)"

lemma tq_inv_core: "tq_inv C k s ns \<longleftrightarrow> is_list s neighbor_list ns \<and> tq_core C k s ns"
  by (auto simp: tq_inv_def tq_core_def)

lemma core_distinct: "tq_core C k s ns \<Longrightarrow> distinct ns"
  by (simp add: tq_core_def distinct_map)

lemma core_nonNULL: "tq_core C k s ns \<Longrightarrow> n \<in> set ns \<Longrightarrow> n \<noteq> NULL"
  using owned_nonNULL [of "neighbor_memb s" id "set ns" n] by (simp add: tq_core_def)

lemma drop_packet:
  assumes ok: "packets_ok C s ps" and ps': "mset ps = add_mset p (mset ps')" and w: "qb w = qb (packet_at s p)"
    and t: "t = tsch_queue_free_packet p (s\<lparr>neighbor := N, packet_at := (packet_at s)(p := w), tsch.more := x\<rparr>)"
  shows "p \<noteq> NULL \<and> packets_ok C t ps' \<and> (\<forall>y \<in> set ps'. pkt t y = pkt s y) \<and>
    (\<exists>m q. t = s\<lparr>neighbor := N, packet_at := (packet_at s)(p := w), tsch.more := x, packet_memb := m, qbufs := q\<rparr> \<and> num m = num (packet_memb s))"
proof -
  let ?f = "\<lambda>p. qb (packet_at s p)"
  have d: "distinct ps" and o: "owned (packet_memb s) id (set ps)" and ob: "owned (bufmem (qbufs s)) ?f (set ps)"
    and oa: "owned (buframmem (qbufs s)) (\<lambda>p. ram_ptr (qbufs s) (?f p)) (set ps)"
    and n: "num (bufmem (qbufs s)) = num (packet_memb s)" "num (buframmem (qbufs s)) = num (packet_memb s)"
    and len: "\<And>p. p \<in> set ps \<Longrightarrow> length (fst (fst (pkt s p))) \<le> bufsize C"
    using ok by (simp_all add: packets_ok_def ram_of_def cong: owned_cong)
  have "mset ps = mset (p # ps')" using ps' by simp
  then have d': "distinct (p # ps')" and s': "set ps = set (p # ps')" using d mset_eq_imp_distinct_iff mset_eq_setD by blast+
  then have p: "p \<in> set ps" and rest: "set ps - {p} = set ps'" by auto
  obtain m where m: "memb_free (packet_memb s) p = (0, m)" "owned m id (set ps - {p})" "same_pool (packet_memb s) m"
    using o p by (rule owned_free_self)
  obtain mb ma where q: "queuebuf_free (?f p) (qbufs s) = (qbufs s)\<lparr>buframmem := ma, bufmem := mb\<rparr>" "same_pool (bufmem (qbufs s)) mb" "same_pool (buframmem (qbufs s)) ma"
    "owned mb ?f (set ps - {p})" "owned ma (\<lambda>x. ram_ptr (qbufs s) (?f x)) (set ps - {p})" using ob oa p by (rule queuebuf_free_spec)
  have nz: "p \<noteq> NULL" using owned_nonNULL [OF o p] by simp
  have tt: "t = s\<lparr>neighbor := N, packet_at := (packet_at s)(p := w), tsch.more := x, packet_memb := m,
      qbufs := (qbufs s)\<lparr>buframmem := ma, bufmem := mb\<rparr>\<rparr>"
    using t nz m(1) q(1) w by (simp add: tsch_queue_free_packet_def)
  have same: "packet_at t y = packet_at s y" "pkt t y = pkt s y" "ram_of t y = ram_ptr (qbufs s) (?f y)" if "y \<in> set ps'" for y
    using that d' by (auto simp: tt pkt_def ram_of_def)
  have "owned mb (\<lambda>y. qb (packet_at t y)) (set ps')" using q(4) same(1) rest owned_cong [of "set ps'" "\<lambda>y. qb (packet_at t y)" ?f mb] by simp
  moreover have "owned ma (ram_of t) (set ps')"
    using q(5) same(3) rest owned_cong [of "set ps'" "ram_of t" "\<lambda>y. ram_ptr (qbufs s) (?f y)" ma] by simp
  moreover have f: "packet_memb t = m" "bufmem (qbufs t) = mb" "buframmem (qbufs t) = ma" by (simp_all add: tt)
  moreover have "\<forall>y \<in> set ps'. length (fst (fst (pkt t y))) \<le> bufsize C" using len same(2) s' by simp
  ultimately have "packets_ok C t ps'" using d' m(2,3) n q(2,3) rest by (simp add: packets_ok_def same_pool_def)
  moreover have "num m = num (packet_memb s)" using m(3) by (simp add: same_pool_def)
  ultimately show ?thesis using nz same(2) tt by blast
qed

text \<open>Taking the first packet off a ring and freeing it, whatever happens to its \<open>ret\<close> and its callback's state between.\<close>

lemma pop_packet:
  fixes s :: "'a tsch_scheme"
  assumes core: "tq_core C k s ns" and n: "n \<in> set ns" and r: "ring s n = p # ps"
  shows "\<exists>v. tsch_queue_remove_packet_from_queue n s = (p, set_nbr n v s) \<and> p \<noteq> NULL \<and>
    (\<forall>w x t. qb w = qb (packet_at s p) \<longrightarrow>
       t = tsch_queue_free_packet p (s\<lparr>neighbor := (neighbor s)(n := v), packet_at := (packet_at s)(p := w), tsch.more := x\<rparr>) \<longrightarrow>
       tq_core C k t ns \<and> heads t = heads s \<and> nxt t = nxt s \<and> tq_frame (s\<lparr>tsch.more := x\<rparr>) t \<and>
       nbr_entry t n = (fst (nbr_entry s n), tl (snd (nbr_entry s n))) \<and> ring t n = ps \<and>
       (\<forall>m \<in> set ns. m \<noteq> n \<longrightarrow> nbr_entry t m = nbr_entry s m) \<and> (\<forall>m. m \<noteq> n \<longrightarrow> neighbor t m = neighbor s m))"
proof -
  let ?r = "tx_ringbuf (neighbor s n)" and ?d = "tx_array (neighbor s n)"
  have ri: "indexed_inv k (?r, ?d)" and pk: "packets_ok C s (queued s ns)" and lk: "\<not> tsch_is_locked s"
    and di: "distinct ns" and nn: "n \<noteq> NULL"
    using core n core_distinct [OF core] core_nonNULL [OF core n] by (simp_all add: tq_core_def tsch_is_locked_def)
  have "indexed_elems (?r, ?d) = p # ps" using r by (simp only: ring_def)
  from ring_pop [OF ri, unfolded this list.case] obtain i r' where i: "ringbufindex_get ?r = (i, r')" "i \<noteq> - 1" "?d ! nat i = p"
    "indexed_inv k (r', ?d)" "indexed_elems (r', ?d) = ps" by blast
  define v where "v = (neighbor s n)\<lparr>tx_ringbuf := r'\<rparr>"
  have "p \<in> set (queued s ns)" using queued_in [OF n, of s] r by auto
  moreover have "owned (packet_memb s) id (set (queued s ns))" using pk by (simp add: packets_ok_def)
  ultimately have nz: "p \<noteq> NULL" using owned_nonNULL by fastforce
  have run: "tsch_queue_remove_packet_from_queue n s = (p, set_nbr n v s)"
    using lk nn i(1-3) by (simp add: tsch_queue_remove_packet_from_queue_def Let_def set_nbr_def v_def)
  have "tq_core C k t ns \<and> heads t = heads s \<and> nxt t = nxt s \<and> tq_frame (s\<lparr>tsch.more := x\<rparr>) t \<and>
       nbr_entry t n = (fst (nbr_entry s n), tl (snd (nbr_entry s n))) \<and> ring t n = ps \<and>
       (\<forall>m \<in> set ns. m \<noteq> n \<longrightarrow> nbr_entry t m = nbr_entry s m) \<and> (\<forall>m. m \<noteq> n \<longrightarrow> neighbor t m = neighbor s m)"
    if w: "qb w = qb (packet_at s p)" and t: "t = tsch_queue_free_packet p (s\<lparr>neighbor := (neighbor s)(n := v), packet_at := (packet_at s)(p := w), tsch.more := x\<rparr>)"
    for w x t
  proof -
    define u where "u = s\<lparr>neighbor := (neighbor s)(n := v)\<rparr>"
    have ru: "ring u n = ps" "ring u m = ring s m" if "m \<noteq> n" for m using i(5) that by (simp_all add: ring_def u_def v_def)
    have rn: "ring u n = ps" using i(5) by (simp add: ring_def u_def v_def)
    have "ring s n = p # ring u n" using r rn by simp
    then have "mset (queued s ns) = add_mset p (mset (queued u ns))" using queued_pop [OF di n, of s p u] ru(2) by simp
    from drop_packet [OF pk this w t] obtain m q where ok: "packets_ok C t (queued u ns)" "\<forall>y \<in> set (queued u ns). pkt t y = pkt s y"
      and tt: "t = s\<lparr>neighbor := (neighbor s)(n := v), packet_at := (packet_at s)(p := w), tsch.more := x, packet_memb := m, qbufs := q\<rparr>"
        "num m = num (packet_memb s)" by blast
    have N: "neighbor t = (neighbor s)(n := v)" and NN: "neighbor t = neighbor u" by (simp_all add: tt u_def)
    have rt: "ring t m = ring u m" for m using NN by (simp add: ring_def)
    have q: "queued t ns = queued u ns" by (rule queued_cong) (rule rt)
    have ad: "n_addr (neighbor t m) = n_addr (neighbor s m)" for m by (simp add: N v_def)
    have "indexed_inv k (tx_ringbuf (neighbor t m), tx_array (neighbor t m))" if "m \<in> set ns" for m
      using i(4) that core by (simp add: N v_def tq_core_def)
    moreover have "neighbor_memb t = neighbor_memb s" "tsch_locked t = tsch_locked s" "tsch_in_slot_operation t = tsch_in_slot_operation s"
      by (simp_all add: tt)
    ultimately have "tq_core C k t ns" using core ok(1) q ad by (simp add: tq_core_def)
    moreover have "tq_frame (s\<lparr>tsch.more := x\<rparr>) t" using tt(2) by (simp add: tq_frame_def tt(1))
    moreover have "map (pkt t) (ring t m) = map (pkt s) (ring t m)" if "m \<in> set ns" for m
      using ok(2) queued_in [OF that, of t] q by (intro map_cong) auto
    note pe = this
    have "nbr_entry t m = nbr_entry s m" if "m \<in> set ns" "m \<noteq> n" for m
      using pe [OF that(1)] ru(2) [OF that(2)] rt that(2) by (simp add: nbr_entry_def N)
    moreover have "nbr_entry t n = (fst (nbr_entry s n), tl (snd (nbr_entry s n)))"
      using pe [OF n] rn rt r by (simp add: nbr_entry_def N v_def nbr_info.truncate_def)
    ultimately show ?thesis using rn rt by (simp add: N) (simp add: tt)
  qed
  then show ?thesis using run nz by (intro exI [of _ v]) blast
qed

text \<open>The callback of a packet, when all it changes is the rest of the program's state, and the packets of a
  flushed queue reported to it in their order.\<close>

definition callback_ok :: "(ptr \<Rightarrow> ptr \<Rightarrow> u8 \<Rightarrow> u8 \<Rightarrow> 'a \<Rightarrow> 'a) \<Rightarrow> 'a sent_callback \<Rightarrow> bool" where
  "callback_ok g sent_cb \<longleftrightarrow> (\<forall>cb d r x s. sent_cb cb d r x s = s\<lparr>tsch.more := g cb d r x (tsch.more s)\<rparr>)"

definition report :: "(ptr \<Rightarrow> ptr \<Rightarrow> u8 \<Rightarrow> u8 \<Rightarrow> 'a \<Rightarrow> 'a) \<Rightarrow> qpacket \<Rightarrow> 'a \<Rightarrow> 'a" where
  "report g = (\<lambda>(_, cb, d, x) m. if cb \<noteq> NULL then g cb d MAC_TX_ERR x m else m)"

lemma flush_one_spec:
  assumes g: "callback_ok g sent_cb" and core: "tq_core C k s ns" and n: "n \<in> set ns" and r: "ring s n = p # ps"
  shows "let t = flush_one sent_cb n s in
    tq_core C k t ns \<and> heads t = heads s \<and> nxt t = nxt s \<and> tq_frame (s\<lparr>tsch.more := report g (pkt s p) (tsch.more s)\<rparr>) t \<and>
    nbr_entry t n = (fst (nbr_entry s n), tl (snd (nbr_entry s n))) \<and> ring t n = ps \<and>
    (\<forall>m \<in> set ns. m \<noteq> n \<longrightarrow> nbr_entry t m = nbr_entry s m) \<and> (\<forall>m. m \<noteq> n \<longrightarrow> neighbor t m = neighbor s m)"
proof -
  from pop_packet [OF core n r] obtain v where v: "tsch_queue_remove_packet_from_queue n s = (p, set_nbr n v s)" "p \<noteq> NULL"
    "\<forall>w x t. qb w = qb (packet_at s p) \<longrightarrow>
       t = tsch_queue_free_packet p (s\<lparr>neighbor := (neighbor s)(n := v), packet_at := (packet_at s)(p := w), tsch.more := x\<rparr>) \<longrightarrow>
       tq_core C k t ns \<and> heads t = heads s \<and> nxt t = nxt s \<and> tq_frame (s\<lparr>tsch.more := x\<rparr>) t \<and>
       nbr_entry t n = (fst (nbr_entry s n), tl (snd (nbr_entry s n))) \<and> ring t n = ps \<and>
       (\<forall>m \<in> set ns. m \<noteq> n \<longrightarrow> nbr_entry t m = nbr_entry s m) \<and> (\<forall>m. m \<noteq> n \<longrightarrow> neighbor t m = neighbor s m)" by blast
  define w where "w = (packet_at s p)\<lparr>ret := MAC_TX_ERR\<rparr>"
  define x where "x = report g (pkt s p) (tsch.more s)"
  have "flush_one sent_cb n s = tsch_queue_free_packet p (s\<lparr>neighbor := (neighbor s)(n := v), packet_at := (packet_at s)(p := w), tsch.more := x\<rparr>)"
    using v(1,2) g by (simp add: flush_one_def Let_def set_nbr_def w_def x_def report_def pkt_def callback_ok_def)
  moreover have "qb w = qb (packet_at s p)" by (simp add: w_def)
  ultimately show ?thesis using v(3) unfolding Let_def x_def [symmetric] by blast
qed

lemma flush_spec:
  assumes g: "callback_ok g sent_cb" and "tq_core C k s ns" and n: "n \<in> set ns"
  shows "\<exists>t. tsch_queue_flush_nbr_queue sent_cb n s = Some t \<and>
    tq_core C k t ns \<and> heads t = heads s \<and> nxt t = nxt s \<and>
    tq_frame (s\<lparr>tsch.more := fold (report g) (snd (nbr_entry s n)) (tsch.more s)\<rparr>) t \<and>
    nbr_entry t n = (fst (nbr_entry s n), []) \<and> ring t n = [] \<and>
    (\<forall>m \<in> set ns. m \<noteq> n \<longrightarrow> nbr_entry t m = nbr_entry s m) \<and> (\<forall>m. m \<noteq> n \<longrightarrow> neighbor t m = neighbor s m)"
  using assms(2)
proof (induction "ring s n" arbitrary: s)
  case Nil
  have lk: "\<not> tsch_is_locked s" and nn: "n \<noteq> NULL" and ri: "indexed_inv k (tx_ringbuf (neighbor s n), tx_array (neighbor s n))"
    using Nil.prems n core_nonNULL [OF Nil.prems n] by (simp_all add: tq_core_def tsch_is_locked_def)
  have "indexed_elems (tx_ringbuf (neighbor s n), tx_array (neighbor s n)) = []" using Nil.hyps by (simp add: ring_def)
  from ring_pop [OF ri, unfolded this list.case] have "tsch_queue_is_empty n s" using lk nn by (simp add: tsch_queue_is_empty_def)
  then have "tsch_queue_flush_nbr_queue sent_cb n s = Some s" by (simp add: tsch_queue_flush_nbr_queue.simps)
  then show ?case using Nil by (simp add: nbr_entry_def)
next
  case (Cons p ps)
  have ri: "indexed_inv k (tx_ringbuf (neighbor s n), tx_array (neighbor s n))" using Cons.prems n by (simp add: tq_core_def)
  have "indexed_elems (tx_ringbuf (neighbor s n), tx_array (neighbor s n)) = p # ps" using Cons.hyps(2) by (simp add: ring_def)
  from ring_pop [OF ri, unfolded this list.case] have "\<not> tsch_queue_is_empty n s" by (auto simp: tsch_queue_is_empty_def)
  then have run: "tsch_queue_flush_nbr_queue sent_cb n s = tsch_queue_flush_nbr_queue sent_cb n (flush_one sent_cb n s)"
    by (subst tsch_queue_flush_nbr_queue.simps) simp
  define u where "u = flush_one sent_cb n s"
  note one = flush_one_spec [OF g Cons.prems n Cons.hyps(2) [symmetric], folded u_def, unfolded Let_def]
  from Cons.hyps(1) [of u] one obtain t where t: "tsch_queue_flush_nbr_queue sent_cb n u = Some t"
    "tq_core C k t ns" "heads t = heads u" "nxt t = nxt u"
    "tq_frame (u\<lparr>tsch.more := fold (report g) (snd (nbr_entry u n)) (tsch.more u)\<rparr>) t"
    "nbr_entry t n = (fst (nbr_entry u n), [])" "ring t n = []"
    "\<forall>m \<in> set ns. m \<noteq> n \<longrightarrow> nbr_entry t m = nbr_entry u m" "\<forall>m. m \<noteq> n \<longrightarrow> neighbor t m = neighbor u m" by blast
  have "nbr_entry u n = (fst (nbr_entry s n), tl (snd (nbr_entry s n)))" using one by blast
  moreover have "snd (nbr_entry s n) = map (pkt s) (p # ps)" using Cons.hyps(2) by (simp add: nbr_entry_def)
  ultimately have e: "snd (nbr_entry s n) = pkt s p # snd (nbr_entry u n)" by simp
  have m: "tsch.more u = report g (pkt s p) (tsch.more s)" using one by (simp add: tq_frame_def)
  have "tq_frame (s\<lparr>tsch.more := x\<rparr>) (u\<lparr>tsch.more := x\<rparr>)" for x using one by (simp add: tq_frame_def nbr_blocks_def)
  from tq_frame_trans [OF this t(5)] have "tq_frame (s\<lparr>tsch.more := fold (report g) (snd (nbr_entry s n)) (tsch.more s)\<rparr>) t"
    by (simp add: e m)
  then show ?case using t one run u_def by (intro exI [of _ t]) simp
qed

lemma chain_rest: "chain n p (us @ vs) \<Longrightarrow> chain n (if vs = [] then NULL else hd vs) vs"
  by (induction us arbitrary: p) (cases vs; auto)+

text \<open>Without one neighbour whose queue is empty the rest still is as it should be.\<close>

lemma core_without:
  assumes core: "tq_core C k s ns" and n: "n \<in> set ns" and r: "ring s n = []" and m: "owned m id (set ns - {n})"
  shows "tq_core C k (s\<lparr>neighbor_memb := m\<rparr>) (remove1 n ns)"
proof -
  let ?t = "s\<lparr>neighbor_memb := m\<rparr>"
  have d: "distinct ns" using core by (rule core_distinct)
  obtain us vs where ns: "ns = us @ n # vs" "n \<notin> set us" using n by (meson split_list_first)
  have rt: "ring ?t = ring s" by (simp add: fun_eq_iff ring_def)
  then have "queued ?t (remove1 n ns) = queued s ns" using r by (simp add: ns remove1_append queued_def)
  moreover have "distinct (map (\<lambda>n. n_addr (neighbor s n)) (remove1 n ns))" using core by (auto simp: tq_core_def distinct_map intro: inj_on_subset)
  ultimately show ?thesis using core m d packets_ok_cong [of ?t s C] by (auto simp: tq_core_def)
qed

lemma remove_nbr_spec:
  assumes g: "callback_ok g sent_cb" and inv: "tq_inv C k s ns" and n: "n \<in> set ns"
  shows "\<exists>t. tsch_queue_remove_nbr sent_cb n s = Some t \<and> tq_inv C k t (remove1 n ns) \<and>
    tq_frame (s\<lparr>tsch.more := fold (report g) (snd (nbr_entry s n)) (tsch.more s)\<rparr>) t \<and>
    (\<forall>m \<in> set ns. m \<noteq> n \<longrightarrow> nbr_entry t m = nbr_entry s m)"
proof -
  have core: "tq_core C k s ns" and l: "is_list s neighbor_list ns" using inv by (simp_all add: tq_inv_core)
  have nn: "n \<noteq> NULL" using core n by (rule core_nonNULL)
  define s1 where "s1 = s\<lparr>tsch_lock_requested := False, tsch_locked := True\<rparr>"
  have lk: "tsch_get_lock s = Some (True, s1)" using inv by (simp add: tsch_get_lock_def tq_inv_def s1_def)
  have "is_list s1 neighbor_list ns" using l by (simp add: s1_def is_list_def)
  from list_remove_spec [OF this, of n] obtain u where u: "list_remove neighbor_list n s1 = Some u" "is_list u neighbor_list (remove1 n ns)"
    "list_frame neighbor_list (set ns) s1 u" by blast
  define v where "v = tsch_release_lock u"
  have um: "lstore.more u = lstore.more s1" using u(3) by (simp add: list_frame_def)
  have v: "v = s\<lparr>heads := heads u, nxt := nxt u, tsch_lock_requested := False\<rparr>"
    using um core by (cases s; cases u) (simp add: v_def tsch_release_lock_def s1_def tq_core_def)
  have e: "nbr_entry v x = nbr_entry s x" "ring v x = ring s x" for x by (simp_all add: nbr_entry_def ring_def pkt_def ram_of_def v)
  then have "queued v ns = queued s ns" by (intro queued_cong)
  then have "tq_core C k v ns" using core packets_ok_cong [of v s C] by (simp add: tq_core_def) (simp add: v)
  from flush_spec [OF g this n] obtain w where w: "tsch_queue_flush_nbr_queue sent_cb n v = Some w" "tq_core C k w ns" "heads w = heads v" "nxt w = nxt v"
    "tq_frame (v\<lparr>tsch.more := fold (report g) (snd (nbr_entry v n)) (tsch.more v)\<rparr>) w" "ring w n = []"
    "\<forall>m \<in> set ns. m \<noteq> n \<longrightarrow> nbr_entry w m = nbr_entry v m" by blast
  have "owned (neighbor_memb w) id (set ns)" using w(2) by (simp add: tq_core_def)
  then obtain m where m: "memb_free (neighbor_memb w) n = (0, m)" "owned m id (set ns - {n})" "same_pool (neighbor_memb w) m"
    using n by (rule owned_free_self)
  define t where "t = w\<lparr>neighbor_memb := m\<rparr>"
  have run: "tsch_queue_remove_nbr sent_cb n s = Some t"
    using nn lk u(1) w(1) m(1) by (simp add: tsch_queue_remove_nbr_def v_def t_def)
  have "heads v = heads u" "nxt v = nxt u" by (simp_all add: v)
  then have "is_list t neighbor_list (remove1 n ns)" using u(2) w(3,4) by (simp add: t_def is_list_def)
  then have it: "tq_inv C k t (remove1 n ns)" using core_without [OF w(2) n w(6) m(2)] by (simp add: tq_inv_core t_def)
  have en: "nbr_entry t x = nbr_entry w x" for x by (simp add: nbr_entry_def ring_def pkt_def ram_of_def t_def)
  have "set ns \<subseteq> nbr_blocks s"
  proof
    fix x
    assume "x \<in> set ns"
    moreover have "owned (neighbor_memb s) id (set ns)" using core by (simp add: tq_core_def)
    ultimately show "x \<in> nbr_blocks s" using owned_block [of "neighbor_memb s" id "set ns" x] by (simp add: nbr_blocks_def)
  qed
  then have "tq_frame (s\<lparr>tsch.more := x\<rparr>) (v\<lparr>tsch.more := x\<rparr>)" for x
    using u(3) by (auto simp: tq_frame_def nbr_blocks_def v list_frame_def s1_def)
  from tq_frame_trans [OF this w(5)] have "tq_frame (s\<lparr>tsch.more := fold (report g) (snd (nbr_entry s n)) (tsch.more s)\<rparr>) w"
    unfolding e by (simp add: v)
  moreover have "tq_frame w t" using m(3) by (simp add: tq_frame_def t_def)
  ultimately show ?thesis using run it en e w(7) by (intro exI [of _ t]) (auto dest: tq_frame_trans)
qed

subsection \<open>All neighbours\<close>

text \<open>Writing to a neighbour, but not to its address or its ring.\<close>

lemma set_info_spec:
  assumes inv: "tq_inv C k s ns" and n: "n \<in> set ns" and t: "t = set_nbr n v s"
    and v: "n_addr v = n_addr (neighbor s n)" "tx_array v = tx_array (neighbor s n)" "tx_ringbuf v = tx_ringbuf (neighbor s n)"
  shows "tq_inv C k t ns \<and> nbr_entry t = (nbr_entry s)(n := (nbr_info.truncate v, snd (nbr_entry s n))) \<and> tq_frame s t \<and>
    heads t = heads s \<and> nxt t = nxt s"
proof -
  have r: "ring t = ring s" using v by (simp add: fun_eq_iff ring_def t set_nbr_def)
  have p: "pkt t = pkt s" by (simp add: fun_eq_iff pkt_def ram_of_def t set_nbr_def)
  have "queued t ns = queued s ns" by (simp add: queued_def r)
  then have "packets_ok C t (queued t ns)" using inv packets_ok_cong [of t s C] by (simp add: tq_inv_def t set_nbr_def)
  moreover have "indexed_inv k (tx_ringbuf v, tx_array v)" using nbr_ring [OF inv n] v by simp
  ultimately have "tq_inv C k t ns" using v(1) by (intro tq_inv_set [OF inv n, of t v]) (simp_all add: t set_nbr_def)
  moreover have "nbr_entry t = (nbr_entry s)(n := (nbr_info.truncate v, snd (nbr_entry s n)))"
    by (simp add: fun_eq_iff nbr_entry_def r p) (simp add: t set_nbr_def)
  ultimately show ?thesis by (simp add: tq_frame_def t set_nbr_def)
qed

lemma inv_distinct: "tq_inv C k s ns \<Longrightarrow> distinct ns"
  using core_distinct [of C k s ns] by (simp add: tq_inv_core)

lemma inv_nonNULL: "tq_inv C k s ns \<Longrightarrow> n \<in> set ns \<Longrightarrow> n \<noteq> NULL"
  using core_nonNULL [of C k s ns n] by (simp add: tq_inv_core)

text \<open>The rest of the list, when a loop has come to it.\<close>

lemma inv_rest: "tq_inv C k s (us @ vs) \<Longrightarrow> chain (nxt s) (if vs = [] then NULL else hd vs) vs"
  using chain_rest [of "nxt s" "heads s neighbor_list" us vs] by (simp add: tq_inv_def is_list_def)

lemma chain_start: "chain n p vs \<Longrightarrow> p = (if vs = [] then NULL else hd vs)"
  by (cases vs) auto

text \<open>All queues are emptied, and back-off starts again.\<close>

definition reset_entry :: "tsch_config \<Rightarrow> nbr_entry \<Rightarrow> nbr_entry" where
  "reset_entry C e = ((fst e)\<lparr>backoff_window := 0, backoff_exponent := TSCH_MAC_MIN_BE C\<rparr>, [])"

lemma reset_loop_spec:
  assumes g: "callback_ok g sent_cb"
  shows "tq_inv C k s (us @ vs) \<Longrightarrow> chain (nxt s) p vs \<Longrightarrow>
    \<exists>t. reset_loop C sent_cb p s = Some t \<and> tq_inv C k t (us @ vs) \<and>
      tq_frame (s\<lparr>tsch.more := fold (report g) (concat (map (\<lambda>n. snd (nbr_entry s n)) vs)) (tsch.more s)\<rparr>) t \<and>
      map (nbr_entry t) (us @ vs) = map (nbr_entry s) us @ map (reset_entry C) (map (nbr_entry s) vs)"
proof (induction vs arbitrary: us s p)
  case Nil
  then show ?case by (intro exI [of _ s]) (simp add: reset_loop.simps)
next
  case (Cons n vs)
  then have p: "p = n" "n \<noteq> NULL" and c: "chain (nxt s) (nxt s n) vs" by auto
  have n: "n \<in> set (us @ n # vs)" by simp
  have core: "tq_core C k s (us @ n # vs)" and l: "is_list s neighbor_list (us @ n # vs)" using Cons.prems(1) by (simp_all add: tq_inv_core)
  from flush_spec [OF g core n] obtain u where u: "tsch_queue_flush_nbr_queue sent_cb n s = Some u" "tq_core C k u (us @ n # vs)"
    "heads u = heads s" "nxt u = nxt s" "tq_frame (s\<lparr>tsch.more := fold (report g) (snd (nbr_entry s n)) (tsch.more s)\<rparr>) u"
    "nbr_entry u n = (fst (nbr_entry s n), [])" "\<forall>m \<in> set (us @ n # vs). m \<noteq> n \<longrightarrow> nbr_entry u m = nbr_entry s m" by blast
  have "is_list u neighbor_list (us @ n # vs)" using l u(3,4) by (simp add: is_list_def)
  then have iu: "tq_inv C k u (us @ n # vs)" using u(2) by (simp add: tq_inv_core)
  define w where "w = tsch_queue_backoff_reset C n u"
  have wv: "w = set_nbr n ((neighbor u n)\<lparr>backoff_window := 0, backoff_exponent := TSCH_MAC_MIN_BE C\<rparr>) u"
    by (simp add: w_def tsch_queue_backoff_reset_def)
  from set_info_spec [OF iu n wv] have w: "tq_inv C k w (us @ n # vs)" "tq_frame u w" "nxt w = nxt s"
    "nbr_entry w = (nbr_entry u)(n := (nbr_info.truncate (neighbor u n)\<lparr>backoff_window := 0, backoff_exponent := TSCH_MAC_MIN_BE C\<rparr>, snd (nbr_entry u n)))"
    using u(4) by (simp_all add: nbr_info.truncate_def)
  have en: "nbr_entry w n = reset_entry C (nbr_entry s n)" using w(4) u(6) by (simp add: reset_entry_def) (simp add: nbr_entry_def)
  have d: "distinct (us @ n # vs)" using Cons.prems(1) by (rule inv_distinct)
  then have eo: "map (nbr_entry w) us = map (nbr_entry s) us" "map (nbr_entry w) vs = map (nbr_entry s) vs" using w(4) u(7) by auto
  have "tq_inv C k w ((us @ [n]) @ vs)" "chain (nxt w) (nxt s n) vs" using w(1,3) c by simp_all
  from Cons.IH [OF this] obtain t where t: "reset_loop C sent_cb (nxt s n) w = Some t" "tq_inv C k t ((us @ [n]) @ vs)"
    "tq_frame (w\<lparr>tsch.more := fold (report g) (concat (map (\<lambda>n. snd (nbr_entry w n)) vs)) (tsch.more w)\<rparr>) t"
    "map (nbr_entry t) ((us @ [n]) @ vs) = map (nbr_entry w) (us @ [n]) @ map (reset_entry C) (map (nbr_entry w) vs)" by blast
  have "reset_loop C sent_cb p s = Some t" using t(1) u(1) p by (simp add: reset_loop.simps [of _ _ n] list_item_next_def w_def)
  moreover have "tq_frame (s\<lparr>tsch.more := fold (report g) (concat (map (\<lambda>n. snd (nbr_entry s n)) (n # vs))) (tsch.more s)\<rparr>) t"
  proof -
    have q: "map (\<lambda>n. snd (nbr_entry w n)) vs = map (\<lambda>n. snd (nbr_entry s n)) vs" using eo(2) by simp
    have "tq_frame (s\<lparr>tsch.more := fold (report g) (snd (nbr_entry s n)) (tsch.more s)\<rparr>) w" using u(5) w(2) by (rule tq_frame_trans)
    then have "tq_frame (s\<lparr>tsch.more := x\<rparr>) (w\<lparr>tsch.more := x\<rparr>)" and m: "tsch.more w = fold (report g) (snd (nbr_entry s n)) (tsch.more s)" for x
      by (simp_all add: tq_frame_def nbr_blocks_def)
    from tq_frame_trans [OF this(1) t(3)] show ?thesis by (simp add: q m)
  qed
  ultimately show ?case using t(2,4) eo en by (intro exI [of _ t]) simp
qed

text \<open>Neighbours that nothing refers to are dropped.\<close>

definition unused_entry :: "nbr_entry \<Rightarrow> bool" where
  "unused_entry e \<longleftrightarrow> \<not> is_broadcast (fst e) \<and> \<not> is_time_source (fst e) \<and> tx_links_count (fst e) = 0 \<and> snd e = []"

lemma is_empty_entry:
  assumes "tq_inv C k s ns" and "n \<in> set ns"
  shows "tsch_queue_is_empty n s \<longleftrightarrow> snd (nbr_entry s n) = []"
proof -
  have u: "\<not> tsch_locked s" using assms(1) by (simp add: tq_inv_def)
  show ?thesis using ring_pop [OF nbr_ring [OF assms]] inv_nonNULL [OF assms] u
    by (cases "ring s n") (auto simp: tsch_queue_is_empty_def tsch_is_locked_def nbr_entry_def ring_def)
qed

lemma unused_nbr_entry: "tq_inv C k s ns \<Longrightarrow> n \<in> set ns \<Longrightarrow> unused_nbr n s \<longleftrightarrow> unused_entry (nbr_entry s n)"
  using is_empty_entry [of C k s ns n] by (simp add: unused_nbr_def unused_entry_def) (simp add: nbr_entry_def)

lemma free_unused_loop_spec:
  assumes g: "callback_ok g sent_cb"
  shows "tq_inv C k s (us @ vs) \<Longrightarrow> chain (nxt s) p vs \<Longrightarrow>
    \<exists>t vs'. free_unused_loop sent_cb p s = Some t \<and> tq_inv C k t (us @ vs') \<and> tq_frame s t \<and>
      map (nbr_entry t) (us @ vs') = map (nbr_entry s) us @ filter (\<lambda>e. \<not> unused_entry e) (map (nbr_entry s) vs)"
proof (induction vs arbitrary: us s p)
  case Nil
  then show ?case by (intro exI [of _ s] exI [of _ "[]"]) (simp add: free_unused_loop.simps)
next
  case (Cons n vs)
  then have p: "p = n" "n \<noteq> NULL" and c: "chain (nxt s) (nxt s n) vs" by auto
  have n: "n \<in> set (us @ n # vs)" by simp
  have d: "distinct (us @ n # vs)" using Cons.prems(1) by (rule inv_distinct)
  note un = unused_nbr_entry [OF Cons.prems(1) n]
  show ?case
  proof (cases "unused_entry (nbr_entry s n)")
    case True
    then have q: "snd (nbr_entry s n) = []" by (simp add: unused_entry_def)
    from remove_nbr_spec [OF g Cons.prems(1) n] q d obtain u where u: "tsch_queue_remove_nbr sent_cb n s = Some u"
      "tq_inv C k u (us @ vs)" "tq_frame s u" "\<forall>m \<in> set (us @ n # vs). m \<noteq> n \<longrightarrow> nbr_entry u m = nbr_entry s m"
      by (auto simp: remove1_append)
    have e: "map (nbr_entry u) us = map (nbr_entry s) us" "map (nbr_entry u) vs = map (nbr_entry s) vs" using u(4) d by auto
    have "chain (nxt u) (nxt s n) vs" using inv_rest [OF u(2)] chain_start [OF c] by simp
    from Cons.IH [OF u(2) this] obtain t vs' where t: "free_unused_loop sent_cb (nxt s n) u = Some t" "tq_inv C k t (us @ vs')" "tq_frame u t"
      "map (nbr_entry t) (us @ vs') = map (nbr_entry u) us @ filter (\<lambda>e. \<not> unused_entry e) (map (nbr_entry u) vs)" by blast
    have "free_unused_loop sent_cb p s = Some t" using t(1) u(1) p True un by (simp add: free_unused_loop.simps [of _ n] list_item_next_def)
    then show ?thesis using t(2,4) e True tq_frame_trans [OF u(3) t(3)] by (intro exI [of _ t] exI [of _ vs']) simp
  next
    case False
    have "tq_inv C k s ((us @ [n]) @ vs)" using Cons.prems(1) by simp
    from Cons.IH [OF this c] obtain t vs' where t: "free_unused_loop sent_cb (nxt s n) s = Some t" "tq_inv C k t ((us @ [n]) @ vs')" "tq_frame s t"
      "map (nbr_entry t) ((us @ [n]) @ vs') = map (nbr_entry s) (us @ [n]) @ filter (\<lambda>e. \<not> unused_entry e) (map (nbr_entry s) vs)" by blast
    have "free_unused_loop sent_cb p s = Some t" using t(1) p False un by (simp add: free_unused_loop.simps [of _ n] list_item_next_def)
    then show ?thesis using t(2-4) False by (intro exI [of _ t] exI [of _ "n # vs'"]) simp
  qed
qed

text \<open>The back-off windows of those that a transmission concerns are counted down.\<close>

lemma count_down_simps [simp]:
  "n_addr (count_down C a v) = n_addr v" "nbr_info.truncate (count_down C a v) = count_down C a (nbr_info.truncate v)"
  by (simp_all add: count_down_def nbr_info.truncate_def)

lemma count_down_more [simp]: "nbr_info.more (count_down C a v) = nbr_info.more v"
  by (simp add: count_down_def)

lemma backoff_loop_spec:
  "tq_inv C k s (us @ vs) \<Longrightarrow> chain (nxt s) p vs \<Longrightarrow>
    \<exists>t. backoff_loop C a p s = Some t \<and> tq_inv C k t (us @ vs) \<and> tq_frame s t \<and>
      map (nbr_entry t) (us @ vs) = map (nbr_entry s) us @ map (\<lambda>e. (count_down C a (fst e), snd e)) (map (nbr_entry s) vs)"
proof (induction vs arbitrary: us s p)
  case Nil
  then show ?case by (intro exI [of _ s]) (simp add: backoff_loop.simps)
next
  case (Cons n vs)
  then have p: "p = n" "n \<noteq> NULL" and c: "chain (nxt s) (nxt s n) vs" by auto
  have n: "n \<in> set (us @ n # vs)" by simp
  have d: "distinct (us @ n # vs)" using Cons.prems(1) by (rule inv_distinct)
  define w where "w = set_nbr n (count_down C a (neighbor s n)) s"
  have "tx_array (count_down C a (neighbor s n)) = tx_array (neighbor s n)" "tx_ringbuf (count_down C a (neighbor s n)) = tx_ringbuf (neighbor s n)"
    by (simp_all add: count_down_def)
  from set_info_spec [OF Cons.prems(1) n w_def count_down_simps(1) this] have w: "tq_inv C k w (us @ n # vs)" "tq_frame s w" "nxt w = nxt s"
    "nbr_entry w = (nbr_entry s)(n := (count_down C a (nbr_info.truncate (neighbor s n)), snd (nbr_entry s n)))" by simp_all
  have en: "nbr_entry w n = (count_down C a (fst (nbr_entry s n)), snd (nbr_entry s n))" using w(4) by (simp add: nbr_entry_def)
  have eo: "map (nbr_entry w) us = map (nbr_entry s) us" "map (nbr_entry w) vs = map (nbr_entry s) vs" using w(4) d by auto
  have "tq_inv C k w ((us @ [n]) @ vs)" "chain (nxt w) (nxt s n) vs" using w(1,3) c by simp_all
  from Cons.IH [OF this] obtain t where t: "backoff_loop C a (nxt s n) w = Some t" "tq_inv C k t ((us @ [n]) @ vs)" "tq_frame w t"
    "map (nbr_entry t) ((us @ [n]) @ vs) = map (nbr_entry w) (us @ [n]) @ map (\<lambda>e. (count_down C a (fst e), snd e)) (map (nbr_entry w) vs)" by blast
  have "backoff_loop C a p s = Some t" using t(1) p w(3) by (simp add: backoff_loop.simps [of _ _ n] list_item_next_def w_def [symmetric] Let_def)
  then show ?case using t(2,4) eo en tq_frame_trans [OF w(2) t(3)] by (intro exI [of _ t]) simp
qed

subsection \<open>The time source\<close>

definition one_source :: "nbr_entry list \<Rightarrow> bool" where
  "one_source es \<longleftrightarrow> (\<forall>e \<in> set es. \<forall>f \<in> set es. is_time_source (fst e) \<longrightarrow> is_time_source (fst f) \<longrightarrow> n_addr (fst e) = n_addr (fst f))"

definition mark :: "linkaddr_t option \<Rightarrow> nbr_entry \<Rightarrow> nbr_entry" where
  "mark a e = ((fst e)\<lparr>is_time_source := (Some (n_addr (fst e)) = a)\<rparr>, snd e)"

lemma one_source_mark: "one_source (map (mark a) es)"
  by (auto simp: one_source_def mark_def)

lemma get_time_source_spec:
  assumes inv: "tq_inv C k s ns" and one: "one_source (map (nbr_entry s) ns)"
  shows "\<exists>old. tsch_queue_get_time_source s = Some old \<and> (\<forall>n \<in> set ns. is_time_source (neighbor s n) \<longleftrightarrow> n = old) \<and> (old \<in> set ns \<or> old = NULL)"
proof -
  let ?P = "\<lambda>n. is_time_source (neighbor s n)"
  have c: "chain (nxt s) (list_head neighbor_list s) ns" and lk: "\<not> tsch_is_locked s" and di: "distinct (map (\<lambda>n. n_addr (neighbor s n)) ns)"
    using inv by (simp_all add: tq_inv_def is_list_def list_head_def tsch_is_locked_def)
  have run: "tsch_queue_get_time_source s = Some (case find ?P ns of None \<Rightarrow> NULL | Some x \<Rightarrow> x)"
    using lk first_loop_chain [OF c] by (simp add: tsch_queue_get_time_source_def)
  show ?thesis
  proof (cases "find ?P ns")
    case None
    then have "\<forall>n \<in> set ns. \<not> ?P n" by (auto simp: find_None_iff)
    then show ?thesis using run None inv_nonNULL [OF inv] by (intro exI [of _ NULL]) auto
  next
    case (Some o')
    then have o': "o' \<in> set ns" "?P o'" by (auto simp: find_Some_iff)
    have "n = o'" if "n \<in> set ns" "?P n" for n
    proof (rule entry_unique [OF di o'(1) that(1)])
      show "n_addr (neighbor s n) = n_addr (neighbor s o')" using one [unfolded one_source_def, rule_format, of "nbr_entry s n" "nbr_entry s o'"] that o' by (simp add: nbr_entry_def)
    qed
    then have "\<forall>n \<in> set ns. ?P n \<longleftrightarrow> n = o'" using o' by blast
    then show ?thesis using run Some o' by (intro exI [of _ o']) simp
  qed
qed

lemma mark_idle: "(is_time_source (fst e) \<longleftrightarrow> Some (n_addr (fst e)) = a) \<Longrightarrow> mark a e = e"
  by (cases e) (simp add: mark_def)

text \<open>Changing the mark of one neighbour.\<close>

lemma set_source_spec:
  assumes inv: "tq_inv C k s ns" and n: "n \<in> set ns"
  shows "let t = set_nbr n ((neighbor s n)\<lparr>is_time_source := b\<rparr>) s
    in tq_inv C k t ns \<and> tq_frame s t \<and> nbr_entry t = (nbr_entry s)(n := ((fst (nbr_entry s n))\<lparr>is_time_source := b\<rparr>, snd (nbr_entry s n)))"
  using set_info_spec [OF inv n refl, of "(neighbor s n)\<lparr>is_time_source := b\<rparr>"] by (simp add: Let_def nbr_entry_def nbr_info.truncate_def)

lemma other_source_spec:
  assumes inv: "tq_inv C k s ns" and n: "n \<in> set ns \<or> n = NULL"
  shows "let t = (if n \<noteq> NULL then set_nbr n ((neighbor s n)\<lparr>is_time_source := False\<rparr>) s else s)
    in tq_inv C k t ns \<and> tq_frame s t \<and> (\<forall>m \<in> set ns. nbr_entry t m = (if m = n then ((fst (nbr_entry s n))\<lparr>is_time_source := False\<rparr>, snd (nbr_entry s n)) else nbr_entry s m))"
  using set_source_spec [OF inv, of n False] n inv inv_nonNULL [OF inv] by (cases "n = NULL") (auto simp: Let_def)

text \<open>A change to the rest of the state only.\<close>

lemma only_rest:
  assumes "tq_inv C k s ns" and "t = s\<lparr>tsch_current_ka_timeout := x, tsch.more := y\<rparr>"
  shows "tq_inv C k t ns \<and> nbr_entry t = nbr_entry s \<and> tq_frame (s\<lparr>tsch.more := y\<rparr>) t"
proof -
  have e: "ring t = ring s" "pkt t = pkt s" "neighbor t = neighbor s" by (simp_all add: fun_eq_iff ring_def pkt_def ram_of_def assms(2))
  then have "queued t ns = queued s ns" by (simp add: queued_def)
  then have "tq_inv C k t ns" using assms(1) e packets_ok_cong [of t s C] by (simp add: tq_inv_def) (simp add: assms(2) is_list_def)
  moreover have "nbr_entry t = nbr_entry s" by (simp add: fun_eq_iff nbr_entry_def e)
  ultimately show ?thesis by (simp add: tq_frame_def assms(2) nbr_blocks_def)
qed

definition keepalive_ok :: "(u16 \<Rightarrow> 'a \<Rightarrow> 'a) \<Rightarrow> ('a tsch_scheme \<Rightarrow> 'a tsch_scheme) \<Rightarrow> bool" where
  "keepalive_ok h schedule_keepalive \<longleftrightarrow> (\<forall>s. schedule_keepalive s = s\<lparr>tsch.more := h (tsch_current_ka_timeout s) (tsch.more s)\<rparr>)"

definition new_source :: "tsch_config \<Rightarrow> nat \<Rightarrow> linkaddr_t option \<Rightarrow> nbr_entry list \<Rightarrow> bool \<times> nbr_entry list" where
  "new_source C m a es =
     (case a of
        None \<Rightarrow> (True, map (mark None) es)
      | Some a \<Rightarrow> let es = ensure_nbr C m a es
                  in if a \<in> set (addresses_of es) then (True, map (mark (Some a)) es) else (False, es))"

definition is_source :: "linkaddr_t \<Rightarrow> nbr_entry list \<Rightarrow> bool" where
  "is_source a es \<longleftrightarrow> (\<exists>e \<in> set es. n_addr (fst e) = a \<and> is_time_source (fst e))"

lemma new_entry_source [simp]: "\<not> is_time_source (fst (new_entry C a))"
  by (simp add: new_entry_def init_nbr_def)

lemma ensure_source: "e \<in> set (ensure_nbr C m a es) \<Longrightarrow> is_time_source (fst e) \<Longrightarrow> e \<in> set es"
  by (auto simp: ensure_nbr_def split: if_splits)

lemma ensure_one_source: "one_source es \<Longrightarrow> one_source (ensure_nbr C m a es)"
  unfolding one_source_def using ensure_source by blast

lemma update_source_none:
  assumes inv: "tq_inv C k s ns" and one: "one_source (map (nbr_entry s) ns)" and co: "\<not> tsch_is_coordinator s"
  shows "\<exists>t. tsch_queue_update_time_source C ka None s = Some (True, t) \<and> tq_inv C k t ns \<and> tq_frame s t \<and>
    map (nbr_entry t) ns = map (mark None) (map (nbr_entry s) ns)"
proof -
  have lk: "\<not> tsch_is_locked s" using inv by (simp add: tq_inv_def tsch_is_locked_def)
  obtain old where old: "tsch_queue_get_time_source s = Some old" "\<forall>n \<in> set ns. is_time_source (neighbor s n) \<longleftrightarrow> n = old" "old \<in> set ns \<or> old = NULL"
    using get_time_source_spec [OF inv one] by blast
  show ?thesis
  proof (cases "old = NULL")
    case True
    have "mark None (nbr_entry s n) = nbr_entry s n" if "n \<in> set ns" for n
      using old(2) that True inv_nonNULL [OF inv that] by (intro mark_idle) (simp add: nbr_entry_def)
    then show ?thesis using True lk co old(1) inv by (intro exI [of _ s]) (simp add: tsch_queue_update_time_source_def)
  next
    case False
    define s1 where "s1 = tsch_set_ka_timeout 0 s"
    define t where "t = set_nbr old ((neighbor s1 old)\<lparr>is_time_source := False\<rparr>) s1"
    have "tq_inv C k s1 ns \<and> nbr_entry s1 = nbr_entry s \<and> tq_frame (s\<lparr>tsch.more := tsch.more s\<rparr>) s1"
      using inv by (rule only_rest) (simp add: s1_def tsch_set_ka_timeout_def)
    then have s1: "tq_inv C k s1 ns" "nbr_entry s1 = nbr_entry s" "tq_frame s s1" by simp_all
    from other_source_spec [OF s1(1) old(3)] False have t: "tq_inv C k t ns" "tq_frame s1 t"
      "\<forall>m \<in> set ns. nbr_entry t m = (if m = old then ((fst (nbr_entry s old))\<lparr>is_time_source := False\<rparr>, snd (nbr_entry s old)) else nbr_entry s m)"
      by (simp_all add: t_def s1(2) Let_def)
    have "nbr_entry t n = mark None (nbr_entry s n)" if "n \<in> set ns" for n
    proof (cases "n = old")
      case True
      then show ?thesis using t(3) that by (simp add: mark_def)
    next
      case False
      then have "mark None (nbr_entry s n) = nbr_entry s n" using old(2) that by (intro mark_idle) (simp add: nbr_entry_def)
      then show ?thesis using t(3) that False by simp
    qed
    moreover have "tsch_queue_update_time_source C ka None s = Some (True, t)"
      using False lk co old(1) by (simp add: tsch_queue_update_time_source_def t_def s1_def Let_def)
    ultimately show ?thesis using t(1) tq_frame_trans [OF s1(3) t(2)] by (intro exI [of _ t]) simp
  qed
qed

lemma update_source_some:
  assumes h: "keepalive_ok h ka" and inv: "tq_inv C k s ns" and C: "config_ok C k" and a: "length a = lsize C"
    and one: "one_source (map (nbr_entry s) ns)" and co: "\<not> tsch_is_coordinator s"
  shows "\<exists>b t ns'. tsch_queue_update_time_source C ka (Some a) s = Some (b, t) \<and> tq_inv C k t ns' \<and>
    new_source C (num (neighbor_memb s)) (Some a) (map (nbr_entry s) ns) = (b, map (nbr_entry t) ns') \<and>
    tq_frame (s\<lparr>tsch.more := if b \<and> \<not> is_source a (map (nbr_entry s) ns) then h (ucast (TSCH_KEEPALIVE_TIMEOUT C)) (tsch.more s) else tsch.more s\<rparr>) t"
proof -
  have lk: "\<not> tsch_is_locked s" using inv by (simp add: tq_inv_def tsch_is_locked_def)
  obtain old where old: "tsch_queue_get_time_source s = Some old" "\<forall>n \<in> set ns. is_time_source (neighbor s n) \<longleftrightarrow> n = old" "old \<in> set ns \<or> old = NULL"
    using get_time_source_spec [OF inv one] by blast
  obtain n u ns' where u: "tsch_queue_add_nbr C a s = Some (n, u)" and iu: "tq_inv C k u ns'" and fu: "tq_frame s u"
    and eu: "map (nbr_entry u) ns' = ensure_nbr C (num (neighbor_memb s)) a (map (nbr_entry s) ns)"
    and n: "if a \<in> set (addresses_of (map (nbr_entry u) ns')) then n \<in> set ns' \<and> n_addr (neighbor u n) = a \<and> n \<noteq> NULL else n = NULL"
    and sub: "\<forall>x \<in> set ns. x \<in> set ns' \<and> nbr_entry u x = nbr_entry s x"
    using add_nbr_spec [OF inv C a] by (elim exE conjE) (rule that)
  have new: "new_source C (num (neighbor_memb s)) (Some a) (map (nbr_entry s) ns) =
     (if a \<in> set (addresses_of (map (nbr_entry u) ns')) then (True, map (mark (Some a)) (map (nbr_entry u) ns')) else (False, map (nbr_entry u) ns'))"
    by (simp only: new_source_def option.case Let_def eu [symmetric])
  have di: "distinct (map (\<lambda>n. n_addr (neighbor u n)) ns')" using iu by (simp add: tq_inv_def)
  have oneu: "one_source (map (nbr_entry u) ns')" unfolding eu using one by (rule ensure_one_source)
  have src: "is_time_source (fst (nbr_entry u m)) \<longleftrightarrow> m = old" if m: "m \<in> set ns'" for m
  proof (cases "m \<in> set ns")
    case True
    then show ?thesis using old(2) sub by (simp add: nbr_entry_def)
  next
    case False
    have "m \<noteq> old" using False old(3) inv_nonNULL [OF iu m] by auto
    moreover have "\<not> is_time_source (fst (nbr_entry u m))"
    proof
      assume s: "is_time_source (fst (nbr_entry u m))"
      have "nbr_entry u m \<in> set (ensure_nbr C (num (neighbor_memb s)) a (map (nbr_entry s) ns))" using m by (simp flip: eu)
      moreover have "nbr_entry u m \<noteq> new_entry C a" using s by (auto simp: new_entry_def init_nbr_def)
      ultimately have "nbr_entry u m \<in> nbr_entry s ` set ns" by (auto simp: ensure_nbr_def split: if_splits)
      then obtain x where x: "x \<in> set ns" "nbr_entry u m = nbr_entry u x" using sub by force
      then have "n_addr (neighbor u m) = n_addr (neighbor u x)" by (metis nbr_entry_def fst_conv truncate_fields(1))
      then have "m = x" using entry_unique [OF di _ m] x(1) sub by blast
      then show False using x(1) False by simp
    qed
    ultimately show ?thesis by simp
  qed
  show ?thesis
  proof (cases "a \<in> set (addresses_of (map (nbr_entry u) ns'))")
    case False
    then have "tsch_queue_update_time_source C ka (Some a) s = Some (False, u)"
      using n lk co old(1) u by (simp add: tsch_queue_update_time_source_def)
    then show ?thesis using False iu fu unfolding new by (intro exI [of _ False] exI [of _ u] exI [of _ ns']) simp
  next
    case True
    then have nn: "n \<in> set ns'" "n_addr (neighbor u n) = a" "n \<noteq> NULL" using n by simp_all
    have ad: "n_addr (fst (nbr_entry u m)) = a \<longleftrightarrow> m = n" if "m \<in> set ns'" for m
      using entry_unique [OF di nn(1) that] nn(2) by (auto simp: nbr_entry_def)
    have iso: "is_source a (map (nbr_entry s) ns) \<longleftrightarrow> n = old"
    proof
      assume "is_source a (map (nbr_entry s) ns)"
      then obtain x where x: "x \<in> set ns" "n_addr (fst (nbr_entry s x)) = a" "is_time_source (fst (nbr_entry s x))" by (auto simp: is_source_def)
      then show "n = old" using ad [of x] src [of x] sub by simp
    next
      assume "n = old"
      then have "n \<in> set ns" using old(3) nn(3) by simp
      moreover from this have "is_time_source (fst (nbr_entry s n))" "n_addr (fst (nbr_entry s n)) = a"
        using src [OF nn(1)] ad [OF nn(1)] sub \<open>n = old\<close> by simp_all
      ultimately show "is_source a (map (nbr_entry s) ns)" by (auto simp: is_source_def)
    qed
    show ?thesis
    proof (cases "n = old")
      case same: True
      have "mark (Some a) (nbr_entry u m) = nbr_entry u m" if "m \<in> set ns'" for m
        using src [OF that] ad [OF that] same by (intro mark_idle) simp
      then have "map (mark (Some a)) (map (nbr_entry u) ns') = map (nbr_entry u) ns'" by simp
      moreover have "tsch_queue_update_time_source C ka (Some a) s = Some (True, u)"
        using same nn lk co old(1) u by (simp add: tsch_queue_update_time_source_def)
      ultimately show ?thesis using True iu fu iso same unfolding new by (intro exI [of _ True] exI [of _ u] exI [of _ ns']) simp
    next
      case other: False
      define v where "v = set_nbr n ((neighbor u n)\<lparr>is_time_source := True\<rparr>) u"
      define T where "T = (ucast (TSCH_KEEPALIVE_TIMEOUT C) :: u16)"
      define w where "w = ka (tsch_set_ka_timeout (TSCH_KEEPALIVE_TIMEOUT C) v)"
      define t where "t = (if old \<noteq> NULL then set_nbr old ((neighbor w old)\<lparr>is_time_source := False\<rparr>) w else w)"
      from set_source_spec [OF iu nn(1), of True] have v: "tq_inv C k v ns'" "tq_frame u v"
        "nbr_entry v = (nbr_entry u)(n := ((fst (nbr_entry u n))\<lparr>is_time_source := True\<rparr>, snd (nbr_entry u n)))"
        by (simp_all add: Let_def v_def)
      have mv: "tsch.more v = tsch.more s" using fu v(2) by (simp add: tq_frame_def)
      have "w = v\<lparr>tsch_current_ka_timeout := T, tsch.more := h T (tsch.more v)\<rparr>"
        using h by (simp add: w_def keepalive_ok_def tsch_set_ka_timeout_def T_def)
      from only_rest [OF v(1) this] have w: "tq_inv C k w ns'" "nbr_entry w = nbr_entry v" "tq_frame (v\<lparr>tsch.more := h T (tsch.more s)\<rparr>) w"
        by (simp_all add: mv)
      have old': "old \<in> set ns' \<or> old = NULL" using old(3) sub by blast
      from other_source_spec [OF w(1) this] have t: "tq_inv C k t ns'" "tq_frame w t"
        "\<forall>m \<in> set ns'. nbr_entry t m = (if m = old then ((fst (nbr_entry w old))\<lparr>is_time_source := False\<rparr>, snd (nbr_entry w old)) else nbr_entry w m)"
        by (simp_all add: t_def Let_def)
      have "nbr_entry t m = mark (Some a) (nbr_entry u m)" if m: "m \<in> set ns'" for m
      proof (cases "m = n \<or> m = old")
        case True
        then show ?thesis using t(3) m w(2) v(3) other ad [OF m] by (auto simp: mark_def)
      next
        case False
        then have "mark (Some a) (nbr_entry u m) = nbr_entry u m" using src [OF m] ad [OF m] by (intro mark_idle) simp
        then show ?thesis using t(3) m w(2) v(3) False by simp
      qed
      then have "map (mark (Some a)) (map (nbr_entry u) ns') = map (nbr_entry t) ns'" by simp
      moreover have "tsch_queue_update_time_source C ka (Some a) s = Some (True, t)"
        using other nn lk co old(1) u by (simp add: tsch_queue_update_time_source_def t_def w_def v_def Let_def)
      moreover have "tq_frame (s\<lparr>tsch.more := h T (tsch.more s)\<rparr>) t"
      proof -
        have "tq_frame (s\<lparr>tsch.more := x\<rparr>) (v\<lparr>tsch.more := x\<rparr>)" for x
          using tq_frame_trans [OF fu v(2)] by (simp add: tq_frame_def nbr_blocks_def)
        from tq_frame_trans [OF tq_frame_trans [OF this w(3)] t(2)] show ?thesis .
      qed
      ultimately show ?thesis using True t(1) iso other unfolding new T_def by (intro exI [of _ True] exI [of _ t] exI [of _ ns']) simp
    qed
  qed
qed

subsection \<open>Looking at the queues\<close>

definition shared :: "tsch_link option \<Rightarrow> bool" where
  "shared link \<longleftrightarrow> (\<exists>l. link = Some l \<and> link_options l AND LINK_OPTION_SHARED \<noteq> 0)"

definition sendable :: "tsch_link option \<Rightarrow> nbr_entry \<Rightarrow> bool" where
  "sendable link e \<longleftrightarrow> snd e \<noteq> [] \<and> (shared link \<longrightarrow> backoff_window (fst e) = 0)"

lemma get_packet_for_nbr_spec:
  assumes inv: "tq_inv C k s ns" and n: "n \<in> set ns" and sel: "\<not> TSCH_WITH_LINK_SELECTOR (fconf C)"
  shows "\<exists>p. tsch_queue_get_packet_for_nbr C n link s = Some p \<and>
    (if sendable link (nbr_entry s n) then p \<noteq> NULL \<and> pkt s p = hd (snd (nbr_entry s n)) else p = NULL)"
proof -
  let ?r = "tx_ringbuf (neighbor s n)" and ?d = "tx_array (neighbor s n)"
  have lk: "\<not> tsch_is_locked s" and pk: "packets_ok C s (queued s ns)" using inv by (simp_all add: tq_inv_def tsch_is_locked_def)
  have nn: "n \<noteq> NULL" using inv n by (rule inv_nonNULL)
  have sh: "(case link of None \<Rightarrow> False | Some l \<Rightarrow> link_options l AND LINK_OPTION_SHARED \<noteq> 0) = shared link"
    by (simp add: shared_def split: option.split)
  have bo: "backoff_window (fst (nbr_entry s n)) = backoff_window (neighbor s n)" by (simp add: nbr_entry_def)
  show ?thesis
  proof (cases "ring s n")
    case Nil
    then have "indexed_elems (?r, ?d) = []" by (simp add: ring_def)
    from ring_pop [OF nbr_ring [OF inv n], unfolded this list.case] have "ringbufindex_get ?r = (- 1, ?r)" by blast
    then have "ringbufindex_peek_get ?r = - 1" by (auto simp: ringbufindex_get_def ringbufindex_peek_get_def Let_def split: if_splits)
    then show ?thesis using Nil lk nn by (simp add: tsch_queue_get_packet_for_nbr_def Let_def sendable_def nbr_entry_def)
  next
    case (Cons p ps)
    then have "indexed_elems (?r, ?d) = p # ps" by (simp add: ring_def)
    from ring_pop [OF nbr_ring [OF inv n], unfolded this list.case] obtain i where i: "i \<noteq> - 1" "?d ! nat i = p" "ringbufindex_peek_get ?r = i" by blast
    have "p \<in> set (queued s ns)" using queued_in [OF n, of s] Cons by auto
    moreover have "owned (packet_memb s) id (set (queued s ns))" using pk by (simp add: packets_ok_def)
    ultimately have nz: "p \<noteq> NULL" using owned_nonNULL by fastforce
    have "snd (nbr_entry s n) = pkt s p # map (pkt s) ps" using Cons by (simp add: nbr_entry_def)
    then show ?thesis using i lk nn nz sel bo
      by (simp add: tsch_queue_get_packet_for_nbr_def Let_def sh sendable_def tsch_queue_backoff_expired_def)
  qed
qed

definition entry_of :: "linkaddr_t \<Rightarrow> nbr_entry list \<Rightarrow> nbr_entry option" where
  "entry_of a es = find (\<lambda>e. n_addr (fst e) = a) es"

lemma entry_of_nbr:
  assumes "tq_inv C k s ns" and "length a = lsize C"
  shows "\<exists>n. tsch_queue_get_nbr C a s = Some n \<and>
    (case entry_of a (map (nbr_entry s) ns) of None \<Rightarrow> n = NULL | Some e \<Rightarrow> n \<in> set ns \<and> n \<noteq> NULL \<and> n_addr (neighbor s n) = a \<and> nbr_entry s n = e)"
proof -
  obtain n where n: "tsch_queue_get_nbr C a s = Some n"
    "if a \<in> set (addresses_of (map (nbr_entry s) ns)) then n \<in> set ns \<and> n_addr (neighbor s n) = a \<and> n \<noteq> NULL else n = NULL"
    using get_nbr_spec [OF assms] by blast
  have di: "distinct (map (\<lambda>n. n_addr (neighbor s n)) ns)" using assms(1) by (simp add: tq_inv_def)
  show ?thesis
  proof (cases "entry_of a (map (nbr_entry s) ns)")
    case None
    then have "a \<notin> set (addresses_of (map (nbr_entry s) ns))" by (auto simp: entry_of_def find_None_iff)
    then show ?thesis using n None by simp
  next
    case (Some e)
    then have e: "e \<in> nbr_entry s ` set ns" "n_addr (fst e) = a" by (auto simp: entry_of_def find_Some_iff dest: nth_mem)
    then obtain m where m: "m \<in> set ns" "e = nbr_entry s m" by blast
    have "a \<in> set (addresses_of (map (nbr_entry s) ns))" using e by force
    then have n': "n \<in> set ns" "n_addr (neighbor s n) = a" "n \<noteq> NULL" using n(2) by simp_all
    have "n_addr (neighbor s m) = n_addr (neighbor s n)" using e(2) m(2) n'(2) by (simp add: nbr_entry_def)
    then have "m = n" using entry_unique [OF di n'(1) m(1)] by simp
    then show ?thesis using n(1) n' Some m by simp
  qed
qed

lemma get_packet_spec:
  assumes inv: "tq_inv C k s ns" and a: "length a = lsize C" and sel: "\<not> TSCH_WITH_LINK_SELECTOR (fconf C)"
  shows "\<exists>p. tsch_queue_get_packet_for_dest_addr C a link s = Some p \<and>
    (case entry_of a (map (nbr_entry s) ns) of
       None \<Rightarrow> p = NULL
     | Some e \<Rightarrow> if sendable link e then p \<noteq> NULL \<and> pkt s p = hd (snd e) else p = NULL)"
proof -
  have lk: "\<not> tsch_is_locked s" using inv by (simp add: tq_inv_def tsch_is_locked_def)
  obtain n where n: "tsch_queue_get_nbr C a s = Some n"
    "case entry_of a (map (nbr_entry s) ns) of None \<Rightarrow> n = NULL | Some e \<Rightarrow> n \<in> set ns \<and> n \<noteq> NULL \<and> n_addr (neighbor s n) = a \<and> nbr_entry s n = e"
    using entry_of_nbr [OF inv a] by blast
  show ?thesis
  proof (cases "entry_of a (map (nbr_entry s) ns)")
    case None
    then show ?thesis using n lk by (simp add: tsch_queue_get_packet_for_dest_addr_def tsch_queue_get_packet_for_nbr_def)
  next
    case (Some e)
    then have "n \<in> set ns" "nbr_entry s n = e" using n(2) by simp_all
    moreover from this obtain p where "tsch_queue_get_packet_for_nbr C n link s = Some p"
      "if sendable link e then p \<noteq> NULL \<and> pkt s p = hd (snd e) else p = NULL"
      using get_packet_for_nbr_spec [OF inv _ sel, of n link] by blast
    ultimately show ?thesis using n(1) lk Some by (intro exI [of _ p]) (simp add: tsch_queue_get_packet_for_dest_addr_def)
  qed
qed

definition for_any :: "tsch_link option \<Rightarrow> nbr_entry \<Rightarrow> bool" where
  "for_any link e \<longleftrightarrow> \<not> is_broadcast (fst e) \<and> tx_links_count (fst e) = 0 \<and> sendable link e"

lemma any_loop_spec:
  assumes inv: "tq_inv C k s ns" and sel: "\<not> TSCH_WITH_LINK_SELECTOR (fconf C)"
  shows "set vs \<subseteq> set ns \<Longrightarrow> chain (nxt s) q vs \<Longrightarrow> \<exists>p n. any_loop C link q s = Some (p, n) \<and>
    (case find (for_any link) (map (nbr_entry s) vs) of
       None \<Rightarrow> p = NULL \<and> n = NULL
     | Some e \<Rightarrow> p \<noteq> NULL \<and> pkt s p = hd (snd e) \<and> n \<in> set vs \<and> nbr_entry s n = e)"
proof (induction vs arbitrary: q)
  case Nil
  then show ?case by (simp add: any_loop.simps)
next
  case (Cons m vs)
  then have q: "q = m" "m \<noteq> NULL" and c: "chain (nxt s) (nxt s m) vs" and m: "m \<in> set ns" and sub: "set vs \<subseteq> set ns" by auto
  obtain p where p: "tsch_queue_get_packet_for_nbr C m link s = Some p"
    "if sendable link (nbr_entry s m) then p \<noteq> NULL \<and> pkt s p = hd (snd (nbr_entry s m)) else p = NULL"
    using get_packet_for_nbr_spec [OF inv m sel, of link] by blast
  have info: "is_broadcast (fst (nbr_entry s m)) = is_broadcast (neighbor s m)" "tx_links_count (fst (nbr_entry s m)) = tx_links_count (neighbor s m)"
    by (simp_all add: nbr_entry_def)
  show ?case
  proof (cases "for_any link (nbr_entry s m)")
    case True
    then have "any_loop C link q s = Some (p, m)" using p q info by (simp add: any_loop.simps [of _ _ m] for_any_def)
    then show ?thesis using True p(2) by (simp add: for_any_def)
  next
    case False
    then have "any_loop C link q s = any_loop C link (nxt s m) s"
      using p q info by (auto simp: any_loop.simps [of _ _ m] for_any_def list_item_next_def)
    then show ?thesis using Cons.IH [OF sub c] False by (auto split: option.splits)
  qed
qed

lemma unicast_any_spec:
  assumes inv: "tq_inv C k s ns" and sel: "\<not> TSCH_WITH_LINK_SELECTOR (fconf C)"
  shows "\<exists>p n. tsch_queue_get_unicast_packet_for_any C link s = Some (p, n) \<and>
    (case find (for_any link) (map (nbr_entry s) ns) of
       None \<Rightarrow> p = NULL \<and> n = NULL
     | Some e \<Rightarrow> p \<noteq> NULL \<and> pkt s p = hd (snd e) \<and> n \<in> set ns \<and> nbr_entry s n = e)"
  using any_loop_spec [OF inv sel subset_refl, of _ link] inv
  by (simp add: tsch_queue_get_unicast_packet_for_any_def tq_inv_def tsch_is_locked_def is_list_def list_head_def)

subsection \<open>The start\<close>

definition start_ok :: "queuebufs \<Rightarrow> 'a tsch_scheme \<Rightarrow> bool" where
  "start_ok q s \<longleftrightarrow> \<not> tsch_locked s \<and> \<not> tsch_in_slot_operation s \<and> qbufs s = queuebuf_init q \<and>
     (\<forall>m \<in> {neighbor_memb s, packet_memb s, bufmem q, buframmem q}. bsize m > 0 \<and> base m > 0) \<and>
     num (bufmem q) = num (packet_memb s) \<and> num (buframmem q) = num (packet_memb s)"

definition start_entries :: "tsch_config \<Rightarrow> nat \<Rightarrow> nbr_entry list" where
  "start_entries C m = ensure_nbr C m (tsch_broadcast_address C) (ensure_nbr C m (tsch_eb_address C) [])"

lemma set_special [simp]:
  "nbr_entry (s\<lparr>n_eb := x\<rparr>) = nbr_entry s" "nbr_entry (s\<lparr>n_broadcast := x\<rparr>) = nbr_entry s"
  by (simp_all add: fun_eq_iff nbr_entry_def ring_def pkt_def ram_of_def)

lemma inv_special [simp]:
  "tq_inv C k (s\<lparr>n_eb := x\<rparr>) ns = tq_inv C k s ns" "tq_inv C k (s\<lparr>n_broadcast := x\<rparr>) ns = tq_inv C k s ns"
proof -
  have r: "ring (s\<lparr>n_eb := x\<rparr>) = ring s" "ring (s\<lparr>n_broadcast := x\<rparr>) = ring s" by (simp_all add: fun_eq_iff ring_def)
  then have "queued (s\<lparr>n_eb := x\<rparr>) ns = queued s ns" "queued (s\<lparr>n_broadcast := x\<rparr>) ns = queued s ns" by (simp_all add: queued_def)
  then show "tq_inv C k (s\<lparr>n_eb := x\<rparr>) ns = tq_inv C k s ns" "tq_inv C k (s\<lparr>n_broadcast := x\<rparr>) ns = tq_inv C k s ns"
    using packets_ok_cong [of "s\<lparr>n_eb := x\<rparr>" s C] packets_ok_cong [of "s\<lparr>n_broadcast := x\<rparr>" s C] by (simp_all add: tq_inv_def is_list_def)
qed

lemma tsch_queue_init_spec:
  assumes C: "config_ok C k" and st: "start_ok q s"
  shows "\<exists>t ns. tsch_queue_init C s = Some t \<and> tq_inv C k t ns \<and> map (nbr_entry t) ns = start_entries C (num (neighbor_memb s)) \<and>
    num (neighbor_memb t) = num (neighbor_memb s) \<and> num (packet_memb t) = num (packet_memb s) \<and>
    tsch_is_coordinator t = tsch_is_coordinator s \<and> tsch.more t = tsch.more s"
proof -
  define s0 where "s0 = (list_init neighbor_list s)\<lparr>neighbor_memb := memb_init (neighbor_memb s), packet_memb := memb_init (packet_memb s)\<rparr>"
  have f: "neighbor_memb (list_init neighbor_list s) = neighbor_memb s" "packet_memb (list_init neighbor_list s) = packet_memb s"
    by (simp_all add: list_init_def set_head_def)
  have "owned (memb_init m) f {}" if "m \<in> {neighbor_memb s, packet_memb s, bufmem q, buframmem q}" for m and f :: "ptr \<Rightarrow> ptr"
    using st that by (intro owned_init) (auto simp: start_ok_def)
  then have "packets_ok C s0 []" using st
    by (simp add: packets_ok_def s0_def start_ok_def queuebuf_init_def memb_init_same list_init_def set_head_def)
  moreover have "is_list s0 neighbor_list []" using list_init_spec [of neighbor_list s] by (simp add: s0_def is_list_def)
  moreover have "owned (neighbor_memb s0) id {}" using st by (auto simp: s0_def start_ok_def intro: owned_init)
  ultimately have i0: "tq_inv C k s0 []" using st by (simp add: tq_inv_def queued_def) (simp add: s0_def start_ok_def list_init_def set_head_def)
  have n0: "num (neighbor_memb s0) = num (neighbor_memb s)" "num (packet_memb s0) = num (packet_memb s)" "tsch.more s0 = tsch.more s" "tsch_is_coordinator s0 = tsch_is_coordinator s"
    by (simp_all add: s0_def memb_init_same list_init_def set_head_def)
  have len: "length (tsch_eb_address C) = lsize C" "length (tsch_broadcast_address C) = lsize C"
    by (simp_all add: tsch_eb_address_def tsch_broadcast_address_def)
  obtain n1 s1 ns1 where 1: "tsch_queue_add_nbr C (tsch_eb_address C) s0 = Some (n1, s1)" "tq_inv C k s1 ns1" "tq_frame s0 s1"
    "map (nbr_entry s1) ns1 = ensure_nbr C (num (neighbor_memb s0)) (tsch_eb_address C) (map (nbr_entry s0) [])"
    using add_nbr_spec [OF i0 C len(1)] by blast
  have "tq_inv C k (s1\<lparr>n_eb := n1\<rparr>) ns1" using 1(2) by simp
  from add_nbr_spec [OF this C len(2)] obtain n2 s2 ns2 where 2: "tsch_queue_add_nbr C (tsch_broadcast_address C) (s1\<lparr>n_eb := n1\<rparr>) = Some (n2, s2)" "tq_inv C k s2 ns2"
    "tq_frame (s1\<lparr>n_eb := n1\<rparr>) s2" "map (nbr_entry s2) ns2 = ensure_nbr C (num (neighbor_memb s1)) (tsch_broadcast_address C) (map (nbr_entry s1) ns1)"
    by auto
  have n1: "num (neighbor_memb s1) = num (neighbor_memb s)" using 1(3) n0 by (simp add: tq_frame_def same_pool_def)
  have "map (nbr_entry s2) ns2 = start_entries C (num (neighbor_memb s))"
    unfolding 2(4) start_entries_def n1 1(4) n0 list.map ..
  moreover have "tsch_queue_init C s = Some (s2\<lparr>n_broadcast := n2\<rparr>)"
    using 1(1) 2(1) f by (simp add: tsch_queue_init_def s0_def Let_def)
  ultimately show ?thesis using 2(2,3) 1(3) n0
    by (intro exI [of _ "s2\<lparr>n_broadcast := n2\<rparr>"] exI [of _ ns2]) (simp add: tq_frame_def same_pool_def)
qed

end
