(* ===== verification/TschClient.thy ===== *)
theory TschClient
  imports TschQueue
begin

text \<open>
  What the queues of TSCH promise to their client, a MAC layer: the operations of TschQueue on any sequence of
  calls, as a table of first-in-first-out queues with back-off.
\<close>

section \<open>A client of the queues\<close>

text \<open>What a MAC layer does with the queues, and what it is told: whether an operation succeeded, and the
  packet that was taken off a queue. \<open>TQ_links\<close> is the schedule's write to the number of links.\<close>

datatype tq_op =
    TQ_add_nbr linkaddr_t
  | TQ_put linkaddr_t ptr ptr packetbuf_state
  | TQ_take linkaddr_t
  | TQ_reset
  | TQ_free_unused
  | TQ_time_source "linkaddr_t option"
  | TQ_backoff linkaddr_t u16
  | TQ_windows linkaddr_t
  | TQ_links linkaddr_t u8

datatype tq_result = R_bool bool | R_packet "qpacket option"

fun tq_step :: "tsch_config \<Rightarrow> 'a sent_callback \<Rightarrow> ('a tsch_scheme \<Rightarrow> 'a tsch_scheme) \<Rightarrow> tq_op \<Rightarrow>
    'a tsch_scheme \<times> tq_result list \<Rightarrow> ('a tsch_scheme \<times> tq_result list) option" where
  "tq_step C cb ka (TQ_add_nbr a) (s, rs) = do { (n, s) \<leftarrow> tsch_queue_add_nbr C a s; Some (s, rs @ [R_bool (n \<noteq> NULL)]) }"
| "tq_step C cb ka (TQ_put a f d x) (s, rs) = do { (p, s) \<leftarrow> tsch_queue_add_packet C a f d x s; Some (s, rs @ [R_bool (p \<noteq> NULL)]) }"
| "tq_step C cb ka (TQ_take a) (s, rs) = do {
     n \<leftarrow> tsch_queue_get_nbr C a s;
     let (p, s) = tsch_queue_remove_packet_from_queue n s;
     Some (tsch_queue_free_packet p s, rs @ [R_packet (if p = NULL then None else Some (pkt s p))]) }"
| "tq_step C cb ka TQ_reset (s, rs) = do { s \<leftarrow> tsch_queue_reset C cb s; Some (s, rs) }"
| "tq_step C cb ka TQ_free_unused (s, rs) = do { s \<leftarrow> tsch_queue_free_unused_neighbors cb s; Some (s, rs) }"
| "tq_step C cb ka (TQ_time_source a) (s, rs) = do { (b, s) \<leftarrow> tsch_queue_update_time_source C ka a s; Some (s, rs @ [R_bool b]) }"
| "tq_step C cb ka (TQ_backoff a rnd) (s, rs) = do {
     n \<leftarrow> tsch_queue_get_nbr C a s;
     Some (if n \<noteq> NULL then tsch_queue_backoff_inc C rnd n s else s, rs) }"
| "tq_step C cb ka (TQ_windows a) (s, rs) = do { s \<leftarrow> tsch_queue_update_all_backoff_windows C a s; Some (s, rs) }"
| "tq_step C cb ka (TQ_links a c) (s, rs) = do {
     n \<leftarrow> tsch_queue_get_nbr C a s;
     Some (if n \<noteq> NULL then set_nbr n ((neighbor s n)\<lparr>tx_links_count := c\<rparr>) s else s, rs) }"

text \<open>The same on the entries: one queue for each address.\<close>

record 'a tq_spec_config =
  nbr_max :: nat
  packet_max :: nat
  log_size :: nat
  coordinator :: bool
  on_sent :: "ptr \<Rightarrow> ptr \<Rightarrow> u8 \<Rightarrow> u8 \<Rightarrow> 'a \<Rightarrow> 'a"
  on_keepalive :: "u16 \<Rightarrow> 'a \<Rightarrow> 'a"

fun tq_spec :: "tsch_config \<Rightarrow> 'a tq_spec_config \<Rightarrow> tq_op \<Rightarrow> nbr_entry list \<times> 'a \<times> tq_result list \<Rightarrow> nbr_entry list \<times> 'a \<times> tq_result list" where
  "tq_spec C K (TQ_add_nbr a) (es, x, rs) = (let es = ensure_nbr C (nbr_max K) a es in (es, x, rs @ [R_bool (a \<in> set (addresses_of es))]))"
| "tq_spec C K (TQ_put a f d y) (es, x, rs) =
     (let (b, es) = put_packet C (log_size K) (nbr_max K) (packet_max K) a (saved (bufsize C) y, f, d, 0) es in (es, x, rs @ [R_bool b]))"
| "tq_spec C K (TQ_take a) (es, x, rs) =
     (change a (\<lambda>e. (fst e, tl (snd e))) es, x, rs @ [R_packet (case queue_of a es of [] \<Rightarrow> None | q # qs \<Rightarrow> Some q)])"
| "tq_spec C K TQ_reset (es, x, rs) = (map (reset_entry C) es, fold (report (on_sent K)) (concat (map snd es)) x, rs)"
| "tq_spec C K TQ_free_unused (es, x, rs) = (filter (\<lambda>e. \<not> unused_entry e) es, x, rs)"
| "tq_spec C K (TQ_time_source a) (es, x, rs) =
     (if coordinator K then (es, x, rs @ [R_bool False])
      else let (b, es') = new_source C (nbr_max K) a es
           in (es', if b \<and> a \<noteq> None \<and> \<not> is_source (the a) es then on_keepalive K (ucast (TSCH_KEEPALIVE_TIMEOUT C)) x else x, rs @ [R_bool b]))"
| "tq_spec C K (TQ_backoff a rnd) (es, x, rs) = (change a (\<lambda>e. (next_backoff C rnd (fst e), snd e)) es, x, rs)"
| "tq_spec C K (TQ_windows a) (es, x, rs) = (map (\<lambda>e. (count_down C a (fst e), snd e)) es, x, rs)"
| "tq_spec C K (TQ_links a c) (es, x, rs) = (change a (\<lambda>e. ((fst e)\<lparr>tx_links_count := c\<rparr>, snd e)) es, x, rs)"

fun tq_ok :: "tsch_config \<Rightarrow> tq_op \<Rightarrow> bool" where
  "tq_ok C (TQ_add_nbr a) = (length a = lsize C)"
| "tq_ok C (TQ_put a f d x) = (length a = lsize C \<and> packet_fits (bufsize C) x)"
| "tq_ok C (TQ_take a) = (length a = lsize C)"
| "tq_ok C TQ_reset = True"
| "tq_ok C TQ_free_unused = True"
| "tq_ok C (TQ_time_source a) = (case a of None \<Rightarrow> True | Some a \<Rightarrow> length a = lsize C)"
| "tq_ok C (TQ_backoff a rnd) = (length a = lsize C)"
| "tq_ok C (TQ_windows a) = True"
| "tq_ok C (TQ_links a c) = (length a = lsize C)"

fun tq_repr :: "tsch_config \<Rightarrow> 'a tq_spec_config \<Rightarrow> 'a tsch_scheme \<times> tq_result list \<Rightarrow> nbr_entry list \<times> 'a \<times> tq_result list \<Rightarrow> bool" where
  "tq_repr C K (s, rs) (es, x, rs') \<longleftrightarrow> rs' = rs \<and> x = tsch.more s \<and> one_source es \<and>
     num (neighbor_memb s) = nbr_max K \<and> num (packet_memb s) = packet_max K \<and> tsch_is_coordinator s = coordinator K \<and>
     (\<exists>ns. tq_inv C (log_size K) s ns \<and> map (nbr_entry s) ns = es)"

lemma repr_step:
  assumes "tq_repr C K (s, rs) (es, x, rs')" and "tq_frame (s\<lparr>tsch.more := x'\<rparr>) t" and "tq_inv C (log_size K) t ns" and "one_source (map (nbr_entry t) ns)"
  shows "tq_repr C K (t, qs) (map (nbr_entry t) ns, x', qs)"
  using assms by (auto simp: tq_frame_def same_pool_def)

lemma frame_same: "tq_frame s t \<Longrightarrow> tq_frame (s\<lparr>tsch.more := tsch.more s\<rparr>) t"
  by simp

lemma one_source_sub:
  assumes "one_source es" and "\<And>e. e \<in> set fs \<Longrightarrow> is_time_source (fst e) \<Longrightarrow> \<exists>f \<in> set es. n_addr (fst f) = n_addr (fst e) \<and> is_time_source (fst f)"
  shows "one_source fs"
  using assms unfolding one_source_def by metis

lemma one_source_map:
  assumes "one_source es" and f: "\<And>e. n_addr (fst (f e)) = n_addr (fst e) \<and> (is_time_source (fst (f e)) \<longrightarrow> is_time_source (fst e))"
  shows "one_source (map f es)"
  using assms(1)
proof (rule one_source_sub)
  fix e
  assume e: "e \<in> set (map f es)" "is_time_source (fst e)"
  then obtain y where "y \<in> set es" "e = f y" by auto
  then show "\<exists>y \<in> set es. n_addr (fst y) = n_addr (fst e) \<and> is_time_source (fst y)" using f [of y] e(2) by (intro bexI [of _ y]) simp_all
qed

lemma one_source_change: "one_source es \<Longrightarrow> (\<And>e. n_addr (fst (f e)) = n_addr (fst e) \<and> (is_time_source (fst (f e)) \<longrightarrow> is_time_source (fst e))) \<Longrightarrow> one_source (change a f es)"
  unfolding change_def by (rule one_source_map) auto

lemma one_source_filter: "one_source es \<Longrightarrow> one_source (filter P es)"
  by (erule one_source_sub) auto

lemma one_source_new: "one_source es \<Longrightarrow> one_source (snd (new_source C m a es))"
  by (auto simp: new_source_def one_source_mark ensure_one_source Let_def split: option.split)

lemma one_source_put: "one_source es \<Longrightarrow> one_source (snd (put_packet C k m l a q es))"
  by (auto simp: put_packet_def Let_def intro!: one_source_change ensure_one_source)

text \<open>Operations that write to one neighbour.\<close>

lemma entry_change:
  assumes inv: "tq_inv C k s ns" and a: "length a = lsize C" and n: "tsch_queue_get_nbr C a s = Some n"
    and v: "\<And>v. n_addr (g v) = n_addr v" "\<And>v. tx_array (g v) = tx_array v" "\<And>v. tx_ringbuf (g v) = tx_ringbuf v"
      "\<And>v. nbr_info.truncate (g v) = g' (nbr_info.truncate v)"
  shows "let t = (if n \<noteq> NULL then set_nbr n (g (neighbor s n)) s else s)
    in tq_inv C k t ns \<and> tq_frame s t \<and> map (nbr_entry t) ns = change a (\<lambda>e. (g' (fst e), snd e)) (map (nbr_entry s) ns)"
proof -
  have di: "distinct (map (\<lambda>n. n_addr (neighbor s n)) ns)" using inv by (simp add: tq_inv_def)
  have n': "if a \<in> set (addresses_of (map (nbr_entry s) ns)) then n \<in> set ns \<and> n_addr (neighbor s n) = a \<and> n \<noteq> NULL else n = NULL"
    using get_nbr_spec [OF inv a] n by auto
  show ?thesis
  proof (cases "a \<in> set (addresses_of (map (nbr_entry s) ns))")
    case False
    then have "n = NULL" using n' by simp
    moreover have "change a (\<lambda>e. (g' (fst e), snd e)) (map (nbr_entry s) ns) = map (nbr_entry s) ns"
      using False unfolding change_def by (intro map_idI) auto
    ultimately show ?thesis using inv by simp
  next
    case True
    then have nn: "n \<in> set ns" "n_addr (neighbor s n) = a" "n \<noteq> NULL" using n' by simp_all
    define t where "t = set_nbr n (g (neighbor s n)) s"
    from set_info_spec [OF inv nn(1) t_def v(1-3)] have t: "tq_inv C k t ns" "tq_frame s t"
      "nbr_entry t = (nbr_entry s)(n := (g' (nbr_info.truncate (neighbor s n)), snd (nbr_entry s n)))" by (simp_all add: v(4))
    have "map (nbr_entry t) ns = change a (\<lambda>e. (g' (fst e), snd e)) (map (nbr_entry s) ns)"
      by (rule change_entry [OF di nn(1,2)]) (simp_all add: t(3), simp add: nbr_entry_def)
    then show ?thesis using t(1,2) nn(3) by (simp add: t_def)
  qed
qed

lemma next_backoff_simps [simp]:
  "n_addr (next_backoff C r v) = n_addr v" "is_time_source (next_backoff C r v) = is_time_source v"
  "nbr_info.truncate (next_backoff C r v) = next_backoff C r (nbr_info.truncate v)" "nbr_info.more (next_backoff C r v) = nbr_info.more v"
  by (simp_all add: next_backoff_def Let_def nbr_info.truncate_def)

lemma next_backoff_ring [simp]: "tx_array (next_backoff C r v) = tx_array v" "tx_ringbuf (next_backoff C r v) = tx_ringbuf v"
  by (simp_all add: next_backoff_def Let_def)

lemma count_down_source [simp]: "is_time_source (count_down C a v) = is_time_source v"
  by (simp add: count_down_def)

text \<open>Taking a packet off the queue of an address.\<close>

lemma take_spec:
  assumes inv: "tq_inv C k s ns" and a: "length a = lsize C"
  shows "\<exists>t. tq_step C cb ka (TQ_take a) (s, rs) =
      Some (t, rs @ [R_packet (case queue_of a (map (nbr_entry s) ns) of [] \<Rightarrow> None | q # qs \<Rightarrow> Some q)]) \<and>
    tq_inv C k t ns \<and> tq_frame s t \<and> map (nbr_entry t) ns = change a (\<lambda>e. (fst e, tl (snd e))) (map (nbr_entry s) ns)"
proof -
  have di: "distinct (map (\<lambda>n. n_addr (neighbor s n)) ns)" and lk: "\<not> tsch_is_locked s" and core: "tq_core C k s ns" and l: "is_list s neighbor_list ns"
    using inv by (simp_all add: tq_inv_core) (simp_all add: tq_core_def tsch_is_locked_def)
  obtain n where n: "tsch_queue_get_nbr C a s = Some n"
    "if a \<in> set (addresses_of (map (nbr_entry s) ns)) then n \<in> set ns \<and> n_addr (neighbor s n) = a \<and> n \<noteq> NULL else n = NULL"
    using get_nbr_spec [OF inv a] by blast
  show ?thesis
  proof (cases "a \<in> set (addresses_of (map (nbr_entry s) ns))")
    case False
    then have "n = NULL" using n(2) by simp
    moreover have "change a (\<lambda>e. (fst e, tl (snd e))) (map (nbr_entry s) ns) = map (nbr_entry s) ns"
      using False unfolding change_def by (intro map_idI) auto
    moreover have "filter (\<lambda>e. n_addr (fst e) = a) (map (nbr_entry s) ns) = []" using False by (auto simp: filter_empty_conv)
    then have "queue_of a (map (nbr_entry s) ns) = []" by (simp only: queue_of_def list.map concat.simps)
    ultimately show ?thesis using inv n(1)
      by (intro exI [of _ s]) (simp add: tsch_queue_remove_packet_from_queue_def tsch_queue_free_packet_def)
  next
    case True
    then have nn: "n \<in> set ns" "n_addr (neighbor s n) = a" "n \<noteq> NULL" using n(2) by simp_all
    have qo: "queue_of a (map (nbr_entry s) ns) = map (pkt s) (ring s n)" using queue_of_entry [OF di nn(1)] nn(2) by simp
    show ?thesis
    proof (cases "ring s n")
      case Nil
      then have "indexed_elems (tx_ringbuf (neighbor s n), tx_array (neighbor s n)) = []" by (simp add: ring_def)
      from ring_pop [OF nbr_ring [OF inv nn(1)], unfolded this list.case]
      have "tsch_queue_remove_packet_from_queue n s = (NULL, s)" using lk nn(3) by (simp add: tsch_queue_remove_packet_from_queue_def set_nbr_def)
      moreover have "map (nbr_entry s) ns = change a (\<lambda>e. (fst e, tl (snd e))) (map (nbr_entry s) ns)"
        by (rule change_entry [OF di nn(1,2)]) (use Nil in \<open>simp_all add: nbr_entry_def\<close>)
      ultimately show ?thesis using inv n(1) qo Nil
        by (intro exI [of _ s]) (simp add: tsch_queue_free_packet_def)
    next
      case (Cons p ps)
      obtain v where v: "tsch_queue_remove_packet_from_queue n s = (p, set_nbr n v s)" "p \<noteq> NULL"
        "\<forall>w x t. qb w = qb (packet_at s p) \<longrightarrow>
          t = tsch_queue_free_packet p (s\<lparr>neighbor := (neighbor s)(n := v), packet_at := (packet_at s)(p := w), tsch.more := x\<rparr>) \<longrightarrow>
          tq_core C k t ns \<and> heads t = heads s \<and> nxt t = nxt s \<and> tq_frame (s\<lparr>tsch.more := x\<rparr>) t \<and>
          nbr_entry t n = (fst (nbr_entry s n), tl (snd (nbr_entry s n))) \<and> ring t n = ps \<and>
          (\<forall>m \<in> set ns. m \<noteq> n \<longrightarrow> nbr_entry t m = nbr_entry s m) \<and> (\<forall>m. m \<noteq> n \<longrightarrow> neighbor t m = neighbor s m)"
        using pop_packet [OF core nn(1) Cons] by blast
      define t where "t = tsch_queue_free_packet p (set_nbr n v s)"
      have "t = tsch_queue_free_packet p (s\<lparr>neighbor := (neighbor s)(n := v), packet_at := (packet_at s)(p := packet_at s p), tsch.more := tsch.more s\<rparr>)"
        by (simp add: t_def set_nbr_def)
      from v(3) [rule_format, OF refl this] have t: "tq_core C k t ns" "heads t = heads s" "nxt t = nxt s" "tq_frame s t"
        "nbr_entry t n = (fst (nbr_entry s n), tl (snd (nbr_entry s n)))" "\<forall>m \<in> set ns. m \<noteq> n \<longrightarrow> nbr_entry t m = nbr_entry s m" by simp_all
      have "is_list t neighbor_list ns" using l t(2,3) by (simp add: is_list_def)
      then have "tq_inv C k t ns" using t(1) by (simp add: tq_inv_core)
      moreover have "map (nbr_entry t) ns = change a (\<lambda>e. (fst e, tl (snd e))) (map (nbr_entry s) ns)"
        by (rule change_entry [OF di nn(1,2)]) (use t(5,6) in simp_all)
      moreover have "pkt (set_nbr n v s) p = pkt s p" by (simp add: set_nbr_def pkt_def ram_of_def)
      ultimately show ?thesis using t(4) n(1) v(1,2) qo Cons by (intro exI [of _ t]) (simp add: t_def)
    qed
  qed
qed

text \<open>What the environment provides, and each operation on it.\<close>

definition tq_env :: "tsch_config \<Rightarrow> 'a tq_spec_config \<Rightarrow> 'a sent_callback \<Rightarrow> ('a tsch_scheme \<Rightarrow> 'a tsch_scheme) \<Rightarrow> bool" where
  "tq_env C K cb ka \<longleftrightarrow> config_ok C (log_size K) \<and> callback_ok (on_sent K) cb \<and> keepalive_ok (on_keepalive K) ka"

lemma reset_spec:
  assumes "tq_inv C k s ns" and "callback_ok g cb"
  shows "\<exists>t. tsch_queue_reset C cb s = Some t \<and> tq_inv C k t ns \<and> map (nbr_entry t) ns = map (reset_entry C) (map (nbr_entry s) ns) \<and>
    tq_frame (s\<lparr>tsch.more := fold (report g) (concat (map snd (map (nbr_entry s) ns))) (tsch.more s)\<rparr>) t"
proof -
  have "\<not> tsch_is_locked s" "chain (nxt s) (list_head neighbor_list s) ns"
    using assms(1) by (simp_all add: tq_inv_def tsch_is_locked_def is_list_def list_head_def)
  then show ?thesis using reset_loop_spec [OF assms(2), of C k s "[]" ns "list_head neighbor_list s"] assms(1)
    by (simp add: tsch_queue_reset_def comp_def) blast
qed

lemma free_unused_spec:
  assumes "tq_inv C k s ns" and "callback_ok g cb"
  shows "\<exists>t ns'. tsch_queue_free_unused_neighbors cb s = Some t \<and> tq_inv C k t ns' \<and> tq_frame s t \<and>
    map (nbr_entry t) ns' = filter (\<lambda>e. \<not> unused_entry e) (map (nbr_entry s) ns)"
proof -
  have "\<not> tsch_is_locked s" "chain (nxt s) (list_head neighbor_list s) ns"
    using assms(1) by (simp_all add: tq_inv_def tsch_is_locked_def is_list_def list_head_def)
  then show ?thesis using free_unused_loop_spec [OF assms(2), of C k s "[]" ns "list_head neighbor_list s"] assms(1)
    by (simp add: tsch_queue_free_unused_neighbors_def)
qed

lemma windows_spec:
  assumes "tq_inv C k s ns"
  shows "\<exists>t. tsch_queue_update_all_backoff_windows C a s = Some t \<and> tq_inv C k t ns \<and> tq_frame s t \<and>
    map (nbr_entry t) ns = map (\<lambda>e. (count_down C a (fst e), snd e)) (map (nbr_entry s) ns)"
proof -
  have "\<not> tsch_is_locked s" "chain (nxt s) (list_head neighbor_list s) ns"
    using assms(1) by (simp_all add: tq_inv_def tsch_is_locked_def is_list_def list_head_def)
  then show ?thesis using backoff_loop_spec [of C k s "[]" ns "list_head neighbor_list s" a] assms(1)
    by (simp add: tsch_queue_update_all_backoff_windows_def)
qed

lemma coordinator_keeps:
  assumes "tq_inv C k s ns" and "tsch_is_coordinator s"
  shows "tsch_queue_update_time_source C ka a s = Some (False, s)"
  using assms by (simp add: tsch_queue_update_time_source_def)

lemma tq_step_simulates:
  assumes r: "tq_repr C K sr a" and env: "tq_env C K cb ka" and ok: "tq_ok C y"
  shows "\<exists>t. tq_step C cb ka y sr = Some t \<and> tq_repr C K t (tq_spec C K y a)"
proof -
  obtain s rs where sr: "sr = (s, rs)" by (cases sr)
  obtain es x where a: "a = (es, x, rs)" using r by (cases a) (simp add: sr)
  let ?k = "log_size K"
  have C: "config_ok C ?k" and cb: "callback_ok (on_sent K) cb" and ka: "keepalive_ok (on_keepalive K) ka" using env by (simp_all add: tq_env_def)
  have r': "tq_repr C K (s, rs) (es, x, rs)" and x: "x = tsch.more s" and one: "one_source es"
    and m: "num (neighbor_memb s) = nbr_max K" "num (packet_memb s) = packet_max K" "tsch_is_coordinator s = coordinator K"
    using r by (simp_all add: sr a)
  obtain ns where inv: "tq_inv C ?k s ns" and es: "map (nbr_entry s) ns = es" using r by (auto simp: sr a)
  note finish = repr_step [OF r']
  have onem: "one_source (map (nbr_entry s) ns)" using one es by simp
  show ?thesis
  proof (cases y)
    case (TQ_add_nbr d)
    then have d: "length d = lsize C" using ok by simp
    obtain n t ns' where t: "tsch_queue_add_nbr C d s = Some (n, t)" "tq_inv C ?k t ns'" "tq_frame s t" "map (nbr_entry t) ns' = ensure_nbr C (nbr_max K) d es"
      "if d \<in> set (addresses_of (map (nbr_entry t) ns')) then n \<noteq> NULL else n = NULL"
      using add_nbr_spec [OF inv C d] unfolding es m by metis
    have "one_source (map (nbr_entry t) ns')" unfolding t(4) using one by (rule ensure_one_source)
    from finish [OF frame_same [OF t(3), folded x] t(2) this] have "tq_repr C K (t, qs) (ensure_nbr C (nbr_max K) d es, x, qs)" for qs by (simp only: t(4))
    moreover have "(n \<noteq> NULL) = (d \<in> set (addresses_of (ensure_nbr C (nbr_max K) d es)))" using t(4,5) by (simp split: if_splits)
    ultimately show ?thesis using t(1) by (simp only: TQ_add_nbr sr a tq_step.simps tq_spec.simps Let_def bind.bind_lunit prod.case) blast
  next
    case (TQ_put d f c pk)
    then have d: "length d = lsize C" "packet_fits (bufsize C) pk" using ok by simp_all
    obtain p t ns' where t: "tsch_queue_add_packet C d f c pk s = Some (p, t)" "tq_inv C ?k t ns'" "tq_frame s t"
      "put_packet C ?k (nbr_max K) (packet_max K) d (saved (bufsize C) pk, f, c, 0) es = (p \<noteq> NULL, map (nbr_entry t) ns')"
      using add_packet_spec [OF inv C d] unfolding es m by blast
    have "one_source (map (nbr_entry t) ns')" using one_source_put [OF one, of C ?k "nbr_max K" "packet_max K" d "(saved (bufsize C) pk, f, c, 0)"] t(4) by simp
    from finish [OF frame_same [OF t(3), folded x] t(2) this, of "rs @ [R_bool (p \<noteq> NULL)]"] show ?thesis using t(1,4) by (simp add: TQ_put sr a)
  next
    case (TQ_take d)
    then have d: "length d = lsize C" using ok by simp
    obtain t where t: "tq_step C cb ka (TQ_take d) (s, rs) = Some (t, rs @ [R_packet (case queue_of d es of [] \<Rightarrow> None | q # qs \<Rightarrow> Some q)])"
      "tq_inv C ?k t ns" "tq_frame s t" "map (nbr_entry t) ns = change d (\<lambda>e. (fst e, tl (snd e))) es"
      using take_spec [OF inv d, of cb ka rs] unfolding es by blast
    have "one_source (map (nbr_entry t) ns)" unfolding t(4) using one by (rule one_source_change) simp
    from finish [OF frame_same [OF t(3), folded x] t(2) this] show ?thesis using t(1,4) unfolding TQ_take sr a by (simp del: tq_repr.simps tq_step.simps)
  next
    case TQ_reset
    obtain t where t: "tsch_queue_reset C cb s = Some t" "tq_inv C ?k t ns" "map (nbr_entry t) ns = map (reset_entry C) es"
      "tq_frame (s\<lparr>tsch.more := fold (report (on_sent K)) (concat (map snd es)) x\<rparr>) t"
      using reset_spec [OF inv cb] unfolding es x by blast
    have "one_source (map (nbr_entry t) ns)" unfolding t(3) using one by (rule one_source_map) (simp add: reset_entry_def)
    from finish [OF t(4,2) this] show ?thesis using t(1,3) unfolding TQ_reset sr a by (simp del: tq_repr.simps)
  next
    case TQ_free_unused
    obtain t ns' where t: "tsch_queue_free_unused_neighbors cb s = Some t" "tq_inv C ?k t ns'" "tq_frame s t"
      "map (nbr_entry t) ns' = filter (\<lambda>e. \<not> unused_entry e) es"
      using free_unused_spec [OF inv cb] unfolding es by blast
    have "one_source (map (nbr_entry t) ns')" unfolding t(4) using one by (rule one_source_filter)
    from finish [OF frame_same [OF t(3), folded x] t(2) this] show ?thesis using t(1,4) unfolding TQ_free_unused sr a by (simp del: tq_repr.simps)
  next
    case (TQ_time_source d)
    show ?thesis
    proof (cases "coordinator K")
      case True
      then show ?thesis using coordinator_keeps [OF inv] m(3) r' unfolding TQ_time_source sr a by (simp add: TQ_time_source)
    next
      case False
      then have co: "\<not> tsch_is_coordinator s" using m(3) by simp
      show ?thesis
      proof (cases d)
        case None
        obtain t where t: "tsch_queue_update_time_source C ka None s = Some (True, t)" "tq_inv C ?k t ns" "tq_frame s t" "map (nbr_entry t) ns = map (mark None) es"
          using update_source_none [OF inv onem co, of ka] unfolding es by blast
        have "one_source (map (nbr_entry t) ns)" unfolding t(4) by (rule one_source_mark)
        from finish [OF frame_same [OF t(3), folded x] t(2) this] show ?thesis
          using t(1,4) False unfolding TQ_time_source None sr a by (simp add: new_source_def del: tq_repr.simps)
      next
        case (Some e)
        then have e: "length e = lsize C" using ok TQ_time_source by simp
        obtain b t ns' where t: "tsch_queue_update_time_source C ka (Some e) s = Some (b, t)" "tq_inv C ?k t ns'"
          "new_source C (nbr_max K) (Some e) es = (b, map (nbr_entry t) ns')"
          "tq_frame (s\<lparr>tsch.more := if b \<and> \<not> is_source e es then on_keepalive K (ucast (TSCH_KEEPALIVE_TIMEOUT C)) x else x\<rparr>) t"
          using update_source_some [OF ka inv C e onem co] unfolding es m x by blast
        have "one_source (map (nbr_entry t) ns')" using one_source_new [OF one, of C "nbr_max K" "Some e"] t(3) by simp
        from finish [OF t(4,2) this] show ?thesis using t(1,3) False unfolding TQ_time_source Some sr a by (simp del: tq_repr.simps)
      qed
    qed
  next
    case (TQ_backoff d rnd)
    then have d: "length d = lsize C" using ok by simp
    obtain n where n: "tsch_queue_get_nbr C d s = Some n" using get_nbr_spec [OF inv d] by blast
    define t where "t = (if n \<noteq> NULL then tsch_queue_backoff_inc C rnd n s else s)"
    have "let t = (if n \<noteq> NULL then set_nbr n (next_backoff C rnd (neighbor s n)) s else s)
      in tq_inv C ?k t ns \<and> tq_frame s t \<and> map (nbr_entry t) ns = change d (\<lambda>e. (next_backoff C rnd (fst e), snd e)) (map (nbr_entry s) ns)"
      by (rule entry_change [OF inv d n]) simp_all
    then have t: "tq_inv C ?k t ns" "tq_frame s t" "map (nbr_entry t) ns = change d (\<lambda>e. (next_backoff C rnd (fst e), snd e)) es"
      by (simp_all only: t_def tsch_queue_backoff_inc_def Let_def es)
    have "one_source (map (nbr_entry t) ns)" unfolding t(3) using one by (rule one_source_change) simp
    from finish [OF frame_same [OF t(2), folded x] t(1) this] show ?thesis using n t(3) unfolding TQ_backoff sr a by (simp add: t_def del: tq_repr.simps)
  next
    case (TQ_windows d)
    obtain t where t: "tsch_queue_update_all_backoff_windows C d s = Some t" "tq_inv C ?k t ns" "tq_frame s t"
      "map (nbr_entry t) ns = map (\<lambda>e. (count_down C d (fst e), snd e)) es"
      using windows_spec [OF inv] unfolding es by blast
    have "one_source (map (nbr_entry t) ns)" unfolding t(4) using one by (rule one_source_map) simp
    from finish [OF frame_same [OF t(3), folded x] t(2) this] show ?thesis using t(1,4) unfolding TQ_windows sr a by (simp del: tq_repr.simps)
  next
    case (TQ_links d c)
    then have d: "length d = lsize C" using ok by simp
    obtain n where n: "tsch_queue_get_nbr C d s = Some n" using get_nbr_spec [OF inv d] by blast
    define t where "t = (if n \<noteq> NULL then set_nbr n ((neighbor s n)\<lparr>tx_links_count := c\<rparr>) s else s)"
    have "let t = (if n \<noteq> NULL then set_nbr n ((neighbor s n)\<lparr>tx_links_count := c\<rparr>) s else s)
      in tq_inv C ?k t ns \<and> tq_frame s t \<and> map (nbr_entry t) ns = change d (\<lambda>e. ((fst e)\<lparr>tx_links_count := c\<rparr>, snd e)) (map (nbr_entry s) ns)"
      by (rule entry_change [OF inv d n]) (simp_all add: nbr_info.truncate_def)
    then have t: "tq_inv C ?k t ns" "tq_frame s t" "map (nbr_entry t) ns = change d (\<lambda>e. ((fst e)\<lparr>tx_links_count := c\<rparr>, snd e)) es"
      by (simp_all only: t_def Let_def es)
    have "one_source (map (nbr_entry t) ns)" unfolding t(3) using one by (rule one_source_change) simp
    from finish [OF frame_same [OF t(2), folded x] t(1) this] show ?thesis using n t(3) unfolding TQ_links sr a by (simp add: t_def del: tq_repr.simps)
  qed
qed

interpretation tsch_queues: partial_simulation "tq_step C cb ka" "tq_spec C K" "\<lambda>y a. tq_env C K cb ka \<and> tq_ok C y" "tq_repr C K" for C K cb ka
  by unfold_locales (rule tq_step_simulates, simp_all)

section \<open>What the queues promise\<close>

lemma repr_bounds:
  assumes "tq_repr C K (s, rs) (es, x, rs')"
  shows "length es \<le> nbr_max K \<and> total es \<le> packet_max K \<and> distinct (addresses_of es)"
proof -
  obtain ns where inv: "tq_inv C (log_size K) s ns" and es: "map (nbr_entry s) ns = es" and m: "num (neighbor_memb s) = nbr_max K" "num (packet_memb s) = packet_max K"
    using assms by auto
  have o: "owned (neighbor_memb s) id (set ns)" and pk: "packets_ok C s (queued s ns)" and d: "distinct (map (\<lambda>n. n_addr (neighbor s n)) ns)"
    using inv by (simp_all add: tq_inv_def)
  have "length ns \<le> num (neighbor_memb s)" using owned_card(3) [OF o] distinct_card [OF inv_distinct [OF inv]] by simp
  moreover have "total es \<le> packet_max K" using packets_card(2) [OF pk] m by (simp add: es [symmetric] total_entries)
  ultimately show ?thesis using m d by (simp add: es [symmetric] comp_def nbr_entry_def)
qed

lemma start_one_source: "one_source (start_entries C m)"
  unfolding start_entries_def by (intro ensure_one_source) (simp add: one_source_def)

lemma run_from_start:
  assumes env: "tq_env C K cb ka" and st: "start_ok q s"
    and K: "nbr_max K = num (neighbor_memb s)" "packet_max K = num (packet_memb s)" "coordinator K = tsch_is_coordinator s"
    and ops: "list_all (tq_ok C) ops"
  shows "\<exists>s0 t es x rs. tsch_queue_init C s = Some s0 \<and> run_ops (tq_step C cb ka) ops (s0, []) = Some (t, rs) \<and>
    fold (tq_spec C K) ops (start_entries C (nbr_max K), tsch.more s, []) = (es, x, rs) \<and> tq_repr C K (t, rs) (es, x, rs)"
proof -
  have C: "config_ok C (log_size K)" using env by (simp add: tq_env_def)
  obtain s0 ns where s0: "tsch_queue_init C s = Some s0" "tq_inv C (log_size K) s0 ns" "map (nbr_entry s0) ns = start_entries C (num (neighbor_memb s))"
    "num (neighbor_memb s0) = num (neighbor_memb s)" "num (packet_memb s0) = num (packet_memb s)"
    "tsch_is_coordinator s0 = tsch_is_coordinator s" "tsch.more s0 = tsch.more s" using tsch_queue_init_spec [OF C st] by blast
  have r: "tq_repr C K (s0, []) (start_entries C (nbr_max K), tsch.more s, [])" using s0 K start_one_source by auto
  have "ops_allowed (\<lambda>y a. tq_env C K cb ka \<and> tq_ok C y) (tq_spec C K) ops a" for a
    using ops env by (induction ops arbitrary: a) auto
  from tsch_queues.run_simulates [OF r this] obtain t rs where t: "run_ops (tq_step C cb ka) ops (s0, []) = Some (t, rs)"
    "tq_repr C K (t, rs) (fold (tq_spec C K) ops (start_entries C (nbr_max K), tsch.more s, []))" by auto
  obtain es x rs' where f: "fold (tq_spec C K) ops (start_entries C (nbr_max K), tsch.more s, []) = (es, x, rs')" by (metis prod_cases3)
  then have "rs' = rs" using t(2) by simp
  then show ?thesis using s0(1) t f by auto
qed

text \<open>C16: The queues of TSCH are first-in-first-out queues, one for each neighbour. From the start, after any
  sequence of operations, each call has returned, and every result, every packet taken off a queue with its
  data, attributes, addresses and callback, and every report to a callback is that of a table of queues: a packet
  is refused only when the table, the neighbour's queue or the packets are full. There is at most one time source,
  and the packet that is offered for a link is the first of the neighbour's queue, unless the link is shared and the
  neighbour has to back off.\<close>

theorem tsch_queues_refine:
  assumes "tq_env C K cb ka" and "start_ok q s"
    and "nbr_max K = num (neighbor_memb s)" and "packet_max K = num (packet_memb s)" and "coordinator K = tsch_is_coordinator s"
    and "list_all (tq_ok C) ops"
    and "fold (tq_spec C K) ops (start_entries C (nbr_max K), tsch.more s, []) = (es, x, rs)"
  shows "\<exists>s0 t. tsch_queue_init C s = Some s0 \<and> run_ops (tq_step C cb ka) ops (s0, []) = Some (t, rs) \<and> tsch.more t = x \<and>
    one_source es \<and> length es \<le> nbr_max K \<and> total es \<le> packet_max K \<and>
    (\<forall>a link. length a = lsize C \<longrightarrow> \<not> TSCH_WITH_LINK_SELECTOR (fconf C) \<longrightarrow>
      (\<exists>p. tsch_queue_get_packet_for_dest_addr C a link t = Some p \<and>
        (case entry_of a es of None \<Rightarrow> p = NULL
         | Some e \<Rightarrow> if sendable link e then p \<noteq> NULL \<and> pkt t p = hd (snd e) else p = NULL)))"
proof -
  obtain s0 t es' x' rs' where t: "tsch_queue_init C s = Some s0" "run_ops (tq_step C cb ka) ops (s0, []) = Some (t, rs')"
    "fold (tq_spec C K) ops (start_entries C (nbr_max K), tsch.more s, []) = (es', x', rs')" "tq_repr C K (t, rs') (es', x', rs')"
    using run_from_start [OF assms(1-6)] by blast
  have e: "es' = es" "x' = x" "rs' = rs" using t(3) assms(7) by simp_all
  obtain ns where ns: "tq_inv C (log_size K) t ns" "map (nbr_entry t) ns = es" using t(4) e by auto
  have "\<exists>p. tsch_queue_get_packet_for_dest_addr C a link t = Some p \<and>
        (case entry_of a es of None \<Rightarrow> p = NULL
         | Some e \<Rightarrow> if sendable link e then p \<noteq> NULL \<and> pkt t p = hd (snd e) else p = NULL)"
    if "length a = lsize C" "\<not> TSCH_WITH_LINK_SELECTOR (fconf C)" for a link
    using get_packet_spec [OF ns(1) that, of link] unfolding ns(2) .
  then show ?thesis using t(1,2,4) e repr_bounds [OF t(4)] by auto
qed

subsection \<open>Back-off\<close>

lemma entry_of_change: "(\<And>e. n_addr (fst (f e)) = n_addr (fst e)) \<Longrightarrow> entry_of a (change a f es) = map_option f (entry_of a es)"
  by (induction es) (auto simp: entry_of_def change_def)

lemma entry_of_map: "(\<And>e. n_addr (fst (f e)) = n_addr (fst e)) \<Longrightarrow> entry_of a (map f es) = map_option f (entry_of a es)"
  by (induction es) (auto simp: entry_of_def)

text \<open>Whom a transmission to \<open>d\<close> concerns.\<close>

definition concerns :: "tsch_config \<Rightarrow> linkaddr_t \<Rightarrow> 'b nbr_info_scheme \<Rightarrow> bool" where
  "concerns C d v \<longleftrightarrow> (if tx_links_count v = 0 then linkaddr_cmp (lsize C) d (tsch_broadcast_address C) else linkaddr_cmp (lsize C) d (n_addr v))"

lemma count_down_window: "concerns C d v \<Longrightarrow> unat (backoff_window (count_down C d v)) = unat (backoff_window v) - 1"
  by (cases "backoff_window v = 0") (auto simp: count_down_def concerns_def word_gt_0 unat_minus_one split: if_splits)

lemma count_down_concerns [simp]: "concerns C d (count_down C d v) = concerns C d v"
  by (simp add: count_down_def concerns_def)

lemma fold_windows:
  "fold (tq_spec C K) (replicate j (TQ_windows d)) (es, x, rs) = (map (\<lambda>e. ((count_down C d ^^ j) (fst e), snd e)) es, x, rs)"
  by (induction j arbitrary: es) (simp_all add: funpow_swap1 comp_def)

lemma count_down_iter:
  assumes "concerns C d v"
  shows "unat (backoff_window ((count_down C d ^^ j) v)) = unat (backoff_window v) - j \<and> concerns C d ((count_down C d ^^ j) v) \<and>
    n_addr ((count_down C d ^^ j) v) = n_addr v"
  using assms by (induction j) (simp_all add: count_down_window)

lemma unat_drop_6: "unat (drop_bit 6 (r :: u16)) = unat r div 64"
  by (simp add: drop_bit_eq_div unat_div_distrib)

lemma next_backoff_window:
  assumes "TSCH_MAC_MAX_BE C \<le> 7"
  shows "unat (backoff_window (next_backoff C rnd v)) = unat rnd div 64 mod 2 ^ min (unat (backoff_exponent v) + 1) (unat (TSCH_MAC_MAX_BE C)) + 1"
proof -
  let ?e = "min (unat (backoff_exponent v) + 1) (unat (TSCH_MAC_MAX_BE C))"
  have e: "?e \<le> 7" using assms by (simp add: word_le_nat_alt)
  then have ue: "unat (of_nat ?e :: u8) = ?e" by (subst unat_of_nat) simp
  define r where "r = unat rnd div 64 mod 2 ^ ?e"
  have "r < 2 ^ ?e" by (simp add: r_def)
  also have "(2 :: nat) ^ ?e \<le> 2 ^ 7" using e by (intro power_increasing) simp_all
  finally have "unat (of_nat r + 1 :: u8) = r + 1" by (simp add: unat_word_ariths unat_of_nat)
  moreover have "backoff_window (next_backoff C rnd v) = of_nat r + 1"
    by (simp only: next_backoff_def Let_def ue unat_drop_6 r_def) simp
  ultimately show ?thesis by (simp add: r_def)
qed

lemma next_backoff_concerns [simp]: "concerns C d (next_backoff C rnd v) = concerns C d v"
  by (simp add: next_backoff_def concerns_def Let_def)

text \<open>C36: After a collision a neighbour waits for the end of as many shared slots as were drawn, no more and
  no fewer: from 1, the current one, to 2 to the power of the back-off exponent, which grows by 1 up
  to \<open>TSCH_MAC_MAX_BE\<close>. Its next packet is offered on a shared link exactly from then
  on. The neighbour has a packet, the slots that end are ones in which its window counts down, the
  build has no link selector, and \<open>TSCH_MAC_MAX_BE\<close> is at most 7: with 8 the window can
  wrap around to 0 (\<open>backoff_wraps\<close>).\<close>

theorem shared_slots_skipped:
  assumes "tq_env C K cb ka" and "start_ok q s"
    and "nbr_max K = num (neighbor_memb s)" and "packet_max K = num (packet_memb s)" and "coordinator K = tsch_is_coordinator s"
    and "list_all (tq_ok C) ops" and "\<not> TSCH_WITH_LINK_SELECTOR (fconf C)" and "TSCH_MAC_MAX_BE C \<le> 7"
    and "fold (tq_spec C K) ops (start_entries C (nbr_max K), tsch.more s, []) = (es, x, rs)"
    and "length a = lsize C" and "entry_of a es = Some e" and "snd e \<noteq> []" and "concerns C d (fst e)" and "shared link"
    and "be = min (unat (backoff_exponent (fst e)) + 1) (unat (TSCH_MAC_MAX_BE C))" and "w = unat rnd div 64 mod 2 ^ be + 1"
  shows "w \<le> 2 ^ be \<and> (\<exists>s0 t p. tsch_queue_init C s = Some s0 \<and>
    run_ops (tq_step C cb ka) (ops @ TQ_backoff a rnd # replicate j (TQ_windows d)) (s0, []) = Some (t, rs) \<and>
    tsch_queue_get_packet_for_dest_addr C a link t = Some p \<and> (p \<noteq> NULL \<longleftrightarrow> w \<le> j))"
proof -
  let ?ops = "ops @ TQ_backoff a rnd # replicate j (TQ_windows d)"
  let ?f = "\<lambda>e. (next_backoff C rnd (fst e), snd e)" and ?g = "\<lambda>e. ((count_down C d ^^ j) (fst e), snd e)"
  have "list_all (tq_ok C) ?ops" using assms(6,10) by (simp add: list_all_iff set_replicate_conv_if)
  from run_from_start [OF assms(1-5) this] obtain s0 t es' x' rs' where t: "tsch_queue_init C s = Some s0" "run_ops (tq_step C cb ka) ?ops (s0, []) = Some (t, rs')"
    "fold (tq_spec C K) ?ops (start_entries C (nbr_max K), tsch.more s, []) = (es', x', rs')" "tq_repr C K (t, rs') (es', x', rs')"
    by blast
  have e: "es' = map ?g (change a ?f es)" "rs' = rs" using t(3) by (simp_all add: assms(9) fold_windows del: fold_replicate)
  have addr: "n_addr ((count_down C d ^^ j) v) = n_addr v" for v :: nbr_info by (induction j) simp_all
  have "entry_of a es' = Some (?g (?f e))" using assms(11) by (simp add: e(1) entry_of_map addr entry_of_change)
  moreover have w: "unat (backoff_window (next_backoff C rnd (fst e))) = w" using next_backoff_window [OF assms(8), of rnd "fst e"] assms(15,16) by simp
  moreover have "unat (backoff_window ((count_down C d ^^ j) (next_backoff C rnd (fst e)))) = w - j"
    using count_down_iter [of C d "next_backoff C rnd (fst e)" j] assms(13) w by simp
  then have "sendable link (?g (?f e)) \<longleftrightarrow> w \<le> j" using assms(12,14) by (auto simp: sendable_def unat_eq_0 [symmetric])
  moreover obtain ns where ns: "tq_inv C (log_size K) t ns" "map (nbr_entry t) ns = es'" using t(4) by auto
  moreover obtain p where p: "tsch_queue_get_packet_for_dest_addr C a link t = Some p"
    "case entry_of a es' of None \<Rightarrow> p = NULL | Some e \<Rightarrow> if sendable link e then p \<noteq> NULL \<and> pkt t p = hd (snd e) else p = NULL"
    using get_packet_spec [OF ns(1) assms(10,7), of link] unfolding ns(2) by blast
  ultimately have "p \<noteq> NULL \<longleftrightarrow> w \<le> j" by (simp split: if_splits)
  moreover have "w \<le> 2 ^ be" using mod_less_divisor [of "2 ^ be" "unat rnd div 64"] by (simp add: assms(16) Suc_le_eq)
  ultimately show ?thesis using t(1,2) p(1) e(2) by blast
qed

text \<open>With an exponent of 8, which the standard allows, the window can wrap around to 0: no slot is skipped.\<close>

lemma backoff_wraps:
  assumes "TSCH_MAC_MAX_BE C = 8" and "backoff_exponent v = 7" and "unat rnd div 64 mod 256 = 255"
  shows "backoff_window (next_backoff C rnd v) = 0"
  using assms by (simp add: next_backoff_def Let_def unat_drop_6 del: unat_drop_bit_eq)

subsection \<open>A run\<close>

text \<open>Two neighbours, three packets. The rest of the program's state is the list of what the callbacks were told.\<close>

definition small_tsch :: tsch_config where
  "small_tsch = \<lparr>fconf = example_framer, TSCH_QUEUE_NUM_PER_NEIGHBOR = 4, TSCH_MAC_MIN_BE = 1, TSCH_MAC_MAX_BE = 5, TSCH_KEEPALIVE_TIMEOUT = 1536\<rparr>"

definition small_state :: "(ptr \<times> ptr \<times> u8) list tsch_scheme" where
  "small_state = \<lparr>heads = (\<lambda>_. 0), nxt = (\<lambda>_. 0), tsch_locked = False, tsch_lock_requested = False, tsch_in_slot_operation = False,
     tsch_is_coordinator = False, tsch_current_ka_timeout = 0,
     neighbor = (\<lambda>_. init_nbr small_tsch []), neighbor_memb = \<lparr>bsize = 40, num = 4, count = [], base = 4096, mem = []\<rparr>,
     packet_at = (\<lambda>_. \<lparr>qb = 0, sent = 0, sent_ptr = 0, transmissions = 0, ret = 0, header_len = 0, tsch_sync_ie_offset = 0\<rparr>),
     packet_memb = \<lparr>bsize = 10, num = 2, count = [], base = 8192, mem = []\<rparr>, qbufs = queuebuf_init sample_buffers,
     n_eb = 0, n_broadcast = 0, \<dots> = []\<rparr>"

definition log_sent :: "ptr \<Rightarrow> ptr \<Rightarrow> u8 \<Rightarrow> u8 \<Rightarrow> (ptr \<times> ptr \<times> u8) list \<Rightarrow> (ptr \<times> ptr \<times> u8) list" where
  "log_sent f d r n xs = xs @ [(f, d, r)]"

definition small_spec :: "(ptr \<times> ptr \<times> u8) list tq_spec_config" where
  "small_spec = \<lparr>nbr_max = 4, packet_max = 2, log_size = 2, coordinator = False, on_sent = log_sent, on_keepalive = (\<lambda>_ xs. xs)\<rparr>"

definition logging :: "(ptr \<times> ptr \<times> u8) list sent_callback" where
  "logging f d r n s = s\<lparr>tsch.more := log_sent f d r n (tsch.more s)\<rparr>"

lemma small_env:
  "tq_env small_tsch small_spec logging (\<lambda>s. s)" "start_ok sample_buffers small_state"
  "nbr_max small_spec = num (neighbor_memb small_state)" "packet_max small_spec = num (packet_memb small_state)"
  "coordinator small_spec = tsch_is_coordinator small_state" "\<not> TSCH_WITH_LINK_SELECTOR (fconf small_tsch)"
  by (simp_all add: tq_env_def config_ok_def callback_ok_def keepalive_ok_def start_ok_def small_spec_def small_tsch_def small_state_def
    example_framer_def sample_buffers_def logging_def log_sent_def)

definition small_ops :: "tq_op list" where
  "small_ops = [TQ_put [1, 2] 7 70 (small_packet 5), TQ_put [1, 2] 8 80 (small_packet 6), TQ_put [3, 4] 9 90 (small_packet 7),
     TQ_take [1, 2], TQ_put [3, 4] 9 90 (small_packet 7), TQ_time_source (Some [1, 2]), TQ_reset, TQ_free_unused]"

lemma small_saved [simp]: "saved 128 (small_packet b) = ([b, b, b], [7], [[1, 2]])"
  by (simp add: saved_def packetbuf_copyto_def small_packet_def packetbuf_hdrptr_def packetbuf_dataptr_def packetbuf_hdrlen_def word_less_nat_alt upt_conv_Cons)

lemma small_ops_ok: "list_all (tq_ok small_tsch) small_ops"
  by (simp add: small_ops_def small_tsch_def example_framer_def packet_fits_def small_packet_def)

abbreviation (input) "info a b t \<equiv> \<lparr>n_addr = a, is_broadcast = b, is_time_source = t, backoff_exponent = 1, backoff_window = 0,
   last_backoff_window = 0, tx_links_count = 0, dedicated_tx_links_count = 0\<rparr>"

lemma small_config [simp]:
  "bufsize small_tsch = 128" "lsize small_tsch = 2" "tsch_eb_address small_tsch = [0, 0]" "tsch_broadcast_address small_tsch = [255, 255]"
  "TSCH_MAC_MIN_BE small_tsch = 1" "TSCH_MAC_MAX_BE small_tsch = 5"
  by (simp_all add: small_tsch_def example_framer_def tsch_eb_address_def tsch_broadcast_address_def numeral_2_eq_2)

lemma small_config_spec [simp]:
  "nbr_max small_spec = 4" "packet_max small_spec = 2" "log_size small_spec = 2" "\<not> coordinator small_spec" "on_sent small_spec = log_sent"
  "on_keepalive small_spec n xs = xs"
  by (simp_all add: small_spec_def)

lemma small_new [simp]: "length a = 2 \<Longrightarrow> new_entry small_tsch a = (info a (a = [0, 0] \<or> a = [255, 255]) False, [])"
  by (simp add: new_entry_def init_nbr_def nbr_info.truncate_def)

lemma small_start: "start_entries small_tsch 4 = [(info [0, 0] True False, []), (info [255, 255] True False, [])]"
  by (simp add: start_entries_def ensure_nbr_def)

lemma small_run:
  "fold (tq_spec small_tsch small_spec) small_ops (start_entries small_tsch (nbr_max small_spec), tsch.more small_state, []) =
     ([(info [0, 0] True False, []), (info [255, 255] True False, []), (info [1, 2] False True, [])],
      [(8, 80, MAC_TX_ERR), (9, 90, MAC_TX_ERR)],
      [R_bool True, R_bool True, R_bool False, R_packet (Some (([5, 5, 5], [7], [[1, 2]]), 7, 70, 0)), R_bool True, R_bool True])"
  by (simp add: small_ops_def small_start small_state_def put_packet_def ensure_nbr_def queue_of_def change_def total_def
    new_source_def mark_def is_source_def reset_entry_def unused_entry_def report_def log_sent_def Let_def)

theorem tsch_queues_refine_witness:
  "\<exists>s0 t. tsch_queue_init small_tsch small_state = Some s0 \<and>
    run_ops (tq_step small_tsch logging (\<lambda>s. s)) small_ops (s0, []) =
      Some (t, [R_bool True, R_bool True, R_bool False, R_packet (Some (([5, 5, 5], [7], [[1, 2]]), 7, 70, 0)), R_bool True, R_bool True]) \<and>
    tsch.more t = [(8, 80, MAC_TX_ERR), (9, 90, MAC_TX_ERR)]"
  using tsch_queues_refine [OF small_env(1-5) small_ops_ok small_run] by blast

definition shared_link :: tsch_link where
  "shared_link = \<lparr>l_handle = 0, l_addr = [255, 255], slotframe_handle = 0, timeslot = 0, channel_offset = 0,
     link_options = LINK_OPTION_TX OR LINK_OPTION_RX OR LINK_OPTION_SHARED, link_kind = LINK_TYPE_ADVERTISING, l_data = NULL\<rparr>"

lemma shared_link: "shared (Some shared_link)"
  by (simp add: shared_def shared_link_def)

theorem shared_slots_skipped_witness:
  "\<exists>s0 t p. tsch_queue_init small_tsch small_state = Some s0 \<and>
    run_ops (tq_step small_tsch logging (\<lambda>s. s)) ([TQ_put [1, 2] 7 70 (small_packet 5)] @ TQ_backoff [1, 2] 200 # replicate 4 (TQ_windows [255, 255])) (s0, []) =
      Some (t, [R_bool True]) \<and>
    tsch_queue_get_packet_for_dest_addr small_tsch [1, 2] (Some shared_link) t = Some p \<and> p \<noteq> NULL"
proof -
  let ?ops = "[TQ_put [1, 2] 7 70 (small_packet 5)]"
  have ops: "list_all (tq_ok small_tsch) ?ops" by (simp add: packet_fits_def small_packet_def)
  define es :: "nbr_entry list" where "es = [(info [0, 0] True False, []), (info [255, 255] True False, []), (info [1, 2] False False, [(([5, 5, 5], [7], [[1, 2]]), 7, 70, 0)])]"
  have run: "fold (tq_spec small_tsch small_spec) ?ops (start_entries small_tsch (nbr_max small_spec), tsch.more small_state, []) = (es, [], [R_bool True])"
    by (simp add: es_def small_start small_state_def put_packet_def ensure_nbr_def queue_of_def change_def total_def Let_def)
  have e: "entry_of [1, 2] es = Some (info [1, 2] False False, [(([5, 5, 5], [7], [[1, 2]]), 7, 70, 0)])" by (simp add: entry_of_def es_def)
  have "TSCH_MAC_MAX_BE small_tsch \<le> 7" "length [1 :: u8, 2] = lsize small_tsch" by simp_all
  note size = this
  have "concerns small_tsch [255, 255] (info [1, 2] False False)" by (simp add: concerns_def)
  note w = shared_slots_skipped [OF small_env(1-5) ops small_env(6) size(1) run size(2) e _ _ shared_link refl refl, of "[255, 255]" 200 4]
  show ?thesis using w \<open>concerns small_tsch [255, 255] (info [1, 2] False False)\<close> by simp
qed

end
