(* ===== verification/UipSum.thy ===== *)
theory UipSum
  imports Linkaddr
begin

text \<open>
  The arithmetic of the TCP/IP stack, \<open>core/net/ipv4/uip.c\<close>: sequence numbers of four bytes, most
  significant byte first, and the Internet checksum of a range of memory. What they compute is
  stated in \<^typ>\<open>nat\<close>: addition modulo $2^{32}$, and the sum of the 16-bit words of the range with
  the carries added back (\<open>fold16\<close>).
\<close>

section \<open>The code\<close>

type_synonym bytes4 = "u8 \<times> u8 \<times> u8 \<times> u8"

definition uip_htons :: "u16 \<Rightarrow> u16" where
  "uip_htons val = push_bit 8 val OR drop_bit 8 val"

text \<open>\<open>uip_add32\<close> leaves its result in \<open>uip_acc32\<close>, which is the result here.\<close>

definition uip_add32 :: "bytes4 \<Rightarrow> u16 \<Rightarrow> bytes4" where
  "uip_add32 op32 op16 =
     (let (o0, o1, o2, o3) = op32;
          a3 = o3 + ucast (op16 AND 0xff);
          a2 = o2 + ucast (drop_bit 8 op16);
          (a0, a1) = (if ucast a2 < drop_bit 8 op16
                      then (if o1 + 1 = 0 then o0 + 1 else o0, o1 + 1) else (o0, o1))
      in if ucast a3 < op16 AND 0xff then
           (if a2 + 1 = 0 then (if a1 + 1 = 0 then a0 + 1 else a0, a1 + 1, a2 + 1, a3)
            else (a0, a1, a2 + 1, a3))
         else (a0, a1, a2, a3))"

definition add_carry :: "u16 \<Rightarrow> u16 \<Rightarrow> u16" where
  "add_carry acc t = (let s = acc + t in if s < t then s + 1 else s)"

text \<open>The loop over \<open>dataptr\<close>, with the number of bytes that are left.\<close>

fun chksum_loop :: "mem \<Rightarrow> nat \<Rightarrow> nat \<Rightarrow> u16 \<Rightarrow> u16" where
  "chksum_loop m dataptr n acc =
     (if 2 \<le> n then
        chksum_loop m (dataptr + 2) (n - 2)
          (add_carry acc (push_bit 8 (ucast (m dataptr)) + ucast (m (dataptr + 1))))
      else if n = 1 then add_carry acc (push_bit 8 (ucast (m dataptr)) + 0)
      else acc)"

definition chksum :: "u16 \<Rightarrow> mem \<Rightarrow> nat \<Rightarrow> u16 \<Rightarrow> u16" where
  "chksum acc m data len = chksum_loop m data (unat len) acc"

definition uip_chksum :: "mem \<Rightarrow> nat \<Rightarrow> u16 \<Rightarrow> u16" where
  "uip_chksum m data len = uip_htons (chksum 0 m data len)"

abbreviation (input) "UIP_IPH_LEN \<equiv> 20"

definition uip_ipchksum :: "nat \<Rightarrow> mem \<Rightarrow> u16" where
  "uip_ipchksum llh m =
     (let acc = chksum 0 m llh UIP_IPH_LEN in if acc = 0 then 0xffff else uip_htons acc)"

definition upper_layer_chksum :: "nat \<Rightarrow> mem \<Rightarrow> u8 \<Rightarrow> u16" where
  "upper_layer_chksum llh m proto =
     (let upper_layer_len = (push_bit 8 (ucast (m (llh + 2))) + ucast (m (llh + 3))) - UIP_IPH_LEN;
          acc = upper_layer_len + ucast proto;
          acc = chksum acc m (llh + 12) (2 * 4);
          acc = chksum acc m (llh + UIP_IPH_LEN) upper_layer_len
      in if acc = 0 then 0xffff else uip_htons acc)"

abbreviation (input) "UIP_PROTO_ICMP \<equiv> (1 :: u8)"
abbreviation (input) "UIP_PROTO_TCP \<equiv> (6 :: u8)"
abbreviation (input) "UIP_PROTO_UDP \<equiv> (17 :: u8)"

definition uip_tcpchksum :: "nat \<Rightarrow> mem \<Rightarrow> u16" where
  "uip_tcpchksum llh m = upper_layer_chksum llh m UIP_PROTO_TCP"

definition uip_udpchksum :: "nat \<Rightarrow> mem \<Rightarrow> u16" where
  "uip_udpchksum llh m = upper_layer_chksum llh m UIP_PROTO_UDP"

declare chksum_loop.simps [simp del]

section \<open>Sequence numbers\<close>

fun num4 :: "bytes4 \<Rightarrow> nat" where
  "num4 (a, b, c, d) = 2 ^ 24 * unat a + 2 ^ 16 * unat b + 2 ^ 8 * unat c + unat d"

lemma u8_bound: "unat (x :: u8) < 256" and u16_bound: "unat (y :: u16) < 65536"
  using unsigned_less [of x] unsigned_less [of y] by simp_all

lemma byte_add: "unat (x + y) + (if x + y < y then 256 else 0) = unat x + unat (y :: u8)"
proof -
  have b: "unat x < 256" "unat y < 256" by (rule u8_bound)+
  show ?thesis
  proof (cases "unat x + unat y < 256")
    case True
    then show ?thesis by (simp add: word_less_nat_alt unat_word_ariths)
  next
    case False
    then have "(unat x + unat y) mod 256 = unat x + unat y - 256"
      using b by (simp add: mod_if)
    with False b show ?thesis by (simp add: word_less_nat_alt unat_word_ariths)
  qed
qed

lemma byte_inc: "unat (x + 1) + (if x + 1 = 0 then 256 else 0) = unat (x :: u8) + 1"
  using byte_add [of x 1] by (simp add: word_less_nat_alt unat_eq_zero)

lemma bytes_of_u16: "unat (ucast (n AND 0xff) :: u8) = unat n mod 256"
  "unat (ucast (drop_bit 8 (n :: u16)) :: u8) = unat n div 256"
  and ucast_less_bytes: "(ucast (a :: u8) < n AND 0xff) = (a < ucast (n AND 0xff))"
  "(ucast (a :: u8) < drop_bit 8 n) = (a < ucast (drop_bit 8 n))"
proof -
  have m: "n AND 0xff = take_bit 8 n" by (simp add: take_bit_eq_mask mask_eq_exp_minus_1)
  have l: "unat n < 65536" by (rule u16_bound)
  have d: "unat (n mod 256) = unat n mod 256" "unat (n div 256) = unat n div 256" by (simp_all add: unat_mod unat_div)
  show "unat (ucast (n AND 0xff) :: u8) = unat n mod 256" "unat (ucast (drop_bit 8 n) :: u8) = unat n div 256"
    using l d by (simp_all add: m unsigned_ucast_eq unsigned_take_bit_eq take_bit_eq_mod unsigned_drop_bit_eq drop_bit_eq_div)
  then show "(ucast a < n AND 0xff) = (a < ucast (n AND 0xff))"
    "(ucast a < drop_bit 8 n) = (a < ucast (drop_bit 8 n))"
    using u8_bound [of a] l d
    by (simp_all add: word_less_nat_alt m unsigned_ucast_eq unsigned_take_bit_eq take_bit_eq_mod unsigned_drop_bit_eq drop_bit_eq_div)
qed

lemma uip_add32_num: "num4 (uip_add32 b n) = (num4 b + unat n) mod 2 ^ 32"
proof -
  obtain o0 o1 o2 o3 where b: "b = (o0, o1, o2, o3)" by (cases b)
  define x where "x = (ucast (n AND 0xff) :: u8)"
  define y where "y = (ucast (drop_bit 8 n) :: u8)"
  have n: "unat n = 256 * unat y + unat x" by (simp add: x_def y_def bytes_of_u16)
  have "\<exists>k. num4 (uip_add32 b n) + 2 ^ 32 * k = num4 b + unat n"
  proof -
    define r where "r = uip_add32 b n"
    have r: "r = (let a3 = o3 + x; a2 = o2 + y;
          (a0, a1) = (if a2 < y then (if o1 + 1 = 0 then o0 + 1 else o0, o1 + 1) else (o0, o1))
      in if a3 < x then
           (if a2 + 1 = 0 then (if a1 + 1 = 0 then a0 + 1 else a0, a1 + 1, a2 + 1, a3)
            else (a0, a1, a2 + 1, a3))
         else (a0, a1, a2, a3))"
      by (simp add: r_def b uip_add32_def ucast_less_bytes x_def y_def Let_def)
    define a3 where "a3 = o3 + x"
    define a2 where "a2 = o2 + y"
    define c2 where "c2 = (if a2 < y then 1 else 0 :: nat)"
    have s: "unat a3 + (if a3 < x then 256 else 0) = unat o3 + unat x" "unat a2 + 256 * c2 = unat o2 + unat y"
      using byte_add [of o3 x] byte_add [of o2 y] by (auto simp: a3_def a2_def c2_def)
    obtain a0 a1 k1 where m: "(a0, a1) = (if a2 < y then (if o1 + 1 = 0 then o0 + 1 else o0, o1 + 1) else (o0, o1))"
      and k1: "256 * unat a0 + unat a1 + 65536 * k1 = 256 * unat o0 + unat o1 + c2"
    proof (cases "a2 < y")
      case True
      then show thesis
        using that [of "if o1 + 1 = 0 then o0 + 1 else o0" "o1 + 1" "if o1 + 1 = 0 \<and> o0 + 1 = 0 then 1 else 0"]
          byte_inc [of o1] byte_inc [of o0] by (auto simp: c2_def split: if_splits)
    next
      case False
      then show thesis using that [of o0 o1 0] by (simp add: c2_def)
    qed
    have r': "r = (if a3 < x then
           (if a2 + 1 = 0 then (if a1 + 1 = 0 then a0 + 1 else a0, a1 + 1, a2 + 1, a3)
            else (a0, a1, a2 + 1, a3)) else (a0, a1, a2, a3))"
      unfolding r a3_def [symmetric] a2_def [symmetric] Let_def m [symmetric] by simp
    have "\<exists>k2. num4 r + 2 ^ 32 * k2 = 2 ^ 24 * unat a0 + 2 ^ 16 * unat a1 + 2 ^ 8 * unat a2 + unat a3 + (if a3 < x then 256 else 0)"
      using byte_inc [of a2] byte_inc [of a1] byte_inc [of a0] unfolding r'
      by (cases "a3 < x"; cases "a2 + 1 = 0"; cases "a1 + 1 = 0"; cases "a0 + 1 = 0")
        (auto intro: exI [of _ "0 :: nat"] exI [of _ "1 :: nat"])
    then obtain k2 where "num4 r + 2 ^ 32 * k2 = 2 ^ 24 * unat a0 + 2 ^ 16 * unat a1 + 2 ^ 8 * unat a2 + unat a3 + (if a3 < x then 256 else 0)"
      by blast
    with s k1 n have "num4 r + 2 ^ 32 * (k1 + k2) = num4 b + unat n" by (simp add: b)
    then show ?thesis unfolding r_def ..
  qed
  then obtain k where "num4 (uip_add32 b n) + 2 ^ 32 * k = num4 b + unat n" ..
  moreover have "num4 r < 2 ^ 32" for r
  proof (cases r)
    case (fields a b c d)
    then show ?thesis using u8_bound [of a] u8_bound [of b] u8_bound [of c] u8_bound [of d] by simp
  qed
  ultimately show ?thesis by (metis mod_less mod_mult_self2)
qed

section \<open>One's complement sums\<close>

definition fold16 :: "nat \<Rightarrow> nat" where
  "fold16 x = (if x = 0 then 0 else (x - 1) mod 65535 + 1)"

lemma fold16_0 [simp]: "fold16 0 = 0"
  by (simp add: fold16_def)

lemma fold16_small: "x < 65536 \<Longrightarrow> fold16 x = x"
  by (simp add: fold16_def)

lemma fold16_eq_0 [simp]: "fold16 x = 0 \<longleftrightarrow> x = 0"
  by (simp add: fold16_def)

lemma fold16_less: "fold16 x < 65536"
  by (simp add: fold16_def)

lemma fold16_mod: "fold16 x mod 65535 = x mod 65535"
proof (cases x)
  case (Suc y)
  then have "fold16 x = Suc (y mod 65535)" by (simp add: fold16_def)
  with Suc show ?thesis by (simp only: mod_Suc_eq)
qed simp

lemma fold16_cong: "x mod 65535 = y mod 65535 \<Longrightarrow> x = 0 \<longleftrightarrow> y = 0 \<Longrightarrow> fold16 x = fold16 y"
proof (cases x; cases y)
  fix a b
  assume e: "x mod 65535 = y mod 65535" "x = Suc a" "y = Suc b"
  then have "a mod 65535 = b mod 65535" by (auto simp: mod_Suc split: if_splits)
  then show "fold16 x = fold16 y" by (simp add: fold16_def e(2,3))
qed simp_all

lemma fold16_add: "fold16 (fold16 x + y) = fold16 (x + y)"
proof (rule fold16_cong)
  show "(fold16 x + y) mod 65535 = (x + y) mod 65535" by (rule mod_add_cong [OF fold16_mod refl])
qed simp

lemma fold16_add_right: "fold16 (x + fold16 y) = fold16 (x + y)"
  using fold16_add [of y x] by (simp only: add.commute)

lemma fold16_full: "fold16 x = 65535 \<longleftrightarrow> 0 < x \<and> x mod 65535 = 0"
proof (cases x)
  case (Suc y)
  have "y mod 65535 = 65534 \<longleftrightarrow> Suc y mod 65535 = 0" by (auto simp: mod_Suc)
  with Suc show ?thesis by (simp add: fold16_def)
qed simp

lemma unat_add_carry: "unat (add_carry a t) = fold16 (unat a + unat t)"
proof -
  have b: "unat a < 65536" "unat t < 65536" by (rule u16_bound)+
  show ?thesis
  proof (cases "unat a + unat t < 65536")
    case True
    then show ?thesis by (simp add: add_carry_def Let_def word_less_nat_alt unat_word_ariths fold16_small)
  next
    case False
    define k where "k = unat a + unat t - 65536"
    have k: "unat a + unat t = 65536 + k" "k < 65535" "k < unat t" using False b by (simp_all add: k_def)
    have "unat (a + t) = k" using k by (simp add: unat_word_ariths)
    moreover have "fold16 (65536 + k) = k + 1"
      using k(2) by (simp add: fold16_def)
    ultimately show ?thesis
      using k by (simp add: add_carry_def Let_def word_less_nat_alt unat_word_ariths)
  qed
qed

text \<open>The sum of the 16-bit words of \<open>n\<close> bytes, with the first byte of a word as the high one
  (\<open>True\<close>) or the low one.\<close>

definition word_sum :: "bool \<Rightarrow> mem \<Rightarrow> nat \<Rightarrow> nat \<Rightarrow> nat" where
  "word_sum big m p n = (\<Sum>i<n. (if even i = big then 256 else 1) * unat (m (p + i)))"

lemma word_sum_0 [simp]: "word_sum big m p 0 = 0"
  by (simp add: word_sum_def)

lemma word_sum_Suc: "word_sum big m p (Suc n) = word_sum big m p n + (if even n = big then 256 else 1) * unat (m (p + n))"
  by (simp add: word_sum_def)

lemma word_sum_add: "even n \<Longrightarrow> word_sum big m p (n + k) = word_sum big m p n + word_sum big m (p + n) k"
  by (induction k) (simp_all add: word_sum_Suc add.assoc)

lemma word_sum_2: "word_sum big m p 2 = (if big then 256 else 1) * unat (m p) + (if big then 1 else 256) * unat (m (p + 1))"
  by (simp add: word_sum_Suc numeral_2_eq_2)

lemma word_sum_split: "2 \<le> n \<Longrightarrow> word_sum big m p n = word_sum big m p 2 + word_sum big m (p + 2) (n - 2)"
  using word_sum_add [of 2 big m p "n - 2"] by (simp only: le_add_diff_inverse even_numeral simp_thms)

lemma word_sum_cong: "(\<And>i. i < n \<Longrightarrow> m (p + i) = m' (p' + i)) \<Longrightarrow> word_sum big m p n = word_sum big m' p' n"
  by (simp add: word_sum_def)

lemma unat_word_of_bytes: "unat (push_bit 8 (ucast (a :: u8)) + ucast (b :: u8) :: u16) = 256 * unat a + unat b"
proof -
  have "push_bit 8 (ucast a :: u16) = 256 * ucast a" by (simp add: push_bit_eq_mult)
  then show ?thesis using u8_bound [of a] u8_bound [of b] by (simp add: unat_word_ariths unsigned_ucast_eq take_bit_eq_mod)
qed

lemma unat_chksum_loop: "unat (chksum_loop m p n acc) = fold16 (unat acc + word_sum True m p n)"
proof (induction m p n acc rule: chksum_loop.induct)
  case (1 m p n acc)
  show ?case
  proof (cases "2 \<le> n")
    case True
    then have "unat (chksum_loop m p n acc) = fold16 (fold16 (unat acc + word_sum True m p 2) + word_sum True m (p + 2) (n - 2))"
      using 1 by (subst chksum_loop.simps) (simp add: unat_add_carry unat_word_of_bytes word_sum_2)
    then show ?thesis using True by (simp add: fold16_add word_sum_split [of n] add.assoc)
  next
    case False
    then have "n = 0 \<or> n = 1" by linarith
    then show ?thesis
      using unat_word_of_bytes [of "m p" 0]
      by (subst chksum_loop.simps) (auto simp: fold16_small u16_bound unat_add_carry word_sum_def)
  qed
qed

lemma unat_chksum: "unat (chksum acc m p len) = fold16 (unat acc + word_sum True m p (unat len))"
  by (simp add: chksum_def unat_chksum_loop)

text \<open>Swapping the bytes of every word swaps the bytes of the sum.\<close>

lemma unat_htons: "unat (uip_htons w) = 256 * (unat w mod 256) + unat w div 256"
proof -
  have "uip_htons w = push_bit 8 (ucast (ucast (w AND 0xff) :: u8)) + ucast (ucast (drop_bit 8 w) :: u8)"
    (is "_ = push_bit 8 ?a + ?b")
  proof -
    have m: "w AND 0xff = take_bit 8 w" by (simp add: take_bit_eq_mask mask_eq_exp_minus_1)
    have "push_bit 8 ?a AND ?b = 0" by (rule bit_word_eqI) (simp add: bit_simps)
    then have "push_bit 8 ?a + ?b = push_bit 8 ?a OR ?b" by (rule disjunctive_add_eq_or)
    also have "\<dots> = uip_htons w" unfolding uip_htons_def m by (rule bit_word_eqI) (auto simp: bit_simps not_less dest: bit_imp_le_length)
    finally show ?thesis by (rule sym)
  qed
  then show ?thesis by (simp only: unat_word_of_bytes bytes_of_u16)
qed

lemma htons_htons [simp]: "uip_htons (uip_htons w) = w"
  unfolding uip_htons_def by (rule bit_word_eqI) (auto simp: bit_simps)

lemma byte_shift_twice: "256 * (256 * x) mod 65535 = x mod (65535 :: nat)"
proof -
  have "256 * (256 * x) = x + 65535 * x" by simp
  then show ?thesis by (simp only: mod_mult_self2)
qed

lemma word_sum_swap: "256 * word_sum (\<not> big) m p n mod 65535 = word_sum big m p n mod 65535"
proof (induction n)
  case (Suc n)
  have "256 * ((if even n = (\<not> big) then 256 else 1) * x) mod 65535 = (if even n = big then 256 else 1) * x mod 65535" for x :: nat
    by (cases "even n = big") (simp_all only: byte_shift_twice if_True if_False mult_1 not_False_eq_True simp_thms)
  then show ?case
    unfolding word_sum_Suc distrib_left by (intro mod_add_cong Suc.IH)
qed simp

lemma htons_mod: "unat (uip_htons w) mod 65535 = 256 * unat w mod 65535"
proof -
  have "unat w = 256 * (unat w div 256) + unat w mod 256" by simp
  then have "256 * unat w = unat (uip_htons w) + 65535 * (unat w div 256)" unfolding unat_htons by linarith
  then show ?thesis by (simp only: mod_mult_self2)
qed

lemma htons_0: "uip_htons w = 0 \<longleftrightarrow> w = 0"
proof
  have "uip_htons 0 = 0" by (simp add: uip_htons_def)
  then show "w = 0" if "uip_htons w = 0" using that htons_htons [of w] by simp
qed (simp add: uip_htons_def)

lemma htons_fold16:
  assumes "unat w = fold16 x" and "y mod 65535 = 256 * x mod 65535" and "x = 0 \<longleftrightarrow> y = 0"
  shows "unat (uip_htons w) = fold16 y"
proof -
  have "unat (uip_htons w) mod 65535 = 256 * (fold16 x mod 65535) mod 65535"
    by (simp only: htons_mod assms(1) mod_mult_right_eq)
  also have "\<dots> = y mod 65535" by (simp only: fold16_mod mod_mult_right_eq assms(2))
  finally have "unat (uip_htons w) mod 65535 = y mod 65535" .
  moreover have "unat (uip_htons w) = 0 \<longleftrightarrow> y = 0"
    using assms(1,3) htons_0 [of w] by (simp add: unat_eq_zero) (metis fold16_eq_0 unat_eq_zero)
  ultimately have "fold16 (unat (uip_htons w)) = fold16 y" by (rule fold16_cong)
  then show ?thesis by (simp add: fold16_small u16_bound)
qed

end
