(* ===== verification/UipArch.thy ===== *)
theory UipArch
  imports UipSum
begin

text \<open>
  The 6502 version of the arithmetic of the TCP/IP stack, \<open>cpu/6502/net/uip_arch.c\<close>. Its functions
  are inline assembly that adds byte by byte through the carry flag; a block of instructions is the
  function from the bytes and the carry it reads to those it leaves, and a loop is a recursive
  function over its index register. The main result is that it computes what the portable C code
  of \<open>uip.c\<close> computes, up to the byte order of the checksum.
\<close>

section \<open>The code\<close>

definition adc :: "u8 \<Rightarrow> u8 \<Rightarrow> bool \<Rightarrow> u8 \<times> bool" where
  "adc a b c = (a + b + of_bool c, 256 \<le> unat a + unat b + of_bool c)"

lemma adc_exact: "adc a b c = (r, c') \<Longrightarrow> unat r + 256 * of_bool c' = unat a + unat b + of_bool c"
proof -
  assume r: "adc a b c = (r, c')"
  have "unat a < 256" "unat b < 256" by (rule u8_bound)+
  moreover have "unat (a + b + of_bool c) = (unat a + unat b + of_bool c) mod 256"
    by (cases c) (simp_all add: unat_word_ariths mod_simps)
  ultimately show ?thesis using r by (cases c) (auto simp: adc_def mod_if)
qed

text \<open>Only the sum \<open>0xffff\<close> with a carry gives a carry again, and then there is none.\<close>

lemma endloop_step:
  "adc lo 0 c = (lo', c1) \<Longrightarrow> adc hi 0 c1 = (hi', c2) \<Longrightarrow>
     unat lo' + 256 * unat hi' + 65536 * of_bool c2 = unat lo + 256 * unat hi + of_bool c"
  using adc_exact [of lo 0 c lo' c1] adc_exact [of hi 0 c1 hi' c2] by simp

definition uip_add32_6502 :: "bytes4 \<Rightarrow> u16 \<Rightarrow> bytes4" where
  "uip_add32_6502 op32 op16 =
     (let (o0, o1, o2, o3) = op32;
          (a3, c) = adc (ucast op16) o3 False;
          (a2, c) = adc o2 (ucast (drop_bit 8 op16)) c;
          (a1, c) = adc o1 0 c;
          (a0, c) = adc o0 0 c
      in (a0, a1, a2, a3))"

text \<open>\<open>adc\<close> of the word at \<open>p\<close> to the two bytes of the sum.\<close>

type_synonym sum_regs = "u8 \<times> u8 \<times> bool"

definition adc_word :: "u8 \<Rightarrow> u8 \<Rightarrow> sum_regs \<Rightarrow> sum_regs" where
  "adc_word b0 b1 r =
     (let (lo, hi, c) = r;
          (lo, c) = adc b0 lo c;
          (hi, c) = adc b1 hi c
      in (lo, hi, c))"

text \<open>\<open>chksumloop_256\<close>: the index register runs over a page of 256 bytes until it is 0 again.\<close>

function chksumloop_256 :: "mem \<Rightarrow> nat \<Rightarrow> nat \<Rightarrow> sum_regs \<Rightarrow> sum_regs" where
  "chksumloop_256 m ptr1 y r =
     (if y < 256 then chksumloop_256 m ptr1 (y + 2) (adc_word (m (ptr1 + y)) (m (ptr1 + y + 1)) r) else r)"
  by pat_completeness auto

termination chksumloop_256
  by (relation "measure (\<lambda>(m, p, y, r). 256 - y)") auto

primrec chksum_pages :: "mem \<Rightarrow> nat \<Rightarrow> nat \<Rightarrow> sum_regs \<Rightarrow> sum_regs" where
  "chksum_pages m ptr1 0 r = r"
| "chksum_pages m ptr1 (Suc n) r = chksum_pages m (ptr1 + 256) n (chksumloop_256 m ptr1 0 r)"

text \<open>\<open>chksum_endloop\<close>: the carry is added back until there is none.\<close>

function chksum_endloop :: "sum_regs \<Rightarrow> u8 \<times> u8" where
  "chksum_endloop (lo, hi, c) =
     (let (lo, c) = adc lo 0 c;
          (hi, c) = adc hi 0 c
      in if c then chksum_endloop (lo, hi, c) else (lo, hi))"
  by pat_completeness auto

termination chksum_endloop
proof (relation "measure (\<lambda>(lo, hi, c). if c then 1 + unat lo + 256 * unat hi else 0)")
  fix lo hi c x lo' c1 y hi' c2
  assume a: "x = adc lo 0 c" "(lo', c1) = x" "y = adc hi 0 c1" "(hi', c2) = y" "c2"
  have e: "unat lo' + 256 * unat hi' + 65536 * of_bool c2 = unat lo + 256 * unat hi + of_bool c"
    using a by (intro endloop_step) simp_all
  have "unat lo < 256" "unat hi < 256" by (rule u8_bound)+
  with e \<open>c2\<close> show "((lo', hi', c2), lo, hi, c) \<in> measure (\<lambda>(lo, hi, c). if c then 1 + unat lo + 256 * unat hi else 0)"
    by (cases c) auto
qed simp


text \<open>\<open>chksum_loop1\<close>: the words before the index register, from the last to the first.\<close>

function chksum_loop1 :: "mem \<Rightarrow> nat \<Rightarrow> nat \<Rightarrow> sum_regs \<Rightarrow> sum_regs" where
  "chksum_loop1 m ptr1 y r =
     (if 2 \<le> y then chksum_loop1 m ptr1 (y - 2) (adc_word (m (ptr1 + (y - 2))) (m (ptr1 + (y - 1))) r) else r)"
  by pat_completeness auto

termination chksum_loop1
  by (relation "measure (\<lambda>(m, p, y, r). y)") auto

definition chksum_odd :: "mem \<Rightarrow> nat \<Rightarrow> nat \<Rightarrow> u8 \<times> u8 \<Rightarrow> u8 \<times> u8" where
  "chksum_odd m ptr1 n r =
     (let (lo, hi) = r; (lo, c) = adc (m (ptr1 + (n - 1))) lo False
      in if \<not> c then (lo, hi) else if hi + 1 \<noteq> 0 then (lo, hi + 1) else (lo + 1, hi + 1))"

definition chksum_6502 :: "mem \<Rightarrow> nat \<Rightarrow> u16 \<Rightarrow> u8 \<times> u8" where
  "chksum_6502 m chksum_ptr chksum_len =
     (let pages = unat chksum_len div 256; n = unat chksum_len mod 256;
          ptr1 = chksum_ptr + 256 * pages;
          (lo, hi) = (if pages = 0 then (0, 0)
                      else chksum_endloop (chksum_pages m chksum_ptr pages (0, 0, False)));
          (lo, hi) = (if odd n then chksum_odd m ptr1 n (lo, hi) else (lo, hi));
          n = (if odd n then n - 1 else n)
      in chksum_endloop (chksum_loop1 m ptr1 n (lo, hi, False)))"

definition AX :: "u8 \<times> u8 \<Rightarrow> u16" where
  "AX r = (let (lo, hi) = r in push_bit 8 (ucast hi) + ucast lo)"

definition uip_ipchksum_6502 :: "nat \<Rightarrow> mem \<Rightarrow> u16" where
  "uip_ipchksum_6502 llh m = AX (chksum_6502 m llh UIP_IPH_LEN)"

definition uip_chksum_6502 :: "mem \<Rightarrow> nat \<Rightarrow> u16 \<Rightarrow> u16" where
  "uip_chksum_6502 m buf len = AX (chksum_6502 m buf len)"

text \<open>\<open>tcpchksum_loop2\<close>: the IP addresses, at the bytes 12 to 19 of the header.\<close>

function tcpchksum_loop2 :: "mem \<Rightarrow> nat \<Rightarrow> nat \<Rightarrow> sum_regs \<Rightarrow> sum_regs" where
  "tcpchksum_loop2 m llh y r =
     (if y < 20 then tcpchksum_loop2 m llh (y + 2) (adc_word (m (llh + y)) (m (llh + (y + 1))) r) else r)"
  by pat_completeness auto

termination tcpchksum_loop2
  by (relation "measure (\<lambda>(m, p, y, r). 20 - y)") auto

definition transport_chksum :: "nat \<Rightarrow> mem \<Rightarrow> nat \<Rightarrow> u8 \<Rightarrow> u16" where
  "transport_chksum llh m uip_appdata protocol =
     (let (lo, hi) = chksum_6502 m (llh + UIP_IPH_LEN) 20;
          iplen = push_bit 8 (ucast (m (llh + 2))) + ucast (m (llh + 3)) :: u16;
          (lo', hi') = chksum_6502 m uip_appdata (iplen - 40);
          (lo, hi) = chksum_endloop (adc_word lo' hi' (lo, hi, False));
          chksum_len = iplen - 20;
          (lo, hi, c) = tcpchksum_loop2 m llh 12 (lo, hi, False);
          (lo, hi, c) = adc_word 0 protocol (lo, hi, c);
          (lo, hi, c) = adc_word (ucast (drop_bit 8 chksum_len)) (ucast chksum_len) (lo, hi, c)
      in AX (chksum_endloop (lo, hi, c)))"

definition uip_tcpchksum_6502 :: "nat \<Rightarrow> mem \<Rightarrow> nat \<Rightarrow> u16" where
  "uip_tcpchksum_6502 llh m uip_appdata = transport_chksum llh m uip_appdata UIP_PROTO_TCP"

definition uip_udpchksum_6502 :: "nat \<Rightarrow> mem \<Rightarrow> nat \<Rightarrow> u16" where
  "uip_udpchksum_6502 llh m uip_appdata = transport_chksum llh m uip_appdata UIP_PROTO_UDP"

declare chksumloop_256.simps [simp del] chksum_endloop.simps [simp del]
  chksum_loop1.simps [simp del] tcpchksum_loop2.simps [simp del]

section \<open>The carry flag\<close>

definition regs_val :: "sum_regs \<Rightarrow> nat" where
  "regs_val r = (case r of (lo, hi, c) \<Rightarrow> unat lo + 256 * unat hi + of_bool c)"

lemma adc_word_val: "fold16 (regs_val (adc_word b0 b1 r) + k) = fold16 (regs_val r + (unat b0 + 256 * unat b1) + k)"
proof -
  obtain lo hi c where r: "r = (lo, hi, c)" by (cases r)
  obtain lo' c1 where 1: "adc b0 lo c = (lo', c1)" by fastforce
  obtain hi' c2 where 2: "adc b1 hi c1 = (hi', c2)" by fastforce
  have w: "adc_word b0 b1 r = (lo', hi', c2)" by (simp add: adc_word_def r 1 2)
  have "unat lo' + 256 * unat hi' + 65536 * of_bool c2 = unat lo + 256 * unat hi + of_bool c + (unat b0 + 256 * unat b1)"
    using adc_exact [OF 1] adc_exact [OF 2] by simp
  then have v: "regs_val (adc_word b0 b1 r) + 65535 * of_bool c2 = regs_val r + (unat b0 + 256 * unat b1)"
    unfolding w unfolding r regs_val_def by simp
  show ?thesis
  proof (rule fold16_cong)
    have "(regs_val (adc_word b0 b1 r) + k + 65535 * of_bool c2) mod 65535 = (regs_val r + (unat b0 + 256 * unat b1) + k) mod 65535"
      using v by (simp add: ac_simps)
    then show "(regs_val (adc_word b0 b1 r) + k) mod 65535 = (regs_val r + (unat b0 + 256 * unat b1) + k) mod 65535"
      by (simp only: mod_mult_self2)
    show "regs_val (adc_word b0 b1 r) + k = 0 \<longleftrightarrow> regs_val r + (unat b0 + 256 * unat b1) + k = 0"
      using v by (cases c2) (auto simp: w regs_val_def)
  qed
qed

lemma endloop_val: "chksum_endloop r = (lo, hi) \<Longrightarrow> unat lo + 256 * unat hi = fold16 (regs_val r)"
proof (induction r arbitrary: lo hi rule: chksum_endloop.induct)
  case (1 l h c)
  obtain l' c1 where l: "adc l 0 c = (l', c1)" by fastforce
  obtain h' c2 where h: "adc h 0 c1 = (h', c2)" by fastforce
  note e = endloop_step [OF l h]
  have b: "unat l' < 256" "unat h' < 256" by (rule u8_bound)+
  show ?case
  proof (cases c2)
    case True
    have "regs_val (l', h', c2) + 65535 = regs_val (l, h, c)" using e True by (simp add: regs_val_def)
    moreover have "0 < regs_val (l', h', c2)" using True by (simp add: regs_val_def)
    ultimately have "fold16 (regs_val (l', h', c2)) = fold16 (regs_val (l, h, c))"
      by (intro fold16_cong) (metis mod_add_self2, simp)
    moreover have "chksum_endloop (l', h', c2) = (lo, hi)"
      using "1.prems" True by (subst (asm) chksum_endloop.simps) (simp add: l h)
    ultimately show ?thesis using "1.IH" [OF l [symmetric] refl h [symmetric] refl] True by simp
  next
    case False
    then have "lo = l'" "hi = h'" using "1.prems" by (simp_all add: chksum_endloop.simps [of l h c] l h)
    with e b False show ?thesis by (simp add: regs_val_def fold16_small)
  qed
qed

section \<open>The sum of a range\<close>

lemma regs_val_0 [simp]: "regs_val (lo, hi, False) = unat lo + 256 * unat hi"
  by (simp add: regs_val_def)

lemma word_sum_two: "even y \<Longrightarrow> word_sum False m p (y + 2) = word_sum False m p y + (unat (m (p + y)) + 256 * unat (m (p + (y + 1))))"
  by (simp add: word_sum_Suc)

lemma word_sum_head: "2 \<le> n \<Longrightarrow> word_sum False m p n = (unat (m p) + 256 * unat (m (p + 1))) + word_sum False m (p + 2) (n - 2)"
  using word_sum_split [of n False m p] by (simp add: word_sum_2)

lemma loop_256_val: "even y \<Longrightarrow> y \<le> 256 \<Longrightarrow>
  fold16 (regs_val (chksumloop_256 m p y r) + k) = fold16 (regs_val r + word_sum False m (p + y) (256 - y) + k)"
proof (induction m p y r arbitrary: k rule: chksumloop_256.induct)
  case (1 m p y r)
  show ?case
  proof (cases "y < 256")
    case True
    then have l: "2 \<le> 256 - y" and y: "y + 2 \<le> 256" using "1.prems"(1) by presburger+
    have "fold16 (regs_val (chksumloop_256 m p y r) + k)
      = fold16 (regs_val (adc_word (m (p + y)) (m (p + y + 1)) r) + (word_sum False m (p + (y + 2)) (256 - (y + 2)) + k))"
      using "1.IH" [OF True _ y, of k] "1.prems"(1) True by (subst chksumloop_256.simps) (simp add: add.assoc)
    also have "\<dots> = fold16 (regs_val r + word_sum False m (p + y) (256 - y) + k)"
      unfolding adc_word_val word_sum_head [OF l] by (simp add: ac_simps)
    finally show ?thesis .
  next
    case False
    with "1.prems" show ?thesis by (subst chksumloop_256.simps) simp
  qed
qed

lemma pages_val: "fold16 (regs_val (chksum_pages m p n r) + k) = fold16 (regs_val r + word_sum False m p (256 * n) + k)"
proof (induction n arbitrary: p r k)
  case (Suc n)
  have "fold16 (regs_val (chksum_pages m p (Suc n) r) + k)
    = fold16 (regs_val (chksumloop_256 m p 0 r) + (word_sum False m (p + 256) (256 * n) + k))"
    using Suc by (simp add: add.assoc)
  also have "\<dots> = fold16 (regs_val r + word_sum False m p (256 + 256 * n) + k)"
    by (simp add: loop_256_val word_sum_add add.assoc)
  finally show ?case by simp
qed simp

lemma loop1_val: "even y \<Longrightarrow> fold16 (regs_val (chksum_loop1 m p y r) + k) = fold16 (regs_val r + word_sum False m p y + k)"
proof (induction m p y r arbitrary: k rule: chksum_loop1.induct)
  case (1 m p y r)
  show ?case
  proof (cases "2 \<le> y")
    case True
    then have y: "y = (y - 2) + 2" "even (y - 2)" "y - 1 = (y - 2) + 1" using "1.prems" by auto
    have "fold16 (regs_val (chksum_loop1 m p y r) + k)
      = fold16 (regs_val (adc_word (m (p + (y - 2))) (m (p + (y - 1))) r) + (word_sum False m p (y - 2) + k))"
      using "1.IH" [OF True y(2), of k] True by (subst chksum_loop1.simps) (simp add: add.assoc)
    also have "\<dots> = fold16 (regs_val r + word_sum False m p ((y - 2) + 2) + k)"
      unfolding adc_word_val word_sum_two [OF y(2)] y(3) by (simp add: ac_simps)
    finally show ?thesis using y(1) by simp
  next
    case False
    then have "y = 0" using "1.prems" by presburger
    then show ?thesis by (subst chksum_loop1.simps) simp
  qed
qed

lemma odd_val:
  "chksum_odd m p n (lo, hi) = (lo', hi') \<Longrightarrow>
     fold16 (unat lo' + 256 * unat hi' + k) = fold16 (unat lo + 256 * unat hi + unat (m (p + (n - 1))) + k)"
proof -
  assume a: "chksum_odd m p n (lo, hi) = (lo', hi')"
  define b where "b = m (p + (n - 1))"
  obtain l c where l: "adc b lo False = (l, c)" by fastforce
  obtain h d where h: "adc 0 hi c = (h, d)" by fastforce
  have w: "adc_word b 0 (lo, hi, False) = (l, h, d)" by (simp add: adc_word_def l h)
  have o: "(if \<not> c then (l, hi) else if hi + 1 \<noteq> 0 then (l, hi + 1) else (l + 1, hi + 1)) = (lo', hi')"
    using a unfolding chksum_odd_def b_def [symmetric] by (simp add: l)
  have bd: "unat lo < 256" "unat b < 256" "unat h < 256" "unat hi < 256" "unat (hi + 1) < 256" "unat (l + 1) < 256"
    by (rule u8_bound)+
  note e = adc_exact [OF l] adc_exact [OF h] byte_inc [of hi] byte_inc [of l]
  have "unat l + 256 * unat h + of_bool d = unat lo' + 256 * unat hi'"
    using o e bd by (cases c; cases d; cases "hi + 1 = 0"; cases "l + 1 = 0") auto
  then show ?thesis
    using adc_word_val [of b 0 "(lo, hi, False)" k] w by (simp add: regs_val_def b_def)
qed

lemma chksum_6502_val: "chksum_6502 m p len = (lo, hi) \<Longrightarrow> unat lo + 256 * unat hi = fold16 (word_sum False m p (unat len))"
proof -
  assume a: "chksum_6502 m p len = (lo, hi)"
  define pages n where "pages = unat len div 256" and "n = unat len mod 256"
  define q where "q = p + 256 * pages"
  define n' where "n' = (if odd n then n - 1 else n)"
  have len: "unat len = 256 * pages + n" by (simp add: pages_def n_def)
  obtain l1 h1 where 1: "(if pages = 0 then (0, 0) else chksum_endloop (chksum_pages m p pages (0, 0, False))) = (l1, h1)"
    by fastforce
  obtain l2 h2 where 2: "(if odd n then chksum_odd m q n (l1, h1) else (l1, h1)) = (l2, h2)" by fastforce
  have v1: "fold16 (unat l1 + 256 * unat h1 + k) = fold16 (word_sum False m p (256 * pages) + k)" for k
  proof (cases "pages = 0")
    case False
    then have "unat l1 + 256 * unat h1 = fold16 (regs_val (chksum_pages m p pages (0, 0, False)))"
      using 1 by (intro endloop_val) simp
    then show ?thesis by (simp add: fold16_add pages_val)
  qed (use 1 in simp)
  have n': "even n'" "n' = n \<or> odd n \<and> n = n' + 1" by (auto simp: n'_def elim!: oddE)
  have v2: "fold16 (unat l2 + 256 * unat h2 + word_sum False m q n') = fold16 (unat l1 + 256 * unat h1 + word_sum False m q n)"
  proof (cases "odd n")
    case True
    then have "n = Suc n'" "n - 1 = n'" using n' by auto
    then show ?thesis
      using odd_val [of m q n l1 h1 l2 h2 "word_sum False m q n'"] 2 True n'(1) by (simp add: word_sum_Suc ac_simps)
  next
    case False
    with 2 show ?thesis by (simp add: n'_def)
  qed
  have "chksum_endloop (chksum_loop1 m q n' (l2, h2, False)) = (lo, hi)"
    using a 1 2 unfolding chksum_6502_def Let_def pages_def [symmetric] n_def [symmetric] q_def [symmetric]
    by (simp add: n'_def split: if_splits)
  from endloop_val [OF this] have "unat lo + 256 * unat hi = fold16 (unat l2 + 256 * unat h2 + word_sum False m q n')"
    using loop1_val [OF n'(1), of m q "(l2, h2, False)" 0] by simp
  moreover have "word_sum False m p (unat len) = word_sum False m p (256 * pages) + word_sum False m q n"
    by (simp add: len q_def word_sum_add)
  ultimately show ?thesis by (simp only: v2 v1)
qed

section \<open>The two versions agree\<close>

lemma AX_val: "unat (AX (lo, hi)) = unat lo + 256 * unat hi"
  by (simp add: AX_def unat_word_of_bytes)

lemma loop2_val: "even y \<Longrightarrow> y \<le> 20 \<Longrightarrow>
  fold16 (regs_val (tcpchksum_loop2 m llh y r) + k) = fold16 (regs_val r + word_sum False m (llh + y) (20 - y) + k)"
proof (induction m llh y r arbitrary: k rule: tcpchksum_loop2.induct)
  case (1 m llh y r)
  show ?case
  proof (cases "y < 20")
    case True
    then have l: "2 \<le> 20 - y" and y: "y + 2 \<le> 20" using "1.prems"(1) by presburger+
    have "fold16 (regs_val (tcpchksum_loop2 m llh y r) + k)
      = fold16 (regs_val (adc_word (m (llh + y)) (m (llh + (y + 1))) r) + (word_sum False m (llh + (y + 2)) (20 - (y + 2)) + k))"
      using "1.IH" [OF True _ y, of k] "1.prems"(1) True by (subst tcpchksum_loop2.simps) (simp add: add.assoc)
    also have "\<dots> = fold16 (regs_val r + word_sum False m (llh + y) (20 - y) + k)"
      unfolding adc_word_val word_sum_head [OF l] by (simp add: ac_simps)
    finally show ?thesis .
  next
    case False
    with "1.prems" show ?thesis by (subst tcpchksum_loop2.simps) simp
  qed
qed

definition ip_length :: "nat \<Rightarrow> mem \<Rightarrow> nat" where
  "ip_length llh m = 256 * unat (m (llh + 2)) + unat (m (llh + 3))"

lemma unat_ip_length: "unat (push_bit 8 (ucast (m (llh + 2))) + ucast (m (llh + 3)) :: u16) = ip_length llh m"
  by (simp add: unat_word_of_bytes ip_length_def)

lemma ip_length_minus: "k \<le> ip_length llh m \<Longrightarrow> k < 65536 \<Longrightarrow>
  unat (push_bit 8 (ucast (m (llh + 2))) + ucast (m (llh + 3)) - of_nat k :: u16) = ip_length llh m - k"
  using unat_ip_length [of m llh] by (subst unat_sub) (simp_all only: word_le_nat_alt unat_of_nat, simp_all)

text \<open>The sum that both versions compute over the pseudo header and the segment.\<close>

definition segment_sum :: "bool \<Rightarrow> nat \<Rightarrow> mem \<Rightarrow> u8 \<Rightarrow> nat" where
  "segment_sum big llh m proto =
     (let n = ip_length llh m - 20; len = (if big then n else 256 * (n mod 256) + n div 256);
          pro = (if big then 1 else 256) * unat proto
      in len + pro + word_sum big m (llh + 12) 8 + word_sum big m (llh + 20) n)"

lemma upper_layer_val:
  assumes "20 \<le> ip_length llh m" and "ip_length llh m - 20 + unat proto < 65536"
  shows "unat (uip_htons (upper_layer_chksum llh m proto)) = (if segment_sum True llh m proto = 0 then 65535 else fold16 (segment_sum True llh m proto))"
proof -
  define n where "n = ip_length llh m - 20"
  define up where "up = (push_bit 8 (ucast (m (llh + 2))) + ucast (m (llh + 3)) - 20 :: u16)"
  have u: "unat up = n" using ip_length_minus [OF assms(1)] by (simp add: up_def n_def)
  have "unat (up + ucast proto) = n + unat proto"
    using assms u by (simp add: unat_word_ariths unsigned_ucast_eq take_bit_eq_mod n_def)
  then have s: "unat (chksum (chksum (up + ucast proto) m (llh + 12) 8) m (llh + 20) up) = fold16 (segment_sum True llh m proto)"
    by (simp add: unat_chksum u fold16_add segment_sum_def n_def Let_def)
  show ?thesis
    unfolding upper_layer_chksum_def Let_def up_def [symmetric]
    using s htons_htons by (auto simp: unat_eq_zero [symmetric]) (simp_all add: uip_htons_def)
qed

lemma transport_val:
  assumes "40 \<le> ip_length llh m"
  shows "unat (transport_chksum llh m app proto) = fold16 (word_sum False m (llh + 20) 20 + word_sum False m app (ip_length llh m - 40) +
    (word_sum False m (llh + 12) 8 + (256 * unat proto + ((ip_length llh m - 20) div 256 + 256 * ((ip_length llh m - 20) mod 256)))))"
proof -
  define ipl where "ipl = (push_bit 8 (ucast (m (llh + 2))) + ucast (m (llh + 3)) :: u16)"
  define n where "n = ip_length llh m - 20"
  obtain lo hi where 1: "chksum_6502 m (llh + 20) 20 = (lo, hi)" by fastforce
  obtain lo' hi' where 2: "chksum_6502 m app (ipl - 40) = (lo', hi')" by fastforce
  obtain l3 h3 where 3: "chksum_endloop (adc_word lo' hi' (lo, hi, False)) = (l3, h3)" by fastforce
  obtain l4 h4 c4 where 4: "tcpchksum_loop2 m llh 12 (l3, h3, False) = (l4, h4, c4)" by (rule prod_cases3)
  obtain l5 h5 c5 where 5: "adc_word 0 proto (l4, h4, c4) = (l5, h5, c5)" by (rule prod_cases3)
  define r6 where "r6 = adc_word (ucast (drop_bit 8 (ipl - 20))) (ucast (ipl - 20)) (l5, h5, c5)"
  obtain l7 h7 where 7: "chksum_endloop r6 = (l7, h7)" by fastforce
  have len: "unat (ipl - 40) = ip_length llh m - 40" "unat (ipl - 20) = n"
    using ip_length_minus [OF assms] ip_length_minus [of 20 llh m] assms by (simp_all add: ipl_def n_def)
  have b: "n < 65536" using len(2) u16_bound [of "ipl - 20"] by simp
  have "transport_chksum llh m app proto = AX (l7, h7)"
    unfolding transport_chksum_def Let_def ipl_def [symmetric] 1 prod.case 2 3 4 5 using 7
    by (simp add: r6_def prod.case_eq_if)
  then have res: "unat (transport_chksum llh m app proto) = unat l7 + 256 * unat h7" by (simp add: AX_val)
  have bytes: "unat (ucast (drop_bit 8 (ipl - 20)) :: u8) = n div 256" "unat (ucast (ipl - 20) :: u8) = n mod 256"
    using bytes_of_u16 [of "ipl - 20"] len(2) by (simp_all add: unsigned_ucast_eq take_bit_eq_mod)
  have "unat l7 + 256 * unat h7 = fold16 (regs_val r6 + 0)" using endloop_val [OF 7] by simp
  also have "\<dots> = fold16 (regs_val (l5, h5, c5) + (n div 256 + 256 * (n mod 256)))"
    unfolding r6_def adc_word_val bytes by simp
  also have "\<dots> = fold16 (regs_val (l4, h4, c4) + (256 * unat proto + (n div 256 + 256 * (n mod 256))))"
    unfolding 5 [symmetric] adc_word_val by (simp add: add.assoc)
  also have "\<dots> = fold16 (unat l3 + 256 * unat h3 + (word_sum False m (llh + 12) 8 + (256 * unat proto + (n div 256 + 256 * (n mod 256)))))"
    unfolding 4 [symmetric] by (subst loop2_val) (simp_all add: add.assoc)
  also have "unat l3 + 256 * unat h3 = fold16 (unat lo + 256 * unat hi + (unat lo' + 256 * unat hi'))"
    using endloop_val [OF 3] adc_word_val [of lo' hi' "(lo, hi, False)" 0] by simp
  also have "\<dots> = fold16 (word_sum False m (llh + 20) 20 + word_sum False m app (ip_length llh m - 40))"
    using chksum_6502_val [OF 1] chksum_6502_val [OF 2] len(1) by (simp add: fold16_add fold16_add_right)
  finally show ?thesis unfolding fold16_add res n_def .
qed

lemma transport_val_tcp:
  assumes "40 \<le> ip_length llh m"
  shows "unat (transport_chksum llh m (llh + 40) proto) = fold16 (segment_sum False llh m proto)"
proof -
  have "word_sum False m (llh + 20) (ip_length llh m - 20) = word_sum False m (llh + 20) 20 + word_sum False m (llh + 40) (ip_length llh m - 40)"
    using word_sum_add [of 20 False m "llh + 20" "ip_length llh m - 40"] assms by (simp add: add.assoc)
  then show ?thesis
    unfolding transport_val [OF assms] segment_sum_def Let_def by (simp add: ac_simps)
qed

lemma segment_sum_swap: "segment_sum True llh m proto mod 65535 = 256 * segment_sum False llh m proto mod 65535"
proof -
  define n where "n = ip_length llh m - 20"
  have len: "256 * (256 * (n mod 256) + n div 256) mod 65535 = n mod 65535"
  proof -
    have "256 * (256 * r + q) = (256 * q + r) + 65535 * r" for q r :: nat by simp
    from this [of "n mod 256" "n div 256"] have "256 * (256 * (n mod 256) + n div 256) = n + 65535 * (n mod 256)"
      by (simp only: mult_div_mod_eq)
    then show ?thesis by (simp only: mod_mult_self2)
  qed
  have w: "word_sum True m p k mod 65535 = 256 * word_sum False m p k mod 65535" for p k
    using word_sum_swap [of True m p k] by simp
  have pr: "unat proto mod 65535 = 256 * (256 * unat proto) mod 65535" by (rule byte_shift_twice [symmetric])
  have "(n + unat proto + word_sum True m (llh + 12) 8 + word_sum True m (llh + 20) n) mod 65535
    = (256 * (256 * (n mod 256) + n div 256) + 256 * (256 * unat proto) + 256 * word_sum False m (llh + 12) 8
      + 256 * word_sum False m (llh + 20) n) mod 65535"
    by (intro mod_add_cong w pr len [symmetric])
  then show ?thesis by (simp only: segment_sum_def Let_def n_def [symmetric] if_True if_False mult_1 distrib_left)
qed

lemma transport_agrees:
  assumes "40 \<le> ip_length llh m" and "ip_length llh m - 20 + unat proto < 65536" and "proto \<noteq> 0"
  shows "transport_chksum llh m (llh + 40) proto = upper_layer_chksum llh m proto"
proof -
  have p: "0 < unat proto" using assms(3) by (simp add: unat_gt_0)
  then have nz: "segment_sum True llh m proto \<noteq> 0" "segment_sum False llh m proto \<noteq> 0"
    by (simp_all add: segment_sum_def Let_def)
  have "unat (transport_chksum llh m (llh + 40) proto) = fold16 (segment_sum False llh m proto)"
    using assms(1) by (rule transport_val_tcp)
  then have "unat (uip_htons (transport_chksum llh m (llh + 40) proto)) = fold16 (segment_sum True llh m proto)"
    by (rule htons_fold16 [OF _ segment_sum_swap]) (use nz in simp)
  also have "\<dots> = unat (uip_htons (upper_layer_chksum llh m proto))"
    using upper_layer_val [OF _ assms(2)] assms(1) nz(1) by simp
  finally have "uip_htons (transport_chksum llh m (llh + 40) proto) = uip_htons (upper_layer_chksum llh m proto)"
    by (simp add: word_unat_eq_iff)
  then show ?thesis by (metis htons_htons)
qed

lemma word_sum_zero: "word_sum big m p n = 0 \<longleftrightarrow> word_sum (\<not> big) m p n = 0"
proof -
  have "word_sum b m p n = 0 \<longleftrightarrow> (\<forall>i < n. m (p + i) = 0)" for b
    by (induction n) (auto simp: word_sum_Suc unat_eq_zero less_Suc_eq)
  then show ?thesis by (simp only:)
qed

lemma chksum_agrees: "AX (chksum_6502 m p len) = uip_htons (chksum 0 m p len)"
proof -
  obtain lo hi where r: "chksum_6502 m p len = (lo, hi)" by fastforce
  have "unat (AX (lo, hi)) = fold16 (word_sum False m p (unat len))"
    using chksum_6502_val [OF r] by (simp add: AX_val)
  then have "unat (uip_htons (AX (lo, hi))) = fold16 (word_sum True m p (unat len))"
    using word_sum_swap [of True m p] word_sum_zero [of True m p]
    by (intro htons_fold16) auto
  also have "\<dots> = unat (chksum 0 m p len)" by (simp add: unat_chksum)
  finally have "uip_htons (AX (lo, hi)) = chksum 0 m p len" by (simp add: word_unat_eq_iff)
  then show ?thesis using r by (metis htons_htons)
qed

lemma digit_eq: "256 * u + i = 256 * v + j \<Longrightarrow> i < 256 \<Longrightarrow> j < 256 \<Longrightarrow> i = j \<and> u = (v :: nat)"
proof -
  assume a: "256 * u + i = 256 * v + j" "i < 256" "j < 256"
  then have "(256 * u + i) mod 256 = (256 * v + j) mod 256" by simp
  with a(2,3) have "i = j" by simp
  with a(1) show ?thesis by simp
qed

lemma num4_inj: "num4 x = num4 y \<Longrightarrow> x = y"
proof (cases x; cases y)
  fix a b c d a' b' c' d'
  assume e: "num4 x = num4 y" "x = (a, b, c, d)" "y = (a', b', c', d')"
  have "256 * (256 * (256 * unat a + unat b) + unat c) + unat d = 256 * (256 * (256 * unat a' + unat b') + unat c') + unat d'"
    using e by simp
  from digit_eq [OF this] have 1: "unat d = unat d'" "256 * (256 * unat a + unat b) + unat c = 256 * (256 * unat a' + unat b') + unat c'"
    using u8_bound by simp_all
  from digit_eq [OF 1(2)] have 2: "unat c = unat c'" "256 * unat a + unat b = 256 * unat a' + unat b'"
    using u8_bound by simp_all
  from digit_eq [OF 2(2)] have "unat b = unat b'" "unat a = unat a'" using u8_bound by simp_all
  with 1 2 e show "x = y" by (simp add: word_unat_eq_iff)
qed

lemma add32_agrees: "uip_add32_6502 b n = uip_add32 b n"
proof -
  obtain o0 o1 o2 o3 where b: "b = (o0, o1, o2, o3)" by (cases b)
  obtain a3 c3 where 3: "adc (ucast n) o3 False = (a3, c3)" by fastforce
  obtain a2 c2 where 2: "adc o2 (ucast (drop_bit 8 n)) c3 = (a2, c2)" by fastforce
  obtain a1 c1 where 1: "adc o1 0 c2 = (a1, c1)" by fastforce
  obtain a0 c0 where 0: "adc o0 0 c1 = (a0, c0)" by fastforce
  define q r where "q = unat n div 256" and "r = unat n mod 256"
  have bn: "unat (ucast n :: u8) = r" "unat (ucast (drop_bit 8 n) :: u8) = q"
    using bytes_of_u16 [of n] by (simp_all only: q_def r_def) (simp add: unsigned_ucast_eq take_bit_eq_mod)
  have n: "unat n = 256 * q + r" by (simp add: q_def r_def)
  have "unat a3 + 256 * of_bool c3 = r + unat o3" "unat a2 + 256 * of_bool c2 = unat o2 + q + of_bool c3"
    "unat a1 + 256 * of_bool c1 = unat o1 + of_bool c2" "unat a0 + 256 * of_bool c0 = unat o0 + of_bool c1"
    using adc_exact [OF 3] adc_exact [OF 2] adc_exact [OF 1] adc_exact [OF 0] bn by simp_all
  then have "num4 (a0, a1, a2, a3) + 2 ^ 32 * of_bool c0 = num4 b + unat n"
    unfolding n b num4.simps by (simp del: of_bool_eq_0_iff)
  then have "num4 (a0, a1, a2, a3) mod 2 ^ 32 = (num4 b + unat n) mod 2 ^ 32" by (metis mod_mult_self2)
  moreover have "num4 (a0, a1, a2, a3) < 2 ^ 32"
    using u8_bound [of a0] u8_bound [of a1] u8_bound [of a2] u8_bound [of a3] by simp
  ultimately have "num4 (a0, a1, a2, a3) = num4 (uip_add32 b n)" by (simp add: uip_add32_num)
  then show ?thesis by (intro num4_inj) (simp add: uip_add32_6502_def b 0 1 2 3)
qed

text \<open>C24: The assembly routines of the 6502 compute what the portable C code computes: the addition to a
  sequence number, which is addition modulo $2^{32}$, the checksum of any range of memory of any
  length, and, for a packet of at least 40 bytes whose data starts behind a TCP header of 20 bytes,
  the TCP and the UDP checksum with the pseudo header.\<close>

theorem arch_agrees_with_c:
  assumes "40 \<le> ip_length llh m"
  shows "uip_add32_6502 b n = uip_add32 b n \<and> num4 (uip_add32 b n) = (num4 b + unat n) mod 2 ^ 32 \<and>
    uip_chksum_6502 m p len = uip_chksum m p len \<and>
    uip_tcpchksum_6502 llh m (llh + 40) = uip_tcpchksum llh m \<and>
    uip_udpchksum_6502 llh m (llh + 40) = uip_udpchksum llh m"
proof -
  have "ip_length llh m < 65536" using unat_ip_length [of m llh] u16_bound by metis
  then have "ip_length llh m - 20 + 17 < 65536" using assms by linarith
  then show ?thesis
    using transport_agrees [OF assms, of UIP_PROTO_TCP] transport_agrees [OF assms, of UIP_PROTO_UDP]
    by (simp add: add32_agrees uip_add32_num uip_chksum_6502_def uip_chksum_def chksum_agrees
        uip_tcpchksum_6502_def uip_tcpchksum_def uip_udpchksum_6502_def uip_udpchksum_def)
qed

definition udp_packet :: mem where
  "udp_packet a = (if a = 3 then 42 else if a = 26 then 0xfe else if a = 27 then 0xd8 else if a = 40 then 1 else 0)"

theorem arch_agrees_with_c_witness:
  "uip_add32_6502 (0, 0, 255, 255) 1 = (0, 1, 0, 0) \<and> uip_tcpchksum_6502 0 udp_packet 40 = uip_tcpchksum 0 udp_packet"
proof -
  have "40 \<le> ip_length 0 udp_packet" by (simp add: ip_length_def udp_packet_def)
  from arch_agrees_with_c [OF this, of "(0, 0, 255, 255)" 1 0 0] show ?thesis
    by (simp add: uip_add32_def)
qed

end
