(* ===== verification/Uip.thy ===== *)
theory Uip
  imports UipSum
begin

text \<open>
  The TCP/IP stack, \<open>core/net/ipv4/uip.c\<close>, for IP version 4 with TCP, UDP and active opens. One
  function, \<open>uip_process\<close>, does all the work on one packet buffer; it is written with \<open>goto\<close>, and
  each of its labels is a definition here, from the end of the function to its start. The options of
  the build and the two callbacks of the application are the record \<open>uip_env\<close>. \<^const>\<open>None\<close> means
  that the call does not return, or that it follows the pointer \<open>uip_conn\<close> while that is \<open>NULL\<close>.
  The reassembly of fragments is off, as it is by default; it does not compile, since it indexes the
  union \<open>uip_ipaddr_t\<close> like an array.
\<close>

section \<open>State\<close>

type_synonym ipaddr = bytes4

record uip_conn_t =
  ripaddr :: ipaddr
  lport :: u16
  rport :: u16
  rcv_nxt :: bytes4
  snd_nxt :: bytes4
  conn_len :: u16
  mss :: u16
  initialmss :: u16
  sa :: u8
  sv :: u8
  rto :: u8
  tcpstateflags :: u8
  conn_timer :: u8
  nrtx :: u8

record uip_udp_conn_t =
  udp_ripaddr :: ipaddr
  udp_lport :: u16
  udp_rport :: u16
  udp_ttl :: u8

record 'a uip_state =
  uip_hostaddr :: ipaddr
  uip_buf :: mem
  uip_appdata :: nat
  uip_sappdata :: nat
  uip_len :: u16
  uip_slen :: u16
  uip_flags :: u8
  uip_conn :: "nat option"
  uip_conns :: "uip_conn_t list"
  uip_listenports :: "u16 list"
  uip_udp_conn :: nat
  uip_udp_conns :: "uip_udp_conn_t list"
  ipid :: u16
  iss :: bytes4
  lastport :: u16
  app_state :: 'a

record 'a uip_env =
  UIP_LLH_LEN :: nat
  UIP_BUFSIZE :: nat
  UIP_TCP_MSS :: u16
  UIP_RECEIVE_WINDOW :: u16
  UIP_UDP_CHECKSUMS :: bool
  UIP_BROADCAST :: bool
  UIP_PINGADDRCONF :: bool
  UIP_CONF_ICMP_DEST_UNREACH :: bool
  UIP_APPCALL :: "'a uip_state \<Rightarrow> 'a uip_state"
  UIP_UDP_APPCALL :: "'a uip_state \<Rightarrow> 'a uip_state"

abbreviation (input) "UIP_DATA \<equiv> (1 :: u8)"
abbreviation (input) "UIP_TIMER \<equiv> (2 :: u8)"
abbreviation (input) "UIP_POLL_REQUEST \<equiv> (3 :: u8)"
abbreviation (input) "UIP_UDP_SEND_CONN \<equiv> (4 :: u8)"
abbreviation (input) "UIP_UDP_TIMER \<equiv> (5 :: u8)"

abbreviation (input) "UIP_ACKDATA \<equiv> (1 :: u8)"
abbreviation (input) "UIP_NEWDATA \<equiv> (2 :: u8)"
abbreviation (input) "UIP_REXMIT \<equiv> (4 :: u8)"
abbreviation (input) "UIP_POLL \<equiv> (8 :: u8)"
abbreviation (input) "UIP_CLOSE \<equiv> (16 :: u8)"
abbreviation (input) "UIP_ABORT \<equiv> (32 :: u8)"
abbreviation (input) "UIP_CONNECTED \<equiv> (64 :: u8)"
abbreviation (input) "UIP_TIMEDOUT \<equiv> (128 :: u8)"

abbreviation (input) "UIP_CLOSED \<equiv> (0 :: u8)"
abbreviation (input) "UIP_SYN_RCVD \<equiv> (1 :: u8)"
abbreviation (input) "UIP_SYN_SENT \<equiv> (2 :: u8)"
abbreviation (input) "UIP_ESTABLISHED \<equiv> (3 :: u8)"
abbreviation (input) "UIP_FIN_WAIT_1 \<equiv> (4 :: u8)"
abbreviation (input) "UIP_FIN_WAIT_2 \<equiv> (5 :: u8)"
abbreviation (input) "UIP_CLOSING \<equiv> (6 :: u8)"
abbreviation (input) "UIP_TIME_WAIT \<equiv> (7 :: u8)"
abbreviation (input) "UIP_LAST_ACK \<equiv> (8 :: u8)"
abbreviation (input) "UIP_TS_MASK \<equiv> (15 :: u8)"
abbreviation (input) "UIP_STOPPED \<equiv> (16 :: u8)"

abbreviation (input) "TCP_FIN \<equiv> (0x01 :: u8)"
abbreviation (input) "TCP_SYN \<equiv> (0x02 :: u8)"
abbreviation (input) "TCP_RST \<equiv> (0x04 :: u8)"
abbreviation (input) "TCP_PSH \<equiv> (0x08 :: u8)"
abbreviation (input) "TCP_ACK \<equiv> (0x10 :: u8)"
abbreviation (input) "TCP_URG \<equiv> (0x20 :: u8)"
abbreviation (input) "TCP_CTL \<equiv> (0x3f :: u8)"

abbreviation (input) "TCP_OPT_END \<equiv> (0 :: u8)"
abbreviation (input) "TCP_OPT_NOOP \<equiv> (1 :: u8)"
abbreviation (input) "TCP_OPT_MSS \<equiv> (2 :: u8)"
abbreviation (input) "TCP_OPT_MSS_LEN \<equiv> (4 :: u8)"

abbreviation (input) "ICMP_ECHO \<equiv> (8 :: u8)"
abbreviation (input) "ICMP_ECHO_REPLY \<equiv> (0 :: u8)"
abbreviation (input) "ICMP_DEST_UNREACHABLE \<equiv> (3 :: u8)"
abbreviation (input) "ICMP_PORT_UNREACHABLE \<equiv> (3 :: u8)"

abbreviation (input) "UIP_TTL \<equiv> (64 :: u8)"
abbreviation (input) "UIP_RTO \<equiv> (3 :: u8)"
abbreviation (input) "UIP_MAXRTX \<equiv> (8 :: u8)"
abbreviation (input) "UIP_MAXSYNRTX \<equiv> (5 :: u8)"
abbreviation (input) "UIP_TIME_WAIT_TIMEOUT \<equiv> (120 :: u8)"

definition uip_all_zeroes_addr :: ipaddr where
  "uip_all_zeroes_addr = (0, 0, 0, 0)"

definition uip_broadcast_addr :: ipaddr where
  "uip_broadcast_addr = (0xff, 0xff, 0xff, 0xff)"

section \<open>The packet\<close>

text \<open>The fields of \<open>BUF\<close>, \<open>UDPBUF\<close> and \<open>ICMPBUF\<close> are their offsets behind the link-layer header.\<close>

abbreviation (input) "off_vhl \<equiv> (0 :: nat)"
abbreviation (input) "off_tos \<equiv> (1 :: nat)"
abbreviation (input) "off_len \<equiv> (2 :: nat)"
abbreviation (input) "off_ipid \<equiv> (4 :: nat)"
abbreviation (input) "off_ipoffset \<equiv> (6 :: nat)"
abbreviation (input) "off_ttl \<equiv> (8 :: nat)"
abbreviation (input) "off_proto \<equiv> (9 :: nat)"
abbreviation (input) "off_ipchksum \<equiv> (10 :: nat)"
abbreviation (input) "off_srcipaddr \<equiv> (12 :: nat)"
abbreviation (input) "off_destipaddr \<equiv> (16 :: nat)"
abbreviation (input) "off_srcport \<equiv> (20 :: nat)"
abbreviation (input) "off_destport \<equiv> (22 :: nat)"
abbreviation (input) "off_seqno \<equiv> (24 :: nat)"
abbreviation (input) "off_ackno \<equiv> (28 :: nat)"
abbreviation (input) "off_tcpoffset \<equiv> (32 :: nat)"
abbreviation (input) "off_flags \<equiv> (33 :: nat)"
abbreviation (input) "off_wnd \<equiv> (34 :: nat)"
abbreviation (input) "off_tcpchksum \<equiv> (36 :: nat)"
abbreviation (input) "off_urgp \<equiv> (38 :: nat)"
abbreviation (input) "off_optdata \<equiv> (40 :: nat)"
abbreviation (input) "off_udplen \<equiv> (24 :: nat)"
abbreviation (input) "off_udpchksum \<equiv> (26 :: nat)"
abbreviation (input) "off_icmptype \<equiv> (20 :: nat)"
abbreviation (input) "off_icode \<equiv> (21 :: nat)"
abbreviation (input) "off_icmpchksum \<equiv> (22 :: nat)"
abbreviation (input) "off_icmppayload \<equiv> (28 :: nat)"

abbreviation (input) "UIP_IPTCPH_LEN \<equiv> 40"
abbreviation (input) "UIP_IPUDPH_LEN \<equiv> 28"

definition put16 :: "nat \<Rightarrow> u16 \<Rightarrow> mem \<Rightarrow> mem" where
  "put16 p w m = m(p := ucast w, p + 1 := ucast (drop_bit 8 w))"

definition put4 :: "nat \<Rightarrow> bytes4 \<Rightarrow> mem \<Rightarrow> mem" where
  "put4 p x m = (let (a, b, c, d) = x in m(p := a, p + 1 := b, p + 2 := c, p + 3 := d))"

definition get4 :: "mem \<Rightarrow> nat \<Rightarrow> bytes4" where
  "get4 m p = (m p, m (p + 1), m (p + 2), m (p + 3))"

definition be16 :: "mem \<Rightarrow> nat \<Rightarrow> u16" where
  "be16 m p = push_bit 8 (ucast (m p)) + ucast (m (p + 1))"

abbreviation BUF8 :: "'a uip_env \<Rightarrow> 'a uip_state \<Rightarrow> nat \<Rightarrow> u8" where
  "BUF8 E s off \<equiv> uip_buf s (UIP_LLH_LEN E + off)"

abbreviation BUF16 :: "'a uip_env \<Rightarrow> 'a uip_state \<Rightarrow> nat \<Rightarrow> u16" where
  "BUF16 E s off \<equiv> rd16 (uip_buf s) (UIP_LLH_LEN E + off)"

abbreviation BUF4 :: "'a uip_env \<Rightarrow> 'a uip_state \<Rightarrow> nat \<Rightarrow> bytes4" where
  "BUF4 E s off \<equiv> get4 (uip_buf s) (UIP_LLH_LEN E + off)"

abbreviation set8 :: "'a uip_env \<Rightarrow> nat \<Rightarrow> u8 \<Rightarrow> 'a uip_state \<Rightarrow> 'a uip_state" where
  "set8 E off b s \<equiv> uip_buf_update (\<lambda>m. m(UIP_LLH_LEN E + off := b)) s"

abbreviation set16 :: "'a uip_env \<Rightarrow> nat \<Rightarrow> u16 \<Rightarrow> 'a uip_state \<Rightarrow> 'a uip_state" where
  "set16 E off w s \<equiv> uip_buf_update (put16 (UIP_LLH_LEN E + off) w) s"

abbreviation set4 :: "'a uip_env \<Rightarrow> nat \<Rightarrow> bytes4 \<Rightarrow> 'a uip_state \<Rightarrow> 'a uip_state" where
  "set4 E off x s \<equiv> uip_buf_update (put4 (UIP_LLH_LEN E + off) x) s"

abbreviation conn :: "'a uip_state \<Rightarrow> nat \<Rightarrow> uip_conn_t" where
  "conn s i \<equiv> uip_conns s ! i"

definition upd_conn :: "nat \<Rightarrow> (uip_conn_t \<Rightarrow> uip_conn_t) \<Rightarrow> 'a uip_state \<Rightarrow> 'a uip_state" where
  "upd_conn i f s = s\<lparr>uip_conns := (uip_conns s)[i := f (conn s i)]\<rparr>"

abbreviation tcpstate :: "'a uip_state \<Rightarrow> nat \<Rightarrow> u8" where
  "tcpstate s i \<equiv> tcpstateflags (conn s i) AND UIP_TS_MASK"

abbreviation uip_outstanding :: "uip_conn_t \<Rightarrow> bool" where
  "uip_outstanding c \<equiv> conn_len c \<noteq> 0"

section \<open>Sending\<close>

definition drop_packet :: "'a uip_state \<Rightarrow> 'a uip_state" where
  "drop_packet s = s\<lparr>uip_len := 0, uip_flags := 0\<rparr>"

definition ip_send_nolen :: "'a uip_env \<Rightarrow> 'a uip_state \<Rightarrow> 'a uip_state" where
  "ip_send_nolen E s =
     (let s = set8 E off_vhl 0x45 s;
          s = set8 E off_tos 0 s;
          s = set16 E off_ipoffset 0 s;
          s = s\<lparr>ipid := ipid s + 1\<rparr>;
          s = set8 E off_ipid (ucast (drop_bit 8 (ipid s))) s;
          s = set8 E (off_ipid + 1) (ucast (ipid s AND 0xff)) s;
          s = set16 E off_ipchksum 0 s;
          s = set16 E off_ipchksum (NOT (uip_ipchksum (UIP_LLH_LEN E) (uip_buf s))) s
      in s\<lparr>uip_flags := 0\<rparr>)"

definition set_ip_len :: "'a uip_env \<Rightarrow> 'a uip_state \<Rightarrow> 'a uip_state" where
  "set_ip_len E s =
     (let s = set8 E off_len (ucast (drop_bit 8 (uip_len s))) s
      in set8 E (off_len + 1) (ucast (uip_len s AND 0xff)) s)"

definition tcp_send_noconn :: "'a uip_env \<Rightarrow> 'a uip_state \<Rightarrow> 'a uip_state" where
  "tcp_send_noconn E s =
     (let s = set8 E off_proto UIP_PROTO_TCP s;
          s = set8 E off_ttl UIP_TTL s;
          s = set_ip_len E s;
          s = set16 E off_urgp 0 s;
          s = set16 E off_tcpchksum 0 s;
          s = set16 E off_tcpchksum (NOT (uip_tcpchksum (UIP_LLH_LEN E) (uip_buf s))) s
      in ip_send_nolen E s)"

definition tcp_send :: "'a uip_env \<Rightarrow> nat \<Rightarrow> 'a uip_state \<Rightarrow> 'a uip_state" where
  "tcp_send E i s =
     (let c = conn s i;
          s = set4 E off_ackno (rcv_nxt c) s;
          s = set4 E off_seqno (snd_nxt c) s;
          s = set16 E off_srcport (lport c) s;
          s = set16 E off_destport (rport c) s;
          s = set4 E off_srcipaddr (uip_hostaddr s) s;
          s = set4 E off_destipaddr (ripaddr c) s;
          s = (if tcpstateflags c AND UIP_STOPPED \<noteq> 0 then set16 E off_wnd 0 s
               else set8 E (off_wnd + 1) (ucast (UIP_RECEIVE_WINDOW E AND 0xff))
                      (set8 E off_wnd (ucast (drop_bit 8 (UIP_RECEIVE_WINDOW E))) s))
      in tcp_send_noconn E s)"

definition tcp_send_noopts :: "'a uip_env \<Rightarrow> nat \<Rightarrow> 'a uip_state \<Rightarrow> 'a uip_state" where
  "tcp_send_noopts E i s = tcp_send E i (set8 E off_tcpoffset (push_bit 4 (20 div 4)) s)"

definition tcp_send_nodata :: "'a uip_env \<Rightarrow> nat \<Rightarrow> 'a uip_state \<Rightarrow> 'a uip_state" where
  "tcp_send_nodata E i s = tcp_send_noopts E i (s\<lparr>uip_len := UIP_IPTCPH_LEN\<rparr>)"

definition tcp_send_ack :: "'a uip_env \<Rightarrow> nat \<Rightarrow> 'a uip_state \<Rightarrow> 'a uip_state" where
  "tcp_send_ack E i s = tcp_send_nodata E i (set8 E off_flags TCP_ACK s)"

definition tcp_send_finack :: "'a uip_env \<Rightarrow> nat \<Rightarrow> 'a uip_state \<Rightarrow> 'a uip_state" where
  "tcp_send_finack E i s = tcp_send_nodata E i (set8 E off_flags (TCP_FIN OR TCP_ACK) s)"

definition tcp_send_syn :: "'a uip_env \<Rightarrow> nat \<Rightarrow> 'a uip_state \<Rightarrow> 'a uip_state" where
  "tcp_send_syn E i s =
     (let s = set8 E off_flags (BUF8 E s off_flags OR TCP_SYN) s;
          s = set8 E off_optdata TCP_OPT_MSS s;
          s = set8 E (off_optdata + 1) TCP_OPT_MSS_LEN s;
          s = set8 E (off_optdata + 2) (ucast (UIP_TCP_MSS E div 256)) s;
          s = set8 E (off_optdata + 3) (ucast (UIP_TCP_MSS E AND 255)) s;
          s = s\<lparr>uip_len := UIP_IPTCPH_LEN + 4\<rparr>;
          s = set8 E off_tcpoffset (push_bit 4 ((20 + 4) div 4)) s
      in tcp_send E i s)"

definition tcp_send_synack :: "'a uip_env \<Rightarrow> nat \<Rightarrow> 'a uip_state \<Rightarrow> 'a uip_state" where
  "tcp_send_synack E i s = tcp_send_syn E i (set8 E off_flags TCP_ACK s)"

text \<open>After the application had its turn.\<close>

definition apprexmit :: "'a uip_env \<Rightarrow> nat \<Rightarrow> 'a uip_state \<Rightarrow> 'a uip_state" where
  "apprexmit E i s =
     (let s = s\<lparr>uip_appdata := uip_sappdata s\<rparr>
      in if uip_slen s > 0 \<and> conn_len (conn s i) > 0 then
           tcp_send_noopts E i (set8 E off_flags (TCP_ACK OR TCP_PSH)
             (s\<lparr>uip_len := conn_len (conn s i) + UIP_IPTCPH_LEN\<rparr>))
         else if uip_flags s AND UIP_NEWDATA \<noteq> 0 then
           tcp_send_noopts E i (set8 E off_flags TCP_ACK (s\<lparr>uip_len := UIP_IPTCPH_LEN\<rparr>))
         else drop_packet s)"

definition app_data_out :: "nat \<Rightarrow> 'a uip_state \<Rightarrow> 'a uip_state" where
  "app_data_out i s =
     (if uip_slen s > 0 then
        let s = (if uip_flags s AND UIP_ACKDATA \<noteq> 0 then upd_conn i (conn_len_update (\<lambda>_. 0)) s else s)
        in if conn_len (conn s i) = 0 then
             let s = (if uip_slen s > mss (conn s i) then s\<lparr>uip_slen := mss (conn s i)\<rparr> else s)
             in upd_conn i (conn_len_update (\<lambda>_. uip_slen s)) s
           else s\<lparr>uip_slen := conn_len (conn s i)\<rparr>
      else s)"

definition appsend :: "'a uip_env \<Rightarrow> nat \<Rightarrow> 'a uip_state \<Rightarrow> 'a uip_state" where
  "appsend E i s =
     (if uip_flags s AND UIP_ABORT \<noteq> 0 then
        let s = s\<lparr>uip_slen := 0\<rparr>;
            s = upd_conn i (tcpstateflags_update (\<lambda>_. UIP_CLOSED)) s
        in tcp_send_nodata E i (set8 E off_flags (TCP_RST OR TCP_ACK) s)
      else if uip_flags s AND UIP_CLOSE \<noteq> 0 then
        let s = s\<lparr>uip_slen := 0\<rparr>;
            s = upd_conn i (\<lambda>c. c\<lparr>conn_len := 1, tcpstateflags := UIP_FIN_WAIT_1, nrtx := 0\<rparr>) s
        in tcp_send_nodata E i (set8 E off_flags (TCP_FIN OR TCP_ACK) s)
      else apprexmit E i (upd_conn i (nrtx_update (\<lambda>_. 0)) (app_data_out i s)))"

text \<open>The answer to a segment that no connection expects.\<close>

definition inc4 :: "bytes4 \<Rightarrow> bytes4" where
  "inc4 x = (let (a, b, c, d) = x in
     if d + 1 = 0 then
       if c + 1 = 0 then
         if b + 1 = 0 then (a + 1, b + 1, c + 1, d + 1) else (a, b + 1, c + 1, d + 1)
       else (a, b, c + 1, d + 1)
     else (a, b, c, d + 1))"

definition reset :: "'a uip_env \<Rightarrow> 'a uip_state \<Rightarrow> 'a uip_state" where
  "reset E s =
     (if BUF8 E s off_flags AND TCP_RST \<noteq> 0 then drop_packet s
      else
        let s = set8 E off_flags (TCP_RST OR TCP_ACK) s;
            s = s\<lparr>uip_len := UIP_IPTCPH_LEN\<rparr>;
            s = set8 E off_tcpoffset (push_bit 4 5) s;
            seq = BUF4 E s off_seqno; ack = BUF4 E s off_ackno;
            s = set4 E off_ackno seq (set4 E off_seqno ack s);
            s = set4 E off_ackno (inc4 (BUF4 E s off_ackno)) s;
            tmp16 = BUF16 E s off_srcport;
            s = set16 E off_srcport (BUF16 E s off_destport) s;
            s = set16 E off_destport tmp16 s;
            s = set4 E off_destipaddr (BUF4 E s off_srcipaddr) s;
            s = set4 E off_srcipaddr (uip_hostaddr s) s
        in tcp_send_noconn E s)"

section \<open>Connections\<close>

text \<open>The loop over \<open>uip_conns\<close> that finds a closed connection, or else the one that has been in
  TIME-WAIT for longest: the arguments are the connections not yet seen, the index of the first of
  them, and the candidate.\<close>

fun find_unused :: "uip_conn_t list \<Rightarrow> nat \<Rightarrow> (nat \<times> u8) option \<Rightarrow> nat option" where
  "find_unused [] c cand = map_option fst cand"
| "find_unused (x # xs) c cand =
     (if tcpstateflags x = UIP_CLOSED then Some c
      else if tcpstateflags x = UIP_TIME_WAIT \<and> (case cand of None \<Rightarrow> True | Some (_, t) \<Rightarrow> conn_timer x > t)
      then find_unused xs (c + 1) (Some (c, conn_timer x))
      else find_unused xs (c + 1) cand)"

fun find_conn :: "('c \<Rightarrow> bool) \<Rightarrow> 'c list \<Rightarrow> nat \<Rightarrow> nat option" where
  "find_conn P [] c = None"
| "find_conn P (x # xs) c = (if P x then Some c else find_conn P xs (c + 1))"

definition uip_add_rcv_nxt :: "nat \<Rightarrow> u16 \<Rightarrow> 'a uip_state \<Rightarrow> 'a uip_state" where
  "uip_add_rcv_nxt i n s = upd_conn i (\<lambda>c. c\<lparr>rcv_nxt := uip_add32 (rcv_nxt c) n\<rparr>) s"

text \<open>The options of a TCP header: the loop runs while the 8-bit index \<open>c\<close> is below \<open>limit\<close>, and its
  result is the maximum segment size, if the loop ends and found one.\<close>

partial_function (option) parse_mss :: "mem \<Rightarrow> nat \<Rightarrow> nat \<Rightarrow> u8 \<Rightarrow> u16 option option" where
  "parse_mss m opts limit c =
     (if unat c < limit then
        let opt = m (opts + unat c); len = m (opts + 1 + unat c)
        in if opt = TCP_OPT_END then Some None
           else if opt = TCP_OPT_NOOP then parse_mss m opts limit (c + 1)
           else if opt = TCP_OPT_MSS \<and> len = TCP_OPT_MSS_LEN then Some (Some (be16 m (opts + 2 + unat c)))
           else if len = 0 then Some None
           else parse_mss m opts limit (c + len)
      else Some None)"

definition parse_options :: "'a uip_env \<Rightarrow> nat \<Rightarrow> 'a uip_state \<Rightarrow> 'a uip_state option" where
  "parse_options E i s =
     (if BUF8 E s off_tcpoffset AND 0xf0 > 0x50 then
        case parse_mss (uip_buf s) (UIP_LLH_LEN E + UIP_IPTCPH_LEN)
               (4 * (unat (drop_bit 4 (BUF8 E s off_tcpoffset)) - 5)) 0 of
          None \<Rightarrow> None
        | Some None \<Rightarrow> Some s
        | Some (Some tmp16) \<Rightarrow>
            let v = (if tmp16 > UIP_TCP_MSS E then UIP_TCP_MSS E else tmp16)
            in Some (upd_conn i (\<lambda>c. c\<lparr>initialmss := v, mss := v\<rparr>) s)
      else Some s)"

definition found_listen :: "'a uip_env \<Rightarrow> 'a uip_state \<Rightarrow> 'a uip_state option" where
  "found_listen E s =
     (case find_unused (uip_conns s) 0 None of
        None \<Rightarrow> Some (drop_packet s)
      | Some i \<Rightarrow>
          let s = s\<lparr>uip_conn := Some i\<rparr>;
              s = upd_conn i (\<lambda>c. c\<lparr>rto := UIP_RTO, conn_timer := UIP_RTO, sa := 0, sv := 4, nrtx := 0,
                    lport := BUF16 E s off_destport, rport := BUF16 E s off_srcport,
                    ripaddr := BUF4 E s off_srcipaddr, tcpstateflags := UIP_SYN_RCVD,
                    snd_nxt := iss s, conn_len := 1, rcv_nxt := BUF4 E s off_seqno\<rparr>) s;
              s = uip_add_rcv_nxt i 1 s
          in (case parse_options E i s of
                None \<Rightarrow> None
              | Some s \<Rightarrow> Some (tcp_send_synack E i s)))"

section \<open>A segment for a connection\<close>

text \<open>The round-trip estimate; \<open>signed char m\<close> is a byte whose top bit is the sign.\<close>

definition rtt_estimate :: "uip_conn_t \<Rightarrow> uip_conn_t" where
  "rtt_estimate c =
     (let m = rto c - conn_timer c;
          m = m - drop_bit 3 (sa c);
          sa' = sa c + m;
          m = (if bit m 7 then - m else m);
          m = m - drop_bit 2 (sv c);
          sv' = sv c + m
      in c\<lparr>sa := sa', sv := sv', rto := drop_bit 3 sa' + sv'\<rparr>)"

definition process_ack :: "'a uip_env \<Rightarrow> nat \<Rightarrow> 'a uip_state \<Rightarrow> 'a uip_state" where
  "process_ack E i s =
     (if BUF8 E s off_flags AND TCP_ACK \<noteq> 0 \<and> uip_outstanding (conn s i) \<and>
         BUF4 E s off_ackno = uip_add32 (snd_nxt (conn s i)) (conn_len (conn s i)) then
        let s = upd_conn i (\<lambda>c. c\<lparr>snd_nxt := uip_add32 (snd_nxt c) (conn_len c)\<rparr>) s;
            s = (if nrtx (conn s i) = 0 then upd_conn i rtt_estimate s else s);
            s = s\<lparr>uip_flags := UIP_ACKDATA\<rparr>
        in upd_conn i (\<lambda>c. c\<lparr>conn_timer := rto c, conn_len := 0\<rparr>) s
      else s)"

definition in_syn_rcvd :: "'a uip_env \<Rightarrow> nat \<Rightarrow> 'a uip_state \<Rightarrow> 'a uip_state" where
  "in_syn_rcvd E i s =
     (if uip_flags s AND UIP_ACKDATA \<noteq> 0 then
        let s = upd_conn i (tcpstateflags_update (\<lambda>_. UIP_ESTABLISHED)) s;
            s = s\<lparr>uip_flags := UIP_CONNECTED\<rparr>;
            s = upd_conn i (conn_len_update (\<lambda>_. 0)) s;
            s = (if uip_len s > 0
                 then uip_add_rcv_nxt i (uip_len s) (s\<lparr>uip_flags := uip_flags s OR UIP_NEWDATA\<rparr>) else s);
            s = s\<lparr>uip_slen := 0\<rparr>
        in appsend E i (UIP_APPCALL E s)
      else if BUF8 E s off_flags AND TCP_CTL = TCP_SYN then tcp_send_synack E i s
      else drop_packet s)"

definition open_conn :: "'a uip_env \<Rightarrow> nat \<Rightarrow> 'a uip_state \<Rightarrow> 'a uip_state" where
  "open_conn E i s =
     (let s = upd_conn i (\<lambda>c. c\<lparr>tcpstateflags := UIP_ESTABLISHED, rcv_nxt := BUF4 E s off_seqno\<rparr>) s;
          s = uip_add_rcv_nxt i 1 s;
          s = s\<lparr>uip_flags := UIP_CONNECTED OR UIP_NEWDATA\<rparr>;
          s = upd_conn i (conn_len_update (\<lambda>_. 0)) s
      in s\<lparr>uip_len := 0, uip_slen := 0\<rparr>)"

definition in_syn_sent :: "'a uip_env \<Rightarrow> nat \<Rightarrow> 'a uip_state \<Rightarrow> 'a uip_state option" where
  "in_syn_sent E i s =
     (if uip_flags s AND UIP_ACKDATA \<noteq> 0 \<and> BUF8 E s off_flags AND TCP_CTL = TCP_SYN OR TCP_ACK then
        (case parse_options E i s of
           None \<Rightarrow> None
         | Some s \<Rightarrow> Some (appsend E i (UIP_APPCALL E (open_conn E i s))))
      else
        let s = UIP_APPCALL E (s\<lparr>uip_flags := UIP_ABORT\<rparr>)
        in case uip_conn s of
             None \<Rightarrow> None
           | Some j \<Rightarrow> Some (reset E (upd_conn j (tcpstateflags_update (\<lambda>_. UIP_CLOSED)) s)))"

definition established_fin :: "'a uip_env \<Rightarrow> nat \<Rightarrow> 'a uip_state \<Rightarrow> 'a uip_state" where
  "established_fin E i s =
     (if uip_outstanding (conn s i) then drop_packet s
      else
        let s = uip_add_rcv_nxt i (1 + uip_len s) s;
            s = s\<lparr>uip_flags := uip_flags s OR UIP_CLOSE\<rparr>;
            s = (if uip_len s > 0 then s\<lparr>uip_flags := uip_flags s OR UIP_NEWDATA\<rparr> else s);
            s = UIP_APPCALL E s;
            s = upd_conn i (\<lambda>c. c\<lparr>conn_len := 1, tcpstateflags := UIP_LAST_ACK, nrtx := 0\<rparr>) s
        in tcp_send_finack E i s)"

text \<open>Urgent data is skipped; the urgent pointer is not compared with the length of the data.\<close>

definition skip_urgent :: "'a uip_env \<Rightarrow> 'a uip_state \<Rightarrow> 'a uip_state" where
  "skip_urgent E s =
     (if BUF8 E s off_flags AND TCP_URG \<noteq> 0 then
        let urgp = be16 (uip_buf s) (UIP_LLH_LEN E + off_urgp)
        in s\<lparr>uip_appdata := uip_appdata s + unat urgp, uip_len := uip_len s - urgp\<rparr>
      else s)"

definition update_mss :: "'a uip_env \<Rightarrow> nat \<Rightarrow> 'a uip_state \<Rightarrow> 'a uip_state" where
  "update_mss E i s =
     (let tmp16 = be16 (uip_buf s) (UIP_LLH_LEN E + off_wnd);
          tmp16 = (if tmp16 > initialmss (conn s i) \<or> tmp16 = 0 then initialmss (conn s i) else tmp16)
      in upd_conn i (mss_update (\<lambda>_. tmp16)) s)"

definition established_data :: "'a uip_env \<Rightarrow> nat \<Rightarrow> 'a uip_state \<Rightarrow> 'a uip_state" where
  "established_data E i s =
     (let s = skip_urgent E s;
          s = (if uip_len s > 0 \<and> tcpstateflags (conn s i) AND UIP_STOPPED = 0
               then uip_add_rcv_nxt i (uip_len s) (s\<lparr>uip_flags := uip_flags s OR UIP_NEWDATA\<rparr>) else s)
      in update_mss E i s)"

definition in_established :: "'a uip_env \<Rightarrow> nat \<Rightarrow> 'a uip_state \<Rightarrow> 'a uip_state" where
  "in_established E i s =
     (if BUF8 E s off_flags AND TCP_FIN \<noteq> 0 \<and> tcpstateflags (conn s i) AND UIP_STOPPED = 0
      then established_fin E i s
      else
        let s = established_data E i s
        in if uip_flags s AND (UIP_NEWDATA OR UIP_ACKDATA) \<noteq> 0
           then appsend E i (UIP_APPCALL E (s\<lparr>uip_slen := 0\<rparr>))
           else drop_packet s)"

definition in_last_ack :: "'a uip_env \<Rightarrow> nat \<Rightarrow> 'a uip_state \<Rightarrow> 'a uip_state" where
  "in_last_ack E i s =
     (if uip_flags s AND UIP_ACKDATA \<noteq> 0 then
        let s = upd_conn i (tcpstateflags_update (\<lambda>_. UIP_CLOSED)) s
        in drop_packet (UIP_APPCALL E (s\<lparr>uip_flags := UIP_CLOSE\<rparr>))
      else drop_packet s)"

definition in_fin_wait_1 :: "'a uip_env \<Rightarrow> nat \<Rightarrow> 'a uip_state \<Rightarrow> 'a uip_state" where
  "in_fin_wait_1 E i s =
     (let s = (if uip_len s > 0 then uip_add_rcv_nxt i (uip_len s) s else s)
      in if BUF8 E s off_flags AND TCP_FIN \<noteq> 0 then
           let s = (if uip_flags s AND UIP_ACKDATA \<noteq> 0
                    then upd_conn i (\<lambda>c. c\<lparr>tcpstateflags := UIP_TIME_WAIT, conn_timer := 0, conn_len := 0\<rparr>) s
                    else upd_conn i (tcpstateflags_update (\<lambda>_. UIP_CLOSING)) s);
               s = uip_add_rcv_nxt i 1 s
           in tcp_send_ack E i (UIP_APPCALL E (s\<lparr>uip_flags := UIP_CLOSE\<rparr>))
         else if uip_flags s AND UIP_ACKDATA \<noteq> 0 then
           drop_packet (upd_conn i (\<lambda>c. c\<lparr>tcpstateflags := UIP_FIN_WAIT_2, conn_len := 0\<rparr>) s)
         else if uip_len s > 0 then tcp_send_ack E i s
         else drop_packet s)"

definition in_fin_wait_2 :: "'a uip_env \<Rightarrow> nat \<Rightarrow> 'a uip_state \<Rightarrow> 'a uip_state" where
  "in_fin_wait_2 E i s =
     (let s = (if uip_len s > 0 then uip_add_rcv_nxt i (uip_len s) s else s)
      in if BUF8 E s off_flags AND TCP_FIN \<noteq> 0 then
           let s = upd_conn i (\<lambda>c. c\<lparr>tcpstateflags := UIP_TIME_WAIT, conn_timer := 0\<rparr>) s;
               s = uip_add_rcv_nxt i 1 s
           in tcp_send_ack E i (UIP_APPCALL E (s\<lparr>uip_flags := UIP_CLOSE\<rparr>))
         else if uip_len s > 0 then tcp_send_ack E i s
         else drop_packet s)"

definition in_closing :: "nat \<Rightarrow> 'a uip_state \<Rightarrow> 'a uip_state" where
  "in_closing i s =
     drop_packet (if uip_flags s AND UIP_ACKDATA \<noteq> 0
                  then upd_conn i (\<lambda>c. c\<lparr>tcpstateflags := UIP_TIME_WAIT, conn_timer := 0\<rparr>) s else s)"

definition in_state :: "'a uip_env \<Rightarrow> nat \<Rightarrow> 'a uip_state \<Rightarrow> 'a uip_state option" where
  "in_state E i s =
     (if tcpstate s i = UIP_SYN_RCVD then Some (in_syn_rcvd E i s)
      else if tcpstate s i = UIP_SYN_SENT then in_syn_sent E i s
      else if tcpstate s i = UIP_ESTABLISHED then Some (in_established E i s)
      else if tcpstate s i = UIP_LAST_ACK then Some (in_last_ack E i s)
      else if tcpstate s i = UIP_FIN_WAIT_1 then Some (in_fin_wait_1 E i s)
      else if tcpstate s i = UIP_FIN_WAIT_2 then Some (in_fin_wait_2 E i s)
      else if tcpstate s i = UIP_TIME_WAIT then Some (tcp_send_ack E i s)
      else if tcpstate s i = UIP_CLOSING then Some (in_closing i s)
      else Some (drop_packet s))"

definition out_of_sequence :: "'a uip_env \<Rightarrow> nat \<Rightarrow> 'a uip_state \<Rightarrow> bool" where
  "out_of_sequence E i s \<longleftrightarrow>
     \<not> (tcpstate s i = UIP_SYN_SENT \<and> BUF8 E s off_flags AND TCP_CTL = TCP_SYN OR TCP_ACK \<or>
        tcpstate s i = UIP_SYN_RCVD \<and> BUF8 E s off_flags AND TCP_CTL = TCP_SYN) \<and>
     (uip_len s > 0 \<or> BUF8 E s off_flags AND (TCP_SYN OR TCP_FIN) \<noteq> 0) \<and>
     BUF4 E s off_seqno \<noteq> rcv_nxt (conn s i)"

definition found_conn :: "'a uip_env \<Rightarrow> nat \<Rightarrow> 'a uip_state \<Rightarrow> 'a uip_state option" where
  "found_conn E i s =
     (let s = s\<lparr>uip_conn := Some i, uip_flags := 0\<rparr>
      in if BUF8 E s off_flags AND TCP_RST \<noteq> 0 then
           let s = upd_conn i (tcpstateflags_update (\<lambda>_. UIP_CLOSED)) s
           in Some (drop_packet (UIP_APPCALL E (s\<lparr>uip_flags := UIP_ABORT\<rparr>)))
         else
           let c = push_bit 2 (drop_bit 4 (BUF8 E s off_tcpoffset));
               s = s\<lparr>uip_len := uip_len s - ucast c - UIP_IPH_LEN\<rparr>
           in if out_of_sequence E i s then Some (tcp_send_ack E i s)
              else in_state E i (process_ack E i s))"

definition tcp_input :: "'a uip_env \<Rightarrow> 'a uip_state \<Rightarrow> 'a uip_state option" where
  "tcp_input E s =
     (if uip_tcpchksum (UIP_LLH_LEN E) (uip_buf s) \<noteq> 0xffff then Some (drop_packet s)
      else if BUF16 E s off_destport = 0 \<or> BUF16 E s off_srcport = 0 then Some (drop_packet s)
      else
        case find_conn (\<lambda>c. tcpstateflags c \<noteq> UIP_CLOSED \<and> BUF16 E s off_destport = lport c \<and>
               BUF16 E s off_srcport = rport c \<and> BUF4 E s off_srcipaddr = ripaddr c) (uip_conns s) 0 of
          Some i \<Rightarrow> found_conn E i s
        | None \<Rightarrow>
            if BUF8 E s off_flags AND TCP_CTL \<noteq> TCP_SYN then Some (reset E s)
            else
              case find_conn (\<lambda>p. BUF16 E s off_destport = p) (uip_listenports s) 0 of
                Some _ \<Rightarrow> found_listen E s
              | None \<Rightarrow> Some (reset E s))"

section \<open>UDP and ICMP\<close>

abbreviation udp_conn :: "'a uip_state \<Rightarrow> uip_udp_conn_t" where
  "udp_conn s \<equiv> uip_udp_conns s ! uip_udp_conn s"

definition udp_fill :: "'a uip_env \<Rightarrow> 'a uip_state \<Rightarrow> 'a uip_state" where
  "udp_fill E s =
     (let c = udp_conn s;
          s = s\<lparr>uip_len := uip_slen s + UIP_IPUDPH_LEN\<rparr>;
          s = set_ip_len E s;
          s = set8 E off_ttl (udp_ttl c) s;
          s = set8 E off_proto UIP_PROTO_UDP s;
          s = set16 E off_udplen (uip_htons (uip_slen s + 8)) s;
          s = set16 E off_udpchksum 0 s;
          s = set16 E off_srcport (udp_lport c) s;
          s = set16 E off_destport (udp_rport c) s;
          s = set4 E off_srcipaddr (uip_hostaddr s) s;
          s = set4 E off_destipaddr (udp_ripaddr c) s
      in s\<lparr>uip_appdata := UIP_LLH_LEN E + UIP_IPTCPH_LEN\<rparr>)"

definition udp_sum :: "'a uip_env \<Rightarrow> 'a uip_state \<Rightarrow> 'a uip_state" where
  "udp_sum E s =
     (if UIP_UDP_CHECKSUMS E then
        let s = set16 E off_udpchksum (NOT (uip_udpchksum (UIP_LLH_LEN E) (uip_buf s))) s
        in if BUF16 E s off_udpchksum = 0 then set16 E off_udpchksum 0xffff s else s
      else s)"

definition udp_send :: "'a uip_env \<Rightarrow> 'a uip_state \<Rightarrow> 'a uip_state" where
  "udp_send E s = (if uip_slen s = 0 then drop_packet s else ip_send_nolen E (udp_sum E (udp_fill E s)))"

definition udp_found :: "'a uip_env \<Rightarrow> 'a uip_state \<Rightarrow> 'a uip_state" where
  "udp_found E s =
     udp_send E (UIP_UDP_APPCALL E (s\<lparr>uip_conn := None, uip_flags := UIP_NEWDATA,
       uip_sappdata := UIP_LLH_LEN E + UIP_IPUDPH_LEN, uip_appdata := UIP_LLH_LEN E + UIP_IPUDPH_LEN, uip_slen := 0\<rparr>))"

definition unreachable_payload :: "'a uip_env \<Rightarrow> 'a uip_state \<Rightarrow> 'a uip_state" where
  "unreachable_payload E s =
     (let L = UIP_LLH_LEN E;
          s = s\<lparr>uip_buf := blit (uip_buf s) (L + off_icmppayload) (map (\<lambda>k. uip_buf s (L + k)) [0..<UIP_IPH_LEN + 8])\<rparr>;
          s = set8 E off_icmptype ICMP_DEST_UNREACHABLE s;
          s = set8 E off_icode ICMP_PORT_UNREACHABLE s;
          s = set16 E off_icmpchksum 0 s
      in set16 E off_icmpchksum (NOT (uip_chksum (uip_buf s) (L + off_icmptype) 36)) s)"

definition port_unreachable :: "'a uip_env \<Rightarrow> 'a uip_state \<Rightarrow> 'a uip_state" where
  "port_unreachable E s =
     (let s = unreachable_payload E s;
          s = set4 E off_destipaddr (BUF4 E s off_srcipaddr) s;
          s = set4 E off_srcipaddr (uip_hostaddr s) s;
          s = s\<lparr>uip_len := 36 + UIP_IPH_LEN\<rparr>;
          s = set8 E off_len 0 s;
          s = set8 E (off_len + 1) (ucast (uip_len s)) s;
          s = set8 E off_ttl UIP_TTL s;
          s = set8 E off_proto UIP_PROTO_ICMP s
      in ip_send_nolen E s)"

definition udp_demux :: "'a uip_env \<Rightarrow> 'a uip_state \<Rightarrow> uip_udp_conn_t \<Rightarrow> bool" where
  "udp_demux E s c \<longleftrightarrow>
     udp_lport c \<noteq> 0 \<and> BUF16 E s off_destport = udp_lport c \<and>
     (udp_rport c = 0 \<or> BUF16 E s off_srcport = udp_rport c) \<and>
     (udp_ripaddr c = uip_all_zeroes_addr \<or> udp_ripaddr c = uip_broadcast_addr \<or>
      BUF4 E s off_srcipaddr = udp_ripaddr c)"

definition udp_input :: "'a uip_env \<Rightarrow> 'a uip_state \<Rightarrow> 'a uip_state" where
  "udp_input E s =
     (let s = s\<lparr>uip_len := uip_len s - UIP_IPUDPH_LEN\<rparr>;
          s = (if UIP_UDP_CHECKSUMS E then s\<lparr>uip_appdata := UIP_LLH_LEN E + UIP_IPUDPH_LEN\<rparr> else s)
      in if UIP_UDP_CHECKSUMS E \<and> BUF16 E s off_udpchksum \<noteq> 0 \<and>
            uip_udpchksum (UIP_LLH_LEN E) (uip_buf s) \<noteq> 0xffff then drop_packet s
         else if BUF16 E s off_destport = 0 then drop_packet s
         else
           case find_conn (udp_demux E s) (uip_udp_conns s) 0 of
             Some i \<Rightarrow> udp_found E (s\<lparr>uip_udp_conn := i\<rparr>)
           | None \<Rightarrow>
               let s = s\<lparr>uip_udp_conn := length (uip_udp_conns s)\<rparr>
               in if UIP_CONF_ICMP_DEST_UNREACH E then port_unreachable E s else drop_packet s)"

definition icmp_input :: "'a uip_env \<Rightarrow> 'a uip_state \<Rightarrow> 'a uip_state" where
  "icmp_input E s =
     (if BUF8 E s off_icmptype \<noteq> ICMP_ECHO then drop_packet s
      else
        let s = (if UIP_PINGADDRCONF E \<and> uip_hostaddr s = uip_all_zeroes_addr
                 then s\<lparr>uip_hostaddr := BUF4 E s off_destipaddr\<rparr> else s);
            s = set8 E off_icmptype ICMP_ECHO_REPLY s;
            chk = BUF16 E s off_icmpchksum;
            s = (if chk \<ge> uip_htons (0xffff - push_bit 8 8)
                 then set16 E off_icmpchksum (chk + (uip_htons (push_bit 8 8) + 1)) s
                 else set16 E off_icmpchksum (chk + uip_htons (push_bit 8 8)) s);
            s = set4 E off_destipaddr (BUF4 E s off_srcipaddr) s;
            s = set4 E off_srcipaddr (uip_hostaddr s) s;
            s = set8 E off_ttl UIP_TTL s
        in ip_send_nolen E s)"

section \<open>The entry points\<close>

definition ip_input :: "'a uip_env \<Rightarrow> 'a uip_state \<Rightarrow> 'a uip_state option" where
  "ip_input E s =
     (if BUF8 E s off_vhl \<noteq> 0x45 then Some (drop_packet s)
      else if \<not> be16 (uip_buf s) (UIP_LLH_LEN E + off_len) \<le> uip_len s then Some (drop_packet s)
      else
        let s = s\<lparr>uip_len := be16 (uip_buf s) (UIP_LLH_LEN E + off_len)\<rparr>
        in if BUF8 E s off_ipoffset AND 0x3f \<noteq> 0 \<or> BUF8 E s (off_ipoffset + 1) \<noteq> 0 then Some (drop_packet s)
           else if uip_hostaddr s = uip_all_zeroes_addr \<and> UIP_PINGADDRCONF E then
             (if BUF8 E s off_proto = UIP_PROTO_ICMP then Some (icmp_input E s) else Some (drop_packet s))
           else if uip_hostaddr s \<noteq> uip_all_zeroes_addr \<and> UIP_BROADCAST E \<and> BUF8 E s off_proto = UIP_PROTO_UDP \<and>
                   (BUF4 E s off_destipaddr = uip_broadcast_addr \<or> BUF8 E s off_destipaddr AND 224 = 224) then
             Some (udp_input E s)
           else if uip_hostaddr s \<noteq> uip_all_zeroes_addr \<and> BUF4 E s off_destipaddr \<noteq> uip_hostaddr s then
             Some (drop_packet s)
           else if uip_ipchksum (UIP_LLH_LEN E) (uip_buf s) \<noteq> 0xffff then Some (drop_packet s)
           else if BUF8 E s off_proto = UIP_PROTO_TCP then tcp_input E s
           else if BUF8 E s off_proto = UIP_PROTO_UDP then Some (udp_input E s)
           else if BUF8 E s off_proto \<noteq> UIP_PROTO_ICMP then Some (drop_packet s)
           else Some (icmp_input E s))"

definition retransmit :: "'a uip_env \<Rightarrow> nat \<Rightarrow> 'a uip_state \<Rightarrow> 'a uip_state" where
  "retransmit E i s =
     (let s = upd_conn i (\<lambda>c. c\<lparr>conn_timer := push_bit (if nrtx c > 4 then 4 else unat (nrtx c)) UIP_RTO,
                               nrtx := nrtx c + 1\<rparr>) s
      in if tcpstate s i = UIP_SYN_RCVD then tcp_send_synack E i s
         else if tcpstate s i = UIP_SYN_SENT then tcp_send_syn E i (set8 E off_flags 0 s)
         else if tcpstate s i = UIP_ESTABLISHED then apprexmit E i (UIP_APPCALL E (s\<lparr>uip_flags := UIP_REXMIT\<rparr>))
         else if tcpstate s i \<in> {UIP_FIN_WAIT_1, UIP_CLOSING, UIP_LAST_ACK} then tcp_send_finack E i s
         else drop_packet s)"

definition rtx_exhausted :: "uip_conn_t \<Rightarrow> bool" where
  "rtx_exhausted c \<longleftrightarrow> nrtx c = UIP_MAXRTX \<or>
     (tcpstateflags c = UIP_SYN_SENT \<or> tcpstateflags c = UIP_SYN_RCVD) \<and> nrtx c = UIP_MAXSYNRTX"

definition periodic :: "'a uip_env \<Rightarrow> nat \<Rightarrow> 'a uip_state \<Rightarrow> 'a uip_state" where
  "periodic E i s =
     (let s = s\<lparr>iss := inc4 (iss s), uip_len := 0, uip_slen := 0\<rparr>
      in if tcpstateflags (conn s i) = UIP_TIME_WAIT \<or> tcpstateflags (conn s i) = UIP_FIN_WAIT_2 then
           let s = upd_conn i (\<lambda>c. c\<lparr>conn_timer := conn_timer c + 1\<rparr>) s
           in drop_packet (if conn_timer (conn s i) = UIP_TIME_WAIT_TIMEOUT
                           then upd_conn i (tcpstateflags_update (\<lambda>_. UIP_CLOSED)) s else s)
         else if tcpstateflags (conn s i) \<noteq> UIP_CLOSED then
           if uip_outstanding (conn s i) then
             let expired = (conn_timer (conn s i) = 0);
                 s = upd_conn i (\<lambda>c. c\<lparr>conn_timer := conn_timer c - 1\<rparr>) s
             in if \<not> expired then drop_packet s
                else if rtx_exhausted (conn s i) then
                  let s = upd_conn i (tcpstateflags_update (\<lambda>_. UIP_CLOSED)) s;
                      s = UIP_APPCALL E (s\<lparr>uip_flags := UIP_TIMEDOUT\<rparr>)
                  in tcp_send_nodata E i (set8 E off_flags (TCP_RST OR TCP_ACK) s)
                else retransmit E i s
           else if tcpstate s i = UIP_ESTABLISHED then
             appsend E i (UIP_APPCALL E (s\<lparr>uip_flags := UIP_POLL\<rparr>))
           else drop_packet s
         else drop_packet s)"

definition poll_request :: "'a uip_env \<Rightarrow> nat \<Rightarrow> 'a uip_state \<Rightarrow> 'a uip_state" where
  "poll_request E i s =
     (if tcpstate s i = UIP_ESTABLISHED \<and> \<not> uip_outstanding (conn s i) then
        appsend E i (UIP_APPCALL E (s\<lparr>uip_flags := UIP_POLL\<rparr>))
      else if tcpstate s i = UIP_SYN_SENT then tcp_send_syn E i (set8 E off_flags 0 s)
      else drop_packet s)"

definition udp_timer :: "'a uip_env \<Rightarrow> 'a uip_state \<Rightarrow> 'a uip_state" where
  "udp_timer E s =
     (if udp_lport (udp_conn s) \<noteq> 0 then
        udp_send E (UIP_UDP_APPCALL E (s\<lparr>uip_conn := None,
          uip_sappdata := UIP_LLH_LEN E + UIP_IPUDPH_LEN, uip_appdata := UIP_LLH_LEN E + UIP_IPUDPH_LEN,
          uip_len := 0, uip_slen := 0, uip_flags := UIP_POLL\<rparr>))
      else drop_packet s)"

definition uip_process :: "'a uip_env \<Rightarrow> u8 \<Rightarrow> 'a uip_state \<Rightarrow> 'a uip_state option" where
  "uip_process E flag s =
     (if flag = UIP_UDP_SEND_CONN then Some (udp_send E s)
      else
        let s = s\<lparr>uip_sappdata := UIP_LLH_LEN E + UIP_IPTCPH_LEN, uip_appdata := UIP_LLH_LEN E + UIP_IPTCPH_LEN\<rparr>
        in if flag = UIP_POLL_REQUEST then map_option (\<lambda>i. poll_request E i s) (uip_conn s)
           else if flag = UIP_TIMER then map_option (\<lambda>i. periodic E i s) (uip_conn s)
           else if flag = UIP_UDP_TIMER then Some (udp_timer E s)
           else ip_input E s)"

section \<open>The interface of the application\<close>

definition uip_init :: "'a uip_state \<Rightarrow> 'a uip_state" where
  "uip_init s =
     s\<lparr>uip_listenports := map (\<lambda>_. 0) (uip_listenports s),
       uip_conns := map (tcpstateflags_update (\<lambda>_. UIP_CLOSED)) (uip_conns s),
       lastport := 1024,
       uip_udp_conns := map (udp_lport_update (\<lambda>_. 0)) (uip_udp_conns s)\<rparr>"

definition uip_setipid :: "u16 \<Rightarrow> 'a uip_state \<Rightarrow> 'a uip_state" where
  "uip_setipid n s = s\<lparr>ipid := n\<rparr>"

text \<open>The loops of \<open>uip_connect\<close> and \<open>uip_udp_new\<close> count with the 8-bit variable \<open>c\<close> of \<open>uip.c\<close>, so that
  they do not end when the table has more than 255 entries and none of the first 256 ends the loop. The
  value of \<open>first_from\<close> is \<^const>\<open>None\<close> then, and otherwise the first entry that ends the loop, if any.\<close>

partial_function (option) first_from :: "('c \<Rightarrow> bool) \<Rightarrow> 'c list \<Rightarrow> u8 \<Rightarrow> nat option option" where
  "first_from hit xs c =
     (if unat c < length xs then if hit (xs ! unat c) then Some (Some (unat c)) else first_from hit xs (c + 1)
      else Some None)"

text \<open>The loop for an unused connection, with the candidate \<open>cand\<close>.\<close>

partial_function (option) unused_from :: "uip_conn_t list \<Rightarrow> u8 \<Rightarrow> nat option \<Rightarrow> nat option option" where
  "unused_from xs c cand =
     (if unat c < length xs then
        if tcpstateflags (xs ! unat c) = UIP_CLOSED then Some (Some (unat c))
        else unused_from xs (c + 1)
          (if tcpstateflags (xs ! unat c) = UIP_TIME_WAIT \<and>
              (cand = None \<or> conn_timer (xs ! unat c) > conn_timer (xs ! the cand)) then Some (unat c) else cand)
      else Some cand)"

text \<open>The loop that starts at the label \<open>again\<close>: \<open>find_user\<close> is the loop that looks for a user of a port.\<close>

partial_function (option) next_port :: "(u16 \<Rightarrow> nat option option) \<Rightarrow> u16 \<Rightarrow> u16 option" where
  "next_port find_user prev =
     (let p = prev + 1; p = (if p \<ge> 32000 then 4096 else p)
      in Option.bind (find_user p) (\<lambda>c. if c \<noteq> None then next_port find_user p else Some p))"

definition conn_user :: "uip_conn_t list \<Rightarrow> u16 \<Rightarrow> nat option option" where
  "conn_user cs p = first_from (\<lambda>c. tcpstateflags c \<noteq> UIP_CLOSED \<and> lport c = uip_htons p) cs 0"

definition uip_connect :: "'a uip_env \<Rightarrow> ipaddr \<Rightarrow> u16 \<Rightarrow> 'a uip_state \<Rightarrow> (nat option \<times> 'a uip_state) option" where
  "uip_connect E raddr port s =
     (case next_port (conn_user (uip_conns s)) (lastport s) of
        None \<Rightarrow> None
      | Some p \<Rightarrow>
          let s = s\<lparr>lastport := p\<rparr>
          in case unused_from (uip_conns s) 0 None of
               None \<Rightarrow> None
             | Some None \<Rightarrow> Some (None, s)
             | Some (Some i) \<Rightarrow>
                 Some (Some i, upd_conn i (\<lambda>c. c\<lparr>tcpstateflags := UIP_SYN_SENT, snd_nxt := iss s, rcv_nxt := (0, 0, 0, 0),
                   initialmss := UIP_TCP_MSS E, mss := UIP_TCP_MSS E, conn_len := 1, nrtx := 0, conn_timer := 1,
                   rto := UIP_RTO, sa := 0, sv := 16, lport := uip_htons p, rport := port, ripaddr := raddr\<rparr>) s))"

definition udp_user :: "uip_udp_conn_t list \<Rightarrow> u16 \<Rightarrow> nat option option" where
  "udp_user cs p = first_from (\<lambda>c. udp_lport c = uip_htons p) cs 0"

definition uip_udp_new :: "ipaddr option \<Rightarrow> u16 \<Rightarrow> 'a uip_state \<Rightarrow> (nat option \<times> 'a uip_state) option" where
  "uip_udp_new raddr port s =
     (case next_port (udp_user (uip_udp_conns s)) (lastport s) of
        None \<Rightarrow> None
      | Some p \<Rightarrow>
          let s = s\<lparr>lastport := p\<rparr>
          in case first_from (\<lambda>c. udp_lport c = 0) (uip_udp_conns s) 0 of
               None \<Rightarrow> None
             | Some None \<Rightarrow> Some (None, s)
             | Some (Some i) \<Rightarrow>
                 Some (Some i, s\<lparr>uip_udp_conns := (uip_udp_conns s)[i := \<lparr>
                   udp_ripaddr = (case raddr of None \<Rightarrow> uip_all_zeroes_addr | Some a \<Rightarrow> a),
                   udp_lport = uip_htons p, udp_rport = port, udp_ttl = UIP_TTL\<rparr>]\<rparr>))"

text \<open>The loops of \<open>uip_init\<close>, \<open>uip_unlisten\<close>, \<open>uip_listen\<close> and of \<open>uip_process\<close> over the connections and the
  listening ports count with the same variable. They are walks through the lists here, which is what the
  code does for tables of at most 255 entries; with more, \<open>uip_init\<close> itself would not end.\<close>

definition uip_unlisten :: "u16 \<Rightarrow> 'a uip_state \<Rightarrow> 'a uip_state" where
  "uip_unlisten port s =
     (case find_conn (\<lambda>p. p = port) (uip_listenports s) 0 of
        None \<Rightarrow> s | Some c \<Rightarrow> s\<lparr>uip_listenports := (uip_listenports s)[c := 0]\<rparr>)"

definition uip_listen :: "u16 \<Rightarrow> 'a uip_state \<Rightarrow> 'a uip_state" where
  "uip_listen port s =
     (case find_conn (\<lambda>p. p = 0) (uip_listenports s) 0 of
        None \<Rightarrow> s | Some c \<Rightarrow> s\<lparr>uip_listenports := (uip_listenports s)[c := port]\<rparr>)"

text \<open>\<open>data\<close> is \<^const>\<open>None\<close> when it is the pointer \<open>uip_sappdata\<close> itself.\<close>

definition uip_send :: "'a uip_env \<Rightarrow> u8 list option \<Rightarrow> int \<Rightarrow> 'a uip_state \<Rightarrow> 'a uip_state" where
  "uip_send E data n s =
     (let room = int (UIP_BUFSIZE E) - int (UIP_LLH_LEN E) - UIP_IPTCPH_LEN -
            (int (uip_sappdata s) - int (UIP_LLH_LEN E + UIP_IPTCPH_LEN));
          copylen = min n room
      in if copylen > 0 then
           let s = s\<lparr>uip_slen := of_int copylen\<rparr>
           in case data of
                None \<Rightarrow> s
              | Some bytes \<Rightarrow> s\<lparr>uip_buf := blit (uip_buf s) (uip_sappdata s) (take (unat (uip_slen s)) bytes)\<rparr>
         else s)"

end
