(* ===== verification/UipPacket.thy ===== *)
theory UipPacket
  imports Uip
begin

text \<open>
  The packets that \<open>uip_process\<close> sends: the fields it writes, and their checksums, which are proved
  correct for every packet that it leaves in the buffer.
\<close>

section \<open>Fields\<close>

text \<open>Offsets stay of the form base plus numeral.\<close>

declare add_2_eq_Suc [simp del] add_2_eq_Suc' [simp del]

lemma Suc_offset [simp]: "Suc (p + numeral k) = p + numeral (k + num.One)"
  by (simp only: Suc_eq_plus1 add.assoc numeral_plus_one)

lemma put16_at [simp]:
  "put16 p w m p = ucast w" "put16 p w m (Suc p) = ucast (drop_bit 8 w)"
  by (simp_all add: put16_def)

lemma put16_other: "a \<noteq> p \<Longrightarrow> a \<noteq> p + 1 \<Longrightarrow> put16 p w m a = m a"
  by (simp add: put16_def)

lemma put4_other: "a < p \<or> p + 4 \<le> a \<Longrightarrow> put4 p x m a = m a"
  by (auto simp: put4_def split: prod.splits)

lemma rd16_put16 [simp]: "rd16 (put16 p w m) p = w"
  by (simp add: rd16_def put16_def rd16_wr16)

lemma get4_put4 [simp]: "get4 (put4 p x m) p = x"
  by (simp add: get4_def put4_def split: prod.splits)

lemma unat_be16: "unat (be16 m p) = 256 * unat (m p) + unat (m (p + 1))"
  by (simp add: be16_def unat_word_of_bytes)

lemma be16_htons: "be16 m p = uip_htons (rd16 m p)"
proof -
  have "push_bit 8 (ucast (m p)) AND (ucast (m (p + 1)) :: u16) = 0"
    by (rule bit_word_eqI) (auto simp: bit_simps dest: bit_imp_le_length)
  then have "be16 m p = push_bit 8 (ucast (m p)) OR ucast (m (p + 1))" unfolding be16_def by (rule disjunctive_add_eq_or)
  also have "\<dots> = uip_htons (rd16 m p)"
    unfolding uip_htons_def rd16_def by (rule bit_word_eqI) (auto simp: bit_simps not_less dest: bit_imp_le_length)
  finally show ?thesis .
qed

lemma rd16_htons: "rd16 m p = uip_htons (be16 m p)"
  by (simp add: be16_htons)

lemma rd16_zero: "rd16 m p = 0 \<Longrightarrow> m p = 0 \<and> m (p + 1) = 0"
proof -
  assume a: "rd16 m p = 0"
  have "be16 m p = 0" using a by (simp add: be16_htons uip_htons_def)
  then have "256 * unat (m p) + unat (m (p + 1)) = 0" using unat_be16 [of m p] by simp
  then show ?thesis by (simp add: unat_eq_zero)
qed

lemma be16_of_bytes: "be16 (m(p := ucast (drop_bit 8 w), Suc p := ucast (w AND 0xff))) p = w"
  using bytes_of_u16 [of w] unat_be16 [of "m(p := ucast (drop_bit 8 w), Suc p := ucast (w AND 0xff))" p]
  by (simp add: word_unat_eq_iff)

section \<open>Checksums\<close>

lemma unat_NOT16: "unat (NOT w :: u16) = 65535 - unat w"
proof -
  have "NOT w = - 1 - w" by (simp add: not_eq_complement)
  moreover have "unat (- 1 - w) = unat (- 1 :: u16) - unat w" by (rule unat_sub) simp
  ultimately show ?thesis by (simp add: unsigned_minus_1_eq_mask mask_eq_exp_minus_1)
qed

lemma htons_NOT: "uip_htons (NOT w) = NOT (uip_htons w)"
  unfolding uip_htons_def by (rule bit_word_eqI) (auto simp: bit_simps dest: bit_imp_le_length)

lemma htons_ffff: "uip_htons 0xffff = 0xffff"
  by (simp add: uip_htons_def)

lemma word_sum_put16:
  assumes "even k" and "k + 2 \<le> n" and "m (p + k) = 0" and "m (p + k + 1) = 0"
  shows "word_sum True (put16 (p + k) w m) p n = word_sum True m p n + unat (uip_htons w)"
proof -
  let ?m = "put16 (p + k) w m"
  have split: "word_sum True x p n = word_sum True x p k + (256 * unat (x (p + k)) + unat (x (p + k + 1)) + word_sum True x (p + k + 2) (n - k - 2))" for x
    using word_sum_add [OF assms(1), of True x p "n - k"] word_sum_split [of "n - k" True x "p + k"] assms(2)
    by (simp add: word_sum_2)
  have "word_sum True ?m p k = word_sum True m p k"
    by (rule word_sum_cong) (simp add: put16_other)
  moreover have "word_sum True ?m (p + k + 2) (n - k - 2) = word_sum True m (p + k + 2) (n - k - 2)"
    by (rule word_sum_cong) (simp add: put16_other)
  moreover have "256 * unat (?m (p + k)) + unat (?m (p + k + 1)) = unat (uip_htons w)"
    using unat_be16 [of ?m "p + k"] by (simp add: be16_htons)
  ultimately show ?thesis using assms(3,4) unfolding split [of ?m] split [of m] by simp
qed

text \<open>A checksum field that is the complement of the sum without it makes the sum \<open>0xffff\<close>.\<close>

lemma complement_sum:
  assumes "unat x = fold16 k" and "0 < k" and "unat y = fold16 (k + unat (uip_htons (NOT (uip_htons x))))"
  shows "uip_htons y = 0xffff"
proof -
  have "unat (uip_htons (NOT (uip_htons x))) = 65535 - fold16 k" by (simp add: htons_NOT unat_NOT16 assms(1))
  moreover have "(k + (65535 - fold16 k)) mod 65535 = 0"
  proof -
    obtain j where j: "k = Suc j" using assms(2) by (cases k) auto
    define u r where "u = j div 65535" and "r = j mod 65535"
    have "j = 65535 * u + r" "r < 65535" by (simp_all add: u_def r_def)
    then have "j + 65534 - r = 65534 + 65535 * u" by simp
    then have "k + (65535 - fold16 k) = 65535 * (u + 1)"
      unfolding fold16_def j r_def by simp
    then show ?thesis by simp
  qed
  ultimately have "fold16 (k + unat (uip_htons (NOT (uip_htons x)))) = 65535"
    using assms(2) by (simp add: fold16_full)
  with assms(3) have "y = 0xffff" by (simp add: word_unat_eq_iff)
  then show ?thesis by (simp add: htons_ffff)
qed

lemma ipchksum_inserted:
  assumes "m L \<noteq> 0" and "m (L + 10) = 0" and "m (L + 10 + 1) = 0"
  shows "uip_ipchksum L (put16 (L + 10) (NOT (uip_ipchksum L m)) m) = 0xffff"
proof -
  define x where "x = chksum 0 m L UIP_IPH_LEN"
  have x: "unat x = fold16 (word_sum True m L 20)" by (simp add: x_def unat_chksum)
  have pos: "0 < word_sum True m L 20" using assms(1) word_sum_split [of 20 True m L] by (simp add: word_sum_2 unat_gt_0)
  then have "x \<noteq> 0" using x by (auto simp: unat_eq_zero [symmetric])
  then have i: "uip_ipchksum L m = uip_htons x" by (simp add: uip_ipchksum_def x_def)
  define m' where "m' = put16 (L + 10) (NOT (uip_htons x)) m"
  have "word_sum True m' L 20 = word_sum True m L 20 + unat (uip_htons (NOT (uip_htons x)))"
    unfolding m'_def using assms(2,3) by (intro word_sum_put16) simp_all
  then have y: "unat (chksum 0 m' L UIP_IPH_LEN) = fold16 (word_sum True m L 20 + unat (uip_htons (NOT (uip_htons x))))"
    by (simp add: unat_chksum)
  from complement_sum [OF x pos y] show ?thesis
    unfolding i unfolding m'_def [symmetric] uip_ipchksum_def Let_def by simp
qed

lemma upper_layer_inserted:
  assumes "m (L + k) = 0" and "m (L + k + 1) = 0" and "even k" and "22 \<le> k"
    and "k + 2 \<le> unat (be16 m (L + 2))" and "proto \<noteq> 0" and "unat (be16 m (L + 2)) - 20 + unat proto < 65536"
  shows "upper_layer_chksum L (put16 (L + k) (NOT (upper_layer_chksum L m proto)) m) proto = 0xffff"
proof -
  define n where "n = be16 m (L + 2) - 20"
  have n: "unat n = unat (be16 m (L + 2)) - 20"
    unfolding n_def using assms(4,5) by (subst unat_sub) (simp_all add: word_le_nat_alt)
  define k' where "k' = k - 20"
  have k: "k = 20 + k'" "even k'" using assms(3,4) by (simp_all add: k'_def)
  have up: "unat (n + ucast proto) = unat n + unat proto"
    using assms(7) u8_bound [of proto] by (simp add: unat_word_ariths unsigned_ucast_eq take_bit_eq_mod n)
  have val: "unat (chksum (chksum (n + ucast proto) x (L + 12) (2 * 4)) x (L + UIP_IPH_LEN) n) =
      fold16 (unat n + unat proto + word_sum True x (L + 12) 8 + word_sum True x (L + 20) (unat n))" for x
    by (simp add: unat_chksum up fold16_add)
  have def: "upper_layer_chksum L x proto = (let a = chksum (chksum (n + ucast proto) x (L + 12) (2 * 4)) x (L + UIP_IPH_LEN) n
      in if a = 0 then 0xffff else uip_htons a)" if "be16 x (L + 2) = be16 m (L + 2)" for x
    using that unfolding upper_layer_chksum_def n_def be16_def Let_def by (simp add: eval_nat_numeral)
  define x where "x = chksum (chksum (n + ucast proto) m (L + 12) (2 * 4)) m (L + UIP_IPH_LEN) n"
  define S where "S = unat n + unat proto + word_sum True m (L + 12) 8 + word_sum True m (L + 20) (unat n)"
  have x: "unat x = fold16 S" by (simp only: x_def val S_def)
  have pos: "0 < S" using assms(6) by (simp add: S_def unat_gt_0)
  then have "x \<noteq> 0" using x by (auto simp: unat_eq_zero [symmetric])
  then have i: "upper_layer_chksum L m proto = uip_htons x" by (simp add: def x_def Let_def)
  define m' where "m' = put16 (L + k) (NOT (uip_htons x)) m"
  have "be16 m' (L + 2) = be16 m (L + 2)" using assms(4) by (simp add: m'_def be16_def put16_other)
  note d = def [OF this]
  have "word_sum True m' (L + 12) 8 = word_sum True m (L + 12) 8"
    by (rule word_sum_cong) (use assms(4) in \<open>simp add: m'_def put16_other\<close>)
  moreover have "word_sum True m' (L + 20) (unat n) = word_sum True m (L + 20) (unat n) + unat (uip_htons (NOT (uip_htons x)))"
    using word_sum_put16 [of k' "unat n" m "L + 20" "NOT (uip_htons x)"] assms(1,2,5) k n by (simp add: m'_def add.assoc)
  ultimately have y: "unat (chksum (chksum (n + ucast proto) m' (L + 12) (2 * 4)) m' (L + UIP_IPH_LEN) n) =
      fold16 (S + unat (uip_htons (NOT (uip_htons x))))" unfolding val S_def by (simp add: ac_simps)
  from complement_sum [OF x pos y] show ?thesis
    unfolding i m'_def [symmetric] d Let_def by simp
qed

lemma upper_layer_cong:
  assumes "\<And>a. L + 12 \<le> a \<Longrightarrow> m a = m' a" and "m (L + 2) = m' (L + 2)" and "m (L + 3) = m' (L + 3)"
  shows "upper_layer_chksum L m proto = upper_layer_chksum L m' proto"
proof -
  have "word_sum True m (L + 12) n = word_sum True m' (L + 12) n" "word_sum True m (L + 20) n = word_sum True m' (L + 20) n" for n
    by (rule word_sum_cong; simp add: assms(1))+
  then have "chksum a m (L + 12) n = chksum a m' (L + 12) n" "chksum a m (L + UIP_IPH_LEN) n = chksum a m' (L + UIP_IPH_LEN) n" for a n
    by (simp_all add: word_unat_eq_iff unat_chksum)
  then show ?thesis unfolding upper_layer_chksum_def assms(2,3) by (simp only:)
qed

section \<open>What is sent\<close>

definition packet_ok :: "'a uip_env \<Rightarrow> 'a uip_state \<Rightarrow> bool" where
  "packet_ok E s \<longleftrightarrow>
     BUF8 E s off_vhl = 0x45 \<and> be16 (uip_buf s) (UIP_LLH_LEN E + off_len) = uip_len s \<and>
     BUF16 E s off_ipoffset = 0 \<and> uip_ipchksum (UIP_LLH_LEN E) (uip_buf s) = 0xffff \<and>
     (BUF8 E s off_proto = UIP_PROTO_TCP \<and> UIP_IPTCPH_LEN \<le> uip_len s \<longrightarrow>
        uip_tcpchksum (UIP_LLH_LEN E) (uip_buf s) = 0xffff)"

lemma fun_upd_offset: "m(p + a := x) = (\<lambda>q. if q = p + a then x else m q)"
  by (rule ext) simp

lemma ip_send_nolen_buf:
  "ip_send_nolen E s = s\<lparr>uip_buf := uip_buf (ip_send_nolen E s), ipid := ipid s + 1, uip_flags := 0\<rparr>"
  by (simp add: ip_send_nolen_def Let_def)

lemma ip_send_nolen_simps [simp]:
  "uip_len (ip_send_nolen E s) = uip_len s" "uip_conns (ip_send_nolen E s) = uip_conns s"
  "uip_flags (ip_send_nolen E s) = 0" "app_state (ip_send_nolen E s) = app_state s"
  "uip_hostaddr (ip_send_nolen E s) = uip_hostaddr s" "uip_listenports (ip_send_nolen E s) = uip_listenports s"
  "uip_conn (ip_send_nolen E s) = uip_conn s" "uip_slen (ip_send_nolen E s) = uip_slen s"
  "iss (ip_send_nolen E s) = iss s" "lastport (ip_send_nolen E s) = lastport s"
  by (simp_all add: ip_send_nolen_def Let_def)

lemma ip_send_nolen_keeps:
  assumes "12 \<le> k \<or> k \<in> {2, 3, 8, 9}"
  shows "BUF8 E (ip_send_nolen E s) k = BUF8 E s k"
  using assms by (auto simp: ip_send_nolen_def Let_def put16_other)

lemma ip_send_nolen_header:
  "BUF8 E (ip_send_nolen E s) off_vhl = 0x45" "BUF16 E (ip_send_nolen E s) off_ipoffset = 0"
  "uip_ipchksum (UIP_LLH_LEN E) (uip_buf (ip_send_nolen E s)) = 0xffff"
proof -
  show "BUF8 E (ip_send_nolen E s) off_vhl = 0x45" "BUF16 E (ip_send_nolen E s) off_ipoffset = 0"
    by (simp_all add: ip_send_nolen_def Let_def put16_def rd16_def)
  show "uip_ipchksum (UIP_LLH_LEN E) (uip_buf (ip_send_nolen E s)) = 0xffff"
    unfolding ip_send_nolen_def Let_def
    by simp (intro ipchksum_inserted; simp add: put16_def)
qed

lemma ip_send_nolen_ok:
  assumes "be16 (uip_buf s) (UIP_LLH_LEN E + off_len) = uip_len s"
    and "BUF8 E s off_proto = UIP_PROTO_TCP \<Longrightarrow> UIP_IPTCPH_LEN \<le> uip_len s \<Longrightarrow> uip_tcpchksum (UIP_LLH_LEN E) (uip_buf s) = 0xffff"
  shows "packet_ok E (ip_send_nolen E s)"
proof -
  have k: "uip_buf (ip_send_nolen E s) a = uip_buf s a" if "UIP_LLH_LEN E + 12 \<le> a" for a
  proof -
    have "12 \<le> a - UIP_LLH_LEN E" using that by linarith
    then show ?thesis using ip_send_nolen_keeps [of "a - UIP_LLH_LEN E" E s] that by simp
  qed
  have l: "BUF8 E (ip_send_nolen E s) 2 = BUF8 E s 2" "BUF8 E (ip_send_nolen E s) 3 = BUF8 E s 3"
    "BUF8 E (ip_send_nolen E s) off_proto = BUF8 E s off_proto" by (simp_all add: ip_send_nolen_keeps)
  have "be16 (uip_buf (ip_send_nolen E s)) (UIP_LLH_LEN E + off_len) = be16 (uip_buf s) (UIP_LLH_LEN E + off_len)"
    using l by (simp add: be16_def eval_nat_numeral)
  moreover have "uip_tcpchksum (UIP_LLH_LEN E) (uip_buf (ip_send_nolen E s)) = uip_tcpchksum (UIP_LLH_LEN E) (uip_buf s)"
    unfolding uip_tcpchksum_def using k l by (intro upper_layer_cong) simp_all
  ultimately show ?thesis using assms l ip_send_nolen_header [of E s] by (simp add: packet_ok_def)
qed

lemma set_ip_len_simps [simp]:
  "uip_len (set_ip_len E s) = uip_len s" "uip_conns (set_ip_len E s) = uip_conns s"
  "app_state (set_ip_len E s) = app_state s" "uip_hostaddr (set_ip_len E s) = uip_hostaddr s"
  "uip_listenports (set_ip_len E s) = uip_listenports s" "uip_conn (set_ip_len E s) = uip_conn s"
  "iss (set_ip_len E s) = iss s" "uip_udp_conns (set_ip_len E s) = uip_udp_conns s"
  "uip_udp_conn (set_ip_len E s) = uip_udp_conn s" "uip_slen (set_ip_len E s) = uip_slen s"
  "ipid (set_ip_len E s) = ipid s" "lastport (set_ip_len E s) = lastport s" "uip_flags (set_ip_len E s) = uip_flags s"
  by (simp_all add: set_ip_len_def Let_def)

lemma set_ip_len_buf:
  "BUF8 E (set_ip_len E s) k = (if k = 2 then ucast (drop_bit 8 (uip_len s)) else if k = 3 then ucast (uip_len s AND 0xff) else BUF8 E s k)"
  by (simp add: set_ip_len_def Let_def)

lemma be16_bytes:
  assumes "m p = ucast (drop_bit 8 w)" and "m (p + 1) = ucast (w AND 0xff)"
  shows "be16 m p = w"
  using bytes_of_u16 [of w] unat_be16 [of m p] assms by (simp add: word_unat_eq_iff)

definition tcp_filled :: "'a uip_env \<Rightarrow> 'a uip_state \<Rightarrow> 'a uip_state" where
  "tcp_filled E s = set16 E off_tcpchksum 0 (set16 E off_urgp 0 (set_ip_len E (set8 E off_ttl UIP_TTL (set8 E off_proto UIP_PROTO_TCP s))))"

lemma tcp_send_noconn_alt:
  "tcp_send_noconn E s = ip_send_nolen E (set16 E off_tcpchksum (NOT (uip_tcpchksum (UIP_LLH_LEN E) (uip_buf (tcp_filled E s)))) (tcp_filled E s))"
  by (simp add: tcp_send_noconn_def tcp_filled_def Let_def comp_assoc)

lemma tcp_filled_simps [simp]:
  "uip_len (tcp_filled E s) = uip_len s" "uip_conns (tcp_filled E s) = uip_conns s"
  "app_state (tcp_filled E s) = app_state s" "uip_hostaddr (tcp_filled E s) = uip_hostaddr s"
  "uip_listenports (tcp_filled E s) = uip_listenports s" "uip_conn (tcp_filled E s) = uip_conn s"
  "iss (tcp_filled E s) = iss s" "uip_slen (tcp_filled E s) = uip_slen s" "lastport (tcp_filled E s) = lastport s"
  by (simp_all add: tcp_filled_def)

lemma tcp_filled_buf:
  "BUF8 E (tcp_filled E s) k =
     (if k \<in> {36, 37, 38, 39} then 0 else if k = 2 then ucast (drop_bit 8 (uip_len s)) else if k = 3 then ucast (uip_len s AND 0xff)
      else if k = 8 then UIP_TTL else if k = 9 then UIP_PROTO_TCP else BUF8 E s k)"
  by (simp add: tcp_filled_def set_ip_len_def Let_def put16_def)

lemma tcp_send_noconn_simps [simp]:
  "uip_len (tcp_send_noconn E s) = uip_len s" "uip_conns (tcp_send_noconn E s) = uip_conns s"
  "uip_flags (tcp_send_noconn E s) = 0" "app_state (tcp_send_noconn E s) = app_state s"
  "uip_hostaddr (tcp_send_noconn E s) = uip_hostaddr s" "uip_listenports (tcp_send_noconn E s) = uip_listenports s"
  "uip_conn (tcp_send_noconn E s) = uip_conn s" "uip_slen (tcp_send_noconn E s) = uip_slen s"
  "iss (tcp_send_noconn E s) = iss s" "lastport (tcp_send_noconn E s) = lastport s"
  by (simp_all add: tcp_send_noconn_alt)

lemma tcp_send_noconn_ok: "packet_ok E (tcp_send_noconn E s)"
proof -
  define L where "L = UIP_LLH_LEN E"
  define m where "m = uip_buf (tcp_filled E s)"
  define m' where "m' = put16 (L + 36) (NOT (uip_tcpchksum L m)) m"
  have m: "m (L + k) = BUF8 E (tcp_filled E s) k" for k by (simp add: m_def L_def)
  have be: "be16 m (L + 2) = uip_len s"
    using m [of 2] m [of 3] by (intro be16_bytes) (simp_all add: tcp_filled_buf add.commute)
  have len: "be16 m' (L + 2) = be16 m (L + 2)" by (simp add: m'_def be16_def put16_other)
  have ck: "uip_tcpchksum L m' = 0xffff" if "UIP_IPTCPH_LEN \<le> uip_len s"
  proof -
    have u: "40 \<le> unat (uip_len s)" using that by (simp add: word_le_nat_alt)
    have "unat (uip_len s) - 20 + unat UIP_PROTO_TCP < 65536" using u16_bound [of "uip_len s"] by simp
    moreover have "m (L + 36 + 1) = 0" using m [of 37] by (simp add: tcp_filled_buf ac_simps)
    ultimately show ?thesis
      unfolding m'_def uip_tcpchksum_def using u m [of 36]
      by (intro upper_layer_inserted) (simp_all add: be tcp_filled_buf)
  qed
  show ?thesis
    unfolding tcp_send_noconn_alt L_def [symmetric] m_def [symmetric]
    by (rule ip_send_nolen_ok) (use be len ck in \<open>simp_all add: m'_def L_def m_def\<close>)
qed

lemma tcp_send_simps [simp]:
  "uip_conns (tcp_send E i s) = uip_conns s" "uip_flags (tcp_send E i s) = 0" "app_state (tcp_send E i s) = app_state s"
  "uip_hostaddr (tcp_send E i s) = uip_hostaddr s" "uip_listenports (tcp_send E i s) = uip_listenports s"
  "uip_conn (tcp_send E i s) = uip_conn s" "uip_len (tcp_send E i s) = uip_len s" "iss (tcp_send E i s) = iss s"
  "uip_slen (tcp_send E i s) = uip_slen s" "lastport (tcp_send E i s) = lastport s"
  by (simp_all add: tcp_send_def Let_def)

lemma tcp_send_ok: "packet_ok E (tcp_send E i s)"
  by (simp add: tcp_send_def Let_def tcp_send_noconn_ok)

lemmas tcp_sends = tcp_send_noopts_def tcp_send_nodata_def tcp_send_ack_def tcp_send_finack_def tcp_send_syn_def
  tcp_send_synack_def

definition sent_or_dropped :: "'a uip_env \<Rightarrow> 'a uip_state \<Rightarrow> bool" where
  "sent_or_dropped E t \<longleftrightarrow> uip_flags t = 0 \<and> (uip_len t = 0 \<or> packet_ok E t)"

lemma sent_or_dropped_sends [simp]:
  "sent_or_dropped E (drop_packet s)" "sent_or_dropped E (tcp_send E i s)" "sent_or_dropped E (tcp_send_noconn E s)"
  "sent_or_dropped E (tcp_send_noopts E i s)" "sent_or_dropped E (tcp_send_nodata E i s)" "sent_or_dropped E (tcp_send_ack E i s)"
  "sent_or_dropped E (tcp_send_finack E i s)" "sent_or_dropped E (tcp_send_syn E i s)" "sent_or_dropped E (tcp_send_synack E i s)"
  by (simp_all add: sent_or_dropped_def drop_packet_def tcp_send_ok tcp_send_noconn_ok tcp_sends Let_def)

lemma sent_or_dropped_app [simp]:
  "sent_or_dropped E (apprexmit E i s)" "sent_or_dropped E (appsend E i s)" "sent_or_dropped E (reset E s)"
  "sent_or_dropped E (in_syn_rcvd E i s)" "sent_or_dropped E (in_established E i s)" "sent_or_dropped E (in_last_ack E i s)"
  "sent_or_dropped E (in_fin_wait_1 E i s)" "sent_or_dropped E (in_fin_wait_2 E i s)" "sent_or_dropped E (in_closing i s)"
  "sent_or_dropped E (established_fin E i s)" "sent_or_dropped E (retransmit E i s)" "sent_or_dropped E (poll_request E i s)"
  "sent_or_dropped E (periodic E i s)"
proof -
  show 1: "sent_or_dropped E (apprexmit E i s)" for s by (simp add: apprexmit_def Let_def)
  then show 2: "sent_or_dropped E (appsend E i s)" for s by (simp add: appsend_def Let_def)
  show "sent_or_dropped E (reset E s)" by (simp add: reset_def Let_def)
  show 3: "sent_or_dropped E (established_fin E i s)" for s by (simp add: established_fin_def Let_def)
  show "sent_or_dropped E (in_syn_rcvd E i s)" by (simp add: in_syn_rcvd_def Let_def 2)
  show "sent_or_dropped E (in_established E i s)" by (simp add: in_established_def Let_def 2 3)
  show "sent_or_dropped E (in_last_ack E i s)" by (simp add: in_last_ack_def Let_def)
  show "sent_or_dropped E (in_fin_wait_1 E i s)" by (simp add: in_fin_wait_1_def Let_def)
  show "sent_or_dropped E (in_fin_wait_2 E i s)" by (simp add: in_fin_wait_2_def Let_def)
  show "sent_or_dropped E (in_closing i s)" by (simp add: in_closing_def)
  show 4: "sent_or_dropped E (retransmit E i s)" for s by (simp add: retransmit_def Let_def 1)
  show "sent_or_dropped E (poll_request E i s)" by (simp add: poll_request_def 2)
  show "sent_or_dropped E (periodic E i s)" by (simp add: periodic_def Let_def 2 4)
qed

lemma udp_sum_keeps:
  "uip_len (udp_sum E s) = uip_len s" "uip_conns (udp_sum E s) = uip_conns s"
  "k < 26 \<or> 28 \<le> k \<Longrightarrow> BUF8 E (udp_sum E s) k = BUF8 E s k"
  by (auto simp: udp_sum_def Let_def put16_other)

lemma udp_fill_fields:
  "uip_len (udp_fill E s) = uip_slen s + UIP_IPUDPH_LEN" "uip_conns (udp_fill E s) = uip_conns s"
  "be16 (uip_buf (udp_fill E s)) (UIP_LLH_LEN E + off_len) = uip_slen s + UIP_IPUDPH_LEN"
  "BUF8 E (udp_fill E s) off_proto = UIP_PROTO_UDP"
  by (simp_all add: udp_fill_def Let_def put16_other put4_other)
    (rule be16_bytes; simp add: put16_other put4_other set_ip_len_buf)

lemma udp_send_ok [simp]: "sent_or_dropped E (udp_send E s)"
proof -
  let ?x = "udp_sum E (udp_fill E s)"
  have "be16 (uip_buf ?x) (UIP_LLH_LEN E + off_len) = be16 (uip_buf (udp_fill E s)) (UIP_LLH_LEN E + off_len)"
    using udp_sum_keeps(3) [of 2 E "udp_fill E s"] udp_sum_keeps(3) [of 3 E "udp_fill E s"] by (simp add: be16_def)
  moreover have "BUF8 E ?x off_proto = UIP_PROTO_UDP" by (simp add: udp_sum_keeps udp_fill_fields)
  ultimately have "packet_ok E (ip_send_nolen E ?x)"
    by (intro ip_send_nolen_ok) (simp_all add: udp_sum_keeps udp_fill_fields)
  then show ?thesis by (simp add: udp_send_def sent_or_dropped_def drop_packet_def)
qed

lemma port_unreachable_ok [simp]: "sent_or_dropped E (port_unreachable E s)"
proof -
  have "packet_ok E (port_unreachable E s)"
    unfolding port_unreachable_def Let_def
    by (rule ip_send_nolen_ok) (simp_all add: be16_def word_unat_eq_iff)
  moreover have "uip_flags (port_unreachable E s) = 0" by (simp add: port_unreachable_def Let_def)
  ultimately show ?thesis by (simp add: sent_or_dropped_def)
qed

lemma udp_ok [simp]: "sent_or_dropped E (udp_found E s)" "sent_or_dropped E (udp_input E s)" "sent_or_dropped E (udp_timer E s)"
  by (simp_all add: udp_found_def udp_input_def udp_timer_def Let_def split: option.splits)

lemma icmp_input_ok:
  assumes "BUF8 E s off_proto = UIP_PROTO_ICMP" and "be16 (uip_buf s) (UIP_LLH_LEN E + off_len) = uip_len s"
  shows "sent_or_dropped E (icmp_input E s)"
proof (cases "BUF8 E s off_icmptype = ICMP_ECHO")
  case True
  then obtain x where "icmp_input E s = ip_send_nolen E x" "uip_len x = uip_len s"
    "BUF8 E x off_proto = BUF8 E s off_proto" "be16 (uip_buf x) (UIP_LLH_LEN E + off_len) = be16 (uip_buf s) (UIP_LLH_LEN E + off_len)"
    unfolding icmp_input_def Let_def by (auto simp: put16_other put4_other be16_def)
  then show ?thesis
    using assms ip_send_nolen_ok [of x E] by (simp add: sent_or_dropped_def)
next
  case False
  then show ?thesis by (simp add: icmp_input_def)
qed

lemma in_state_ok: "in_state E i s = Some t \<Longrightarrow> sent_or_dropped E t"
  by (auto simp: in_state_def in_syn_sent_def Let_def split: if_splits option.splits)

lemma tcp_input_ok: "tcp_input E s = Some t \<Longrightarrow> sent_or_dropped E t"
  by (auto simp: tcp_input_def found_conn_def found_listen_def Let_def split: if_splits option.splits dest: in_state_ok)

text \<open>C9: Whatever packet comes in, and whatever the application does when it is called, a packet that
  \<open>uip_process\<close> leaves to be sent is an unfragmented IP packet of version 4 whose length field is the
  length of the packet and whose header checksum is right; if it is a TCP segment with a full header,
  its checksum over pseudo header and data is right as well, so that another node running this code
  never drops it for its checksums.\<close>

theorem sent_packets_valid:
  assumes "uip_process E flag s = Some t" and "uip_len t \<noteq> 0"
  shows "packet_ok E t"
proof -
  have "sent_or_dropped E t"
  proof (cases "ip_input E (s\<lparr>uip_sappdata := UIP_LLH_LEN E + UIP_IPTCPH_LEN, uip_appdata := UIP_LLH_LEN E + UIP_IPTCPH_LEN\<rparr>) = Some t")
    case True
    then show ?thesis
      by (auto simp: ip_input_def Let_def split: if_splits dest!: tcp_input_ok intro!: icmp_input_ok)
  next
    case False
    then show ?thesis
      using assms(1) by (auto simp: uip_process_def Let_def split: if_splits)
  qed
  then show ?thesis using assms(2) by (simp add: sent_or_dropped_def)
qed

section \<open>An example\<close>

text \<open>A connection from port 4096 to port 80 of 10.0.0.2, whose SYN is not answered yet.\<close>

definition example_conn :: uip_conn_t where
  "example_conn = \<lparr>ripaddr = (10, 0, 0, 2), lport = 0x10, rport = 0x5000, rcv_nxt = (0, 0, 0, 0), snd_nxt = (0, 0, 1, 0),
     conn_len = 1, mss = 88, initialmss = 88, sa = 0, sv = 16, rto = 3, tcpstateflags = UIP_SYN_SENT, conn_timer = 1, nrtx = 0\<rparr>"

definition example_env :: "'a uip_env" where
  "example_env = \<lparr>UIP_LLH_LEN = 0, UIP_BUFSIZE = 128, UIP_TCP_MSS = 88, UIP_RECEIVE_WINDOW = 88, UIP_UDP_CHECKSUMS = True,
     UIP_BROADCAST = False, UIP_PINGADDRCONF = False, UIP_CONF_ICMP_DEST_UNREACH = True,
     UIP_APPCALL = (\<lambda>s. s), UIP_UDP_APPCALL = (\<lambda>s. s)\<rparr>"

definition example_state :: "'a \<Rightarrow> uip_conn_t \<Rightarrow> 'a uip_state" where
  "example_state a c = \<lparr>uip_hostaddr = (10, 0, 0, 1), uip_buf = (\<lambda>_. 0), uip_appdata = 40, uip_sappdata = 40, uip_len = 0, uip_slen = 0,
     uip_flags = 0, uip_conn = Some 0, uip_conns = [c], uip_listenports = [0x5000, 0], uip_udp_conn = 0,
     uip_udp_conns = [], ipid = 0, iss = (0, 0, 1, 0), lastport = 4096, app_state = a\<rparr>"

theorem sent_packets_valid_witness:
  "\<exists>t. uip_process example_env UIP_POLL_REQUEST (example_state () example_conn) = Some t \<and> uip_len t = 44 \<and> packet_ok example_env t"
proof -
  let ?s = "(example_state () example_conn)\<lparr>uip_sappdata := 40, uip_appdata := 40\<rparr>"
  have p: "uip_process example_env UIP_POLL_REQUEST (example_state () example_conn) = Some (poll_request example_env 0 ?s)"
    by (simp add: uip_process_def example_state_def example_env_def Let_def)
  have "tcpstate ?s 0 = 2" by (simp add: example_state_def example_conn_def)
  then have l: "uip_len (poll_request example_env 0 ?s) = 44" by (simp add: poll_request_def tcp_sends Let_def)
  from sent_packets_valid [OF p] l show ?thesis using p by auto
qed

end
