(* ===== verification/Uip6502.thy ===== *)
theory Uip6502
  imports UipArch UipPacket
begin

text \<open>
  The TCP/IP stack with the checksum routines of \<open>cpu/6502/net/uip_arch.c\<close>: the input of UDP packets,
  where the routine for UDP is called with a data pointer for which it is not written. The theorem says
  which of the packets that the portable code accepts are accepted.
\<close>

section \<open>UDP on the 6502\<close>

text \<open>The label \<open>udp_input\<close> of \<open>uip_process\<close> in the build for the 6502, where \<open>uip_udpchksum\<close> is that of
  \<open>uip_arch.c\<close>. That routine is the one for TCP: it sums 20 bytes behind the IP header and then the bytes
  at \<open>uip_appdata\<close>, 40 fewer than the packet has. Here the pointer is behind the 28 bytes of the UDP
  header, so the first 12 bytes of the data are summed twice and the last 12 not at all.\<close>

definition udp_input_6502 :: "'a uip_env \<Rightarrow> 'a uip_state \<Rightarrow> 'a uip_state" where
  "udp_input_6502 E s =
     (let s = s\<lparr>uip_len := uip_len s - UIP_IPUDPH_LEN\<rparr>;
          s = (if UIP_UDP_CHECKSUMS E then s\<lparr>uip_appdata := UIP_LLH_LEN E + UIP_IPUDPH_LEN\<rparr> else s)
      in if UIP_UDP_CHECKSUMS E \<and> BUF16 E s off_udpchksum \<noteq> 0 \<and>
            uip_udpchksum_6502 (UIP_LLH_LEN E) (uip_buf s) (uip_appdata s) \<noteq> 0xffff then drop_packet s
         else if BUF16 E s off_destport = 0 then drop_packet s
         else
           case find_conn (udp_demux E s) (uip_udp_conns s) 0 of
             Some i \<Rightarrow> udp_found E (s\<lparr>uip_udp_conn := i\<rparr>)
           | None \<Rightarrow>
               let s = s\<lparr>uip_udp_conn := length (uip_udp_conns s)\<rparr>
               in if UIP_CONF_ICMP_DEST_UNREACH E then port_unreachable E s else drop_packet s)"

text \<open>A UDP packet with a right checksum that is addressed to the node and passes the checks of the IP
  header.\<close>

definition udp_arrives :: "'a uip_env \<Rightarrow> 'a uip_state \<Rightarrow> bool" where
  "udp_arrives E s \<longleftrightarrow>
     BUF8 E s off_vhl = 0x45 \<and> be16 (uip_buf s) (UIP_LLH_LEN E + off_len) \<le> uip_len s \<and>
     BUF16 E s off_ipoffset = 0 \<and> BUF8 E s off_proto = UIP_PROTO_UDP \<and>
     uip_hostaddr s \<noteq> uip_all_zeroes_addr \<and> BUF4 E s off_destipaddr = uip_hostaddr s \<and>
     uip_ipchksum (UIP_LLH_LEN E) (uip_buf s) = 0xffff \<and>
     BUF16 E s off_udpchksum \<noteq> 0 \<and> uip_udpchksum (UIP_LLH_LEN E) (uip_buf s) = 0xffff"

lemma word_sum_append: "word_sum big m p (n + k) = word_sum big m p n + word_sum (big = even n) m (p + n) k"
  by (induction k) (auto simp: word_sum_Suc add.assoc)

lemma segment_sum_pos: "proto \<noteq> 0 \<Longrightarrow> 0 < segment_sum big llh m proto"
  by (cases big) (simp_all add: segment_sum_def Let_def unat_gt_0)

lemma full_u16: "w = 0xffff \<longleftrightarrow> unat w = 65535" for w :: u16
  by (simp add: word_unat_eq_iff)

lemma udp_sum_right:
  assumes "20 \<le> ip_length llh m"
  shows "uip_udpchksum llh m = 0xffff \<longleftrightarrow> segment_sum False llh m UIP_PROTO_UDP mod 65535 = 0"
proof -
  let ?T = "segment_sum True llh m UIP_PROTO_UDP" and ?F = "segment_sum False llh m UIP_PROTO_UDP"
  have l: "ip_length llh m < 65536" using unat_ip_length [of m llh] u16_bound by metis
  have pos: "0 < ?T" using segment_sum_pos [of UIP_PROTO_UDP] by simp
  have h: "uip_htons 0xffff = 0xffff" by (simp add: uip_htons_def)
  have "uip_udpchksum llh m = 0xffff \<longleftrightarrow> uip_htons (uip_udpchksum llh m) = 0xffff" by (metis h htons_htons)
  also have "\<dots> \<longleftrightarrow> fold16 ?T = 65535"
    using upper_layer_val [of llh m UIP_PROTO_UDP] assms l pos by (simp add: full_u16 uip_udpchksum_def)
  also have "\<dots> \<longleftrightarrow> ?T mod 65535 = 0" using pos by (simp add: fold16_full)
  also have "\<dots> \<longleftrightarrow> ?F mod 65535 = 0"
  proof -
    have 1: "?T mod 65535 = 256 * ?F mod 65535" by (rule segment_sum_swap)
    then have "256 * ?T mod 65535 = 256 * (256 * ?F) mod 65535" by (metis mod_mult_right_eq)
    then have "256 * ?T mod 65535 = ?F mod 65535" by (simp only: byte_shift_twice)
    with 1 show ?thesis by (metis mod_mult_right_eq mod_0 mult_0_right)
  qed
  finally show ?thesis .
qed

text \<open>What the routine sums, with the last 12 bytes added, is the right sum with the first 12 bytes of the
  data added.\<close>

lemma udp_sum_6502:
  assumes "40 \<le> ip_length llh m"
  obtains x where "unat (uip_udpchksum_6502 llh m (llh + 28)) = fold16 x" and "0 < x"
    and "x + word_sum (odd (ip_length llh m)) m (llh + ip_length llh m - 12) 12 =
      segment_sum False llh m UIP_PROTO_UDP + word_sum False m (llh + 28) 12"
proof -
  define k where "k = ip_length llh m - 40"
  have n: "ip_length llh m = k + 40" using assms by (simp add: k_def)
  define c where "c = word_sum False m (llh + 12) 8 + (256 * 17 + ((20 + k) div 256 + 256 * ((20 + k) mod 256)))"
  let ?x = "word_sum False m (llh + 20) 20 + word_sum False m (llh + 28) k + c"
  have seventeen: "unat UIP_PROTO_UDP = 17" by simp
  have s: "segment_sum False llh m UIP_PROTO_UDP = word_sum False m (llh + 20) (20 + k) + c"
    unfolding segment_sum_def Let_def n c_def seventeen by (simp add: add.commute)
  have "word_sum False m (llh + 28) k + word_sum (odd k) m (llh + 28 + k) 12 = word_sum False m (llh + 28) (k + 12)"
    by (simp add: word_sum_append)
  also have "\<dots> = word_sum False m (llh + 28) 12 + word_sum False m (llh + 40) k"
    using word_sum_append [of False m "llh + 28" 12 k] by (simp add: add.commute)
  finally have e: "word_sum False m (llh + 28) k + word_sum (odd k) m (llh + 28 + k) 12 =
    word_sum False m (llh + 28) 12 + word_sum False m (llh + 40) k" .
  have "word_sum False m (llh + 20) (20 + k) = word_sum False m (llh + 20) 20 + word_sum False m (llh + 40) k"
    using word_sum_append [of False m "llh + 20" 20 k] by (simp add: add.assoc)
  then have "?x + word_sum (odd (ip_length llh m)) m (llh + ip_length llh m - 12) 12 =
      segment_sum False llh m UIP_PROTO_UDP + word_sum False m (llh + 28) 12"
    using e unfolding s n by (simp add: ac_simps)
  moreover have "unat (uip_udpchksum_6502 llh m (llh + 28)) = fold16 ?x"
    using transport_val [OF assms, of "llh + 28" UIP_PROTO_UDP] unfolding seventeen by (simp add: uip_udpchksum_6502_def n c_def add.assoc)
  moreover have "0 < ?x" by (simp add: c_def)
  ultimately show thesis by (intro that)
qed

lemma word_sum_swap_eq:
  "word_sum a m p n mod 65535 = word_sum b m' q k mod 65535 \<longleftrightarrow>
   word_sum (\<not> a) m p n mod 65535 = word_sum (\<not> b) m' q k mod 65535"
proof -
  have sw: "word_sum a m p n mod 65535 = word_sum b m' q k mod 65535"
    if "word_sum (\<not> a) m p n mod 65535 = word_sum (\<not> b) m' q k mod 65535" for a b
  proof -
    have "word_sum a m p n mod 65535 = 256 * (word_sum (\<not> a) m p n mod 65535) mod 65535"
      by (simp only: mod_mult_right_eq word_sum_swap)
    also have "\<dots> = word_sum b m' q k mod 65535" unfolding that by (simp only: mod_mult_right_eq word_sum_swap)
    finally show ?thesis .
  qed
  show ?thesis using sw [of a b] sw [of "\<not> a" "\<not> b"] by auto
qed

lemma mod_add_eq_zero_iff: "(x + y) mod 65535 = y mod 65535 \<longleftrightarrow> x mod 65535 = (0 :: nat)"
  by (metis add.commute add_0_right dvd_eq_mod_eq_0 mod_eq_dvd_iff_nat le_add1 diff_add_inverse)

lemma udp_6502_accepts:
  assumes "40 \<le> ip_length llh m" and "uip_udpchksum llh m = 0xffff"
  shows "uip_udpchksum_6502 llh m (llh + 28) = 0xffff \<longleftrightarrow>
    word_sum True m (llh + 28) 12 mod 65535 = word_sum (even (ip_length llh m)) m (llh + ip_length llh m - 12) 12 mod 65535"
proof -
  let ?first = "word_sum False m (llh + 28) 12" and ?last = "word_sum (odd (ip_length llh m)) m (llh + ip_length llh m - 12) 12"
  obtain x where x: "unat (uip_udpchksum_6502 llh m (llh + 28)) = fold16 x" "0 < x"
    "x + ?last = segment_sum False llh m UIP_PROTO_UDP + ?first" by (rule udp_sum_6502 [OF assms(1)])
  have z: "segment_sum False llh m UIP_PROTO_UDP mod 65535 = 0" using udp_sum_right [of llh m] assms by simp
  have "(x + ?last) mod 65535 = ?first mod 65535" unfolding x(3) using z by (metis add_0 mod_add_left_eq)
  then have "x mod 65535 = 0 \<longleftrightarrow> ?first mod 65535 = ?last mod 65535"
    using mod_add_eq_zero_iff [of x ?last] by metis
  moreover have "uip_udpchksum_6502 llh m (llh + 28) = 0xffff \<longleftrightarrow> x mod 65535 = 0"
    using x(1,2) by (simp add: full_u16 fold16_full)
  ultimately show ?thesis using word_sum_swap_eq [of True m "llh + 28" 12 "even (ip_length llh m)" m "llh + ip_length llh m - 12" 12] by simp
qed

text \<open>C27: With the 6502 version of the UDP checksum the stack drops packets whose checksum is right. Take any
  UDP packet of at least 40 bytes with a right checksum that \<open>uip_process\<close> hands to \<open>udp_input\<close>. The
  6502 build treats it as the portable code does if the 16-bit words of the first 12 bytes of its data
  and of its last 12 bytes have the same sum modulo 65535, since the routine counts the former twice and
  the latter not at all; otherwise it drops the packet.\<close>

theorem udp_checksum_6502_rejects_valid:
  assumes "udp_arrives E s" and "UIP_UDP_CHECKSUMS E" and "40 \<le> ip_length (UIP_LLH_LEN E) (uip_buf s)"
  shows "\<exists>p. uip_process E UIP_DATA s = Some (udp_input E p) \<and> uip_buf p = uip_buf s \<and>
    udp_input_6502 E p =
      (if word_sum True (uip_buf s) (UIP_LLH_LEN E + 28) 12 mod 65535 =
          word_sum (even (ip_length (UIP_LLH_LEN E) (uip_buf s))) (uip_buf s)
            (UIP_LLH_LEN E + ip_length (UIP_LLH_LEN E) (uip_buf s) - 12) 12 mod 65535
       then udp_input E p
       else drop_packet (p\<lparr>uip_len := uip_len p - UIP_IPUDPH_LEN, uip_appdata := UIP_LLH_LEN E + UIP_IPUDPH_LEN\<rparr>))"
proof -
  define p where "p = s\<lparr>uip_sappdata := UIP_LLH_LEN E + UIP_IPTCPH_LEN, uip_appdata := UIP_LLH_LEN E + UIP_IPTCPH_LEN,
    uip_len := be16 (uip_buf s) (UIP_LLH_LEN E + off_len)\<rparr>"
  have buf: "uip_buf p = uip_buf s" by (simp add: p_def)
  note a = assms(1) [unfolded udp_arrives_def]
  have z: "BUF8 E s off_ipoffset = 0" "uip_buf s (UIP_LLH_LEN E + 7) = 0"
    using a rd16_zero [of "uip_buf s" "UIP_LLH_LEN E + off_ipoffset"] by simp_all
  have "uip_process E UIP_DATA s = Some (udp_input E p)"
    using a z unfolding uip_process_def Let_def ip_input_def by (simp add: p_def)
  moreover have "uip_udpchksum_6502 (UIP_LLH_LEN E) (uip_buf s) (UIP_LLH_LEN E + 28) = 0xffff \<longleftrightarrow>
      word_sum True (uip_buf s) (UIP_LLH_LEN E + 28) 12 mod 65535 =
          word_sum (even (ip_length (UIP_LLH_LEN E) (uip_buf s))) (uip_buf s)
            (UIP_LLH_LEN E + ip_length (UIP_LLH_LEN E) (uip_buf s) - 12) 12 mod 65535"
    using assms(3) a by (intro udp_6502_accepts) simp_all
  then have "udp_input_6502 E p =
      (if word_sum True (uip_buf s) (UIP_LLH_LEN E + 28) 12 mod 65535 =
          word_sum (even (ip_length (UIP_LLH_LEN E) (uip_buf s))) (uip_buf s)
            (UIP_LLH_LEN E + ip_length (UIP_LLH_LEN E) (uip_buf s) - 12) 12 mod 65535
       then udp_input E p
       else drop_packet (p\<lparr>uip_len := uip_len p - UIP_IPUDPH_LEN, uip_appdata := UIP_LLH_LEN E + UIP_IPUDPH_LEN\<rparr>))"
    using assms(2) a by (simp add: udp_input_6502_def udp_input_def Let_def buf)
  ultimately show ?thesis using buf by blast
qed

text \<open>A packet from 10.0.0.2, port 1024, to port 53 of 10.0.0.1, with 14 bytes of data. The portable code hands
  it to the process of the port, which notes the length; the 6502 build drops it.\<close>

definition udp_packet_bytes :: "u8 list" where
  "udp_packet_bytes = [0x45, 0, 0, 0x2a, 0, 0, 0, 0, 0x40, 0x11, 0x66, 0xc1, 10, 0, 0, 2, 10, 0, 0, 1,
     0x04, 0, 0, 0x35, 0, 0x16, 0xe6, 0x8a, 1, 0, 0, 0, 0, 0, 0, 0, 0, 0, 0, 0, 0, 0]"

definition udp_example_env :: "nat uip_env" where
  "udp_example_env = example_env\<lparr>UIP_UDP_APPCALL := (\<lambda>s. s\<lparr>app_state := unat (uip_len s)\<rparr>)\<rparr>"

definition udp_example_state :: "nat uip_state" where
  "udp_example_state = (example_state 0 example_conn)\<lparr>uip_buf := (\<lambda>a. if a < 42 then udp_packet_bytes ! a else 0), uip_len := 42,
     uip_udp_conns := [\<lparr>udp_ripaddr = (0, 0, 0, 0), udp_lport = uip_htons 53, udp_rport = 0, udp_ttl = 64\<rparr>]\<rparr>"

lemma udp_example_arrives: "udp_arrives udp_example_env udp_example_state"
  by code_simp

lemma udp_example_sums:
  "ip_length (UIP_LLH_LEN udp_example_env) (uip_buf udp_example_state) = 42"
  "word_sum True (uip_buf udp_example_state) 28 12 = 256" "word_sum True (uip_buf udp_example_state) 30 12 = 0"
  by code_simp+

lemma udp_example_delivered: "map_option app_state (uip_process udp_example_env UIP_DATA udp_example_state) = Some 14"
  by code_simp

theorem udp_checksum_6502_rejects_valid_witness:
  "\<exists>p. uip_process udp_example_env UIP_DATA udp_example_state = Some (udp_input udp_example_env p) \<and>
     app_state (udp_input udp_example_env p) = 14 \<and>
     udp_input_6502 udp_example_env p = drop_packet (p\<lparr>uip_len := uip_len p - UIP_IPUDPH_LEN, uip_appdata := 28\<rparr>)"
proof -
  have e: "UIP_UDP_CHECKSUMS udp_example_env" "UIP_LLH_LEN udp_example_env = 0" by (simp_all add: udp_example_env_def example_env_def)
  have l: "40 \<le> ip_length (UIP_LLH_LEN udp_example_env) (uip_buf udp_example_state)" by (simp only: udp_example_sums)
  have l0: "ip_length 0 (uip_buf udp_example_state) = 42" using udp_example_sums(1) by (simp only: e(2))
  have w: "word_sum True (uip_buf udp_example_state) 28 12 mod 65535 \<noteq> word_sum True (uip_buf udp_example_state) 30 12 mod 65535"
    unfolding udp_example_sums by simp
  obtain p where "uip_process udp_example_env UIP_DATA udp_example_state = Some (udp_input udp_example_env p)"
    "udp_input_6502 udp_example_env p = drop_packet (p\<lparr>uip_len := uip_len p - UIP_IPUDPH_LEN, uip_appdata := 28\<rparr>)"
    using udp_checksum_6502_rejects_valid [OF udp_example_arrives e(1) l] w by (auto simp: e(2) l0)
  then show ?thesis using udp_example_delivered by auto
qed

end
