(* ===== verification/UipTcp.thy ===== *)
theory UipTcp
  imports UipPacket
begin

text \<open>
  The connections of the TCP/IP stack: which state changes one call of \<open>uip_process\<close> can make. The application is called in the middle of the
  processing; the locale \<open>uip_application\<close> states what the stack needs of it.
\<close>

section \<open>The contract of the application\<close>

text \<open>The application may stop and restart a connection; it leaves the rest of it alone.\<close>

definition conn_kept :: "uip_conn_t \<Rightarrow> uip_conn_t \<Rightarrow> bool" where
  "conn_kept c c' \<longleftrightarrow> c' = c\<lparr>tcpstateflags := tcpstateflags c'\<rparr> \<and>
     tcpstateflags c' AND UIP_TS_MASK = tcpstateflags c AND UIP_TS_MASK"

definition conns_kept :: "'a uip_state \<Rightarrow> 'a uip_state \<Rightarrow> bool" where
  "conns_kept s t \<longleftrightarrow> list_all2 conn_kept (uip_conns s) (uip_conns t)"

locale uip_application =
  fixes E :: "'a uip_env"
  assumes app_keeps: "conns_kept s (UIP_APPCALL E s)"
    and app_conn: "uip_conn (UIP_APPCALL E s) = uip_conn s"
    and udp_app_keeps: "conns_kept s (UIP_UDP_APPCALL E s)"

section \<open>The states of the connections\<close>

definition states :: "'a uip_state \<Rightarrow> u8 list" where
  "states s = map (\<lambda>c. tcpstateflags c AND UIP_TS_MASK) (uip_conns s)"

lemma length_states [simp]: "length (states s) = length (uip_conns s)"
  by (simp add: states_def)

lemma states_kept: "conns_kept s t \<Longrightarrow> states t = states s"
  unfolding conns_kept_def states_def by (induction rule: list_all2_induct) (auto simp: conn_kept_def)

lemma states_eq: "uip_conns t = uip_conns s \<Longrightarrow> states t = states s"
  by (simp add: states_def)

lemma states_upd: "states (upd_conn i f s) = (states s)[i := tcpstateflags (f (conn s i)) AND UIP_TS_MASK]"
  by (simp add: states_def upd_conn_def map_update)

lemma states_upd_same:
  "tcpstateflags (f (conn s i)) = tcpstateflags (conn s i) \<Longrightarrow> states (upd_conn i f s) = states s"
proof -
  assume a: "tcpstateflags (f (conn s i)) = tcpstateflags (conn s i)"
  have "(states s)[i := tcpstateflags (conn s i) AND UIP_TS_MASK] = states s"
  proof (cases "i < length (uip_conns s)")
    case True
    then have "tcpstateflags (conn s i) AND UIP_TS_MASK = states s ! i" by (simp add: states_def)
    then show ?thesis by simp
  qed (simp add: list_update_beyond)
  then show ?thesis by (simp only: states_upd a)
qed

lemma conns_upd [simp]: "length (uip_conns (upd_conn i f s)) = length (uip_conns s)"
  by (simp add: upd_conn_def)

lemma upd_conn_simps [simp]:
  "uip_len (upd_conn i f s) = uip_len s" "uip_flags (upd_conn i f s) = uip_flags s" "uip_buf (upd_conn i f s) = uip_buf s"
  "uip_slen (upd_conn i f s) = uip_slen s" "uip_conn (upd_conn i f s) = uip_conn s" "app_state (upd_conn i f s) = app_state s"
  "uip_hostaddr (upd_conn i f s) = uip_hostaddr s" "uip_appdata (upd_conn i f s) = uip_appdata s"
  "uip_sappdata (upd_conn i f s) = uip_sappdata s" "iss (upd_conn i f s) = iss s"
  "uip_listenports (upd_conn i f s) = uip_listenports s" "lastport (upd_conn i f s) = lastport s"
  by (simp_all add: upd_conn_def)

text \<open>The operations that leave the connections as they are.\<close>

lemma same_conns [simp]:
  "uip_conns (drop_packet s) = uip_conns s" "uip_conns (tcp_send_noopts E i s) = uip_conns s"
  "uip_conns (tcp_send_nodata E i s) = uip_conns s" "uip_conns (tcp_send_ack E i s) = uip_conns s"
  "uip_conns (tcp_send_finack E i s) = uip_conns s" "uip_conns (tcp_send_syn E i s) = uip_conns s"
  "uip_conns (tcp_send_synack E i s) = uip_conns s" "uip_conns (apprexmit E i s) = uip_conns s"
  "uip_conns (reset E s) = uip_conns s" "uip_conns (skip_urgent E s) = uip_conns s" "uip_conns (icmp_input E s) = uip_conns s"
  "uip_conns (udp_send E s) = uip_conns s" "uip_conns (port_unreachable E s) = uip_conns s"
  by (simp_all add: drop_packet_def tcp_sends apprexmit_def reset_def skip_urgent_def icmp_input_def udp_send_def
      udp_sum_keeps udp_fill_fields port_unreachable_def unreachable_payload_def Let_def)

lemma same_states [simp]:
  "states (drop_packet s) = states s" "states (tcp_send_noopts E i s) = states s"
  "states (tcp_send_nodata E i s) = states s" "states (tcp_send_ack E i s) = states s"
  "states (tcp_send_finack E i s) = states s" "states (tcp_send_syn E i s) = states s"
  "states (tcp_send_synack E i s) = states s" "states (apprexmit E i s) = states s"
  "states (reset E s) = states s" "states (skip_urgent E s) = states s" "states (icmp_input E s) = states s"
  "states (udp_send E s) = states s" "states (port_unreachable E s) = states s"
  by (simp_all add: states_def)

lemma states_fields [simp]:
  "states (s\<lparr>uip_flags := a\<rparr>) = states s" "states (s\<lparr>uip_slen := b\<rparr>) = states s" "states (s\<lparr>uip_len := b\<rparr>) = states s"
  "states (s\<lparr>uip_conn := e\<rparr>) = states s" "states (s\<lparr>uip_appdata := d\<rparr>) = states s" "states (s\<lparr>uip_sappdata := d\<rparr>) = states s"
  "states (s\<lparr>iss := g\<rparr>) = states s" "states (s\<lparr>uip_udp_conn := d\<rparr>) = states s" "states (uip_buf_update h s) = states s"
  by (simp_all add: states_def)

lemma states_add_rcv [simp]: "states (uip_add_rcv_nxt i n s) = states s"
  by (simp add: uip_add_rcv_nxt_def states_upd_same)

lemma states_bookkeeping [simp]:
  "states (upd_conn i (conn_len_update f) s) = states s" "states (upd_conn i (nrtx_update g) s) = states s"
  "states (upd_conn i (mss_update f) s) = states s" "states (upd_conn i rtt_estimate s) = states s"
  "states (process_ack E i s) = states s" "states (update_mss E i s) = states s" "states (app_data_out i s) = states s"
  "states (established_data E i s) = states s"
  by (simp_all add: established_data_def process_ack_def update_mss_def app_data_out_def Let_def states_upd_same rtt_estimate_def)

lemma find_unused_cand:
  "find_unused xs k cand = Some i \<Longrightarrow>
     (k \<le> i \<and> i < k + length xs \<and> tcpstateflags (xs ! (i - k)) \<in> {UIP_CLOSED, UIP_TIME_WAIT}) \<or> map_option fst cand = Some i"
proof (induction xs k cand rule: find_unused.induct)
  case (2 x xs c cand)
  show ?case
  proof (cases "tcpstateflags x = UIP_CLOSED")
    case True
    with "2.prems" show ?thesis by auto
  next
    case F: False
    show ?thesis
    proof (cases "tcpstateflags x = UIP_TIME_WAIT \<and> (case cand of None \<Rightarrow> True | Some (_, t) \<Rightarrow> conn_timer x > t)")
      case True
      then have "find_unused xs (c + 1) (Some (c, conn_timer x)) = Some i" using "2.prems" F by simp
      from "2.IH"(1) [OF F True this] True show ?thesis
        by (auto simp: nth_Cons' Suc_diff_le split: if_splits)
    next
      case False
      then have "find_unused xs (c + 1) cand = Some i" using "2.prems" F by auto
      from "2.IH"(2) [OF F False this] show ?thesis by (auto simp: nth_Cons' Suc_diff_le)
    qed
  qed
qed simp

lemma find_unused_result: "find_unused xs 0 None = Some i \<Longrightarrow> i < length xs \<and> tcpstateflags (xs ! i) \<in> {UIP_CLOSED, UIP_TIME_WAIT}"
  using find_unused_cand [of xs 0 None i] by simp

lemma find_conn_result: "find_conn P xs k = Some i \<Longrightarrow> k \<le> i \<and> i < k + length xs \<and> P (xs ! (i - k))"
proof (induction xs arbitrary: k)
  case (Cons x xs)
  then show ?case by (cases "P x") (fastforce simp: nth_Cons' dest: Cons.IH)+
qed simp

lemma find_conn_0: "find_conn P xs 0 = Some i \<Longrightarrow> i < length xs \<and> P (xs ! i)"
  using find_conn_result [of P xs 0 i] by simp

text \<open>The loops with the 8-bit counter end in the tables of up to 255 entries.\<close>

lemma first_from_ends:
  assumes "length xs \<le> 255" and "unat c \<le> length xs"
  shows "first_from hit xs c = Some (find_conn hit (drop (unat c) xs) (unat c))"
  using assms(2)
proof (induction "length xs - unat c" arbitrary: c rule: less_induct)
  case less
  show ?case
  proof (cases "unat c < length xs")
    case True
    then have u: "unat (c + 1) = unat c + 1" using assms(1) by (simp add: unat_word_ariths)
    then have "first_from hit xs (c + 1) = Some (find_conn hit (drop (unat (c + 1)) xs) (unat (c + 1)))"
      using True by (intro less.hyps) simp_all
    moreover have "drop (unat c) xs = xs ! unat c # drop (unat c + 1) xs" using True by (simp add: Cons_nth_drop_Suc)
    ultimately show ?thesis using True u by (subst first_from.simps) simp
  qed (use less.prems in \<open>subst first_from.simps, simp\<close>)
qed

lemma first_from_find: "length xs \<le> 255 \<Longrightarrow> first_from hit xs 0 = Some (find_conn hit xs 0)"
  using first_from_ends [of xs 0 hit] by simp

lemma unused_from_ends:
  assumes "length xs \<le> 255" and "unat c \<le> length xs"
  shows "unused_from xs c cand = Some (find_unused (drop (unat c) xs) (unat c) (map_option (\<lambda>k. (k, conn_timer (xs ! k))) cand))"
  using assms(2)
proof (induction "length xs - unat c" arbitrary: c cand rule: less_induct)
  case less
  show ?case
  proof (cases "unat c < length xs")
    case True
    then have u: "unat (c + 1) = unat c + 1" using assms(1) by (simp add: unat_word_ariths)
    then have "unused_from xs (c + 1) cand' = Some (find_unused (drop (unat (c + 1)) xs) (unat (c + 1))
        (map_option (\<lambda>k. (k, conn_timer (xs ! k))) cand'))" for cand'
      using True by (intro less.hyps) simp_all
    moreover have "drop (unat c) xs = xs ! unat c # drop (unat c + 1) xs" using True by (simp add: Cons_nth_drop_Suc)
    ultimately show ?thesis using True u by (subst unused_from.simps) (cases cand; simp)
  qed (use less.prems in \<open>subst unused_from.simps, simp add: comp_def option.map_comp option.map_ident\<close>)
qed

lemma unused_from_find: "length xs \<le> 255 \<Longrightarrow> unused_from xs 0 None = Some (find_unused xs 0 None)"
  using unused_from_ends [of xs 0 None] by simp

lemma first_from_turns:
  assumes "255 < length xs"
  shows "first_from hit xs c \<noteq> Some None"
proof -
  have "255 < length xs \<longrightarrow> y \<noteq> None" if "first_from hit xs c = Some y" for y c
    using that
  proof (rule first_from.raw_induct [where P = "\<lambda>hit xs c y. 255 < length xs \<longrightarrow> y \<noteq> None", rotated])
    fix ff :: "('a \<Rightarrow> bool) \<Rightarrow> 'a list \<Rightarrow> u8 \<Rightarrow> nat option option" and hit xs and c :: u8 and y
    assume IH: "\<And>hit xs c y. ff hit xs c = Some y \<Longrightarrow> 255 < length xs \<longrightarrow> y \<noteq> None"
      and y: "(if unat c < length xs then if hit (xs ! unat c) then Some (Some (unat c)) else ff hit xs (c + 1) else Some None) = Some y"
    have "unat c < length xs" if "255 < length xs" using that u8_bound [of c] by linarith
    then show "255 < length xs \<longrightarrow> y \<noteq> None" using y IH by (auto split: if_split_asm)
  qed
  with assms show ?thesis by blast
qed

section \<open>The state machine\<close>

inductive tcp_move :: "u8 \<Rightarrow> u8 \<Rightarrow> bool" where
  stay: "tcp_move q q"
| close: "tcp_move q UIP_CLOSED"
| passive_open: "tcp_move UIP_CLOSED UIP_SYN_RCVD"
| reuse: "tcp_move UIP_TIME_WAIT UIP_SYN_RCVD"
| accepted: "tcp_move UIP_SYN_RCVD UIP_ESTABLISHED"
| accepted_and_closed: "tcp_move UIP_SYN_RCVD UIP_FIN_WAIT_1"
| opened: "tcp_move UIP_SYN_SENT UIP_ESTABLISHED"
| opened_and_closed: "tcp_move UIP_SYN_SENT UIP_FIN_WAIT_1"
| active_close: "tcp_move UIP_ESTABLISHED UIP_FIN_WAIT_1"
| passive_close: "tcp_move UIP_ESTABLISHED UIP_LAST_ACK"
| fin_acked: "tcp_move UIP_FIN_WAIT_1 UIP_FIN_WAIT_2"
| simultaneous_close: "tcp_move UIP_FIN_WAIT_1 UIP_CLOSING"
| fin_and_ack: "tcp_move UIP_FIN_WAIT_1 UIP_TIME_WAIT"
| fin: "tcp_move UIP_FIN_WAIT_2 UIP_TIME_WAIT"
| closing_acked: "tcp_move UIP_CLOSING UIP_TIME_WAIT"

lemmas tcp_moves [intro] = tcp_move.intros

inductive_simps tcp_move_iff: "tcp_move q r"

code_pred tcp_move .

definition moves :: "'a uip_state \<Rightarrow> 'a uip_state \<Rightarrow> bool" where
  "moves s t \<longleftrightarrow> length (uip_conns t) = length (uip_conns s) \<and>
     (\<forall>i < length (uip_conns s). tcp_move (states s ! i) (states t ! i))"

lemma moves_same: "states t = states s \<Longrightarrow> moves s t"
  unfolding moves_def by (metis length_states stay)

lemma moves_among:
  assumes "states t = states s \<or> (\<exists>q \<in> Q. states t = (states s)[i := q])"
    and "\<And>q. q \<in> Q \<Longrightarrow> i < length (uip_conns s) \<Longrightarrow> tcp_move (states s ! i) q"
  shows "moves s t"
  using assms unfolding moves_def
  by (metis length_list_update length_states nth_list_update_eq nth_list_update_neq stay)

context uip_application begin

lemma states_app [simp]: "states (UIP_APPCALL E s) = states s" "states (UIP_UDP_APPCALL E s) = states s"
  using states_kept [OF app_keeps] states_kept [OF udp_app_keeps] by simp_all

lemma states_appsend: "states (appsend E i s) =
  (if uip_flags s AND UIP_ABORT \<noteq> 0 then (states s)[i := UIP_CLOSED]
   else if uip_flags s AND UIP_CLOSE \<noteq> 0 then (states s)[i := UIP_FIN_WAIT_1] else states s)"
  by (simp add: appsend_def Let_def) (simp add: states_upd)

lemma states_appsend_cases:
  "states (appsend E i s) = states s \<or> states (appsend E i s) = (states s)[i := UIP_CLOSED] \<or>
   states (appsend E i s) = (states s)[i := UIP_FIN_WAIT_1]"
  by (simp add: states_appsend)

lemma states_handlers:
  "states (established_fin E i s) \<in> {states s, (states s)[i := UIP_LAST_ACK]}"
  "states (in_syn_rcvd E i s) \<in> insert (states s) ((\<lambda>q. (states s)[i := q]) ` {UIP_ESTABLISHED, UIP_CLOSED, UIP_FIN_WAIT_1})"
  "in_syn_sent E i s = Some t \<Longrightarrow> uip_conn s = Some i \<Longrightarrow>
     states t \<in> insert (states s) ((\<lambda>q. (states s)[i := q]) ` {UIP_ESTABLISHED, UIP_CLOSED, UIP_FIN_WAIT_1})"
  "states (in_established E i s) \<in> insert (states s) ((\<lambda>q. (states s)[i := q]) ` {UIP_CLOSED, UIP_FIN_WAIT_1, UIP_LAST_ACK})"
  "states (in_last_ack E i s) \<in> {states s, (states s)[i := UIP_CLOSED]}"
  "states (in_fin_wait_1 E i s) \<in> insert (states s) ((\<lambda>q. (states s)[i := q]) ` {UIP_FIN_WAIT_2, UIP_CLOSING, UIP_TIME_WAIT})"
  "states (in_fin_wait_2 E i s) \<in> {states s, (states s)[i := UIP_TIME_WAIT]}"
  "states (in_closing i s) \<in> {states s, (states s)[i := UIP_TIME_WAIT]}"
  "states (retransmit E i s) = states s"
proof -
  have opt: "states u = states v" if "parse_options E i v = Some u" for u v
    using that by (auto simp: parse_options_def Let_def states_upd_same split: if_splits option.splits)
  have send: "states (appsend E i (UIP_APPCALL E s)) \<in> {states s, (states s)[i := UIP_CLOSED], (states s)[i := UIP_FIN_WAIT_1]}" for s
    using states_appsend_cases [of i "UIP_APPCALL E s"] by simp
  show f: "states (established_fin E i s) \<in> {states s, (states s)[i := UIP_LAST_ACK]}" for s
    by (simp add: established_fin_def Let_def) (simp add: states_upd)
  have est: "states x = (states s)[i := UIP_ESTABLISHED] \<Longrightarrow> states (appsend E i (UIP_APPCALL E x)) \<in>
      insert (states s) ((\<lambda>q. (states s)[i := q]) ` {UIP_ESTABLISHED, UIP_CLOSED, UIP_FIN_WAIT_1})" for s x
    using send [of x] by auto
  show "states (in_syn_rcvd E i s) \<in> insert (states s) ((\<lambda>q. (states s)[i := q]) ` {UIP_ESTABLISHED, UIP_CLOSED, UIP_FIN_WAIT_1})"
    by (cases "uip_flags s AND UIP_ACKDATA = 0") (simp add: in_syn_rcvd_def, simp only: in_syn_rcvd_def if_True if_False not_False_eq_True Let_def, rule est, simp, simp add: states_upd)
  show "states t \<in> insert (states s) ((\<lambda>q. (states s)[i := q]) ` {UIP_ESTABLISHED, UIP_CLOSED, UIP_FIN_WAIT_1})"
    if h: "in_syn_sent E i s = Some t" "uip_conn s = Some i"
  proof (cases "uip_flags s AND UIP_ACKDATA \<noteq> 0 \<and> BUF8 E s off_flags AND TCP_CTL = TCP_SYN OR TCP_ACK")
    case True
    then obtain u where u: "parse_options E i s = Some u" "t = appsend E i (UIP_APPCALL E (open_conn E i u))"
      using h(1) by (auto simp: in_syn_sent_def split: option.splits)
    have "states (open_conn E i u) = (states s)[i := UIP_ESTABLISHED]"
      using opt [OF u(1)] by (simp add: open_conn_def Let_def) (simp add: states_upd)
    from est [OF this] u(2) show ?thesis by simp
  next
    case False
    then show ?thesis using that app_conn by (auto simp: in_syn_sent_def Let_def states_upd split: option.splits if_splits)
  qed
  show "states (in_established E i s) \<in> insert (states s) ((\<lambda>q. (states s)[i := q]) ` {UIP_CLOSED, UIP_FIN_WAIT_1, UIP_LAST_ACK})"
    using f [of s] send [of "established_data E i s\<lparr>uip_slen := 0\<rparr>"] by (auto simp: in_established_def Let_def)
  show "states (in_last_ack E i s) \<in> {states s, (states s)[i := UIP_CLOSED]}"
    by (simp add: in_last_ack_def Let_def states_upd)
  show "states (in_fin_wait_1 E i s) \<in> insert (states s) ((\<lambda>q. (states s)[i := q]) ` {UIP_FIN_WAIT_2, UIP_CLOSING, UIP_TIME_WAIT})"
    by (simp add: in_fin_wait_1_def Let_def states_upd)
  show "states (in_fin_wait_2 E i s) \<in> {states s, (states s)[i := UIP_TIME_WAIT]}"
    by (simp add: in_fin_wait_2_def Let_def states_upd)
  show "states (in_closing i s) \<in> {states s, (states s)[i := UIP_TIME_WAIT]}"
    by (simp add: in_closing_def states_upd)
  show "states (retransmit E i s) = states s"
    by (simp add: retransmit_def Let_def states_upd_same)
qed

lemma moves_in_state:
  assumes "in_state E i s = Some t" and "uip_conn s = Some i"
  shows "moves s t"
proof -
  have st: "i < length (uip_conns s) \<Longrightarrow> tcpstate s i = states s ! i" by (simp add: states_def)
  note h = states_handlers [of i s]
  consider (1) "tcpstate s i = UIP_SYN_RCVD" "t = in_syn_rcvd E i s"
    | (2) "tcpstate s i = UIP_SYN_SENT" "in_syn_sent E i s = Some t"
    | (3) "tcpstate s i = UIP_ESTABLISHED" "t = in_established E i s"
    | (4) "t = in_last_ack E i s"
    | (5) "tcpstate s i = UIP_FIN_WAIT_1" "t = in_fin_wait_1 E i s"
    | (6) "tcpstate s i = UIP_FIN_WAIT_2" "t = in_fin_wait_2 E i s"
    | (7) "tcpstate s i = UIP_CLOSING" "t = in_closing i s"
    | (8) "states t = states s"
    using assms by (auto simp: in_state_def split: if_splits)
  then show ?thesis
  proof cases
    case 1
    then show ?thesis using st h(2) by (intro moves_among [where Q = "{UIP_ESTABLISHED, UIP_CLOSED, UIP_FIN_WAIT_1}" and i = i]) auto
  next
    case 2
    then show ?thesis
      using st h(3) assms(2) by (intro moves_among [where Q = "{UIP_ESTABLISHED, UIP_CLOSED, UIP_FIN_WAIT_1}" and i = i]) auto
  next
    case 3
    then show ?thesis using st h(4) by (intro moves_among [where Q = "{UIP_CLOSED, UIP_FIN_WAIT_1, UIP_LAST_ACK}" and i = i]) auto
  next
    case 4
    then show ?thesis using h(5) by (intro moves_among [where Q = "{UIP_CLOSED}" and i = i]) auto
  next
    case 5
    then show ?thesis using st h(6) by (intro moves_among [where Q = "{UIP_FIN_WAIT_2, UIP_CLOSING, UIP_TIME_WAIT}" and i = i]) auto
  next
    case 6
    then show ?thesis using st h(7) by (intro moves_among [where Q = "{UIP_TIME_WAIT}" and i = i]) auto
  next
    case 7
    then show ?thesis using st h(8) by (intro moves_among [where Q = "{UIP_TIME_WAIT}" and i = i]) auto
  next
    case 8
    then show ?thesis by (rule moves_same)
  qed
qed

lemma moves_eq: "states s' = states s \<Longrightarrow> moves s' t \<Longrightarrow> moves s t"
  unfolding moves_def by (metis length_states)

lemma moves_found_conn: "found_conn E i s = Some t \<Longrightarrow> moves s t"
proof -
  assume a: "found_conn E i s = Some t"
  define s1 where "s1 = s\<lparr>uip_conn := Some i, uip_flags := 0\<rparr>"
  define s2 where "s2 = s1\<lparr>uip_len := uip_len s1 - ucast (push_bit 2 (drop_bit 4 (BUF8 E s1 off_tcpoffset))) - UIP_IPH_LEN\<rparr>"
  have e: "states s1 = states s" "states s2 = states s" by (simp_all add: s1_def s2_def)
  consider (1) "BUF8 E s1 off_flags AND TCP_RST \<noteq> 0" | (2) "BUF8 E s1 off_flags AND TCP_RST = 0" "out_of_sequence E i s2"
    | (3) "BUF8 E s1 off_flags AND TCP_RST = 0" "\<not> out_of_sequence E i s2" by blast
  then show ?thesis
  proof cases
    case 1
    then have "states t = (states s)[i := UIP_CLOSED]"
      using a by (simp add: found_conn_def s1_def) (auto simp: states_upd)
    then show ?thesis by (intro moves_among [where Q = "{UIP_CLOSED}" and i = i]) auto
  next
    case 2
    then have "t = tcp_send_ack E i s2" using a by (simp add: found_conn_def s1_def s2_def Let_def)
    then show ?thesis using e by (intro moves_same) simp
  next
    case 3
    then have "in_state E i (process_ack E i s2) = Some t" using a by (simp add: found_conn_def s1_def s2_def Let_def)
    moreover have "uip_conn (process_ack E i s2) = Some i" by (simp add: process_ack_def s2_def s1_def Let_def)
    ultimately have "moves (process_ack E i s2) t" by (rule moves_in_state)
    then show ?thesis by (rule moves_eq [rotated]) (simp add: e)
  qed
qed

lemma moves_found_listen: "found_listen E s = Some t \<Longrightarrow> moves s t"
proof (cases "find_unused (uip_conns s) 0 None")
  case (Some i)
  assume a: "found_listen E s = Some t"
  have opt: "states u = states v" if "parse_options E i v = Some u" for u v
    using that by (auto simp: parse_options_def Let_def states_upd_same split: if_splits option.splits)
  have "states t = (states s)[i := UIP_SYN_RCVD]"
    using a Some by (auto simp: found_listen_def Let_def split: option.splits dest!: opt) (simp add: states_upd)
  moreover have "i < length (uip_conns s)" "states s ! i \<in> {UIP_CLOSED, UIP_TIME_WAIT}"
    using find_unused_result [OF Some] by (auto simp: states_def)
  ultimately show ?thesis by (intro moves_among [where Q = "{UIP_SYN_RCVD}" and i = i]) auto
qed (auto simp: found_listen_def intro: moves_same)

lemma moves_periodic: "moves s (periodic E i s)"
proof -
  define s1 where "s1 = s\<lparr>iss := inc4 (iss s), uip_len := 0, uip_slen := 0\<rparr>"
  have e: "states s1 = states s" by (simp add: s1_def)
  have st: "i < length (uip_conns s) \<Longrightarrow> states s ! i = tcpstateflags (conn s i) AND UIP_TS_MASK" by (simp add: states_def)
  have send: "tcpstate s i = UIP_ESTABLISHED \<Longrightarrow> moves s (appsend E i (UIP_APPCALL E (s1\<lparr>uip_flags := UIP_POLL\<rparr>)))"
    using states_appsend_cases [of i "UIP_APPCALL E (s1\<lparr>uip_flags := UIP_POLL\<rparr>)"] st e
    by (intro moves_among [where Q = "{UIP_CLOSED, UIP_FIN_WAIT_1}" and i = i]) auto
  have "states (periodic E i s) \<in> {states s, (states s)[i := UIP_CLOSED]} \<or> moves s (periodic E i s)"
    using send unfolding periodic_def s1_def
    by (simp add: Let_def states_handlers(9) states_upd_same) (simp add: states_upd)
  moreover have "moves s (periodic E i s)" if "states (periodic E i s) \<in> {states s, (states s)[i := UIP_CLOSED]}"
    using that by (intro moves_among [where Q = "{UIP_CLOSED}" and i = i]) auto
  ultimately show ?thesis by blast
qed

lemma moves_poll: "moves s (poll_request E i s)"
proof -
  have st: "i < length (uip_conns s) \<Longrightarrow> states s ! i = tcpstateflags (conn s i) AND UIP_TS_MASK" by (simp add: states_def)
  have "states (poll_request E i s) = states s \<or> tcpstate s i = UIP_ESTABLISHED \<and>
     (\<exists>q \<in> {UIP_CLOSED, UIP_FIN_WAIT_1}. states (poll_request E i s) = (states s)[i := q])"
    using states_appsend_cases [of i "UIP_APPCALL E (s\<lparr>uip_flags := UIP_POLL\<rparr>)"]
    by (auto simp: poll_request_def)
  then show ?thesis using st
    by (intro moves_among [where Q = "if tcpstate s i = UIP_ESTABLISHED then {UIP_CLOSED, UIP_FIN_WAIT_1} else {}" and i = i])
      (auto split: if_splits)
qed

lemma states_udp: "states (udp_input E s) = states s" "states (udp_timer E s) = states s"
  by (simp_all add: udp_input_def udp_found_def udp_timer_def Let_def split: option.splits)

lemma moves_process: "uip_process E flag s = Some t \<Longrightarrow> moves s t"
proof -
  assume a: "uip_process E flag s = Some t"
  have tcp: "tcp_input E u = Some v \<Longrightarrow> moves u v" for u v
    by (auto simp: tcp_input_def split: if_splits option.splits dest: moves_found_conn moves_found_listen intro: moves_same)
  have ip: "ip_input E u = Some v \<Longrightarrow> moves u v" for u v
    by (auto simp: ip_input_def Let_def states_udp split: if_splits dest!: tcp intro: moves_same moves_eq [rotated])
  show ?thesis
    using a by (auto simp: uip_process_def Let_def states_udp split: if_splits dest!: ip
        intro: moves_same moves_periodic moves_poll moves_eq [rotated])
qed

end

end
