(* ===== verification/UipInv.thy ===== *)
theory UipInv
  imports UipTcp
begin

text \<open>
  The invariant of the connections of the TCP/IP stack: what may be in flight, and when the
  retransmission timer of a connection runs. It is kept by every call of \<open>uip_process\<close>, whatever
  packet is in the buffer and whatever the application does within its contract.
\<close>

section \<open>Data in flight\<close>

text \<open>A connection that waits for its SYN or FIN to be acknowledged has something outstanding, so that the
  retransmission timer runs; no more is outstanding than a segment, and the counter of retransmissions
  does not exceed \<open>UIP_MAXRTX\<close>.\<close>

definition conn_sized :: "'a uip_env \<Rightarrow> uip_conn_t \<Rightarrow> bool" where
  "conn_sized E c \<longleftrightarrow> mss c \<le> UIP_TCP_MSS E \<and> initialmss c \<le> UIP_TCP_MSS E \<and> conn_len c \<le> max 1 (UIP_TCP_MSS E) \<and>
     nrtx c \<le> UIP_MAXRTX"

definition unacked_states :: "u8 set" where
  "unacked_states = {UIP_SYN_RCVD, UIP_SYN_SENT, UIP_FIN_WAIT_1, UIP_CLOSING, UIP_LAST_ACK}"

definition conn_inv :: "'a uip_env \<Rightarrow> uip_conn_t \<Rightarrow> bool" where
  "conn_inv E c \<longleftrightarrow> conn_sized E c \<and> (tcpstateflags c AND UIP_TS_MASK \<in> unacked_states \<longrightarrow> uip_outstanding c)"

definition others :: "'a uip_env \<Rightarrow> nat \<Rightarrow> 'a uip_state \<Rightarrow> bool" where
  "others E i s \<longleftrightarrow> (\<forall>j < length (uip_conns s). j \<noteq> i \<longrightarrow> conn_inv E (conn s j))"

definition uip_inv :: "'a uip_env \<Rightarrow> 'a uip_state \<Rightarrow> bool" where
  "uip_inv E s \<longleftrightarrow> (\<forall>j < length (uip_conns s). conn_inv E (conn s j))"

lemma conn_inv_sized: "conn_inv E c \<Longrightarrow> conn_sized E c"
  by (simp add: conn_inv_def)

lemma conn_inv_closed: "conn_sized E c \<Longrightarrow> conn_inv E (c\<lparr>tcpstateflags := UIP_CLOSED\<rparr>)"
  by (simp add: conn_inv_def conn_sized_def unacked_states_def)

lemma conn_upd_same: "i < length (uip_conns s) \<Longrightarrow> conn (upd_conn i f s) i = f (conn s i)"
  by (simp add: upd_conn_def)

lemma conn_upd_other [simp]: "j \<noteq> i \<Longrightarrow> conn (upd_conn i f s) j = conn s j"
  by (simp add: upd_conn_def)

lemma others_cong: "uip_conns t = uip_conns s \<Longrightarrow> others E i t = others E i s" "uip_conns t = uip_conns s \<Longrightarrow> uip_inv E t = uip_inv E s"
  by (simp_all add: others_def uip_inv_def)

lemma others_upd [simp]: "others E i (upd_conn i f s) = others E i s"
  by (auto simp: others_def)

lemma uip_inv_iff: "uip_inv E s \<longleftrightarrow> others E i s \<and> (i < length (uip_conns s) \<longrightarrow> conn_inv E (conn s i))"
  by (auto simp: uip_inv_def others_def)

lemma uip_inv_upd: "others E i s \<Longrightarrow> (i < length (uip_conns s) \<Longrightarrow> conn_inv E (f (conn s i))) \<Longrightarrow> uip_inv E (upd_conn i f s)"
  by (simp add: uip_inv_iff [where i = i] conn_upd_same)

lemma inv_others: "uip_inv E s \<Longrightarrow> others E i s"
  by (simp add: uip_inv_iff [where i = i])

lemma inv_conn: "uip_inv E s \<Longrightarrow> i < length (uip_conns s) \<Longrightarrow> conn_inv E (conn s i)"
  by (simp add: uip_inv_def)

lemma states_tcpstate:
  assumes "states t = states s" and "i < length (uip_conns s)"
  shows "i < length (uip_conns t)" and "tcpstate t i = tcpstate s i"
proof -
  have "length (uip_conns t) = length (uip_conns s)" using assms(1) by (metis length_states)
  moreover have "states t ! i = states s ! i" using assms(1) by simp
  ultimately show "i < length (uip_conns t)" "tcpstate t i = tcpstate s i" using assms(2) by (simp_all add: states_def)
qed

lemma upd_conn_slen: "upd_conn i f (s\<lparr>uip_slen := v\<rparr>) = (upd_conn i f s)\<lparr>uip_slen := v\<rparr>"
  by (simp add: upd_conn_def)

lemma inv_fields [simp]:
  "uip_inv E (s\<lparr>uip_flags := a\<rparr>) = uip_inv E s" "uip_inv E (s\<lparr>uip_slen := b\<rparr>) = uip_inv E s" "uip_inv E (s\<lparr>uip_len := b\<rparr>) = uip_inv E s"
  "uip_inv E (s\<lparr>uip_conn := e\<rparr>) = uip_inv E s" "uip_inv E (s\<lparr>uip_appdata := d\<rparr>) = uip_inv E s" "uip_inv E (s\<lparr>uip_sappdata := d\<rparr>) = uip_inv E s"
  "uip_inv E (s\<lparr>iss := g\<rparr>) = uip_inv E s" "uip_inv E (s\<lparr>uip_udp_conn := d\<rparr>) = uip_inv E s" "uip_inv E (uip_buf_update h s) = uip_inv E s"
  "others E i (s\<lparr>uip_flags := a\<rparr>) = others E i s" "others E i (s\<lparr>uip_slen := b\<rparr>) = others E i s" "others E i (s\<lparr>uip_len := b\<rparr>) = others E i s"
  "others E i (s\<lparr>uip_conn := e\<rparr>) = others E i s" "others E i (s\<lparr>uip_appdata := d\<rparr>) = others E i s"
  "others E i (s\<lparr>uip_sappdata := d\<rparr>) = others E i s" "others E i (s\<lparr>iss := g\<rparr>) = others E i s"
  "others E i (uip_buf_update h s) = others E i s"
  by (simp_all add: uip_inv_def others_def)

lemma inv_same [simp]:
  "uip_inv E (drop_packet s) = uip_inv E s" "uip_inv E (tcp_send_noopts E' k s) = uip_inv E s"
  "uip_inv E (tcp_send_nodata E' k s) = uip_inv E s" "uip_inv E (tcp_send_ack E' k s) = uip_inv E s"
  "uip_inv E (tcp_send_finack E' k s) = uip_inv E s" "uip_inv E (tcp_send_syn E' k s) = uip_inv E s"
  "uip_inv E (tcp_send_synack E' k s) = uip_inv E s" "uip_inv E (apprexmit E' k s) = uip_inv E s"
  "uip_inv E (reset E' s) = uip_inv E s" "uip_inv E (skip_urgent E' s) = uip_inv E s" "uip_inv E (icmp_input E' s) = uip_inv E s"
  "uip_inv E (udp_send E' s) = uip_inv E s" "uip_inv E (port_unreachable E' s) = uip_inv E s"
  "others E i (skip_urgent E' s) = others E i s"
  by (simp_all add: uip_inv_def others_def)

lemma conn_kept_inv: "conn_kept c c' \<Longrightarrow> conn_inv E c' = conn_inv E c \<and> conn_sized E c' = conn_sized E c"
  unfolding conn_kept_def by (auto simp: conn_inv_def conn_sized_def)
    (metis uip_conn_t.select_convs uip_conn_t.surjective uip_conn_t.update_convs(12))+

lemma kept_inv: "conns_kept s t \<Longrightarrow> uip_inv E t = uip_inv E s \<and> others E i t = others E i s"
proof -
  assume "conns_kept s t"
  then have "length (uip_conns t) = length (uip_conns s)" "\<And>j. j < length (uip_conns s) \<Longrightarrow> conn_inv E (conn t j) = conn_inv E (conn s j)"
    using conn_kept_inv by (auto simp: conns_kept_def list_all2_conv_all_nth) blast+
  then show ?thesis by (simp add: uip_inv_def others_def)
qed

lemma parse_options_effect:
  assumes "parse_options E i s = Some u"
  shows "u = s \<or> (\<exists>v \<le> UIP_TCP_MSS E. u = upd_conn i (\<lambda>c. c\<lparr>initialmss := v, mss := v\<rparr>) s)"
proof (cases "u = s")
  case False
  define g where "g v = upd_conn i (\<lambda>c. c\<lparr>initialmss := v, mss := v\<rparr>) s" for v
  from False assms obtain v where "u = g v" "v \<le> UIP_TCP_MSS E"
    unfolding parse_options_def Let_def g_def [symmetric]
    by (auto split: if_split_asm option.split_asm simp: not_less)
  then show ?thesis unfolding g_def by blast
qed simp

context uip_application begin

lemma app_conns:
  "length (uip_conns (UIP_APPCALL E s)) = length (uip_conns s)"
  "i < length (uip_conns s) \<Longrightarrow> conn_kept (conn s i) (conn (UIP_APPCALL E s) i)"
  using app_keeps [of s] by (auto simp: conns_kept_def list_all2_conv_all_nth)

lemma inv_app [simp]: "uip_inv E (UIP_APPCALL E s) = uip_inv E s" "others E i (UIP_APPCALL E s) = others E i s"
  "uip_inv E (UIP_UDP_APPCALL E s) = uip_inv E s"
  using kept_inv [OF app_keeps] kept_inv [OF udp_app_keeps] by auto

lemma inv_close [simp]: "others E i s \<Longrightarrow> (i < length (uip_conns s) \<Longrightarrow> conn_sized E (conn s i)) \<Longrightarrow>
    uip_inv E (upd_conn i (tcpstateflags_update (\<lambda>_. UIP_CLOSED)) s)"
  by (intro uip_inv_upd) (simp_all add: conn_inv_def conn_sized_def unacked_states_def)

lemma inv_app_data_out:
  assumes "uip_inv E s" and i: "i < length (uip_conns s)" and "tcpstate s i = UIP_ESTABLISHED"
  shows "uip_inv E (app_data_out i s)"
proof -
  have sized: "conn_sized E (conn s i)" using assms(1) i by (simp add: inv_conn conn_inv_sized)
  have e: "conn_inv E (conn s i\<lparr>conn_len := n\<rparr>)" if "n \<le> UIP_TCP_MSS E" for n
    using sized assms(3) that by (auto simp: conn_inv_def conn_sized_def unacked_states_def le_max_iff_disj)
  have m: "mss (conn s i) \<le> UIP_TCP_MSS E" using sized by (simp add: conn_sized_def)
  have u: "uip_inv E (upd_conn i (conn_len_update (\<lambda>_. n)) s)" if "n \<le> UIP_TCP_MSS E" for n
    using inv_others [OF assms(1)] e [OF that] by (intro uip_inv_upd) simp_all
  have uu: "upd_conn i (conn_len_update (\<lambda>_. n)) (upd_conn i (conn_len_update (\<lambda>_. k)) s) = upd_conn i (conn_len_update (\<lambda>_. n)) s" for n k
    using i by (simp add: upd_conn_def)
  show ?thesis
    using assms(1) i m u [of "uip_slen s"] u [of "mss (conn s i)"] u [of 0]
    by (auto simp: app_data_out_def Let_def conn_upd_same uu upd_conn_slen)
qed

lemma inv_appsend:
  assumes "uip_inv E s" and i: "i < length (uip_conns s)" and "tcpstate s i = UIP_ESTABLISHED"
  shows "uip_inv E (appsend E i s)"
proof -
  have sized: "conn_sized E (conn s i)" using assms(1) i by (simp add: inv_conn conn_inv_sized)
  note o = inv_others [OF assms(1)]
  have "uip_inv E (upd_conn i (\<lambda>c. c\<lparr>conn_len := 1, tcpstateflags := UIP_FIN_WAIT_1, nrtx := 0\<rparr>) (s\<lparr>uip_slen := 0\<rparr>))"
    using sized o by (intro uip_inv_upd) (auto simp: conn_inv_def conn_sized_def le_max_iff_disj)
  moreover have "uip_inv E (upd_conn i (nrtx_update (\<lambda>_. 0)) (app_data_out i s))"
  proof -
    have "uip_inv E (app_data_out i s)" by (rule inv_app_data_out [OF assms])
    then show ?thesis
      using inv_conn [of E "app_data_out i s" i]
      by (intro uip_inv_upd) (auto simp: inv_others conn_inv_def conn_sized_def)
  qed
  moreover have "uip_inv E (upd_conn i (tcpstateflags_update (\<lambda>_. UIP_CLOSED)) (s\<lparr>uip_slen := 0\<rparr>))"
    using sized o by (intro inv_close) simp_all
  ultimately show ?thesis by (simp add: appsend_def Let_def)
qed

text \<open>A segment that was checked for an acknowledgement: only then may the connection have nothing
  outstanding although its state says so.\<close>

definition ready :: "nat \<Rightarrow> 'a uip_state \<Rightarrow> bool" where
  "ready i s \<longleftrightarrow> others E i s \<and> i < length (uip_conns s) \<and> conn_sized E (conn s i) \<and>
     (uip_flags s AND UIP_ACKDATA = 0 \<longrightarrow> conn_inv E (conn s i))"

lemma ready_inv: "ready i s \<Longrightarrow> uip_flags s AND UIP_ACKDATA = 0 \<Longrightarrow> uip_inv E s"
  by (simp add: ready_def uip_inv_iff [where i = i])

lemma ready_upd: "ready i s \<Longrightarrow> (\<And>c. conn_sized E c \<Longrightarrow> conn_inv E (f c)) \<Longrightarrow> uip_inv E (upd_conn i f s)"
  by (intro uip_inv_upd) (simp_all add: ready_def)

lemma ready_settled: "ready i s \<Longrightarrow> tcpstate s i \<notin> unacked_states \<Longrightarrow> uip_inv E s"
  by (simp add: ready_def uip_inv_iff [where i = i] conn_inv_def)

lemma conn_rcv [simp]:
  "length (uip_conns (uip_add_rcv_nxt i n s)) = length (uip_conns s)"
  "uip_flags (uip_add_rcv_nxt i n s) = uip_flags s" "uip_len (uip_add_rcv_nxt i n s) = uip_len s"
  "uip_buf (uip_add_rcv_nxt i n s) = uip_buf s" "uip_conn (uip_add_rcv_nxt i n s) = uip_conn s"
  "others E k (uip_add_rcv_nxt k n s) = others E k s"
  by (simp_all add: uip_add_rcv_nxt_def)

lemma conn_rcv_same:
  assumes "i < length (uip_conns s)"
  shows "conn_sized E (conn (uip_add_rcv_nxt i n s) i) = conn_sized E (conn s i)"
    "conn_inv E (conn (uip_add_rcv_nxt i n s) i) = conn_inv E (conn s i)"
    "tcpstateflags (conn (uip_add_rcv_nxt i n s) i) = tcpstateflags (conn s i)"
  using assms by (simp_all add: uip_add_rcv_nxt_def conn_upd_same conn_inv_def conn_sized_def)

lemma ready_rcv: "ready i s \<Longrightarrow> ready i (uip_add_rcv_nxt i n s)"
  by (auto simp: ready_def conn_rcv_same)

lemma inv_rcv: "uip_inv E s \<Longrightarrow> i < length (uip_conns s) \<Longrightarrow> uip_inv E (uip_add_rcv_nxt i n s)"
  by (simp add: uip_inv_iff [where i = i] conn_rcv_same)

lemma ready_fields [simp]:
  "ready i (s\<lparr>uip_slen := b\<rparr>) = ready i s" "ready i (s\<lparr>uip_len := b\<rparr>) = ready i s" "ready i (uip_buf_update h s) = ready i s"
  by (simp_all add: ready_def)

lemma inv_options: "parse_options E i s = Some u \<Longrightarrow> ready i s \<Longrightarrow> ready i u \<and> states u = states s"
  by (drule parse_options_effect) (auto simp: ready_def conn_upd_same conn_inv_def conn_sized_def states_upd_same)

lemma inv_parse_options:
  assumes "uip_inv E s" and "i < length (uip_conns s)" and "parse_options E i s = Some u"
  shows "uip_inv E u"
proof -
  have "u = s \<or> (\<exists>v \<le> UIP_TCP_MSS E. u = upd_conn i (\<lambda>c. c\<lparr>initialmss := v, mss := v\<rparr>) s)"
    using assms(3) by (rule parse_options_effect)
  then show ?thesis using assms(1,2) by (auto simp: uip_inv_iff [where i = i] conn_upd_same conn_inv_def conn_sized_def)
qed

lemma tcpstate_app: "i < length (uip_conns s) \<Longrightarrow> tcpstate (UIP_APPCALL E s) i = tcpstate s i"
  using app_conns(2) [of i s] by (simp add: conn_kept_def)

lemma inv_established_fin:
  assumes "ready i s" and "tcpstate s i = UIP_ESTABLISHED"
  shows "uip_inv E (established_fin E i s)"
proof -
  have inv: "uip_inv E s" using assms by (intro ready_settled) (auto simp: unacked_states_def)
  have i: "i < length (uip_conns s)" using assms(1) by (simp add: ready_def)
  have last: "uip_inv E (upd_conn i (\<lambda>c. c\<lparr>conn_len := 1, tcpstateflags := UIP_LAST_ACK, nrtx := 0\<rparr>) x)" if "uip_inv E x" for x
    using inv_conn [OF that, of i] inv_others [OF that]
    by (intro uip_inv_upd) (auto simp: conn_inv_def conn_sized_def le_max_iff_disj)
  show ?thesis
    using inv inv_rcv [OF inv i, of "1 + uip_len s"] by (simp add: established_fin_def Let_def last)
qed

lemma inv_in_syn_rcvd:
  assumes "ready i s"
  shows "uip_inv E (in_syn_rcvd E i s)"
proof (cases "uip_flags s AND UIP_ACKDATA = 0")
  case True
  then show ?thesis using ready_inv [OF assms] by (simp add: in_syn_rcvd_def)
next
  case False
  define a where "a = upd_conn i (conn_len_update (\<lambda>_. 0)) (upd_conn i (tcpstateflags_update (\<lambda>_. UIP_ESTABLISHED)) s\<lparr>uip_flags := UIP_CONNECTED\<rparr>)"
  define b where "b = (if uip_len a > 0 then uip_add_rcv_nxt i (uip_len a) (a\<lparr>uip_flags := uip_flags a OR UIP_NEWDATA\<rparr>) else a)\<lparr>uip_slen := 0\<rparr>"
  have i: "i < length (uip_conns s)" and o: "others E i s" and z: "conn_sized E (conn s i)" using assms by (simp_all add: ready_def)
  have "uip_inv E a" using i o z by (simp add: a_def uip_inv_iff [where i = i] conn_upd_same conn_inv_def conn_sized_def unacked_states_def)
  moreover have la: "i < length (uip_conns a)" "tcpstate a i = UIP_ESTABLISHED" using i by (simp_all add: a_def conn_upd_same)
  ultimately have "uip_inv E b" "i < length (uip_conns b)" "tcpstate b i = UIP_ESTABLISHED"
    by (simp_all add: b_def inv_rcv conn_rcv_same)
  then have "uip_inv E (appsend E i (UIP_APPCALL E b))"
    by (intro inv_appsend) (simp_all add: app_conns tcpstate_app)
  moreover have "in_syn_rcvd E i s = appsend E i (UIP_APPCALL E b)"
    using False by (simp add: in_syn_rcvd_def Let_def a_def b_def)
  ultimately show ?thesis by simp
qed

lemma inv_app_closed:
  assumes "ready i s"
  shows "uip_inv E (upd_conn i (tcpstateflags_update (\<lambda>_. UIP_CLOSED)) s)"
  using assms by (intro inv_close) (simp_all add: ready_def)

lemma inv_in_syn_sent:
  assumes "ready i s" and "uip_conn s = Some i" and "in_syn_sent E i s = Some t"
  shows "uip_inv E t"
proof (cases "uip_flags s AND UIP_ACKDATA \<noteq> 0 \<and> BUF8 E s off_flags AND TCP_CTL = TCP_SYN OR TCP_ACK")
  case True
  then obtain u where u: "parse_options E i s = Some u" "t = appsend E i (UIP_APPCALL E (open_conn E i u))"
    using assms(3) by (auto simp: in_syn_sent_def split: option.splits)
  have r: "ready i u" using inv_options [OF u(1) assms(1)] by simp
  then have "uip_inv E (open_conn E i u)" "i < length (uip_conns (open_conn E i u))" "tcpstate (open_conn E i u) i = UIP_ESTABLISHED"
    by (simp_all add: open_conn_def Let_def ready_def uip_inv_iff [where i = i] conn_upd_same conn_rcv_same
        uip_add_rcv_nxt_def conn_inv_def conn_sized_def unacked_states_def)
  then show ?thesis unfolding u(2) by (intro inv_appsend) (simp_all add: app_conns tcpstate_app)
next
  case False
  define a where "a = UIP_APPCALL E (s\<lparr>uip_flags := UIP_ABORT\<rparr>)"
  have "uip_conn a = Some i" using assms(2) by (simp add: a_def app_conn)
  then have "t = reset E (upd_conn i (tcpstateflags_update (\<lambda>_. UIP_CLOSED)) a)"
    using False assms(3) by (auto simp: in_syn_sent_def a_def Let_def split: if_splits)
  moreover have "others E i a" "i < length (uip_conns a)" "conn_sized E (conn a i)"
    using assms(1) conn_kept_inv [OF app_conns(2) [of i "s\<lparr>uip_flags := UIP_ABORT\<rparr>"], of E]
    by (simp_all add: a_def ready_def app_conns)
  ultimately show ?thesis by simp
qed

lemma inv_update_mss: "uip_inv E s \<Longrightarrow> uip_inv E (update_mss E i s)"
proof -
  assume inv: "uip_inv E s"
  define v where "v = (let w = be16 (uip_buf s) (UIP_LLH_LEN E + off_wnd)
      in if w > initialmss (conn s i) \<or> w = 0 then initialmss (conn s i) else w)"
  have "v \<le> initialmss (conn s i)" by (simp add: v_def Let_def not_less)
  then have "uip_inv E (upd_conn i (mss_update (\<lambda>_. v)) s)"
    using inv_others [OF inv] inv_conn [OF inv, of i] by (intro uip_inv_upd) (auto simp: conn_inv_def conn_sized_def)
  then show ?thesis by (simp add: update_mss_def v_def Let_def)
qed

lemma inv_in_established:
  assumes "ready i s" and "tcpstate s i = UIP_ESTABLISHED"
  shows "uip_inv E (in_established E i s)"
proof -
  have inv: "uip_inv E s" using assms by (intro ready_settled) (auto simp: unacked_states_def)
  have i: "i < length (uip_conns s)" using assms(1) by (simp add: ready_def)
  define x where "x = established_data E i s\<lparr>uip_slen := 0\<rparr>"
  have "uip_inv E (established_data E i s)"
    unfolding established_data_def Let_def using inv i by (intro inv_update_mss) (simp add: inv_rcv)
  then have "uip_inv E x" by (simp add: x_def)
  moreover have "states x = states s" by (simp add: x_def)
  ultimately have "uip_inv E (appsend E i (UIP_APPCALL E x))"
    using i assms(2) states_tcpstate [of x s i] by (intro inv_appsend) (simp_all add: app_conns tcpstate_app)
  then show ?thesis
    using inv_established_fin [OF assms] \<open>uip_inv E (established_data E i s)\<close> by (simp add: in_established_def Let_def x_def)
qed

lemma inv_in_last_ack: "ready i s \<Longrightarrow> uip_inv E (in_last_ack E i s)"
  using ready_inv [of i s] inv_app_closed [of i s] by (simp add: in_last_ack_def Let_def)

lemma inv_in_closing: "ready i s \<Longrightarrow> uip_inv E (in_closing i s)"
  using ready_inv [of i s] ready_upd [of i s "\<lambda>c. c\<lparr>tcpstateflags := UIP_TIME_WAIT, conn_timer := 0\<rparr>"]
  by (auto simp: in_closing_def conn_inv_def conn_sized_def unacked_states_def)

lemma inv_time_wait:
  "uip_inv E s \<Longrightarrow> uip_inv E (upd_conn i (\<lambda>c. c\<lparr>tcpstateflags := UIP_TIME_WAIT, conn_timer := 0\<rparr>) s)"
  by (rule uip_inv_upd) (auto dest: inv_conn inv_others simp: conn_inv_def conn_sized_def unacked_states_def)

lemma ready_length: "ready i s \<Longrightarrow> i < length (uip_conns s)"
  by (simp add: ready_def)

lemma inv_in_fin_wait_1:
  assumes "ready i s" and "tcpstate s i = UIP_FIN_WAIT_1"
  shows "uip_inv E (in_fin_wait_1 E i s)"
proof -
  define x where "x = (if uip_len s > 0 then uip_add_rcv_nxt i (uip_len s) s else s)"
  have r: "ready i x" using assms(1) by (simp add: x_def ready_rcv)
  have f: "uip_flags x = uip_flags s" "uip_len x = uip_len s" "uip_buf x = uip_buf s" "tcpstate x i = UIP_FIN_WAIT_1"
    using assms by (simp_all add: x_def conn_rcv_same ready_length)
  have 1: "uip_inv E (upd_conn i (\<lambda>c. c\<lparr>tcpstateflags := q, conn_timer := 0, conn_len := 0\<rparr>) x)"
      "uip_inv E (upd_conn i (\<lambda>c. c\<lparr>tcpstateflags := q, conn_len := 0\<rparr>) x)" if "q \<in> {UIP_TIME_WAIT, UIP_FIN_WAIT_2}" for q
    using that by (intro ready_upd [OF r]; auto simp: conn_inv_def conn_sized_def unacked_states_def)+
  have 2: "uip_inv E (upd_conn i (tcpstateflags_update (\<lambda>_. UIP_CLOSING)) x)" if "uip_flags x AND UIP_ACKDATA = 0"
    using inv_conn [OF ready_inv [OF r that] ready_length [OF r]] r f(4)
    by (intro uip_inv_upd) (auto simp: ready_def conn_inv_def conn_sized_def unacked_states_def)
  have "uip_inv E x" if "uip_flags x AND UIP_ACKDATA = 0" using ready_inv [OF r that] .
  then show ?thesis
    using r 1 2 ready_length [OF r] unfolding in_fin_wait_1_def x_def [symmetric] by (simp add: Let_def inv_rcv)
qed

lemma inv_in_fin_wait_2:
  assumes "ready i s" and "tcpstate s i = UIP_FIN_WAIT_2"
  shows "uip_inv E (in_fin_wait_2 E i s)"
proof -
  have "uip_inv E s" using assms by (intro ready_settled) (auto simp: unacked_states_def)
  then show ?thesis
    using ready_length [OF assms(1)] by (simp add: in_fin_wait_2_def Let_def inv_rcv inv_time_wait)
qed

lemma inv_retransmit: "uip_inv E s \<Longrightarrow> nrtx (conn s i) \<noteq> UIP_MAXRTX \<Longrightarrow> uip_inv E (retransmit E i s)"
proof -
  assume inv: "uip_inv E s" and n: "nrtx (conn s i) \<noteq> UIP_MAXRTX"
  have "nrtx (conn s i) + 1 \<le> UIP_MAXRTX" if "nrtx (conn s i) \<le> UIP_MAXRTX"
    using that n by (simp add: word_le_nat_alt unat_word_ariths word_unat_eq_iff)
  then have "uip_inv E (upd_conn i (\<lambda>c. c\<lparr>conn_timer := push_bit (if nrtx c > 4 then 4 else unat (nrtx c)) UIP_RTO, nrtx := nrtx c + 1\<rparr>) s)"
    using inv by (intro uip_inv_upd) (auto dest: inv_conn inv_others simp: conn_inv_def conn_sized_def)
  then show ?thesis by (simp add: retransmit_def Let_def)
qed

lemma inv_in_state:
  assumes r: "ready i s" and "uip_conn s = Some i" and "in_state E i s = Some t"
  shows "uip_inv E t"
proof -
  have stay: "uip_inv E s" if "tcpstate s i \<notin> unacked_states" using ready_settled [OF r that] .
  show ?thesis
    using assms(2,3) stay
    by (auto simp: in_state_def unacked_states_def split: if_split_asm
        intro: inv_in_syn_rcvd [OF r] inv_in_syn_sent [OF r] inv_in_established [OF r] inv_in_last_ack [OF r]
          inv_in_fin_wait_1 [OF r] inv_in_fin_wait_2 [OF r] inv_in_closing [OF r])
qed

lemma ready_process_ack:
  assumes "uip_inv E s" and "i < length (uip_conns s)"
  shows "ready i (process_ack E i s)"
proof (cases "BUF8 E s off_flags AND TCP_ACK \<noteq> 0 \<and> uip_outstanding (conn s i) \<and>
         BUF4 E s off_ackno = uip_add32 (snd_nxt (conn s i)) (conn_len (conn s i))")
  case True
  have "conn_sized E (conn s i)" using assms by (simp add: inv_conn conn_inv_sized)
  with True assms show ?thesis
    by (simp add: process_ack_def Let_def ready_def conn_upd_same inv_others conn_sized_def rtt_estimate_def)
next
  case False
  then have "process_ack E i s = s" unfolding process_ack_def by (simp only: if_False)
  then show ?thesis using assms by (simp add: ready_def inv_conn inv_others conn_inv_sized)
qed

lemma inv_found_conn:
  assumes inv: "uip_inv E s" and i: "i < length (uip_conns s)" and "found_conn E i s = Some t"
  shows "uip_inv E t"
proof -
  define s1 where "s1 = s\<lparr>uip_conn := Some i, uip_flags := 0\<rparr>"
  define s2 where "s2 = s1\<lparr>uip_len := uip_len s1 - ucast (push_bit 2 (drop_bit 4 (BUF8 E s1 off_tcpoffset))) - UIP_IPH_LEN\<rparr>"
  have s1: "uip_inv E s1" "i < length (uip_conns s1)" and s2: "uip_inv E s2" "i < length (uip_conns s2)"
    using inv i by (simp_all add: s2_def s1_def)
  have close: "uip_inv E (upd_conn i (tcpstateflags_update (\<lambda>_. UIP_CLOSED)) s1)"
    using s1 by (intro inv_close) (simp_all add: inv_others inv_conn conn_inv_sized)
  have st: "uip_inv E t" if "in_state E i (process_ack E i s2) = Some t"
    by (rule inv_in_state [OF ready_process_ack [OF s2] _ that]) (simp add: process_ack_def s2_def s1_def Let_def)
  show ?thesis
    using assms(3) close st s2(1) unfolding found_conn_def s1_def [symmetric] Let_def s2_def [symmetric]
    by (auto split: if_split_asm)
qed

lemma inv_found_listen:
  assumes inv: "uip_inv E s" and "found_listen E s = Some t"
  shows "uip_inv E t"
proof (cases "find_unused (uip_conns s) 0 None")
  case (Some i)
  define f :: "uip_conn_t \<Rightarrow> uip_conn_t" where "f = (\<lambda>c. c\<lparr>rto := UIP_RTO, conn_timer := UIP_RTO, sa := 0, sv := 4, nrtx := 0,
                    lport := BUF16 E s off_destport, rport := BUF16 E s off_srcport,
                    ripaddr := BUF4 E s off_srcipaddr, tcpstateflags := UIP_SYN_RCVD,
                    snd_nxt := iss s, conn_len := 1, rcv_nxt := BUF4 E s off_seqno\<rparr>)"
  define x where "x = uip_add_rcv_nxt i 1 (upd_conn i f (s\<lparr>uip_conn := Some i\<rparr>))"
  have i: "i < length (uip_conns s)" using find_unused_result [OF Some] by simp
  have "uip_inv E (upd_conn i f (s\<lparr>uip_conn := Some i\<rparr>))"
    using inv_conn [OF inv i] inv_others [OF inv] by (intro uip_inv_upd) (auto simp: f_def conn_inv_def conn_sized_def le_max_iff_disj)
  then have x: "uip_inv E x" using i by (simp add: x_def inv_rcv)
  have sy: "tcpstate x i = UIP_SYN_RCVD" using i by (simp add: x_def conn_rcv_same conn_upd_same f_def)
  obtain u where u: "parse_options E i x = Some u" "t = tcp_send_synack E i u"
    using assms(2) Some by (auto simp: found_listen_def Let_def x_def f_def split: option.splits)
  have "uip_inv E u"
    using inv_parse_options [OF x _ u(1)] i by (simp add: x_def)
  then show ?thesis using u(2) by simp
qed (use assms in \<open>auto simp: found_listen_def\<close>)

lemma inv_periodic:
  assumes inv: "uip_inv E s" and i: "i < length (uip_conns s)"
  shows "uip_inv E (periodic E i s)"
proof -
  define s1 where "s1 = s\<lparr>iss := inc4 (iss s), uip_len := 0, uip_slen := 0\<rparr>"
  have s1: "uip_inv E s1" "i < length (uip_conns s1)" using inv i by (simp_all add: s1_def)
  have tick: "uip_inv E (upd_conn i (\<lambda>c. c\<lparr>conn_timer := g c\<rparr>) s1)" for g
    using s1 by (intro uip_inv_upd) (auto dest: inv_conn inv_others simp: conn_inv_def conn_sized_def)
  have shut: "uip_inv E (upd_conn i (tcpstateflags_update (\<lambda>_. UIP_CLOSED)) x)" if "uip_inv E x" for x
    using that by (intro inv_close) (auto dest: inv_conn inv_others conn_inv_sized)
  have poll: "uip_inv E (appsend E i (UIP_APPCALL E (s1\<lparr>uip_flags := UIP_POLL\<rparr>)))" if "tcpstate s1 i = UIP_ESTABLISHED"
    using s1 that by (intro inv_appsend) (simp_all add: app_conns tcpstate_app)
  define up where "up = upd_conn i (\<lambda>c. c\<lparr>conn_timer := conn_timer c + 1\<rparr>) s1"
  define dn where "dn = upd_conn i (\<lambda>c. c\<lparr>conn_timer := conn_timer c - 1\<rparr>) s1"
  have ud: "uip_inv E up" "uip_inv E dn" unfolding up_def dn_def by (rule tick)+
  have "uip_inv E (retransmit E i dn)" if "\<not> rtx_exhausted (conn dn i)"
    using ud(2) that by (intro inv_retransmit) (auto simp: rtx_exhausted_def)
  with ud show ?thesis
    using s1 shut [OF ud(1)] shut [OF ud(2)] poll
    unfolding periodic_def s1_def [symmetric] Let_def up_def [symmetric] dn_def [symmetric] by simp
qed

lemma inv_poll:
  assumes inv: "uip_inv E s" and i: "i < length (uip_conns s)"
  shows "uip_inv E (poll_request E i s)"
proof -
  have "uip_inv E (appsend E i (UIP_APPCALL E (s\<lparr>uip_flags := UIP_POLL\<rparr>)))" if "tcpstate s i = UIP_ESTABLISHED"
    using assms that by (intro inv_appsend) (simp_all add: app_conns tcpstate_app)
  then show ?thesis using inv by (simp add: poll_request_def)
qed

lemma inv_udp: "uip_inv E (udp_input E s) = uip_inv E s" "uip_inv E (udp_timer E s) = uip_inv E s"
  by (simp_all add: udp_input_def udp_found_def udp_timer_def Let_def split: option.splits)

lemma inv_process:
  assumes "uip_inv E s" and "\<And>i. flag \<in> {UIP_TIMER, UIP_POLL_REQUEST} \<Longrightarrow> uip_conn s = Some i \<Longrightarrow> i < length (uip_conns s)" and "uip_process E flag s = Some t"
  shows "uip_inv E t"
proof -
  have tcp: "tcp_input E u = Some v \<Longrightarrow> uip_inv E u \<Longrightarrow> uip_inv E v" for u v
    by (auto simp: tcp_input_def split: if_split_asm option.split_asm dest: inv_found_conn inv_found_listen find_conn_0)
  have ip: "ip_input E u = Some v \<Longrightarrow> uip_inv E u \<Longrightarrow> uip_inv E v" for u v
    by (auto simp: ip_input_def Let_def inv_udp split: if_split_asm dest!: tcp)
  define s1 where "s1 = s\<lparr>uip_sappdata := UIP_LLH_LEN E + UIP_IPTCPH_LEN, uip_appdata := UIP_LLH_LEN E + UIP_IPTCPH_LEN\<rparr>"
  have s1: "uip_inv E s1" "uip_conn s1 = uip_conn s" "uip_conns s1 = uip_conns s" using assms(1) by (simp_all add: s1_def)
  show ?thesis
    using assms s1 unfolding uip_process_def s1_def [symmetric] Let_def
    by (auto simp: inv_udp split: if_split_asm dest: ip intro: inv_poll inv_periodic)
qed

end

end
