(* ===== verification/Tcpip.thy ===== *)
theory Tcpip
  imports UipInv "HOL-Library.Multiset"
begin

text \<open>
  The TCP/IP process, \<open>core/net/ip/tcpip.c\<close> in its IP version 4 build, and the calls with which a
  process talks to the stack (\<open>core/net/ip/uip.h\<close>). The process owns the stack: it feeds packets to
  \<open>uip_process\<close>, drives its timers, and passes what it produces to the output function; and it gives
  each event of a connection to the process that owns the connection. The processes and the output
  function are parameters, the record \<open>node\<close>: a process is a function of what it sees to its new
  private state and the calls of the datatype \<open>uip_call\<close> that it makes. A process opens connections
  (\<open>tcp_connect\<close>, \<open>udp_new\<close>) only between the events; one that does so while it is called back, as
  \<open>apps/webbrowser/webclient.c\<close> to reconnect, is not modelled. Processes are numbers, and so are the state pointers of
  connections, with \<open>0\<close> for \<open>NULL\<close>.
\<close>

section \<open>State\<close>

record tcpip_uipstate =
  app_p :: nat
  app_data :: nat

record listenport =
  lp_port :: u16
  lp_p :: nat

datatype post = TCP_POLL "nat option" | UDP_POLL "nat option"

text \<open>Of the timer \<open>periodic\<close>, it matters only whether it has expired; \<open>posted\<close> are the events given to
  \<open>process_post\<close>, and \<open>user\<close> is everything that the processes and the drivers keep.\<close>

record 'u tcpip =
  conn_apps :: "tcpip_uipstate list"
  udp_apps :: "tcpip_uipstate list"
  listenports :: "listenport list"
  periodic_expired :: bool
  posted :: "post list"
  user :: 'u

datatype uip_call = Send "u8 list" | Close | Abort | Stop | Restart | Markconn nat | Listen u16 | Unlisten u16

record 'u node =
  node_env :: "'u tcpip uip_env"
  node_process :: "nat \<Rightarrow> nat \<Rightarrow> 'u tcpip uip_state \<Rightarrow> 'u \<times> uip_call list"
  node_output :: "('u tcpip uip_state \<Rightarrow> 'u \<times> mem \<times> u16) option"

datatype event = EXITED nat | TIMER bool | POLL post | PACKET_INPUT

abbreviation (input) PROCESS_NONE :: nat where "PROCESS_NONE \<equiv> 0"

abbreviation tc :: "('u tcpip \<Rightarrow> 'u tcpip) \<Rightarrow> 'u tcpip uip_state \<Rightarrow> 'u tcpip uip_state" where
  "tc f s \<equiv> app_state_update f s"

section \<open>The calls of a process\<close>

definition uip_close :: "'a uip_state \<Rightarrow> 'a uip_state" where
  "uip_close s = s\<lparr>uip_flags := UIP_CLOSE\<rparr>"

definition uip_abort :: "'a uip_state \<Rightarrow> 'a uip_state" where
  "uip_abort s = s\<lparr>uip_flags := UIP_ABORT\<rparr>"

text \<open>These two use \<open>uip_conn\<close>, which is not \<open>NULL\<close> in an event of a TCP connection.\<close>

definition uip_stop :: "'a uip_state \<Rightarrow> 'a uip_state" where
  "uip_stop s = (case uip_conn s of None \<Rightarrow> s
     | Some i \<Rightarrow> upd_conn i (\<lambda>c. c\<lparr>tcpstateflags := tcpstateflags c OR UIP_STOPPED\<rparr>) s)"

definition uip_restart :: "'a uip_state \<Rightarrow> 'a uip_state" where
  "uip_restart s = (case uip_conn s of None \<Rightarrow> s
     | Some i \<Rightarrow> upd_conn i (\<lambda>c. c\<lparr>tcpstateflags := tcpstateflags c AND NOT UIP_STOPPED\<rparr>)
         (s\<lparr>uip_flags := uip_flags s OR UIP_NEWDATA\<rparr>))"

definition tcp_attach :: "nat \<Rightarrow> nat \<Rightarrow> nat \<Rightarrow> 'u tcpip uip_state \<Rightarrow> 'u tcpip uip_state" where
  "tcp_attach cur i data s = tc (conn_apps_update (\<lambda>a. a[i := \<lparr>app_p = cur, app_data = data\<rparr>])) s"

definition udp_attach :: "nat \<Rightarrow> nat \<Rightarrow> nat \<Rightarrow> 'u tcpip uip_state \<Rightarrow> 'u tcpip uip_state" where
  "udp_attach cur i data s = tc (udp_apps_update (\<lambda>a. a[i := \<lparr>app_p = cur, app_data = data\<rparr>])) s"

definition tcp_listen :: "nat \<Rightarrow> u16 \<Rightarrow> 'u tcpip uip_state \<Rightarrow> 'u tcpip uip_state" where
  "tcp_listen cur port s =
     (case find_conn (\<lambda>l. lp_port l = 0) (listenports (app_state s)) 0 of
        None \<Rightarrow> s
      | Some i \<Rightarrow> uip_listen port (tc (listenports_update (\<lambda>l. l[i := \<lparr>lp_port = port, lp_p = cur\<rparr>])) s))"

definition tcp_unlisten :: "nat \<Rightarrow> u16 \<Rightarrow> 'u tcpip uip_state \<Rightarrow> 'u tcpip uip_state" where
  "tcp_unlisten cur port s =
     (case find_conn (\<lambda>l. lp_port l = port \<and> lp_p l = cur) (listenports (app_state s)) 0 of
        None \<Rightarrow> s
      | Some i \<Rightarrow> uip_unlisten port (tc (listenports_update (\<lambda>l. l[i := (l ! i)\<lparr>lp_port := 0\<rparr>])) s))"

definition post :: "post \<Rightarrow> 'u tcpip uip_state \<Rightarrow> 'u tcpip uip_state" where
  "post e s = tc (posted_update (\<lambda>q. q @ [e])) s"

definition tcpip_poll_tcp :: "nat option \<Rightarrow> 'u tcpip uip_state \<Rightarrow> 'u tcpip uip_state" where
  "tcpip_poll_tcp c s = post (TCP_POLL c) s"

definition tcpip_poll_udp :: "nat option \<Rightarrow> 'u tcpip uip_state \<Rightarrow> 'u tcpip uip_state" where
  "tcpip_poll_udp c s = post (UDP_POLL c) s"

definition tcp_connect :: "'u tcpip uip_env \<Rightarrow> nat \<Rightarrow> ipaddr \<Rightarrow> u16 \<Rightarrow> nat \<Rightarrow> 'u tcpip uip_state \<Rightarrow>
    (nat option \<times> 'u tcpip uip_state) option" where
  "tcp_connect E cur raddr port data s =
     (case uip_connect E raddr port s of
        None \<Rightarrow> None
      | Some (None, s) \<Rightarrow> Some (None, s)
      | Some (Some i, s) \<Rightarrow> Some (Some i, tcpip_poll_tcp (Some i) (tcp_attach cur i data s)))"

definition udp_new :: "nat \<Rightarrow> ipaddr option \<Rightarrow> u16 \<Rightarrow> nat \<Rightarrow> 'u tcpip uip_state \<Rightarrow> (nat option \<times> 'u tcpip uip_state) option" where
  "udp_new cur raddr port data s =
     (case uip_udp_new raddr port s of
        None \<Rightarrow> None
      | Some (None, s) \<Rightarrow> Some (None, s)
      | Some (Some i, s) \<Rightarrow> Some (Some i, udp_attach cur i data s))"

definition uip_udp_bind :: "nat \<Rightarrow> u16 \<Rightarrow> 'a uip_state \<Rightarrow> 'a uip_state" where
  "uip_udp_bind i port s = s\<lparr>uip_udp_conns := (uip_udp_conns s)[i := (uip_udp_conns s ! i)\<lparr>udp_lport := port\<rparr>]\<rparr>"

definition uip_udp_remove :: "nat \<Rightarrow> 'a uip_state \<Rightarrow> 'a uip_state" where
  "uip_udp_remove i s = uip_udp_bind i 0 s"

definition udp_broadcast_new :: "nat \<Rightarrow> u16 \<Rightarrow> nat \<Rightarrow> 'u tcpip uip_state \<Rightarrow> (nat option \<times> 'u tcpip uip_state) option" where
  "udp_broadcast_new cur port data s =
     (case udp_new cur (Some (255, 255, 255, 255)) port data s of
        None \<Rightarrow> None
      | Some (None, s) \<Rightarrow> Some (None, s)
      | Some (Some i, s) \<Rightarrow> Some (Some i, uip_udp_bind i port s))"

section \<open>The call of the application\<close>

definition run_call :: "'u tcpip uip_env \<Rightarrow> nat \<Rightarrow> uip_call \<Rightarrow> 'u tcpip uip_state \<Rightarrow> 'u tcpip uip_state" where
  "run_call E cur call s =
     (case call of
        Send bytes \<Rightarrow> uip_send E (Some bytes) (int (length bytes)) s
      | Close \<Rightarrow> uip_close s
      | Abort \<Rightarrow> uip_abort s
      | Stop \<Rightarrow> uip_stop s
      | Restart \<Rightarrow> uip_restart s
      | Markconn data \<Rightarrow> (case uip_conn s of None \<Rightarrow> s | Some i \<Rightarrow> tcp_attach cur i data s)
      | Listen port \<Rightarrow> tcp_listen cur port s
      | Unlisten port \<Rightarrow> tcp_unlisten cur port s)"

text \<open>\<open>process_post_synch\<close> with the event \<open>tcpip_event\<close>.\<close>

definition post_synch :: "'u node \<Rightarrow> nat \<Rightarrow> nat \<Rightarrow> 'u tcpip uip_state \<Rightarrow> 'u tcpip uip_state" where
  "post_synch N p data s =
     (let (u, calls) = node_process N p data s
      in fold (run_call (node_env N) p) calls (tc (user_update (\<lambda>_. u)) s))"

definition start_periodic_tcp_timer :: "'u tcpip uip_state \<Rightarrow> 'u tcpip uip_state" where
  "start_periodic_tcp_timer s =
     (if periodic_expired (app_state s) then tc (periodic_expired_update (\<lambda>_. False)) s else s)"

text \<open>A new connection goes to the process that listens on its port.\<close>

definition accept_conn :: "nat \<Rightarrow> 'u tcpip uip_state \<Rightarrow> 'u tcpip uip_state" where
  "accept_conn i s =
     (case find_conn (\<lambda>l. lp_port l = lport (conn s i) \<and> lp_p l \<noteq> PROCESS_NONE) (listenports (app_state s)) 0 of
        None \<Rightarrow> s
      | Some k \<Rightarrow> tc (conn_apps_update (\<lambda>a. a[i := \<lparr>app_p = lp_p (listenports (app_state s) ! k), app_data = 0\<rparr>])) s)"

definition tcpip_uipcall :: "'u node \<Rightarrow> 'u tcpip uip_state \<Rightarrow> 'u tcpip uip_state" where
  "tcpip_uipcall N s =
     (case uip_conn s of
        Some i \<Rightarrow>
          let s = (if uip_flags s AND UIP_CONNECTED \<noteq> 0 then start_periodic_tcp_timer (accept_conn i s) else s);
              ts = conn_apps (app_state s) ! i
          in if app_p ts \<noteq> 0 then post_synch N (app_p ts) (app_data ts) s else s
      | None \<Rightarrow>
          let ts = udp_apps (app_state s) ! uip_udp_conn s
          in if app_p ts \<noteq> 0 then post_synch N (app_p ts) (app_data ts) s else s)"

definition stack :: "'u node \<Rightarrow> 'u tcpip uip_env" where
  "stack N = (node_env N)\<lparr>UIP_APPCALL := tcpip_uipcall N, UIP_UDP_APPCALL := tcpip_uipcall N\<rparr>"

section \<open>The events of the process\<close>

definition tcpip_output :: "'u node \<Rightarrow> 'u tcpip uip_state \<Rightarrow> 'u tcpip uip_state" where
  "tcpip_output N s =
     (case node_output N of
        None \<Rightarrow> s
      | Some f \<Rightarrow> let (u, m, n) = f s in (tc (user_update (\<lambda>_. u)) s)\<lparr>uip_buf := m, uip_len := n\<rparr>)"

text \<open>What follows each call of \<open>uip_process\<close>.\<close>

definition output_packet :: "'u node \<Rightarrow> 'u tcpip uip_state \<Rightarrow> 'u tcpip uip_state" where
  "output_packet N s = (if uip_len s > 0 then tcpip_output N s else s)"

definition check_for_tcp_syn :: "'u node \<Rightarrow> 'u tcpip uip_state \<Rightarrow> 'u tcpip uip_state" where
  "check_for_tcp_syn N s =
     (if BUF8 (stack N) s off_proto = UIP_PROTO_TCP \<and> BUF8 (stack N) s off_flags AND TCP_SYN = TCP_SYN
      then start_periodic_tcp_timer s else s)"

definition packet_input :: "'u node \<Rightarrow> 'u tcpip uip_state \<Rightarrow> 'u tcpip uip_state option" where
  "packet_input N s =
     (if uip_len s > 0 then
        map_option (output_packet N) (uip_process (stack N) UIP_DATA (check_for_tcp_syn N s))
      else Some s)"

definition uip_periodic :: "'a uip_env \<Rightarrow> nat \<Rightarrow> 'a uip_state \<Rightarrow> 'a uip_state option" where
  "uip_periodic E i s = uip_process E UIP_TIMER (s\<lparr>uip_conn := Some i\<rparr>)"

fun periodic_conns :: "'u node \<Rightarrow> nat list \<Rightarrow> 'u tcpip uip_state \<Rightarrow> 'u tcpip uip_state option" where
  "periodic_conns N [] s = Some s"
| "periodic_conns N (i # is) s =
     (if tcpstateflags (conn s i) \<noteq> UIP_CLOSED then
        case uip_periodic (stack N) i (tc (periodic_expired_update (\<lambda>_. False)) s) of
          None \<Rightarrow> None
        | Some s \<Rightarrow> periodic_conns N is (output_packet N s)
      else periodic_conns N is s)"

text \<open>The loop over the listening ports of a process that has exited, and what follows it.\<close>

fun unlisten_all :: "nat \<Rightarrow> nat list \<Rightarrow> 'u tcpip uip_state \<Rightarrow> 'u tcpip uip_state" where
  "unlisten_all p [] s = s"
| "unlisten_all p (i # is) s =
     (let l = listenports (app_state s) ! i
      in unlisten_all p is
           (if lp_p l = p then
              tc (listenports_update (\<lambda>ls. ls[i := \<lparr>lp_port = 0, lp_p = PROCESS_NONE\<rparr>])) (uip_unlisten (lp_port l) s)
            else s))"

definition exited :: "nat \<Rightarrow> 'u tcpip uip_state \<Rightarrow> 'u tcpip uip_state" where
  "exited p s =
     (let s = unlisten_all p [0..<length (listenports (app_state s))] s;
          apps = conn_apps (app_state s);
          s = tc (conn_apps_update (map (\<lambda>a. if app_p a = p then a\<lparr>app_p := PROCESS_NONE\<rparr> else a))) s;
          s = s\<lparr>uip_conns := map2 (\<lambda>c a. if app_p a = p then c\<lparr>tcpstateflags := UIP_CLOSED\<rparr> else c) (uip_conns s) apps\<rparr>
      in s\<lparr>uip_udp_conns := map2 (\<lambda>c a. if app_p a = p then c\<lparr>udp_lport := 0\<rparr> else c) (uip_udp_conns s) (udp_apps (app_state s))\<rparr>)"

definition eventhandler :: "'u node \<Rightarrow> event \<Rightarrow> 'u tcpip uip_state \<Rightarrow> 'u tcpip uip_state option" where
  "eventhandler N ev s =
     (case ev of
        EXITED p \<Rightarrow> Some (exited p s)
      | TIMER is_periodic \<Rightarrow>
          if is_periodic \<and> periodic_expired (app_state s)
          then periodic_conns N [0..<length (uip_conns s)] s else Some s
      | POLL (TCP_POLL (Some i)) \<Rightarrow>
          map_option (\<lambda>s. start_periodic_tcp_timer (output_packet N s))
            (uip_process (stack N) UIP_POLL_REQUEST (s\<lparr>uip_conn := Some i\<rparr>))
      | POLL (UDP_POLL (Some i)) \<Rightarrow>
          map_option (output_packet N) (uip_process (stack N) UIP_UDP_TIMER (s\<lparr>uip_udp_conn := i\<rparr>))
      | POLL _ \<Rightarrow> Some s
      | PACKET_INPUT \<Rightarrow> packet_input N s)"

definition tcpip_input :: "'u node \<Rightarrow> 'u tcpip uip_state \<Rightarrow> 'u tcpip uip_state option" where
  "tcpip_input N s = map_option (\<lambda>s. s\<lparr>uip_len := 0\<rparr>) (eventhandler N PACKET_INPUT s)"

text \<open>The start of \<open>tcpip_process\<close>.\<close>

definition tcpip_start :: "'u tcpip uip_state \<Rightarrow> 'u tcpip uip_state" where
  "tcpip_start s =
     uip_init (tc (\<lambda>t. t\<lparr>listenports := map (lp_port_update (\<lambda>_. 0)) (listenports t), periodic_expired := False\<rparr>) s)"

section \<open>The processes keep the contract of the stack\<close>

lemma conn_kept_refl [simp]: "conn_kept c c"
  by (simp add: conn_kept_def)

lemma conn_kept_iff: "conn_kept c c' \<longleftrightarrow> (\<exists>x. c' = c\<lparr>tcpstateflags := x\<rparr> \<and> x AND UIP_TS_MASK = tcpstateflags c AND UIP_TS_MASK)"
proof
  assume "conn_kept c c'"
  then show "\<exists>x. c' = c\<lparr>tcpstateflags := x\<rparr> \<and> x AND UIP_TS_MASK = tcpstateflags c AND UIP_TS_MASK"
    unfolding conn_kept_def by blast
next
  assume "\<exists>x. c' = c\<lparr>tcpstateflags := x\<rparr> \<and> x AND UIP_TS_MASK = tcpstateflags c AND UIP_TS_MASK"
  then show "conn_kept c c'" by (elim exE conjE) (simp add: conn_kept_def)
qed

lemma conn_kept_trans: "conn_kept a b \<Longrightarrow> conn_kept b c \<Longrightarrow> conn_kept a c"
  unfolding conn_kept_iff by (elim exE conjE) (simp, blast)

lemma conns_kept_refl [simp]: "uip_conns t = uip_conns s \<Longrightarrow> conns_kept s t"
  by (simp add: conns_kept_def list_all2_refl)

lemma conns_kept_trans: "conns_kept s t \<Longrightarrow> conns_kept t u \<Longrightarrow> conns_kept s u"
  unfolding conns_kept_def by (rule list_all2_trans [where ?P1.0 = conn_kept and ?P2.0 = conn_kept]) (auto intro: conn_kept_trans)

lemma conns_kept_upd: "conn_kept (conn s i) (f (conn s i)) \<Longrightarrow> conns_kept s (upd_conn i f s)"
  unfolding conns_kept_def upd_conn_def
  by (simp add: list_all2_conv_all_nth) (metis conn_kept_refl nth_list_update_eq nth_list_update_neq)

definition tcp_part :: "'a uip_state \<Rightarrow> uip_conn_t list \<times> nat option" where
  "tcp_part s = (uip_conns s, uip_conn s)"

lemma tcp_part_calls [simp]:
  "tcp_part (uip_close s) = tcp_part s" "tcp_part (uip_abort s) = tcp_part s" "tcp_part (uip_send E d n s) = tcp_part s"
  "tcp_part (tc g s) = tcp_part s" "tcp_part (tcp_attach c i x s) = tcp_part s"
  "tcp_part (uip_listen p s) = tcp_part s" "tcp_part (uip_unlisten p s) = tcp_part s"
  "tcp_part (tcp_listen c p s) = tcp_part s" "tcp_part (tcp_unlisten c p s) = tcp_part s"
  "tcp_part (start_periodic_tcp_timer s) = tcp_part s" "tcp_part (accept_conn i s) = tcp_part s"
  by (simp_all add: tcp_part_def uip_close_def uip_abort_def uip_send_def tcp_attach_def uip_listen_def uip_unlisten_def
      tcp_listen_def tcp_unlisten_def start_periodic_tcp_timer_def accept_conn_def Let_def split: option.splits)

definition app_kept :: "'a uip_state \<Rightarrow> 'a uip_state \<Rightarrow> bool" where
  "app_kept s t \<longleftrightarrow> conns_kept s t \<and> uip_conn t = uip_conn s"

lemma app_kept_same: "tcp_part t = tcp_part s \<Longrightarrow> app_kept s t"
  by (simp add: app_kept_def tcp_part_def)

lemma app_kept_trans: "app_kept s t \<Longrightarrow> app_kept t u \<Longrightarrow> app_kept s u"
  by (auto simp: app_kept_def intro: conns_kept_trans)

lemma stopped_mask: "(w OR UIP_STOPPED) AND UIP_TS_MASK = w AND UIP_TS_MASK" "(w AND NOT UIP_STOPPED) AND UIP_TS_MASK = w AND UIP_TS_MASK"
  for w :: u8
  by (simp_all add: and.assoc bit.conj_disj_distrib2)

lemma app_kept_stop: "app_kept s (uip_stop s)" "app_kept s (uip_restart s)"
proof -
  have k: "conn_kept c (c\<lparr>tcpstateflags := tcpstateflags c OR UIP_STOPPED\<rparr>)" "conn_kept c (c\<lparr>tcpstateflags := tcpstateflags c AND NOT UIP_STOPPED\<rparr>)" for c
    unfolding conn_kept_iff using stopped_mask by blast+
  show "app_kept s (uip_stop s)"
    by (auto simp: app_kept_def uip_stop_def split: option.splits
        intro: conns_kept_upd [where f = "\<lambda>c. c\<lparr>tcpstateflags := tcpstateflags c OR UIP_STOPPED\<rparr>", OF k(1)])
  have "conns_kept s (s\<lparr>uip_flags := uip_flags s OR UIP_NEWDATA\<rparr>)" by simp
  from conns_kept_trans [OF this conns_kept_upd [where f = "\<lambda>c. c\<lparr>tcpstateflags := tcpstateflags c AND NOT UIP_STOPPED\<rparr>", OF k(2)]] show "app_kept s (uip_restart s)"
    by (simp add: app_kept_def uip_restart_def split: option.splits)
qed

lemma app_kept_call: "app_kept s (run_call E cur call s)"
  by (cases call) (auto simp: run_call_def intro: app_kept_same app_kept_stop split: option.splits)

lemma app_kept_calls: "app_kept s (fold (run_call E cur) calls s)"
  by (induction calls arbitrary: s) (auto intro: app_kept_same app_kept_call app_kept_trans)

lemma app_kept_post: "app_kept s (post_synch N p data s)"
proof -
  have "app_kept s (tc g s)" for g by (rule app_kept_same) simp
  then show ?thesis by (auto simp: post_synch_def split: prod.splits intro: app_kept_trans app_kept_calls)
qed

lemma app_kept_uipcall: "app_kept s (tcpip_uipcall N s)"
proof -
  have "app_kept s (start_periodic_tcp_timer (accept_conn i s))" for i by (rule app_kept_same) simp
  moreover have "app_kept s s" by (rule app_kept_same) simp
  ultimately show ?thesis
    by (auto simp: tcpip_uipcall_def Let_def split: option.splits intro: app_kept_post app_kept_trans)
qed

interpretation node: uip_application "stack N" for N
  by unfold_locales (simp_all add: stack_def app_kept_uipcall [unfolded app_kept_def])

section \<open>The tables of the node\<close>

definition app_part :: "'a uip_state \<Rightarrow> u16 list \<times> 'a" where
  "app_part s = (uip_listenports s, app_state s)"

lemma app_part_fields [simp]:
  "app_part (s\<lparr>uip_flags := a\<rparr>) = app_part s" "app_part (s\<lparr>uip_slen := b\<rparr>) = app_part s" "app_part (s\<lparr>uip_len := b\<rparr>) = app_part s"
  "app_part (s\<lparr>uip_conn := e\<rparr>) = app_part s" "app_part (s\<lparr>uip_appdata := d\<rparr>) = app_part s" "app_part (s\<lparr>uip_sappdata := d\<rparr>) = app_part s"
  "app_part (s\<lparr>iss := g\<rparr>) = app_part s" "app_part (s\<lparr>uip_udp_conn := d\<rparr>) = app_part s" "app_part (uip_buf_update h s) = app_part s"
  "app_part (s\<lparr>uip_hostaddr := x\<rparr>) = app_part s" "app_part (s\<lparr>lastport := b\<rparr>) = app_part s" "app_part (s\<lparr>uip_conns := y\<rparr>) = app_part s"
  "app_part (s\<lparr>ipid := b\<rparr>) = app_part s" "app_part (upd_conn i f s) = app_part s"
  by (simp_all add: app_part_def)

lemma app_part_sends [simp]:
  "app_part (drop_packet s) = app_part s" "app_part (ip_send_nolen E s) = app_part s" "app_part (set_ip_len E s) = app_part s"
  "app_part (tcp_send_noconn E s) = app_part s" "app_part (tcp_send E i s) = app_part s"
  by (simp_all add: app_part_def drop_packet_def)

lemma app_part_same [simp]:
  "app_part (tcp_send_noopts E i s) = app_part s"
  "app_part (tcp_send_nodata E i s) = app_part s" "app_part (tcp_send_ack E i s) = app_part s"
  "app_part (tcp_send_finack E i s) = app_part s" "app_part (tcp_send_syn E i s) = app_part s"
  "app_part (tcp_send_synack E i s) = app_part s" "app_part (apprexmit E i s) = app_part s"
  "app_part (reset E s) = app_part s" "app_part (skip_urgent E s) = app_part s" "app_part (icmp_input E s) = app_part s"
  "app_part (port_unreachable E s) = app_part s" "app_part (uip_add_rcv_nxt i n s) = app_part s"
  "app_part (app_data_out i s) = app_part s" "app_part (process_ack E i s) = app_part s" "app_part (update_mss E i s) = app_part s"
  by (simp_all add: tcp_sends apprexmit_def reset_def skip_urgent_def icmp_input_def port_unreachable_def unreachable_payload_def
      uip_add_rcv_nxt_def app_data_out_def process_ack_def update_mss_def Let_def)

lemma app_part_more [simp]:
  "app_part (appsend E i s) = app_part s" "app_part (established_data E i s) = app_part s" "app_part (open_conn E i s) = app_part s"
  "app_part (udp_fill E s) = app_part s" "app_part (udp_sum E s) = app_part s" "app_part (in_closing i s) = app_part s"
  by (simp_all add: appsend_def established_data_def open_conn_def udp_fill_def udp_sum_def in_closing_def Let_def)

lemma app_part_udp_send [simp]: "app_part (udp_send E s) = app_part s"
  by (simp add: udp_send_def)

lemma app_part_options: "parse_options E i s = Some u \<Longrightarrow> app_part u = app_part s"
  by (drule parse_options_effect) auto

lemma app_part_kept:
  assumes tcp: "\<And>s. I (app_part s) \<Longrightarrow> I (app_part (UIP_APPCALL E s))"
    and udp: "\<And>s. I (app_part s) \<Longrightarrow> I (app_part (UIP_UDP_APPCALL E s))"
    and I: "I (app_part s)" and p: "uip_process E flag s = Some t"
  shows "I (app_part t)"
proof -
  have fin: "I (app_part (established_fin E i s))" if "I (app_part s)" for i s
    using that by (simp add: established_fin_def Let_def tcp)
  have sent: "I (app_part t)" if "in_syn_sent E i s = Some t" "I (app_part s)" for i s t
    using that by (auto simp: in_syn_sent_def Let_def app_part_options intro!: tcp split: if_split_asm option.split_asm)
  have est: "I (app_part (in_syn_rcvd E i s)) \<and> I (app_part (in_established E i s)) \<and> I (app_part (in_last_ack E i s)) \<and>
      I (app_part (in_fin_wait_1 E i s)) \<and> I (app_part (in_fin_wait_2 E i s)) \<and> I (app_part (in_closing i s))" if "I (app_part s)" for i s
    using that by (simp add: in_syn_rcvd_def in_established_def in_last_ack_def in_fin_wait_1_def in_fin_wait_2_def Let_def tcp fin)
  have st: "I (app_part t)" if "in_state E i s = Some t" "I (app_part s)" for i s t
    using that est by (auto simp: in_state_def intro: sent split: if_split_asm)
  have fc: "I (app_part t)" if "found_conn E i s = Some t" "I (app_part s)" for i s t
    using that by (auto simp: found_conn_def Let_def tcp intro: st split: if_split_asm)
  have fl: "I (app_part t)" if "found_listen E s = Some t" "I (app_part s)" for s t
    using that by (auto simp: found_listen_def Let_def dest!: app_part_options split: option.split_asm)
  have ti: "I (app_part t)" if "tcp_input E s = Some t" "I (app_part s)" for s t
    using that by (auto simp: tcp_input_def intro: fc fl split: if_split_asm option.split_asm)
  have up: "I (app_part (udp_input E s)) \<and> I (app_part (udp_timer E s))" if "I (app_part s)" for s
    using that by (simp add: udp_input_def udp_timer_def udp_found_def Let_def udp split: option.split)
  have ii: "I (app_part t)" if "ip_input E s = Some t" "I (app_part s)" for s t
    using that up by (auto simp: ip_input_def Let_def intro: ti split: if_split_asm)
  have re: "I (app_part (retransmit E i s))" if "I (app_part s)" for i s
    using that by (simp add: retransmit_def Let_def tcp)
  have pe: "I (app_part (periodic E i s)) \<and> I (app_part (poll_request E i s))" if "I (app_part s)" for i s
    using that by (simp add: periodic_def poll_request_def Let_def tcp re)
  show ?thesis
    using p I up pe by (auto simp: uip_process_def Let_def intro: ii split: if_split_asm)
qed

text \<open>The process and the stack each keep a table of the ports that are listened on.\<close>

definition tables :: "nat \<Rightarrow> u16 list \<times> 'u tcpip \<Rightarrow> bool" where
  "tables n x \<longleftrightarrow> mset (map lp_port (listenports (snd x))) = mset (fst x) \<and> length (conn_apps (snd x)) = n"

lemma find_conn_None: "find_conn P xs k = None \<longleftrightarrow> (\<forall>x \<in> set xs. \<not> P x)"
  by (induction xs arbitrary: k) auto

lemma listen_replace:
  assumes "mset (map lp_port ls) = mset ports" and "i < length ls" and "lp_port (ls ! i) = a"
  shows "mset (map lp_port (ls[i := l])) = mset (case find_conn (\<lambda>p. p = a) ports 0 of None \<Rightarrow> ports | Some c \<Rightarrow> ports[c := lp_port l])"
proof (cases "find_conn (\<lambda>p. p = a) ports 0")
  case None
  then have "a \<notin> set ports" by (auto simp: find_conn_None)
  moreover have "a \<in> set (map lp_port ls)" using assms(2,3) nth_mem [OF assms(2)] by auto
  ultimately show ?thesis using assms(1) by (metis set_mset_mset)
next
  case (Some c)
  then have "c < length ports" "ports ! c = a" using find_conn_0 by force+
  then show ?thesis using Some assms by (simp add: map_update mset_update)
qed

lemma listen_ports:
  "uip_listenports (uip_listen port s) =
     (case find_conn (\<lambda>p. p = 0) (uip_listenports s) 0 of None \<Rightarrow> uip_listenports s | Some c \<Rightarrow> (uip_listenports s)[c := port])"
  "uip_listenports (uip_unlisten port s) =
     (case find_conn (\<lambda>p. p = port) (uip_listenports s) 0 of None \<Rightarrow> uip_listenports s | Some c \<Rightarrow> (uip_listenports s)[c := 0])"
  "app_state (uip_listen port s) = app_state s" "app_state (uip_unlisten port s) = app_state s"
  by (simp_all add: uip_listen_def uip_unlisten_def split: option.splits)

lemma tables_tcp_listen: "tables n (app_part s) \<Longrightarrow> tables n (app_part (tcp_listen cur port s))"
proof (cases "find_conn (\<lambda>l. lp_port l = 0) (listenports (app_state s)) 0")
  case (Some i)
  assume t: "tables n (app_part s)"
  have "i < length (listenports (app_state s))" "lp_port (listenports (app_state s) ! i) = 0" using find_conn_0 [OF Some] by simp_all
  then show ?thesis
    using t listen_replace [of "listenports (app_state s)" "uip_listenports s" i 0 "\<lparr>lp_port = port, lp_p = cur\<rparr>"] Some
    by (simp add: tcp_listen_def tables_def app_part_def listen_ports split: option.split)
qed (simp add: tcp_listen_def)

lemma tables_release:
  assumes "tables n (app_part s)" and "i < length (listenports (app_state s))" and "lp_port l = 0"
  shows "tables n (app_part (tc (listenports_update (\<lambda>ls. ls[i := l])) (uip_unlisten (lp_port (listenports (app_state s) ! i)) s)))"
  using assms listen_replace [of "listenports (app_state s)" "uip_listenports s" i "lp_port (listenports (app_state s) ! i)" l]
  by (simp add: tables_def app_part_def listen_ports split: option.split)

lemma tables_tcp_unlisten: "tables n (app_part s) \<Longrightarrow> tables n (app_part (tcp_unlisten cur port s))"
proof (cases "find_conn (\<lambda>l. lp_port l = port \<and> lp_p l = cur) (listenports (app_state s)) 0")
  case (Some i)
  assume t: "tables n (app_part s)"
  have i: "i < length (listenports (app_state s))" "lp_port (listenports (app_state s) ! i) = port" using find_conn_0 [OF Some] by simp_all
  show ?thesis
    using tables_release [OF t i(1), of "(listenports (app_state s) ! i)\<lparr>lp_port := 0\<rparr>"] Some i
    by (simp add: tcp_unlisten_def tables_def app_part_def listen_ports split: option.split)
qed (simp add: tcp_unlisten_def)

lemma tables_tc: "(\<And>t. listenports (g t) = listenports t) \<Longrightarrow> (\<And>t. length (conn_apps (g t)) = length (conn_apps t)) \<Longrightarrow>
    tables n (app_part (tc g s)) = tables n (app_part s)"
  by (simp add: tables_def app_part_def)

lemma tables_small [simp]:
  "tables n (app_part (start_periodic_tcp_timer s)) = tables n (app_part s)"
  "tables n (app_part (accept_conn i s)) = tables n (app_part s)"
  "tables n (app_part (tcp_attach cur i data s)) = tables n (app_part s)"
  "tables n (app_part (post e s)) = tables n (app_part s)"
  "tables n (app_part (tc (user_update h) s)) = tables n (app_part s)"
  "tables n (app_part (output_packet N s)) = tables n (app_part s)"
  by (simp_all add: start_periodic_tcp_timer_def accept_conn_def tcp_attach_def post_def output_packet_def tcpip_output_def
      tables_tc split: option.split prod.split)

lemma tables_call: "tables n (app_part s) \<Longrightarrow> tables n (app_part (run_call E cur call s))"
  by (cases call) (auto simp: run_call_def tables_tcp_listen tables_tcp_unlisten uip_close_def uip_abort_def uip_stop_def
      uip_restart_def uip_send_def Let_def split: option.split)

lemma tables_uipcall: "tables n (app_part s) \<Longrightarrow> tables n (app_part (tcpip_uipcall N s))"
proof -
  have calls: "tables n (app_part (fold (run_call E cur) calls s))" if "tables n (app_part s)" for E cur calls and s :: "'b tcpip uip_state"
    using that by (induction calls arbitrary: s) (simp_all add: tables_call)
  have p: "tables n (app_part (post_synch N p data s))" if "tables n (app_part s)" for p data and N :: "'b node" and s
    using that by (simp add: post_synch_def calls split: prod.split)
  assume "tables n (app_part s)"
  then show ?thesis using p [of _ N] by (simp add: tcpip_uipcall_def Let_def p split: option.split)
qed

section \<open>The exit of a process\<close>

lemma unlisten_all_conns [simp]:
  "uip_conns (unlisten_all p is s) = uip_conns s" "conn_apps (app_state (unlisten_all p is s)) = conn_apps (app_state s)"
  "uip_udp_conns (unlisten_all p is s) = uip_udp_conns s" "udp_apps (app_state (unlisten_all p is s)) = udp_apps (app_state s)"
  "length (listenports (app_state (unlisten_all p is s))) = length (listenports (app_state s))"
  by (induction "is" arbitrary: s) (simp_all add: Let_def uip_unlisten_def split: option.split)

lemma unlisten_all_tables:
  "tables n (app_part s) \<Longrightarrow> set is \<subseteq> {..<length (listenports (app_state s))} \<Longrightarrow> tables n (app_part (unlisten_all p is s))"
  by (induction "is" arbitrary: s) (simp_all add: Let_def tables_release listen_ports)

lemma unlisten_all_ports:
  assumes "i < length (listenports (app_state s))" and "distinct is" and "set is \<subseteq> {..<length (listenports (app_state s))}"
  shows "listenports (app_state (unlisten_all p is s)) ! i =
     (if i \<in> set is \<and> lp_p (listenports (app_state s) ! i) = p then \<lparr>lp_port = 0, lp_p = PROCESS_NONE\<rparr> else listenports (app_state s) ! i)"
  using assms by (induction "is" arbitrary: s) (auto simp: Let_def listen_ports nth_list_update)

lemma all_indices: "set [0..<n] \<subseteq> {..<n}"
  by auto

lemma exited_fields:
  "conn_apps (app_state (exited p s)) = map (\<lambda>a. if app_p a = p then a\<lparr>app_p := PROCESS_NONE\<rparr> else a) (conn_apps (app_state s))"
  "uip_conns (exited p s) = map2 (\<lambda>c a. if app_p a = p then c\<lparr>tcpstateflags := UIP_CLOSED\<rparr> else c) (uip_conns s) (conn_apps (app_state s))"
  "uip_udp_conns (exited p s) = map2 (\<lambda>c a. if app_p a = p then c\<lparr>udp_lport := 0\<rparr> else c) (uip_udp_conns s) (udp_apps (app_state s))"
  "listenports (app_state (exited p s)) = listenports (app_state (unlisten_all p [0..<length (listenports (app_state s))] s))"
  by (simp_all add: exited_def Let_def)

lemma exited_listenports:
  "listenports (app_state (exited p s)) =
     map (\<lambda>l. if lp_p l = p then \<lparr>lp_port = 0, lp_p = PROCESS_NONE\<rparr> else l) (listenports (app_state s))"
  by (rule nth_equalityI) (simp_all add: exited_fields unlisten_all_ports [OF _ distinct_upt all_indices])

lemma tables_exited: "tables n (app_part s) \<Longrightarrow> tables n (app_part (exited p s))"
  using unlisten_all_tables [OF _ all_indices, of n s p]
  by (auto simp: exited_def Let_def tables_def app_part_def)


section \<open>Every reachable state\<close>

definition node_inv :: "'u node \<Rightarrow> 'u tcpip uip_state \<Rightarrow> bool" where
  "node_inv N s \<longleftrightarrow> uip_inv (stack N) s \<and> tables (length (uip_conns s)) (app_part s)"

lemma node_process:
  assumes "node_inv N s" and "\<And>i. flag \<in> {UIP_TIMER, UIP_POLL_REQUEST} \<Longrightarrow> uip_conn s = Some i \<Longrightarrow> i < length (uip_conns s)"
    and "uip_process (stack N) flag s = Some t"
  shows "node_inv N t" and "length (uip_conns t) = length (uip_conns s)"
proof -
  have app: "tables n (app_part (UIP_APPCALL (stack N) x))" "tables n (app_part (UIP_UDP_APPCALL (stack N) x))"
    if "tables n (app_part x)" for n x using that by (simp_all add: stack_def tables_uipcall)
  show l: "length (uip_conns t) = length (uip_conns s)" using node.moves_process [OF assms(3)] by (simp add: moves_def)
  have "uip_inv (stack N) t" using assms(1) by (intro node.inv_process [OF _ assms(2,3)]) (simp_all add: node_inv_def)
  moreover have "tables (length (uip_conns s)) (app_part t)"
    using assms(1) by (intro app_part_kept [where I = "tables (length (uip_conns s))", OF app _ assms(3)]) (simp_all add: node_inv_def)
  ultimately show "node_inv N t" by (simp add: node_inv_def l)
qed

lemma node_inv_small [simp]:
  "node_inv N (start_periodic_tcp_timer s) = node_inv N s" "node_inv N (tcp_attach cur i data s) = node_inv N s"
  "node_inv N (post e s) = node_inv N s" "node_inv N (output_packet N' s) = node_inv N s"
  "node_inv N (tc (user_update h) s) = node_inv N s" "node_inv N (s\<lparr>uip_conn := c\<rparr>) = node_inv N s"
  "node_inv N (s\<lparr>uip_udp_conn := k\<rparr>) = node_inv N s" "node_inv N (s\<lparr>uip_buf := m, uip_len := w\<rparr>) = node_inv N s"
  "node_inv N (s\<lparr>uip_udp_conns := us\<rparr>) = node_inv N s" "node_inv N (s\<lparr>lastport := w\<rparr>) = node_inv N s"
  "node_inv N (tc (periodic_expired_update b) s) = node_inv N s" "node_inv N (udp_attach cur i data s) = node_inv N s"
proof -
  have c: "uip_conns (start_periodic_tcp_timer s) = uip_conns s" "uip_conns (tcp_attach cur i data s) = uip_conns s"
    "uip_conns (post e s) = uip_conns s" "uip_conns (output_packet N' s) = uip_conns s"
    by (simp_all add: start_periodic_tcp_timer_def tcp_attach_def post_def output_packet_def tcpip_output_def split: option.split prod.split)
  show "node_inv N (start_periodic_tcp_timer s) = node_inv N s" "node_inv N (tcp_attach cur i data s) = node_inv N s"
    "node_inv N (post e s) = node_inv N s" "node_inv N (output_packet N' s) = node_inv N s"
    by (simp_all add: node_inv_def uip_inv_def c)
  show "node_inv N (tc (user_update h) s) = node_inv N s" "node_inv N (s\<lparr>uip_conn := c\<rparr>) = node_inv N s"
    "node_inv N (s\<lparr>uip_udp_conn := k\<rparr>) = node_inv N s" "node_inv N (s\<lparr>uip_buf := m, uip_len := w\<rparr>) = node_inv N s"
    "node_inv N (s\<lparr>uip_udp_conns := us\<rparr>) = node_inv N s" "node_inv N (s\<lparr>lastport := w\<rparr>) = node_inv N s"
    "node_inv N (tc (periodic_expired_update b) s) = node_inv N s" "node_inv N (udp_attach cur i data s) = node_inv N s"
    by (simp_all add: node_inv_def uip_inv_def udp_attach_def tables_def app_part_def)
qed

lemma node_periodic:
  assumes "node_inv N s" and "set is \<subseteq> {..<length (uip_conns s)}" and "periodic_conns N is s = Some t"
  shows "node_inv N t"
  using assms
proof (induction "is" arbitrary: s)
  case (Cons i "is")
  show ?case
  proof (cases "tcpstateflags (conn s i) = UIP_CLOSED")
    case False
    define r where "r = tc (periodic_expired_update (\<lambda>_. False)) s\<lparr>uip_conn := Some i\<rparr>"
    have r: "node_inv N r" "length (uip_conns r) = length (uip_conns s)" using Cons.prems(1) by (simp_all add: r_def)
    obtain u where u: "uip_process (stack N) UIP_TIMER r = Some u" "periodic_conns N is (output_packet N u) = Some t"
      using Cons.prems(3) False by (auto simp: uip_periodic_def r_def split: option.split_asm)
    have "i < length (uip_conns r)" "uip_conn r = Some i" using Cons.prems(2) r(2) by (simp_all add: r_def)
    then have "node_inv N u" "length (uip_conns u) = length (uip_conns s)"
      using node_process [OF r(1) _ u(1)] r(2) by auto
    moreover have "uip_conns (output_packet N u) = uip_conns u"
      by (simp add: output_packet_def tcpip_output_def split: option.split prod.split)
    ultimately show ?thesis using Cons.prems(2) by (intro Cons.IH [OF _ _ u(2)]) simp_all
  qed (use Cons in simp)
qed simp

lemma node_exited: "node_inv N s \<Longrightarrow> node_inv N (exited p s)"
proof -
  assume inv: "node_inv N s"
  then have t: "tables (length (uip_conns s)) (app_part s)" and l: "length (conn_apps (app_state s)) = length (uip_conns s)"
    by (simp_all add: node_inv_def tables_def app_part_def)
  have "conn_inv (stack N) (conn (exited p s) i)" if "i < length (uip_conns s)" for i
    using inv that l by (auto simp: exited_fields node_inv_def dest: inv_conn intro: conn_inv_closed conn_inv_sized)
  then show ?thesis
    using tables_exited [OF t, of p] l by (auto simp: node_inv_def uip_inv_def exited_fields)
qed

lemma node_event:
  assumes "node_inv N s" and "\<And>i. ev = POLL (TCP_POLL (Some i)) \<Longrightarrow> i < length (uip_conns s)" and "eventhandler N ev s = Some t"
  shows "node_inv N t"
proof -
  have inp: "node_inv N u" if h: "packet_input N s = Some u" for u
  proof (cases "uip_len s > 0")
    case True
    then obtain v where "uip_process (stack N) UIP_DATA (check_for_tcp_syn N s) = Some v" "u = output_packet N v"
      using h by (auto simp: packet_input_def)
    moreover have "node_inv N (check_for_tcp_syn N s)" using assms(1) by (simp add: check_for_tcp_syn_def)
    ultimately show ?thesis using node_process(1) [of N "check_for_tcp_syn N s" UIP_DATA v] by simp
  qed (use h assms(1) in \<open>simp add: packet_input_def\<close>)
  have poll: "node_inv N u" if "uip_process (stack N) UIP_POLL_REQUEST (s\<lparr>uip_conn := Some i\<rparr>) = Some u" "i < length (uip_conns s)" for i u
    using node_process(1) [OF _ _ that(1)] assms(1) that(2) by simp
  have udp: "node_inv N u" if "uip_process (stack N) UIP_UDP_TIMER (s\<lparr>uip_udp_conn := i\<rparr>) = Some u" for i u
    using node_process(1) [OF _ _ that] assms(1) by simp
  show ?thesis
    using assms by (auto simp: eventhandler_def split: event.split_asm post.split_asm option.split_asm if_split_asm
        intro: inp poll udp node_exited node_periodic [OF _ all_indices])
qed

inductive node_step :: "'u node \<Rightarrow> 'u tcpip uip_state \<Rightarrow> 'u tcpip uip_state \<Rightarrow> bool" for N where
  packet_arrives: "node_step N s (s\<lparr>uip_buf := m, uip_len := n\<rparr>)"
| event: "eventhandler N ev s = Some t \<Longrightarrow> (\<And>i. ev = POLL (TCP_POLL (Some i)) \<Longrightarrow> i < length (uip_conns s)) \<Longrightarrow> node_step N s t"
| timer: "node_step N s (tc (periodic_expired_update (\<lambda>_. True)) s)"
| connect: "tcp_connect (stack N) cur raddr port data s = Some (r, t) \<Longrightarrow> node_step N s t"
| new_udp: "udp_new cur ra port data s = Some (r, t) \<Longrightarrow> node_step N s t"
| listen: "node_step N s (tcp_listen cur port s)"
| unlisten: "node_step N s (tcp_unlisten cur port s)"
| attach: "node_step N s (tcp_attach cur i data s)"
| request_poll: "node_step N s (tcpip_poll_tcp c s)"
| own_state: "node_step N s (tc (user_update h) s)"

definition zeroed :: "'u tcpip uip_state \<Rightarrow> bool" where
  "zeroed s \<longleftrightarrow> (\<forall>c \<in> set (uip_conns s). mss c = 0 \<and> initialmss c = 0 \<and> conn_len c = 0 \<and> nrtx c = 0) \<and>
     length (conn_apps (app_state s)) = length (uip_conns s) \<and>
     length (listenports (app_state s)) = length (uip_listenports s)"

inductive node_reachable :: "'u node \<Rightarrow> 'u tcpip uip_state \<Rightarrow> bool" for N where
  boot: "zeroed s \<Longrightarrow> node_reachable N (tcpip_start s)"
| step: "node_reachable N s \<Longrightarrow> node_step N s t \<Longrightarrow> node_reachable N t"

lemma node_listen: "node_inv N s \<Longrightarrow> node_inv N (tcp_listen cur port s)" "node_inv N s \<Longrightarrow> node_inv N (tcp_unlisten cur port s)"
proof -
  have "uip_conns (tcp_listen cur port s) = uip_conns s" "uip_conns (tcp_unlisten cur port s) = uip_conns s"
    using tcp_part_calls(8,9) [of cur port s] by (simp_all add: tcp_part_def)
  then show "node_inv N s \<Longrightarrow> node_inv N (tcp_listen cur port s)" "node_inv N s \<Longrightarrow> node_inv N (tcp_unlisten cur port s)"
    by (simp_all add: node_inv_def tables_tcp_listen tables_tcp_unlisten uip_inv_def)
qed

lemma node_connect:
  assumes inv: "node_inv N s" and c: "uip_connect (stack N) raddr port s = Some (r, t)"
  shows "node_inv N t"
proof -
  define f where "f p = (\<lambda>c :: uip_conn_t. c\<lparr>tcpstateflags := UIP_SYN_SENT, snd_nxt := iss s, rcv_nxt := (0, 0, 0, 0),
                   initialmss := UIP_TCP_MSS (stack N), mss := UIP_TCP_MSS (stack N), conn_len := 1, nrtx := 0, conn_timer := 1,
                   rto := UIP_RTO, sa := 0, sv := 16, lport := uip_htons p, rport := port, ripaddr := raddr\<rparr>)" for p
  obtain p k where p: "next_port (conn_user (uip_conns s)) (lastport s) = Some p" and k: "unused_from (uip_conns s) 0 None = Some k"
    using c by (auto simp: uip_connect_def Let_def split: option.split_asm)
  show ?thesis
  proof (cases k)
    case (Some i)
    then have t: "t = upd_conn i (f p) (s\<lparr>lastport := p\<rparr>)" using c p k by (simp add: uip_connect_def Let_def f_def)
    have inv': "uip_inv (stack N) (s\<lparr>lastport := p\<rparr>)" using inv by (simp add: node_inv_def uip_inv_def)
    have "uip_inv (stack N) t"
      unfolding t using inv_others [OF inv'] by (intro uip_inv_upd) (simp_all add: f_def conn_inv_def conn_sized_def)
    then show ?thesis using inv by (simp add: t node_inv_def)
  qed (use inv c p k in \<open>auto simp: uip_connect_def Let_def\<close>)
qed

lemma node_inv_step: "node_step N s t \<Longrightarrow> node_inv N s \<Longrightarrow> node_inv N t"
proof (induction rule: node_step.induct)
  case (event ev s t)
  then show ?case using node_event by blast
next
  case (connect cur raddr port data s r t)
  then obtain r' u where u: "uip_connect (stack N) raddr port s = Some (r', u)" "t = u \<or> (\<exists>i. t = tcpip_poll_tcp (Some i) (tcp_attach cur i data u))"
    by (auto simp: tcp_connect_def split: option.split_asm prod.split_asm)
  then show ?case using node_connect [OF connect.prems u(1)] by (auto simp: tcpip_poll_tcp_def)
next
  case (new_udp cur ra port data s r t)
  have u: "node_inv N (s\<lparr>lastport := p, uip_udp_conns := us\<rparr>)" for p us
    using new_udp.prems node_inv_small(9,10) by blast
  from new_udp show ?case
    unfolding udp_new_def uip_udp_new_def Let_def by (auto simp: u split: option.split_asm)
qed (simp_all add: node_listen tcpip_poll_tcp_def)

lemma node_inv_reachable: "node_reachable N s \<Longrightarrow> node_inv N s"
proof (induction rule: node_reachable.induct)
  case (boot s)
  have "uip_inv (stack N) (tcpip_start s)"
    using boot by (auto simp: zeroed_def uip_inv_def tcpip_start_def uip_init_def conn_inv_def conn_sized_def unacked_states_def)
  moreover have "tables (length (uip_conns s)) (app_part (tcpip_start s))"
    using boot by (simp add: zeroed_def tables_def app_part_def tcpip_start_def uip_init_def image_mset_const_eq comp_def)
  ultimately show ?case by (simp add: node_inv_def tcpip_start_def uip_init_def)
qed (rule node_inv_step)

section \<open>What holds of every node\<close>

lemma stack_mss: "UIP_TCP_MSS (stack N) = UIP_TCP_MSS (node_env N)"
  by (simp add: stack_def)

text \<open>C10: Whatever packets arrive, and whatever the processes of the node do with the calls that the model
  offers them, a connection that waits for its SYN or its FIN to be acknowledged has something
  outstanding, so that its retransmission timer runs; no connection has more in flight than a
  segment of the size announced, or its SYN or FIN; and the counter \<open>nrtx\<close>, which is
  set back when the application sends again, never exceeds \<open>UIP_MAXRTX\<close>.\<close>

theorem waiting_connections_are_timed:
  assumes "node_reachable N s" and "i < length (uip_conns s)"
  shows "(tcpstate s i \<in> {UIP_SYN_RCVD, UIP_SYN_SENT, UIP_FIN_WAIT_1, UIP_CLOSING, UIP_LAST_ACK} \<longrightarrow> uip_outstanding (conn s i)) \<and>
    conn_len (conn s i) \<le> max 1 (UIP_TCP_MSS (node_env N)) \<and> mss (conn s i) \<le> UIP_TCP_MSS (node_env N) \<and>
    nrtx (conn s i) \<le> UIP_MAXRTX"
  using node_inv_reachable [OF assms(1)] assms(2) stack_mss [of N]
  by (auto simp: node_inv_def conn_inv_def conn_sized_def unacked_states_def dest!: inv_conn [of "stack N" s i])

text \<open>A node with room for one connection, whose processes do nothing.\<close>

definition example_node :: "unit node" where
  "example_node = \<lparr>node_env = example_env, node_process = (\<lambda>p data s. ((), [])), node_output = None\<rparr>"

definition example_tcpip :: "unit tcpip" where
  "example_tcpip = \<lparr>conn_apps = [\<lparr>app_p = 0, app_data = 0\<rparr>], udp_apps = [], listenports = [\<lparr>lp_port = 0, lp_p = 0\<rparr>, \<lparr>lp_port = 0, lp_p = 0\<rparr>],
     periodic_expired = False, posted = [], user = ()\<rparr>"

definition example_start :: "unit tcpip uip_state" where
  "example_start = tcpip_start (example_state example_tcpip
     \<lparr>ripaddr = (0, 0, 0, 0), lport = 0, rport = 0, rcv_nxt = (0, 0, 0, 0), snd_nxt = (0, 0, 0, 0), conn_len = 0, mss = 0, initialmss = 0,
      sa = 0, sv = 0, rto = 0, tcpstateflags = 0, conn_timer = 0, nrtx = 0\<rparr>)"

definition example_connected :: "unit tcpip uip_state" where
  "example_connected = (case tcp_connect (stack example_node) 5 (10, 0, 0, 2) 0x5000 7 example_start of
     Some (_, s) \<Rightarrow> s | None \<Rightarrow> example_start)"

lemma example_start_eval:
  "uip_conns example_start = [\<lparr>ripaddr = (0, 0, 0, 0), lport = 0, rport = 0, rcv_nxt = (0, 0, 0, 0), snd_nxt = (0, 0, 0, 0), conn_len = 0,
     mss = 0, initialmss = 0, sa = 0, sv = 0, rto = 0, tcpstateflags = 0, conn_timer = 0, nrtx = 0\<rparr>]" "lastport example_start = 1024"
  by (simp_all add: example_start_def tcpip_start_def uip_init_def example_state_def)

lemma example_next_port: "next_port (conn_user (uip_conns example_start)) 1024 = Some 1025"
  by (subst next_port.simps) (simp add: conn_user_def first_from_find example_start_eval(1))

lemma example_unused: "unused_from (uip_conns example_start) 0 None = Some (Some 0)"
  by (simp add: unused_from_find example_start_eval(1))

lemmas example_search = example_next_port [unfolded example_start_eval(1)] example_unused [unfolded example_start_eval(1)]

lemma example_connected_eval:
  "tcp_connect (stack example_node) 5 (10, 0, 0, 2) 0x5000 7 example_start = Some (Some 0, example_connected)"
  "length (uip_conns example_connected) = 1" "tcpstate example_connected 0 = UIP_SYN_SENT" "conn_len (conn example_connected 0) = 1"
proof -
  note e = tcp_connect_def uip_connect_def example_search example_start_eval Let_def upd_conn_def tcpip_poll_tcp_def post_def tcp_attach_def
  show "tcp_connect (stack example_node) 5 (10, 0, 0, 2) 0x5000 7 example_start = Some (Some 0, example_connected)"
    "length (uip_conns example_connected) = 1" "tcpstate example_connected 0 = UIP_SYN_SENT" "conn_len (conn example_connected 0) = 1"
    by (simp_all add: example_connected_def e)
qed

lemma example_reachable: "node_reachable example_node example_connected"
proof (rule node_reachable.step)
  show "node_reachable example_node example_start"
    unfolding example_start_def by (rule node_reachable.boot) (simp add: zeroed_def example_state_def example_tcpip_def)
  show "node_step example_node example_start example_connected" using example_connected_eval(1) by (rule node_step.connect)
qed

theorem waiting_connections_are_timed_witness:
  "node_reachable example_node example_connected \<and> tcpstate example_connected 0 = UIP_SYN_SENT \<and> uip_outstanding (conn example_connected 0)"
  using waiting_connections_are_timed [OF example_reachable, of 0] example_reachable example_connected_eval(2,3) by simp

text \<open>C25: The process and the stack agree on the ports that are listened on: in every reachable state of the
  node, the two tables hold the same ports, each as often, so that a SYN is accepted exactly when some
  process listens on its port, and a process that finds room in one table finds it in the other.\<close>

theorem listening_ports_agree:
  assumes "node_reachable N s"
  shows "mset (map lp_port (listenports (app_state s))) = mset (uip_listenports s)"
  using node_inv_reachable [OF assms] by (simp add: node_inv_def tables_def app_part_def)

theorem listening_ports_agree_witness:
  "node_reachable example_node (tcp_listen 5 0x5000 example_connected) \<and>
   mset (map lp_port (listenports (app_state (tcp_listen 5 0x5000 example_connected)))) = mset (uip_listenports (tcp_listen 5 0x5000 example_connected))"
proof -
  have "node_reachable example_node (tcp_listen 5 0x5000 example_connected)"
    by (rule node_reachable.step [OF example_reachable node_step.listen])
  then show ?thesis using listening_ports_agree by simp
qed


text \<open>C4: One call of \<open>uip_process\<close> moves a connection only along the edges of the TCP state
  diagram as the stack implements it, whatever the call is for and whatever the process of the
  connection does with the calls \<open>uip_send\<close>, \<open>uip_close\<close>,
  \<open>uip_abort\<close>, \<open>uip_stop\<close>, \<open>uip_restart\<close>,
  \<open>tcp_markconn\<close>, \<open>tcp_listen\<close> and \<open>tcp_unlisten\<close>:
  connections are opened passively only out of CLOSED or TIME-WAIT, established only by the
  handshake, and closed through FIN-WAIT, CLOSING, TIME-WAIT and LAST-ACK or by a reset. A process
  that opens a connection while it is called back is outside.\<close>

theorem tcp_state_machine:
  assumes "uip_process (stack N) flag s = Some t" and "i < length (uip_conns s)"
  shows "tcp_move (tcpstate s i) (tcpstate t i)"
proof -
  have "moves s t" using assms(1) by (rule node.moves_process)
  then have "length (uip_conns t) = length (uip_conns s)" "tcp_move (states s ! i) (states t ! i)" using assms(2) by (simp_all add: moves_def)
  then show ?thesis using assms(2) by (simp add: states_def)
qed

definition example_waiting :: "unit tcpip uip_state" where
  "example_waiting = example_state example_tcpip (example_conn\<lparr>tcpstateflags := UIP_TIME_WAIT, conn_timer := 119\<rparr>)"

theorem tcp_state_machine_witness:
  "\<exists>t. uip_process (stack example_node) UIP_TIMER example_waiting = Some t \<and> tcpstate t 0 = UIP_CLOSED \<and>
     tcp_move (tcpstate example_waiting 0) (tcpstate t 0)"
proof -
  obtain t where t: "uip_process (stack example_node) UIP_TIMER example_waiting = Some t"
    by (simp add: uip_process_def example_waiting_def example_state_def Let_def)
  then have "tcpstate t 0 = UIP_CLOSED"
    by (auto simp: uip_process_def example_waiting_def example_state_def example_conn_def periodic_def upd_conn_def Let_def)
  with tcp_state_machine [OF t, of 0] t show ?thesis by (auto simp: example_waiting_def example_state_def)
qed

end
