(* ===== verification/UipRuns.thy ===== *)
theory UipRuns
  imports Tcpip
begin

text \<open>
  Runs of the TCP/IP stack over several calls: a peer that never answers, and the
  search for a free port.
\<close>

section \<open>A peer that never answers\<close>

primrec ticks :: "'a uip_env \<Rightarrow> nat \<Rightarrow> nat \<Rightarrow> 'a uip_state \<Rightarrow> 'a uip_state option" where
  "ticks E i 0 s = Some s"
| "ticks E i (Suc n) s = (case uip_periodic E i s of None \<Rightarrow> None | Some t \<Rightarrow> ticks E i n t)"

text \<open>The ticks until the connection is given up: no timeout is longer than 48.\<close>

definition patience :: "uip_conn_t \<Rightarrow> nat" where
  "patience c = unat (conn_timer c) + 49 * (8 - unat (nrtx c)) + 1"

lemma u8_dec: "unat (x - 1 :: u8) = unat x - 1" if "x \<noteq> 0"
  using that by (simp add: unat_minus_one)

lemma timeouts: "unat (push_bit (if n > 4 then 4 else unat n) UIP_RTO :: u8) \<le> 48" for n :: u8
proof -
  have "push_bit k (3 :: u8) \<le> 48" if "k \<in> {0, 1, 2, 3, 4}" for k :: nat using that by auto
  moreover have "(if n > 4 then 4 else unat n) \<in> {0, 1, 2, 3, 4 :: nat}"
  proof -
    have "unat n = 0 \<or> unat n = 1 \<or> unat n = 2 \<or> unat n = 3 \<or> unat n = 4" if "n \<le> 4"
    proof -
      have "unat n \<le> 4" using that by (simp add: word_le_nat_alt)
      then show ?thesis by arith
    qed
    then show ?thesis by (auto simp: not_less)
  qed
  ultimately have "push_bit (if n > 4 then 4 else unat n) UIP_RTO \<le> (48 :: u8)" by blast
  then show ?thesis by (simp add: word_le_nat_alt)
qed

context uip_application begin

lemma app_conn_kept:
  assumes "i < length (uip_conns s)"
  shows "tcpstate (UIP_APPCALL E s) i = tcpstate s i" and "conn_len (conn (UIP_APPCALL E s) i) = conn_len (conn s i)"
    and "conn_timer (conn (UIP_APPCALL E s) i) = conn_timer (conn s i)" and "nrtx (conn (UIP_APPCALL E s) i) = nrtx (conn s i)"
proof -
  have k: "conn_kept (conn s i) (conn (UIP_APPCALL E s) i)" using app_conns(2) [OF assms] .
  then show "tcpstate (UIP_APPCALL E s) i = tcpstate s i" by (simp add: conn_kept_def)
  obtain x where "conn (UIP_APPCALL E s) i = (conn s i)\<lparr>tcpstateflags := x\<rparr>" using k unfolding conn_kept_def by blast
  then show "conn_len (conn (UIP_APPCALL E s) i) = conn_len (conn s i)"
    "conn_timer (conn (UIP_APPCALL E s) i) = conn_timer (conn s i)" "nrtx (conn (UIP_APPCALL E s) i) = nrtx (conn s i)" by simp_all
qed

lemma retransmit_conn:
  assumes "i < length (uip_conns s)"
  shows "tcpstate (retransmit E i s) i = tcpstate s i" and "conn_len (conn (retransmit E i s) i) = conn_len (conn s i)"
    and "unat (conn_timer (conn (retransmit E i s) i)) \<le> 48" and "nrtx (conn (retransmit E i s) i) = nrtx (conn s i) + 1"
  using assms timeouts [of "nrtx (conn s i)"]
  by (simp_all add: retransmit_def Let_def conn_upd_same app_conn_kept)

text \<open>One tick of a connection that waits for an acknowledgement.\<close>

lemma tick_waiting:
  assumes i: "i < length (uip_conns s)" and out: "uip_outstanding (conn s i)"
    and st: "tcpstate s i \<notin> {UIP_CLOSED, UIP_TIME_WAIT, UIP_FIN_WAIT_2}" and n: "nrtx (conn s i) \<le> UIP_MAXRTX"
  shows "\<exists>t. uip_periodic E i s = Some t \<and> length (uip_conns t) = length (uip_conns s) \<and>
    (tcpstate t i = UIP_CLOSED \<or> tcpstate t i = tcpstate s i \<and> uip_outstanding (conn t i) \<and> nrtx (conn t i) \<le> UIP_MAXRTX \<and>
       patience (conn t i) < patience (conn s i))"
proof -
  define r where "r = s\<lparr>uip_conn := Some i, uip_sappdata := UIP_LLH_LEN E + UIP_IPTCPH_LEN, uip_appdata := UIP_LLH_LEN E + UIP_IPTCPH_LEN,
    iss := inc4 (iss s), uip_len := 0, uip_slen := 0\<rparr>"
  define d where "d = upd_conn i (\<lambda>c. c\<lparr>conn_timer := conn_timer c - 1\<rparr>) r"
  have r: "i < length (uip_conns r)" "conn r i = conn s i" "length (uip_conns r) = length (uip_conns s)" using i by (simp_all add: r_def)
  have d: "i < length (uip_conns d)" "conn d i = (conn s i)\<lparr>conn_timer := conn_timer (conn s i) - 1\<rparr>" "length (uip_conns d) = length (uip_conns s)"
    using r by (simp_all add: d_def conn_upd_same)
  have ne: "tcpstateflags (conn s i) \<noteq> UIP_CLOSED" "tcpstateflags (conn s i) \<noteq> UIP_TIME_WAIT" "tcpstateflags (conn s i) \<noteq> UIP_FIN_WAIT_2"
    using st by auto
  define g where "g = tcp_send_nodata E i (set8 E off_flags (TCP_RST OR TCP_ACK) (UIP_APPCALL E ((upd_conn i (tcpstateflags_update (\<lambda>_. UIP_CLOSED)) d)\<lparr>uip_flags := UIP_TIMEDOUT\<rparr>)))"
  define t where "t = (if conn_timer (conn s i) \<noteq> 0 then drop_packet d else if rtx_exhausted (conn d i) then g else retransmit E i d)"
  have "uip_periodic E i s = Some t"
    using ne out r unfolding t_def g_def
    by (simp add: uip_periodic_def uip_process_def Let_def periodic_def flip: r_def) (simp add: r_def d_def Let_def)
  moreover have "length (uip_conns t) = length (uip_conns s)"
    using d(3) by (simp add: t_def g_def app_conns retransmit_def Let_def)
  moreover have "tcpstate g i = UIP_CLOSED"
    using d(1) by (simp add: g_def app_conn_kept conn_upd_same)
  moreover have "patience (conn d i) < patience (conn s i)" if "conn_timer (conn s i) \<noteq> 0"
  proof -
    have "unat (conn_timer (conn s i)) \<noteq> 0" using that by (simp add: unat_eq_zero)
    then show ?thesis using that u8_dec [of "conn_timer (conn s i)"] by (simp add: patience_def d)
  qed
  moreover have step: "nrtx (conn s i) + 1 \<le> UIP_MAXRTX \<and> unat (nrtx (conn s i) + 1) = unat (nrtx (conn s i)) + 1" if "\<not> rtx_exhausted (conn d i)"
  proof -
    have "nrtx (conn s i) \<noteq> UIP_MAXRTX" using that by (simp add: rtx_exhausted_def d)
    then have "unat (nrtx (conn s i)) < 8" using n by (simp add: word_le_nat_alt word_unat_eq_iff)
    then show ?thesis by (simp add: word_le_nat_alt unat_word_ariths)
  qed
  then have "patience (conn (retransmit E i d) i) < patience (conn s i) \<and> nrtx (conn (retransmit E i d) i) \<le> UIP_MAXRTX" if "\<not> rtx_exhausted (conn d i)"
  proof -
    let ?k = "unat (nrtx (conn s i))"
    have "?k + 1 \<le> 8" using step that by (auto simp: word_le_nat_alt)
    then have "49 * (8 - ?k) = 49 * (8 - (?k + 1)) + 49" by simp
    then show ?thesis using step that retransmit_conn(3,4) [OF d(1)] by (simp add: patience_def d)
  qed
  ultimately show ?thesis
    using d out n retransmit_conn(1,2) [OF d(1)] by (auto simp: t_def)
qed

lemma waiting_gives_up:
  assumes "i < length (uip_conns s)" and "uip_outstanding (conn s i)"
    and "tcpstate s i \<notin> {UIP_CLOSED, UIP_TIME_WAIT, UIP_FIN_WAIT_2}" and "nrtx (conn s i) \<le> UIP_MAXRTX"
  shows "\<exists>n \<le> patience (conn s i). \<exists>t. ticks E i n s = Some t \<and> tcpstate t i = UIP_CLOSED"
  using assms
proof (induction "patience (conn s i)" arbitrary: s rule: less_induct)
  case less
  obtain t where t: "uip_periodic E i s = Some t" "length (uip_conns t) = length (uip_conns s)"
    "tcpstate t i = UIP_CLOSED \<or> tcpstate t i = tcpstate s i \<and> uip_outstanding (conn t i) \<and> nrtx (conn t i) \<le> UIP_MAXRTX \<and>
       patience (conn t i) < patience (conn s i)"
    using tick_waiting [OF less.prems] by blast
  show ?case
  proof (cases "tcpstate t i = UIP_CLOSED")
    case True
    have "1 \<le> patience (conn s i)" by (simp add: patience_def)
    moreover have "ticks E i 1 s = Some t" using t(1) by simp
    ultimately show ?thesis using True by blast
  next
    case False
    with t(3) less.hyps [of t] less.prems t(2) obtain n u where "n \<le> patience (conn t i)" "ticks E i n t = Some u" "tcpstate u i = UIP_CLOSED"
      by auto
    moreover have "ticks E i (Suc n) s = Some u" using t(1) \<open>ticks E i n t = Some u\<close> by simp
    moreover have "Suc n \<le> patience (conn s i)" using False t(3) \<open>n \<le> patience (conn t i)\<close> by linarith
    ultimately show ?thesis by blast
  qed
qed

end

text \<open>C12: A connection whose peer never answers is given up: in any reachable state of a node, if a connection
  has something outstanding and is not merely waiting out FIN-WAIT-2 or TIME-WAIT, then it is closed
  after at most 648 ticks of the periodic timer, whatever its process does when it is asked to send
  again.\<close>

theorem silent_peer_is_given_up:
  assumes "node_reachable N s" and "i < length (uip_conns s)" and "uip_outstanding (conn s i)"
    and "tcpstate s i \<notin> {UIP_CLOSED, UIP_TIME_WAIT, UIP_FIN_WAIT_2}"
  shows "\<exists>n \<le> 648. \<exists>t. ticks (stack N) i n s = Some t \<and> tcpstate t i = UIP_CLOSED"
proof -
  have "nrtx (conn s i) \<le> UIP_MAXRTX"
    using node_inv_reachable [OF assms(1)] assms(2) by (auto simp: node_inv_def conn_inv_def conn_sized_def dest!: inv_conn)
  from node.waiting_gives_up [OF assms(2-4) this, of N] obtain n t where
    "n \<le> patience (conn s i)" "ticks (stack N) i n s = Some t" "tcpstate t i = UIP_CLOSED" by blast
  moreover have "patience (conn s i) \<le> 648"
    using u8_bound [of "conn_timer (conn s i)"] by (simp add: patience_def)
  ultimately show ?thesis by (meson le_trans)
qed

theorem silent_peer_is_given_up_witness:
  "\<exists>n \<le> 648. \<exists>t. ticks (stack example_node) 0 n example_connected = Some t \<and> tcpstate t 0 = UIP_CLOSED"
  using silent_peer_is_given_up [OF example_reachable, of 0] example_connected_eval by simp

section \<open>Opening a connection\<close>

lemma next_port_step:
  "next_port (\<lambda>p. Some (u p)) prev = (let p = if prev + 1 \<ge> 32000 then 4096 else prev + 1 in if u p \<noteq> None then next_port (\<lambda>p. Some (u p)) p else Some p)"
  by (subst next_port.simps) (simp add: Let_def)

lemma next_port_below:
  assumes "u q = None" and "unat prev < unat q" and "unat q < 32000"
  shows "\<exists>p. next_port (\<lambda>p. Some (u p)) prev = Some p"
  using assms(2)
proof (induction "unat q - unat prev" arbitrary: prev rule: less_induct)
  case less
  have up: "unat (prev + 1) = unat prev + 1" using less.prems u16_bound [of q] by (simp add: unat_word_ariths)
  then have n: "\<not> prev + 1 \<ge> 32000" using less.prems assms(3) by (simp add: word_le_nat_alt)
  show ?case
  proof (cases "u (prev + 1) \<noteq> None")
    case True
    then have "prev + 1 \<noteq> q" using assms(1) by blast
    then have "unat (prev + 1) < unat q" using up less.prems by (metis Suc_eq_plus1 Suc_lessI word_unat_eq_iff)
    then have "\<exists>p. next_port (\<lambda>p. Some (u p)) (prev + 1) = Some p" using up by (intro less.hyps) simp_all
    then show ?thesis using n True by (subst next_port_step) simp
  next
    case False
    then show ?thesis using n by (subst next_port_step) simp
  qed
qed

lemma next_port_total:
  assumes "u q = None" and "4096 \<le> unat q" and "unat q < 32000"
  shows "\<exists>p. next_port (\<lambda>p. Some (u p)) prev = Some p"
proof -
  have start: "\<exists>p. next_port (\<lambda>p. Some (u p)) prev = Some p" if "prev + 1 \<ge> 32000" for prev
  proof (cases "u 4096 \<noteq> None")
    case True
    then have "q \<noteq> 4096" using assms(1) by blast
    then have "unat q \<noteq> unat (4096 :: u16)" unfolding word_unat_eq_iff .
    then have "unat q \<noteq> 4096" by simp
    then have "\<exists>p. next_port (\<lambda>p. Some (u p)) 4096 = Some p" using assms by (intro next_port_below [where u = u and q = q, OF assms(1)]) simp_all
    then show ?thesis using that True by (subst next_port_step) simp
  qed (use that in \<open>subst next_port_step, simp\<close>)
  have "\<exists>p. next_port (\<lambda>p. Some (u p)) prev = Some p" if "unat prev < 32000" for prev
    using that
  proof (induction "32000 - unat prev" arbitrary: prev rule: less_induct)
    case less
    have up: "unat (prev + 1) = unat prev + 1" using less.prems by (simp add: unat_word_ariths)
    consider "prev + 1 \<ge> 32000" | "\<not> prev + 1 \<ge> 32000" "u (prev + 1) \<noteq> None" | "\<not> prev + 1 \<ge> 32000" "u (prev + 1) = None" by blast
    then show ?case
    proof cases
      case 2
      then have "\<exists>p. next_port (\<lambda>p. Some (u p)) (prev + 1) = Some p" using up by (intro less.hyps) (simp_all add: word_le_nat_alt not_le)
      then show ?thesis using 2 by (subst next_port_step) simp
    next
      case 3
      then show ?thesis by (subst next_port_step) simp
    qed (rule start)
  qed
  moreover have "\<exists>p. next_port (\<lambda>p. Some (u p)) prev = Some p" if "\<not> unat prev < 32000" for prev
  proof (cases "prev = - 1")
    case True
    have "\<exists>p. next_port (\<lambda>p. Some (u p)) 0 = Some p" using assms by (intro next_port_below [where u = u and q = q, OF assms(1)]) simp_all
    then show ?thesis using True by (subst next_port_step) simp
  next
    case False
    then have "1 + prev \<noteq> 0" by (simp add: add_eq_0_iff)
    then have "unat (prev + 1) = unat prev + 1" by (simp add: unatSuc add.commute)
    then show ?thesis using that by (intro start) (simp add: word_le_nat_alt)
  qed
  ultimately show ?thesis by blast
qed

lemma next_port_result: "next_port (\<lambda>p. Some (u p)) prev = Some p \<Longrightarrow> u p = None \<and> unat p < 32000"
  by (rule next_port.raw_induct [where P = "\<lambda>F prev p. F = (\<lambda>p. Some (u p)) \<longrightarrow> u p = None \<and> unat p < 32000", THEN mp])
    (auto simp: Let_def word_le_nat_alt not_le split: if_split_asm)

text \<open>When the search among the connections for a user of a port never ends without finding one, the
  search for a port does not end either.\<close>

lemma next_port_turns:
  assumes "\<And>p. F p \<noteq> Some None"
  shows "next_port F prev = None"
proof -
  have False if "next_port F prev = Some p" for p
    using that
  proof (rule next_port.raw_induct [where P = "\<lambda>G prev p. G = F \<longrightarrow> False", THEN mp, rotated])
  qed (use assms in \<open>auto simp: Let_def bind_eq_Some_conv split: if_split_asm\<close>)
  then show ?thesis by (cases "next_port F prev") auto
qed

lemma unat_of_nat_port: "n < 65536 \<Longrightarrow> unat (word_of_nat n :: u16) = n"
  by (simp add: unsigned_of_nat take_bit_nat_eq_self)

lemma ports_left:
  assumes "finite B" and "card B < 27904"
  obtains q :: u16 where "q \<notin> B" and "4096 \<le> unat q" and "unat q < 32000"
proof -
  let ?A = "(word_of_nat :: nat \<Rightarrow> u16) ` {4096..<32000}"
  have "inj_on (word_of_nat :: nat \<Rightarrow> u16) {4096..<32000}"
  proof (rule inj_onI)
    fix x y :: nat
    assume "x \<in> {4096..<32000}" "y \<in> {4096..<32000}" "(word_of_nat x :: u16) = word_of_nat y"
    moreover from this have "x < 65536" "y < 65536" by (unfold atLeastLessThan_iff) linarith+
    ultimately show "x = y" by (metis unat_of_nat_port)
  qed
  then have "card ?A = card {4096..<32000 :: nat}" by (rule card_image)
  also have "\<dots> = 27904" by (simp only: card_atLeastLessThan)
  finally have "card ?A = 27904" .
  then have "\<not> ?A \<subseteq> B" using assms by (metis card_mono not_le)
  then obtain n where n: "n \<in> {4096..<32000}" "(word_of_nat n :: u16) \<notin> B" by blast
  have "4096 \<le> n" "n < 32000" using n(1) by (simp_all only: atLeastLessThan_iff)
  moreover from this have "unat (word_of_nat n :: u16) = n" by (intro unat_of_nat_port) linarith
  ultimately show ?thesis by (intro that [OF n(2)]) simp_all
qed

lemma find_unused_None: "find_unused xs k None = None \<Longrightarrow> \<forall>c \<in> set xs. tcpstateflags c \<notin> {UIP_CLOSED, UIP_TIME_WAIT}"
proof -
  have some: "find_unused xs k (Some cand) \<noteq> None" for xs k cand
    by (induction xs k "Some cand" arbitrary: cand rule: find_unused.induct) auto
  show "find_unused xs k None = None \<Longrightarrow> \<forall>c \<in> set xs. tcpstateflags c \<notin> {UIP_CLOSED, UIP_TIME_WAIT}"
    by (induction xs arbitrary: k) (auto simp: some split: if_split_asm)
qed

lemma free_port:
  assumes "length xs \<le> 255"
  obtains q where "find_conn (\<lambda>c. tcpstateflags c \<noteq> UIP_CLOSED \<and> lport c = uip_htons q) xs 0 = None" "4096 \<le> unat q" "unat q < 32000"
proof -
  let ?B = "uip_htons ` lport ` set xs"
  have "card ?B \<le> length xs" by (metis card_image_le card_length finite_imageI finite_set le_trans)
  then have "card ?B < 27904" using assms by simp
  then obtain q where q: "q \<notin> ?B" "4096 \<le> unat q" "unat q < 32000" using ports_left [of ?B] by auto
  then have "\<forall>c \<in> set xs. lport c \<noteq> uip_htons q" by (force simp: image_iff htons_htons)
  with q show ?thesis by (intro that [of q]) (simp_all add: find_conn_None)
qed

text \<open>C13: \<open>uip_connect\<close> returns if and only if there are at most 255 connections, the range of the 8-bit
  counter of its loops; the search for a local port, which has no bound of its own, ends then at a port
  below 32000 that no open connection uses. It gives no connection exactly when none is closed or in
  TIME-WAIT; otherwise the connection it gives is one of those, now in SYN-SENT with the SYN
  outstanding, and the others are as before.\<close>

theorem uip_connect_returns:
  "case uip_connect E raddr port s of
     None \<Rightarrow> 255 < length (uip_conns s)
   | Some (r, t) \<Rightarrow> length (uip_conns s) \<le> 255 \<and>
       (\<forall>c \<in> set (uip_conns s). tcpstateflags c \<noteq> UIP_CLOSED \<longrightarrow> lport c \<noteq> uip_htons (lastport t)) \<and> unat (lastport t) < 32000 \<and>
       (case r of
          None \<Rightarrow> uip_conns t = uip_conns s \<and> (\<forall>c \<in> set (uip_conns s). tcpstateflags c \<notin> {UIP_CLOSED, UIP_TIME_WAIT})
        | Some i \<Rightarrow> i < length (uip_conns s) \<and> tcpstateflags (conn s i) \<in> {UIP_CLOSED, UIP_TIME_WAIT} \<and>
            uip_conns t = (uip_conns s)[i := conn t i] \<and> tcpstateflags (conn t i) = UIP_SYN_SENT \<and> conn_len (conn t i) = 1 \<and>
            ripaddr (conn t i) = raddr \<and> rport (conn t i) = port \<and> lport (conn t i) = uip_htons (lastport t) \<and> snd_nxt (conn t i) = iss s)"
proof (cases "length (uip_conns s) \<le> 255")
  case small: True
  define u where "u = (\<lambda>p. find_conn (\<lambda>c. tcpstateflags c \<noteq> UIP_CLOSED \<and> lport c = uip_htons p) (uip_conns s) 0)"
  have user: "conn_user (uip_conns s) = (\<lambda>p. Some (u p))" using small by (simp add: fun_eq_iff conn_user_def u_def first_from_find)
  obtain q where "u q = None" "4096 \<le> unat q" "unat q < 32000" using free_port [OF small] by (auto simp: u_def)
  then obtain p where p: "next_port (conn_user (uip_conns s)) (lastport s) = Some p" using next_port_total user by metis
  have free: "u p = None" "unat p < 32000" using next_port_result [OF p [unfolded user]] by blast+
  then have unused: "\<forall>c \<in> set (uip_conns s). tcpstateflags c \<noteq> UIP_CLOSED \<longrightarrow> lport c \<noteq> uip_htons p"
    by (auto simp: u_def find_conn_None)
  show ?thesis
  proof (cases "find_unused (uip_conns s) 0 None")
    case None
    then have "uip_connect E raddr port s = Some (None, s\<lparr>lastport := p\<rparr>)"
      using p small by (simp add: uip_connect_def Let_def unused_from_find)
    then show ?thesis using free unused small find_unused_None [OF None] by simp
  next
    case (Some i)
    define t where "t = upd_conn i (\<lambda>c. c\<lparr>tcpstateflags := UIP_SYN_SENT, snd_nxt := iss s, rcv_nxt := (0, 0, 0, 0),
                   initialmss := UIP_TCP_MSS E, mss := UIP_TCP_MSS E, conn_len := 1, nrtx := 0, conn_timer := 1,
                   rto := UIP_RTO, sa := 0, sv := 16, lport := uip_htons p, rport := port, ripaddr := raddr\<rparr>) (s\<lparr>lastport := p\<rparr>)"
    have "uip_connect E raddr port s = Some (Some i, t)"
      using p Some small by (simp add: uip_connect_def Let_def t_def unused_from_find)
    moreover have "lastport t = p" by (simp add: t_def)
    moreover have i: "i < length (uip_conns s)" "tcpstateflags (conn s i) \<in> {UIP_CLOSED, UIP_TIME_WAIT}" using find_unused_result [OF Some] by simp_all
    moreover have "uip_conns t = (uip_conns s)[i := conn t i]" using i by (simp add: t_def upd_conn_def)
    moreover have "tcpstateflags (conn t i) = UIP_SYN_SENT" "conn_len (conn t i) = 1" "ripaddr (conn t i) = raddr" "rport (conn t i) = port"
      "lport (conn t i) = uip_htons p" "snd_nxt (conn t i) = iss s" using i by (simp_all add: t_def conn_upd_same)
    ultimately show ?thesis using free unused small by simp
  qed
next
  case False
  then have "next_port (conn_user (uip_conns s)) (lastport s) = None"
    by (intro next_port_turns) (simp add: conn_user_def first_from_turns)
  then show ?thesis using False by (simp add: uip_connect_def)
qed

theorem uip_connect_returns_witness:
  "\<exists>i t. uip_connect example_env (10, 0, 0, 2) 0x5000 example_start = Some (Some i, t) \<and> tcpstateflags (conn t i) = UIP_SYN_SENT"
  using uip_connect_returns [where s = example_start and E = example_env and raddr = "(10, 0, 0, 2)" and port = "0x5000"]
  by (auto simp: example_start_eval split: option.split_asm prod.split_asm)

end
