(* ===== verification/UipHandshake.thy ===== *)
theory UipHandshake
  imports UipRuns
begin

text \<open>
  Two nodes that talk to each other: the segment that one call of \<open>uip_process\<close> leaves in the buffer
  is what the other node gets. The three-way handshake and the transfer of data, with both sides
  running the code.
\<close>

section \<open>A segment on its way\<close>

definition deliver :: "'a uip_state \<Rightarrow> 'b uip_state \<Rightarrow> 'b uip_state" where
  "deliver t s = s\<lparr>uip_buf := uip_buf t, uip_len := uip_len t\<rparr>"

lemma deliver_simps [simp]:
  "uip_buf (deliver t s) = uip_buf t" "uip_len (deliver t s) = uip_len t" "uip_conns (deliver t s) = uip_conns s"
  "uip_hostaddr (deliver t s) = uip_hostaddr s" "uip_listenports (deliver t s) = uip_listenports s"
  "app_state (deliver t s) = app_state s" "iss (deliver t s) = iss s"
  by (simp_all add: deliver_def)

text \<open>The checks that a TCP segment passes before the connections are searched.\<close>

definition tcp_arrives :: "'a uip_env \<Rightarrow> 'a uip_state \<Rightarrow> bool" where
  "tcp_arrives E s \<longleftrightarrow>
     packet_ok E s \<and> uip_tcpchksum (UIP_LLH_LEN E) (uip_buf s) = 0xffff \<and>
     uip_hostaddr s \<noteq> uip_all_zeroes_addr \<and> BUF4 E s off_destipaddr = uip_hostaddr s \<and>
     BUF8 E s off_proto = UIP_PROTO_TCP \<and> BUF16 E s off_destport \<noteq> 0 \<and> BUF16 E s off_srcport \<noteq> 0"

definition matches :: "'a uip_env \<Rightarrow> 'a uip_state \<Rightarrow> uip_conn_t \<Rightarrow> bool" where
  "matches E s c \<longleftrightarrow> tcpstateflags c \<noteq> UIP_CLOSED \<and> BUF16 E s off_destport = lport c \<and>
     BUF16 E s off_srcport = rport c \<and> BUF4 E s off_srcipaddr = ripaddr c"

lemma tcp_arrives_process:
  assumes "tcp_arrives E s"
  defines "s' \<equiv> s\<lparr>uip_sappdata := UIP_LLH_LEN E + UIP_IPTCPH_LEN, uip_appdata := UIP_LLH_LEN E + UIP_IPTCPH_LEN\<rparr>"
  shows "uip_process E UIP_DATA s =
    (case find_conn (matches E s) (uip_conns s) 0 of
       Some i \<Rightarrow> found_conn E i s'
     | None \<Rightarrow> if BUF8 E s off_flags AND TCP_CTL \<noteq> TCP_SYN then Some (reset E s')
         else case find_conn (\<lambda>p. BUF16 E s off_destport = p) (uip_listenports s) 0 of Some _ \<Rightarrow> found_listen E s' | None \<Rightarrow> Some (reset E s'))"
proof -
  have p: "BUF8 E s off_vhl = 0x45" "be16 (uip_buf s) (UIP_LLH_LEN E + off_len) = uip_len s"
    "BUF8 E s off_ipoffset = 0" "uip_buf s (UIP_LLH_LEN E + 7) = 0" "uip_ipchksum (UIP_LLH_LEN E) (uip_buf s) = 0xffff"
    using assms(1) rd16_zero [of "uip_buf s" "UIP_LLH_LEN E + off_ipoffset"] by (auto simp: tcp_arrives_def packet_ok_def)
  have m: "(\<lambda>c. tcpstateflags c \<noteq> UIP_CLOSED \<and> BUF16 E s off_destport = lport c \<and> BUF16 E s off_srcport = rport c \<and>
      BUF4 E s off_srcipaddr = ripaddr c) = matches E s" by (rule ext) (simp add: matches_def)
  have "s'\<lparr>uip_len := uip_len s\<rparr> = s'" by (simp add: s'_def)
  then show ?thesis
    using assms(1) p unfolding tcp_arrives_def uip_process_def Let_def ip_input_def tcp_input_def
    by (simp add: s'_def m split: option.split)
qed

section \<open>The segment that is sent\<close>

lemma tcp_send_noconn_buf:
  assumes "12 \<le> k" and "k < 36 \<or> 40 \<le> k"
  shows "BUF8 E (tcp_send_noconn E s) k = BUF8 E s k"
proof -
  have "BUF8 E (tcp_send_noconn E s) k = BUF8 E (set16 E off_tcpchksum (NOT (uip_tcpchksum (UIP_LLH_LEN E) (uip_buf (tcp_filled E s)))) (tcp_filled E s)) k"
    unfolding tcp_send_noconn_alt using assms by (intro ip_send_nolen_keeps) auto
  also have "\<dots> = BUF8 E (tcp_filled E s) k" using assms by (auto intro!: put16_other)
  also have "\<dots> = BUF8 E s k" using assms by (auto simp: tcp_filled_buf)
  finally show ?thesis .
qed

lemma get4_cong:
  assumes "\<And>k. k < 4 \<Longrightarrow> m (p + k) = m' (p + k)"
  shows "get4 m p = get4 m' p"
  using assms [of 0] assms [of 1] assms [of 2] assms [of 3] by (simp add: get4_def)

lemma rd16_cong: "m p = m' p \<Longrightarrow> m (p + 1) = m' (p + 1) \<Longrightarrow> rd16 m p = rd16 m' p"
  by (simp add: rd16_def)

lemma tcp_send_noconn_fields:
  assumes "12 \<le> k"
  shows "k + 4 \<le> 36 \<Longrightarrow> BUF4 E (tcp_send_noconn E s) k = BUF4 E s k"
    and "k + 2 \<le> 36 \<Longrightarrow> BUF16 E (tcp_send_noconn E s) k = BUF16 E s k"
proof -
  have b: "uip_buf (tcp_send_noconn E s) (UIP_LLH_LEN E + k + j) = uip_buf s (UIP_LLH_LEN E + k + j)" if "k + j < 36" for j
    using tcp_send_noconn_buf [of "k + j" E s] assms that by (simp add: add.assoc)
  show "k + 4 \<le> 36 \<Longrightarrow> BUF4 E (tcp_send_noconn E s) k = BUF4 E s k"
    by (intro get4_cong b) simp
  show "k + 2 \<le> 36 \<Longrightarrow> BUF16 E (tcp_send_noconn E s) k = BUF16 E s k"
    using b [of 0] b [of 1] by (intro rd16_cong) simp_all
qed

lemma get4_other: "b + 4 \<le> p \<or> p + 4 \<le> b \<Longrightarrow> get4 (put4 p x m) b = get4 m b"
  "b + 4 \<le> p \<or> p + 2 \<le> b \<Longrightarrow> get4 (put16 p w m) b = get4 m b"
  "p < b \<or> b + 4 \<le> p \<Longrightarrow> get4 (m(p := v)) b = get4 m b"
  by (auto simp: get4_def put4_other put16_other)

lemma rd16_other: "b + 2 \<le> p \<or> p + 4 \<le> b \<Longrightarrow> rd16 (put4 p x m) b = rd16 m b"
  "b + 2 \<le> p \<or> p + 2 \<le> b \<Longrightarrow> rd16 (put16 p w m) b = rd16 m b"
  "p < b \<or> b + 2 \<le> p \<Longrightarrow> rd16 (m(p := v)) b = rd16 m b"
  by (auto simp: rd16_def put4_other put16_other)

lemma tcp_send_fields:
  "BUF4 E (tcp_send E i s) off_srcipaddr = uip_hostaddr s" "BUF4 E (tcp_send E i s) off_destipaddr = ripaddr (conn s i)"
  "BUF16 E (tcp_send E i s) off_srcport = lport (conn s i)" "BUF16 E (tcp_send E i s) off_destport = rport (conn s i)"
  "BUF4 E (tcp_send E i s) off_seqno = snd_nxt (conn s i)" "BUF4 E (tcp_send E i s) off_ackno = rcv_nxt (conn s i)"
  "BUF8 E (tcp_send E i s) off_tcpoffset = BUF8 E s off_tcpoffset" "BUF8 E (tcp_send E i s) off_flags = BUF8 E s off_flags"
  "40 \<le> k \<Longrightarrow> BUF8 E (tcp_send E i s) k = BUF8 E s k"
  "BUF8 E (tcp_send E i s) off_proto = UIP_PROTO_TCP"
proof -
  show "BUF4 E (tcp_send E i s) off_srcipaddr = uip_hostaddr s" "BUF4 E (tcp_send E i s) off_destipaddr = ripaddr (conn s i)"
    "BUF4 E (tcp_send E i s) off_seqno = snd_nxt (conn s i)" "BUF4 E (tcp_send E i s) off_ackno = rcv_nxt (conn s i)"
    unfolding tcp_send_def Let_def by (simp_all add: tcp_send_noconn_fields(1) get4_other)
  show "BUF16 E (tcp_send E i s) off_srcport = lport (conn s i)" "BUF16 E (tcp_send E i s) off_destport = rport (conn s i)"
    unfolding tcp_send_def Let_def by (simp_all add: tcp_send_noconn_fields(2) rd16_other)
  show "BUF8 E (tcp_send E i s) off_tcpoffset = BUF8 E s off_tcpoffset" "BUF8 E (tcp_send E i s) off_flags = BUF8 E s off_flags"
    "40 \<le> k \<Longrightarrow> BUF8 E (tcp_send E i s) k = BUF8 E s k"
    unfolding tcp_send_def Let_def by (simp_all add: tcp_send_noconn_buf put4_other put16_other)
  show "BUF8 E (tcp_send E i s) off_proto = UIP_PROTO_TCP"
    unfolding tcp_send_def Let_def tcp_send_noconn_alt by (subst ip_send_nolen_keeps) (auto simp: put16_other tcp_filled_buf)
qed

text \<open>What the peer sees of a segment.\<close>

lemma tcp_send_arrives:
  assumes "UIP_LLH_LEN F = UIP_LLH_LEN E" and "UIP_IPTCPH_LEN \<le> uip_len s"
    and "uip_hostaddr r = ripaddr (conn s i)" and "uip_hostaddr r \<noteq> uip_all_zeroes_addr"
    and "lport (conn s i) \<noteq> 0" and "rport (conn s i) \<noteq> 0"
  shows "tcp_arrives F (deliver (tcp_send E i s) r)"
proof -
  note f = tcp_send_fields(1-8,10) [of E i s]
  have "packet_ok E (tcp_send E i s)" by (rule tcp_send_ok)
  then show ?thesis
    using assms f by (simp add: tcp_arrives_def packet_ok_def)
qed

lemma find_conn_unique:
  assumes "i < length xs" and "P (xs ! i)" and "\<And>j. j < length xs \<Longrightarrow> j \<noteq> i \<Longrightarrow> \<not> P (xs ! j)"
  shows "find_conn P xs 0 = Some i"
proof (cases "find_conn P xs 0")
  case None
  then show ?thesis using assms(1,2) by (auto simp: find_conn_None)
next
  case (Some j)
  then show ?thesis using find_conn_0 [OF Some] assms(3) by auto
qed

text \<open>The option that a SYN carries.\<close>

lemma parse_mss_syn:
  assumes "m opts = TCP_OPT_MSS" and "m (opts + 1) = TCP_OPT_MSS_LEN"
  shows "parse_mss m opts 4 0 = Some (Some (be16 m (opts + 2)))"
  by (subst parse_mss.simps) (use assms in \<open>simp add: Let_def\<close>)

lemma tcp_send_syn_fields:
  "BUF8 E (tcp_send_syn E i s) off_tcpoffset = 0x60" "BUF8 E (tcp_send_syn E i s) off_flags = BUF8 E s off_flags OR TCP_SYN"
  "BUF8 E (tcp_send_syn E i s) off_optdata = TCP_OPT_MSS" "BUF8 E (tcp_send_syn E i s) (off_optdata + 1) = TCP_OPT_MSS_LEN"
  "be16 (uip_buf (tcp_send_syn E i s)) (UIP_LLH_LEN E + off_optdata + 2) = UIP_TCP_MSS E"
  "uip_len (tcp_send_syn E i s) = 44"
proof -
  show "BUF8 E (tcp_send_syn E i s) off_tcpoffset = 0x60" "BUF8 E (tcp_send_syn E i s) off_flags = BUF8 E s off_flags OR TCP_SYN"
    "BUF8 E (tcp_send_syn E i s) off_optdata = TCP_OPT_MSS" "BUF8 E (tcp_send_syn E i s) (off_optdata + 1) = TCP_OPT_MSS_LEN"
    unfolding tcp_send_syn_def Let_def by (simp_all add: tcp_send_fields tcp_send_fields(9))
  have "UIP_TCP_MSS E div 256 = drop_bit 8 (UIP_TCP_MSS E)" by (simp add: drop_bit_eq_div)
  moreover have "BUF8 E (tcp_send_syn E i s) (off_optdata + 2) = ucast (UIP_TCP_MSS E div 256)"
    "BUF8 E (tcp_send_syn E i s) (off_optdata + 3) = ucast (UIP_TCP_MSS E AND 255)"
    unfolding tcp_send_syn_def Let_def by (simp_all add: tcp_send_fields(9))
  ultimately show "be16 (uip_buf (tcp_send_syn E i s)) (UIP_LLH_LEN E + off_optdata + 2) = UIP_TCP_MSS E"
    by (intro be16_bytes) (simp_all add: ac_simps)
  show "uip_len (tcp_send_syn E i s) = 44" by (simp add: tcp_send_syn_def Let_def)
qed

section \<open>The three-way handshake\<close>

text \<open>Applications that only watch.\<close>

definition quiet_app :: "'a uip_env \<Rightarrow> bool" where
  "quiet_app E \<longleftrightarrow> (\<forall>s. \<exists>u. UIP_APPCALL E s = s\<lparr>app_state := u\<rparr>)"

lemma quiet_appE:
  assumes "quiet_app E"
  obtains u where "UIP_APPCALL E s = s\<lparr>app_state := u\<rparr>"
  using assms unfolding quiet_app_def by blast

lemma parse_options_syn:
  assumes "BUF8 E s off_tcpoffset = 0x60" and "BUF8 E s off_optdata = TCP_OPT_MSS" and "BUF8 E s (off_optdata + 1) = TCP_OPT_MSS_LEN"
  shows "parse_options E i s =
    (let v = min (be16 (uip_buf s) (UIP_LLH_LEN E + off_optdata + 2)) (UIP_TCP_MSS E) in Some (upd_conn i (\<lambda>c. c\<lparr>initialmss := v, mss := v\<rparr>) s))"
proof -
  have "parse_mss (uip_buf s) (UIP_LLH_LEN E + 40) 4 0 = Some (Some (be16 (uip_buf s) (UIP_LLH_LEN E + 40 + 2)))"
    using assms by (intro parse_mss_syn) (simp_all add: add.assoc)
  moreover have "4 * (unat (drop_bit 4 (BUF8 E s off_tcpoffset)) - 5) = 4" using assms(1) by simp
  ultimately show ?thesis using assms(1) by (simp add: parse_options_def Let_def min_def not_le)
qed

text \<open>The first segment: the connection that the listener makes of a SYN.\<close>

definition accepted_conn :: "'a uip_env \<Rightarrow> 'a uip_state \<Rightarrow> uip_conn_t \<Rightarrow> uip_conn_t" where
  "accepted_conn E s c =
     (let v = min (be16 (uip_buf s) (UIP_LLH_LEN E + off_optdata + 2)) (UIP_TCP_MSS E)
      in c\<lparr>rto := UIP_RTO, conn_timer := UIP_RTO, sa := 0, sv := 4, nrtx := 0,
           lport := BUF16 E s off_destport, rport := BUF16 E s off_srcport, ripaddr := BUF4 E s off_srcipaddr,
           tcpstateflags := UIP_SYN_RCVD, snd_nxt := iss s, conn_len := 1, rcv_nxt := uip_add32 (BUF4 E s off_seqno) 1,
           initialmss := v, mss := v\<rparr>)"

lemma found_listen_syn:
  assumes "find_unused (uip_conns s) 0 None = Some j" and "BUF8 E s off_tcpoffset = 0x60"
    and "BUF8 E s off_optdata = TCP_OPT_MSS" and "BUF8 E s (off_optdata + 1) = TCP_OPT_MSS_LEN"
  shows "\<exists>t. found_listen E s = Some (tcp_send_synack E j t) \<and> uip_conns t = (uip_conns s)[j := accepted_conn E s (conn s j)] \<and>
    uip_hostaddr t = uip_hostaddr s"
proof -
  have j: "j < length (uip_conns s)" using find_unused_result [OF assms(1)] by simp
  show ?thesis
    using assms j unfolding found_listen_def
    by (simp add: Let_def parse_options_syn uip_add_rcv_nxt_def)
      (simp add: upd_conn_def accepted_conn_def Let_def, intro exI conjI, rule refl, simp_all)
qed

text \<open>The second segment: the SYN of a connection is acknowledged by a SYN.\<close>

lemma process_ack_syn:
  assumes "i < length (uip_conns s)" and "BUF8 E s off_flags AND TCP_ACK \<noteq> 0" and "conn_len (conn s i) \<noteq> 0"
    and "BUF4 E s off_ackno = uip_add32 (snd_nxt (conn s i)) (conn_len (conn s i))"
  shows "\<exists>c. process_ack E i s = s\<lparr>uip_flags := UIP_ACKDATA, uip_conns := (uip_conns s)[i := c]\<rparr> \<and>
     snd_nxt c = uip_add32 (snd_nxt (conn s i)) (conn_len (conn s i)) \<and> conn_len c = 0 \<and>
     tcpstateflags c = tcpstateflags (conn s i) \<and> rcv_nxt c = rcv_nxt (conn s i) \<and> mss c = mss (conn s i) \<and>
     initialmss c = initialmss (conn s i) \<and> lport c = lport (conn s i) \<and> rport c = rport (conn s i) \<and> ripaddr c = ripaddr (conn s i)"
proof -
  define a where "a = (conn s i)\<lparr>snd_nxt := uip_add32 (snd_nxt (conn s i)) (conn_len (conn s i))\<rparr>"
  define b where "b = (if nrtx a = 0 then rtt_estimate a else a)"
  have "process_ack E i s = s\<lparr>uip_flags := UIP_ACKDATA, uip_conns := (uip_conns s)[i := b\<lparr>conn_timer := rto b, conn_len := 0\<rparr>]\<rparr>"
    using assms by (simp add: process_ack_def Let_def upd_conn_def b_def a_def)
  moreover have "snd_nxt b = snd_nxt a" "tcpstateflags b = tcpstateflags a" "rcv_nxt b = rcv_nxt a" "mss b = mss a" "initialmss b = initialmss a"
    "lport b = lport a" "rport b = rport a" "ripaddr b = ripaddr a"
    by (simp_all add: b_def rtt_estimate_def Let_def)
  ultimately show ?thesis by (auto simp: a_def)
qed

lemma tcp_send_syn_header:
  "BUF4 E (tcp_send_syn E i s) off_srcipaddr = uip_hostaddr s" "BUF4 E (tcp_send_syn E i s) off_destipaddr = ripaddr (conn s i)"
  "BUF16 E (tcp_send_syn E i s) off_srcport = lport (conn s i)" "BUF16 E (tcp_send_syn E i s) off_destport = rport (conn s i)"
  "BUF4 E (tcp_send_syn E i s) off_seqno = snd_nxt (conn s i)" "BUF4 E (tcp_send_syn E i s) off_ackno = rcv_nxt (conn s i)"
  unfolding tcp_send_syn_def Let_def by (simp_all add: tcp_send_fields)

lemma tcp_send_noopts_header:
  "BUF4 E (tcp_send_noopts E i s) off_srcipaddr = uip_hostaddr s" "BUF4 E (tcp_send_noopts E i s) off_destipaddr = ripaddr (conn s i)"
  "BUF16 E (tcp_send_noopts E i s) off_srcport = lport (conn s i)" "BUF16 E (tcp_send_noopts E i s) off_destport = rport (conn s i)"
  "BUF4 E (tcp_send_noopts E i s) off_seqno = snd_nxt (conn s i)" "BUF4 E (tcp_send_noopts E i s) off_ackno = rcv_nxt (conn s i)"
  "BUF8 E (tcp_send_noopts E i s) off_tcpoffset = 0x50" "BUF8 E (tcp_send_noopts E i s) off_flags = BUF8 E s off_flags"
  "uip_len (tcp_send_noopts E i s) = uip_len s" "40 \<le> k \<Longrightarrow> BUF8 E (tcp_send_noopts E i s) k = BUF8 E s k"
  unfolding tcp_send_noopts_def by (simp_all add: tcp_send_fields tcp_send_fields(9))

lemma tcp_send_syn_arrives:
  assumes "UIP_LLH_LEN F = UIP_LLH_LEN E" and "uip_hostaddr r = ripaddr (conn s i)" and "uip_hostaddr r \<noteq> uip_all_zeroes_addr"
    and "lport (conn s i) \<noteq> 0" and "rport (conn s i) \<noteq> 0"
  shows "tcp_arrives F (deliver (tcp_send_syn E i s) r)"
  unfolding tcp_send_syn_def Let_def by (rule tcp_send_arrives) (use assms in simp_all)

lemma tcp_send_noopts_arrives:
  assumes "UIP_LLH_LEN F = UIP_LLH_LEN E" and "uip_hostaddr r = ripaddr (conn s i)" and "uip_hostaddr r \<noteq> uip_all_zeroes_addr"
    and "lport (conn s i) \<noteq> 0" and "rport (conn s i) \<noteq> 0" and "UIP_IPTCPH_LEN \<le> uip_len s"
  shows "tcp_arrives F (deliver (tcp_send_noopts E i s) r)"
  unfolding tcp_send_noopts_def by (rule tcp_send_arrives) (use assms in simp_all)

text \<open>What the two ends must have in common: \<open>c\<close> is a connection of the node with the address \<open>a\<close>, and \<open>d\<close>
  one of the node with the address \<open>b\<close>.\<close>

definition mirror :: "ipaddr \<Rightarrow> uip_conn_t \<Rightarrow> ipaddr \<Rightarrow> uip_conn_t \<Rightarrow> bool" where
  "mirror a c b d \<longleftrightarrow> ripaddr c = b \<and> ripaddr d = a \<and> lport c = rport d \<and> rport c = lport d \<and> lport c \<noteq> 0 \<and> rport c \<noteq> 0 \<and>
     a \<noteq> uip_all_zeroes_addr \<and> b \<noteq> uip_all_zeroes_addr"

text \<open>No other open connection of the node has the ports and the peer of connection \<open>i\<close>.\<close>

definition only_conn :: "'a uip_state \<Rightarrow> nat \<Rightarrow> bool" where
  "only_conn s i \<longleftrightarrow> i < length (uip_conns s) \<and> tcpstateflags (conn s i) \<noteq> UIP_CLOSED \<and>
     (\<forall>k < length (uip_conns s). k \<noteq> i \<longrightarrow> tcpstateflags (conn s k) \<noteq> UIP_CLOSED \<longrightarrow>
        \<not> (lport (conn s k) = lport (conn s i) \<and> rport (conn s k) = rport (conn s i) \<and> ripaddr (conn s k) = ripaddr (conn s i)))"

lemma only_conn_found:
  assumes "only_conn s i" and "BUF16 E s off_destport = lport (conn s i)" and "BUF16 E s off_srcport = rport (conn s i)"
    and "BUF4 E s off_srcipaddr = ripaddr (conn s i)"
  shows "find_conn (matches E s) (uip_conns s) 0 = Some i"
  using assms by (intro find_conn_unique) (auto simp: only_conn_def matches_def)

lemma segment_found:
  assumes "tcp_arrives E s" and "only_conn s i" and "BUF16 E s off_destport = lport (conn s i)" and "BUF16 E s off_srcport = rport (conn s i)"
    and "BUF4 E s off_srcipaddr = ripaddr (conn s i)"
  shows "uip_process E UIP_DATA s =
    found_conn E i (s\<lparr>uip_sappdata := UIP_LLH_LEN E + UIP_IPTCPH_LEN, uip_appdata := UIP_LLH_LEN E + UIP_IPTCPH_LEN\<rparr>)"
  unfolding tcp_arrives_process [OF assms(1)] only_conn_found [OF assms(2-5)] by simp

lemma only_conn_new:
  assumes "uip_conns t = cs[j := c]" and "j < length cs" and "tcpstateflags c \<noteq> UIP_CLOSED"
    and "\<forall>k < length cs. tcpstateflags (cs ! k) \<noteq> UIP_CLOSED \<longrightarrow> \<not> (lport (cs ! k) = lport c \<and> rport (cs ! k) = rport c \<and> ripaddr (cs ! k) = ripaddr c)"
  shows "only_conn t j"
  using assms by (auto simp: only_conn_def)

text \<open>The SYN reaches the listener.\<close>

lemma syn_accepted:
  assumes "mirror (uip_hostaddr s) c (uip_hostaddr r) d" and "UIP_LLH_LEN F = UIP_LLH_LEN E" and c: "conn s i = c"
    and "BUF8 E s off_flags = 0"
    and listen: "lport d \<in> set (uip_listenports r)" and j: "find_unused (uip_conns r) 0 None = Some j"
    and none: "\<forall>k < length (uip_conns r). tcpstateflags (conn r k) \<noteq> UIP_CLOSED \<longrightarrow>
        \<not> (lport (conn r k) = lport d \<and> rport (conn r k) = rport d \<and> ripaddr (conn r k) = ripaddr d)"
  shows "\<exists>t. uip_process F UIP_DATA (deliver (tcp_send_syn E i s) r) = Some (tcp_send_synack F j t) \<and> uip_hostaddr t = uip_hostaddr r \<and>
    uip_conns t = (uip_conns r)[j := accepted_conn F (deliver (tcp_send_syn E i s) r) (conn r j)] \<and>
    mirror (uip_hostaddr s) c (uip_hostaddr r) (conn t j) \<and> only_conn t j \<and> tcpstateflags (conn t j) = UIP_SYN_RCVD \<and>
    rcv_nxt (conn t j) = uip_add32 (snd_nxt c) 1 \<and> snd_nxt (conn t j) = iss r \<and> conn_len (conn t j) = 1 \<and>
    mss (conn t j) = min (UIP_TCP_MSS E) (UIP_TCP_MSS F)"
proof -
  define p where "p = deliver (tcp_send_syn E i s) r"
  define p' where "p' = p\<lparr>uip_sappdata := UIP_LLH_LEN F + UIP_IPTCPH_LEN, uip_appdata := UIP_LLH_LEN F + UIP_IPTCPH_LEN\<rparr>"
  have h: "BUF4 F p off_srcipaddr = uip_hostaddr s" "BUF16 F p off_srcport = rport d" "BUF16 F p off_destport = lport d"
    "BUF4 F p off_seqno = snd_nxt c" "BUF8 F p off_flags = TCP_SYN" "BUF8 F p off_tcpoffset = 0x60" "BUF8 F p off_optdata = TCP_OPT_MSS"
    "BUF8 F p (off_optdata + 1) = TCP_OPT_MSS_LEN" "be16 (uip_buf p) (UIP_LLH_LEN F + off_optdata + 2) = UIP_TCP_MSS E"
    using assms tcp_send_syn_header [of E i s] tcp_send_syn_fields [of E i s] by (simp_all add: p_def mirror_def)
  have arr: "tcp_arrives F p"
    unfolding p_def using assms(1-3) by (intro tcp_send_syn_arrives) (auto simp: mirror_def)
  have "find_conn (matches F p) (uip_conns p) 0 = None"
    using none h(1-3) assms(1) by (auto simp: find_conn_None matches_def p_def mirror_def in_set_conv_nth)
  moreover have "find_conn (\<lambda>q. BUF16 F p off_destport = q) (uip_listenports p) 0 \<noteq> None"
    using listen h(3) by (auto simp: find_conn_None p_def)
  ultimately have "uip_process F UIP_DATA p = found_listen F p'"
    unfolding tcp_arrives_process [OF arr] p'_def using h(5) by auto
  moreover obtain t where t: "found_listen F p' = Some (tcp_send_synack F j t)" "uip_conns t = (uip_conns p')[j := accepted_conn F p' (conn p' j)]"
    "uip_hostaddr t = uip_hostaddr p'"
    using found_listen_syn [of p' j F] j h by (auto simp: p'_def p_def)
  moreover have jl: "j < length (uip_conns r)" using find_unused_result [OF j] by simp
  define cb where "cb = accepted_conn F p (conn r j)"
  have ts: "uip_conns t = (uip_conns r)[j := cb]" "conn t j = cb" using t(2) jl by (simp_all add: cb_def p'_def p_def accepted_conn_def)
  have cb: "lport cb = lport d" "rport cb = rport d" "ripaddr cb = uip_hostaddr s" "tcpstateflags cb = UIP_SYN_RCVD"
    "rcv_nxt cb = uip_add32 (snd_nxt c) 1" "snd_nxt cb = iss r" "conn_len cb = 1" "mss cb = min (UIP_TCP_MSS E) (UIP_TCP_MSS F)"
    using h by (simp_all add: cb_def accepted_conn_def Let_def) (simp add: p_def)
  have "only_conn t j"
    using none cb(1-4) assms(1) by (intro only_conn_new [OF ts(1) jl]) (auto simp: mirror_def)
  moreover have "uip_hostaddr t = uip_hostaddr r" using t(3) by (simp add: p'_def p_def)
  ultimately show ?thesis
    using cb ts assms(1) unfolding p_def [symmetric] by (intro exI [of _ t]) (auto simp: cb_def [symmetric] mirror_def)
qed

text \<open>What the stack sends when the application had nothing to say.\<close>

lemma appsend_ack:
  assumes "uip_flags s AND UIP_ABORT = 0" and "uip_flags s AND UIP_CLOSE = 0" and "uip_slen s = 0" and "uip_flags s AND UIP_NEWDATA \<noteq> 0"
  shows "appsend E i s = tcp_send_noopts E i (set8 E off_flags TCP_ACK
    ((upd_conn i (nrtx_update (\<lambda>_. 0)) s)\<lparr>uip_appdata := uip_sappdata s, uip_len := UIP_IPTCPH_LEN\<rparr>))"
  using assms by (simp add: appsend_def app_data_out_def apprexmit_def Let_def)

lemma appsend_nothing:
  assumes "uip_flags s AND UIP_ABORT = 0" and "uip_flags s AND UIP_CLOSE = 0" and "uip_slen s = 0" and "uip_flags s AND UIP_NEWDATA = 0"
  shows "appsend E i s = drop_packet ((upd_conn i (nrtx_update (\<lambda>_. 0)) s)\<lparr>uip_appdata := uip_sappdata s\<rparr>)"
  using assms by (simp add: appsend_def app_data_out_def apprexmit_def Let_def)

text \<open>The start of the processing of a segment without RST.\<close>

definition received :: "'a uip_env \<Rightarrow> nat \<Rightarrow> 'a uip_state \<Rightarrow> 'a uip_state" where
  "received E i s = s\<lparr>uip_conn := Some i, uip_flags := 0,
     uip_len := uip_len s - ucast (push_bit 2 (drop_bit 4 (BUF8 E s off_tcpoffset))) - UIP_IPH_LEN\<rparr>"

lemma received_simps [simp]:
  "uip_conns (received E i s) = uip_conns s" "uip_buf (received E i s) = uip_buf s" "uip_conn (received E i s) = Some i"
  "uip_flags (received E i s) = 0" "uip_hostaddr (received E i s) = uip_hostaddr s" "app_state (received E i s) = app_state s"
  "uip_appdata (received E i s) = uip_appdata s" "uip_sappdata (received E i s) = uip_sappdata s" "uip_slen (received E i s) = uip_slen s"
  by (simp_all add: received_def)

lemma found_conn_received:
  assumes "BUF8 E s off_flags AND TCP_RST = 0"
  shows "found_conn E i s = (if out_of_sequence E i (received E i s) then Some (tcp_send_ack E i (received E i s))
    else in_state E i (process_ack E i (received E i s)))"
  using assms by (simp add: found_conn_def received_def Let_def)

lemma synack_opens:
  assumes m: "mirror (uip_hostaddr s) c (uip_hostaddr r) d" and L: "UIP_LLH_LEN E = UIP_LLH_LEN F"
    and c: "only_conn s i" "conn s i = c" "tcpstateflags c = UIP_SYN_SENT" "conn_len c = 1"
    and d: "conn r j = d" "rcv_nxt d = uip_add32 (snd_nxt c) 1" and q: "quiet_app E"
  shows "\<exists>t c'. uip_process E UIP_DATA (deliver (tcp_send_synack F j r) s) = Some (tcp_send_noopts E i t) \<and>
    BUF8 E t off_flags = TCP_ACK \<and> uip_len t = UIP_IPTCPH_LEN \<and> uip_hostaddr t = uip_hostaddr s \<and>
    uip_conns t = (uip_conns s)[i := c'] \<and> mirror (uip_hostaddr s) c' (uip_hostaddr r) d \<and> tcpstateflags c' = UIP_ESTABLISHED \<and>
    snd_nxt c' = uip_add32 (snd_nxt c) 1 \<and> rcv_nxt c' = uip_add32 (snd_nxt d) 1 \<and> conn_len c' = 0 \<and>
    mss c' = min (UIP_TCP_MSS F) (UIP_TCP_MSS E)"
proof -
  define p where "p = (deliver (tcp_send_synack F j r) s)\<lparr>uip_sappdata := UIP_LLH_LEN E + UIP_IPTCPH_LEN, uip_appdata := UIP_LLH_LEN E + UIP_IPTCPH_LEN\<rparr>"
  have i: "i < length (uip_conns s)" using c(1) by (simp add: only_conn_def)
  have h: "BUF4 E p off_srcipaddr = uip_hostaddr r" "BUF16 E p off_srcport = rport c" "BUF16 E p off_destport = lport c"
    "BUF4 E p off_seqno = snd_nxt d" "BUF4 E p off_ackno = uip_add32 (snd_nxt c) 1" "BUF8 E p off_flags = TCP_ACK OR TCP_SYN" "BUF8 E p off_tcpoffset = 0x60"
    "BUF8 E p off_optdata = TCP_OPT_MSS" "BUF8 E p (off_optdata + 1) = TCP_OPT_MSS_LEN"
    "be16 (uip_buf p) (UIP_LLH_LEN E + off_optdata + 2) = UIP_TCP_MSS F" "uip_len p = 44" "uip_conns p = uip_conns s" "uip_hostaddr p = uip_hostaddr s"
    using assms tcp_send_syn_header [of F j "set8 F off_flags TCP_ACK r"] tcp_send_syn_fields [of F j "set8 F off_flags TCP_ACK r"]
    by (simp_all add: p_def tcp_send_synack_def mirror_def)
  have f: "uip_process E UIP_DATA (deliver (tcp_send_synack F j r) s) = found_conn E i p"
    unfolding p_def
  proof (rule segment_found)
    show "tcp_arrives E (deliver (tcp_send_synack F j r) s)"
      unfolding tcp_send_synack_def using m L d(1) by (intro tcp_send_syn_arrives) (auto simp: mirror_def)
  qed (use h c m in \<open>simp_all add: p_def only_conn_def mirror_def\<close>)
  define a where "a = received E i p"
  have "uip_len a = 0" using h by (simp add: a_def received_def)
  have "\<not> out_of_sequence E i a" using h c by (simp add: out_of_sequence_def a_def)
  then have f': "found_conn E i p = in_state E i (process_ack E i a)" using h by (simp add: found_conn_received a_def)
  obtain b where b: "process_ack E i a = a\<lparr>uip_flags := UIP_ACKDATA, uip_conns := (uip_conns a)[i := b]\<rparr>"
    "snd_nxt b = uip_add32 (snd_nxt c) 1" "conn_len b = 0" "tcpstateflags b = UIP_SYN_SENT"
    "lport b = lport c" "rport b = rport c" "ripaddr b = ripaddr c"
    using process_ack_syn [of i a E] h c i by (auto simp: a_def)
  define v where "v = min (UIP_TCP_MSS F) (UIP_TCP_MSS E)"
  define w where "w = open_conn E i (upd_conn i (\<lambda>c. c\<lparr>initialmss := v, mss := v\<rparr>) (process_ack E i a))"
  have buf: "uip_buf (process_ack E i a) = uip_buf p" unfolding b(1) by (simp add: a_def)
  have g: "tcpstate (process_ack E i a) i = UIP_SYN_SENT" "uip_flags (process_ack E i a) = UIP_ACKDATA"
    "uip_conns (process_ack E i a) = (uip_conns s)[i := b]" "uip_hostaddr (process_ack E i a) = uip_hostaddr s"
    unfolding b(1) using b(4) h(12,13) i by (simp_all add: a_def)
  have po: "parse_options E i (process_ack E i a) = Some (upd_conn i (\<lambda>c. c\<lparr>initialmss := v, mss := v\<rparr>) (process_ack E i a))"
    using h by (subst parse_options_syn) (simp_all add: buf v_def Let_def)
  have "in_state E i (process_ack E i a) = Some (appsend E i (UIP_APPCALL E w))"
    using h i b(4) by (simp add: in_state_def in_syn_sent_def po w_def g buf)
  moreover obtain u where u: "UIP_APPCALL E w = w\<lparr>app_state := u\<rparr>" using q by (rule quiet_appE)
  define c' where "c' = b\<lparr>initialmss := v, mss := v, tcpstateflags := UIP_ESTABLISHED, rcv_nxt := uip_add32 (snd_nxt d) 1, conn_len := 0\<rparr>"
  have w: "uip_flags w = UIP_CONNECTED OR UIP_NEWDATA" "uip_slen w = 0" "uip_conns w = (uip_conns s)[i := c']" "uip_hostaddr w = uip_hostaddr s"
    using h i by (simp_all add: w_def open_conn_def Let_def g buf uip_add_rcv_nxt_def upd_conn_def c'_def)
  define z where "z = set8 E off_flags TCP_ACK
    ((upd_conn i (nrtx_update (\<lambda>_. 0)) (w\<lparr>app_state := u\<rparr>))\<lparr>uip_appdata := uip_sappdata w, uip_len := UIP_IPTCPH_LEN\<rparr>)"
  ultimately have "in_state E i (process_ack E i a) = Some (tcp_send_noopts E i z)"
    using u w(1,2) appsend_ack [of "w\<lparr>app_state := u\<rparr>" E i] by (simp add: z_def)
  moreover have "uip_conns z = (uip_conns s)[i := c'\<lparr>nrtx := 0\<rparr>]" using w(3) i by (simp add: z_def upd_conn_def)
  moreover have "BUF8 E z off_flags = TCP_ACK" "uip_len z = UIP_IPTCPH_LEN" "uip_hostaddr z = uip_hostaddr s" using w by (simp_all add: z_def)
  ultimately show ?thesis
    unfolding f f' using b m by (intro exI [of _ z] exI [of _ "c'\<lparr>nrtx := 0\<rparr>"]) (auto simp: c'_def v_def mirror_def)
qed

text \<open>The third segment: the listener's connection is established.\<close>

lemma ack_establishes:
  assumes m: "mirror (uip_hostaddr s) c (uip_hostaddr r) d" and L: "UIP_LLH_LEN F = UIP_LLH_LEN E"
    and c: "conn s i = c" "rcv_nxt c = uip_add32 (snd_nxt d) 1" "BUF8 E s off_flags = TCP_ACK" "uip_len s = UIP_IPTCPH_LEN"
    and d: "only_conn r j" "conn r j = d" "tcpstateflags d = UIP_SYN_RCVD" "conn_len d = 1" and q: "quiet_app F"
  shows "\<exists>t d'. uip_process F UIP_DATA (deliver (tcp_send_noopts E i s) r) = Some t \<and> uip_len t = 0 \<and>
    uip_conns t = (uip_conns r)[j := d'] \<and> mirror (uip_hostaddr s) c (uip_hostaddr r) d' \<and> tcpstateflags d' = UIP_ESTABLISHED \<and>
    snd_nxt d' = uip_add32 (snd_nxt d) 1 \<and> rcv_nxt d' = rcv_nxt d \<and> conn_len d' = 0 \<and> mss d' = mss d"
proof -
  define p where "p = (deliver (tcp_send_noopts E i s) r)\<lparr>uip_sappdata := UIP_LLH_LEN F + UIP_IPTCPH_LEN, uip_appdata := UIP_LLH_LEN F + UIP_IPTCPH_LEN\<rparr>"
  have j: "j < length (uip_conns r)" using d(1) by (simp add: only_conn_def)
  have h: "BUF4 F p off_srcipaddr = uip_hostaddr s" "BUF16 F p off_srcport = rport d" "BUF16 F p off_destport = lport d"
    "BUF4 F p off_ackno = uip_add32 (snd_nxt d) 1" "BUF8 F p off_flags = TCP_ACK" "BUF8 F p off_tcpoffset = 0x50"
    "uip_len p = 40" "uip_conns p = uip_conns r"
    using assms tcp_send_noopts_header(1-9) [of E i s] by (simp_all add: p_def mirror_def)
  have f: "uip_process F UIP_DATA (deliver (tcp_send_noopts E i s) r) = found_conn F j p"
    unfolding p_def
  proof (rule segment_found)
    show "tcp_arrives F (deliver (tcp_send_noopts E i s) r)"
      using m L c by (intro tcp_send_noopts_arrives) (auto simp: mirror_def)
  qed (use h d m in \<open>simp_all add: p_def only_conn_def mirror_def\<close>)
  define a where "a = received F j p"
  have l: "uip_len a = 0" using h by (simp add: a_def received_def)
  have "\<not> out_of_sequence F j a" using h l by (simp add: out_of_sequence_def) (simp add: a_def)
  then have f': "found_conn F j p = in_state F j (process_ack F j a)" using h by (simp add: found_conn_received a_def)
  obtain b where b: "process_ack F j a = a\<lparr>uip_flags := UIP_ACKDATA, uip_conns := (uip_conns a)[j := b]\<rparr>"
    "snd_nxt b = uip_add32 (snd_nxt d) 1" "conn_len b = 0" "tcpstateflags b = UIP_SYN_RCVD" "rcv_nxt b = rcv_nxt d" "mss b = mss d"
    "lport b = lport d" "rport b = rport d" "ripaddr b = ripaddr d"
    using process_ack_syn [of j a F] h d j by (auto simp: a_def)
  have g: "tcpstate (process_ack F j a) j = UIP_SYN_RCVD" "uip_flags (process_ack F j a) = UIP_ACKDATA" "uip_len (process_ack F j a) = 0"
    "uip_conns (process_ack F j a) = (uip_conns r)[j := b]"
    unfolding b(1) using b(4) h(8) j l by (simp_all add: a_def)
  define w where "w = (upd_conn j (conn_len_update (\<lambda>_. 0)) ((upd_conn j (tcpstateflags_update (\<lambda>_. UIP_ESTABLISHED)) (process_ack F j a))
    \<lparr>uip_flags := UIP_CONNECTED\<rparr>))\<lparr>uip_slen := 0\<rparr>"
  have w: "uip_flags w = UIP_CONNECTED" "uip_slen w = 0" "uip_conns w = (uip_conns r)[j := b\<lparr>tcpstateflags := UIP_ESTABLISHED, conn_len := 0\<rparr>]"
    using g j by (simp_all add: w_def upd_conn_def)
  obtain u where u: "UIP_APPCALL F w = w\<lparr>app_state := u\<rparr>" using q by (rule quiet_appE)
  define z where "z = drop_packet ((upd_conn j (nrtx_update (\<lambda>_. 0)) (w\<lparr>app_state := u\<rparr>))\<lparr>uip_appdata := uip_sappdata w\<rparr>)"
  have "in_state F j (process_ack F j a) = Some (in_syn_rcvd F j (process_ack F j a))" using g j b(4) by (simp add: in_state_def)
  also have "in_syn_rcvd F j (process_ack F j a) = appsend F j (UIP_APPCALL F w)"
    using g by (simp add: in_syn_rcvd_def Let_def w_def)
  also have "\<dots> = z" using u w(1,2) appsend_nothing [of "w\<lparr>app_state := u\<rparr>" F j] by (simp add: z_def)
  finally have r: "in_state F j (process_ack F j a) = Some z" .
  have "uip_conns z = (uip_conns r)[j := b\<lparr>tcpstateflags := UIP_ESTABLISHED, conn_len := 0, nrtx := 0\<rparr>]" "uip_len z = 0"
    using w(3) j by (simp_all add: z_def drop_packet_def upd_conn_def)
  then show ?thesis
    unfolding f f' r using b m
    by (intro exI [of _ z] exI [of _ "b\<lparr>tcpstateflags := UIP_ESTABLISHED, conn_len := 0, nrtx := 0\<rparr>"]) (auto simp: mirror_def)
qed

text \<open>C5: The three-way handshake, with both ends running the code: the segments that \<open>uip_process\<close> makes
  of a connection in SYN-SENT and a listener take both ends to ESTABLISHED in three steps. Afterwards
  each end expects the number that the other sends next, nothing is outstanding, and both have agreed
  on the smaller of their maximum segment sizes.\<close>

theorem three_way_handshake:
  assumes "UIP_LLH_LEN F = UIP_LLH_LEN E" and "quiet_app E" and "quiet_app F"
    and A: "only_conn s i" "tcpstateflags (conn s i) = UIP_SYN_SENT" "conn_len (conn s i) = 1"
    and addr: "ripaddr (conn s i) = uip_hostaddr r" "uip_hostaddr s \<noteq> uip_all_zeroes_addr" "uip_hostaddr r \<noteq> uip_all_zeroes_addr"
    and ports: "lport (conn s i) \<noteq> 0" "rport (conn s i) \<noteq> 0"
    and B: "rport (conn s i) \<in> set (uip_listenports r)" "find_unused (uip_conns r) 0 None = Some j"
      "\<forall>k < length (uip_conns r). tcpstateflags (conn r k) \<noteq> UIP_CLOSED \<longrightarrow>
        \<not> (lport (conn r k) = rport (conn s i) \<and> rport (conn r k) = lport (conn s i) \<and> ripaddr (conn r k) = uip_hostaddr s)"
  shows "\<exists>t1 t2 t3 t4.
    uip_process E UIP_POLL_REQUEST (s\<lparr>uip_conn := Some i\<rparr>) = Some t1 \<and> uip_process F UIP_DATA (deliver t1 r) = Some t2 \<and>
    uip_process E UIP_DATA (deliver t2 t1) = Some t3 \<and> uip_process F UIP_DATA (deliver t3 t2) = Some t4 \<and>
    tcpstateflags (conn t3 i) = UIP_ESTABLISHED \<and> tcpstateflags (conn t4 j) = UIP_ESTABLISHED \<and>
    snd_nxt (conn t3 i) = rcv_nxt (conn t4 j) \<and> snd_nxt (conn t4 j) = rcv_nxt (conn t3 i) \<and>
    conn_len (conn t3 i) = 0 \<and> conn_len (conn t4 j) = 0 \<and>
    mss (conn t3 i) = min (UIP_TCP_MSS E) (UIP_TCP_MSS F) \<and> mss (conn t4 j) = min (UIP_TCP_MSS E) (UIP_TCP_MSS F) \<and>
    mirror (uip_hostaddr s) (conn t3 i) (uip_hostaddr r) (conn t4 j)"
proof -
  let ?c = "conn s i"
  define d where "d = ?c\<lparr>ripaddr := uip_hostaddr s, lport := rport ?c, rport := lport ?c\<rparr>"
  define x where "x = set8 E off_flags 0 (s\<lparr>uip_conn := Some i, uip_sappdata := UIP_LLH_LEN E + UIP_IPTCPH_LEN, uip_appdata := UIP_LLH_LEN E + UIP_IPTCPH_LEN\<rparr>)"
  have x: "uip_hostaddr x = uip_hostaddr s" "uip_conns x = uip_conns s" "BUF8 E x off_flags = 0" by (simp_all add: x_def)
  define t1 where "t1 = tcp_send_syn E i x"
  have 1: "uip_process E UIP_POLL_REQUEST (s\<lparr>uip_conn := Some i\<rparr>) = Some t1"
    using A by (simp add: uip_process_def poll_request_def Let_def t1_def x_def)
  have m: "mirror (uip_hostaddr x) ?c (uip_hostaddr r) d" using addr ports x by (simp add: mirror_def d_def)
  obtain y where y: "uip_process F UIP_DATA (deliver t1 r) = Some (tcp_send_synack F j y)" "uip_hostaddr y = uip_hostaddr r"
    "mirror (uip_hostaddr x) ?c (uip_hostaddr r) (conn y j)" "only_conn y j" "tcpstateflags (conn y j) = UIP_SYN_RCVD"
    "rcv_nxt (conn y j) = uip_add32 (snd_nxt ?c) 1" "conn_len (conn y j) = 1"
    "mss (conn y j) = min (UIP_TCP_MSS E) (UIP_TCP_MSS F)"
    using syn_accepted [OF m assms(1) _ x(3), of i j] B unfolding t1_def by (auto simp: x d_def)
  have t1: "uip_conns t1 = uip_conns s" "uip_hostaddr t1 = uip_hostaddr s" by (simp_all add: t1_def x tcp_send_syn_def Let_def)
  then have o1: "only_conn t1 i" "conn t1 i = ?c" using A(1) by (simp_all add: only_conn_def)
  have m2: "mirror (uip_hostaddr t1) ?c (uip_hostaddr y) (conn y j)" using y(2,3) t1 x by simp
  obtain z c' where z: "uip_process E UIP_DATA (deliver (tcp_send_synack F j y) t1) = Some (tcp_send_noopts E i z)"
    "BUF8 E z off_flags = TCP_ACK" "uip_len z = UIP_IPTCPH_LEN" "uip_hostaddr z = uip_hostaddr t1" "uip_conns z = (uip_conns t1)[i := c']"
    "mirror (uip_hostaddr t1) c' (uip_hostaddr y) (conn y j)" "tcpstateflags c' = UIP_ESTABLISHED" "snd_nxt c' = uip_add32 (snd_nxt ?c) 1"
    "rcv_nxt c' = uip_add32 (snd_nxt (conn y j)) 1" "conn_len c' = 0" "mss c' = min (UIP_TCP_MSS F) (UIP_TCP_MSS E)"
    using synack_opens [OF m2 assms(1) [symmetric] o1 A(2,3) refl y(6) assms(2)] by blast
  have cz: "conn z i = c'" using z(5) t1 A(1) by (simp add: only_conn_def)
  define t2 where "t2 = tcp_send_synack F j y"
  have t2: "uip_conns t2 = uip_conns y" "uip_hostaddr t2 = uip_hostaddr y" by (simp_all add: t2_def tcp_send_synack_def tcp_send_syn_def Let_def)
  have o2: "only_conn t2 j" "conn t2 j = conn y j" using y(4) t2 by (simp_all add: only_conn_def)
  have m3: "mirror (uip_hostaddr z) c' (uip_hostaddr t2) (conn y j)" using z(4,6) t2 by simp
  obtain t4 d' where w: "uip_process F UIP_DATA (deliver (tcp_send_noopts E i z) t2) = Some t4" "uip_conns t4 = (uip_conns t2)[j := d']"
    "mirror (uip_hostaddr z) c' (uip_hostaddr t2) d'" "tcpstateflags d' = UIP_ESTABLISHED" "snd_nxt d' = uip_add32 (snd_nxt (conn y j)) 1"
    "rcv_nxt d' = rcv_nxt (conn y j)" "conn_len d' = 0" "mss d' = mss (conn y j)"
    using ack_establishes [OF m3 assms(1) cz z(9,2,3) o2 y(5,7) assms(3)] by blast
  have cd: "conn t4 j = d'" using w(2) t2 y(4) by (simp add: only_conn_def)
  have cc: "conn (tcp_send_noopts E i z) i = c'" using cz by simp
  show ?thesis
    by (rule exI [of _ t1], rule exI [of _ t2], rule exI [of _ "tcp_send_noopts E i z"], rule exI [of _ t4])
      (use 1 y z w cd cc t1 t2 in \<open>simp add: t2_def [symmetric] min.commute\<close>)
qed

definition example_listener :: "unit uip_state" where
  "example_listener = (example_state () (example_conn\<lparr>tcpstateflags := UIP_CLOSED\<rparr>))\<lparr>uip_hostaddr := (10, 0, 0, 2)\<rparr>"

theorem three_way_handshake_witness:
  "\<exists>t1 t2 t3 t4.
    uip_process example_env UIP_POLL_REQUEST (example_state () example_conn) = Some t1 \<and>
    uip_process example_env UIP_DATA (deliver t1 example_listener) = Some t2 \<and>
    uip_process example_env UIP_DATA (deliver t2 t1) = Some t3 \<and> uip_process example_env UIP_DATA (deliver t3 t2) = Some t4 \<and>
    tcpstateflags (conn t3 0) = UIP_ESTABLISHED \<and> tcpstateflags (conn t4 0) = UIP_ESTABLISHED"
proof -
  have q: "quiet_app (example_env :: unit uip_env)" by (simp add: quiet_app_def example_env_def)
  let ?s = "example_state () example_conn"
  have s: "?s\<lparr>uip_conn := Some 0\<rparr> = ?s" by (simp add: example_state_def)
  have c: "only_conn ?s 0" "conn ?s 0 = example_conn" "uip_hostaddr ?s = (10, 0, 0, 1)" by (simp_all add: only_conn_def example_state_def example_conn_def)
  have l: "uip_hostaddr example_listener = (10, 0, 0, 2)" "0x5000 \<in> set (uip_listenports example_listener)"
    "find_unused (uip_conns example_listener) 0 None = Some 0" "\<forall>k < length (uip_conns example_listener). tcpstateflags (conn example_listener k) = UIP_CLOSED"
    by (simp_all add: example_listener_def example_state_def)
  from three_way_handshake [OF refl q q c(1), of example_listener 0] c l s show ?thesis
    by (auto simp: example_conn_def uip_all_zeroes_addr_def)
qed

section \<open>The transfer of data\<close>

lemma add32_moves: "0 < n \<Longrightarrow> uip_add32 x n \<noteq> x"
proof
  assume n: "0 < n" and e: "uip_add32 x n = x"
  have b: "num4 x < 2 ^ 32"
  proof (cases x)
    case (fields a b c d)
    then show ?thesis using u8_bound [of a] u8_bound [of b] u8_bound [of c] u8_bound [of d] by simp
  qed
  have "num4 x = (num4 x + unat n) mod 2 ^ 32" using uip_add32_num [of x n] e by simp
  moreover have "0 < unat n" "unat n < 65536" using n u16_bound [of n] by (simp_all add: unat_gt_0)
  ultimately show False
    using b by (cases "num4 x + unat n < 2 ^ 32") (auto simp: mod_if split: if_split_asm)
qed

lemma process_ack_conn:
  assumes "i < length (uip_conns s)"
  shows "\<exists>c f. process_ack E i s = s\<lparr>uip_flags := f, uip_conns := (uip_conns s)[i := c]\<rparr> \<and> (f = uip_flags s \<or> f = UIP_ACKDATA) \<and>
    rcv_nxt c = rcv_nxt (conn s i) \<and> tcpstateflags c = tcpstateflags (conn s i) \<and> initialmss c = initialmss (conn s i)"
proof (cases "BUF8 E s off_flags AND TCP_ACK \<noteq> 0 \<and> uip_outstanding (conn s i) \<and>
         BUF4 E s off_ackno = uip_add32 (snd_nxt (conn s i)) (conn_len (conn s i))")
  case True
  then show ?thesis using process_ack_syn [OF assms, of E] by metis
next
  case False
  then have "process_ack E i s = s" unfolding process_ack_def by (simp only: if_False)
  then show ?thesis by (intro exI [of _ "conn s i"] exI [of _ "uip_flags s"]) simp
qed

text \<open>A segment with data that is not urgent and not the last.\<close>

lemma established_segment:
  assumes i: "i < length (uip_conns s)" and st: "tcpstateflags (conn s i) = UIP_ESTABLISHED" and fl: "uip_flags s = 0" and n: "0 < uip_len s"
    and h: "BUF8 E s off_flags = TCP_ACK OR TCP_PSH"
  shows "\<exists>v. in_state E i (process_ack E i s) = Some (appsend E i (UIP_APPCALL E v)) \<and> uip_flags v AND UIP_NEWDATA \<noteq> 0 \<and>
    uip_len v = uip_len s \<and> uip_buf v = uip_buf s \<and> uip_appdata v = uip_appdata s \<and>
    rcv_nxt (conn v i) = uip_add32 (rcv_nxt (conn s i)) (uip_len s)"
proof -
  obtain c f where g: "process_ack E i s = s\<lparr>uip_flags := f, uip_conns := (uip_conns s)[i := c]\<rparr>" "f = 0 \<or> f = UIP_ACKDATA"
    "rcv_nxt c = rcv_nxt (conn s i)" "tcpstateflags c = UIP_ESTABLISHED"
    using process_ack_conn [OF i, of E] fl st by auto
  define a where "a = s\<lparr>uip_flags := f, uip_conns := (uip_conns s)[i := c]\<rparr>"
  have a: "conn a i = c" "uip_flags a = f" "uip_len a = uip_len s" "uip_buf a = uip_buf s" "uip_appdata a = uip_appdata s" "i < length (uip_conns a)"
    using i by (simp_all add: a_def)
  define b where "b = uip_add_rcv_nxt i (uip_len a) (a\<lparr>uip_flags := uip_flags a OR UIP_NEWDATA\<rparr>)"
  have e: "established_data E i a = update_mss E i b"
    using a g(4) n h by (simp add: established_data_def skip_urgent_def Let_def b_def)
  define v where "v = (update_mss E i b)\<lparr>uip_slen := 0\<rparr>"
  have fv: "uip_flags v = f OR UIP_NEWDATA" by (simp add: v_def update_mss_def Let_def b_def uip_add_rcv_nxt_def a)
  have nz: "uip_flags v AND (UIP_NEWDATA OR UIP_ACKDATA) \<noteq> 0" "uip_flags v AND UIP_NEWDATA \<noteq> 0" using g(2) by (auto simp: fv)
  have "in_state E i a = Some (in_established E i a)" using a g(4) by (simp add: in_state_def)
  also have "in_established E i a = appsend E i (UIP_APPCALL E v)"
    using nz(1) h a unfolding in_established_def by (simp add: e v_def Let_def)
  finally have r: "in_state E i a = Some (appsend E i (UIP_APPCALL E v))" .
  have "uip_len v = uip_len s" "uip_buf v = uip_buf s" "uip_appdata v = uip_appdata s"
    by (simp_all add: v_def update_mss_def Let_def b_def uip_add_rcv_nxt_def a)
  moreover have "rcv_nxt (conn v i) = uip_add32 (rcv_nxt (conn s i)) (uip_len s)"
    using a g(3) by (simp add: v_def update_mss_def Let_def b_def uip_add_rcv_nxt_def conn_upd_same)
  ultimately show ?thesis using r nz(2) unfolding g(1) a_def [symmetric] by (intro exI [of _ v]) simp
qed

lemma late_segment:
  assumes "uip_len s > 0" and "BUF4 E s off_seqno \<noteq> rcv_nxt (conn s i)" and "BUF8 E s off_flags = TCP_ACK OR TCP_PSH"
  shows "out_of_sequence E i s"
  using assms by (simp add: out_of_sequence_def)

text \<open>The segment that carries data, when it comes to the connection that it is for.\<close>

lemma data_segment_found:
  assumes m: "mirror (uip_hostaddr s) (conn s i) (uip_hostaddr r) (conn r j)" and L: "UIP_LLH_LEN F = UIP_LLH_LEN E"
    and s: "BUF8 E s off_flags = TCP_ACK OR TCP_PSH" "uip_len s = UIP_IPTCPH_LEN + n" "unat n + 40 < 65536" and d: "only_conn r j"
  defines "p \<equiv> received F j ((deliver (tcp_send_noopts E i s) r)\<lparr>uip_sappdata := UIP_LLH_LEN F + UIP_IPTCPH_LEN, uip_appdata := UIP_LLH_LEN F + UIP_IPTCPH_LEN\<rparr>)"
  shows "uip_process F UIP_DATA (deliver (tcp_send_noopts E i s) r) =
      (if out_of_sequence F j p then Some (tcp_send_ack F j p) else in_state F j (process_ack F j p))"
    and "uip_len p = n" "uip_conns p = uip_conns r" "uip_flags p = 0" "BUF8 F p off_flags = TCP_ACK OR TCP_PSH"
    "BUF4 F p off_seqno = snd_nxt (conn s i)" "uip_appdata p = UIP_LLH_LEN F + UIP_IPTCPH_LEN" "app_state p = app_state r"
    "k \<ge> 40 \<Longrightarrow> BUF8 F p k = BUF8 E s k"
proof -
  define q where "q = (deliver (tcp_send_noopts E i s) r)\<lparr>uip_sappdata := UIP_LLH_LEN F + UIP_IPTCPH_LEN, uip_appdata := UIP_LLH_LEN F + UIP_IPTCPH_LEN\<rparr>"
  have p: "p = received F j q" by (simp add: p_def q_def)
  have le: "UIP_IPTCPH_LEN \<le> uip_len s" using s(2,3) by (simp add: word_le_nat_alt unat_word_ariths)
  have h: "BUF4 F q off_srcipaddr = uip_hostaddr s" "BUF16 F q off_srcport = rport (conn r j)" "BUF16 F q off_destport = lport (conn r j)"
    "BUF8 F q off_flags = TCP_ACK OR TCP_PSH" "BUF8 F q off_tcpoffset = 0x50"
    "uip_len q = UIP_IPTCPH_LEN + n" "uip_conns q = uip_conns r" "BUF4 F q off_seqno = snd_nxt (conn s i)"
    using assms(1-5) tcp_send_noopts_header(1-9) [of E i s] by (simp_all add: q_def mirror_def)
  have f: "uip_process F UIP_DATA (deliver (tcp_send_noopts E i s) r) = found_conn F j q"
    unfolding q_def
  proof (rule segment_found)
    show "tcp_arrives F (deliver (tcp_send_noopts E i s) r)"
      using m L le by (intro tcp_send_noopts_arrives) (auto simp: mirror_def)
  qed (use h d m in \<open>simp_all add: q_def only_conn_def mirror_def\<close>)
  show "uip_process F UIP_DATA (deliver (tcp_send_noopts E i s) r) =
      (if out_of_sequence F j p then Some (tcp_send_ack F j p) else in_state F j (process_ack F j p))"
    unfolding f p using h(4) by (intro found_conn_received) simp
  show "uip_len p = n" using h(5,6) by (simp add: p received_def)
  show "uip_conns p = uip_conns r" "uip_flags p = 0" "BUF8 F p off_flags = TCP_ACK OR TCP_PSH"
    "BUF4 F p off_seqno = snd_nxt (conn s i)" "uip_appdata p = UIP_LLH_LEN F + UIP_IPTCPH_LEN" "app_state p = app_state r"
    using h by (simp_all add: p) (simp_all add: q_def)
  show "k \<ge> 40 \<Longrightarrow> BUF8 F p k = BUF8 E s k"
    using tcp_send_noopts_header(10) [of k E i s] L by (simp add: p q_def)
qed

text \<open>C6: Data is delivered once and in order. When a segment with data comes to the established connection
  that it is for, and its sequence number is the one expected, the application is called with
  \<open>uip_newdata()\<close> set, with the length of the data, and with a pointer to exactly the bytes that the
  sender put into the segment; and from then on, if the segment comes again, it is answered with an
  acknowledgement, and neither the application nor any connection sees it.\<close>

theorem data_delivered_once:
  assumes m: "mirror (uip_hostaddr s) (conn s i) (uip_hostaddr r) (conn r j)" and L: "UIP_LLH_LEN F = UIP_LLH_LEN E"
    and s: "BUF8 E s off_flags = TCP_ACK OR TCP_PSH" "uip_len s = UIP_IPTCPH_LEN + n" "0 < n" "unat n + 40 < 65536"
    and d: "only_conn r j" "tcpstateflags (conn r j) = UIP_ESTABLISHED" "rcv_nxt (conn r j) = snd_nxt (conn s i)"
    and r': "uip_hostaddr r' = uip_hostaddr r" "only_conn r' j" "mirror (uip_hostaddr s) (conn s i) (uip_hostaddr r) (conn r' j)"
      "rcv_nxt (conn r' j) = uip_add32 (rcv_nxt (conn r j)) n"
  shows "(\<exists>v. uip_process F UIP_DATA (deliver (tcp_send_noopts E i s) r) = Some (appsend F j (UIP_APPCALL F v)) \<and>
      uip_flags v AND UIP_NEWDATA \<noteq> 0 \<and> uip_len v = n \<and> (\<forall>k < unat n. uip_buf v (uip_appdata v + k) = BUF8 E s (off_optdata + k)) \<and>
      rcv_nxt (conn v j) = uip_add32 (rcv_nxt (conn r j)) n) \<and>
    (\<exists>t. uip_process F UIP_DATA (deliver (tcp_send_noopts E i s) r') = Some t \<and> uip_conns t = uip_conns r' \<and>
      app_state t = app_state r' \<and> uip_len t = UIP_IPTCPH_LEN \<and> BUF8 F t off_flags = TCP_ACK \<and> BUF4 F t off_ackno = rcv_nxt (conn r' j))"
proof
  let ?p = "\<lambda>r. received F j ((deliver (tcp_send_noopts E i s) r)\<lparr>uip_sappdata := UIP_LLH_LEN F + UIP_IPTCPH_LEN, uip_appdata := UIP_LLH_LEN F + UIP_IPTCPH_LEN\<rparr>)"
  have j: "j < length (uip_conns r)" using d(1) by (simp add: only_conn_def)
  note g = data_segment_found [OF m L s(1,2,4) d(1)]
  have "\<not> out_of_sequence F j (?p r)" using g(3,6) d(3) by (simp add: out_of_sequence_def g(5))
  then have u: "uip_process F UIP_DATA (deliver (tcp_send_noopts E i s) r) = in_state F j (process_ack F j (?p r))" using g(1) by simp
  obtain v where v: "in_state F j (process_ack F j (?p r)) = Some (appsend F j (UIP_APPCALL F v))" "uip_flags v AND UIP_NEWDATA \<noteq> 0"
    "uip_len v = n" "uip_buf v = uip_buf (?p r)" "uip_appdata v = uip_appdata (?p r)" "rcv_nxt (conn v j) = uip_add32 (rcv_nxt (conn r j)) n"
    using established_segment [of j "?p r" F] j d(2) s(3) g(2-5) by auto
  have "uip_buf v (uip_appdata v + k) = BUF8 E s (off_optdata + k)" for k
    unfolding v(4,5) g(7) using g(9) [of "off_optdata + k"] L by (simp add: add.assoc)
  then show "\<exists>v. uip_process F UIP_DATA (deliver (tcp_send_noopts E i s) r) = Some (appsend F j (UIP_APPCALL F v)) \<and>
      uip_flags v AND UIP_NEWDATA \<noteq> 0 \<and> uip_len v = n \<and> (\<forall>k < unat n. uip_buf v (uip_appdata v + k) = BUF8 E s (off_optdata + k)) \<and>
      rcv_nxt (conn v j) = uip_add32 (rcv_nxt (conn r j)) n"
    using u v(1-3,6) by (intro exI [of _ v]) simp
next
  let ?p = "\<lambda>r. received F j ((deliver (tcp_send_noopts E i s) r)\<lparr>uip_sappdata := UIP_LLH_LEN F + UIP_IPTCPH_LEN, uip_appdata := UIP_LLH_LEN F + UIP_IPTCPH_LEN\<rparr>)"
  have m': "mirror (uip_hostaddr s) (conn s i) (uip_hostaddr r') (conn r' j)" using r'(1,3) by simp
  note g = data_segment_found [OF m' L s(1,2,4) r'(2)]
  have "rcv_nxt (conn r' j) \<noteq> snd_nxt (conn s i)" using add32_moves [OF s(3)] r'(4) d(3) by simp
  then have "out_of_sequence F j (?p r')" using g(2,3,6) s(3) by (intro late_segment g(5)) auto
  then have "uip_process F UIP_DATA (deliver (tcp_send_noopts E i s) r') = Some (tcp_send_ack F j (?p r'))" using g(1) by simp
  moreover have "app_state (tcp_send_ack F j (?p r')) = app_state r'" using g(8) by (simp add: tcp_sends)
  moreover have "BUF8 F (tcp_send_ack F j (?p r')) off_flags = TCP_ACK" "BUF4 F (tcp_send_ack F j (?p r')) off_ackno = rcv_nxt (conn r' j)"
    "uip_len (tcp_send_ack F j (?p r')) = UIP_IPTCPH_LEN"
    using g(3) by (simp_all add: tcp_send_ack_def tcp_send_nodata_def tcp_send_noopts_header)
  ultimately show "\<exists>t. uip_process F UIP_DATA (deliver (tcp_send_noopts E i s) r') = Some t \<and> uip_conns t = uip_conns r' \<and>
      app_state t = app_state r' \<and> uip_len t = UIP_IPTCPH_LEN \<and> BUF8 F t off_flags = TCP_ACK \<and> BUF4 F t off_ackno = rcv_nxt (conn r' j)"
    using g(3) by auto
qed

definition example_open :: "ipaddr \<Rightarrow> ipaddr \<Rightarrow> bytes4 \<Rightarrow> bytes4 \<Rightarrow> u16 \<Rightarrow> u16 \<Rightarrow> unit uip_state" where
  "example_open a b rcv nxt l p = (example_state () (example_conn\<lparr>tcpstateflags := UIP_ESTABLISHED, ripaddr := b, rcv_nxt := rcv, snd_nxt := nxt,
     lport := l, rport := p, conn_len := 0\<rparr>))\<lparr>uip_hostaddr := a\<rparr>"

definition example_sender :: "unit uip_state" where
  "example_sender = set8 example_env off_flags (TCP_ACK OR TCP_PSH) (set8 example_env off_optdata 65
      (example_open (10, 0, 0, 1) (10, 0, 0, 2) (0, 0, 0, 7) (0, 0, 0, 9) 1 2))\<lparr>uip_len := 41\<rparr>"

definition example_receiver :: "unit uip_state" where
  "example_receiver = example_open (10, 0, 0, 2) (10, 0, 0, 1) (0, 0, 0, 9) (0, 0, 0, 7) 2 1"

theorem data_delivered_once_witness:
  "\<exists>v. uip_process example_env UIP_DATA (deliver (tcp_send_noopts example_env 0 example_sender) example_receiver) =
      Some (appsend example_env 0 v) \<and> uip_len v = 1 \<and> uip_buf v (uip_appdata v) = 65"
proof -
  define r' where "r' = example_open (10, 0, 0, 2) (10, 0, 0, 1) (0, 0, 0, 10) (0, 0, 0, 7) 2 1"
  have c: "uip_conns example_sender = uip_conns (example_open (10, 0, 0, 1) (10, 0, 0, 2) (0, 0, 0, 7) (0, 0, 0, 9) 1 2)" "uip_hostaddr example_sender = (10, 0, 0, 1)"
    by (simp_all add: example_sender_def example_open_def)
  have "mirror (uip_hostaddr example_sender) (conn example_sender 0) (uip_hostaddr example_receiver) (conn example_receiver 0)" "only_conn example_receiver 0" "only_conn r' 0"
    "mirror (uip_hostaddr example_sender) (conn example_sender 0) (uip_hostaddr example_receiver) (conn r' 0)"
    by (simp_all add: c example_receiver_def r'_def mirror_def only_conn_def example_open_def example_state_def example_conn_def uip_all_zeroes_addr_def)
  moreover have "BUF8 example_env example_sender off_flags = TCP_ACK OR TCP_PSH" "uip_len example_sender = UIP_IPTCPH_LEN + 1" "BUF8 example_env example_sender off_optdata = 65"
    by (simp_all add: example_sender_def)
  moreover have "tcpstateflags (conn example_receiver 0) = UIP_ESTABLISHED" "rcv_nxt (conn example_receiver 0) = snd_nxt (conn example_sender 0)" "uip_hostaddr r' = uip_hostaddr example_receiver"
    "rcv_nxt (conn r' 0) = uip_add32 (rcv_nxt (conn example_receiver 0)) 1"
    by (simp_all add: c example_receiver_def r'_def example_open_def example_state_def uip_add32_def)
  ultimately show ?thesis
    using data_delivered_once [where E = example_env and F = example_env and s = example_sender and r = example_receiver and r' = r' and i = 0 and j = 0 and n = 1]
    by (simp add: example_env_def) blast
qed

end
