(* ===== verification/UipArp.thy ===== *)
theory UipArp
  imports UipHandshake
begin

text \<open>
  Address resolution on the Ethernet, \<open>core/net/ipv4/uip_arp.c\<close>, and the driver of the 6502 machines
  that calls it, \<open>cpu/6502/net/ethernet-drv.c\<close>: the table of addresses, the frames that
  \<open>uip_arp_out\<close> and \<open>uip_arp_arpin\<close> write into the packet buffer, and the way from the stack of one
  node to that of another. The module's scratch variables \<open>i\<close>, \<open>c\<close>, \<open>tmpage\<close> and \<open>ipaddr\<close> are written
  before they are read in every function, so they are local here.
\<close>

section \<open>State\<close>

type_synonym ethaddr = "u8 \<times> u8 \<times> u8 \<times> u8 \<times> u8 \<times> u8"

record arp_entry =
  arp_ipaddr :: ipaddr
  arp_ethaddr :: ethaddr
  arp_time :: u8

record arp_state =
  arp_table :: "arp_entry list"
  arptime :: u8
  uip_lladdr :: ethaddr
  uip_netmask :: ipaddr
  uip_draddr :: ipaddr

abbreviation (input) "UIP_ARPTAB_SIZE \<equiv> (8 :: nat)"
abbreviation (input) "UIP_ARP_MAXAGE \<equiv> (120 :: int)"
abbreviation (input) "UIP_ETHTYPE_ARP \<equiv> (0x0806 :: u16)"
abbreviation (input) "UIP_ETHTYPE_IP \<equiv> (0x0800 :: u16)"
abbreviation (input) "ARP_REQUEST \<equiv> (1 :: u16)"
abbreviation (input) "ARP_REPLY \<equiv> (2 :: u16)"
abbreviation (input) "ARP_HWTYPE_ETH \<equiv> (1 :: u16)"

text \<open>The fields of \<open>struct arp_hdr\<close> and \<open>struct ethip_hdr\<close> are their offsets in \<open>uip_buf\<close>.\<close>

abbreviation (input) "eth_dest \<equiv> (0 :: nat)"
abbreviation (input) "eth_src \<equiv> (6 :: nat)"
abbreviation (input) "eth_type \<equiv> (12 :: nat)"
abbreviation (input) "arp_hwtype \<equiv> (14 :: nat)"
abbreviation (input) "arp_protocol \<equiv> (16 :: nat)"
abbreviation (input) "arp_hwlen \<equiv> (18 :: nat)"
abbreviation (input) "arp_protolen \<equiv> (19 :: nat)"
abbreviation (input) "arp_opcode \<equiv> (20 :: nat)"
abbreviation (input) "arp_shwaddr \<equiv> (22 :: nat)"
abbreviation (input) "arp_sipaddr \<equiv> (28 :: nat)"
abbreviation (input) "arp_dhwaddr \<equiv> (32 :: nat)"
abbreviation (input) "arp_dipaddr \<equiv> (38 :: nat)"
abbreviation (input) "ip_destipaddr \<equiv> (30 :: nat)"
abbreviation (input) "SIZEOF_ARP_HDR \<equiv> (42 :: u16)"
abbreviation (input) "SIZEOF_ETH_HDR \<equiv> (14 :: u16)"

definition put6 :: "nat \<Rightarrow> ethaddr \<Rightarrow> mem \<Rightarrow> mem" where
  "put6 p x m = (let (a, b, c, d, e, f) = x
     in m(p := a, p + 1 := b, p + 2 := c, p + 3 := d, p + 4 := e, p + 5 := f))"

definition get6 :: "mem \<Rightarrow> nat \<Rightarrow> ethaddr" where
  "get6 m p = (m p, m (p + 1), m (p + 2), m (p + 3), m (p + 4), m (p + 5))"

definition broadcast_ethaddr :: ethaddr where
  "broadcast_ethaddr = (0xff, 0xff, 0xff, 0xff, 0xff, 0xff)"

section \<open>The table\<close>

definition uip_arp_init :: "arp_state \<Rightarrow> arp_state" where
  "uip_arp_init a = a\<lparr>arp_table := map (arp_ipaddr_update (\<lambda>_. uip_all_zeroes_addr)) (arp_table a)\<rparr>"

text \<open>The bytes are promoted to \<open>int\<close> before they are subtracted, so the age of an entry that is
  younger than the last wrap of the clock is negative.\<close>

definition arp_age :: "u8 \<Rightarrow> arp_entry \<Rightarrow> int" where
  "arp_age now e = uint now - uint (arp_time e)"

definition uip_arp_timer :: "arp_state \<Rightarrow> arp_state" where
  "uip_arp_timer a =
     (let now = arptime a + 1
      in a\<lparr>arptime := now,
           arp_table := map (\<lambda>e. if arp_ipaddr e = uip_all_zeroes_addr \<and> arp_age now e \<ge> UIP_ARP_MAXAGE
                                 then e\<lparr>arp_ipaddr := uip_all_zeroes_addr\<rparr> else e) (arp_table a)\<rparr>)"

text \<open>The index of the first entry that fits, the number of entries if there is none.\<close>

fun arp_find :: "(arp_entry \<Rightarrow> bool) \<Rightarrow> arp_entry list \<Rightarrow> nat \<Rightarrow> nat" where
  "arp_find P [] i = i"
| "arp_find P (e # es) i = (if P e then i else arp_find P es (i + 1))"

fun oldest_loop :: "u8 \<Rightarrow> arp_entry list \<Rightarrow> nat \<Rightarrow> u8 \<Rightarrow> nat \<Rightarrow> nat" where
  "oldest_loop now [] i tmpage c = c"
| "oldest_loop now (e # es) i tmpage c =
     (if arp_age now e > uint tmpage
      then oldest_loop now es (i + 1) (now - arp_time e) i
      else oldest_loop now es (i + 1) tmpage c)"

definition arp_slot :: "u8 \<Rightarrow> arp_entry list \<Rightarrow> nat" where
  "arp_slot now es =
     (let i = arp_find (\<lambda>e. arp_ipaddr e = uip_all_zeroes_addr) es 0
      in if i = length es then oldest_loop now es 0 0 0 else i)"

definition uip_arp_update :: "ipaddr \<Rightarrow> ethaddr \<Rightarrow> arp_state \<Rightarrow> arp_state" where
  "uip_arp_update ip eth a =
     (let es = arp_table a;
          i = arp_find (\<lambda>e. arp_ipaddr e \<noteq> uip_all_zeroes_addr \<and> ip = arp_ipaddr e) es 0
      in if i < length es then a\<lparr>arp_table := es[i := (es ! i)\<lparr>arp_ethaddr := eth, arp_time := arptime a\<rparr>]\<rparr>
         else a\<lparr>arp_table := es[arp_slot (arptime a) es := \<lparr>arp_ipaddr = ip, arp_ethaddr = eth, arp_time = arptime a\<rparr>]\<rparr>)"

section \<open>Frames\<close>

definition uip_arp_arpin :: "arp_state \<times> 'a uip_state \<Rightarrow> arp_state \<times> 'a uip_state" where
  "uip_arp_arpin = (\<lambda>(a, s).
     if uip_len s < SIZEOF_ARP_HDR then (a, s\<lparr>uip_len := 0\<rparr>)
     else
       let s = s\<lparr>uip_len := 0\<rparr>; m = uip_buf s
       in if rd16 m arp_opcode = uip_htons ARP_REQUEST then
            if get4 m arp_dipaddr = uip_hostaddr s then
              let a = uip_arp_update (get4 m arp_sipaddr) (get6 m arp_shwaddr) a;
                  m = put16 arp_opcode (uip_htons ARP_REPLY) m;
                  m = put6 arp_dhwaddr (get6 m arp_shwaddr) m;
                  m = put6 arp_shwaddr (uip_lladdr a) m;
                  m = put6 eth_src (uip_lladdr a) m;
                  m = put6 eth_dest (get6 m arp_dhwaddr) m;
                  m = put4 arp_dipaddr (get4 m arp_sipaddr) m;
                  m = put4 arp_sipaddr (uip_hostaddr s) m;
                  m = put16 eth_type (uip_htons UIP_ETHTYPE_ARP) m
              in (a, s\<lparr>uip_buf := m, uip_len := SIZEOF_ARP_HDR\<rparr>)
            else (a, s)
          else if rd16 m arp_opcode = uip_htons ARP_REPLY then
            if get4 m arp_dipaddr = uip_hostaddr s
            then (uip_arp_update (get4 m arp_sipaddr) (get6 m arp_shwaddr) a, s) else (a, s)
          else (a, s))"

definition uip_ipaddr_maskcmp :: "ipaddr \<Rightarrow> ipaddr \<Rightarrow> ipaddr \<Rightarrow> bool" where
  "uip_ipaddr_maskcmp x y m =
     (let (x0, x1, x2, x3) = x; (y0, y1, y2, y3) = y; (m0, m1, m2, m3) = m
      in x0 AND m0 = y0 AND m0 \<and> x1 AND m1 = y1 AND m1 \<and> x2 AND m2 = y2 AND m2 \<and> x3 AND m3 = y3 AND m3)"

text \<open>The address whose link-layer address a packet needs.\<close>

definition next_hop :: "arp_state \<Rightarrow> 'a uip_state \<Rightarrow> ipaddr" where
  "next_hop a s =
     (if \<not> uip_ipaddr_maskcmp (get4 (uip_buf s) ip_destipaddr) (uip_hostaddr s) (uip_netmask a)
      then uip_draddr a else get4 (uip_buf s) ip_destipaddr)"

definition arp_request :: "arp_state \<Rightarrow> ipaddr \<Rightarrow> 'a uip_state \<Rightarrow> 'a uip_state" where
  "arp_request a ip s =
     (let m = put6 eth_dest broadcast_ethaddr (uip_buf s);
          m = put6 arp_dhwaddr (0, 0, 0, 0, 0, 0) m;
          m = put6 eth_src (uip_lladdr a) m;
          m = put6 arp_shwaddr (uip_lladdr a) m;
          m = put4 arp_dipaddr ip m;
          m = put4 arp_sipaddr (uip_hostaddr s) m;
          m = put16 arp_opcode (uip_htons ARP_REQUEST) m;
          m = put16 arp_hwtype (uip_htons ARP_HWTYPE_ETH) m;
          m = put16 arp_protocol (uip_htons UIP_ETHTYPE_IP) m;
          m = m(arp_hwlen := 6);
          m = m(arp_protolen := 4);
          m = put16 eth_type (uip_htons UIP_ETHTYPE_ARP) m
      in s\<lparr>uip_buf := m, uip_appdata := 40 + 14, uip_len := SIZEOF_ARP_HDR\<rparr>)"

definition eth_frame :: "arp_state \<Rightarrow> ethaddr \<Rightarrow> 'a uip_state \<Rightarrow> 'a uip_state" where
  "eth_frame a dest s =
     (let m = put6 eth_dest dest (uip_buf s);
          m = put6 eth_src (uip_lladdr a) m;
          m = put16 eth_type (uip_htons UIP_ETHTYPE_IP) m
      in s\<lparr>uip_buf := m, uip_len := uip_len s + SIZEOF_ETH_HDR\<rparr>)"

definition uip_arp_out :: "arp_state \<Rightarrow> 'a uip_state \<Rightarrow> 'a uip_state" where
  "uip_arp_out a s =
     (let dest = get4 (uip_buf s) ip_destipaddr
      in if dest = uip_broadcast_addr then eth_frame a broadcast_ethaddr s
         else if fst dest = 224 then
           eth_frame a (0x01, 0x00, 0x5e, uip_buf s (ip_destipaddr + 1), uip_buf s (ip_destipaddr + 2), uip_buf s (ip_destipaddr + 3)) s
         else
           let ip = next_hop a s; i = arp_find (\<lambda>e. ip = arp_ipaddr e) (arp_table a) 0
           in if i = length (arp_table a) then arp_request a ip s
              else eth_frame a (arp_ethaddr (arp_table a ! i)) s)"

section \<open>The driver\<close>

text \<open>The driver keeps the table; \<open>ethernet_send\<close> and \<open>ethernet_poll\<close> belong to a loadable module for
  the network card, so the frames that are sent are collected, and a received frame is an argument.\<close>

record 'v eth =
  eth_arp :: arp_state
  eth_sent :: "(mem \<times> u16) list"
  eth_user :: 'v

abbreviation arp_of :: "'v eth tcpip uip_state \<Rightarrow> arp_state" where
  "arp_of s \<equiv> eth_arp (user (app_state s))"

abbreviation sent_of :: "'v eth tcpip uip_state \<Rightarrow> (mem \<times> u16) list" where
  "sent_of s \<equiv> eth_sent (user (app_state s))"

definition ethernet_send :: "'v eth tcpip uip_state \<Rightarrow> 'v eth" where
  "ethernet_send s = (user (app_state s))\<lparr>eth_sent := sent_of s @ [(uip_buf s, uip_len s)]\<rparr>"

definition ethernet_output :: "'v eth tcpip uip_state \<Rightarrow> 'v eth \<times> mem \<times> u16" where
  "ethernet_output s = (let s = uip_arp_out (arp_of s) s in (ethernet_send s, uip_buf s, uip_len s))"

definition ethernet_input :: "'v eth node \<Rightarrow> 'v eth tcpip uip_state \<Rightarrow> 'v eth tcpip uip_state option" where
  "ethernet_input N s =
     (if uip_len s > 0 then
        if rd16 (uip_buf s) eth_type = uip_htons UIP_ETHTYPE_IP then
          tcpip_input N (s\<lparr>uip_len := uip_len s - SIZEOF_ETH_HDR\<rparr>)
        else if rd16 (uip_buf s) eth_type = uip_htons UIP_ETHTYPE_ARP then
          let (a, s) = uip_arp_arpin (arp_of s, s);
              s = tc (user_update (eth_arp_update (\<lambda>_. a))) s
          in Some (if uip_len s > 0 then tc (user_update (\<lambda>_. ethernet_send s)) s else s)
        else Some s
      else Some s)"

definition pollhandler :: "'v eth node \<Rightarrow> mem \<times> u16 \<Rightarrow> 'v eth tcpip uip_state \<Rightarrow> 'v eth tcpip uip_state option" where
  "pollhandler N frame s = ethernet_input N (s\<lparr>uip_buf := fst frame, uip_len := snd frame\<rparr>)"

section \<open>The table is a cache\<close>

lemma arp_find_bounds: "i \<le> arp_find P es i \<and> arp_find P es i \<le> i + length es"
proof (induction es arbitrary: i)
  case (Cons e es)
  from Cons [of "i + 1"] show ?case by auto
qed simp

lemma arp_find_hit: "arp_find P es i < i + length es \<Longrightarrow> P (es ! (arp_find P es i - i))"
proof (induction es arbitrary: i)
  case (Cons e es)
  have "i + 1 \<le> arp_find P es (i + 1)" using arp_find_bounds by blast
  then have "arp_find P es (i + 1) - i = Suc (arp_find P es (i + 1) - (i + 1))" by linarith
  with Cons.IH [of "i + 1"] Cons.prems show ?case by (auto simp: nth_Cons split: if_splits)
qed simp

lemma arp_find_miss: "arp_find P es i = i + length es \<longleftrightarrow> (\<forall>e \<in> set es. \<not> P e)"
proof (induction es arbitrary: i)
  case (Cons e es)
  from Cons [of "i + 1"] show ?case by auto
qed simp

lemmas arp_find_0 = arp_find_bounds [of 0, simplified] arp_find_hit [where i = 0, simplified] arp_find_miss [where i = 0, simplified]

definition arp_lookup :: "arp_entry list \<Rightarrow> ipaddr \<Rightarrow> ethaddr option" where
  "arp_lookup es ip = map_option arp_ethaddr (List.find (\<lambda>e. arp_ipaddr e = ip) es)"

definition arp_ok :: "arp_entry list \<Rightarrow> bool" where
  "arp_ok es \<longleftrightarrow> length es = UIP_ARPTAB_SIZE \<and>
     (\<forall>i < length es. \<forall>j < length es. arp_ipaddr (es ! i) = arp_ipaddr (es ! j) \<longrightarrow>
        arp_ipaddr (es ! i) \<noteq> uip_all_zeroes_addr \<longrightarrow> i = j)"

lemma arp_lookup_None: "arp_lookup es ip = None \<longleftrightarrow> ip \<notin> arp_ipaddr ` set es"
  by (auto simp: arp_lookup_def find_None_iff)

lemma arp_lookup_nth:
  assumes "arp_ok es" and "i < length es" and "arp_ipaddr (es ! i) = ip" and "ip \<noteq> uip_all_zeroes_addr"
  shows "arp_lookup es ip = Some (arp_ethaddr (es ! i))"
proof -
  obtain e where e: "List.find (\<lambda>e. arp_ipaddr e = ip) es = Some e"
    using assms(2,3) by (metis (mono_tags, lifting) find_None_iff not_Some_eq nth_mem)
  then obtain j where "j < length es" "arp_ipaddr (es ! j) = ip" "e = es ! j" by (auto simp: find_Some_iff)
  with assms have "e = es ! i" by (metis arp_ok_def)
  with e show ?thesis by (simp add: arp_lookup_def)
qed

lemma arp_lookup_SomeE:
  assumes "arp_lookup es ip = Some eth"
  obtains i where "i < length es" "arp_ipaddr (es ! i) = ip" "arp_ethaddr (es ! i) = eth"
  using assms by (auto simp: arp_lookup_def find_Some_iff)

text \<open>Replacing an entry, and what that does to the other addresses.\<close>

lemma arp_ok_update:
  assumes "arp_ok es" and "i < length es" and "ip = arp_ipaddr (es ! i) \<or> ip = uip_all_zeroes_addr \<or> ip \<notin> arp_ipaddr ` set es"
  shows "arp_ok (es[i := \<lparr>arp_ipaddr = ip, arp_ethaddr = eth, arp_time = t\<rparr>])"
  unfolding arp_ok_def
proof (intro conjI allI impI)
  let ?e = "\<lparr>arp_ipaddr = ip, arp_ethaddr = eth, arp_time = t\<rparr>"
  fix j k assume j: "j < length (es[i := ?e])" "k < length (es[i := ?e])" "arp_ipaddr (es[i := ?e] ! j) = arp_ipaddr (es[i := ?e] ! k)"
    and nz: "arp_ipaddr (es[i := ?e] ! j) \<noteq> uip_all_zeroes_addr"
  have other: "m = i" if "m < length es" "arp_ipaddr (es ! m) = ip" "ip \<noteq> uip_all_zeroes_addr" for m
    using that assms nth_mem by (metis (no_types, lifting) arp_ok_def imageI)
  have ok: "m = n" if "m < length es" "n < length es" "arp_ipaddr (es ! m) = arp_ipaddr (es ! n)" "arp_ipaddr (es ! m) \<noteq> uip_all_zeroes_addr" for m n
    using that assms(1) by (simp add: arp_ok_def)
  from j nz assms(2) show "j = k"
    by (cases "j = i"; cases "k = i") (simp_all add: other ok)
qed (use assms in \<open>simp add: arp_ok_def\<close>)

lemma arp_lookup_update_same:
  assumes "arp_ok (es[i := e])" and "i < length es" and "arp_ipaddr e \<noteq> uip_all_zeroes_addr"
  shows "arp_lookup (es[i := e]) (arp_ipaddr e) = Some (arp_ethaddr e)"
  using arp_lookup_nth [OF assms(1), of i] assms(2,3) by simp

lemma arp_lookup_update_other:
  assumes ok: "arp_ok es" "arp_ok (es[i := e])" and i: "i < length es" and ip: "ip \<noteq> arp_ipaddr e" "ip \<noteq> uip_all_zeroes_addr"
  shows "arp_lookup (es[i := e]) ip = (if ip = arp_ipaddr (es ! i) then None else arp_lookup es ip)"
proof (cases "\<exists>j < length es. j \<noteq> i \<and> arp_ipaddr (es ! j) = ip")
  case True
  then obtain j where j: "j < length es" "j \<noteq> i" "arp_ipaddr (es ! j) = ip" by blast
  moreover from this ok(1) i ip have "arp_ipaddr (es ! i) \<noteq> ip" by (metis arp_ok_def)
  ultimately show ?thesis
    using arp_lookup_nth [OF ok(1) j(1,3) ip(2)] arp_lookup_nth [OF ok(2), of j ip] ip by simp
next
  case False
  then have "ip \<notin> arp_ipaddr ` set (es[i := e])"
    using ip(1) by (auto simp: in_set_conv_nth) (metis nth_list_update_eq nth_list_update_neq)
  moreover from False have "ip \<noteq> arp_ipaddr (es ! i) \<Longrightarrow> ip \<notin> arp_ipaddr ` set es"
    by (auto simp: in_set_conv_nth)
  ultimately show ?thesis by (metis arp_lookup_None)
qed

lemma oldest_loop_bounds: "c < i + length es \<Longrightarrow> oldest_loop now es i tmp c < i + length es"
proof (induction es arbitrary: i tmp c)
  case (Cons e es)
  from Cons.IH [of _ "i + 1"] Cons.prems show ?case by simp
qed simp

text \<open>The entry that is thrown away is the oldest, as far as the ages of the others are not negative.\<close>

lemma age_word: "arp_age now e > uint tmp \<Longrightarrow> uint (now - arp_time e) = arp_age now e"
proof -
  assume "arp_age now e > uint tmp"
  then have "uint (arp_time e) \<le> uint now" using uint_lt_0 [of tmp] uint_ge_0 [of tmp] unfolding arp_age_def by linarith
  then show ?thesis by (simp add: arp_age_def uint_sub_lem)
qed

lemma oldest_loop_oldest:
  assumes "es = pre @ suf" "i = length pre" "\<forall>e \<in> set pre. arp_age now e \<le> uint tmp"
    and "tmp = 0 \<or> c < length pre \<and> arp_age now (es ! c) = uint tmp"
  shows "\<forall>e \<in> set es. arp_age now e \<le> max 0 (arp_age now (es ! oldest_loop now suf i tmp c))"
  using assms
proof (induction suf arbitrary: pre i tmp c)
  case Nil
  then show ?case by (auto simp: max_def)
next
  case (Cons e suf)
  note IH = Cons.IH [where pre = "pre @ [e]" and i = "i + 1"]
  show ?case
  proof (cases "arp_age now e > uint tmp")
    case True
    then show ?thesis using Cons.prems IH [of "now - arp_time e" i] age_word [OF True] by (fastforce simp: nth_append)
  next
    case False
    then show ?thesis using Cons.prems IH [of tmp c] by (fastforce simp: nth_append)
  qed
qed

text \<open>Everything that happens to the table is a sequence of updates and ticks.\<close>

datatype arp_op = Learn ipaddr ethaddr | Tick

fun arp_step :: "arp_op \<Rightarrow> arp_state \<Rightarrow> arp_state" where
  "arp_step (Learn ip eth) a = uip_arp_update ip eth a"
| "arp_step Tick a = uip_arp_timer a"

abbreviation arp_run :: "arp_op list \<Rightarrow> arp_state \<Rightarrow> arp_state" where
  "arp_run ops a \<equiv> fold arp_step ops (uip_arp_init a)"

lemma uip_arp_timer_table [simp]: "arp_table (uip_arp_timer a) = arp_table a"
  by (auto simp: uip_arp_timer_def Let_def intro!: map_idI)

lemma arp_slot_bounds: "es \<noteq> [] \<Longrightarrow> arp_slot now es < length es"
  using arp_find_0(1) [of "\<lambda>e. arp_ipaddr e = uip_all_zeroes_addr" es] oldest_loop_bounds [of 0 0 es now 0]
  by (auto simp: arp_slot_def Let_def le_less)

lemma arp_update_cases:
  assumes ok: "arp_ok (arp_table a)"
  obtains (known) i where "i < length (arp_table a)" "arp_ipaddr (arp_table a ! i) = ip" "ip \<noteq> uip_all_zeroes_addr"
      "uip_arp_update ip eth a = a\<lparr>arp_table := (arp_table a)[i := \<lparr>arp_ipaddr = ip, arp_ethaddr = eth, arp_time = arptime a\<rparr>]\<rparr>"
    | (new) "ip = uip_all_zeroes_addr \<or> ip \<notin> arp_ipaddr ` set (arp_table a)"
      "uip_arp_update ip eth a = a\<lparr>arp_table := (arp_table a)[arp_slot (arptime a) (arp_table a) := \<lparr>arp_ipaddr = ip, arp_ethaddr = eth, arp_time = arptime a\<rparr>]\<rparr>"
proof (cases "arp_find (\<lambda>e. arp_ipaddr e \<noteq> uip_all_zeroes_addr \<and> ip = arp_ipaddr e) (arp_table a) 0 < length (arp_table a)")
  case True
  let ?i = "arp_find (\<lambda>e. arp_ipaddr e \<noteq> uip_all_zeroes_addr \<and> ip = arp_ipaddr e) (arp_table a) 0"
  from arp_find_0(2) [OF True] have i: "arp_ipaddr (arp_table a ! ?i) = ip" "ip \<noteq> uip_all_zeroes_addr" by auto
  then have "(arp_table a ! ?i)\<lparr>arp_ethaddr := eth, arp_time := arptime a\<rparr> = \<lparr>arp_ipaddr = ip, arp_ethaddr = eth, arp_time = arptime a\<rparr>"
    by (cases "arp_table a ! ?i") simp
  with True i known [OF True] show ?thesis by (simp add: uip_arp_update_def Let_def)
next
  case False
  moreover from this have "arp_find (\<lambda>e. arp_ipaddr e \<noteq> uip_all_zeroes_addr \<and> ip = arp_ipaddr e) (arp_table a) 0 = length (arp_table a)"
    using arp_find_0(1) le_neq_implies_less by blast
  then have "ip = uip_all_zeroes_addr \<or> ip \<notin> arp_ipaddr ` set (arp_table a)" by (auto simp: arp_find_0(3))
  ultimately show ?thesis using new by (simp add: uip_arp_update_def Let_def)
qed

lemma arp_ok_init: "length (arp_table a) = UIP_ARPTAB_SIZE \<Longrightarrow> arp_ok (arp_table (uip_arp_init a))"
  by (simp add: arp_ok_def uip_arp_init_def)

lemma arp_ok_uip_arp_update: "arp_ok (arp_table a) \<Longrightarrow> arp_ok (arp_table (uip_arp_update ip eth a))"
proof -
  assume ok: "arp_ok (arp_table a)"
  then have "arp_slot (arptime a) (arp_table a) < length (arp_table a)" by (intro arp_slot_bounds) (auto simp: arp_ok_def)
  with ok show ?thesis
    by (cases rule: arp_update_cases [OF ok, of ip eth]) (auto intro!: arp_ok_update)
qed

lemma arp_ok_run: "length (arp_table a) = UIP_ARPTAB_SIZE \<Longrightarrow> arp_ok (arp_table (arp_run ops a))"
proof (induction ops rule: rev_induct)
  case (snoc x ops)
  then show ?case by (cases x) (simp_all add: arp_ok_uip_arp_update)
qed (simp add: arp_ok_init)

text \<open>C14: The ARP table is a cache that maps each address to the link-layer address learnt last. After any
  sequence of updates and timer ticks from an initialised table, learning an address makes the
  lookup of it give what was learnt and leaves every other address as it was; only when the address
  is new and all entries are in use is one other address forgotten. Its age is the largest, or no
  entry has an age above 0; as the age is a difference of 8-bit times that may be negative, the
  forgotten entry is an oldest one only while the clock has not wrapped since an entry was
  refreshed. The timer forgets nothing, although \<open>UIP_ARP_MAXAGE\<close> is documented as the
  age at which entries expire.\<close>

theorem arp_table_is_a_cache:
  assumes "length (arp_table a0) = UIP_ARPTAB_SIZE" and "a = arp_run ops a0" and "ip \<noteq> uip_all_zeroes_addr"
  shows "arp_lookup (arp_table (uip_arp_update ip eth a)) ip = Some eth \<and>
    arp_table (uip_arp_timer a) = arp_table a \<and>
    (\<exists>victim. (\<forall>j. j \<noteq> ip \<longrightarrow> j \<noteq> uip_all_zeroes_addr \<longrightarrow>
         arp_lookup (arp_table (uip_arp_update ip eth a)) j = (if victim = Some j then None else arp_lookup (arp_table a) j)) \<and>
       (\<forall>v. victim = Some v \<longrightarrow> arp_lookup (arp_table a) ip = None \<and>
         (\<forall>e \<in> set (arp_table a). arp_ipaddr e \<noteq> uip_all_zeroes_addr) \<and>
         (\<exists>old \<in> set (arp_table a). arp_ipaddr old = v \<and>
           (\<forall>e \<in> set (arp_table a). arp_age (arptime a) e \<le> max 0 (arp_age (arptime a) old)))))"
proof -
  let ?es = "arp_table a" and ?e = "\<lparr>arp_ipaddr = ip, arp_ethaddr = eth, arp_time = arptime a\<rparr>"
  let ?k = "arp_slot (arptime a) ?es"
  have ok: "arp_ok ?es" using arp_ok_run assms(1,2) by blast
  then have l: "?es \<noteq> []" by (auto simp: arp_ok_def)
  note k = arp_slot_bounds [OF l, of "arptime a"]
  note ok' = arp_ok_uip_arp_update [OF ok, of ip eth]
  show ?thesis
  proof (cases rule: arp_update_cases [OF ok, of ip eth])
    case (1 i)
    note known = 1 note ok2 = ok' [unfolded known(4), simplified]
    have "arp_lookup (?es[i := ?e]) j = arp_lookup ?es j" if "j \<noteq> ip" "j \<noteq> uip_all_zeroes_addr" for j
      using arp_lookup_update_other [OF ok ok2 known(1), of j] that known(2) by simp
    then show ?thesis using arp_lookup_update_same [OF ok2 known(1)] known(3)
      by (intro conjI exI [of _ None]) (simp_all add: known(4))
  next
    case 2
    note new = 2 note ok2 = ok' [unfolded new(2), simplified]
    define v where "v = arp_ipaddr (?es ! ?k)"
    have other: "arp_lookup (?es[?k := ?e]) j = (if j = v then None else arp_lookup ?es j)" if "j \<noteq> ip" "j \<noteq> uip_all_zeroes_addr" for j
      using arp_lookup_update_other [OF ok ok2 k, of j] that by (simp add: v_def)
    have full: "(\<forall>e \<in> set ?es. arp_ipaddr e \<noteq> uip_all_zeroes_addr) \<and>
        (\<forall>e \<in> set ?es. arp_age (arptime a) e \<le> max 0 (arp_age (arptime a) (?es ! ?k)))" if "v \<noteq> uip_all_zeroes_addr"
    proof -
      let ?P = "\<lambda>e. arp_ipaddr e = uip_all_zeroes_addr"
      have "arp_find ?P ?es 0 = length ?es"
        using that arp_find_0(1,2) [of ?P ?es] by (auto simp: v_def arp_slot_def Let_def le_less split: if_split_asm)
      then show ?thesis
        using arp_find_0(3) [of ?P ?es] oldest_loop_oldest [of ?es "[]" ?es 0 "arptime a" 0 0] by (simp add: arp_slot_def)
    qed
    have "arp_lookup ?es ip = None" using new(1) assms(3) by (simp add: arp_lookup_None)
    with full other k show ?thesis using arp_lookup_update_same [OF ok2 k] assms(3) nth_mem [OF k]
      by (intro conjI exI [of _ "if v = uip_all_zeroes_addr then None else Some v"]) (auto simp: new(2) v_def)
  qed
qed

definition example_arp :: "ethaddr \<Rightarrow> arp_state" where
  "example_arp eth = \<lparr>arp_table = replicate 8 \<lparr>arp_ipaddr = (0, 0, 0, 0), arp_ethaddr = (0, 0, 0, 0, 0, 0), arp_time = 0\<rparr>, arptime = 0,
     uip_lladdr = eth, uip_netmask = (255, 255, 255, 0), uip_draddr = (10, 0, 0, 254)\<rparr>"

theorem arp_table_is_a_cache_witness:
  "arp_lookup (arp_table (uip_arp_update (10, 0, 0, 2) (2, 0, 0, 0, 0, 2) (arp_run [Tick, Learn (10, 0, 0, 3) (2, 0, 0, 0, 0, 3)] (example_arp (2, 0, 0, 0, 0, 1)))))
     (10, 0, 0, 2) = Some (2, 0, 0, 0, 0, 2)"
  using arp_table_is_a_cache [OF _ refl, of "example_arp (2, 0, 0, 0, 0, 1)" "(10, 0, 0, 2)" "(2, 0, 0, 0, 0, 2)" "[Tick, Learn (10, 0, 0, 3) (2, 0, 0, 0, 0, 3)]"]
  by (simp add: example_arp_def uip_all_zeroes_addr_def)

text \<open>After a wrap of the clock the forgotten entry may be the youngest: seven addresses are learnt at time
  250 and an eighth, after the wrap, at time 1; the ninth displaces the eighth.\<close>

definition learnt :: "u8 \<Rightarrow> arp_op" where
  "learnt n = Learn (10, 0, 0, n) (2, 0, 0, 0, 0, n)"

lemma arp_forgets_younger:
  "arp_lookup (arp_table (arp_run (replicate 250 Tick @ map learnt [1, 2, 3, 4, 5, 6, 7] @ replicate 7 Tick @ [learnt 8, Tick, learnt 9])
     (example_arp (2, 0, 0, 0, 0, 1)))) (10, 0, 0, 8) = None"
  "arp_lookup (arp_table (arp_run (replicate 250 Tick @ map learnt [1, 2, 3, 4, 5, 6, 7] @ replicate 7 Tick @ [learnt 8, Tick, learnt 9])
     (example_arp (2, 0, 0, 0, 0, 1)))) (10, 0, 0, 1) = Some (2, 0, 0, 0, 0, 1)"
  by code_simp+

section \<open>Resolving an address\<close>

lemma get6_put6 [simp]: "get6 (put6 p x m) p = x"
  by (simp add: get6_def put6_def split: prod.splits)

lemma put6_other: "a < p \<or> p + 6 \<le> a \<Longrightarrow> put6 p x m a = m a"
  by (auto simp: put6_def split: prod.splits)

text \<open>A field is read as it was when another one is written.\<close>

lemma get6_past [simp]:
  "q + 6 \<le> p \<or> p + 6 \<le> q \<Longrightarrow> get6 (put6 p x m) q = get6 m q"
  "q + 6 \<le> p \<or> p + 4 \<le> q \<Longrightarrow> get6 (put4 p y m) q = get6 m q"
  "q + 6 \<le> p \<or> p + 2 \<le> q \<Longrightarrow> get6 (put16 p w m) q = get6 m q"
  "q + 6 \<le> p \<or> p + 1 \<le> q \<Longrightarrow> get6 (m(p := b)) q = get6 m q"
  by (auto simp: get6_def put6_other put4_other put16_other)

lemma get4_past [simp]:
  "q + 4 \<le> p \<or> p + 6 \<le> q \<Longrightarrow> get4 (put6 p x m) q = get4 m q"
  "q + 4 \<le> p \<or> p + 4 \<le> q \<Longrightarrow> get4 (put4 p y m) q = get4 m q"
  "q + 4 \<le> p \<or> p + 2 \<le> q \<Longrightarrow> get4 (put16 p w m) q = get4 m q"
  "q + 4 \<le> p \<or> p + 1 \<le> q \<Longrightarrow> get4 (m(p := b)) q = get4 m q"
  by (auto simp: get4_def put6_other put4_other put16_other)

lemma rd16_past [simp]:
  "q + 2 \<le> p \<or> p + 6 \<le> q \<Longrightarrow> rd16 (put6 p x m) q = rd16 m q"
  "q + 2 \<le> p \<or> p + 4 \<le> q \<Longrightarrow> rd16 (put4 p y m) q = rd16 m q"
  "q + 2 \<le> p \<or> p + 2 \<le> q \<Longrightarrow> rd16 (put16 p w m) q = rd16 m q"
  "q + 2 \<le> p \<or> p + 1 \<le> q \<Longrightarrow> rd16 (m(p := b)) q = rd16 m q"
  by (auto simp: rd16_def put6_other put4_other put16_other)

lemma htons_inject [simp]: "uip_htons x = uip_htons y \<longleftrightarrow> x = y"
  by (metis htons_htons)

text \<open>What \<open>uip_arp_out\<close> makes of a packet for a host of the local network.\<close>

definition local_unicast :: "arp_state \<Rightarrow> ipaddr \<Rightarrow> 'a uip_state \<Rightarrow> bool" where
  "local_unicast a ip s \<longleftrightarrow> get4 (uip_buf s) ip_destipaddr = ip \<and> ip \<noteq> uip_broadcast_addr \<and> fst ip \<noteq> 224 \<and>
     ip \<noteq> uip_all_zeroes_addr \<and> uip_ipaddr_maskcmp ip (uip_hostaddr s) (uip_netmask a)"

lemma uip_arp_out_local:
  assumes ok: "arp_ok (arp_table a)" and u: "local_unicast a ip s"
  shows "uip_arp_out a s = (case arp_lookup (arp_table a) ip of None \<Rightarrow> arp_request a ip s | Some eth \<Rightarrow> eth_frame a eth s)"
proof -
  let ?P = "\<lambda>e. ip = arp_ipaddr e" let ?i = "arp_find ?P (arp_table a) 0"
  have out: "uip_arp_out a s = (if ?i = length (arp_table a) then arp_request a ip s else eth_frame a (arp_ethaddr (arp_table a ! ?i)) s)"
    using u by (simp add: uip_arp_out_def next_hop_def local_unicast_def)
  show ?thesis
  proof (cases "?i = length (arp_table a)")
    case True
    then have "arp_lookup (arp_table a) ip = None" by (auto simp: arp_find_0(3) arp_lookup_None)
    with True out show ?thesis by simp
  next
    case False
    then have i: "?i < length (arp_table a)" using arp_find_0(1) le_neq_implies_less by blast
    from arp_lookup_nth [OF ok i] arp_find_0(2) [OF i] u have "arp_lookup (arp_table a) ip = Some (arp_ethaddr (arp_table a ! ?i))"
      by (simp add: local_unicast_def)
    with False out show ?thesis by simp
  qed
qed

lemma arp_request_fields [simp]:
  "get6 (uip_buf (arp_request a ip s)) eth_dest = broadcast_ethaddr" "rd16 (uip_buf (arp_request a ip s)) eth_type = uip_htons UIP_ETHTYPE_ARP"
  "rd16 (uip_buf (arp_request a ip s)) arp_opcode = uip_htons ARP_REQUEST" "get6 (uip_buf (arp_request a ip s)) arp_shwaddr = uip_lladdr a"
  "get4 (uip_buf (arp_request a ip s)) arp_sipaddr = uip_hostaddr s" "get4 (uip_buf (arp_request a ip s)) arp_dipaddr = ip"
  "uip_len (arp_request a ip s) = SIZEOF_ARP_HDR"
  by (simp_all add: arp_request_def Let_def)

lemma eth_frame_fields [simp]:
  "get6 (uip_buf (eth_frame a d s)) eth_dest = d" "get6 (uip_buf (eth_frame a d s)) eth_src = uip_lladdr a"
  "rd16 (uip_buf (eth_frame a d s)) eth_type = uip_htons UIP_ETHTYPE_IP" "uip_len (eth_frame a d s) = uip_len s + SIZEOF_ETH_HDR"
  "14 \<le> k \<Longrightarrow> uip_buf (eth_frame a d s) k = uip_buf s k"
  by (simp_all add: eth_frame_def Let_def put6_other put16_other)

text \<open>A request for this host is answered, and any other request is ignored.\<close>

lemma uip_arp_arpin_request:
  assumes "uip_len s = SIZEOF_ARP_HDR" and "rd16 (uip_buf s) arp_opcode = uip_htons ARP_REQUEST"
  shows "get4 (uip_buf s) arp_dipaddr \<noteq> uip_hostaddr s \<Longrightarrow> uip_arp_arpin (a, s) = (a, s\<lparr>uip_len := 0\<rparr>)"
    and "get4 (uip_buf s) arp_dipaddr = uip_hostaddr s \<Longrightarrow>
      \<exists>m. uip_arp_arpin (a, s) = (uip_arp_update (get4 (uip_buf s) arp_sipaddr) (get6 (uip_buf s) arp_shwaddr) a, s\<lparr>uip_buf := m, uip_len := SIZEOF_ARP_HDR\<rparr>) \<and>
        get6 m eth_dest = get6 (uip_buf s) arp_shwaddr \<and> rd16 m eth_type = uip_htons UIP_ETHTYPE_ARP \<and> rd16 m arp_opcode = uip_htons ARP_REPLY \<and>
        get6 m arp_shwaddr = uip_lladdr a \<and> get4 m arp_sipaddr = uip_hostaddr s \<and> get4 m arp_dipaddr = get4 (uip_buf s) arp_sipaddr"
proof -
  have "uip_lladdr (uip_arp_update ip eth a) = uip_lladdr a" for ip eth by (simp add: uip_arp_update_def Let_def)
  then show "get4 (uip_buf s) arp_dipaddr = uip_hostaddr s \<Longrightarrow>
      \<exists>m. uip_arp_arpin (a, s) = (uip_arp_update (get4 (uip_buf s) arp_sipaddr) (get6 (uip_buf s) arp_shwaddr) a, s\<lparr>uip_buf := m, uip_len := SIZEOF_ARP_HDR\<rparr>) \<and>
        get6 m eth_dest = get6 (uip_buf s) arp_shwaddr \<and> rd16 m eth_type = uip_htons UIP_ETHTYPE_ARP \<and> rd16 m arp_opcode = uip_htons ARP_REPLY \<and>
        get6 m arp_shwaddr = uip_lladdr a \<and> get4 m arp_sipaddr = uip_hostaddr s \<and> get4 m arp_dipaddr = get4 (uip_buf s) arp_sipaddr"
    using assms by (auto simp: uip_arp_arpin_def Let_def)
  show "get4 (uip_buf s) arp_dipaddr \<noteq> uip_hostaddr s \<Longrightarrow> uip_arp_arpin (a, s) = (a, s\<lparr>uip_len := 0\<rparr>)"
    using assms by (simp add: uip_arp_arpin_def Let_def)
qed

lemma uip_arp_arpin_reply:
  assumes "uip_len s = SIZEOF_ARP_HDR" "rd16 (uip_buf s) arp_opcode = uip_htons ARP_REPLY" "get4 (uip_buf s) arp_dipaddr = uip_hostaddr s"
  shows "uip_arp_arpin (a, s) = (uip_arp_update (get4 (uip_buf s) arp_sipaddr) (get6 (uip_buf s) arp_shwaddr) a, s\<lparr>uip_len := 0\<rparr>)"
  using assms by (simp add: uip_arp_arpin_def Let_def uip_htons_def)

lemma uip_arp_update_other_fields [simp]:
  "uip_lladdr (uip_arp_update ip eth a) = uip_lladdr a" "uip_netmask (uip_arp_update ip eth a) = uip_netmask a"
  "uip_draddr (uip_arp_update ip eth a) = uip_draddr a" "arptime (uip_arp_update ip eth a) = arptime a"
  by (simp_all add: uip_arp_update_def Let_def)

lemma arp_learns:
  assumes ok: "arp_ok (arp_table a)" and ip: "ip \<noteq> uip_all_zeroes_addr"
  shows "arp_lookup (arp_table (uip_arp_update ip eth a)) ip = Some eth"
proof -
  note ok' = arp_ok_uip_arp_update [OF ok, of ip eth]
  have "arp_slot (arptime a) (arp_table a) < length (arp_table a)" using ok by (intro arp_slot_bounds) (auto simp: arp_ok_def)
  then show ?thesis
    using ip ok' arp_lookup_update_same [where es = "arp_table a" and e = "\<lparr>arp_ipaddr = ip, arp_ethaddr = eth, arp_time = arptime a\<rparr>"]
    by (cases rule: arp_update_cases [OF ok, of ip eth]) simp_all
qed

section \<open>The exchange\<close>

lemma output_packet_eth:
  assumes "node_output N = Some ethernet_output" and "0 < uip_len s"
  shows "sent_of (output_packet N s) = sent_of s @ [(uip_buf (uip_arp_out (arp_of s) s), uip_len (uip_arp_out (arp_of s) s))]"
    and "arp_of (output_packet N s) = arp_of s" and "uip_hostaddr (output_packet N s) = uip_hostaddr s"
proof -
  have a: "app_state (uip_arp_out a s) = app_state s" for a
    by (simp add: uip_arp_out_def arp_request_def eth_frame_def Let_def)
  show "sent_of (output_packet N s) = sent_of s @ [(uip_buf (uip_arp_out (arp_of s) s), uip_len (uip_arp_out (arp_of s) s))]"
    "arp_of (output_packet N s) = arp_of s" "uip_hostaddr (output_packet N s) = uip_hostaddr s"
    using assms by (simp_all add: output_packet_def tcpip_output_def ethernet_output_def ethernet_send_def Let_def a)
qed

text \<open>C11: Hosts on one Ethernet find each other. A host that has a packet for a neighbour whose link-layer
  address it does not know sends a broadcast frame instead; every other host drops that frame and stays
  as it is, and the neighbour answers it with a frame addressed to the asker. From then on every packet
  for the neighbour leaves in a frame with the neighbour's link-layer address, its bytes unchanged
  behind the Ethernet header, and the neighbour's driver hands exactly this packet to its stack.\<close>

theorem neighbours_find_each_other:
  assumes N: "node_output N = Some ethernet_output" and s: "0 < uip_len s" "local_unicast (arp_of s) (uip_hostaddr r) s"
    and unknown: "arp_lookup (arp_table (arp_of s)) (uip_hostaddr r) = None" and tables: "arp_ok (arp_table (arp_of s))" "arp_ok (arp_table (arp_of r))"
    and addr: "uip_hostaddr s \<noteq> uip_all_zeroes_addr"
  shows "\<exists>ask r' reply s'. sent_of (output_packet N s) = sent_of s @ [ask] \<and> get6 (fst ask) eth_dest = broadcast_ethaddr \<and>
    (\<forall>t. uip_hostaddr t \<noteq> uip_hostaddr r \<longrightarrow> pollhandler M ask t = Some (t\<lparr>uip_buf := fst ask, uip_len := 0\<rparr>)) \<and>
    pollhandler M ask r = Some r' \<and> sent_of r' = sent_of r @ [reply] \<and> get6 (fst reply) eth_dest = uip_lladdr (arp_of s) \<and>
    arp_lookup (arp_table (arp_of r')) (uip_hostaddr s) = Some (uip_lladdr (arp_of s)) \<and>
    pollhandler N reply (output_packet N s) = Some s' \<and> sent_of s' = sent_of s @ [ask] \<and>
    (\<forall>u q. arp_of u = arp_of s' \<longrightarrow> 0 < uip_len u \<and> uip_len u < uip_len u + 14 \<longrightarrow> local_unicast (arp_of u) (uip_hostaddr r) u \<longrightarrow>
      (\<exists>m. sent_of (output_packet N u) = sent_of u @ [(m, uip_len u + 14)] \<and> get6 m eth_dest = uip_lladdr (arp_of r) \<and>
         (\<forall>k \<ge> 14. m k = uip_buf u k) \<and> pollhandler M (m, uip_len u + 14) q = tcpip_input M (q\<lparr>uip_buf := m, uip_len := uip_len u\<rparr>)))"
proof -
  let ?a = "arp_of s" and ?b = "arp_of r"
  define f where "f = arp_request ?a (uip_hostaddr r) s"
  let ?ask = "(uip_buf f, uip_len f)"
  have f: "get6 (uip_buf f) eth_dest = broadcast_ethaddr" "rd16 (uip_buf f) eth_type = uip_htons UIP_ETHTYPE_ARP" "rd16 (uip_buf f) arp_opcode = uip_htons ARP_REQUEST"
    "get6 (uip_buf f) arp_shwaddr = uip_lladdr ?a" "get4 (uip_buf f) arp_sipaddr = uip_hostaddr s" "get4 (uip_buf f) arp_dipaddr = uip_hostaddr r" "uip_len f = SIZEOF_ARP_HDR"
    by (simp_all add: f_def)
  have sent: "sent_of (output_packet N s) = sent_of s @ [?ask]"
    using output_packet_eth(1) [OF N s(1)] uip_arp_out_local [OF tables(1) s(2)] unknown by (simp add: f_def)
  have ignored: "pollhandler M ?ask t = Some (t\<lparr>uip_buf := uip_buf f, uip_len := 0\<rparr>)" if "uip_hostaddr t \<noteq> uip_hostaddr r" for t
    using f that uip_arp_arpin_request(1) [where s = "t\<lparr>uip_buf := uip_buf f, uip_len := uip_len f\<rparr>" and a = "arp_of t"]
    by (simp add: pollhandler_def ethernet_input_def)
  obtain m where m: "uip_arp_arpin (?b, r\<lparr>uip_buf := uip_buf f, uip_len := uip_len f\<rparr>) =
      (uip_arp_update (uip_hostaddr s) (uip_lladdr ?a) ?b, r\<lparr>uip_buf := m, uip_len := SIZEOF_ARP_HDR\<rparr>)"
    "get6 m eth_dest = uip_lladdr ?a" "rd16 m eth_type = uip_htons UIP_ETHTYPE_ARP" "rd16 m arp_opcode = uip_htons ARP_REPLY"
    "get6 m arp_shwaddr = uip_lladdr ?b" "get4 m arp_sipaddr = uip_hostaddr r" "get4 m arp_dipaddr = uip_hostaddr s"
    using f uip_arp_arpin_request(2) [where s = "r\<lparr>uip_buf := uip_buf f, uip_len := uip_len f\<rparr>" and a = ?b] by auto
  let ?reply = "(m, SIZEOF_ARP_HDR)"
  obtain r' where r': "pollhandler M ?ask r = Some r'" "sent_of r' = sent_of r @ [?reply]" "arp_of r' = uip_arp_update (uip_hostaddr s) (uip_lladdr ?a) ?b"
    using f m by (simp add: pollhandler_def ethernet_input_def ethernet_send_def)
  let ?s1 = "output_packet N s"
  note s1 = output_packet_eth(2,3) [OF N s(1)]
  obtain s' where s': "pollhandler N ?reply ?s1 = Some s'" "sent_of s' = sent_of s @ [?ask]" "arp_of s' = uip_arp_update (uip_hostaddr r) (uip_lladdr ?b) ?a"
    using m sent s1 uip_arp_arpin_reply [where s = "?s1\<lparr>uip_buf := m, uip_len := SIZEOF_ARP_HDR\<rparr>" and a = ?a]
    by (simp add: pollhandler_def ethernet_input_def)
  have known: "arp_lookup (arp_table (arp_of s')) (uip_hostaddr r) = Some (uip_lladdr ?b)"
    using arp_learns [OF tables(1)] s(2) s'(3) by (simp add: local_unicast_def)
  have direct: "\<exists>m. sent_of (output_packet N u) = sent_of u @ [(m, uip_len u + 14)] \<and> get6 m eth_dest = uip_lladdr ?b \<and>
         (\<forall>k \<ge> 14. m k = uip_buf u k) \<and> pollhandler M (m, uip_len u + 14) q = tcpip_input M (q\<lparr>uip_buf := m, uip_len := uip_len u\<rparr>)"
    if "arp_of u = arp_of s'" "0 < uip_len u \<and> uip_len u < uip_len u + 14" "local_unicast (arp_of u) (uip_hostaddr r) u" for u and q :: "'b eth tcpip uip_state"
  proof -
    have "arp_ok (arp_table (arp_of u))" using that(1) s'(3) arp_ok_uip_arp_update [OF tables(1)] by simp
    from uip_arp_out_local [OF this that(3)] known that(1) have out: "uip_arp_out (arp_of u) u = eth_frame (arp_of u) (uip_lladdr ?b) u" by simp
    have "0 < uip_len u + 14" using that(2) by (metis word_gt_0 not_less_zero word_not_simps(1) word_zero_le le_less_trans)
    then show ?thesis using that(2) output_packet_eth(1) [OF N, of u] out
      by (intro exI [of _ "uip_buf (eth_frame (arp_of u) (uip_lladdr ?b) u)"]) (simp add: pollhandler_def ethernet_input_def)
  qed
  show ?thesis
    using sent f(1) ignored r' m(2) arp_learns [OF tables(2) addr] s' direct
    by (intro exI [of _ ?ask] exI [of _ r'] exI [of _ ?reply] exI [of _ s']) simp
qed

text \<open>10.0.0.1 has a packet for 10.0.0.2.\<close>

definition example_eth_node :: "unit eth node" where
  "example_eth_node = \<lparr>node_env = example_env\<lparr>UIP_LLH_LEN := 14\<rparr>, node_process = (\<lambda>p data s. (user (app_state s), [])),
     node_output = Some ethernet_output\<rparr>"

definition example_host :: "ipaddr \<Rightarrow> ethaddr \<Rightarrow> unit eth tcpip uip_state" where
  "example_host ip eth = (example_state \<lparr>conn_apps = [], udp_apps = [], listenports = [], periodic_expired = False, posted = [],
     user = \<lparr>eth_arp = example_arp eth, eth_sent = [], eth_user = ()\<rparr>\<rparr> example_conn)
     \<lparr>uip_hostaddr := ip, uip_buf := put4 ip_destipaddr (10, 0, 0, 2) (\<lambda>_. 0), uip_len := 40\<rparr>"

theorem neighbours_find_each_other_witness:
  "\<exists>ask r' reply. sent_of (output_packet example_eth_node (example_host (10, 0, 0, 1) (2, 0, 0, 0, 0, 1))) = [ask] \<and>
     pollhandler example_eth_node ask (example_host (10, 0, 0, 2) (2, 0, 0, 0, 0, 2)) = Some r' \<and> sent_of r' = [reply] \<and>
     get6 (fst reply) eth_dest = (2, 0, 0, 0, 0, 1)"
proof -
  let ?s = "example_host (10, 0, 0, 1) (2, 0, 0, 0, 0, 1)" and ?r = "example_host (10, 0, 0, 2) (2, 0, 0, 0, 0, 2)"
  have e: "arp_of (example_host ip eth) = example_arp eth" "sent_of (example_host ip eth) = []" "uip_hostaddr (example_host ip eth) = ip"
    "uip_len (example_host ip eth) = 40" "uip_buf (example_host ip eth) = put4 ip_destipaddr (10, 0, 0, 2) (\<lambda>_. 0)" for ip eth
    by (simp_all add: example_host_def) (simp_all add: example_state_def)
  have "arp_ok (arp_table (example_arp eth))" for eth
    by (simp add: arp_ok_def example_arp_def uip_all_zeroes_addr_def)
  moreover have "arp_lookup (arp_table (example_arp eth)) (10, 0, 0, 2) = None" "uip_lladdr (example_arp eth) = eth" for eth
    by (simp_all add: arp_lookup_None example_arp_def)
  moreover have "local_unicast (example_arp (2, 0, 0, 0, 0, 1)) (10, 0, 0, 2) ?s"
    by (simp add: local_unicast_def e uip_broadcast_addr_def uip_all_zeroes_addr_def uip_ipaddr_maskcmp_def example_arp_def)
  ultimately show ?thesis
    using neighbours_find_each_other [of example_eth_node ?s ?r example_eth_node]
    by (simp add: e example_eth_node_def uip_all_zeroes_addr_def) blast
qed

end
