(* ===== verification/Spec2Isabelle.thy ===== *)
theory Spec2Isabelle
  imports Prelude Simulation Clist Fifo Ringbuf Process Timers Etimer Memb Mmem Crc16 Gcr Aes128 CcmStar
    Linkaddr Frame802154 Packetbuf Slip FrameIE Framer802154 TschPacket NbrTable Llsec Queuebuf TschQueue TschClient
    UipSum UipArch Uip UipPacket Uip6502 UipTcp UipInv Tcpip UipRuns UipHandshake UipArp
begin

text \<open>
  The core of the Contiki operating system as this repository carries it for its 6502 machine,
  \<open>src/OS/contiki/core\<close>, with the 6502 port's arithmetic and network driver from
  \<open>src/OS/contiki/cpu/6502/net\<close>. The paths below are relative to \<open>core\<close> unless they say otherwise.

  \<^bold>\<open>Parts and how they interact.\<close> The kernel runs processes, which are protothreads, and delivers events
  to them; event timers are a process of the kernel. Library modules (lists, rings, memory pools,
  managed memory, checksums, codes, ciphers) are called by everything else. A packet for a radio is
  built in the packet buffer: the framer puts a header of IEEE 802.15.4 in front of it, TSCH
  adds information elements, CCM* encrypts and authenticates it, and the neighbour tables keep what a
  node knows of its neighbours. On the internet side one function, \<open>uip_process\<close>, is the TCP/IP stack;
  the TCP/IP process feeds it with packets, ticks and polls and calls the application back, and the
  Ethernet driver resolves addresses below it.

  \<^bold>\<open>Conventions.\<close> A \<open>uintN_t\<close> is a word of N bits, an \<open>int\<close> that takes small values is an \<^typ>\<open>int\<close>, a
  pointer is a \<^typ>\<open>nat\<close> with 0 for \<open>NULL\<close>, a structure is a record, memory is a function from addresses
  or a list of bytes. State is passed explicitly. \<^const>\<open>None\<close> as the result of an operation means that
  the C code does not return, or that it does something the language does not define; a
  theorem that an operation returns is stated as such. The clock and the \<open>unsigned int\<close> have 16 bits,
  as on the 6502. What is not under \<open>src\<close> or belongs to hardware or to users of a module is a parameter:
  the threads of the processes, the callbacks, the block cipher behind CCM*, random numbers, the
  network card, the application behind the stack.

  \<^bold>\<open>Theories, from the bottom.\<close>

  \<^item> Prelude: machine integers, chains of \<open>next\<close> pointers and generic lemmas. Simulation: the
    locale \<open>partial_simulation\<close>, for components that implement an abstract data type; it is
    interpreted on the lists, the memory pools, managed memory, the packet buffer, the queue buffers,
    the queues of TSCH and the neighbour tables, and turns one lemma per operation into a theorem on every sequence of operations. Fifo: the
    locale \<open>bounded_fifo\<close>, interpreted on the kernel's event queue and on both ring buffers.
  \<^item> Clist: \<open>lib/list.c\<close>. Ringbuf: \<open>lib/ringbuf.c\<close>, \<open>lib/ringbufindex.c\<close>. Memb: \<open>lib/memb.c\<close>. Mmem:
    \<open>lib/mmem.c\<close>. Each refines its abstract data type: sequences of distinct elements, bounded queues,
    disjoint blocks, blocks that keep their contents while they are moved.
  \<^item> Process: \<open>sys/process.c\<close>. The locale \<open>kernel_invariant\<close> states what threads can rely on; the list of
    processes stays a chain and the queue stays in range whatever they do, events arrive in order,
    and one turn of the scheduler does what is documented, with fuel that is shown to suffice.
  \<^item> Timers: \<open>sys/timer.c\<close>, \<open>sys/stimer.c\<close>. Etimer: \<open>sys/etimer.c\<close>; its list stays well formed however
    the clock runs, and a poll posts the events of the timers that have expired.
  \<^item> Crc16, Gcr, Aes128, CcmStar: \<open>lib/crc16.c\<close>, \<open>lib/gcr.c\<close>, \<open>lib/aes-128.c\<close>, \<open>lib/ccm-star.c\<close>, against
    the polynomial division, the inverse coding, FIPS-197 and the definition of CBC-MAC. The locale
    \<open>block_cipher\<close> is what CCM* needs of the cipher.
  \<^item> Linkaddr, Frame802154, Framer802154, FrameIE, TschPacket: \<open>net/linkaddr.c\<close>,
    \<open>net/mac/frame802154.c\<close>, \<open>net/mac/framer-802154.c\<close>, \<open>net/mac/frame802154e-ie.c\<close>,
    \<open>net/mac/tsch/tsch-packet.c\<close>: what is written is parsed back, and the parser stays in the buffer. The
    locale \<open>ie_writer\<close> is the contract of the functions that write an element.
  \<^item> Packetbuf: \<open>net/packetbuf.c\<close>. NbrTable: \<open>net/nbr-table.c\<close>. Slip: \<open>dev/slip.c\<close>.
  \<^item> Llsec: \<open>net/llsec/noncoresec\<close>, \<open>net/llsec/anti-replay.c\<close>, \<open>net/llsec/ccm-star-packetbuf.c\<close>: the security
    driver, which composes the framer, the packet buffer, CCM* and a neighbour table; secured packets
    arrive, no frame is accepted twice, and a frame that is too short stops the receiver.
  \<^item> Queuebuf: \<open>net/queuebuf.c\<close>; queued packets wait unchanged. TschQueue, TschClient: \<open>net/mac/tsch/tsch-queue.c\<close>, which
    composes lists, rings, memory pools and queue buffers into one first-in-first-out queue for each
    neighbour, and its back-off on shared links.
  \<^item> UipSum, UipArch: the checksums and sequence numbers of \<open>net/ipv4/uip.c\<close> and their versions in
    assembly language in \<open>cpu/6502/net/uip_arch.c\<close>, which agree. Uip: the rest of \<open>uip.c\<close>, one
    definition per label of \<open>uip_process\<close>. UipPacket: the packets it sends are valid. Uip6502: the input of UDP packets with the 6502 routine, which
    drops packets whose checksum is right. UipTcp: the moves
    of the TCP state machine; the locale \<open>uip_application\<close> is what the stack needs of its
    application. UipInv: the invariant of the connections.
  \<^item> Tcpip: \<open>net/ip/tcpip.c\<close> for IP version 4, and the states that a node can reach. It interprets
    \<open>uip_application\<close> for processes that make any of eight calls when they are called back (send, close,
    abort, stop, restart, mark, listen, unlisten) and open connections between the events; opening one
    within a callback, as \<open>apps/webbrowser/webclient.c\<close> does to reconnect, is not modelled. UipRuns: liveness and termination over
    several calls. UipHandshake: two nodes that run the code, opening a connection and sending data.
    UipArp: \<open>net/ipv4/uip_arp.c\<close> and \<open>cpu/6502/net/ethernet-drv.c\<close>.

  \<^bold>\<open>Bounds and fuel.\<close> Loops over chains are partial functions, or run on fuel that the theorems
  bound by the length of the list. The scheduler's turn is given fuel for its list of processes. A peer
  that never answers is given up within 648 ticks: eight retransmissions, each after at most
  48 + 1 ticks, and the 8-bit timer before them. \<open>uip_connect\<close> returns exactly when there are at most 255 connections, the range
  of its 8-bit loop counter; the loops of the other functions of \<open>uip.c\<close> with that counter are walks
  through the lists, right for tables of that size. CCM* is right up to 240 bytes of message and 254 of additional data, where
  its 8-bit positions begin to wrap; beyond that it is shown not to end.

  \<^bold>\<open>What modelling showed.\<close> Several operations do not do what they mean to in corner cases: each is
  stated as a lemma or described at its definition, and they are listed with the development.

  \<^bold>\<open>Not modelled.\<close> The emulator itself is C++. Assembly-language systems, vendored libraries, register
  definitions, drivers and the applications of Contiki are left out. Of the core, the IPv6
  stack and its routing, the Rime primitives, medium access, slot operation in
  interrupt context and its schedules, the services on top of the stack and the file systems are not modelled;
  they are further components of the same kind. Reassembly of IP fragments is off by default and
  does not compile.
\<close>

end
